(* ===== verification/Prelude.thy ===== *)
theory Prelude
  imports Main "HOL-Library.Word" "HOL-Library.Signed_Division" "HOL-Library.Monad_Syntax"
begin

unbundle bit_operations_syntax

section \<open>Prelude: integers of a given width and sign\<close>

text \<open>
  What the components share: the value of a hardware signal is an integer together with
  the width and the sign the graph gives it.  A signal of width \<open>w\<close> and sign \<open>s\<close> holds
  exactly the integers with \<open>fits w s\<close>; \<open>wrap w s\<close> brings any integer back into that range
  by keeping its low \<open>w\<close> bits and reading them as an unsigned or as a two's complement
  number.  The collections \<open>wrap_simps\<close> and \<open>fits_intros\<close> carry the component proofs.
  An aborted run (a failed \<^verbatim>\<open>Assert\<close>, \<^verbatim>\<open>Panic\<close>, \<^verbatim>\<open>TODO\<close>) is the value \<^term>\<open>None\<close>.
\<close>

named_theorems wrap_simps \<open>evaluation of wrap and fits\<close>
named_theorems fits_intros \<open>how the operations stay within a width\<close>

type_synonym nodeid = nat
type_synonym 'a abortable = "'a option"

definition fits :: "nat \<Rightarrow> bool \<Rightarrow> int \<Rightarrow> bool" where
  "fits w s v \<longleftrightarrow>
     (if w = 0 then v = 0
      else if s then - (2 ^ (w - 1)) \<le> v \<and> v < 2 ^ (w - 1)
      else 0 \<le> v \<and> v < 2 ^ w)"

definition wrap :: "nat \<Rightarrow> bool \<Rightarrow> int \<Rightarrow> int" where
  "wrap w s v =
     (if w = 0 then 0 else if s then signed_take_bit (w - 1) v else take_bit w v)"

text \<open>A check that the source makes with \<^verbatim>\<open>Assert\<close>: the run goes on only when it holds.\<close>

definition assert_that :: "bool \<Rightarrow> unit abortable" where
  "assert_that b = (if b then Some () else None)"

lemma assert_that_bind [simp]:
  "(assert_that b \<bind> f = Some y) \<longleftrightarrow> b \<and> f () = Some y"
  by (simp add: assert_that_def)

lemma assert_that_True [simp]: "assert_that True = Some ()"
  by (simp add: assert_that_def)

lemma assert_that_False [simp]: "assert_that False = None"
  by (simp add: assert_that_def)

subsection \<open>Range of wrap\<close>

lemma fits_wrap [simp, fits_intros]: "fits w s (wrap w s v)"
proof (cases "w = 0 \<or> \<not> s")
  case True
  then show ?thesis by (auto simp: fits_def wrap_def)
next
  case False
  then obtain n where "w = Suc n" and s by (cases w) auto
  then show ?thesis
    using signed_take_bit_int_less_exp [of n v] signed_take_bit_int_greater_eq_minus_exp [of n v]
    by (simp add: fits_def wrap_def)
qed

lemma wrap_fits: "fits w s v \<Longrightarrow> wrap w s v = v"
  by (auto simp: fits_def wrap_def take_bit_int_eq_self signed_take_bit_int_eq_self
      split: if_splits)

lemma wrap_eq_iff_fits: "wrap w s v = v \<longleftrightarrow> fits w s v"
  by (metis fits_wrap wrap_fits)

lemma wrap_idem [simp]: "wrap w s (wrap w s v) = wrap w s v"
  by (rule wrap_fits) simp

lemma wrap_0 [simp]: "wrap 0 s v = 0"
  by (simp add: wrap_def)

lemma wrap_zero [simp]: "wrap w s 0 = 0"
  by (simp add: wrap_def)

lemma fits_zero [simp, fits_intros]: "fits w s 0"
  by (simp add: fits_def)

lemma fits_unsigned: "fits w False v \<longleftrightarrow> 0 \<le> v \<and> v < 2 ^ w"
  by (auto simp: fits_def)

lemma wrap_unsigned: "wrap w False v = take_bit w v"
  by (simp add: wrap_def)

lemma fits_of_bool [simp, fits_intros]: "0 < w \<Longrightarrow> fits w False (of_bool b)"
  by (cases b) (auto simp: fits_def)

text \<open>The low bits survive: the two readings of a word agree on the word.\<close>

lemma take_bit_wrap: "n \<le> w \<Longrightarrow> take_bit n (wrap w s v) = take_bit n v"
proof (cases "w = 0 \<or> \<not> s")
  case True
  then show "n \<le> w \<Longrightarrow> ?thesis" by (auto simp: wrap_def min_def)
next
  case False
  assume "n \<le> w"
  with False obtain k where w: "w = Suc k" and s and "n \<le> Suc k" by (cases w) auto
  then show ?thesis by (simp add: wrap_def take_bit_signed_take_bit)
qed

lemma take_bit_wrap_same [simp]: "take_bit w (wrap w s v) = take_bit w v"
  by (simp add: take_bit_wrap)

lemma wrap_cong: "take_bit w a = take_bit w b \<Longrightarrow> wrap w s a = wrap w s b"
  by (cases w) (auto simp: wrap_def signed_take_bit_eq_iff_take_bit_eq)

lemma wrap_eq_iff: "wrap w s a = wrap w s b \<longleftrightarrow> take_bit w a = take_bit w b"
  by (metis take_bit_wrap_same wrap_cong)

lemma wrap_take_bit [simp]: "wrap w s (take_bit w v) = wrap w s v"
  by (simp add: wrap_eq_iff)

lemma wrap_wrap: "w \<le> w' \<Longrightarrow> wrap w s (wrap w' s' v) = wrap w s v"
  by (rule wrap_cong) (simp add: take_bit_wrap)

lemma fits_mono: "fits w s v \<Longrightarrow> w \<le> w' \<Longrightarrow> fits w' s v"
proof -
  assume f: "fits w s v" and le: "w \<le> w'"
  show ?thesis
  proof (cases "w = 0")
    case True with f show ?thesis by (simp add: fits_def)
  next
    case False
    from le have p: "(2::int) ^ (w - 1) \<le> 2 ^ (w' - 1)" "(2::int) ^ w \<le> 2 ^ w'"
      by (simp_all add: power_increasing)
    from False le have "w' \<noteq> 0" by simp
    with f False show ?thesis
      unfolding fits_def using p by (cases s; simp only: if_False if_True) linarith+
  qed
qed

lemma fits_unsigned_signed: "fits w False v \<Longrightarrow> w < w' \<Longrightarrow> fits w' True v"
proof -
  assume f: "fits w False v" and lt: "w < w'"
  then have p: "(2::int) ^ w \<le> 2 ^ (w' - 1)" by (intro power_increasing) auto
  have "- (2 ^ (w' - 1)) \<le> (0::int)" by simp
  moreover from f have "0 \<le> v \<and> v < 2 ^ w" by (simp add: fits_unsigned)
  moreover from lt have "w' \<noteq> 0" by simp
  ultimately show ?thesis using p
    unfolding fits_def by (simp only: if_True if_False) linarith
qed

lemma take_bit_eq_self_fits: "fits w False v \<Longrightarrow> take_bit w v = v"
  by (simp add: fits_unsigned take_bit_int_eq_self)

lemma take_bit_congr_le:
  "take_bit n (a::int) = take_bit n b \<Longrightarrow> m \<le> n \<Longrightarrow> take_bit m a = take_bit m b"
  by (metis min.absorb1 take_bit_take_bit)

subsection \<open>How the operations stay within a width\<close>

lemma fits_signed_iff: "fits w True v \<longleftrightarrow> - (2 ^ w) \<le> 2 * v \<and> 2 * v < 2 ^ w"
  by (cases w) (auto simp: fits_def)

lemma fits_add: "fits m s a \<Longrightarrow> fits n s b \<Longrightarrow> fits (Suc (max m n)) s (a + b)"
proof -
  assume "fits m s a" "fits n s b"
  then have "fits (max m n) s a" "fits (max m n) s b" by (auto elim: fits_mono)
  then show ?thesis by (cases s) (auto simp: fits_signed_iff fits_unsigned)
qed

lemma fits_diff_signed: "fits m True a \<Longrightarrow> fits n True b \<Longrightarrow> fits (Suc (max m n)) True (a - b)"
proof -
  assume "fits m True a" "fits n True b"
  then have "fits (max m n) True a" "fits (max m n) True b" by (auto elim: fits_mono)
  then show ?thesis by (auto simp: fits_signed_iff)
qed

lemma fits_mult: "fits m s a \<Longrightarrow> fits n s b \<Longrightarrow> fits (m + n) s (a * b)"
proof (cases s)
  case False
  assume "fits m s a" "fits n s b"
  with False have "0 \<le> a" "a < 2 ^ m" "0 \<le> b" "b < 2 ^ n" by (auto simp: fits_unsigned)
  with False show ?thesis by (auto simp: fits_unsigned power_add intro: mult_strict_mono)
next
  case True
  assume "fits m s a" "fits n s b"
  with True have a: "\<bar>2 * a\<bar> \<le> 2 ^ m" and b: "\<bar>2 * b\<bar> \<le> 2 ^ n" by (auto simp: fits_signed_iff)
  then have "\<bar>2 * a\<bar> * \<bar>2 * b\<bar> \<le> 2 ^ m * 2 ^ n" by (intro mult_mono) auto
  then have le: "\<bar>4 * (a * b)\<bar> \<le> 2 ^ (m + n)" by (simp add: abs_mult power_add algebra_simps)
  moreover have "0 < (2::int) ^ (m + n)" by simp
  ultimately have "- (2 ^ (m + n)) \<le> 2 * (a * b)" "2 * (a * b) < 2 ^ (m + n)" by linarith+
  with True show ?thesis by (simp add: fits_signed_iff)
qed

lemma fits_abs_signed: "fits w True v \<Longrightarrow> \<bar>u\<bar> \<le> \<bar>v\<bar> \<Longrightarrow> fits (Suc w) True u"
  by (auto simp: fits_signed_iff abs_if split: if_splits)

lemma int_div_le_self: "0 \<le> (a::int) \<Longrightarrow> 0 < b \<Longrightarrow> a div b \<le> a"
  using zdiv_mono2 [of a 1 b] by simp

lemma int_div_less: "0 < (c::int) \<Longrightarrow> a < k * c \<Longrightarrow> a div c < k"
proof (rule ccontr)
  assume c: "0 < c" "a < k * c" "\<not> a div c < k"
  then have "k * c \<le> a div c * c" by (simp add: mult_right_mono)
  also have "\<dots> \<le> a" using c by (simp add: div_times_less_eq_dividend minus_mod_eq_div_mult [symmetric])
  finally show False using c by simp
qed

lemma int_div_ge: "0 < (c::int) \<Longrightarrow> k * c \<le> a \<Longrightarrow> k \<le> a div c"
  using zdiv_mono1 [of "k * c" a c] by simp

lemma abs_sdiv_le: "\<bar>(a::int) sdiv b\<bar> \<le> \<bar>a\<bar>"
proof (cases "b = 0")
  case False
  then have "0 \<le> \<bar>a\<bar> div \<bar>b\<bar>" "\<bar>a\<bar> div \<bar>b\<bar> \<le> \<bar>a\<bar>"
    by (simp_all add: pos_imp_zdiv_nonneg_iff int_div_le_self)
  then show ?thesis by (simp add: signed_divide_int_def abs_mult abs_sgn_eq)
qed simp
   
lemma fits_sdiv: "fits m s a \<Longrightarrow> fits n s b \<Longrightarrow> b \<noteq> 0 \<Longrightarrow> fits (m + of_bool s) s (a sdiv b)"
proof (cases s)
  case True
  assume "fits m s a"
  with True show ?thesis using fits_abs_signed [OF _ abs_sdiv_le [of a b], of m] by simp
next
  case False
  assume f: "fits m s a" "fits n s b" "b \<noteq> 0"
  with False have "0 \<le> a" "0 < b" "a < 2 ^ m" by (auto simp: fits_unsigned)
  moreover from this have "a sdiv b = a div b"
    by (cases "a = 0") (simp_all add: signed_divide_int_def)
  moreover have "a div b \<le> a" using \<open>0 \<le> a\<close> \<open>0 < b\<close> by (simp add: int_div_le_self)
  ultimately show ?thesis using False by (simp add: fits_unsigned pos_imp_zdiv_nonneg_iff)
qed

lemma smod_bounds: "b \<noteq> 0 \<Longrightarrow> \<bar>(a::int) smod b\<bar> < \<bar>b\<bar> \<and> \<bar>a smod b\<bar> \<le> \<bar>a\<bar> \<and> (0 \<le> a \<longrightarrow> 0 \<le> a smod b) \<and> (a \<le> 0 \<longrightarrow> a smod b \<le> 0)"
proof -
  assume b: "b \<noteq> 0"
  have e: "a smod b = sgn a * (\<bar>a\<bar> mod \<bar>b\<bar>)"
    by (simp add: signed_modulo_int_def)
  have m: "0 \<le> \<bar>a\<bar> mod \<bar>b\<bar>" "\<bar>a\<bar> mod \<bar>b\<bar> < \<bar>b\<bar>" "\<bar>a\<bar> mod \<bar>b\<bar> \<le> \<bar>a\<bar>"
    using b by (simp_all add: zmod_le_nonneg_dividend)
  show ?thesis
    using m by (cases "0 < a"; cases "a = 0") (auto simp: e)
qed

lemma fits_smod: "fits m s a \<Longrightarrow> fits n s b \<Longrightarrow> b \<noteq> 0 \<Longrightarrow> fits (min m n) s (a smod b)"
proof -
  assume f: "fits m s a" "fits n s b" "b \<noteq> 0"
  have "fits m s (a smod b)" "fits n s (a smod b)"
    using f smod_bounds [OF f(3), of a]
    by (cases s; auto simp: fits_signed_iff fits_unsigned)+
  then show ?thesis by (simp add: min_def)
qed

lemma fits_push_bit: "fits w s a \<Longrightarrow> fits (w + n) s (push_bit n a)"
proof (cases s)
  case False
  assume "fits w s a"
  with False show ?thesis by (simp add: fits_unsigned push_bit_eq_mult power_add)
next
  case True
  assume "fits w s a"
  with True have "- (2 ^ w) \<le> 2 * a" "2 * a < 2 ^ w" by (auto simp: fits_signed_iff)
  then have "- (2 ^ w) * 2 ^ n \<le> (2 * a) * 2 ^ n" "(2 * a) * 2 ^ n < 2 ^ w * 2 ^ n"
    by (simp_all only: mult_right_mono mult_strict_right_mono zero_le_power zero_less_power)
  with True show ?thesis by (simp add: fits_signed_iff push_bit_eq_mult power_add)
qed

lemma fits_drop_bit: "fits w s a \<Longrightarrow> fits w s (drop_bit n a)"
proof -
  assume f: "fits w s a"
  have "drop_bit n a \<le> a" if "0 \<le> a" using that by (simp add: drop_bit_eq_div int_div_le_self)
  moreover have "0 \<le> drop_bit n a" if "0 \<le> a" using that by simp
  moreover have "a \<le> drop_bit n a \<and> drop_bit n a < 0" if "a < 0"
    using that int_div_ge [of "2 ^ n" a a] int_div_less [of "2 ^ n" a 0]
      mult_left_mono_neg [of 1 "2 ^ n" a]
    by (simp add: drop_bit_eq_div)
  moreover have "0 < (2::int) ^ w" by simp
  ultimately show ?thesis using f
    by (cases s; cases "0 \<le> a"; simp only: fits_signed_iff fits_unsigned) linarith+
qed

lemma fits_drop_bit_less: "fits w s a \<Longrightarrow> (s \<Longrightarrow> n < w \<or> w = 0) \<Longrightarrow> fits (w - n) s (drop_bit n a)"
proof -
  assume f: "fits w s a" and c: "s \<Longrightarrow> n < w \<or> w = 0"
  show ?thesis
  proof (cases "s \<and> w \<noteq> 0")
    case True
    with c have "n < w" by simp
    then have p: "(2::int) ^ w = 2 ^ (w - n) * 2 ^ n" by (simp flip: power_add)
    from f True have "(- (2 ^ (w - n))) * 2 ^ n \<le> 2 * a" "2 * a < 2 ^ (w - n) * 2 ^ n"
      by (simp_all add: fits_signed_iff p)
    moreover obtain k where k: "w - n = Suc k" using \<open>n < w\<close> by (cases "w - n") auto
    ultimately have "(- (2 ^ k)) * 2 ^ n \<le> a" "a < 2 ^ k * 2 ^ n" by simp_all
    then have "- (2 ^ k) \<le> a div 2 ^ n" "a div 2 ^ n < 2 ^ k"
      by (simp_all only: int_div_ge int_div_less zero_less_power zero_less_numeral)
    with True k show ?thesis by (simp add: fits_def drop_bit_eq_div)
  next
    case False
    with f have "take_bit w a = a"
      by (cases s) (auto simp: take_bit_eq_self_fits fits_def)
    then have "drop_bit n a = take_bit (w - n) (drop_bit n a)"
      by (metis drop_bit_take_bit)
    then have "fits (w - n) False (drop_bit n a)"
      by (metis fits_unsigned take_bit_int_less_exp take_bit_nonnegative)
    with False show ?thesis by (cases s) (auto simp: fits_def)
  qed
qed

lemma fits_take_bit: "n \<le> w \<Longrightarrow> fits w False (take_bit n v)"
  using fits_mono [of n False "take_bit n v" w] by (simp add: fits_unsigned)

lemma fits_uminus: "fits w s a \<Longrightarrow> fits (Suc w) True (- a)"
  by (cases s) (auto simp: fits_signed_iff fits_unsigned)

lemma fits_dshl: "fits w s a \<Longrightarrow> fits k False b \<Longrightarrow> fits (w + 2 ^ k - 1) s (push_bit (nat b) a)"
proof -
  assume f: "fits w s a" "fits k False b"
  then have "nat b < 2 ^ k" by (simp add: fits_unsigned nat_less_iff)
  then have "w + nat b \<le> w + 2 ^ k - 1" by linarith
  then show ?thesis using fits_push_bit [OF f(1), of "nat b"] by (metis fits_mono)
qed

lemma fits_cat: "fits (m + n) False (push_bit n (take_bit m a) + take_bit n b)"
proof -
  have "push_bit n (take_bit m a) + take_bit n b = take_bit n b OR push_bit n (take_bit m a)"
    by (metis add.commute concat_bit_def concat_bit_eq take_bit_take_bit min.idem)
  also have "\<dots> = take_bit (m + n) (take_bit n b OR push_bit n (take_bit m a))"
    by (rule bit_eqI) (auto simp: bit_simps)
  finally show ?thesis by (metis fits_take_bit order_refl)
qed
lemmas wrap_basics = wrap_fits wrap_wrap take_bit_wrap

end
