(* ===== verification/Types.thy ===== *)
theory Types
  imports Prelude
begin

section \<open>Enumerations of the graph and of the expression trees\<close>

text \<open>
  The enumerations of \<^verbatim>\<open>include/ExpTree.h\<close>, \<^verbatim>\<open>include/Node.h\<close>, \<^verbatim>\<open>include/common.h\<close>,
  \<^verbatim>\<open>include/valInfo.h\<close> and \<^verbatim>\<open>include/splitNode.h\<close>, with the constructors of the source.
\<close>

datatype OPType =
    OP_EMPTY | OP_MUX
  | OP_ADD | OP_SUB | OP_MUL | OP_DIV | OP_REM
  | OP_LT | OP_LEQ | OP_GT | OP_GEQ | OP_EQ | OP_NEQ
  | OP_DSHL | OP_DSHR | OP_AND | OP_OR | OP_XOR | OP_CAT
  | OP_ASUINT | OP_ASSINT | OP_ASCLOCK | OP_ASASYNCRESET
  | OP_CVT | OP_NEG | OP_NOT | OP_ANDR | OP_ORR | OP_XORR
  | OP_PAD | OP_SHL | OP_SHR | OP_HEAD | OP_TAIL
  | OP_BITS | OP_BITS_NOSHIFT
  | OP_INDEX_INT | OP_INDEX
  | OP_WHEN
  | OP_PRINTF | OP_ASSERT | OP_EXIT
  | OP_INT
  | OP_GROUP
  | OP_READ_MEM | OP_WRITE_MEM | OP_INFER_MEM
  | OP_INVALID | OP_RESET
  | OP_SEXT
  | OP_EXT_FUNC
  | OP_STMT_SEQ | OP_STMT_WHEN | OP_STMT_NODE

datatype ResetType = UNCERTAIN | ASYRESET | UINTRESET | ZERO_RESET

datatype NodeType =
    NODE_INVALID | NODE_REG_SRC | NODE_REG_DST | NODE_SPECIAL | NODE_INP | NODE_OUT
  | NODE_MEMORY | NODE_READER | NODE_WRITER | NODE_READWRITER | NODE_INFER | NODE_OTHERS
  | NODE_REG_RESET | NODE_EXT_IN | NODE_EXT_OUT | NODE_EXT

datatype NodeStatus =
    VALID_NODE | DEAD_NODE | CONSTANT_NODE | REPLICATION_NODE | SPLITTED_NODE | EMPTY_REG

datatype AsReset = EMPTY | NODE_ASYNC_RESET | NODE_UINT_RESET | NODE_ALL_RESET

datatype SuperType =
    SUPER_VALID | SUPER_EXTMOD | SUPER_ASYNC_RESET | SUPER_UINT_RESET | SUPER_UPDATE_REG

datatype valStatus =
    VAL_EMPTY | VAL_VALID | VAL_CONSTANT | VAL_FINISH | VAL_INVALID | VAL_EXT

datatype valType = TYPE_NORMAL | TYPE_ARRAY | TYPE_STMT

datatype ElementType = ELE_EMPTY | ELE_NODE | ELE_INT | ELE_SPACE

datatype OPLevel = OPL_BITS | OPL_LOGI | OPL_ARITH

end
