(* ===== verification/OpFuncs.thy ===== *)
theory OpFuncs
  imports Prelude
begin

unbundle bit_operations_syntax

section \<open>Operation functions on arbitrary precision integers\<close>

text \<open>
  \<^verbatim>\<open>src/src/opFuncs.cpp\<close> evaluates the primitive operations of FIRRTL on constants, with the
  GNU multiple precision library.  The library is not part of the repository: its calls
  are the fields of the parameter \<open>G\<close>, and the locale \<open>gmp_lib\<close> states what its manual
  documents of them.  An \<^verbatim>\<open>mpz_t\<close> holds a mathematical integer, so assignment and
  initialisation are plain values here.  Every function returns the new value of its
  \<^verbatim>\<open>dst\<close>; the two that read the old value (\<open>s_shr\<close>, and division by zero) take it as an
  argument.  A function that can fail its \<^verbatim>\<open>Assert\<close> returns an option.
\<close>

text \<open>
  The integer a digit string denotes in a base: an optional sign and at least one digit,
  letters in either case.  This is the notation \<^verbatim>\<open>mpz_set_str\<close> reads and \<^verbatim>\<open>mpz_get_str\<close> writes.
\<close>

definition digit_val :: "char \<Rightarrow> nat option" where
  "digit_val c =
     (let n = of_char c :: nat
      in if 48 \<le> n \<and> n \<le> 57 then Some (n - 48)
         else if 97 \<le> n \<and> n \<le> 122 then Some (n - 87)
         else if 65 \<le> n \<and> n \<le> 90 then Some (n - 55) else None)"

fun digits_acc :: "nat \<Rightarrow> nat \<Rightarrow> string \<Rightarrow> nat option" where
  "digits_acc base acc [] = Some acc"
| "digits_acc base acc (c # cs) =
     (case digit_val c of
        None \<Rightarrow> None
      | Some d \<Rightarrow> if d < base then digits_acc base (base * acc + d) cs else None)"

definition nat_of_str :: "nat \<Rightarrow> string \<Rightarrow> nat option" where
  "nat_of_str base s = (if s = [] then None else digits_acc base 0 s)"

definition int_of_str :: "nat \<Rightarrow> string \<Rightarrow> int option" where
  "int_of_str base s =
     (case s of
        [] \<Rightarrow> None
      | c # cs \<Rightarrow> if c = CHR ''-'' then map_option (\<lambda>n. - int n) (nat_of_str base cs)
                  else map_option int (nat_of_str base s))"

record gmp =
  mpz_add :: "int \<Rightarrow> int \<Rightarrow> int"
  mpz_sub :: "int \<Rightarrow> int \<Rightarrow> int"
  mpz_mul :: "int \<Rightarrow> int \<Rightarrow> int"
  mpz_neg :: "int \<Rightarrow> int"
  mpz_mul_2exp :: "int \<Rightarrow> nat \<Rightarrow> int"
  mpz_tdiv_q_2exp :: "int \<Rightarrow> nat \<Rightarrow> int"
  mpz_fdiv_q_2exp :: "int \<Rightarrow> nat \<Rightarrow> int"
  mpz_tdiv_q :: "int \<Rightarrow> int \<Rightarrow> int"
  mpz_tdiv_r :: "int \<Rightarrow> int \<Rightarrow> int"
  mpz_and :: "int \<Rightarrow> int \<Rightarrow> int"
  mpz_ior :: "int \<Rightarrow> int \<Rightarrow> int"
  mpz_xor :: "int \<Rightarrow> int \<Rightarrow> int"
  mpz_cmp :: "int \<Rightarrow> int \<Rightarrow> int"
  mpz_tstbit :: "int \<Rightarrow> nat \<Rightarrow> bool"
  mpz_popcount :: "int \<Rightarrow> nat"
  mpz_get_ui :: "int \<Rightarrow> nat"
  mpz_set_str :: "string \<Rightarrow> nat \<Rightarrow> int"
  mpz_get_str :: "nat \<Rightarrow> int \<Rightarrow> string"

text \<open>The number of bits set below position \<open>n\<close>, and what the manual documents.\<close>

definition ones_below :: "nat \<Rightarrow> int \<Rightarrow> nat" where
  "ones_below n v = length (filter (bit v) [0..<n])"

locale gmp_lib =
  fixes G :: gmp
  assumes add: "mpz_add G a b = a + b"
    and sub: "mpz_sub G a b = a - b"
    and mul: "mpz_mul G a b = a * b"
    and neg: "mpz_neg G a = - a"
    and mul_2exp: "mpz_mul_2exp G a n = a * 2 ^ n"
    and tdiv_q_2exp: "mpz_tdiv_q_2exp G a n = a sdiv 2 ^ n"
    and fdiv_q_2exp: "mpz_fdiv_q_2exp G a n = a div 2 ^ n"
    and tdiv_q: "b \<noteq> 0 \<Longrightarrow> mpz_tdiv_q G a b = a sdiv b"
    and tdiv_r: "b \<noteq> 0 \<Longrightarrow> mpz_tdiv_r G a b = a smod b"
    and logand: "mpz_and G a b = a AND b"
    and logior: "mpz_ior G a b = a OR b"
    and logxor: "mpz_xor G a b = a XOR b"
    and cmp_less: "(mpz_cmp G a b < 0) = (a < b)"
    and cmp_eq: "(mpz_cmp G a b = 0) = (a = b)"
    and tstbit: "mpz_tstbit G a n = bit a n"
    and popcount: "0 \<le> a \<Longrightarrow> a < 2 ^ n \<Longrightarrow> mpz_popcount G a = ones_below n a"
    and popcount_neg: "a < 0 \<Longrightarrow> mpz_popcount G a = 2 ^ 64 - 1"
    and get_ui: "mpz_get_ui G a = nat \<bar>a\<bar> mod 2 ^ 64"
    and set_str: "int_of_str base str = Some a \<Longrightarrow> mpz_set_str G str base = a"
    and get_str: "base = 10 \<or> base = 16 \<Longrightarrow> int_of_str base (mpz_get_str G base a) = Some a"
    and get_str_nonneg: "base = 10 \<or> base = 16 \<Longrightarrow> 0 \<le> a \<Longrightarrow> hd (mpz_get_str G base a) \<noteq> CHR ''-''"

section \<open>opFuncs.cpp, in the order of the file\<close>

definition ones_mask :: "gmp \<Rightarrow> nat \<Rightarrow> int" where
  "ones_mask G n = mpz_sub G (mpz_mul_2exp G 1 n) 1"

definition u_pad :: "gmp \<Rightarrow> int \<Rightarrow> nat \<Rightarrow> nat \<Rightarrow> int" where
  "u_pad G src bitcnt n = src"

definition s_pad :: "gmp \<Rightarrow> int \<Rightarrow> nat \<Rightarrow> nat \<Rightarrow> int" where
  "s_pad G src bitcnt n =
     (if n \<le> bitcnt \<or> \<not> mpz_cmp G src 0 < 0 then src
      else mpz_ior G (mpz_mul_2exp G (ones_mask G (n - bitcnt)) bitcnt) src)"

definition u_shl :: "gmp \<Rightarrow> int \<Rightarrow> nat \<Rightarrow> nat \<Rightarrow> int" where
  "u_shl G src bitcnt n = mpz_mul_2exp G src n"

definition u_shr :: "gmp \<Rightarrow> int \<Rightarrow> nat \<Rightarrow> nat \<Rightarrow> int" where
  "u_shr G src bitcnt n = mpz_tdiv_q_2exp G src n"

text \<open>The negative branch of \<open>s_shr\<close> shifts \<^verbatim>\<open>dst\<close>, not \<^verbatim>\<open>src\<close>.\<close>

definition s_shr :: "gmp \<Rightarrow> int \<Rightarrow> int \<Rightarrow> nat \<Rightarrow> nat \<Rightarrow> int" where
  "s_shr G dst src bitcnt n =
     (if mpz_cmp G src 0 < 0 then mpz_fdiv_q_2exp G dst n else mpz_tdiv_q_2exp G src n)"

definition u_head :: "gmp \<Rightarrow> int \<Rightarrow> nat \<Rightarrow> nat \<Rightarrow> int" where
  "u_head G src bitcnt n = mpz_tdiv_q_2exp G src n"

definition u_tail :: "gmp \<Rightarrow> int \<Rightarrow> nat \<Rightarrow> nat \<Rightarrow> int" where
  "u_tail G src bitcnt n =
     (if mpz_cmp G src 0 = 0 then src
      else if mpz_cmp G src 0 < 0
      then mpz_and G (ones_mask G n) (mpz_add G (mpz_mul_2exp G 1 bitcnt) src)
      else mpz_and G (ones_mask G n) src)"

definition u_asUInt :: "gmp \<Rightarrow> int \<Rightarrow> nat \<Rightarrow> int" where
  "u_asUInt G src bitcnt =
     (if mpz_cmp G src 0 < 0 then mpz_add G (mpz_mul_2exp G 1 bitcnt) src else src)"

text \<open>
  Bit positions are unsigned 64-bit numbers: one below position 0 is the largest of them.
  A selection \<open>h\<close> down to \<open>l\<close> is only made with \<open>l \<le> h + 1\<close>, where \<open>h - l + 1\<close> does not wrap.
\<close>

definition bitcnt_pred :: "nat \<Rightarrow> nat" where
  "bitcnt_pred n = (if n = 0 then 2 ^ 64 - 1 else n - 1)"

definition s_asSInt :: "gmp \<Rightarrow> int \<Rightarrow> nat \<Rightarrow> int" where
  "s_asSInt G src bitcnt =
     (if 0 < mpz_cmp G src 0 \<and> mpz_tstbit G src (bitcnt_pred bitcnt)
      then mpz_neg G (mpz_sub G (mpz_mul_2exp G 1 bitcnt) src) else src)"

definition u_asClock :: "gmp \<Rightarrow> int \<Rightarrow> nat \<Rightarrow> int" where
  "u_asClock G src bitcnt = src"

definition u_asAsyncReset :: "gmp \<Rightarrow> int \<Rightarrow> nat \<Rightarrow> int" where
  "u_asAsyncReset G src bitcnt = src"

definition u_cvt :: "gmp \<Rightarrow> int \<Rightarrow> nat \<Rightarrow> int" where
  "u_cvt G src bitcnt = src"

definition s_cvt :: "gmp \<Rightarrow> int \<Rightarrow> nat \<Rightarrow> int" where
  "s_cvt G src bitcnt = src"

definition s_neg :: "gmp \<Rightarrow> int \<Rightarrow> nat \<Rightarrow> int" where
  "s_neg G src bitcnt = mpz_sub G 0 src"

definition u_not :: "gmp \<Rightarrow> int \<Rightarrow> nat \<Rightarrow> int" where
  "u_not G src bitcnt = mpz_xor G (ones_mask G bitcnt) src"

definition u_orr :: "gmp \<Rightarrow> int \<Rightarrow> nat \<Rightarrow> int" where
  "u_orr G src bitcnt = (if mpz_cmp G src 0 = 0 then 0 else 1)"

definition u_andr :: "gmp \<Rightarrow> int \<Rightarrow> nat \<Rightarrow> int" where
  "u_andr G src bitcnt = of_bool (mpz_cmp G (ones_mask G bitcnt) src = 0)"

definition u_xorr :: "gmp \<Rightarrow> int \<Rightarrow> nat \<Rightarrow> int" where
  "u_xorr G src bitcnt = int (mpz_popcount G src mod 2)"

definition us_add :: "gmp \<Rightarrow> int \<Rightarrow> nat \<Rightarrow> int \<Rightarrow> nat \<Rightarrow> int" where
  "us_add G src1 bitcnt1 src2 bitcnt2 = mpz_add G src1 src2"

definition us_sub :: "gmp \<Rightarrow> int \<Rightarrow> int \<Rightarrow> nat \<Rightarrow> int" where
  "us_sub G src1 src2 dst_bitcnt =
     (if mpz_cmp G src2 0 = 0 then src1
      else mpz_add G (mpz_sub G (mpz_mul_2exp G 1 dst_bitcnt) src2) src1)"

definition us_mul :: "gmp \<Rightarrow> int \<Rightarrow> nat \<Rightarrow> int \<Rightarrow> nat \<Rightarrow> int" where
  "us_mul G src1 bitcnt1 src2 bitcnt2 = mpz_mul G src1 src2"

definition us_div :: "gmp \<Rightarrow> int \<Rightarrow> int \<Rightarrow> nat \<Rightarrow> int \<Rightarrow> nat \<Rightarrow> int" where
  "us_div G dst src1 bitcnt1 src2 bitcnt2 =
     (if mpz_cmp G src2 0 = 0 then dst else mpz_tdiv_q G src1 src2)"

definition us_rem :: "gmp \<Rightarrow> int \<Rightarrow> int \<Rightarrow> nat \<Rightarrow> int \<Rightarrow> nat \<Rightarrow> int" where
  "us_rem G dst src1 bitcnt1 src2 bitcnt2 =
     (if mpz_cmp G src2 0 = 0 then dst else mpz_tdiv_r G src1 src2)"

definition us_lt :: "gmp \<Rightarrow> int \<Rightarrow> nat \<Rightarrow> int \<Rightarrow> nat \<Rightarrow> int" where
  "us_lt G op1 bitcnt1 op2 bitcnt2 = of_bool (mpz_cmp G op1 op2 < 0)"

definition us_leq :: "gmp \<Rightarrow> int \<Rightarrow> nat \<Rightarrow> int \<Rightarrow> nat \<Rightarrow> int" where
  "us_leq G op1 bitcnt1 op2 bitcnt2 = of_bool (mpz_cmp G op1 op2 \<le> 0)"

definition us_gt :: "gmp \<Rightarrow> int \<Rightarrow> nat \<Rightarrow> int \<Rightarrow> nat \<Rightarrow> int" where
  "us_gt G op1 bitcnt1 op2 bitcnt2 = of_bool (mpz_cmp G op1 op2 > 0)"

definition us_geq :: "gmp \<Rightarrow> int \<Rightarrow> nat \<Rightarrow> int \<Rightarrow> nat \<Rightarrow> int" where
  "us_geq G op1 bitcnt1 op2 bitcnt2 = of_bool (mpz_cmp G op1 op2 \<ge> 0)"

definition us_eq :: "gmp \<Rightarrow> int \<Rightarrow> nat \<Rightarrow> int \<Rightarrow> nat \<Rightarrow> int" where
  "us_eq G op1 bitcnt1 op2 bitcnt2 = of_bool (mpz_cmp G op1 op2 = 0)"

definition us_neq :: "gmp \<Rightarrow> int \<Rightarrow> nat \<Rightarrow> int \<Rightarrow> nat \<Rightarrow> int" where
  "us_neq G op1 bitcnt1 op2 bitcnt2 = of_bool (mpz_cmp G op1 op2 \<noteq> 0)"

definition u_dshl :: "gmp \<Rightarrow> int \<Rightarrow> nat \<Rightarrow> int \<Rightarrow> nat \<Rightarrow> int" where
  "u_dshl G src1 bitcnt1 src2 bitcnt2 = mpz_mul_2exp G src1 (mpz_get_ui G src2)"

definition u_dshr :: "gmp \<Rightarrow> int \<Rightarrow> nat \<Rightarrow> int \<Rightarrow> nat \<Rightarrow> int" where
  "u_dshr G src1 bitcnt1 src2 bitcnt2 = mpz_tdiv_q_2exp G src1 (mpz_get_ui G src2)"

text \<open>
  The shift amount of \<open>s_dshr\<close> goes through a C++ \<^verbatim>\<open>int\<close> and back to the unsigned
  64-bit bit count: the low 32 bits, sign extended to 64.
\<close>

definition int32_of_ui :: "nat \<Rightarrow> nat" where
  "int32_of_ui n = unat (scast (word_of_nat n :: 32 word) :: 64 word)"

definition s_dshr :: "gmp \<Rightarrow> int \<Rightarrow> nat \<Rightarrow> int \<Rightarrow> nat \<Rightarrow> int" where
  "s_dshr G src1 bitcnt1 src2 bitcnt2 =
     (let n = int32_of_ui (mpz_get_ui G src2)
      in if mpz_cmp G src1 0 < 0 then mpz_fdiv_q_2exp G src1 n else mpz_tdiv_q_2exp G src1 n)"

definition u_and :: "gmp \<Rightarrow> int \<Rightarrow> nat \<Rightarrow> int \<Rightarrow> nat \<Rightarrow> int" where
  "u_and G src1 bitcnt1 src2 bitcnt2 = mpz_and G src1 src2"

definition u_ior :: "gmp \<Rightarrow> int \<Rightarrow> nat \<Rightarrow> int \<Rightarrow> nat \<Rightarrow> int" where
  "u_ior G src1 bitcnt1 src2 bitcnt2 = mpz_ior G src1 src2"

definition u_xor :: "gmp \<Rightarrow> int \<Rightarrow> nat \<Rightarrow> int \<Rightarrow> nat \<Rightarrow> int" where
  "u_xor G src1 bitcnt1 src2 bitcnt2 = mpz_xor G src1 src2"

definition u_cat :: "gmp \<Rightarrow> int \<Rightarrow> nat \<Rightarrow> int \<Rightarrow> nat \<Rightarrow> int abortable" where
  "u_cat G src1 bitcnt1 src2 bitcnt2 =
     do { assert_that (\<not> mpz_cmp G src1 0 < 0 \<and> \<not> mpz_cmp G src2 0 < 0);
          Some (mpz_ior G (mpz_mul_2exp G src1 bitcnt2) src2) }"

definition u_bits :: "gmp \<Rightarrow> int \<Rightarrow> nat \<Rightarrow> nat \<Rightarrow> nat \<Rightarrow> int" where
  "u_bits G src bitcnt h l =
     (let t1 = (if mpz_cmp G src 0 < 0
                then mpz_tdiv_q_2exp G (mpz_add G (mpz_mul_2exp G 1 bitcnt) src) l
                else mpz_tdiv_q_2exp G src l)
      in mpz_and G t1 (ones_mask G (Suc h - l)))"

definition u_bits_noshift :: "gmp \<Rightarrow> int \<Rightarrow> nat \<Rightarrow> nat \<Rightarrow> nat \<Rightarrow> int" where
  "u_bits_noshift G src bitcnt h l =
     (let t1 = (if mpz_cmp G src 0 < 0 then mpz_add G (mpz_mul_2exp G 1 bitcnt) src else src)
      in mpz_and G t1 (mpz_mul_2exp G (ones_mask G (Suc h - l)) l))"

definition us_mux :: "gmp \<Rightarrow> int \<Rightarrow> int \<Rightarrow> int \<Rightarrow> int" where
  "us_mux G cond src1 src2 = (if mpz_cmp G cond 0 \<noteq> 0 then src1 else src2)"

section \<open>What the functions compute, for any library that keeps its manual\<close>

lemma sdiv_pow2_nonneg: "0 \<le> (a::int) \<Longrightarrow> a sdiv 2 ^ n = drop_bit n a"
  by (cases "a = 0") (simp_all add: signed_divide_int_def drop_bit_eq_div)

lemma fits_neg_wrap: "fits w True v \<Longrightarrow> v < 0 \<Longrightarrow> take_bit w v = 2 ^ w + v"
proof -
  assume f: "fits w True v" and neg: "v < 0"
  then obtain k where w: "w = Suc k" by (cases w) (auto simp: fits_def)
  with f have "- (2 ^ k) \<le> v" by (simp add: fits_def)
  with neg w have "0 \<le> 2 ^ w + v" "2 ^ w + v < 2 ^ w" by auto
  then have "take_bit w (2 ^ w + v) = 2 ^ w + v" by (simp add: take_bit_int_eq_self)
  moreover have "take_bit w (2 ^ w + v) = take_bit w v"
    by (simp add: take_bit_eq_mod)
  ultimately show ?thesis by simp
qed

lemma fits_nonneg_take_bit: "fits w s v \<Longrightarrow> 0 \<le> v \<Longrightarrow> take_bit w v = v"
  by (cases s; cases w) (auto simp: fits_def take_bit_int_eq_self)

lemma fits_neg_signed: "fits w s v \<Longrightarrow> v < 0 \<Longrightarrow> s"
  by (cases s) (auto simp: fits_def split: if_splits)

text \<open>How \<open>u_asUInt\<close>, \<open>u_bits\<close> and \<open>u_tail\<close> read a signed operand: its two's complement word.\<close>

lemma unsigned_reading:
  "fits w s v \<Longrightarrow> (if v < 0 then 2 ^ w + v else v) = take_bit w v"
  using fits_neg_signed [of w s v] fits_neg_wrap [of w v] fits_nonneg_take_bit [of w s v]
  by (cases "v < 0"; cases s) auto

lemma int32_of_ui_small: "0 \<le> b \<Longrightarrow> b < 2 ^ 31 \<Longrightarrow> int32_of_ui (nat b) = nat b"
proof -
  assume b: "0 \<le> b" "b < 2 ^ 31"
  have "(word_of_nat (nat b) :: 32 word) = word_of_int b"
    using b by (metis nat_0_le of_int_of_nat_eq)
  then have "sint (word_of_nat (nat b) :: 32 word) = b"
    using b by (simp add: signed_of_int signed_take_bit_int_eq_self)
  then show ?thesis using b
    by (simp add: int32_of_ui_def scast_eq unsigned_of_int take_bit_int_eq_self)
qed

context gmp_lib
begin

lemma cmp_greater: "(0 < mpz_cmp G a b) = (b < a)"
  using cmp_less [of a b] cmp_eq [of a b] by linarith

lemma cmp_leq: "(mpz_cmp G a b \<le> 0) = (a \<le> b)"
  using cmp_greater [of a b] by linarith

lemma cmp_geq: "(0 \<le> mpz_cmp G a b) = (b \<le> a)"
  using cmp_less [of a b] by linarith

lemmas laws = add sub mul neg mul_2exp tdiv_q_2exp fdiv_q_2exp tdiv_q tdiv_r logand logior logxor
  cmp_less cmp_eq cmp_greater cmp_leq cmp_geq tstbit get_ui

lemma mask: "ones_mask G n = mask n"
  by (simp add: ones_mask_def laws mask_eq_exp_minus_1)

lemma asUInt: "fits b s v \<Longrightarrow> u_asUInt G v b = wrap b False v"
  using unsigned_reading [of b s v] by (auto simp: u_asUInt_def laws wrap_unsigned)

lemma asSInt_unsigned: "fits b False v \<Longrightarrow> s_asSInt G v b = wrap b True v"
proof (cases b)
  case 0
  assume "fits b False v"
  with 0 show ?thesis by (simp add: fits_def s_asSInt_def laws)
next
  case (Suc k)
  assume "fits b False v"
  with Suc have r: "0 \<le> v" "take_bit (Suc k) v = v" by (simp_all add: fits_unsigned take_bit_int_eq_self)
  have "wrap b True v = v - 2 ^ Suc k * of_bool (bit v k)"
    using r Suc by (simp add: wrap_def signed_take_bit_eq_take_bit_minus)
  moreover have "v = 0 \<Longrightarrow> \<not> bit v k" by simp
  ultimately show ?thesis using Suc r
    by (cases "v = 0"; cases "bit v k") (auto simp: s_asSInt_def laws bitcnt_pred_def)
qed

lemma asSInt_signed: "fits b True v \<Longrightarrow> s_asSInt G v b = v"
proof (cases b)
  case 0
  assume "fits b True v"
  with 0 show ?thesis by (simp add: fits_def s_asSInt_def laws)
next
  case (Suc k)
  assume "fits b True v"
  with Suc have "v < 2 ^ k" by (simp add: fits_def)
  then have "0 < v \<Longrightarrow> \<not> bit v k"
    by (simp add: bit_iff_odd_drop_bit drop_bit_eq_div)
  with Suc show ?thesis by (auto simp: s_asSInt_def laws bitcnt_pred_def)
qed

lemma asSInt: "fits b s v \<Longrightarrow> s_asSInt G v b = wrap b True v"
  by (cases s) (simp_all add: asSInt_unsigned asSInt_signed wrap_fits)

lemma pad_signed: "fits b True v \<Longrightarrow> s_pad G v b n = v"
proof (cases "n \<le> b \<or> 0 \<le> v")
  case True
  then show ?thesis by (auto simp: s_pad_def laws)
next
  case False
  assume f: "fits b True v"
  have "bit (push_bit b (mask (n - b)) OR v) i = bit v i" for i
  proof (cases "i < b")
    case True then show ?thesis by (simp add: bit_simps)
  next
    case ge: False
    from f False have "take_bit b v = 2 ^ b + v" by (simp add: fits_neg_wrap)
    then have "v = take_bit b v - 2 ^ b" by simp
    moreover have "bit (take_bit b v - 2 ^ b) i"
    proof -
      have "(take_bit b v + (- 1) * 2 ^ b) div 2 ^ b = - 1 + take_bit b v div 2 ^ b"
        by (rule div_mult_self1) simp
      then have "drop_bit b (take_bit b v - 2 ^ b) = - 1"
        by (simp add: drop_bit_eq_div)
      then have "bit (drop_bit b (take_bit b v - 2 ^ b)) (i - b)" by simp
      with ge show ?thesis by (simp add: bit_drop_bit_eq)
    qed
    ultimately have "bit v i" by metis
    then show ?thesis by (simp add: bit_simps)
  qed
  then have "push_bit b (mask (n - b)) OR v = v" by (rule bit_eqI)
  with False show ?thesis
    by (simp add: s_pad_def laws mask push_bit_eq_mult)
qed

lemma tail: "fits b s v \<Longrightarrow> n \<le> b \<Longrightarrow> u_tail G v b n = take_bit n v"
proof -
  assume f: "fits b s v" and n: "n \<le> b"
  have "take_bit n (2 ^ b + v) = take_bit n v"
    using n by (simp add: take_bit_eq_mod mod_add_cong le_imp_power_dvd mod_0_imp_dvd
        dvd_imp_mod_0 mod_add_left_eq [symmetric])
  then show ?thesis
    by (auto simp: u_tail_def laws mask and.commute [of "mask n"] take_bit_eq_mask [symmetric])
qed

lemma bits: "fits b s v \<Longrightarrow> u_bits G v b h l = take_bit (Suc h - l) (drop_bit l (take_bit b v))"
proof -
  assume f: "fits b s v"
  have "u_bits G v b h l
      = take_bit (Suc h - l) ((if v < 0 then 2 ^ b + v else v) sdiv 2 ^ l)"
    by (simp add: u_bits_def laws mask take_bit_eq_mask Let_def)
  also have "\<dots> = take_bit (Suc h - l) (drop_bit l (take_bit b v))"
    using unsigned_reading [OF f] by (simp add: sdiv_pow2_nonneg)
  finally show ?thesis .
qed

lemma bits_noshift:
  "fits b s v \<Longrightarrow>
   u_bits_noshift G v b h l = push_bit l (take_bit (Suc h - l) (drop_bit l (take_bit b v)))"
proof -
  assume f: "fits b s v"
  have "u_bits_noshift G v b h l
      = (if v < 0 then 2 ^ b + v else v) AND push_bit l (mask (Suc h - l))"
    by (simp add: u_bits_noshift_def laws mask Let_def push_bit_eq_mult)
  also have "\<dots> = take_bit b v AND push_bit l (mask (Suc h - l))"
    by (simp only: unsigned_reading [OF f])
  also have "\<dots> = push_bit l (take_bit (Suc h - l) (drop_bit l (take_bit b v)))"
    by (rule bit_eqI) (auto simp: bit_simps)
  finally show ?thesis .
qed

lemma sub_wrap: "wrap w s (us_sub G a b w) = wrap w s (a - b)"
proof -
  have "take_bit w (2 ^ w + (a - b)) = take_bit w (a - b)"
    by (simp add: take_bit_eq_mod)
  then have "wrap w s (2 ^ w + (a - b)) = wrap w s (a - b)" by (rule wrap_cong)
  then show ?thesis by (simp add: us_sub_def laws algebra_simps)
qed

lemma not_wrap: "take_bit b (u_not G v b) = take_bit b (NOT v)"
  by (rule bit_eqI) (auto simp: u_not_def laws mask bit_simps)

lemma orr: "u_orr G v b = of_bool (v \<noteq> 0)"
  by (simp add: u_orr_def laws)

lemma andr: "u_andr G v b = of_bool (v = mask b)"
  by (auto simp: u_andr_def laws mask)

lemma xorr: "0 \<le> v \<Longrightarrow> v < 2 ^ n \<Longrightarrow> u_xorr G v b = int (ones_below n v mod 2)"
  by (simp add: u_xorr_def popcount)

lemma cat: "0 \<le> a \<Longrightarrow> fits w False b \<Longrightarrow> u_cat G a n b w = Some (a * 2 ^ w + b)"
proof -
  assume a: "0 \<le> a" and b: "fits w False b"
  then have "take_bit w b = b" by (simp add: take_bit_eq_self_fits)
  then have "push_bit w a OR b = push_bit w a + b"
    by (metis concat_bit_def concat_bit_eq or.commute add.commute)
  with a b show ?thesis
    by (auto simp: u_cat_def laws push_bit_eq_mult fits_unsigned)
qed

lemma shr_unsigned: "0 \<le> v \<Longrightarrow> u_shr G v b n = drop_bit n v"
  by (simp add: u_shr_def laws sdiv_pow2_nonneg)

lemma head_unsigned: "0 \<le> v \<Longrightarrow> u_head G v b n = drop_bit n v"
  by (simp add: u_head_def laws sdiv_pow2_nonneg)

lemma dshr_unsigned: "0 \<le> a \<Longrightarrow> 0 \<le> b \<Longrightarrow> b < 2 ^ 64 \<Longrightarrow> u_dshr G a n b m = drop_bit (nat b) a"
  by (simp add: u_dshr_def laws sdiv_pow2_nonneg nat_mod_distrib [symmetric])

lemma dshl: "0 \<le> b \<Longrightarrow> b < 2 ^ 64 \<Longrightarrow> u_dshl G a n b m = push_bit (nat b) a"
  by (simp add: u_dshl_def laws push_bit_eq_mult nat_mod_distrib [symmetric])

lemma dshr_signed: "0 \<le> b \<Longrightarrow> b < 2 ^ 31 \<Longrightarrow> s_dshr G a n b m = drop_bit (nat b) a"
  by (auto simp: s_dshr_def laws int32_of_ui_small sdiv_pow2_nonneg drop_bit_eq_div Let_def)

end

section \<open>The library as the integers\<close>

text \<open>
  An instance of the interface in which every call is the operation on integers: it shows
  that what the manual documents can hold, and evaluates the model on concrete inputs.
\<close>

text \<open>Digits of a natural number in a base up to 16, most significant first.\<close>

definition digit_char :: "nat \<Rightarrow> char" where
  "digit_char d = (if d < 10 then char_of (48 + d) else char_of (87 + d))"

function str_of_nat :: "nat \<Rightarrow> nat \<Rightarrow> string" where
  "str_of_nat base n =
     (if base < 2 then [] else if n < base then [digit_char n]
      else str_of_nat base (n div base) @ [digit_char (n mod base)])"
  by pat_completeness auto
termination
  by (relation "measure (\<lambda>(base, n). n)") auto

declare str_of_nat.simps [simp del]

definition str_of_int :: "nat \<Rightarrow> int \<Rightarrow> string" where
  "str_of_int base a =
     (if a < 0 then CHR ''-'' # str_of_nat base (nat (- a)) else str_of_nat base (nat a))"

lemma digit_val_char: "d < 16 \<Longrightarrow> digit_val (digit_char d) = Some d"
  by (simp add: digit_val_def digit_char_def)

lemma digit_char_not_minus: "d < 16 \<Longrightarrow> digit_char d \<noteq> CHR ''-''"
proof
  assume "d < 16" "digit_char d = CHR ''-''"
  then have "digit_val CHR ''-'' = Some d" using digit_val_char [of d] by simp
  then show False by (simp add: digit_val_def)
qed

lemma digits_acc_append:
  "digits_acc base acc (xs @ ys) =
     (case digits_acc base acc xs of None \<Rightarrow> None | Some a \<Rightarrow> digits_acc base a ys)"
  by (induction base acc xs rule: digits_acc.induct) (auto split: option.splits)

lemma str_of_nat_nonempty: "2 \<le> base \<Longrightarrow> str_of_nat base n \<noteq> []"
  by (subst str_of_nat.simps) simp

lemma digits_acc_str_of_nat:
  "2 \<le> base \<Longrightarrow> base \<le> 16 \<Longrightarrow> digits_acc base 0 (str_of_nat base n) = Some n"
proof (induction base n rule: str_of_nat.induct)
  case (1 base n)
  show ?case
  proof (cases "n < base")
    case True
    with 1 show ?thesis by (subst str_of_nat.simps) (simp add: digit_val_char)
  next
    case False
    with 1 have "digits_acc base 0 (str_of_nat base (n div base)) = Some (n div base)" by simp
    moreover have "n mod base < base" "n mod base < 16"
      using "1.prems" by (auto intro: less_le_trans [OF mod_less_divisor])
    ultimately show ?thesis using False "1.prems"
      by (subst str_of_nat.simps) (simp add: digits_acc_append digit_val_char)
  qed
qed

lemma hd_str_of_nat: "2 \<le> base \<Longrightarrow> base \<le> 16 \<Longrightarrow> hd (str_of_nat base n) \<noteq> CHR ''-''"
proof (induction base n rule: str_of_nat.induct)
  case (1 base n)
  then show ?case
    by (subst str_of_nat.simps) (simp add: digit_char_not_minus hd_append str_of_nat_nonempty)
qed

lemma nat_of_str_of_nat [simp]:
  "2 \<le> base \<Longrightarrow> base \<le> 16 \<Longrightarrow> nat_of_str base (str_of_nat base n) = Some n"
  by (simp add: nat_of_str_def str_of_nat_nonempty digits_acc_str_of_nat)

lemma int_of_str_of_int:
  "2 \<le> base \<Longrightarrow> base \<le> 16 \<Longrightarrow> int_of_str base (str_of_int base a) = Some a"
proof (cases "a < 0")
  case True
  assume "2 \<le> base" "base \<le> 16"
  with True show ?thesis by (simp add: int_of_str_def str_of_int_def)
next
  case False
  assume b: "2 \<le> base" "base \<le> 16"
  with str_of_nat_nonempty obtain c cs where c: "str_of_nat base (nat a) = c # cs"
    by (meson list.exhaust)
  moreover have "c \<noteq> CHR ''-''" using hd_str_of_nat [OF b, of "nat a"] c by simp
  moreover have "nat_of_str base (c # cs) = Some (nat a)" using b by (simp flip: c)
  ultimately show ?thesis using False by (simp add: int_of_str_def str_of_int_def)
qed

fun ones_of :: "nat \<Rightarrow> nat" where
  "ones_of n = (if n = 0 then 0 else n mod 2 + ones_of (n div 2))"

declare ones_of.simps [simp del]

definition gmp_int :: gmp where
  "gmp_int = \<lparr>mpz_add = (+), mpz_sub = (-), mpz_mul = (*), mpz_neg = uminus,
     mpz_mul_2exp = (\<lambda>a n. a * 2 ^ n), mpz_tdiv_q_2exp = (\<lambda>a n. a sdiv 2 ^ n),
     mpz_fdiv_q_2exp = (\<lambda>a n. a div 2 ^ n), mpz_tdiv_q = (sdiv), mpz_tdiv_r = (smod),
     mpz_and = (AND), mpz_ior = (OR), mpz_xor = (XOR), mpz_cmp = (\<lambda>a b. sgn (a - b)),
     mpz_tstbit = bit,
     mpz_popcount = (\<lambda>a. if a < 0 then 2 ^ 64 - 1 else ones_of (nat a)),
     mpz_get_ui = (\<lambda>a. nat \<bar>a\<bar> mod 2 ^ 64),
     mpz_set_str = (\<lambda>s base. case int_of_str base s of Some a \<Rightarrow> a | None \<Rightarrow> 0),
     mpz_get_str = str_of_int\<rparr>"

lemma ones_below_Suc: "ones_below (Suc n) v = of_bool (odd v) + ones_below n (v div 2)"
proof -
  have "[0..<Suc n] = 0 # map Suc [0..<n]"
    by (simp add: upt_conv_Cons map_Suc_upt del: upt_Suc)
  then show ?thesis
    by (auto simp: ones_below_def filter_map comp_def bit_0 bit_Suc simp del: upt_Suc)
qed

lemma ones_below_zero: "ones_below n 0 = 0"
  by (simp add: ones_below_def)

lemma ones_of_below: "0 \<le> a \<Longrightarrow> a < 2 ^ n \<Longrightarrow> ones_of (nat a) = ones_below n a"
proof (induction n arbitrary: a)
  case 0
  then show ?case by (simp add: ones_below_def ones_of.simps)
next
  case (Suc n)
  show ?case
  proof (cases "a = 0")
    case True
    then show ?thesis by (simp add: ones_below_zero ones_of.simps)
  next
    case False
    with Suc.prems have "0 \<le> a div 2" "a div 2 < 2 ^ n" by auto
    then have "ones_of (nat (a div 2)) = ones_below n (a div 2)" by (rule Suc.IH)
    moreover have "nat a mod 2 = of_bool (odd a)"
      using Suc.prems by (simp add: mod2_eq_if even_nat_iff)
    moreover have "nat a div 2 = nat (a div 2)"
      using Suc.prems by (simp add: nat_div_distrib)
    ultimately show ?thesis using False Suc.prems
      by (simp add: ones_of.simps [of "nat a"] ones_below_Suc)
  qed
qed

interpretation gmp_int: gmp_lib gmp_int
  by unfold_locales
    (auto simp: gmp_int_def ones_of_below sgn_if int_of_str_of_int hd_str_of_nat,
     simp_all add: str_of_int_def hd_str_of_nat)

lemma gmp_lib_int: "gmp_lib gmp_int"
  by (rule gmp_int.gmp_lib_axioms)

section \<open>Properties\<close>

text \<open>
  C32: reading a signed constant as unsigned and back returns it, and so does the other
  order for an unsigned one: \<open>u_asUInt\<close> and \<open>s_asSInt\<close> are inverse on values that fit.
\<close>

theorem asUInt_asSInt_inverse:
  assumes "gmp_lib G"
  shows "(fits w True v \<longrightarrow> s_asSInt G (u_asUInt G v w) w = v)
       \<and> (fits w False v \<longrightarrow> u_asUInt G (s_asSInt G v w) w = v)"
proof -
  note as = gmp_lib.asUInt [OF assms] gmp_lib.asSInt [OF assms]
  show ?thesis
    using as(1) [of w True v] as(2) [of w False "wrap w False v"]
      as(2) [of w False v] as(1) [of w True "wrap w True v"]
    by (simp add: wrap_wrap wrap_fits)
qed

theorem asUInt_asSInt_inverse_witness:
  "gmp_lib gmp_int \<and> s_asSInt gmp_int (u_asUInt gmp_int (-3) 4) 4 = -3
     \<and> u_asUInt gmp_int (s_asSInt gmp_int 13 4) 4 = 13"
  using asUInt_asSInt_inverse [OF gmp_lib_int, of 4 "-3"]
    asUInt_asSInt_inverse [OF gmp_lib_int, of 4 13] gmp_lib_int
  by (simp add: fits_def)

text \<open>
  Subtraction by adding the modulus: \<open>us_sub\<close> followed by the truncation that every
  caller makes is subtraction at the destination's width, for any operands.
\<close>

theorem us_sub_correct:
  assumes "gmp_lib G"
  shows "wrap w s (us_sub G a b w) = wrap w s (a - b)"
  by (rule gmp_lib.sub_wrap [OF assms])

theorem us_sub_correct_witness:
  "gmp_lib gmp_int \<and> wrap 4 False (us_sub gmp_int 3 5 4) = 14"
  using us_sub_correct [OF gmp_lib_int, of 4 False 3 5] gmp_lib_int
  by (simp add: wrap_def take_bit_eq_mod)

text \<open>
  Bit selection: \<open>u_bits\<close> returns bits \<open>h\<close> down to \<open>l\<close> of the operand's word, also for a
  negative operand, and \<open>u_bits_noshift\<close> the same bits in place.
\<close>

theorem u_bits_correct:
  assumes "gmp_lib G" and "fits w s v" and "l \<le> h"
  shows "(bit (u_bits G v w h l) i \<longleftrightarrow> i \<le> h - l \<and> l + i < w \<and> bit v (l + i))
       \<and> (bit (u_bits_noshift G v w h l) i \<longleftrightarrow> l \<le> i \<and> i \<le> h \<and> i < w \<and> bit v i)"
  using gmp_lib.bits [OF assms(1,2)] gmp_lib.bits_noshift [OF assms(1,2)] assms(3)
  by (auto simp: bit_simps)

theorem u_bits_correct_witness:
  "bit (u_bits gmp_int (-3) 4 3 2) 0 \<and> \<not> bit (u_bits_noshift gmp_int (-3) 4 3 0) 1"
  using u_bits_correct [OF gmp_lib_int, of 4 True "-3" 2 3 0]
    u_bits_correct [OF gmp_lib_int, of 4 True "-3" 0 3 1]
  by (simp add: fits_def bit_iff_odd)

end
