(* ===== verification/Util.thy ===== *)
theory Util
  imports Types OpFuncs
begin

section \<open>Utilities: constants, masks and type names\<close>

text \<open>
  \<^verbatim>\<open>src/util.cpp\<close> and the width macros of \<^verbatim>\<open>include/common.h\<close>: how FIRRTL literals are
  read, how operations are named, and the text of the masks, shifts and C++ types that the
  code generator pastes together.  Widths are the C++ \<^verbatim>\<open>int\<close> of the source, as integers.
\<close>

text \<open>\<^verbatim>\<open>s[i]\<close> on a \<^verbatim>\<open>std::string\<close>: the terminating zero at the end.\<close>

definition char_at :: "string \<Rightarrow> nat \<Rightarrow> char" where
  "char_at s i = (if i < length s then s ! i else CHR 0x00)"

definition firStrBase :: "string \<Rightarrow> nat \<times> string" where
  "firStrBase s =
     (if length s \<le> 1 then (10, s)
      else
        let neg = (char_at s 0 = CHR ''-'');
            ret = (if neg then ''-'' else '''');
            idx = (if neg then 1 else 0)
        in if char_at s idx \<noteq> CHR ''0'' then (10, s)
           else
             let idx = idx + 1; c = char_at s idx
             in if c \<noteq> CHR ''b'' \<and> c \<noteq> CHR ''o'' \<and> c \<noteq> CHR ''d'' \<and> c \<noteq> CHR ''h''
                then (10, ret @ drop (idx - 1) s)
                else ((if c = CHR ''b'' then 2 else if c = CHR ''o'' then 8
                       else if c = CHR ''h'' then 16 else 10),
                      ret @ drop (idx + 1) s))"

text \<open>\<^verbatim>\<open>to_hex_string\<close>: the loop prepends the digit of the remainder until \<open>x\<close> is zero.\<close>

function hex_loop :: "nat \<Rightarrow> string \<Rightarrow> string" where
  "hex_loop x ret =
     (if x = 0 then ret
      else let rem = x mod 16
           in hex_loop (x div 16) (char_of (if rem < 10 then rem + 48 else rem - 10 + 97) # ret))"
  by pat_completeness auto
termination
  by (relation "measure fst") auto

declare hex_loop.simps [simp del]

definition to_hex_string :: "nat \<Rightarrow> string" where
  "to_hex_string x = (if x = 0 then ''0'' else hex_loop x '''')"

definition expr2Map :: "(string \<times> OPType) list" where
  "expr2Map =
     [(''add'', OP_ADD), (''sub'', OP_SUB), (''mul'', OP_MUL), (''div'', OP_DIV),
      (''rem'', OP_REM), (''lt'', OP_LT), (''leq'', OP_LEQ), (''gt'', OP_GT),
      (''geq'', OP_GEQ), (''eq'', OP_EQ), (''neq'', OP_NEQ), (''dshl'', OP_DSHL),
      (''dshr'', OP_DSHR), (''and'', OP_AND), (''or'', OP_OR), (''xor'', OP_XOR),
      (''cat'', OP_CAT)]"

definition str2op_expr2 :: "string \<Rightarrow> OPType abortable" where
  "str2op_expr2 name = map_of expr2Map name"

definition expr1Map :: "(string \<times> OPType) list" where
  "expr1Map =
     [(''asUInt'', OP_ASUINT), (''asSInt'', OP_ASSINT), (''asClock'', OP_ASCLOCK),
      (''asAsyncReset'', OP_ASASYNCRESET), (''cvt'', OP_CVT), (''neg'', OP_NEG),
      (''not'', OP_NOT), (''andr'', OP_ANDR), (''orr'', OP_ORR), (''xorr'', OP_XORR)]"

definition str2op_expr1 :: "string \<Rightarrow> OPType abortable" where
  "str2op_expr1 name = map_of expr1Map name"

definition expr1int1Map :: "(string \<times> OPType) list" where
  "expr1int1Map =
     [(''pad'', OP_PAD), (''shl'', OP_SHL), (''shr'', OP_SHR), (''head'', OP_HEAD),
      (''tail'', OP_TAIL)]"

definition str2op_expr1int1 :: "string \<Rightarrow> OPType abortable" where
  "str2op_expr1int1 name = map_of expr1int1Map name"

text \<open>
  \<^verbatim>\<open>__builtin_clz\<close> on 32 bits is 32 minus the length of the number in bits; a shift of the
  C++ \<^verbatim>\<open>int\<close> 1 is a shift of a 32-bit word, read as signed.
\<close>

fun bit_length :: "nat \<Rightarrow> nat" where
  "bit_length n = (if n = 0 then 0 else Suc (bit_length (n div 2)))"

declare bit_length.simps [simp del]

definition clz32 :: "nat \<Rightarrow> nat" where
  "clz32 n = 32 - bit_length n"

definition upperPower2 :: "int \<Rightarrow> int" where
  "upperPower2 x =
     (if x \<le> 1 then x else sint (push_bit (32 - clz32 (nat (x - 1))) (1 :: 32 word)))"

definition upperLog2 :: "int \<Rightarrow> int" where
  "upperLog2 x = (if x \<le> 1 then x else int (32 - clz32 (nat (x - 1))))"

definition roundup64 :: "int \<Rightarrow> int" where
  "roundup64 a = 64 * ((a + 63) div 64)"

definition BASIC_WIDTH :: int where "BASIC_WIDTH = 256"

definition widthBits :: "int \<Rightarrow> int" where
  "widthBits width =
     (if width \<le> 8 then 8 else if width \<le> 16 then 16 else if width \<le> 32 then 32
      else if width \<le> 64 then 64 else roundup64 width)"

definition widthUType :: "int \<Rightarrow> string" where
  "widthUType width =
     (if width \<le> 8 then ''uint8_t'' else if width \<le> 16 then ''uint16_t''
      else if width \<le> 32 then ''uint32_t'' else if width \<le> 64 then ''uint64_t''
      else ''unsigned _BitInt('' @ str_of_int 10 (roundup64 width) @ '')'')"

definition widthSType :: "int \<Rightarrow> string" where
  "widthSType width =
     (if width \<le> 8 then ''int8_t'' else if width \<le> 16 then ''int16_t''
      else if width \<le> 32 then ''int32_t'' else if width \<le> 64 then ''int64_t''
      else ''_BitInt('' @ str_of_int 10 (roundup64 width) @ '')'')"

definition Cast :: "int \<Rightarrow> bool \<Rightarrow> string" where
  "Cast width sign = ''('' @ (if sign then widthSType width else widthUType width) @ '')''"

definition headTable :: "string list" where
  "headTable = ['''', ''1'', ''3'', ''7'']"

definition bitMask :: "int \<Rightarrow> string abortable" where
  "bitMask width =
     do { assert_that (0 < width);
          Some (if width \<le> 64
                then ''0x'' @ headTable ! nat (width mod 4)
                       @ replicate (nat (width div 4)) (CHR ''f'')
                else if width mod 64 = 0
                then ''(('' @ widthUType width @ '')0 - 1)''
                else ''((('' @ widthUType width @ '')1 << '' @ str_of_int 10 width @ '') - 1)'') }"

datatype ShiftDir = Left | Right

definition shiftBits :: "nat \<Rightarrow> ShiftDir \<Rightarrow> string" where
  "shiftBits bits dir =
     (if bits = 0 then ''''
      else (if dir = Left then '' << '' else '' >> '') @ str_of_nat 10 bits)"

definition shiftBits_str :: "string \<Rightarrow> ShiftDir \<Rightarrow> string" where
  "shiftBits_str bits dir =
     (if bits = ''0'' \<or> bits = ''0x0'' then ''''
      else (if dir = Left then '' << '' else '' >> '') @ bits)"

section \<open>Facts about the utilities\<close>

lemma hex_digit: "rem < 16 \<Longrightarrow> char_of (if rem < 10 then rem + 48 else rem - 10 + 97) = digit_char rem"
  by (auto simp: digit_char_def add.commute)

lemma hex_loop_str: "0 < x \<Longrightarrow> hex_loop x ret = str_of_nat 16 x @ ret"
proof (induction x ret rule: hex_loop.induct)
  case (1 x ret)
  have m: "x mod 16 < 16" by simp
  show ?case
  proof (cases "x < 16")
    case True
    then have "x div 16 = 0" by simp
    with 1(2) True show ?thesis
      by (simp only: hex_loop.simps [of x ret] str_of_nat.simps [of 16 x] Let_def)
        (simp add: digit_char_def add.commute hex_loop.simps [of 0])
  next
    case False
    with 1(1) [OF _ refl] have
      "hex_loop (x div 16) (digit_char (x mod 16) # ret)
        = str_of_nat 16 (x div 16) @ digit_char (x mod 16) # ret"
      using 1(2) m by (simp add: hex_digit)
    with False 1(2) show ?thesis
      by (simp only: hex_loop.simps [of x ret] str_of_nat.simps [of 16 x] Let_def)
        (simp add: hex_digit)
  qed
qed

lemma char_of_48: "CHR ''0'' = char_of (48 :: nat)"
  by code_simp

lemma to_hex_string_str: "to_hex_string x = str_of_nat 16 x"
  by (simp add: to_hex_string_def hex_loop_str)
    (simp add: str_of_nat.simps digit_char_def char_of_48)

lemma bit_length_bounds: "0 < n \<Longrightarrow> 2 ^ (bit_length n - 1) \<le> n \<and> n < 2 ^ bit_length n"
proof (induction n rule: bit_length.induct)
  case (1 n)
  show ?case
  proof (cases "n = 1")
    case True
    then show ?thesis by (simp add: bit_length.simps [of "Suc 0"] bit_length.simps [of 0])
  next
    case False
    with 1 have IH: "2 ^ (bit_length (n div 2) - 1) \<le> n div 2" "n div 2 < 2 ^ bit_length (n div 2)"
      by auto
    have "bit_length (n div 2) = Suc (bit_length (n div 2) - 1)"
      using False 1(2) by (subst (1 2) bit_length.simps) auto
    then have "(2::nat) ^ bit_length (n div 2) = 2 * 2 ^ (bit_length (n div 2) - 1)"
      by (metis power_Suc)
    moreover have "2 * (n div 2) \<le> n" "n < 2 * (n div 2) + 2" by simp_all
    ultimately have "2 * 2 ^ (bit_length (n div 2) - 1) \<le> n"
      and "n < 4 * 2 ^ (bit_length (n div 2) - 1)" using IH by linarith+
    with 1(2) \<open>(2::nat) ^ bit_length (n div 2) = 2 * 2 ^ (bit_length (n div 2) - 1)\<close>
    show ?thesis by (subst (1 2) bit_length.simps) simp
  qed
qed

lemma bit_length_le: "n < 2 ^ k \<Longrightarrow> bit_length n \<le> k"
proof (cases "n = 0")
  case True
  then show ?thesis by (simp add: bit_length.simps)
next
  case False
  assume "n < 2 ^ k"
  with bit_length_bounds [of n] False have "(2::nat) ^ (bit_length n - 1) < 2 ^ k"
    by (meson le_less_trans not_gr_zero)
  then have "bit_length n - 1 < k" by simp
  then show ?thesis by simp
qed

lemma clz32_shift: "0 < x \<Longrightarrow> x \<le> 2 ^ 30 \<Longrightarrow> 32 - clz32 (nat (x - 1)) = bit_length (nat (x - 1))"
proof -
  assume "0 < x" "x \<le> 2 ^ 30"
  then have "nat (x - 1) < 2 ^ 30" by (simp add: nat_less_iff)
  then have "bit_length (nat (x - 1)) \<le> 30" by (rule bit_length_le)
  then show ?thesis by (simp add: clz32_def)
qed

lemma sint_push_one: "k \<le> 30 \<Longrightarrow> sint (push_bit k (1 :: 32 word)) = 2 ^ k"
proof -
  assume k: "k \<le> 30"
  then have "(2::int) ^ k < 2 ^ 31" by (intro power_strict_increasing) simp_all
  moreover have "- (2 ^ 31) \<le> (2::int) ^ k"
    by (rule order_trans [of _ 0]) simp_all
  ultimately have "signed_take_bit 31 ((2::int) ^ k) = 2 ^ k"
    by (intro signed_take_bit_int_eq_self)
  moreover have "push_bit k (1 :: 32 word) = word_of_int (2 ^ k)"
    by (simp add: push_bit_eq_mult)
  ultimately show ?thesis
    by (simp add: signed_of_int del: of_int_power push_bit_of_1)
qed

lemma bit_length_least: "n < 2 ^ k \<longleftrightarrow> bit_length n \<le> k"
proof
  assume "bit_length n \<le> k"
  show "n < 2 ^ k"
  proof (cases "n = 0")
    case False
    then have "n < 2 ^ bit_length n" using bit_length_bounds [of n] by simp
    also have "\<dots> \<le> 2 ^ k" using \<open>bit_length n \<le> k\<close> by (simp add: power_increasing)
    finally show ?thesis .
  qed simp
qed (rule bit_length_le)

lemma le_pow2_iff: "1 \<le> x \<Longrightarrow> x \<le> 2 ^ k \<longleftrightarrow> bit_length (nat (x - 1)) \<le> k"
proof -
  assume "1 \<le> x"
  then have "x \<le> 2 ^ k \<longleftrightarrow> nat (x - 1) < 2 ^ k" by (simp add: nat_less_iff) linarith
  then show ?thesis by (simp add: bit_length_least)
qed

section \<open>Properties\<close>

text \<open>
  C33: \<open>to_hex_string\<close> and the reading of digit strings are inverse: the hexadecimal text of a
  number denotes that number.
\<close>

theorem to_hex_string_roundtrip: "nat_of_str 16 (to_hex_string x) = Some x"
  by (simp add: to_hex_string_str)

text \<open>
  \<open>upperPower2\<close> is the least power of two that is at least its argument, for the
  arguments whose result is a positive C++ \<^verbatim>\<open>int\<close>; from 2 on, \<open>upperLog2\<close> is its exponent.
\<close>

theorem upperPower2_least:
  assumes "1 \<le> x" and "x \<le> 2 ^ 30"
  shows "\<exists>k. upperPower2 x = 2 ^ k \<and> x \<le> 2 ^ k \<and> (\<forall>j. x \<le> 2 ^ j \<longrightarrow> k \<le> j)
           \<and> (2 \<le> x \<longrightarrow> upperLog2 x = int k)"
proof -
  let ?k = "bit_length (nat (x - 1))"
  from assms have "?k \<le> 30" using le_pow2_iff [of x 30] by simp
  moreover have "x = 1 \<Longrightarrow> ?k = 0" by (simp add: bit_length.simps)
  ultimately have "upperPower2 x = 2 ^ ?k"
    using assms by (cases "x = 1") (simp_all add: upperPower2_def clz32_shift sint_push_one del: push_bit_of_1)
  moreover have "2 \<le> x \<longrightarrow> upperLog2 x = int ?k"
    using assms by (simp add: upperLog2_def clz32_shift)
  ultimately show ?thesis
    using assms by (intro exI [of _ ?k]) (simp add: le_pow2_iff)
qed

theorem upperPower2_least_witness:
  "\<exists>k. upperPower2 100 = 2 ^ k \<and> (100::int) \<le> 2 ^ k \<and> (\<forall>j. (100::int) \<le> 2 ^ j \<longrightarrow> k \<le> j)
      \<and> upperLog2 100 = int k"
  using upperPower2_least [of 100] by simp

end
