(* ===== verification/Expr.thy ===== *)
theory Expr
  imports Util
begin

section \<open>Expression trees and their meaning\<close>

text \<open>
  \<^verbatim>\<open>include/ExpTree.h\<close>, \<^verbatim>\<open>src/ENode.cpp\<close> and \<^verbatim>\<open>src/ExpTree.cpp\<close>: the expression nodes of the
  assignment trees.  An \<open>enode\<close> has the fields of the C++ class in its record \<open>eattr\<close> and its
  children in order; a null child pointer is \<^term>\<open>None\<close>.  Pointers to graph nodes are node
  numbers.  Trees are values here: an update returns the new tree, and the trees of two
  assignments never share a subtree.

  The second half gives expressions a meaning, which the source leaves to the FIRRTL
  specification: \<open>fireval\<close> is the exact value of an expression over the integers, \<open>eval\<close> the
  value when every node keeps only the bits its width allows.  The passes over trees are
  measured against them.
\<close>

record eattr =
  nodePtr :: "nodeid option"
  opType :: OPType
  width :: int
  sign :: bool
  isClock :: bool
  reset :: ResetType
  usedBit :: int
  memoryNode :: "nodeid option"
  evalues :: "int list"
  strVal :: string

datatype enode = ENode (attr: eattr) (child: "enode option list")

definition new_eattr :: "OPType \<Rightarrow> eattr" where
  "new_eattr op = \<lparr>nodePtr = None, opType = op, width = -1, sign = False, isClock = False,
     reset = UNCERTAIN, usedBit = -1, memoryNode = None, evalues = [], strVal = ''''\<rparr>"

definition new_enode :: "OPType \<Rightarrow> enode" where
  "new_enode op = ENode (new_eattr op) []"

definition new_leaf :: "nodeid \<Rightarrow> enode" where
  "new_leaf n = ENode ((new_eattr OP_EMPTY)\<lparr>nodePtr := Some n\<rparr>) []"

abbreviation e_op :: "enode \<Rightarrow> OPType" where "e_op e \<equiv> opType (attr e)"
abbreviation e_node :: "enode \<Rightarrow> nodeid option" where "e_node e \<equiv> nodePtr (attr e)"
abbreviation e_width :: "enode \<Rightarrow> int" where "e_width e \<equiv> width (attr e)"
abbreviation e_sign :: "enode \<Rightarrow> bool" where "e_sign e \<equiv> sign (attr e)"
abbreviation e_usedBit :: "enode \<Rightarrow> int" where "e_usedBit e \<equiv> usedBit (attr e)"
abbreviation e_values :: "enode \<Rightarrow> int list" where "e_values e \<equiv> evalues (attr e)"

record exptree =
  root :: enode
  lvalue :: enode

text \<open>\<^verbatim>\<open>getChild\<close>: out of range fails its \<^verbatim>\<open>Assert\<close>, a null pointer is a null pointer.\<close>

definition getChildNum :: "enode \<Rightarrow> nat" where
  "getChildNum e = length (child e)"

definition getChild :: "enode \<Rightarrow> nat \<Rightarrow> enode option abortable" where
  "getChild e i = (if i < getChildNum e then Some (child e ! i) else None)"

text \<open>Mapping a fallible function over the children; null children stay.\<close>

definition child_map :: "(enode \<Rightarrow> enode option) \<Rightarrow> enode option \<Rightarrow> enode option option" where
  "child_map f c = (case c of None \<Rightarrow> Some None | Some e \<Rightarrow> map_option Some (f e))"

lemma child_map_cong [fundef_cong]:
  "c = c' \<Longrightarrow> (\<And>e. e \<in> set_option c' \<Longrightarrow> f e = g e) \<Longrightarrow> child_map f c = child_map g c'"
  by (auto simp: child_map_def split: option.splits)

lemma child_map_simps [simp]:
  "child_map f None = Some None"
  "child_map f (Some e) = map_option Some (f e)"
  by (simp_all add: child_map_def)

text \<open>\<^verbatim>\<open>ENode::dup\<close>: the fields it does not copy start at their defaults.\<close>

definition dup_attr :: "eattr \<Rightarrow> eattr" where
  "dup_attr a = (new_eattr (opType a))\<lparr>nodePtr := nodePtr a, sign := sign a, width := width a,
     evalues := evalues a, strVal := strVal a, memoryNode := memoryNode a\<rparr>"

fun dup :: "enode \<Rightarrow> enode" where
  "dup (ENode a cs) = ENode (dup_attr a) (map (map_option dup) cs)"

definition dup_tree :: "exptree \<Rightarrow> exptree" where
  "dup_tree t = \<lparr>root = dup (root t), lvalue = dup (lvalue t)\<rparr>"

definition allocIntEnode :: "int \<Rightarrow> string \<Rightarrow> bool \<Rightarrow> enode" where
  "allocIntEnode w val s =
     ENode ((new_eattr OP_INT)\<lparr>width := w, strVal := val,
              sign := (s \<or> (val \<noteq> [] \<and> hd val = CHR ''-''))\<rparr>) []"

text \<open>
  \<^verbatim>\<open>ENode::getIdx\<close>: the range of flat positions an indexed reference covers in an array of
  the given dimensions, or \<open>(-1, -1)\<close> when an index is not a literal.
\<close>

definition index_values :: "enode \<Rightarrow> int list option" where
  "index_values e =
     those (map (\<lambda>c. case c of None \<Rightarrow> None
                     | Some i \<Rightarrow> if e_op i = OP_INDEX_INT then Some (e_values i ! 0) else None)
            (child e))"

fun flat_base :: "int list \<Rightarrow> int list \<Rightarrow> int \<Rightarrow> int" where
  "flat_base (d # ds) (i # is) base = flat_base ds is (base * d + i)"
| "flat_base _ _ base = base"

definition getIdx :: "enode \<Rightarrow> int list \<Rightarrow> (int \<times> int) abortable" where
  "getIdx e dims =
     do { assert_that (dims \<noteq> []);
          case index_values e of
            None \<Rightarrow> Some (-1, -1)
          | Some is \<Rightarrow>
              do { assert_that (length is \<le> length dims);
                   let num = prod_list (drop (length is) dims);
                       base = flat_base dims is 0
                   in Some (base * num, (base + 1) * num - 1) } }"

definition hasVarIdx :: "enode \<Rightarrow> int list \<Rightarrow> bool abortable" where
  "hasVarIdx e dims = do { (b, en) \<leftarrow> getIdx e dims; Some (b < 0 \<or> b \<noteq> en) }"

text \<open>\<^verbatim>\<open>ENode::getArrayIndex\<close>: \<^verbatim>\<open>TODO()\<close> aborts when an index is missing or not a literal.\<close>

definition getArrayIndex :: "enode \<Rightarrow> nodeid \<Rightarrow> int list \<Rightarrow> int abortable" where
  "getArrayIndex e n dims =
     do { assert_that (e_node e = Some n);
          assert_that (length (child e) \<le> length dims);
          is \<leftarrow> index_values e;
          assert_that (\<not> length is < length dims);
          Some (flat_base dims is 0) }"

section \<open>Values of expressions\<close>

datatype outcome = Val int | Keep | Undef

text \<open>
  What an assignment tree can do to the node it assigns: give it a value, leave it as it is
  (a \<^verbatim>\<open>when\<close> without the taken branch), or leave it undefined (\<^verbatim>\<open>is invalid\<close>, division by
  zero).  A transformation may replace an undefined outcome by any other.
\<close>

definition refines :: "outcome \<Rightarrow> outcome \<Rightarrow> bool" where
  "refines a b \<longleftrightarrow> a = Undef \<or> a = b"

lemma refines_refl [simp, intro]: "refines a a"
  by (simp add: refines_def)

lemma refines_Undef [simp]: "refines Undef a"
  by (simp add: refines_def)

lemma refines_trans [trans]: "refines a b \<Longrightarrow> refines b c \<Longrightarrow> refines a c"
  by (auto simp: refines_def)

lemma refines_Val: "refines (Val v) b \<longleftrightarrow> b = Val v"
  by (auto simp: refines_def)

fun map_outcome_val :: "(int \<Rightarrow> int) \<Rightarrow> outcome \<Rightarrow> outcome" where
  "map_outcome_val f (Val v) = Val (f v)"
| "map_outcome_val f Keep = Keep"
| "map_outcome_val f Undef = Undef"

lemma refines_map_outcome: "refines a b \<Longrightarrow> refines (map_outcome_val f a) (map_outcome_val f b)"
  by (auto simp: refines_def)

text \<open>
  The state an expression is evaluated in: the value of a node at an index list (empty for
  a scalar), the contents of memories, and whether \<^verbatim>\<open>head\<close> and \<^verbatim>\<open>tail\<close> still carry the
  number of bits of the FIRRTL text (before \<^verbatim>\<open>updateHeadTail\<close>) or the position to cut at.
\<close>

record env =
  val :: "nodeid \<Rightarrow> int list \<Rightarrow> int"
  mem :: "nodeid \<Rightarrow> int \<Rightarrow> int"
  firHeadTail :: bool

text \<open>An operand: its width, its sign and its value.\<close>

type_synonym operand = "nat \<times> bool \<times> int"

definition parity :: "nat \<Rightarrow> int \<Rightarrow> int" where
  "parity w a = int (ones_below w a mod 2)"

definition prim2 :: "OPType \<Rightarrow> operand \<Rightarrow> operand \<Rightarrow> int option" where
  "prim2 op p q =
     (case p of (w0, s0, a) \<Rightarrow> case q of (w1, s1, b) \<Rightarrow>
      (case op of
         OP_ADD \<Rightarrow> Some (a + b)
       | OP_SUB \<Rightarrow> Some (if s0 then a - b else take_bit (max w0 w1 + 1) (a - b))
       | OP_MUL \<Rightarrow> Some (a * b)
       | OP_DIV \<Rightarrow> if b = 0 then None else Some (a sdiv b)
       | OP_REM \<Rightarrow> if b = 0 then None else Some (a smod b)
       | OP_LT \<Rightarrow> Some (of_bool (a < b))
       | OP_LEQ \<Rightarrow> Some (of_bool (a \<le> b))
       | OP_GT \<Rightarrow> Some (of_bool (a > b))
       | OP_GEQ \<Rightarrow> Some (of_bool (a \<ge> b))
       | OP_EQ \<Rightarrow> Some (of_bool (a = b))
       | OP_NEQ \<Rightarrow> Some (of_bool (a \<noteq> b))
       | OP_DSHL \<Rightarrow> Some (push_bit (nat b) a)
       | OP_DSHR \<Rightarrow> Some (drop_bit (nat b) a)
       | OP_AND \<Rightarrow> Some (take_bit (max w0 w1) (a AND b))
       | OP_OR \<Rightarrow> Some (take_bit (max w0 w1) (a OR b))
       | OP_XOR \<Rightarrow> Some (take_bit (max w0 w1) (a XOR b))
       | OP_CAT \<Rightarrow> Some (push_bit w1 (take_bit w0 a) + take_bit w1 b)
       | _ \<Rightarrow> None))"

definition prim1 :: "bool \<Rightarrow> OPType \<Rightarrow> int list \<Rightarrow> operand \<Rightarrow> int option" where
  "prim1 fir op vs p =
     (case p of (w0, s0, a) \<Rightarrow>
      (case op of
         OP_ASUINT \<Rightarrow> Some (take_bit w0 a)
       | OP_ASSINT \<Rightarrow> Some (wrap w0 True a)
       | OP_ASCLOCK \<Rightarrow> Some (take_bit 1 a)
       | OP_ASASYNCRESET \<Rightarrow> Some (take_bit 1 a)
       | OP_CVT \<Rightarrow> Some a
       | OP_NEG \<Rightarrow> Some (- a)
       | OP_NOT \<Rightarrow> Some (take_bit w0 (NOT a))
       | OP_ANDR \<Rightarrow> Some (of_bool (take_bit w0 a = mask w0))
       | OP_ORR \<Rightarrow> Some (of_bool (take_bit w0 a \<noteq> 0))
       | OP_XORR \<Rightarrow> Some (parity w0 a)
       | OP_PAD \<Rightarrow> Some a
       | OP_SEXT \<Rightarrow> Some a
       | OP_SHL \<Rightarrow> (case vs of [n] \<Rightarrow> Some (push_bit (nat n) a) | _ \<Rightarrow> None)
       | OP_SHR \<Rightarrow> (case vs of [n] \<Rightarrow> Some (drop_bit (nat n) a) | _ \<Rightarrow> None)
       | OP_HEAD \<Rightarrow> (case vs of
           [n] \<Rightarrow> Some (drop_bit (if fir then w0 - nat n else nat n) (take_bit w0 a)) | _ \<Rightarrow> None)
       | OP_TAIL \<Rightarrow> (case vs of
           [n] \<Rightarrow> Some (take_bit (if fir then w0 - nat n else min w0 (nat n)) a) | _ \<Rightarrow> None)
       | OP_BITS \<Rightarrow> (case vs of
           [h, l] \<Rightarrow> Some (take_bit (nat (h - l + 1)) (drop_bit (nat l) (take_bit w0 a)))
         | _ \<Rightarrow> None)
       | OP_BITS_NOSHIFT \<Rightarrow> (case vs of
           [h, l] \<Rightarrow> Some (push_bit (nat l)
                        (take_bit (nat (h - l + 1)) (drop_bit (nat l) (take_bit w0 a))))
         | _ \<Rightarrow> None)
       | _ \<Rightarrow> None))"

text \<open>The literal of an \<^verbatim>\<open>OP_INT\<close> node.\<close>

definition int_literal :: "string \<Rightarrow> int option" where
  "int_literal str = (case firStrBase str of (base, s) \<Rightarrow> int_of_str base s)"

definition of_opt :: "int option \<Rightarrow> outcome" where
  "of_opt r = (case r of Some v \<Rightarrow> Val v | None \<Rightarrow> Undef)"

fun vals :: "(nat \<times> bool \<times> outcome) option list \<Rightarrow> int list option" where
  "vals [] = Some []"
| "vals (Some (w, s, Val v) # os) = map_option ((#) v) (vals os)"
| "vals (_ # os) = None"

definition select3 :: "(nat \<times> bool \<times> outcome) option list \<Rightarrow> outcome" where
  "select3 os =
     (case os of
        [Some (_, _, Val c), t, f] \<Rightarrow>
          (case (if c \<noteq> 0 then t else f) of None \<Rightarrow> Keep | Some (_, _, r) \<Rightarrow> r)
      | _ \<Rightarrow> Undef)"

definition apply_prim ::
    "bool \<Rightarrow> OPType \<Rightarrow> int list \<Rightarrow> (nat \<times> bool \<times> outcome) option list \<Rightarrow> outcome" where
  "apply_prim fir op vs os =
     (case os of
        [Some (w0, s0, Val x)] \<Rightarrow> of_opt (prim1 fir op vs (w0, s0, x))
      | [Some (w0, s0, Val x), Some (w1, s1, Val y)] \<Rightarrow> of_opt (prim2 op (w0, s0, x) (w1, s1, y))
      | _ \<Rightarrow> Undef)"

definition apply_op :: "env \<Rightarrow> eattr \<Rightarrow> (nat \<times> bool \<times> outcome) option list \<Rightarrow> outcome" where
  "apply_op E a os =
     (case nodePtr a of
        Some n \<Rightarrow> (case vals os of Some is \<Rightarrow> Val (val E n is) | None \<Rightarrow> Undef)
      | None \<Rightarrow>
          (case opType a of
             OP_INT \<Rightarrow> of_opt (int_literal (strVal a))
           | OP_INDEX_INT \<Rightarrow> of_opt (case evalues a of [i] \<Rightarrow> Some i | _ \<Rightarrow> None)
           | OP_INDEX \<Rightarrow> (case vals os of Some [i] \<Rightarrow> Val i | _ \<Rightarrow> Undef)
           | OP_MUX \<Rightarrow> select3 os
           | OP_WHEN \<Rightarrow> select3 os
           | OP_RESET \<Rightarrow> (case os of [c, v] \<Rightarrow> select3 [c, v, None] | _ \<Rightarrow> Undef)
           | OP_READ_MEM \<Rightarrow> (case (memoryNode a, vals os) of
               (Some m, Some [i]) \<Rightarrow> Val (mem E m i) | _ \<Rightarrow> Undef)
           | OP_INVALID \<Rightarrow> Undef
           | op \<Rightarrow> apply_prim (firHeadTail E) op (evalues a) os))"

lemma apply_op_cong:
  "nodePtr a = nodePtr b \<Longrightarrow> opType a = opType b \<Longrightarrow> evalues a = evalues b
   \<Longrightarrow> strVal a = strVal b \<Longrightarrow> memoryNode a = memoryNode b \<Longrightarrow> os = os'
   \<Longrightarrow> apply_op E a os = apply_op E b os'"
  by (simp add: apply_op_def cong: option.case_cong OPType.case_cong)

text \<open>Index nodes carry no width of their own.\<close>

definition keep_bits :: "eattr \<Rightarrow> int \<Rightarrow> int" where
  "keep_bits a v =
     (if nodePtr a = None \<and> (opType a = OP_INDEX \<or> opType a = OP_INDEX_INT) then v
      else wrap (nat (width a)) (sign a) v)"

fun eval_with :: "(eattr \<Rightarrow> int \<Rightarrow> int) \<Rightarrow> env \<Rightarrow> enode \<Rightarrow> outcome" where
  "eval_with post E (ENode a cs) =
     map_outcome_val (post a)
       (apply_op E a
          (map (map_option (\<lambda>c. (nat (e_width c), e_sign c, eval_with post E c))) cs))"

definition eval :: "env \<Rightarrow> enode \<Rightarrow> outcome" where
  "eval = eval_with keep_bits"

definition fireval :: "env \<Rightarrow> enode \<Rightarrow> outcome" where
  "fireval = eval_with (\<lambda>a v. v)"

abbreviation operand_of :: "env \<Rightarrow> enode \<Rightarrow> nat \<times> bool \<times> outcome" where
  "operand_of E c \<equiv> (nat (e_width c), e_sign c, eval E c)"

lemma eval_ENode:
  "eval E (ENode a cs) =
     map_outcome_val (keep_bits a) (apply_op E a (map (map_option (operand_of E)) cs))"
  by (simp add: eval_def)

lemma fireval_ENode:
  "fireval E (ENode a cs) =
     apply_op E a (map (map_option (\<lambda>c. (nat (e_width c), e_sign c, fireval E c))) cs)"
proof -
  have "map_outcome_val (\<lambda>v. v) r = r" for r by (cases r) auto
  then show ?thesis by (simp add: fireval_def)
qed

section \<open>Facts about trees\<close>

text \<open>Sizes of children, for recursions through lists of them.\<close>

lemma child_size: "Some x \<in> set cs \<Longrightarrow> size (x :: enode) < Suc (size_list (size_option size) cs)"
  using size_list_estimation' [of "Some x" cs "size x" "size_option size"] by simp

lemma child_size_tl [termination_simp]:
  "Some x \<in> set (tl cs) \<Longrightarrow> size (x :: enode) < Suc (size_list (size_option size) cs)"
  by (cases cs) (auto dest!: child_size)

lemma child_size_zip [termination_simp]:
  "(Some x, t) \<in> set (zip cs ts) \<Longrightarrow> size (x :: enode) < Suc (size_list (size_option size) cs)"
  by (auto dest: set_zip_leftD intro: child_size)

lemma dup_attr_simps [simp]:
  "nodePtr (dup_attr a) = nodePtr a" "opType (dup_attr a) = opType a"
  "width (dup_attr a) = width a" "sign (dup_attr a) = sign a"
  "evalues (dup_attr a) = evalues a" "strVal (dup_attr a) = strVal a"
  "memoryNode (dup_attr a) = memoryNode a"
  by (simp_all add: dup_attr_def new_eattr_def)

lemma dup_width [simp]: "e_width (dup e) = e_width e" and dup_sign [simp]: "e_sign (dup e) = e_sign e"
  and dup_op [simp]: "e_op (dup e) = e_op e"
  by (cases e, simp)+

lemma eval_dup [simp]: "eval E (dup e) = eval E e"
proof (induction e)
  case (ENode a cs)
  have "map (map_option (operand_of E) \<circ> map_option dup) cs = map (map_option (operand_of E)) cs"
  proof (rule map_cong [OF refl])
    fix c assume "c \<in> set cs"
    with ENode show "(map_option (operand_of E) \<circ> map_option dup) c = map_option (operand_of E) c"
      by (cases c) auto
  qed
  then have "apply_op E (dup_attr a) (map (map_option (operand_of E)) (map (map_option dup) cs))
      = apply_op E a (map (map_option (operand_of E)) cs)"
    by (intro apply_op_cong) simp_all
  moreover have "keep_bits (dup_attr a) = keep_bits a"
    by (rule ext) (simp only: keep_bits_def dup_attr_simps)
  ultimately show ?case by (simp only: eval_ENode dup.simps)
qed

lemma child_map_Some: "child_map f c = Some c' \<longleftrightarrow> rel_option (\<lambda>e e'. f e = Some e') c c'"
  by (cases c; cases c') auto

lemma those_map_Some:
  "those (map f xs) = Some ys \<longleftrightarrow> list_all2 (\<lambda>x y. f x = Some y) xs ys"
  by (induction xs arbitrary: ys) (auto simp: list_all2_Cons1 split: option.splits)

lemma list_all2_children:
  "list_all2 (rel_option R) cs cs' \<Longrightarrow> c' \<in> set cs' \<Longrightarrow> e' \<in> set_option c'
   \<Longrightarrow> \<exists>c \<in> set cs. \<exists>e \<in> set_option c. R e e'"
  by (induction rule: list_all2_induct) (auto simp: rel_option_iff split: option.splits)

lemma map_outcome_val_Val: "map_outcome_val f r = Val v \<longleftrightarrow> (\<exists>u. r = Val u \<and> v = f u)"
  by (cases r) auto

definition is_index :: "enode \<Rightarrow> bool" where
  "is_index e \<longleftrightarrow> e_node e = None \<and> (e_op e = OP_INDEX \<or> e_op e = OP_INDEX_INT)"

lemma eval_fits:
  "eval E e = Val v \<Longrightarrow> \<not> is_index e \<Longrightarrow> fits (nat (e_width e)) (e_sign e) v"
  by (cases e; cases "eval E e")
     (auto simp: eval_ENode is_index_def keep_bits_def map_outcome_val_Val)

lemma keep_bits_cong:
  "nodePtr a = nodePtr b \<Longrightarrow> opType a = opType b \<Longrightarrow> width a = width b \<Longrightarrow> sign a = sign b
   \<Longrightarrow> keep_bits a = keep_bits b"
  by (rule ext) (simp add: keep_bits_def)

lemma apply_prim_cong:
  assumes "prim1 b op vs = prim1 c op vs'"
  shows "apply_prim b op vs os = apply_prim c op vs' os"
  unfolding apply_prim_def assms ..

lemma select3_Val:
  "select3 os = Val v \<Longrightarrow>
     \<exists>c t f. os = [Some c, t, f] \<and> (\<exists>w s. t = Some (w, s, Val v) \<or> f = Some (w, s, Val v))"
  by (auto simp: select3_def split: list.splits option.splits prod.splits outcome.splits if_splits)

lemma apply_prim_Val:
  assumes "apply_prim fir op vs os = Val v"
  obtains (one) w0 s0 x where "os = [Some (w0, s0, Val x)]" "prim1 fir op vs (w0, s0, x) = Some v"
  | (two) w0 s0 x w1 s1 y where "os = [Some (w0, s0, Val x), Some (w1, s1, Val y)]"
      "prim2 op (w0, s0, x) (w1, s1, y) = Some v"
  using assms
  by (auto simp: apply_prim_def of_opt_def split: list.splits option.splits prod.splits outcome.splits)

lemma eval_ref:
  assumes "nodePtr a = Some n"
  shows "eval E (ENode a cs) =
    (case vals (map (map_option (operand_of E)) cs) of
       None \<Rightarrow> Undef | Some is \<Rightarrow> Val (wrap (nat (width a)) (sign a) (val E n is)))"
  by (simp add: eval_ENode apply_op_def assms keep_bits_def split: option.splits)

lemma eval_cong_children:
  assumes "map (map_option (operand_of E)) cs' = map (map_option (operand_of E)) cs"
  shows "eval E (ENode a cs') = eval E (ENode a cs)"
  by (simp add: eval_ENode assms)

text \<open>Decimal text is read back in base 10.\<close>

lemma firStrBase_decimal:
  assumes "int_of_str 10 s = Some v"
  shows "int_literal s = Some v"
proof (cases "length s \<le> 1")
  case True
  then show ?thesis using assms by (simp add: int_literal_def firStrBase_def)
next
  case False
  have bad: "digit_val c = Some d \<Longrightarrow> d < 10 \<Longrightarrow> c \<notin> {CHR ''b'', CHR ''o'', CHR ''d'', CHR ''h''}" for c d
    by (auto simp: digit_val_def)
  have two: "\<And>acc n c. digits_acc 10 acc (c # cs) = Some n \<Longrightarrow> \<exists>d. digit_val c = Some d \<and> d < 10" for cs
    by (auto split: option.splits if_splits)
  show ?thesis
  proof (cases s)
    case (Cons c cs)
    show ?thesis
    proof (cases "c = CHR ''-''")
      case True
      with assms Cons obtain n where n: "digits_acc 10 0 cs = Some n" "cs \<noteq> []"
        by (auto simp: int_of_str_def nat_of_str_def split: if_splits)
      have "c' \<notin> {CHR ''b'', CHR ''o'', CHR ''d'', CHR ''h''}" if "cs = d # c' # cs'" for d c' cs'
        using n that bad two by (fastforce split: option.splits if_splits)
      then have "firStrBase s = (10, s)"
        using Cons True n(2) by (cases cs; cases "tl cs") (auto simp: firStrBase_def char_at_def Let_def)
      with assms show ?thesis by (simp add: int_literal_def)
    next
      case neg: False
      with assms Cons obtain n where n: "digits_acc 10 0 (c # cs) = Some n"
        by (auto simp: int_of_str_def nat_of_str_def split: if_splits)
      have "c' \<notin> {CHR ''b'', CHR ''o'', CHR ''d'', CHR ''h''}" if "cs = c' # cs'" for c' cs'
        using n that bad two by (fastforce split: option.splits if_splits)
      then have "firStrBase s = (10, s)"
        using Cons neg False by (cases cs) (auto simp: firStrBase_def char_at_def Let_def)
      with assms show ?thesis by (simp add: int_literal_def)
    qed
  qed (use False in simp)
qed

end
