(* ===== verification/Refine.thy ===== *)
theory Refine
  imports Expr
begin

section \<open>Refinement of operands\<close>

text \<open>
  A pass that rewrites a tree may make it more defined.  This theory says what that means for
  the operands of an operation and shows that every operation respects it, so that a rewriting
  is justified node by node; the passes over trees share it.
\<close>

text \<open>An operand may become more defined, and one that assigns nothing may disappear.\<close>

definition opref :: "(nat \<times> bool \<times> outcome) option \<Rightarrow> (nat \<times> bool \<times> outcome) option \<Rightarrow> bool" where
  "opref p q \<longleftrightarrow>
     (case p of None \<Rightarrow> q = None
      | Some (w, s, r) \<Rightarrow> r = Undef \<or> (case q of None \<Rightarrow> r = Keep
                          | Some (w', s', r') \<Rightarrow> w' = w \<and> s' = s \<and> r' = r))"

lemma opref_Val: "opref (Some (w, s, Val v)) q \<longleftrightarrow> q = Some (w, s, Val v)"
  by (auto simp: opref_def refines_def split: option.splits prod.splits)

lemma opref_None: "opref None q \<longleftrightarrow> q = None"
  by (simp add: opref_def)

lemma vals_refines: "list_all2 opref os qs \<Longrightarrow> vals os = Some vs \<Longrightarrow> vals qs = Some vs"
  by (induction os arbitrary: qs vs rule: vals.induct) (auto simp: list_all2_Cons1 opref_Val)

lemma apply_prim_refines:
  assumes "list_all2 opref os qs"
  shows "refines (apply_prim b op vs os) (apply_prim b op vs qs)"
proof (cases "apply_prim b op vs os")
  case (Val v)
  then show ?thesis
  proof (cases rule: apply_prim_Val)
    case one
    with assms Val show ?thesis by (auto simp: list_all2_Cons1 opref_Val)
  next
    case two
    with assms Val show ?thesis by (auto simp: list_all2_Cons1 opref_Val)
  qed
next
  case Keep
  then show ?thesis
    by (auto simp: apply_prim_def of_opt_def split: list.splits option.splits prod.splits outcome.splits)
qed simp

definition obranch :: "(nat \<times> bool \<times> outcome) option \<Rightarrow> outcome" where
  "obranch p = (case p of None \<Rightarrow> Keep | Some (w, s, r) \<Rightarrow> r)"

lemma select3_Cons: "select3 [Some (w, s, Val c), t, f] = (if c \<noteq> 0 then obranch t else obranch f)"
  by (simp add: select3_def obranch_def)

lemma select3_cases:
  obtains "select3 os = Undef" | w s c t f where "os = [Some (w, s, Val c), t, f]"
  by (cases "\<exists>w s c t f. os = [Some (w, s, Val c), t, f]")
     (auto simp: select3_def split: list.splits option.splits prod.splits outcome.splits)

lemma obranch_refines: "opref p q \<Longrightarrow> refines (obranch p) (obranch q)"
  by (auto simp: opref_def obranch_def split: option.splits prod.splits)

lemma select3_refines: "list_all2 opref os qs \<Longrightarrow> refines (select3 os) (select3 qs)"
  by (rule select3_cases [of os])
     (auto simp: list_all2_Cons1 opref_Val select3_Cons obranch_refines)

lemma apply_op_refines:
  assumes "list_all2 opref os qs"
  shows "refines (apply_op E a os) (apply_op E a qs)"
proof (cases "nodePtr a")
  case (Some n)
  then show ?thesis
    using vals_refines [OF assms] by (auto simp: apply_op_def split: option.splits)
next
  case None
  note v = vals_refines [OF assms]
  have reset: "refines (case os of [c, v] \<Rightarrow> select3 [c, v, None] | _ \<Rightarrow> Undef)
      (case qs of [c, v] \<Rightarrow> select3 [c, v, None] | _ \<Rightarrow> Undef)"
    using assms select3_refines
    by (auto simp: list_all2_Cons1 opref_None split: list.splits)
  have index: "refines (case vals os of Some [i] \<Rightarrow> Val i | _ \<Rightarrow> Undef) (case vals qs of Some [i] \<Rightarrow> Val i | _ \<Rightarrow> Undef)"
    using v by (auto split: option.splits list.splits)
  have read: "refines (case (memoryNode a, vals os) of (Some m, Some [i]) \<Rightarrow> Val (mem E m i) | _ \<Rightarrow> Undef)
      (case (memoryNode a, vals qs) of (Some m, Some [i]) \<Rightarrow> Val (mem E m i) | _ \<Rightarrow> Undef)"
    using v by (auto split: option.splits list.splits)
  show ?thesis
    using None reset index read apply_prim_refines [OF assms] select3_refines [OF assms]
    by (cases "opType a") (simp_all add: apply_op_def)
qed

lemma eval_refines:
  assumes "list_all2 opref (map (map_option (operand_of E)) cs) (map (map_option (operand_of E)) ds)"
  shows "refines (eval E (ENode a cs)) (eval E (ENode a ds))"
  using apply_op_refines [OF assms] by (simp only: eval_ENode refines_map_outcome)

text \<open>A tree that may stand in for another: the same type and a more defined outcome.\<close>

definition erefines :: "env \<Rightarrow> enode \<Rightarrow> enode \<Rightarrow> bool" where
  "erefines E e e' \<longleftrightarrow> e_width e' = e_width e \<and> e_sign e' = e_sign e \<and> refines (eval E e) (eval E e')"

lemma erefines_refl [simp, intro]: "erefines E e e"
  by (simp add: erefines_def)

lemma erefines_trans [trans]: "erefines E a b \<Longrightarrow> erefines E b c \<Longrightarrow> erefines E a c"
  by (auto simp: erefines_def intro: refines_trans)

lemma erefines_opref:
  "erefines E e e' \<Longrightarrow> opref (Some (operand_of E e)) (Some (operand_of E e'))"
  by (auto simp: erefines_def opref_def refines_def)

lemma erefines_children:
  assumes "list_all2 (rel_option (erefines E)) cs ds"
  shows "erefines E (ENode a cs) (ENode a ds)"
proof -
  have "list_all2 opref (map (map_option (operand_of E)) cs) (map (map_option (operand_of E)) ds)"
    using assms
    by (auto simp: list.rel_map opref_None rel_option_iff erefines_opref elim!: list.rel_mono_strong
        split: option.splits)
  from eval_refines [OF this] show ?thesis by (simp add: erefines_def)
qed

text \<open>Trees whose nodes always give a value: no \<^verbatim>\<open>when\<close>, no \<^verbatim>\<open>reset\<close>, no selection without a branch.\<close>

fun when_free :: "enode \<Rightarrow> bool" where
  "when_free (ENode a cs) \<longleftrightarrow>
     opType a \<noteq> OP_WHEN \<and> opType a \<noteq> OP_RESET \<and> (opType a = OP_MUX \<longrightarrow> None \<notin> set cs)
     \<and> (\<forall>c \<in> set cs. \<forall>e \<in> set_option c. when_free e)"

lemma map_outcome_val_Keep [simp]: "map_outcome_val f r = Keep \<longleftrightarrow> r = Keep"
  by (cases r) auto

lemma when_free_not_Keep: "when_free e \<Longrightarrow> eval E e \<noteq> Keep"
proof (induction e)
  case (ENode a cs)
  let ?os = "map (map_option (operand_of E)) cs"
  have prim: "apply_prim b op vs os \<noteq> Keep" for b op vs os
    by (auto simp: apply_prim_def of_opt_def split: list.splits option.splits prod.splits outcome.splits)
  have mux: "select3 ?os \<noteq> Keep" if "opType a = OP_MUX"
  proof (rule select3_cases [of ?os])
    fix w s c t f assume os: "?os = [Some (w, s, Val c), t, f]"
    have "obranch q \<noteq> Keep" if "q \<in> set ?os" for q
    proof -
      from that obtain x where x: "x \<in> set cs" "q = map_option (operand_of E) x" by auto
      moreover from x(1) ENode.prems \<open>opType a = OP_MUX\<close> obtain y where "x = Some y" "when_free y" by fastforce
      ultimately show ?thesis using ENode.IH [OF x(1), of y] by (simp add: obranch_def)
    qed
    with os show ?thesis by (simp add: select3_Cons)
  qed simp
  have "apply_op E a ?os \<noteq> Keep"
  proof (cases "nodePtr a")
    case None
    with prim mux ENode.prems show ?thesis
      by (cases "opType a") (auto simp: apply_op_def of_opt_def split: option.splits list.splits)
  qed (auto simp: apply_op_def split: option.splits)
  then show ?case by (simp add: eval_ENode)
qed

lemma eval_keep_bits:
  assumes "\<not> is_index e" "nodePtr a = None" "opType a \<noteq> OP_INDEX" "opType a \<noteq> OP_INDEX_INT"
    "width a = e_width e" "sign a = e_sign e"
  shows "map_outcome_val (keep_bits a) (eval E e) = eval E e"
proof (cases "eval E e")
  case (Val v)
  from eval_fits [OF Val assms(1)] show ?thesis using assms Val by (simp add: keep_bits_def wrap_fits)
qed auto

section \<open>Passes over trees\<close>

text \<open>One assignment after another: the later one wins unless it assigns nothing.\<close>

definition then_assign :: "outcome \<Rightarrow> outcome \<Rightarrow> outcome" where
  "then_assign r r' = (if r' = Keep then r else r')"

definition in_sequence :: "env \<Rightarrow> enode list \<Rightarrow> outcome" where
  "in_sequence E es = foldl then_assign Keep (map (eval E) es)"

lemma then_assign_refines: "refines a b \<Longrightarrow> refines a' b' \<Longrightarrow> refines (then_assign a a') (then_assign b b')"
  by (auto simp: refines_def then_assign_def)

lemma foldl_then_assign_refines:
  "list_all2 (erefines E) es es' \<Longrightarrow> refines a b \<Longrightarrow>
     refines (foldl then_assign a (map (eval E) es)) (foldl then_assign b (map (eval E) es'))"
  by (induction arbitrary: a b rule: list_all2_induct) (simp_all add: erefines_def then_assign_refines)

text \<open>
  The contract of a pass that rewrites trees one by one: on the trees it accepts it succeeds
  and the new tree may stand in for the old one.  A node whose assignments all go through the
  pass then gets the same value.
\<close>

locale tree_pass =
  fixes pass :: "enode \<Rightarrow> enode abortable" and ok :: "env \<Rightarrow> enode \<Rightarrow> bool"
  assumes sound: "ok E e \<Longrightarrow> \<exists>e'. pass e = Some e' \<and> erefines E e e'"
begin

lemma pass_all: "\<forall>e \<in> set es. ok E e \<Longrightarrow> \<exists>es'. those (map pass es) = Some es' \<and> list_all2 (erefines E) es es'"
proof (induction es)
  case (Cons e es)
  with sound [of E e] show ?case by fastforce
qed simp

lemma pass_sequence:
  "\<forall>e \<in> set es. ok E e \<Longrightarrow>
     \<exists>es'. those (map pass es) = Some es' \<and> refines (in_sequence E es) (in_sequence E es')"
  using pass_all [of es E] foldl_then_assign_refines [of E es _ Keep Keep] by (force simp: in_sequence_def)

end

end
