(* ===== verification/Node.thy ===== *)
theory Node
  imports Expr
begin

section \<open>Nodes of the circuit graph\<close>

text \<open>
  The class \<^verbatim>\<open>Node\<close> of \<^verbatim>\<open>include/Node.h\<close> as a record, with the fields the modelled passes
  read or write.  A pointer to a node is its number; a \<^verbatim>\<open>std::set\<close> of pointers is a set of
  numbers, and a pass whose result depends on the iteration order of such a set says so.
  Some fields have the prefix \<open>n\<close>, because the expression nodes have a field of that name.
\<close>

record node =
  name :: string
  ntype :: NodeType
  nwidth :: int
  nsign :: bool
  nusedBit :: int
  status :: NodeStatus
  dimension :: "int list"
  order :: int
  orderInSuper :: int
  lineno :: int
  "next" :: "nodeid set"
  prev :: "nodeid set"
  depPrev :: "nodeid set"
  depNext :: "nodeid set"
  assignTree :: "exptree list"
  super :: "nodeid option"
  member :: "nodeid list"
  parent :: "nodeid option"
  regNext :: "nodeid option"
  resetTree :: "exptree option"
  regSplit :: bool
  nisClock :: bool
  nreset :: ResetType
  asReset :: AsReset

definition new_node :: "NodeType \<Rightarrow> node" where
  "new_node t = \<lparr>name = '''', ntype = t, nwidth = -1, nsign = False, nusedBit = -1,
     status = VALID_NODE, dimension = [], order = -1, orderInSuper = -1, lineno = -1,
     next = {}, prev = {}, depPrev = {}, depNext = {}, assignTree = [], super = None,
     member = [], parent = None, regNext = None, resetTree = None, regSplit = True, nisClock = False,
     nreset = UNCERTAIN, asReset = EMPTY\<rparr>"

text \<open>The graph: node numbers to nodes.\<close>

type_synonym heap = "nodeid \<Rightarrow> node"

subsection \<open>Accessors and updates of the header\<close>

definition isArray :: "node \<Rightarrow> bool" where
  "isArray n \<longleftrightarrow> length (dimension n) \<noteq> 0"

definition arrayEntryNum :: "node \<Rightarrow> int" where
  "arrayEntryNum n = prod_list (dimension n)"

definition isFakeArray :: "node \<Rightarrow> bool" where
  "isFakeArray n \<longleftrightarrow> length (dimension n) = 1 \<and> dimension n ! 0 = 1"

definition update_usedBit :: "int \<Rightarrow> node \<Rightarrow> node" where
  "update_usedBit bits n = n\<lparr>nusedBit := min (nwidth n) (max bits (nusedBit n))\<rparr>"

definition getDst :: "heap \<Rightarrow> nodeid \<Rightarrow> nodeid abortable" where
  "getDst h n =
     (if ntype (h n) = NODE_REG_SRC then regNext (h n)
      else if ntype (h n) = NODE_REG_DST then Some n else None)"

definition getSrc :: "heap \<Rightarrow> nodeid \<Rightarrow> nodeid abortable" where
  "getSrc h n =
     (if ntype (h n) = NODE_REG_DST then regNext (h n)
      else if ntype (h n) = NODE_REG_SRC then Some n else None)"

definition bindReg :: "nodeid \<Rightarrow> nodeid \<Rightarrow> heap \<Rightarrow> heap" where
  "bindReg n r h =
     (let h1 = h(n := (h n)\<lparr>regNext := Some r\<rparr>) in h1(r := (h1 r)\<lparr>regNext := Some n\<rparr>))"

definition setAsyncReset :: "node \<Rightarrow> node" where
  "setAsyncReset n =
     n\<lparr>asReset := (if asReset n = NODE_UINT_RESET \<or> asReset n = NODE_ALL_RESET
                  then NODE_ALL_RESET else NODE_ASYNC_RESET)\<rparr>"

definition setUIntReset :: "node \<Rightarrow> node" where
  "setUIntReset n =
     n\<lparr>asReset := (if asReset n = NODE_ASYNC_RESET \<or> asReset n = NODE_ALL_RESET
                  then NODE_ALL_RESET else NODE_UINT_RESET)\<rparr>"

definition isAsyncReset :: "node \<Rightarrow> bool" where
  "isAsyncReset n \<longleftrightarrow> asReset n = NODE_ASYNC_RESET \<or> asReset n = NODE_ALL_RESET"

definition isUIntReset :: "node \<Rightarrow> bool" where
  "isUIntReset n \<longleftrightarrow> asReset n = NODE_UINT_RESET \<or> asReset n = NODE_ALL_RESET"

definition isReset :: "node \<Rightarrow> bool" where
  "isReset n \<longleftrightarrow>
     asReset n = NODE_UINT_RESET \<or> asReset n = NODE_ASYNC_RESET \<or> asReset n = NODE_ALL_RESET"

definition isExt :: "node \<Rightarrow> bool" where
  "isExt n \<longleftrightarrow> ntype n = NODE_EXT \<or> ntype n = NODE_EXT_IN \<or> ntype n = NODE_EXT_OUT"

subsection \<open>Edges\<close>

definition clear_relation :: "node \<Rightarrow> node" where
  "clear_relation n = n\<lparr>prev := {}, next := {}, depPrev := {}, depNext := {}\<rparr>"

definition addPrev :: "nodeid \<Rightarrow> node \<Rightarrow> node" where
  "addPrev m n = n\<lparr>prev := insert m (prev n), depPrev := insert m (depPrev n)\<rparr>"

definition addPrev_all :: "nodeid set \<Rightarrow> node \<Rightarrow> node" where
  "addPrev_all ms n = n\<lparr>prev := prev n \<union> ms, depPrev := depPrev n \<union> ms\<rparr>"

definition erasePrev :: "nodeid \<Rightarrow> node \<Rightarrow> node" where
  "erasePrev m n = n\<lparr>prev := prev n - {m}, depPrev := depPrev n - {m}\<rparr>"

definition addNext :: "nodeid \<Rightarrow> node \<Rightarrow> node" where
  "addNext m n = n\<lparr>next := insert m (next n), depNext := insert m (depNext n)\<rparr>"

definition addNext_all :: "nodeid set \<Rightarrow> node \<Rightarrow> node" where
  "addNext_all ms n = n\<lparr>next := next n \<union> ms, depNext := depNext n \<union> ms\<rparr>"

definition eraseNext :: "nodeid \<Rightarrow> node \<Rightarrow> node" where
  "eraseNext m n = n\<lparr>next := next n - {m}, depNext := depNext n - {m}\<rparr>"

definition clearPrev :: "node \<Rightarrow> node" where
  "clearPrev n = n\<lparr>prev := {}, depPrev := {}\<rparr>"

definition addDepPrev :: "nodeid \<Rightarrow> node \<Rightarrow> node" where
  "addDepPrev m n = n\<lparr>depPrev := insert m (depPrev n)\<rparr>"

definition eraseDepPrev :: "nodeid \<Rightarrow> node \<Rightarrow> node" where
  "eraseDepPrev m n = n\<lparr>depPrev := depPrev n - {m}\<rparr>"

definition addDepNext :: "nodeid \<Rightarrow> node \<Rightarrow> node" where
  "addDepNext m n = n\<lparr>depNext := insert m (depNext n)\<rparr>"

definition eraseDepNext :: "nodeid \<Rightarrow> node \<Rightarrow> node" where
  "eraseDepNext m n = n\<lparr>depNext := depNext n - {m}\<rparr>"

text \<open>\<^verbatim>\<open>Node::dup\<close>: a new node with the same type, shape and position in the source.\<close>

definition dup_node :: "node \<Rightarrow> NodeType \<Rightarrow> string \<Rightarrow> node" where
  "dup_node n t nm =
     (new_node (if t = NODE_INVALID then ntype n else t))
       \<lparr>name := (if nm = [] then name n else nm), nwidth := nwidth n, nsign := nsign n,
        nisClock := nisClock n, nreset := nreset n, lineno := lineno n,
        dimension := dimension n\<rparr>"

end
