(* ===== verification/InferWidth.thy ===== *)
theory InferWidth
  imports Node
begin

section \<open>Width inference\<close>

text \<open>
  \<^verbatim>\<open>src/inferWidth.cpp\<close>: the width and sign of every expression node from its children, the
  width of a node from its trees, and the rewriting of \<^verbatim>\<open>head\<close> and \<^verbatim>\<open>tail\<close>.  The claim is that
  the inferred width loses nothing: the exact value of every expression fits it.
\<close>

text \<open>Width and sign of a child, as the macros \<^verbatim>\<open>w0\<close>, \<^verbatim>\<open>s0\<close> read them.\<close>

type_synonym wsign = "int \<times> bool"

text \<open>
  \<^verbatim>\<open>1 << w1\<close> on a C++ \<^verbatim>\<open>int\<close>: outside 0 to 30 the result is undefined or negative, and
  the run counts as aborted.
\<close>

definition shl_one :: "int \<Rightarrow> int abortable" where
  "shl_one w = (if 0 \<le> w \<and> w < 31 then Some (2 ^ nat w) else None)"

definition infer_width2 :: "OPType \<Rightarrow> wsign \<Rightarrow> wsign \<Rightarrow> wsign abortable" where
  "infer_width2 op p q =
     (case p of (w0, s0) \<Rightarrow> case q of (w1, s1) \<Rightarrow>
      (case op of
         OP_ADD \<Rightarrow> do { assert_that (s0 = s1); Some (max w0 w1 + 1, s0) }
       | OP_SUB \<Rightarrow> do { assert_that (s0 = s1); Some (max w0 w1 + 1, s0) }
       | OP_MUL \<Rightarrow> do { assert_that (s0 = s1); Some (w0 + w1, s0) }
       | OP_CAT \<Rightarrow> do { assert_that (s0 = s1); Some (w0 + w1, False) }
       | OP_DIV \<Rightarrow> do { assert_that (s0 = s1); Some (w0 + of_bool s0, s0) }
       | OP_REM \<Rightarrow> do { assert_that (s0 = s1); Some (min w0 w1, s0) }
       | OP_LT \<Rightarrow> do { assert_that (s0 = s1); Some (1, False) }
       | OP_LEQ \<Rightarrow> do { assert_that (s0 = s1); Some (1, False) }
       | OP_GT \<Rightarrow> do { assert_that (s0 = s1); Some (1, False) }
       | OP_GEQ \<Rightarrow> do { assert_that (s0 = s1); Some (1, False) }
       | OP_EQ \<Rightarrow> do { assert_that (s0 = s1); Some (1, False) }
       | OP_NEQ \<Rightarrow> do { assert_that (s0 = s1); Some (1, False) }
       | OP_DSHL \<Rightarrow> do { assert_that (\<not> s1); k \<leftarrow> shl_one w1; Some (w0 + k - 1, s0) }
       | OP_DSHR \<Rightarrow> Some (w0, s0)
       | OP_AND \<Rightarrow> do { assert_that (s0 = s1); Some (max w0 w1, False) }
       | OP_OR \<Rightarrow> do { assert_that (s0 = s1); Some (max w0 w1, False) }
       | OP_XOR \<Rightarrow> do { assert_that (s0 = s1); Some (max w0 w1, False) }
       | _ \<Rightarrow> None))"

definition infer_width1 :: "OPType \<Rightarrow> int list \<Rightarrow> wsign \<Rightarrow> wsign abortable" where
  "infer_width1 op vs p =
     (case p of (w0, s0) \<Rightarrow>
      (case op of
         OP_ASUINT \<Rightarrow> Some (w0, False)
       | OP_ASSINT \<Rightarrow> Some (w0, True)
       | OP_ASCLOCK \<Rightarrow> Some (1, False)
       | OP_ASASYNCRESET \<Rightarrow> Some (1, False)
       | OP_CVT \<Rightarrow> Some (w0 + of_bool (\<not> s0), True)
       | OP_NEG \<Rightarrow> Some (w0 + 1, True)
       | OP_NOT \<Rightarrow> Some (w0, False)
       | OP_ANDR \<Rightarrow> Some (1, False)
       | OP_ORR \<Rightarrow> Some (1, False)
       | OP_XORR \<Rightarrow> Some (1, False)
       | OP_PAD \<Rightarrow> (case vs of [n] \<Rightarrow> Some (max w0 n, s0) | _ \<Rightarrow> None)
       | OP_SHL \<Rightarrow> (case vs of [n] \<Rightarrow> Some (w0 + n, s0) | _ \<Rightarrow> None)
       | OP_SHR \<Rightarrow> (case vs of [n] \<Rightarrow> Some (max (w0 - n) 0, s0) | _ \<Rightarrow> None)
       | OP_HEAD \<Rightarrow> (case vs of [n] \<Rightarrow> Some (n, False) | _ \<Rightarrow> None)
       | OP_TAIL \<Rightarrow> (case vs of
           [n] \<Rightarrow> Some (if w0 < n then 0 else w0 - n, False) | _ \<Rightarrow> None)
       | OP_BITS \<Rightarrow> (case vs of [h, l] \<Rightarrow> Some (h - l + 1, False) | _ \<Rightarrow> None)
       | OP_BITS_NOSHIFT \<Rightarrow> (case vs of [h, l] \<Rightarrow> Some (h + 1, False) | _ \<Rightarrow> None)
       | _ \<Rightarrow> None))"

definition infer_mux :: "wsign option list \<Rightarrow> wsign abortable" where
  "infer_mux ws =
     (case ws of
        [_, Some (w1, s1), Some (w2, s2)] \<Rightarrow> Some (max w1 w2, s1)
      | [_, Some (w1, s1), None] \<Rightarrow> Some (w1, s1)
      | [_, None, Some (w2, s2)] \<Rightarrow> Some (w2, s2)
      | _ \<Rightarrow> None)"

fun infer_group :: "wsign \<Rightarrow> wsign option list \<Rightarrow> wsign abortable" where
  "infer_group (w, s) [] = Some (w, s)"
| "infer_group (w, s) (Some (wc, sc) # ws) = infer_group (max w wc, sc) ws"
| "infer_group (w, s) (None # ws) = None"

definition infer_prim :: "OPType \<Rightarrow> int list \<Rightarrow> wsign option list \<Rightarrow> wsign abortable" where
  "infer_prim op vs ws =
     (case ws of
        [Some p] \<Rightarrow> infer_width1 op vs p
      | [Some p, Some q] \<Rightarrow> infer_width2 op p q
      | _ \<Rightarrow> None)"

text \<open>The \<^verbatim>\<open>switch\<close> of \<^verbatim>\<open>ENode::inferWidth\<close>: new width and sign, or a failed check.\<close>

definition infer_width_op :: "heap \<Rightarrow> eattr \<Rightarrow> wsign option list \<Rightarrow> wsign abortable" where
  "infer_width_op N a ws =
     (case opType a of
        OP_INT \<Rightarrow> do { assert_that (0 \<le> width a); Some (width a, sign a) }
      | OP_MUX \<Rightarrow> infer_mux ws
      | OP_WHEN \<Rightarrow> infer_mux ws
      | OP_GROUP \<Rightarrow> infer_group (width a, sign a) ws
      | OP_READ_MEM \<Rightarrow> map_option (\<lambda>m. (nwidth (N m), nsign (N m))) (memoryNode a)
      | OP_WRITE_MEM \<Rightarrow> (case ws of _ # Some (w1, s1) # _ \<Rightarrow> Some (w1, s1) | _ \<Rightarrow> None)
      | OP_INVALID \<Rightarrow> Some (0, False)
      | OP_RESET \<Rightarrow> (case ws of _ # Some (w1, s1) # _ \<Rightarrow> Some (w1, False) | _ \<Rightarrow> None)
      | OP_PRINTF \<Rightarrow> Some (1, False)
      | OP_ASSERT \<Rightarrow> Some (1, False)
      | OP_EXIT \<Rightarrow> Some (1, False)
      | OP_EXT_FUNC \<Rightarrow> Some (1, False)
      | OP_INDEX_INT \<Rightarrow> Some (width a, sign a)
      | OP_INDEX \<Rightarrow> Some (width a, sign a)
      | op \<Rightarrow> infer_prim op (evalues a) ws)"

fun inferWidth :: "heap \<Rightarrow> enode \<Rightarrow> enode abortable" where
  "inferWidth N (ENode a cs) =
     do { cs' \<leftarrow> those (map (child_map (inferWidth N)) cs);
          case nodePtr a of
            Some n \<Rightarrow>
              Some (ENode (a\<lparr>width := nwidth (N n), sign := nsign (N n),
                            isClock := nisClock (N n)\<rparr>) cs')
          | None \<Rightarrow>
              do { (w, s) \<leftarrow> infer_width_op N a
                      (map (map_option (\<lambda>c. (e_width c, e_sign c))) cs');
                   Some (ENode (a\<lparr>width := w, sign := s,
                                 isClock := (opType a = OP_ASCLOCK)\<rparr>) cs') } }"

fun clearWidth :: "enode \<Rightarrow> enode" where
  "clearWidth (ENode a cs) =
     ENode (if opType a \<noteq> OP_INT then a\<lparr>width := -1\<rparr> else a) (map (map_option clearWidth) cs)"

text \<open>\<^verbatim>\<open>Node::updateHeadTail\<close> on one tree: from the FIRRTL argument to the cut position.\<close>

definition head_tail_attr :: "eattr \<Rightarrow> enode option list \<Rightarrow> eattr abortable" where
  "head_tail_attr a cs =
     (if opType a = OP_HEAD \<or> opType a = OP_TAIL
      then (case (evalues a, cs) of
              (n # vs, Some c # _) \<Rightarrow> Some (a\<lparr>evalues := (e_width c - n) # vs\<rparr>)
            | _ \<Rightarrow> None)
      else Some a)"

fun updateHeadTail :: "enode \<Rightarrow> enode abortable" where
  "updateHeadTail (ENode a cs) =
     do { a' \<leftarrow> head_tail_attr a cs;
          cs' \<leftarrow> those (map (child_map updateHeadTail) cs);
          Some (ENode a' cs') }"

section \<open>Well-typed trees\<close>

text \<open>
  What the FIRRTL typing rules promise of a tree: literals of the right range, branches of a
  multiplexer of one sign, indices only below references.  A signed right shift has to
  leave a bit, because \<^verbatim>\<open>inferWidth\<close> gives it width 0 otherwise (see \<open>shr_signed_loses_sign\<close>).
\<close>

definition literals_ok :: "OPType \<Rightarrow> int list \<Rightarrow> int \<Rightarrow> bool \<Rightarrow> bool" where
  "literals_ok op vs w0 s0 \<longleftrightarrow>
     (case op of
        OP_SHL \<Rightarrow> 0 \<le> vs ! 0
      | OP_SHR \<Rightarrow> 0 \<le> vs ! 0 \<and> (s0 \<longrightarrow> vs ! 0 < w0)
      | OP_HEAD \<Rightarrow> 0 \<le> vs ! 0 \<and> vs ! 0 \<le> w0
      | OP_TAIL \<Rightarrow> 0 \<le> vs ! 0
      | OP_BITS \<Rightarrow> 0 \<le> vs ! 1 \<and> vs ! 1 \<le> vs ! 0
      | OP_BITS_NOSHIFT \<Rightarrow> 0 \<le> vs ! 1 \<and> vs ! 1 \<le> vs ! 0
      | _ \<Rightarrow> True)"

definition node_typed :: "eattr \<Rightarrow> enode option list \<Rightarrow> bool" where
  "node_typed a cs \<longleftrightarrow>
     nodePtr a \<noteq> None \<and> opType a = OP_EMPTY \<or>
     nodePtr a = None \<and> opType a = OP_INDEX_INT \<or>
     nodePtr a = None \<and> opType a = OP_INDEX \<or>
     nodePtr a = None \<and> (\<forall>c \<in> set cs. \<forall>e \<in> set_option c. \<not> is_index e) \<and>
     (if opType a = OP_INT
      then (case int_literal (strVal a) of Some v \<Rightarrow> fits (nat (width a)) (sign a) v | None \<Rightarrow> True)
      else if opType a = OP_MUX \<or> opType a = OP_WHEN
      then (case cs of [_, Some t, Some f] \<Rightarrow> e_sign t = e_sign f | _ \<Rightarrow> True)
      else if opType a = OP_RESET then (case cs of [_, Some v] \<Rightarrow> \<not> e_sign v | _ \<Rightarrow> True)
      else (case cs of [Some c] \<Rightarrow> literals_ok (opType a) (evalues a) (e_width c) (e_sign c) | _ \<Rightarrow> True))"

fun fir_typed :: "enode \<Rightarrow> bool" where
  "fir_typed (ENode a cs) \<longleftrightarrow>
     node_typed a cs \<and> (\<forall>c \<in> set cs. \<forall>e \<in> set_option c. fir_typed e)"

text \<open>Environments that respect the widths of the nodes, and trees that carry inferred widths.\<close>

definition env_ok :: "heap \<Rightarrow> env \<Rightarrow> bool" where
  "env_ok N E \<longleftrightarrow>
     (\<forall>n. 0 \<le> nwidth (N n)) \<and>
     (\<forall>n is. fits (nat (nwidth (N n))) (nsign (N n)) (val E n is)) \<and>
     (\<forall>m i. fits (nat (nwidth (N m))) (nsign (N m)) (mem E m i))"

abbreviation annots :: "enode option list \<Rightarrow> wsign option list" where
  "annots cs \<equiv> map (map_option (\<lambda>c. (e_width c, e_sign c))) cs"

definition annot_ok :: "heap \<Rightarrow> eattr \<Rightarrow> enode option list \<Rightarrow> bool" where
  "annot_ok N a cs \<longleftrightarrow>
     (case nodePtr a of
        Some n \<Rightarrow> width a = nwidth (N n) \<and> sign a = nsign (N n)
      | None \<Rightarrow> opType a = OP_GROUP \<or> infer_width_op N a (annots cs) = Some (width a, sign a))"

fun annotated :: "heap \<Rightarrow> enode \<Rightarrow> bool" where
  "annotated N (ENode a cs) \<longleftrightarrow>
     annot_ok N a cs \<and> (\<forall>c \<in> set cs. \<forall>e \<in> set_option c. annotated N e)"

definition values_ok :: "env \<Rightarrow> enode option list \<Rightarrow> bool" where
  "values_ok E cs \<longleftrightarrow>
     (\<forall>c \<in> set cs. \<forall>e \<in> set_option c. \<forall>v.
        eval E e = Val v \<longrightarrow> 0 \<le> e_width e \<and> fits (nat (e_width e)) (e_sign e) v)"

section \<open>The inferred width holds the exact value\<close>

lemma prim2_fits:
  assumes "0 \<le> w0" "0 \<le> w1" "fits (nat w0) s0 a" "fits (nat w1) s1 b"
    and "infer_width2 op (w0, s0) (w1, s1) = Some (w, s)"
    and "prim2 op (nat w0, s0, a) (nat w1, s1, b) = Some v"
  shows "0 \<le> w \<and> fits (nat w) s v"
proof -
  obtain m where m: "w0 = int m" using assms(1) nonneg_int_cases by blast
  obtain n where n: "w1 = int n" using assms(2) nonneg_int_cases by blast
  have e: "nat (1 + max (int m) (int n)) = Suc (max m n)" "nat (int m + int n) = m + n" 
    "nat (1 + int m) = Suc m" "nat (max (int m) (int n)) = max m n" "nat (min (int m) (int n)) = min m n"
    by auto
  have p2: "(1::nat) \<le> m + 2 ^ n" by (simp add: add_increasing)
  then have "int m + 2 ^ n - 1 = int (m + 2 ^ n - 1)" by (subst of_nat_diff) simp_all
  then have e': "nat (int m + 2 ^ n - 1) = m + 2 ^ n - 1" by (metis nat_int)
  have p: "0 < int m + 2 ^ n" by (simp add: add_nonneg_pos)
  show ?thesis
    using assms fits_add [of m s a n b] fits_diff_signed [of m a n b] fits_mult [of m s a n b]
      fits_sdiv [of m s a n b] fits_smod [of m s a n b] fits_drop_bit [of m s a "nat b"]
      fits_dshl [of m s a n b]
    unfolding m n
    by (cases op; cases s0; cases s1) (auto simp: infer_width2_def prim2_def e fits_take_bit fits_cat shl_one_def add.commute [of _ 1] e' p Let_def simp del: take_bit_and take_bit_or take_bit_xor split: if_splits)
qed

lemma infer_width1_length:
  "infer_width1 op vs p = Some q \<Longrightarrow> op \<in> {OP_PAD, OP_SHL, OP_SHR, OP_HEAD, OP_TAIL} \<Longrightarrow> \<exists>n. vs = [n]"
  "infer_width1 op vs p = Some q \<Longrightarrow> op \<in> {OP_BITS, OP_BITS_NOSHIFT} \<Longrightarrow> \<exists>h l. vs = [h, l]"
  by (auto simp: infer_width1_def split: prod.splits list.splits)

lemma prim1_fits:
  assumes "0 \<le> w0" "fits (nat w0) s0 a" "literals_ok op vs w0 s0"
    and iw: "infer_width1 op vs (w0, s0) = Some (w, s)"
    and "prim1 True op vs (nat w0, s0, a) = Some v"
  shows "0 \<le> w \<and> fits (nat w) s v"
proof -
  obtain m where m: "w0 = int m" using assms(1) nonneg_int_cases by blast
  have e: "nat (1 + int m) = Suc m" "nat (int m + 1) = Suc m" by simp_all
  have m2: "fits (Suc 0) False (a mod 2)" by (simp add: fits_unsigned)
  have par: "fits (Suc 0) False (parity m a)" by (auto simp: fits_def parity_def)
  consider (one) n where "vs = [n]" "op \<in> {OP_PAD, OP_SHL, OP_SHR, OP_HEAD, OP_TAIL}"
    | (two) h l where "vs = [h, l]" "op \<in> {OP_BITS, OP_BITS_NOSHIFT}"
    | (none) "op \<notin> {OP_PAD, OP_SHL, OP_SHR, OP_HEAD, OP_TAIL, OP_BITS, OP_BITS_NOSHIFT}"
    using infer_width1_length [OF iw] by blast
  then show ?thesis
  proof cases
    case one
    have hd: "fits (nat n) False (drop_bit (m - nat n) (take_bit m a))" if "nat n \<le> m"
      using fits_drop_bit_less [of m False "take_bit m a" "m - nat n"] that by (simp add: fits_take_bit)
    have tl: "fits (nat (int m - n)) False (take_bit (m - nat n) a)" if "0 \<le> n"
      using that by (intro fits_take_bit) linarith
    have sl: "fits (nat (int m + n)) s0 (push_bit (nat n) a)" if "0 \<le> n" 
      using that fits_push_bit [of m s0 a "nat n"] assms(2) by (simp add: m nat_add_distrib)
    have sr: "fits (nat (int m - n)) s0 (drop_bit (nat n) a)" if "0 \<le> n" "s0 \<longrightarrow> n < int m"
      using that fits_drop_bit_less [of m s0 a "nat n"] assms(2) by (simp add: m nat_diff_distrib' nat_less_iff)
    have mx: "nat (max k 0) = nat k" for k by (simp add: max_def)
    have pd: "fits (nat (max (int m) n)) s0 a"
      using assms(2) by (rule fits_mono) (simp add: m nat_mono)
    from one(2) show ?thesis
      using assms one(1) hd tl sl sr pd by (auto simp: m mx literals_ok_def infer_width1_def prim1_def nat_le_iff split: if_splits)
  next
    case two
    have b1: "fits (nat k) False (take_bit (nat k) x)" for k x by (simp add: fits_take_bit)
    have "nat (h + 1) = nat (h - l + 1) + nat l" if "0 \<le> l" "l \<le> h" using that by simp
    with b1 have b2: "fits (nat (h + 1)) False (push_bit (nat l) (take_bit (nat (h - l + 1)) x))"
      if "0 \<le> l" "l \<le> h" for x using that by (metis fits_push_bit)
    from two assms show ?thesis
      by (auto simp: literals_ok_def infer_width1_def prim1_def b1 b2)
  next
    case none
    with assms fits_uminus [of m s0 a] fits_unsigned_signed [of m a "Suc m"] show ?thesis
      by (cases op) (auto simp: m e m2 par literals_ok_def infer_width1_def prim1_def fits_take_bit fits_mono)
  qed
qed

lemma infer_width_op_stable:
  "infer_width_op N a ws = Some (w, s) \<Longrightarrow> opType a \<noteq> OP_GROUP
   \<Longrightarrow> infer_width_op N (a\<lparr>width := w, sign := s, isClock := k\<rparr>) ws = Some (w, s)"
  by (cases "opType a") (simp_all add: infer_width_op_def)

lemma inferWidth_annotated: "inferWidth N e = Some e' \<Longrightarrow> annotated N e'"
proof (induction e arbitrary: e')
  case (ENode a cs)
  from ENode.prems obtain cs' where cs': "those (map (child_map (inferWidth N)) cs) = Some cs'"
    by (auto split: Option.bind_splits)
  then have ch: "list_all2 (rel_option (\<lambda>e e'. inferWidth N e = Some e')) cs cs'"
    by (simp add: those_map_Some child_map_Some)
  have "annotated N e'" if "c' \<in> set cs'" "e' \<in> set_option c'" for c' e'
    using list_all2_children [OF ch that] ENode.IH by blast
  then show ?case
    using ENode.prems cs'
    by (auto simp: annot_ok_def infer_width_op_stable split: option.splits Option.bind_splits)
       (metis infer_width_op_stable)+
qed

lemma mux_ok:
  assumes "infer_mux (annots cs) = Some (w, s)"
    and "case cs of [_, Some t, Some f] \<Rightarrow> e_sign t = e_sign f | _ \<Rightarrow> True"
    and "\<forall>c \<in> set cs. \<forall>e \<in> set_option c. \<forall>v. eval E e = Val v \<longrightarrow> 0 \<le> e_width e \<and> fits (nat (e_width e)) (e_sign e) v"
    and "select3 (map (map_option (operand_of E)) cs) = Val v"
  shows "0 \<le> w \<and> fits (nat w) s v"
  using select3_Val [OF assms(4)] assms(1-3)
  apply (auto simp: infer_mux_def nat_mono elim!: fits_mono split: list.splits option.splits prod.splits)
  done

lemma prim_ok:
  assumes "infer_prim op vs (annots cs) = Some (w, s)"
    and "case cs of [Some c] \<Rightarrow> literals_ok op vs (e_width c) (e_sign c) | _ \<Rightarrow> True"
    and "values_ok E cs"
    and "apply_prim True op vs (map (map_option (operand_of E)) cs) = Val v"
  shows "0 \<le> w \<and> fits (nat w) s v"
  using assms(4)
proof (cases rule: apply_prim_Val)
  case (one w0 s0 x)
  then obtain c where c: "cs = [Some c]" "eval E c = Val x" "w0 = nat (e_width c)" "s0 = e_sign c"
    by (cases cs; cases "hd cs") auto
  with one assms(1-3) show ?thesis
    by (intro prim1_fits [of "e_width c" "e_sign c" x op vs]) (auto simp: infer_prim_def values_ok_def)
next
  case (two w0 s0 x w1 s1 y)
  then obtain c d where c: "cs = [Some c, Some d]" "eval E c = Val x" "w0 = nat (e_width c)" "s0 = e_sign c"
     "eval E d = Val y" "w1 = nat (e_width d)" "s1 = e_sign d"
    by auto
  with two assms(1-3) show ?thesis
    by (intro prim2_fits [of "e_width c" "e_width d" "e_sign c" x "e_sign d" y op])
       (auto simp: infer_prim_def values_ok_def)
qed

lemma prim_ops_cases:
  assumes "infer_width_op N a ws = Some p" "opType a \<notin> {OP_INT, OP_MUX, OP_WHEN, OP_GROUP, OP_READ_MEM, 
    OP_INVALID, OP_RESET, OP_INDEX, OP_INDEX_INT}" "nodePtr a = None" "apply_op E a os = Val v"
  shows "infer_prim (opType a) (evalues a) ws = Some p \<and> apply_prim (firHeadTail E) (opType a) (evalues a) os = Val v"
proof (cases "opType a \<in> {OP_WRITE_MEM, OP_PRINTF, OP_ASSERT, OP_EXIT, OP_EXT_FUNC}")
  case True
  with assms(3,4) show ?thesis 
    by (auto simp: apply_op_def elim!: apply_prim_Val) (simp_all add: prim1_def prim2_def)
next
  case False
  with assms show ?thesis 
    by (cases "opType a") (simp_all add: infer_width_op_def apply_op_def)
qed

lemma reset_ok:
  assumes "infer_width_op N a (annots cs) = Some (w, s)" "opType a = OP_RESET" "nodePtr a = None"
    and "case cs of [_, Some v] \<Rightarrow> \<not> e_sign v | _ \<Rightarrow> True" "values_ok E cs"
    and "apply_op E a (map (map_option (operand_of E)) cs) = Val v"
  shows "0 \<le> w \<and> fits (nat w) s v"
proof -
  obtain c d where cs: "cs = [c, d]" and "select3 [map_option (operand_of E) c, map_option (operand_of E) d, None] = Val v"
    using assms(2,3,6) by (auto simp: apply_op_def split: list.splits)
  with select3_Val [OF this(2)] assms show ?thesis
    by (auto simp: infer_width_op_def values_ok_def)
qed

lemma apply_op_ok:
  assumes ann: "annot_ok N a cs" and ty: "node_typed a cs" and env: "env_ok N E" "firHeadTail E"
    and vs: "\<forall>c \<in> set cs. \<forall>e \<in> set_option c. \<not> is_index e \<longrightarrow>
        (\<forall>v. eval E e = Val v \<longrightarrow> 0 \<le> e_width e \<and> fits (nat (e_width e)) (e_sign e) v)"
    and ix: "nodePtr a \<noteq> None \<or> opType a \<noteq> OP_INDEX \<and> opType a \<noteq> OP_INDEX_INT"
    and v: "apply_op E a (map (map_option (operand_of E)) cs) = Val v"
  shows "0 \<le> width a \<and> fits (nat (width a)) (sign a) v"
proof (cases "nodePtr a")
  case (Some n)
  with ann env v show ?thesis
    by (auto simp: annot_ok_def env_ok_def apply_op_def split: option.splits)
next
  case None
  with ty ix vs have vo: "values_ok E cs" by (auto simp: node_typed_def values_ok_def)
  show ?thesis
  proof (cases "opType a = OP_GROUP")
    case True
    with None v show ?thesis 
     by (auto simp: apply_op_def elim!: apply_prim_Val) (simp_all add: prim1_def prim2_def)
  next
    case False
    with ann None have iw: "infer_width_op N a (annots cs) = Some (width a, sign a)" by (simp add: annot_ok_def)
    show ?thesis
    proof (cases "opType a \<in> {OP_INT, OP_MUX, OP_WHEN, OP_READ_MEM, OP_INVALID, OP_RESET}")
      case False
      with prim_ops_cases [OF iw _ None v] ix None \<open>opType a \<noteq> OP_GROUP\<close> vo ty env(2) show ?thesis
        by (intro prim_ok [of "opType a" "evalues a" cs _ _ E]) (auto simp: node_typed_def)
    next
      case True
      then consider (int) "opType a = OP_INT" | (mux) "opType a = OP_MUX \<or> opType a = OP_WHEN" 
        | (mem) "opType a = OP_READ_MEM" | (inv) "opType a = OP_INVALID" | (rst) "opType a = OP_RESET" by auto
      then show ?thesis
      proof cases
        case int
        with v iw ty None show ?thesis
          by (auto simp: apply_op_def of_opt_def infer_width_op_def node_typed_def split: option.splits)
      next
        case mux
        with iw ty None v vo show ?thesis
          by (intro mux_ok [of cs _ _ E]) (auto simp: values_ok_def infer_width_op_def apply_op_def node_typed_def)
      next
        case mem
        with iw obtain m where "memoryNode a = Some m" "width a = nwidth (N m)" "sign a = nsign (N m)"
          by (auto simp: infer_width_op_def)
        with mem None v env(1) show ?thesis
          by (auto simp: apply_op_def env_ok_def split: option.splits list.splits)
      next
        case inv
        with None v show ?thesis by (simp add: apply_op_def)
      next
        case rst
        with iw ty None v vo ix show ?thesis
          by (intro reset_ok) (auto simp: node_typed_def)
      qed
    qed
  qed
qed

lemma annotated_exact:
  assumes env: "env_ok N E" "firHeadTail E"
  shows "annotated N e \<Longrightarrow> fir_typed e \<Longrightarrow>
    eval E e = fireval E e \<and> (\<forall>v. eval E e = Val v \<longrightarrow> \<not> is_index e \<longrightarrow> 0 \<le> e_width e)"
proof (induction e)
  case (ENode a cs)
  have IH: "eval E e = fireval E e \<and> (\<forall>v. eval E e = Val v \<longrightarrow> \<not> is_index e \<longrightarrow> 0 \<le> e_width e)"
    if "c \<in> set cs" "e \<in> set_option c" for c e
    using ENode that by auto
  let ?os = "map (map_option (operand_of E)) cs"
  have os: "map (map_option (\<lambda>c. (nat (e_width c), e_sign c, fireval E c))) cs = ?os"
    using IH by (intro map_cong refl option.map_cong) auto
  have ok: "0 \<le> width a \<and> fits (nat (width a)) (sign a) v"
    if "apply_op E a ?os = Val v" "\<not> is_index (ENode a cs)" for v
    using ENode.prems that IH env by (intro apply_op_ok [of N a cs E]) (auto simp: is_index_def intro: eval_fits)
  have "map_outcome_val (keep_bits a) (apply_op E a ?os) = apply_op E a ?os"
    using ok by (cases "apply_op E a ?os") (auto simp: keep_bits_def is_index_def wrap_fits)
  then show ?case
    using ok by (auto simp: eval_ENode fireval_ENode os)
qed

lemma annotated_value:
  assumes "env_ok N E" "firHeadTail E" "annotated N e" "fir_typed e" "\<not> is_index e" "eval E e = Val v"
  shows "0 \<le> e_width e \<and> fits (nat (e_width e)) (e_sign e) v"
  using annotated_exact [OF assms(1-4)] eval_fits [OF assms(6)] assms(5,6) by blast

lemma head_tail_attr_simps:
  assumes "head_tail_attr a cs = Some a'"
  shows "nodePtr a' = nodePtr a" "opType a' = opType a" "width a' = width a" "sign a' = sign a"
    "strVal a' = strVal a" "memoryNode a' = memoryNode a"
    "opType a \<noteq> OP_HEAD \<Longrightarrow> opType a \<noteq> OP_TAIL \<Longrightarrow> evalues a' = evalues a"
  using assms by (auto simp: head_tail_attr_def split: if_splits list.splits option.splits)

lemma apply_op_prim:
  "nodePtr a = None \<Longrightarrow> opType a = OP_HEAD \<or> opType a = OP_TAIL
   \<Longrightarrow> apply_op E a os = apply_prim (firHeadTail E) (opType a) (evalues a) os"
  by (auto simp: apply_op_def)

lemma apply_op_firHeadTail:
  "nodePtr a \<noteq> None \<or> opType a \<noteq> OP_HEAD \<and> opType a \<noteq> OP_TAIL
   \<Longrightarrow> apply_op (E\<lparr>firHeadTail := b\<rparr>) a os = apply_op E a os"
proof -
  assume h: "nodePtr a \<noteq> None \<or> opType a \<noteq> OP_HEAD \<and> opType a \<noteq> OP_TAIL"
  have "prim1 b op vs = prim1 c op vs" if "op \<noteq> OP_HEAD" "op \<noteq> OP_TAIL" for b c op vs
    using that by (intro ext, cases op) (simp_all add: prim1_def)
  then have "apply_prim b op vs os = apply_prim c op vs os" if "op \<noteq> OP_HEAD" "op \<noteq> OP_TAIL" for b c op vs
    using that by (metis apply_prim_cong)
  with h show ?thesis
    by (cases "opType a"; cases "nodePtr a")
       (simp_all add: apply_op_def cong: option.case_cong list.case_cong)
qed

lemma prim1_head_tail:
  assumes "op = OP_HEAD \<or> op = OP_TAIL" "0 \<le> n" "0 \<le> w0"
  shows "prim1 False op [w0 - n] (nat w0, s, x) = prim1 True op [n] (nat w0, s, x)"
proof -
  have "nat (w0 - n) = nat w0 - nat n" using assms by (simp add: nat_diff_distrib')
  with assms show ?thesis by (auto simp: prim1_def)
qed

lemma infer_prim_head_tail:
  "infer_prim op vs ws = Some p \<Longrightarrow> op = OP_HEAD \<or> op = OP_TAIL
   \<Longrightarrow> (\<exists>n. vs = [n]) \<and> (\<exists>q. ws = [Some q])"
  by (auto simp: infer_prim_def infer_width1_def infer_width2_def
      split: list.splits option.splits prod.splits)

lemma head_tail_step:
  assumes "annot_ok N a cs" "node_typed a cs" "head_tail_attr a cs = Some a'" "firHeadTail E"
    and vs: "\<forall>c \<in> set cs. \<forall>e \<in> set_option c. \<not> is_index e \<longrightarrow>
        (\<forall>v. eval E e = Val v \<longrightarrow> 0 \<le> e_width e \<and> fits (nat (e_width e)) (e_sign e) v)"
  shows "apply_op (E\<lparr>firHeadTail := False\<rparr>) a' (map (map_option (operand_of E)) cs)
       = apply_op E a (map (map_option (operand_of E)) cs)"
proof (cases "nodePtr a = None \<and> (opType a = OP_HEAD \<or> opType a = OP_TAIL)")
  case False
  with assms(2) have "opType a \<noteq> OP_HEAD \<and> opType a \<noteq> OP_TAIL"
    by (auto simp only: node_typed_def)
  with assms(3) have "a' = a" by (simp add: head_tail_attr_def)
  with False show ?thesis by (simp add: apply_op_firHeadTail)
next
  case True
  with assms(1) have "infer_prim (opType a) (evalues a) (annots cs) = Some (width a, sign a)"
    by (auto simp: annot_ok_def infer_width_op_def)
  from infer_prim_head_tail [OF this conjunct2 [OF True]] obtain n q
    where "evalues a = [n]" "annots cs = [Some q]" by (elim exE conjE) simp
  then obtain c where c: "cs = [Some c]" "evalues a = [n]" by auto
  with True assms(3) have a': "a' = a\<lparr>evalues := [e_width c - n]\<rparr>"
    by (simp add: head_tail_attr_def)
  from True c assms(2) have "literals_ok (opType a) [n] (e_width c) (e_sign c)"
    by (elim conjE disjE) (simp_all add: node_typed_def)
  with True have n: "0 \<le> n" by (elim conjE disjE) (simp_all add: literals_ok_def)
  have "apply_prim False (opType a) [e_width c - n] [Some (operand_of E c)]
      = apply_prim True (opType a) [n] [Some (operand_of E c)]"
  proof (cases "eval E c")
    case (Val x)
    from True c assms(2) have "\<not> is_index c" by (elim conjE disjE) (simp_all add: node_typed_def)
    with Val vs c have "0 \<le> e_width c" by simp
    with prim1_head_tail [of "opType a" n "e_width c"] True n Val show ?thesis
      by (simp add: apply_prim_def)
  qed (simp_all add: apply_prim_def)
  with True c a' assms(4) show ?thesis by (simp add: apply_op_prim)
qed

lemma updateHeadTail_annots:
  "updateHeadTail e = Some e' \<Longrightarrow> e_width e' = e_width e \<and> e_sign e' = e_sign e"
  by (cases e) (auto simp: head_tail_attr_simps split: Option.bind_splits)

lemma updateHeadTail_eval:
  assumes env: "env_ok N E" "firHeadTail E"
  shows "annotated N e \<Longrightarrow> fir_typed e \<Longrightarrow> updateHeadTail e = Some e'
    \<Longrightarrow> eval (E\<lparr>firHeadTail := False\<rparr>) e' = eval E e"
proof (induction e arbitrary: e')
  case (ENode a cs)
  let ?E = "E\<lparr>firHeadTail := False\<rparr>"
  from ENode.prems(3) obtain a' cs' where a': "head_tail_attr a cs = Some a'"
    and e': "e' = ENode a' cs'"
    and cs': "list_all2 (rel_option (\<lambda>e e'. updateHeadTail e = Some e')) cs cs'"
    by (auto simp: those_map_Some child_map_Some split: Option.bind_splits)
  have IH: "eval ?E f = eval E g" if "c \<in> set cs" "g \<in> set_option c" "updateHeadTail g = Some f" for c f g
    using ENode that by auto
  have "list_all2 (\<lambda>c c'. map_option (operand_of ?E) c' = map_option (operand_of E) c) cs cs'"
    using cs'
    by (rule list.rel_mono_strong) (auto simp: rel_option_iff IH updateHeadTail_annots split: option.splits)
  then have os: "map (map_option (operand_of ?E)) cs' = map (map_option (operand_of E)) cs"
    by (simp add: list_all2_conv_all_nth list_eq_iff_nth_eq)
  have "apply_op ?E a' (map (map_option (operand_of E)) cs) = apply_op E a (map (map_option (operand_of E)) cs)"
  proof (rule head_tail_step [OF _ _ a' env(2)])
    show "\<forall>c \<in> set cs. \<forall>e \<in> set_option c. \<not> is_index e \<longrightarrow>
        (\<forall>v. eval E e = Val v \<longrightarrow> 0 \<le> e_width e \<and> fits (nat (e_width e)) (e_sign e) v)"
      using ENode.prems(1,2) annotated_value [OF env] by fastforce
  qed (use ENode.prems in auto)
  moreover have "keep_bits a' = keep_bits a" using head_tail_attr_simps [OF a'] by (intro keep_bits_cong)
  ultimately show ?case by (simp add: e' eval_ENode os)
qed

lemma updateHeadTail_total: "annotated N e \<Longrightarrow> fir_typed e \<Longrightarrow> \<exists>e'. updateHeadTail e = Some e'"
proof (induction e)
  case (ENode a cs)
  have "\<exists>cs'. those (map (child_map updateHeadTail) cs) = Some cs'"
  proof -
    have "\<forall>c \<in> set cs. \<exists>c'. child_map updateHeadTail c = Some c'"
      using ENode by (auto simp: child_map_def split: option.splits)
    then show ?thesis
      by (induction cs) auto
  qed
  moreover have "\<exists>a'. head_tail_attr a cs = Some a'"
  proof (cases "opType a = OP_HEAD \<or> opType a = OP_TAIL")
    case True
    with ENode.prems have "nodePtr a = None" by (auto simp: node_typed_def)
    with True ENode.prems have "infer_prim (opType a) (evalues a) (annots cs) = Some (width a, sign a)"
      by (auto simp: annot_ok_def infer_width_op_def)
    from infer_prim_head_tail [OF this True] show ?thesis using True
      by (auto simp: head_tail_attr_def)
  qed (simp add: head_tail_attr_def)
  ultimately show ?case by auto
qed

section \<open>Properties\<close>

text \<open>
  C7: width inference loses no bits: after \<^verbatim>\<open>ENode::inferWidth\<close> on a well-typed tree, evaluating
  the tree with every node cut to its inferred width and sign gives the exact FIRRTL value.
\<close>

theorem inferWidth_exact:
  "inferWidth N e = Some t \<Longrightarrow> fir_typed t \<Longrightarrow> env_ok N E \<Longrightarrow> firHeadTail E
   \<Longrightarrow> eval E t = fireval E t"
  using annotated_exact inferWidth_annotated by blast

definition demo_node :: node where
  "demo_node = (new_node NODE_OTHERS)\<lparr>nwidth := 4\<rparr>"

definition demo_env :: env where
  "demo_env = \<lparr>val = (\<lambda>n is. 15), mem = (\<lambda>m i. 15), firHeadTail = True\<rparr>"

definition demo_sum :: enode where
  "demo_sum = ENode (new_eattr OP_ADD)
     [Some (ENode ((new_eattr OP_HEAD)\<lparr>evalues := [3]\<rparr>) [Some (new_leaf 0)]),
      Some (ENode (new_eattr OP_CAT) [Some (new_leaf 1), Some (new_leaf 2)])]"

lemma demo_env_ok: "env_ok (\<lambda>_. demo_node) demo_env"
  by (simp add: env_ok_def demo_node_def demo_env_def new_node_def fits_def)

definition demo_typed_sum :: enode where
  "demo_typed_sum = the (inferWidth (\<lambda>_. demo_node) demo_sum)"

lemmas demo_defs = demo_sum_def demo_node_def new_node_def new_eattr_def new_leaf_def

lemma demo_sum_infer: "inferWidth (\<lambda>_. demo_node) demo_sum = Some demo_typed_sum"
  by (simp add: demo_typed_sum_def demo_defs infer_width_op_def infer_prim_def infer_width1_def
      infer_width2_def)

lemma demo_sum_typed: "fir_typed demo_typed_sum"
  by (simp add: demo_typed_sum_def demo_defs infer_width_op_def infer_prim_def infer_width1_def
      infer_width2_def node_typed_def literals_ok_def is_index_def)

theorem inferWidth_exact_witness:
  "eval demo_env demo_typed_sum = fireval demo_env demo_typed_sum \<and> e_width demo_typed_sum = 9"
  using inferWidth_exact [OF demo_sum_infer demo_sum_typed demo_env_ok]
  by (simp add: demo_typed_sum_def demo_defs demo_env_def infer_width_op_def infer_prim_def
      infer_width1_def infer_width2_def)

text \<open>
  C31: \<^verbatim>\<open>updateHeadTail\<close> always succeeds on an inferred tree, and turning the argument of \<^verbatim>\<open>head\<close>
  and \<^verbatim>\<open>tail\<close> into a bit position keeps the exact value of the whole tree.
\<close>

theorem updateHeadTail_exact:
  assumes "inferWidth N e = Some t" "fir_typed t" "env_ok N E" "firHeadTail E"
  shows "\<exists>t'. updateHeadTail t = Some t' \<and> eval (E\<lparr>firHeadTail := False\<rparr>) t' = fireval E t"
proof -
  note an = inferWidth_annotated [OF assms(1)]
  obtain t' where t': "updateHeadTail t = Some t'"
    using updateHeadTail_total [OF an assms(2)] by blast
  have "eval (E\<lparr>firHeadTail := False\<rparr>) t' = eval E t"
    by (rule updateHeadTail_eval [OF assms(3,4) an assms(2) t'])
  with annotated_exact [OF assms(3,4) an assms(2)] t' show ?thesis by simp
qed

theorem updateHeadTail_exact_witness:
  "\<exists>t'. updateHeadTail demo_typed_sum = Some t'
     \<and> eval (demo_env\<lparr>firHeadTail := False\<rparr>) t' = fireval demo_env demo_typed_sum"
  using updateHeadTail_exact [OF demo_sum_infer demo_sum_typed demo_env_ok]
  by (simp add: demo_env_def)

lemma int_literal_minus_one: "int_literal ''-1'' = Some (-1)"
  by code_simp

text \<open>
  The width of a signed right shift by the whole width: FIRRTL keeps the sign bit in one
  bit, \<^verbatim>\<open>inferWidth\<close> gives the result width 0, so that shifting -1 yields 0 instead of -1.
\<close>

theorem shr_signed_loses_sign:
  "\<exists>t. inferWidth (\<lambda>_. demo_node)
          (ENode ((new_eattr OP_SHR)\<lparr>evalues := [1]\<rparr>) [Some (allocIntEnode 1 ''-1'' True)]) = Some t
     \<and> e_width t = 0 \<and> fireval demo_env t = Val (-1) \<and> eval demo_env t = Val 0"
  by (simp add: infer_width_op_def infer_prim_def infer_width1_def new_eattr_def allocIntEnode_def
      fireval_ENode eval_ENode apply_op_def apply_prim_def prim1_def of_opt_def int_literal_minus_one
      keep_bits_def wrap_def)

end
