(* ===== verification/Graph.thy ===== *)
theory Graph
  imports Node
begin

section \<open>The circuit graph and its super nodes\<close>

text \<open>
  \<^verbatim>\<open>include/graph.h\<close>, \<^verbatim>\<open>src/graph.cpp\<close>, \<^verbatim>\<open>src/superNode.cpp\<close> and the edge construction of
  \<^verbatim>\<open>src/Node.cpp\<close>.  A graph holds the nodes, the super nodes (groups of nodes that are
  evaluated together) and the lists the passes work on.  The edges are recomputed from the
  expression trees by \<open>reconnectAll\<close>; the lemmas show that the recomputed edges are exactly
  the references of the trees and that they are recorded symmetrically at both ends, which
  is what the sorting and the removal passes rely on.
\<close>

type_synonym superid = nat

record supernode =
  sprev :: "superid set"
  snext :: "superid set"
  sdepPrev :: "superid set"
  sdepNext :: "superid set"
  smember :: "nodeid list"
  sorder :: int
  superType :: SuperType

record graph =
  nodes :: heap
  supers :: "superid \<Rightarrow> supernode"
  input :: "nodeid list"
  "output" :: "nodeid list"
  regsrc :: "nodeid list"
  memory :: "nodeid list"
  specialNodes :: "nodeid list"
  supersrc :: "superid list"
  sortedSuper :: "superid list"

text \<open>A new \<^verbatim>\<open>SuperNode\<close>; the source leaves \<^verbatim>\<open>order\<close> uninitialised until \<^verbatim>\<open>orderAllNodes\<close>.\<close>

definition new_super :: supernode where
  "new_super = \<lparr>sprev = {}, snext = {}, sdepPrev = {}, sdepNext = {}, smember = [],
     sorder = 0, superType = SUPER_VALID\<rparr>"

subsection \<open>Operations of a super node\<close>

definition super_clear_relation :: "supernode \<Rightarrow> supernode" where
  "super_clear_relation s = s\<lparr>sprev := {}, snext := {}, sdepPrev := {}, sdepNext := {}\<rparr>"

definition super_addPrev :: "superid \<Rightarrow> supernode \<Rightarrow> supernode" where
  "super_addPrev p s = s\<lparr>sprev := insert p (sprev s), sdepPrev := insert p (sdepPrev s)\<rparr>"

definition super_addPrev_all :: "superid set \<Rightarrow> supernode \<Rightarrow> supernode" where
  "super_addPrev_all ps s = s\<lparr>sprev := sprev s \<union> ps, sdepPrev := sdepPrev s \<union> ps\<rparr>"

definition super_erasePrev :: "superid \<Rightarrow> supernode \<Rightarrow> supernode" where
  "super_erasePrev p s = s\<lparr>sprev := sprev s - {p}, sdepPrev := sdepPrev s - {p}\<rparr>"

definition super_addDepPrev :: "superid \<Rightarrow> supernode \<Rightarrow> supernode" where
  "super_addDepPrev p s = s\<lparr>sdepPrev := insert p (sdepPrev s)\<rparr>"

definition super_eraseDepPrev :: "superid \<Rightarrow> supernode \<Rightarrow> supernode" where
  "super_eraseDepPrev p s = s\<lparr>sdepPrev := sdepPrev s - {p}\<rparr>"

definition super_addNext :: "superid \<Rightarrow> supernode \<Rightarrow> supernode" where
  "super_addNext p s = s\<lparr>snext := insert p (snext s), sdepNext := insert p (sdepNext s)\<rparr>"

definition super_addNext_all :: "superid set \<Rightarrow> supernode \<Rightarrow> supernode" where
  "super_addNext_all ps s = s\<lparr>snext := snext s \<union> ps, sdepNext := sdepNext s \<union> ps\<rparr>"

definition super_eraseDepNext :: "superid \<Rightarrow> supernode \<Rightarrow> supernode" where
  "super_eraseDepNext p s = s\<lparr>sdepNext := sdepNext s - {p}\<rparr>"

definition super_addDepNext :: "superid \<Rightarrow> supernode \<Rightarrow> supernode" where
  "super_addDepNext p s = s\<lparr>sdepNext := insert p (sdepNext s)\<rparr>"

definition super_eraseNext :: "superid \<Rightarrow> supernode \<Rightarrow> supernode" where
  "super_eraseNext p s = s\<lparr>snext := snext s - {p}, sdepNext := sdepNext s - {p}\<rparr>"

text \<open>\<^verbatim>\<open>add_member\<close> fails its \<^verbatim>\<open>Assert\<close> on a node that is already a member.\<close>

definition add_member :: "superid \<Rightarrow> nodeid \<Rightarrow> graph \<Rightarrow> graph abortable" where
  "add_member s n g =
     do { assert_that (n \<notin> set (smember (supers g s)));
          Some (g\<lparr>supers := (supers g)(s := (supers g s)\<lparr>smember := smember (supers g s) @ [n]\<rparr>),
                  nodes := (nodes g)(n := (nodes g n)\<lparr>super := Some s\<rparr>)\<rparr>) }"

definition connectPrev :: "superid \<Rightarrow> superid \<Rightarrow> (superid \<Rightarrow> supernode) \<Rightarrow> superid \<Rightarrow> supernode" where
  "connectPrev s p S =
     (let S1 = S(s := super_addPrev p (S s)) in S1(p := super_addNext s (S1 p)))"

definition connectNext :: "superid \<Rightarrow> superid \<Rightarrow> (superid \<Rightarrow> supernode) \<Rightarrow> superid \<Rightarrow> supernode" where
  "connectNext s p S =
     (let S1 = S(s := super_addNext p (S s)) in S1(p := super_addPrev s (S1 p)))"

subsection \<open>The nodes an expression refers to\<close>

fun rely_list :: "enode \<Rightarrow> nodeid list" where
  "rely_list (ENode a cs) =
     (case nodePtr a of None \<Rightarrow> [] | Some n \<Rightarrow> [n])
     @ concat (map (\<lambda>c. case c of None \<Rightarrow> [] | Some e \<Rightarrow> rely_list e) cs)"

definition getENodeRelyNodes :: "enode \<Rightarrow> nodeid set" where
  "getENodeRelyNodes e = set (rely_list e)"

definition tree_rely_list :: "exptree \<Rightarrow> nodeid list" where
  "tree_rely_list t =
     rely_list (root t)
     @ concat (map (\<lambda>c. case c of None \<Rightarrow> [] | Some e \<Rightarrow> rely_list e) (child (lvalue t)))"

definition getRelyNodes :: "exptree \<Rightarrow> nodeid set" where
  "getRelyNodes t = set (tree_rely_list t)"

subsection \<open>Edges between nodes\<close>

text \<open>\<open>link p n\<close>: \<open>p\<close> becomes a predecessor of \<open>n\<close>, recorded at both ends.\<close>

definition link :: "nodeid \<Rightarrow> nodeid \<Rightarrow> heap \<Rightarrow> heap" where
  "link p n h = (let h1 = h(n := addPrev p (h n)) in h1(p := addNext n (h1 p)))"

definition deplink :: "nodeid \<Rightarrow> nodeid \<Rightarrow> heap \<Rightarrow> heap" where
  "deplink p n h = (let h1 = h(n := addDepPrev p (h n)) in h1(p := addDepNext n (h1 p)))"

definition ports_of :: "heap \<Rightarrow> nodeid \<Rightarrow> NodeType \<Rightarrow> nodeid list abortable" where
  "ports_of h n t =
     (case parent (h n) of
        None \<Rightarrow> None
      | Some m \<Rightarrow> Some (filter (\<lambda>p. ntype (h p) = t) (member (h m))))"

definition updateConnect :: "nodeid \<Rightarrow> heap \<Rightarrow> heap abortable" where
  "updateConnect n h =
     (if ntype (h n) = NODE_REG_SRC then Some h
      else let h1 = fold (\<lambda>p. link p n) (concat (map tree_rely_list (assignTree (h n)))) h
           in (if ntype (h n) = NODE_READER
               then do { ws \<leftarrow> ports_of h n NODE_WRITER; Some (fold (\<lambda>w. link n w) ws h1) }
               else if ntype (h n) = NODE_WRITER
               then do { rs \<leftarrow> ports_of h n NODE_READER; Some (fold (\<lambda>r. link r n) rs h1) }
               else Some h1))"

text \<open>\<^verbatim>\<open>Node::updateDep\<close>, for register sources: what has to be evaluated before what.\<close>

definition reset_cond_nodes :: "node \<Rightarrow> nodeid list abortable" where
  "reset_cond_nodes nd =
     (if nreset nd = ASYRESET
      then (case resetTree nd of
              Some t \<Rightarrow> (case child (root t) of Some c # _ \<Rightarrow> Some (rely_list c) | _ \<Rightarrow> None)
            | None \<Rightarrow> None)
      else Some [])"

definition reset_val_nodes :: "node \<Rightarrow> nodeid list abortable" where
  "reset_val_nodes nd =
     (case resetTree nd of
        None \<Rightarrow> Some []
      | Some t \<Rightarrow>
          do { assert_that (e_op (root t) = OP_RESET);
               (case child (root t) of _ # Some v # _ \<Rightarrow> Some (rely_list v) | _ \<Rightarrow> None) })"

definition updateDep :: "nodeid \<Rightarrow> heap \<Rightarrow> heap abortable" where
  "updateDep n h =
     do { nextNodes \<leftarrow> reset_cond_nodes (h n);
          resetValNodes \<leftarrow> reset_val_nodes (h n);
          let dstlink = (\<lambda>r h. case getDst h n of None \<Rightarrow> h | Some dst \<Rightarrow> deplink r dst h);
              h1 = fold (\<lambda>p. deplink n p) (concat (map tree_rely_list (assignTree (h n)))) h;
              srcNext = sorted_list_of_set (next (h n));
              h2 = fold (\<lambda>r h. dstlink r (fold (\<lambda>x. deplink r x) srcNext (deplink n r h)))
                     nextNodes h1;
              h3 = fold (\<lambda>v h. if ntype (h v) = NODE_REG_SRC then deplink n v h else deplink v n h)
                     resetValNodes h2
          in Some h3 }"

text \<open>\<^verbatim>\<open>Node::removeConnection\<close>\<close>

definition removeConnection :: "nodeid \<Rightarrow> heap \<Rightarrow> heap" where
  "removeConnection n h =
     (let h1 = (\<lambda>m. if m \<in> prev (h n) then eraseNext n (h m) else h m)
      in (\<lambda>m. if m \<in> next (h n) then erasePrev n (h1 m) else h1 m))"

subsection \<open>Edges between super nodes\<close>

definition super_deplink :: "superid \<Rightarrow> superid \<Rightarrow> (superid \<Rightarrow> supernode) \<Rightarrow> superid \<Rightarrow> supernode" where
  "super_deplink p s S =
     (let S1 = S(s := super_addDepPrev p (S s)) in S1(p := super_addDepNext s (S1 p)))"

definition supers_of :: "heap \<Rightarrow> nodeid set \<Rightarrow> superid set" where
  "supers_of h A = Option.these ((\<lambda>m. super (h m)) ` A)"

definition constructSuperConnect :: "heap \<Rightarrow> nodeid \<Rightarrow> (superid \<Rightarrow> supernode) \<Rightarrow> (superid \<Rightarrow> supernode) abortable" where
  "constructSuperConnect h n S =
     (case super (h n) of
        None \<Rightarrow> None
      | Some s \<Rightarrow>
          do { assert_that (\<forall>m \<in> prev (h n) \<union> next (h n) \<union> depPrev (h n) \<union> depNext (h n).
                              super (h m) \<noteq> None);
               let others = (\<lambda>A. sorted_list_of_set (supers_of h A - {s}));
                   S1 = fold (\<lambda>p. connectPrev s p) (others (prev (h n))) S;
                   S2 = fold (\<lambda>p. connectNext s p) (others (next (h n))) S1;
                   S3 = fold (\<lambda>p. super_deplink p s) (others (depPrev (h n))) S2
               in Some (fold (\<lambda>p. super_deplink s p) (others (depNext (h n))) S3) })"

text \<open>\<^verbatim>\<open>Node::constructSuperNode\<close>; \<open>k\<close> is the number of the super node that \<^verbatim>\<open>new\<close> creates.\<close>

definition constructSuperNode :: "nodeid \<Rightarrow> superid \<Rightarrow> graph \<Rightarrow> graph abortable" where
  "constructSuperNode n k g =
     (let alloc = (\<lambda>x t. g\<lparr>supers := (supers g)(k := new_super\<lparr>smember := [x], superType := t\<rparr>),
                        nodes := (nodes g)(x := (nodes g x)\<lparr>super := Some k\<rparr>)\<rparr>);
          ext = (\<lambda>x. fold (\<lambda>m acc. acc \<bind> (\<lambda>g'. if ntype (nodes g' m) = NODE_EXT_OUT
                                           then add_member k m g' else Some g'))
                     (member (nodes g x)) (Some (alloc x SUPER_EXTMOD)))
      in (if super (nodes g n) \<noteq> None then Some g
          else (case ntype (nodes g n) of
                  NODE_INVALID \<Rightarrow> None
                | NODE_MEMORY \<Rightarrow> None
                | NODE_EXT \<Rightarrow> ext n
                | NODE_EXT_OUT \<Rightarrow>
                    (case parent (nodes g n) of
                       None \<Rightarrow> None
                     | Some p \<Rightarrow> if super (nodes g p) \<noteq> None then Some g else ext p)
                | _ \<Rightarrow> Some (alloc n SUPER_VALID))))"

subsection \<open>Whole-graph operations\<close>

definition all_members :: "graph \<Rightarrow> nodeid list" where
  "all_members g = concat (map (\<lambda>s. smember (supers g s)) (sortedSuper g))"

fun fold_abort :: "('a \<Rightarrow> 'b \<Rightarrow> 'b abortable) \<Rightarrow> 'a list \<Rightarrow> 'b \<Rightarrow> 'b abortable" where
  "fold_abort f [] b = Some b"
| "fold_abort f (x # xs) b = f x b \<bind> fold_abort f xs"

definition connectDep :: "graph \<Rightarrow> graph abortable" where
  "connectDep g =
     do { h \<leftarrow> fold_abort (\<lambda>n h. if ntype (h n) = NODE_REG_SRC then updateDep n h else Some h)
                 (all_members g) (nodes g);
          Some (g\<lparr>nodes := h\<rparr>) }"

definition reconnectSuper :: "graph \<Rightarrow> graph abortable" where
  "reconnectSuper g =
     (let S = (\<lambda>s. if s \<in> set (sortedSuper g) then super_clear_relation (supers g s) else supers g s)
      in do { S' \<leftarrow> fold_abort (constructSuperConnect (nodes g)) (all_members g) S;
              Some (g\<lparr>supers := S'\<rparr>) })"

definition reconnectAll :: "graph \<Rightarrow> graph abortable" where
  "reconnectAll g =
     (let h = (\<lambda>n. if n \<in> set (all_members g) then clear_relation (nodes g n) else nodes g n)
      in do { h' \<leftarrow> fold_abort updateConnect (all_members g) h;
              g' \<leftarrow> connectDep (g\<lparr>nodes := h'\<rparr>);
              reconnectSuper g' })"

definition removeEmptySuper :: "graph \<Rightarrow> graph" where
  "removeEmptySuper g =
     g\<lparr>sortedSuper := filter (\<lambda>s. \<not> ((superType (supers g s) = SUPER_VALID
                                      \<or> superType (supers g s) = SUPER_UPDATE_REG)
                                    \<and> smember (supers g s) = [])) (sortedSuper g)\<rparr>"

definition removeNodesNoConnect :: "NodeStatus \<Rightarrow> graph \<Rightarrow> graph" where
  "removeNodesNoConnect st g =
     removeEmptySuper
       (g\<lparr>supers := (\<lambda>s. if s \<in> set (sortedSuper g)
                         then (supers g s)\<lparr>smember := filter (\<lambda>n. status (nodes g n) \<noteq> st)
                                                        (smember (supers g s))\<rparr>
                         else supers g s)\<rparr>)"

definition countNodes :: "graph \<Rightarrow> nat" where
  "countNodes g = sum_list (map (\<lambda>s. length (smember (supers g s))) (sortedSuper g))"

definition removeNodes :: "NodeStatus \<Rightarrow> graph \<Rightarrow> graph abortable" where
  "removeNodes st g = reconnectSuper (removeEmptySuper (removeNodesNoConnect st g))"

text \<open>\<^verbatim>\<open>orderAllNodes\<close>: the nested loops, numbering the nodes from 1.\<close>

fun order_members :: "int \<Rightarrow> int \<Rightarrow> nodeid list \<Rightarrow> heap \<Rightarrow> heap \<times> int" where
  "order_members j k [] h = (h, k)"
| "order_members j k (n # ns) h =
     order_members (j + 1) (k + 1) ns (h(n := (h n)\<lparr>orderInSuper := j, order := k\<rparr>))"

fun order_supers :: "int \<Rightarrow> int \<Rightarrow> superid list \<Rightarrow> graph \<Rightarrow> graph" where
  "order_supers i k [] g = g"
| "order_supers i k (s # ss) g =
     (let (h, k') = order_members 0 k (smember (supers g s)) (nodes g)
      in order_supers (i + 1) k' ss
           (g\<lparr>nodes := h, supers := (supers g)(s := (supers g s)\<lparr>sorder := i\<rparr>)\<rparr>))"

definition orderAllNodes :: "graph \<Rightarrow> graph" where
  "orderAllNodes g = order_supers 0 1 (sortedSuper g) g"

text \<open>Copies refer to the same nodes.\<close>

lemma rely_dup: "rely_list (dup e) = rely_list e"
proof (induction e)
  case (ENode a cs)
  have "map (\<lambda>c. case map_option dup c of None \<Rightarrow> [] | Some e \<Rightarrow> rely_list e) cs
      = map (\<lambda>c. case c of None \<Rightarrow> [] | Some e \<Rightarrow> rely_list e) cs"
    using ENode by (intro map_cong) (auto simp del: map_eq_conv split: option.splits)
  then show ?case by (simp add: dup_attr_def comp_def del: map_eq_conv)
qed

section \<open>What the edge operations change\<close>

definition prev_rel :: "heap \<Rightarrow> (nodeid \<times> nodeid) set" where
  "prev_rel h = {(p, n). p \<in> prev (h n)}"

definition dep_rel :: "heap \<Rightarrow> (nodeid \<times> nodeid) set" where
  "dep_rel h = {(p, n). p \<in> depPrev (h n)}"

definition sym_edges :: "heap \<Rightarrow> bool" where
  "sym_edges h \<longleftrightarrow>
     (\<forall>p n. (p \<in> prev (h n) \<longleftrightarrow> n \<in> next (h p)) \<and> (p \<in> depPrev (h n) \<longleftrightarrow> n \<in> depNext (h p)))"

text \<open>Everything of a node but its edges.\<close>

definition same_static :: "heap \<Rightarrow> heap \<Rightarrow> bool" where
  "same_static h h' \<longleftrightarrow> (\<forall>n. clear_relation (h n) = clear_relation (h' n))"

lemma same_static_fields:
  assumes "same_static h h'"
  shows "ntype (h' n) = ntype (h n)" "assignTree (h' n) = assignTree (h n)"
    "parent (h' n) = parent (h n)" "member (h' n) = member (h n)" "status (h' n) = status (h n)"
    "super (h' n) = super (h n)" "resetTree (h' n) = resetTree (h n)" "nreset (h' n) = nreset (h n)"
    "regNext (h' n) = regNext (h n)"
proof -
  have e: "clear_relation (h n) = clear_relation (h' n)" using assms by (simp add: same_static_def)
  have f: "ntype (clear_relation x) = ntype x" "assignTree (clear_relation x) = assignTree x"
    "parent (clear_relation x) = parent x" "member (clear_relation x) = member x"
    "status (clear_relation x) = status x" "super (clear_relation x) = super x"
    "resetTree (clear_relation x) = resetTree x" "nreset (clear_relation x) = nreset x"
    "regNext (clear_relation x) = regNext x" for x
    by (simp_all add: clear_relation_def)
  show "ntype (h' n) = ntype (h n)" "assignTree (h' n) = assignTree (h n)"
    "parent (h' n) = parent (h n)" "member (h' n) = member (h n)" "status (h' n) = status (h n)"
    "super (h' n) = super (h n)" "resetTree (h' n) = resetTree (h n)" "nreset (h' n) = nreset (h n)"
    "regNext (h' n) = regNext (h n)"
    by (metis e f)+
qed

lemma same_static_refl [simp, intro]: "same_static h h"
  by (simp add: same_static_def)

lemma same_static_trans [trans]: "same_static h h' \<Longrightarrow> same_static h' h'' \<Longrightarrow> same_static h h''"
  by (simp add: same_static_def)

lemmas link_defs = link_def deplink_def addPrev_def addNext_def addDepPrev_def addDepNext_def

lemma link_static [simp]: "same_static h (link p n h)" "same_static h (deplink p n h)"
  by (simp_all add: same_static_def link_defs clear_relation_def)

lemma link_prev: "prev_rel (link p n h) = insert (p, n) (prev_rel h)"
  "prev_rel (deplink p n h) = prev_rel h"
  by (auto simp: prev_rel_def link_defs split: if_splits)

lemma link_dep: "dep_rel (link p n h) = insert (p, n) (dep_rel h)"
  "dep_rel (deplink p n h) = insert (p, n) (dep_rel h)"
  by (auto simp: dep_rel_def link_defs split: if_splits)

lemma link_sym: "sym_edges h \<Longrightarrow> sym_edges (link p n h)" "sym_edges h \<Longrightarrow> sym_edges (deplink p n h)"
  by (auto simp: sym_edges_def link_defs)

text \<open>A step that only adds edges: \<open>E\<close> to the adjacency, \<open>D\<close> to the dependences.\<close>

definition adds_edges :: "heap \<Rightarrow> (nodeid \<times> nodeid) set \<Rightarrow> (nodeid \<times> nodeid) set \<Rightarrow> heap \<Rightarrow> bool" where
  "adds_edges h E D h' \<longleftrightarrow>
     same_static h h' \<and> prev_rel h' = prev_rel h \<union> E \<and> dep_rel h' = dep_rel h \<union> D
     \<and> (sym_edges h \<longrightarrow> sym_edges h')"

lemma adds_edges_refl: "adds_edges h {} {} h"
  by (simp add: adds_edges_def)

lemma adds_edges_refl_ex: "\<exists>D. adds_edges h {} D h"
  by (rule exI, rule adds_edges_refl)

lemma adds_edges_trans:
  "adds_edges h E D h1 \<Longrightarrow> adds_edges h1 E' D' h2 \<Longrightarrow> adds_edges h (E \<union> E') (D \<union> D') h2"
  by (auto simp: adds_edges_def intro: same_static_trans)

lemma adds_edges_link: "adds_edges h {(p, n)} {(p, n)} (link p n h)"
  and adds_edges_deplink: "adds_edges h {} {(p, n)} (deplink p n h)"
  by (auto simp: adds_edges_def link_prev link_dep link_sym)

lemma adds_edges_fold:
  assumes "\<And>x h. x \<in> set xs \<Longrightarrow> P h \<Longrightarrow> adds_edges h (E x) (D x) (f x h)"
    and "\<And>h h' . P h \<Longrightarrow> same_static h h' \<Longrightarrow> P h'" and "P h"
  shows "adds_edges h (\<Union>x \<in> set xs. E x) (\<Union>x \<in> set xs. D x) (fold f xs h)"
  using assms
proof (induction xs arbitrary: h)
  case Nil
  then show ?case by (simp add: adds_edges_refl)
next
  case (Cons x xs)
  have a: "adds_edges h (E x) (D x) (f x h)" using Cons.prems by simp
  then have "P (f x h)" using Cons.prems(2,3) by (auto simp: adds_edges_def)
  then have "adds_edges (f x h) (\<Union>x \<in> set xs. E x) (\<Union>x \<in> set xs. D x) (fold f xs (f x h))"
    using Cons.prems by (intro Cons.IH) auto
  from adds_edges_trans [OF a this] show ?case by simp
qed

lemmas adds_edges_fold0 = adds_edges_fold [where P = "\<lambda>_. True", OF _ TrueI TrueI]

definition connect_edges :: "heap \<Rightarrow> nodeid \<Rightarrow> (nodeid \<times> nodeid) set" where
  "connect_edges h n =
     (if ntype (h n) = NODE_REG_SRC then {}
      else {(p, n) | p. \<exists>t \<in> set (assignTree (h n)). p \<in> getRelyNodes t}
        \<union> (if ntype (h n) = NODE_READER then {(n, w) | w. \<exists>ws. ports_of h n NODE_WRITER = Some ws \<and> w \<in> set ws}
           else if ntype (h n) = NODE_WRITER then {(r, n) | r. \<exists>rs. ports_of h n NODE_READER = Some rs \<and> r \<in> set rs}
           else {}))"

lemma updateConnect_edges:
  "updateConnect n h = Some h' \<Longrightarrow> adds_edges h (connect_edges h n) (connect_edges h n) h'"
proof -
  assume u: "updateConnect n h = Some h'"
  let ?ps = "concat (map tree_rely_list (assignTree (h n)))"
  let ?h1 = "fold (\<lambda>p. link p n) ?ps h"
  let ?R = "{(p, n) | p. \<exists>t \<in> set (assignTree (h n)). p \<in> getRelyNodes t}"
  have "(\<Union>p \<in> set ?ps. {(p, n)}) = ?R" by (auto simp: getRelyNodes_def)
  then have h1: "adds_edges h ?R ?R ?h1"
    using adds_edges_fold0 [where xs = ?ps and f = "\<lambda>p. link p n" and h = h
        and E = "\<lambda>p. {(p, n)}" and D = "\<lambda>p. {(p, n)}"] by (simp add: adds_edges_link)
  consider (reg) "ntype (h n) = NODE_REG_SRC" | (rd) "ntype (h n) = NODE_READER"
    | (wr) "ntype (h n) = NODE_WRITER"
    | (oth) "ntype (h n) \<noteq> NODE_REG_SRC" "ntype (h n) \<noteq> NODE_READER" "ntype (h n) \<noteq> NODE_WRITER"
    by blast
  then show ?thesis
  proof cases
    case reg
    with u show ?thesis by (simp add: updateConnect_def connect_edges_def adds_edges_refl)
  next
    case rd
    with u obtain ws where ws: "ports_of h n NODE_WRITER = Some ws" "h' = fold (\<lambda>w. link n w) ws ?h1"
      by (auto simp: updateConnect_def Let_def split: Option.bind_splits)
    have "adds_edges ?h1 (\<Union>w \<in> set ws. {(n, w)}) (\<Union>w \<in> set ws. {(n, w)}) h'"
      unfolding ws(2) by (rule adds_edges_fold0) (rule adds_edges_link)
    from adds_edges_trans [OF h1 this] show ?thesis
      using rd ws(1) by (simp add: connect_edges_def) (auto elim!: back_subst [of "\<lambda>E. adds_edges h E E h'"])
  next
    case wr
    with u obtain rs where rs: "ports_of h n NODE_READER = Some rs" "h' = fold (\<lambda>r. link r n) rs ?h1"
      by (auto simp: updateConnect_def Let_def split: Option.bind_splits)
    have "adds_edges ?h1 (\<Union>r \<in> set rs. {(r, n)}) (\<Union>r \<in> set rs. {(r, n)}) h'"
      unfolding rs(2) by (rule adds_edges_fold0) (rule adds_edges_link)
    from adds_edges_trans [OF h1 this] show ?thesis
      using wr rs(1) by (simp add: connect_edges_def) (auto elim!: back_subst [of "\<lambda>E. adds_edges h E E h'"])
  next
    case oth
    with u h1 show ?thesis by (simp add: updateConnect_def connect_edges_def Let_def)
  qed
qed

lemma ports_of_static: "same_static h h' \<Longrightarrow> ports_of h' n t = ports_of h n t"
  by (cases "parent (h n)") (simp_all add: ports_of_def same_static_fields)

lemma connect_edges_static: "same_static h h' \<Longrightarrow> connect_edges h' n = connect_edges h n"
  by (simp add: connect_edges_def same_static_fields ports_of_static)

lemma fold_abort_adds:
  assumes "\<And>x h h'. x \<in> set xs \<Longrightarrow> same_static h0 h \<Longrightarrow> f x h = Some h' \<Longrightarrow> \<exists>D. adds_edges h (E x) D h'"
    and "fold_abort f xs h = Some h'" and "same_static h0 h"
  shows "\<exists>D. adds_edges h (\<Union>x \<in> set xs. E x) D h'"
  using assms
proof (induction xs arbitrary: h)
  case Nil
  then show ?case using adds_edges_refl by auto
next
  case (Cons x xs)
  from Cons.prems(2) obtain h1 where h1: "f x h = Some h1" "fold_abort f xs h1 = Some h'"
    by (auto split: Option.bind_splits)
  obtain D where D: "adds_edges h (E x) D h1" using Cons.prems(1) [OF _ Cons.prems(3) h1(1)] by auto
  then have "same_static h0 h1" using Cons.prems(3) by (auto simp: adds_edges_def intro: same_static_trans)
  then obtain D' where "adds_edges h1 (\<Union>x \<in> set xs. E x) D' h'"
    using Cons.IH [OF _ h1(2)] Cons.prems(1) by auto
  from adds_edges_trans [OF D this] show ?case by auto
qed

lemma adds_edges_dep_fold:
  assumes "\<And>x h. \<exists>D. adds_edges h {} D (f x h)"
  shows "\<exists>D. adds_edges h {} D (fold f xs h)"
proof (induction xs arbitrary: h)
  case Nil
  then show ?case using adds_edges_refl by auto
next
  case (Cons x xs)
  obtain D where "adds_edges h {} D (f x h)" using assms by blast
  moreover obtain D' where "adds_edges (f x h) {} D' (fold f xs (f x h))" using Cons.IH by blast
  ultimately show ?case using adds_edges_trans [of h "{}" D "f x h" "{}" D'] by auto
qed

lemma updateDep_edges: "updateDep n h = Some h' \<Longrightarrow> \<exists>D. adds_edges h {} D h'"
proof -
  have dl: "\<exists>D. adds_edges h {} D (deplink p q h)" for p q h using adds_edges_deplink by blast
  have tr: "\<exists>D. adds_edges h {} D h2" if "\<exists>D. adds_edges h {} D h1" "\<exists>D. adds_edges h1 {} D h2" for h h1 h2
    using that adds_edges_trans [of h "{}" _ h1 "{}" _ h2] by fastforce
  have cs: "\<exists>D. adds_edges h {} D (case x of None \<Rightarrow> h | Some d \<Rightarrow> deplink p d h)" for p h x
    by (cases x) (simp_all add: dl adds_edges_refl_ex)
  assume "updateDep n h = Some h'"
  then show ?thesis
    apply (auto simp: updateDep_def Let_def split: Option.bind_splits)
    apply (rule tr [rotated])
     apply (rule adds_edges_dep_fold)
     apply (simp add: dl)
    apply (rule tr [rotated])
     apply (rule adds_edges_dep_fold)
     apply (rule tr [OF _ cs])
     apply (rule tr [OF dl])
     apply (rule adds_edges_dep_fold [OF dl])
    apply (rule adds_edges_dep_fold [OF dl])
    done
qed

definition isolated :: "graph \<Rightarrow> bool" where
  "isolated g \<longleftrightarrow>
     (\<forall>n. n \<notin> set (all_members g) \<longrightarrow>
        prev (nodes g n) = {} \<and> next (nodes g n) = {} \<and> depPrev (nodes g n) = {} \<and> depNext (nodes g n) = {})"

lemma reconnectSuper_nodes: "reconnectSuper g = Some g' \<Longrightarrow> nodes g' = nodes g"
  by (auto simp: reconnectSuper_def Let_def split: Option.bind_splits)

lemma connectDep_adds:
  assumes "connectDep g = Some g'"
  shows "\<exists>D. adds_edges (nodes g) {} D (nodes g')"
proof -
  obtain h where h: "fold_abort (\<lambda>n h. if ntype (h n) = NODE_REG_SRC then updateDep n h else Some h)
      (all_members g) (nodes g) = Some h" "nodes g' = h"
    using assms by (auto simp: connectDep_def split: Option.bind_splits)
  have "\<exists>D. adds_edges (nodes g) (\<Union>x \<in> set (all_members g). {}) D h"
    by (rule fold_abort_adds [OF _ h(1) same_static_refl])
       (auto split: if_splits intro: updateDep_edges adds_edges_refl_ex)
  then show ?thesis using h(2) by simp
qed

abbreviation cleared :: "graph \<Rightarrow> heap" where
  "cleared g \<equiv> \<lambda>n. if n \<in> set (all_members g) then clear_relation (nodes g n) else nodes g n"

lemma cleared_static: "same_static (nodes g) (cleared g)"
  by (simp add: same_static_def clear_relation_def)

lemma reconnectAll_steps:
  assumes "reconnectAll g = Some g'"
  shows "\<exists>D. adds_edges (cleared g) (\<Union>n \<in> set (all_members g). connect_edges (nodes g) n) D (nodes g')"
proof -
  from assms obtain h1 g2 where h1: "fold_abort updateConnect (all_members g) (cleared g) = Some h1"
    and g2: "connectDep (g\<lparr>nodes := h1\<rparr>) = Some g2" and g': "nodes g' = nodes g2"
    by (auto simp: reconnectAll_def Let_def reconnectSuper_nodes split: Option.bind_splits)
  have "\<exists>D. adds_edges (cleared g) (\<Union>n \<in> set (all_members g). connect_edges (nodes g) n) D h1"
    by (rule fold_abort_adds [OF _ h1 cleared_static]) (metis updateConnect_edges connect_edges_static)
  then obtain D1 where "adds_edges (cleared g) (\<Union>n \<in> set (all_members g). connect_edges (nodes g) n) D1 h1" ..
  moreover obtain D where "adds_edges h1 {} D (nodes g2)" using connectDep_adds [OF g2] by auto
  ultimately have "adds_edges (cleared g) ((\<Union>n \<in> set (all_members g). connect_edges (nodes g) n) \<union> {}) (D1 \<union> D) (nodes g2)"
    by (rule adds_edges_trans)
  then show ?thesis using g' by auto
qed

lemma reconnectAll_static: "reconnectAll g = Some g' \<Longrightarrow> same_static (nodes g) (nodes g')"
  using reconnectAll_steps cleared_static same_static_trans by (fastforce simp: adds_edges_def)

lemma reconnectAll_adds:
  assumes "reconnectAll g = Some g'" "isolated g"
  shows "prev_rel (nodes g') = (\<Union>n \<in> set (all_members g). connect_edges (nodes g) n) \<and> sym_edges (nodes g')"
proof -
  have "prev_rel (cleared g) = {}" "sym_edges (cleared g)"
    using assms(2) by (auto simp: prev_rel_def sym_edges_def isolated_def clear_relation_def)
  with reconnectAll_steps [OF assms(1)] show ?thesis by (auto simp: adds_edges_def)
qed

subsection \<open>Super nodes\<close>

definition ssym :: "(superid \<Rightarrow> supernode) \<Rightarrow> bool" where
  "ssym S \<longleftrightarrow>
     (\<forall>p s. (p \<in> sprev (S s) \<longleftrightarrow> s \<in> snext (S p)) \<and> (p \<in> sdepPrev (S s) \<longleftrightarrow> s \<in> sdepNext (S p))
          \<and> s \<notin> sdepPrev (S s) \<and> s \<notin> sprev (S s))"

lemmas super_link_defs = connectPrev_def connectNext_def super_deplink_def super_addPrev_def
  super_addNext_def super_addDepPrev_def super_addDepNext_def

lemma ssym_link:
  assumes "ssym S" "p \<noteq> s"
  shows "ssym (connectPrev s p S)" "ssym (connectNext s p S)" "ssym (super_deplink p s S)"
  using assms by (auto simp: ssym_def super_link_defs)

lemma ssym_fold:
  assumes "\<And>p S. p \<in> set ps \<Longrightarrow> ssym S \<Longrightarrow> ssym (f p S)" "ssym S"
  shows "ssym (fold f ps S)"
  using assms by (induction ps arbitrary: S) auto

lemma link_members:
  "smember (connectPrev s p S x) = smember (S x)" "smember (connectNext s p S x) = smember (S x)"
  "smember (super_deplink s p S x) = smember (S x)"
  by (simp_all add: super_link_defs)

lemma fold_members:
  "(\<And>p S x. smember (f p S x) = smember (S x)) \<Longrightarrow> smember (fold f ps S x) = smember (S x)"
  by (induction ps arbitrary: S) auto

lemma others_ne: "p \<in> set (sorted_list_of_set (A - {s})) \<Longrightarrow> p \<noteq> s"
  by (cases "finite (A - {s})") auto

lemma constructSuperConnect_ssym:
  assumes "constructSuperConnect h n S = Some S'" "ssym S"
  shows "ssym S' \<and> (\<forall>x. smember (S' x) = smember (S x))"
proof -
  from assms(1) obtain s where "super (h n) = Some s"
    by (auto simp: constructSuperConnect_def split: option.splits)
  with assms show ?thesis
    by (auto simp: constructSuperConnect_def Let_def link_members fold_members dest: others_ne
        intro!: ssym_fold ssym_link ssym_link(3) [of _ s])
qed

definition super_isolated :: "graph \<Rightarrow> bool" where
  "super_isolated g \<longleftrightarrow>
     (\<forall>s. s \<notin> set (sortedSuper g) \<longrightarrow>
        sprev (supers g s) = {} \<and> snext (supers g s) = {} \<and> sdepPrev (supers g s) = {}
        \<and> sdepNext (supers g s) = {})"

lemma fold_abort_invariant:
  assumes "\<And>x s s'. P s \<Longrightarrow> f x s = Some s' \<Longrightarrow> P s'"
  shows "fold_abort f xs s = Some s' \<Longrightarrow> P s \<Longrightarrow> P s'"
proof (induction xs arbitrary: s)
  case (Cons x xs)
  from Cons.prems(1) obtain s1 where s1: "f x s = Some s1" "fold_abort f xs s1 = Some s'"
    by (auto split: Option.bind_splits)
  show ?case by (rule Cons.IH [OF s1(2) assms [OF Cons.prems(2) s1(1)]])
qed simp

lemma reconnectSuper_ssym:
  assumes "reconnectSuper g = Some g'" "super_isolated g"
  shows "ssym (supers g') \<and> (\<forall>x. smember (supers g' x) = smember (supers g x))"
proof -
  let ?S = "\<lambda>s. if s \<in> set (sortedSuper g) then super_clear_relation (supers g s) else supers g s"
  let ?P = "\<lambda>S. ssym S \<and> (\<forall>x. smember (S x) = smember (supers g x))"
  have init: "?P ?S"
    using assms(2) by (simp add: ssym_def super_isolated_def super_clear_relation_def)
  from assms(1) have fa: "fold_abort (constructSuperConnect (nodes g)) (all_members g) ?S = Some (supers g')"
    by (auto simp: reconnectSuper_def Let_def split: Option.bind_splits)
  show ?thesis
    by (rule fold_abort_invariant [where P = ?P, OF _ fa init]) (simp add: constructSuperConnect_ssym)
qed

lemma constructSuperConnect_members:
  "constructSuperConnect h n S = Some S' \<Longrightarrow> smember (S' x) = smember (S x)"
  by (auto simp: constructSuperConnect_def Let_def link_members fold_members split: option.splits)

lemma reconnectSuper_members: "reconnectSuper g = Some g' \<Longrightarrow> all_members g' = all_members g"
proof -
  assume "reconnectSuper g = Some g'"
  then obtain S' where S': "g' = g\<lparr>supers := S'\<rparr>"
    "fold_abort (constructSuperConnect (nodes g)) (all_members g)
       (\<lambda>s. if s \<in> set (sortedSuper g) then super_clear_relation (supers g s) else supers g s) = Some S'"
    by (auto simp: reconnectSuper_def Let_def split: Option.bind_splits)
  have "\<forall>x. smember (S' x) = smember (supers g x)"
    by (rule fold_abort_invariant [where P = "\<lambda>S. \<forall>x. smember (S x) = smember (supers g x)", OF _ S'(2)])
       (simp_all add: constructSuperConnect_members super_clear_relation_def)
  then show ?thesis by (simp add: all_members_def S'(1))
qed

lemma reconnectAll_members: "reconnectAll g = Some g' \<Longrightarrow> all_members g' = all_members g"
proof -
  assume "reconnectAll g = Some g'"
  then obtain h1 g2 where g2: "connectDep (g\<lparr>nodes := h1\<rparr>) = Some g2" "reconnectSuper g2 = Some g'"
    by (auto simp: reconnectAll_def Let_def split: Option.bind_splits)
  then have "all_members g2 = all_members g"
    by (auto simp: connectDep_def all_members_def split: Option.bind_splits)
  with reconnectSuper_members [OF g2(2)] show ?thesis by simp
qed

text \<open>
  When the edge construction meets no null pointer.  Every id of the heap must have a super
  node; a memory, for which the code makes none, may be given any one here, since no edge
  ends in a memory and its \<^verbatim>\<open>super\<close> is never read.
\<close>

definition connectable :: "heap \<Rightarrow> bool" where
  "connectable h \<longleftrightarrow>
     (\<forall>n. super (h n) \<noteq> None
        \<and> (ntype (h n) = NODE_READER \<or> ntype (h n) = NODE_WRITER \<longrightarrow> parent (h n) \<noteq> None)
        \<and> (ntype (h n) = NODE_REG_SRC \<longrightarrow> reset_cond_nodes (h n) \<noteq> None \<and> reset_val_nodes (h n) \<noteq> None))"

lemma fold_abort_total:
  assumes "\<And>x s. P s \<Longrightarrow> \<exists>s'. f x s = Some s' \<and> P s'" "P s"
  shows "\<exists>s'. fold_abort f xs s = Some s' \<and> P s'"
  using assms(2)
proof (induction xs arbitrary: s)
  case (Cons x xs)
  obtain s1 where s1: "f x s = Some s1" "P s1" using assms(1) [OF Cons.prems] by blast
  from Cons.IH [OF s1(2)] show ?case by (simp add: s1(1))
qed simp

lemma connectable_static: "same_static h h' \<Longrightarrow> connectable h \<Longrightarrow> connectable h'"
proof -
  assume s: "same_static h h'" and c: "connectable h"
  have "reset_cond_nodes (h' n) = reset_cond_nodes (h n)" "reset_val_nodes (h' n) = reset_val_nodes (h n)" for n
    by (simp_all add: reset_cond_nodes_def reset_val_nodes_def same_static_fields [OF s])
  with c show ?thesis by (simp add: connectable_def same_static_fields [OF s])
qed

lemma updateConnect_total: "connectable h \<Longrightarrow> \<exists>h'. updateConnect n h = Some h'"
proof -
  assume "connectable h"
  then have "ntype (h n) = NODE_READER \<or> ntype (h n) = NODE_WRITER \<Longrightarrow> \<exists>m. parent (h n) = Some m"
    unfolding connectable_def by blast
  then show ?thesis by (auto simp: updateConnect_def ports_of_def Let_def)
qed

lemma updateDep_total: "connectable h \<Longrightarrow> ntype (h n) = NODE_REG_SRC \<Longrightarrow> \<exists>h'. updateDep n h = Some h'"
proof -
  assume "connectable h" "ntype (h n) = NODE_REG_SRC"
  then obtain a b where "reset_cond_nodes (h n) = Some a" "reset_val_nodes (h n) = Some b"
    unfolding connectable_def by blast
  then show ?thesis by (simp add: updateDep_def Let_def)
qed

lemma constructSuperConnect_total:
  "connectable h \<Longrightarrow> \<exists>S'. constructSuperConnect h n S = Some S'"
proof -
  assume c: "connectable h"
  then obtain s where "super (h n) = Some s" unfolding connectable_def by blast
  with c show ?thesis by (simp add: constructSuperConnect_def connectable_def Let_def)
qed

lemma reconnectSuper_total: "connectable (nodes g) \<Longrightarrow> \<exists>g'. reconnectSuper g = Some g'"
proof -
  assume c: "connectable (nodes g)"
  have "\<exists>S'. fold_abort (constructSuperConnect (nodes g)) (all_members g) S = Some S' \<and> True" for S
    by (rule fold_abort_total) (use constructSuperConnect_total [OF c] in auto)
  then obtain S' where "fold_abort (constructSuperConnect (nodes g)) (all_members g)
      (\<lambda>s. if s \<in> set (sortedSuper g) then super_clear_relation (supers g s) else supers g s) = Some S'"
    by blast
  then show ?thesis by (simp add: reconnectSuper_def Let_def)
qed

lemma reconnectAll_total: "connectable (nodes g) \<Longrightarrow> \<exists>g'. reconnectAll g = Some g'"
proof -
  assume c: "connectable (nodes g)"
  let ?h = "\<lambda>n. if n \<in> set (all_members g) then clear_relation (nodes g n) else nodes g n"
  let ?up = "\<lambda>n h. if ntype (h n) = NODE_REG_SRC then updateDep n h else Some h"
  have "same_static (nodes g) ?h" by (simp add: same_static_def clear_relation_def)
  then have ch: "connectable ?h" using c by (rule connectable_static)
  have u: "\<exists>h'. updateConnect n h = Some h' \<and> connectable h'" if "connectable h" for n h
    using updateConnect_total [OF that, of n] updateConnect_edges connectable_static [OF _ that]
    by (metis adds_edges_def)
  have d: "\<exists>h'. ?up n h = Some h' \<and> connectable h'" if "connectable h" for n h
    using updateDep_total [OF that, of n] updateDep_edges connectable_static [OF _ that] that
    by (metis adds_edges_def)
  obtain h1 where h1: "fold_abort updateConnect (all_members g) ?h = Some h1" "connectable h1"
    using fold_abort_total [where P = connectable and f = updateConnect, OF u ch] by blast
  obtain h2 where h2: "fold_abort ?up (all_members g) h1 = Some h2" "connectable h2"
    using fold_abort_total [where P = connectable and f = ?up, OF d h1(2)] by blast
  let ?g2 = "g\<lparr>nodes := h2\<rparr>"
  have m: "all_members (g\<lparr>nodes := h1\<rparr>) = all_members g" by (simp add: all_members_def)
  have "connectDep (g\<lparr>nodes := h1\<rparr>) = Some ?g2" by (simp add: connectDep_def m h2(1))
  moreover obtain g' where "reconnectSuper ?g2 = Some g'"
    using reconnectSuper_total [of ?g2] h2(2) by auto
  ultimately show ?thesis by (simp add: reconnectAll_def h1(1) Let_def)
qed

lemma order_members_spec:
  assumes "distinct ns" "order_members j k ns h = (h', k')"
  shows "k' = k + int (length ns) \<and> (\<forall>n. n \<notin> set ns \<longrightarrow> h' n = h n)
    \<and> (\<forall>i < length ns. order (h' (ns ! i)) = k + int i \<and> orderInSuper (h' (ns ! i)) = j + int i)"
  using assms
proof (induction ns arbitrary: j k h)
  case (Cons n ns)
  let ?h1 = "h(n := (h n)\<lparr>orderInSuper := j, order := k\<rparr>)"
  have om: "order_members (j + 1) (k + 1) ns ?h1 = (h', k')" and d: "distinct ns" using Cons.prems by simp_all
  have IH: "k' = k + 1 + int (length ns)" "\<forall>m. m \<notin> set ns \<longrightarrow> h' m = ?h1 m"
    "\<forall>i < length ns. order (h' (ns ! i)) = k + 1 + int i \<and> orderInSuper (h' (ns ! i)) = j + 1 + int i"
    using Cons.IH [OF d om] by simp_all
  have "h' n = ?h1 n" using IH(2) Cons.prems(1) by simp
  with IH show ?case by (auto simp: nth_Cons split: nat.splits)
qed simp

lemma order_supers_spec:
  assumes "distinct (concat (map (\<lambda>s. smember (supers g s)) ss))" "distinct ss"
    "order_supers i k ss g = g'"
  shows "(\<forall>n. n \<notin> set (concat (map (\<lambda>s. smember (supers g s)) ss)) \<longrightarrow> nodes g' n = nodes g n)
    \<and> (\<forall>j < length (concat (map (\<lambda>s. smember (supers g s)) ss)).
         order (nodes g' (concat (map (\<lambda>s. smember (supers g s)) ss) ! j)) = k + int j)
    \<and> (\<forall>s. smember (supers g' s) = smember (supers g s))
    \<and> (\<forall>s. s \<notin> set ss \<longrightarrow> supers g' s = supers g s)
    \<and> (\<forall>j < length ss. sorder (supers g' (ss ! j)) = i + int j)"
  using assms
proof (induction ss arbitrary: i k g)
  case (Cons s ss)
  let ?ms = "smember (supers g s)"
  obtain h k' where h: "order_members 0 k ?ms (nodes g) = (h, k')" by fastforce
  let ?g1 = "g\<lparr>nodes := h, supers := (supers g)(s := (supers g s)\<lparr>sorder := i\<rparr>)\<rparr>"
  have mem: "smember (supers ?g1 x) = smember (supers g x)" for x by simp
  let ?rest = "concat (map (\<lambda>s. smember (supers g s)) ss)"
  have d: "distinct ?ms" "distinct ?rest" "set ?ms \<inter> set ?rest = {}" using Cons.prems(1) by auto
  note om = order_members_spec [OF d(1) h]
  have g': "order_supers (i + 1) k' ss ?g1 = g'" using Cons.prems(3) h by simp
  have IH: "(\<forall>n. n \<notin> set ?rest \<longrightarrow> nodes g' n = h n)"
    "\<forall>j < length ?rest. order (nodes g' (?rest ! j)) = k' + int j"
    "\<forall>x. smember (supers g' x) = smember (supers g x)"
    "\<forall>x. x \<notin> set ss \<longrightarrow> supers g' x = supers ?g1 x"
    "\<forall>j < length ss. sorder (supers g' (ss ! j)) = i + 1 + int j"
    using Cons.IH [of ?g1 "i + 1" k'] Cons.prems(2) d(2) g' unfolding mem by auto
  have a: "nodes g' n = nodes g n" if "n \<notin> set (?ms @ ?rest)" for n
    using that IH(1) om by simp
  have b: "order (nodes g' ((?ms @ ?rest) ! j)) = k + int j" if "j < length (?ms @ ?rest)" for j
  proof (cases "j < length ?ms")
    case True
    then have "?ms ! j \<notin> set ?rest" using d(3) by (meson disjoint_iff nth_mem)
    then show ?thesis using True IH(1) om by (simp add: nth_append)
  next
    case False
    then show ?thesis using that IH(2) om by (simp add: nth_append)
  qed
  have "sorder (supers g' s) = i" using IH(4) Cons.prems(2) by simp
  then have c: "\<forall>j < length (s # ss). sorder (supers g' ((s # ss) ! j)) = i + int j"
    using IH(5) by (auto simp: nth_Cons split: nat.splits)
  show ?case using a b c IH(3,4) by auto
qed simp

lemma concat_filter_empty:
  "concat (map F (filter (\<lambda>s. \<not> (P s \<and> F s = [])) ss)) = concat (map F ss)"
  by (induction ss) auto

lemma removeEmptySuper_members: "all_members (removeEmptySuper g) = all_members g"
  unfolding all_members_def removeEmptySuper_def by (simp add: concat_filter_empty del: de_Morgan_conj de_Morgan_disj)

lemma all_members_remove:
  "all_members (removeNodesNoConnect st g) = filter (\<lambda>n. status (nodes g n) \<noteq> st) (all_members g)"
proof -
  let ?F = "\<lambda>s. filter (\<lambda>n. status (nodes g n) \<noteq> st) (smember (supers g s))"
  let ?P = "\<lambda>s. superType (supers g s) = SUPER_VALID \<or> superType (supers g s) = SUPER_UPDATE_REG"
  have "concat (map ?F (filter (\<lambda>s. \<not> (?P s \<and> ?F s = [])) (sortedSuper g))) = concat (map ?F (sortedSuper g))"
    by (rule concat_filter_empty)
  moreover have "all_members (removeNodesNoConnect st g) = concat (map ?F (filter (\<lambda>s. \<not> (?P s \<and> ?F s = [])) (sortedSuper g)))"
    by (auto simp: all_members_def removeNodesNoConnect_def removeEmptySuper_def
        intro!: arg_cong [where f = concat] map_cong filter_cong)
  ultimately show ?thesis by (simp add: all_members_def filter_concat comp_def)
qed

section \<open>Properties\<close>

text \<open>
  C27: without null pointers \<^verbatim>\<open>reconnectAll\<close> succeeds, and then the predecessors of a node are exactly the nodes its assignment
  trees refer to, plus the reader-before-writer edges between the ports of one memory, and
  every edge is recorded at both of its ends.
\<close>

theorem reconnectAll_edges:
  assumes "connectable (nodes g)" "isolated g"
  shows "\<exists>g'. reconnectAll g = Some g'
       \<and> prev_rel (nodes g') = (\<Union>n \<in> set (all_members g). connect_edges (nodes g) n)
       \<and> sym_edges (nodes g')"
  using reconnectAll_total [OF assms(1)] reconnectAll_adds [OF _ assms(2)] by blast

definition demo_graph :: graph where
  "demo_graph =
     \<lparr>nodes = (\<lambda>n. (new_node NODE_OTHERS)\<lparr>super := Some n,
                 assignTree := (if n = 1 then [\<lparr>root = new_leaf 0, lvalue = new_leaf 1\<rparr>] else [])\<rparr>),
      supers = (\<lambda>s. new_super\<lparr>smember := [s]\<rparr>),
      input = [], output = [1], regsrc = [], memory = [], specialNodes = [],
      supersrc = [0], sortedSuper = [0, 1]\<rparr>"

lemmas demo_graph_defs = demo_graph_def new_node_def new_super_def new_leaf_def new_eattr_def

lemma demo_connectable: "connectable (nodes demo_graph)"
  by (simp add: connectable_def demo_graph_defs)

lemma demo_isolated: "isolated demo_graph"
  by (simp add: isolated_def all_members_def demo_graph_defs)

theorem reconnectAll_edges_witness:
  "\<exists>g'. reconnectAll demo_graph = Some g' \<and> prev_rel (nodes g') = {(0, 1)} \<and> sym_edges (nodes g')"
proof -
  have "(\<Union>n \<in> set (all_members demo_graph). connect_edges (nodes demo_graph) n) = {(0, 1)}"
    by (auto simp: all_members_def demo_graph_defs connect_edges_def getRelyNodes_def tree_rely_list_def)
  with reconnectAll_edges [OF demo_connectable demo_isolated] show ?thesis by simp
qed

text \<open>
  \<^verbatim>\<open>reconnectSuper\<close> keeps the members of every super node and leaves edges between super
  nodes that are recorded at both ends and never lead from a super node to itself.
\<close>

theorem reconnectSuper_symmetric:
  assumes "connectable (nodes g)" "super_isolated g"
  shows "\<exists>g'. reconnectSuper g = Some g' \<and> ssym (supers g')
       \<and> (\<forall>s. smember (supers g' s) = smember (supers g s))"
  using reconnectSuper_total [OF assms(1)] reconnectSuper_ssym [OF _ assms(2)] by blast

theorem reconnectSuper_symmetric_witness:
  "\<exists>g'. reconnectSuper demo_graph = Some g' \<and> ssym (supers g')"
proof -
  have "super_isolated demo_graph" by (simp add: super_isolated_def demo_graph_defs)
  from reconnectSuper_symmetric [OF demo_connectable this] show ?thesis by blast
qed

text \<open>
  \<^verbatim>\<open>orderAllNodes\<close> numbers the nodes consecutively from 1 in the order of the sorted super
  nodes and of their members, and the super nodes from 0.
\<close>

theorem orderAllNodes_consecutive:
  assumes "distinct (all_members g)" "distinct (sortedSuper g)"
  shows "(\<forall>i < length (all_members g).
            order (nodes (orderAllNodes g) (all_members g ! i)) = int i + 1)
       \<and> (\<forall>i < length (sortedSuper g). sorder (supers (orderAllNodes g) (sortedSuper g ! i)) = int i)"
  using order_supers_spec [of g "sortedSuper g" 0 1 "orderAllNodes g"] assms
  by (simp add: all_members_def orderAllNodes_def)

theorem orderAllNodes_consecutive_witness:
  "order (nodes (orderAllNodes demo_graph) 1) = 2"
  using orderAllNodes_consecutive [of demo_graph]
  by (auto simp: all_members_def demo_graph_defs nth_Cons split: nat.splits)

end
