(* ===== verification/TopoSort.thy ===== *)
theory TopoSort
  imports Graph "HOL-Library.List_Lexorder" "HOL-Library.Char_ord" "HOL-Library.Product_Lexorder"
begin

section \<open>Topological sorting of the super nodes\<close>

text \<open>
  \<^verbatim>\<open>src/topoSort.cpp\<close>: the default traversal (a stack, successors by their number) and the
  deterministic one selected by \<^verbatim>\<open>GSIM_STABLE_ORDER\<close> (an ordered frontier with the comparator
  \<^verbatim>\<open>SuperNodeStableLess\<close> of \<^verbatim>\<open>include/Node.h\<close>).  Both are refinements of one abstract step,
  \<open>kahn\<close>: take any super node all of whose predecessors are sorted.  The locale \<open>scheduler\<close>
  is what the rest of the compiler relies on, and both traversals are interpretations of it.
  The recording and replaying of seeds is left out.
\<close>

subsection \<open>The default traversal\<close>

text \<open>
  The scratch field \<^verbatim>\<open>topoMark\<close>: \<^term>\<open>None\<close> while it holds an older epoch, otherwise its count;
  a visited super node has the count 0.
\<close>

type_synonym marks = "superid \<rightharpoonup> nat"

definition count_of :: "marks \<Rightarrow> superid \<Rightarrow> nat" where
  "count_of m n = (case m n of None \<Rightarrow> 0 | Some c \<Rightarrow> c)"

definition touch :: "(superid \<Rightarrow> supernode) \<Rightarrow> (superid \<Rightarrow> superid list \<Rightarrow> superid list) \<Rightarrow> superid
    \<Rightarrow> marks \<times> superid list \<Rightarrow> marks \<times> superid list" where
  "touch S push n st =
     (case st of (m, s) \<Rightarrow>
        let c = count_of m n + 1
        in (m(n \<mapsto> c), if c = card (sdepPrev (S n)) then push n s else s))"

partial_function (option) topo_loop ::
    "(superid \<Rightarrow> supernode) \<Rightarrow> superid list \<Rightarrow> marks \<Rightarrow> superid list \<Rightarrow> superid list option" where
  "topo_loop S s m out =
     (case s of
        [] \<Rightarrow> Some out
      | hd_s # rest \<Rightarrow>
          if m hd_s = Some 0 then None
          else (case fold (touch S (#)) (sorted_list_of_set (sdepNext (S hd_s))) (m(hd_s \<mapsto> 0), rest) of
                  (m', s') \<Rightarrow> topo_loop S s' m' (out @ [hd_s])))"

definition topo_sources :: "graph \<Rightarrow> superid list" where
  "topo_sources g = filter (\<lambda>n. sdepPrev (supers g n) = {}) (supersrc g)"

definition topo_order :: "graph \<Rightarrow> superid list abortable" where
  "topo_order g = topo_loop (supers g) (rev (topo_sources g)) Map.empty []"

definition topoSort :: "graph \<Rightarrow> graph abortable" where
  "topoSort g =
     do { out \<leftarrow> topo_order g;
          Some (orderAllNodes (g\<lparr>sortedSuper := sortedSuper g @ out\<rparr>)) }"

subsection \<open>The deterministic traversal\<close>

definition LLONG_MAX :: int where
  "LLONG_MAX = 2 ^ 63 - 1"

definition first_lineno :: "heap \<Rightarrow> supernode \<Rightarrow> int" where
  "first_lineno h s = (case smember s of [] \<Rightarrow> LLONG_MAX | n # _ \<Rightarrow> lineno (h n))"

definition first_name :: "heap \<Rightarrow> supernode \<Rightarrow> string" where
  "first_name h s = (case smember s of [] \<Rightarrow> '''' | n # _ \<Rightarrow> name (h n))"

text \<open>The loop over the member names: the first difference decides.\<close>

fun names_less :: "string list \<Rightarrow> string list \<Rightarrow> bool option" where
  "names_less (x # xs) (y # ys) = (if x \<noteq> y then Some (x < y) else names_less xs ys)"
| "names_less _ _ = None"

definition stableLess :: "heap \<Rightarrow> (superid \<Rightarrow> supernode) \<Rightarrow> superid \<Rightarrow> superid \<Rightarrow> bool" where
  "stableLess h S a b =
     (let la = first_lineno h (S a); lb = first_lineno h (S b) in
      if la \<noteq> lb then la < lb
      else let na = first_name h (S a); nb = first_name h (S b) in
      if na \<noteq> nb then na < nb
      else if length (smember (S a)) \<noteq> length (smember (S b))
      then length (smember (S a)) < length (smember (S b))
      else (case names_less (map (\<lambda>n. name (h n)) (smember (S a)))
                            (map (\<lambda>n. name (h n)) (smember (S b))) of
              Some r \<Rightarrow> r
            | None \<Rightarrow>
                if card (sdepPrev (S a)) \<noteq> card (sdepPrev (S b))
                then card (sdepPrev (S a)) < card (sdepPrev (S b))
                else if card (sdepNext (S a)) \<noteq> card (sdepNext (S b))
                then card (sdepNext (S a)) < card (sdepNext (S b))
                else a < b))"

text \<open>Insertion into a \<^verbatim>\<open>std::set\<close>: elements equivalent under the comparator are not added.\<close>

fun set_insert :: "(superid \<Rightarrow> superid \<Rightarrow> bool) \<Rightarrow> superid \<Rightarrow> superid list \<Rightarrow> superid list" where
  "set_insert lt x [] = [x]"
| "set_insert lt x (y # ys) =
     (if lt x y then x # y # ys else if lt y x then y # set_insert lt x ys else y # ys)"

definition stableOrdered :: "heap \<Rightarrow> (superid \<Rightarrow> supernode) \<Rightarrow> superid set \<Rightarrow> superid list" where
  "stableOrdered h S A = fold (set_insert (stableLess h S)) (sorted_list_of_set A) []"

partial_function (option) stable_loop ::
    "heap \<Rightarrow> (superid \<Rightarrow> supernode) \<Rightarrow> superid list \<Rightarrow> marks \<Rightarrow> superid set \<Rightarrow> superid list
     \<Rightarrow> superid list option" where
  "stable_loop h S s cnts visited out =
     (case s of
        [] \<Rightarrow> Some out
      | hd_s # rest \<Rightarrow>
          if hd_s \<in> visited then None
          else (case fold (touch S (set_insert (stableLess h S))) (stableOrdered h S (sdepNext (S hd_s)))
                       (cnts, rest) of
                  (cnts', s') \<Rightarrow> stable_loop h S s' cnts' (insert hd_s visited) (out @ [hd_s])))"

definition stable_order :: "graph \<Rightarrow> superid list abortable" where
  "stable_order g =
     stable_loop (nodes g) (supers g)
       (fold (set_insert (stableLess (nodes g) (supers g))) (topo_sources g) []) Map.empty {} []"

definition topoSort_stable :: "graph \<Rightarrow> graph abortable" where
  "topoSort_stable g =
     do { out \<leftarrow> stable_order g;
          Some (orderAllNodes (g\<lparr>sortedSuper := sortedSuper g @ out\<rparr>)) }"

section \<open>The abstract step\<close>

inductive kahn ::
    "(superid \<Rightarrow> supernode) \<Rightarrow> superid set \<times> superid list \<Rightarrow> superid set \<times> superid list \<Rightarrow> bool"
  for S where
  step: "hd_s \<in> F \<Longrightarrow>
    kahn S (F, out)
      (F - {hd_s} \<union> {n \<in> sdepNext (S hd_s). sdepPrev (S n) \<subseteq> set (out @ [hd_s])}, out @ [hd_s])"

inductive_cases kahnE: "kahn S (F, out) st"

text \<open>The super nodes \<open>U\<close> of a graph whose dependence edges are finite and symmetric.\<close>

definition wf_supers :: "(superid \<Rightarrow> supernode) \<Rightarrow> superid set \<Rightarrow> bool" where
  "wf_supers S U \<longleftrightarrow>
     finite U \<and> (\<forall>n \<in> U. sdepNext (S n) \<subseteq> U \<and> sdepPrev (S n) \<subseteq> U)
     \<and> (\<forall>p \<in> U. \<forall>n \<in> U. p \<in> sdepPrev (S n) \<longleftrightarrow> n \<in> sdepNext (S p))"

definition deps_first :: "(superid \<Rightarrow> supernode) \<Rightarrow> superid list \<Rightarrow> bool" where
  "deps_first S out \<longleftrightarrow> (\<forall>i < length out. sdepPrev (S (out ! i)) \<subseteq> set (take i out))"

definition kahn_inv ::
    "(superid \<Rightarrow> supernode) \<Rightarrow> superid set \<Rightarrow> superid set \<Rightarrow> superid set \<times> superid list \<Rightarrow> bool" where
  "kahn_inv S U src st \<longleftrightarrow>
     (case st of (F, out) \<Rightarrow>
        F \<subseteq> U \<and> set out \<subseteq> U \<and> distinct out \<and> F \<inter> set out = {} \<and> deps_first S out
        \<and> (\<forall>n \<in> F. sdepPrev (S n) \<subseteq> set out) \<and> src \<subseteq> F \<union> set out
        \<and> (\<forall>n \<in> U. sdepPrev (S n) \<subseteq> set out \<longrightarrow> sdepPrev (S n) = {} \<or> n \<in> F \<union> set out))"

section \<open>Both traversals refine the abstract step\<close>

lemma wf_supersD:
  assumes "wf_supers S U" "t \<in> U"
  shows "finite (sdepNext (S t))" "finite (sdepPrev (S t))"
    "n \<in> sdepNext (S t) \<Longrightarrow> n \<in> U" "n \<in> sdepNext (S t) \<Longrightarrow> t \<in> sdepPrev (S n)"
proof -
  have U: "finite U" "sdepNext (S t) \<subseteq> U" "sdepPrev (S t) \<subseteq> U" using assms by (auto simp: wf_supers_def)
  then show "finite (sdepNext (S t))" "finite (sdepPrev (S t))" by (auto intro: finite_subset)
  show "n \<in> U" if "n \<in> sdepNext (S t)" using that U by auto
  then show "t \<in> sdepPrev (S n)" if "n \<in> sdepNext (S t)" using that assms by (simp add: wf_supers_def)
qed

lemma kahn_step_inv:
  assumes wf: "wf_supers S U" and inv: "kahn_inv S U src st" and st: "kahn S st st'"
  shows "kahn_inv S U src st'"
proof -
  obtain F out where s: "st = (F, out)" by (cases st)
  from st obtain t where t: "t \<in> F"
    and st': "st' = (F - {t} \<union> {n \<in> sdepNext (S t). sdepPrev (S n) \<subseteq> set (out @ [t])}, out @ [t])"
    unfolding s by (elim kahnE) simp
  let ?N = "{n \<in> sdepNext (S t). sdepPrev (S n) \<subseteq> set (out @ [t])}"
  from inv have F: "F \<subseteq> U" "set out \<subseteq> U" "distinct out" "F \<inter> set out = {}" "deps_first S out"
    "\<forall>n \<in> F. sdepPrev (S n) \<subseteq> set out" "src \<subseteq> F \<union> set out"
    "\<forall>n \<in> U. sdepPrev (S n) \<subseteq> set out \<longrightarrow> sdepPrev (S n) = {} \<or> n \<in> F \<union> set out"
    by (simp_all add: kahn_inv_def s)
  have tU: "t \<in> U" and tout: "t \<notin> set out" using t F by auto
  have NU: "?N \<subseteq> U" using wf tU by (auto simp: wf_supers_def)
  have sorted_notin: "n \<notin> sdepNext (S t)" if n: "n \<in> set out" for n
  proof
    assume "n \<in> sdepNext (S t)"
    then have "t \<in> sdepPrev (S n)" using wf n F(2) tU by (auto simp: wf_supers_def)
    moreover obtain i where "i < length out" "out ! i = n" using n by (auto simp: in_set_conv_nth)
    ultimately have "t \<in> set (take i out)" using F(5) by (auto simp: deps_first_def)
    then show False using tout in_set_takeD by fastforce
  qed
  have t_self: "t \<notin> sdepNext (S t)"
  proof -
    have "t \<in> sdepPrev (S t) \<longleftrightarrow> t \<in> sdepNext (S t)" using wf tU by (simp add: wf_supers_def)
    then show ?thesis using t F(6) tout by blast
  qed
  have "deps_first S (out @ [t])"
    using F(5,6) t by (auto simp: deps_first_def nth_append less_Suc_eq)
  moreover have "sdepPrev (S n) = {} \<or> n \<in> F - {t} \<union> ?N \<union> set (out @ [t])"
    if n: "n \<in> U" "sdepPrev (S n) \<subseteq> set (out @ [t])" for n
  proof (cases "t \<in> sdepPrev (S n)")
    case True
    with wf n tU have "n \<in> sdepNext (S t)" by (auto simp: wf_supers_def)
    with n show ?thesis by simp
  next
    case False
    with n have "sdepPrev (S n) \<subseteq> set out" by auto
    with F(8) n(1) show ?thesis by auto
  qed
  ultimately show ?thesis
    using F t NU tU tout sorted_notin t_self unfolding kahn_inv_def st' by auto
qed

lemma kahn_done:
  assumes wf: "wf_supers S U" and inv: "kahn_inv S U src ({}, out)"
    and src: "{n \<in> U. sdepPrev (S n) = {}} \<subseteq> src"
    and acyc: "acyclic {(p, n). n \<in> U \<and> p \<in> sdepPrev (S n)}"
  shows "set out = U"
proof (rule ccontr)
  let ?R = "{(p, n). n \<in> U \<and> p \<in> sdepPrev (S n)}"
  assume "set out \<noteq> U"
  with inv have ne: "U - set out \<noteq> {}" by (auto simp: kahn_inv_def)
  have "?R \<subseteq> U \<times> U" using wf by (auto simp: wf_supers_def)
  then have "finite ?R" using wf by (meson finite_SigmaI finite_subset wf_supers_def)
  then have "wf ?R" using acyc by (rule finite_acyclic_wf)
  then obtain n where n: "n \<in> U - set out" "\<And>p. (p, n) \<in> ?R \<Longrightarrow> p \<notin> U - set out"
    by (rule wfE_min' [OF _ ne]) blast
  then have "sdepPrev (S n) \<subseteq> set out" using wf by (auto simp: wf_supers_def)
  then have "sdepPrev (S n) = {} \<or> n \<in> set out" using inv n(1) by (auto simp: kahn_inv_def)
  then have "n \<in> src" using src n(1) by auto
  then show False using inv n(1) by (auto simp: kahn_inv_def)
qed

lemma touch_fold:
  assumes "distinct ns" "\<And>n s. n \<in> set ns \<Longrightarrow> set (push n s) = insert n (set s)"
    "\<And>n s. n \<in> set ns \<Longrightarrow> n \<notin> set s \<Longrightarrow> distinct s \<Longrightarrow> distinct (push n s)"
    "distinct s" "set ns \<inter> set s = {}"
    "fold (touch S push) ns (m, s) = (m', s')"
  shows "distinct s' \<and> set s' = set s \<union> {n \<in> set ns. count_of m n + 1 = card (sdepPrev (S n))}
    \<and> m' = (\<lambda>n. if n \<in> set ns then Some (count_of m n + 1) else m n)"
  using assms
proof (induction ns arbitrary: m s)
  case (Cons n ns)
  let ?c = "count_of m n + 1"
  define m1 where "m1 = m(n \<mapsto> ?c)"
  define s1 where "s1 = (if ?c = card (sdepPrev (S n)) then push n s else s)"
  have f: "fold (touch S push) ns (m1, s1) = (m', s')"
  proof -
    have "touch S push n (m, s) = (m1, s1)" by (simp add: touch_def Let_def m1_def s1_def)
    then show ?thesis using Cons.prems(6) by (simp only: fold_simps)
  qed
  have set_s1: "set s1 = set s \<union> (if ?c = card (sdepPrev (S n)) then {n} else {})"
    using Cons.prems(2) by (auto simp: s1_def)
  have d: "distinct s1" using Cons.prems(3-5) by (simp add: s1_def)
  have dj: "set ns \<inter> set s1 = {}" using set_s1 Cons.prems(1,5) by auto
  have IH: "distinct s'" "set s' = set s1 \<union> {x \<in> set ns. count_of m1 x + 1 = card (sdepPrev (S x))}"
    "m' = (\<lambda>x. if x \<in> set ns then Some (count_of m1 x + 1) else m1 x)"
    using Cons.IH [OF _ _ _ d dj f] Cons.prems(1-3) by auto
  have cnt: "count_of m1 x = count_of m x" if "x \<in> set ns" for x
    using that Cons.prems(1) by (auto simp: count_of_def m1_def)
  have "set s' = set s \<union> {x \<in> set (n # ns). count_of m x + 1 = card (sdepPrev (S x))}"
    unfolding IH(2) set_s1 using cnt by auto
  moreover have "m' = (\<lambda>x. if x \<in> set (n # ns) then Some (count_of m x + 1) else m x)"
    unfolding IH(3) using cnt Cons.prems(1) by (auto simp: fun_eq_iff m1_def)
  ultimately show ?case using IH(1) by simp
qed simp

definition marks_ok :: "(superid \<Rightarrow> supernode) \<Rightarrow> superid set \<Rightarrow> marks \<Rightarrow> superid list \<Rightarrow> bool" where
  "marks_ok S U m out \<longleftrightarrow>
     (\<forall>n \<in> U - set out. count_of m n = card (sdepPrev (S n) \<inter> set out)
        \<and> (m n = None \<longleftrightarrow> sdepPrev (S n) \<inter> set out = {}))"

text \<open>A queue discipline: which element the frontier hands out next.\<close>

definition good_push :: "(superid \<Rightarrow> superid list \<Rightarrow> superid list) \<Rightarrow> bool" where
  "good_push push \<longleftrightarrow>
     (\<forall>n s. set (push n s) = insert n (set s)) \<and> (\<forall>n s. n \<notin> set s \<longrightarrow> distinct s \<longrightarrow> distinct (push n s))"

lemma step_simulates:
  assumes wf: "wf_supers S U" and inv: "kahn_inv S U src (set (t # rest), out)"
    and d: "distinct (t # rest)" and ok: "marks_ok S U m out"
    and m1: "\<forall>n. n \<noteq> t \<longrightarrow> m1 n = m n" and ns: "distinct ns" "set ns = sdepNext (S t)"
    and push: "good_push push" and f: "fold (touch S push) ns (m1, rest) = (m', s')"
  shows "distinct s' \<and> kahn S (set (t # rest), out) (set s', out @ [t]) \<and> marks_ok S U m' (out @ [t])"
proof -
  have tU: "t \<in> U" and tout: "t \<notin> set out" and dt: "sdepPrev (S t) \<subseteq> set out"
    using inv by (auto simp: kahn_inv_def)
  have nexts: "n \<in> U \<and> n \<notin> set out \<and> n \<noteq> t \<and> t \<in> sdepPrev (S n) \<and> finite (sdepPrev (S n)) \<and> n \<notin> set rest"
    if n: "n \<in> sdepNext (S t)" for n
  proof -
    have nU: "n \<in> U" and tn: "t \<in> sdepPrev (S n)" and fin: "finite (sdepPrev (S n))"
      using wf_supersD(3,4) [OF wf tU n] wf_supersD(2) [OF wf] by auto
    have "n \<notin> set out"
    proof
      assume "n \<in> set out"
      then obtain i where "i < length out" "out ! i = n" by (auto simp: in_set_conv_nth)
      with inv tn have "t \<in> set (take i out)" by (auto simp: kahn_inv_def deps_first_def)
      then show False using tout in_set_takeD by fastforce
    qed
    moreover have "n \<notin> set (t # rest)" using inv tn tout by (auto simp: kahn_inv_def)
    ultimately show ?thesis using nU tn fin by auto
  qed
  have cnt: "count_of m1 n + 1 = card (sdepPrev (S n) \<inter> set (out @ [t]))" if n: "n \<in> sdepNext (S t)" for n
  proof -
    have "sdepPrev (S n) \<inter> set (out @ [t]) = insert t (sdepPrev (S n) \<inter> set out)" using nexts [OF n] by auto
    moreover have "count_of m1 n = card (sdepPrev (S n) \<inter> set out)"
      using ok m1 nexts [OF n] by (auto simp: marks_ok_def count_of_def)
    ultimately show ?thesis using tout by simp
  qed
  have full: "count_of m1 n + 1 = card (sdepPrev (S n)) \<longleftrightarrow> sdepPrev (S n) \<subseteq> set (out @ [t])"
    if n: "n \<in> sdepNext (S t)" for n
    using cnt [OF n] nexts [OF n] by (metis card_subset_eq inf.absorb_iff1 inf_le1)
  have dj: "set ns \<inter> set rest = {}" using ns(2) nexts by auto
  have pp: "set (push n s) = insert n (set s)" "n \<notin> set s \<Longrightarrow> distinct s \<Longrightarrow> distinct (push n s)" for n s
    using push by (auto simp: good_push_def)
  have dr: "distinct rest" using d by simp
  have tf: "distinct s' \<and> set s' = set rest \<union> {n \<in> set ns. count_of m1 n + 1 = card (sdepPrev (S n))}
    \<and> m' = (\<lambda>n. if n \<in> set ns then Some (count_of m1 n + 1) else m1 n)"
    by (rule touch_fold [where push = push and ns = ns and s = rest, OF ns(1) pp(1) pp(2) dr dj f])
  have "set s' = set (t # rest) - {t} \<union> {n \<in> sdepNext (S t). sdepPrev (S n) \<subseteq> set (out @ [t])}"
    using tf ns(2) full d by auto
  then have "kahn S (set (t # rest), out) (set s', out @ [t])"
    using kahn.step [of t "set (t # rest)" S out] by (simp only: list.set_intros)
  moreover have "marks_ok S U m' (out @ [t])"
    unfolding marks_ok_def
  proof
    fix n assume n: "n \<in> U - set (out @ [t])"
    show "count_of m' n = card (sdepPrev (S n) \<inter> set (out @ [t])) \<and> (m' n = None \<longleftrightarrow> sdepPrev (S n) \<inter> set (out @ [t]) = {})"
    proof (cases "n \<in> sdepNext (S t)")
      case True
      then show ?thesis using tf ns(2) cnt [OF True] nexts [OF True] by (auto simp: count_of_def)
    next
      case False
      then have "t \<notin> sdepPrev (S n)" using wf n tU by (auto simp: wf_supers_def)
      then have "sdepPrev (S n) \<inter> set (out @ [t]) = sdepPrev (S n) \<inter> set out" by auto
      then show ?thesis using tf ns(2) False ok n m1 by (simp add: marks_ok_def count_of_def)
    qed
  qed
  ultimately show ?thesis using tf by blast
qed

lemma kahn_inv_card: "kahn_inv S U src (F, out) \<Longrightarrow> finite U \<Longrightarrow> t \<in> F \<Longrightarrow> card (U - set (out @ [t])) < card (U - set out)"
  by (rule psubset_card_mono) (auto simp: kahn_inv_def)

lemma topo_loop_total:
  assumes wf: "wf_supers S U"
  shows "kahn_inv S U src (set s, out) \<Longrightarrow> distinct s \<Longrightarrow> marks_ok S U m out
    \<Longrightarrow> \<exists>out'. topo_loop S s m out = Some out' \<and> kahn_inv S U src ({}, out')"
proof (induction "card (U - set out)" arbitrary: s m out rule: less_induct)
  case less
  show ?case
  proof (cases s)
    case Nil
    with less.prems(1) show ?thesis by (simp add: topo_loop.simps)
  next
    case (Cons t rest)
    let ?ns = "sorted_list_of_set (sdepNext (S t))"
    have tU: "t \<in> U" and tout: "t \<notin> set out" using less.prems(1) Cons by (auto simp: kahn_inv_def)
    obtain m' s' where f: "fold (touch S (#)) ?ns (m(t \<mapsto> 0), rest) = (m', s')" by fastforce
    have ns: "distinct ?ns" "set ?ns = sdepNext (S t)"
      using wf_supersD(1) [OF wf tU] by simp_all
    have st: "distinct s' \<and> kahn S (set (t # rest), out) (set s', out @ [t]) \<and> marks_ok S U m' (out @ [t])"
      by (rule step_simulates [OF wf less.prems(1,2,3) [unfolded Cons] _ ns _ f])
         (auto simp: good_push_def)
    then have "kahn_inv S U src (set s', out @ [t])"
      using kahn_step_inv [OF wf less.prems(1)] Cons by blast
    moreover have "card (U - set (out @ [t])) < card (U - set out)"
      using kahn_inv_card [OF less.prems(1)] wf Cons by (simp add: wf_supers_def)
    ultimately obtain out' where o: "topo_loop S s' m' (out @ [t]) = Some out'" "kahn_inv S U src ({}, out')"
      using less.hyps st by blast
    have "m t \<noteq> Some 0"
    proof
      assume "m t = Some 0"
      moreover have "count_of m t = card (sdepPrev (S t) \<inter> set out)"
        "m t = None \<longleftrightarrow> sdepPrev (S t) \<inter> set out = {}"
        using less.prems(3) tU tout by (auto simp: marks_ok_def)
      ultimately show False by (simp add: count_of_def)
    qed
    then have "topo_loop S s m out = topo_loop S s' m' (out @ [t])"
      using f by (simp add: topo_loop.simps [of S "t # rest"] Cons)
    with o show ?thesis by simp
  qed
qed


lemma names_less_iff:
  "length xs = length ys \<Longrightarrow>
     (case names_less xs ys of Some r \<Rightarrow> r | None \<Rightarrow> False) = (xs < ys) \<and> (names_less xs ys = None \<longleftrightarrow> xs = ys)"
  by (induction xs ys rule: list_induct2) auto

definition stable_key ::
    "heap \<Rightarrow> (superid \<Rightarrow> supernode) \<Rightarrow> superid \<Rightarrow> int \<times> string \<times> nat \<times> string list \<times> nat \<times> nat \<times> nat" where
  "stable_key h S a =
     (first_lineno h (S a), first_name h (S a), length (smember (S a)),
      map (\<lambda>n. name (h n)) (smember (S a)), card (sdepPrev (S a)), card (sdepNext (S a)), a)"

lemma stableLess_iff: "stableLess h S a b \<longleftrightarrow> stable_key h S a < stable_key h S b"
proof (cases "length (smember (S a)) = length (smember (S b))")
  case True
  then have "length (map (\<lambda>n. name (h n)) (smember (S a))) = length (map (\<lambda>n. name (h n)) (smember (S b)))"
    by simp
  from names_less_iff [OF this] show ?thesis
    by (auto simp: stableLess_def stable_key_def Let_def less_prod_def' True split: option.splits if_splits)
next
  case False
  then show ?thesis
    by (auto simp: stableLess_def stable_key_def Let_def less_prod_def')
qed

lemma set_insert_set:
  "\<forall>y \<in> set ys. x \<noteq> y \<longrightarrow> lt x y \<or> lt y x \<Longrightarrow> set (set_insert lt x ys) = insert x (set ys)"
  by (induction ys) auto

lemma stable_total: "a \<noteq> b \<Longrightarrow> stableLess h S a b \<or> stableLess h S b a"
proof -
  assume "a \<noteq> b"
  then have "stable_key h S a \<noteq> stable_key h S b" by (simp add: stable_key_def)
  then show ?thesis by (auto simp: stableLess_iff)
qed

lemma set_insert_subset: "set (set_insert lt x ys) \<subseteq> insert x (set ys)"
  by (induction ys) auto

lemma set_insert_distinct: "x \<notin> set ys \<Longrightarrow> distinct ys \<Longrightarrow> distinct (set_insert lt x ys)"
  using set_insert_subset [of lt x] by (induction ys) fastforce+

lemma stable_push: "good_push (set_insert (stableLess h S))"
  unfolding good_push_def by (auto simp: set_insert_set stable_total set_insert_distinct)

lemma push_fold:
  assumes "good_push push"
  shows "distinct xs \<Longrightarrow> distinct s \<Longrightarrow> set xs \<inter> set s = {}
    \<Longrightarrow> distinct (fold push xs s) \<and> set (fold push xs s) = set xs \<union> set s"
  using assms
proof (induction xs arbitrary: s)
  case (Cons x xs)
  then have "distinct (push x s)" "set (push x s) = insert x (set s)" by (auto simp: good_push_def)
  with Cons.IH [of "push x s"] Cons.prems show ?case by auto
qed simp

lemma stableOrdered_set:
  "good_push (set_insert (stableLess h S)) \<Longrightarrow> finite A
   \<Longrightarrow> distinct (stableOrdered h S A) \<and> set (stableOrdered h S A) = A"
  using push_fold [of "set_insert (stableLess h S)" "sorted_list_of_set A" "[]"]
  by (simp add: stableOrdered_def)

lemma stable_loop_total:
  assumes wf: "wf_supers S U" and push: "good_push (set_insert (stableLess h S))"
  shows "kahn_inv S U src (set s, out) \<Longrightarrow> distinct s \<Longrightarrow> marks_ok S U m out
    \<Longrightarrow> \<exists>out'. stable_loop h S s m (set out) out = Some out' \<and> kahn_inv S U src ({}, out')"
proof (induction "card (U - set out)" arbitrary: s m out rule: less_induct)
  case less
  show ?case
  proof (cases s)
    case Nil
    with less.prems(1) show ?thesis by (simp add: stable_loop.simps)
  next
    case (Cons t rest)
    let ?ns = "stableOrdered h S (sdepNext (S t))"
    have tU: "t \<in> U" and tout: "t \<notin> set out" using less.prems(1) Cons by (auto simp: kahn_inv_def)
    obtain m' s' where f: "fold (touch S (set_insert (stableLess h S))) ?ns (m, rest) = (m', s')" by fastforce
    have ns: "distinct ?ns" "set ?ns = sdepNext (S t)" using stableOrdered_set [OF push wf_supersD(1) [OF wf tU]] by auto
    have st: "distinct s' \<and> kahn S (set (t # rest), out) (set s', out @ [t]) \<and> marks_ok S U m' (out @ [t])"
      by (rule step_simulates [OF wf less.prems(1,2,3) [unfolded Cons] _ ns push f]) simp
    then have "kahn_inv S U src (set s', out @ [t])"
      using kahn_step_inv [OF wf less.prems(1)] Cons by blast
    moreover have "card (U - set (out @ [t])) < card (U - set out)"
      using kahn_inv_card [OF less.prems(1)] wf Cons by (simp add: wf_supers_def)
    ultimately obtain out' where o: "stable_loop h S s' m' (set (out @ [t])) (out @ [t]) = Some out'"
        "kahn_inv S U src ({}, out')"
      using less.hyps st by blast
    have "stable_loop h S s m (set out) out = stable_loop h S s' m' (set (out @ [t])) (out @ [t])"
      using f tout by (simp add: stable_loop.simps [of h S "t # rest"] Cons)
    with o show ?thesis by simp
  qed
qed

section \<open>The interface of the sorted super nodes\<close>

text \<open>
  What the passes after sorting rely on.  The lemma \<open>one_pass_solves\<close> is the reason for
  sorting: evaluating every super node once, in the sorted order, solves the equations of
  one clock cycle.
\<close>

definition run_once :: "('n \<Rightarrow> ('n \<Rightarrow> 'v) \<Rightarrow> 'v) \<Rightarrow> 'n list \<Rightarrow> ('n \<Rightarrow> 'v) \<Rightarrow> 'n \<Rightarrow> 'v" where
  "run_once f ns st = foldl (\<lambda>st n. st(n := f n st)) st ns"

locale scheduler =
  fixes wf_graph :: "'g \<Rightarrow> bool"
    and sort_it :: "'g \<Rightarrow> 'n list option"
    and deps :: "'g \<Rightarrow> 'n \<Rightarrow> 'n set"
    and all_nodes :: "'g \<Rightarrow> 'n set"
  assumes sort_total: "wf_graph g \<Longrightarrow> \<exists>out. sort_it g = Some out"
    and sort_distinct: "wf_graph g \<Longrightarrow> sort_it g = Some out \<Longrightarrow> distinct out"
    and sort_complete: "wf_graph g \<Longrightarrow> sort_it g = Some out \<Longrightarrow> set out = all_nodes g"
    and sort_deps: "wf_graph g \<Longrightarrow> sort_it g = Some out \<Longrightarrow> i < length out
      \<Longrightarrow> deps g (out ! i) \<subseteq> set (take i out)"
begin

lemma run_once_unchanged: "n \<notin> set ns \<Longrightarrow> run_once f ns st n = st n"
  unfolding run_once_def by (induction ns arbitrary: st) auto

lemma run_once_append: "run_once f (xs @ ys) st = run_once f ys (run_once f xs st)"
  by (simp add: run_once_def)

lemma one_pass_solves:
  assumes g: "wf_graph g" "sort_it g = Some out"
    and local: "\<And>n st st'. (\<And>p. p \<in> deps g n \<Longrightarrow> st p = st' p) \<Longrightarrow> f n st = f n st'"
    and n: "n \<in> all_nodes g"
  shows "run_once f out st n = f n (run_once f out st)"
proof -
  have "n \<in> set out" using n sort_complete [OF g] by simp
  then obtain i where i: "i < length out" "out ! i = n" by (auto simp: in_set_conv_nth)
  let ?st = "run_once f (take i out) st"
  have out: "out = take i out @ n # drop (Suc i) out" using i id_take_nth_drop by metis
  have d: "distinct (take i out @ n # drop (Suc i) out)" using sort_distinct [OF g] out by simp
  have end_st: "run_once f out st = run_once f (drop (Suc i) out) (?st(n := f n ?st))"
    by (subst out, subst run_once_append) (simp add: run_once_def)
  have keep: "run_once f out st x = (?st(n := f n ?st)) x" if "x \<notin> set (drop (Suc i) out)" for x
    unfolding end_st using that by (rule run_once_unchanged)
  have "f n (run_once f out st) = f n ?st"
  proof (rule local)
    fix p assume "p \<in> deps g n"
    then have "p \<in> set (take i out)" using sort_deps [OF g i(1)] i(2) by auto
    with d have "p \<notin> set (drop (Suc i) out)" "p \<noteq> n" by auto
    then show "run_once f out st p = ?st p" using keep by simp
  qed
  moreover have "run_once f out st n = f n ?st" using keep [of n] d by simp
  ultimately show ?thesis by simp
qed

end

text \<open>
  The graphs both traversals sort: symmetric finite edges, no cycle, and the list of
  sources holds every super node without predecessors, once.
\<close>

definition dag_graph :: "superid set \<times> graph \<Rightarrow> bool" where
  "dag_graph ug \<longleftrightarrow>
     (case ug of (U, g) \<Rightarrow>
        wf_supers (supers g) U \<and> acyclic {(p, n). n \<in> U \<and> p \<in> sdepPrev (supers g n)}
        \<and> distinct (supersrc g) \<and> set (supersrc g) \<subseteq> U
        \<and> (\<forall>n \<in> U. sdepPrev (supers g n) = {} \<longrightarrow> n \<in> set (supersrc g)))"

lemma sources_inv:
  assumes "dag_graph (U, g)"
  shows "kahn_inv (supers g) U (set (topo_sources g)) (set (topo_sources g), [])"
    "distinct (topo_sources g)" "{n \<in> U. sdepPrev (supers g n) = {}} \<subseteq> set (topo_sources g)"
    "marks_ok (supers g) U Map.empty []"
  using assms
  by (auto simp: dag_graph_def kahn_inv_def topo_sources_def deps_first_def marks_ok_def count_of_def)

lemma topo_order_ok:
  assumes "dag_graph (U, g)"
  shows "\<exists>out. topo_order g = Some out \<and> distinct out \<and> set out = U \<and> deps_first (supers g) out"
proof -
  note src = sources_inv [OF assms]
  have wf: "wf_supers (supers g) U" using assms by (simp add: dag_graph_def)
  obtain out where out: "topo_order g = Some out" "kahn_inv (supers g) U (set (topo_sources g)) ({}, out)"
    using topo_loop_total [OF wf, of "set (topo_sources g)" "rev (topo_sources g)" "[]" Map.empty] src
    by (auto simp: topo_order_def)
  moreover have "set out = U"
    using kahn_done [OF wf out(2) src(3)] assms by (simp add: dag_graph_def)
  ultimately show ?thesis by (auto simp: kahn_inv_def)
qed

lemma stable_order_ok:
  assumes "dag_graph (U, g)"
  shows "\<exists>out. stable_order g = Some out \<and> distinct out \<and> set out = U \<and> deps_first (supers g) out"
proof -
  note src = sources_inv [OF assms]
  have wf: "wf_supers (supers g) U" using assms by (simp add: dag_graph_def)
  let ?s = "fold (set_insert (stableLess (nodes g) (supers g))) (topo_sources g) []"
  have s: "distinct ?s" "set ?s = set (topo_sources g)"
    using push_fold [OF stable_push src(2), of "[]"] by simp_all
  obtain out where out: "stable_order g = Some out" "kahn_inv (supers g) U (set (topo_sources g)) ({}, out)"
    using stable_loop_total [OF wf stable_push [of "nodes g"], of "set (topo_sources g)" ?s "[]" Map.empty] src s
    by (auto simp: stable_order_def)
  moreover have "set out = U"
    using kahn_done [OF wf out(2) src(3)] assms by (simp add: dag_graph_def)
  ultimately show ?thesis by (auto simp: kahn_inv_def)
qed

interpretation topo: scheduler dag_graph "\<lambda>(U, g). topo_order g" "\<lambda>(U, g) n. sdepPrev (supers g n)" fst
  using topo_order_ok by unfold_locales (auto simp: deps_first_def split: prod.splits, fastforce+)

interpretation stable: scheduler dag_graph "\<lambda>(U, g). stable_order g" "\<lambda>(U, g) n. sdepPrev (supers g n)" fst
  using stable_order_ok by unfold_locales (auto simp: deps_first_def split: prod.splits, fastforce+)

section \<open>Properties\<close>

lemma order_supers_sorted: "sortedSuper (order_supers i k ss g) = sortedSuper g \<and>
   supersrc (order_supers i k ss g) = supersrc g"
  by (induction ss arbitrary: i k g) (auto split: prod.splits)

text \<open>
  C8: on every acyclic graph the default \<^verbatim>\<open>topoSort\<close> terminates without failing its checks, and
  leaves in \<^verbatim>\<open>sortedSuper\<close> every super node exactly once, after all its dependences.
\<close>

theorem topoSort_correct:
  assumes "dag_graph (U, g)" "sortedSuper g = []"
  shows "\<exists>g'. topoSort g = Some g' \<and> distinct (sortedSuper g') \<and> set (sortedSuper g') = U
            \<and> deps_first (supers g) (sortedSuper g')"
  using topo_order_ok [OF assms(1)] assms(2)
  by (auto simp: topoSort_def orderAllNodes_def order_supers_sorted)

definition demo_dag :: graph where
  "demo_dag = demo_graph\<lparr>sortedSuper := [],
     supers := (\<lambda>s. new_super\<lparr>smember := [s], sdepPrev := (if s = 1 then {0} else {}),
                             sdepNext := (if s = 0 then {1} else {})\<rparr>)\<rparr>"

lemma demo_dag_ok: "dag_graph ({0, 1}, demo_dag)"
proof -
  have e: "{(p, n). n \<in> {0, 1 :: nat} \<and> p \<in> sdepPrev (supers demo_dag n)} = {(0, 1)}"
    by (auto simp: demo_dag_def new_super_def)
  show ?thesis
    unfolding dag_graph_def prod.case e
    by (simp add: wf_supers_def demo_dag_def demo_graph_defs acyclic_insert wf_acyclic)
qed

theorem topoSort_correct_witness:
  "\<exists>g'. topoSort demo_dag = Some g' \<and> distinct (sortedSuper g') \<and> set (sortedSuper g') = {0, 1}
      \<and> deps_first (supers demo_dag) (sortedSuper g')"
  using topoSort_correct [OF demo_dag_ok] by (simp add: demo_dag_def)

text \<open>
  C30: the deterministic traversal of \<^verbatim>\<open>GSIM_STABLE_ORDER\<close> meets the same specification, so that
  both variants schedule the same super nodes in an order that respects the dependences.
\<close>

theorem topoSort_stable_correct:
  assumes "dag_graph (U, g)" "sortedSuper g = []"
  shows "\<exists>g'. topoSort_stable g = Some g' \<and> distinct (sortedSuper g') \<and> set (sortedSuper g') = U
            \<and> deps_first (supers g) (sortedSuper g')"
  using stable_order_ok [OF assms(1)] assms(2)
  by (auto simp: topoSort_stable_def orderAllNodes_def order_supers_sorted)

theorem topoSort_stable_correct_witness:
  "\<exists>g'. topoSort_stable demo_dag = Some g' \<and> set (sortedSuper g') = {0, 1}"
  using topoSort_stable_correct [OF demo_dag_ok] by (auto simp: demo_dag_def)

text \<open>
  \<^verbatim>\<open>SuperNodeStableLess\<close> is the lexicographic order on line, first name, size, member names,
  degrees and number, hence a strict total order, as \<^verbatim>\<open>std::set\<close> and \<^verbatim>\<open>std::sort\<close> require.
\<close>

theorem stableLess_lexicographic:
  "stableLess h S a b \<longleftrightarrow> stable_key h S a < stable_key h S b"
  by (rule stableLess_iff)

text \<open>
  C25: one pass over the sorted super nodes solves a cycle: when every evaluation reads only
  the dependences of its super node, running them once in the order of \<^verbatim>\<open>topoSort\<close> gives a
  state in which every super node has the value its evaluation gives in that state.
\<close>

theorem topoSort_one_pass:
  assumes "dag_graph (U, g)" "topo_order g = Some out" "n \<in> U"
    and "\<And>n st st'. (\<And>p. p \<in> sdepPrev (supers g n) \<Longrightarrow> st p = st' p) \<Longrightarrow> f n st = f n st'"
  shows "run_once f out st n = f n (run_once f out st)"
  by (rule topo.one_pass_solves [of "(U, g)", unfolded prod.case fst_conv, OF assms(1,2) _ assms(3)])
     (rule assms(4))

theorem topoSort_one_pass_witness:
  "\<exists>out. topo_order demo_dag = Some out
     \<and> run_once (\<lambda>n st. (\<Sum>p \<in> sdepPrev (supers demo_dag n). st p) + 1) out (\<lambda>_. 0 :: int) 1
       = run_once (\<lambda>n st. (\<Sum>p \<in> sdepPrev (supers demo_dag n). st p) + 1) out (\<lambda>_. 0) 0 + 1"
proof -
  obtain out where out: "topo_order demo_dag = Some out" using topo_order_ok [OF demo_dag_ok] by blast
  have one: "(1 :: nat) \<in> {0, 1}" by simp
  let ?f = "\<lambda>n st. (\<Sum>p \<in> sdepPrev (supers demo_dag n). st p) + 1 :: int"
  have "?f n st = ?f n st'" if "\<And>p. p \<in> sdepPrev (supers demo_dag n) \<Longrightarrow> st p = st' p" for n st st'
    using that by (simp cong: sum.cong)
  then have "run_once ?f out (\<lambda>_. 0) 1 = ?f 1 (run_once ?f out (\<lambda>_. 0))"
    by (rule topoSort_one_pass [OF demo_dag_ok out one, where f = ?f])
  moreover have "sdepPrev (supers demo_dag 1) = {0}" by (simp add: demo_dag_def new_super_def)
  ultimately show ?thesis using out by simp
qed

end
