(* ===== verification/LoopDetector.thy ===== *)
theory LoopDetector
  imports Graph
begin

section \<open>Detection of combinational loops\<close>

text \<open>
  \<^verbatim>\<open>src/loopDetector.cpp\<close>: a depth-first search with an explicit stack and three states per
  super node.  The iteration over the successors follows the order of a \<^verbatim>\<open>std::set\<close> of
  pointers, which is left open: \<open>enum\<close> lists a set in any order.  A reported loop ends the
  program; here it is a result.  The theorems show that a reported loop is real and that
  the search ends, and two examples of what the search does not report.
\<close>

datatype visit = NOT_VISIT | EXPANDED | VISITED

datatype loop_result = NoLoop | LoopAt superid | AlreadyVisited superid

type_synonym states = "superid \<rightharpoonup> visit"

text \<open>
  The loop over the successors of the expanded node \<open>t\<close>.  On an expanded successor the stack
  is popped down to it and the program stops.
\<close>

fun expand :: "superid \<Rightarrow> superid list \<Rightarrow> superid list \<Rightarrow> states \<Rightarrow> superid + superid list \<times> states" where
  "expand t [] s st = Inr (s, st)"
| "expand t (n # ns) s st =
     (if n = t then expand t ns s st
      else (case st n of
              None \<Rightarrow> expand t ns (n # s) (st(n \<mapsto> NOT_VISIT))
            | Some EXPANDED \<Rightarrow> if n \<in> set s then Inl n else expand t ns [] st
            | Some _ \<Rightarrow> expand t ns s st))"

partial_function (option) detect_loop ::
    "(superid \<Rightarrow> superid set) \<Rightarrow> (superid set \<Rightarrow> superid list) \<Rightarrow> superid list \<Rightarrow> states
     \<Rightarrow> loop_result option" where
  "detect_loop nx enum s st =
     (case s of
        [] \<Rightarrow> Some NoLoop
      | t # rest \<Rightarrow>
          if st t = Some VISITED then Some (AlreadyVisited t)
          else if st t = Some EXPANDED then detect_loop nx enum rest (st(t \<mapsto> VISITED))
          else (case expand t (enum (nx t)) s (st(t \<mapsto> EXPANDED)) of
                  Inl n \<Rightarrow> Some (LoopAt n)
                | Inr p \<Rightarrow> detect_loop nx enum (fst p) (snd p)))"

definition detectLoop :: "graph \<Rightarrow> (superid set \<Rightarrow> superid list) \<Rightarrow> loop_result abortable" where
  "detectLoop g enum =
     detect_loop (\<lambda>s. snext (supers g s)) enum (rev (supersrc g))
       (map_of (map (\<lambda>n. (n, NOT_VISIT)) (supersrc g)))"

partial_function (option) sorted_loop ::
    "(superid \<Rightarrow> superid set) \<Rightarrow> (superid set \<Rightarrow> superid list) \<Rightarrow> superid list \<Rightarrow> states
     \<Rightarrow> loop_result option" where
  "sorted_loop nx enum s st =
     (case s of
        [] \<Rightarrow> Some NoLoop
      | t # rest \<Rightarrow>
          if st t = Some VISITED then sorted_loop nx enum rest st
          else if st t = Some EXPANDED then sorted_loop nx enum rest (st(t \<mapsto> VISITED))
          else (case expand t (enum (nx t)) s (st(t \<mapsto> EXPANDED)) of
                  Inl n \<Rightarrow> Some (LoopAt n)
                | Inr p \<Rightarrow> sorted_loop nx enum (fst p) (snd p)))"

definition detectSortedSuperLoop :: "graph \<Rightarrow> (superid set \<Rightarrow> superid list) \<Rightarrow> loop_result abortable" where
  "detectSortedSuperLoop g enum =
     sorted_loop (\<lambda>s. sdepNext (supers g s)) enum (rev (sortedSuper g))
       (map_of (map (\<lambda>n. (n, NOT_VISIT)) (sortedSuper g)))"

text \<open>A listing of finite sets, and the edges without self-loops.\<close>

definition lists_sets :: "(superid set \<Rightarrow> superid list) \<Rightarrow> bool" where
  "lists_sets enum \<longleftrightarrow> (\<forall>A. finite A \<longrightarrow> set (enum A) = A \<and> distinct (enum A))"

definition edges :: "(superid \<Rightarrow> superid set) \<Rightarrow> (superid \<times> superid) set" where
  "edges nx = {(a, b). b \<in> nx a \<and> a \<noteq> b}"

text \<open>
  The invariant: the states of the stack are known, an expanded node is on the stack and
  reaches everything above it.
\<close>

definition loop_inv :: "(superid \<Rightarrow> superid set) \<Rightarrow> superid set \<Rightarrow> superid list \<Rightarrow> states \<Rightarrow> bool" where
  "loop_inv nx U s st \<longleftrightarrow>
     distinct s \<and> set s \<subseteq> U
     \<and> (\<forall>n \<in> set s. st n = Some NOT_VISIT \<or> st n = Some EXPANDED)
     \<and> (\<forall>n. st n = Some EXPANDED \<longrightarrow> n \<in> set s)
     \<and> (\<forall>xs e ys. s = xs @ e # ys \<longrightarrow> st e = Some EXPANDED \<longrightarrow> (\<forall>x \<in> set xs. (e, x) \<in> (edges nx)\<^sup>+))"

definition rank :: "visit option \<Rightarrow> nat" where
  "rank v = (case v of Some VISITED \<Rightarrow> 0 | Some EXPANDED \<Rightarrow> 1 | _ \<Rightarrow> 2)"

section \<open>Correctness of the search\<close>

lemma init_states: "n \<in> set xs \<Longrightarrow> map_of (map (\<lambda>n. (n, v)) xs) n = Some v"
  by (induction xs) auto

lemma loop_invD:
  assumes "loop_inv nx U s st"
  shows "distinct s" "set s \<subseteq> U" "n \<in> set s \<Longrightarrow> st n = Some NOT_VISIT \<or> st n = Some EXPANDED"
  using assms unfolding loop_inv_def by blast+

lemma loop_inv_reach:
  "loop_inv nx U s st \<Longrightarrow> s = xs @ e # ys \<Longrightarrow> st e = Some EXPANDED \<Longrightarrow> x \<in> set xs
   \<Longrightarrow> (e, x) \<in> (edges nx)\<^sup>+"
  unfolding loop_inv_def by blast

lemma expand_inv:
  assumes "expand t ns s st = r" "loop_inv nx U s st" "set ns \<subseteq> nx t" "set ns \<subseteq> U"
    and t: "t \<in> set s" "st t = Some EXPANDED" "\<forall>x \<in> set s. st x = Some EXPANDED \<longrightarrow> x = t \<or> (x, t) \<in> (edges nx)\<^sup>+"
  shows "case r of Inl n \<Rightarrow> (n, n) \<in> (edges nx)\<^sup>+
    | Inr (s', st') \<Rightarrow> loop_inv nx U s' st' \<and> (\<forall>n. rank (st' n) = rank (st n))"
  using assms
proof (induction t ns s st arbitrary: r rule: expand.induct)
  case (1 t s st)
  then show ?case by auto
next
  case (2 t n ns s st)
  note pr = "2.prems" and ih = "2.IH"
  show ?case
  proof (cases "n = t")
    case True
    with 2 show ?thesis by auto
  next
    case False
    then have edge: "(t, n) \<in> edges nx" using pr(3) by (auto simp: edges_def)
    show ?thesis
    proof (cases "st n")
      case None
      let ?s = "n # s" and ?st = "st(n \<mapsto> NOT_VISIT)"
      have nt: "n \<notin> set s" using pr(2) None by (auto simp: loop_inv_def)
      have reach: "(e, x) \<in> (edges nx)\<^sup>+"
        if "?s = xs @ e # ys" "?st e = Some EXPANDED" "x \<in> set xs" for xs e ys x
      proof -
        have en: "e \<noteq> n" using that(2) by auto
        with that(1) obtain xs' where xs': "xs = n # xs'" "s = xs' @ e # ys" by (cases xs) auto
        have ee: "st e = Some EXPANDED" using that(2) en by simp
        have "e = t \<or> (e, t) \<in> (edges nx)\<^sup>+" using pr(7) ee xs'(2) by auto
        then have "(e, n) \<in> (edges nx)\<^sup>+" using edge by (auto intro: trancl_into_trancl)
        moreover have "(e, y) \<in> (edges nx)\<^sup>+" if "y \<in> set xs'" for y
          using loop_inv_reach [OF pr(2) xs'(2) ee that] .
        moreover have "x = n \<or> x \<in> set xs'" using that(3) xs'(1) by simp
        ultimately show ?thesis by blast
      qed
      have rr: "expand t ns ?s ?st = r" using pr(1) False None by simp
      have inv: "loop_inv nx U ?s ?st"
        unfolding loop_inv_def using pr(2,4) None nt reach by (auto simp: loop_inv_def)
      have "case r of Inl n \<Rightarrow> (n, n) \<in> (edges nx)\<^sup>+
        | Inr (s', st') \<Rightarrow> loop_inv nx U s' st' \<and> (\<forall>n. rank (st' n) = rank (?st n))"
        by (rule ih(2) [OF False None rr inv]) (use pr(3-7) nt None in auto)
      moreover have "rank (?st m) = rank (st m)" for m using None by (auto simp: rank_def)
      ultimately show ?thesis by (simp split: sum.splits prod.splits)
    next
      case (Some v)
      show ?thesis
      proof (cases v)
        case EXPANDED
        then have ns: "n \<in> set s" using pr(2) Some by (auto simp: loop_inv_def)
        then have "(n, t) \<in> (edges nx)\<^sup>+" using pr(7) Some EXPANDED False by auto
        then have "(n, n) \<in> (edges nx)\<^sup>+" using edge by (rule trancl_into_trancl)
        moreover have "r = Inl n" using pr(1) ns Some EXPANDED False by simp
        ultimately show ?thesis by simp
      qed (use 2 Some False in auto)
    qed
  qed
qed


definition wf_next :: "(superid \<Rightarrow> superid set) \<Rightarrow> superid set \<Rightarrow> bool" where
  "wf_next nx U \<longleftrightarrow> finite U \<and> (\<forall>n \<in> U. nx n \<subseteq> U)"

lemma pop_inv:
  assumes "loop_inv nx U (t # rest) st" "st t = Some EXPANDED"
  shows "loop_inv nx U rest (st(t \<mapsto> VISITED))"
  unfolding loop_inv_def
proof (intro conjI allI impI ballI)
  fix xs e ys x
  assume "rest = xs @ e # ys" "(st(t \<mapsto> VISITED)) e = Some EXPANDED" "x \<in> set xs"
  then show "(e, x) \<in> (edges nx)\<^sup>+"
    using loop_inv_reach [OF assms(1), of "t # xs" e ys x] by (auto split: if_splits)
qed (use assms in \<open>auto simp: loop_inv_def split: if_splits\<close>)

lemma expand_start_inv:
  assumes "loop_inv nx U (t # rest) st" "st t = Some NOT_VISIT"
  shows "loop_inv nx U (t # rest) (st(t \<mapsto> EXPANDED))
    \<and> (\<forall>x \<in> set (t # rest). (st(t \<mapsto> EXPANDED)) x = Some EXPANDED \<longrightarrow> x = t \<or> (x, t) \<in> (edges nx)\<^sup>+)"
proof -
  have dt: "t \<notin> set rest" using assms by (auto simp: loop_inv_def)
  have reach: "(e, x) \<in> (edges nx)\<^sup>+"
    if "t # rest = xs @ e # ys" "(st(t \<mapsto> EXPANDED)) e = Some EXPANDED" "x \<in> set xs" for xs e ys x
  proof -
    have "e \<noteq> t" using that dt by (cases xs) auto
    then show ?thesis using loop_inv_reach [OF assms(1) that(1) _ that(3)] that(2) by simp
  qed
  have "x = t \<or> (x, t) \<in> (edges nx)\<^sup>+" if x: "x \<in> set (t # rest)" "st x = Some EXPANDED" for x
  proof (cases "x = t")
    case False
    with x obtain as bs where "rest = as @ x # bs" by (auto simp: in_set_conv_decomp)
    then show ?thesis using loop_inv_reach [OF assms(1), of "t # as" x bs t] x(2) by simp
  qed simp
  moreover have "loop_inv nx U (t # rest) (st(t \<mapsto> EXPANDED))"
    unfolding loop_inv_def using assms(1) reach by (auto simp: loop_inv_def)
  ultimately show ?thesis by auto
qed

lemma rank_sum:
  assumes "finite U" "t \<in> U" "rank (st' t) < rank (st t)" "\<And>n. n \<noteq> t \<Longrightarrow> rank (st' n) = rank (st n)"
  shows "(\<Sum>n \<in> U. rank (st' n)) < (\<Sum>n \<in> U. rank (st n))"
proof (rule sum_strict_mono_ex1)
  show "\<forall>n \<in> U. rank (st' n) \<le> rank (st n)"
  proof
    fix n show "rank (st' n) \<le> rank (st n)" using assms(3,4) by (cases "n = t") auto
  qed
qed (use assms in auto)

lemma detect_loop_sound:
  assumes wf: "wf_next nx U" and enum: "lists_sets enum"
  shows "loop_inv nx U s st \<Longrightarrow>
    \<exists>r. detect_loop nx enum s st = Some r \<and> (r = NoLoop \<or> (\<exists>n. r = LoopAt n \<and> (n, n) \<in> (edges nx)\<^sup>+))"
proof (induction "(\<Sum>n \<in> U. rank (st n))" arbitrary: s st rule: less_induct)
  case less
  show ?case
  proof (cases s)
    case Nil
    then show ?thesis by (simp add: detect_loop.simps)
  next
    case (Cons t rest)
    note inv = less.prems [unfolded Cons]
    have tU: "t \<in> U" and fin: "finite U" and nU: "nx t \<subseteq> U"
      using loop_invD(1,2) [OF inv] wf by (auto simp: wf_next_def)
    have "st t = Some NOT_VISIT \<or> st t = Some EXPANDED" using loop_invD(3) [OF inv] by simp
    then show ?thesis
    proof
      assume e: "st t = Some EXPANDED"
      have "(\<Sum>n \<in> U. rank ((st(t \<mapsto> VISITED)) n)) < (\<Sum>n \<in> U. rank (st n))"
        by (rule rank_sum [OF fin tU]) (auto simp: rank_def e)
      note this = less.hyps [OF this pop_inv [OF inv e]]
      moreover have "detect_loop nx enum s st = detect_loop nx enum rest (st(t \<mapsto> VISITED))"
        unfolding Cons by (subst detect_loop.simps) (simp add: e)
      ultimately show ?thesis by simp
    next
      assume e: "st t = Some NOT_VISIT"
      let ?st = "st(t \<mapsto> EXPANDED)" and ?ns = "enum (nx t)"
      have "finite (nx t)" using finite_subset [OF nU fin] .
      then have ns: "set ?ns = nx t" using enum by (simp add: lists_sets_def)
      note start = expand_start_inv [OF inv e]
      have step: "case expand t ?ns (t # rest) ?st of Inl n \<Rightarrow> (n, n) \<in> (edges nx)\<^sup>+
        | Inr (s', st') \<Rightarrow> loop_inv nx U s' st' \<and> (\<forall>n. rank (st' n) = rank (?st n))"
        by (rule expand_inv [OF refl conjunct1 [OF start]]) (use start ns nU in simp_all)
      have unf: "detect_loop nx enum s st = (case expand t ?ns (t # rest) ?st of
          Inl n \<Rightarrow> Some (LoopAt n) | Inr p \<Rightarrow> detect_loop nx enum (fst p) (snd p))"
        unfolding Cons by (subst detect_loop.simps) (simp add: e)
      show ?thesis
      proof (cases "expand t ?ns (t # rest) ?st")
        case (Inl n)
        with step show ?thesis unfolding unf by simp
      next
        case (Inr p)
        then have p: "loop_inv nx U (fst p) (snd p)" "\<forall>n. rank (snd p n) = rank (?st n)"
          using step by (auto split: prod.splits)
        have "(\<Sum>n \<in> U. rank (snd p n)) < (\<Sum>n \<in> U. rank (st n))"
        proof (rule rank_sum [OF fin tU])
          show "rank (snd p t) < rank (st t)" using p(2) [rule_format, of t] by (simp add: rank_def e)
          show "rank (snd p n) = rank (st n)" if "n \<noteq> t" for n using p(2) [rule_format, of n] that by simp
        qed
        from less.hyps [OF this p(1)] show ?thesis unfolding unf Inr sum.case .
      qed
    qed
  qed
qed

lemma sorted_loop_none:
  assumes enum: "lists_sets enum" and fin: "finite D" and closed: "\<forall>n \<in> D. nx n \<subseteq> D"
  shows "set s \<subseteq> D \<Longrightarrow> \<forall>n \<in> D. st n = Some NOT_VISIT \<or> st n = Some VISITED
    \<Longrightarrow> sorted_loop nx enum s st = Some NoLoop"
proof (induction s arbitrary: st)
  case Nil
  then show ?case by (simp add: sorted_loop.simps)
next
  case (Cons t rest)
  show ?case
  proof (cases "st t = Some VISITED")
    case True
    with Cons show ?thesis by (simp add: sorted_loop.simps [of nx enum "t # rest"])
  next
    case False
    let ?st = "st(t \<mapsto> EXPANDED)"
    have t: "t \<in> D" "st t = Some NOT_VISIT" using Cons.prems False by auto
    have ns: "set (enum (nx t)) \<subseteq> D"
      using enum closed t(1) fin by (metis finite_subset lists_sets_def)
    have ex: "expand t ns (t # rest) ?st = Inr (t # rest, ?st)" if "set ns \<subseteq> D" for ns
      using that
    proof (induction ns)
      case (Cons n ns)
      have "n \<noteq> t \<Longrightarrow> ?st n = Some NOT_VISIT \<or> ?st n = Some VISITED"
        using Cons.prems \<open>\<forall>n \<in> D. st n = Some NOT_VISIT \<or> st n = Some VISITED\<close> by auto
      with Cons show ?case by auto
    qed simp
    have "sorted_loop nx enum (t # rest) st = sorted_loop nx enum (t # rest) ?st"
      using False t by (simp add: sorted_loop.simps [of nx enum "t # rest" st] ex [OF ns])
    also have "\<dots> = sorted_loop nx enum rest (?st(t \<mapsto> VISITED))"
      by (simp add: sorted_loop.simps [of nx enum "t # rest" ?st])
    also have "\<dots> = Some NoLoop" using Cons.prems by (intro Cons.IH) auto
    finally show ?thesis .
  qed
qed

section \<open>Properties\<close>

text \<open>
  C28: \<^verbatim>\<open>detectLoop\<close> always ends, never fails its internal check, and a loop it reports is a
  real cycle of the graph: the reported super node reaches itself.
\<close>

theorem detectLoop_sound:
  assumes "wf_next (\<lambda>s. snext (supers g s)) U" "lists_sets enum"
    and "distinct (supersrc g)" "set (supersrc g) \<subseteq> U"
  shows "\<exists>r. detectLoop g enum = Some r
     \<and> (r = NoLoop \<or> (\<exists>n. r = LoopAt n \<and> (n, n) \<in> (edges (\<lambda>s. snext (supers g s)))\<^sup>+))"
proof -
  let ?st = "map_of (map (\<lambda>n. (n, NOT_VISIT)) (supersrc g))"
  have "?st n = Some v \<Longrightarrow> v = NOT_VISIT \<and> n \<in> set (supersrc g)" for n v
    by (auto dest: map_of_SomeD)
  moreover have "n \<in> set (supersrc g) \<Longrightarrow> ?st n = Some NOT_VISIT" for n
    by (rule init_states)
  ultimately have "loop_inv (\<lambda>s. snext (supers g s)) U (rev (supersrc g)) ?st"
    using assms(3,4) by (fastforce simp: loop_inv_def)
  from detect_loop_sound [OF assms(1,2) this] show ?thesis by (simp add: detectLoop_def)
qed

definition demo_loop_graph :: "(superid \<Rightarrow> superid set) \<Rightarrow> graph" where
  "demo_loop_graph nx = demo_graph\<lparr>supersrc := [0], sortedSuper := [0, 1, 2],
     supers := (\<lambda>s. new_super\<lparr>snext := nx s, sdepNext := nx s\<rparr>)\<rparr>"

lemma lists_sorted: "lists_sets sorted_list_of_set"
  by (simp add: lists_sets_def)

theorem detectLoop_sound_witness:
  "\<exists>r. detectLoop (demo_loop_graph (\<lambda>s. {1 - s})) sorted_list_of_set = Some r
     \<and> (r = NoLoop \<or> (\<exists>n. r = LoopAt n \<and> (n, n) \<in> (edges (\<lambda>s. {1 - s}))\<^sup>+))"
  using detectLoop_sound [of "demo_loop_graph (\<lambda>s. {1 - s})" "{0, 1}", OF _ lists_sorted]
  by (simp add: wf_next_def demo_loop_graph_def new_super_def)

definition missed_next :: "superid \<Rightarrow> superid set" where
  "missed_next s = (if s = 0 then {1, 2} else if s = 1 then {2} else if s = 2 then {1} else {})"

text \<open>
  C34: the search is not complete.  In the graph with the edges 0 to 1, 0 to 2, 1 to 2 and 2
  to 1, the super nodes 1 and 2 form a cycle, and \<^verbatim>\<open>detectLoop\<close> answers that there is none: a
  successor that is on the stack but not yet expanded is skipped.
\<close>

theorem detectLoop_misses_cycle:
  "(1, 1) \<in> (edges missed_next)\<^sup>+
     \<and> detectLoop (demo_loop_graph missed_next) sorted_list_of_set = Some NoLoop"
proof
  have "(1, 2) \<in> edges missed_next" "(2, 1) \<in> edges missed_next"
    by (simp_all add: edges_def missed_next_def)
  then show "(1, 1) \<in> (edges missed_next)\<^sup>+" by (meson r_into_trancl trancl_into_trancl)
  have l: "sorted_list_of_set {1 :: nat, 2} = [1, 2]" by (simp add: sorted_list_of_set_insert_remove)
  show "detectLoop (demo_loop_graph missed_next) sorted_list_of_set = Some NoLoop"
    unfolding detectLoop_def demo_loop_graph_def
    by (simp add: new_super_def missed_next_def detect_loop.simps l)
qed

text \<open>
  \<^verbatim>\<open>detectSortedSuperLoop\<close> reports no loop, whatever the graph: as long as the sorted super
  nodes are closed under their successors, every one of them is already on the stack when
  the search starts, and none is expanded while another is.
\<close>

theorem detectSortedSuperLoop_never_reports:
  assumes "lists_sets enum" "\<forall>n \<in> set (sortedSuper g). sdepNext (supers g n) \<subseteq> set (sortedSuper g)"
  shows "detectSortedSuperLoop g enum = Some NoLoop"
  unfolding detectSortedSuperLoop_def
  by (rule sorted_loop_none [OF assms(1), of "set (sortedSuper g)"])
     (use assms(2) in \<open>auto simp: init_states\<close>)

theorem detectSortedSuperLoop_never_reports_witness:
  "detectSortedSuperLoop (demo_loop_graph missed_next) sorted_list_of_set = Some NoLoop"
  by (rule detectSortedSuperLoop_never_reports [OF lists_sorted])
     (simp add: demo_loop_graph_def new_super_def missed_next_def)

end
