(* ===== verification/DeadNodes.thy ===== *)
theory DeadNodes
  imports Graph
begin

section \<open>Removal of dead nodes\<close>

text \<open>
  \<^verbatim>\<open>src/deadNodes.cpp\<close>: a node is kept when an output, a special node or an external module
  needs it, directly or not.  The work list is the vector of the source with its index; the
  set of kept nodes does not depend on the order in which predecessors are visited.
\<close>

definition needs :: "heap \<Rightarrow> nodeid \<Rightarrow> nodeid list abortable" where
  "needs h n =
     (let ps = sorted_list_of_set (prev (h n)) in
      if ntype (h n) = NODE_REG_SRC
      then do { d \<leftarrow> getDst h n;
                Some (ps @ d # (case resetTree (h n) of None \<Rightarrow> [] | Some t \<Rightarrow> tree_rely_list t)) }
      else if ntype (h n) = NODE_READER
      then do { m \<leftarrow> parent (h n);
                Some (ps @ filter (\<lambda>p. ntype (h p) = NODE_WRITER \<or> ntype (h p) = NODE_READWRITER)
                             (member (h m))) }
      else if ntype (h n) = NODE_EXT_OUT
      then do { m \<leftarrow> parent (h n); Some (ps @ member (h m)) }
      else Some ps)"

definition add_once :: "nodeid \<Rightarrow> nodeid list \<Rightarrow> nodeid list" where
  "add_once n s = (if n \<in> set s then s else s @ [n])"

partial_function (option) reach_loop :: "heap \<Rightarrow> nodeid list \<Rightarrow> nat \<Rightarrow> nodeid list option" where
  "reach_loop h s i =
     (if i < length s
      then (case needs h (s ! i) of
              None \<Rightarrow> None
            | Some ns \<Rightarrow> reach_loop h (fold add_once ns s) (i + 1))
      else Some s)"

definition reach_roots :: "graph \<Rightarrow> nodeid list" where
  "reach_roots g =
     fold add_once (output g @ specialNodes g @ filter (\<lambda>n. isExt (nodes g n)) (all_members g)) []"

definition mark_dead :: "nodeid list \<Rightarrow> graph \<Rightarrow> graph" where
  "mark_dead s g =
     g\<lparr>nodes := (\<lambda>n. if n \<in> set (all_members g) \<and> ntype (nodes g n) \<noteq> NODE_INP
                       \<and> ntype (nodes g n) \<noteq> NODE_OUT \<and> n \<notin> set s
                     then (nodes g n)\<lparr>status := DEAD_NODE\<rparr> else nodes g n)\<rparr>"

text \<open>The loop over the memories: dead ports leave, a memory without ports is dropped.\<close>

fun purge_memories :: "nodeid list \<Rightarrow> heap \<Rightarrow> nodeid list \<times> heap" where
  "purge_memories [] h = ([], h)"
| "purge_memories (m # ms) h =
     (let ports = filter (\<lambda>n. status (h n) \<noteq> DEAD_NODE) (member (h m));
          h1 = h(m := (h m)\<lparr>member := ports\<rparr>)
      in if ports = [] then purge_memories ms (h1(m := (h1 m)\<lparr>status := DEAD_NODE\<rparr>))
         else (case purge_memories ms h1 of (ms', h') \<Rightarrow> (m # ms', h')))"

definition purge_lists :: "graph \<Rightarrow> graph" where
  "purge_lists g =
     (let rs = filter (\<lambda>n. status (nodes g n) \<noteq> DEAD_NODE) (regsrc g);
          (ms, h) = purge_memories (memory g) (nodes g)
      in g\<lparr>regsrc := rs, memory := ms, nodes := h\<rparr>)"

definition removeDeadNodes :: "graph \<Rightarrow> graph abortable" where
  "removeDeadNodes g =
     do { s \<leftarrow> reach_loop (nodes g) (reach_roots g) 0;
          g1 \<leftarrow> removeNodes DEAD_NODE (mark_dead s g);
          reconnectAll (purge_lists g1) }"

section \<open>The specification: what is needed\<close>

text \<open>
  A node depends on the nodes its assignments read; a register also on its next value and on
  what its reset tree reads, a read port on the write ports of its memory, an output of an
  external module on all the ports of the module.
\<close>

definition depends :: "heap \<Rightarrow> nodeid \<Rightarrow> nodeid \<Rightarrow> bool" where
  "depends h n m \<longleftrightarrow>
     m \<in> prev (h n)
     \<or> ntype (h n) = NODE_REG_SRC \<and> (regNext (h n) = Some m \<or> (\<exists>t. resetTree (h n) = Some t \<and> m \<in> getRelyNodes t))
     \<or> ntype (h n) = NODE_READER
         \<and> (\<exists>p. parent (h n) = Some p \<and> m \<in> set (member (h p)) \<and> (ntype (h m) = NODE_WRITER \<or> ntype (h m) = NODE_READWRITER))
     \<or> ntype (h n) = NODE_EXT_OUT \<and> (\<exists>p. parent (h n) = Some p \<and> m \<in> set (member (h p)))"

inductive_set needed :: "heap \<Rightarrow> nodeid set \<Rightarrow> nodeid set" for h R where
  root: "n \<in> R \<Longrightarrow> n \<in> needed h R"
| step: "n \<in> needed h R \<Longrightarrow> depends h n m \<Longrightarrow> m \<in> needed h R"

text \<open>The roots: outputs, special nodes and external modules with their ports.\<close>

definition live_roots :: "graph \<Rightarrow> nodeid set" where
  "live_roots g = set (output g) \<union> set (specialNodes g) \<union> {n \<in> set (all_members g). isExt (nodes g n)}"

text \<open>The nodes \<open>U\<close>: finitely many, closed, and no pointer that is followed is null.\<close>

definition wf_needs :: "heap \<Rightarrow> nodeid set \<Rightarrow> bool" where
  "wf_needs h U \<longleftrightarrow>
     finite U \<and>
     (\<forall>n \<in> U. finite (prev (h n)) \<and> (\<forall>m. depends h n m \<longrightarrow> m \<in> U)
        \<and> (ntype (h n) = NODE_REG_SRC \<longrightarrow> regNext (h n) \<noteq> None)
        \<and> (ntype (h n) = NODE_READER \<or> ntype (h n) = NODE_EXT_OUT \<longrightarrow> parent (h n) \<noteq> None))"

lemma needs_depends:
  assumes "wf_needs h U" "n \<in> U"
  shows "\<exists>ns. needs h n = Some ns \<and> set ns = {m. depends h n m} \<and> set ns \<subseteq> U"
proof -
  have "\<exists>ns. needs h n = Some ns \<and> set ns = {m. depends h n m}"
  proof -
    have fin: "set (sorted_list_of_set (prev (h n))) = prev (h n)" using assms by (auto simp: wf_needs_def)
    consider d where "ntype (h n) = NODE_REG_SRC" "regNext (h n) = Some d"
      | p where "ntype (h n) = NODE_READER" "parent (h n) = Some p"
      | p where "ntype (h n) = NODE_EXT_OUT" "parent (h n) = Some p"
      | "ntype (h n) \<notin> {NODE_REG_SRC, NODE_READER, NODE_EXT_OUT}"
    proof -
      have "ntype (h n) = NODE_REG_SRC \<longrightarrow> regNext (h n) \<noteq> None"
        "ntype (h n) = NODE_READER \<or> ntype (h n) = NODE_EXT_OUT \<longrightarrow> parent (h n) \<noteq> None"
        using assms unfolding wf_needs_def by blast+
      with that show thesis by blast
    qed
    then show ?thesis
    proof cases
      case 1
      then show ?thesis using fin
        by (cases "resetTree (h n)") (auto simp: needs_def depends_def getDst_def getRelyNodes_def)
    qed (use fin in \<open>auto simp: needs_def depends_def\<close>)
  qed
  with assms show ?thesis by (auto simp: wf_needs_def)
qed

lemma add_once_fold:
  "distinct s \<Longrightarrow> distinct (fold add_once ns s) \<and> set (fold add_once ns s) = set s \<union> set ns
     \<and> take (length s) (fold add_once ns s) = s"
proof (induction ns arbitrary: s)
  case (Cons n ns)
  have d: "distinct (add_once n s)" "set (add_once n s) = insert n (set s)"
    "length s \<le> length (add_once n s)" "take (length s) (add_once n s) = s"
    using Cons.prems by (auto simp: add_once_def)
  note IH = Cons.IH [OF d(1)]
  have "take (length s) (fold add_once ns (add_once n s))
      = take (length s) (take (length (add_once n s)) (fold add_once ns (add_once n s)))"
    using d(3) by (simp add: min_def)
  with IH d show ?case by auto
qed simp

definition reach_inv :: "heap \<Rightarrow> nodeid set \<Rightarrow> nodeid set \<Rightarrow> nodeid list \<Rightarrow> nat \<Rightarrow> bool" where
  "reach_inv h U R s i \<longleftrightarrow>
     distinct s \<and> set s \<subseteq> U \<and> R \<subseteq> set s \<and> set s \<subseteq> needed h R \<and> i \<le> length s
     \<and> (\<forall>j < i. \<forall>m. depends h (s ! j) m \<longrightarrow> m \<in> set s)"

lemma reach_step:
  assumes "reach_inv h U R s i" "i < length s" "set ns = {m. depends h (s ! i) m}" "set ns \<subseteq> U"
  shows "reach_inv h U R (fold add_once ns s) (i + 1)"
proof -
  let ?s = "fold add_once ns s"
  have s: "distinct s" "set s \<subseteq> U" "R \<subseteq> set s" "set s \<subseteq> needed h R"
    "\<forall>j < i. \<forall>m. depends h (s ! j) m \<longrightarrow> m \<in> set s"
    using assms(1) by (auto simp: reach_inv_def)
  have f: "distinct ?s" "set ?s = set s \<union> set ns" "take (length s) ?s = s"
    using add_once_fold [OF s(1)] by auto
  have len: "length s \<le> length ?s" using f(3) by (metis length_take min.absorb_iff2 nle_le min.cobounded2)
  have nth: "?s ! j = s ! j" if "j < length s" for j using that f(3) by (metis nth_take)
  have "s ! i \<in> needed h R" using s(4) assms(2) by auto
  then have "set ns \<subseteq> needed h R" using assms(3) by (auto intro: needed.step)
  moreover have "m \<in> set ?s" if j: "j < i + 1" "depends h (?s ! j) m" for j m
  proof (cases "j = i")
    case True
    with j assms(2,3) nth f(2) show ?thesis by auto
  next
    case False
    with j have "j < i" by simp
    moreover have "depends h (s ! j) m" using j(2) nth \<open>j < i\<close> assms(2) by simp
    ultimately show ?thesis using s(5) f(2) by auto
  qed
  ultimately show ?thesis
    using s f assms(2,4) len unfolding reach_inv_def by auto
qed

lemma reach_loop_total:
  assumes "wf_needs h U"
  shows "reach_inv h U R s i \<Longrightarrow> \<exists>s'. reach_loop h s i = Some s' \<and> set s' = needed h R"
proof (induction "card U - i" arbitrary: s i rule: less_induct)
  case less
  have s: "distinct s" "set s \<subseteq> U" "R \<subseteq> set s" "set s \<subseteq> needed h R" "i \<le> length s"
    "\<forall>j < i. \<forall>m. depends h (s ! j) m \<longrightarrow> m \<in> set s"
    using less.prems by (auto simp: reach_inv_def)
  show ?case
  proof (cases "i < length s")
    case True
    then have "s ! i \<in> U" using s(2) by auto
    then obtain ns where ns: "needs h (s ! i) = Some ns" "set ns = {m. depends h (s ! i) m}" "set ns \<subseteq> U"
      using needs_depends [OF assms] by blast
    have "length s \<le> card U"
      using s(1,2) assms by (metis card_mono distinct_card wf_needs_def)
    then have "card U - (i + 1) < card U - i" using True by simp
    from less.hyps [OF this reach_step [OF less.prems True ns(2,3)]]
    show ?thesis using True ns(1) by (simp add: reach_loop.simps [of h s i])
  next
    case False
    have "n \<in> set s" if "n \<in> needed h R" for n
      using that
    proof induction
      case (step n m)
      then obtain j where "j < length s" "s ! j = n" by (auto simp: in_set_conv_nth)
      with False have "j < i" by simp
      with step(2,3) s(6) \<open>s ! j = n\<close> show ?case by blast
    qed (use s(3) in auto)
    with s(4) have "set s = needed h R" by auto
    with False show ?thesis by (simp add: reach_loop.simps [of h s i])
  qed
qed

lemma reach_roots_set: "distinct (reach_roots g) \<and> set (reach_roots g) = live_roots g"
  using add_once_fold [of "[]" "output g @ specialNodes g @ filter (\<lambda>n. isExt (nodes g n)) (all_members g)"]
  by (auto simp: reach_roots_def live_roots_def)

lemma reach_ok:
  assumes "wf_needs (nodes g) U" "live_roots g \<subseteq> U"
  shows "\<exists>s. reach_loop (nodes g) (reach_roots g) 0 = Some s
           \<and> set s = needed (nodes g) (live_roots g)"
  by (rule reach_loop_total [OF assms(1)])
     (use assms(2) reach_roots_set [of g] in \<open>auto simp: reach_inv_def intro: needed.root\<close>)

lemma purge_lists_members: "all_members (purge_lists g) = all_members g"
  by (simp add: purge_lists_def Let_def all_members_def split: prod.splits)

lemma removeNodes_members:
  assumes "removeNodes st g = Some g'"
  shows "all_members g' = filter (\<lambda>n. status (nodes g n) \<noteq> st) (all_members g)"
  using reconnectSuper_members assms
  by (simp add: removeNodes_def all_members_remove removeEmptySuper_members)

lemma all_members_mark: "all_members (mark_dead s g) = all_members g"
  by (simp add: all_members_def mark_dead_def)

lemma removeDeadNodes_keeps:
  assumes "removeDeadNodes g = Some g'" "wf_needs (nodes g) U" "live_roots g \<subseteq> U"
    and "\<forall>n \<in> set (all_members g). status (nodes g n) \<noteq> DEAD_NODE"
  shows "all_members g' =
     filter (\<lambda>n. ntype (nodes g n) = NODE_INP \<or> ntype (nodes g n) = NODE_OUT
               \<or> n \<in> needed (nodes g) (live_roots g)) (all_members g)"
proof -
  obtain s where s: "reach_loop (nodes g) (reach_roots g) 0 = Some s"
    "set s = needed (nodes g) (live_roots g)" using reach_ok [OF assms(2,3)] by blast
  with assms(1) obtain g1 where g1: "removeNodes DEAD_NODE (mark_dead s g) = Some g1"
    "reconnectAll (purge_lists g1) = Some g'"
    by (auto simp: removeDeadNodes_def split: Option.bind_splits)
  have "all_members g' = all_members g1"
    using reconnectAll_members [OF g1(2)] by (simp add: purge_lists_members)
  also have "\<dots> = filter (\<lambda>n. status (nodes (mark_dead s g) n) \<noteq> DEAD_NODE) (all_members g)"
    using removeNodes_members [OF g1(1)] by (simp add: all_members_mark)
  also have "\<dots> = filter (\<lambda>n. ntype (nodes g n) = NODE_INP \<or> ntype (nodes g n) = NODE_OUT
               \<or> n \<in> needed (nodes g) (live_roots g)) (all_members g)"
    by (rule filter_cong) (use assms(4) s(2) in \<open>auto simp: mark_dead_def\<close>)
  finally show ?thesis .
qed

text \<open>The steps of the pass leave the fields the edge construction reads as they are.\<close>

definition same_links :: "heap \<Rightarrow> heap \<Rightarrow> bool" where
  "same_links h h' \<longleftrightarrow>
     (\<forall>n. super (h' n) = super (h n) \<and> ntype (h' n) = ntype (h n) \<and> parent (h' n) = parent (h n)
        \<and> nreset (h' n) = nreset (h n) \<and> resetTree (h' n) = resetTree (h n))"

lemma connectable_links: "same_links h h' \<Longrightarrow> connectable h \<Longrightarrow> connectable h'"
proof -
  assume s: "same_links h h'" and c: "connectable h"
  have "reset_cond_nodes (h' n) = reset_cond_nodes (h n)" "reset_val_nodes (h' n) = reset_val_nodes (h n)" for n
    using s by (simp_all add: same_links_def reset_cond_nodes_def reset_val_nodes_def)
  with s c show ?thesis by (simp add: connectable_def same_links_def)
qed

lemma purge_memories_links: "same_links h0 h \<Longrightarrow> same_links h0 (snd (purge_memories ms h))"
proof (induction ms arbitrary: h)
  case (Cons m ms)
  let ?h = "h(m := (h m)\<lparr>member := filter (\<lambda>n. status (h n) \<noteq> DEAD_NODE) (member (h m))\<rparr>)"
  have "same_links h0 ?h" "same_links h0 (?h(m := (?h m)\<lparr>status := DEAD_NODE\<rparr>))"
    using Cons.prems by (simp_all add: same_links_def)
  from Cons.IH [OF this(1)] Cons.IH [OF this(2)] show ?case
    unfolding purge_memories.simps Let_def by (auto simp only: snd_conv split: if_splits prod.splits)
qed simp

lemma purge_lists_nodes: "nodes (purge_lists g) = snd (purge_memories (memory g) (nodes g))"
  by (simp add: purge_lists_def Let_def split: prod.splits)

lemma removeDeadNodes_total:
  assumes "connectable (nodes g)" "wf_needs (nodes g) U" "live_roots g \<subseteq> U"
  shows "\<exists>g'. removeDeadNodes g = Some g'"
proof -
  obtain s where s: "reach_loop (nodes g) (reach_roots g) 0 = Some s"
    using reach_ok [OF assms(2,3)] by blast
  let ?g = "removeEmptySuper (removeNodesNoConnect DEAD_NODE (mark_dead s g))"
  have c: "connectable (nodes ?g)"
    by (rule connectable_links [OF _ assms(1)])
       (simp add: same_links_def removeEmptySuper_def removeNodesNoConnect_def mark_dead_def)
  obtain g1 where g1: "reconnectSuper ?g = Some g1" using reconnectSuper_total [OF c] by blast
  have "connectable (nodes (purge_lists g1))"
    unfolding purge_lists_nodes reconnectSuper_nodes [OF g1]
    by (rule connectable_links [OF purge_memories_links c]) (simp add: same_links_def)
  then obtain g' where "reconnectAll (purge_lists g1) = Some g'" using reconnectAll_total by blast
  with s g1 show ?thesis by (simp add: removeDeadNodes_def removeNodes_def)
qed

section \<open>Properties\<close>

text \<open>
  C9: without null pointers \<^verbatim>\<open>removeDeadNodes\<close> ends and keeps, in their order, exactly the
  inputs, the outputs and the nodes that an output, a special node or an external module
  needs directly or through other nodes.
\<close>

theorem removeDeadNodes_exact:
  assumes "connectable (nodes g)" "wf_needs (nodes g) U" "live_roots g \<subseteq> U"
    and "\<forall>n \<in> set (all_members g). status (nodes g n) \<noteq> DEAD_NODE"
  shows "\<exists>g'. removeDeadNodes g = Some g' \<and> all_members g' =
     filter (\<lambda>n. ntype (nodes g n) = NODE_INP \<or> ntype (nodes g n) = NODE_OUT
               \<or> n \<in> needed (nodes g) (live_roots g)) (all_members g)"
  using removeDeadNodes_total [OF assms(1-3)] removeDeadNodes_keeps [OF _ assms(2-4)] by blast

definition demo_dead :: graph where
  "demo_dead = demo_graph\<lparr>sortedSuper := [0, 1, 2],
     nodes := (\<lambda>n. (nodes demo_graph n)\<lparr>prev := (if n = 1 then {0} else {})\<rparr>)\<rparr>"

lemmas demo_dead_defs = demo_dead_def demo_graph_defs all_members_def

lemma demo_dead_roots: "live_roots demo_dead = {1}"
  by (simp add: live_roots_def demo_dead_defs isExt_def)

lemma demo_dead_members: "all_members demo_dead = [0, 1, 2]"
  by (simp add: demo_dead_defs)

lemma demo_dead_node:
  "ntype (nodes demo_dead n) = NODE_OTHERS" "status (nodes demo_dead n) = VALID_NODE"
  "depends (nodes demo_dead) n m \<longleftrightarrow> n = 1 \<and> m = 0" "finite (prev (nodes demo_dead n))"
  by (simp_all add: demo_dead_defs depends_def)

lemma demo_dead_wf: "wf_needs (nodes demo_dead) {0, 1, 2}"
  by (simp add: wf_needs_def demo_dead_node)

lemma demo_dead_needed: "needed (nodes demo_dead) {1} = {0, 1}"
proof
  show "needed (nodes demo_dead) {1} \<subseteq> {0, 1}"
  proof
    fix n assume "n \<in> needed (nodes demo_dead) {1}"
    then show "n \<in> {0, 1}"
      by induction (auto simp: demo_dead_node split: if_splits)
  qed
  have "(1::nat) \<in> needed (nodes demo_dead) {1}" by (simp add: needed.root)
  with needed.step [OF this, of 0] show "{0, 1} \<subseteq> needed (nodes demo_dead) {1}"
    by (simp add: demo_dead_node)
qed

lemma demo_dead_connectable: "connectable (nodes demo_dead)"
  by (simp add: connectable_def demo_dead_defs)

theorem removeDeadNodes_exact_witness:
  "\<exists>g'. removeDeadNodes demo_dead = Some g' \<and> all_members g' = [0, 1]"
  using removeDeadNodes_exact [OF demo_dead_connectable demo_dead_wf]
  by (simp add: demo_dead_roots demo_dead_members demo_dead_node demo_dead_needed del: One_nat_def)

end
