(* ===== verification/AliasAnalysis.thy ===== *)
theory AliasAnalysis
  imports Graph
begin

section \<open>Alias analysis\<close>

text \<open>
  \<^verbatim>\<open>src/aliasAnalysis.cpp\<close>: a node that only copies another node (or one of its elements) is
  removed, and the references to it are replaced by references to what it copies.  The
  replacement keeps the value of every tree as long as the aliases hold; one theorem shows
  a reference that the traversal does not replace.
\<close>

type_synonym aliasmap = "nodeid \<rightharpoonup> enode"

definition isAlias :: "heap \<Rightarrow> nodeid \<Rightarrow> enode option" where
  "isAlias h n =
     (let nd = h n in
      if ntype nd \<noteq> NODE_OTHERS then None
      else (case assignTree nd of
              [t] \<Rightarrow>
                (case e_node (root t) of
                   None \<Rightarrow> None
                 | Some m \<Rightarrow>
                     if card (prev nd) \<noteq> 1 then None
                     else if isArray nd
                     then (if getChildNum (lvalue t) = 0 \<and> ntype (h m) = NODE_OTHERS
                           then Some (root t) else None)
                     else Some (root t))
            | _ \<Rightarrow> None))"

text \<open>\<open>mergeSubTree e new\<close>: a copy of \<open>new\<close> with copies of the children of \<open>e\<close> appended.\<close>

definition mergeSubTree :: "enode \<Rightarrow> enode \<Rightarrow> enode" where
  "mergeSubTree e new =
     (case dup new of ENode a cs \<Rightarrow> ENode a (cs @ map (map_option dup) (child e)))"

definition set_width :: "int \<Rightarrow> enode \<Rightarrow> enode" where
  "set_width w e = (case e of ENode a cs \<Rightarrow> ENode (a\<lparr>width := w\<rparr>) cs)"

definition alias_ref :: "aliasmap \<Rightarrow> enode \<Rightarrow> enode option" where
  "alias_ref m e =
     (case e_node e of
        None \<Rightarrow> None
      | Some n \<Rightarrow> map_option (\<lambda>new. set_width (e_width e) (mergeSubTree e new)) (m n))"

text \<open>
  The stack traversal: a replaced child is not visited, because the stack holds the child
  it replaced.
\<close>

fun replace_children :: "aliasmap \<Rightarrow> enode \<Rightarrow> enode" where
  "replace_children m (ENode a cs) =
     ENode a (map (map_option (\<lambda>c. case alias_ref m c of Some c' \<Rightarrow> c' | None \<Rightarrow> replace_children m c)) cs)"

definition replace_root :: "aliasmap \<Rightarrow> enode \<Rightarrow> enode" where
  "replace_root m e = replace_children m (case alias_ref m e of Some e' \<Rightarrow> e' | None \<Rightarrow> e)"

definition replace :: "aliasmap \<Rightarrow> exptree \<Rightarrow> exptree" where
  "replace m t = \<lparr>root = replace_root m (root t), lvalue = replace_children m (lvalue t)\<rparr>"

text \<open>The first loop of \<^verbatim>\<open>aliasAnalysis\<close>: collect the aliases in the sorted order.\<close>

definition alias_step :: "nodeid \<Rightarrow> aliasmap \<times> heap \<Rightarrow> aliasmap \<times> heap" where
  "alias_step n mh =
     (case mh of (m, h) \<Rightarrow>
        if status (h n) \<noteq> VALID_NODE then (m, h)
        else (case isAlias h n of
                None \<Rightarrow> (m, h)
              | Some e \<Rightarrow>
                  let al = (case e_node e of
                              None \<Rightarrow> e
                            | Some b \<Rightarrow> (case m b of None \<Rightarrow> e | Some new \<Rightarrow> mergeSubTree e new))
                  in (m(n \<mapsto> al), h(n := (h n)\<lparr>status := DEAD_NODE\<rparr>))))"

definition replace_trees :: "aliasmap \<Rightarrow> node \<Rightarrow> node" where
  "replace_trees m nd =
     (if status nd = DEAD_NODE then nd
      else nd\<lparr>assignTree := map (replace m) (assignTree nd),
              resetTree := map_option (replace m) (resetTree nd)\<rparr>)"

definition aliasAnalysis :: "graph \<Rightarrow> graph abortable" where
  "aliasAnalysis g =
     (let (m, h) = fold alias_step (all_members g) (Map.empty, nodes g);
          h' = (\<lambda>n. if n \<in> set (all_members g) then replace_trees m (h n) else h n)
      in reconnectAll (removeNodesNoConnect DEAD_NODE (g\<lparr>nodes := h'\<rparr>)))"

section \<open>Replacement keeps values\<close>

text \<open>
  An alias map that holds in an environment: the entry of \<open>n\<close> is a reference to an element
  of some node, and reading \<open>n\<close> at further indices reads that element at these indices.
\<close>

definition ref_holds :: "env \<Rightarrow> nodeid \<Rightarrow> enode \<Rightarrow> bool" where
  "ref_holds E n e \<longleftrightarrow>
     (\<exists>b vs. e_node e = Some b \<and> vals (map (map_option (operand_of E)) (child e)) = Some vs
          \<and> (\<forall>is. val E n is = val E b (vs @ is)))"

definition alias_holds :: "env \<Rightarrow> aliasmap \<Rightarrow> bool" where
  "alias_holds E m \<longleftrightarrow> (\<forall>n e. m n = Some e \<longrightarrow> ref_holds E n e)"

text \<open>References to a replaced node carry the sign of what replaces them.\<close>

fun signs_match :: "aliasmap \<Rightarrow> enode \<Rightarrow> bool" where
  "signs_match m (ENode a cs) \<longleftrightarrow>
     (\<forall>n e. nodePtr a = Some n \<longrightarrow> m n = Some e \<longrightarrow> sign a = e_sign e)
     \<and> (\<forall>c \<in> set cs. \<forall>e \<in> set_option c. signs_match m e)"

lemma vals_append:
  "vals (xs @ ys) = (case vals xs of None \<Rightarrow> None | Some a \<Rightarrow> map_option ((@) a) (vals ys))"
proof (induction xs rule: vals.induct)
  case 1
  then show ?case by (cases "vals ys") auto
next
  case (2 w s v os)
  then show ?case by (cases "vals os"; cases "vals ys") auto
qed simp_all

lemma operand_dup: "operand_of E (dup e) = operand_of E e"
  by simp

lemma operands_dup: "map (map_option (operand_of E)) (map (map_option dup) cs) = map (map_option (operand_of E)) cs"
  by (simp add: option.map_comp comp_def)

lemma alias_ref_eval:
  assumes "alias_holds E m" "alias_ref m e = Some e'" "signs_match m e"
  shows "eval E e' = eval E e \<and> e_width e' = e_width e \<and> e_sign e' = e_sign e"
proof -
  obtain a cs where e: "e = ENode a cs" by (cases e)
  from assms(2) obtain n new where n: "nodePtr a = Some n" "m n = Some new"
    and e': "e' = set_width (e_width e) (mergeSubTree e new)"
    by (auto simp: alias_ref_def e split: option.splits)
  obtain b bs where new: "new = ENode b bs" by (cases new)
  have sg: "sign a = sign b" using assms(3) n by (simp add: e new)
  obtain k vs where k: "nodePtr b = Some k" "vals (map (map_option (operand_of E)) bs) = Some vs"
    "\<And>is. val E n is = val E k (vs @ is)"
  proof -
    have "ref_holds E n new" using assms(1) n(2) by (simp add: alias_holds_def)
    with that show thesis by (auto simp: ref_holds_def new)
  qed
  have m: "e' = ENode ((dup_attr b)\<lparr>width := width a\<rparr>) (map (map_option dup) (bs @ cs))"
    by (simp add: e' mergeSubTree_def set_width_def e new)
  have ev: "eval E e' = (case vals (map (map_option (operand_of E)) (bs @ cs)) of
       None \<Rightarrow> Undef | Some is \<Rightarrow> Val (wrap (nat (width a)) (sign b) (val E k is)))"
    unfolding m by (subst eval_ref [of _ k]) (simp_all add: k(1) operands_dup del: map_map cong: option.case_cong)
  have "eval E e' = eval E e"
    unfolding ev unfolding e eval_ref [OF n(1)]
    using k sg by (cases "vals (map (map_option (operand_of E)) cs)") (simp_all add: vals_append)
  then show ?thesis by (simp add: m e sg)
qed

lemma replace_children_attr: "e_width (replace_children m e) = e_width e" "e_sign (replace_children m e) = e_sign e"
  by (cases e, simp)+

definition children_match :: "aliasmap \<Rightarrow> enode \<Rightarrow> bool" where
  "children_match m e \<longleftrightarrow> (\<forall>c \<in> set (child e). \<forall>x \<in> set_option c. signs_match m x)"

lemma signs_children: "signs_match m e \<Longrightarrow> children_match m e"
  by (cases e) (auto simp: children_match_def)

lemma replace_children_eval:
  assumes "alias_holds E m"
  shows "children_match m e \<Longrightarrow> eval E (replace_children m e) = eval E e"
proof (induction e)
  case (ENode a cs)
  have "operand_of E (case alias_ref m c of Some c' \<Rightarrow> c' | None \<Rightarrow> replace_children m c) = operand_of E c"
    if "Some c \<in> set cs" for c
  proof -
    have s: "signs_match m c" using ENode.prems that by (auto simp: children_match_def)
    show ?thesis
    proof (cases "alias_ref m c")
      case None
      with ENode.IH [OF that _ signs_children [OF s]] show ?thesis by (simp add: replace_children_attr)
    next
      case (Some c')
      from alias_ref_eval [OF assms Some s] Some show ?thesis by simp
    qed
  qed
  then have "map (map_option (operand_of E)) (map (map_option (\<lambda>c. case alias_ref m c of Some c' \<Rightarrow> c'
      | None \<Rightarrow> replace_children m c)) cs) = map (map_option (operand_of E)) cs"
    by (auto simp: option.map_comp comp_def intro!: map_cong option.map_cong)
  then show ?case unfolding replace_children.simps by (rule eval_cong_children)
qed

lemma signs_match_dup: "signs_match m (dup e) = signs_match m e"
proof (induction e)
  case (ENode a cs)
  have "(\<forall>c \<in> set (map (map_option dup) cs). \<forall>e \<in> set_option c. signs_match m e)
    \<longleftrightarrow> (\<forall>c \<in> set cs. \<forall>e \<in> set_option c. signs_match m (dup e))"
    by (simp add: option.set_map)
  also have "\<dots> \<longleftrightarrow> (\<forall>c \<in> set cs. \<forall>e \<in> set_option c. signs_match m e)"
    using ENode.IH by auto
  finally show ?case by simp
qed

definition alias_typed :: "aliasmap \<Rightarrow> bool" where
  "alias_typed m \<longleftrightarrow> (\<forall>n e. m n = Some e \<longrightarrow> children_match m e)"

lemma replace_root_eval:
  assumes "alias_holds E m" "alias_typed m" "signs_match m e"
  shows "eval E (replace_root m e) = eval E e"
proof (cases "alias_ref m e")
  case None
  then show ?thesis
    using replace_children_eval [OF assms(1) signs_children [OF assms(3)]] by (simp add: replace_root_def)
next
  case (Some e')
  then obtain n new where n: "m n = Some new" "e' = set_width (e_width e) (mergeSubTree e new)"
    by (auto simp: alias_ref_def split: option.splits)
  have "children_match m new" "children_match m e"
    using assms(2,3) n(1) signs_children by (auto simp: alias_typed_def)
  then have "children_match m e'"
    unfolding n(2)
    by (cases new; cases e) (simp add: children_match_def mergeSubTree_def set_width_def
        option.set_map signs_match_dup ball_Un)
  with alias_ref_eval [OF assms(1) Some assms(3)] Some show ?thesis
    by (simp add: replace_root_def replace_children_eval [OF assms(1)])
qed

section \<open>The collected aliases hold\<close>

definition same_but_status :: "heap \<Rightarrow> heap \<Rightarrow> bool" where
  "same_but_status h h' \<longleftrightarrow> (\<forall>n. (h n)\<lparr>status := VALID_NODE\<rparr> = (h' n)\<lparr>status := VALID_NODE\<rparr>)"

lemma same_but_status_fields:
  assumes "same_but_status h h'"
  shows "ntype (h' n) = ntype (h n)" "assignTree (h' n) = assignTree (h n)"
    "prev (h' n) = prev (h n)" "dimension (h' n) = dimension (h n)"
proof -
  have e: "(h n)\<lparr>status := VALID_NODE\<rparr> = (h' n)\<lparr>status := VALID_NODE\<rparr>"
    using assms by (simp add: same_but_status_def)
  from arg_cong [OF e, of ntype] show "ntype (h' n) = ntype (h n)" by simp
  from arg_cong [OF e, of assignTree] show "assignTree (h' n) = assignTree (h n)" by simp
  from arg_cong [OF e, of prev] show "prev (h' n) = prev (h n)" by simp
  from arg_cong [OF e, of dimension] show "dimension (h' n) = dimension (h n)" by simp
qed

lemma isAlias_status: "same_but_status h h' \<Longrightarrow> isAlias h' n = isAlias h n"
proof -
  assume s: "same_but_status h h'"
  show ?thesis unfolding isAlias_def Let_def isArray_def same_but_status_fields [OF s] ..
qed

lemma merge_holds:
  assumes "ref_holds E n e" "e_node e = Some b" "ref_holds E b new"
  shows "ref_holds E n (mergeSubTree e new)"
proof -
  obtain a cs where e: "e = ENode a cs" by (cases e)
  obtain d ds where new: "new = ENode d ds" by (cases new)
  obtain vs where vs: "vals (map (map_option (operand_of E)) cs) = Some vs" "\<And>is. val E n is = val E b (vs @ is)"
    using assms(1,2) by (auto simp: ref_holds_def e)
  obtain k ws where ws: "nodePtr d = Some k" "vals (map (map_option (operand_of E)) ds) = Some ws"
    "\<And>is. val E b is = val E k (ws @ is)"
    using assms(3) by (auto simp: ref_holds_def new)
  have "child (mergeSubTree e new) = map (map_option dup) (ds @ cs)" "e_node (mergeSubTree e new) = Some k"
    by (simp_all add: mergeSubTree_def e new ws(1))
  moreover have "vals (map (map_option (operand_of E)) (map (map_option dup) (ds @ cs))) = Some (ws @ vs)"
    unfolding operands_dup by (simp add: vals_append ws vs)
  ultimately show ?thesis using vs(2) ws(3) by (simp add: ref_holds_def)
qed

text \<open>
  A state that satisfies the assignments of the combinational nodes, stated without the
  alias decision.  \<open>written E e is\<close> is what the expression \<open>e\<close> gives to the element \<open>is\<close> of its
  target: a reference to an array gives the element \<open>is\<close> of it, anything else only a scalar.
  \<open>assign_to E t is\<close> is what the tree assigns to the element \<open>is\<close> of its node, \<open>val_after\<close> what all
  trees in their order leave there; \<open>None\<close> if it is not assigned.
\<close>

definition written :: "env \<Rightarrow> enode \<Rightarrow> int list \<Rightarrow> int option" where
  "written E e is =
     (case e_node e of
        Some b \<Rightarrow> map_option (\<lambda>vs. wrap (nat (e_width e)) (e_sign e) (val E b (vs @ is)))
                   (vals (map (map_option (operand_of E)) (child e)))
      | None \<Rightarrow> (case eval E e of Val v \<Rightarrow> if is = [] then Some v else None | _ \<Rightarrow> None))"

definition assign_to :: "env \<Rightarrow> exptree \<Rightarrow> int list \<Rightarrow> int option" where
  "assign_to E t is =
     (case vals (map (map_option (operand_of E)) (child (lvalue t))) of
        None \<Rightarrow> None
      | Some js \<Rightarrow> if take (length js) is = js then written E (root t) (drop (length js) is) else None)"

definition val_after :: "env \<Rightarrow> exptree list \<Rightarrow> int list \<Rightarrow> int option" where
  "val_after E ts is = fold (\<lambda>t r. case assign_to E t is of Some v \<Rightarrow> Some v | None \<Rightarrow> r) ts None"

text \<open>A reference reads an element that exists and whose values fit the width of the reference.\<close>

definition ref_fits :: "env \<Rightarrow> enode \<Rightarrow> bool" where
  "ref_fits E e \<longleftrightarrow>
     (\<forall>b. e_node e = Some b \<longrightarrow>
        vals (map (map_option (operand_of E)) (child e)) \<noteq> None
        \<and> (\<forall>is. wrap (nat (e_width e)) (e_sign e) (val E b is) = val E b is))"

definition comb_state :: "env \<Rightarrow> heap \<Rightarrow> nodeid set \<Rightarrow> bool" where
  "comb_state E h A \<longleftrightarrow>
     (\<forall>n \<in> A. ntype (h n) = NODE_OTHERS \<longrightarrow>
        (\<forall>t \<in> set (assignTree (h n)). (isArray (h n) \<or> child (lvalue t) = []) \<and> ref_fits E (root t))
        \<and> (\<forall>is v. val_after E (assignTree (h n)) is = Some v \<longrightarrow> val E n is = v))"

text \<open>What the guards of \<^verbatim>\<open>isAlias\<close> are for: a node it accepts copies the node it names, in every element.\<close>

lemma isAlias_copies:
  assumes c: "comb_state E h A" and n: "n \<in> A" and al: "isAlias h n = Some e"
  shows "ref_holds E n e"
proof -
  from al obtain t b where t: "ntype (h n) = NODE_OTHERS" "assignTree (h n) = [t]" "e = root t" "e_node (root t) = Some b"
    "isArray (h n) \<longrightarrow> child (lvalue t) = []"
    by (auto simp: isAlias_def Let_def getChildNum_def split: if_splits list.splits option.splits)
  then have l: "child (lvalue t) = []" and f: "ref_fits E (root t)"
    and v: "\<And>is v. val_after E [t] is = Some v \<Longrightarrow> val E n is = v"
    using c n unfolding comb_state_def by auto
  from f t(4) obtain vs where vs: "vals (map (map_option (operand_of E)) (child (root t))) = Some vs"
    and w: "\<And>is. wrap (nat (e_width (root t))) (e_sign (root t)) (val E b is) = val E b is"
    unfolding ref_fits_def by blast
  have "val_after E [t] is = Some (val E b (vs @ is))" for "is"
    by (simp add: val_after_def assign_to_def l written_def t(4) vs w)
  then show ?thesis using v t(3,4) vs by (auto simp: ref_holds_def)
qed

lemma alias_fold_holds:
  assumes "comb_state E h0 (set ns)"
  shows "same_but_status h0 h \<Longrightarrow> alias_holds E m \<Longrightarrow> fold alias_step ns (m, h) = (m', h')
    \<Longrightarrow> alias_holds E m'"
  using assms
proof (induction ns arbitrary: m h)
  case (Cons n ns)
  obtain m1 h1 where s: "alias_step n (m, h) = (m1, h1)" by fastforce
  have "same_but_status h0 h1 \<and> alias_holds E m1"
  proof (cases "status (h n) = VALID_NODE \<and> isAlias h n \<noteq> None")
    case False
    then have "m1 = m \<and> h1 = h" using s by (auto simp: alias_step_def split: if_splits option.splits)
    with Cons.prems show ?thesis by simp
  next
    case True
    then obtain e where al: "isAlias h n = Some e" "status (h n) = VALID_NODE" by auto
    then have "isAlias h0 n = Some e" using isAlias_status [OF Cons.prems(1)] by simp
    then have r: "ref_holds E n e" using isAlias_copies [OF Cons.prems(4)] by simp
    then obtain b where b: "e_node e = Some b" by (auto simp: ref_holds_def)
    let ?al = "case m b of None \<Rightarrow> e | Some new \<Rightarrow> mergeSubTree e new"
    have "m1 = m(n \<mapsto> ?al)" "h1 = h(n := (h n)\<lparr>status := DEAD_NODE\<rparr>)"
      using s al b by (auto simp: alias_step_def Let_def)
    moreover have "ref_holds E n ?al"
      using r merge_holds [OF r b] Cons.prems(2) by (auto simp: alias_holds_def split: option.splits)
    ultimately show ?thesis
      using Cons.prems(1,2) by (auto simp: alias_holds_def same_but_status_def)
  qed
  moreover have "comb_state E h0 (set ns)" using Cons.prems(4) by (auto simp: comb_state_def)
  ultimately show ?case using Cons.IH [of h1 m1] Cons.prems(3) s by simp
qed simp

section \<open>Properties\<close>

text \<open>
  C26: alias analysis keeps values: in every state in which each combinational node has the
  value that its assignments, one after another, leave it (and references read existing
  elements that fit their width), an expression has the same value after its references to
  aliases have been replaced with the aliases the first loop of \<^verbatim>\<open>aliasAnalysis\<close> collects, chains
  of aliases included.  References have the sign of what replaces them.
\<close>

theorem alias_replace_sound:
  assumes "comb_state E (nodes g) (set (all_members g))"
    and "fst (fold alias_step (all_members g) (Map.empty, nodes g)) = m"
    and "alias_typed m" "signs_match m (root t)"
  shows "eval E (root (replace m t)) = eval E (root t)"
proof -
  obtain h where "fold alias_step (all_members g) (Map.empty, nodes g) = (m, h)"
    using assms(2) by (metis prod.collapse)
  then have "alias_holds E m"
    using alias_fold_holds [OF assms(1), of "nodes g" Map.empty]
    by (simp add: same_but_status_def alias_holds_def)
  with assms(3,4) show ?thesis by (simp add: replace_def replace_root_eval)
qed

definition demo_alias :: graph where
  "demo_alias = demo_graph\<lparr>nodes := (\<lambda>n. (nodes demo_graph n)\<lparr>prev := (if n = 1 then {0} else {}),
     assignTree := (if n = 1 then [\<lparr>root = set_width 4 (new_leaf 0), lvalue = new_leaf 1\<rparr>] else [])\<rparr>)\<rparr>"

lemma demo_alias_map:
  "fst (fold alias_step (all_members demo_alias) (Map.empty, nodes demo_alias)) = [1 \<mapsto> set_width 4 (new_leaf 0)]"
  by (simp add: demo_alias_def demo_graph_defs all_members_def alias_step_def isAlias_def isArray_def set_width_def)

definition demo_alias_env :: env where
  "demo_alias_env = \<lparr>val = (\<lambda>n is. 5), mem = (\<lambda>m i. 0), firHeadTail = False\<rparr>"

theorem alias_replace_sound_witness:
  "eval demo_alias_env (root (replace [1 \<mapsto> set_width 4 (new_leaf 0)]
      \<lparr>root = ENode ((new_eattr OP_NOT)\<lparr>width := 4\<rparr>) [Some (set_width 4 (new_leaf 1))], lvalue = new_leaf 2\<rparr>))
    = Val 10"
proof -
  let ?t = "\<lparr>root = ENode ((new_eattr OP_NOT)\<lparr>width := 4\<rparr>) [Some (set_width 4 (new_leaf 1))],
    lvalue = new_leaf 2\<rparr>"
  have "comb_state demo_alias_env (nodes demo_alias) (set (all_members demo_alias))"
    by (simp add: comb_state_def all_members_def demo_alias_def demo_graph_defs isArray_def
        ref_fits_def val_after_def assign_to_def written_def demo_alias_env_def set_width_def wrap_def take_bit_eq_mod)
  moreover have "alias_typed [1 \<mapsto> set_width 4 (new_leaf 0)]"
    by (simp add: alias_typed_def children_match_def new_leaf_def set_width_def)
  moreover have "signs_match [1 \<mapsto> set_width 4 (new_leaf 0)] (root ?t)"
    by (simp add: new_leaf_def set_width_def new_eattr_def)
  ultimately have "eval demo_alias_env (root (replace [1 \<mapsto> set_width 4 (new_leaf 0)] ?t)) = eval demo_alias_env (root ?t)"
    by (intro alias_replace_sound [OF _ demo_alias_map])
  then show ?thesis
    by (simp add: eval_ENode apply_op_def apply_prim_def prim1_def of_opt_def new_leaf_def set_width_def
        new_eattr_def demo_alias_env_def keep_bits_def wrap_def take_bit_eq_mod)
qed

text \<open>
  The traversal of \<^verbatim>\<open>ExpTree::replace\<close> visits the child it has just detached and not its
  replacement: in an expression that reads element \<open>i\<close> of \<open>x\<close>, where \<open>x\<close> and \<open>i\<close> are aliases,
  only \<open>x\<close> is replaced, and the result still refers to \<open>i\<close>, which the pass removes.
\<close>

theorem replace_misses_index:
  "7 \<in> getRelyNodes (replace [6 \<mapsto> new_leaf 1, 7 \<mapsto> new_leaf 2]
      \<lparr>root = ENode (new_eattr OP_NOT)
         [Some (ENode ((new_eattr OP_EMPTY)\<lparr>nodePtr := Some 6\<rparr>)
                  [Some (ENode (new_eattr OP_INDEX) [Some (new_leaf 7)])])],
       lvalue = new_leaf 9\<rparr>)"
  by (simp add: getRelyNodes_def tree_rely_list_def replace_def replace_root_def alias_ref_def
      mergeSubTree_def set_width_def new_leaf_def new_eattr_def dup_attr_def)

end
