(* ===== verification/CommonExpr.thy ===== *)
theory CommonExpr
  imports Graph
begin

section \<open>Common expressions\<close>

text \<open>
  \<^verbatim>\<open>src/commonExpr.cpp\<close>: nodes whose trees hash alike and compare equal are merged.  The
  scratch fields \<^verbatim>\<open>exprKeyCache\<close> and \<^verbatim>\<open>realValue\<close> of the nodes and the two static maps are the
  fields of the record \<open>cse\<close>.  The hash only decides which nodes are compared; the theorems
  are about the comparison.
\<close>

text \<open>The number of an operation: its position in the enumeration.\<close>

definition op_list :: "OPType list" where
  "op_list =
     [OP_EMPTY, OP_MUX, OP_ADD, OP_SUB, OP_MUL, OP_DIV, OP_REM, OP_LT, OP_LEQ, OP_GT, OP_GEQ, OP_EQ,
      OP_NEQ, OP_DSHL, OP_DSHR, OP_AND, OP_OR, OP_XOR, OP_CAT, OP_ASUINT, OP_ASSINT, OP_ASCLOCK,
      OP_ASASYNCRESET, OP_CVT, OP_NEG, OP_NOT, OP_ANDR, OP_ORR, OP_XORR, OP_PAD, OP_SHL, OP_SHR,
      OP_HEAD, OP_TAIL, OP_BITS, OP_BITS_NOSHIFT, OP_INDEX_INT, OP_INDEX, OP_WHEN, OP_PRINTF,
      OP_ASSERT, OP_EXIT, OP_INT, OP_GROUP, OP_READ_MEM, OP_WRITE_MEM, OP_INFER_MEM, OP_INVALID,
      OP_RESET, OP_SEXT, OP_EXT_FUNC, OP_STMT_SEQ, OP_STMT_WHEN, OP_STMT_NODE]"

definition op_code :: "OPType \<Rightarrow> int" where
  "op_code op = int (length (takeWhile (\<lambda>x. x \<noteq> op) op_list))"

record cse =
  keyCache :: "nodeid \<Rightarrow> nat"
  realValue :: "nodeid \<rightharpoonup> nodeid"
  exprId :: "nat \<Rightarrow> nodeid list"
  uniqueNodes :: "nodeid \<rightharpoonup> nodeid list"
  key2Unique :: "nat \<Rightarrow> nodeid list"

definition enode_keyHash :: "(nodeid \<Rightarrow> nat) \<Rightarrow> enode \<Rightarrow> nat" where
  "enode_keyHash key e =
     (case e_node e of
        Some n \<Rightarrow> if key n \<noteq> 0 then key n else n
      | None \<Rightarrow> nat ((op_code (e_op e) * e_width e) mod 2 ^ 64))"

text \<open>The stack traversal of \<^verbatim>\<open>ExpTree::keyHash\<close>: the last child is taken first.\<close>

definition some_children :: "enode \<Rightarrow> enode list" where
  "some_children e = List.map_filter id (child e)"

fun enode_count :: "enode \<Rightarrow> nat" where
  "enode_count (ENode a cs) = Suc (sum_list (map (\<lambda>c. case c of None \<Rightarrow> 0 | Some e \<Rightarrow> enode_count e) cs))"

lemma some_children_count: "sum_list (map enode_count (some_children e)) < enode_count e"
proof -
  have "sum_list (map enode_count (List.map_filter id cs))
      = sum_list (map (\<lambda>c. case c of None \<Rightarrow> 0 | Some e \<Rightarrow> enode_count e) cs)" for cs
    by (induction cs) (auto split: option.splits)
  then show ?thesis by (cases e) (simp add: some_children_def)
qed

function hash_loop :: "(nodeid \<Rightarrow> nat) \<Rightarrow> enode list \<Rightarrow> nat \<Rightarrow> nat" where
  "hash_loop key [] ret = ret"
| "hash_loop key (e # s) ret =
     hash_loop key (rev (some_children e) @ s) ((ret * 123 + enode_keyHash key e) mod 2 ^ 64)"
  by pat_completeness auto
termination
  by (relation "measure (\<lambda>(key, s, ret). sum_list (map enode_count s))")
     (auto simp: rev_map [symmetric] some_children_count)

definition tree_keyHash :: "(nodeid \<Rightarrow> nat) \<Rightarrow> exptree \<Rightarrow> nat" where
  "tree_keyHash key t = hash_loop key [root t] 0"

definition node_keyHash :: "(nodeid \<Rightarrow> nat) \<Rightarrow> node \<Rightarrow> nat" where
  "node_keyHash key nd = foldl (\<lambda>ret t. (ret + tree_keyHash key t) mod 2 ^ 64) 0 (assignTree nd)"

subsection \<open>Comparison\<close>

definition checkENodeEq :: "(nodeid \<rightharpoonup> nodeid) \<Rightarrow> enode \<Rightarrow> enode \<Rightarrow> bool" where
  "checkENodeEq rv e1 e2 \<longleftrightarrow>
     e_op e1 = e_op e2 \<and> e_width e1 = e_width e2 \<and> e_sign e1 = e_sign e2
     \<and> length (child e1) = length (child e2)
     \<and> (e_op e1 = OP_INT \<longrightarrow> strVal (attr e1) = strVal (attr e2))
     \<and> (case (e_node e1, e_node e2) of
          (None, None) \<Rightarrow> True
        | (Some n1, Some n2) \<Rightarrow> n1 = n2 \<or> (rv n1 \<noteq> None \<and> rv n1 = rv n2)
        | _ \<Rightarrow> False)
     \<and> e_values e1 = e_values e2"

text \<open>\<^verbatim>\<open>checkTreeEq\<close>: the pairs of nodes at the same place compare equal.\<close>

fun checkTreeEq :: "(nodeid \<rightharpoonup> nodeid) \<Rightarrow> enode \<Rightarrow> enode \<Rightarrow> bool" where
  "checkTreeEq rv (ENode a1 cs1) (ENode a2 cs2) \<longleftrightarrow>
     checkENodeEq rv (ENode a1 cs1) (ENode a2 cs2)
     \<and> list_all2 (\<lambda>c1 c2. case c1 of
                     None \<Rightarrow> c2 = None
                   | Some e1 \<Rightarrow> (case c2 of None \<Rightarrow> False | Some e2 \<Rightarrow> checkTreeEq rv e1 e2))
         cs1 cs2"

definition checkNodeEq :: "(nodeid \<rightharpoonup> nodeid) \<Rightarrow> node \<Rightarrow> node \<Rightarrow> bool" where
  "checkNodeEq rv n1 n2 \<longleftrightarrow>
     length (assignTree n1) = length (assignTree n2)
     \<and> list_all2 (\<lambda>t1 t2. checkTreeEq rv (root t1) (root t2)) (assignTree n1) (assignTree n2)"

subsection \<open>Replacement\<close>

fun replace_nodes :: "(nodeid \<rightharpoonup> nodeid) \<Rightarrow> enode \<Rightarrow> enode" where
  "replace_nodes m (ENode a cs) =
     ENode (case nodePtr a of
              None \<Rightarrow> a
            | Some n \<Rightarrow> (case m n of None \<Rightarrow> a | Some k \<Rightarrow> a\<lparr>nodePtr := Some k\<rparr>))
       (map (map_option (replace_nodes m)) cs)"

definition replace_tree :: "(nodeid \<rightharpoonup> nodeid) \<Rightarrow> exptree \<Rightarrow> exptree" where
  "replace_tree m t = \<lparr>root = replace_nodes m (root t), lvalue = replace_nodes m (lvalue t)\<rparr>"

subsection \<open>The pass\<close>

definition MAX_COMMON_NEXT :: nat where "MAX_COMMON_NEXT = 5"

definition new_cse :: cse where
  "new_cse = \<lparr>keyCache = (\<lambda>_. 0), realValue = Map.empty, exprId = (\<lambda>_. []),
     uniqueNodes = Map.empty, key2Unique = (\<lambda>_. [])\<rparr>"

definition hash_node :: "graph \<Rightarrow> superid \<Rightarrow> nodeid \<Rightarrow> cse \<Rightarrow> cse" where
  "hash_node g s n c =
     (let nd = nodes g n in
      if superType (supers g s) \<noteq> SUPER_VALID then c\<lparr>keyCache := (keyCache c)(n := n)\<rparr>
      else if status nd \<noteq> VALID_NODE then c
      else let c1 = c\<lparr>keyCache := (keyCache c)(n := n)\<rparr> in
        if ntype nd \<noteq> NODE_OTHERS \<or> isArray nd \<or> prev nd = {} then c1
        else let key = node_keyHash (keyCache c1) nd
             in c1\<lparr>exprId := (exprId c1)(key := exprId c1 key @ [n]),
                   keyCache := (keyCache c1)(n := key)\<rparr>)"

definition hash_all :: "graph \<Rightarrow> cse \<Rightarrow> cse" where
  "hash_all g c = fold (\<lambda>s. fold (hash_node g s) (smember (supers g s))) (sortedSuper g) c"

definition try_match :: "heap \<Rightarrow> nodeid \<Rightarrow> nodeid \<Rightarrow> cse \<Rightarrow> cse" where
  "try_match h n u c =
     (case uniqueNodes c u of
        Some ns \<Rightarrow>
          if checkNodeEq (realValue c) (h n) (h u)
          then c\<lparr>uniqueNodes := (uniqueNodes c)(u \<mapsto> ns @ [n]), realValue := (realValue c)(n \<mapsto> u)\<rparr>
          else c
      | None \<Rightarrow> c)"

definition match_node :: "heap \<Rightarrow> nodeid \<Rightarrow> cse \<Rightarrow> cse" where
  "match_node h n c =
     (let key = keyCache c n in
      if length (exprId c key) \<le> 1
      then c\<lparr>realValue := (realValue c)(n \<mapsto> n), uniqueNodes := (uniqueNodes c)(n \<mapsto> [n])\<rparr>
      else let c1 = fold (try_match h n) (key2Unique c key) c in
        if realValue c1 n = None
        then c1\<lparr>realValue := (realValue c1)(n \<mapsto> n), uniqueNodes := (uniqueNodes c1)(n \<mapsto> [n]),
                key2Unique := (key2Unique c1)(key := key2Unique c1 key @ [n])\<rparr>
        else c1)"

definition merge_cond :: "heap \<Rightarrow> nodeid list \<Rightarrow> bool" where
  "merge_cond h ns \<longleftrightarrow>
     length ns \<ge> MAX_COMMON_NEXT \<or> nwidth (h (ns ! 0)) > BASIC_WIDTH
     \<or> (\<exists>n \<in> set ns. card (next (h n)) > 1)"

text \<open>The alias map: every node of a group that is worth merging points to its first node.\<close>

definition merge_map :: "heap \<Rightarrow> cse \<Rightarrow> nodeid list \<Rightarrow> nodeid \<rightharpoonup> nodeid" where
  "merge_map h c us =
     fold (\<lambda>u m. case uniqueNodes c u of
                   Some (k # ns) \<Rightarrow> if merge_cond h (k # ns) then fold (\<lambda>n m. m(n \<mapsto> k)) ns m else m
                 | _ \<Rightarrow> m) us Map.empty"

definition commonExpr :: "graph \<Rightarrow> graph abortable" where
  "commonExpr g =
     (let ms = all_members g;
          c = fold (match_node (nodes g)) ms (hash_all g new_cse);
          m = merge_map (nodes g) c ms;
          h = (\<lambda>n. if m n \<noteq> None then (nodes g n)\<lparr>status := DEAD_NODE\<rparr> else nodes g n);
          h' = (\<lambda>n. if n \<in> set ms \<and> status (h n) \<noteq> DEAD_NODE
                    then (h n)\<lparr>assignTree := map (replace_tree m) (assignTree (h n)),
                               resetTree := map_option (replace_tree m) (resetTree (h n))\<rparr>
                    else h n)
      in reconnectAll (removeNodesNoConnect DEAD_NODE (g\<lparr>nodes := h'\<rparr>)))"

section \<open>Equal trees have equal values\<close>

definition rv_holds :: "env \<Rightarrow> (nodeid \<rightharpoonup> nodeid) \<Rightarrow> bool" where
  "rv_holds E rv \<longleftrightarrow> (\<forall>a b u. rv a = Some u \<longrightarrow> rv b = Some u \<longrightarrow> val E a = val E b)"

fun no_mem_read :: "enode \<Rightarrow> bool" where
  "no_mem_read (ENode a cs) \<longleftrightarrow>
     (nodePtr a \<noteq> None \<or> opType a \<noteq> OP_READ_MEM) \<and> (\<forall>c \<in> set cs. \<forall>e \<in> set_option c. no_mem_read e)"

lemma apply_op_strVal:
  assumes "nodePtr a = None" "nodePtr b = None" "opType a = opType b" "evalues a = evalues b"
    "opType a = OP_INT \<longrightarrow> strVal a = strVal b" "opType a \<noteq> OP_READ_MEM"
  shows "apply_op E a os = apply_op E b os"
  using assms by (cases "opType a") (simp_all add: apply_op_def)

lemma checkTreeEq_eval:
  "rv_holds E rv \<Longrightarrow> checkTreeEq rv e1 e2 \<Longrightarrow> no_mem_read e1 \<Longrightarrow> operand_of E e1 = operand_of E e2"
proof (induction e1 arbitrary: e2)
  case (ENode a1 cs1)
  obtain a2 cs2 where e2: "e2 = ENode a2 cs2" by (cases e2)
  let ?os = "\<lambda>cs. map (map_option (operand_of E)) cs"
  let ?Q = "\<lambda>c1 c2. case c1 of None \<Rightarrow> c2 = None
                   | Some e1 \<Rightarrow> (case c2 of None \<Rightarrow> False | Some e2 \<Rightarrow> checkTreeEq rv e1 e2)"
  have eq: "checkENodeEq rv (ENode a1 cs1) (ENode a2 cs2)" and ch: "list_all2 ?Q cs1 cs2"
    using ENode.prems(2) by (simp_all add: e2)
  have step: "map_option (operand_of E) c1 = map_option (operand_of E) c2"
    if "c1 \<in> set cs1" "?Q c1 c2" for c1 c2
  proof (cases c1)
    case (Some x)
    with that(2) obtain y where y: "c2 = Some y" "checkTreeEq rv x y" by (auto split: option.splits)
    have "no_mem_read x" using ENode.prems(3) that(1) Some by auto
    from ENode.IH [OF that(1), of x, OF _ ENode.prems(1) y(2) this] Some y(1) show ?thesis by simp
  qed (use that in simp)
  have "list_all2 (\<lambda>c1 c2. map_option (operand_of E) c1 = map_option (operand_of E) c2) cs1 cs2"
    using ch by (rule list.rel_mono_strong) (rule step)
  then have os: "?os cs1 = ?os cs2" by (simp add: list_all2_conv_all_nth list_eq_iff_nth_eq)
  show ?case
  proof (cases "nodePtr a1")
    case None
    with eq have n2: "nodePtr a2 = None" by (auto simp: checkENodeEq_def split: option.splits)
    have "apply_op E a1 (?os cs2) = apply_op E a2 (?os cs2)"
      using eq None n2 ENode.prems(3) by (intro apply_op_strVal) (auto simp: checkENodeEq_def)
    moreover have "keep_bits a1 = keep_bits a2"
      using eq None n2 by (intro keep_bits_cong) (simp_all add: checkENodeEq_def)
    ultimately show ?thesis using eq by (simp add: e2 eval_ENode os checkENodeEq_def)
  next
    case (Some n1)
    with eq obtain n2 where n2: "nodePtr a2 = Some n2" "n1 = n2 \<or> rv n1 \<noteq> None \<and> rv n1 = rv n2"
      by (auto simp: checkENodeEq_def split: option.splits)
    then have "val E n1 = val E n2" using ENode.prems(1) unfolding rv_holds_def by (metis option.exhaust)
    then show ?thesis
      using eq by (simp add: e2 eval_ref [OF Some] eval_ref [OF n2(1)] os checkENodeEq_def
          cong: option.case_cong)
  qed
qed

section \<open>The matched nodes have equal values\<close>

text \<open>
  The value a combinational node takes from its assignments: the last one that gives a
  value; and the states in which a scalar node has that value.
\<close>

definition assigned :: "outcome list \<Rightarrow> int" where
  "assigned rs = foldl (\<lambda>v r. case r of Val x \<Rightarrow> x | _ \<Rightarrow> v) 0 rs"

definition solves :: "env \<Rightarrow> heap \<Rightarrow> nodeid \<Rightarrow> bool" where
  "solves E h n \<longleftrightarrow>
     val E n = (\<lambda>_. assigned (map (\<lambda>t. eval E (root t)) (assignTree (h n))))
     \<and> (\<forall>t \<in> set (assignTree (h n)). no_mem_read (root t))"

lemma checkNodeEq_val:
  assumes "rv_holds E rv" "checkNodeEq rv (h n) (h u)" "solves E h n" "solves E h u"
  shows "val E n = val E u"
proof -
  have "list_all2 (\<lambda>t1 t2. eval E (root t1) = eval E (root t2)) (assignTree (h n)) (assignTree (h u))"
  proof (rule list.rel_mono_strong)
    show "list_all2 (\<lambda>t1 t2. checkTreeEq rv (root t1) (root t2)) (assignTree (h n)) (assignTree (h u))"
      using assms(2) by (simp add: checkNodeEq_def)
    fix t1 t2 assume "t1 \<in> set (assignTree (h n))" "checkTreeEq rv (root t1) (root t2)"
    then show "eval E (root t1) = eval E (root t2)"
      using checkTreeEq_eval [OF assms(1)] assms(3) by (auto simp: solves_def)
  qed
  then have "map (\<lambda>t. eval E (root t)) (assignTree (h n)) = map (\<lambda>t. eval E (root t)) (assignTree (h u))"
    by (simp add: list_all2_conv_all_nth list_eq_iff_nth_eq)
  with assms(3,4) show ?thesis by (simp add: solves_def)
qed

text \<open>
  The invariant of the matching loop: every real value is a representative, its own real
  value, and the members of a group have the real value of the group.
\<close>

definition cse_inv :: "env \<Rightarrow> heap \<Rightarrow> nodeid set \<Rightarrow> cse \<Rightarrow> bool" where
  "cse_inv E h A c \<longleftrightarrow>
     (\<forall>n u. realValue c n = Some u \<longrightarrow> val E n = val E u)
     \<and> (\<forall>key. \<forall>u \<in> set (key2Unique c key). u \<in> A)
     \<and> (\<forall>u ns. uniqueNodes c u = Some ns \<longrightarrow> (\<forall>n \<in> set ns. val E n = val E u) \<and> ns \<noteq> [] \<and> hd ns = u)"

lemma try_match_inv:
  assumes inv: "cse_inv E h A c" and "n \<in> A" "u \<in> A" "\<forall>x \<in> A. solves E h x"
  shows "cse_inv E h A (try_match h n u c)"
proof (cases "uniqueNodes c u")
  case None
  then show ?thesis using inv by (simp add: try_match_def)
next
  case (Some ns)
  show ?thesis
  proof (cases "checkNodeEq (realValue c) (h n) (h u)")
    case True
    have "rv_holds E (realValue c)" using inv unfolding rv_holds_def cse_inv_def by metis
    then have v: "val E n = val E u" by (rule checkNodeEq_val [OF _ True]) (use assms in auto)
    then show ?thesis using inv Some True unfolding cse_inv_def try_match_def by auto
  qed (use inv Some in \<open>simp add: try_match_def\<close>)
qed

lemma try_match_same: "exprId (try_match h n u c) = exprId c" "keyCache (try_match h n u c) = keyCache c"
  "key2Unique (try_match h n u c) = key2Unique c"
  by (simp_all add: try_match_def split: option.splits)

lemma try_matches_same:
  "exprId (fold (try_match h n) us c) = exprId c" "keyCache (fold (try_match h n) us c) = keyCache c"
  "key2Unique (fold (try_match h n) us c) = key2Unique c"
  by (induction us arbitrary: c) (simp_all add: try_match_same)

lemma match_node_inv:
  assumes "cse_inv E h A c" "\<forall>x \<in> A. solves E h x" "length (exprId c (keyCache c n)) > 1 \<longrightarrow> n \<in> A"
  shows "cse_inv E h A (match_node h n c)
     \<and> exprId (match_node h n c) = exprId c \<and> keyCache (match_node h n c) = keyCache c"
proof (cases "length (exprId c (keyCache c n)) \<le> 1")
  case True
  then show ?thesis using assms(1) by (auto simp: match_node_def Let_def cse_inv_def)
next
  case False
  with assms(3) have n: "n \<in> A" by simp
  have f: "cse_inv E h A (fold (try_match h n) us c)" if "set us \<subseteq> A" "cse_inv E h A c" for us c
    using that by (induction us arbitrary: c) (simp_all add: try_match_inv [OF _ n _ assms(2)])
  have "cse_inv E h A (fold (try_match h n) (key2Unique c (keyCache c n)) c)"
    using assms(1) by (intro f) (auto simp: cse_inv_def)
  with False n show ?thesis
    by (auto simp: match_node_def Let_def cse_inv_def try_matches_same)
qed

lemma match_all_inv:
  "cse_inv E h A c \<Longrightarrow> \<forall>x \<in> A. solves E h x
   \<Longrightarrow> \<forall>n \<in> set ns. length (exprId c (keyCache c n)) > 1 \<longrightarrow> n \<in> A
   \<Longrightarrow> cse_inv E h A (fold (match_node h) ns c)"
proof (induction ns arbitrary: c)
  case (Cons n ns)
  have "cse_inv E h A (match_node h n c) \<and> exprId (match_node h n c) = exprId c \<and> keyCache (match_node h n c) = keyCache c"
    using Cons.prems by (intro match_node_inv) auto
  with Cons show ?case by simp
qed simp

lemma merge_map_val:
  assumes "cse_inv E h A c"
  shows "merge_map h' c us n = Some k \<Longrightarrow> val E n = val E k"
proof -
  let ?f = "\<lambda>u m. case uniqueNodes c u of
                   Some (k # ns) \<Rightarrow> if merge_cond h' (k # ns) then fold (\<lambda>n m. m(n \<mapsto> k)) ns m else m
                 | _ \<Rightarrow> m"
  have g: "(fold (\<lambda>n m. m(n \<mapsto> k)) ns m) x = (if x \<in> set ns then Some k else m x)" for ns m x and k :: nat
    by (induction ns arbitrary: m) auto
  have step: "\<forall>x y. ?f u m x = Some y \<longrightarrow> val E x = val E y" if "\<forall>x y. m x = Some y \<longrightarrow> val E x = val E y" for u m
  proof (cases "uniqueNodes c u")
    case (Some ns)
    then show ?thesis
      using assms that by (cases ns) (auto simp: cse_inv_def g)
  qed (use that in simp)
  have "\<forall>x y. fold ?f us m x = Some y \<longrightarrow> val E x = val E y" if "\<forall>x y. m x = Some y \<longrightarrow> val E x = val E y" for m
    using that
  proof (induction us arbitrary: m)
    case (Cons u us)
    from Cons.IH [OF step [OF Cons.prems]] show ?case by simp
  qed simp
  from this [of Map.empty] show "merge_map h' c us n = Some k \<Longrightarrow> val E n = val E k"
    unfolding merge_map_def by simp
qed

lemma replace_nodes_eval:
  assumes "\<And>n k. m n = Some k \<Longrightarrow> val E n = val E k"
  shows "operand_of E (replace_nodes m e) = operand_of E e"
proof (induction e)
  case (ENode a cs)
  let ?a = "case nodePtr a of None \<Rightarrow> a
            | Some n \<Rightarrow> (case m n of None \<Rightarrow> a | Some k \<Rightarrow> a\<lparr>nodePtr := Some k\<rparr>)"
  have os: "map (map_option (operand_of E)) (map (map_option (replace_nodes m)) cs) = map (map_option (operand_of E)) cs"
    using ENode.IH by (auto simp: option.map_comp comp_def intro!: map_cong option.map_cong)
  have attrs: "width ?a = width a" "sign ?a = sign a" by (simp_all split: option.splits)
  show ?case
  proof (cases "\<exists>n k. nodePtr a = Some n \<and> m n = Some k")
    case False
    then have "?a = a" by (auto split: option.splits)
    then show ?thesis by (simp add: eval_ENode os del: map_map)
  next
    case True
    then obtain n k where nk: "nodePtr a = Some n" "m n = Some k" by blast
    then have k: "nodePtr ?a = Some k" by simp
    show ?thesis
      using assms [OF nk(2)] os attrs
      by (simp only: replace_nodes.simps eval_ref [OF nk(1)] eval_ref [OF k] enode.sel)
  qed
qed

section \<open>Properties\<close>

text \<open>
  C13: merging common expressions keeps values: in every state in which the compared nodes
  have the values of their assignments, every expression has the same value after the nodes
  that \<^verbatim>\<open>commonExpr\<close> merges have been replaced by their representatives.  The trees of the compared
  nodes contain no memory reads (part of \<open>solves\<close>): the comparison does not tell memories apart.
\<close>

theorem commonExpr_sound:
  assumes "\<forall>n \<in> A. solves E (nodes g) n"
    and "\<forall>n \<in> set (all_members g).
           length (exprId (hash_all g new_cse) (keyCache (hash_all g new_cse) n)) > 1 \<longrightarrow> n \<in> A"
  shows "eval E (root (replace_tree
            (merge_map (nodes g) (fold (match_node (nodes g)) (all_members g) (hash_all g new_cse)) us) t))
       = eval E (root t)"
proof -
  have h: "realValue (hash_node g s n c) = realValue c \<and> uniqueNodes (hash_node g s n c) = uniqueNodes c
      \<and> key2Unique (hash_node g s n c) = key2Unique c" for s n c
    by (simp add: hash_node_def Let_def)
  have h1: "realValue (fold (hash_node g s) ns c) = realValue c \<and> uniqueNodes (fold (hash_node g s) ns c) = uniqueNodes c
      \<and> key2Unique (fold (hash_node g s) ns c) = key2Unique c" for s ns c
    by (induction ns arbitrary: c) (simp_all add: h)
  have h2: "realValue (fold (\<lambda>s. fold (hash_node g s) (smember (supers g s))) ss c) = realValue c
      \<and> uniqueNodes (fold (\<lambda>s. fold (hash_node g s) (smember (supers g s))) ss c) = uniqueNodes c
      \<and> key2Unique (fold (\<lambda>s. fold (hash_node g s) (smember (supers g s))) ss c) = key2Unique c" for ss c
    by (induction ss arbitrary: c) (simp_all add: h1)
  have "cse_inv E (nodes g) A (hash_all g new_cse)"
    using h2 [of "sortedSuper g" new_cse] unfolding cse_inv_def hash_all_def by (simp add: new_cse_def)
  from match_all_inv [OF this assms(1,2)] have
    inv: "cse_inv E (nodes g) A (fold (match_node (nodes g)) (all_members g) (hash_all g new_cse))" .
  show ?thesis
    using replace_nodes_eval [of _ E "root t", OF merge_map_val [OF inv]] by (simp add: replace_tree_def)
qed

definition demo_cse :: graph where
  "demo_cse = demo_graph\<lparr>sortedSuper := [1, 2],
     nodes := (\<lambda>n. (nodes demo_graph n)\<lparr>prev := {0},
       assignTree := [\<lparr>root = ENode ((new_eattr OP_NOT)\<lparr>width := 4\<rparr>)
                               [Some (ENode ((new_eattr OP_EMPTY)\<lparr>nodePtr := Some 0, width := 4\<rparr>) [])],
                      lvalue = new_leaf n\<rparr>]\<rparr>)\<rparr>"

definition demo_cse_env :: env where
  "demo_cse_env = \<lparr>val = (\<lambda>n is. if n = 0 then 5 else 10), mem = (\<lambda>m i. 0), firHeadTail = False\<rparr>"

theorem commonExpr_sound_witness:
  "eval demo_cse_env (root (replace_tree (merge_map (nodes demo_cse)
      (fold (match_node (nodes demo_cse)) (all_members demo_cse) (hash_all demo_cse new_cse)) [1])
      \<lparr>root = ENode ((new_eattr OP_EMPTY)\<lparr>nodePtr := Some 2, width := 4\<rparr>) [], lvalue = new_leaf 3\<rparr>)) = Val 10"
proof -
  have e: "eval demo_cse_env (ENode ((new_eattr OP_EMPTY)\<lparr>nodePtr := Some n, width := 4\<rparr>) [])
      = Val (if n = 0 then 5 else 10)" for n
    by (simp add: eval_ref [of _ n] new_eattr_def demo_cse_env_def wrap_def take_bit_eq_mod)
  have "solves demo_cse_env (nodes demo_cse) n" if "n \<in> {1, 2}" for n
  proof -
    have "eval demo_cse_env (ENode ((new_eattr OP_NOT)\<lparr>width := 4\<rparr>)
        [Some (ENode ((new_eattr OP_EMPTY)\<lparr>nodePtr := Some 0, width := 4\<rparr>) [])]) = Val 10"
      by (simp add: eval_ENode apply_op_def apply_prim_def prim1_def of_opt_def new_eattr_def keep_bits_def
          wrap_def take_bit_eq_mod demo_cse_env_def)
    then show ?thesis using that
      by (auto simp: solves_def demo_cse_def assigned_def demo_cse_env_def fun_eq_iff new_eattr_def)
  qed
  moreover have "set (all_members demo_cse) \<subseteq> {1, 2}"
    by (simp add: all_members_def demo_cse_def demo_graph_defs)
  ultimately have "eval demo_cse_env (root (replace_tree (merge_map (nodes demo_cse)
      (fold (match_node (nodes demo_cse)) (all_members demo_cse) (hash_all demo_cse new_cse)) [1]) t))
      = eval demo_cse_env (root t)" for t
    by (intro commonExpr_sound [of "{1, 2}"]) auto
  then show ?thesis using e [of 2] by simp
qed

text \<open>A read of memory \<open>m\<close> at the address held by node \<open>n\<close>.\<close>

definition read_mem :: "nodeid \<Rightarrow> nodeid \<Rightarrow> enode" where
  "read_mem m n = ENode ((new_eattr OP_READ_MEM)\<lparr>memoryNode := Some m, width := 1\<rparr>) [Some (new_leaf n)]"

text \<open>
  C35: the comparison does not look at \<^verbatim>\<open>memoryNode\<close>: for any two memories, reads of them at the
  same address compare equal, with no node replaced before; and there is a state in which
  reads of different memories at that address have different values.
\<close>

theorem checkTreeEq_ignores_memory:
  "checkTreeEq Map.empty (read_mem m1 n) (read_mem m2 n)
   \<and> (\<exists>E. eval E (read_mem 1 n) = Val 1 \<and> eval E (read_mem 2 n) = Val 0)"
proof -
  let ?E = "\<lparr>val = (\<lambda>n is. 0), mem = (\<lambda>m i. if m = 1 then 1 else 0), firHeadTail = False\<rparr>"
  have "eval ?E (read_mem m n) = Val (if m = 1 then 1 else 0)" for m
    by (simp add: read_mem_def eval_ENode apply_op_def new_eattr_def new_leaf_def keep_bits_def wrap_def)
  from this [of 1] this [of 2] have "eval ?E (read_mem 1 n) = Val 1 \<and> eval ?E (read_mem 2 n) = Val 0" by simp
  moreover have "checkTreeEq Map.empty (read_mem m1 n) (read_mem m2 n)"
    by (simp add: read_mem_def checkENodeEq_def new_eattr_def new_leaf_def)
  ultimately show ?thesis by blast
qed

end
