(* ===== verification/ConstTree.thy ===== *)
theory ConstTree
  imports Node
begin

section \<open>Constant folding of expression trees\<close>

text \<open>
  \<^verbatim>\<open>include/valInfo.h\<close> and the expression half of \<^verbatim>\<open>src/constantNode.cpp\<close>: what is known of the
  value of an expression, and \<^verbatim>\<open>ENode::computeConstant\<close> with its \<^verbatim>\<open>cons...\<close> functions.

  A \<^verbatim>\<open>valInfo\<close> is a value here; the fields that only serve the text of the emitted program
  (\<^verbatim>\<open>valStr\<close>, \<^verbatim>\<open>opNum\<close>, \<^verbatim>\<open>typeWidth\<close>, \<^verbatim>\<open>consLength\<close>, \<^verbatim>\<open>arrayRefLen\<close>) and \<^verbatim>\<open>mask\<close>, a temporary, are left
  out.  The map \<^verbatim>\<open>consEMap\<close> from expression nodes to infos is the tree \<open>ctree\<close> of the infos of
  one expression, in its shape; a subtree that has no entry has no node there.

  A reference to a graph node reads \<^verbatim>\<open>consMap\<close>.  The analysis enters every node of the graph
  there before it computes anything, so that \<^verbatim>\<open>Node::computeConstant\<close> returns the entry; a node
  without one, which the recursion of the source could only meet in a combinational loop or
  outside the graph, aborts.  \<^verbatim>\<open>consInt\<close> also sets \<^verbatim>\<open>sign\<close> on the literal's node, which nothing
  reads before \<^verbatim>\<open>removeConstant\<close> overwrites it; the model leaves the tree unchanged.
\<close>

record vinfo =
  vstatus :: valStatus
  consVal :: int
  vwidth :: int
  vsign :: bool
  vbeg :: int
  vend :: int
  sameConstant :: bool
  assignmentCons :: int
  directUpdate :: bool

datatype valInfo = VInfo (vattr: vinfo) (memberInfo: "valInfo option list")

definition new_vinfo :: "int \<Rightarrow> bool \<Rightarrow> vinfo" where
  "new_vinfo w s = \<lparr>vstatus = VAL_VALID, consVal = 0, vwidth = w, vsign = s, vbeg = -1, vend = -1,
     sameConstant = False, assignmentCons = 0, directUpdate = True\<rparr>"

definition new_valInfo :: "int \<Rightarrow> bool \<Rightarrow> valInfo" where
  "new_valInfo w s = VInfo (new_vinfo w s) []"

abbreviation v_status :: "valInfo \<Rightarrow> valStatus" where "v_status v \<equiv> vstatus (vattr v)"
abbreviation v_cons :: "valInfo \<Rightarrow> int" where "v_cons v \<equiv> consVal (vattr v)"
abbreviation v_width :: "valInfo \<Rightarrow> int" where "v_width v \<equiv> vwidth (vattr v)"
abbreviation v_same :: "valInfo \<Rightarrow> bool" where "v_same v \<equiv> sameConstant (vattr v)"
abbreviation v_assign :: "valInfo \<Rightarrow> int" where "v_assign v \<equiv> assignmentCons (vattr v)"

fun map_vattr :: "(vinfo \<Rightarrow> vinfo) \<Rightarrow> valInfo \<Rightarrow> valInfo" where
  "map_vattr f (VInfo a ms) = VInfo (f a) ms"

definition is_const :: "valInfo \<Rightarrow> bool" where
  "is_const v \<longleftrightarrow> v_status v = VAL_CONSTANT"

text \<open>\<^verbatim>\<open>setConsStr\<close>, \<^verbatim>\<open>updateConsVal\<close>, \<^verbatim>\<open>setConstantByStr\<close>, \<^verbatim>\<open>getMemberInfo\<close> and \<^verbatim>\<open>dup\<close>.\<close>

definition setConsStr :: "valInfo \<Rightarrow> valInfo" where
  "setConsStr = map_vattr (\<lambda>a. a\<lparr>vstatus := VAL_CONSTANT, assignmentCons := consVal a, sameConstant := True\<rparr>)"

definition masked_cons :: "gmp \<Rightarrow> vinfo \<Rightarrow> int" where
  "masked_cons G a =
     (let c = mpz_and G (consVal a) (ones_mask G (nat (vwidth a)))
      in if vsign a then s_asSInt G c (nat (vwidth a)) else c)"

definition updateConsVal :: "gmp \<Rightarrow> valInfo \<Rightarrow> valInfo" where
  "updateConsVal G v = setConsStr (map_vattr (\<lambda>a. a\<lparr>consVal := masked_cons G a\<rparr>) v)"

definition set_cons :: "int \<Rightarrow> valInfo \<Rightarrow> valInfo" where
  "set_cons c = map_vattr (\<lambda>a. a\<lparr>consVal := c\<rparr>)"

definition setConstantByStr :: "gmp \<Rightarrow> string \<Rightarrow> nat \<Rightarrow> valInfo \<Rightarrow> valInfo" where
  "setConstantByStr G str base v = updateConsVal G (set_cons (mpz_set_str G str base) v)"

definition getMemberInfo :: "valInfo \<Rightarrow> int \<Rightarrow> valInfo option" where
  "getMemberInfo v i =
     (if 0 \<le> i \<and> nat i < length (memberInfo v) then memberInfo v ! nat i else None)"

definition dup_plain :: "valInfo \<Rightarrow> valInfo" where
  "dup_plain v = VInfo ((vattr v)\<lparr>vbeg := -1, vend := -1\<rparr>) []"

definition dup_info :: "int \<Rightarrow> int \<Rightarrow> valInfo \<Rightarrow> valInfo" where
  "dup_info b e v = VInfo ((vattr v)\<lparr>vbeg := -1, vend := -1\<rparr>)
     (map (\<lambda>i. map_option dup_plain (getMemberInfo v i)) [b..e])"

section \<open>The operations\<close>

text \<open>
  The operands of an operation: the fields of the child (\<^verbatim>\<open>Child\<close>) and its info (\<^verbatim>\<open>ChildCons\<close>).
  An operation that reads a missing child dereferences a null pointer; the model reads all
  the operands first.
\<close>

type_synonym operands = "(eattr \<times> valInfo) option list"

definition operand :: "operands \<Rightarrow> nat \<Rightarrow> (eattr \<times> valInfo) abortable" where
  "operand os i = (if i < length os then os ! i else None)"

definition new_info :: "eattr \<Rightarrow> valInfo" where
  "new_info a = new_valInfo (width a) (sign a)"

definition empty_info :: valInfo where
  "empty_info = map_vattr (\<lambda>v. v\<lparr>vstatus := VAL_EMPTY\<rparr>) (new_valInfo 0 False)"

definition const_info :: "gmp \<Rightarrow> eattr \<Rightarrow> int \<Rightarrow> valInfo" where
  "const_info G a c = updateConsVal G (set_cons c (new_info a))"

definition zero_info :: "gmp \<Rightarrow> eattr \<Rightarrow> valInfo" where
  "zero_info G a = setConstantByStr G ''0'' 16 (new_info a)"

text \<open>The common shape: fold when every operand is constant, else try a special case.\<close>

definition fold1 :: "gmp \<Rightarrow> eattr \<Rightarrow> operands \<Rightarrow> (valInfo \<Rightarrow> int abortable)
    \<Rightarrow> (eattr \<times> valInfo \<Rightarrow> bool) \<Rightarrow> valInfo abortable" where
  "fold1 G a os f zero =
     do { x \<leftarrow> operand os 0;
          if is_const (snd x) then map_option (const_info G a) (f (snd x))
          else Some (if zero x then zero_info G a else new_info a) }"

definition fold2 :: "gmp \<Rightarrow> eattr \<Rightarrow> operands \<Rightarrow> (valInfo \<Rightarrow> valInfo \<Rightarrow> int abortable)
    \<Rightarrow> (eattr \<times> valInfo \<Rightarrow> eattr \<times> valInfo \<Rightarrow> bool) \<Rightarrow> valInfo abortable" where
  "fold2 G a os f zero =
     do { x \<leftarrow> operand os 0;
          y \<leftarrow> operand os 1;
          if is_const (snd x) \<and> is_const (snd y) then map_option (const_info G a) (f (snd x) (snd y))
          else Some (if zero x y then zero_info G a else new_info a) }"

definition nowhere1 :: "eattr \<times> valInfo \<Rightarrow> bool" where "nowhere1 x = False"
definition nowhere2 :: "eattr \<times> valInfo \<Rightarrow> eattr \<times> valInfo \<Rightarrow> bool" where "nowhere2 x y = False"

abbreviation bits_of :: "valInfo \<Rightarrow> nat" where "bits_of v \<equiv> nat (v_width v)"

text \<open>\<^verbatim>\<open>if (sign) TODO();\<close> and \<^verbatim>\<open>if (!sign) TODO();\<close> abort.\<close>

definition unsigned_only :: "eattr \<Rightarrow> int \<Rightarrow> int abortable" where
  "unsigned_only a v = (if sign a then None else Some v)"

definition signed_only :: "eattr \<Rightarrow> int \<Rightarrow> int abortable" where
  "signed_only a v = (if sign a then Some v else None)"

definition mpzOutOfBound :: "gmp \<Rightarrow> int \<Rightarrow> int \<Rightarrow> bool" where
  "mpzOutOfBound G v w \<longleftrightarrow> 0 < mpz_cmp G v (ones_mask G (nat w))"

definition const_zero :: "gmp \<Rightarrow> valInfo \<Rightarrow> bool" where
  "const_zero G v \<longleftrightarrow> is_const v \<and> mpz_cmp G (v_cons v) 0 = 0"

definition consMux :: "gmp \<Rightarrow> eattr \<Rightarrow> operands \<Rightarrow> valInfo abortable" where
  "consMux G a os =
     do { (_, c) \<leftarrow> operand os 0; (_, t) \<leftarrow> operand os 1; (_, f) \<leftarrow> operand os 2;
          Some (if is_const c then (if mpz_cmp G (v_cons c) 0 = 0 then f else t)
                else if is_const t \<and> is_const f \<and> mpz_cmp G (v_cons t) (v_cons f) = 0 then t
                else new_info a) }"

text \<open>\<^verbatim>\<open>consWhen\<close>: a missing branch leaves the node as it is.\<close>

definition branch :: "operands \<Rightarrow> nat \<Rightarrow> valInfo option abortable" where
  "branch os i = (if i < length os then Some (map_option snd (os ! i)) else None)"

definition branch_info :: "valInfo option \<Rightarrow> valInfo" where
  "branch_info b = (case b of None \<Rightarrow> empty_info | Some v \<Rightarrow> v)"

definition branch_empty :: "valInfo option \<Rightarrow> bool" where
  "branch_empty b = (case b of None \<Rightarrow> True | Some v \<Rightarrow> v_status v = VAL_EMPTY)"

definition branch_status :: "valInfo option \<Rightarrow> valStatus \<Rightarrow> bool" where
  "branch_status b st = (case b of None \<Rightarrow> False | Some v \<Rightarrow> v_status v = st)"

definition with_same :: "int \<Rightarrow> valInfo \<Rightarrow> valInfo" where
  "with_same c = map_vattr (\<lambda>v. v\<lparr>sameConstant := True, assignmentCons := c\<rparr>)"

definition when_members :: "eattr \<Rightarrow> valInfo \<Rightarrow> valInfo option list" where
  "when_members a v =
     (if vbeg (vattr v) \<noteq> vend (vattr v)
      then map (\<lambda>i. case getMemberInfo v i of
                      Some m \<Rightarrow> if is_const m then Some (with_same (v_cons m) (new_info a)) else None
                    | None \<Rightarrow> None) [vbeg (vattr v)..vend (vattr v)]
      else [])"

definition when_same :: "eattr \<Rightarrow> valInfo \<Rightarrow> valInfo" where
  "when_same a v = (if v_same v then with_same (v_assign v) (new_info a) else new_info a)"

definition add_members :: "valInfo option list \<Rightarrow> valInfo \<Rightarrow> valInfo" where
  "add_members ms v = VInfo (vattr v) (memberInfo v @ ms)"

definition when_rest :: "gmp \<Rightarrow> eattr \<Rightarrow> valInfo option \<Rightarrow> valInfo option \<Rightarrow> valInfo" where
  "when_rest G a t f =
     (if branch_empty t \<and> branch_empty f then map_vattr (\<lambda>v. v\<lparr>vstatus := VAL_EMPTY\<rparr>) (new_info a)
      else case (t, f) of
             (_, Some fv) \<Rightarrow>
               if branch_empty t then add_members (when_members a fv) (when_same a fv)
               else (case t of
                       None \<Rightarrow> new_info a
                     | Some tv \<Rightarrow>
                         if branch_empty f then when_same a tv
                         else if v_same tv \<and> v_same fv \<and> mpz_cmp G (v_assign tv) (v_assign fv) = 0
                         then with_same (v_assign tv) (new_info a) else new_info a)
           | (Some tv, None) \<Rightarrow> when_same a tv
           | (None, None) \<Rightarrow> new_info a)"

definition consWhen :: "gmp \<Rightarrow> NodeType \<Rightarrow> eattr \<Rightarrow> operands \<Rightarrow> valInfo abortable" where
  "consWhen G ty a os =
     do { (_, c) \<leftarrow> operand os 0; t \<leftarrow> branch os 1; f \<leftarrow> branch os 2;
          Some (if is_const c then (if mpz_cmp G (v_cons c) 0 = 0 then branch_info f else branch_info t)
                else if branch_status t VAL_CONSTANT \<and> branch_status f VAL_CONSTANT
                        \<and> mpz_cmp G (v_cons (branch_info t)) (v_cons (branch_info f)) = 0 then branch_info t
                else if branch_status t VAL_INVALID \<and> ty = NODE_OTHERS then branch_info f
                else if branch_status f VAL_INVALID \<and> ty = NODE_OTHERS then branch_info t
                else when_rest G a t f) }"

text \<open>\<^verbatim>\<open>consGroup\<close>: without children the loop finds no difference, and the group counts as 0.\<close>

definition same_consts :: "gmp \<Rightarrow> valInfo list \<Rightarrow> int option" where
  "same_consts G vs =
     (case vs of
        [] \<Rightarrow> Some 0
      | v # _ \<Rightarrow> if (\<forall>x \<in> set vs. is_const x \<and> mpz_cmp G (v_cons v) (v_cons x) = 0)
                 then Some (v_cons v) else None)"

definition consGroup :: "gmp \<Rightarrow> eattr \<Rightarrow> operands \<Rightarrow> valInfo abortable" where
  "consGroup G a os =
     do { vs \<leftarrow> those (map (map_option snd) os);
          Some (add_members (map Some vs)
                  (case same_consts G vs of Some c \<Rightarrow> const_info G a c | None \<Rightarrow> new_info a)) }"

definition consAdd :: "gmp \<Rightarrow> eattr \<Rightarrow> operands \<Rightarrow> valInfo abortable" where
  "consAdd G a os = fold2 G a os
     (\<lambda>x y. Some (us_add G (v_cons x) (bits_of x) (v_cons y) (bits_of y))) nowhere2"

definition consSub :: "gmp \<Rightarrow> eattr \<Rightarrow> operands \<Rightarrow> valInfo abortable" where
  "consSub G a os = fold2 G a os (\<lambda>x y. Some (us_sub G (v_cons x) (v_cons y) (nat (width a)))) nowhere2"

definition consMul :: "gmp \<Rightarrow> eattr \<Rightarrow> operands \<Rightarrow> valInfo abortable" where
  "consMul G a os = fold2 G a os
     (\<lambda>x y. Some (us_mul G (v_cons x) (bits_of x) (v_cons y) (bits_of y))) nowhere2"

text \<open>\<^verbatim>\<open>us_div\<close> and \<^verbatim>\<open>us_rem\<close> leave the fresh \<^verbatim>\<open>consVal\<close>, 0, when the divisor is 0.\<close>

definition consDIv :: "gmp \<Rightarrow> eattr \<Rightarrow> operands \<Rightarrow> valInfo abortable" where
  "consDIv G a os = fold2 G a os
     (\<lambda>x y. Some (us_div G 0 (v_cons x) (bits_of x) (v_cons y) (bits_of y))) nowhere2"

definition consRem :: "gmp \<Rightarrow> eattr \<Rightarrow> operands \<Rightarrow> valInfo abortable" where
  "consRem G a os = fold2 G a os
     (\<lambda>x y. Some (us_rem G 0 (v_cons x) (bits_of x) (v_cons y) (bits_of y))) nowhere2"

definition consLt :: "gmp \<Rightarrow> eattr \<Rightarrow> operands \<Rightarrow> valInfo abortable" where
  "consLt G a os = fold2 G a os
     (\<lambda>x y. Some (us_lt G (v_cons x) (bits_of x) (v_cons y) (bits_of y)))
     (\<lambda>x y. \<not> sign (fst x) \<and> const_zero G (snd y))"

definition consLeq :: "gmp \<Rightarrow> eattr \<Rightarrow> operands \<Rightarrow> valInfo abortable" where
  "consLeq G a os = fold2 G a os
     (\<lambda>x y. Some (us_leq G (v_cons x) (bits_of x) (v_cons y) (bits_of y))) nowhere2"

definition consGt :: "gmp \<Rightarrow> eattr \<Rightarrow> operands \<Rightarrow> valInfo abortable" where
  "consGt G a os = fold2 G a os
     (\<lambda>x y. Some (us_gt G (v_cons x) (bits_of x) (v_cons y) (bits_of y))) nowhere2"

definition consGeq :: "gmp \<Rightarrow> eattr \<Rightarrow> operands \<Rightarrow> valInfo abortable" where
  "consGeq G a os = fold2 G a os
     (\<lambda>x y. Some (us_geq G (v_cons x) (bits_of x) (v_cons y) (bits_of y))) nowhere2"

definition consEq :: "gmp \<Rightarrow> eattr \<Rightarrow> operands \<Rightarrow> valInfo abortable" where
  "consEq G a os = fold2 G a os
     (\<lambda>x y. Some (us_eq G (v_cons x) (bits_of x) (v_cons y) (bits_of y)))
     (\<lambda>x y. is_const (snd x) \<and> mpzOutOfBound G (v_cons (snd x)) (width (fst y))
          \<or> is_const (snd y) \<and> mpzOutOfBound G (v_cons (snd y)) (width (fst x)))"

definition consNeq :: "gmp \<Rightarrow> eattr \<Rightarrow> operands \<Rightarrow> valInfo abortable" where
  "consNeq G a os = fold2 G a os
     (\<lambda>x y. Some (us_neq G (v_cons x) (bits_of x) (v_cons y) (bits_of y))) nowhere2"

definition consDshl :: "gmp \<Rightarrow> eattr \<Rightarrow> operands \<Rightarrow> valInfo abortable" where
  "consDshl G a os = fold2 G a os
     (\<lambda>x y. unsigned_only a (u_dshl G (v_cons x) (bits_of x) (v_cons y) (bits_of y))) nowhere2"

definition consDshr :: "gmp \<Rightarrow> eattr \<Rightarrow> operands \<Rightarrow> valInfo abortable" where
  "consDshr G a os = fold2 G a os
     (\<lambda>x y. Some ((if sign a then s_dshr else u_dshr) G (v_cons x) (bits_of x) (v_cons y) (bits_of y)))
     nowhere2"

definition consAnd :: "gmp \<Rightarrow> eattr \<Rightarrow> operands \<Rightarrow> valInfo abortable" where
  "consAnd G a os = fold2 G a os
     (\<lambda>x y. unsigned_only a (u_and G (v_cons x) (bits_of x) (v_cons y) (bits_of y)))
     (\<lambda>x y. const_zero G (snd x) \<or> const_zero G (snd y))"

definition const_mask :: "gmp \<Rightarrow> eattr \<Rightarrow> valInfo \<Rightarrow> bool" where
  "const_mask G a v \<longleftrightarrow> is_const v \<and> mpz_cmp G (v_cons v) (ones_mask G (nat (width a))) = 0"

definition consOr :: "gmp \<Rightarrow> eattr \<Rightarrow> operands \<Rightarrow> valInfo abortable" where
  "consOr G a os =
     do { (_, x) \<leftarrow> operand os 0; (_, y) \<leftarrow> operand os 1;
          if is_const x \<and> is_const y
          then map_option (const_info G a)
                 (unsigned_only a (u_ior G (v_cons x) (bits_of x) (v_cons y) (bits_of y)))
          else Some (if const_mask G a x \<or> const_mask G a y
                     then const_info G a (ones_mask G (nat (width a))) else new_info a) }"

definition consXor :: "gmp \<Rightarrow> eattr \<Rightarrow> operands \<Rightarrow> valInfo abortable" where
  "consXor G a os = fold2 G a os
     (\<lambda>x y. unsigned_only a (u_xor G (v_cons x) (bits_of x) (v_cons y) (bits_of y))) nowhere2"

definition consCat :: "gmp \<Rightarrow> eattr \<Rightarrow> operands \<Rightarrow> valInfo abortable" where
  "consCat G a os = fold2 G a os
     (\<lambda>x y. do { v \<leftarrow> u_cat G (v_cons x) (bits_of x) (v_cons y) (bits_of y); unsigned_only a v }) nowhere2"

definition consAsUInt :: "gmp \<Rightarrow> eattr \<Rightarrow> operands \<Rightarrow> valInfo abortable" where
  "consAsUInt G a os = fold1 G a os
     (\<lambda>x. unsigned_only a (u_asUInt G (v_cons x) (bits_of x))) nowhere1"

definition consAsSInt :: "gmp \<Rightarrow> eattr \<Rightarrow> operands \<Rightarrow> valInfo abortable" where
  "consAsSInt G a os = fold1 G a os
     (\<lambda>x. signed_only a (s_asSInt G (v_cons x) (bits_of x))) nowhere1"

definition consAsClock :: "gmp \<Rightarrow> eattr \<Rightarrow> operands \<Rightarrow> valInfo abortable" where
  "consAsClock G a os = fold1 G a os
     (\<lambda>x. unsigned_only a (u_asClock G (v_cons x) (bits_of x))) nowhere1"

definition consAsAsyncReset :: "gmp \<Rightarrow> eattr \<Rightarrow> operands \<Rightarrow> valInfo abortable" where
  "consAsAsyncReset G a os = fold1 G a os
     (\<lambda>x. unsigned_only a (u_asAsyncReset G (v_cons x) (bits_of x))) nowhere1"

definition consCvt :: "gmp \<Rightarrow> eattr \<Rightarrow> operands \<Rightarrow> valInfo abortable" where
  "consCvt G a os = fold1 G a os
     (\<lambda>x. Some ((if sign a then s_cvt else u_cvt) G (v_cons x) (bits_of x))) nowhere1"

definition consNeg :: "gmp \<Rightarrow> eattr \<Rightarrow> operands \<Rightarrow> valInfo abortable" where
  "consNeg G a os = fold1 G a os
     (\<lambda>x. signed_only a (s_neg G (v_cons x) (bits_of x))) nowhere1"

definition consNot :: "gmp \<Rightarrow> eattr \<Rightarrow> operands \<Rightarrow> valInfo abortable" where
  "consNot G a os = fold1 G a os
     (\<lambda>x. unsigned_only a (u_not G (v_cons x) (bits_of x))) nowhere1"

definition consAndr :: "gmp \<Rightarrow> eattr \<Rightarrow> operands \<Rightarrow> valInfo abortable" where
  "consAndr G a os = fold1 G a os
     (\<lambda>x. unsigned_only a (u_andr G (v_cons x) (bits_of x))) nowhere1"

definition consOrr :: "gmp \<Rightarrow> eattr \<Rightarrow> operands \<Rightarrow> valInfo abortable" where
  "consOrr G a os = fold1 G a os
     (\<lambda>x. unsigned_only a (u_orr G (v_cons x) (bits_of x))) nowhere1"

definition consXorr :: "gmp \<Rightarrow> eattr \<Rightarrow> operands \<Rightarrow> valInfo abortable" where
  "consXorr G a os = fold1 G a os
     (\<lambda>x. unsigned_only a (u_xorr G (v_cons x) (bits_of x))) nowhere1"

text \<open>\<^verbatim>\<open>values[i]\<close>: reading past the end is undefined behaviour, here an abort.\<close>

definition value_at :: "eattr \<Rightarrow> nat \<Rightarrow> int abortable" where
  "value_at a i = (if i < length (evalues a) then Some (evalues a ! i) else None)"

definition consPad :: "gmp \<Rightarrow> eattr \<Rightarrow> operands \<Rightarrow> valInfo abortable" where
  "consPad G a os =
     do { (_, x) \<leftarrow> operand os 0;
          if \<not> sign a \<or> width a \<le> v_width x then Some x
          else if is_const x
          then do { n \<leftarrow> value_at a 0; Some (const_info G a (s_pad G (v_cons x) (bits_of x) (nat n))) }
          else Some (new_info a) }"

definition consShl :: "gmp \<Rightarrow> eattr \<Rightarrow> operands \<Rightarrow> valInfo abortable" where
  "consShl G a os =
     do { n \<leftarrow> value_at a 0;
          fold1 G a os (\<lambda>x. unsigned_only a (u_shl G (v_cons x) (bits_of x) (nat n))) nowhere1 }"

definition consShr :: "gmp \<Rightarrow> eattr \<Rightarrow> operands \<Rightarrow> valInfo abortable" where
  "consShr G a os = fold1 G a os
     (\<lambda>x. do { n \<leftarrow> value_at a 0;
               Some (if sign a then s_shr G 0 (v_cons x) (bits_of x) (nat n)
                     else u_shr G (v_cons x) (bits_of x) (nat n)) }) nowhere1"

definition consHead :: "gmp \<Rightarrow> eattr \<Rightarrow> operands \<Rightarrow> valInfo abortable" where
  "consHead G a os =
     do { n \<leftarrow> value_at a 0;
          assert_that (0 \<le> n);
          fold1 G a os (\<lambda>x. unsigned_only a (u_head G (v_cons x) (bits_of x) (nat n))) nowhere1 }"

definition consTail :: "gmp \<Rightarrow> eattr \<Rightarrow> operands \<Rightarrow> valInfo abortable" where
  "consTail G a os =
     do { v \<leftarrow> value_at a 0;
          let n = min (width a) v;
          fold1 G a os (\<lambda>x. unsigned_only a (u_tail G (v_cons x) (bits_of x) (nat n))) nowhere1 }"

definition consBits :: "gmp \<Rightarrow> eattr \<Rightarrow> operands \<Rightarrow> valInfo abortable" where
  "consBits G a os =
     do { hi \<leftarrow> value_at a 0; lo \<leftarrow> value_at a 1;
          fold1 G a os (\<lambda>x. Some (u_bits G (v_cons x) (bits_of x) (nat hi) (nat lo)))
            (\<lambda>x. width (fst x) \<le> lo \<or> v_width (snd x) \<le> lo) }"

definition consBitsNoShift :: "gmp \<Rightarrow> eattr \<Rightarrow> operands \<Rightarrow> valInfo abortable" where
  "consBitsNoShift G a os =
     do { hi \<leftarrow> value_at a 0; lo \<leftarrow> value_at a 1;
          fold1 G a os (\<lambda>x. Some (u_bits_noshift G (v_cons x) (bits_of x) (nat hi) (nat lo)))
            (\<lambda>x. width (fst x) \<le> lo \<or> v_width (snd x) \<le> lo) }"

definition consInt :: "gmp \<Rightarrow> eattr \<Rightarrow> valInfo" where
  "consInt G a =
     (case firStrBase (strVal a) of
        (base, str) \<Rightarrow>
          setConstantByStr G str base
            (new_valInfo (width a) (sign a \<or> (str \<noteq> [] \<and> hd str = CHR ''-''))))"

definition consReadMem :: "(nodeid \<rightharpoonup> valInfo) \<Rightarrow> eattr \<Rightarrow> valInfo" where
  "consReadMem cm a =
     (case Option.bind (memoryNode a) cm of
        Some v \<Rightarrow> if is_const v
                  then map_vattr (\<lambda>x. x\<lparr>vstatus := VAL_CONSTANT, consVal := v_cons v\<rparr>) (new_info a)
                  else new_info a
      | None \<Rightarrow> new_info a)"

definition consInvalid :: "eattr \<Rightarrow> valInfo" where
  "consInvalid a = map_vattr (\<lambda>v. v\<lparr>vstatus := VAL_INVALID\<rparr>) (new_info a)"

text \<open>
  In the code the result of a reset whose condition is a constant other than 0 is the info object of its
  value itself, so the last assignment also writes \<^verbatim>\<open>assignmentCons\<close> of that operand.  The
  operand's own entry is a separate value here and keeps the old \<^verbatim>\<open>assignmentCons\<close>; resets are
  outside the trees of \<^verbatim>\<open>ConstSound\<close>.
\<close>

definition consReset :: "gmp \<Rightarrow> eattr \<Rightarrow> operands \<Rightarrow> valInfo abortable" where
  "consReset G a os =
     do { (_, c) \<leftarrow> operand os 0; (_, v) \<leftarrow> operand os 1;
          let r = (if is_const c
                   then (if mpz_cmp G (v_cons c) 0 = 0
                         then map_vattr (\<lambda>x. x\<lparr>vstatus := VAL_EMPTY\<rparr>) (new_info a) else v)
                   else new_info a);
          Some (map_vattr (\<lambda>x. x\<lparr>sameConstant := v_same v, assignmentCons := v_cons v\<rparr>) r) }"

definition consAssert :: "gmp \<Rightarrow> eattr \<Rightarrow> operands \<Rightarrow> valInfo abortable" where
  "consAssert G a os =
     do { (_, p) \<leftarrow> operand os 0; (_, en) \<leftarrow> operand os 1;
          Some (if is_const p \<and> mpz_cmp G (v_cons p) 0 \<noteq> 0 \<or> const_zero G en
                then const_info G a 0 else new_info a) }"

definition consExit :: "gmp \<Rightarrow> eattr \<Rightarrow> operands \<Rightarrow> valInfo abortable" where
  "consExit G a os =
     do { (_, c) \<leftarrow> operand os 0;
          Some (if const_zero G c then const_info G a 0 else new_info a) }"

text \<open>The dispatch of \<^verbatim>\<open>ENode::computeConstant\<close> on the operator.\<close>

definition cons_op :: "gmp \<Rightarrow> (nodeid \<rightharpoonup> valInfo) \<Rightarrow> NodeType \<Rightarrow> eattr \<Rightarrow> operands \<Rightarrow> valInfo abortable" where
  "cons_op G cm ty a os =
     (case opType a of
        OP_ADD \<Rightarrow> consAdd G a os | OP_SUB \<Rightarrow> consSub G a os | OP_MUL \<Rightarrow> consMul G a os
      | OP_DIV \<Rightarrow> consDIv G a os | OP_REM \<Rightarrow> consRem G a os
      | OP_LT \<Rightarrow> consLt G a os | OP_LEQ \<Rightarrow> consLeq G a os | OP_GT \<Rightarrow> consGt G a os
      | OP_GEQ \<Rightarrow> consGeq G a os | OP_EQ \<Rightarrow> consEq G a os | OP_NEQ \<Rightarrow> consNeq G a os
      | OP_DSHL \<Rightarrow> consDshl G a os | OP_DSHR \<Rightarrow> consDshr G a os
      | OP_AND \<Rightarrow> consAnd G a os | OP_OR \<Rightarrow> consOr G a os | OP_XOR \<Rightarrow> consXor G a os
      | OP_CAT \<Rightarrow> consCat G a os
      | OP_ASUINT \<Rightarrow> consAsUInt G a os
      | OP_SEXT \<Rightarrow> consAsSInt G a os
      | OP_ASSINT \<Rightarrow> consAsSInt G a os
      | OP_ASCLOCK \<Rightarrow> consAsClock G a os
      | OP_ASASYNCRESET \<Rightarrow> consAsAsyncReset G a os
      | OP_CVT \<Rightarrow> consCvt G a os | OP_NEG \<Rightarrow> consNeg G a os | OP_NOT \<Rightarrow> consNot G a os
      | OP_ANDR \<Rightarrow> consAndr G a os | OP_ORR \<Rightarrow> consOrr G a os | OP_XORR \<Rightarrow> consXorr G a os
      | OP_PAD \<Rightarrow> consPad G a os | OP_SHL \<Rightarrow> consShl G a os | OP_SHR \<Rightarrow> consShr G a os
      | OP_HEAD \<Rightarrow> consHead G a os | OP_TAIL \<Rightarrow> consTail G a os
      | OP_BITS \<Rightarrow> consBits G a os | OP_BITS_NOSHIFT \<Rightarrow> consBitsNoShift G a os
      | OP_INDEX_INT \<Rightarrow> Some (new_info a)
      | OP_INDEX \<Rightarrow> Some (new_info a)
      | OP_MUX \<Rightarrow> consMux G a os
      | OP_WHEN \<Rightarrow> consWhen G ty a os
      | OP_GROUP \<Rightarrow> consGroup G a os
      | OP_INT \<Rightarrow> Some (consInt G a)
      | OP_READ_MEM \<Rightarrow> Some (consReadMem cm a)
      | OP_WRITE_MEM \<Rightarrow> Some (new_info a)
      | OP_INVALID \<Rightarrow> Some (consInvalid a)
      | OP_RESET \<Rightarrow> consReset G a os
      | OP_PRINTF \<Rightarrow> Some (new_valInfo 0 False)
      | OP_ASSERT \<Rightarrow> consAssert G a os
      | OP_EXIT \<Rightarrow> consExit G a os
      | OP_EXT_FUNC \<Rightarrow> Some (new_info a)
      | _ \<Rightarrow> None)"

section \<open>Computing a tree\<close>

datatype ctree = CNode (cinfo: valInfo) (cchild: "ctree option list")

text \<open>A reference: a copy of the node's info, with the width of the reference.\<close>

definition ref_copy :: "heap \<Rightarrow> enode \<Rightarrow> nodeid \<Rightarrow> valInfo \<Rightarrow> valInfo abortable" where
  "ref_copy h e n v =
     (if isArray (h n)
      then do { (b, en) \<leftarrow> getIdx e (dimension (h n));
                Some (map_vattr (\<lambda>x. x\<lparr>vbeg := b, vend := en\<rparr>) (dup_info b en v)) }
      else Some (dup_plain v))"

definition cons_ref :: "gmp \<Rightarrow> heap \<Rightarrow> (nodeid \<rightharpoonup> valInfo) \<Rightarrow> bool \<Rightarrow> enode \<Rightarrow> nodeid \<Rightarrow> valInfo abortable" where
  "cons_ref G h cm isLvalue e n =
     do { v \<leftarrow> cm n;
          r \<leftarrow> ref_copy h e n v;
          let r' = (if \<not> isLvalue \<and> v_width r \<le> BASIC_WIDTH \<and> v_width r > e_width e \<and> is_const r
                    then updateConsVal G r else r);
          Some (map_vattr (\<lambda>x. x\<lparr>vwidth := e_width e\<rparr>) r') }"

fun computeConstant :: "gmp \<Rightarrow> heap \<Rightarrow> (nodeid \<rightharpoonup> valInfo) \<Rightarrow> NodeType \<Rightarrow> bool \<Rightarrow> enode \<Rightarrow> ctree abortable" where
  "computeConstant G h cm ty isLvalue (ENode a cs) =
     (if width a = 0 \<and> \<not> isLvalue then Some (CNode (zero_info G a) [])
      else do { cts \<leftarrow> those (map (\<lambda>c. case c of None \<Rightarrow> Some None
                        | Some e \<Rightarrow> map_option Some (computeConstant G h cm ty isLvalue e)) cs);
                r \<leftarrow> (case nodePtr a of
                       Some n \<Rightarrow> cons_ref G h cm isLvalue (ENode a cs) n
                     | None \<Rightarrow> cons_op G cm ty a
                         (map2 (\<lambda>c t. case (c, t) of (Some e, Some ct) \<Rightarrow> Some (attr e, cinfo ct) | _ \<Rightarrow> None) cs cts));
                Some (CNode r cts) })"

end
