(* ===== verification/ConstOps.thy ===== *)
theory ConstOps
  imports ConstTree
begin

section \<open>Soundness of the folded operations\<close>

text \<open>
  What the infos of \<^verbatim>\<open>computeConstant\<close> say of the value of an expression, and that they are
  right: a constant info gives the value, an empty one says that nothing is assigned, an
  invalid one that the value is undefined, and \<^verbatim>\<open>sameConstant\<close> that nothing but that constant is
  ever assigned.  The hypotheses on the tree are its typing, and the places where the code
  relies on more: they are the operations whose folding reads the width of an info that may
  be narrower than its node (\<open>info_exact\<close>), and the signed operands the unsigned functions do
  not handle.
\<close>

definition sound :: "env \<Rightarrow> enode \<Rightarrow> valInfo \<Rightarrow> bool" where
  "sound E e v \<longleftrightarrow>
     (is_const v \<longrightarrow> refines (eval E e) (Val (v_cons v)))
     \<and> (v_status v = VAL_EMPTY \<longrightarrow> refines (eval E e) Keep)
     \<and> (v_status v = VAL_INVALID \<longrightarrow> eval E e = Undef)
     \<and> (v_same v \<longrightarrow> eval E e \<in> {Undef, Keep, Val (v_assign v)})"

text \<open>Where the width of the info is the width of the node.\<close>

fun info_exact :: "enode \<Rightarrow> bool" where
  "info_exact (ENode a cs) =
     (nodePtr a \<noteq> None \<or> width a = 0 \<or>
      (case opType a of
         OP_PAD \<Rightarrow> \<forall>c \<in> set cs. \<forall>e \<in> set_option c. info_exact e
                     \<and> (e_width e = width a \<or> sign a \<and> e_width e < width a)
       | OP_MUX \<Rightarrow> \<forall>c \<in> set (tl cs). \<forall>e \<in> set_option c. info_exact e \<and> e_width e = width a
       | OP_WHEN \<Rightarrow> \<forall>c \<in> set (tl cs). \<forall>e \<in> set_option c. info_exact e \<and> e_width e = width a
       | OP_RESET \<Rightarrow> False
       | OP_PRINTF \<Rightarrow> False
       | _ \<Rightarrow> True))"

definition exact :: "enode \<Rightarrow> valInfo \<Rightarrow> bool" where
  "exact e v \<longleftrightarrow> (info_exact e \<and> v_status v \<noteq> VAL_EMPTY \<longrightarrow> v_width v = e_width e)
     \<and> (is_const v \<longrightarrow> vsign (vattr v) = e_sign e)"

definition coherent :: "valInfo \<Rightarrow> bool" where
  "coherent v \<longleftrightarrow> (is_const v \<and> v_same v \<longrightarrow> v_assign v = v_cons v)"

definition good :: "env \<Rightarrow> enode \<Rightarrow> valInfo \<Rightarrow> bool" where
  "good E e v \<longleftrightarrow> sound E e v \<and> exact e v \<and> coherent v"

definition branch_fits :: "eattr \<Rightarrow> enode option \<Rightarrow> bool" where
  "branch_fits a c \<longleftrightarrow>
     (\<forall>e \<in> set_option c. e_sign e = sign a \<and> e_width e \<le> width a \<and> \<not> is_index e)"

text \<open>The typing of one operation.\<close>

definition fold_typed :: "eattr \<Rightarrow> enode option list \<Rightarrow> bool" where
  "fold_typed a cs \<longleftrightarrow>
     (case opType a of
        OP_SUB \<Rightarrow> (\<forall>c d. cs = [Some c, Some d] \<longrightarrow> e_sign c \<or> width a \<le> max (e_width c) (e_width d) + 1)
      | OP_DSHL \<Rightarrow> (\<forall>c d. cs = [Some c, Some d] \<longrightarrow> \<not> e_sign d \<and> e_width d \<le> 64)
      | OP_DSHR \<Rightarrow> (\<forall>c d. cs = [Some c, Some d] \<longrightarrow> e_sign c = sign a \<and> \<not> e_sign d \<and> e_width d \<le> 31)
      | OP_AND \<Rightarrow> (\<forall>c d. cs = [Some c, Some d] \<longrightarrow> width a \<le> max (e_width c) (e_width d))
      | OP_OR \<Rightarrow> (\<forall>c d. cs = [Some c, Some d] \<longrightarrow> width a \<le> max (e_width c) (e_width d) \<and> \<not> sign a)
      | OP_XOR \<Rightarrow> (\<forall>c d. cs = [Some c, Some d] \<longrightarrow> width a \<le> max (e_width c) (e_width d))
      | OP_CAT \<Rightarrow> (\<forall>c d. cs = [Some c, Some d] \<longrightarrow> info_exact d)
      | OP_ASUINT \<Rightarrow> (\<forall>c. cs = [Some c] \<longrightarrow> info_exact c)
      | OP_ASSINT \<Rightarrow> (\<forall>c. cs = [Some c] \<longrightarrow> info_exact c)
      | OP_SEXT \<Rightarrow> (\<forall>c. cs = [Some c] \<longrightarrow> info_exact c \<and> e_sign c)
      | OP_ASCLOCK \<Rightarrow> width a = 1
      | OP_ASASYNCRESET \<Rightarrow> width a = 1
      | OP_NOT \<Rightarrow> (\<forall>c. cs = [Some c] \<longrightarrow> info_exact c \<and> width a \<le> e_width c)
      | OP_ANDR \<Rightarrow> (\<forall>c. cs = [Some c] \<longrightarrow> info_exact c \<and> \<not> e_sign c)
      | OP_XORR \<Rightarrow> (\<forall>c. cs = [Some c] \<longrightarrow> \<not> e_sign c)
      | OP_PAD \<Rightarrow> (\<forall>c \<in> set cs. \<forall>e \<in> set_option c. info_exact e \<and> e_sign e = sign a \<and> e_width e \<le> width a)
      | OP_SHR \<Rightarrow> (\<forall>c. cs = [Some c] \<longrightarrow> \<not> sign a \<and> \<not> e_sign c)
      | OP_HEAD \<Rightarrow> (\<forall>c. cs = [Some c] \<longrightarrow> \<not> e_sign c)
      | OP_TAIL \<Rightarrow> (\<forall>c. cs = [Some c] \<longrightarrow> info_exact c)
      | OP_BITS \<Rightarrow> (\<forall>c. cs = [Some c] \<longrightarrow> info_exact c) \<and> (\<forall>v \<in> set (evalues a). 0 \<le> v)
      | OP_BITS_NOSHIFT \<Rightarrow> (\<forall>c. cs = [Some c] \<longrightarrow> info_exact c) \<and> (\<forall>v \<in> set (evalues a). 0 \<le> v)
      | OP_MUX \<Rightarrow> width a \<noteq> 0 \<and> None \<notin> set cs \<and> (\<forall>c \<in> set (tl cs). branch_fits a c)
      | OP_WHEN \<Rightarrow> width a \<noteq> 0 \<and> (\<forall>c \<in> set (tl cs). branch_fits a c)
      | OP_INT \<Rightarrow> (\<exists>v. int_literal (strVal a) = Some v \<and> fits (nat (width a)) (sign a) v)
          \<and> (\<forall>base str. firStrBase (strVal a) = (base, CHR ''-'' # str) \<longrightarrow> sign a)
      | OP_INDEX \<Rightarrow> width a \<noteq> 0
      | OP_INDEX_INT \<Rightarrow> width a \<noteq> 0
      | OP_RESET \<Rightarrow> False
      | _ \<Rightarrow> True)"

text \<open>A reference to a constant has a width and a sign that hold the constant.\<close>

definition ref_typed :: "(nodeid \<rightharpoonup> valInfo) \<Rightarrow> eattr \<Rightarrow> nodeid \<Rightarrow> bool" where
  "ref_typed cm a n \<longleftrightarrow>
     (\<forall>v. cm n = Some v \<and> is_const v \<longrightarrow> vsign (vattr v) = sign a \<and> fits (nat (width a)) (sign a) (v_cons v))"

fun foldable :: "(nodeid \<rightharpoonup> valInfo) \<Rightarrow> enode \<Rightarrow> bool" where
  "foldable cm (ENode a cs) \<longleftrightarrow>
     (\<forall>c \<in> set cs. \<forall>e \<in> set_option c. foldable cm e)
     \<and> (case nodePtr a of
          Some n \<Rightarrow> ref_typed cm a n
        | None \<Rightarrow> fold_typed a cs
            \<and> (\<forall>m. memoryNode a = Some m \<longrightarrow> ref_typed cm a m)
            \<and> (opType a \<noteq> OP_INDEX \<longrightarrow> (\<forall>c \<in> set cs. \<forall>e \<in> set_option c. \<not> is_index e)))"

text \<open>What the infos of the nodes say holds in the state.\<close>

definition known :: "env \<Rightarrow> (nodeid \<rightharpoonup> valInfo) \<Rightarrow> bool" where
  "known E cm \<longleftrightarrow>
     (\<forall>n v. cm n = Some v \<longrightarrow>
        (is_const v \<longrightarrow> (\<forall>is. val E n is = v_cons v) \<and> (\<forall>i. mem E n i = v_cons v))
        \<and> (v_same v \<longrightarrow> is_const v \<and> v_assign v = v_cons v)
        \<and> v_status v \<noteq> VAL_EMPTY \<and> v_status v \<noteq> VAL_INVALID)"

fun all_sound :: "env \<Rightarrow> enode \<Rightarrow> ctree \<Rightarrow> bool" where
  "all_sound E (ENode a cs) t \<longleftrightarrow>
     good E (ENode a cs) (cinfo t) \<and> (is_index (ENode a cs) \<longrightarrow> \<not> is_const (cinfo t))
     \<and> (\<forall>p \<in> set (zip cs (cchild t)). (fst p = None \<longrightarrow> snd p = None)
           \<and> (\<forall>e \<in> set_option (fst p). \<forall>u \<in> set_option (snd p). all_sound E e u))"

section \<open>Infos\<close>

lemma map_vattr_simps [simp]:
  "vattr (map_vattr f v) = f (vattr v)" "memberInfo (map_vattr f v) = memberInfo v"
  by (cases v; simp)+

lemma new_info_simps [simp]:
  "v_status (new_info a) = VAL_VALID" "v_width (new_info a) = width a" "\<not> v_same (new_info a)"
  "vsign (vattr (new_info a)) = sign a"
  by (simp_all add: new_info_def new_valInfo_def new_vinfo_def)

lemma sound_plain: "v_status v = VAL_VALID \<or> v_status v = VAL_EXT \<Longrightarrow> \<not> v_same v \<Longrightarrow> sound E e v"
  by (auto simp: sound_def is_const_def)

lemma good_new [simp]: "width a = e_width e \<Longrightarrow> good E e (new_info a)"
  by (simp add: good_def exact_def sound_plain coherent_def is_const_def)

lemma sound_const:
  "is_const v \<Longrightarrow> refines (eval E e) (Val (v_cons v)) \<Longrightarrow> v_assign v = v_cons v \<Longrightarrow> sound E e v"
  by (auto simp: sound_def is_const_def refines_def)

context gmp_lib
begin

lemma masked: "masked_cons G a = wrap (nat (vwidth a)) (vsign a) (consVal a)"
proof -
  have "s_asSInt G (take_bit w c) w = wrap w True c" for w c
    using asSInt [of w False "take_bit w c"] by (simp add: fits_unsigned)
  then show ?thesis
    by (simp add: masked_cons_def laws mask take_bit_eq_mask [symmetric] wrap_unsigned Let_def)
qed

lemma update_simps [simp]:
  "v_cons (updateConsVal G v) = wrap (bits_of v) (vsign (vattr v)) (v_cons v)"
  "is_const (updateConsVal G v)" "v_same (updateConsVal G v)"
  "v_assign (updateConsVal G v) = wrap (bits_of v) (vsign (vattr v)) (v_cons v)"
  "v_width (updateConsVal G v) = v_width v" "vsign (vattr (updateConsVal G v)) = vsign (vattr v)"
  "v_status (updateConsVal G v) = VAL_CONSTANT"
  by (simp_all add: updateConsVal_def setConsStr_def masked is_const_def)

lemma const_info_simps [simp]:
  "v_cons (const_info G a c) = wrap (nat (width a)) (sign a) c"
  "is_const (const_info G a c)" "v_assign (const_info G a c) = wrap (nat (width a)) (sign a) c"
  "v_width (const_info G a c) = width a" "v_same (const_info G a c)" "vsign (vattr (const_info G a c)) = sign a"
  "v_status (const_info G a c) = VAL_CONSTANT"
  by (simp_all add: const_info_def set_cons_def)

lemma set_str_0: "mpz_set_str G ''0'' 16 = 0"
  by (rule set_str) (simp add: int_of_str_def nat_of_str_def digit_val_def)

lemma zero_info_eq: "zero_info G a = const_info G a 0"
  by (simp add: zero_info_def setConstantByStr_def const_info_def set_str_0)

lemma good_const:
  assumes "\<And>v. eval E (ENode a cs) = Val v \<Longrightarrow> v = wrap (nat (width a)) (sign a) c" "eval E (ENode a cs) \<noteq> Keep"
  shows "good E (ENode a cs) (const_info G a c)"
  using assms by (cases "eval E (ENode a cs)") (auto simp: good_def exact_def coherent_def intro!: sound_const)

end

section \<open>The operations\<close>

text \<open>The situation of one operation: its operands carry good infos and it is typed.\<close>

definition op_env :: "env \<Rightarrow> eattr \<Rightarrow> enode option list \<Rightarrow> operands \<Rightarrow> bool" where
  "op_env E a cs os \<longleftrightarrow>
     nodePtr a = None \<and> width a \<noteq> 0 \<and> \<not> firHeadTail E \<and> fold_typed a cs
     \<and> (opType a \<noteq> OP_INDEX \<longrightarrow> (\<forall>c \<in> set cs. \<forall>e \<in> set_option c. \<not> is_index e))
     \<and> list_all2 (rel_option (\<lambda>e p. fst p = attr e \<and> good E e (snd p))) cs os"

lemma typed_of: "op_env E a cs os \<Longrightarrow> fold_typed a cs"
  by (simp add: op_env_def)

definition special_ops :: "OPType list" where
  "special_ops = [OP_INT, OP_INDEX_INT, OP_INDEX, OP_MUX, OP_WHEN, OP_RESET, OP_READ_MEM, OP_INVALID]"

lemma eval_plain:
  "nodePtr a = None \<Longrightarrow> opType a \<notin> set special_ops \<Longrightarrow>
   eval E (ENode a cs) = map_outcome_val (wrap (nat (width a)) (sign a))
     (apply_prim (firHeadTail E) (opType a) (evalues a) (map (map_option (operand_of E)) cs))"
proof -
  assume n: "nodePtr a = None" and s: "opType a \<notin> set special_ops"
  have "keep_bits a = wrap (nat (width a)) (sign a)"
    by (rule ext) (use s in \<open>auto simp: keep_bits_def special_ops_def\<close>)
  with n s show ?thesis
    by (cases "opType a") (simp_all add: eval_ENode apply_op_def special_ops_def)
qed

lemma eval_plain_Val:
  assumes "op_env E a cs os" "opType a \<notin> set special_ops" "eval E (ENode a cs) = Val v"
  obtains (one) c x p where "cs = [Some c]" "eval E c = Val x" "\<not> is_index c"
      "prim1 False (opType a) (evalues a) (nat (e_width c), e_sign c, x) = Some p"
      "v = wrap (nat (width a)) (sign a) p"
  | (two) c d x y p where "cs = [Some c, Some d]" "eval E c = Val x" "eval E d = Val y"
      "\<not> is_index c" "\<not> is_index d"
      "prim2 (opType a) (nat (e_width c), e_sign c, x) (nat (e_width d), e_sign d, y) = Some p"
      "v = wrap (nat (width a)) (sign a) p"
proof -
  have n: "nodePtr a = None" "\<not> firHeadTail E" "\<forall>c \<in> set cs. \<forall>e \<in> set_option c. \<not> is_index e"
    using assms(1,2) by (auto simp: op_env_def special_ops_def)
  then obtain p where p: "apply_prim False (opType a) (evalues a) (map (map_option (operand_of E)) cs) = Val p"
    "v = wrap (nat (width a)) (sign a) p"
    using assms(3) eval_plain [OF n(1) assms(2)] by (auto simp: map_outcome_val_Val)
  from p(1) show thesis
  proof (cases rule: apply_prim_Val)
    case one1: (one w0 s0 x)
    then obtain c where "cs = [Some c]" "operand_of E c = (w0, s0, Val x)" by auto
    with one1 n p show thesis by (intro one [of c x p]) auto
  next
    case two1: (two w0 s0 x w1 s1 y)
    then obtain c d where "cs = [Some c, Some d]" "operand_of E c = (w0, s0, Val x)"
      "operand_of E d = (w1, s1, Val y)" by auto
    with two1 n p show thesis by (intro two [of c d x y p]) auto
  qed
qed

lemma eval_plain_not_Keep:
  assumes "op_env E a cs os" "opType a \<notin> set special_ops"
  shows "eval E (ENode a cs) \<noteq> Keep"
proof -
  have "apply_prim b op vs l \<noteq> Keep" for b op vs l
    by (auto simp: apply_prim_def of_opt_def split: list.splits option.splits prod.splits outcome.splits)
  then have "map_outcome_val f (apply_prim b op vs l) \<noteq> Keep" for f b op vs l
    by (metis map_outcome_val.elims outcome.distinct(1) outcome.distinct(5))
  then show ?thesis using assms by (simp add: eval_plain op_env_def)
qed

lemma good_at:
  "good E c v \<Longrightarrow> is_const v \<Longrightarrow> eval E c = Val x \<Longrightarrow> v_cons v = x"
  "good E c v \<Longrightarrow> eval E c = Val x \<Longrightarrow> v_status v \<noteq> VAL_EMPTY"
  "good E c v \<Longrightarrow> eval E c = Val x \<Longrightarrow> info_exact c \<Longrightarrow> v_width v = e_width c"
  by (auto simp: good_def sound_def refines_def exact_def)

context gmp_lib
begin

lemma fold1_good:
  assumes env: "op_env E a cs os" and run: "fold1 G a os f zero = Some r"
    and op: "opType a \<notin> set special_ops" "\<And>p q. prim2 (opType a) p q = None"
    and const: "\<And>c x v k p. cs = [Some c] \<Longrightarrow> v_cons v = x \<Longrightarrow> f v = Some k
       \<Longrightarrow> fits (nat (e_width c)) (e_sign c) x \<Longrightarrow> (info_exact c \<Longrightarrow> v_width v = e_width c)
       \<Longrightarrow> prim1 False (opType a) (evalues a) (nat (e_width c), e_sign c, x) = Some p
       \<Longrightarrow> wrap (nat (width a)) (sign a) k = wrap (nat (width a)) (sign a) p"
    and zer: "\<And>c x v p. cs = [Some c] \<Longrightarrow> zero (attr c, v) \<Longrightarrow> fits (nat (e_width c)) (e_sign c) x
       \<Longrightarrow> (info_exact c \<Longrightarrow> v_width v = e_width c)
       \<Longrightarrow> prim1 False (opType a) (evalues a) (nat (e_width c), e_sign c, x) = Some p
       \<Longrightarrow> wrap (nat (width a)) (sign a) p = 0"
  shows "good E (ENode a cs) r"
proof -
  have args: "list_all2 (rel_option (\<lambda>e p. fst p = attr e \<and> good E e (snd p))) cs os"
    using env by (simp add: op_env_def)
  note nk = eval_plain_not_Keep [OF env op(1)]
  obtain ca v where o: "operand os 0 = Some (ca, v)" "os \<noteq> []"
    using run by (auto simp: fold1_def operand_def split: Option.bind_splits if_splits)
  have cs: "os = [Some (attr c, v)] \<and> good E c v" if "cs = [Some c]" for c
    using args o that by (auto simp: operand_def list_all2_Cons1 rel_option_iff split: option.splits)
  have val: "\<exists>c x p. cs = [Some c] \<and> good E c v \<and> eval E c = Val x \<and> attr c = ca
      \<and> fits (nat (e_width c)) (e_sign c) x \<and> u = wrap (nat (width a)) (sign a) p
      \<and> prim1 False (opType a) (evalues a) (nat (e_width c), e_sign c, x) = Some p"
    if "eval E (ENode a cs) = Val u" for u
    using env op(1) that
  proof (cases rule: eval_plain_Val)
    case (one c x p)
    with cs [OF one(1)] o show ?thesis using eval_fits by (auto simp: operand_def)
  next
    case two
    with op(2) show ?thesis by simp
  qed
  consider k where "is_const v" "f v = Some k" "r = const_info G a k"
    | "r = const_info G a 0" "zero (ca, v)" | "r = new_info a"
    using run o by (auto simp: fold1_def zero_info_eq split: if_splits)
  then show ?thesis
  proof cases
    case (1 k)
    have "u = wrap (nat (width a)) (sign a) k" if u: "eval E (ENode a cs) = Val u" for u
    proof -
      obtain c x p where c: "cs = [Some c]" "good E c v" "eval E c = Val x"
        "fits (nat (e_width c)) (e_sign c) x" "u = wrap (nat (width a)) (sign a) p"
        "prim1 False (opType a) (evalues a) (nat (e_width c), e_sign c, x) = Some p"
        using val [OF u] by blast
      show ?thesis unfolding c(5)
        using const [OF c(1) good_at(1) [OF c(2) 1(1) c(3)] 1(2) c(4) good_at(3) [OF c(2,3)] c(6)] by simp
    qed
    then show ?thesis unfolding 1(3) by (rule good_const [OF _ nk])
  next
    case 2
    have "u = wrap (nat (width a)) (sign a) 0" if u: "eval E (ENode a cs) = Val u" for u
    proof -
      obtain c x p where c: "cs = [Some c]" "good E c v" "eval E c = Val x" "attr c = ca"
        "fits (nat (e_width c)) (e_sign c) x" "u = wrap (nat (width a)) (sign a) p"
        "prim1 False (opType a) (evalues a) (nat (e_width c), e_sign c, x) = Some p"
        using val [OF u] by blast
      show ?thesis unfolding c(6)
        using zer [OF c(1) _ c(5) good_at(3) [OF c(2,3)] c(7)] 2(2) c(4) by simp
    qed
    then show ?thesis unfolding 2(1) by (rule good_const [OF _ nk])
  qed simp
qed

lemma fold2_good:
  assumes env: "op_env E a cs os" and run: "fold2 G a os f zero = Some r"
    and op: "opType a \<notin> set special_ops" "\<And>b vs p. prim1 b (opType a) vs p = None"
    and const: "\<And>c d x y v w k p. cs = [Some c, Some d] \<Longrightarrow> v_cons v = x \<Longrightarrow> v_cons w = y \<Longrightarrow> f v w = Some k
       \<Longrightarrow> fits (nat (e_width c)) (e_sign c) x \<Longrightarrow> fits (nat (e_width d)) (e_sign d) y
       \<Longrightarrow> (info_exact d \<Longrightarrow> v_width w = e_width d)
       \<Longrightarrow> prim2 (opType a) (nat (e_width c), e_sign c, x) (nat (e_width d), e_sign d, y) = Some p
       \<Longrightarrow> wrap (nat (width a)) (sign a) k = wrap (nat (width a)) (sign a) p"
    and zer: "\<And>c d x y v w p. cs = [Some c, Some d] \<Longrightarrow> zero (attr c, v) (attr d, w)
       \<Longrightarrow> (is_const v \<Longrightarrow> v_cons v = x) \<Longrightarrow> (is_const w \<Longrightarrow> v_cons w = y)
       \<Longrightarrow> fits (nat (e_width c)) (e_sign c) x \<Longrightarrow> fits (nat (e_width d)) (e_sign d) y
       \<Longrightarrow> prim2 (opType a) (nat (e_width c), e_sign c, x) (nat (e_width d), e_sign d, y) = Some p
       \<Longrightarrow> wrap (nat (width a)) (sign a) p = 0"
  shows "good E (ENode a cs) r"
proof -
  have args: "list_all2 (rel_option (\<lambda>e p. fst p = attr e \<and> good E e (snd p))) cs os"
    using env by (simp add: op_env_def)
  note nk = eval_plain_not_Keep [OF env op(1)]
  obtain ca v da w where o: "operand os 0 = Some (ca, v)" "operand os 1 = Some (da, w)"
    using run by (auto simp: fold2_def split: Option.bind_splits)
  have val: "\<exists>c d x y p. cs = [Some c, Some d] \<and> good E c v \<and> good E d w \<and> eval E c = Val x \<and> eval E d = Val y
      \<and> attr c = ca \<and> attr d = da
      \<and> fits (nat (e_width c)) (e_sign c) x \<and> fits (nat (e_width d)) (e_sign d) y
      \<and> u = wrap (nat (width a)) (sign a) p
      \<and> prim2 (opType a) (nat (e_width c), e_sign c, x) (nat (e_width d), e_sign d, y) = Some p"
    if "eval E (ENode a cs) = Val u" for u
    using env op(1) that
  proof (cases rule: eval_plain_Val)
    case one
    with op(2) show ?thesis by simp
  next
    case (two c d x y p)
    then have "os = [Some (attr c, v), Some (attr d, w)] \<and> good E c v \<and> good E d w"
      using args o by (auto simp: operand_def list_all2_Cons1 rel_option_iff split: option.splits)
    with two o show ?thesis using eval_fits by (auto simp: operand_def)
  qed
  consider k where "is_const v" "is_const w" "f v w = Some k" "r = const_info G a k"
    | "r = const_info G a 0" "zero (ca, v) (da, w)" | "r = new_info a"
    using run o by (auto simp: fold2_def zero_info_eq split: if_splits)
  then show ?thesis
  proof cases
    case (1 k)
    have "u = wrap (nat (width a)) (sign a) k" if u: "eval E (ENode a cs) = Val u" for u
    proof -
      obtain c d x y p where c: "cs = [Some c, Some d]" "good E c v" "good E d w" "eval E c = Val x"
        "eval E d = Val y" "fits (nat (e_width c)) (e_sign c) x" "fits (nat (e_width d)) (e_sign d) y"
        "u = wrap (nat (width a)) (sign a) p"
        "prim2 (opType a) (nat (e_width c), e_sign c, x) (nat (e_width d), e_sign d, y) = Some p"
        using val [OF u] by blast
      show ?thesis unfolding c(8)
        using const [OF c(1) good_at(1) [OF c(2) 1(1) c(4)] good_at(1) [OF c(3) 1(2) c(5)] 1(3) c(6,7)
            good_at(3) [OF c(3,5)] c(9)] by simp
    qed
    then show ?thesis unfolding 1(4) by (rule good_const [OF _ nk])
  next
    case 2
    have "u = wrap (nat (width a)) (sign a) 0" if u: "eval E (ENode a cs) = Val u" for u
    proof -
      obtain c d x y p where c: "cs = [Some c, Some d]" "good E c v" "good E d w" "eval E c = Val x"
        "eval E d = Val y" "attr c = ca" "attr d = da"
        "fits (nat (e_width c)) (e_sign c) x" "fits (nat (e_width d)) (e_sign d) y"
        "u = wrap (nat (width a)) (sign a) p"
        "prim2 (opType a) (nat (e_width c), e_sign c, x) (nat (e_width d), e_sign d, y) = Some p"
        using val [OF u] by blast
      show ?thesis unfolding c(10)
        using zer [OF c(1) _ good_at(1) [OF c(2) _ c(4)] good_at(1) [OF c(3) _ c(5)] c(8,9,11)] 2(2) c(6,7)
        by simp
    qed
    then show ?thesis unfolding 2(1) by (rule good_const [OF _ nk])
  qed simp
qed

lemmas op_simps = prim1_def prim2_def special_ops_def nowhere1_def nowhere2_def unsigned_only_def signed_only_def

lemma arith_good:
  assumes "op_env E a cs os"
  shows "opType a = OP_ADD \<Longrightarrow> consAdd G a os = Some r \<Longrightarrow> good E (ENode a cs) r"
    and "opType a = OP_MUL \<Longrightarrow> consMul G a os = Some r \<Longrightarrow> good E (ENode a cs) r"
    and "opType a = OP_DIV \<Longrightarrow> consDIv G a os = Some r \<Longrightarrow> good E (ENode a cs) r"
    and "opType a = OP_REM \<Longrightarrow> consRem G a os = Some r \<Longrightarrow> good E (ENode a cs) r"
    and "opType a = OP_LEQ \<Longrightarrow> consLeq G a os = Some r \<Longrightarrow> good E (ENode a cs) r"
    and "opType a = OP_GT \<Longrightarrow> consGt G a os = Some r \<Longrightarrow> good E (ENode a cs) r"
    and "opType a = OP_GEQ \<Longrightarrow> consGeq G a os = Some r \<Longrightarrow> good E (ENode a cs) r"
    and "opType a = OP_NEQ \<Longrightarrow> consNeq G a os = Some r \<Longrightarrow> good E (ENode a cs) r"
  unfolding consAdd_def consMul_def consDIv_def consRem_def consLeq_def consGt_def consGeq_def consNeq_def
  by (erule fold2_good [OF assms];
      auto simp: op_simps us_add_def us_mul_def us_div_def us_rem_def us_leq_def us_gt_def us_geq_def
        us_neq_def laws split: if_splits)+

lemma consSub_good:
  assumes env: "op_env E a cs os" and op: "opType a = OP_SUB" and run: "consSub G a os = Some r"
  shows "good E (ENode a cs) r"
  using run unfolding consSub_def
proof (rule fold2_good [OF env])
  fix c d x y v w k p
  assume cs: "cs = [Some c, Some d]" and v: "v_cons v = x" "v_cons w = y"
    and k: "Some (us_sub G (v_cons v) (v_cons w) (nat (width a))) = Some k"
    and p: "prim2 (opType a) (nat (e_width c), e_sign c, x) (nat (e_width d), e_sign d, y) = Some p"
  have t: "e_sign c \<or> width a \<le> max (e_width c) (e_width d) + 1"
    using typed_of [OF env] op cs by (simp add: fold_typed_def)
  have "wrap (nat (width a)) (sign a) (take_bit (Suc (max (nat (e_width c)) (nat (e_width d)))) (x - y))
      = wrap (nat (width a)) (sign a) (x - y)" if "\<not> e_sign c"
    by (rule wrap_cong) (use that t in \<open>auto simp: min_def\<close>)
  with k v p op show "wrap (nat (width a)) (sign a) k = wrap (nat (width a)) (sign a) p"
    by (auto simp: op_simps sub_wrap split: if_splits)
qed (simp_all add: op op_simps)

lemma consLt_good:
  assumes "op_env E a cs os" "opType a = OP_LT" "consLt G a os = Some r"
  shows "good E (ENode a cs) r"
  using assms(3) unfolding consLt_def
  by (rule fold2_good [OF assms(1)])
     (use assms(2) in \<open>auto simp: op_simps us_lt_def laws const_zero_def fits_unsigned\<close>)

lemma fits_upper: "fits w s v \<Longrightarrow> v \<le> mask w"
  by (cases s) (auto simp: fits_signed_iff fits_unsigned mask_eq_exp_minus_1)

lemma consEq_good:
  assumes "op_env E a cs os" "opType a = OP_EQ" "consEq G a os = Some r"
  shows "good E (ENode a cs) r"
  using assms(3) unfolding consEq_def
proof (rule fold2_good [OF assms(1)])
  fix c d x y v w p
  assume "is_const (snd (attr c, v)) \<and> mpzOutOfBound G (v_cons (snd (attr c, v))) (width (fst (attr d, w)))
     \<or> is_const (snd (attr d, w)) \<and> mpzOutOfBound G (v_cons (snd (attr d, w))) (width (fst (attr c, v)))"
    and "is_const v \<Longrightarrow> v_cons v = x" "is_const w \<Longrightarrow> v_cons w = y"
    and f: "fits (nat (e_width c)) (e_sign c) x" "fits (nat (e_width d)) (e_sign d) y"
    and p: "prim2 (opType a) (nat (e_width c), e_sign c, x) (nat (e_width d), e_sign d, y) = Some p"
  then have "mask (nat (e_width d)) < x \<or> mask (nat (e_width c)) < y"
    by (auto simp: mpzOutOfBound_def laws mask)
  with fits_upper [OF f(1)] fits_upper [OF f(2)] p assms(2)
  show "wrap (nat (width a)) (sign a) p = 0" by (auto simp: op_simps)
qed (use assms(2) in \<open>auto simp: op_simps us_eq_def laws\<close>)

lemma consDshl_good:
  assumes "op_env E a cs os" "opType a = OP_DSHL" "consDshl G a os = Some r"
  shows "good E (ENode a cs) r"
  using assms(3) unfolding consDshl_def
proof (rule fold2_good [OF assms(1)])
  fix c d x y v w k p
  assume cs: "cs = [Some c, Some d]" and v: "v_cons v = x" "v_cons w = y"
    and k: "unsigned_only a (u_dshl G (v_cons v) (bits_of v) (v_cons w) (bits_of w)) = Some k"
    and f: "fits (nat (e_width d)) (e_sign d) y"
    and p: "prim2 (opType a) (nat (e_width c), e_sign c, x) (nat (e_width d), e_sign d, y) = Some p"
  have "\<not> e_sign d" "e_width d \<le> 64" using typed_of [OF assms(1)] assms(2) cs by (auto simp: fold_typed_def)
  then have "fits 64 False y" using f fits_mono [of "nat (e_width d)" False y 64] by simp
  then have "u_dshl G x (bits_of v) y (bits_of w) = push_bit (nat y) x"
    by (intro dshl) (auto simp: fits_unsigned)
  with v k p assms(2) show "wrap (nat (width a)) (sign a) k = wrap (nat (width a)) (sign a) p"
    by (auto simp: op_simps split: if_splits)
qed (simp_all add: assms(2) op_simps)

lemma consDshr_good:
  assumes "op_env E a cs os" "opType a = OP_DSHR" "consDshr G a os = Some r"
  shows "good E (ENode a cs) r"
  using assms(3) unfolding consDshr_def
proof (rule fold2_good [OF assms(1)])
  fix c d x y v w k p
  assume cs: "cs = [Some c, Some d]" and v: "v_cons v = x" "v_cons w = y"
    and k: "Some ((if sign a then s_dshr else u_dshr) G (v_cons v) (bits_of v) (v_cons w) (bits_of w)) = Some k"
    and f: "fits (nat (e_width c)) (e_sign c) x" "fits (nat (e_width d)) (e_sign d) y"
    and p: "prim2 (opType a) (nat (e_width c), e_sign c, x) (nat (e_width d), e_sign d, y) = Some p"
  have t: "e_sign c = sign a" "\<not> e_sign d" "e_width d \<le> 31"
    using typed_of [OF assms(1)] assms(2) cs by (auto simp: fold_typed_def)
  then have "fits 31 False y" using f(2) fits_mono [of "nat (e_width d)" False y 31] by simp
  then have y: "0 \<le> y" "y < 2 ^ 31" by (auto simp: fits_unsigned)
  then have y64: "y < 2 ^ 64" by simp
  have "k = drop_bit (nat y) x"
  proof (cases "sign a")
    case True
    with k v dshr_signed [OF y] show ?thesis by simp
  next
    case False
    with t f(1) have "0 \<le> x" by (simp add: fits_unsigned)
    with False k v dshr_unsigned [OF _ y(1) y64] show ?thesis by simp
  qed
  with p assms(2) show "wrap (nat (width a)) (sign a) k = wrap (nat (width a)) (sign a) p"
    by (simp add: op_simps)
qed (simp_all add: assms(2) op_simps)

lemma narrow_logic:
  assumes "w \<le> max e (d :: int)"
  shows "wrap (nat w) s (take_bit (max (nat e) (nat d)) v) = wrap (nat w) s v"
  by (rule wrap_cong) (use assms in \<open>auto simp: min_def\<close>)

lemma consAnd_good:
  assumes "op_env E a cs os" "opType a = OP_AND" "consAnd G a os = Some r"
  shows "good E (ENode a cs) r"
  using assms(3) unfolding consAnd_def
  by (rule fold2_good [OF assms(1)])
     (use assms(2) typed_of [OF assms(1)] in
      \<open>auto simp: op_simps u_and_def laws const_zero_def fold_typed_def narrow_logic
        simp del: take_bit_and split: if_splits\<close>)

lemma consXor_good:
  assumes "op_env E a cs os" "opType a = OP_XOR" "consXor G a os = Some r"
  shows "good E (ENode a cs) r"
  using assms(3) unfolding consXor_def
  by (rule fold2_good [OF assms(1)])
     (use assms(2) typed_of [OF assms(1)] in
      \<open>auto simp: op_simps u_xor_def laws fold_typed_def narrow_logic
        simp del: take_bit_xor split: if_splits\<close>)

lemma consCat_good:
  assumes "op_env E a cs os" "opType a = OP_CAT" "consCat G a os = Some r"
  shows "good E (ENode a cs) r"
  using assms(3) unfolding consCat_def
proof (rule fold2_good [OF assms(1)])
  fix c d x y v w k p
  assume cs: "cs = [Some c, Some d]" and v: "v_cons v = x" "v_cons w = y"
    and k: "u_cat G (v_cons v) (bits_of v) (v_cons w) (bits_of w) \<bind> unsigned_only a = Some k"
    and f: "fits (nat (e_width c)) (e_sign c) x" "fits (nat (e_width d)) (e_sign d) y"
    and e: "info_exact d \<Longrightarrow> v_width w = e_width d"
    and p: "prim2 (opType a) (nat (e_width c), e_sign c, x) (nat (e_width d), e_sign d, y) = Some p"
  have w: "v_width w = e_width d" using e typed_of [OF assms(1)] assms(2) cs by (auto simp: fold_typed_def)
  have n: "0 \<le> x" "0 \<le> y" using k v by (auto simp: u_cat_def laws not_less split: Option.bind_splits)
  then have "take_bit (nat (e_width c)) x = x" "take_bit (nat (e_width d)) y = y"
    using f fits_nonneg_take_bit by auto
  moreover from this n have "fits (nat (e_width d)) False y"
    by (metis fits_unsigned take_bit_int_less_exp)
  ultimately have "k = x * 2 ^ nat (e_width d) + y" "p = x * 2 ^ nat (e_width d) + y"
    using k p v w n cat assms(2) by (auto simp: op_simps push_bit_eq_mult split: if_splits)
  then show "wrap (nat (width a)) (sign a) k = wrap (nat (width a)) (sign a) p" by simp
qed (simp_all add: assms(2) op_simps)

lemma or_mask: "w \<le> n \<Longrightarrow> wrap w False (take_bit n (mask w OR v)) = mask w" for v :: int
  by (rule bit_eqI) (auto simp: wrap_unsigned bit_simps)

lemma consOr_good:
  assumes env: "op_env E a cs os" and op: "opType a = OP_OR" and run: "consOr G a os = Some r"
  shows "good E (ENode a cs) r"
proof -
  have args: "list_all2 (rel_option (\<lambda>e p. fst p = attr e \<and> good E e (snd p))) cs os"
    using env by (simp add: op_env_def)
  have sp: "opType a \<notin> set special_ops" by (simp add: op special_ops_def)
  obtain ca v da w where o: "operand os 0 = Some (ca, v)" "operand os 1 = Some (da, w)"
    using run by (auto simp: consOr_def split: Option.bind_splits)
  let ?w = "nat (width a)"
  have val: "\<exists>c d x y. cs = [Some c, Some d] \<and> (is_const v \<longrightarrow> v_cons v = x) \<and> (is_const w \<longrightarrow> v_cons w = y)
      \<and> width a \<le> max (e_width c) (e_width d) \<and> \<not> sign a \<and> u = wrap ?w False (x OR y)
      \<and> u = wrap ?w False (take_bit (max (nat (e_width c)) (nat (e_width d))) (x OR y))"
    if "eval E (ENode a cs) = Val u" for u
    using env sp that
  proof (cases rule: eval_plain_Val)
    case one
    with op show ?thesis by (simp add: prim1_def)
  next
    case (two c d x y p)
    then have "good E c v \<and> good E d w"
      using args o by (auto simp: operand_def list_all2_Cons1 rel_option_iff split: option.splits)
    with two op typed_of [OF env] show ?thesis using good_at(1)
      by (intro exI [of _ c] exI [of _ d] exI [of _ x] exI [of _ y])
         (auto simp: prim2_def fold_typed_def narrow_logic simp del: take_bit_or)
  qed
  consider "is_const v" "is_const w" "r = const_info G a (v_cons v OR v_cons w)"
    | "const_mask G a v \<or> const_mask G a w" "r = const_info G a (mask ?w)" | "r = new_info a"
    using run o by (auto simp: consOr_def u_ior_def laws unsigned_only_def mask split: if_splits)
  then show ?thesis
  proof cases
    case 1
    show ?thesis unfolding 1(3)
      by (rule good_const [OF _ eval_plain_not_Keep [OF env sp]]) (use val 1 in auto)
  next
    case 2
    have "u = wrap ?w (sign a) (mask ?w)" if u: "eval E (ENode a cs) = Val u" for u
    proof -
      obtain c d x y where c: "is_const v \<longrightarrow> v_cons v = x" "is_const w \<longrightarrow> v_cons w = y"
        "width a \<le> max (e_width c) (e_width d)" "\<not> sign a"
        "u = wrap ?w False (take_bit (max (nat (e_width c)) (nat (e_width d))) (x OR y))"
        using val [OF u] by blast
      have le: "?w \<le> max (nat (e_width c)) (nat (e_width d))" using c(3) by auto
      have "x = mask ?w \<or> y = mask ?w" using 2(1) c(1,2) by (auto simp: const_mask_def laws mask)
      then have "u = mask ?w" using c(5) or_mask [OF le] by (metis or.commute)
      with c(4) show ?thesis by (simp add: wrap_unsigned)
    qed
    then show ?thesis unfolding 2(2) by (rule good_const [OF _ eval_plain_not_Keep [OF env sp]])
  qed simp
qed

lemma unary_good:
  assumes "op_env E a cs os"
  shows "opType a = OP_CVT \<Longrightarrow> consCvt G a os = Some r \<Longrightarrow> good E (ENode a cs) r"
    and "opType a = OP_NEG \<Longrightarrow> consNeg G a os = Some r \<Longrightarrow> good E (ENode a cs) r"
    and "opType a = OP_ASUINT \<Longrightarrow> consAsUInt G a os = Some r \<Longrightarrow> good E (ENode a cs) r"
    and "opType a = OP_ASSINT \<Longrightarrow> consAsSInt G a os = Some r \<Longrightarrow> good E (ENode a cs) r"
    and "opType a = OP_SEXT \<Longrightarrow> consAsSInt G a os = Some r \<Longrightarrow> good E (ENode a cs) r"
    and "opType a = OP_ASCLOCK \<Longrightarrow> consAsClock G a os = Some r \<Longrightarrow> good E (ENode a cs) r"
    and "opType a = OP_ASASYNCRESET \<Longrightarrow> consAsAsyncReset G a os = Some r \<Longrightarrow> good E (ENode a cs) r"
  unfolding consCvt_def consNeg_def consAsUInt_def consAsSInt_def consAsClock_def consAsAsyncReset_def
  by (erule fold1_good [OF assms];
      use typed_of [OF assms] in \<open>auto simp: op_simps fold_typed_def s_cvt_def u_cvt_def s_neg_def asUInt asSInt
        u_asClock_def u_asAsyncReset_def laws wrap_unsigned wrap_fits split: if_splits\<close>)+

lemma consNot_good:
  assumes "op_env E a cs os" "opType a = OP_NOT" "consNot G a os = Some r"
  shows "good E (ENode a cs) r"
  using assms(3) unfolding consNot_def
proof (rule fold1_good [OF assms(1)])
  fix c x v k p
  assume cs: "cs = [Some c]" and v: "v_cons v = x"
    and k: "unsigned_only a (u_not G (v_cons v) (bits_of v)) = Some k"
    and e: "info_exact c \<Longrightarrow> v_width v = e_width c"
    and p: "prim1 False (opType a) (evalues a) (nat (e_width c), e_sign c, x) = Some p"
  have t: "v_width v = e_width c" "width a \<le> e_width c"
    using e typed_of [OF assms(1)] assms(2) cs by (auto simp: fold_typed_def)
  have "take_bit (nat (e_width c)) k = take_bit (nat (e_width c)) p"
    using k p v t assms(2) not_wrap [of "nat (e_width c)" x] by (auto simp: op_simps split: if_splits)
  then have "take_bit (nat (width a)) k = take_bit (nat (width a)) p"
    using t(2) by (metis min.absorb1 nat_mono take_bit_take_bit)
  then show "wrap (nat (width a)) (sign a) k = wrap (nat (width a)) (sign a) p" by (rule wrap_cong)
qed (simp_all add: assms(2) op_simps)

lemma reduce_good:
  assumes "op_env E a cs os"
  shows "opType a = OP_ANDR \<Longrightarrow> consAndr G a os = Some r \<Longrightarrow> good E (ENode a cs) r"
    and "opType a = OP_ORR \<Longrightarrow> consOrr G a os = Some r \<Longrightarrow> good E (ENode a cs) r"
    and "opType a = OP_XORR \<Longrightarrow> consXorr G a os = Some r \<Longrightarrow> good E (ENode a cs) r"
proof -
  have z: "take_bit w x = 0 \<longleftrightarrow> x = 0" if "fits w s x" for w s and x :: int
    using unsigned_reading [OF that] that by (cases s) (auto simp: fits_signed_iff fits_unsigned split: if_splits)
  have q: "take_bit w x = x" if "fits w False x" for w and x :: int
    using that by (simp add: take_bit_int_eq_self fits_unsigned)
  show "opType a = OP_ANDR \<Longrightarrow> consAndr G a os = Some r \<Longrightarrow> good E (ENode a cs) r"
    and "opType a = OP_ORR \<Longrightarrow> consOrr G a os = Some r \<Longrightarrow> good E (ENode a cs) r"
    and "opType a = OP_XORR \<Longrightarrow> consXorr G a os = Some r \<Longrightarrow> good E (ENode a cs) r"
    unfolding consAndr_def consOrr_def consXorr_def
    by (erule fold1_good [OF assms];
        use typed_of [OF assms] in \<open>auto simp: op_simps fold_typed_def andr orr z q xorr fits_unsigned parity_def
          split: if_splits\<close>)+
qed

end

end
