(* ===== verification/ConstReady.thy ===== *)
theory ConstReady
  imports ConstOps
begin

section \<open>Folding does not abort\<close>

text \<open>
  The trees on which \<^verbatim>\<open>computeConstant\<close> meets no null pointer, no \<^verbatim>\<open>TODO\<close> and no failed assertion:
  operations have the operands and literal arguments they read, and a result of the sign the
  operation yields.  Beyond the typing of FIRRTL this excludes the shifts to the left of
  signed values, for whose constants \<^verbatim>\<open>consShl\<close> and \<^verbatim>\<open>consDshl\<close> have a \<^verbatim>\<open>TODO\<close>.
\<close>

definition binary_ops :: "OPType list" where
  "binary_ops = [OP_ADD, OP_SUB, OP_MUL, OP_DIV, OP_REM, OP_LT, OP_LEQ, OP_GT, OP_GEQ, OP_EQ, OP_NEQ,
     OP_DSHL, OP_DSHR, OP_AND, OP_OR, OP_XOR, OP_CAT, OP_ASSERT]"

definition unary_ops :: "OPType list" where
  "unary_ops = [OP_ASUINT, OP_SEXT, OP_ASSINT, OP_ASCLOCK, OP_ASASYNCRESET, OP_CVT, OP_NEG, OP_NOT,
     OP_ANDR, OP_ORR, OP_XORR, OP_PAD, OP_SHL, OP_SHR, OP_HEAD, OP_TAIL, OP_BITS, OP_BITS_NOSHIFT, OP_EXIT]"

definition leaf_ops :: "OPType list" where
  "leaf_ops = [OP_INDEX_INT, OP_INDEX, OP_INT, OP_READ_MEM, OP_WRITE_MEM, OP_INVALID, OP_PRINTF, OP_EXT_FUNC]"

definition unsigned_ops :: "OPType list" where
  "unsigned_ops = [OP_DSHL, OP_AND, OP_OR, OP_XOR, OP_CAT, OP_ASUINT, OP_ASCLOCK, OP_ASASYNCRESET,
     OP_NOT, OP_ANDR, OP_ORR, OP_XORR, OP_SHL, OP_HEAD, OP_TAIL]"

definition arg_num :: "OPType \<Rightarrow> nat" where
  "arg_num op = (if op \<in> {OP_BITS, OP_BITS_NOSHIFT} then 2
                 else if op \<in> {OP_PAD, OP_SHL, OP_SHR, OP_HEAD, OP_TAIL} then 1 else 0)"

definition op_ready :: "eattr \<Rightarrow> enode option list \<Rightarrow> bool" where
  "op_ready a cs \<longleftrightarrow>
     (opType a \<in> set binary_ops \<and> (\<exists>c d. cs = [Some c, Some d])
      \<or> opType a \<in> set unary_ops \<and> (\<exists>c. cs = [Some c])
      \<or> opType a \<in> set leaf_ops
      \<or> opType a = OP_MUX \<and> length cs = 3 \<and> None \<notin> set cs
      \<or> opType a = OP_WHEN \<and> length cs = 3 \<and> hd cs \<noteq> None
      \<or> opType a = OP_GROUP \<and> None \<notin> set cs)
     \<and> arg_num (opType a) \<le> length (evalues a) \<and> (\<forall>v \<in> set (evalues a). 0 \<le> v)
     \<and> (opType a \<in> set unsigned_ops \<longrightarrow> \<not> sign a)
     \<and> (opType a \<in> {OP_ASSINT, OP_SEXT, OP_NEG} \<longrightarrow> sign a)
     \<and> (opType a = OP_CAT \<longrightarrow> (\<forall>c \<in> set cs. \<forall>e \<in> set_option c. \<not> e_sign e))"

text \<open>References are to nodes that the analysis knows, with at most one index per dimension.\<close>

fun fold_ready :: "heap \<Rightarrow> (nodeid \<rightharpoonup> valInfo) \<Rightarrow> enode \<Rightarrow> bool" where
  "fold_ready h cm (ENode a cs) \<longleftrightarrow>
     width a = 0
     \<or> (\<forall>c \<in> set cs. \<forall>e \<in> set_option c. fold_ready h cm e)
       \<and> (case nodePtr a of
            Some n \<Rightarrow> cm n \<noteq> None \<and> length cs \<le> length (dimension (h n))
          | None \<Rightarrow> op_ready a cs)"

lemmas ready_defs = op_ready_def binary_ops_def unary_ops_def leaf_ops_def unsigned_ops_def arg_num_def

section \<open>Operands\<close>

text \<open>A constant has the sign of its node, and is not negative where that is unsigned.\<close>

definition sign_right :: "eattr \<Rightarrow> valInfo \<Rightarrow> bool" where
  "sign_right a v \<longleftrightarrow> (is_const v \<longrightarrow> vsign (vattr v) = sign a \<and> (sign a \<or> 0 \<le> v_cons v))"

definition signs_right :: "enode option list \<Rightarrow> operands \<Rightarrow> bool" where
  "signs_right = list_all2 (rel_option (\<lambda>e p. fst p = attr e \<and> sign_right (attr e) (snd p)))"

lemma signs_right_two:
  "signs_right [Some c, Some d] os \<longleftrightarrow>
     (\<exists>v w. os = [Some (attr c, v), Some (attr d, w)] \<and> sign_right (attr c) v \<and> sign_right (attr d) w)"
  by (auto simp: signs_right_def list_all2_Cons1 option_rel_Some1)

lemma signs_right_one:
  "signs_right [Some c] os \<longleftrightarrow> (\<exists>v. os = [Some (attr c, v)] \<and> sign_right (attr c) v)"
  by (auto simp: signs_right_def list_all2_Cons1 option_rel_Some1)

lemma signs_right_operand:
  assumes "signs_right cs os" "operand os i = Some (ca, v)"
  shows "i < length cs \<and> (\<exists>c. cs ! i = Some c \<and> attr c = ca \<and> sign_right ca v)"
proof -
  have l: "list_all2 (rel_option (\<lambda>e p. fst p = attr e \<and> sign_right (attr e) (snd p))) cs os"
    using assms(1) by (simp add: signs_right_def)
  have i: "i < length os" "os ! i = Some (ca, v)" using assms(2) by (auto simp: operand_def split: if_splits)
  from list_all2_nthD2 [OF l i(1)] show ?thesis
    using i list_all2_lengthD [OF l] by (cases "cs ! i") auto
qed

lemma operand_present:
  assumes "signs_right cs os" "i < length cs" "cs ! i \<noteq> None"
  shows "\<exists>p. operand os i = Some p"
proof -
  have l: "list_all2 (rel_option (\<lambda>e p. fst p = attr e \<and> sign_right (attr e) (snd p))) cs os"
    using assms(1) by (simp add: signs_right_def)
  from list_all2_nthD [OF l assms(2)] show ?thesis
    using assms(2,3) list_all2_lengthD [OF l] by (cases "os ! i") (auto simp: operand_def)
qed

lemma signs_right_length: "signs_right cs os \<Longrightarrow> length os = length cs"
  by (simp add: signs_right_def list_all2_lengthD)

section \<open>Every operation succeeds\<close>

lemma fold1_total: "(\<And>v. \<exists>k. f v = Some k) \<Longrightarrow> \<exists>r. fold1 G a [Some p] f z = Some r"
  by (auto simp: fold1_def operand_def dest: spec)

lemma fold2_const_total:
  "(is_const (snd p) \<Longrightarrow> is_const (snd q) \<Longrightarrow> \<exists>k. f (snd p) (snd q) = Some k)
   \<Longrightarrow> \<exists>r. fold2 G a [Some p, Some q] f z = Some r"
  by (auto simp: fold2_def operand_def)

context gmp_lib
begin

lemma u_cat_total: "0 \<le> x \<Longrightarrow> 0 \<le> y \<Longrightarrow> \<exists>k. u_cat G x m y n = Some k"
  by (simp add: u_cat_def laws)

lemma binary_total:
  assumes "opType a \<in> set binary_ops" "cs = [Some c, Some d]" and r: "op_ready a cs" and s: "signs_right cs os"
  shows "\<exists>r. cons_op G cm ty a os = Some r"
proof -
  from s assms(2) obtain v w where os: "os = [Some (attr c, v), Some (attr d, w)]"
    and sv: "sign_right (attr c) v" "sign_right (attr d) w" by (auto simp: signs_right_two)
  have "\<exists>k. u_cat G (v_cons v) m (v_cons w) n = Some k" if "opType a = OP_CAT" "is_const v" "is_const w" for m n
    using that sv r assms(2) by (intro u_cat_total) (auto simp: sign_right_def op_ready_def)
  moreover have "\<not> sign a" if "opType a \<in> set unsigned_ops" using that r by (simp add: op_ready_def)
  ultimately show ?thesis using assms(1)
    by (cases "opType a")
      (auto simp: os binary_ops_def unsigned_ops_def cons_op_def consAdd_def consSub_def consMul_def consDIv_def consRem_def
        consLt_def consLeq_def consGt_def consGeq_def consEq_def consNeq_def consDshl_def consDshr_def consAnd_def
        consOr_def consXor_def consCat_def consAssert_def unsigned_only_def operand_def intro!: fold2_const_total)
qed

lemma unary_total:
  assumes "opType a \<in> set unary_ops" "cs = [Some c]" and r: "op_ready a cs" and s: "signs_right cs os"
  shows "\<exists>r. cons_op G cm ty a os = Some r"
proof -
  from s assms(2) obtain v where os: "os = [Some (attr c, v)]" by (auto simp: signs_right_one)
  have u: "\<not> sign a" if "opType a \<in> set unsigned_ops" using that r by (simp add: op_ready_def)
  have sg: "sign a" if "opType a \<in> {OP_ASSINT, OP_SEXT, OP_NEG}" using that r by (simp add: op_ready_def)
  have n: "\<exists>n. value_at a i = Some n \<and> 0 \<le> n" if "i < arg_num (opType a)" for i
    using that r by (auto simp: value_at_def op_ready_def)
  have n1: "\<exists>n. value_at a 0 = Some n \<and> 0 \<le> n" if "0 < arg_num (opType a)" using n that by blast
  have n2: "\<exists>n. value_at a 1 = Some n \<and> 0 \<le> n" if "1 < arg_num (opType a)" using n that by blast
  show ?thesis using assms(1) u sg n1 n2
    by (cases "opType a")
      (auto simp: os unary_ops_def unsigned_ops_def arg_num_def cons_op_def consAsUInt_def consAsSInt_def consAsClock_def
        consAsAsyncReset_def consCvt_def consNeg_def consNot_def consAndr_def consOrr_def consXorr_def consPad_def
        consShl_def consShr_def consHead_def consTail_def consBits_def consBitsNoShift_def consExit_def Let_def
        unsigned_only_def signed_only_def operand_def intro!: fold1_total)
qed

lemma cons_op_total:
  assumes r: "op_ready a cs" and s: "signs_right cs os"
  shows "\<exists>r. cons_op G cm ty a os = Some r"
proof -
  have len: "length os = length cs" using signs_right_length [OF s] .
  have cases: "opType a \<in> set binary_ops \<and> (\<exists>c d. cs = [Some c, Some d]) \<or> opType a \<in> set unary_ops \<and> (\<exists>c. cs = [Some c])
      \<or> opType a \<in> set leaf_ops \<or> opType a = OP_MUX \<and> length cs = 3 \<and> None \<notin> set cs
      \<or> opType a = OP_WHEN \<and> length cs = 3 \<and> hd cs \<noteq> None \<or> opType a = OP_GROUP \<and> None \<notin> set cs"
    using r by (simp add: op_ready_def)
  then show ?thesis
  proof (elim disjE conjE exE)
    fix c d assume "opType a \<in> set binary_ops" "cs = [Some c, Some d]"
    then show ?thesis by (rule binary_total [OF _ _ r s])
  next
    fix c assume "opType a \<in> set unary_ops" "cs = [Some c]"
    then show ?thesis by (rule unary_total [OF _ _ r s])
  next
    assume "opType a \<in> set leaf_ops"
    then show ?thesis by (auto simp: leaf_ops_def cons_op_def)
  next
    assume m: "opType a = OP_MUX" "length cs = 3" "None \<notin> set cs"
    have "\<exists>p. operand os i = Some p" if "i < 3" for i
      using that m by (intro operand_present [OF s]) (auto dest: nth_mem simp: in_set_conv_nth)
    from this [of 0] this [of 1] this [of 2] m(1) show ?thesis by (auto simp: cons_op_def consMux_def)
  next
    assume w: "opType a = OP_WHEN" "length cs = 3" "hd cs \<noteq> None"
    then have "\<exists>p. operand os 0 = Some p" by (intro operand_present [OF s]) (cases cs; auto)+
    then show ?thesis using w len by (auto simp: cons_op_def consWhen_def branch_def)
  next
    assume g: "opType a = OP_GROUP" "None \<notin> set cs"
    have "None \<notin> set os"
    proof
      assume "None \<in> set os"
      then obtain i where i: "i < length os" "os ! i = None" by (auto simp: in_set_conv_nth)
      then have "cs ! i \<noteq> None" using g(2) len nth_mem [of i cs] by metis
      then show False using i len operand_present [OF s, of i] by (auto simp: operand_def)
    qed
    then have "\<exists>vs. those (map (map_option snd) os) = Some vs"
      by (induction os) (auto simp: eq_commute [of None])
    then show ?thesis using g(1) by (auto simp: cons_op_def consGroup_def)
  qed
qed

section \<open>Signs\<close>

lemma sign_right_const [simp]: "sign_right a (const_info G a c)" "sign_right a (new_info a)"
  by (cases "sign a"; simp add: sign_right_def wrap_unsigned is_const_def)+

lemma sign_right_not_const: "\<not> is_const v \<Longrightarrow> sign_right a v"
  by (simp add: sign_right_def)

lemma fold_sign:
  "fold1 G a os f z = Some r \<Longrightarrow> sign_right a r"
  "fold2 G a os g y = Some r \<Longrightarrow> sign_right a r"
  by (auto simp: fold1_def fold2_def zero_info_eq split: Option.bind_splits if_splits)

lemma sign_right_same: "sign_right b v \<Longrightarrow> sign b = sign a \<Longrightarrow> sign_right a v"
  by (simp add: sign_right_def)

lemma branch_sign:
  assumes "signs_right cs os" "0 < i" "i < length os" "\<forall>c \<in> set (tl cs). branch_fits a c" "os ! i = Some (ca, v)"
  shows "sign_right a v"
proof -
  have "operand os i = Some (ca, v)" using assms(3,5) by (simp add: operand_def)
  from signs_right_operand [OF assms(1) this] obtain c where c: "i < length cs" "cs ! i = Some c" "attr c = ca" "sign_right ca v"
    by blast
  have "Some c = tl cs ! (i - 1)" using c assms(2) by (cases cs) auto
  moreover have "i - 1 < length (tl cs)" using c assms(2) by simp
  ultimately have "Some c \<in> set (tl cs)" by (metis nth_mem)
  then have "e_sign c = sign a" using assms(4) by (auto simp: branch_fits_def)
  with c show ?thesis by (cases c) (auto intro: sign_right_same)
qed

lemma consMux_sign:
  assumes s: "signs_right cs os" and f: "\<forall>c \<in> set (tl cs). branch_fits a c" and r: "consMux G a os = Some r"
  shows "sign_right a r"
proof -
  from r obtain c t f' where o: "operand os 0 = Some c" "operand os 1 = Some t" "operand os 2 = Some f'"
    "r \<in> {snd t, snd f', new_info a}"
    by (auto simp: consMux_def split: Option.bind_splits if_splits)
  have "sign_right a (snd t)" "sign_right a (snd f')"
    using o branch_sign [OF s _ _ f, of 1 "fst t" "snd t"] branch_sign [OF s _ _ f, of 2 "fst f'" "snd f'"]
    by (auto simp: operand_def split: if_splits)
  then show ?thesis using o(4) by auto
qed

lemma when_rest_not_const: "\<not> is_const (when_rest G a t f)"
  by (auto simp: when_rest_def when_same_def with_same_def add_members_def is_const_def
      split: option.splits)

lemma consWhen_sign:
  assumes s: "signs_right cs os" and f: "\<forall>c \<in> set (tl cs). branch_fits a c" and r: "consWhen G ty a os = Some r"
  shows "sign_right a r"
proof -
  from r have o: "1 < length os" "2 < length os"
    and "r \<in> {branch_info (map_option snd (os ! 1)), branch_info (map_option snd (os ! 2)),
        when_rest G a (map_option snd (os ! 1)) (map_option snd (os ! 2))}"
    by (auto simp: consWhen_def branch_def split: Option.bind_splits if_splits)
  moreover have "sign_right a (branch_info (map_option snd (os ! i)))" if "0 < i" "i < length os" for i
    using branch_sign [OF s that f]
    by (cases "os ! i") (auto simp: branch_info_def empty_info_def sign_right_def is_const_def)
  moreover have "sign_right a (when_rest G a t f)" for t f by (rule sign_right_not_const [OF when_rest_not_const])
  ultimately show ?thesis by auto
qed

lemma consPad_sign:
  assumes s: "signs_right cs os" and f: "\<forall>c \<in> set cs. \<forall>e \<in> set_option c. e_sign e = sign a" and r: "consPad G a os = Some r"
  shows "sign_right a r"
proof -
  obtain ca v where o: "operand os 0 = Some (ca, v)" using r by (auto simp: consPad_def split: Option.bind_splits)
  from signs_right_operand [OF s o] obtain c where c: "0 < length cs" "cs ! 0 = Some c" "attr c = ca" "sign_right ca v" by blast
  have "Some c \<in> set cs" using c(1,2) by (metis nth_mem)
  then have "sign ca = sign a" using f c(3) by auto
  with c(4) have v: "sign_right a v" by (rule sign_right_same)
  show ?thesis using r o v by (auto simp: consPad_def split: if_splits Option.bind_splits)
qed

lemma leaf_sign:
  "opType a = OP_INT \<Longrightarrow> fold_typed a cs \<Longrightarrow> sign_right a (consInt G a)"
  "(\<And>m. memoryNode a = Some m \<Longrightarrow> ref_typed cm a m) \<Longrightarrow> sign_right a (consReadMem cm a)"
  "sign_right a (consInvalid a)" "sign_right a (new_valInfo w s)"
proof -
  assume op: "opType a = OP_INT" and t: "fold_typed a cs"
  obtain base str where b: "firStrBase (strVal a) = (base, str)" by fastforce
  have "sign a" if "str \<noteq> []" "hd str = CHR ''-''" using t op b that by (cases str) (auto simp: fold_typed_def)
  then have "(sign a \<or> str \<noteq> [] \<and> hd str = CHR ''-'') = sign a" by blast
  then have "consInt G a = const_info G a (mpz_set_str G str base)"
    by (simp add: consInt_def b setConstantByStr_def const_info_def new_info_def)
  then show "sign_right a (consInt G a)" by simp
next
  assume m: "\<And>m. memoryNode a = Some m \<Longrightarrow> ref_typed cm a m"
  show "sign_right a (consReadMem cm a)"
  proof (cases "Option.bind (memoryNode a) cm")
    case (Some v)
    then obtain n where n: "memoryNode a = Some n" "cm n = Some v" by (auto split: Option.bind_splits)
    have "sign a \<or> 0 \<le> v_cons v" if "is_const v"
      using m [OF n(1)] n(2) that by (cases "sign a") (auto simp: ref_typed_def fits_unsigned)
    then show ?thesis using Some
      by (auto simp: consReadMem_def sign_right_def is_const_def)
  qed (simp add: consReadMem_def)
next
  show "sign_right a (consInvalid a)" "sign_right a (new_valInfo w s)"
    by (simp_all add: consInvalid_def sign_right_def is_const_def new_valInfo_def new_vinfo_def)
qed

lemma other_sign:
  "consGroup G a os = Some r \<Longrightarrow> sign_right a r" "consOr G a os = Some r \<Longrightarrow> sign_right a r"
  "consAssert G a os = Some r \<Longrightarrow> sign_right a r" "consExit G a os = Some r \<Longrightarrow> sign_right a r"
proof -
  have m: "sign_right a (add_members ms v)" if "sign_right a v" for ms v
    using that by (simp add: sign_right_def is_const_def add_members_def)
  show "consGroup G a os = Some r \<Longrightarrow> sign_right a r"
    by (auto simp: consGroup_def intro!: m split: Option.bind_splits option.splits)
  show "consOr G a os = Some r \<Longrightarrow> sign_right a r" "consAssert G a os = Some r \<Longrightarrow> sign_right a r"
    "consExit G a os = Some r \<Longrightarrow> sign_right a r"
    by (auto simp: consOr_def consAssert_def consExit_def split: Option.bind_splits if_splits)
qed

lemma shift_sign:
  "consShl G a os = Some r \<Longrightarrow> sign_right a r" "consHead G a os = Some r \<Longrightarrow> sign_right a r"
  "consTail G a os = Some r \<Longrightarrow> sign_right a r" "consBits G a os = Some r \<Longrightarrow> sign_right a r"
  "consBitsNoShift G a os = Some r \<Longrightarrow> sign_right a r"
  by (auto simp: consShl_def consHead_def consTail_def consBits_def consBitsNoShift_def Let_def
      split: Option.bind_splits dest: fold_sign)

lemma cons_op_sign:
  assumes r: "op_ready a cs" and s: "signs_right cs os" and t: "fold_typed a cs"
    and m: "\<And>m. memoryNode a = Some m \<Longrightarrow> ref_typed cm a m" and run: "cons_op G cm ty a os = Some v"
  shows "sign_right a v"
proof (cases "opType a \<in> {OP_MUX, OP_WHEN, OP_PAD, OP_INT, OP_READ_MEM}")
  case True
  then show ?thesis
  proof (elim insertE emptyE)
    assume "opType a = OP_MUX"
    then show ?thesis using t run by (intro consMux_sign [OF s]) (auto simp: fold_typed_def cons_op_def)
  next
    assume "opType a = OP_WHEN"
    then show ?thesis using t run by (intro consWhen_sign [OF s]) (auto simp: fold_typed_def cons_op_def)
  next
    assume "opType a = OP_PAD"
    then show ?thesis using t run by (intro consPad_sign [OF s]) (auto simp: fold_typed_def cons_op_def)
  next
    assume "opType a = OP_INT"
    then show ?thesis using leaf_sign(1) [OF _ t] run by (auto simp: cons_op_def)
  next
    assume "opType a = OP_READ_MEM"
    then show ?thesis using leaf_sign(2) [OF m] run by (auto simp: cons_op_def)
  qed
next
  case False
  have "opType a \<noteq> OP_RESET" using t by (auto simp: fold_typed_def)
  then show ?thesis using False run
    by (cases "opType a")
      (auto simp: cons_op_def consAdd_def consSub_def consMul_def consDIv_def consRem_def
        consLt_def consLeq_def consGt_def consGeq_def consEq_def consNeq_def consDshl_def consDshr_def consAnd_def
        consXor_def consCat_def consAsUInt_def consAsSInt_def consAsClock_def
        consAsAsyncReset_def consCvt_def consNeg_def consNot_def consAndr_def consOrr_def consXorr_def consShr_def
        leaf_sign(3,4) dest: fold_sign other_sign shift_sign)
qed

section \<open>Whole trees\<close>

lemma cons_ref_total:
  assumes "cm n \<noteq> None" "length cs \<le> length (dimension (h n))" and t: "ref_typed cm a n"
  shows "\<exists>r. cons_ref G h cm l (ENode a cs) n = Some r \<and> sign_right a r"
proof -
  obtain v where v: "cm n = Some v" using assms(1) by auto
  have i: "length is \<le> length (dimension (h n))" if "index_values (ENode a cs) = Some is" for "is"
    using that assms(2) by (auto simp: index_values_def those_map_Some dest: list_all2_lengthD)
  have "\<exists>r. ref_copy h (ENode a cs) n v = Some r"
    using i by (auto simp: ref_copy_def getIdx_def isArray_def Let_def split: option.splits)
  then obtain r where r: "ref_copy h (ENode a cs) n v = Some r" by blast
  then have e: "v_status r = v_status v" "v_cons r = v_cons v" "vsign (vattr r) = vsign (vattr v)"
    by (auto simp: ref_copy_def dup_info_def dup_plain_def split: if_splits Option.bind_splits)
  have ty: "vsign (vattr v) = sign a \<and> (sign a \<or> 0 \<le> v_cons v)" if "is_const v"
    using t v that by (cases "sign a") (auto simp: ref_typed_def fits_unsigned)
  then have s: "sign_right a r" using e by (auto simp: sign_right_def is_const_def)
  then have "is_const r \<Longrightarrow> sign_right a (updateConsVal G r)"
    by (cases "sign a") (auto simp: sign_right_def wrap_unsigned)
  with s show ?thesis using v r
    by (auto simp: cons_ref_def Let_def sign_right_def is_const_def)
qed

lemma computeConstant_total:
  "foldable cm e \<Longrightarrow> fold_ready h cm e \<Longrightarrow> \<exists>t. computeConstant G h cm ty False e = Some t \<and> sign_right (attr e) (cinfo t)"
proof (induction e)
  case (ENode a cs)
  show ?case
  proof (cases "width a = 0")
    case False
    let ?f = "\<lambda>c. case c of None \<Rightarrow> Some None | Some e \<Rightarrow> map_option Some (computeConstant G h cm ty False e)"
    have kids: "\<exists>t. computeConstant G h cm ty False e = Some t \<and> sign_right (attr e) (cinfo t)" if "Some e \<in> set cs" for e
      using ENode.IH [OF that] ENode.prems that False by auto
    then have "\<forall>c \<in> set cs. ?f c \<noteq> None" by (fastforce split: option.splits)
    then obtain cts where cts: "those (map ?f cs) = Some cts" by (induction cs) auto
    let ?os = "map2 (\<lambda>c t. case (c, t) of (Some e, Some ct) \<Rightarrow> Some (attr e, cinfo ct) | _ \<Rightarrow> None) cs cts"
    have l: "list_all2 (\<lambda>c ct. ?f c = Some ct) cs cts" using cts by (simp add: those_map_Some)
    then have "list_all2 (rel_option (\<lambda>e p. fst p = attr e \<and> sign_right (attr e) (snd p))) cs ?os"
      using kids
    proof (induction rule: list_all2_induct)
      case (Cons c cs ct cts)
      then show ?case by (cases c) (fastforce split: option.splits)+
    qed simp
    then have s: "signs_right cs ?os" by (simp add: signs_right_def)
    have "\<exists>r. (case nodePtr a of Some n \<Rightarrow> cons_ref G h cm False (ENode a cs) n | None \<Rightarrow> cons_op G cm ty a ?os) = Some r
        \<and> sign_right a r"
    proof (cases "nodePtr a")
      case (Some n)
      then show ?thesis using ENode.prems False by (auto intro!: cons_ref_total)
    next
      case None
      then have p: "op_ready a cs" "fold_typed a cs" "\<And>m. memoryNode a = Some m \<Longrightarrow> ref_typed cm a m"
        using ENode.prems False by auto
      obtain r where "cons_op G cm ty a ?os = Some r" using cons_op_total [OF p(1) s] by blast
      moreover from cons_op_sign [OF p(1) s p(2,3) this] have "sign_right a r" .
      ultimately show ?thesis using None by simp
    qed
    then show ?thesis using False cts by auto
  qed (simp add: zero_info_eq)
qed

end

end
