(* ===== verification/ConstSound.thy ===== *)
theory ConstSound
  imports ConstReady
begin

section \<open>Soundness of constant folding\<close>

text \<open>
  The operations that may return the info of an operand (padding, selection, reset), the
  references and literals, and the soundness of \<^verbatim>\<open>computeConstant\<close> for whole trees.
\<close>

lemma sound_transfer:
  "eval E e' = Undef \<or> eval E e' = eval E e \<Longrightarrow> sound E e v \<Longrightarrow> sound E e' v"
  by (auto simp: sound_def refines_def)

lemma operand_good:
  assumes "op_env E a cs os" "operand os i = Some (ca, v)"
  shows "i < length cs \<and> (\<exists>c. cs ! i = Some c \<and> attr c = ca \<and> good E c v)"
proof -
  have l: "list_all2 (rel_option (\<lambda>e p. fst p = attr e \<and> good E e (snd p))) cs os"
    using assms(1) by (simp add: op_env_def)
  have i: "i < length os" "os ! i = Some (ca, v)" using assms(2) by (auto simp: operand_def split: if_splits)
  from list_all2_nthD2 [OF l i(1)] show ?thesis
    using i list_all2_lengthD [OF l] by (cases "cs ! i") auto
qed

context gmp_lib
begin

lemma pad_value:
  assumes env: "op_env E a cs os" and op: "opType a = OP_PAD" and cs: "cs = Some c # cs'"
    and u: "eval E (ENode a cs) = Val u"
  shows "eval E c = Val u \<and> fits (nat (e_width c)) (sign a) u \<and> fits (nat (width a)) (sign a) u \<and> info_exact c"
proof -
  have sp: "opType a \<notin> set special_ops" by (simp add: op special_ops_def)
  from env sp u show ?thesis
  proof (cases rule: eval_plain_Val)
    case (one c0 x p)
    have c: "c0 = c" "cs' = []" using one(1) cs by simp_all
    have t: "e_sign c = sign a" "e_width c \<le> width a" "info_exact c"
      using typed_of [OF env] op one(1) c(1) by (auto simp: fold_typed_def)
    have f: "fits (nat (e_width c)) (sign a) x" using eval_fits [OF one(2,3)] t(1) c(1) by simp
    have f': "fits (nat (width a)) (sign a) x" by (rule fits_mono [OF f]) (use t(2) in simp)
    have "p = x" using one(4) op by (simp add: prim1_def)
    then have "u = x" using one(5) f' by (simp add: wrap_fits)
    with f f' t(3) one(2) c(1) show ?thesis by simp
  next
    case (two c d x y p)
    from two(6) op show ?thesis by (simp add: prim2_def)
  qed
qed

lemma consPad_good:
  assumes env: "op_env E a cs os" and op: "opType a = OP_PAD" and run: "consPad G a os = Some r"
  shows "good E (ENode a cs) r"
proof -
  have sp: "opType a \<notin> set special_ops" by (simp add: op special_ops_def)
  note nk = eval_plain_not_Keep [OF env sp]
  obtain ca v where o: "operand os 0 = Some (ca, v)"
    using run by (auto simp: consPad_def split: Option.bind_splits)
  from operand_good [OF env o] obtain c cs' where cs: "cs = Some c # cs'" "good E c v"
    by (cases cs) auto
  note val = pad_value [OF env op cs(1)]
  have run': "(if \<not> sign a \<or> width a \<le> v_width v then Some v
      else if is_const v
      then do { n \<leftarrow> value_at a 0; Some (const_info G a (s_pad G (v_cons v) (bits_of v) (nat n))) }
      else Some (new_info a)) = Some r"
    using run o by (simp add: consPad_def)
  show ?thesis
  proof (cases "\<not> sign a \<or> width a \<le> v_width v")
    case True
    have "eval E (ENode a cs) = Undef \<or> eval E (ENode a cs) = eval E c"
    proof (cases "eval E (ENode a cs)")
      case (Val u)
      with val [OF Val] show ?thesis by simp
    qed (use nk in simp_all)
    then have "sound E (ENode a cs) v" by (rule sound_transfer) (use cs(2) in \<open>simp add: good_def\<close>)
    moreover have "v_width v = width a" if x: "info_exact (ENode a cs)" "v_status v \<noteq> VAL_EMPTY"
    proof -
      have "nodePtr a = None" "width a \<noteq> 0" using env by (simp_all add: op_env_def)
      with x(1) op cs(1) have c: "info_exact c" "e_width c = width a \<or> sign a \<and> e_width c < width a" by simp_all
      then have "v_width v = e_width c" using cs(2) x(2) by (simp add: good_def exact_def)
      with c(2) True show ?thesis by auto
    qed
    moreover have "is_const v \<Longrightarrow> vsign (vattr v) = sign a"
      using cs typed_of [OF env] op by (simp add: good_def exact_def fold_typed_def)
    ultimately have "sound E (ENode a cs) v" "exact (ENode a cs) v"
      by (auto simp: exact_def simp del: info_exact.simps)
    moreover have "r = v" using run' True by simp
    moreover have "coherent v" using cs(2) by (simp add: good_def)
    ultimately show ?thesis by (simp add: good_def del: info_exact.simps)
  next
    case False
    show ?thesis
    proof (cases "is_const v")
      case True
      with run' False obtain n where r: "r = const_info G a (s_pad G (v_cons v) (bits_of v) (nat n))"
        by (cases "value_at a 0") auto
      have "u = wrap (nat (width a)) (sign a) (s_pad G (v_cons v) (bits_of v) (nat n))"
        if u: "eval E (ENode a cs) = Val u" for u
      proof -
        note vu = val [OF u]
        have "v_cons v = u" by (rule good_at(1) [OF cs(2) True]) (use vu in simp)
        moreover have "v_width v = e_width c" by (rule good_at(3) [OF cs(2), of u]) (use vu in simp_all)
        moreover have "s_pad G u (nat (e_width c)) (nat n) = u" using vu False by (intro pad_signed) simp
        ultimately show ?thesis using vu by (simp add: wrap_fits)
      qed
      then show ?thesis unfolding r by (rule good_const [OF _ nk])
    next
      case nc: False
      with run' False have "r = new_info a" by simp
      then show ?thesis by simp
    qed
  qed
qed

lemma shift_good:
  assumes "op_env E a cs os"
  shows "opType a = OP_SHL \<Longrightarrow> consShl G a os = Some r \<Longrightarrow> good E (ENode a cs) r"
    and "opType a = OP_SHR \<Longrightarrow> consShr G a os = Some r \<Longrightarrow> good E (ENode a cs) r"
    and "opType a = OP_HEAD \<Longrightarrow> consHead G a os = Some r \<Longrightarrow> good E (ENode a cs) r"
proof -
  assume op: "opType a = OP_SHL" and run: "consShl G a os = Some r"
  obtain n where n: "value_at a 0 = Some n"
    "fold1 G a os (\<lambda>x. unsigned_only a (u_shl G (v_cons x) (bits_of x) (nat n))) nowhere1 = Some r"
    using run by (auto simp: consShl_def split: Option.bind_splits)
  from n(2) show "good E (ENode a cs) r"
    by (rule fold1_good [OF assms])
       (use op n(1) in \<open>auto simp: op_simps value_at_def u_shl_def laws push_bit_eq_mult split: if_splits list.splits\<close>)
next
  assume op: "opType a = OP_SHR" and run: "consShr G a os = Some r"
  from run [unfolded consShr_def] show "good E (ENode a cs) r"
    by (rule fold1_good [OF assms])
       (use op typed_of [OF assms] in \<open>auto simp: op_simps value_at_def fold_typed_def fits_unsigned shr_unsigned
          split: if_splits list.splits Option.bind_splits\<close>)
next
  assume op: "opType a = OP_HEAD" and run: "consHead G a os = Some r"
  obtain n where n: "value_at a 0 = Some n"
    "fold1 G a os (\<lambda>x. unsigned_only a (u_head G (v_cons x) (bits_of x) (nat n))) nowhere1 = Some r"
    using run by (auto simp: consHead_def split: Option.bind_splits)
  from n(2) show "good E (ENode a cs) r"
    by (rule fold1_good [OF assms])
       (use op n(1) typed_of [OF assms] in \<open>auto simp: op_simps value_at_def fold_typed_def fits_unsigned
          head_unsigned take_bit_int_eq_self split: if_splits list.splits\<close>)
qed

lemma tail_reading: "fits b s v \<Longrightarrow> u_tail G v b n = take_bit n (take_bit b v)"
proof -
  assume f: "fits b s v"
  have "u_tail G v b n = take_bit n (if v < 0 then 2 ^ b + v else v)"
    by (simp add: u_tail_def laws mask and.commute [of "mask n"] take_bit_eq_mask [symmetric])
  then show ?thesis by (simp only: unsigned_reading [OF f])
qed

lemma consTail_good:
  assumes env: "op_env E a cs os" and op: "opType a = OP_TAIL" and run: "consTail G a os = Some r"
  shows "good E (ENode a cs) r"
proof -
  obtain n where n: "value_at a 0 = Some n"
    "fold1 G a os (\<lambda>x. unsigned_only a (u_tail G (v_cons x) (bits_of x) (nat (min (width a) n)))) nowhere1 = Some r"
    using run by (auto simp: consTail_def Let_def split: Option.bind_splits)
  from n(2) show ?thesis
  proof (rule fold1_good [OF env])
    fix c x v k p
    assume cs: "cs = [Some c]" and v: "v_cons v = x"
      and k: "unsigned_only a (u_tail G (v_cons v) (bits_of v) (nat (min (width a) n))) = Some k"
      and f: "fits (nat (e_width c)) (e_sign c) x" and e: "info_exact c \<Longrightarrow> v_width v = e_width c"
      and p: "prim1 False (opType a) (evalues a) (nat (e_width c), e_sign c, x) = Some p"
    have w: "v_width v = e_width c" using e typed_of [OF env] op cs by (auto simp: fold_typed_def)
    have "p = take_bit (min (nat (e_width c)) (nat n)) x"
      using p op n(1) by (auto simp: op_simps value_at_def split: list.splits if_splits)
    moreover have "k = take_bit (nat (min (width a) n)) (take_bit (nat (e_width c)) x)"
      using k v w tail_reading [OF f] by (auto simp: unsigned_only_def split: if_splits)
    ultimately have "take_bit (nat (width a)) k = take_bit (nat (width a)) p"
      by (simp add: min_def nat_le_iff split: if_splits)
    then show "wrap (nat (width a)) (sign a) k = wrap (nat (width a)) (sign a) p" by (rule wrap_cong)
  qed (simp_all add: op op_simps)
qed

lemma bits_arg:
  assumes "op_env E a cs os" "opType a = OP_BITS \<or> opType a = OP_BITS_NOSHIFT"
    "value_at a 0 = Some h" "value_at a 1 = Some l" "length (evalues a) = 2"
  shows "evalues a = [h, l]" "nat (h - l + 1) = Suc (nat h) - nat l" "\<And>c. cs = [Some c] \<Longrightarrow> info_exact c"
proof -
  show vs: "evalues a = [h, l]"
    using assms(3-5) by (cases "evalues a" rule: remdups_adj.cases) (auto simp: value_at_def split: if_splits)
  have "0 \<le> h" "0 \<le> l" using typed_of [OF assms(1)] assms(2) vs by (auto simp: fold_typed_def)
  then show "nat (h - l + 1) = Suc (nat h) - nat l" by arith
  show "\<And>c. cs = [Some c] \<Longrightarrow> info_exact c"
    using typed_of [OF assms(1)] assms(2) by (auto simp: fold_typed_def)
qed

lemma bits_out: "nat w \<le> nat l \<Longrightarrow> drop_bit (nat l) (take_bit (nat w) x) = 0" for x :: int
  by (simp add: drop_bit_take_bit)

lemma consBits_good:
  assumes env: "op_env E a cs os" and op: "opType a = OP_BITS" and run: "consBits G a os = Some r"
  shows "good E (ENode a cs) r"
proof -
  obtain h l where n: "value_at a 0 = Some h" "value_at a 1 = Some l"
    "fold1 G a os (\<lambda>x. Some (u_bits G (v_cons x) (bits_of x) (nat h) (nat l)))
       (\<lambda>x. width (fst x) \<le> l \<or> v_width (snd x) \<le> l) = Some r"
    using run by (auto simp: consBits_def split: Option.bind_splits)
  have two: "length (evalues a) = 2" if "prim1 False (opType a) (evalues a) q = Some p" for q p
    using that op by (auto simp: prim1_def split: prod.splits list.splits)
  from n(3) show ?thesis
  proof (rule fold1_good [OF env])
    fix c x v k p
    assume cs: "cs = [Some c]" and v: "v_cons v = x"
      and k: "Some (u_bits G (v_cons v) (bits_of v) (nat h) (nat l)) = Some k"
      and f: "fits (nat (e_width c)) (e_sign c) x" and e: "info_exact c \<Longrightarrow> v_width v = e_width c"
      and p: "prim1 False (opType a) (evalues a) (nat (e_width c), e_sign c, x) = Some p"
    note b = bits_arg [OF env _ n(1,2) two [OF p]]
    from k v e b(3) cs p op show "wrap (nat (width a)) (sign a) k = wrap (nat (width a)) (sign a) p"
      by (simp add: prim1_def b(1,2) bits [OF f])
  next
    fix c x v p
    assume cs: "cs = [Some c]" and z: "width (fst (attr c, v)) \<le> l \<or> v_width (snd (attr c, v)) \<le> l"
      and e: "info_exact c \<Longrightarrow> v_width v = e_width c"
      and p: "prim1 False (opType a) (evalues a) (nat (e_width c), e_sign c, x) = Some p"
    note b = bits_arg [OF env _ n(1,2) two [OF p]]
    have "nat (e_width c) \<le> nat l" using z e b(3) cs op by auto
    with p op show "wrap (nat (width a)) (sign a) p = 0"
      by (simp add: prim1_def b(1) op bits_out)
  qed (simp_all add: op op_simps)
qed

lemma consBitsNoShift_good:
  assumes env: "op_env E a cs os" and op: "opType a = OP_BITS_NOSHIFT" and run: "consBitsNoShift G a os = Some r"
  shows "good E (ENode a cs) r"
proof -
  obtain h l where n: "value_at a 0 = Some h" "value_at a 1 = Some l"
    "fold1 G a os (\<lambda>x. Some (u_bits_noshift G (v_cons x) (bits_of x) (nat h) (nat l)))
       (\<lambda>x. width (fst x) \<le> l \<or> v_width (snd x) \<le> l) = Some r"
    using run by (auto simp: consBitsNoShift_def split: Option.bind_splits)
  have two: "length (evalues a) = 2" if "prim1 False (opType a) (evalues a) q = Some p" for q p
    using that op by (auto simp: prim1_def split: prod.splits list.splits)
  from n(3) show ?thesis
  proof (rule fold1_good [OF env])
    fix c x v k p
    assume cs: "cs = [Some c]" and v: "v_cons v = x"
      and k: "Some (u_bits_noshift G (v_cons v) (bits_of v) (nat h) (nat l)) = Some k"
      and f: "fits (nat (e_width c)) (e_sign c) x" and e: "info_exact c \<Longrightarrow> v_width v = e_width c"
      and p: "prim1 False (opType a) (evalues a) (nat (e_width c), e_sign c, x) = Some p"
    note b = bits_arg [OF env _ n(1,2) two [OF p]]
    from k v e b(3) cs p op show "wrap (nat (width a)) (sign a) k = wrap (nat (width a)) (sign a) p"
      by (simp add: prim1_def b(1,2) bits_noshift [OF f])
  next
    fix c x v p
    assume cs: "cs = [Some c]" and z: "width (fst (attr c, v)) \<le> l \<or> v_width (snd (attr c, v)) \<le> l"
      and e: "info_exact c \<Longrightarrow> v_width v = e_width c"
      and p: "prim1 False (opType a) (evalues a) (nat (e_width c), e_sign c, x) = Some p"
    note b = bits_arg [OF env _ n(1,2) two [OF p]]
    have "nat (e_width c) \<le> nat l" using z e b(3) cs op by auto
    with p op show "wrap (nat (width a)) (sign a) p = 0"
      by (simp add: prim1_def b(1) op bits_out)
  qed (simp_all add: op op_simps)
qed

end

section \<open>Selections\<close>

text \<open>What an outcome must satisfy for an info, and the outcome of a branch that may be missing.\<close>

definition osound :: "outcome \<Rightarrow> valInfo \<Rightarrow> bool" where
  "osound r v \<longleftrightarrow>
     (is_const v \<longrightarrow> refines r (Val (v_cons v)))
     \<and> (v_status v = VAL_EMPTY \<longrightarrow> refines r Keep)
     \<and> (v_status v = VAL_INVALID \<longrightarrow> r = Undef)
     \<and> (v_same v \<longrightarrow> r \<in> {Undef, Keep, Val (v_assign v)})"

lemma sound_osound: "sound E e v = osound (eval E e) v"
  by (simp add: sound_def osound_def)

lemma osound_Undef [simp]: "osound Undef v"
  by (simp add: osound_def)

lemma osound_empty: "osound Keep empty_info"
  by (simp add: osound_def empty_info_def new_valInfo_def new_vinfo_def is_const_def)

lemma osound_const: "coherent v \<Longrightarrow> is_const v \<Longrightarrow> r = Undef \<or> r = Val (v_cons v) \<Longrightarrow> osound r v"
  by (auto simp: osound_def coherent_def is_const_def refines_def)

lemma osound_is_const: "osound r v \<Longrightarrow> is_const v \<Longrightarrow> r = Undef \<or> r = Val (v_cons v)"
  by (auto simp: osound_def refines_def)

lemma osound_invalid: "osound r v \<Longrightarrow> v_status v = VAL_INVALID \<Longrightarrow> r = Undef"
  by (simp add: osound_def)

lemma osound_new: "osound r (new_info a)"
  by (simp add: osound_def is_const_def)

lemma exact_new: "exact (ENode a cs) (new_info a)"
  by (simp add: exact_def)

lemma coherent_new: "coherent (new_info a)"
  by (simp add: coherent_def)

definition bval :: "env \<Rightarrow> enode option \<Rightarrow> outcome" where
  "bval E t = (case t of None \<Rightarrow> Keep | Some e \<Rightarrow> eval E e)"

fun sel :: "outcome \<Rightarrow> outcome \<Rightarrow> outcome \<Rightarrow> outcome" where
  "sel (Val x) t f = (if x \<noteq> 0 then t else f)"
| "sel _ t f = Undef"

lemma eval_fits_branch:
  assumes "branch_fits a t"
  shows "map_outcome_val (wrap (nat (width a)) (sign a)) (bval E t) = bval E t"
proof (cases t)
  case (Some e)
  show ?thesis
  proof (cases "eval E e")
    case (Val v)
    have b: "e_sign e = sign a" "e_width e \<le> width a" "\<not> is_index e"
      using assms Some by (auto simp: branch_fits_def)
    have "fits (nat (e_width e)) (sign a) v" using eval_fits [OF Val b(3)] b(1) by simp
    then have "fits (nat (width a)) (sign a) v" by (rule fits_mono) (use b(2) in simp)
    with Val Some show ?thesis by (simp add: bval_def wrap_fits)
  qed (simp_all add: bval_def Some)
qed (simp add: bval_def)

lemma eval_select:
  assumes "nodePtr a = None" "opType a = OP_MUX \<or> opType a = OP_WHEN"
    and "\<forall>c \<in> set (tl cs). branch_fits a c"
  shows "eval E (ENode a cs) =
    (case cs of [Some c, t, f] \<Rightarrow> sel (eval E c) (bval E t) (bval E f) | _ \<Rightarrow> Undef)"
proof -
  let ?os = "map (map_option (operand_of E)) cs"
  have k: "keep_bits a = wrap (nat (width a)) (sign a)"
    by (rule ext) (use assms(2) in \<open>auto simp: keep_bits_def\<close>)
  have e: "eval E (ENode a cs) = map_outcome_val (wrap (nat (width a)) (sign a)) (select3 ?os)"
    using assms(1,2) by (auto simp: eval_ENode apply_op_def k)
  show ?thesis
  proof (cases "\<exists>c t f. cs = [Some c, t, f]")
    case True
    then obtain c t f where cs: "cs = [Some c, t, f]" by blast
    have s: "select3 ?os = sel (eval E c) (bval E t) (bval E f)"
      by (cases "eval E c"; cases t; cases f) (simp_all add: cs select3_def bval_def)
    have bt: "map_outcome_val (wrap (nat (width a)) (sign a)) (bval E x) = bval E x" if "x \<in> {t, f}" for x
      by (rule eval_fits_branch) (use that cs assms(3) in auto)
    show ?thesis unfolding e s using bt by (cases "eval E c") (simp_all add: cs)
  next
    case False
    then have "select3 ?os = Undef"
      by (auto simp: select3_def map_eq_Cons_conv split: list.splits option.splits outcome.splits)
    with False show ?thesis unfolding e by (auto split: list.splits option.splits)
  qed
qed

lemma sel_sound:
  assumes T: "osound T t" and F: "osound F f" and c: "good E c0 c"
  shows "is_const c \<Longrightarrow> osound (sel (eval E c0) T F) (if v_cons c = 0 then f else t)"
    and "is_const t \<Longrightarrow> is_const f \<Longrightarrow> v_cons t = v_cons f \<Longrightarrow> coherent t \<Longrightarrow> osound (sel (eval E c0) T F) t"
    and "v_status t = VAL_INVALID \<Longrightarrow> osound (sel (eval E c0) T F) f"
    and "v_status f = VAL_INVALID \<Longrightarrow> osound (sel (eval E c0) T F) t"
proof -
  show "osound (sel (eval E c0) T F) (if v_cons c = 0 then f else t)" if "is_const c"
    using good_at(1) [OF c that] T F by (cases "eval E c0") simp_all
  show "osound (sel (eval E c0) T F) t"
    if k: "is_const t" "is_const f" "v_cons t = v_cons f" "coherent t"
    using osound_is_const [OF T k(1)] osound_is_const [OF F k(2)] k(3)
    by (intro osound_const [OF k(4,1)]; cases "eval E c0") auto
  show "osound (sel (eval E c0) T F) f" if "v_status t = VAL_INVALID"
    using osound_invalid [OF T that] F by (cases "eval E c0") simp_all
  show "osound (sel (eval E c0) T F) t" if "v_status f = VAL_INVALID"
    using osound_invalid [OF F that] T by (cases "eval E c0") simp_all
qed

lemma branch_good:
  assumes "op_env E a cs os" "branch os i = Some b" "i \<noteq> 0"
  shows "i < length cs" "osound (bval E (cs ! i)) (branch_info b)"
    "coherent (branch_info b)"
    "(opType a = OP_MUX \<or> opType a = OP_WHEN) \<Longrightarrow> exact (ENode a cs) (branch_info b)"
proof -
  have l: "list_all2 (rel_option (\<lambda>e p. fst p = attr e \<and> good E e (snd p))) cs os"
    and n: "nodePtr a = None" "width a \<noteq> 0"
    using assms(1) by (simp_all add: op_env_def)
  have i: "i < length os" "b = map_option snd (os ! i)" using assms(2) by (auto simp: branch_def split: if_splits)
  then show ic: "i < length cs" using list_all2_lengthD [OF l] by simp
  have r: "rel_option (\<lambda>e p. fst p = attr e \<and> good E e (snd p)) (cs ! i) (os ! i)"
    by (rule list_all2_nthD2 [OF l i(1)])
  have m: "cs ! i \<in> set (tl cs)" using ic assms(3) by (cases cs; cases i) auto
  show "osound (bval E (cs ! i)) (branch_info b)"
    using r by (cases "cs ! i"; cases "os ! i")
      (auto simp: i(2) bval_def branch_info_def osound_empty good_def sound_osound)
  show "coherent (branch_info b)"
    using r by (cases "cs ! i"; cases "os ! i")
      (auto simp: i(2) branch_info_def good_def coherent_def empty_info_def is_const_def)
  assume op: "opType a = OP_MUX \<or> opType a = OP_WHEN"
  show "exact (ENode a cs) (branch_info b)"
  proof (cases "cs ! i")
    case None
    with r have "b = None" by (cases "os ! i") (auto simp: i(2))
    then show ?thesis by (simp add: exact_def branch_info_def empty_info_def is_const_def)
  next
    case (Some c)
    with r obtain p where p: "b = Some (snd p)" "good E c (snd p)" by (cases "os ! i") (auto simp: i(2))
    have "info_exact c \<and> e_width c = width a" if "info_exact (ENode a cs)"
      using that op n m Some by auto
    moreover have "e_sign c = sign a"
      using typed_of [OF assms(1)] op m Some by (fastforce simp: fold_typed_def branch_fits_def)
    ultimately show ?thesis using p by (auto simp: exact_def good_def branch_info_def simp del: info_exact.simps)
  qed
qed

context gmp_lib
begin

lemma consMux_good:
  assumes env: "op_env E a cs os" and op: "opType a = OP_MUX" and run: "consMux G a os = Some r"
  shows "good E (ENode a cs) r"
proof -
  obtain ca c ta t fa f where o: "operand os 0 = Some (ca, c)" "operand os 1 = Some (ta, t)"
    "operand os 2 = Some (fa, f)"
    using run by (auto simp: consMux_def split: Option.bind_splits)
  have b: "branch os 1 = Some (Some t)" "branch os 2 = Some (Some f)"
    using o by (auto simp: operand_def branch_def split: if_splits)
  have n: "nodePtr a = None" "\<forall>c \<in> set (tl cs). branch_fits a c"
    using env typed_of [OF env] op by (simp_all add: op_env_def fold_typed_def)
  obtain c0 where c0: "0 < length cs" "cs ! 0 = Some c0" "good E c0 c" using operand_good [OF env o(1)] by blast
  note bt = branch_good [OF env b(1)] and bf = branch_good [OF env b(2)]
  let ?T = "bval E (cs ! 1)" and ?F = "bval E (cs ! 2)"
  have T: "osound ?T t" and F: "osound ?F f" using bt(2) bf(2) by (simp_all add: branch_info_def)
  have ev: "eval E (ENode a cs) = Undef \<or> eval E (ENode a cs) = sel (eval E c0) ?T ?F"
    using eval_select [OF n(1) _ n(2), of E] op c0(2) by (auto split: list.splits option.splits)
  note s = sel_sound [OF T F c0(3)]
  have k: "coherent t" "coherent f" "exact (ENode a cs) t" "exact (ENode a cs) f"
    using bt(3,4) bf(3,4) op by (simp_all add: branch_info_def)
  have r: "r = (if is_const c then (if v_cons c = 0 then f else t)
      else if is_const t \<and> is_const f \<and> v_cons t = v_cons f then t else new_info a)"
    using run unfolding consMux_def o by (simp only: Option.bind.simps prod.case cmp_eq option.inject)
  have "osound (sel (eval E c0) ?T ?F) r"
    unfolding r using s(1) s(2) k(1) by (cases "is_const c") (simp_all add: osound_new)
  with ev have "sound E (ENode a cs) r" by (auto simp: sound_osound)
  moreover have "exact (ENode a cs) r" "coherent r"
    unfolding r using k by (simp_all add: exact_new coherent_new)
  ultimately show ?thesis by (simp add: good_def)
qed

lemma osound_when_same:
  assumes "osound T v" "r = T \<or> r = Undef \<or> r = Keep"
  shows "osound r (when_same a v)"
proof -
  have "v_same v \<Longrightarrow> r \<in> {Undef, Keep, Val (v_assign v)}" using assms by (auto simp: osound_def)
  then show ?thesis by (simp add: osound_def when_same_def with_same_def is_const_def)
qed

lemma osound_same:
  "osound T v \<Longrightarrow> v_same v \<Longrightarrow> r = T \<or> r = Undef \<Longrightarrow> osound r (with_same (v_assign v) (new_info a))"
  using osound_when_same [of T v r a] by (auto simp: when_same_def)

lemma osound_add [simp]: "osound r (add_members ms v) = osound r v"
  by (simp add: osound_def add_members_def is_const_def)

lemma branch_empty_outcome: "osound T (branch_info t) \<Longrightarrow> branch_empty t \<Longrightarrow> T = Undef \<or> T = Keep"
  by (cases t) (auto simp: branch_empty_def branch_info_def empty_info_def osound_def refines_def)

lemma when_rest_sound:
  assumes T: "osound T (branch_info t)" and F: "osound F (branch_info f)" and r: "r = T \<or> r = F \<or> r = Undef"
  shows "osound r (when_rest G a t f)"
proof (cases "branch_empty t")
  case te: True
  note Te = branch_empty_outcome [OF T te]
  show ?thesis
  proof (cases "branch_empty f")
    case True
    have "r = Undef \<or> r = Keep" using Te branch_empty_outcome [OF F True] r by auto
    then show ?thesis using te True by (auto simp: when_rest_def osound_def is_const_def refines_def)
  next
    case False
    then obtain fv where f: "f = Some fv" by (cases f) (auto simp: branch_empty_def)
    have "osound r (when_same a fv)"
      by (rule osound_when_same [of F]) (use F Te r f in \<open>auto simp: branch_info_def\<close>)
    with te False f show ?thesis by (cases t) (simp_all add: when_rest_def)
  qed
next
  case nt: False
  then obtain tv where t: "t = Some tv" by (cases t) (auto simp: branch_empty_def)
  have Tv: "osound T tv" using T t by (simp add: branch_info_def)
  show ?thesis
  proof (cases "branch_empty f")
    case True
    have "osound r (when_same a tv)"
      by (rule osound_when_same [OF Tv]) (use branch_empty_outcome [OF F True] r in auto)
    with nt True t show ?thesis by (cases f) (simp_all add: when_rest_def)
  next
    case nf: False
    then obtain fv where f: "f = Some fv" by (cases f) (auto simp: branch_empty_def)
    have Fv: "osound F fv" using F f by (simp add: branch_info_def)
    have "osound r (with_same (v_assign tv) (new_info a))"
      if "v_same tv" "v_same fv" "v_assign tv = v_assign fv"
      using r osound_same [OF Tv that(1), of _ a] osound_same [OF Fv that(2), of _ a] that(3) by metis
    then show ?thesis using nt nf t f by (simp add: when_rest_def laws osound_new)
  qed
qed

lemma when_rest_width: "v_status (when_rest G a t f) \<noteq> VAL_EMPTY \<Longrightarrow> v_width (when_rest G a t f) = width a"
  by (auto simp: when_rest_def when_same_def with_same_def add_members_def split: if_splits option.splits)

lemma consWhen_good:
  assumes env: "op_env E a cs os" and op: "opType a = OP_WHEN" and run: "consWhen G ty a os = Some r"
  shows "good E (ENode a cs) r"
proof -
  obtain ca c t f where o: "operand os 0 = Some (ca, c)" and b: "branch os 1 = Some t" "branch os 2 = Some f"
    using run by (auto simp: consWhen_def split: Option.bind_splits)
  have n: "nodePtr a = None" "\<forall>c \<in> set (tl cs). branch_fits a c"
    using env typed_of [OF env] op by (simp_all add: op_env_def fold_typed_def)
  obtain c0 where c0: "0 < length cs" "cs ! 0 = Some c0" "good E c0 c" using operand_good [OF env o] by blast
  note bt = branch_good [OF env b(1)] and bf = branch_good [OF env b(2)]
  let ?T = "bval E (cs ! 1)" and ?F = "bval E (cs ! 2)"
  have T: "osound ?T (branch_info t)" and F: "osound ?F (branch_info f)" using bt(2) bf(2) by simp_all
  have ev: "eval E (ENode a cs) = Undef \<or> eval E (ENode a cs) = sel (eval E c0) ?T ?F"
    using eval_select [OF n(1) _ n(2), of E] op c0(2) by (auto split: list.splits option.splits)
  have st: "branch_status x y \<Longrightarrow> v_status (branch_info x) = y" for x y
    by (cases x) (simp_all add: branch_status_def branch_info_def)
  note s = sel_sound [OF T F c0(3)]
  have k: "coherent (branch_info t)" "coherent (branch_info f)" "coherent (when_rest G a t f)"
    "exact (ENode a cs) (branch_info t)" "exact (ENode a cs) (branch_info f)" "exact (ENode a cs) (when_rest G a t f)"
    using bt(3,4) bf(3,4) op when_rest_width [of a t f] when_rest_not_const [where a = a and t = t and f = f]
    by (simp_all add: exact_def coherent_def del: info_exact.simps)
  let ?c1 = "branch_status t VAL_CONSTANT \<and> branch_status f VAL_CONSTANT
           \<and> v_cons (branch_info t) = v_cons (branch_info f)"
    and ?c2 = "branch_status t VAL_INVALID \<and> ty = NODE_OTHERS"
    and ?c3 = "branch_status f VAL_INVALID \<and> ty = NODE_OTHERS"
  have r: "r = (if is_const c then (if v_cons c = 0 then branch_info f else branch_info t)
      else if ?c1 then branch_info t else if ?c2 then branch_info f else if ?c3 then branch_info t
      else when_rest G a t f)"
    using run unfolding consWhen_def o b by (simp only: Option.bind.simps prod.case cmp_eq option.inject)
  have sel: "sel (eval E c0) ?T ?F = ?T \<or> sel (eval E c0) ?T ?F = ?F \<or> sel (eval E c0) ?T ?F = Undef"
    by (cases "eval E c0") simp_all
  have c1: "osound (sel (eval E c0) ?T ?F) (branch_info t)" if ?c1
    using that st by (intro s(2) k(1)) (auto simp: is_const_def)
  have c2: "osound (sel (eval E c0) ?T ?F) (branch_info f)" if ?c2 by (rule s(3)) (use that st in blast)
  have c3: "osound (sel (eval E c0) ?T ?F) (branch_info t)" if ?c3 by (rule s(4)) (use that st in blast)
  have "osound (sel (eval E c0) ?T ?F) r"
  proof (cases "is_const c")
    case True
    then show ?thesis unfolding r using s(1) by simp
  next
    case False
    then show ?thesis unfolding r using c1 c2 c3 when_rest_sound [OF T F sel, of a] by presburger
  qed
  with ev have "sound E (ENode a cs) r" by (auto simp: sound_osound)
  moreover have "exact (ENode a cs) r" "coherent r"
    unfolding r using k by presburger+
  ultimately show ?thesis by (simp add: good_def)
qed

section \<open>Leaves\<close>

lemma eval_not_operation:
  assumes "op_env E a cs os" "opType a \<notin> set special_ops"
    and "\<And>b vs p. prim1 b (opType a) vs p = None" "\<And>p q. prim2 (opType a) p q = None"
  shows "eval E (ENode a cs) = Undef"
proof (cases "eval E (ENode a cs)")
  case (Val v)
  from assms(1,2) this show ?thesis by (cases rule: eval_plain_Val) (simp_all add: assms(3,4))
qed (use eval_plain_not_Keep [OF assms(1,2)] in simp_all)

lemma sound_Undef: "eval E e = Undef \<Longrightarrow> sound E e v"
  by (simp add: sound_osound)

lemma consGroup_good:
  assumes "op_env E a cs os" "opType a = OP_GROUP" "consGroup G a os = Some r"
  shows "good E (ENode a cs) r"
proof -
  have "eval E (ENode a cs) = Undef"
    by (rule eval_not_operation [OF assms(1)]) (simp_all add: assms(2) special_ops_def prim1_def prim2_def split: prod.splits)
  moreover have "v_width r = width a" "coherent r" "vsign (vattr r) = sign a"
    using assms(3) by (auto simp: consGroup_def add_members_def coherent_def is_const_def split: Option.bind_splits option.splits)
  ultimately show ?thesis by (simp add: good_def sound_Undef exact_def)
qed

lemma side_effect_good:
  assumes "op_env E a cs os"
  shows "opType a = OP_ASSERT \<Longrightarrow> consAssert G a os = Some r \<Longrightarrow> good E (ENode a cs) r"
    and "opType a = OP_EXIT \<Longrightarrow> consExit G a os = Some r \<Longrightarrow> good E (ENode a cs) r"
    and "opType a = OP_PRINTF \<Longrightarrow> good E (ENode a cs) (new_valInfo 0 False)"
proof -
  have u: "eval E (ENode a cs) = Undef" if "opType a \<in> {OP_ASSERT, OP_EXIT, OP_PRINTF}"
    by (rule eval_not_operation [OF assms])
       (use that in \<open>auto simp: special_ops_def prim1_def prim2_def split: prod.splits\<close>)
  show "good E (ENode a cs) r" if "opType a = OP_ASSERT" "consAssert G a os = Some r"
  proof -
    have "r = const_info G a 0 \<or> r = new_info a"
      using that(2) by (auto simp: consAssert_def split: Option.bind_splits)
    with u that(1) show ?thesis by (auto simp: good_def sound_Undef exact_def coherent_def)
  qed
  show "good E (ENode a cs) r" if "opType a = OP_EXIT" "consExit G a os = Some r"
  proof -
    have "r = const_info G a 0 \<or> r = new_info a"
      using that(2) by (auto simp: consExit_def split: Option.bind_splits)
    with u that(1) show ?thesis by (auto simp: good_def sound_Undef exact_def coherent_def)
  qed
  show "good E (ENode a cs) (new_valInfo 0 False)" if "opType a = OP_PRINTF"
    using u that assms
    by (auto simp: good_def sound_Undef exact_def coherent_def op_env_def new_valInfo_def new_vinfo_def is_const_def)
qed

lemma consInt_good:
  assumes "op_env E a cs os" "opType a = OP_INT"
  shows "good E (ENode a cs) (consInt G a)"
proof -
  obtain v where v: "int_literal (strVal a) = Some v" "fits (nat (width a)) (sign a) v"
    using typed_of [OF assms(1)] assms(2) by (auto simp: fold_typed_def)
  obtain base str where b: "firStrBase (strVal a) = (base, str)" by fastforce
  let ?s = "sign a \<or> (str \<noteq> [] \<and> hd str = CHR ''-'')"
  have str: "int_of_str base str = Some v" using v(1) b by (simp add: int_literal_def)
  have "wrap (nat (width a)) ?s v = v"
  proof (cases "sign a")
    case False
    then have "0 \<le> v" using v(2) by (simp add: fits_unsigned)
    moreover have "v \<le> 0" if "str \<noteq> []" "hd str = CHR ''-''"
      using str that by (cases str) (auto simp: int_of_str_def)
    ultimately have "v = 0" if "str \<noteq> []" "hd str = CHR ''-''" using that by force
    then show ?thesis using v(2) False by (cases "?s") (auto simp: wrap_fits)
  qed (use v(2) in \<open>simp add: wrap_fits\<close>)
  then have k: "v_cons (consInt G a) = v" "is_const (consInt G a)" "v_assign (consInt G a) = v"
    "v_width (consInt G a) = width a" "vsign (vattr (consInt G a)) = ?s"
    using set_str [OF str]
    by (simp_all add: consInt_def b setConstantByStr_def set_cons_def new_valInfo_def new_vinfo_def)
  have "?s = sign a"
    using typed_of [OF assms(1)] assms(2) b by (cases str) (auto simp: fold_typed_def)
  moreover have "eval E (ENode a cs) = Val v"
    using assms v by (simp add: op_env_def eval_ENode apply_op_def of_opt_def keep_bits_def wrap_fits)
  ultimately show ?thesis using k by (auto simp: good_def exact_def coherent_def intro!: sound_const)
qed

lemma consReadMem_good:
  assumes env: "op_env E a cs os" and op: "opType a = OP_READ_MEM" and k: "known E cm"
    and t: "\<And>m. memoryNode a = Some m \<Longrightarrow> ref_typed cm a m"
  shows "good E (ENode a cs) (consReadMem cm a)"
proof -
  show ?thesis
  proof (cases "\<exists>m v. memoryNode a = Some m \<and> cm m = Some v \<and> is_const v")
    case True
    then obtain m v where m: "memoryNode a = Some m" "cm m = Some v" "is_const v" by blast
    have r: "consReadMem cm a = map_vattr (\<lambda>x. x\<lparr>vstatus := VAL_CONSTANT, consVal := v_cons v\<rparr>) (new_info a)"
      by (simp add: consReadMem_def m)
    have "mem E m i = v_cons v" for i using k m(2,3) by (simp add: known_def)
    moreover have "fits (nat (width a)) (sign a) (v_cons v)" using t [OF m(1)] m(2,3) by (simp add: ref_typed_def)
    ultimately have "eval E (ENode a cs) = Undef \<or> eval E (ENode a cs) = Val (v_cons v)"
      using env op m(1)
      by (auto simp: op_env_def eval_ENode apply_op_def keep_bits_def wrap_fits split: option.splits list.splits)
    then show ?thesis unfolding r
      by (auto simp: good_def exact_def coherent_def sound_def is_const_def refines_def)
  next
    case False
    then have "consReadMem cm a = new_info a"
      by (cases "memoryNode a") (auto simp: consReadMem_def split: option.splits)
    then show ?thesis by simp
  qed
qed

lemma consInvalid_good:
  "op_env E a cs os \<Longrightarrow> opType a = OP_INVALID \<Longrightarrow> good E (ENode a cs) (consInvalid a)"
  by (simp add: good_def exact_def coherent_def sound_osound consInvalid_def op_env_def eval_ENode
      apply_op_def is_const_def)

lemma ref_copy_vattr:
  "ref_copy h e n v = Some r \<Longrightarrow> vattr r = (vattr v)\<lparr>vbeg := vbeg (vattr r), vend := vend (vattr r)\<rparr>"
  by (auto simp: ref_copy_def dup_info_def dup_plain_def split: if_splits Option.bind_splits)

lemma cons_ref_good:
  assumes run: "cons_ref G h cm False (ENode a cs) n = Some r" and n: "nodePtr a = Some n"
    and k: "known E cm" and t: "ref_typed cm a n"
  shows "good E (ENode a cs) r"
proof -
  obtain v r1 where v: "cm n = Some v" and c1: "ref_copy h (ENode a cs) n v = Some r1"
    and r: "r = map_vattr (\<lambda>x. x\<lparr>vwidth := width a\<rparr>)
        (if v_width r1 \<le> BASIC_WIDTH \<and> v_width r1 > width a \<and> is_const r1 then updateConsVal G r1 else r1)"
    using run by (auto simp: cons_ref_def Let_def split: Option.bind_splits)
  note r1 = ref_copy_vattr [OF c1]
  have same: "v_status r1 = v_status v" "v_cons r1 = v_cons v" "v_same r1 = v_same v" "v_assign r1 = v_assign v"
    "v_width r1 = v_width v" "vsign (vattr r1) = vsign (vattr v)"
    by (subst r1; simp)+
  have kn: "is_const v \<Longrightarrow> val E n is = v_cons v" "v_same v \<Longrightarrow> is_const v \<and> v_assign v = v_cons v"
    "v_status v \<noteq> VAL_EMPTY" "v_status v \<noteq> VAL_INVALID" for "is"
    using k v by (auto simp: known_def)
  have ty: "vsign (vattr v) = sign a \<and> fits (nat (width a)) (sign a) (v_cons v)" if "is_const v"
    using t v that by (simp add: ref_typed_def)
  have e: "eval E (ENode a cs) = Undef \<or> eval E (ENode a cs) = Val (v_cons v)" if "is_const v"
    using ty [OF that] kn(1) [OF that] by (auto simp: eval_ref [OF n] wrap_fits split: option.splits)
  have w: "wrap (nat (v_width v)) (vsign (vattr v)) (v_cons v) = v_cons v"
    if "is_const v" "v_width v > width a"
  proof (rule wrap_fits)
    have "fits (nat (width a)) (vsign (vattr v)) (v_cons v)" using ty [OF that(1)] by simp
    then show "fits (nat (v_width v)) (vsign (vattr v)) (v_cons v)" by (rule fits_mono) (use that(2) in simp)
  qed
  have st: "v_status r = v_status v" "v_cons r = v_cons v" "v_width r = width a"
    "v_same r \<Longrightarrow> is_const v" "v_same r \<Longrightarrow> v_assign r = v_cons v"
    using same w kn(2) by (auto simp: r is_const_def split: if_splits)
  then have c: "is_const r = is_const v" by (simp add: is_const_def)
  have "sound E (ENode a cs) r"
    using e st kn(3,4) by (auto simp: sound_def refines_def c)
  moreover have "vsign (vattr r) = vsign (vattr v)" using same by (simp add: r)
  ultimately show ?thesis using st c ty by (auto simp: good_def exact_def coherent_def)
qed

section \<open>Whole trees\<close>

lemma width_0_eval:
  assumes "foldable cm (ENode a cs)" "width a = 0"
  shows "eval E (ENode a cs) \<noteq> Keep \<and> (\<forall>u. eval E (ENode a cs) = Val u \<longrightarrow> u = 0)"
proof (cases "nodePtr a")
  case (Some n)
  then show ?thesis by (auto simp: eval_ref assms(2) split: option.splits)
next
  case None
  have ft: "fold_typed a cs" using assms(1) None by simp
  then have op: "opType a \<notin> {OP_MUX, OP_WHEN, OP_RESET, OP_INDEX, OP_INDEX_INT}"
    using assms(2) by (auto simp: fold_typed_def)
  then have kb: "keep_bits a = (\<lambda>v. 0)" by (auto simp: keep_bits_def assms(2))
  have "apply_prim b oo vs l \<noteq> Keep" for b oo vs l
    by (auto simp: apply_prim_def of_opt_def split: list.splits option.splits prod.splits outcome.splits)
  with op None have "apply_op E a (map (map_option (operand_of E)) cs) \<noteq> Keep"
    by (cases "opType a") (auto simp: apply_op_def of_opt_def split: option.splits list.splits)
  then show ?thesis by (cases "apply_op E a (map (map_option (operand_of E)) cs)") (auto simp: eval_ENode kb)
qed

lemma cons_op_good:
  assumes env: "op_env E a cs os" and k: "known E cm"
    and m: "\<And>m. memoryNode a = Some m \<Longrightarrow> ref_typed cm a m"
    and run: "cons_op G cm ty a os = Some r"
  shows "good E (ENode a cs) r"
proof -
  note arith = arith_good [OF env, of r] unary_good [OF env, of r] reduce_good [OF env, of r] shift_good [OF env, of r]
    side_effect_good(1,2) [OF env, of r] side_effect_good(3) [OF env]
  note other = consSub_good [OF env] consLt_good [OF env] consEq_good [OF env] consDshl_good [OF env]
    consDshr_good [OF env] consAnd_good [OF env] consOr_good [OF env] consXor_good [OF env] consCat_good [OF env]
    consNot_good [OF env] consPad_good [OF env] consTail_good [OF env] consBits_good [OF env]
    consBitsNoShift_good [OF env] consMux_good [OF env] consWhen_good [OF env] consGroup_good [OF env]
    consInt_good [OF env] consReadMem_good [OF env _ k m] consInvalid_good [OF env]
  have nr: "opType a \<noteq> OP_RESET" using typed_of [OF env] by (auto simp: fold_typed_def)
  show ?thesis
    using run nr by (cases "opType a") (auto simp: cons_op_def arith other)
qed

lemma computeConstant_good:
  assumes k: "known E cm" and ht: "\<not> firHeadTail E"
  shows "foldable cm e \<Longrightarrow> computeConstant G h cm ty False e = Some t
    \<Longrightarrow> good E e (cinfo t) \<and> all_sound E e t"
proof (induction e arbitrary: t)
  case (ENode a cs)
  have fc: "\<forall>c \<in> set cs. \<forall>e \<in> set_option c. foldable cm e" using ENode.prems(1) by simp
  show ?case
  proof (cases "width a = 0")
    case True
    then have t: "t = CNode (zero_info G a) []" using ENode.prems(2) by simp
    have nk: "eval E (ENode a cs) \<noteq> Keep \<and> (\<forall>u. eval E (ENode a cs) = Val u \<longrightarrow> u = 0)"
      using ENode.prems(1) True by (rule width_0_eval)
    have "good E (ENode a cs) (const_info G a 0)" by (rule good_const) (use nk in simp_all)
    moreover have "\<not> is_index (ENode a cs)"
      using ENode.prems(1) True by (auto simp: is_index_def fold_typed_def split: option.splits)
    ultimately show ?thesis by (simp add: t zero_info_eq)
  next
    case False
    obtain cts r where cts: "those (map (\<lambda>c. case c of None \<Rightarrow> Some None
          | Some e \<Rightarrow> map_option Some (computeConstant G h cm ty False e)) cs) = Some cts"
      and r: "(case nodePtr a of Some n \<Rightarrow> cons_ref G h cm False (ENode a cs) n
          | None \<Rightarrow> cons_op G cm ty a (map2 (\<lambda>c t. case (c, t) of
              (Some e, Some ct) \<Rightarrow> Some (attr e, cinfo ct) | _ \<Rightarrow> None) cs cts)) = Some r"
      and t: "t = CNode r cts"
      using ENode.prems(2) False by (auto simp: split: Option.bind_splits)
    have kids: "list_all2 (\<lambda>c ct. case c of None \<Rightarrow> ct = None
        | Some e \<Rightarrow> \<exists>u. ct = Some u \<and> good E e (cinfo u) \<and> all_sound E e u) cs cts"
      by (rule list.rel_mono_strong [OF cts [unfolded those_map_Some]])
         (use ENode.IH fc in \<open>fastforce split: option.splits\<close>)
    have args: "list_all2 (rel_option (\<lambda>e p. fst p = attr e \<and> good E e (snd p))) cs
        (map2 (\<lambda>c t. case (c, t) of (Some e, Some ct) \<Rightarrow> Some (attr e, cinfo ct) | _ \<Rightarrow> None) cs cts)"
      using kids by induction (auto split: option.splits)
    have "good E (ENode a cs) r"
    proof (cases "nodePtr a")
      case (Some n)
      with r ENode.prems(1) show ?thesis by (intro cons_ref_good [OF _ Some k]) auto
    next
      case None
      let ?os = "map2 (\<lambda>c t. case (c, t) of (Some e, Some ct) \<Rightarrow> Some (attr e, cinfo ct) | _ \<Rightarrow> None) cs cts"
      have "op_env E a cs ?os" using None False ht args ENode.prems(1) by (auto simp: op_env_def)
      then show ?thesis by (rule cons_op_good [OF _ k]) (use r None ENode.prems(1) in auto)
    qed
    moreover have "all_sound E e u"
      if "(c, ct) \<in> set (zip cs cts)" "e \<in> set_option c" "u \<in> set_option ct" for c ct e u
      using kids that by (auto simp: list_all2_iff split: option.splits)
    moreover have "ct = None" if "(None, ct) \<in> set (zip cs cts)" for ct
      using kids that by (auto simp: list_all2_iff split: option.splits)
    moreover have "is_index (ENode a cs) \<Longrightarrow> \<not> is_const r"
      using r by (auto simp: is_index_def cons_op_def is_const_def)
    ultimately show ?thesis unfolding t by auto
  qed
qed

end

section \<open>Properties\<close>

text \<open>
  C3: constant folding ends and is sound.  On a typed tree (\<open>foldable\<close>) whose operations have the
  operands, arguments and result signs they read (\<open>fold_ready\<close>) \<^verbatim>\<open>computeConstant\<close> does not abort.
  Whenever it returns, and whatever the state in which the infos of the nodes hold, the info
  that it gives every node of a typed tree describes the value of that node: a constant is its value, an empty info says that it assigns nothing, an invalid one that it is
  undefined, and \<^verbatim>\<open>sameConstant\<close> that it can only assign that constant; the sign of a constant
  is the sign of its node.
\<close>

theorem computeConstant_sound:
  assumes "gmp_lib G" "known E cm" "\<not> firHeadTail E" "foldable cm e"
  shows "(fold_ready h cm e \<longrightarrow> (\<exists>t. computeConstant G h cm ty False e = Some t))
    \<and> (\<forall>t. computeConstant G h cm ty False e = Some t \<longrightarrow> all_sound E e t)"
  using gmp_lib.computeConstant_good [OF assms] gmp_lib.computeConstant_total [OF assms(1,4)] by blast

definition int_leaf :: "int \<Rightarrow> bool \<Rightarrow> string \<Rightarrow> enode" where
  "int_leaf w s str = ENode ((new_eattr OP_INT)\<lparr>width := w, sign := s, strVal := str\<rparr>) []"

definition demo_fold :: enode where
  "demo_fold = ENode ((new_eattr OP_WHEN)\<lparr>width := 4\<rparr>)
     [Some (ENode ((new_eattr OP_EMPTY)\<lparr>nodePtr := Some 1, width := 1\<rparr>) []),
      Some (ENode ((new_eattr OP_ADD)\<lparr>width := 4\<rparr>) [Some (int_leaf 3 False ''5''), Some (int_leaf 3 False ''4'')]),
      None]"

definition demo_cons :: "nodeid \<rightharpoonup> valInfo" where
  "demo_cons = [1 \<mapsto> new_valInfo 1 False]"

definition demo_fold_env :: env where
  "demo_fold_env = \<lparr>val = (\<lambda>n is. 1), mem = (\<lambda>n i. 0), firHeadTail = False\<rparr>"

lemmas demo_fold_defs = demo_fold_def int_leaf_def new_eattr_def demo_cons_def demo_fold_env_def

abbreviation demo_heap :: heap where
  "demo_heap \<equiv> (\<lambda>n. new_node NODE_OTHERS)"

lemma demo_foldable: "foldable demo_cons demo_fold"
  by (simp add: demo_fold_defs foldable.simps fold_typed_def ref_typed_def branch_fits_def is_index_def
      int_literal_def firStrBase_def char_at_def int_of_str_def nat_of_str_def digit_val_def fits_unsigned
      new_valInfo_def new_vinfo_def is_const_def)

lemma demo_fold_ready: "fold_ready demo_heap demo_cons demo_fold"
  by (simp add: demo_fold_defs ready_defs new_node_def)

lemma demo_known: "known demo_fold_env demo_cons"
  by (simp add: known_def demo_fold_defs new_valInfo_def new_vinfo_def is_const_def)

lemmas fold_run = cons_op_def consWhen_def consCat_def consPad_def consShr_def consAdd_def consInt_def
  fold1_def fold2_def nowhere1_def nowhere2_def operand_def branch_def branch_info_def branch_status_def
  branch_empty_def when_rest_def when_same_def with_same_def unsigned_only_def value_at_def is_const_def
  setConstantByStr_def updateConsVal_def setConsStr_def masked_cons_def set_cons_def const_info_def
  new_info_def new_valInfo_def new_vinfo_def gmp_int_def u_cat_def us_add_def s_asSInt_def s_shr_def
  ones_mask_def cons_ref_def ref_copy_def dup_plain_def isArray_def new_node_def Let_def
  firStrBase_def char_at_def int_of_str_def nat_of_str_def digit_val_def

lemmas eval_run = eval_ENode apply_op_def keep_bits_def apply_prim_def of_opt_def int_literal_def
  prim1_def prim2_def wrap_def firStrBase_def char_at_def int_of_str_def nat_of_str_def digit_val_def

lemma demo_fold_run:
  "case computeConstant gmp_int demo_heap demo_cons NODE_REG_DST False demo_fold of
     None \<Rightarrow> False | Some t \<Rightarrow> v_same (cinfo t) \<and> v_assign (cinfo t) = 9"
  by (simp add: demo_fold_defs fold_run)

theorem computeConstant_sound_witness:
  "\<exists>t. computeConstant gmp_int demo_heap demo_cons NODE_REG_DST False demo_fold = Some t
     \<and> v_assign (cinfo t) = 9 \<and> all_sound demo_fold_env demo_fold t"
proof -
  have "\<not> firHeadTail demo_fold_env" by (simp add: demo_fold_env_def)
  note c = computeConstant_sound [OF gmp_lib_int demo_known this demo_foldable, of demo_heap NODE_REG_DST]
  from c demo_fold_ready obtain t where
    t: "computeConstant gmp_int demo_heap demo_cons NODE_REG_DST False demo_fold = Some t" by blast
  with demo_fold_run have "v_assign (cinfo t) = 9" by simp
  with c t show ?thesis by blast
qed

definition cat_of_pad :: enode where
  "cat_of_pad = ENode ((new_eattr OP_CAT)\<lparr>width := 5\<rparr>)
     [Some (int_leaf 1 False ''1''),
      Some (ENode ((new_eattr OP_PAD)\<lparr>width := 4, evalues := [4]\<rparr>) [Some (int_leaf 1 False ''1'')])]"

definition negative_shr :: enode where
  "negative_shr = ENode ((new_eattr OP_SHR)\<lparr>width := 2, sign := True, evalues := [1]\<rparr>)
     [Some (int_leaf 3 True ''-4'')]"

text \<open>
  C36: \<^verbatim>\<open>consPad\<close> returns the info of its operand, with the width the operand had before padding,
  and \<^verbatim>\<open>consCat\<close> shifts by that width: the concatenation of 1 with 1 padded to 4 bits is folded
  to 3, and its value is 17.
\<close>

theorem folded_cat_of_pad:
  "(\<exists>t. computeConstant gmp_int demo_heap Map.empty NODE_OTHERS False cat_of_pad = Some t
       \<and> is_const (cinfo t) \<and> v_cons (cinfo t) = 3)
   \<and> eval demo_fold_env cat_of_pad = Val 17"
proof
  have "case computeConstant gmp_int demo_heap Map.empty NODE_OTHERS False cat_of_pad of
     None \<Rightarrow> False | Some t \<Rightarrow> is_const (cinfo t) \<and> v_cons (cinfo t) = 3"
    by (simp add: cat_of_pad_def demo_fold_defs fold_run)
  then show "\<exists>t. computeConstant gmp_int demo_heap Map.empty NODE_OTHERS False cat_of_pad = Some t
       \<and> is_const (cinfo t) \<and> v_cons (cinfo t) = 3" by (auto split: option.splits)
  show "eval demo_fold_env cat_of_pad = Val 17"
    by (simp add: cat_of_pad_def demo_fold_defs eval_run)
qed

text \<open>
  \<^verbatim>\<open>s_shr\<close> shifts the fresh destination instead of a negative operand: -4 shifted right by
  one is folded to 0, and its value is -2.
\<close>

theorem folded_negative_shr:
  "(\<exists>t. computeConstant gmp_int demo_heap Map.empty NODE_OTHERS False negative_shr = Some t
       \<and> is_const (cinfo t) \<and> v_cons (cinfo t) = 0)
   \<and> eval demo_fold_env negative_shr = Val (-2)"
proof
  have "case computeConstant gmp_int demo_heap Map.empty NODE_OTHERS False negative_shr of
     None \<Rightarrow> False | Some t \<Rightarrow> is_const (cinfo t) \<and> v_cons (cinfo t) = 0"
    by (simp add: negative_shr_def demo_fold_defs fold_run bitcnt_pred_def)
  then show "\<exists>t. computeConstant gmp_int demo_heap Map.empty NODE_OTHERS False negative_shr = Some t
       \<and> is_const (cinfo t) \<and> v_cons (cinfo t) = 0" by (auto split: option.splits)
  show "eval demo_fold_env negative_shr = Val (-2)"
    by (simp add: negative_shr_def demo_fold_defs eval_run)
qed

end
