(* ===== verification/ConstRemove.thy ===== *)
theory ConstRemove
  imports ConstSound Refine
begin

section \<open>Replacing constants in a tree\<close>

text \<open>
  \<^verbatim>\<open>ExpTree::removeConstant\<close> of \<^verbatim>\<open>src/constantNode.cpp\<close> with its helpers.  The loop over an explicit
  stack rewrites the nodes in place from the root down; a node that is replaced by one of its
  children is looked at again.  Here that is a recursion: \<open>rc\<close> takes a node, its info (if it
  has one in \<^verbatim>\<open>consEMap\<close>) and the infos of its children, and returns what its parent ends up
  with: nothing, a literal (with the constant, which an \<^verbatim>\<open>OP_INDEX\<close> parent turns into its own
  index) or another node.
\<close>

datatype rcres = RNull | RConst enode int | RNode enode

definition plain :: "rcres \<Rightarrow> enode option" where
  "plain r = (case r of RNull \<Rightarrow> None | RConst e c \<Rightarrow> Some e | RNode e \<Rightarrow> Some e)"

definition tree_at :: "ctree option list \<Rightarrow> nat \<Rightarrow> ctree option" where
  "tree_at ts i = (if i < length ts then ts ! i else None)"

text \<open>\<^verbatim>\<open>enodeConstant\<close>, \<^verbatim>\<open>isConsZero\<close>, \<^verbatim>\<open>isConsNoZero\<close> and \<^verbatim>\<open>allOnes\<close> on the entry of a node.\<close>

definition enodeConstant :: "valInfo option \<Rightarrow> bool" where
  "enodeConstant v = (case v of None \<Rightarrow> False | Some i \<Rightarrow> is_const i)"

definition isConsZero :: "gmp \<Rightarrow> valInfo option \<Rightarrow> bool" where
  "isConsZero G v = (case v of None \<Rightarrow> False | Some i \<Rightarrow> is_const i \<and> mpz_cmp G (v_cons i) 0 = 0)"

definition isConsNoZero :: "gmp \<Rightarrow> valInfo option \<Rightarrow> bool" where
  "isConsNoZero G v = (case v of None \<Rightarrow> False | Some i \<Rightarrow> is_const i \<and> mpz_cmp G (v_cons i) 0 \<noteq> 0)"

definition allOnes :: "gmp \<Rightarrow> int \<Rightarrow> int \<Rightarrow> bool" where
  "allOnes G v w \<longleftrightarrow> mpz_cmp G v (ones_mask G (nat w)) = 0"

text \<open>\<^verbatim>\<open>whenChildInvalid\<close>: the position of the branch that stays.\<close>

definition whenChildInvalid :: "enode option list \<Rightarrow> (nat \<Rightarrow> valInfo option) \<Rightarrow> nat option" where
  "whenChildInvalid cs info =
     (if length cs \<le> 2 \<or> cs ! 1 = None \<or> cs ! 2 = None then None
      else case (info 1, info 2) of
             (Some t, Some f) \<Rightarrow> if v_status t = VAL_INVALID then Some 2
                                 else if v_status f = VAL_INVALID then Some 1 else None
           | _ \<Rightarrow> None)"

text \<open>The literal a constant node becomes, and the index an \<^verbatim>\<open>OP_INDEX\<close> parent becomes.\<close>

definition const_enode :: "gmp \<Rightarrow> eattr \<Rightarrow> valInfo \<Rightarrow> enode" where
  "const_enode G a v =
     ENode (a\<lparr>nodePtr := None, opType := OP_INT, sign := vsign (vattr v),
              strVal := mpz_get_str G 10 (v_cons v)\<rparr>) []"

definition int_of_ui :: "nat \<Rightarrow> int" where
  "int_of_ui n = signed_take_bit 31 (int n)"

definition index_enode :: "gmp \<Rightarrow> eattr \<Rightarrow> int \<Rightarrow> enode" where
  "index_enode G a c =
     ENode (a\<lparr>opType := OP_INDEX_INT, evalues := evalues a @ [int_of_ui (mpz_get_ui G c)]\<rparr>) []"

definition pad_enode :: "int \<Rightarrow> enode option \<Rightarrow> enode" where
  "pad_enode w c = ENode ((new_eattr OP_PAD)\<lparr>width := w, evalues := [w]\<rparr>) [c]"

definition child_width :: "enode option list \<Rightarrow> nat \<Rightarrow> int" where
  "child_width cs i = (if i < length cs then (case cs ! i of Some e \<Rightarrow> e_width e | None \<Rightarrow> 0) else 0)"

text \<open>What the loop does with a node that has no constant of its own.\<close>

datatype rcstep = Stay | Replace nat | Pad nat

definition rc_step :: "gmp \<Rightarrow> eattr \<Rightarrow> enode option list \<Rightarrow> (nat \<Rightarrow> valInfo option) \<Rightarrow> rcstep" where
  "rc_step G a cs info =
     (if (opType a = OP_MUX \<or> opType a = OP_WHEN) \<and> enodeConstant (info 0)
      then (if isConsZero G (info 0) then Replace 2 else Replace 1)
      else if opType a = OP_WHEN \<and> whenChildInvalid cs info \<noteq> None
      then Replace (the (whenChildInvalid cs info))
      else if (opType a = OP_MUX \<or> opType a = OP_WHEN) \<and> width a = 1
              \<and> isConsNoZero G (info 1) \<and> isConsZero G (info 2)
      then Replace 0
      else if opType a = OP_OR \<and> (isConsZero G (info 0) \<or> isConsZero G (info 1))
      then (let i = (if isConsZero G (info 0) then 1 else 0)
            in if width a > child_width cs i then Pad i else Replace i)
      else if opType a = OP_AND \<and> child_width cs 0 = child_width cs 1
      then (case (info 0, info 1) of
              (i0, i1) \<Rightarrow>
                if enodeConstant i0 \<and> allOnes G (v_cons (the i0)) (child_width cs 0) then Replace 1
                else if enodeConstant i1 \<and> allOnes G (v_cons (the i1)) (child_width cs 1) then Replace 0
                else Stay)
      else Stay)"

fun rc :: "gmp \<Rightarrow> enode \<Rightarrow> valInfo option \<Rightarrow> ctree option list \<Rightarrow> rcres" where
  "rc G (ENode a cs) v ts =
     (let info = (\<lambda>i. map_option cinfo (tree_at ts i));
          kids = map2 (\<lambda>c i. case c of None \<Rightarrow> RNull
                   | Some e \<Rightarrow> rc G e (info i) (case tree_at ts i of None \<Rightarrow> [] | Some u \<Rightarrow> cchild u))
                 cs [0..<length cs];
          kid = (\<lambda>i. if i < length kids then kids ! i else RNull)
      in if enodeConstant v then RConst (const_enode G a (the v)) (v_cons (the v))
         else case rc_step G a cs info of
                Replace i \<Rightarrow> kid i
              | Pad i \<Rightarrow> RNode (pad_enode (width a) (plain (kid i)))
              | Stay \<Rightarrow> (case (opType a, kids) of
                   (OP_INDEX, [RConst e c]) \<Rightarrow> RNode (index_enode G a c)
                 | _ \<Rightarrow> RNode (ENode a (map plain kids))))"

text \<open>
  The whole tree: the root, and the left-hand side, which has no entry of its own.  An
  \<^verbatim>\<open>OP_INDEX\<close> with several children fails the \<^verbatim>\<open>Assert\<close> on its size, and no tree has one.  A
  left-hand side is a reference, and a reference without an entry is not replaced; if it were,
  the loop would go on with the root of the right-hand side instead of the new node (line
  1258), which is not followed here.
\<close>

definition removeConstant :: "gmp \<Rightarrow> ctree \<Rightarrow> ctree option list \<Rightarrow> exptree \<Rightarrow> enode option \<times> enode" where
  "removeConstant G rt lts t =
     (plain (rc G (root t) (Some (cinfo rt)) (cchild rt)),
      (case plain (rc G (lvalue t) None lts) of Some l \<Rightarrow> l | None \<Rightarrow> lvalue t))"

section \<open>Soundness\<close>

text \<open>What the parent gets in place of a node.\<close>

definition rgood :: "env \<Rightarrow> enode \<Rightarrow> rcres \<Rightarrow> bool" where
  "rgood E e r \<longleftrightarrow> eval E e = Undef \<or>
     (case plain r of
        None \<Rightarrow> eval E e = Keep
      | Some e' \<Rightarrow> e_width e' = e_width e \<and> e_sign e' = e_sign e \<and> eval E e' = eval E e)
     \<and> (\<forall>e' c. r = RConst e' c \<longrightarrow> eval E e = Val c)"

lemma rgood_opref:
  "rgood E e r \<Longrightarrow> opref (Some (operand_of E e)) (map_option (operand_of E) (plain r))"
  by (auto simp: rgood_def opref_def split: option.splits)

lemma eval_refines_children:
  assumes "list_all2 (\<lambda>c r. case c of None \<Rightarrow> r = RNull | Some e \<Rightarrow> rgood E e r) cs rs"
  shows "refines (eval E (ENode a cs)) (eval E (ENode a (map plain rs)))"
proof -
  have "list_all2 opref (map (map_option (operand_of E)) cs) (map (map_option (operand_of E)) (map plain rs))"
    using assms
    by induction (auto simp: opref_None plain_def dest: rgood_opref split: option.splits)
  then show ?thesis by (rule eval_refines)
qed

text \<open>
  The typing the pruning relies on: a selection and its branches have one width and sign, an
  \<open>or\<close> is unsigned and as wide as its operands, an \<open>and\<close> of two operands of one width has
  that width, an index fits a C++ \<^verbatim>\<open>int\<close>.
\<close>

definition select_ok :: "eattr \<Rightarrow> enode option list \<Rightarrow> bool" where
  "select_ok a cs \<longleftrightarrow>
     (\<forall>c \<in> set (tl cs). \<forall>e \<in> set_option c. e_width e = width a \<and> e_sign e = sign a \<and> \<not> is_index e)
     \<and> (width a = 1 \<longrightarrow> \<not> sign a \<and>
          (\<forall>c \<in> set (take 1 cs). \<forall>e \<in> set_option c. e_width e = 1 \<and> \<not> e_sign e \<and> \<not> is_index e))"

definition prune_typed :: "eattr \<Rightarrow> enode option list \<Rightarrow> bool" where
  "prune_typed a cs \<longleftrightarrow>
     (nodePtr a \<noteq> None \<longrightarrow> opType a = OP_EMPTY)
     \<and> (case opType a of
          OP_MUX \<Rightarrow> select_ok a cs
        | OP_WHEN \<Rightarrow> select_ok a cs
        | OP_OR \<Rightarrow> \<not> sign a \<and> (\<forall>c \<in> set cs. \<forall>e \<in> set_option c. \<not> e_sign e \<and> e_width e \<le> width a \<and> \<not> is_index e)
        | OP_AND \<Rightarrow> \<not> sign a \<and> (\<forall>c \<in> set cs. \<forall>e \<in> set_option c. \<not> e_sign e \<and> \<not> is_index e)
            \<and> (child_width cs 0 = child_width cs 1 \<longrightarrow> child_width cs 0 = width a)
        | OP_INDEX \<Rightarrow> evalues a = []
            \<and> (\<forall>c \<in> set cs. \<forall>e \<in> set_option c. \<not> e_sign e \<and> e_width e \<le> 31 \<and> \<not> is_index e)
        | _ \<Rightarrow> True)"

fun prunable :: "enode \<Rightarrow> bool" where
  "prunable (ENode a cs) \<longleftrightarrow> (\<forall>c \<in> set cs. \<forall>e \<in> set_option c. prunable e) \<and> prune_typed a cs"

text \<open>The entries of a node and of its children.\<close>

definition entry_ok :: "env \<Rightarrow> enode \<Rightarrow> valInfo option \<Rightarrow> bool" where
  "entry_ok E e v \<longleftrightarrow> (\<forall>i. v = Some i \<longrightarrow> good E e i \<and> (is_index e \<longrightarrow> \<not> is_const i))"

definition kids_ok :: "env \<Rightarrow> enode option list \<Rightarrow> ctree option list \<Rightarrow> bool" where
  "kids_ok E cs ts \<longleftrightarrow>
     (\<forall>i < length cs. \<forall>u. tree_at ts i = Some u \<longrightarrow> (\<exists>e. cs ! i = Some e \<and> all_sound E e u))"

lemma kids_okI:
  assumes "\<forall>p \<in> set (zip cs ts). (fst p = None \<longrightarrow> snd p = None)
      \<and> (\<forall>e \<in> set_option (fst p). \<forall>u \<in> set_option (snd p). all_sound E e u)"
  shows "kids_ok E cs ts"
  unfolding kids_ok_def
proof (intro allI impI)
  fix i u assume i: "i < length cs" "tree_at ts i = Some u"
  then have l: "i < length ts" "ts ! i = Some u" by (auto simp: tree_at_def split: if_splits)
  then have "(cs ! i, Some u) \<in> set (zip cs ts)" using i(1) by (force simp: set_zip)
  with assms show "\<exists>e. cs ! i = Some e \<and> all_sound E e u" by (cases "cs ! i") force+
qed

lemma all_sound_entry: "all_sound E e u \<Longrightarrow> entry_ok E e (Some (cinfo u)) \<and> kids_ok E (child e) (cchild u)"
  by (cases e) (auto simp: entry_ok_def intro!: kids_okI)

lemma entry_value:
  assumes "entry_ok E e (Some i)" "is_const i"
  shows "eval E e = Undef \<or> eval E e = Val (v_cons i)"
  using assms by (auto simp: entry_ok_def good_def sound_def refines_def)

lemma rgood_null: "eval E e = Undef \<or> eval E e = Keep \<Longrightarrow> rgood E e RNull"
  by (auto simp: rgood_def plain_def refines_def)

lemma rgood_child:
  "rgood E c r \<Longrightarrow> eval E e = Undef \<or> eval E e = eval E c \<and> e_width c = e_width e \<and> e_sign c = e_sign e
   \<Longrightarrow> rgood E e r"
  by (auto simp: rgood_def split: option.splits)

lemma rgood_node:
  "e_width e' = e_width e \<Longrightarrow> e_sign e' = e_sign e \<Longrightarrow> refines (eval E e) (eval E e') \<Longrightarrow> rgood E e (RNode e')"
  by (auto simp: rgood_def plain_def refines_def)

lemma select_eval:
  assumes "prune_typed a cs" "opType a = OP_MUX \<or> opType a = OP_WHEN"
  shows "eval E (ENode a cs) =
    (case cs of [Some c, t, f] \<Rightarrow> sel (eval E c) (bval E t) (bval E f) | _ \<Rightarrow> Undef)"
proof (rule eval_select)
  show "nodePtr a = None" using assms by (auto simp: prune_typed_def)
  show "\<forall>c \<in> set (tl cs). branch_fits a c"
    using assms by (auto simp: prune_typed_def select_ok_def branch_fits_def)
qed (rule assms(2))

lemma eval_binary:
  assumes "nodePtr a = None" "opType a = OP_AND \<or> opType a = OP_OR" "\<not> sign a"
  shows "eval E (ENode a cs) = Undef \<or>
    (\<exists>c d x y. cs = [Some c, Some d] \<and> eval E c = Val x \<and> eval E d = Val y
       \<and> eval E (ENode a cs) = Val (take_bit (nat (width a)) (take_bit (max (nat (e_width c)) (nat (e_width d)))
           (if opType a = OP_AND then x AND y else x OR y))))"
proof -
  have p: "prim1 b OP_AND vs q = None" "prim1 b OP_OR vs q = None" for b vs q
    by (simp_all add: prim1_def split: prod.splits)
  have s: "opType a \<notin> set special_ops" using assms(2) by (auto simp: special_ops_def)
  let ?os = "map (map_option (operand_of E)) cs"
  note e = eval_plain [OF assms(1) s, of E cs]
  show ?thesis
  proof (cases "apply_prim (firHeadTail E) (opType a) (evalues a) ?os")
    case (Val v)
    then show ?thesis
    proof (cases rule: apply_prim_Val)
      case one
      with assms(2) p show ?thesis by auto
    next
      case (two w0 s0 x w1 s1 y)
      then obtain c d where c: "cs = [Some c, Some d]" "operand_of E c = (w0, s0, Val x)" "operand_of E d = (w1, s1, Val y)"
        by auto
      have "v = take_bit (max w0 w1) (if opType a = OP_AND then x AND y else x OR y)"
        using two(2) assms(2) by (elim disjE) (simp_all add: prim2_def)
      with c e Val assms(3) show ?thesis
        by (intro disjI2 exI [of _ c] exI [of _ d] exI [of _ x] exI [of _ y]) (simp add: wrap_unsigned)
    qed
  next
    case Keep
    then show ?thesis
      by (auto simp: apply_prim_def of_opt_def split: list.splits option.splits prod.splits outcome.splits)
  qed (simp add: e)
qed

context gmp_lib
begin

lemma const_enode_good:
  assumes "entry_ok E (ENode a cs) (Some v)" "is_const v"
  shows "rgood E (ENode a cs) (RConst (const_enode G a v) (v_cons v))"
proof -
  have s: "vsign (vattr v) = sign a" "\<not> is_index (ENode a cs)"
    using assms by (auto simp: entry_ok_def good_def exact_def)
  note ev = entry_value [OF assms]
  have "refines (eval E (ENode a cs)) (eval E (const_enode G a v))"
  proof (cases "eval E (ENode a cs) = Undef")
    case False
    with ev have c: "eval E (ENode a cs) = Val (v_cons v)" by simp
    from eval_fits [OF c s(2)] have "wrap (nat (width a)) (sign a) (v_cons v) = v_cons v" by (simp add: wrap_fits)
    moreover have "int_literal (mpz_get_str G 10 (v_cons v)) = Some (v_cons v)"
      by (rule firStrBase_decimal) (rule get_str, simp)
    ultimately have "eval E (const_enode G a v) = Val (v_cons v)"
      by (simp add: const_enode_def eval_ENode apply_op_def of_opt_def keep_bits_def s(1))
    with c show ?thesis by simp
  qed simp
  with ev s(1) show ?thesis by (auto simp: rgood_def plain_def const_enode_def refines_def)
qed

lemma index_enode_good:
  assumes t: "prune_typed a [Some e]" and op: "opType a = OP_INDEX" "nodePtr a = None"
    and r: "rgood E e (RConst e' c)"
  shows "rgood E (ENode a [Some e]) (RNode (index_enode G a c))"
proof (rule rgood_node)
  have ty: "evalues a = []" "\<not> e_sign e" "e_width e \<le> 31" "\<not> is_index e"
    using t op by (auto simp: prune_typed_def)
  show "refines (eval E (ENode a [Some e])) (eval E (index_enode G a c))"
  proof (cases "eval E e")
    case (Val v)
    with r have v: "c = v" by (auto simp: rgood_def refines_def)
    have "fits 31 False v" using eval_fits [OF Val ty(4)] ty(2,3) fits_mono [of "nat (e_width e)" False v 31] by simp
    then have b: "0 \<le> v" "v < 2147483648" by (simp_all add: fits_unsigned)
    then have "mpz_get_ui G v = nat v" by (simp add: get_ui nat_mod_distrib [symmetric])
    then have "int_of_ui (mpz_get_ui G v) = v"
      using b by (simp add: int_of_ui_def signed_take_bit_int_eq_self)
    with Val op ty(1) v show ?thesis
      by (simp add: index_enode_def eval_ENode apply_op_def keep_bits_def of_opt_def)
  qed (use op in \<open>simp_all add: eval_ENode apply_op_def\<close>)
qed (simp_all add: index_enode_def)

text \<open>One step of the loop: what is left has the value of the node.\<close>

lemma entry_of_info:
  assumes "kids_ok E cs ts" "i < length cs" "map_option cinfo (tree_at ts i) = Some v"
  shows "\<exists>e. cs ! i = Some e \<and> entry_ok E e (Some v)"
  using assms all_sound_entry by (fastforce simp: kids_ok_def)

lemma rc_step_select:
  assumes t: "prune_typed a cs" and op: "opType a = OP_MUX \<or> opType a = OP_WHEN" and k: "kids_ok E cs ts"
    and st: "rc_step G a cs (\<lambda>i. map_option cinfo (tree_at ts i)) = Replace i"
  shows "eval E (ENode a cs) = Undef \<or>
    (i < length cs \<and> eval E (ENode a cs) = bval E (cs ! i)
     \<and> (\<forall>e \<in> set_option (cs ! i). e_width e = width a \<and> e_sign e = sign a))"
proof (cases "\<exists>c t f. cs = [Some c, t, f]")
  case False
  then have "eval E (ENode a cs) = Undef"
    using select_eval [OF t op] by (auto split: list.splits option.splits)
  then show ?thesis by simp
next
  case True
  then obtain c u f where cs: "cs = [Some c, u, f]" by blast
  let ?info = "\<lambda>i. map_option cinfo (tree_at ts i)"
  have ev: "eval E (ENode a cs) = sel (eval E c) (bval E u) (bval E f)"
    using select_eval [OF t op] cs by simp
  have sk: "select_ok a cs" using t op by (auto simp: prune_typed_def)
  have ty: "\<forall>e \<in> set_option u. e_width e = width a \<and> e_sign e = sign a"
    "\<forall>e \<in> set_option f. e_width e = width a \<and> e_sign e = sign a"
    using sk by (auto simp: select_ok_def cs)
  have val: "\<exists>e. cs ! j = Some e \<and> entry_ok E e (Some v)" if "j < 3" "?info j = Some v" for j v
    by (rule entry_of_info [OF k]) (use that cs in auto)
  show ?thesis
  proof (cases "enodeConstant (?info 0)")
    case True
    then obtain v where v: "?info 0 = Some v" "is_const v" by (auto simp: enodeConstant_def split: option.splits)
    have i: "i = (if v_cons v = 0 then 2 else 1)"
      using st op v by (auto simp: rc_step_def enodeConstant_def isConsZero_def cmp_eq split: if_splits)
    have "eval E c = Undef \<or> eval E c = Val (v_cons v)"
      using val [of 0 v] v entry_value by (auto simp: cs)
    with i ev ty show ?thesis by (auto simp: cs)
  next
    case nc: False
    show ?thesis
    proof (cases "opType a = OP_WHEN \<and> whenChildInvalid cs ?info \<noteq> None")
      case True
      with st nc have i: "whenChildInvalid cs ?info = Some i" by (auto simp: rc_step_def)
      then obtain et ef vt vf where b: "u = Some et" "f = Some ef" "?info 1 = Some vt" "?info 2 = Some vf"
        "v_status vt = VAL_INVALID \<and> i = 2 \<or> v_status vf = VAL_INVALID \<and> i = 1"
        by (auto simp: whenChildInvalid_def cs split: option.splits if_splits)
      have "entry_ok E et (Some vt)" "entry_ok E ef (Some vf)"
        using val [of 1 vt] val [of 2 vf] b cs by auto
      with b(5) have "eval E et = Undef \<and> i = 2 \<or> eval E ef = Undef \<and> i = 1"
        by (auto simp: entry_ok_def good_def sound_def)
      with b ev ty show ?thesis by (cases "eval E c") (auto simp: cs bval_def)
    next
      case nw: False
      have c1: "width a = 1" "isConsNoZero G (?info 1)" "isConsZero G (?info 2)" "i = 0"
        using st op nc nw by (auto simp: rc_step_def split: if_splits)
      then obtain vt vf where v: "?info 1 = Some vt" "is_const vt" "v_cons vt \<noteq> 0" "?info 2 = Some vf"
        "is_const vf" "v_cons vf = 0"
        by (auto simp: isConsNoZero_def isConsZero_def cmp_eq split: option.splits)
      have cty: "\<not> sign a" "e_width c = 1" "\<not> e_sign c" "\<not> is_index c"
        using sk c1(1) by (auto simp: select_ok_def cs)
      obtain et ef where b: "u = Some et" "f = Some ef" "eval E et = Undef \<or> eval E et = Val (v_cons vt)"
        "eval E ef = Undef \<or> eval E ef = Val 0"
        using val [of 1 vt] val [of 2 vf] v entry_value by (fastforce simp: cs)
      have bit: "x = 0 \<or> x = 1" if "fits 1 False x" for x :: int using that by (auto simp: fits_unsigned)
      have "v_cons vt = 1" if "eval E et = Val (v_cons vt)"
      proof -
        have "\<not> is_index et" "e_width et = 1" "\<not> e_sign et" using sk c1(1) cty(1) b(1) by (auto simp: select_ok_def cs)
        with eval_fits [OF that] bit v(3) show ?thesis by auto
      qed
      moreover have "x = 0 \<or> x = 1" if "eval E c = Val x" for x
        using eval_fits [OF that cty(4)] cty(2,3) bit by simp
      ultimately have "eval E (ENode a cs) = Undef \<or> eval E (ENode a cs) = eval E c"
        using ev b by (cases "eval E c") (auto simp: bval_def)
      with cty c1 show ?thesis by (auto simp: cs bval_def)
    qed
  qed
qed

lemma take_bit_self: "fits w False x \<Longrightarrow> w \<le> n \<Longrightarrow> take_bit n x = x"
  using fits_mono [of w False x n] by (simp add: fits_unsigned take_bit_int_eq_self)

lemma rc_step_logic:
  assumes t: "prune_typed a cs" and op: "opType a = OP_AND \<or> opType a = OP_OR" and k: "kids_ok E cs ts"
    and st: "rc_step G a cs (\<lambda>i. map_option cinfo (tree_at ts i)) = Replace i
       \<or> rc_step G a cs (\<lambda>i. map_option cinfo (tree_at ts i)) = Pad i"
  shows "eval E (ENode a cs) = Undef \<or>
    (\<exists>d. i < length cs \<and> cs ! i = Some d \<and> eval E (ENode a cs) = eval E d \<and> e_sign d = sign a \<and> \<not> is_index d
      \<and> (rc_step G a cs (\<lambda>i. map_option cinfo (tree_at ts i)) = Replace i \<longrightarrow> e_width d = width a)
      \<and> e_width d \<le> width a \<and> (\<exists>v. eval E d = Val v))"
proof (cases "eval E (ENode a cs) = Undef")
  case False
  have n: "nodePtr a = None" "\<not> sign a" using t op by (auto simp: prune_typed_def)
  from eval_binary [OF n(1) _ n(2), of E cs] op False obtain c d x y where
    cs: "cs = [Some c, Some d]" and x: "eval E c = Val x" "eval E d = Val y"
    and ev: "eval E (ENode a cs) = Val (take_bit (nat (width a)) (take_bit (max (nat (e_width c)) (nat (e_width d)))
           (if opType a = OP_AND then x AND y else x OR y)))"
    by auto
  let ?info = "\<lambda>i. map_option cinfo (tree_at ts i)"
  have kids: "\<not> e_sign c" "\<not> is_index c" "\<not> e_sign d" "\<not> is_index d"
    using t op by (auto simp: prune_typed_def cs)
  have f: "fits (nat (e_width c)) False x" "fits (nat (e_width d)) False y"
    using eval_fits [OF x(1)] eval_fits [OF x(2)] kids by auto
  have v0: "v_cons v = x" if "?info 0 = Some v" "is_const v" for v
    using entry_of_info [OF k, of 0 v] that x(1) entry_value by (fastforce simp: cs)
  have v1: "v_cons v = y" if "?info 1 = Some v" "is_const v" for v
    using entry_of_info [OF k, of 1 v] that x(2) entry_value by (fastforce simp: cs)
  show ?thesis
  proof (cases "opType a = OP_OR")
    case True
    have w: "e_width c \<le> width a" "e_width d \<le> width a" using t True by (auto simp: prune_typed_def cs)
    have i: "(x = 0 \<and> i = 1) \<or> (y = 0 \<and> i = 0)"
      and r: "rc_step G a cs ?info = Replace i \<Longrightarrow> width a \<le> child_width cs i"
      using st True v0 v1
      by (auto simp: rc_step_def isConsZero_def cmp_eq Let_def split: if_splits option.splits)
    have "eval E (ENode a cs) = Val (if i = 1 then y else x)"
      using i ev True f w by (auto simp: take_bit_self)
    with i x kids w n(2) r show ?thesis by (auto simp: cs child_width_def)
  next
    case nor: False
    with op have a: "opType a = OP_AND" by simp
    have s: "rc_step G a cs ?info \<noteq> Stay" using st by auto
    have w: "e_width c = e_width d"
      using s a by (auto simp: rc_step_def cs child_width_def split: if_splits)
    then have wa: "e_width d = width a" using t a by (auto simp: prune_typed_def cs child_width_def)
    have i: "(x = mask (nat (width a)) \<and> i = 1) \<or> (y = mask (nat (width a)) \<and> i = 0)"
      and r: "rc_step G a cs ?info = Replace i"
      using st a v0 v1 w wa
      by (auto simp: rc_step_def enodeConstant_def allOnes_def cmp_eq mask cs child_width_def split: if_splits option.splits)
    have "eval E (ENode a cs) = Val (if i = 1 then y else x)"
    proof -
      have "take_bit (nat (width a)) (mask (nat (width a)) AND z) = z" if "fits (nat (width a)) False z" for z :: int
        using that by (simp add: take_bit_int_eq_self fits_unsigned and.commute [of "mask _"] take_bit_eq_mask [symmetric])
      with i ev a w wa f show ?thesis by (auto simp: and.commute)
    qed
    with i x kids w wa n(2) r show ?thesis by (auto simp: cs)
  qed
qed simp

lemma pad_enode_good:
  assumes "rgood E d r" "eval E d = Val v" "\<not> e_sign d" "\<not> is_index d" "e_width d \<le> w" "e_width e = w" "\<not> e_sign e"
    "eval E e = eval E d"
  shows "rgood E e (RNode (pad_enode w (plain r)))"
proof (rule rgood_node)
  from assms(1,2) obtain e' where e': "plain r = Some e'" "eval E e' = Val v"
    by (auto simp: rgood_def split: option.splits)
  have "fits (nat (e_width d)) False v" using eval_fits [OF assms(2,4)] assms(3) by simp
  then have "take_bit (nat w) v = v" by (rule take_bit_self) (use assms(5) in simp)
  then show "refines (eval E e) (eval E (pad_enode w (plain r)))"
    using e' assms(2,8)
    by (simp add: pad_enode_def eval_ENode apply_op_def apply_prim_def of_opt_def prim1_def keep_bits_def
        new_eattr_def wrap_unsigned)
qed (use assms in \<open>simp_all add: pad_enode_def new_eattr_def\<close>)

lemma rc_step_Stay:
  "opType a \<notin> {OP_MUX, OP_WHEN, OP_OR, OP_AND} \<Longrightarrow> rc_step G a cs info = Stay"
  "opType a = OP_MUX \<or> opType a = OP_WHEN \<Longrightarrow> rc_step G a cs info \<noteq> Pad i"
  by (auto simp: rc_step_def)

lemma rc_good:
  "prunable e \<Longrightarrow> entry_ok E e v \<Longrightarrow> kids_ok E (child e) ts \<Longrightarrow> rgood E e (rc G e v ts)"
proof (induction e arbitrary: v ts)
  case (ENode a cs)
  let ?info = "\<lambda>i. map_option cinfo (tree_at ts i)"
  let ?sub = "\<lambda>i. case tree_at ts i of None \<Rightarrow> [] | Some u \<Rightarrow> cchild u"
  let ?kids = "map2 (\<lambda>c i. case c of None \<Rightarrow> RNull | Some e \<Rightarrow> rc G e (?info i) (?sub i)) cs [0..<length cs]"
  have t: "prune_typed a cs" and pc: "\<forall>c \<in> set cs. \<forall>e \<in> set_option c. prunable e"
    using ENode.prems(1) by simp_all
  have k: "kids_ok E cs ts" using ENode.prems(3) by simp
  have kid: "(case cs ! i of None \<Rightarrow> ?kids ! i = RNull | Some e \<Rightarrow> rgood E e (?kids ! i))" if i: "i < length cs" for i
  proof (cases "cs ! i")
    case (Some e)
    have m: "Some e \<in> set cs" using Some i by (metis nth_mem)
    have "entry_ok E e (?info i) \<and> kids_ok E (child e) (?sub i)"
    proof (cases "tree_at ts i")
      case None
      then show ?thesis by (simp add: entry_ok_def kids_ok_def tree_at_def)
    next
      case u: (Some u)
      with k i Some have "all_sound E e u" by (auto simp: kids_ok_def)
      with u show ?thesis using all_sound_entry by simp
    qed
    then have "rgood E e (rc G e (?info i) (?sub i))"
      using ENode.IH [OF m, of e] pc m by auto
    with Some i show ?thesis by simp
  qed (use that in simp)
  have kr: "rgood E (ENode a cs) (if i < length ?kids then ?kids ! i else RNull)"
    if "eval E (ENode a cs) = Undef \<or> (i < length cs \<and> eval E (ENode a cs) = bval E (cs ! i)
      \<and> (\<forall>e \<in> set_option (cs ! i). e_width e = width a \<and> e_sign e = sign a))" for i
  proof (cases "eval E (ENode a cs) = Undef")
    case False
    with that have i: "i < length cs" "eval E (ENode a cs) = bval E (cs ! i)"
      "\<forall>e \<in> set_option (cs ! i). e_width e = width a \<and> e_sign e = sign a" by auto
    show ?thesis
    proof (cases "cs ! i")
      case None
      with i kid [OF i(1)] show ?thesis by (simp add: rgood_null bval_def)
    next
      case (Some e)
      with i kid [OF i(1)] show ?thesis by (auto simp: bval_def intro: rgood_child)
    qed
  qed (simp add: rgood_def)
  show ?case
  proof (cases "enodeConstant v")
    case True
    then obtain i where "v = Some i" "is_const i" by (auto simp: enodeConstant_def split: option.splits)
    with ENode.prems(2) show ?thesis by (simp add: enodeConstant_def const_enode_good)
  next
    case nc: False
    show ?thesis
    proof (cases "rc_step G a cs ?info")
      case Stay
      have all: "list_all2 (\<lambda>c r. case c of None \<Rightarrow> r = RNull | Some e \<Rightarrow> rgood E e r) cs ?kids"
        using kid by (simp add: list_all2_conv_all_nth)
      have node: "rgood E (ENode a cs) (RNode (ENode a (map plain ?kids)))"
        by (rule rgood_node) (use eval_refines_children [OF all] in simp_all)
      show ?thesis
      proof (cases "opType a = OP_INDEX \<and> (\<exists>e' c. ?kids = [RConst e' c])")
        case True
        then obtain e' c where r: "opType a = OP_INDEX" "?kids = [RConst e' c]" by (elim conjE exE)
        have "length ?kids = length cs" by simp
        then have "length cs = 1" unfolding r(2) by simp
        with kid [of 0] r(2) obtain e where e: "cs = [Some e]" "rgood E e (RConst e' c)"
          by (cases cs; cases "hd cs") (auto split: option.splits)
        have "nodePtr a = None" using t r(1) by (auto simp: prune_typed_def)
        with e t r(1) have "rgood E (ENode a cs) (RNode (index_enode G a c))" by (simp add: index_enode_good)
        with nc Stay r show ?thesis by simp
      next
        case False
        then have "rc G (ENode a cs) v ts = RNode (ENode a (map plain ?kids))"
          using nc Stay by (auto simp: Let_def split: OPType.split list.split rcres.split)
        with node show ?thesis by simp
      qed
    next
      case (Replace i)
      then have "opType a \<in> {OP_MUX, OP_WHEN, OP_OR, OP_AND}" using rc_step_Stay(1) [of a cs ?info] by force
      then have "rgood E (ENode a cs) (if i < length ?kids then ?kids ! i else RNull)"
        using rc_step_select [OF t _ k Replace] rc_step_logic [OF t _ k disjI1 [OF Replace]] Replace
        by (intro kr) (auto simp: bval_def)
      with nc Replace show ?thesis by simp
    next
      case (Pad i)
      then have "opType a \<in> {OP_OR, OP_AND}" using rc_step_Stay [of a cs ?info] by force
      then have c: "eval E (ENode a cs) = Undef \<or>
        (\<exists>d v. i < length cs \<and> cs ! i = Some d \<and> eval E (ENode a cs) = eval E d \<and> e_sign d = sign a \<and> \<not> is_index d
           \<and> e_width d \<le> width a \<and> eval E d = Val v)"
        using rc_step_logic [OF t _ k disjI2 [OF Pad]] by auto
      have s: "\<not> sign a" using \<open>opType a \<in> {OP_OR, OP_AND}\<close> t by (auto simp: prune_typed_def)
      have "rgood E (ENode a cs) (RNode (pad_enode (width a) (plain (if i < length ?kids then ?kids ! i else RNull))))"
      proof (cases "eval E (ENode a cs) = Undef")
        case False
        with c obtain d v where d: "i < length cs" "cs ! i = Some d" "eval E (ENode a cs) = eval E d"
          "e_sign d = sign a" "\<not> is_index d" "e_width d \<le> width a" "eval E d = Val v" by blast
        with kid [OF d(1)] have "rgood E d (?kids ! i)" by simp
        then have "rgood E (ENode a cs) (RNode (pad_enode (width a) (plain (?kids ! i))))"
          by (rule pad_enode_good [OF _ d(7)]) (use d s in simp_all)
        with d(1) show ?thesis by simp
      qed (simp add: rgood_def)
      with nc Pad show ?thesis by simp
    qed
  qed
qed

end

section \<open>Properties\<close>

text \<open>
  C5: replacing constants keeps the value of trees that are typed for folding (\<open>foldable\<close>) and for
  pruning (\<open>prunable\<close>: selections have the width and sign of their branches, logical operations
  are unsigned and of the width of their operands, indices fit an \<^verbatim>\<open>int\<close>).  If the operations of the
  tree are complete (\<open>fold_ready\<close>), its infos can be computed.  With the infos of \<^verbatim>\<open>computeConstant\<close>,
  and in every state in which the infos of the nodes hold, the tree \<^verbatim>\<open>removeConstant\<close> leaves at the
  root assigns what the tree assigned before (an undefined value may become a defined one),
  and when it leaves no tree, nothing was assigned.
\<close>

theorem removeConstant_sound:
  assumes "gmp_lib G" "known E cm" "\<not> firHeadTail E" "foldable cm (root t)" "prunable (root t)"
  shows "(fold_ready h cm (root t) \<longrightarrow> (\<exists>rt. computeConstant G h cm ty False (root t) = Some rt))
    \<and> (\<forall>rt lts. computeConstant G h cm ty False (root t) = Some rt \<longrightarrow>
         refines (eval E (root t)) (case fst (removeConstant G rt lts t) of None \<Rightarrow> Keep | Some e \<Rightarrow> eval E e))"
proof (intro conjI allI impI)
  show "\<exists>rt. computeConstant G h cm ty False (root t) = Some rt" if "fold_ready h cm (root t)"
    using gmp_lib.computeConstant_total [OF assms(1,4) that] by blast
next
  fix rt lts assume "computeConstant G h cm ty False (root t) = Some rt"
  then have "all_sound E (root t) rt"
    using gmp_lib.computeConstant_good [OF assms(1-4)] by blast
  from gmp_lib.rc_good [OF assms(1,5)] all_sound_entry [OF this]
  have "rgood E (root t) (rc G (root t) (Some (cinfo rt)) (cchild rt))" by blast
  then show "refines (eval E (root t)) (case fst (removeConstant G rt lts t) of None \<Rightarrow> Keep | Some e \<Rightarrow> eval E e)"
    by (auto simp: removeConstant_def rgood_def refines_def split: option.splits)
qed

definition demo_ref :: enode where
  "demo_ref = ENode ((new_eattr OP_EMPTY)\<lparr>nodePtr := Some 1, width := 4\<rparr>) []"

definition demo_mux :: exptree where
  "demo_mux = \<lparr>root = ENode ((new_eattr OP_MUX)\<lparr>width := 4\<rparr>)
       [Some (int_leaf 1 False ''1''), Some demo_ref, Some (int_leaf 4 False ''7'')],
     lvalue = new_leaf 2\<rparr>"

lemmas demo_mux_defs = demo_mux_def demo_ref_def demo_fold_defs

lemma demo_mux_ready: "fold_ready demo_heap demo_cons (root demo_mux)"
  by (simp add: demo_mux_defs ready_defs new_node_def)

lemma demo_mux_ok: "foldable demo_cons (root demo_mux)" "prunable (root demo_mux)"
  by (simp_all add: demo_mux_defs prune_typed_def select_ok_def foldable.simps fold_typed_def ref_typed_def
      branch_fits_def is_index_def int_literal_def firStrBase_def char_at_def int_of_str_def nat_of_str_def
      digit_val_def fits_unsigned new_valInfo_def new_vinfo_def is_const_def)

lemma demo_mux_run:
  "case computeConstant gmp_int demo_heap demo_cons NODE_OTHERS False (root demo_mux) of
     None \<Rightarrow> False | Some rt \<Rightarrow> fst (removeConstant gmp_int rt [] demo_mux) = Some demo_ref"
  by (simp add: demo_mux_defs fold_run consMux_def removeConstant_def plain_def tree_at_def rc_step_def
      enodeConstant_def isConsZero_def)

theorem removeConstant_sound_witness:
  "\<exists>rt. computeConstant gmp_int demo_heap demo_cons NODE_OTHERS False (root demo_mux) = Some rt
     \<and> fst (removeConstant gmp_int rt [] demo_mux) = Some demo_ref
     \<and> refines (eval demo_fold_env (root demo_mux)) (eval demo_fold_env demo_ref)"
proof -
  have "\<not> firHeadTail demo_fold_env" by (simp add: demo_fold_env_def)
  note c = removeConstant_sound [OF gmp_lib_int demo_known this demo_mux_ok, of demo_heap NODE_OTHERS]
  from c demo_mux_ready obtain rt where
    rt: "computeConstant gmp_int demo_heap demo_cons NODE_OTHERS False (root demo_mux) = Some rt" by blast
  with demo_mux_run have "fst (removeConstant gmp_int rt [] demo_mux) = Some demo_ref" by simp
  with c rt show ?thesis by (metis option.case(2))
qed

definition cat_of_mux :: exptree where
  "cat_of_mux = \<lparr>root = ENode ((new_eattr OP_CAT)\<lparr>width := 8\<rparr>)
       [Some demo_ref,
        Some (ENode ((new_eattr OP_MUX)\<lparr>width := 4\<rparr>)
          [Some (int_leaf 1 False ''1''),
           Some (ENode ((new_eattr OP_EMPTY)\<lparr>nodePtr := Some 1, width := 1\<rparr>) []), Some (int_leaf 4 False ''7'')])],
     lvalue = new_leaf 2\<rparr>"

text \<open>
  C37: a selection with a constant condition is replaced by its branch even where the branch is
  narrower, without the padding the case of \<^verbatim>\<open>OP_OR\<close> inserts: under a concatenation the value
  changes.
\<close>

theorem removeConstant_narrows:
  "\<exists>rt e. computeConstant gmp_int demo_heap demo_cons NODE_OTHERS False (root cat_of_mux) = Some rt
     \<and> fst (removeConstant gmp_int rt [] cat_of_mux) = Some e
     \<and> eval demo_fold_env (root cat_of_mux) = Val 17 \<and> eval demo_fold_env e = Val 3"
proof -
  let ?e = "ENode ((new_eattr OP_CAT)\<lparr>width := 8\<rparr>)
       [Some demo_ref, Some (ENode ((new_eattr OP_EMPTY)\<lparr>nodePtr := Some 1, width := 1\<rparr>) [])]"
  have "case computeConstant gmp_int demo_heap demo_cons NODE_OTHERS False (root cat_of_mux) of
     None \<Rightarrow> False | Some rt \<Rightarrow> fst (removeConstant gmp_int rt [] cat_of_mux) = Some ?e"
    by (simp add: cat_of_mux_def demo_mux_defs fold_run consMux_def removeConstant_def plain_def tree_at_def
        rc_step_def enodeConstant_def isConsZero_def)
  then obtain rt where "computeConstant gmp_int demo_heap demo_cons NODE_OTHERS False (root cat_of_mux) = Some rt"
    "fst (removeConstant gmp_int rt [] cat_of_mux) = Some ?e" by (auto split: option.splits)
  moreover have "eval demo_fold_env (root cat_of_mux) = Val 17"
    by (simp add: cat_of_mux_def demo_mux_defs eval_run select3_def)
  moreover have "eval demo_fold_env ?e = Val 3" by (simp add: demo_mux_defs eval_run)
  ultimately show ?thesis by blast
qed

end
