(* ===== verification/TreeOpt.thy ===== *)
theory TreeOpt
  imports CommonExpr Refine
begin

section \<open>Simplification of trees\<close>

text \<open>
  \<^verbatim>\<open>src/exprOpt.cpp\<close> and the functions \<^verbatim>\<open>fillEmptyENodeWhen\<close> and \<^verbatim>\<open>fillEmptyWhen\<close> of
  \<^verbatim>\<open>src/splitArray.cpp\<close>: selections with equal branches and conversions without effect are
  dropped, and the missing branches of a \<^verbatim>\<open>when\<close> are filled with an earlier assignment.
\<close>

subsection \<open>Filling a when\<close>

text \<open>
  \<^verbatim>\<open>fillEmptyENodeWhen\<close>: the children are pushed before the branches are filled, so that the
  copies are not visited.  \<^verbatim>\<open>getChild\<close> fails its \<^verbatim>\<open>Assert\<close> on a \<^verbatim>\<open>when\<close> with fewer than three
  children.
\<close>

definition fill_branch :: "enode \<Rightarrow> nat \<Rightarrow> enode option list \<Rightarrow> enode option list" where
  "fill_branch old i cs = (if cs ! i = None then cs[i := Some (dup old)] else cs)"

fun fillEmptyENodeWhen :: "enode \<Rightarrow> enode \<Rightarrow> enode abortable" where
  "fillEmptyENodeWhen old (ENode a cs) =
     do { cs' \<leftarrow> those (map (child_map (fillEmptyENodeWhen old)) cs);
          if opType a = OP_WHEN
          then do { assert_that (2 < length cs');
                    Some (ENode a (fill_branch old 2 (fill_branch old 1 cs'))) }
          else Some (ENode a cs') }"

definition fillEmptyWhen :: "exptree \<Rightarrow> enode \<Rightarrow> exptree abortable" where
  "fillEmptyWhen t old = do { r \<leftarrow> fillEmptyENodeWhen old (root t); Some (t\<lparr>root := r\<rparr>) }"

subsection \<open>Equal subtrees\<close>

text \<open>
  \<^verbatim>\<open>subTreeEq\<close>.  Two null pointers pass \<^verbatim>\<open>checkENodeEq\<close>, and the children of the first are then
  asked for: that null dereference aborts.  The pass runs before \<^verbatim>\<open>commonExpr\<close> sets any
  \<^verbatim>\<open>realValue\<close>.
\<close>

fun subTreeEq :: "enode option \<Rightarrow> enode option \<Rightarrow> bool abortable"
  and subTreesEq :: "enode option list \<Rightarrow> enode option list \<Rightarrow> bool abortable" where
  "subTreeEq None None = None"
| "subTreeEq None (Some d) = Some False"
| "subTreeEq (Some c) None = Some False"
| "subTreeEq (Some (ENode a cs)) (Some (ENode b ds)) =
     (if checkENodeEq Map.empty (ENode a cs) (ENode b ds) then subTreesEq cs ds else Some False)"
| "subTreesEq [] ds = Some True"
| "subTreesEq (c # cs) [] = None"
| "subTreesEq (c # cs) (d # ds) =
     do { r \<leftarrow> subTreeEq c d; if r then subTreesEq cs ds else Some False }"

subsection \<open>The rewriting\<close>

definition child_at :: "enode option list \<Rightarrow> nat \<Rightarrow> enode option" where
  "child_at cs i = (if i < length cs then cs ! i else None)"

lemma child_at_size [termination_simp]:
  assumes "child_at cs i = Some e"
  shows "size e < Suc (size_list (size_option size) cs)"
proof (rule child_size)
  show "Some e \<in> set cs" using assms by (auto simp: child_at_def split: if_splits dest: nth_mem)
qed

definition same_branches :: "eattr \<Rightarrow> enode option list \<Rightarrow> bool abortable" where
  "same_branches a cs =
     (if opType a = OP_WHEN \<or> opType a = OP_MUX
      then do { assert_that (2 < length cs); subTreeEq (cs ! 1) (cs ! 2) }
      else Some False)"

text \<open>
  \<^verbatim>\<open>ExpTree::treeOpt\<close>: the work list holds a node with the place it hangs at; a node replaced
  by its child is followed by that child at the same place.  A conversion that is kept is not
  searched further.
\<close>

fun treeOpt :: "enode \<Rightarrow> enode abortable" where
  "treeOpt (ENode a cs) =
     do { eq \<leftarrow> same_branches a cs;
          if eq then (case child_at cs 1 of Some e \<Rightarrow> treeOpt e | None \<Rightarrow> None)
          else if opType a = OP_ASASYNCRESET
          then (case child_at cs 0 of Some e \<Rightarrow> treeOpt e | None \<Rightarrow> None)
          else if opType a = OP_ASSINT \<or> opType a = OP_ASUINT
          then (case child_at cs 0 of
                  Some e \<Rightarrow> if e_sign e = sign a \<and> e_width e = width a then treeOpt e
                            else Some (ENode a cs)
                | None \<Rightarrow> None)
          else do { cs' \<leftarrow> those (map (child_map treeOpt) cs); Some (ENode a cs') } }"

definition opt_tree :: "exptree \<Rightarrow> exptree abortable" where
  "opt_tree t = do { r \<leftarrow> treeOpt (root t); Some (t\<lparr>root := r\<rparr>) }"

text \<open>\<^verbatim>\<open>Node::invalidArrayOptimize\<close>.  \<^verbatim>\<open>collect\<close> stops at a variable or repeated index.\<close>

fun index_ranges :: "node \<Rightarrow> exptree list \<Rightarrow> int set \<Rightarrow> int set option abortable" where
  "index_ranges nd [] seen = Some (Some seen)"
| "index_ranges nd (t # ts) seen =
     do { (b, e) \<leftarrow> getIdx (lvalue t) (dimension nd);
          if b < 0 then Some None
          else if {b..e} \<inter> seen \<noteq> {} then Some None
          else index_ranges nd ts (seen \<union> {b..e}) }"

definition invalidArrayOptimize :: "node \<Rightarrow> node abortable" where
  "invalidArrayOptimize nd =
     (if \<not> isArray nd \<or> ntype nd \<noteq> NODE_OTHERS then Some nd
      else do { r \<leftarrow> index_ranges nd (assignTree nd) {};
                case r of
                  None \<Rightarrow> Some nd
                | Some seen \<Rightarrow>
                    do { ts \<leftarrow> those (map (\<lambda>t. fillEmptyWhen t (new_enode OP_INVALID)) (assignTree nd));
                         Some (nd\<lparr>assignTree := ts\<rparr>) } })"

text \<open>\<^verbatim>\<open>graph::exprOpt\<close>.\<close>

definition opt_node :: "nodeid \<Rightarrow> heap \<Rightarrow> heap abortable" where
  "opt_node n h =
     (if nwidth (h n) = 0
      then Some (h(n := (h n)\<lparr>assignTree := [\<lparr>root = allocIntEnode 0 ''0'' False, lvalue = new_leaf n\<rparr>]\<rparr>))
      else do { ts \<leftarrow> those (map opt_tree (assignTree (h n)));
                r \<leftarrow> (case resetTree (h n) of
                        None \<Rightarrow> Some None
                      | Some t \<Rightarrow> do { t' \<leftarrow> opt_tree t; Some (Some t') });
                Some (h(n := (h n)\<lparr>assignTree := ts, resetTree := r\<rparr>)) })"

definition valid_members :: "graph \<Rightarrow> nodeid list" where
  "valid_members g =
     concat (map (\<lambda>s. smember (supers g s))
       (filter (\<lambda>s. superType (supers g s) = SUPER_VALID) (sortedSuper g)))"

definition exprOpt :: "graph \<Rightarrow> graph abortable" where
  "exprOpt g =
     do { h \<leftarrow> fold_abort opt_node (valid_members g) (nodes g);
          reconnectAll (g\<lparr>nodes := h\<rparr>) }"

section \<open>Equal trees have equal values\<close>

lemma subTreeEq_checkTreeEq:
  "subTreeEq c d = Some True \<Longrightarrow> \<exists>x y. c = Some x \<and> d = Some y \<and> checkTreeEq Map.empty x y"
  "subTreesEq cs ds = Some True \<Longrightarrow> length cs = length ds
   \<Longrightarrow> list_all2 (\<lambda>c1 c2. case c1 of
                     None \<Rightarrow> c2 = None
                   | Some e1 \<Rightarrow> (case c2 of None \<Rightarrow> False | Some e2 \<Rightarrow> checkTreeEq Map.empty e1 e2)) cs ds"
proof (induction c d and cs ds rule: subTreeEq_subTreesEq.induct)
  case (4 a cs b ds)
  have eq: "checkENodeEq Map.empty (ENode a cs) (ENode b ds)" and sub: "subTreesEq cs ds = Some True"
    using "4.prems" by (simp_all split: if_splits)
  from eq have "length cs = length ds" by (simp add: checkENodeEq_def)
  from "4.IH" [OF eq sub this] eq show ?case by simp
next
  case (7 c cs d ds)
  have c: "subTreeEq c d = Some True" and cs: "subTreesEq cs ds = Some True"
    using "7.prems"(1) by (auto split: bind_splits if_splits)
  from "7.IH"(1) [OF c] obtain x y where "c = Some x" "d = Some y" "checkTreeEq Map.empty x y" by blast
  moreover from "7.prems"(2) have "length cs = length ds" by simp
  note "7.IH"(2) [OF c _ cs this]
  ultimately show ?case by simp
qed simp_all

lemma subTreeEq_eval:
  assumes "subTreeEq (Some x) (Some y) = Some True" "no_mem_read x"
  shows "operand_of E x = operand_of E y"
  using subTreeEq_checkTreeEq(1) [OF assms(1)] assms(2) checkTreeEq_eval [of E Map.empty x y]
  by (simp add: rv_holds_def)

section \<open>The simplification refines the tree\<close>

fun no_null :: "enode \<Rightarrow> bool" where
  "no_null (ENode a cs) \<longleftrightarrow> (\<forall>c \<in> set cs. c \<noteq> None \<and> (\<forall>e \<in> set_option c. no_null e))"

lemma subTreeEq_total:
  "c \<noteq> None \<or> d \<noteq> None \<Longrightarrow> (\<forall>e \<in> set_option c. no_null e) \<or> (\<forall>e \<in> set_option d. no_null e)
   \<Longrightarrow> \<exists>r. subTreeEq c d = Some r"
  "length cs = length ds \<Longrightarrow>
     (\<forall>c \<in> set cs. c \<noteq> None \<and> (\<forall>e \<in> set_option c. no_null e))
     \<or> (\<forall>c \<in> set ds. c \<noteq> None \<and> (\<forall>e \<in> set_option c. no_null e))
   \<Longrightarrow> \<exists>r. subTreesEq cs ds = Some r"
proof (induction c d and cs ds rule: subTreeEq_subTreesEq.induct)
  case (4 a cs b ds)
  then show ?case by (auto simp: checkENodeEq_def)
next
  case (7 c cs d ds)
  then obtain r where "subTreeEq c d = Some r" by fastforce
  with 7 show ?case by (cases r) auto
qed auto

text \<open>
  What the pass relies on: the branches of a selection have its type, two branches are not
  both missing and one of them has no missing branch inside; conversions have one operand and
  their own sign; branches do not read memories (these are nodes of their own).
\<close>

definition branches_ok :: "eattr \<Rightarrow> enode option \<Rightarrow> enode option \<Rightarrow> bool" where
  "branches_ok a t f \<longleftrightarrow>
     (t \<noteq> None \<or> f \<noteq> None)
     \<and> (t \<noteq> None \<and> f \<noteq> None \<longrightarrow> (\<forall>e \<in> set_option t. no_null e) \<or> (\<forall>e \<in> set_option f. no_null e))
     \<and> (\<forall>e \<in> set_option t. e_width e = width a \<and> e_sign e = sign a \<and> \<not> is_index e \<and> no_mem_read e)"

definition opt_typed :: "eattr \<Rightarrow> enode option list \<Rightarrow> bool" where
  "opt_typed a cs \<longleftrightarrow>
     (nodePtr a \<noteq> None \<longrightarrow> opType a = OP_EMPTY)
     \<and> (opType a = OP_WHEN \<or> opType a = OP_MUX \<longrightarrow> length cs = 3 \<and> branches_ok a (cs ! 1) (cs ! 2))
     \<and> (opType a = OP_ASASYNCRESET \<longrightarrow>
          (\<exists>e. cs = [Some e] \<and> e_width e = 1 \<and> \<not> e_sign e \<and> \<not> is_index e) \<and> width a = 1 \<and> \<not> sign a)
     \<and> (opType a = OP_ASUINT \<longrightarrow> (\<exists>e. cs = [Some e] \<and> \<not> is_index e) \<and> \<not> sign a)
     \<and> (opType a = OP_ASSINT \<longrightarrow> (\<exists>e. cs = [Some e] \<and> \<not> is_index e) \<and> sign a)"

fun optimisable :: "enode \<Rightarrow> bool" where
  "optimisable (ENode a cs) \<longleftrightarrow>
     (\<forall>c \<in> set cs. \<forall>e \<in> set_option c. optimisable e) \<and> opt_typed a cs"

lemma eval_conv:
  assumes "nodePtr a = None" "\<not> is_index e" "e_width e = width a" "e_sign e = sign a"
    and "opType a = OP_ASUINT \<and> \<not> sign a \<or> opType a = OP_ASSINT \<and> sign a
       \<or> opType a = OP_ASASYNCRESET \<and> width a = 1 \<and> \<not> sign a"
  shows "refines (eval E (ENode a [Some e])) (eval E e)"
proof (cases "eval E e")
  case (Val v)
  from eval_fits [OF Val assms(2)] have f: "fits (nat (width a)) (sign a) v" using assms by simp
  then have "\<not> sign a \<Longrightarrow> take_bit (nat (width a)) v = v" by (simp add: take_bit_eq_self_fits)
  then have "width a = 1 \<Longrightarrow> \<not> sign a \<Longrightarrow> v mod 2 = v" by (simp add: take_bit_eq_mod)
  with f show ?thesis
    using assms Val
    by (auto simp: eval_ENode apply_op_def apply_prim_def prim1_def of_opt_def keep_bits_def wrap_fits
        take_bit_eq_self_fits)
qed (use assms in \<open>auto simp: eval_ENode apply_op_def apply_prim_def\<close>)

lemma eval_equal_branches:
  assumes "nodePtr a = None" "opType a = OP_WHEN \<or> opType a = OP_MUX"
    and "operand_of E t = operand_of E f" "e_width t = width a" "e_sign t = sign a" "\<not> is_index t"
  shows "refines (eval E (ENode a [c, Some t, Some f])) (eval E t)"
proof -
  let ?os = "map (map_option (operand_of E)) [c, Some t, Some f]"
  have sel: "refines (select3 ?os) (eval E t)"
    using assms(3) by (rule_tac select3_cases [of ?os]) (auto simp: select3_Cons obranch_def)
  have "map_outcome_val (keep_bits a) (eval E t) = eval E t"
  proof (cases "eval E t")
    case (Val v)
    from eval_fits [OF Val assms(6)] show ?thesis using assms(1,2,4,5) Val by (auto simp: keep_bits_def wrap_fits)
  qed auto
  with refines_map_outcome [OF sel, of "keep_bits a"]
  have "refines (map_outcome_val (keep_bits a) (select3 ?os)) (eval E t)" by simp
  then show ?thesis using assms(1,2) by (auto simp: eval_ENode apply_op_def)
qed

lemma same_branches_total: "opt_typed a cs \<Longrightarrow> \<exists>r. same_branches a cs = Some r"
  using subTreeEq_total(1) [of "cs ! 1" "cs ! 2"]
  by (cases "cs ! 1"; cases "cs ! 2") (auto simp: opt_typed_def same_branches_def branches_ok_def)

text \<open>The rewriting of one node, given that of its children.\<close>

lemma treeOpt_refines:
  "optimisable e \<Longrightarrow> \<exists>e'. treeOpt e = Some e' \<and> erefines E e e'"
proof (induction e)
  case (ENode a cs)
  have ty: "opt_typed a cs" and kids: "\<forall>c \<in> set cs. \<forall>e \<in> set_option c. optimisable e"
    using ENode.prems by simp_all
  have IH: "\<exists>e'. treeOpt e = Some e' \<and> erefines E e e'" if "Some e \<in> set cs" for e
    using ENode.IH [OF that] kids that by auto
  obtain eq where eq: "same_branches a cs = Some eq" using same_branches_total [OF ty] by blast
  have step: ?case
    if "Some e \<in> set cs" "treeOpt (ENode a cs) = treeOpt e" "erefines E (ENode a cs) e" for e
    using IH [OF that(1)] that(2,3) erefines_trans by fastforce
  have kept: ?case
    if "treeOpt (ENode a cs) = do { cs' \<leftarrow> those (map (child_map treeOpt) cs); Some (ENode a cs') }"
  proof -
    have "\<exists>ds. list_all2 (\<lambda>c d. child_map treeOpt c = Some d \<and> rel_option (erefines E) c d) cs ds"
      using IH
    proof (induction cs)
      case (Cons c cs)
      then obtain ds where "list_all2 (\<lambda>c d. child_map treeOpt c = Some d \<and> rel_option (erefines E) c d) cs ds"
        by auto
      moreover have "\<exists>d. child_map treeOpt c = Some d \<and> rel_option (erefines E) c d"
        using Cons.prems by (cases c) (auto, fastforce)
      ultimately show ?case by (auto simp: list_all2_Cons1)
    qed auto
    then obtain ds where "list_all2 (\<lambda>c d. child_map treeOpt c = Some d \<and> rel_option (erefines E) c d) cs ds" ..
    then have "those (map (child_map treeOpt) cs) = Some ds" "list_all2 (rel_option (erefines E)) cs ds"
      by (auto simp: those_map_Some elim: list.rel_mono_strong)
    with that show ?thesis by (auto intro: erefines_children)
  qed
  consider (same) "eq" | (conv) "\<not> eq" "opType a \<in> {OP_ASASYNCRESET, OP_ASSINT, OP_ASUINT}"
    | (other) "\<not> eq" "opType a \<notin> {OP_ASASYNCRESET, OP_ASSINT, OP_ASUINT}" by blast
  then show ?case
  proof cases
    case same
    then have op: "opType a = OP_WHEN \<or> opType a = OP_MUX"
      using eq by (auto simp: same_branches_def split: if_splits)
    with ty have len: "length cs = 3" and br: "branches_ok a (cs ! 1) (cs ! 2)" and np: "nodePtr a = None"
      by (auto simp: opt_typed_def)
    then obtain c where cs: "cs = [c, cs ! 1, cs ! 2]" by (cases cs) (auto simp: numeral_3_eq_3 length_Suc_conv)
    have st: "subTreeEq (cs ! 1) (cs ! 2) = Some True" using eq same op len by (auto simp: same_branches_def)
    from subTreeEq_checkTreeEq(1) [OF st]
    obtain t f where tf: "cs ! 1 = Some t" "cs ! 2 = Some f" by blast
    have "no_mem_read t" using br tf by (simp add: branches_ok_def)
    with st tf have "operand_of E t = operand_of E f" by (intro subTreeEq_eval) simp_all
    from eval_equal_branches [OF np op this, of c] br tf cs
    have "erefines E (ENode a cs) t" by (simp add: erefines_def branches_ok_def)
    moreover have "treeOpt (ENode a cs) = treeOpt t"
      using eq same tf len by (simp add: child_at_def)
    moreover have "Some t \<in> set cs" using tf len by (metis nth_mem one_less_numeral_iff semiring_norm(77))
    ultimately show ?thesis using step by blast
  next
    case conv
    then obtain e where cs: "cs = [Some e]" and ni: "\<not> is_index e" and np: "nodePtr a = None"
      using ty by (auto simp: opt_typed_def)
    show ?thesis
    proof (cases "e_sign e = sign a \<and> e_width e = width a")
      case True
      from eval_conv [OF np ni, of E] True ty conv have "erefines E (ENode a cs) e"
        by (auto simp: erefines_def cs opt_typed_def)
      moreover have "treeOpt (ENode a cs) = treeOpt e"
        using conv True eq by (auto simp: cs child_at_def)
      ultimately show ?thesis using step [of e] by (simp add: cs del: treeOpt.simps)
    next
      case False
      then show ?thesis using conv eq ty by (auto simp: cs child_at_def opt_typed_def)
    qed
  next
    case other
    then show ?thesis using kept eq by simp
  qed
qed

text \<open>The pass: every assignment of every node it visits is refined, the others stay.\<close>

definition tree_refines :: "env \<Rightarrow> exptree \<Rightarrow> exptree \<Rightarrow> bool" where
  "tree_refines E t t' \<longleftrightarrow> erefines E (root t) (root t') \<and> lvalue t' = lvalue t"

interpretation opt: tree_pass treeOpt "\<lambda>E. optimisable"
  by unfold_locales (rule treeOpt_refines)

lemma opt_tree_refines: "optimisable (root t) \<Longrightarrow> \<exists>t'. opt_tree t = Some t' \<and> tree_refines E t t'"
  using opt.sound [of "root t" E] by (auto simp: opt_tree_def tree_refines_def)

definition node_optimisable :: "node \<Rightarrow> bool" where
  "node_optimisable nd \<longleftrightarrow>
     (\<forall>t \<in> set (assignTree nd) \<union> set_option (resetTree nd). optimisable (root t))"

definition node_refines :: "env \<Rightarrow> nodeid \<Rightarrow> node \<Rightarrow> node \<Rightarrow> bool" where
  "node_refines E n nd nd' \<longleftrightarrow>
     (if nwidth nd = 0
      then nd' = nd\<lparr>assignTree := [\<lparr>root = allocIntEnode 0 ''0'' False, lvalue = new_leaf n\<rparr>]\<rparr>
      else list_all2 (tree_refines E) (assignTree nd) (assignTree nd')
         \<and> rel_option (tree_refines E) (resetTree nd) (resetTree nd')
         \<and> nd' = nd\<lparr>assignTree := assignTree nd', resetTree := resetTree nd'\<rparr>)"

lemma opt_trees_refine:
  "\<forall>t \<in> set ts. optimisable (root t) \<Longrightarrow>
     \<exists>ts'. those (map opt_tree ts) = Some ts' \<and> list_all2 (tree_refines E) ts ts'"
proof (induction ts)
  case (Cons t ts)
  with opt_tree_refines [of t E] show ?case by fastforce
qed simp

lemma opt_node_refines:
  assumes "node_optimisable (h n)"
  shows "\<exists>nd'. opt_node n h = Some (h(n := nd')) \<and> node_refines E n (h n) nd'"
proof (cases "nwidth (h n) = 0")
  case False
  obtain ts where ts: "those (map opt_tree (assignTree (h n))) = Some ts"
    "list_all2 (tree_refines E) (assignTree (h n)) ts"
    using opt_trees_refine [of "assignTree (h n)" E] assms by (auto simp: node_optimisable_def)
  have "\<exists>r. (case resetTree (h n) of None \<Rightarrow> Some None
               | Some t \<Rightarrow> do { t' \<leftarrow> opt_tree t; Some (Some t') }) = Some r
           \<and> rel_option (tree_refines E) (resetTree (h n)) r"
    using assms opt_tree_refines [of _ E] by (cases "resetTree (h n)") (fastforce simp: node_optimisable_def)+
  then obtain r where "(case resetTree (h n) of None \<Rightarrow> Some None
               | Some t \<Rightarrow> do { t' \<leftarrow> opt_tree t; Some (Some t') }) = Some r"
     "rel_option (tree_refines E) (resetTree (h n)) r" by blast
  with ts False show ?thesis by (auto simp: opt_node_def node_refines_def)
qed (simp add: opt_node_def node_refines_def)

lemma opt_nodes_refine:
  assumes "\<forall>n \<in> set ns. node_optimisable (h n)" "distinct ns"
  shows "\<exists>h'. fold_abort opt_node ns h = Some h'
    \<and> (\<forall>n. if n \<in> set ns then node_refines E n (h n) (h' n) else h' n = h n)"
  using assms
proof (induction ns arbitrary: h)
  case (Cons n ns)
  obtain nd where nd: "opt_node n h = Some (h(n := nd))" "node_refines E n (h n) nd"
    using opt_node_refines Cons.prems(1) by fastforce
  have "\<forall>m \<in> set ns. node_optimisable ((h(n := nd)) m)" "distinct ns"
    using Cons.prems by auto
  from Cons.IH [OF this] obtain h' where h': "fold_abort opt_node ns (h(n := nd)) = Some h'"
    "\<And>m. if m \<in> set ns then node_refines E m ((h(n := nd)) m) (h' m) else h' m = (h(n := nd)) m" by blast
  have "if m \<in> set (n # ns) then node_refines E m (h m) (h' m) else h' m = h m" for m
    using h'(2) [of m] nd(2) Cons.prems(2) by (auto split: if_splits)
  then show ?case using nd(1) h'(1) by auto
qed simp

text \<open>A reset tree stays one, so that the edges can be rebuilt.\<close>

lemma treeOpt_reset:
  assumes "treeOpt e = Some e'" "e_op e = OP_RESET"
  shows "e_op e' = OP_RESET \<and> list_all2 (\<lambda>c d. (c = None) = (d = None)) (child e) (child e')"
proof (cases e)
  case (ENode a cs)
  with assms obtain ds where "e' = ENode a ds" "list_all2 (\<lambda>c d. child_map treeOpt c = Some d) cs ds"
    by (auto simp: same_branches_def those_map_Some split: bind_splits)
  moreover from this(2) have "list_all2 (\<lambda>c d. (c = None) = (d = None)) cs ds"
    by (rule list_all2_mono) (auto simp: child_map_def split: option.splits)
  ultimately show ?thesis using assms(2) ENode by simp
qed

lemma opt_node_connectable:
  assumes "opt_node n h = Some h'" "connectable h"
  shows "connectable h'"
proof -
  have "reset_cond_nodes (h' n) \<noteq> None \<and> reset_val_nodes (h' n) \<noteq> None"
    if reg: "ntype (h n) = NODE_REG_SRC"
  proof -
    have old: "reset_cond_nodes (h n) \<noteq> None" "reset_val_nodes (h n) \<noteq> None"
      using assms(2) reg by (auto simp: connectable_def)
    consider "resetTree (h' n) = resetTree (h n)" "nreset (h' n) = nreset (h n)"
      | t t' where "resetTree (h n) = Some t" "resetTree (h' n) = Some t'" "treeOpt (root t) = Some (root t')"
          "nreset (h' n) = nreset (h n)"
      using assms(1) by (auto simp: opt_node_def opt_tree_def split: if_splits option.splits bind_splits)
    then show ?thesis
    proof cases
      case 1
      then have "reset_cond_nodes (h' n) = reset_cond_nodes (h n)" "reset_val_nodes (h' n) = reset_val_nodes (h n)"
        by (simp_all add: reset_cond_nodes_def reset_val_nodes_def)
      with old show ?thesis by simp
    next
      case (2 t t')
      then have "e_op (root t) = OP_RESET" using old(2) by (auto simp: reset_val_nodes_def)
      from treeOpt_reset [OF 2(3) this] old 2(1,2,4) show ?thesis
        by (auto simp: reset_cond_nodes_def reset_val_nodes_def list_all2_Cons1 split: list.splits option.splits)
    qed
  qed
  moreover have "h' m = h m" if "m \<noteq> n" for m
    using assms(1) that by (auto simp: opt_node_def split: if_splits option.splits bind_splits)
  moreover have "super (h' n) = super (h n)" "ntype (h' n) = ntype (h n)" "parent (h' n) = parent (h n)"
    using assms(1) by (auto simp: opt_node_def split: if_splits option.splits bind_splits)
  ultimately show ?thesis using assms(2) unfolding connectable_def by metis
qed

lemma opt_nodes_connectable: "fold_abort opt_node ns h = Some h' \<Longrightarrow> connectable h \<Longrightarrow> connectable h'"
  by (induction ns arbitrary: h) (auto split: bind_splits dest: opt_node_connectable)

section \<open>Filling is sequencing\<close>

text \<open>
  A tree in which \<^verbatim>\<open>when\<close> stands only at the root and in branches of other \<^verbatim>\<open>when\<close>s, with one
  type throughout.
\<close>

fun when_spine :: "int \<Rightarrow> bool \<Rightarrow> enode \<Rightarrow> bool" where
  "when_spine w s (ENode a cs) \<longleftrightarrow>
     width a = w \<and> sign a = s
     \<and> (if opType a = OP_WHEN
        then nodePtr a = None \<and> length cs = 3 \<and> (\<forall>e \<in> set_option (hd cs). when_free e)
           \<and> (\<forall>c \<in> set (tl cs). \<forall>e \<in> set_option c. when_spine w s e)
        else when_free (ENode a cs))"

lemma fill_when_free: "when_free e \<Longrightarrow> fillEmptyENodeWhen old e = Some e"
proof (induction e)
  case (ENode a cs)
  have "those (map (child_map (fillEmptyENodeWhen old)) cs) = Some cs"
    unfolding those_map_Some list_all2_same
  proof
    fix c assume c: "c \<in> set cs"
    show "child_map (fillEmptyENodeWhen old) c = Some c"
    proof (cases c)
      case (Some e)
      with ENode.IH [OF c, of e] ENode.prems c show ?thesis by auto
    qed simp
  qed
  with ENode.prems show ?case by simp
qed

lemma fill_spine:
  assumes old: "e_width old = w" "e_sign old = s" "\<not> is_index old"
  shows "when_spine w s e \<Longrightarrow>
    \<exists>e'. fillEmptyENodeWhen old e = Some e' \<and> eval E e' = then_assign (eval E old) (eval E e)"
proof (induction e)
  case (ENode a cs)
  show ?case
  proof (cases "opType a = OP_WHEN")
    case False
    with ENode.prems have "when_free (ENode a cs)" by simp
    from fill_when_free [OF this, of old] when_free_not_Keep [OF this, of E] show ?thesis
      by (auto simp: then_assign_def)
  next
    case True
    with ENode.prems obtain c t f where cs: "cs = [c, t, f]" by (auto simp: numeral_3_eq_3 length_Suc_conv)
    have ty: "width a = w" "sign a = s" "nodePtr a = None" using ENode.prems True by auto
    define filled where "filled d d' \<longleftrightarrow> child_map (fillEmptyENodeWhen old) d = Some d' \<and>
      (case d' of None \<Rightarrow> d = None | Some x \<Rightarrow> eval E x = then_assign (eval E old) (obranch (map_option (operand_of E) d)))" for d d'
    have branch: "\<exists>d'. filled d d'" if "d \<in> {t, f}" for d
    proof (cases d)
      case (Some x)
      with ENode.IH [of d x] ENode.prems True that show ?thesis
        by (force simp: cs filled_def obranch_def)
    qed (simp add: filled_def)
    from branch obtain t' f' where t': "filled t t'" and f': "filled f f'" by blast
    have c': "child_map (fillEmptyENodeWhen old) c = Some c"
      using ENode.prems True by (cases c) (auto simp: cs fill_when_free)
    define put where "put d = (case d of None \<Rightarrow> dup old | Some x \<Rightarrow> x)" for d
    have run: "fillEmptyENodeWhen old (ENode a cs) = Some (ENode a [c, Some (put t'), Some (put f')])"
      using t' f' c' True
      by (auto simp: cs filled_def fill_branch_def put_def split: option.splits)
    have ob: "eval E (put d') = then_assign (eval E old) (obranch (map_option (operand_of E) d))"
      if "filled d d'" for d d'
      using that by (cases d') (auto simp: filled_def put_def obranch_def then_assign_def)
    have sel: "select3 (map (map_option (operand_of E)) [c, Some (put t'), Some (put f')])
        = then_assign (eval E old) (select3 (map (map_option (operand_of E)) cs))"
      using ob [OF t'] ob [OF f']
      by (rule_tac select3_cases [of "map (map_option (operand_of E)) cs"])
         (auto simp: cs select3_Cons obranch_def select3_def then_assign_def split: option.splits outcome.splits)
    have "map_outcome_val (keep_bits a) (eval E old) = eval E old"
      using old ty True by (intro eval_keep_bits) auto
    then have "eval E (ENode a [c, Some (put t'), Some (put f')]) = then_assign (eval E old) (eval E (ENode a cs))"
      using sel True ty(3) by (simp add: eval_ENode apply_op_def then_assign_def)
    with run show ?thesis by blast
  qed
qed

lemma subTreeEq_refl:
  "no_null e \<Longrightarrow> subTreeEq (Some e) (Some e) = Some True"
proof (induction e)
  case (ENode a cs)
  have "subTreesEq ds ds = Some True" if "set ds \<subseteq> set cs" for ds
    using that
  proof (induction ds)
    case (Cons d ds)
    then obtain x where "d = Some x" "no_null x" "Some x \<in> set cs" using ENode.prems by fastforce
    then show ?case using ENode.IH [of "Some x" x] Cons by simp
  qed simp
  then show ?case by (simp add: checkENodeEq_def split: option.splits)
qed

section \<open>Properties\<close>

text \<open>
  C12: The simplification pass on trees that are typed for it (\<open>node_optimisable\<close>): selections have
  three children with the then branch of their own width and sign, at least one branch is
  present, missing branches do not occur inside both branches of a selection (two such
  branches that agree make \<^verbatim>\<open>subTreeEq\<close> dereference null), and the then branch reads no memory
  (the comparison does not tell memories apart).  On such circuits the pass ends without a
  null dereference, and every assignment and reset tree of the nodes it visits is replaced by
  one of the same type whose outcome is the same wherever the old one is defined; nodes of
  width 0 get the constant 0 as their only assignment; the list of nodes stays.
\<close>

theorem exprOpt_sound:
  assumes "connectable (nodes g)" "distinct (valid_members g)"
    and "\<forall>n. node_optimisable (nodes g n)"
  shows "\<exists>g' h. exprOpt g = Some g' \<and> all_members g' = all_members g \<and> same_static h (nodes g')
    \<and> (\<forall>n. if n \<in> set (valid_members g) then node_refines E n (nodes g n) (h n) else h n = nodes g n)"
proof -
  obtain h where h: "fold_abort opt_node (valid_members g) (nodes g) = Some h"
    "\<forall>n. if n \<in> set (valid_members g) then node_refines E n (nodes g n) (h n) else h n = nodes g n"
    using opt_nodes_refine [of "valid_members g" "nodes g" E] assms by blast
  have "connectable (nodes (g\<lparr>nodes := h\<rparr>))" using opt_nodes_connectable [OF h(1) assms(1)] by simp
  from reconnectAll_total [OF this] obtain g' where g': "reconnectAll (g\<lparr>nodes := h\<rparr>) = Some g'" by blast
  from reconnectAll_static [OF g'] reconnectAll_members [OF g'] h g' show ?thesis
    by (auto simp: exprOpt_def all_members_def)
qed

definition ref4 :: "nodeid \<Rightarrow> enode" where
  "ref4 n = ENode ((new_eattr OP_EMPTY)\<lparr>nodePtr := Some n, width := 4\<rparr>) []"

definition when4 :: "enode option \<Rightarrow> enode option \<Rightarrow> enode" where
  "when4 t f = ENode ((new_eattr OP_WHEN)\<lparr>width := 4\<rparr>) [Some (ref4 0), t, f]"

definition demo_opt :: graph where
  "demo_opt = demo_graph\<lparr>nodes := (\<lambda>n. (nodes demo_graph n)\<lparr>nwidth := 4, assignTree :=
     (if n = 1 then [\<lparr>root = when4 (Some (ref4 2)) (Some (ref4 2)), lvalue = ref4 1\<rparr>] else [])\<rparr>)\<rparr>"

theorem exprOpt_sound_witness:
  "\<forall>E. \<exists>g' h. exprOpt demo_opt = Some g' \<and> same_static h (nodes g')
     \<and> node_refines E 1 (nodes demo_opt 1) (h 1)"
proof
  fix E
  have c: "connectable (nodes demo_opt)" by (simp add: connectable_def demo_opt_def demo_graph_defs)
  have v: "valid_members demo_opt = [0, 1]" by (simp add: valid_members_def demo_opt_def demo_graph_defs)
  have o: "\<forall>n. node_optimisable (nodes demo_opt n)"
    by (simp add: node_optimisable_def demo_opt_def demo_graph_defs when4_def ref4_def opt_typed_def
        branches_ok_def is_index_def)
  from exprOpt_sound [OF c _ o, of E] v show "\<exists>g' h. exprOpt demo_opt = Some g' \<and> same_static h (nodes g')
     \<and> node_refines E 1 (nodes demo_opt 1) (h 1)" by force
qed

text \<open>
  C29: Filling the missing branches of a when with an earlier assignment gives the outcome of
  performing the two assignments one after the other.
\<close>

theorem fillEmptyWhen_sequences:
  assumes "e_width old = w" "e_sign old = s" "\<not> is_index old" "when_spine w s (root t)"
  shows "\<exists>t'. fillEmptyWhen t old = Some t' \<and> lvalue t' = lvalue t
    \<and> eval E (root t') = then_assign (eval E old) (eval E (root t))"
  using fill_spine [OF assms, of E] by (auto simp: fillEmptyWhen_def)

theorem fillEmptyWhen_sequences_witness:
  "\<forall>E. \<exists>t'. fillEmptyWhen \<lparr>root = when4 (Some (ref4 1)) None, lvalue = ref4 3\<rparr> (ref4 2) = Some t'
     \<and> eval E (root t') = then_assign (eval E (ref4 2)) (eval E (when4 (Some (ref4 1)) None))"
proof
  fix E
  let ?t = "\<lparr>root = when4 (Some (ref4 1)) None, lvalue = ref4 3\<rparr>"
  have "when_spine 4 False (root ?t)" by (simp add: when4_def ref4_def new_eattr_def)
  with fillEmptyWhen_sequences [of "ref4 2" 4 False ?t E]
  show "\<exists>t'. fillEmptyWhen ?t (ref4 2) = Some t'
     \<and> eval E (root t') = then_assign (eval E (ref4 2)) (eval E (when4 (Some (ref4 1)) None))"
    by (auto simp: ref4_def new_eattr_def is_index_def)
qed

text \<open>
  A when whose branches are two equal whens without an else branch makes the comparison of
  the branches dereference a null pointer.
\<close>

theorem treeOpt_null_branches:
  assumes "opType a = OP_WHEN" "opType b = OP_WHEN" "no_null d" "no_null x"
  shows "treeOpt (ENode a [c, Some (ENode b [Some d, Some x, None]), Some (ENode b [Some d, Some x, None])]) = None"
  using assms subTreeEq_refl [OF assms(3)] subTreeEq_refl [OF assms(4)]
  by (simp add: same_branches_def checkENodeEq_def split: option.splits)

theorem treeOpt_null_branches_witness:
  "treeOpt (when4 (Some (when4 (Some (ref4 1)) None)) (Some (when4 (Some (ref4 1)) None))) = None"
proof -
  have "no_null (ref4 n)" for n by (simp add: ref4_def)
  then show ?thesis
    using treeOpt_null_branches [of "(new_eattr OP_WHEN)\<lparr>width := 4\<rparr>" "(new_eattr OP_WHEN)\<lparr>width := 4\<rparr>"
        "ref4 0" "ref4 1" "Some (ref4 0)"]
    by (simp add: when4_def new_eattr_def del: treeOpt.simps)
qed

end
