(* ===== verification/WidthOps.thy ===== *)
theory WidthOps
  imports Node
begin

section \<open>Making the widths of a tree match\<close>

text \<open>
  The parts of \<^verbatim>\<open>src/ENode.cpp\<close> and \<^verbatim>\<open>src/ExpTree.cpp\<close> that change widths: how many bits of each
  child an operation needs for the low bits of its result (\<open>common_bits\<close>, shared by
  \<^verbatim>\<open>usedBitWithFixRoot\<close> here and \<^verbatim>\<open>passWidthToChild\<close> in \<^verbatim>\<open>usedBits.cpp\<close>), and the insertion of
  extensions and bit selections where the widths of neighbours differ.
\<close>

definition child_w :: "enode option list \<Rightarrow> nat \<Rightarrow> int abortable" where
  "child_w cs i = (if i < length cs then map_option e_width (cs ! i) else None)"

definition val_at :: "int list \<Rightarrow> nat \<Rightarrow> int abortable" where
  "val_at vs i = (if i < length vs then Some (vs ! i) else None)"

text \<open>
  The switch over the operation: the bits of each child that the low \<open>u\<close> bits of the result
  depend on.  \<^verbatim>\<open>Panic()\<close> and a missing child or literal abort.
\<close>

definition common_bits :: "OPType \<Rightarrow> int list \<Rightarrow> int \<Rightarrow> enode option list \<Rightarrow> int list abortable" where
  "common_bits op vs u cs =
     (let full1 = do { w0 \<leftarrow> child_w cs 0; Some [w0] };
          full2 = do { w0 \<leftarrow> child_w cs 0; w1 \<leftarrow> child_w cs 1; Some [w0, w1] }
      in case op of
           OP_ADD \<Rightarrow> Some [u, u] | OP_SUB \<Rightarrow> Some [u, u]
         | OP_OR \<Rightarrow> Some [u, u] | OP_XOR \<Rightarrow> Some [u, u] | OP_AND \<Rightarrow> Some [u, u]
         | OP_MUL \<Rightarrow> do { w0 \<leftarrow> child_w cs 0; w1 \<leftarrow> child_w cs 1; Some [min u w0, min u w1] }
         | OP_DIV \<Rightarrow> full2 | OP_REM \<Rightarrow> full2 | OP_DSHL \<Rightarrow> full2 | OP_DSHR \<Rightarrow> full2
         | OP_LT \<Rightarrow> full2 | OP_LEQ \<Rightarrow> full2 | OP_GT \<Rightarrow> full2 | OP_GEQ \<Rightarrow> full2
         | OP_EQ \<Rightarrow> full2 | OP_NEQ \<Rightarrow> full2
         | OP_CAT \<Rightarrow> do { w1 \<leftarrow> child_w cs 1; Some [max (u - w1) 0, min w1 u] }
         | OP_ASCLOCK \<Rightarrow> full1 | OP_ASASYNCRESET \<Rightarrow> full1 | OP_ANDR \<Rightarrow> full1
         | OP_ORR \<Rightarrow> full1 | OP_XORR \<Rightarrow> full1 | OP_INDEX_INT \<Rightarrow> full1 | OP_INDEX \<Rightarrow> full1
         | OP_ASUINT \<Rightarrow> Some [u] | OP_ASSINT \<Rightarrow> Some [u] | OP_NOT \<Rightarrow> Some [u]
         | OP_NEG \<Rightarrow> Some [u] | OP_PAD \<Rightarrow> Some [u] | OP_TAIL \<Rightarrow> Some [u]
         | OP_SHL \<Rightarrow> do { n \<leftarrow> val_at vs 0; Some [max 0 (u - n)] }
         | OP_SHR \<Rightarrow> do { n \<leftarrow> val_at vs 0; Some [u + n] }
         | OP_HEAD \<Rightarrow> do { n \<leftarrow> val_at vs 0; Some [u + n] }
         | OP_BITS \<Rightarrow> do { l \<leftarrow> val_at vs 1; h \<leftarrow> val_at vs 0; Some [min (u + l) (h + 1)] }
         | OP_BITS_NOSHIFT \<Rightarrow> Some [u]
         | OP_SEXT \<Rightarrow> Some [u]
         | OP_MUX \<Rightarrow> Some [1, u, u] | OP_WHEN \<Rightarrow> Some [1, u, u]
         | OP_READ_MEM \<Rightarrow> full1
         | OP_RESET \<Rightarrow> Some [1, u]
         | _ \<Rightarrow> None)"

definition all_widths :: "enode option list \<Rightarrow> int list abortable" where
  "all_widths cs = those (map (map_option e_width) cs)"

subsection \<open>usedBitWithFixRoot\<close>

definition fix_bits :: "eattr \<Rightarrow> int \<Rightarrow> enode option list \<Rightarrow> int list abortable" where
  "fix_bits a u cs =
     (case opType a of
        OP_CVT \<Rightarrow> (case cs of Some c # _ \<Rightarrow> Some [if e_sign c then u else u - 1] | _ \<Rightarrow> None)
      | OP_EXIT \<Rightarrow> Some [1]
      | OP_PRINTF \<Rightarrow> all_widths cs
      | OP_ASSERT \<Rightarrow> all_widths cs
      | op \<Rightarrow> common_bits op (evalues a) u cs)"

text \<open>The node itself is cut after its children.\<close>

definition cut_attr :: "int \<Rightarrow> eattr \<Rightarrow> eattr abortable" where
  "cut_attr u a =
     (let w = min (width a) u; b = a\<lparr>width := w\<rparr> in
      if opType a = OP_BITS
      then do { h \<leftarrow> val_at (evalues a) 0; l \<leftarrow> val_at (evalues a) 1;
                Some (b\<lparr>evalues := (evalues a)[0 := min h (w - 1 + l)]\<rparr>) }
      else Some b)"

fun usedBitWithFixRoot :: "int \<Rightarrow> enode \<Rightarrow> enode abortable"
  and fix_children :: "int list \<Rightarrow> enode option list \<Rightarrow> enode option list abortable" where
  "usedBitWithFixRoot u (ENode a cs) =
     (if nodePtr a \<noteq> None \<or> cs = [] then Some (ENode a cs)
      else do { bs \<leftarrow> fix_bits a u cs;
                assert_that (length cs = length bs);
                cs' \<leftarrow> fix_children bs cs;
                b \<leftarrow> cut_attr u a;
                Some (ENode b cs') })"
| "fix_children [] cs = Some cs"
| "fix_children (u # us) [] = Some []"
| "fix_children (u # us) (None # cs) = do { cs' \<leftarrow> fix_children us cs; Some (None # cs') }"
| "fix_children (u # us) (Some c # cs) =
     do { c' \<leftarrow> usedBitWithFixRoot u c; cs' \<leftarrow> fix_children us cs; Some (Some c' # cs') }"

text \<open>\<^verbatim>\<open>ENode::updateWidth\<close>.\<close>

fun updateWidth :: "enode \<Rightarrow> enode" where
  "updateWidth (ENode a cs) = ENode (a\<lparr>width := usedBit a\<rparr>) (map (map_option updateWidth) cs)"

subsection \<open>matchWidth\<close>

definition sext_to :: "int \<Rightarrow> enode \<Rightarrow> enode" where
  "sext_to w e = ENode ((new_eattr OP_SEXT)\<lparr>width := w, sign := True, evalues := [w]\<rparr>) [Some e]"

definition pad_to :: "int \<Rightarrow> bool \<Rightarrow> enode \<Rightarrow> enode" where
  "pad_to w s e = ENode ((new_eattr OP_PAD)\<lparr>width := w, sign := s, evalues := [w]\<rparr>) [Some e]"

definition low_bits :: "int \<Rightarrow> bool \<Rightarrow> enode \<Rightarrow> enode" where
  "low_bits w s e = ENode ((new_eattr OP_BITS)\<lparr>width := w, sign := s, evalues := [w - 1, 0]\<rparr>) [Some e]"

definition set_width :: "int \<Rightarrow> enode \<Rightarrow> enode" where
  "set_width w e = ENode ((attr e)\<lparr>width := w\<rparr>) (child e)"

text \<open>The second loop of \<^verbatim>\<open>ExpTree::matchWidth\<close>, at one place.\<close>

definition match_leaf :: "int \<Rightarrow> enode \<Rightarrow> enode" where
  "match_leaf w e =
     (if w > e_width e
      then if e_op e = OP_INT \<or> e_op e = OP_INVALID then set_width w e
           else if e_sign e then sext_to w e
           else pad_to w False e
      else if w < e_width e
      then if e_op e = OP_INVALID then set_width w e
           else low_bits w (e_sign e) e
      else e)"

text \<open>
  The first loop walks down the branches of \<^verbatim>\<open>when\<close> and \<^verbatim>\<open>reset\<close> nodes, sets their width and
  collects the places below them.
\<close>

fun matchWidth :: "int \<Rightarrow> enode \<Rightarrow> enode" where
  "matchWidth w (ENode a cs) =
     (if opType a = OP_WHEN \<or> opType a = OP_RESET
      then ENode (a\<lparr>width := w\<rparr>) (take 1 cs @ map (map_option (matchWidth w)) (tl cs))
      else match_leaf w (ENode a cs))"

subsection \<open>when2mux\<close>

text \<open>
  \<^verbatim>\<open>ExpTree::when2mux\<close>: the walk goes below a \<^verbatim>\<open>when\<close> only if both its branches are there and
  are values, so that it continues in the condition alone; nothing changes unless the walk
  reaches its end.
\<close>

definition value_branch :: "enode option \<Rightarrow> bool" where
  "value_branch c \<longleftrightarrow> (case c of None \<Rightarrow> False | Some e \<Rightarrow> e_op e \<noteq> OP_WHEN \<and> e_op e \<noteq> OP_INVALID)"

fun all_values :: "enode \<Rightarrow> bool" where
  "all_values (ENode a cs) \<longleftrightarrow>
     opType a = OP_WHEN \<longrightarrow>
       (case cs of [Some c, t, f] \<Rightarrow> value_branch t \<and> value_branch f \<and> all_values c | _ \<Rightarrow> False)"

fun to_mux :: "enode \<Rightarrow> enode" where
  "to_mux (ENode a cs) =
     (if opType a = OP_WHEN
      then ENode (a\<lparr>opType := OP_MUX\<rparr>)
             (case cs of Some c # bs \<Rightarrow> Some (to_mux c) # bs | _ \<Rightarrow> cs)
      else ENode a cs)"

definition when2mux :: "int \<Rightarrow> enode \<Rightarrow> enode" where
  "when2mux w e =
     (if e_op e \<noteq> OP_WHEN \<or> w \<ge> BASIC_WIDTH then e
      else if all_values e then to_mux e else e)"

subsection \<open>updateWithNewWidth\<close>

text \<open>
  One round of the loop of \<^verbatim>\<open>ExpTree::updateWithNewWidth\<close>: the node, given the operation of its
  parent, as it is left behind, and whether it is looked at again in its place (\<^verbatim>\<open>remove\<close>).
\<close>

definition extend_to :: "int \<Rightarrow> enode \<Rightarrow> enode" where
  "extend_to w e = (if e_width e = w then e else if e_sign e then sext_to w e else pad_to w False e)"

definition pad_below :: "int \<Rightarrow> enode \<Rightarrow> enode" where
  "pad_below w e = (if e_width e < w then pad_to w (e_sign e) e else e)"

definition ref_step :: "int \<Rightarrow> OPType option \<Rightarrow> eattr \<Rightarrow> enode option list \<Rightarrow> enode \<times> bool" where
  "ref_step nw p a cs =
     (let ref = ENode (a\<lparr>width := nw\<rparr>) cs in
      if width a < nw
      then if p = Some OP_BITS then (ref, False)
           else let bits = low_bits (width a) False ref
                in (if sign a
                    then ENode ((new_eattr OP_ASSINT)\<lparr>width := width a, sign := True\<rparr>) [Some bits]
                    else bits, True)
      else if width a > nw
      then (if sign a then sext_to (width a) ref else pad_to (width a) False ref, True)
      else (ENode a cs, False))"

definition with_val :: "eattr \<Rightarrow> int \<Rightarrow> eattr" where
  "with_val a v = a\<lparr>evalues := (evalues a)[0 := v]\<rparr>"

definition unary_step :: "eattr \<Rightarrow> enode \<Rightarrow> enode option list \<Rightarrow> (enode \<times> bool) abortable" where
  "unary_step a c cs =
     (case opType a of
        OP_BITS \<Rightarrow>
          if width a = e_width c \<and> sign a = e_sign c then Some (c, True)
          else if width a > e_width c
          then Some (ENode (a\<lparr>opType := (if sign a then OP_SEXT else OP_PAD), evalues := [width a]\<rparr>) cs, False)
          else do { h \<leftarrow> val_at (evalues a) 0; l \<leftarrow> val_at (evalues a) 1;
                    Some (ENode (if h - l + 1 > width a then with_val a (l + width a - 1) else a) cs, False) }
      | OP_PAD \<Rightarrow>
          if width a = e_width c then Some (c, True)
          else do { v \<leftarrow> val_at (evalues a) 0;
                    Some (ENode (if v > width a then with_val a (width a) else a) cs, False) }
      | OP_SEXT \<Rightarrow>
          if width a = e_width c then Some (c, True)
          else do { v \<leftarrow> val_at (evalues a) 0;
                    assert_that (width a \<ge> e_width c);
                    Some (ENode (with_val a (width a)) cs, False) }
      | OP_TAIL \<Rightarrow> Some (if width a = e_width c then (c, True) else (ENode a cs, False))
      | OP_HEAD \<Rightarrow> Some (if width a = e_width c then (c, True) else (ENode a cs, False))
      | _ \<Rightarrow> Some (ENode a cs, False))"

definition binary_step :: "eattr \<Rightarrow> enode \<Rightarrow> enode \<Rightarrow> (enode \<times> bool) abortable" where
  "binary_step a c d =
     (case opType a of
        OP_CAT \<Rightarrow>
          do { assert_that (width a \<ge> e_width d);
               Some (if width a = e_width d then (d, True) else (ENode a [Some c, Some d], False)) }
      | OP_MUL \<Rightarrow>
          if width a \<noteq> e_width c + e_width d
          then Some (low_bits (width a) (sign a)
                       (ENode (a\<lparr>width := e_width c + e_width d\<rparr>) [Some c, Some d]), True)
          else Some (ENode a [Some c, Some d], False)
      | _ \<Rightarrow>
          if opType a = OP_OR \<or> opType a = OP_XOR
          then Some (ENode a [Some (pad_below (width a) c), Some (pad_below (width a) d)], False)
          else let w = max (e_width c) (e_width d)
               in Some (ENode a [Some (extend_to w c), Some (extend_to w d)], False))"

definition mux_step :: "eattr \<Rightarrow> enode option \<Rightarrow> enode \<Rightarrow> enode \<Rightarrow> enode" where
  "mux_step a c t f =
     ENode a
       (if e_width t > e_width f then [c, Some (pad_to (width a) (e_sign t) t), Some f]
        else if e_width t < e_width f then [c, Some t, Some (pad_to (width a) (e_sign f) f)]
        else [c, Some t, Some f])"

definition unary_ops :: "OPType set" where
  "unary_ops = {OP_BITS, OP_PAD, OP_SEXT, OP_TAIL, OP_HEAD}"

definition binary_ops :: "OPType set" where
  "binary_ops = {OP_CAT, OP_MUL, OP_OR, OP_XOR, OP_EQ, OP_NEQ, OP_LT, OP_LEQ, OP_GT, OP_GEQ, OP_ADD, OP_SUB}"

text \<open>A null child or a wrong number of children is a failed \<^verbatim>\<open>Assert\<close> or null dereference.\<close>

definition width_step :: "heap \<Rightarrow> OPType option \<Rightarrow> enode \<Rightarrow> (enode \<times> bool) abortable" where
  "width_step N p e =
     (let a = attr e; cs = child e in
      case nodePtr a of
        Some n \<Rightarrow> Some (ref_step (nwidth (N n)) p a cs)
      | None \<Rightarrow>
          if opType a \<in> unary_ops
          then (case cs of Some c # _ \<Rightarrow> unary_step a c cs | _ \<Rightarrow> None)
          else if opType a \<in> binary_ops
          then (case cs of [Some c, Some d] \<Rightarrow> binary_step a c d | _ \<Rightarrow> None)
          else if opType a = OP_MUX
          then (case cs of [c, Some t, Some f] \<Rightarrow> Some (mux_step a c t f, False) | _ \<Rightarrow> None)
          else Some (e, False))"

text \<open>The weight that falls with every round: a reference or product to be wrapped weighs more.\<close>

definition extra_weight :: "heap \<Rightarrow> eattr \<Rightarrow> enode option list \<Rightarrow> nat" where
  "extra_weight N a cs =
     (case nodePtr a of
        Some n \<Rightarrow> if width a = nwidth (N n) then 0 else 5
      | None \<Rightarrow>
          (case cs of
             [Some c, Some d] \<Rightarrow> if opType a = OP_MUL \<and> width a \<noteq> e_width c + e_width d then 3 else 0
           | _ \<Rightarrow> 0))"

fun weight :: "heap \<Rightarrow> enode \<Rightarrow> nat" where
  "weight N (ENode a cs) =
     2 + extra_weight N a cs + sum_list (map (\<lambda>c. case c of None \<Rightarrow> 0 | Some e \<Rightarrow> weight N e) cs)"

lemma weight_le_sum:
  "Some c \<in> set cs \<Longrightarrow> weight N c \<le> sum_list (map (\<lambda>c. case c of None \<Rightarrow> 0 | Some e \<Rightarrow> weight N e) cs)"
  by (induction cs) auto

lemma weight_child: "Some c \<in> set cs \<Longrightarrow> weight N c < weight N (ENode a cs)"
  using weight_le_sum [of c cs N] by simp

lemma weight_pos: "2 \<le> weight N e"
  by (cases e) simp

lemma weight_wrap [simp]:
  "weight N (sext_to w e) = 2 + weight N e" "weight N (pad_to w s e) = 2 + weight N e"
  "weight N (low_bits w s e) = 2 + weight N e"
  by (simp_all add: sext_to_def pad_to_def low_bits_def extra_weight_def new_eattr_def)

text \<open>What a round leaves: a lighter node in its place, or lighter children.\<close>

definition lighter :: "heap \<Rightarrow> enode \<Rightarrow> enode \<times> bool \<Rightarrow> bool" where
  "lighter N e r \<longleftrightarrow>
     (if snd r then weight N (fst r) < weight N e
      else (\<forall>c. Some c \<in> set (child (fst r)) \<longrightarrow> weight N c < weight N e))"

lemma lighter_same: "child e' = child e \<Longrightarrow> lighter N e (e', False)"
  by (cases e) (auto simp: lighter_def simp del: weight.simps intro: weight_child)

lemma lighter_child: "Some c \<in> set cs \<Longrightarrow> lighter N (ENode a cs) (c, True)"
  using weight_child [of c cs N a] by (simp add: lighter_def)

lemma ref_step_lighter:
  assumes "nodePtr a = Some n"
  shows "lighter N (ENode a cs) (ref_step (nwidth (N n)) p a cs)"
proof -
  have "extra_weight N (a\<lparr>width := nwidth (N n)\<rparr>) cs = 0"
    "width a \<noteq> nwidth (N n) \<Longrightarrow> extra_weight N a cs = 5"
    "extra_weight N ((new_eattr OP_ASSINT)\<lparr>width := w, sign := True\<rparr>) [Some b] = 0" for w b
    using assms by (simp_all add: extra_weight_def new_eattr_def)
  then show ?thesis
    by (auto simp: ref_step_def Let_def lighter_def less_Suc_eq_le trans_le_add2 le_SucI dest!: weight_le_sum [of _ _ N])
qed

lemma unary_step_lighter:
  assumes "cs = Some c # ds" "unary_step a c cs = Some r"
  shows "lighter N (ENode a cs) r"
proof -
  have "lighter N (ENode a cs) (c, True)" using assms(1) by (intro lighter_child) simp
  moreover have "lighter N (ENode a cs) (ENode b cs, False)" for b by (simp add: lighter_same)
  ultimately show ?thesis using assms(2)
    by (cases "opType a") (auto simp: unary_step_def split: if_splits bind_splits)
qed

lemma binary_step_lighter:
  assumes "nodePtr a = None" "binary_step a c d = Some r"
  shows "lighter N (ENode a [Some c, Some d]) r"
proof -
  have "lighter N (ENode a [Some c, Some d]) (d, True)" by (intro lighter_child) simp
  moreover have "lighter N (ENode a [Some c, Some d]) (ENode a [Some x, Some y], False)"
    if "weight N x \<le> 2 + weight N c" "weight N y \<le> 2 + weight N d" for x y
    using that weight_pos [of N c] weight_pos [of N d] by (auto simp: lighter_def)
  moreover have "weight N (extend_to w e) \<le> 2 + weight N e" "weight N (pad_below w e) \<le> 2 + weight N e" for w e
    by (simp_all add: extend_to_def pad_below_def)
  moreover have "lighter N (ENode a [Some c, Some d])
      (low_bits w s (ENode (a\<lparr>width := e_width c + e_width d\<rparr>) [Some c, Some d]), True)"
    if "opType a = OP_MUL" "width a \<noteq> e_width c + e_width d" for w s
    using that assms(1) by (simp add: lighter_def extra_weight_def)
  ultimately show ?thesis using assms(2)
    by (cases "opType a") (auto simp: binary_step_def Let_def split: if_splits)
qed

lemma mux_step_lighter: "lighter N (ENode a [c, Some t, Some f]) (mux_step a c t f, False)"
proof -
  have "weight N x < weight N (ENode a [c, Some t, Some f])" if "c = Some x" for x
    using that by (intro weight_child) simp
  then show ?thesis
    using weight_pos [of N t] weight_pos [of N f] by (auto simp: lighter_def mux_step_def)
qed

lemma width_step_lighter: "width_step N p e = Some r \<Longrightarrow> lighter N e r"
  by (cases e)
     (auto simp: width_step_def Let_def lighter_same dest: binary_step_lighter unary_step_lighter [OF refl]
        intro: mux_step_lighter ref_step_lighter split: option.splits if_splits list.splits)

function updateWithNewWidth :: "heap \<Rightarrow> OPType option \<Rightarrow> enode \<Rightarrow> enode abortable" where
  "updateWithNewWidth N p e =
     do { r \<leftarrow> width_step N p e;
          if snd r then updateWithNewWidth N p (fst r)
          else do { cs \<leftarrow> those (map (child_map (updateWithNewWidth N (Some (e_op (fst r))))) (child (fst r)));
                    Some (ENode (attr (fst r)) cs) } }"
  by pat_completeness auto
termination
  by (relation "measure (\<lambda>(N, p, e). weight N e)") (auto dest!: width_step_lighter simp: lighter_def)

end
