(* ===== verification/WidthSound.thy ===== *)
theory WidthSound
  imports WidthOps InferWidth Refine
begin

section \<open>Matching widths keeps the values\<close>

text \<open>
  What \<^verbatim>\<open>matchWidth\<close> and \<^verbatim>\<open>updateWithNewWidth\<close> do to the value of a tree: the extensions and bit
  selections they insert change neither the value of any node nor that of the root, apart
  from the conversion to the requested width.
\<close>

subsection \<open>The inserted nodes\<close>

lemma extension_eval:
  assumes "opType a = OP_PAD \<or> opType a = OP_SEXT" "nodePtr a = None"
    and "e_width e \<le> width a" "sign a = e_sign e" "\<not> is_index e" "eval E e \<noteq> Keep"
  shows "eval E (ENode a [Some e]) = eval E e"
proof (cases "eval E e")
  case (Val v)
  from eval_fits [OF Val assms(5)] have "fits (nat (width a)) (sign a) v"
    using assms(3,4) by (auto intro: fits_mono)
  then show ?thesis using assms Val
    by (auto simp: eval_ENode apply_op_def apply_prim_def prim1_def of_opt_def keep_bits_def wrap_fits)
qed (use assms in \<open>auto simp: eval_ENode apply_op_def apply_prim_def\<close>)

lemma sext_eval:
  "e_width e \<le> w \<Longrightarrow> e_sign e \<Longrightarrow> \<not> is_index e \<Longrightarrow> eval E e \<noteq> Keep \<Longrightarrow> eval E (sext_to w e) = eval E e"
  unfolding sext_to_def by (rule extension_eval) (simp_all add: new_eattr_def)

lemma pad_eval:
  "e_width e \<le> w \<Longrightarrow> e_sign e = s \<Longrightarrow> \<not> is_index e \<Longrightarrow> eval E e \<noteq> Keep \<Longrightarrow> eval E (pad_to w s e) = eval E e"
  unfolding pad_to_def by (rule extension_eval) (simp_all add: new_eattr_def)

lemma wrap_low_bits: "w \<le> w' \<Longrightarrow> wrap w s (take_bit w (take_bit w' v)) = wrap w s v"
  by (simp add: min_def)

lemma low_bits_eval:
  assumes "0 \<le> w" "w \<le> e_width e" "eval E e \<noteq> Keep"
  shows "eval E (low_bits w s e) = map_outcome_val (wrap (nat w) s) (eval E e)"
proof (cases "eval E e")
  case (Val v)
  then show ?thesis using assms(1,2) wrap_low_bits [of "nat w" "nat (e_width e)" s v]
    by (simp add: low_bits_def new_eattr_def eval_ENode apply_op_def apply_prim_def prim1_def of_opt_def keep_bits_def)
qed (use assms in \<open>auto simp: low_bits_def new_eattr_def eval_ENode apply_op_def apply_prim_def\<close>)

lemma wrapper_attrs [simp]:
  "e_width (sext_to w e) = w" "e_sign (sext_to w e) = True" "e_node (sext_to w e) = None"
  "e_op (sext_to w e) = OP_SEXT" "child (sext_to w e) = [Some e]"
  "e_width (pad_to w s e) = w" "e_sign (pad_to w s e) = s" "e_node (pad_to w s e) = None"
  "e_op (pad_to w s e) = OP_PAD" "child (pad_to w s e) = [Some e]"
  "e_width (low_bits w s e) = w" "e_sign (low_bits w s e) = s" "e_node (low_bits w s e) = None"
  "e_op (low_bits w s e) = OP_BITS" "child (low_bits w s e) = [Some e]"
  "e_width (set_width w e) = w" "e_sign (set_width w e) = e_sign e" "e_node (set_width w e) = e_node e"
  "e_op (set_width w e) = e_op e" "child (set_width w e) = child e"
  by (simp_all add: sext_to_def pad_to_def low_bits_def set_width_def new_eattr_def)

subsection \<open>matchWidth\<close>

text \<open>
  Trees as the callers have them: the branches of a \<^verbatim>\<open>when\<close> or \<^verbatim>\<open>reset\<close> are not wider than it and
  have its sign, below them stand values, and a literal fits its width.
\<close>

definition leaf_ok :: "enode \<Rightarrow> bool" where
  "leaf_ok e \<longleftrightarrow>
     when_free e \<and> 0 \<le> e_width e \<and> \<not> is_index e \<and> (e_node e \<noteq> None \<longrightarrow> e_op e = OP_EMPTY)
     \<and> (e_op e = OP_INT \<longrightarrow>
          (\<exists>v. int_literal (strVal (attr e)) = Some v \<and> fits (nat (e_width e)) (e_sign e) v))"

fun match_ok :: "bool \<Rightarrow> enode \<Rightarrow> bool" where
  "match_ok s (ENode a cs) \<longleftrightarrow>
     sign a = s \<and>
     (if opType a = OP_WHEN \<or> opType a = OP_RESET
      then nodePtr a = None \<and> cs \<noteq> []
         \<and> (\<forall>c \<in> set (tl cs). \<forall>e \<in> set_option c. match_ok s e \<and> e_width e \<le> width a)
      else leaf_ok (ENode a cs))"

lemma match_leaf_eval:
  assumes "leaf_ok e" "0 \<le> w"
  shows "e_width (match_leaf w e) = w \<and> e_sign (match_leaf w e) = e_sign e
    \<and> eval E (match_leaf w e) = map_outcome_val (wrap (nat w) (e_sign e)) (eval E e)"
proof -
  have nk: "eval E e \<noteq> Keep" using assms(1) by (simp add: leaf_ok_def when_free_not_Keep)
  have wider: "map_outcome_val (wrap (nat w) (e_sign e)) (eval E e) = eval E e" if "e_width e \<le> w"
  proof (cases "eval E e")
    case (Val v)
    from eval_fits [OF Val] assms that show ?thesis
      by (auto simp: Val leaf_ok_def wrap_eq_iff_fits intro: fits_mono)
  qed auto
  have int: "eval E (set_width w e) = eval E e" if "e_op e = OP_INT" "e_width e \<le> w"
  proof -
    from that(1) assms(1) obtain v where v: "int_literal (strVal (attr e)) = Some v" "e_node e = None"
      "fits (nat (e_width e)) (e_sign e) v" by (auto simp: leaf_ok_def)
    moreover from v(3) have "fits (nat w) (e_sign e) v" using that(2) by (auto intro: fits_mono)
    ultimately show ?thesis using that(1)
      by (cases e) (simp add: set_width_def eval_ENode apply_op_def of_opt_def keep_bits_def wrap_fits)
  qed
  have inv: "eval E (set_width w e) = map_outcome_val f (eval E e)" if "e_op e = OP_INVALID" for f
    using that assms(1) by (cases e) (auto simp: leaf_ok_def set_width_def eval_ENode apply_op_def)
  show ?thesis
    using assms nk wider int inv
    by (auto simp: match_leaf_def sext_eval pad_eval low_bits_eval leaf_ok_def)
qed

lemma match_ok_not_index: "match_ok s e \<Longrightarrow> \<not> is_index e" and match_ok_sign: "match_ok s e \<Longrightarrow> e_sign e = s"
  by (cases e, auto simp: is_index_def leaf_ok_def split: if_splits)+

lemma select3_map:
  assumes "\<And>d. d \<in> set ds \<Longrightarrow> obranch (g d) = map_outcome_val f (obranch d)"
  shows "select3 (c # map g ds) = map_outcome_val f (select3 (c # ds))"
proof (rule select3_cases [of "c # ds"])
  fix w s x t u assume eq: "c # ds = [Some (w, s, Val x), t, u]"
  then have "ds = [t, u]" "c = Some (w, s, Val x)" by auto
  then show ?thesis using assms [of t] assms [of u] by (simp add: select3_Cons)
next
  assume u: "select3 (c # ds) = Undef"
  have "select3 (c # map g ds) = Undef"
  proof (rule select3_cases [of "c # map g ds"])
    fix w s x t' u' assume eq: "c # map g ds = [Some (w, s, Val x), t', u']"
    then obtain t v where ds: "ds = [t, v]" "c = Some (w, s, Val x)" by auto
    with u have "map_outcome_val f (if x \<noteq> 0 then obranch t else obranch v) = Undef" by (simp add: select3_Cons)
    then show ?thesis using assms [of t] assms [of v] ds by (simp add: select3_Cons split: if_splits)
  qed
  with u show ?thesis by simp
qed

lemma select3_fits:
  assumes "\<And>d v. d \<in> set ds \<Longrightarrow> obranch d = Val v \<Longrightarrow> P v" "select3 (c # ds) = Val v"
  shows "P v"
  using assms
  by (rule_tac select3_cases [of "c # ds"]) (auto simp: select3_Cons split: if_splits)

text \<open>The value of a \<^verbatim>\<open>when\<close> or \<^verbatim>\<open>reset\<close> as a choice between its branches.\<close>

lemma eval_choice:
  assumes "opType a = OP_WHEN \<or> opType a = OP_RESET" "nodePtr a = None"
  shows "apply_op E a (c # ds) =
    (if opType a = OP_RESET then (case ds of [v] \<Rightarrow> select3 [c, v, None] | _ \<Rightarrow> Undef) else select3 (c # ds))"
  using assms by (auto simp: apply_op_def split: list.splits)

lemma choice_map:
  assumes op: "opType a = OP_WHEN \<or> opType a = OP_RESET" "nodePtr a = None"
    and g: "\<And>d. obranch (g d) = map_outcome_val f (obranch d)" "g None = None"
  shows "apply_op E a (c # map g ds) = map_outcome_val f (apply_op E a (c # ds))"
proof (cases "opType a = OP_RESET")
  case True
  have "select3 [c, g v, None] = map_outcome_val f (select3 [c, v, None])" for v
    using select3_map [of "[v, None]" g f c] g by simp
  with True show ?thesis unfolding eval_choice [OF op] by (auto split: list.splits)
next
  case False
  with select3_map [of ds g f c] g(1) show ?thesis unfolding eval_choice [OF op] by simp
qed

lemma choice_fits:
  assumes op: "opType a = OP_WHEN \<or> opType a = OP_RESET" "nodePtr a = None"
    and P: "\<And>d v. d \<in> set ds \<Longrightarrow> obranch d = Val v \<Longrightarrow> P v"
    and v: "apply_op E a (c # ds) = Val v"
  shows "P v"
proof (cases "opType a = OP_RESET")
  case True
  with v obtain d where d: "ds = [d]" "select3 [c, d, None] = Val v"
    unfolding eval_choice [OF op] by (auto split: list.splits)
  have "P u" if "x \<in> set [d, None]" "obranch x = Val u" for x u
    using that P d(1) by (auto simp: obranch_def)
  from select3_fits [OF this d(2)] show ?thesis by simp
next
  case False
  with v have "select3 (c # ds) = Val v" unfolding eval_choice [OF op] by simp
  then show ?thesis using select3_fits [of ds P c v] P by blast
qed

lemma matchWidth_eval:
  assumes "0 \<le> w"
  shows "match_ok s e \<Longrightarrow> e_width (matchWidth w e) = w \<and> e_sign (matchWidth w e) = s
    \<and> eval E (matchWidth w e) = map_outcome_val (wrap (nat w) s) (eval E e)"
proof (induction e)
  case (ENode a cs)
  show ?case
  proof (cases "opType a = OP_WHEN \<or> opType a = OP_RESET")
    case False
    with ENode.prems match_leaf_eval [of "ENode a cs" w E] assms show ?thesis by simp
  next
    case True
    with ENode.prems obtain c bs where cs: "cs = c # bs" and np: "nodePtr a = None" and s: "sign a = s"
      by (cases cs) auto
    let ?op = "map_option (operand_of E)" and ?f = "map_outcome_val (wrap (nat w) s)"
    define g where "g d = (case d of None \<Rightarrow> None | Some (k, s', r) \<Rightarrow> Some (nat w, s', ?f r))"
      for d :: "(nat \<times> bool \<times> outcome) option"
    have kid: "?op (map_option (matchWidth w) b) = g (?op b)" if "b \<in> set bs" for b
    proof (cases b)
      case (Some e)
      then have "match_ok s e" using that ENode.prems True by (auto simp: cs)
      moreover from this Some that have "e_width (matchWidth w e) = w \<and> e_sign (matchWidth w e) = s
          \<and> eval E (matchWidth w e) = ?f (eval E e)" by (intro ENode.IH [of b]) (auto simp: cs)
      ultimately show ?thesis using match_ok_sign [of s e] by (simp add: Some g_def)
    qed (simp add: g_def)
    then have kids: "map ?op (map (map_option (matchWidth w)) bs) = map g (map ?op bs)" by simp
    have og: "obranch (g d) = ?f (obranch d)" for d by (auto simp: obranch_def g_def split: option.splits)
    have ap: "apply_op E a (?op c # map g (map ?op bs)) = ?f (apply_op E a (?op c # map ?op bs))"
      by (rule choice_map [OF True np og]) (simp add: g_def)
    have fit: "fits (nat (width a)) s v" if "d \<in> set (map ?op bs)" "obranch d = Val v" for d v
    proof -
      from that obtain e where e: "Some e \<in> set bs" "eval E e = Val v"
        by (auto simp: obranch_def map_option_case split: option.splits)
      then have "match_ok s e" "e_width e \<le> width a" using ENode.prems True by (auto simp: cs)
      then have "fits (nat (e_width e)) s v" "nat (e_width e) \<le> nat (width a)"
        using eval_fits [OF e(2) match_ok_not_index] match_ok_sign by auto
      then show ?thesis by (rule fits_mono)
    qed
    have keep: "map_outcome_val (keep_bits a) (apply_op E a (?op c # map ?op bs)) = apply_op E a (?op c # map ?op bs)"
    proof (cases "apply_op E a (?op c # map ?op bs)")
      case (Val v)
      have "fits (nat (width a)) s v"
        by (rule choice_fits [where P = "fits (nat (width a)) s", OF True np _ Val]) (rule fit)
      with Val True s show ?thesis by (auto simp: keep_bits_def wrap_fits)
    qed auto
    have aw: "apply_op E (a\<lparr>width := w\<rparr>) os = apply_op E a os" for os by (rule apply_op_cong) simp_all
    have run: "matchWidth w (ENode a cs) = ENode (a\<lparr>width := w\<rparr>) (c # map (map_option (matchWidth w)) bs)"
      using True by (simp add: cs)
    have "eval E (matchWidth w (ENode a cs))
        = map_outcome_val (keep_bits (a\<lparr>width := w\<rparr>)) (?f (apply_op E a (?op c # map ?op bs)))"
      unfolding run eval_ENode by (simp only: list.map(2) kids aw ap)
    also have "\<dots> = ?f (eval E (ENode a cs))"
      using keep True np s by (cases "apply_op E a (?op c # map ?op bs)") (auto simp: cs eval_ENode keep_bits_def)
    finally show ?thesis using True s by (simp add: cs)
  qed
qed

end
