(* ===== verification/WidthFit.thy ===== *)
theory WidthFit
  imports WidthSound
begin

section \<open>Fitting references to their nodes\<close>

text \<open>
  \<^verbatim>\<open>updateWithNewWidth\<close> runs after the widths of nodes have changed.  The claim is that it ends,
  that every reference then has the width of its node, and that no value changes.
\<close>

text \<open>
  The widths as the callers leave them: an operation is not wider than what its operands
  determine, an extension not narrower than its operand, and operands are values.
\<close>

definition unary_typed :: "eattr \<Rightarrow> enode \<Rightarrow> bool" where
  "unary_typed a c \<longleftrightarrow>
     (case opType a of
        OP_BITS \<Rightarrow> \<exists>h l. evalues a = [h, l] \<and> 0 \<le> l \<and> width a \<le> h - l + 1 \<and> l + width a \<le> e_width c
      | OP_TAIL \<Rightarrow> \<exists>n. evalues a = [n] \<and> width a \<le> n \<and> width a \<le> e_width c
                     \<and> (width a = e_width c \<longrightarrow> sign a = e_sign c)
      | OP_HEAD \<Rightarrow> \<exists>n. evalues a = [n] \<and> 0 \<le> n \<and> n + width a \<le> e_width c
                     \<and> (width a = e_width c \<longrightarrow> sign a = e_sign c)
      | _ \<Rightarrow> evalues a \<noteq> [] \<and> e_width c \<le> width a \<and> sign a = e_sign c)"

definition binary_typed :: "eattr \<Rightarrow> enode \<Rightarrow> enode \<Rightarrow> bool" where
  "binary_typed a c d \<longleftrightarrow>
     (case opType a of
        OP_CAT \<Rightarrow> e_width d \<le> width a \<and> (width a = e_width d \<longrightarrow> sign a = e_sign d)
      | OP_MUL \<Rightarrow> width a \<le> e_width c + e_width d \<and> sign a = e_sign c \<and> sign a = e_sign d
      | OP_OR \<Rightarrow> width a = max (e_width c) (e_width d)
      | OP_XOR \<Rightarrow> width a = max (e_width c) (e_width d)
      | _ \<Rightarrow> True)"

definition operand_ok :: "enode \<Rightarrow> bool" where
  "operand_ok c \<longleftrightarrow> when_free c \<and> \<not> is_index c \<and> 0 \<le> e_width c"

definition index_op :: "eattr \<Rightarrow> bool" where
  "index_op a \<longleftrightarrow> nodePtr a = None \<and> (opType a = OP_INDEX \<or> opType a = OP_INDEX_INT)"

definition fit_typed :: "heap \<Rightarrow> eattr \<Rightarrow> enode option list \<Rightarrow> bool" where
  "fit_typed N a cs \<longleftrightarrow>
     (0 \<le> width a \<or> index_op a) \<and>
     (case nodePtr a of
        Some n \<Rightarrow> opType a = OP_EMPTY \<and> sign a = nsign (N n)
                 \<and> (\<forall>c \<in> set cs. \<forall>e \<in> set_option c. when_free e)
      | None \<Rightarrow>
          if opType a \<in> unary_ops
          then (case cs of [Some c] \<Rightarrow> operand_ok c \<and> unary_typed a c | _ \<Rightarrow> False)
          else if opType a \<in> binary_ops
          then (case cs of [Some c, Some d] \<Rightarrow> operand_ok c \<and> operand_ok d \<and> binary_typed a c d | _ \<Rightarrow> False)
          else if opType a = OP_MUX
          then (case cs of
                  [c, Some t, Some f] \<Rightarrow>
                    operand_ok t \<and> operand_ok f \<and> e_width t \<le> width a \<and> e_width f \<le> width a
                | _ \<Rightarrow> False)
          else True)"

fun fit_ok :: "heap \<Rightarrow> enode \<Rightarrow> bool" where
  "fit_ok N (ENode a cs) \<longleftrightarrow> fit_typed N a cs \<and> (\<forall>c \<in> set cs. \<forall>e \<in> set_option c. fit_ok N e)"

text \<open>What the pass establishes.\<close>

fun refs_fit :: "heap \<Rightarrow> enode \<Rightarrow> bool" where
  "refs_fit N (ENode a cs) \<longleftrightarrow>
     (\<forall>n. nodePtr a = Some n \<longrightarrow> width a = nwidth (N n)) \<and> (\<forall>c \<in> set cs. \<forall>e \<in> set_option c. refs_fit N e)"

text \<open>A tree that is at least as wide and agrees with the first on the bits of the first.\<close>

abbreviation low :: "enode \<Rightarrow> outcome \<Rightarrow> outcome" where
  "low e \<equiv> map_outcome_val (take_bit (nat (e_width e)))"

definition widened :: "env \<Rightarrow> enode \<Rightarrow> enode \<Rightarrow> bool" where
  "widened E e e' \<longleftrightarrow> e_width e \<le> e_width e' \<and> refines (low e (eval E e)) (low e (eval E e'))"

lemma exact_widened: "erefines E e e' \<Longrightarrow> widened E e e'"
  by (simp add: erefines_def widened_def refines_map_outcome)

lemma widened_trans: "erefines E a b \<Longrightarrow> widened E b c \<Longrightarrow> widened E a c"
  by (auto simp: erefines_def widened_def intro: refines_trans refines_map_outcome)

lemma erefinesI: "e_width e' = e_width e \<Longrightarrow> e_sign e' = e_sign e \<Longrightarrow> eval E e' = eval E e \<Longrightarrow> erefines E e e'"
  by (simp add: erefines_def)

lemma operand_okD: "operand_ok c \<Longrightarrow> eval E c \<noteq> Keep" "operand_ok c \<Longrightarrow> \<not> is_index c" "operand_ok c \<Longrightarrow> 0 \<le> e_width c"
  by (simp_all add: operand_ok_def when_free_not_Keep)

lemma operand_ok_wrap [simp]:
  "operand_ok e \<Longrightarrow> e_width e \<le> w \<Longrightarrow> operand_ok (sext_to w e)"
  "operand_ok e \<Longrightarrow> e_width e \<le> w \<Longrightarrow> operand_ok (pad_to w s e)"
  "operand_ok e \<Longrightarrow> 0 \<le> w \<Longrightarrow> operand_ok (low_bits w s e)"
  by (auto simp: operand_ok_def is_index_def sext_to_def pad_to_def low_bits_def new_eattr_def)

subsection \<open>One round on a reference\<close>

lemma ref_eval:
  assumes "nodePtr a = Some n"
  shows "eval E (ENode (a\<lparr>width := w\<rparr>) cs) =
    (case vals (map (map_option (operand_of E)) cs) of
       None \<Rightarrow> Undef | Some is \<Rightarrow> Val (wrap (nat w) (sign a) (val E n is)))"
  using assms by (simp add: eval_ref [of _ n] cong: option.case_cong)

lemma assint_eval:
  assumes "0 \<le> w" "e_width b = w"
  shows "eval E (ENode ((new_eattr OP_ASSINT)\<lparr>width := w, sign := True\<rparr>) [Some b])
    = (case eval E b of Val v \<Rightarrow> Val (wrap (nat w) True v) | _ \<Rightarrow> Undef)"
  using assms
  by (auto simp: eval_ENode apply_op_def apply_prim_def prim1_def of_opt_def keep_bits_def new_eattr_def
      split: outcome.splits)

text \<open>A round that replaces the node, and one that leaves it.\<close>

definition settled :: "heap \<Rightarrow> enode \<Rightarrow> bool" where
  "settled N e \<longleftrightarrow>
     (\<forall>n. e_node e = Some n \<longrightarrow> e_width e = nwidth (N n) \<and> e_op e \<noteq> OP_BITS)
     \<and> (e_op e = OP_BITS \<longrightarrow>
          (\<exists>c h l. child e = [Some c] \<and> e_values e = [h, l] \<and> 0 \<le> l \<and> h < e_width c))"

definition kids_fit :: "heap \<Rightarrow> enode \<Rightarrow> bool" where
  "kids_fit N e \<longleftrightarrow> (\<forall>c \<in> set (child e). \<forall>x \<in> set_option c. fit_ok N x)"

definition round_ok :: "heap \<Rightarrow> env \<Rightarrow> OPType option \<Rightarrow> enode \<Rightarrow> enode \<times> bool \<Rightarrow> bool" where
  "round_ok N E p e r \<longleftrightarrow>
     (if snd r then fit_ok N (fst r) \<and> erefines E e (fst r)
      else kids_fit N (fst r) \<and> settled N (fst r)
         \<and> (if p = Some OP_BITS then widened E e (fst r) else erefines E e (fst r)))"

lemma round_ok_again: "fit_ok N e' \<Longrightarrow> erefines E e e' \<Longrightarrow> round_ok N E p e (e', True)"
  by (simp add: round_ok_def)

lemma round_ok_stay:
  "kids_fit N e' \<Longrightarrow> settled N e' \<Longrightarrow> erefines E e e' \<Longrightarrow> round_ok N E p e (e', False)"
  by (simp add: round_ok_def exact_widened)

lemma fit_ok_pad: "fit_ok N e \<Longrightarrow> operand_ok e \<Longrightarrow> e_width e \<le> w \<Longrightarrow> e_sign e = s \<Longrightarrow> fit_ok N (pad_to w s e)"
  by (auto simp: pad_to_def new_eattr_def fit_typed_def unary_ops_def unary_typed_def operand_ok_def)

lemma fit_ok_sext: "fit_ok N e \<Longrightarrow> operand_ok e \<Longrightarrow> e_width e \<le> w \<Longrightarrow> e_sign e \<Longrightarrow> fit_ok N (sext_to w e)"
  by (auto simp: sext_to_def new_eattr_def fit_typed_def unary_ops_def unary_typed_def operand_ok_def)

lemma fit_ok_low: "fit_ok N e \<Longrightarrow> operand_ok e \<Longrightarrow> 0 \<le> w \<Longrightarrow> w \<le> e_width e \<Longrightarrow> fit_ok N (low_bits w s e)"
  by (auto simp: low_bits_def new_eattr_def fit_typed_def unary_ops_def unary_typed_def)

lemma ref_step_ok:
  assumes e: "fit_ok N (ENode a cs)" "nodePtr a = Some n" and env: "env_ok N E"
  shows "round_ok N E p (ENode a cs) (ref_step (nwidth (N n)) p a cs)"
proof -
  let ?nw = "nwidth (N n)" and ?ref = "ENode (a\<lparr>width := nwidth (N n)\<rparr>) cs"
  have nw: "0 \<le> ?nw" and w: "0 \<le> width a" and s: "sign a = nsign (N n)" and op: "opType a = OP_EMPTY"
    using env e by (auto simp: env_ok_def fit_typed_def index_op_def)
  have ref: "fit_ok N ?ref" "operand_ok ?ref" "e_width ?ref = ?nw" "e_sign ?ref = sign a"
    using e nw by (auto simp: fit_typed_def operand_ok_def is_index_def)
  have kf: "kids_fit N (ENode b cs)" for b using e(1) by (auto simp: kids_fit_def)
  have fits: "fits (nat ?nw) (sign a) (val E n is)" for "is" using env s by (simp add: env_ok_def)
  note eqs = ref_eval [OF e(2), of E _ cs] eval_ref [OF e(2), of E cs]
  consider (narrow) "width a < ?nw" | (wide) "?nw < width a" | (same) "width a = ?nw" by linarith
  then show ?thesis
  proof cases
    case narrow
    have bits: "fit_ok N (low_bits (width a) False ?ref)" using ref w narrow by (intro fit_ok_low) auto
    have lb: "eval E (low_bits (width a) False ?ref) = map_outcome_val (wrap (nat (width a)) False) (eval E ?ref)"
      using w narrow operand_okD(1) [OF ref(2)] by (intro low_bits_eval) auto
    let ?cv = "ENode ((new_eattr OP_ASSINT)\<lparr>width := width a, sign := True\<rparr>) [Some (low_bits (width a) False ?ref)]"
    have "fit_ok N ?cv" using bits w by (simp add: fit_typed_def new_eattr_def unary_ops_def binary_ops_def)
    moreover have "eval E ?cv = eval E (ENode a cs)" if "sign a"
      using that narrow w by (subst assint_eval) (auto simp: lb eqs wrap_wrap split: option.splits)
    moreover have "eval E (low_bits (width a) False ?ref) = eval E (ENode a cs)" if "\<not> sign a"
      using that narrow w by (auto simp: lb eqs wrap_wrap split: option.splits)
    moreover have "widened E (ENode a cs) ?ref"
      using narrow w by (auto simp: widened_def eqs take_bit_wrap split: option.splits)
    ultimately show ?thesis
      using narrow bits kf op e(2)
      by (auto simp: ref_step_def Let_def round_ok_def erefines_def settled_def new_eattr_def)
  next
    case wide
    have "fits (nat (width a)) (sign a) (val E n is)" for "is"
      using fits_mono [OF fits, of "nat (width a)" "is"] wide by simp
    with fits have ev: "eval E ?ref = eval E (ENode a cs)" by (auto simp: eqs wrap_fits split: option.splits)
    have nk: "eval E ?ref \<noteq> Keep" "\<not> is_index ?ref" using operand_okD [OF ref(2)] by auto
    show ?thesis
    proof (cases "sign a")
      case True
      then have "fit_ok N (sext_to (width a) ?ref)" "eval E (sext_to (width a) ?ref) = eval E ?ref"
        using ref wide nk by (auto intro!: fit_ok_sext sext_eval)
      with True wide ev show ?thesis by (simp add: ref_step_def round_ok_def erefines_def)
    next
      case False
      then have "fit_ok N (pad_to (width a) False ?ref)" "eval E (pad_to (width a) False ?ref) = eval E ?ref"
        using ref wide nk by (auto intro!: fit_ok_pad pad_eval)
      with False wide ev show ?thesis by (simp add: ref_step_def round_ok_def erefines_def)
    qed
  next
    case same
    then show ?thesis using kf op e(2) by (simp add: ref_step_def round_ok_stay settled_def)
  qed
qed

subsection \<open>One round on an operation\<close>

lemma eval_unary:
  assumes "nodePtr a = None" "opType a \<in> unary_ops"
  shows "eval E (ENode a [Some c]) =
    (case eval E c of
       Val v \<Rightarrow> map_outcome_val (wrap (nat (width a)) (sign a))
                 (of_opt (prim1 (firHeadTail E) (opType a) (evalues a) (nat (e_width c), e_sign c, v)))
     | _ \<Rightarrow> Undef)"
  using assms
  by (auto simp: eval_ENode apply_op_def apply_prim_def keep_bits_def unary_ops_def of_opt_def
      split: outcome.splits option.splits)

lemma unary_same:
  assumes a: "nodePtr a = None" "opType a \<in> unary_ops" and c: "operand_ok c" "unary_typed a c"
    and eq: "width a = e_width c" "sign a = e_sign c" and E: "\<not> firHeadTail E" and w: "0 \<le> width a"
  shows "eval E (ENode a [Some c]) = eval E c"
proof (cases "eval E c")
  case (Val v)
  let ?w = "nat (width a)"
  have f: "fits ?w (sign a) v" using eval_fits [OF Val operand_okD(2) [OF c(1)]] eq by simp
  have "\<exists>x. prim1 False (opType a) (evalues a) (?w, e_sign c, v) = Some x \<and> take_bit ?w x = take_bit ?w v"
    using a(2) c(2) w unfolding unary_ops_def
    by (auto simp: unary_typed_def prim1_def eq simp flip: eq(1))
  then obtain x where x: "prim1 False (opType a) (evalues a) (?w, e_sign c, v) = Some x"
    "wrap ?w (sign a) x = wrap ?w (sign a) v" by (auto intro: wrap_cong)
  with E eq(1) f show ?thesis by (simp add: eval_unary [OF a] Val of_opt_def wrap_fits)
next
  case Keep
  then show ?thesis using operand_okD(1) [OF c(1)] by simp
qed (simp add: eval_unary [OF a])

lemma bits_shorten:
  assumes a: "nodePtr a = None" "opType a = OP_BITS" "evalues a = [h, l]" and w: "width a \<le> h - l + 1" "0 \<le> width a"
  shows "eval E (ENode (with_val a (l + width a - 1)) [Some c]) = eval E (ENode a [Some c])"
proof -
  have "opType a \<in> unary_ops" using a(2) by (simp add: unary_ops_def)
  moreover have "nat (width a) \<le> nat (h - l + 1)" using w by simp
  moreover have "wrap n s (take_bit m x) = wrap n s x" if "n \<le> m" for n m s x
    using that by (intro wrap_cong) (simp add: min_def)
  ultimately show ?thesis
    using a by (simp add: eval_unary with_val_def prim1_def of_opt_def split: outcome.splits)
qed

lemma bits_widened:
  assumes a: "nodePtr a = None" "opType a = OP_BITS" "evalues a = [h, l]" "0 \<le> l" "h < e_width c"
    and c: "widened E c c'"
  shows "refines (eval E (ENode a [Some c])) (eval E (ENode a [Some c']))"
proof -
  let ?k = "nat (h - l + 1)" and ?l = "nat l"
  have u: "opType a \<in> unary_ops" using a(2) by (simp add: unary_ops_def)
  have k: "?k + ?l \<le> nat (e_width c) \<or> ?k = 0" using a(4,5) by linarith
  have le: "nat (e_width c) \<le> nat (e_width c')" and lo: "refines (low c (eval E c)) (low c (eval E c'))"
    using c by (auto simp: widened_def)
  have bits: "take_bit ?k (drop_bit ?l (take_bit w x)) = take_bit ?k (drop_bit ?l (take_bit (nat (e_width c)) x))"
    if "nat (e_width c) \<le> w" for w and x :: int
  proof (cases "?k = 0")
    case False
    with k that have "?k + ?l \<le> nat (e_width c)" "?k + ?l \<le> w" by auto
    then show ?thesis by (simp add: take_bit_drop_bit min_def)
  qed (simp only: take_bit_0)
  show ?thesis
  proof (cases "eval E c")
    case (Val v)
    with lo obtain v' where v': "eval E c' = Val v'"
      and tb: "take_bit (nat (e_width c)) v' = take_bit (nat (e_width c)) v" by (cases "eval E c'") (auto simp: refines_def)
    have "take_bit ?k (drop_bit ?l (take_bit (nat (e_width c')) v'))
        = take_bit ?k (drop_bit ?l (take_bit (nat (e_width c)) v))"
      using bits [OF le, of v'] tb by simp
    then show ?thesis
      using a(2,3) by (simp add: eval_unary [OF a(1) u] Val v' prim1_def)
  qed (simp_all add: eval_unary [OF a(1) u])
qed

lemma not_index_op: "opType a \<in> unary_ops \<Longrightarrow> \<not> index_op a" "opType a \<in> binary_ops \<Longrightarrow> \<not> index_op a"
  by (auto simp: index_op_def unary_ops_def binary_ops_def)

lemma fit_unaryE:
  assumes "fit_ok N (ENode a cs)" "nodePtr a = None" "opType a \<in> unary_ops"
  obtains c where "cs = [Some c]" "operand_ok c" "unary_typed a c" "fit_ok N c" "0 \<le> width a"
proof -
  have "fit_typed N a cs" using assms(1) by simp
  then have "case cs of [Some c] \<Rightarrow> operand_ok c \<and> unary_typed a c | _ \<Rightarrow> False" "0 \<le> width a"
    using assms(2,3) not_index_op by (simp_all add: fit_typed_def)
  moreover from this(1) obtain c where "cs = [Some c]" by (cases cs; cases "hd cs"; cases "tl cs") auto
  ultimately show thesis using assms(1) that by simp
qed

lemma fit_binaryE:
  assumes "fit_ok N (ENode a cs)" "nodePtr a = None" "opType a \<in> binary_ops"
  obtains c d where "cs = [Some c, Some d]" "operand_ok c" "operand_ok d" "binary_typed a c d"
    "fit_ok N c" "fit_ok N d" "0 \<le> width a"
proof -
  have "opType a \<notin> unary_ops" using assms(3) by (auto simp: binary_ops_def unary_ops_def)
  moreover have "fit_typed N a cs" using assms(1) by simp
  ultimately have "case cs of [Some c, Some d] \<Rightarrow> operand_ok c \<and> operand_ok d \<and> binary_typed a c d | _ \<Rightarrow> False"
    "0 \<le> width a"
    using assms(2,3) not_index_op by (simp_all add: fit_typed_def)
  moreover from this(1) obtain c d where "cs = [Some c, Some d]"
    by (cases cs; cases "tl cs"; cases "tl (tl cs)"; cases "hd cs"; cases "hd (tl cs)") auto
  ultimately show thesis using assms(1) that by simp
qed

lemma fit_muxE:
  assumes "fit_ok N (ENode a cs)" "nodePtr a = None" "opType a = OP_MUX"
  obtains c t f where "cs = [c, Some t, Some f]" "operand_ok t" "operand_ok f" "e_width t \<le> width a" "e_width f \<le> width a"
    "fit_ok N t" "fit_ok N f" "\<forall>x \<in> set_option c. fit_ok N x"
proof -
  have "opType a \<notin> unary_ops" "opType a \<notin> binary_ops" using assms(3) by (auto simp: binary_ops_def unary_ops_def)
  moreover have "fit_typed N a cs" using assms(1) by simp
  ultimately have "case cs of [c, Some t, Some f] \<Rightarrow>
      operand_ok t \<and> operand_ok f \<and> e_width t \<le> width a \<and> e_width f \<le> width a | _ \<Rightarrow> False"
    using assms(2,3) by (simp add: fit_typed_def)
  moreover from this obtain c t f where "cs = [c, Some t, Some f]"
    by (cases cs; cases "tl cs"; cases "tl (tl cs)"; cases "tl (tl (tl cs))"; cases "hd (tl cs)"; cases "hd (tl (tl cs))") auto
  ultimately show thesis using assms(1) that by simp
qed

lemma unary_step_ok:
  assumes e: "fit_ok N (ENode a cs)" "nodePtr a = None" "opType a \<in> unary_ops" and E: "\<not> firHeadTail E"
  shows "\<exists>c r. cs = [Some c] \<and> unary_step a c cs = Some r \<and> round_ok N E p (ENode a cs) r"
proof -
  from e obtain c where cs: "cs = [Some c]" and c: "operand_ok c" "unary_typed a c" "fit_ok N c" and w: "0 \<le> width a"
    by (elim fit_unaryE)
  have stay: "round_ok N E p (ENode a cs) (ENode b cs, False)"
    if "eval E (ENode b cs) = eval E (ENode a cs)" "settled N (ENode b cs)" "width b = width a" "sign b = sign a" for b
    using that c(3) by (intro round_ok_stay) (auto simp: kids_fit_def erefines_def cs)
  have gone: "round_ok N E p (ENode a cs) (c, True)" if "width a = e_width c" "sign a = e_sign c"
    using unary_same [OF e(2,3) c(1,2) that E w] that c(3) by (intro round_ok_again) (auto simp: erefines_def cs)
  show ?thesis
  proof (cases "opType a = OP_BITS")
    case True
    with c(2) obtain h l where hl: "evalues a = [h, l]" "0 \<le> l" "width a \<le> h - l + 1" "l + width a \<le> e_width c"
      by (auto simp: unary_typed_def)
    have "round_ok N E p (ENode a cs) (ENode (with_val a (l + width a - 1)) cs, False)"
      using bits_shorten [OF e(2) True hl(1,3) w, of E c] True e(2) hl
      by (intro stay) (auto simp: cs settled_def with_val_def)
    moreover have "round_ok N E p (ENode a cs) (ENode a cs, False)" if "\<not> width a < h - l + 1"
      using that True e(2) hl by (intro stay) (auto simp: cs settled_def)
    moreover have "unary_step a c cs =
        (if width a = e_width c \<and> sign a = e_sign c then Some (c, True)
         else Some (ENode (if h - l + 1 > width a then with_val a (l + width a - 1) else a) cs, False))"
      using hl True by (simp add: unary_step_def val_at_def)
    ultimately have "\<exists>r. unary_step a c cs = Some r \<and> round_ok N E p (ENode a cs) r"
      using gone by (cases "width a < h - l + 1") auto
    then show ?thesis using cs by blast
  next
    case False
    have st: "settled N (ENode b cs)" if "opType b = opType a" "nodePtr b = None" for b
      using that False by (simp add: settled_def)
    have ev: "eval E (ENode (with_val a v) cs) = eval E (ENode a cs)" if "opType a = OP_PAD \<or> opType a = OP_SEXT" for v
      using that e(2,3) by (auto simp: cs eval_unary with_val_def prim1_def split: outcome.splits)
    have "round_ok N E p (ENode a cs) (ENode (with_val a v) cs, False)" if "opType a = OP_PAD \<or> opType a = OP_SEXT" for v
      using ev [OF that] st e(2) by (intro stay) (simp_all add: with_val_def)
    moreover have "round_ok N E p (ENode a cs) (ENode a cs, False)"
      using st e(2) by (intro stay) auto
    moreover have "opType a = OP_PAD \<or> opType a = OP_SEXT \<or> opType a = OP_TAIL \<or> opType a = OP_HEAD"
      using e(3) False by (auto simp: unary_ops_def)
    ultimately have "\<exists>r. unary_step a c cs = Some r \<and> round_ok N E p (ENode a cs) r"
      using gone c(2)
      by (elim disjE; cases "width a = e_width c") (auto simp: unary_step_def unary_typed_def val_at_def)
    then show ?thesis using cs by blast
  qed
qed

lemma eval_two:
  assumes "nodePtr a = None" "opType a \<in> binary_ops"
  shows "eval E (ENode a [Some c, Some d]) =
    (case eval E c of
       Val x \<Rightarrow>
         (case eval E d of
            Val y \<Rightarrow> map_outcome_val (wrap (nat (width a)) (sign a))
                      (of_opt (prim2 (opType a) (nat (e_width c), e_sign c, x) (nat (e_width d), e_sign d, y)))
          | _ \<Rightarrow> Undef)
     | _ \<Rightarrow> Undef)"
  using assms
  by (auto simp: eval_ENode apply_op_def apply_prim_def keep_bits_def binary_ops_def of_opt_def
      split: outcome.splits option.splits)

lemma cat_low:
  assumes "nodePtr a = None" "opType a = OP_CAT" "width a = e_width d" "sign a = e_sign d" "operand_ok d"
  shows "refines (eval E (ENode a [c, Some d])) (eval E d)"
proof (cases "eval E d")
  case (Val y)
  then have "fits (nat (width a)) (sign a) y" using eval_fits [OF Val operand_okD(2) [OF assms(5)]] assms(3,4) by simp
  moreover have "take_bit k (push_bit k u + take_bit k y) = take_bit k y" for k and u :: int
    by (simp add: take_bit_eq_mod push_bit_eq_mult)
  then have "wrap k s (push_bit k u + take_bit k y) = wrap k s y" for k s and u :: int by (rule wrap_cong)
  ultimately show ?thesis using assms Val
    by (auto simp: eval_ENode apply_op_def apply_prim_def prim2_def of_opt_def keep_bits_def wrap_fits
        split: option.splits outcome.splits)
next
  case Undef
  then show ?thesis using assms
    by (auto simp: eval_ENode apply_op_def apply_prim_def split: option.splits outcome.splits)
next
  case Keep
  then show ?thesis using operand_okD(1) [OF assms(5)] by simp
qed

lemma mul_low:
  assumes a: "nodePtr a = None" "opType a = OP_MUL" and cd: "operand_ok c" "operand_ok d"
    and ty: "width a \<le> e_width c + e_width d" "sign a = e_sign c" "sign a = e_sign d" "0 \<le> width a"
  shows "eval E (low_bits (width a) (sign a) (ENode (a\<lparr>width := e_width c + e_width d\<rparr>) [Some c, Some d]))
    = eval E (ENode a [Some c, Some d])"
proof -
  let ?m = "ENode (a\<lparr>width := e_width c + e_width d\<rparr>) [Some c, Some d]"
  have op: "opType a \<in> binary_ops" "opType (a\<lparr>width := e_width c + e_width d\<rparr>) \<in> binary_ops"
    using a(2) by (auto simp: binary_ops_def)
  have "eval E ?m \<noteq> Keep"
    using eval_two [OF _ op(2), of E c d] a(1) by (auto simp: of_opt_def split: outcome.splits option.splits)
  then have "eval E (low_bits (width a) (sign a) ?m) = map_outcome_val (wrap (nat (width a)) (sign a)) (eval E ?m)"
    using ty by (intro low_bits_eval) auto
  also have "\<dots> = eval E (ENode a [Some c, Some d])"
    using eval_two [OF _ op(2), of E c d] a ty by (auto simp: eval_two [OF a(1) op(1)] prim2_def of_opt_def wrap_wrap
        split: outcome.splits)
  finally show ?thesis .
qed

text \<open>The other binary operations see the widths of their operands only through the larger one.\<close>

lemma prim2_max:
  assumes "op \<in> binary_ops - {OP_CAT, OP_MUL}" "max w0 w1 = max k0 k1"
  shows "prim2 op (w0, s0, x) (w1, s1, y) = prim2 op (k0, s0, x) (k1, s1, y)"
  using assms by (auto simp: binary_ops_def prim2_def)

definition extends :: "heap \<Rightarrow> env \<Rightarrow> enode \<Rightarrow> enode \<Rightarrow> bool" where
  "extends N E c c' \<longleftrightarrow> fit_ok N c' \<and> eval E c' = eval E c \<and> e_sign c' = e_sign c"

lemma extend_to_ok:
  "operand_ok c \<Longrightarrow> fit_ok N c \<Longrightarrow> e_width c \<le> w \<Longrightarrow> extends N E c (extend_to w c) \<and> e_width (extend_to w c) = w"
  by (auto simp: extends_def extend_to_def sext_eval pad_eval operand_okD fit_ok_sext fit_ok_pad)

lemma pad_below_ok:
  "operand_ok c \<Longrightarrow> fit_ok N c \<Longrightarrow> extends N E c (pad_below w c) \<and> e_width (pad_below w c) = max (e_width c) w"
  by (auto simp: extends_def pad_below_def pad_eval operand_okD fit_ok_pad)

lemma binary_extends:
  assumes a: "nodePtr a = None" "opType a \<in> binary_ops - {OP_CAT, OP_MUL}"
    and c: "extends N E c c'" "extends N E d d'" and w: "max (e_width c') (e_width d') = max (e_width c) (e_width d)"
  shows "round_ok N E p (ENode a [Some c, Some d]) (ENode a [Some c', Some d'], False)"
proof (rule round_ok_stay)
  have "max (nat (e_width c')) (nat (e_width d')) = max (nat (e_width c)) (nat (e_width d))"
    using w by linarith
  from prim2_max [OF a(2) this] c have "eval E (ENode a [Some c', Some d']) = eval E (ENode a [Some c, Some d])"
    using a by (simp add: eval_two extends_def cong: outcome.case_cong)
  then show "erefines E (ENode a [Some c, Some d]) (ENode a [Some c', Some d'])" by (intro erefinesI) auto
  show "kids_fit N (ENode a [Some c', Some d'])" using c by (auto simp: kids_fit_def extends_def)
  show "settled N (ENode a [Some c', Some d'])" using a by (auto simp: settled_def binary_ops_def)
qed

lemma binary_step_ok:
  assumes e: "fit_ok N (ENode a cs)" "nodePtr a = None" "opType a \<in> binary_ops"
  shows "\<exists>c d r. cs = [Some c, Some d] \<and> binary_step a c d = Some r \<and> round_ok N E p (ENode a cs) r"
proof -
  from e obtain c d where cs: "cs = [Some c, Some d]" and c: "operand_ok c" "fit_ok N c"
    and d: "operand_ok d" "fit_ok N d" and ty: "binary_typed a c d" and w: "0 \<le> width a"
    by (elim fit_binaryE)
  have stay: "round_ok N E p (ENode a cs) (ENode a cs, False)"
    using e by (intro round_ok_stay) (auto simp: kids_fit_def settled_def binary_ops_def)
  consider (cat) "opType a = OP_CAT" | (mul) "opType a = OP_MUL" | (logic) "opType a = OP_OR \<or> opType a = OP_XOR"
    | (arith) "opType a \<in> binary_ops - {OP_CAT, OP_MUL, OP_OR, OP_XOR}" using e(3) by blast
  then have "\<exists>r. binary_step a c d = Some r \<and> round_ok N E p (ENode a cs) r"
  proof cases
    case cat
    have "round_ok N E p (ENode a cs) (d, True)" if "width a = e_width d"
      using that cat ty d(2) cat_low [OF e(2) cat that _ d(1), of E "Some c"]
      by (intro round_ok_again) (auto simp: cs erefines_def binary_typed_def)
    with stay cat ty show ?thesis by (auto simp: cs binary_step_def binary_typed_def)
  next
    case mul
    let ?m = "ENode (a\<lparr>width := e_width c + e_width d\<rparr>) [Some c, Some d]"
    have wd: "width a \<le> e_width c + e_width d" "sign a = e_sign c" "sign a = e_sign d"
      using ty mul by (auto simp: binary_typed_def)
    have "fit_ok N ?m" "operand_ok ?m"
      using c d e(2) mul wd
      by (auto simp: fit_typed_def unary_ops_def binary_ops_def binary_typed_def operand_ok_def is_index_def)
    then have "round_ok N E p (ENode a cs) (low_bits (width a) (sign a) ?m, True)"
      using w wd mul_low [OF e(2) mul c(1) d(1) wd w, of E]
      by (intro round_ok_again fit_ok_low) (auto simp: cs erefines_def)
    with stay mul show ?thesis by (auto simp: cs binary_step_def)
  next
    case logic
    then have "width a = max (e_width c) (e_width d)" using ty by (auto simp: binary_typed_def)
    with pad_below_ok [OF c, of E "width a"] pad_below_ok [OF d, of E "width a"] logic
    have "round_ok N E p (ENode a cs) (ENode a [Some (pad_below (width a) c), Some (pad_below (width a) d)], False)"
      unfolding cs by (intro binary_extends e(2)) (auto simp: binary_ops_def)
    with logic show ?thesis by (auto simp: cs binary_step_def)
  next
    case arith
    let ?w = "max (e_width c) (e_width d)"
    have "round_ok N E p (ENode a cs) (ENode a [Some (extend_to ?w c), Some (extend_to ?w d)], False)"
      unfolding cs using extend_to_ok [OF c, of ?w E] extend_to_ok [OF d, of ?w E] arith
      by (intro binary_extends e(2)) auto
    moreover have "binary_step a c d = Some (ENode a [Some (extend_to ?w c), Some (extend_to ?w d)], False)"
      using arith by (auto simp: binary_step_def binary_ops_def Let_def)
    ultimately show ?thesis by blast
  qed
  then show ?thesis using cs by blast
qed

lemma mux_step_ok:
  assumes e: "fit_ok N (ENode a cs)" "nodePtr a = None" "opType a = OP_MUX"
  shows "\<exists>c t f. cs = [c, Some t, Some f] \<and> round_ok N E p (ENode a cs) (mux_step a c t f, False)"
proof -
  from e obtain c t f where cs: "cs = [c, Some t, Some f]" and t: "operand_ok t" "e_width t \<le> width a" "fit_ok N t"
    and f: "operand_ok f" "e_width f \<le> width a" "fit_ok N f" and c: "\<forall>x \<in> set_option c. fit_ok N x"
    by (elim fit_muxE)
  have sel: "eval E (ENode a [c, Some t', Some f']) = eval E (ENode a [c, Some t, Some f])"
    if "eval E t' = eval E t" "eval E f' = eval E f" for t' f'
    using that e(2,3)
    by (simp add: eval_ENode apply_op_def select3_def split: option.splits outcome.splits)
  have "round_ok N E p (ENode a cs) (ENode a [c, Some t', Some f'], False)"
    if "extends N E t t'" "extends N E f f'" for t' f'
    using that sel [of t' f'] c e(3)
    by (intro round_ok_stay erefinesI) (auto simp: cs extends_def kids_fit_def settled_def e(2))
  moreover have "extends N E t (pad_to (width a) (e_sign t) t)" "extends N E f (pad_to (width a) (e_sign f) f)"
    using t f by (auto simp: extends_def pad_eval operand_okD fit_ok_pad)
  moreover have "extends N E t t" "extends N E f f" using t f by (auto simp: extends_def)
  ultimately show ?thesis using cs by (auto simp: mux_step_def)
qed

lemma width_step_ok:
  assumes "fit_ok N e" "env_ok N E" "\<not> firHeadTail E"
  shows "\<exists>r. width_step N p e = Some r \<and> round_ok N E p e r"
proof (cases e)
  case (ENode a cs)
  note e = assms(1) [unfolded ENode]
  show ?thesis
  proof (cases "nodePtr a")
    case (Some n)
    with ref_step_ok [OF e Some assms(2)] show ?thesis by (simp add: ENode width_step_def)
  next
    case None
    note u = unary_step_ok [OF e None _ assms(3), of p] and b = binary_step_ok [OF e None, of E p]
      and m = mux_step_ok [OF e None, of E p]
    consider "opType a \<in> unary_ops" | "opType a \<notin> unary_ops" "opType a \<in> binary_ops" | "opType a = OP_MUX"
      | (other) "opType a \<notin> unary_ops" "opType a \<notin> binary_ops" "opType a \<noteq> OP_MUX" by blast
    then show ?thesis
    proof cases
      case 1
      with u show ?thesis by (fastforce simp: ENode width_step_def None)
    next
      case 2
      with b show ?thesis by (fastforce simp: ENode width_step_def None)
    next
      case 3
      with m show ?thesis by (fastforce simp: ENode width_step_def None unary_ops_def binary_ops_def)
    next
      case other
      then have "round_ok N E p e (e, False)" using e
        by (intro round_ok_stay) (auto simp: ENode kids_fit_def settled_def None unary_ops_def)
      with other show ?thesis by (simp add: ENode width_step_def None)
    qed
  qed
qed

subsection \<open>The whole tree\<close>

definition fitted :: "heap \<Rightarrow> env \<Rightarrow> OPType option \<Rightarrow> enode \<Rightarrow> enode \<Rightarrow> bool" where
  "fitted N E p e e' \<longleftrightarrow>
     refs_fit N e' \<and> (if p = Some OP_BITS then widened E e e' else erefines E e e')"

lemma children_map:
  assumes "\<And>c. Some c \<in> set cs \<Longrightarrow> \<exists>c'. f c = Some c' \<and> R c c'"
  shows "\<exists>ds. those (map (child_map f) cs) = Some ds \<and> list_all2 (rel_option R) cs ds"
  using assms
proof (induction cs)
  case (Cons c cs)
  then obtain ds where "those (map (child_map f) cs) = Some ds" "list_all2 (rel_option R) cs ds" by auto
  moreover have "\<exists>d. child_map f c = Some d \<and> rel_option R c d"
  proof (cases c)
    case (Some e)
    with Cons.prems [of e] show ?thesis by auto
  qed simp
  ultimately show ?case by auto
qed simp

lemma settled_children:
  assumes r: "settled N (ENode a cs)" and ds: "list_all2 (rel_option (fitted N E (Some (opType a)))) cs ds"
  shows "refs_fit N (ENode a ds) \<and> erefines E (ENode a cs) (ENode a ds)"
proof
  have "refs_fit N x" if "d \<in> set ds" "x \<in> set_option d" for d x
    using list_all2_children [OF ds that] by (auto simp: fitted_def)
  then show "refs_fit N (ENode a ds)" using r by (auto simp: settled_def)
  show "erefines E (ENode a cs) (ENode a ds)"
  proof (cases "opType a = OP_BITS")
    case True
    with r obtain c h l where c: "cs = [Some c]" "evalues a = [h, l]" "0 \<le> l" "h < e_width c" "nodePtr a = None"
      by (auto simp: settled_def)
    with ds True obtain c' where "ds = [Some c']" "widened E c c'"
      by (auto simp: list_all2_Cons1 fitted_def option_rel_Some1)
    with bits_widened [OF c(5) True c(2,3,4)] c(1) show ?thesis by (simp add: erefines_def)
  next
    case False
    have "list_all2 (rel_option (erefines E)) cs ds"
      using ds by (rule list_all2_mono) (auto simp: fitted_def False elim: option.rel_mono_strong)
    then show ?thesis by (rule erefines_children)
  qed
qed

declare updateWithNewWidth.simps [simp del]

lemma fitted_trans: "erefines E e x \<Longrightarrow> fitted N E p x e' \<Longrightarrow> fitted N E p e e'"
  using erefines_trans [of E e x e'] widened_trans [of E e x e'] by (simp add: fitted_def split: if_splits)

lemma updateWithNewWidth_fitted:
  "fit_ok N e \<Longrightarrow> env_ok N E \<Longrightarrow> \<not> firHeadTail E \<Longrightarrow>
     \<exists>e'. updateWithNewWidth N p e = Some e' \<and> fitted N E p e e'"
proof (induction N p e rule: updateWithNewWidth.induct)
  case (1 N p e)
  from width_step_ok [OF "1.prems"] obtain r where r: "width_step N p e = Some r" "round_ok N E p e r" by blast
  show ?case
  proof (cases "snd r")
    case True
    with r(2) have "fit_ok N (fst r)" "erefines E e (fst r)" by (auto simp: round_ok_def)
    from "1.IH"(1) [OF r(1) True this(1) "1.prems"(2,3)] this(2)
    obtain e' where "updateWithNewWidth N p (fst r) = Some e'" "fitted N E p e e'"
      by (blast intro: fitted_trans)
    with r(1) True show ?thesis by (subst updateWithNewWidth.simps) simp
  next
    case False
    obtain a cs where e1: "fst r = ENode a cs" by (cases "fst r")
    with r(2) False have kf: "kids_fit N (ENode a cs)" and st: "settled N (ENode a cs)"
      and rel: "if p = Some OP_BITS then widened E e (ENode a cs) else erefines E e (ENode a cs)"
      by (auto simp: round_ok_def)
    have kids: "\<exists>c'. updateWithNewWidth N (Some (opType a)) c = Some c' \<and> fitted N E (Some (opType a)) c c'"
      if "Some c \<in> set cs" for c
      using "1.IH"(2) [OF r(1) False, of "Some c" c] that kf "1.prems"(2,3) by (fastforce simp: e1 kids_fit_def)
    from children_map [of cs "updateWithNewWidth N (Some (opType a))" "fitted N E (Some (opType a))", OF kids]
    obtain ds where
      ds: "those (map (child_map (updateWithNewWidth N (Some (opType a)))) cs) = Some ds"
      "list_all2 (rel_option (fitted N E (Some (opType a)))) cs ds" by blast
    from settled_children [OF st ds(2)] rel have "fitted N E p e (ENode a ds)"
      by (auto simp: fitted_def widened_def erefines_def split: if_splits
          intro: refines_trans refines_map_outcome)
    moreover have "updateWithNewWidth N p e = Some (ENode a ds)"
      using r(1) False ds(1) by (subst updateWithNewWidth.simps) (simp add: e1)
    ultimately show ?thesis by blast
  qed
qed

interpretation fit: tree_pass "updateWithNewWidth N None" "\<lambda>E e. fit_ok N e \<and> env_ok N E \<and> \<not> firHeadTail E" for N
  by unfold_locales (use updateWithNewWidth_fitted [of N _ _ None] in \<open>fastforce simp: fitted_def\<close>)

section \<open>Properties\<close>

text \<open>
  C11: \<^verbatim>\<open>updateWithNewWidth\<close> ends on well-typed trees, leaves every reference with the width of its
  node, keeps the type of the root and refines its value.
\<close>

theorem updateWithNewWidth_sound:
  assumes "fit_ok N e" "env_ok N E" "\<not> firHeadTail E"
  shows "\<exists>e'. updateWithNewWidth N None e = Some e' \<and> refs_fit N e' \<and> e_width e' = e_width e
    \<and> e_sign e' = e_sign e \<and> refines (eval E e) (eval E e')"
  using updateWithNewWidth_fitted [OF assms, of None] by (auto simp: fitted_def erefines_def)

definition demo_fit :: enode where
  "demo_fit = ENode ((new_eattr OP_ADD)\<lparr>width := 4\<rparr>)
     [Some (ENode ((new_eattr OP_EMPTY)\<lparr>nodePtr := Some 0, width := 3\<rparr>) []),
      Some (ENode ((new_eattr OP_EMPTY)\<lparr>nodePtr := Some 1, width := 4\<rparr>) [])]"

theorem updateWithNewWidth_sound_witness:
  "\<exists>e'. updateWithNewWidth (\<lambda>_. demo_node) None demo_fit = Some e' \<and> refs_fit (\<lambda>_. demo_node) e'
     \<and> e_width e' = 4 \<and> eval (demo_env\<lparr>firHeadTail := False\<rparr>) e' = Val 6"
proof -
  let ?E = "demo_env\<lparr>firHeadTail := False\<rparr>"
  have ok: "fit_ok (\<lambda>_. demo_node) demo_fit"
    by (simp add: demo_fit_def new_eattr_def fit_typed_def unary_ops_def binary_ops_def operand_ok_def
        is_index_def binary_typed_def demo_node_def new_node_def)
  have env: "env_ok (\<lambda>_. demo_node) ?E" using demo_env_ok by (simp add: env_ok_def)
  have "eval ?E demo_fit = Val 6"
    by (simp add: demo_fit_def new_eattr_def eval_ENode apply_op_def apply_prim_def prim2_def of_opt_def
        keep_bits_def demo_env_def wrap_def take_bit_eq_mod)
  with updateWithNewWidth_sound [OF ok env] show ?thesis
    by (auto simp: refines_def demo_fit_def new_eattr_def)
qed

text \<open>
  C14: \<^verbatim>\<open>matchWidth\<close> gives a tree the width of its node: the value is the old one cut or extended to
  that width, an assignment that does nothing still does nothing.
\<close>

theorem matchWidth_exact:
  assumes "0 \<le> w" "match_ok s e"
  shows "e_width (matchWidth w e) = w \<and> e_sign (matchWidth w e) = s
    \<and> eval E (matchWidth w e) = map_outcome_val (wrap (nat w) s) (eval E e)"
  using matchWidth_eval [OF assms] .

theorem matchWidth_exact_witness:
  "e_width (matchWidth 3 demo_fit) = 3 \<and> eval (demo_env\<lparr>firHeadTail := False\<rparr>) (matchWidth 3 demo_fit) = Val 6"
proof -
  have "match_ok False demo_fit" by (simp add: demo_fit_def new_eattr_def leaf_ok_def is_index_def)
  from matchWidth_exact [OF _ this, of 3 "demo_env\<lparr>firHeadTail := False\<rparr>"] show ?thesis
    by (simp add: demo_fit_def new_eattr_def eval_ENode apply_op_def apply_prim_def prim2_def of_opt_def
        keep_bits_def demo_env_def wrap_def take_bit_eq_mod)
qed

end
