(* ===== verification/UsedOps.thy ===== *)
theory UsedOps
  imports WidthOps
begin

section \<open>How many bits an operation needs\<close>

text \<open>
  The arithmetic behind \<^verbatim>\<open>passWidthToChild\<close>: if every operand is cut to the bits that the switch
  of that function asks for, the low bits of the result stay.  The operands of the cut
  operation have the cut widths, which for some operations (\<^verbatim>\<open>cat\<close>, \<^verbatim>\<open>not\<close>, \<^verbatim>\<open>or\<close>) enter the
  result.
\<close>

lemma cut_mod: "fits w s a \<Longrightarrow> take_bit u (wrap (min w u) s a) = take_bit u a"
  by (cases "u \<le> w") (simp_all add: min_def wrap_fits take_bit_wrap)

lemma cut_mod_le: "fits w s a \<Longrightarrow> v \<le> u \<Longrightarrow> take_bit v (wrap (min w u) s a) = take_bit v a"
  by (cases "u \<le> w") (simp_all add: min_def wrap_fits take_bit_wrap)

lemma cut_exact: "fits w s a \<Longrightarrow> w \<le> u \<Longrightarrow> wrap (min w u) s a = a"
  by (simp add: min_def wrap_fits)

definition same_low :: "nat \<Rightarrow> int option \<Rightarrow> int option \<Rightarrow> bool" where
  "same_low u r r' \<longleftrightarrow> rel_option (\<lambda>x y. take_bit u x = take_bit u y) r r'"

lemma same_low_Some [simp]: "same_low u (Some x) (Some y) \<longleftrightarrow> take_bit u x = take_bit u y"
  by (simp add: same_low_def)

lemma same_low_refl [simp]: "same_low u r r"
  by (cases r) (simp_all add: same_low_def)

lemma take_bit_add_cong:
  "take_bit u a = take_bit u a' \<Longrightarrow> take_bit u b = take_bit u b' \<Longrightarrow> take_bit u (a + b) = take_bit u (a' + b' :: int)"
  by (metis take_bit_add)

lemma take_bit_diff_cong:
  "take_bit u a = take_bit u a' \<Longrightarrow> take_bit u b = take_bit u b' \<Longrightarrow> take_bit u (a - b) = take_bit u (a' - b' :: int)"
  by (metis take_bit_diff)

lemma take_bit_mult_cong:
  "take_bit u a = take_bit u a' \<Longrightarrow> take_bit u b = take_bit u b' \<Longrightarrow> take_bit u (a * b) = take_bit u (a' * b' :: int)"
  by (metis take_bit_mult)

lemma logic_cut:
  assumes "fits w0 s0 a" "fits w1 s1 b" and f: "\<And>n x y. take_bit n (f x y) = f (take_bit n x) (take_bit n y :: int)"
  shows "take_bit u (take_bit (max w0 w1) (f a b))
    = take_bit u (take_bit (max (min w0 u) (min w1 u)) (f (wrap (min w0 u) s0 a) (wrap (min w1 u) s1 b)))"
proof (cases "u \<le> max w0 w1")
  case True
  then have "min u (max w0 w1) = u" "min u (max (min w0 u) (min w1 u)) = u" by auto
  then have eq: "take_bit u (take_bit (max w0 w1) (f a b)) = f (take_bit u a) (take_bit u b)"
    "take_bit u (take_bit (max (min w0 u) (min w1 u)) (f (wrap (min w0 u) s0 a) (wrap (min w1 u) s1 b))) =
      f (take_bit u (wrap (min w0 u) s0 a)) (take_bit u (wrap (min w1 u) s1 b))"
    by (simp_all only: take_bit_take_bit f)
  show ?thesis by (simp only: eq cut_mod [OF assms(1)] cut_mod [OF assms(2)])
next
  case False
  then have "min w0 u = w0" "min w1 u = w1" by auto
  then show ?thesis using assms(1,2) by (simp add: wrap_fits)
qed

lemma sub_cut:
  assumes "fits w0 s0 a" "fits w1 s1 b"
  shows "take_bit u (take_bit (max w0 w1 + 1) (a - b))
    = take_bit u (take_bit (max (min w0 u) (min w1 u) + 1) (wrap (min w0 u) s0 a - wrap (min w1 u) s1 b))"
proof (cases "u \<le> max w0 w1 + 1")
  case True
  then have "min u (max w0 w1 + 1) = u" "min u (max (min w0 u) (min w1 u) + 1) = u" by auto
  then show ?thesis using assms
    by (simp only: take_bit_take_bit) (rule take_bit_diff_cong; simp add: cut_mod)
next
  case False
  then have "min w0 u = w0" "min w1 u = w1" by auto
  then show ?thesis using assms by (simp add: wrap_fits)
qed

lemma cat_cut:
  fixes u w0 w1 :: nat
  assumes "fits w0 s0 a" "fits w1 s1 b"
  defines "k0 \<equiv> min w0 (u - w1)" and "k1 \<equiv> min w1 u"
  shows "take_bit u (push_bit w1 (take_bit w0 a) + take_bit w1 b)
    = take_bit u (push_bit k1 (take_bit k0 (wrap k0 s0 a)) + take_bit k1 (wrap k1 s1 b))"
proof (cases "w1 \<le> u")
  case True
  then have k1: "k1 = w1" by (simp add: k1_def)
  have "take_bit u (push_bit w1 (take_bit w0 a)) = take_bit u (push_bit w1 (take_bit k0 (wrap k0 s0 a)))"
    by (simp add: take_bit_push_bit k0_def min.commute)
  then show ?thesis using assms(2) by (simp add: k1 wrap_fits) (rule take_bit_add_cong; simp)
next
  case False
  then have "k1 = u" "k0 = 0" by (simp_all add: k0_def k1_def)
  moreover have "take_bit u (push_bit w1 x + take_bit w1 b) = take_bit u b" for x
    using False by (subst take_bit_add [symmetric]) (simp add: take_bit_push_bit min_def)
  ultimately show ?thesis by simp
qed

definition two_ops :: "OPType set" where
  "two_ops = {OP_ADD, OP_SUB, OP_MUL, OP_DIV, OP_REM, OP_LT, OP_LEQ, OP_GT, OP_GEQ, OP_EQ, OP_NEQ,
     OP_DSHL, OP_DSHR, OP_AND, OP_OR, OP_XOR, OP_CAT}"

lemma prim2_cut:
  assumes op: "op \<in> two_ops" and bits: "common_bits op vs u [Some c, Some d] = Some [b0, b1]"
    and w: "0 \<le> u" "0 \<le> e_width c" "0 \<le> e_width d"
    and f: "fits (nat (e_width c)) s0 x" "fits (nat (e_width d)) s1 y"
  shows "same_low (nat u) (prim2 op (nat (e_width c), s0, x) (nat (e_width d), s1, y))
    (prim2 op (nat (min (e_width c) b0), s0, wrap (nat (min (e_width c) b0)) s0 x)
              (nat (min (e_width d) b1), s1, wrap (nat (min (e_width d) b1)) s1 y))"
proof -
  define w0 where "w0 = nat (e_width c)"
  define w1 where "w1 = nat (e_width d)"
  define k where "k = nat u"
  have n: "nat (min (e_width c) t) = min w0 (nat t)" "nat (min (e_width d) t) = min w1 (nat t)" for t
    using w by (auto simp: w0_def w1_def)
  have sz: "nat (min u (e_width c)) = min k w0" "nat (min u (e_width d)) = min k w1"
    "nat (max (u - e_width d) 0) = k - w1" "nat (min (e_width d) u) = min w1 k"
    using w by (auto simp: w0_def w1_def k_def)
  have fx: "fits w0 s0 x" "fits w1 s1 y" using f by (simp_all add: w0_def w1_def)
  have ex: "wrap w0 s0 x = x" "wrap w1 s1 y = y" using fx by (simp_all add: wrap_fits)
  have lowx: "take_bit k x = take_bit k (wrap (min w0 k) s0 x)" "take_bit k y = take_bit k (wrap (min w1 k) s1 y)"
    using fx by (simp_all add: cut_mod)
  consider (same) "op \<in> {OP_ADD, OP_SUB, OP_AND, OP_OR, OP_XOR}" "b0 = u" "b1 = u"
    | (mul) "op = OP_MUL" "b0 = min u (e_width c)" "b1 = min u (e_width d)"
    | (cat) "op = OP_CAT" "b0 = max (u - e_width d) 0" "b1 = min (e_width d) u"
    | (full) "b0 = e_width c" "b1 = e_width d"
    using op bits unfolding two_ops_def by (auto simp: common_bits_def child_w_def)
  then show ?thesis
  proof cases
    case same
    let ?P = "\<lambda>op. same_low k (prim2 op (w0, s0, x) (w1, s1, y))
        (prim2 op (min w0 k, s0, wrap (min w0 k) s0 x) (min w1 k, s1, wrap (min w1 k) s1 y))"
    note p2 = prim2_def prod.case OPType.case same_low_Some
    have "?P OP_ADD" unfolding p2 by (rule take_bit_add_cong [OF lowx])
    moreover have "?P OP_SUB"
      unfolding p2 by (cases s0) (simp_all only: if_True if_False take_bit_diff_cong [OF lowx] sub_cut [OF fx])
    moreover have "?P OP_AND" unfolding p2 by (rule logic_cut [where f = "(AND)", OF fx take_bit_and])
    moreover have "?P OP_OR" unfolding p2 by (rule logic_cut [where f = "(OR)", OF fx take_bit_or])
    moreover have "?P OP_XOR" unfolding p2 by (rule logic_cut [where f = "(XOR)", OF fx take_bit_xor])
    ultimately have "?P op" using same(1) by (elim insertE emptyE) (simp_all only:)
    then show ?thesis using same(2,3) by (simp add: n w0_def w1_def k_def)
  next
    case mul
    have "nat (min (e_width c) b0) = min w0 k" "nat (min (e_width d) b1) = min w1 k"
      using mul w by (auto simp: w0_def w1_def k_def)
    then show ?thesis
      using mul(1) take_bit_mult_cong [OF lowx] by (simp add: prim2_def w0_def [symmetric] w1_def [symmetric] k_def)
  next
    case cat
    have "nat (min (e_width c) b0) = min w0 (k - w1)" "nat (min (e_width d) b1) = min w1 k"
      using cat w unfolding w0_def w1_def k_def by linarith+
    then show ?thesis
      using cat(1) cat_cut [OF fx, of k] by (simp add: prim2_def w0_def [symmetric] w1_def [symmetric] k_def)
  next
    case full
    then show ?thesis using ex by (simp add: w0_def [symmetric] w1_def [symmetric])
  qed
qed

definition one_ops :: "OPType set" where
  "one_ops = {OP_ASUINT, OP_ASSINT, OP_ASCLOCK, OP_ASASYNCRESET, OP_CVT, OP_NEG, OP_NOT, OP_ANDR, OP_ORR, OP_XORR,
     OP_PAD, OP_SEXT, OP_SHL, OP_SHR, OP_HEAD, OP_TAIL, OP_BITS, OP_BITS_NOSHIFT}"

text \<open>The literals of an operation.\<close>

definition literals_pos :: "OPType \<Rightarrow> int list \<Rightarrow> bool" where
  "literals_pos op vs \<longleftrightarrow>
     (op \<in> {OP_SHL, OP_SHR, OP_HEAD, OP_TAIL} \<longrightarrow> (\<exists>n. vs = [n] \<and> 0 \<le> n))
     \<and> (op \<in> {OP_BITS, OP_BITS_NOSHIFT} \<longrightarrow> (\<exists>h l. vs = [h, l] \<and> 0 \<le> l \<and> l \<le> h + 1))"

lemma bit_wrap: "i < w \<Longrightarrow> bit (wrap w s a) i \<longleftrightarrow> bit a i"
  using take_bit_wrap_same [of w s a] by (metis bit_take_bit_iff)

lemma wrap_cut: "fits w s a \<Longrightarrow> u \<le> w \<Longrightarrow> take_bit u (wrap w t a) = take_bit u (wrap (min w u) t (wrap (min w u) s a))"
  by (simp add: min_def take_bit_wrap)

lemma shr_cut: "fits w s a \<Longrightarrow> take_bit u (drop_bit n a) = take_bit u (drop_bit n (wrap (min w (u + n)) s a))"
  by (simp add: take_bit_drop_bit cut_mod)

lemma head_cut:
  "fits w s a \<Longrightarrow> take_bit u (drop_bit n (take_bit w a))
     = take_bit u (drop_bit n (take_bit (min w (u + n)) (wrap (min w (u + n)) s a)))"
  by (rule bit_eqI) (auto simp: bit_take_bit_iff bit_drop_bit_eq bit_wrap)

lemma shl_cut: "fits w s a \<Longrightarrow> take_bit u (push_bit n a) = take_bit u (push_bit n (wrap (min w (u - n)) s a))"
  by (simp add: take_bit_push_bit cut_mod)

lemma not_cut: "take_bit u (take_bit w (NOT a)) = take_bit u (take_bit (min w u) (NOT (wrap (min w u) s a)))"
  by (rule bit_eqI) (auto simp: bit_take_bit_iff bit_not_iff bit_wrap)

lemma bits_cut:
  "take_bit u (take_bit k (drop_bit l (take_bit w a)))
     = take_bit u (take_bit k (drop_bit l (take_bit (min w (min (u + l) (k + l))) (wrap (min w (min (u + l) (k + l))) s a))))"
  by (rule bit_eqI) (auto simp: bit_take_bit_iff bit_drop_bit_eq bit_wrap)

lemma noshift_cut:
  "take_bit u (push_bit l (take_bit k (drop_bit l (take_bit w a))))
     = take_bit u (push_bit l (take_bit k (drop_bit l (take_bit (min w u) (wrap (min w u) s a)))))"
  by (rule bit_eqI) (auto simp: bit_take_bit_iff bit_push_bit_iff bit_drop_bit_eq bit_wrap)

lemma uint_cut: "take_bit u (take_bit w a) = take_bit u (take_bit (min w u) (wrap (min w u) s a))"
  by (rule bit_eqI) (auto simp: bit_take_bit_iff bit_wrap)

lemma tail_cut:
  "take_bit u (take_bit (min w n) a) = take_bit u (take_bit (min (min w u) n) (wrap (min w u) s a))"
  by (rule bit_eqI) (auto simp: bit_take_bit_iff bit_wrap)

lemma neg_cut: "fits w s a \<Longrightarrow> take_bit u (- a) = take_bit u (- wrap (min w u) s a)"
  using take_bit_diff_cong [of u 0 0 a "wrap (min w u) s a"] by (simp add: cut_mod)

definition one_bits :: "OPType \<Rightarrow> int list \<Rightarrow> int \<Rightarrow> enode \<Rightarrow> int list abortable" where
  "one_bits op vs u c = (if op = OP_CVT then Some [u] else common_bits op vs u [Some c])"

lemma prim1_cut:
  assumes op: "op \<in> one_ops" and bits: "one_bits op vs u c = Some [b]" and lit: "literals_pos op vs"
    and w: "0 \<le> u" "0 \<le> e_width c" and s: "op = OP_ASSINT \<longrightarrow> u \<le> e_width c"
    and f: "fits (nat (e_width c)) s0 x"
  shows "same_low (nat u) (prim1 False op vs (nat (e_width c), s0, x))
    (prim1 False op vs (nat (min (e_width c) b), s0, wrap (nat (min (e_width c) b)) s0 x))"
proof -
  define w0 where "w0 = nat (e_width c)"
  define k where "k = nat u"
  have fx: "fits w0 s0 x" using f by (simp add: w0_def)
  note p1 = prim1_def prod.case OPType.case list.case same_low_Some
  have tl: "\<exists>n. vs = [n] \<and> 0 \<le> n" if "op \<in> {OP_SHL, OP_SHR, OP_HEAD, OP_TAIL}"
    using lit that by (auto simp: literals_pos_def)
  have hl: "\<exists>h l. vs = [h, l] \<and> 0 \<le> l \<and> l \<le> h + 1" if "op = OP_BITS"
    using lit that by (auto simp: literals_pos_def)
  have eqs: "op \<in> {OP_ASUINT, OP_ASSINT, OP_NOT, OP_NEG, OP_PAD, OP_SEXT, OP_CVT, OP_BITS_NOSHIFT, OP_TAIL} \<Longrightarrow> b = u"
    "op \<in> {OP_ASCLOCK, OP_ASASYNCRESET, OP_ANDR, OP_ORR, OP_XORR} \<Longrightarrow> b = e_width c"
    "op = OP_SHL \<Longrightarrow> vs = [n] \<Longrightarrow> b = max 0 (u - n)"
    "op = OP_SHR \<or> op = OP_HEAD \<Longrightarrow> vs = [n] \<Longrightarrow> b = u + n"
    "op = OP_BITS \<Longrightarrow> vs = [h, l] \<Longrightarrow> b = min (u + l) (h + 1)" for n h l
    using bits by (auto simp: one_bits_def common_bits_def child_w_def val_at_def)
  consider (same) "op \<in> {OP_ASUINT, OP_ASSINT, OP_NOT, OP_NEG, OP_PAD, OP_SEXT, OP_CVT, OP_BITS_NOSHIFT}" "b = u"
    | (tail) n where "op = OP_TAIL" "vs = [n]" "b = u"
    | (shl) n where "op = OP_SHL" "vs = [n]" "b = max 0 (u - n)" "0 \<le> n"
    | (shr) n where "op = OP_SHR \<or> op = OP_HEAD" "vs = [n]" "b = u + n" "0 \<le> n"
    | (bits) h l where "op = OP_BITS" "vs = [h, l]" "b = min (u + l) (h + 1)" "0 \<le> l" "l \<le> h + 1"
    | (full) "b = e_width c"
    using op tl hl eqs unfolding one_ops_def by blast
  then show ?thesis
  proof cases
    case same
    have m: "nat (min (e_width c) b) = min w0 k" using same w unfolding w0_def k_def by linarith
    let ?P = "\<lambda>op. same_low k (prim1 False op vs (w0, s0, x)) (prim1 False op vs (min w0 k, s0, wrap (min w0 k) s0 x))"
    have "?P OP_ASUINT" unfolding p1 by (rule uint_cut)
    moreover have "?P OP_ASSINT" if "k \<le> w0" unfolding p1 by (rule wrap_cut [OF fx that])
    moreover have "?P OP_NOT" unfolding p1 by (rule not_cut)
    moreover have "?P OP_NEG" unfolding p1 by (rule neg_cut [OF fx])
    moreover have "?P OP_PAD" "?P OP_SEXT" "?P OP_CVT" unfolding p1 by (rule cut_mod [OF fx, symmetric])+
    moreover have "?P OP_BITS_NOSHIFT" if "vs = [h, l]" for h l unfolding that p1 by (rule noshift_cut)
    moreover have "op = OP_ASSINT \<Longrightarrow> k \<le> w0" using s by (auto simp: k_def w0_def)
    moreover have "op = OP_BITS_NOSHIFT \<Longrightarrow> \<exists>h l. vs = [h, l]" using lit by (auto simp: literals_pos_def)
    ultimately have "?P op" using same(1) by blast
    then show ?thesis by (simp only: m k_def [symmetric] w0_def [symmetric])
  next
    case tail
    have m: "nat (min (e_width c) b) = min w0 k" using tail w unfolding w0_def k_def by linarith
    show ?thesis unfolding m k_def [symmetric] w0_def [symmetric] tail(1,2) p1 if_False by (rule tail_cut)
  next
    case shl
    have m: "nat (min (e_width c) b) = min w0 (k - nat n)" using shl w unfolding w0_def k_def by linarith
    show ?thesis unfolding m k_def [symmetric] w0_def [symmetric] shl(1,2) p1 by (rule shl_cut [OF fx])
  next
    case shr
    have m: "nat (min (e_width c) b) = min w0 (k + nat n)" using shr w unfolding w0_def k_def by linarith
    have "same_low k (prim1 False OP_SHR [n] (w0, s0, x)) (prim1 False OP_SHR [n] (min w0 (k + nat n), s0, wrap (min w0 (k + nat n)) s0 x))"
      unfolding p1 by (rule shr_cut [OF fx])
    moreover have "same_low k (prim1 False OP_HEAD [n] (w0, s0, x)) (prim1 False OP_HEAD [n] (min w0 (k + nat n), s0, wrap (min w0 (k + nat n)) s0 x))"
      unfolding p1 if_False by (rule head_cut [OF fx])
    ultimately show ?thesis unfolding m k_def [symmetric] w0_def [symmetric] using shr(1,2) by blast
  next
    case bits
    have m: "nat (min (e_width c) b) = min w0 (min (k + nat l) (nat (h - l + 1) + nat l))"
      using bits w unfolding w0_def k_def by linarith
    show ?thesis unfolding m k_def [symmetric] w0_def [symmetric] bits(1,2) p1 by (rule bits_cut)
  next
    case full
    then show ?thesis using fx by (simp add: w0_def wrap_fits)
  qed
qed

end
