(* ===== verification/UsedBits.thy ===== *)
theory UsedBits
  imports WidthFit UsedOps Graph
begin

section \<open>Used bits\<close>

text \<open>
  \<^verbatim>\<open>src/usedBits.cpp\<close>: from the sinks of the circuit backwards, how many low bits of every node
  and every expression are looked at.  Nodes are then cut to these bits and the trees made to
  match.  \<^verbatim>\<open>checkNodes\<close>, a vector used as a stack, is a list with its back at the head.
\<close>

record ustate =
  uheap :: heap
  checkNodes :: "nodeid list"

definition set_usedBit :: "int \<Rightarrow> enode \<Rightarrow> enode" where
  "set_usedBit u e = ENode ((attr e)\<lparr>usedBit := u\<rparr>) (child e)"

lemma size_set_usedBit [simp]: "size (set_usedBit u e) = size e"
  by (cases e) (simp add: set_usedBit_def)

definition push_check :: "nodeid \<Rightarrow> ustate \<Rightarrow> ustate" where
  "push_check n st = st\<lparr>checkNodes := n # checkNodes st\<rparr>"

definition put_usedBit :: "nodeid \<Rightarrow> int \<Rightarrow> ustate \<Rightarrow> ustate" where
  "put_usedBit n u st = st\<lparr>uheap := (uheap st)(n := (uheap st n)\<lparr>nusedBit := u\<rparr>)\<rparr>"

subsection \<open>ENode::passWidthToChild\<close>

text \<open>The reference case: the node, and the other half of a register.\<close>

definition touch_node :: "nodeid \<Rightarrow> int \<Rightarrow> ustate \<Rightarrow> ustate abortable" where
  "touch_node n u st =
     (let st1 = (if u > nusedBit (uheap st n) then push_check n st else st);
          st2 = st1\<lparr>uheap := (uheap st1)(n := update_usedBit u (uheap st1 n))\<rparr>;
          k = nusedBit (uheap st2 n)
      in if ntype (uheap st n) = NODE_REG_SRC
         then do { d \<leftarrow> getDst (uheap st2) n;
                   Some (if k \<noteq> nusedBit (uheap st2 d) then put_usedBit d k (push_check d st2) else st2) }
         else Some st2)"

definition pass_bits :: "heap \<Rightarrow> eattr \<Rightarrow> enode option list \<Rightarrow> int list abortable" where
  "pass_bits N a cs =
     (case opType a of
        OP_CVT \<Rightarrow> Some [usedBit a]
      | OP_WRITE_MEM \<Rightarrow>
          do { w0 \<leftarrow> child_w cs 0; m \<leftarrow> memoryNode a; Some [w0, nwidth (N m)] }
      | OP_GROUP \<Rightarrow> all_widths cs
      | OP_EXIT \<Rightarrow> all_widths cs
      | OP_PRINTF \<Rightarrow> all_widths cs
      | OP_ASSERT \<Rightarrow> all_widths cs
      | OP_EXT_FUNC \<Rightarrow> all_widths cs
      | op \<Rightarrow> common_bits op (evalues a) (usedBit a) cs)"

fun passWidthToChild :: "enode \<Rightarrow> ustate \<Rightarrow> (enode \<times> ustate) abortable"
  and pass_indices :: "enode option list \<Rightarrow> ustate \<Rightarrow> (enode option list \<times> ustate) abortable"
  and pass_children :: "int list \<Rightarrow> enode option list \<Rightarrow> ustate \<Rightarrow> (enode option list \<times> ustate) abortable" where
  "passWidthToChild (ENode a cs) st =
     (case nodePtr a of
        Some n \<Rightarrow>
          do { st1 \<leftarrow> touch_node n (usedBit a) st;
               (cs', st2) \<leftarrow> pass_indices cs st1;
               Some (ENode a cs', st2) }
      | None \<Rightarrow>
          if cs = [] then Some (ENode a cs, st)
          else do { bs \<leftarrow> pass_bits (uheap st) a cs;
                    assert_that (length cs = length bs);
                    (cs', st') \<leftarrow> pass_children bs cs st;
                    Some (ENode a cs', st') })"
| "pass_indices [] st = Some ([], st)"
| "pass_indices (None # cs) st = do { (cs', st') \<leftarrow> pass_indices cs st; Some (None # cs', st') }"
| "pass_indices (Some c # cs) st =
     do { (c', st1) \<leftarrow> passWidthToChild (set_usedBit (e_width c) c) st;
          (cs', st2) \<leftarrow> pass_indices cs st1;
          Some (Some c' # cs', st2) }"
| "pass_children bs [] st = Some ([], st)"
| "pass_children [] (c # cs) st = Some (c # cs, st)"
| "pass_children (b # bs) (None # cs) st =
     do { (cs', st') \<leftarrow> pass_children bs cs st; Some (None # cs', st') }"
| "pass_children (b # bs) (Some c # cs) st =
     (let real = min (e_width c) b in
      do { (c', st1) \<leftarrow> (if e_usedBit c \<noteq> real then passWidthToChild (set_usedBit real c) st else Some (c, st));
           (cs', st2) \<leftarrow> pass_children bs cs st1;
           Some (Some c' # cs', st2) })"

subsection \<open>Node::passWidthToPrev\<close>

text \<open>The trees hang in the node; \<^verbatim>\<open>usedBit\<close> is the current value of the field at every step.\<close>

definition put_trees :: "nodeid \<Rightarrow> exptree list \<Rightarrow> ustate \<Rightarrow> ustate" where
  "put_trees n ts st = st\<lparr>uheap := (uheap st)(n := (uheap st n)\<lparr>assignTree := ts\<rparr>)\<rparr>"

definition put_reset :: "nodeid \<Rightarrow> exptree \<Rightarrow> ustate \<Rightarrow> ustate" where
  "put_reset n t st = st\<lparr>uheap := (uheap st)(n := (uheap st n)\<lparr>resetTree := Some t\<rparr>)\<rparr>"

definition pass_reset :: "nodeid \<Rightarrow> ustate \<Rightarrow> ustate abortable" where
  "pass_reset n st =
     (case resetTree (uheap st n) of
        None \<Rightarrow> Some st
      | Some t \<Rightarrow>
          do { (r, st1) \<leftarrow> passWidthToChild (set_usedBit (nusedBit (uheap st n)) (root t)) st;
               Some (put_reset n (t\<lparr>root := r\<rparr>) st1) })"

definition pass_root :: "nodeid \<Rightarrow> nat \<Rightarrow> ustate \<Rightarrow> ustate abortable" where
  "pass_root n i st =
     (let ts = assignTree (uheap st n); t = ts ! i; u = nusedBit (uheap st n) in
      if u \<noteq> e_usedBit (root t)
      then do { (r, st1) \<leftarrow> passWidthToChild (set_usedBit u (root t)) st;
                Some (put_trees n (ts[i := t\<lparr>root := r\<rparr>]) st1) }
      else Some st)"

definition pass_lvalue :: "nodeid \<Rightarrow> nat \<Rightarrow> ustate \<Rightarrow> ustate abortable" where
  "pass_lvalue n i st =
     (let ts = assignTree (uheap st n); t = ts ! i; u = nusedBit (uheap st n) in
      if e_usedBit (lvalue t) \<noteq> u
      then do { (l, st1) \<leftarrow> passWidthToChild (set_usedBit u (lvalue t)) st;
                Some (put_trees n (ts[i := t\<lparr>lvalue := l\<rparr>]) st1) }
      else Some st)"

definition passWidthToPrev :: "nodeid \<Rightarrow> ustate \<Rightarrow> ustate abortable" where
  "passWidthToPrev n st =
     do { st1 \<leftarrow> pass_reset n st;
          let k = length (assignTree (uheap st1 n));
          if k = 0 then Some st1
          else do { assert_that (nusedBit (uheap st1 n) \<ge> 0);
                    fold_abort (\<lambda>i s. do { s1 \<leftarrow> pass_root n i s; pass_lvalue n i s1 }) [0..<k] st1 } }"

subsection \<open>graph::usedBits\<close>

text \<open>The sinks, in the order they are pushed.\<close>

definition sinks :: "graph \<Rightarrow> nodeid list abortable" where
  "sinks g =
     do { dsts \<leftarrow> those (map (getDst (nodes g)) (regsrc g));
          Some (specialNodes g @ dsts @ output g
            @ concat (map (\<lambda>m. filter (\<lambda>p. ntype (nodes g p) = NODE_READER) (member (nodes g m))) (memory g))
            @ filter (\<lambda>n. isExt (nodes g n)) (all_members g)) }"

text \<open>The round over the memories when the stack has run empty.\<close>

definition read_bits :: "heap \<Rightarrow> nodeid \<Rightarrow> int" where
  "read_bits h m =
     foldl (\<lambda>u p. if ntype (h p) = NODE_READER \<or> ntype (h p) = NODE_READWRITER then max (nusedBit (h p)) u else u)
       0 (member (h m))"

definition pass_memory :: "nodeid \<Rightarrow> ustate \<Rightarrow> ustate" where
  "pass_memory m st =
     (let u = read_bits (uheap st) m in
      if nusedBit (uheap st m) \<noteq> u
      then fold (\<lambda>p s. if ntype (uheap s p) = NODE_WRITER then push_check p (put_usedBit p u s) else s)
             (member (uheap st m)) (put_usedBit m u st)
      else st)"

partial_function (option) used_loop :: "nodeid list \<Rightarrow> nodeid set \<Rightarrow> ustate \<Rightarrow> (ustate \<times> nodeid set) option" where
  "used_loop mems visited st =
     (case checkNodes st of
        [] \<Rightarrow> Some (st, visited)
      | n # rest \<Rightarrow>
          Option.bind (passWidthToPrev n (st\<lparr>checkNodes := rest\<rparr>))
            (\<lambda>st1. used_loop mems (insert n visited)
                     (if checkNodes st1 = [] then fold pass_memory mems st1 else st1)))"

text \<open>The visited nodes and the memories are cut.\<close>

definition cut_root :: "exptree \<Rightarrow> exptree" where
  "cut_root t = t\<lparr>root := updateWidth (root t)\<rparr>"

definition cut_node :: "node \<Rightarrow> node" where
  "cut_node nd = nd\<lparr>nwidth := nusedBit nd, assignTree := map cut_root (assignTree nd),
                    resetTree := map_option cut_root (resetTree nd)\<rparr>"

definition fit_tree :: "heap \<Rightarrow> exptree \<Rightarrow> exptree abortable" where
  "fit_tree N t = do { r \<leftarrow> updateWithNewWidth N None (root t); Some (t\<lparr>root := r\<rparr>) }"

definition match_tree :: "int \<Rightarrow> exptree \<Rightarrow> exptree" where
  "match_tree w t = t\<lparr>root := matchWidth w (root t)\<rparr>"

definition updateTreeWithNewWIdth :: "nodeid \<Rightarrow> heap \<Rightarrow> heap abortable" where
  "updateTreeWithNewWIdth n h =
     do { ts \<leftarrow> those (map (fit_tree h) (assignTree (h n)));
          r \<leftarrow> (case resetTree (h n) of None \<Rightarrow> Some None | Some t \<Rightarrow> map_option Some (fit_tree h t));
          Some (h(n := (h n)\<lparr>assignTree := map (match_tree (nwidth (h n))) ts,
                            resetTree := map_option (match_tree (nwidth (h n))) r\<rparr>)) }"

definition usedBits :: "graph \<Rightarrow> graph abortable" where
  "usedBits g =
     do { check \<leftarrow> sinks g;
          let h0 = fold (\<lambda>n h. h(n := (h n)\<lparr>nusedBit := nwidth (h n)\<rparr>)) check (nodes g);
          (st, visited) \<leftarrow> used_loop (memory g) {} \<lparr>uheap = h0, checkNodes = rev check\<rparr>;
          let h1 = (\<lambda>n. if n \<in> visited then cut_node (uheap st n) else uheap st n);
          let h2 = fold (\<lambda>m h. h(m := (h m)\<lparr>nwidth := nusedBit (h m)\<rparr>)) (memory g) h1;
          h3 \<leftarrow> fold_abort updateTreeWithNewWIdth (all_members g) h2;
          Some (g\<lparr>nodes := h3\<rparr>) }"

end
