(* ===== verification/UsedSound.thy ===== *)
theory UsedSound
  imports UsedBits
begin

section \<open>Cutting to the used bits keeps what is used\<close>

text \<open>
  After \<^verbatim>\<open>passWidthToChild\<close> and \<^verbatim>\<open>updateWidth\<close> a tree computes, in the circuit whose nodes are cut to
  their used bits, exactly the used bits of what it computed before.
\<close>

subsection \<open>The cut circuit\<close>


text \<open>\<open>d\<close> is the cut form of \<open>c\<close>, with \<open>k\<close> bits.\<close>

definition cut_of :: "env \<Rightarrow> env \<Rightarrow> int \<Rightarrow> enode \<Rightarrow> enode \<Rightarrow> bool" where
  "cut_of E E' k c d \<longleftrightarrow>
     e_width d = k \<and> e_sign d = e_sign c \<and> is_index d = is_index c
     \<and> eval E' d = (if is_index c then eval E c else map_outcome_val (wrap (nat k) (e_sign c)) (eval E c))"





text \<open>Outcomes that agree on the low bits.\<close>

definition same_out :: "nat \<Rightarrow> outcome \<Rightarrow> outcome \<Rightarrow> bool" where
  "same_out u r r' \<longleftrightarrow> map_outcome_val (take_bit u) r = map_outcome_val (take_bit u) r'"

lemma same_out_refl [simp]: "same_out u r r"
  by (simp add: same_out_def)





subsection \<open>One operation\<close>















subsection \<open>The state of the pass\<close>

text \<open>
  While trees are visited the used bits of nodes only grow, except those of register
  destinations, which follow their sources.
\<close>

definition grows :: "heap \<Rightarrow> heap \<Rightarrow> bool" where
  "grows N N' \<longleftrightarrow>
     (\<forall>n. ntype (N' n) = ntype (N n) \<and> nwidth (N' n) = nwidth (N n) \<and> nsign (N' n) = nsign (N n)
        \<and> regNext (N' n) = regNext (N n)
        \<and> (ntype (N n) \<noteq> NODE_REG_DST \<longrightarrow> nusedBit (N n) \<le> nusedBit (N' n)))"






subsection \<open>Typed trees\<close>

definition plain_child :: "enode \<Rightarrow> bool" where
  "plain_child c \<longleftrightarrow> \<not> is_index c \<and> 0 \<le> e_width c"

text \<open>The shapes of nodes: leaves, one and two operands, selections.\<close>

definition one_typed :: "eattr \<Rightarrow> enode \<Rightarrow> bool" where
  "one_typed a c \<longleftrightarrow>
     plain_child c \<and>
     (opType a \<in> one_ops \<and> literals_pos (opType a) (evalues a) \<and> (opType a = OP_ASSINT \<longrightarrow> width a \<le> e_width c)
      \<or> opType a = OP_INDEX \<or> opType a = OP_READ_MEM)"

definition branch_typed :: "enode \<Rightarrow> enode option list \<Rightarrow> bool" where
  "branch_typed c bs \<longleftrightarrow> plain_child c \<and> e_width c = 1 \<and> (\<forall>b \<in> set bs. \<forall>x \<in> set_option b. plain_child x)"

definition used_typed :: "heap \<Rightarrow> eattr \<Rightarrow> enode option list \<Rightarrow> bool" where
  "used_typed N a cs \<longleftrightarrow>
     (case nodePtr a of
        Some n \<Rightarrow> opType a = OP_EMPTY \<and> ntype (N n) \<noteq> NODE_REG_DST
                 \<and> (\<forall>c \<in> set cs. \<forall>x \<in> set_option c. is_index x \<or> 0 \<le> e_width x)
      | None \<Rightarrow> cs = [] \<or> (\<exists>c. cs = [Some c] \<and> one_typed a c)
          \<or> (\<exists>c d. cs = [Some c, Some d] \<and> plain_child c \<and> plain_child d \<and> opType a \<in> two_ops)
          \<or> (\<exists>c t f. cs = [Some c, t, f] \<and> branch_typed c [t, f] \<and> (opType a = OP_MUX \<or> opType a = OP_WHEN))
          \<or> (\<exists>c t. cs = [Some c, t] \<and> branch_typed c [t] \<and> opType a = OP_RESET))"

fun used_ok :: "heap \<Rightarrow> enode \<Rightarrow> bool" where
  "used_ok N (ENode a cs) \<longleftrightarrow> used_typed N a cs \<and> (\<forall>c \<in> set cs. \<forall>e \<in> set_option c. used_ok N e)"

text \<open>Before the pass no node below the root has been visited.\<close>

fun fresh :: "enode \<Rightarrow> bool" where
  "fresh (ENode a cs) \<longleftrightarrow> (\<forall>c \<in> set cs. \<forall>e \<in> set_option c. e_usedBit e = -1 \<and> fresh e)"


lemma set_usedBit_simps [simp]:
  "e_usedBit (set_usedBit u e) = u" "e_width (set_usedBit u e) = e_width e" "e_sign (set_usedBit u e) = e_sign e"
  "is_index (set_usedBit u e) = is_index e" "fresh (set_usedBit u e) = fresh e"
  by (cases e, simp add: set_usedBit_def is_index_def)+

lemma used_ok_set_usedBit [simp]: "used_ok N (set_usedBit u e) = used_ok N e"
  by (cases e) (simp add: set_usedBit_def used_typed_def one_typed_def cong: option.case_cong)

lemma eval_set_usedBit [simp]: "eval E (set_usedBit u e) = eval E e"
proof (cases e)
  case (ENode a cs)
  have "apply_op E (a\<lparr>usedBit := u\<rparr>) os = apply_op E a os" for os by (rule apply_op_cong) simp_all
  moreover have "keep_bits (a\<lparr>usedBit := u\<rparr>) = keep_bits a" by (rule keep_bits_cong) simp_all
  ultimately show ?thesis by (simp only: ENode set_usedBit_def eval_ENode enode.sel)
qed

lemma cut_of_set_usedBit [simp]: "cut_of E E' k (set_usedBit u c) d = cut_of E E' k c d"
  by (simp add: cut_of_def)

lemma used_typed_grows: "grows N N' \<Longrightarrow> used_typed N' a cs = used_typed N a cs"
  by (simp add: used_typed_def grows_def cong: option.case_cong)


subsection \<open>The pass over one tree\<close>

















section \<open>Properties\<close>







end
