(* ===== verification/WidthNode.thy ===== *)
theory WidthNode
  imports WidthFit UsedBits
begin

section \<open>Fitting the trees of a node\<close>

text \<open>
  \<^verbatim>\<open>Node::updateTreeWithNewWIdth\<close> of \<^verbatim>\<open>src/usedBits.cpp\<close>, which width inference and the used-bits
  pass both run last: first \<^verbatim>\<open>updateWithNewWidth\<close> on every tree of a node, then \<^verbatim>\<open>matchWidth\<close>.
  The claim is that the node then gets the value it had, cut or extended to its width.
\<close>

subsection \<open>updateWithNewWidth keeps the shape matchWidth needs\<close>

fun lits_ok :: "enode \<Rightarrow> bool" where
  "lits_ok (ENode a cs) \<longleftrightarrow>
     (opType a = OP_INT \<longrightarrow> (\<exists>v. int_literal (strVal a) = Some v \<and> fits (nat (width a)) (sign a) v))
     \<and> (nodePtr a \<noteq> None \<longrightarrow> opType a = OP_EMPTY) \<and> (\<forall>c \<in> set cs. \<forall>e \<in> set_option c. lits_ok e)"

lemma lits_ok_wrap [simp]:
  "lits_ok (sext_to w e) = lits_ok e" "lits_ok (pad_to w s e) = lits_ok e" "lits_ok (low_bits w s e) = lits_ok e"
  by (simp_all add: sext_to_def pad_to_def low_bits_def new_eattr_def)

lemma when_free_wrap [simp]:
  "when_free (sext_to w e) = when_free e" "when_free (pad_to w s e) = when_free e"
  "when_free (low_bits w s e) = when_free e"
  by (simp_all add: sext_to_def pad_to_def low_bits_def new_eattr_def)

text \<open>What a rewriting step keeps of a tree.\<close>

definition same_kind :: "enode \<Rightarrow> enode \<Rightarrow> bool" where
  "same_kind e e' \<longleftrightarrow>
     (lits_ok e \<longrightarrow> lits_ok e') \<and> (when_free e \<longrightarrow> when_free e') \<and> (\<not> is_index e \<longrightarrow> \<not> is_index e')"

lemma same_kind_refl [simp, intro]: "same_kind e e"
  by (simp add: same_kind_def)

lemma same_kind_trans: "same_kind a b \<Longrightarrow> same_kind b c \<Longrightarrow> same_kind a c"
  by (simp add: same_kind_def)

lemma same_kind_child: "\<not> is_index c \<Longrightarrow> Some c \<in> set cs \<Longrightarrow> same_kind (ENode a cs) c"
  by (auto simp: same_kind_def)

lemma ref_step_kind:
  "nodePtr a = Some n \<Longrightarrow> opType a = OP_EMPTY \<Longrightarrow> same_kind (ENode a cs) (fst (ref_step w p a cs))"
  by (auto simp: ref_step_def Let_def same_kind_def is_index_def new_eattr_def)

lemma unary_step_kind:
  assumes "unary_step a c [Some c] = Some r" "opType a \<in> unary_ops" "nodePtr a = None" "operand_ok c"
  shows "same_kind (ENode a [Some c]) (fst r)"
proof -
  have c: "same_kind (ENode a [Some c]) c" using assms(4) by (auto simp: operand_ok_def intro: same_kind_child)
  have "same_kind (ENode a [Some c]) (ENode b [Some c])" if "opType b \<in> unary_ops" "nodePtr b = None" for b
    using that assms(2) by (auto simp: same_kind_def unary_ops_def is_index_def)
  then show ?thesis using assms(1,2,3) c
    by (auto simp: unary_step_def unary_ops_def with_val_def split: if_splits bind_splits)
qed

lemma binary_step_kind:
  assumes "binary_step a c d = Some r" "opType a \<in> binary_ops" "nodePtr a = None" "operand_ok d"
  shows "same_kind (ENode a [Some c, Some d]) (fst r)"
proof -
  have d: "same_kind (ENode a [Some c, Some d]) d" using assms(4) by (auto simp: operand_ok_def intro: same_kind_child)
  have op: "opType a \<notin> {OP_INT, OP_WHEN, OP_RESET, OP_MUX, OP_INDEX, OP_INDEX_INT}"
    using assms(2) by (auto simp: binary_ops_def)
  have "same_kind (ENode a [Some c, Some d]) (ENode b [Some x, Some y])"
    if "opType b = opType a" "nodePtr b = None" "lits_ok x = lits_ok c" "lits_ok y = lits_ok d"
      "when_free x = when_free c" "when_free y = when_free d" for b x y
    using that op by (auto simp: same_kind_def is_index_def)
  moreover have "lits_ok (extend_to w e) = lits_ok e" "lits_ok (pad_below w e) = lits_ok e"
    "when_free (extend_to w e) = when_free e" "when_free (pad_below w e) = when_free e" for w e
    by (simp_all add: extend_to_def pad_below_def)
  moreover have "same_kind (ENode a [Some c, Some d]) (low_bits w s (ENode b [Some c, Some d]))"
    if "opType b = opType a" "nodePtr b = None" for w s b
    using that op by (auto simp: same_kind_def is_index_def)
  ultimately show ?thesis using assms(1,3) d
    by (cases "opType a") (auto simp: binary_step_def Let_def split: if_splits)
qed

lemma mux_step_kind: "opType a = OP_MUX \<Longrightarrow> same_kind (ENode a [c, Some t, Some f]) (mux_step a c t f)"
  by (auto simp: mux_step_def same_kind_def is_index_def)

lemma width_step_kind:
  assumes "width_step N p e = Some r" "fit_ok N e"
  shows "same_kind e (fst r)"
proof (cases e)
  case (ENode a cs)
  with assms show ?thesis
    by (auto simp: width_step_def fit_typed_def Let_def split: option.splits if_splits list.splits
        intro: ref_step_kind unary_step_kind binary_step_kind mux_step_kind)
qed

lemma kids_kind:
  assumes "list_all2 (rel_option same_kind) cs ds"
  shows "same_kind (ENode a cs) (ENode a ds)"
proof -
  have "\<exists>c. Some c \<in> set cs \<and> same_kind c d" if "Some d \<in> set ds" for d
    using assms that by (induction rule: list_all2_induct) (auto simp: option_rel_Some2)
  then have kid: "\<exists>c y. c \<in> set cs \<and> y \<in> set_option c \<and> same_kind y x" if "d \<in> set ds" "x \<in> set_option d" for d x
    using that by fastforce
  have none: "None \<notin> set ds" if "None \<notin> set cs"
    using assms that by (induction rule: list_all2_induct) auto
  have "lits_ok x" if "lits_ok (ENode a cs)" "d \<in> set ds" "x \<in> set_option d" for d x
    using kid [OF that(2,3)] that(1) unfolding same_kind_def by auto
  then have "lits_ok (ENode a cs) \<longrightarrow> lits_ok (ENode a ds)" by auto
  moreover have "when_free x" if "when_free (ENode a cs)" "d \<in> set ds" "x \<in> set_option d" for d x
    using kid [OF that(2,3)] that(1) unfolding same_kind_def by auto
  then have "when_free (ENode a cs) \<longrightarrow> when_free (ENode a ds)" using none by auto
  ultimately show ?thesis by (simp add: same_kind_def is_index_def del: lits_ok.simps when_free.simps)
qed

lemma updateWithNewWidth_kind:
  "fit_ok N e \<Longrightarrow> env_ok N E \<Longrightarrow> \<not> firHeadTail E \<Longrightarrow> updateWithNewWidth N p e = Some e' \<Longrightarrow> same_kind e e'"
proof (induction N p e arbitrary: e' rule: updateWithNewWidth.induct)
  case (1 N p e)
  from width_step_ok [OF "1.prems"(1-3)] obtain r where
    r: "width_step N p e = Some r" "round_ok N E p e r" by blast
  note k = width_step_kind [OF r(1) "1.prems"(1)]
  show ?case
  proof (cases "snd r")
    case True
    with r(2) have "fit_ok N (fst r)" by (auto simp: round_ok_def)
    moreover have "updateWithNewWidth N p (fst r) = Some e'"
      using "1.prems"(4) r(1) True by (simp add: updateWithNewWidth.simps [of N p e])
    ultimately show ?thesis using "1.IH"(1) [OF r(1) True _ "1.prems"(2,3)] k by (blast intro: same_kind_trans)
  next
    case False
    obtain a cs where e1: "fst r = ENode a cs" by (cases "fst r")
    with r(2) False have kf: "kids_fit N (ENode a cs)" by (auto simp: round_ok_def)
    from "1.prems"(4) r(1) False e1 obtain ds where
      ds: "those (map (child_map (updateWithNewWidth N (Some (opType a)))) cs) = Some ds" "e' = ENode a ds"
      by (auto simp: updateWithNewWidth.simps [of N p e] split: bind_splits)
    have kids: "\<exists>c'. updateWithNewWidth N (Some (opType a)) c = Some c' \<and> same_kind c c'"
      if "Some c \<in> set cs" for c
    proof -
      have fc: "fit_ok N c" using that kf by (fastforce simp: kids_fit_def)
      with updateWithNewWidth_fitted [OF _ "1.prems"(2,3)] obtain c' where
        "updateWithNewWidth N (Some (opType a)) c = Some c'" by blast
      with "1.IH"(2) [OF r(1) False, of "Some c" c] that fc "1.prems"(2,3) show ?thesis by (auto simp: e1)
    qed
    from children_map [of cs "updateWithNewWidth N (Some (opType a))" same_kind, OF kids] ds(1)
    have "list_all2 (rel_option same_kind) cs ds" by auto
    with k e1 ds(2) kids_kind show ?thesis by (metis same_kind_trans)
  qed
qed

text \<open>Below \<^verbatim>\<open>when\<close> and \<^verbatim>\<open>reset\<close> nodes the rewriting leaves values of the same width and sign.\<close>

lemma leaf_ok_kind:
  assumes "leaf_ok e" "lits_ok e" "same_kind e e'" "erefines E e e'"
  shows "leaf_ok e'"
proof -
  have "lits_ok e'" using assms(2,3) by (simp add: same_kind_def)
  then have "e_op e' = OP_INT \<longrightarrow>
      (\<exists>v. int_literal (strVal (attr e')) = Some v \<and> fits (nat (e_width e')) (e_sign e') v)"
    "e_node e' \<noteq> None \<longrightarrow> e_op e' = OP_EMPTY"
    by (cases e', auto)+
  then show ?thesis using assms by (auto simp: leaf_ok_def same_kind_def erefines_def)
qed

lemma updateWithNewWidth_match:
  "fit_ok N e \<Longrightarrow> env_ok N E \<Longrightarrow> \<not> firHeadTail E \<Longrightarrow> lits_ok e \<Longrightarrow> match_ok s e \<Longrightarrow> p \<noteq> Some OP_BITS
   \<Longrightarrow> updateWithNewWidth N p e = Some e' \<Longrightarrow> match_ok s e'"
proof (induction e arbitrary: p e')
  case (ENode a cs)
  let ?e = "ENode a cs"
  have ref: "erefines E ?e e'" using updateWithNewWidth_fitted [OF ENode.prems(1-3), of p] ENode.prems(6,7)
    by (auto simp: fitted_def)
  show ?case
  proof (cases "opType a = OP_WHEN \<or> opType a = OP_RESET")
    case False
    with ENode.prems(5) have "leaf_ok ?e" by simp
    from leaf_ok_kind [OF this ENode.prems(4) updateWithNewWidth_kind [OF ENode.prems(1-3,7)] ref]
    have l: "leaf_ok e'" .
    then have "e_op e' \<noteq> OP_WHEN \<and> e_op e' \<noteq> OP_RESET" by (cases e') (simp add: leaf_ok_def)
    with l ref ENode.prems(5) show ?thesis by (cases e') (auto simp: erefines_def)
  next
    case True
    with ENode.prems(5) have a: "nodePtr a = None" "cs \<noteq> []" "sign a = s" by auto
    from True a(1) have "width_step N p ?e = Some (?e, False)"
      by (auto simp: width_step_def unary_ops_def binary_ops_def)
    with ENode.prems(7) obtain ds where
      ds: "those (map (child_map (updateWithNewWidth N (Some (opType a)))) cs) = Some ds" "e' = ENode a ds"
      by (auto simp: updateWithNewWidth.simps [of N p ?e] split: bind_splits)
    let ?R = "\<lambda>c c'. (match_ok s c \<longrightarrow> match_ok s c') \<and> e_width c' = e_width c"
    have kids: "\<exists>c'. updateWithNewWidth N (Some (opType a)) c = Some c' \<and> ?R c c'" if c: "Some c \<in> set cs" for c
    proof -
      from c ENode.prems have fc: "fit_ok N c" "lits_ok c" by fastforce+
      have p: "Some (opType a) \<noteq> Some OP_BITS" using True by auto
      from updateWithNewWidth_fitted [OF fc(1) ENode.prems(2,3), of "Some (opType a)"] p obtain c' where
        c': "updateWithNewWidth N (Some (opType a)) c = Some c'" "erefines E c c'" by (auto simp: fitted_def)
      with ENode.IH [OF c, of c "Some (opType a)" c'] fc ENode.prems(2,3) p show ?thesis
        by (auto simp: erefines_def)
    qed
    from children_map [of cs "updateWithNewWidth N (Some (opType a))" ?R, OF kids] ds(1)
    have rel: "list_all2 (rel_option ?R) cs ds" by auto
    then have "list_all2 (rel_option ?R) (tl cs) (tl ds)" and "ds \<noteq> []" using a(2) by (cases cs; cases ds; auto)+
    then show ?thesis using True a ds(2) ENode.prems(5)
      by (auto dest!: list_all2_children)
  qed
qed

text \<open>A tree after both steps.\<close>

definition tree_ok :: "heap \<Rightarrow> bool \<Rightarrow> enode \<Rightarrow> bool" where
  "tree_ok N s e \<longleftrightarrow> fit_ok N e \<and> lits_ok e \<and> match_ok s e"

definition fitted_tree :: "env \<Rightarrow> int \<Rightarrow> bool \<Rightarrow> enode \<Rightarrow> enode \<Rightarrow> bool" where
  "fitted_tree E w s e e' \<longleftrightarrow>
     e_width e' = w \<and> e_sign e' = s \<and> refines (map_outcome_val (wrap (nat w) s) (eval E e)) (eval E e')"

lemma fit_match_tree:
  assumes "tree_ok N s (root t)" "env_ok N E" "\<not> firHeadTail E" "0 \<le> w"
  shows "\<exists>t'. fit_tree N t = Some t' \<and> lvalue t' = lvalue t \<and> fitted_tree E w s (root t) (root (match_tree w t'))"
proof -
  from assms(1) have ok: "fit_ok N (root t)" "lits_ok (root t)" "match_ok s (root t)" by (simp_all add: tree_ok_def)
  from updateWithNewWidth_fitted [OF ok(1) assms(2,3), of None] obtain e' where
    e': "updateWithNewWidth N None (root t) = Some e'" "erefines E (root t) e'" by (auto simp: fitted_def)
  have "match_ok s e'" by (rule updateWithNewWidth_match [OF ok(1) assms(2,3) ok(2,3) _ e'(1)]) simp
  from matchWidth_eval [OF assms(4) this, of E] e' show ?thesis
    by (auto simp: fit_tree_def match_tree_def fitted_tree_def erefines_def intro: refines_map_outcome)
qed

lemma fit_match_trees:
  assumes "\<forall>t \<in> set ts. tree_ok N s (root t)" "env_ok N E" "\<not> firHeadTail E" "0 \<le> w"
  shows "\<exists>us. those (map (fit_tree N) ts) = Some us
    \<and> list_all2 (\<lambda>t t'. fitted_tree E w s (root t) (root t')) ts (map (match_tree w) us)"
  using assms(1)
proof (induction ts)
  case (Cons t ts)
  with fit_match_tree [OF _ assms(2-4), of s t] show ?case by fastforce
qed simp

lemma then_assign_map: "map_outcome_val f (then_assign a b) = then_assign (map_outcome_val f a) (map_outcome_val f b)"
  by (simp add: then_assign_def)

lemma fitted_foldl:
  assumes "list_all2 (fitted_tree E w s) es es'" "refines (map_outcome_val (wrap (nat w) s) a) b"
  shows "refines (map_outcome_val (wrap (nat w) s) (foldl then_assign a (map (eval E) es)))
           (foldl then_assign b (map (eval E) es'))"
  using assms
  by (induction arbitrary: a b rule: list_all2_induct)
     (simp_all add: fitted_tree_def then_assign_map then_assign_refines)

lemma fitted_sequence:
  "list_all2 (fitted_tree E w s) es es' \<Longrightarrow>
     refines (map_outcome_val (wrap (nat w) s) (in_sequence E es)) (in_sequence E es')"
  unfolding in_sequence_def by (rule fitted_foldl) simp_all

definition node_trees_ok :: "heap \<Rightarrow> nodeid \<Rightarrow> bool" where
  "node_trees_ok h n \<longleftrightarrow>
     0 \<le> nwidth (h n) \<and> (\<forall>t \<in> set (assignTree (h n)). tree_ok h (nsign (h n)) (root t))
     \<and> (\<forall>t \<in> set_option (resetTree (h n)). \<exists>s. tree_ok h s (root t))"

abbreviation roots :: "node \<Rightarrow> enode list" where
  "roots nd \<equiv> map root (assignTree nd)"

lemma updateTreeWithNewWIdth_trees:
  assumes "node_trees_ok h n" "env_ok h E" "\<not> firHeadTail E"
  shows "\<exists>ts r. updateTreeWithNewWIdth n h = Some (h(n := (h n)\<lparr>assignTree := ts, resetTree := r\<rparr>))
    \<and> list_all2 (fitted_tree E (nwidth (h n)) (nsign (h n))) (roots (h n)) (map root ts)
    \<and> rel_option (\<lambda>t t'. \<exists>s. fitted_tree E (nwidth (h n)) s (root t) (root t')) (resetTree (h n)) r"
proof -
  from assms(1) have ok: "0 \<le> nwidth (h n)" "\<forall>t \<in> set (assignTree (h n)). tree_ok h (nsign (h n)) (root t)"
    "\<forall>t \<in> set_option (resetTree (h n)). \<exists>s. tree_ok h s (root t)" by (simp_all add: node_trees_ok_def)
  from fit_match_trees [OF ok(2) assms(2,3) ok(1)] obtain us where
    us: "those (map (fit_tree h) (assignTree (h n))) = Some us"
      "list_all2 (\<lambda>t t'. fitted_tree E (nwidth (h n)) (nsign (h n)) (root t) (root t'))
         (assignTree (h n)) (map (match_tree (nwidth (h n))) us)" by blast
  show ?thesis
  proof (cases "resetTree (h n)")
    case None
    with us show ?thesis by (auto simp: updateTreeWithNewWIdth_def list.rel_map)
  next
    case (Some t)
    with ok(3) obtain s where "tree_ok h s (root t)" by auto
    from fit_match_tree [OF this assms(2,3) ok(1)] obtain t' where
      "fit_tree h t = Some t'" "fitted_tree E (nwidth (h n)) s (root t) (root (match_tree (nwidth (h n)) t'))" by blast
    with us Some show ?thesis
      by (intro exI [of _ "map (match_tree (nwidth (h n))) us"] exI [of _ "Some (match_tree (nwidth (h n)) t')"])
         (auto simp: updateTreeWithNewWIdth_def list.rel_map)
  qed
qed

section \<open>Properties\<close>

text \<open>
  C24: \<^verbatim>\<open>Node::updateTreeWithNewWIdth\<close> succeeds on well-typed trees and touches no other node; all
  assignment trees of the node then have its width, and the value its assignments give it one
  after another is the old value cut or extended to that width.
\<close>

theorem updateTreeWithNewWIdth_sound:
  assumes "node_trees_ok h n" "env_ok h E" "\<not> firHeadTail E"
  shows "\<exists>h'. updateTreeWithNewWIdth n h = Some h' \<and> (\<forall>m. m \<noteq> n \<longrightarrow> h' m = h m)
    \<and> nwidth (h' n) = nwidth (h n)
    \<and> (\<forall>e \<in> set (roots (h' n)). e_width e = nwidth (h n) \<and> e_sign e = nsign (h n))
    \<and> refines (map_outcome_val (wrap (nat (nwidth (h n))) (nsign (h n))) (in_sequence E (roots (h n))))
        (in_sequence E (roots (h' n)))"
proof -
  from updateTreeWithNewWIdth_trees [OF assms] obtain ts r where
    u: "updateTreeWithNewWIdth n h = Some (h(n := (h n)\<lparr>assignTree := ts, resetTree := r\<rparr>))"
    and ts: "list_all2 (fitted_tree E (nwidth (h n)) (nsign (h n))) (roots (h n)) (map root ts)" by blast
  have "e_width e = nwidth (h n) \<and> e_sign e = nsign (h n)" if "e \<in> set (map root ts)" for e
    using ts that by (auto simp: list_all2_conv_all_nth in_set_conv_nth fitted_tree_def)
  with u fitted_sequence [OF ts] show ?thesis by simp
qed

definition demo_width_heap :: heap where
  "demo_width_heap n = (if n = 5 then demo_node\<lparr>nwidth := 3, assignTree := [\<lparr>root = demo_fit, lvalue = new_leaf 5\<rparr>]\<rparr>
     else demo_node)"

theorem updateTreeWithNewWIdth_sound_witness:
  "\<exists>h'. updateTreeWithNewWIdth 5 demo_width_heap = Some h'
    \<and> (\<forall>e \<in> set (roots (h' 5)). e_width e = 3 \<and> e_sign e = False)
    \<and> in_sequence \<lparr>val = \<lambda>_ _. 7, mem = \<lambda>_ _. 0, firHeadTail = False\<rparr> (roots (h' 5)) = Val 6"
proof -
  let ?E = "\<lparr>val = \<lambda>_ _. 7, mem = \<lambda>_ _. 0, firHeadTail = False\<rparr>"
  let ?h = demo_width_heap
  have ok: "node_trees_ok ?h 5"
    by (simp add: node_trees_ok_def tree_ok_def demo_width_heap_def demo_fit_def new_eattr_def fit_typed_def
        unary_ops_def binary_ops_def operand_ok_def is_index_def binary_typed_def demo_node_def new_node_def
        leaf_ok_def)
  have env: "env_ok ?h ?E" by (simp add: env_ok_def demo_width_heap_def demo_node_def new_node_def fits_def)
  have "in_sequence ?E (roots (?h 5)) = Val 14"
    by (simp add: in_sequence_def demo_width_heap_def then_assign_def demo_fit_def new_eattr_def eval_ENode
        apply_op_def apply_prim_def prim2_def of_opt_def keep_bits_def wrap_def take_bit_eq_mod)
  moreover have "nwidth (?h 5) = 3" "\<not> nsign (?h 5)"
    by (simp_all add: demo_width_heap_def demo_node_def new_node_def)
  ultimately show ?thesis using updateTreeWithNewWIdth_sound [OF ok env]
    by (auto simp: wrap_def take_bit_eq_mod refines_Val)
qed

end
