(* ===== verification/InferFit.thy ===== *)
theory InferFit
  imports WidthNode
begin

section \<open>Inferred trees are ready for fitting\<close>

text \<open>
  Between the work list of \<^verbatim>\<open>inferAllWidth\<close> and \<^verbatim>\<open>updateTreeWithNewWIdth\<close>: a tree with inferred
  widths whose \<^verbatim>\<open>head\<close> and \<^verbatim>\<open>tail\<close> have been rewritten satisfies what fitting asks for, as long as
  the FIRRTL text respects the ranges of the specification.
\<close>

definition range_ok :: "eattr \<Rightarrow> enode \<Rightarrow> bool" where
  "range_ok a c \<longleftrightarrow>
     (case opType a of
        OP_BITS \<Rightarrow> evalues a ! 0 < e_width c
      | OP_TAIL \<Rightarrow> evalues a ! 0 \<le> e_width c \<and> (evalues a ! 0 = 0 \<longrightarrow> \<not> e_sign c)
      | OP_HEAD \<Rightarrow> evalues a ! 0 = e_width c \<longrightarrow> \<not> e_sign c
      | _ \<Rightarrow> True)"

definition shape_ok :: "eattr \<Rightarrow> enode option list \<Rightarrow> bool" where
  "shape_ok a cs \<longleftrightarrow>
     (0 \<le> width a \<or> index_op a) \<and>
     (case nodePtr a of
        Some n \<Rightarrow> \<forall>c \<in> set cs. \<forall>e \<in> set_option c. when_free e
      | None \<Rightarrow>
          if opType a \<in> unary_ops
          then (case cs of [Some c] \<Rightarrow> operand_ok c \<and> range_ok a c | _ \<Rightarrow> False)
          else if opType a \<in> binary_ops
          then (case cs of
                  [Some c, Some d] \<Rightarrow>
                    operand_ok c \<and> operand_ok d \<and> (opType a = OP_CAT \<and> e_width c = 0 \<longrightarrow> \<not> e_sign d)
                | _ \<Rightarrow> False)
          else if opType a = OP_MUX
          then (case cs of [_, Some t, Some f] \<Rightarrow> operand_ok t \<and> operand_ok f | _ \<Rightarrow> False)
          else True)"

fun fir_shape :: "enode \<Rightarrow> bool" where
  "fir_shape (ENode a cs) \<longleftrightarrow> shape_ok a cs \<and> (\<forall>c \<in> set cs. \<forall>e \<in> set_option c. fir_shape e)"

text \<open>\<^verbatim>\<open>updateHeadTail\<close> changes nothing but the literals of operations.\<close>

fun strip :: "enode \<Rightarrow> enode" where
  "strip (ENode a cs) = ENode (a\<lparr>evalues := []\<rparr>) (map (map_option strip) cs)"

lemma strip_attr: "attr (strip e) = (attr e)\<lparr>evalues := []\<rparr>"
  by (cases e) simp

lemma child_strip: "child (strip e) = map (map_option strip) (child e)"
  by (cases e) simp

lemma strip_children:
  assumes "\<And>c e. c \<in> set cs \<Longrightarrow> e \<in> set_option c \<Longrightarrow> P (strip e) = P e"
  shows "(\<forall>c \<in> set (map (map_option strip) cs). \<forall>e \<in> set_option c. P e) \<longleftrightarrow> (\<forall>c \<in> set cs. \<forall>e \<in> set_option c. P e)"
proof -
  have "(\<forall>e \<in> set_option (map_option strip c). P e) \<longleftrightarrow> (\<forall>e \<in> set_option c. P e)" if "c \<in> set cs" for c
    using assms [OF that] by (cases c) auto
  then show ?thesis by simp
qed

lemma strip_none: "None \<in> set (map (map_option strip) cs) \<longleftrightarrow> None \<in> set cs"
  by (auto simp: image_iff)

lemma strip_when_free [simp]: "when_free (strip e) = when_free e"
proof (induction e)
  case (ENode a cs)
  from strip_children [of cs when_free, OF ENode] show ?case
    unfolding strip.simps when_free.simps strip_none by simp
qed

lemma strip_lits_ok [simp]: "lits_ok (strip e) = lits_ok e"
proof (induction e)
  case (ENode a cs)
  from strip_children [of cs lits_ok, OF ENode] show ?case
    unfolding strip.simps lits_ok.simps by simp
qed

lemma strip_leaf_ok [simp]: "leaf_ok (strip e) = leaf_ok e"
  by (simp add: leaf_ok_def is_index_def strip_attr)

lemma strip_match_ok [simp]: "match_ok s (strip e) = match_ok s e"
proof (induction e)
  case (ENode a cs)
  let ?P = "\<lambda>e. match_ok s e \<and> e_width e \<le> width a"
  have "?P (strip e) = ?P e" if "c \<in> set (tl cs)" "e \<in> set_option c" for c e
    using ENode [of c e] that by (cases cs) (auto simp: strip_attr)
  from strip_children [of "tl cs" ?P, OF this]
  have "(\<forall>c \<in> set (map (map_option strip) (tl cs)). \<forall>e \<in> set_option c. ?P e) \<longleftrightarrow> (\<forall>c \<in> set (tl cs). \<forall>e \<in> set_option c. ?P e)" .
  moreover have "leaf_ok (ENode (a\<lparr>evalues := []\<rparr>) (map (map_option strip) cs)) = leaf_ok (ENode a cs)"
    using strip_leaf_ok [of "ENode a cs"] by simp
  ultimately show ?case unfolding strip.simps match_ok.simps map_tl by simp
qed

lemma updateHeadTail_strip: "updateHeadTail e = Some e' \<Longrightarrow> strip e' = strip e"
proof (induction e arbitrary: e')
  case (ENode a cs)
  then obtain b ds where b: "head_tail_attr a cs = Some b" and
    ds: "those (map (child_map updateHeadTail) cs) = Some ds" "e' = ENode b ds"
    by (auto split: bind_splits)
  from b have "b\<lparr>evalues := []\<rparr> = a\<lparr>evalues := []\<rparr>"
    by (auto simp: head_tail_attr_def split: if_splits list.splits option.splits)
  moreover from ds(1) have rel: "list_all2 (rel_option (\<lambda>e e'. updateHeadTail e = Some e')) cs ds"
    by (simp add: those_map_Some child_map_Some)
  then have "map (map_option strip) ds = map (map_option strip) cs"
    using ENode.IH by (induction rule: list_all2_induct) (auto simp: rel_option_iff split: option.splits)
  ultimately show ?case using ds(2) by simp
qed

lemma strip_same:
  assumes "strip e' = strip e"
  shows "e_width e' = e_width e" "e_sign e' = e_sign e" "e_op e' = e_op e" "e_node e' = e_node e"
    "when_free e' = when_free e" "lits_ok e' = lits_ok e" "match_ok s e' = match_ok s e"
    "operand_ok e' = operand_ok e"
proof -
  have a: "(attr e')\<lparr>evalues := []\<rparr> = (attr e)\<lparr>evalues := []\<rparr>" using assms by (metis strip_attr)
  then show w: "e_width e' = e_width e" "e_sign e' = e_sign e" "e_op e' = e_op e" "e_node e' = e_node e"
    by (metis eattr.select_convs eattr.surjective eattr.update_convs(9))+
  show wf: "when_free e' = when_free e" by (metis assms strip_when_free)
  show "lits_ok e' = lits_ok e" by (metis assms strip_lits_ok)
  show "match_ok s e' = match_ok s e" by (metis assms strip_match_ok)
  show "operand_ok e' = operand_ok e" using w wf by (simp add: operand_ok_def is_index_def)
qed

subsection \<open>From inference to fitting\<close>

lemma unary_annotated:
  assumes "infer_width1 (opType a) (evalues a) (e_width c, e_sign c) = Some (width a, sign a)"
    "head_tail_attr a [Some c] = Some b" "range_ok a c" "literals_ok (opType a) (evalues a) (e_width c) (e_sign c)"
    "opType a \<in> unary_ops" "e_width c' = e_width c" "e_sign c' = e_sign c"
  shows "unary_typed b c'"
proof -
  from assms(5) consider "opType a = OP_BITS" | "opType a = OP_PAD" | "opType a = OP_SEXT"
    | "opType a = OP_TAIL" | "opType a = OP_HEAD" unfolding unary_ops_def by blast
  then show ?thesis
    using assms(1-4,6,7)
    by cases
       (auto simp: infer_width1_def head_tail_attr_def range_ok_def literals_ok_def unary_typed_def
          split: list.splits if_splits)
qed

lemma binary_annotated:
  assumes "infer_width2 (opType a) (e_width c, e_sign c) (e_width d, e_sign d) = Some (width a, sign a)"
    "0 \<le> e_width c" "opType a = OP_CAT \<and> e_width c = 0 \<longrightarrow> \<not> e_sign d"
    "e_width c' = e_width c" "e_sign c' = e_sign c" "e_width d' = e_width d" "e_sign d' = e_sign d"
  shows "binary_typed a c' d'"
  using assms
  by (cases "opType a") (auto simp: infer_width2_def binary_typed_def assert_that_bind split: if_splits)

lemma head_tail_fields:
  assumes "head_tail_attr a cs = Some b"
  shows "nodePtr b = nodePtr a" "opType b = opType a" "width b = width a" "sign b = sign a"
    "opType a \<noteq> OP_HEAD \<Longrightarrow> opType a \<noteq> OP_TAIL \<Longrightarrow> b = a"
  using assms by (auto simp: head_tail_attr_def split: if_splits list.splits option.splits)

lemma infer_width_op_prim:
  "opType a \<in> unary_ops \<union> binary_ops \<Longrightarrow> infer_width_op N a ws = infer_prim (opType a) (evalues a) ws"
  by (cases "opType a") (simp_all add: unary_ops_def binary_ops_def infer_width_op_def)

lemma infer_op_arity:
  assumes "nodePtr a = None" "annot_ok N a cs"
  shows "opType a \<in> unary_ops \<Longrightarrow> cs = [Some c] \<Longrightarrow>
           infer_width1 (opType a) (evalues a) (e_width c, e_sign c) = Some (width a, sign a)"
    "opType a \<in> binary_ops \<Longrightarrow> cs = [Some c, Some d] \<Longrightarrow>
           infer_width2 (opType a) (e_width c, e_sign c) (e_width d, e_sign d) = Some (width a, sign a)"
    "opType a = OP_MUX \<Longrightarrow> cs = [q, Some c, Some d] \<Longrightarrow> width a = max (e_width c) (e_width d)"
proof -
  from assms have i: "opType a = OP_GROUP \<or> infer_width_op N a (annots cs) = Some (width a, sign a)"
    by (simp add: annot_ok_def)
  have "opType a \<noteq> OP_GROUP" if "opType a \<in> unary_ops \<union> binary_ops"
    using that by (auto simp: unary_ops_def binary_ops_def)
  then have p: "infer_prim (opType a) (evalues a) (annots cs) = Some (width a, sign a)"
    if "opType a \<in> unary_ops \<union> binary_ops"
    using i infer_width_op_prim [OF that] that by metis
  show "opType a \<in> unary_ops \<Longrightarrow> cs = [Some c] \<Longrightarrow>
           infer_width1 (opType a) (evalues a) (e_width c, e_sign c) = Some (width a, sign a)"
    using p by (simp add: infer_prim_def)
  show "opType a \<in> binary_ops \<Longrightarrow> cs = [Some c, Some d] \<Longrightarrow>
           infer_width2 (opType a) (e_width c, e_sign c) (e_width d, e_sign d) = Some (width a, sign a)"
    using p by (simp add: infer_prim_def)
  show "opType a = OP_MUX \<Longrightarrow> cs = [q, Some c, Some d] \<Longrightarrow> width a = max (e_width c) (e_width d)"
    using i by (simp add: infer_width_op_def infer_mux_def)
qed

lemma case_operands:
  "(case cs of [Some c] \<Rightarrow> P c | _ \<Rightarrow> False) \<longleftrightarrow> (\<exists>c. cs = [Some c] \<and> P c)"
  "(case cs of [Some c, Some d] \<Rightarrow> Q c d | _ \<Rightarrow> False) \<longleftrightarrow> (\<exists>c d. cs = [Some c, Some d] \<and> Q c d)"
  "(case cs of [q, Some c, Some d] \<Rightarrow> Q c d | _ \<Rightarrow> False) \<longleftrightarrow> (\<exists>q c d. cs = [q, Some c, Some d] \<and> Q c d)"
  by (cases cs; cases "tl cs"; cases "tl (tl cs)"; cases "tl (tl (tl cs))"; auto split: option.splits)+

lemma fit_typed_annotated:
  assumes "annot_ok N a cs" "node_typed a cs" "shape_ok a cs" "head_tail_attr a cs = Some b"
    and rel: "list_all2 (rel_option (\<lambda>e e'. strip e' = strip e)) cs ds"
  shows "fit_typed N b ds"
proof (cases "nodePtr a")
  case (Some n)
  have "when_free x" if "d \<in> set ds" "x \<in> set_option d" for d x
  proof -
    from list_all2_children [OF rel that] obtain c y where c: "c \<in> set cs" "y \<in> set_option c" "strip x = strip y"
      by blast
    with assms(3) Some have "when_free y" by (simp add: shape_ok_def)
    with strip_same(5) [OF c(3)] show ?thesis by simp
  qed
  with assms(1-3) Some head_tail_fields [OF assms(4)] show ?thesis
    by (auto simp: fit_typed_def annot_ok_def node_typed_def shape_ok_def index_op_def)
next
  case None
  note hf = head_tail_fields [OF assms(4)]
  note ar = infer_op_arity [OF None assms(1)]
  have ix: "index_op b = index_op a" using hf(1,2) by (simp add: index_op_def)
  from assms(3) have w: "0 \<le> width a \<or> index_op a" by (simp add: shape_ok_def)
  consider (unary) "opType a \<in> unary_ops" | (binary) "opType a \<in> binary_ops" "opType a \<notin> unary_ops"
    | (mux) "opType a = OP_MUX" | (other) "opType a \<notin> unary_ops" "opType a \<notin> binary_ops" "opType a \<noteq> OP_MUX"
    by blast
  then show ?thesis
  proof cases
    case unary
    with assms(3) None obtain c where c: "cs = [Some c]" "operand_ok c" "range_ok a c"
      by (auto simp: shape_ok_def case_operands)
    with rel obtain c' where c': "ds = [Some c']" "strip c' = strip c"
      by (auto simp: list_all2_Cons1 option_rel_Some1)
    have "literals_ok (opType a) (evalues a) (e_width c) (e_sign c)"
      using assms(2) c(1) None unary by (auto simp: node_typed_def unary_ops_def)
    from unary_annotated [OF ar(1) [OF unary c(1)] assms(4) [unfolded c(1)] c(3) this unary strip_same(1,2) [OF c'(2)]]
    show ?thesis using None unary hf ix w c(2) c' strip_same(8) [OF c'(2)] by (simp add: fit_typed_def)
  next
    case binary
    with assms(3) None obtain c d where c: "cs = [Some c, Some d]" "operand_ok c" "operand_ok d"
      "opType a = OP_CAT \<and> e_width c = 0 \<longrightarrow> \<not> e_sign d"
      by (auto simp: shape_ok_def case_operands)
    with rel obtain c' d' where c': "ds = [Some c', Some d']" "strip c' = strip c" "strip d' = strip d"
      by (auto simp: list_all2_Cons1 option_rel_Some1)
    have "b = a" using hf(5) binary(1) by (auto simp: binary_ops_def)
    with binary_annotated [OF ar(2) [OF binary(1) c(1)] _ c(4) strip_same(1,2) [OF c'(2)] strip_same(1,2) [OF c'(3)]]
    show ?thesis using None binary ix w c c' strip_same(8) [OF c'(2)] strip_same(8) [OF c'(3)]
      by (simp add: fit_typed_def operand_ok_def)
  next
    case mux
    then have nu: "opType a \<notin> unary_ops" "opType a \<notin> binary_ops" by (simp_all add: unary_ops_def binary_ops_def)
    with mux assms(3) None obtain q c d where c: "cs = [q, Some c, Some d]" "operand_ok c" "operand_ok d"
      by (auto simp: shape_ok_def case_operands)
    with rel obtain q' c' d' where c': "ds = [q', Some c', Some d']" "strip c' = strip c" "strip d' = strip d"
      by (auto simp: list_all2_Cons1 option_rel_Some1)
    show ?thesis using None mux nu ix w c c' hf ar(3) [OF mux c(1)] strip_same [OF c'(2)] strip_same [OF c'(3)]
      by (simp add: fit_typed_def)
  next
    case other
    then show ?thesis using None ix w hf by (simp add: fit_typed_def)
  qed
qed

lemma annotated_fit:
  "annotated N e \<Longrightarrow> fir_typed e \<Longrightarrow> fir_shape e \<Longrightarrow> updateHeadTail e = Some e' \<Longrightarrow> fit_ok N e'"
proof (induction e arbitrary: e')
  case (ENode a cs)
  from ENode.prems(4) obtain b ds where b: "head_tail_attr a cs = Some b" and
    ds: "those (map (child_map updateHeadTail) cs) = Some ds" "e' = ENode b ds"
    by (auto split: bind_splits)
  from ds(1) have rel: "list_all2 (rel_option (\<lambda>e e'. updateHeadTail e = Some e')) cs ds"
    by (simp add: those_map_Some child_map_Some)
  have "fit_ok N x" if "d \<in> set ds" "x \<in> set_option d" for d x
  proof -
    from list_all2_children [OF rel that] obtain c y where c: "c \<in> set cs" "y \<in> set_option c"
      "updateHeadTail y = Some x" by blast
    with ENode.prems(1-3) have "annotated N y" "fir_typed y" "fir_shape y" by auto
    from ENode.IH [OF c(1,2) this c(3)] show ?thesis .
  qed
  moreover have "list_all2 (rel_option (\<lambda>e e'. strip e' = strip e)) cs ds"
    using rel by (rule list_all2_mono) (auto elim!: option.rel_mono_strong dest: updateHeadTail_strip)
  with fit_typed_annotated [OF _ _ _ b] ENode.prems(1-3) have "fit_typed N b ds" by auto
  ultimately show ?case using ds(2) by auto
qed

text \<open>One tree from inference to the end of the pass.\<close>

definition fir_ok :: "bool \<Rightarrow> enode \<Rightarrow> bool" where
  "fir_ok s e \<longleftrightarrow> fir_typed e \<and> fir_shape e \<and> lits_ok e \<and> match_ok s e"

lemma head_tail_tree_ok:
  assumes "annotated N e" "fir_ok s e" "env_ok N E" "firHeadTail E"
  shows "\<exists>e'. updateHeadTail e = Some e' \<and> tree_ok N s e' \<and> eval (E\<lparr>firHeadTail := False\<rparr>) e' = fireval E e"
proof -
  from assms(2) have ok: "fir_typed e" "fir_shape e" "lits_ok e" "match_ok s e" by (simp_all add: fir_ok_def)
  from updateHeadTail_total [OF assms(1) ok(1)] obtain e' where e': "updateHeadTail e = Some e'" by blast
  note st = strip_same [OF updateHeadTail_strip [OF e']]
  have "tree_ok N s e'" using annotated_fit [OF assms(1) ok(1,2) e'] ok(3,4) st by (simp add: tree_ok_def)
  moreover have "eval (E\<lparr>firHeadTail := False\<rparr>) e' = fireval E e"
    using updateHeadTail_eval [OF assms(3,4,1) ok(1) e'] annotated_exact [OF assms(3,4,1) ok(1)] by simp
  ultimately show ?thesis using e' by blast
qed

end
