(* ===== verification/InferTyped.thy ===== *)
theory InferTyped
  imports InferFit
begin

section \<open>The types of a circuit\<close>

text \<open>
  The typing rules of FIRRTL for the expressions of the graph, stated as relations and
  independently of the code that infers widths: which type (width, sign and whether it is a clock)
  an operation has for operands of given types, and when a tree, given the types \<open>G\<close> of the nodes, is
  well typed.  On well-typed trees \<^verbatim>\<open>ENode::inferWidth\<close> passes all its checks and writes exactly these
  types into the tree.
\<close>

type_synonym wtype = "int \<times> bool \<times> bool"

definition type_in :: "heap \<Rightarrow> nodeid \<Rightarrow> wtype" where
  "type_in N n = (nwidth (N n), nsign (N n), nisClock (N n))"

text \<open>
  The result of an operation.  \<open>ws\<close> are the widths and signs of its operands.  Three rules follow the
  program rather than the specification: a shift to the right of a signed value has to leave
  a bit, a dynamic shift to the left is bounded by the range of an \<^verbatim>\<open>int\<close>, and an index has no width
  (-1).
\<close>

inductive op_type :: "(nodeid \<Rightarrow> wtype) \<Rightarrow> eattr \<Rightarrow> wsign option list \<Rightarrow> wsign \<Rightarrow> bool" for G a where
  sum: "opType a \<in> {OP_ADD, OP_SUB} \<Longrightarrow> op_type G a [Some (w0, s), Some (w1, s)] (max w0 w1 + 1, s)"
| product: "opType a = OP_MUL \<Longrightarrow> op_type G a [Some (w0, s), Some (w1, s)] (w0 + w1, s)"
| quotient: "opType a = OP_DIV \<Longrightarrow> op_type G a [Some (w0, s), Some (w1, s)] (if s then w0 + 1 else w0, s)"
| remainder: "opType a = OP_REM \<Longrightarrow> op_type G a [Some (w0, s), Some (w1, s)] (min w0 w1, s)"
| compare: "opType a \<in> {OP_LT, OP_LEQ, OP_GT, OP_GEQ, OP_EQ, OP_NEQ} \<Longrightarrow>
    op_type G a [Some (w0, s), Some (w1, s)] (1, False)"
| dshl: "opType a = OP_DSHL \<Longrightarrow> 0 \<le> w1 \<Longrightarrow> w1 \<le> 30 \<Longrightarrow>
    op_type G a [Some (w0, s), Some (w1, False)] (w0 + 2 ^ nat w1 - 1, s)"
| dshr: "opType a = OP_DSHR \<Longrightarrow> op_type G a [Some (w0, s), Some (w1, False)] (w0, s)"
| bitwise: "opType a \<in> {OP_AND, OP_OR, OP_XOR} \<Longrightarrow> op_type G a [Some (w0, s), Some (w1, s)] (max w0 w1, False)"
| cat: "opType a = OP_CAT \<Longrightarrow> op_type G a [Some (w0, s), Some (w1, s)] (w0 + w1, False)"
| asUInt: "opType a \<in> {OP_ASUINT, OP_NOT} \<Longrightarrow> op_type G a [Some (w0, s)] (w0, False)"
| asSInt: "opType a = OP_ASSINT \<Longrightarrow> op_type G a [Some (w0, s)] (w0, True)"
| one_bit: "opType a \<in> {OP_ASCLOCK, OP_ASASYNCRESET, OP_ANDR, OP_ORR, OP_XORR} \<Longrightarrow>
    op_type G a [Some (w0, s)] (1, False)"
| cvt: "opType a = OP_CVT \<Longrightarrow> op_type G a [Some (w0, s)] (if s then w0 else w0 + 1, True)"
| neg: "opType a = OP_NEG \<Longrightarrow> op_type G a [Some (w0, s)] (w0 + 1, True)"
| pad: "opType a = OP_PAD \<Longrightarrow> evalues a = [n] \<Longrightarrow> op_type G a [Some (w0, s)] (max w0 n, s)"
| shl: "opType a = OP_SHL \<Longrightarrow> evalues a = [n] \<Longrightarrow> op_type G a [Some (w0, s)] (w0 + n, s)"
| shr_unsigned: "opType a = OP_SHR \<Longrightarrow> evalues a = [n] \<Longrightarrow> op_type G a [Some (w0, False)] (max (w0 - n) 0, False)"
| shr_signed: "opType a = OP_SHR \<Longrightarrow> evalues a = [n] \<Longrightarrow> n < w0 \<Longrightarrow> op_type G a [Some (w0, True)] (w0 - n, True)"
| head: "opType a = OP_HEAD \<Longrightarrow> evalues a = [n] \<Longrightarrow> op_type G a [Some (w0, s)] (n, False)"
| tail: "opType a = OP_TAIL \<Longrightarrow> evalues a = [n] \<Longrightarrow> n \<le> w0 \<Longrightarrow> op_type G a [Some (w0, s)] (w0 - n, False)"
| bits: "opType a = OP_BITS \<Longrightarrow> evalues a = [hi, lo] \<Longrightarrow> op_type G a [Some (w0, s)] (hi - lo + 1, False)"
| bits_noshift: "opType a = OP_BITS_NOSHIFT \<Longrightarrow> evalues a = [hi, lo] \<Longrightarrow> op_type G a [Some (w0, s)] (hi + 1, False)"
| mux: "opType a \<in> {OP_MUX, OP_WHEN} \<Longrightarrow> op_type G a [c, Some (w1, s), Some (w2, s)] (max w1 w2, s)"
| when_only: "opType a = OP_WHEN \<Longrightarrow> op_type G a [c, Some (w, s), None] (w, s)"
| when_else: "opType a = OP_WHEN \<Longrightarrow> op_type G a [c, None, Some (w, s)] (w, s)"
| literal: "opType a = OP_INT \<Longrightarrow> 0 \<le> width a \<Longrightarrow> op_type G a ws (width a, sign a)"
| group: "opType a = OP_GROUP \<Longrightarrow> ps \<noteq> [] \<Longrightarrow> \<forall>p \<in> set ps. 0 \<le> fst p \<and> snd p = s \<Longrightarrow>
    op_type G a (map Some ps) (Max (fst ` set ps), s)"
| read_mem: "opType a = OP_READ_MEM \<Longrightarrow> memoryNode a = Some m \<Longrightarrow> G m = (w, s, c) \<Longrightarrow> op_type G a ws (w, s)"
| write_mem: "opType a = OP_WRITE_MEM \<Longrightarrow> op_type G a (c # Some (w, s) # ws) (w, s)"
| invalid: "opType a = OP_INVALID \<Longrightarrow> op_type G a ws (0, False)"
| reset: "opType a = OP_RESET \<Longrightarrow> op_type G a (c # Some (w, False) # ws) (w, False)"
| effect: "opType a \<in> {OP_PRINTF, OP_ASSERT, OP_EXIT, OP_EXT_FUNC} \<Longrightarrow> op_type G a ws (1, False)"
| index: "opType a \<in> {OP_INDEX, OP_INDEX_INT} \<Longrightarrow> op_type G a ws (-1, sign a)"

text \<open>\<open>typed_as G e e'\<close>: the tree is well typed, and \<open>e'\<close> is the tree with the types of all its nodes.\<close>

inductive typed_as :: "(nodeid \<Rightarrow> wtype) \<Rightarrow> enode \<Rightarrow> enode \<Rightarrow> bool" for G where
  reference: "nodePtr a = Some n \<Longrightarrow> G n = (w, s, c) \<Longrightarrow> list_all2 (rel_option (typed_as G)) cs ds \<Longrightarrow>
    typed_as G (ENode a cs) (ENode (a\<lparr>width := w, sign := s, isClock := c\<rparr>) ds)"
| operation: "nodePtr a = None \<Longrightarrow> list_all2 (rel_option (typed_as G)) cs ds \<Longrightarrow> op_type G a (annots ds) (w, s) \<Longrightarrow>
    typed_as G (ENode a cs) (ENode (a\<lparr>width := w, sign := s, isClock := (opType a = OP_ASCLOCK)\<rparr>) ds)"
monos list_all2_mono option.rel_mono_strong

text \<open>The nodes and memories whose width a tree reads.\<close>

fun type_reads :: "enode \<Rightarrow> nodeid set" where
  "type_reads (ENode a cs) =
     set_option (nodePtr a) \<union> set_option (memoryNode a) \<union> (\<Union>c \<in> set cs. \<Union>e \<in> set_option c. type_reads e)"

definition agrees :: "(nodeid \<Rightarrow> wtype) \<Rightarrow> heap \<Rightarrow> nodeid set \<Rightarrow> bool" where
  "agrees G N A \<longleftrightarrow> (\<forall>n \<in> A. type_in N n = G n)"

lemma agrees_mono: "agrees G N A \<Longrightarrow> B \<subseteq> A \<Longrightarrow> agrees G N B"
  by (auto simp: agrees_def)

lemma type_reads_child: "c \<in> set cs \<Longrightarrow> e \<in> set_option c \<Longrightarrow> type_reads e \<subseteq> type_reads (ENode a cs)"
  by auto

section \<open>Inference finds the types\<close>

lemma infer_group_max:
  "\<forall>p \<in> set ps. snd p = s \<Longrightarrow> ps \<noteq> [] \<Longrightarrow> infer_group (w0, s0) (map Some ps) = Some (Max (insert w0 (fst ` set ps)), s)"
proof (induction ps arbitrary: w0 s0)
  case (Cons p ps)
  obtain w where p: "p = (w, s)" using Cons.prems(1) by (cases p) auto
  show ?case
  proof (cases "ps = []")
    case False
    then have "infer_group (max w0 w, s) (map Some ps) = Some (Max (insert (max w0 w) (fst ` set ps)), s)"
      using Cons by simp
    moreover have "Max (insert (max w0 w) (fst ` set ps)) = Max (insert w0 (insert w (fst ` set ps)))"
      using False by (simp add: max.assoc)
    ultimately show ?thesis by (simp add: p)
  qed (simp add: p max.commute)
qed simp

lemma op_type_infer_plain:
  assumes t: "op_type G a ws (w, s)" and ag: "agrees G N (set_option (memoryNode a))"
    and op: "opType a \<notin> {OP_INT, OP_GROUP, OP_INDEX, OP_INDEX_INT}"
  shows "infer_width_op N a ws = Some (w, s)"
  using t
proof cases
  case (read_mem m c)
  then show ?thesis using ag by (simp add: infer_width_op_def agrees_def type_in_def)
qed (use op in \<open>(elim insertE emptyE)?; simp add: infer_width_op_def infer_prim_def infer_width1_def infer_width2_def infer_mux_def
      shl_one_def assert_that_bind\<close>)+

lemma infer_width_op_unannotated:
  assumes "opType a \<notin> {OP_INT, OP_GROUP, OP_INDEX, OP_INDEX_INT}"
    "opType b = opType a" "evalues b = evalues a" "memoryNode b = memoryNode a"
  shows "infer_width_op N b ws = infer_width_op N a ws"
  using assms by (cases "opType a") (simp_all add: infer_width_op_def)

lemma op_type_leaf:
  "op_type G a ws (w, s) \<Longrightarrow> opType a = OP_INT \<Longrightarrow> w = width a \<and> s = sign a \<and> 0 \<le> w"
  "op_type G a ws (w, s) \<Longrightarrow> opType a = OP_INDEX \<Longrightarrow> w = -1 \<and> s = sign a"
  "op_type G a ws (w, s) \<Longrightarrow> opType a = OP_INDEX_INT \<Longrightarrow> w = -1 \<and> s = sign a"
  by (erule op_type.cases; simp)+

lemma op_type_infer:
  assumes t: "op_type G a ws (w, s)" and ag: "agrees G N (set_option (memoryNode a))"
  shows "infer_width_op N (if opType a \<noteq> OP_INT then a\<lparr>width := -1\<rparr> else a) ws = Some (w, s)"
    and "infer_width_op N (a\<lparr>width := w, sign := s, isClock := k\<rparr>) ws = Some (w, s)"
proof -
  let ?a = "if opType a \<noteq> OP_INT then a\<lparr>width := -1\<rparr> else a" and ?b = "a\<lparr>width := w, sign := s, isClock := k\<rparr>"
  consider "opType a = OP_GROUP" | "opType a \<in> {OP_INT, OP_INDEX, OP_INDEX_INT}"
    | "opType a \<notin> {OP_INT, OP_GROUP, OP_INDEX, OP_INDEX_INT}" by blast
  then have "infer_width_op N ?a ws = Some (w, s) \<and> infer_width_op N ?b ws = Some (w, s)"
  proof cases
    case 1
    from t obtain ps where p: "ws = map Some ps" "ps \<noteq> []" "\<forall>p \<in> set ps. 0 \<le> fst p \<and> snd p = s" "w = Max (fst ` set ps)"
      by cases (use 1 in simp_all)
    have "w \<in> fst ` set ps" unfolding p(4) using p(2) by (intro Max_in) simp_all
    then have "0 \<le> w" using p(3) by auto
    then have m: "Max (insert (-1) (fst ` set ps)) = w" "Max (insert w (fst ` set ps)) = w"
      using p(2) unfolding p(4) by (simp_all del: image_insert)
    from p(3) have "\<forall>p \<in> set ps. snd p = s" by blast
    from infer_group_max [OF this p(2)] show ?thesis using 1 by (simp add: infer_width_op_def p(1) m)
  next
    case 2
    then show ?thesis using op_type_leaf [OF t] by (elim insertE emptyE) (simp_all add: infer_width_op_def)
  next
    case 3
    show ?thesis using op_type_infer_plain [OF t ag 3] 
      using infer_width_op_unannotated [OF 3, of ?a] infer_width_op_unannotated [OF 3, of ?b] by (simp split: if_split)
  qed
  then show "infer_width_op N ?a ws = Some (w, s)" "infer_width_op N ?b ws = Some (w, s)" by blast+
qed

lemma those_child_map:
  assumes "list_all2 (rel_option (\<lambda>x y. f x = Some y)) cs ds"
  shows "those (map (child_map f) cs) = Some ds"
  using assms by (simp add: those_map_Some child_map_Some)

lemma list_all2_refl_right:
  assumes "list_all2 (rel_option R) cs ds" "\<And>x y. R x y \<Longrightarrow> S y y"
  shows "list_all2 (rel_option S) ds ds"
  using assms by (induction rule: list_all2_induct) (auto simp: rel_option_iff split: option.splits)

text \<open>
  The induction that both directions need: children that are inferred to their typed versions,
  and typed versions that stay.
\<close>

definition infers :: "heap \<Rightarrow> enode \<Rightarrow> enode \<Rightarrow> bool" where
  "infers N e e' \<longleftrightarrow> inferWidth N (clearWidth e) = Some e' \<and> inferWidth N e' = Some e'"

lemma infers_children:
  assumes "list_all2 (rel_option (infers N)) cs ds"
  shows "those (map (child_map (inferWidth N)) (map (map_option clearWidth) cs)) = Some ds"
    "those (map (child_map (inferWidth N)) ds) = Some ds"
proof -
  have "list_all2 (rel_option (\<lambda>x y. inferWidth N x = Some y)) (map (map_option clearWidth) cs) ds"
    unfolding list.rel_map using assms
    by (rule list_all2_mono) (auto simp: rel_option_iff infers_def split: option.splits)
  then show "those (map (child_map (inferWidth N)) (map (map_option clearWidth) cs)) = Some ds"
    by (rule those_child_map)
  have "list_all2 (rel_option (\<lambda>x y. inferWidth N x = Some y)) ds ds"
    using assms by (rule list_all2_refl_right) (simp add: infers_def)
  then show "those (map (child_map (inferWidth N)) ds) = Some ds" by (rule those_child_map)
qed

lemma children_agree:
  assumes "list_all2 (rel_option (\<lambda>x y. typed_as G x y \<and> (agrees G N (type_reads x) \<longrightarrow> infers N x y))) cs ds"
    "agrees G N (type_reads (ENode a cs))"
  shows "list_all2 (rel_option (infers N)) cs ds"
proof (rule list.rel_mono_strong [OF assms(1)])
  fix c d assume c: "c \<in> set cs" and "rel_option (\<lambda>x y. typed_as G x y \<and> (agrees G N (type_reads x) \<longrightarrow> infers N x y)) c d"
  moreover have "agrees G N (type_reads x)" if "c = Some x" for x
    using agrees_mono [OF assms(2) type_reads_child [OF c]] that by simp
  ultimately show "rel_option (infers N) c d" by (auto simp: rel_option_iff split: option.splits)
qed

lemma typed_infers: "typed_as G e e' \<Longrightarrow> agrees G N (type_reads e) \<Longrightarrow> infers N e e'"
proof (induction rule: typed_as.induct)
  case (reference a n w s c cs ds)
  have k: "those (map (child_map (inferWidth N)) (map (map_option clearWidth) cs)) = Some ds"
    "those (map (child_map (inferWidth N)) ds) = Some ds"
    using infers_children [OF children_agree [OF reference.IH reference.prems]] by blast+
  have "type_in N n = (w, s, c)" using reference.hyps reference.prems by (simp add: agrees_def)
  then show ?case using reference.hyps k by (simp add: infers_def type_in_def)
next
  case (operation a cs ds w s)
  have k: "those (map (child_map (inferWidth N)) (map (map_option clearWidth) cs)) = Some ds"
    "those (map (child_map (inferWidth N)) ds) = Some ds"
    using infers_children [OF children_agree [OF operation.IH operation.prems]] by blast+
  have "agrees G N (set_option (memoryNode a))" using operation.prems by (auto simp: agrees_def)
  note i = op_type_infer [OF operation.hyps(2) this]
  show ?case using operation.hyps(1) k i by (auto simp: infers_def)
qed

lemma typed_annotated: "typed_as G e e' \<Longrightarrow> agrees G N (type_reads e) \<Longrightarrow> annotated N e'"
  using typed_infers inferWidth_annotated by (fastforce simp: infers_def)

end
