(* ===== verification/InferAll.thy ===== *)
theory InferAll
  imports InferTyped
begin

section \<open>Width inference of the whole graph\<close>

text \<open>
  \<^verbatim>\<open>Node::clearWidth\<close>, \<^verbatim>\<open>Node::inferWidth\<close> and \<^verbatim>\<open>graph::inferAllWidth\<close> of
  \<^verbatim>\<open>src/inferWidth.cpp\<close>: a work list in topological order that gives every node without a
  declared width the width of its trees.  The claim here is that one visit per node is enough when
  registers and memories have declared widths; then the end of the pass, from inferred trees
  to trees of the width of their nodes.  \<open>InferCircuit\<close> puts both together.
\<close>

subsection \<open>One node\<close>

definition clear_tree :: "exptree \<Rightarrow> exptree" where
  "clear_tree t = t\<lparr>root := clearWidth (root t), lvalue := clearWidth (lvalue t)\<rparr>"

definition clear_node :: "node \<Rightarrow> node" where
  "clear_node nd =
     nd\<lparr>assignTree := map clear_tree (assignTree nd),
        resetTree := map_option (\<lambda>t. t\<lparr>root := clearWidth (root t)\<rparr>) (resetTree nd)\<rparr>"

definition infer_root :: "heap \<Rightarrow> exptree \<Rightarrow> exptree abortable" where
  "infer_root N t = map_option (\<lambda>r. t\<lparr>root := r\<rparr>) (inferWidth N (root t))"

definition infer_lval :: "heap \<Rightarrow> exptree \<Rightarrow> exptree abortable" where
  "infer_lval N t = map_option (\<lambda>l. t\<lparr>lvalue := l\<rparr>) (inferWidth N (lvalue t))"

definition infer_reset :: "heap \<Rightarrow> exptree option \<Rightarrow> exptree option abortable" where
  "infer_reset N r = (case r of None \<Rightarrow> Some None | Some t \<Rightarrow> map_option Some (infer_root N t))"

text \<open>Width, sign and clock of a node without a declared width.\<close>

definition reset_type :: "node \<Rightarrow> exptree option \<Rightarrow> int \<times> bool" where
  "reset_type nd r =
     (case r of
        Some t \<Rightarrow> if ntype nd = NODE_REG_SRC then (max 0 (e_width (root t)), e_sign (root t)) else (0, nsign nd)
      | None \<Rightarrow> (0, nsign nd))"

fun trees_type :: "int \<Rightarrow> bool \<Rightarrow> bool \<Rightarrow> exptree list \<Rightarrow> int \<times> bool \<times> bool" where
  "trees_type w s c [] = (w, s, c)"
| "trees_type w s c (t # ts) =
     trees_type (max w (e_width (root t))) (e_sign (root t)) (c \<or> isClock (attr (root t))) ts"

definition inferred_type :: "node \<Rightarrow> exptree option \<Rightarrow> exptree list \<Rightarrow> int \<times> bool \<times> bool" where
  "inferred_type nd r ts = (case reset_type nd r of (w, s) \<Rightarrow> trees_type w s (nisClock nd) ts)"

definition set_type :: "int \<times> bool \<times> bool \<Rightarrow> node \<Rightarrow> node" where
  "set_type ty nd = (case ty of (w, s, c) \<Rightarrow> nd\<lparr>nwidth := w, nsign := s, nisClock := c\<rparr>)"

definition infer_node :: "nodeid \<Rightarrow> heap \<Rightarrow> heap abortable" where
  "infer_node n h =
     (if ntype (h n) = NODE_INVALID then Some h
      else
        do { r \<leftarrow> infer_reset h (resetTree (h n));
             ts \<leftarrow> those (map (infer_root h) (assignTree (h n)));
             let nd = (h n)\<lparr>resetTree := r, assignTree := ts\<rparr>;
             let nd1 = (if nwidth nd = -1 then set_type (inferred_type nd r ts) nd else nd);
             let h1 = h(n := nd1);
             ts1 \<leftarrow> those (map (infer_lval h1) ts);
             Some (h(n := nd1\<lparr>assignTree := ts1\<rparr>)) })"

subsection \<open>The work list\<close>

text \<open>
  The priority queue is the list of its elements and its top is the element of least \<^verbatim>\<open>order\<close>; the
  orders of two nodes differ, so the top is determined.
\<close>

record istate =
  iheap :: heap
  reinferNodes :: "nodeid list"
  uniqueNodes :: "nodeid set"

definition queue_top :: "istate \<Rightarrow> nodeid" where
  "queue_top st = arg_min_list (\<lambda>n. order (iheap st n)) (reinferNodes st)"

definition queue_pop :: "istate \<Rightarrow> istate" where
  "queue_pop st =
     st\<lparr>reinferNodes := remove1 (queue_top st) (reinferNodes st),
        uniqueNodes := uniqueNodes st - {queue_top st}\<rparr>"

definition addRecompute :: "nodeid \<Rightarrow> istate \<Rightarrow> istate" where
  "addRecompute n st =
     (if n \<in> uniqueNodes st then st
      else st\<lparr>reinferNodes := n # reinferNodes st, uniqueNodes := insert n (uniqueNodes st)\<rparr>)"

definition addRecomputeNext :: "nodeid \<Rightarrow> istate \<Rightarrow> istate" where
  "addRecomputeNext n st = fold addRecompute (sorted_list_of_set (next (iheap st n))) st"

definition put_width :: "nodeid \<Rightarrow> int \<Rightarrow> istate \<Rightarrow> istate" where
  "put_width n w st = st\<lparr>iheap := (iheap st)(n := (iheap st n)\<lparr>nwidth := w\<rparr>)\<rparr>"

text \<open>Visiting a node: forget an inferred width, clear the trees, infer them again.\<close>

definition forget :: "nodeid set \<Rightarrow> nodeid \<Rightarrow> node \<Rightarrow> node" where
  "forget fixedWidth n nd = clear_node (if n \<in> fixedWidth then nd else nd\<lparr>nwidth := -1\<rparr>)"

definition visit :: "nodeid set \<Rightarrow> nodeid \<Rightarrow> heap \<Rightarrow> heap abortable" where
  "visit fixedWidth n h = infer_node n (h(n := forget fixedWidth n (h n)))"

definition width_changed :: "nodeid \<Rightarrow> int \<Rightarrow> istate \<Rightarrow> istate abortable" where
  "width_changed n prevWidth st =
     (if prevWidth \<noteq> nwidth (iheap st n)
      then (let st1 = addRecomputeNext n st in
            if ntype (iheap st1 n) = NODE_REG_DST
            then do { s \<leftarrow> getSrc (iheap st1) n; Some (addRecompute s st1) }
            else Some st1)
      else Some st)"

definition widen_memory :: "nodeid \<Rightarrow> istate \<Rightarrow> istate abortable" where
  "widen_memory n st =
     (if ntype (iheap st n) = NODE_WRITER
      then do { p \<leftarrow> parent (iheap st n);
                if nwidth (iheap st n) > nwidth (iheap st p)
                then Some (fold (\<lambda>q s. if ntype (iheap s q) = NODE_READER then addRecompute q s else s)
                             (member (iheap st p)) (put_width p (nwidth (iheap st n)) st))
                else Some st }
      else Some st)"

text \<open>The check of the registers when the queue has run empty: both halves get the larger width.\<close>

definition sync_reg :: "nodeid \<Rightarrow> istate \<Rightarrow> istate abortable" where
  "sync_reg n st =
     (if ntype (iheap st n) \<noteq> NODE_REG_SRC then Some st
      else
        do { d \<leftarrow> getDst (iheap st) n;
             let srcWidth = nwidth (iheap st n);
             let dstWidth = nwidth (iheap st d);
             let st1 = (if srcWidth > dstWidth then put_width d srcWidth st
                        else if dstWidth > srcWidth then put_width n dstWidth st else st);
             let st2 = (if srcWidth \<noteq> nwidth (iheap st1 n) then addRecomputeNext n st1 else st1);
             Some (if dstWidth \<noteq> nwidth (iheap st2 d) then addRecomputeNext d st2 else st2) })"

definition infer_step :: "nodeid list \<Rightarrow> nodeid set \<Rightarrow> istate \<Rightarrow> istate abortable" where
  "infer_step members fixedWidth st =
     do { let n = queue_top st;
          let st1 = queue_pop st;
          let prevWidth = nwidth (iheap st1 n);
          h \<leftarrow> visit fixedWidth n (iheap st1);
          st2 \<leftarrow> width_changed n prevWidth (st1\<lparr>iheap := h\<rparr>);
          st3 \<leftarrow> widen_memory n st2;
          if reinferNodes st3 = [] then fold_abort sync_reg members st3 else Some st3 }"

partial_function (option) infer_loop :: "nodeid list \<Rightarrow> nodeid set \<Rightarrow> istate \<Rightarrow> istate option" where
  "infer_loop members fixedWidth st =
     (if reinferNodes st = [] then Some st
      else Option.bind (infer_step members fixedWidth st) (infer_loop members fixedWidth))"

subsection \<open>graph::inferAllWidth\<close>

definition declared :: "graph \<Rightarrow> nodeid set" where
  "declared g = {n \<in> set (all_members g). nwidth (nodes g n) \<noteq> -1}"

definition infer_start :: "graph \<Rightarrow> istate" where
  "infer_start g =
     \<lparr>iheap = nodes g, reinferNodes = rev (all_members g), uniqueNodes = set (all_members g)\<rparr>"

definition head_tail_tree :: "exptree \<Rightarrow> exptree abortable" where
  "head_tail_tree t = map_option (\<lambda>r. t\<lparr>root := r\<rparr>) (updateHeadTail (root t))"

definition updateHeadTail_node :: "nodeid \<Rightarrow> heap \<Rightarrow> heap abortable" where
  "updateHeadTail_node n h =
     do { ts \<leftarrow> those (map head_tail_tree (assignTree (h n)));
          r \<leftarrow> (case resetTree (h n) of None \<Rightarrow> Some None | Some t \<Rightarrow> map_option Some (head_tail_tree t));
          Some (h(n := (h n)\<lparr>assignTree := ts, resetTree := r\<rparr>)) }"

definition finish_node :: "nodeid \<Rightarrow> heap \<Rightarrow> heap abortable" where
  "finish_node n h =
     do { r \<leftarrow> infer_reset h (resetTree (h n));
          h1 \<leftarrow> updateHeadTail_node n (h(n := (h n)\<lparr>resetTree := r\<rparr>));
          updateTreeWithNewWIdth n h1 }"

definition inferAllWidth :: "graph \<Rightarrow> graph abortable" where
  "inferAllWidth g =
     do { st \<leftarrow> infer_loop (all_members g) (declared g) (infer_start g);
          h \<leftarrow> fold_abort finish_node (all_members g) (iheap st);
          Some (g\<lparr>nodes := h\<rparr>) }"

section \<open>One visit per node is enough\<close>

text \<open>
  Circuits as a front end with explicit types delivers them: registers, memories and their
  writers have declared widths, and a node without one is only read by nodes later in the
  topological order.
\<close>

definition reg_declared :: "heap \<Rightarrow> nodeid \<Rightarrow> bool" where
  "reg_declared N n \<longleftrightarrow>
     (ntype (N n) = NODE_REG_DST \<longrightarrow> nwidth (N n) \<noteq> -1) \<and>
     (ntype (N n) = NODE_REG_SRC \<longrightarrow>
        nwidth (N n) \<noteq> -1 \<and> (\<exists>d. regNext (N n) = Some d \<and> nwidth (N d) = nwidth (N n)))"

definition writer_declared :: "heap \<Rightarrow> nodeid \<Rightarrow> bool" where
  "writer_declared N n \<longleftrightarrow>
     (ntype (N n) = NODE_WRITER \<longrightarrow>
        0 \<le> nwidth (N n) \<and> (\<exists>p. parent (N n) = Some p \<and> nwidth (N n) \<le> nwidth (N p)))"

definition infer_ready :: "graph \<Rightarrow> bool" where
  "infer_ready g \<longleftrightarrow>
     distinct (all_members g) \<and> inj_on (\<lambda>n. order (nodes g n)) (set (all_members g)) \<and>
     (\<forall>n \<in> set (all_members g).
        reg_declared (nodes g) n \<and> writer_declared (nodes g) n \<and> finite (next (nodes g n)) \<and>
        (nwidth (nodes g n) = -1 \<longrightarrow>
           (\<forall>m \<in> next (nodes g n). m \<in> set (all_members g) \<and> order (nodes g n) < order (nodes g m))))"

text \<open>What a visit changes: types and trees of one node, and no declared width.\<close>

definition retyped :: "node \<Rightarrow> node \<Rightarrow> bool" where
  "retyped a b \<longleftrightarrow> (\<exists>r ts w s c. b = a\<lparr>resetTree := r, assignTree := ts, nwidth := w, nsign := s, nisClock := c\<rparr>)"

lemma retyped_fields:
  assumes "retyped a b"
  shows "ntype b = ntype a" "next b = next a" "order b = order a" "parent b = parent a"
    "regNext b = regNext a" "member b = member a"
  using assms by (auto simp: retyped_def)

lemma retypedI:
  "b = a\<lparr>resetTree := resetTree b, assignTree := assignTree b, nwidth := nwidth b, nsign := nsign b,
     nisClock := nisClock b\<rparr> \<Longrightarrow> retyped a b"
  unfolding retyped_def by blast

lemma retyped_refl [simp, intro]: "retyped a a"
  by (rule retypedI) simp

lemma retyped_trans [trans]: "retyped a b \<Longrightarrow> retyped b c \<Longrightarrow> retyped a c"
  by (fastforce simp: retyped_def)

definition keeps_type :: "node \<Rightarrow> node \<Rightarrow> bool" where
  "keeps_type a b \<longleftrightarrow> nwidth b = nwidth a \<and> nsign b = nsign a \<and> nisClock b = nisClock a"

lemma set_type_simps:
  "retyped a (set_type ty (a\<lparr>resetTree := r, assignTree := ts\<rparr>)\<lparr>assignTree := ts1\<rparr>)"
  by (rule retypedI) (simp add: set_type_def split: prod.splits)

lemma infer_node_effect:
  assumes "infer_node n h = Some h'"
  shows "h' = h(n := h' n)" "retyped (h n) (h' n)" "nwidth (h n) \<noteq> -1 \<Longrightarrow> keeps_type (h n) (h' n)"
proof -
  have *: "h' = h(n := h' n) \<and> retyped (h n) (h' n) \<and> (nwidth (h n) \<noteq> -1 \<longrightarrow> keeps_type (h n) (h' n))"
  proof (cases "ntype (h n) = NODE_INVALID")
    case True
    with assms show ?thesis by (simp add: infer_node_def keeps_type_def)
  next
    case False
    have "retyped (h n) ((h n)\<lparr>resetTree := r, assignTree := ts\<rparr>)" for r ts
      by (rule retypedI) simp
    with False assms show ?thesis
      by (auto simp: infer_node_def keeps_type_def set_type_simps Let_def split: bind_splits if_splits)
  qed
  then show "h' = h(n := h' n)" "retyped (h n) (h' n)" "nwidth (h n) \<noteq> -1 \<Longrightarrow> keeps_type (h n) (h' n)"
    by auto
qed

lemma forget_retyped: "retyped nd (forget F n nd)" "n \<in> F \<Longrightarrow> keeps_type nd (forget F n nd)"
  by (rule retypedI) (auto simp: forget_def clear_node_def keeps_type_def)

lemma visit_effect:
  assumes "visit F n h = Some h'"
  shows "h' = h(n := h' n)" "retyped (h n) (h' n)" "n \<in> F \<Longrightarrow> nwidth (h n) \<noteq> -1 \<Longrightarrow> keeps_type (h n) (h' n)"
proof -
  let ?h = "h(n := forget F n (h n))"
  have v: "infer_node n ?h = Some h'" using assms by (simp add: visit_def)
  have "h' = ?h(n := h' n)" by (rule infer_node_effect(1) [OF v])
  then show "h' = h(n := h' n)" by simp
  show "retyped (h n) (h' n)"
    using infer_node_effect(2) [OF v] forget_retyped(1) by (auto intro: retyped_trans)
  show "keeps_type (h n) (h' n)" if "n \<in> F" "nwidth (h n) \<noteq> -1"
    using infer_node_effect(3) [OF v] forget_retyped(2) [OF that(1), of "h n"] that(2)
    by (simp add: keeps_type_def)
qed

text \<open>The state while the queue shrinks: nothing but types and trees has changed.\<close>

definition typing_of :: "heap \<Rightarrow> heap \<Rightarrow> bool" where
  "typing_of N h \<longleftrightarrow>
     (\<forall>n. retyped (N n) (h n)) \<and> (\<forall>n. nwidth (N n) \<noteq> -1 \<longrightarrow> keeps_type (N n) (h n))"

lemma typing_of_visit:
  assumes "typing_of N h" "visit F n h = Some h'" "nwidth (N n) = -1 \<or> n \<in> F"
  shows "typing_of N h'"
proof -
  note eff = visit_effect [OF assms(2)]
  have same: "h' m = h m" if "m \<noteq> n" for m using eff(1) that by (metis fun_upd_other)
  have "retyped (N m) (h' m)" for m
    using assms(1) eff(2) same by (cases "m = n") (auto simp: typing_of_def intro: retyped_trans)
  moreover have "keeps_type (N m) (h' m)" if "nwidth (N m) \<noteq> -1" for m
    using assms that eff(3) same by (cases "m = n") (auto simp: typing_of_def keeps_type_def)
  ultimately show ?thesis by (simp add: typing_of_def)
qed

lemma typing_of_fields:
  assumes "typing_of N h"
  shows "ntype (h n) = ntype (N n)" "next (h n) = next (N n)" "order (h n) = order (N n)"
    "parent (h n) = parent (N n)" "regNext (h n) = regNext (N n)"
    and "nwidth (N n) \<noteq> -1 \<Longrightarrow> nwidth (h n) = nwidth (N n)"
  using assms retyped_fields [of "N n" "h n"] by (auto simp: typing_of_def keeps_type_def)

lemma addRecompute_known:
  "set ms \<subseteq> uniqueNodes st \<Longrightarrow> fold addRecompute ms st = st"
  by (induction ms) (auto simp: addRecompute_def)

lemma sync_reg_declared:
  assumes "typing_of N (iheap st)" "reg_declared N n"
  shows "sync_reg n st = Some st"
  using assms by (auto simp: sync_reg_def getDst_def reg_declared_def typing_of_fields Let_def)

lemma fold_abort_same: "(\<And>x. x \<in> set xs \<Longrightarrow> f x s = Some s) \<Longrightarrow> fold_abort f xs s = Some s"
  by (induction xs) auto

lemma widen_memory_declared:
  assumes "typing_of N (iheap st)" "writer_declared N n"
  shows "widen_memory n st = Some st"
  using assms by (auto simp: widen_memory_def writer_declared_def typing_of_fields)

lemma arg_min_list_first:
  assumes "set q = set (x # xs)" "distinct q" "\<forall>y \<in> set xs. f x < (f y :: int)"
  shows "arg_min_list f q = x"
proof -
  have ne: "q \<noteq> []" using assms(1) by auto
  have "arg_min_list f q \<in> set q" by (rule arg_min_list_in [OF ne])
  moreover have "f (arg_min_list f q) \<le> f x"
    using f_arg_min_list_f [OF ne, of f] assms(1) by (simp add: Min_le)
  ultimately show ?thesis using assms(1,3) by fastforce
qed

text \<open>One turn of the loop when the queue holds the nodes from \<open>x\<close> on.\<close>

definition queue_is :: "nodeid list \<Rightarrow> istate \<Rightarrow> bool" where
  "queue_is xs st \<longleftrightarrow> set (reinferNodes st) = set xs \<and> distinct (reinferNodes st) \<and> uniqueNodes st = set xs"

definition suffix_of_order :: "graph \<Rightarrow> nodeid list \<Rightarrow> bool" where
  "suffix_of_order g xs \<longleftrightarrow>
     set xs \<subseteq> set (all_members g) \<and> sorted_wrt (\<lambda>a b. order (nodes g a) < order (nodes g b)) xs \<and>
     (\<forall>x \<in> set xs. \<forall>m \<in> set (all_members g). order (nodes g x) < order (nodes g m) \<longrightarrow> m \<in> set xs)"

lemma queue_is_pop:
  assumes "queue_is (x # xs) st" "typing_of (nodes g) (iheap st)" "suffix_of_order g (x # xs)"
  shows "queue_top st = x" "queue_is xs (queue_pop st)" "iheap (queue_pop st) = iheap st"
proof -
  have "\<forall>y \<in> set xs. order (iheap st x) < order (iheap st y)"
    using assms by (auto simp: suffix_of_order_def typing_of_fields)
  then show top: "queue_top st = x"
    unfolding queue_top_def using assms(1) by (intro arg_min_list_first) (auto simp: queue_is_def)
  have "x \<notin> set xs" using assms(3) by (auto simp: suffix_of_order_def)
  with assms(1) top show "queue_is xs (queue_pop st)" "iheap (queue_pop st) = iheap st"
    by (auto simp: queue_is_def queue_pop_def)
qed

lemma infer_step_in_order:
  assumes "infer_ready g" "queue_is (x # xs) st" "typing_of (nodes g) (iheap st)" "suffix_of_order g (x # xs)"
  shows "infer_step (all_members g) (declared g) st
    = map_option (\<lambda>h. (queue_pop st)\<lparr>iheap := h\<rparr>) (visit (declared g) x (iheap st))"
proof (cases "visit (declared g) x (iheap st)")
  case None
  with queue_is_pop [OF assms(2-4)] show ?thesis by (simp add: infer_step_def)
next
  case (Some h)
  let ?st = "(queue_pop st)\<lparr>iheap := h\<rparr>"
  from assms(4) have x: "x \<in> set (all_members g)" by (simp add: suffix_of_order_def)
  then have decl: "nwidth (nodes g x) = -1 \<or> x \<in> declared g" by (auto simp: declared_def)
  note ty = typing_of_visit [OF assms(3) Some decl]
  from assms(1) x have ready: "reg_declared (nodes g) x" "writer_declared (nodes g) x" "finite (next (nodes g x))"
    "nwidth (nodes g x) = -1 \<Longrightarrow>
       (\<forall>m \<in> next (nodes g x). m \<in> set (all_members g) \<and> order (nodes g x) < order (nodes g m))"
    by (auto simp: infer_ready_def)
  have q: "queue_is xs ?st" using queue_is_pop(2) [OF assms(2-4)] by (simp add: queue_is_def)
  have "width_changed x (nwidth (iheap st x)) ?st = Some ?st"
  proof (cases "nwidth (nodes g x) = -1")
    case True
    have "m \<in> set xs" if "m \<in> next (nodes g x)" for m
      using ready(4) [OF True] that assms(4) by (auto simp: suffix_of_order_def)
    with q have "addRecomputeNext x ?st = ?st"
      using ready(3) by (auto simp: addRecomputeNext_def queue_is_def typing_of_fields [OF ty] intro!: addRecompute_known)
    moreover have "ntype (h x) \<noteq> NODE_REG_DST"
      using ready(1) True by (auto simp: reg_declared_def typing_of_fields [OF ty])
    ultimately show ?thesis by (simp add: width_changed_def)
  next
    case False
    with typing_of_fields(6) [OF ty] typing_of_fields(6) [OF assms(3)] show ?thesis
      by (simp add: width_changed_def)
  qed
  moreover have "widen_memory x ?st = Some ?st"
    using widen_memory_declared [of "nodes g" ?st x] ty ready(2) by simp
  moreover have "fold_abort sync_reg (all_members g) ?st = Some ?st"
    using assms(1) ty by (intro fold_abort_same sync_reg_declared [of "nodes g"]) (auto simp: infer_ready_def)
  ultimately show ?thesis
    using Some queue_is_pop [OF assms(2-4)] by (simp add: infer_step_def Let_def)
qed

lemma infer_loop_in_order:
  assumes "infer_ready g" "queue_is xs st" "typing_of (nodes g) (iheap st)" "suffix_of_order g xs"
  shows "map_option iheap (infer_loop (all_members g) (declared g) st) = fold_abort (visit (declared g)) xs (iheap st)"
  using assms(2-)
proof (induction xs arbitrary: st)
  case Nil
  then show ?case by (subst infer_loop.simps) (simp add: queue_is_def)
next
  case (Cons x xs)
  note step = infer_step_in_order [OF assms(1) Cons.prems]
  have ne: "reinferNodes st \<noteq> []" using Cons.prems(1) by (auto simp: queue_is_def)
  from Cons.prems(3) have x: "nwidth (nodes g x) = -1 \<or> x \<in> declared g"
    by (auto simp: suffix_of_order_def declared_def)
  have suf: "suffix_of_order g xs"
    using Cons.prems(3) by (auto simp: suffix_of_order_def dest: order_less_trans)
  show ?case
  proof (cases "visit (declared g) x (iheap st)")
    case None
    with step ne show ?thesis by (subst infer_loop.simps) simp
  next
    case (Some h)
    let ?st = "(queue_pop st)\<lparr>iheap := h\<rparr>"
    have "queue_is xs ?st" using queue_is_pop(2) [OF Cons.prems] by (simp add: queue_is_def)
    from Cons.IH [OF this _ suf] typing_of_visit [OF Cons.prems(2) Some x] step ne Some show ?thesis
      by (subst infer_loop.simps) simp
  qed
qed

definition in_order :: "graph \<Rightarrow> nodeid list" where
  "in_order g = sort_key (\<lambda>n. order (nodes g n)) (all_members g)"

lemma in_order_sorted:
  assumes "distinct xs" "inj_on f (set xs)"
  shows "sorted_wrt (\<lambda>a b. f a < (f b :: int)) (sort_key f xs)"
proof -
  have "sorted (map f (sort_key f xs))" "distinct (map f (sort_key f xs))"
    using assms by (auto simp: distinct_map)
  then have "sorted_wrt (<) (map f (sort_key f xs))" using strict_sorted_iff by blast
  then show ?thesis by (simp add: sorted_wrt_map)
qed

lemma infer_loop_one_pass:
  assumes "infer_ready g"
  shows "map_option iheap (infer_loop (all_members g) (declared g) (infer_start g))
    = fold_abort (visit (declared g)) (in_order g) (nodes g)"
proof -
  have "queue_is (in_order g) (infer_start g)" "suffix_of_order g (in_order g)"
    using assms in_order_sorted by (auto simp: queue_is_def infer_start_def infer_ready_def in_order_def suffix_of_order_def)
  moreover have "typing_of (nodes g) (iheap (infer_start g))"
    by (simp add: infer_start_def typing_of_def keeps_type_def)
  ultimately show ?thesis
    using infer_loop_in_order [OF assms, of "in_order g" "infer_start g"] by (simp add: infer_start_def)
qed

section \<open>Trees in another heap\<close>

text \<open>Inferred types stay right as long as the types of the nodes that a tree reads stay.\<close>

definition same_types :: "heap \<Rightarrow> heap \<Rightarrow> nodeid set \<Rightarrow> bool" where
  "same_types N N' A \<longleftrightarrow> (\<forall>n \<in> A. nwidth (N' n) = nwidth (N n) \<and> nsign (N' n) = nsign (N n))"

lemma annotated_cong: "annotated N e \<Longrightarrow> same_types N N' (type_reads e) \<Longrightarrow> annotated N' e"
proof (induction e)
  case (ENode a cs)
  have "infer_width_op N' a ws = infer_width_op N a ws" for ws
    using ENode.prems(2) by (cases "memoryNode a") (auto simp: same_types_def infer_width_op_def cong: OPType.case_cong)
  then have "annot_ok N' a cs"
    using ENode.prems by (auto simp: annot_ok_def same_types_def split: option.splits)
  moreover have "annotated N' x" if "c \<in> set cs" "x \<in> set_option c" for c x
    using ENode.IH [OF that] ENode.prems that by (fastforce simp: same_types_def)
  ultimately show ?case by auto
qed

lemma lval_roots:
  "those (map (infer_lval N) ts) = Some ts1 \<Longrightarrow> map root ts1 = map root ts"
  by (induction ts arbitrary: ts1) (auto simp: infer_lval_def split: option.splits)

lemma list_all2_right: "list_all2 R xs ys \<Longrightarrow> y \<in> set ys \<Longrightarrow> \<exists>x \<in> set xs. R x y"
  by (induction rule: list_all2_induct) auto

section \<open>The end of the pass\<close>

text \<open>Heaps that differ in the trees of their nodes only.\<close>

definition retreed :: "heap \<Rightarrow> heap \<Rightarrow> bool" where
  "retreed N h \<longleftrightarrow> (\<forall>n. \<exists>ts r. h n = (N n)\<lparr>assignTree := ts, resetTree := r\<rparr>)"

lemma retreed_types:
  assumes "retreed N h"
  shows "nwidth (h n) = nwidth (N n)" "nsign (h n) = nsign (N n)" "nisClock (h n) = nisClock (N n)"
    "ntype (h n) = ntype (N n)"
proof -
  obtain ts r where "h n = (N n)\<lparr>assignTree := ts, resetTree := r\<rparr>" using assms unfolding retreed_def by meson
  then show "nwidth (h n) = nwidth (N n)" "nsign (h n) = nsign (N n)" "nisClock (h n) = nisClock (N n)"
    "ntype (h n) = ntype (N n)" by simp_all
qed

lemma retreed_upd:
  assumes "retreed N h"
  shows "retreed N (h(n := (h n)\<lparr>assignTree := ts, resetTree := r\<rparr>))"
proof -
  obtain ts0 r0 where "h n = (N n)\<lparr>assignTree := ts0, resetTree := r0\<rparr>" using assms unfolding retreed_def by meson
  then have "(h n)\<lparr>assignTree := ts, resetTree := r\<rparr> = (N n)\<lparr>assignTree := ts, resetTree := r\<rparr>" by simp
  with assms show ?thesis unfolding retreed_def by (metis fun_upd_apply)
qed

lemma retreed_refl [simp, intro]: "retreed N N"
  unfolding retreed_def
  by (rule allI, rule_tac x = "assignTree (N n)" in exI, rule_tac x = "resetTree (N n)" in exI) simp

lemma retreed_infer: "retreed N h \<Longrightarrow> inferWidth h e = inferWidth N e"
proof (induction e)
  case (ENode a cs)
  have "map (child_map (inferWidth h)) cs = map (child_map (inferWidth N)) cs"
    using ENode by (intro map_cong child_map_cong) auto
  moreover have "infer_width_op h b ws = infer_width_op N b ws" for b ws
    using ENode.prems by (simp add: infer_width_op_def retreed_types cong: OPType.case_cong)
  ultimately show ?case using ENode.prems by (simp add: retreed_types del: map_eq_conv cong: option.case_cong)
qed

lemma retreed_annotated: "retreed N h \<Longrightarrow> annotated N e \<Longrightarrow> annotated h e"
  by (erule annotated_cong) (simp add: same_types_def retreed_types)

lemma retreed_env: "retreed N h \<Longrightarrow> env_ok N E \<Longrightarrow> env_ok h E"
  by (simp add: env_ok_def retreed_types)

lemma retreed_fit: "retreed N h \<Longrightarrow> fit_ok N e \<Longrightarrow> fit_ok h e"
proof (induction e)
  case (ENode a cs)
  have "fit_typed h a cs = fit_typed N a cs"
    using ENode.prems(1) by (simp add: fit_typed_def retreed_types cong: option.case_cong)
  with ENode show ?case by auto
qed

lemma retreed_tree_ok: "retreed N h \<Longrightarrow> tree_ok N s e \<Longrightarrow> tree_ok h s e"
  by (simp add: tree_ok_def retreed_fit)

text \<open>One node.\<close>

definition fir_node :: "heap \<Rightarrow> nodeid \<Rightarrow> bool" where
  "fir_node h n \<longleftrightarrow>
     (\<forall>e \<in> set (roots (h n)). fir_ok (nsign (h n)) e)
     \<and> (\<forall>t \<in> set_option (resetTree (h n)). \<exists>r s. inferWidth h (root t) = Some r \<and> fir_ok s r)"

definition exact_tree :: "env \<Rightarrow> int \<Rightarrow> bool \<Rightarrow> enode \<Rightarrow> enode \<Rightarrow> bool" where
  "exact_tree E w s e e' \<longleftrightarrow>
     e_width e' = w \<and> e_sign e' = s
     \<and> refines (map_outcome_val (wrap (nat w) s) (fireval E e)) (eval (E\<lparr>firHeadTail := False\<rparr>) e')"

lemma head_tail_trees:
  assumes "\<forall>t \<in> set ts. annotated N (root t) \<and> fir_ok s (root t)" "env_ok N E" "firHeadTail E"
  shows "\<exists>us. those (map head_tail_tree ts) = Some us
    \<and> list_all2 (\<lambda>t u. tree_ok N s (root u) \<and> eval (E\<lparr>firHeadTail := False\<rparr>) (root u) = fireval E (root t)) ts us"
  using assms(1)
proof (induction ts)
  case (Cons t ts)
  then obtain us where us: "those (map head_tail_tree ts) = Some us"
    "list_all2 (\<lambda>t u. tree_ok N s (root u) \<and> eval (E\<lparr>firHeadTail := False\<rparr>) (root u) = fireval E (root t)) ts us" by auto
  from Cons.prems have "annotated N (root t)" "fir_ok s (root t)" by auto
  from head_tail_tree_ok [OF this assms(2,3)] obtain e' where
    e': "updateHeadTail (root t) = Some e'" "tree_ok N s e'" "eval (E\<lparr>firHeadTail := False\<rparr>) e' = fireval E (root t)" by blast
  then have "head_tail_tree t = Some (t\<lparr>root := e'\<rparr>)" by (simp add: head_tail_tree_def)
  with us e'(2,3) show ?case by (intro exI [of _ "t\<lparr>root := e'\<rparr> # us"]) simp
qed simp

lemma infer_reset_ok:
  assumes "\<forall>t \<in> set_option q. \<exists>r s. inferWidth h (root t) = Some r \<and> fir_ok s r" "env_ok h E" "firHeadTail E"
  shows "\<exists>r r1. infer_reset h q = Some r \<and> (case r of None \<Rightarrow> Some None | Some t \<Rightarrow> map_option Some (head_tail_tree t)) = Some r1
    \<and> (\<forall>t \<in> set_option r1. \<exists>s. tree_ok h s (root t))"
proof (cases q)
  case None
  then show ?thesis by (simp add: infer_reset_def)
next
  case (Some t)
  with assms(1) obtain r s where r: "inferWidth h (root t) = Some r" "fir_ok s r" by auto
  from head_tail_tree_ok [OF inferWidth_annotated [OF r(1)] r(2) assms(2,3)] Some r(1) show ?thesis
    by (auto simp: infer_reset_def infer_root_def head_tail_tree_def)
qed

lemma finish_node_exact:
  assumes "\<forall>e \<in> set (roots (h n)). annotated h e" "fir_node h n" "env_ok h E" "firHeadTail E"
  shows "\<exists>ts r. finish_node n h = Some (h(n := (h n)\<lparr>assignTree := ts, resetTree := r\<rparr>))
    \<and> list_all2 (exact_tree E (nwidth (h n)) (nsign (h n))) (roots (h n)) (map root ts)"
proof -
  let ?E = "E\<lparr>firHeadTail := False\<rparr>"
  from assms(1,2) have "\<forall>t \<in> set (assignTree (h n)). annotated h (root t) \<and> fir_ok (nsign (h n)) (root t)"
    by (simp add: fir_node_def)
  from head_tail_trees [OF this assms(3,4)] obtain us where us: "those (map head_tail_tree (assignTree (h n))) = Some us"
    "list_all2 (\<lambda>t u. tree_ok h (nsign (h n)) (root u) \<and> eval ?E (root u) = fireval E (root t)) (assignTree (h n)) us" by blast
  have "\<forall>t \<in> set_option (resetTree (h n)). \<exists>r s. inferWidth h (root t) = Some r \<and> fir_ok s r"
    using assms(2) by (simp add: fir_node_def)
  from infer_reset_ok [OF this assms(3,4)] obtain r r1 where r: "infer_reset h (resetTree (h n)) = Some r"
    "(case r of None \<Rightarrow> Some None | Some t \<Rightarrow> map_option Some (head_tail_tree t)) = Some r1"
    "\<forall>t \<in> set_option r1. \<exists>s. tree_ok h s (root t)" by blast
  let ?h = "h(n := (h n)\<lparr>assignTree := us, resetTree := r1\<rparr>)"
  have rt: "retreed h ?h" by (rule retreed_upd) simp
  have "tree_ok h (nsign (h n)) (root u)" if "u \<in> set us" for u using list_all2_right [OF us(2) that] by blast
  with retreed_tree_ok [OF rt] have "\<forall>t \<in> set us. tree_ok ?h (nsign (h n)) (root t)" by blast
  moreover have "\<forall>t \<in> set_option r1. \<exists>s. tree_ok ?h s (root t)" using r(3) retreed_tree_ok [OF rt] by blast
  ultimately have "node_trees_ok ?h n" using assms(3) by (simp add: node_trees_ok_def env_ok_def)
  from updateTreeWithNewWIdth_trees [OF this, of ?E] retreed_env [OF rt, of ?E] assms(3) obtain ts q where
    ts: "updateTreeWithNewWIdth n ?h = Some (?h(n := (?h n)\<lparr>assignTree := ts, resetTree := q\<rparr>))"
      "list_all2 (fitted_tree ?E (nwidth (h n)) (nsign (h n))) (map root us) (map root ts)"
    by (auto simp: env_ok_def)
  have "list_all2 (\<lambda>t u. eval ?E (root u) = fireval E (root t)) (assignTree (h n)) us"
    using us(2) by (rule list_all2_mono) simp
  then have "list_all2 (exact_tree E (nwidth (h n)) (nsign (h n))) (roots (h n)) (map root ts)"
    using ts(2) unfolding list.rel_map
    by (rule list_all2_trans [rotated 1]) (simp add: fitted_tree_def exact_tree_def)
  moreover have "finish_node n h = Some (h(n := (h n)\<lparr>assignTree := ts, resetTree := q\<rparr>))"
    using r us(1) ts(1) by (simp add: finish_node_def updateHeadTail_node_def)
  ultimately show ?thesis by blast
qed

text \<open>All nodes.\<close>

definition finish_ok :: "heap \<Rightarrow> nodeid \<Rightarrow> bool" where
  "finish_ok h n \<longleftrightarrow> (\<forall>e \<in> set (roots (h n)). annotated h e) \<and> fir_node h n"

lemma finish_ok_retreed:
  assumes "retreed h h'" "h' n = h n" "finish_ok h n"
  shows "finish_ok h' n"
  using assms by (auto simp: finish_ok_def fir_node_def retreed_infer [OF assms(1)] intro: retreed_annotated)

lemma finish_all:
  assumes "distinct ms" "\<forall>n \<in> set ms. finish_ok h n" "env_ok h E" "firHeadTail E"
  shows "\<exists>h'. fold_abort finish_node ms h = Some h' \<and> (\<forall>n. n \<notin> set ms \<longrightarrow> h' n = h n)
    \<and> (\<forall>n \<in> set ms. nwidth (h' n) = nwidth (h n)
         \<and> list_all2 (exact_tree E (nwidth (h n)) (nsign (h n))) (roots (h n)) (roots (h' n)))"
  using assms
proof (induction ms arbitrary: h)
  case (Cons x ms)
  from Cons.prems(2) have x: "\<forall>e \<in> set (roots (h x)). annotated h e" "fir_node h x" by (simp_all add: finish_ok_def)
  from finish_node_exact [OF x Cons.prems(3,4)] obtain ts r where
    fx: "finish_node x h = Some (h(x := (h x)\<lparr>assignTree := ts, resetTree := r\<rparr>))"
      "list_all2 (exact_tree E (nwidth (h x)) (nsign (h x))) (roots (h x)) (map root ts)" by blast
  let ?h = "h(x := (h x)\<lparr>assignTree := ts, resetTree := r\<rparr>)"
  have rt: "retreed h ?h" by (rule retreed_upd) simp
  have "\<forall>n \<in> set ms. finish_ok ?h n"
    using Cons.prems(1,2) by (auto intro!: finish_ok_retreed [OF rt])
  moreover have "distinct ms" using Cons.prems(1) by simp
  ultimately obtain h' where
    h': "fold_abort finish_node ms ?h = Some h'" "\<forall>n. n \<notin> set ms \<longrightarrow> h' n = ?h n"
      "\<forall>n \<in> set ms. nwidth (h' n) = nwidth (?h n)
         \<and> list_all2 (exact_tree E (nwidth (?h n)) (nsign (?h n))) (roots (?h n)) (roots (h' n))"
    using Cons.IH [OF _ _ retreed_env [OF rt Cons.prems(3)] Cons.prems(4)] by blast
  have "\<forall>n \<in> set (x # ms). nwidth (h' n) = nwidth (h n)
         \<and> list_all2 (exact_tree E (nwidth (h n)) (nsign (h n))) (roots (h n)) (roots (h' n))"
  proof
    fix n assume n: "n \<in> set (x # ms)"
    show "nwidth (h' n) = nwidth (h n)
         \<and> list_all2 (exact_tree E (nwidth (h n)) (nsign (h n))) (roots (h n)) (roots (h' n))"
    proof (cases "n = x")
      case True
      with h'(2) Cons.prems(1) fx(2) show ?thesis by simp
    next
      case False
      with n have "n \<in> set ms" by simp
      from h'(3) [rule_format, OF this] False show ?thesis by (simp only: fun_upd_other simp_thms)
    qed
  qed
  with fx(1) h'(1,2) show ?case by auto
qed simp

definition fir_sequence :: "env \<Rightarrow> enode list \<Rightarrow> outcome" where
  "fir_sequence E es = foldl then_assign Keep (map (fireval E) es)"

lemma exact_foldl:
  assumes "list_all2 (exact_tree E w s) es es'" "refines (map_outcome_val (wrap (nat w) s) a) b"
  shows "refines (map_outcome_val (wrap (nat w) s) (foldl then_assign a (map (fireval E) es)))
           (foldl then_assign b (map (eval (E\<lparr>firHeadTail := False\<rparr>)) es'))"
  using assms
  by (induction arbitrary: a b rule: list_all2_induct)
     (simp_all add: exact_tree_def then_assign_map then_assign_refines)

lemma wrap_foldl:
  assumes "\<forall>e \<in> set es. map_outcome_val f (fireval E e) = fireval E e" "map_outcome_val f a = a"
  shows "map_outcome_val f (foldl then_assign a (map (fireval E) es)) = foldl then_assign a (map (fireval E) es)"
  using assms by (induction es arbitrary: a) (simp_all add: then_assign_map)

lemma undeclared_value:
  assumes "annotated h e" "fir_ok s e" "env_ok h E" "firHeadTail E" "e_width e \<le> w"
  shows "map_outcome_val (wrap (nat w) s) (fireval E e) = fireval E e"
proof -
  from assms(2) have ty: "fir_typed e" "match_ok s e" by (simp_all add: fir_ok_def)
  have eq: "fireval E e = eval E e" using annotated_exact [OF assms(3,4,1) ty(1)] by simp
  show ?thesis
  proof (cases "eval E e")
    case (Val v)
    from eval_fits [OF Val match_ok_not_index [OF ty(2)]] match_ok_sign [OF ty(2)] assms(5)
    have "fits (nat w) s v" by (auto intro: fits_mono)
    with Val eq show ?thesis by (simp add: wrap_fits)
  qed (use eq in simp_all)
qed

section \<open>Properties\<close>

text \<open>
  C17: the work list of \<^verbatim>\<open>graph::inferAllWidth\<close> is one visit of every node in topological order: on
  a circuit with declared registers and memories it ends, with the widths, signs and trees
  that the single pass gives, and it fails exactly if the pass fails.
\<close>

theorem infer_loop_is_one_pass:
  assumes "infer_ready g"
  shows "map_option iheap (infer_loop (all_members g) (declared g) (infer_start g))
    = fold_abort (visit (declared g)) (in_order g) (nodes g)"
  by (rule infer_loop_one_pass [OF assms])

definition demo_plus :: enode where
  "demo_plus = ENode (new_eattr OP_ADD) [Some (new_leaf 0), Some (new_leaf 0)]"

definition demo_infer :: graph where
  "demo_infer = demo_graph\<lparr>
     nodes := (\<lambda>_. demo_node)
       (0 := demo_node\<lparr>order := 1, next := {1}\<rparr>,
        1 := demo_node\<lparr>order := 2, nwidth := -1, next := {2}, assignTree := [\<lparr>root = demo_plus, lvalue = new_leaf 1\<rparr>]\<rparr>,
        2 := demo_node\<lparr>order := 3, nwidth := 3, assignTree := [\<lparr>root = new_leaf 1, lvalue = new_leaf 2\<rparr>]\<rparr>),
     supers := (\<lambda>_. new_super\<lparr>smember := [0, 1, 2]\<rparr>), sortedSuper := [0]\<rparr>"

definition ref_of :: "nodeid \<Rightarrow> int \<Rightarrow> enode" where
  "ref_of n w = ENode ((new_eattr OP_EMPTY)\<lparr>nodePtr := Some n, width := w\<rparr>) []"

definition demo_plus5 :: enode where
  "demo_plus5 = ENode ((new_eattr OP_ADD)\<lparr>width := 5\<rparr>) [Some (ref_of 0 4), Some (ref_of 0 4)]"

definition demo_inferred :: heap where
  "demo_inferred = (nodes demo_infer)
     (1 := (nodes demo_infer 1)\<lparr>nwidth := 5, assignTree := [\<lparr>root = demo_plus5, lvalue = ref_of 1 5\<rparr>]\<rparr>,
      2 := (nodes demo_infer 2)\<lparr>assignTree := [\<lparr>root = ref_of 1 5, lvalue = ref_of 2 3\<rparr>]\<rparr>)"

lemma demo_infer_members: "all_members demo_infer = [0, 1, 2]"
  by (simp add: all_members_def demo_infer_def new_super_def)

lemmas demo_infer_simps = demo_infer_def demo_node_def new_node_def demo_plus_def new_leaf_def new_eattr_def

lemma demo_infer_nodes:
  "order (nodes demo_infer 0) = 1" "order (nodes demo_infer 1) = 2" "order (nodes demo_infer 2) = 3"
  "nwidth (nodes demo_infer 0) = 4" "nwidth (nodes demo_infer 1) = -1" "nwidth (nodes demo_infer 2) = 3"
  "next (nodes demo_infer 0) = {1}" "next (nodes demo_infer 1) = {2}" "next (nodes demo_infer 2) = {}"
  "ntype (nodes demo_infer n) = NODE_OTHERS"
  "assignTree (nodes demo_infer 0) = []" "assignTree (nodes demo_infer 1) = [\<lparr>root = demo_plus, lvalue = new_leaf 1\<rparr>]"
  "assignTree (nodes demo_infer 2) = [\<lparr>root = new_leaf 1, lvalue = new_leaf 2\<rparr>]"
  by (simp_all add: demo_infer_def demo_node_def new_node_def)

lemma demo_reset: "resetTree (nodes demo_infer n) = None"
  by (simp add: demo_infer_def demo_node_def new_node_def)

lemma demo_clock: "\<not> nisClock (nodes demo_infer n)" "\<not> nsign (nodes demo_infer n)"
  by (simp_all add: demo_infer_def demo_node_def new_node_def)

lemma demo_infer_is_ready: "infer_ready demo_infer"
  unfolding infer_ready_def demo_infer_members
  by (simp add: reg_declared_def writer_declared_def demo_infer_nodes del: One_nat_def)

lemma demo_infer_order: "in_order demo_infer = [0, 1, 2]" "declared demo_infer = {0, 2}"
  unfolding in_order_def declared_def demo_infer_members by (auto simp: demo_infer_nodes simp del: One_nat_def)

lemma demo_one_pass: "fold_abort (visit (declared demo_infer)) (in_order demo_infer) (nodes demo_infer) = Some demo_inferred"
  unfolding demo_infer_order
  by (simp add: visit_def infer_node_def infer_reset_def infer_root_def infer_lval_def forget_def clear_node_def
      clear_tree_def inferred_type_def reset_type_def set_type_def infer_width_op_def infer_prim_def infer_width2_def
      demo_infer_simps demo_inferred_def demo_plus5_def ref_of_def)

theorem infer_loop_is_one_pass_witness:
  "map_option iheap (infer_loop (all_members demo_infer) (declared demo_infer) (infer_start demo_infer))
    = Some demo_inferred \<and> nwidth (demo_inferred 1) = 5"
  using infer_loop_is_one_pass [OF demo_infer_is_ready] demo_one_pass by (simp add: demo_inferred_def)

end
