(* ===== verification/InferCircuit.thy ===== *)
theory InferCircuit
  imports InferAll
begin

section \<open>Well-typed circuits\<close>

text \<open>
  The typing of a whole circuit before inference, with the types \<open>G\<close> of its nodes and the typed
  trees \<open>T\<close> of their assignments as certificates, and that the pass over the nodes finds them
  without a failed check.  Together with the end of the pass this is the correctness of
  \<^verbatim>\<open>graph::inferAllWidth\<close>.
\<close>

abbreviation ty_width :: "wtype \<Rightarrow> int" where "ty_width t \<equiv> fst t"
abbreviation ty_sign :: "wtype \<Rightarrow> bool" where "ty_sign t \<equiv> fst (snd t)"
abbreviation ty_clock :: "wtype \<Rightarrow> bool" where "ty_clock t \<equiv> snd (snd t)"

text \<open>The type of a node without a declared width: as wide as its widest tree.\<close>

definition widest :: "node \<Rightarrow> enode list \<Rightarrow> wtype \<Rightarrow> bool" where
  "widest nd es ty \<longleftrightarrow>
     ty_width ty = Max (insert 0 (e_width ` set es)) \<and> (es = [] \<longrightarrow> ty_sign ty = nsign nd)
     \<and> ty_clock ty = (nisClock nd \<or> (\<exists>e \<in> set es. isClock (attr e)))"

definition node_well_typed :: "(nodeid \<Rightarrow> wtype) \<Rightarrow> enode list \<Rightarrow> wtype \<Rightarrow> node \<Rightarrow> bool" where
  "node_well_typed G es ty nd \<longleftrightarrow>
     ntype nd \<noteq> NODE_INVALID
     \<and> list_all2 (\<lambda>t e. typed_as G (root t) e \<and> fir_ok (ty_sign ty) e) (assignTree nd) es
     \<and> (\<forall>t \<in> set (assignTree nd). \<exists>l. typed_as G (lvalue t) l)
     \<and> (\<forall>t \<in> set_option (resetTree nd). \<exists>r s. typed_as G (root t) r \<and> fir_ok s r)
     \<and> (nwidth nd = -1 \<longrightarrow> widest nd es ty)"

definition circuit_typed :: "(nodeid \<Rightarrow> wtype) \<Rightarrow> (nodeid \<Rightarrow> enode list) \<Rightarrow> graph \<Rightarrow> bool" where
  "circuit_typed G T g \<longleftrightarrow>
     (\<forall>n \<in> set (all_members g). node_well_typed G (T n) (G n) (nodes g n))
     \<and> (\<forall>n. nwidth (nodes g n) \<noteq> -1 \<or> n \<notin> set (all_members g) \<longrightarrow> G n = type_in (nodes g) n)"

text \<open>A tree reads nodes with a declared width or such that come before.\<close>

definition known_before :: "graph \<Rightarrow> nodeid \<Rightarrow> nodeid \<Rightarrow> bool" where
  "known_before g n m \<longleftrightarrow>
     nwidth (nodes g m) \<noteq> -1 \<or> m \<in> set (all_members g) \<and> order (nodes g m) < order (nodes g n)"

definition reads_known :: "graph \<Rightarrow> bool" where
  "reads_known g \<longleftrightarrow>
     (\<forall>n \<in> set (all_members g).
        (\<forall>t \<in> set (assignTree (nodes g n)) \<union> set_option (resetTree (nodes g n)).
           \<forall>m \<in> type_reads (root t). known_before g n m)
        \<and> (\<forall>t \<in> set (assignTree (nodes g n)). \<forall>m \<in> type_reads (lvalue t). m = n \<or> known_before g n m))"

section \<open>One visit\<close>

lemma trees_type_max:
  "trees_type w s c ts =
     (Max (insert w (e_width ` root ` set ts)), if ts = [] then s else e_sign (root (last ts)),
      c \<or> (\<exists>t \<in> set ts. isClock (attr (root t))))"
proof (induction ts arbitrary: w s c)
  case (Cons t ts)
  have "Max (insert (max w (e_width (root t))) A) = Max (insert w (insert (e_width (root t)) A))" if "finite A" for A
    using that by (cases "A = {}") (simp_all add: max.assoc)
  then show ?case by (simp add: Cons)
qed simp

lemma infer_roots:
  assumes "list_all2 (\<lambda>t e. infers N (root t) e) ts es"
  shows "\<exists>us. those (map (infer_root N) (map clear_tree ts)) = Some us \<and> map root us = es
    \<and> map lvalue us = map (clearWidth \<circ> lvalue) ts"
  using assms
proof (induction rule: list_all2_induct)
  case (Cons t ts e es)
  then obtain us where us: "those (map (infer_root N) (map clear_tree ts)) = Some us" "map root us = es"
    "map lvalue us = map (clearWidth \<circ> lvalue) ts" by blast
  have "infer_root N (clear_tree t) = Some ((clear_tree t)\<lparr>root := e\<rparr>)"
    using Cons(1) by (simp add: infer_root_def clear_tree_def infers_def)
  moreover have "lvalue ((clear_tree t)\<lparr>root := e\<rparr>) = clearWidth (lvalue t)" by (simp add: clear_tree_def)
  ultimately show ?case using us by (intro exI [of _ "(clear_tree t)\<lparr>root := e\<rparr> # us"]) simp
qed simp

lemma infer_lvals:
  assumes "\<forall>u \<in> set us. \<exists>l. inferWidth N (lvalue u) = Some l"
  shows "\<exists>vs. those (map (infer_lval N) us) = Some vs"
  using assms
proof (induction us)
  case (Cons u us)
  then show ?case by (auto simp: infer_lval_def)
qed simp

definition reset_typed :: "(nodeid \<Rightarrow> wtype) \<Rightarrow> exptree option \<Rightarrow> exptree option \<Rightarrow> bool" where
  "reset_typed G = rel_option (\<lambda>t t'. typed_as G (root t) (root t') \<and> (\<exists>s. fir_ok s (root t')))"

lemma clear_reset:
  "\<forall>t \<in> set_option q. \<exists>r s. typed_as G (root t) r \<and> fir_ok s r \<and> infers N (root t) r \<Longrightarrow>
   \<exists>q'. infer_reset N (map_option (\<lambda>t. t\<lparr>root := clearWidth (root t)\<rparr>) q) = Some q' \<and> reset_typed G q q'"
  by (cases q) (auto simp: infer_reset_def infer_root_def infers_def reset_typed_def)

lemma inferred_type_widest:
  assumes "map root us = es" "widest nd es ty" "\<forall>e \<in> set es. e_sign e = ty_sign ty"
    "ntype nd' \<noteq> NODE_REG_SRC" "nsign nd' = nsign nd" "nisClock nd' = nisClock nd"
  shows "inferred_type nd' q us = ty"
proof -
  have r: "reset_type nd' q = (0, nsign nd)" using assms(4,5) by (simp add: reset_type_def split: option.splits)
  have e: "root ` set us = set es" "us = [] \<longleftrightarrow> es = []" using assms(1) by auto
  have c: "(\<exists>t \<in> set us. isClock (attr (root t))) \<longleftrightarrow> (\<exists>e \<in> set es. isClock (attr e))" using assms(1) by auto
  have l: "e_sign (root (last us)) = ty_sign ty" if "us \<noteq> []"
  proof -
    have "root (last us) \<in> set es" using that assms(1) by auto
    with assms(3) show ?thesis by blast
  qed
  have "inferred_type nd' q us = (Max (insert 0 (e_width ` set es)), if us = [] then nsign nd else e_sign (root (last us)),
      nisClock nd \<or> (\<exists>e \<in> set es. isClock (attr e)))"
    by (simp only: inferred_type_def r prod.case trees_type_max e(1) c assms(6))
  moreover have "(if us = [] then nsign nd else e_sign (root (last us))) = ty_sign ty"
    using l e(2) assms(2) by (simp add: widest_def)
  ultimately have "inferred_type nd' q us = (ty_width ty, ty_sign ty, ty_clock ty)"
    using assms(2) by (simp only: widest_def)
  then show ?thesis by simp
qed

text \<open>A visit of a node whose trees are typed in the heap, apart from its own type.\<close>

lemma visit_typed:
  assumes wt: "node_well_typed G es (G n) (h n)" and ni: "nwidth (h n) = -1 \<longrightarrow> ntype (h n) \<noteq> NODE_REG_SRC"
    and F: "n \<in> F \<longleftrightarrow> nwidth (h n) \<noteq> -1" and ty: "nwidth (h n) \<noteq> -1 \<longrightarrow> G n = type_in h n"
    and rd: "\<forall>t \<in> set (assignTree (h n)) \<union> set_option (resetTree (h n)). agrees G h (type_reads (root t) - {n})
       \<and> (nwidth (h n) = -1 \<longrightarrow> n \<notin> type_reads (root t))"
    and rl: "\<forall>t \<in> set (assignTree (h n)). agrees G h (type_reads (lvalue t) - {n})"
  shows "\<exists>h'. visit F n h = Some h' \<and> type_in h' n = G n \<and> roots (h' n) = es
    \<and> reset_typed G (resetTree (h n)) (resetTree (h' n))"
proof -
  let ?h = "h(n := clear_node (h n))"
  have "(h n)\<lparr>nwidth := -1\<rparr> = h n" if "nwidth (h n) = -1" using that by (cases "h n") simp
  then have "(if n \<in> F then h n else (h n)\<lparr>nwidth := -1\<rparr>) = h n" using F by metis
  then have fg: "forget F n (h n) = clear_node (h n)" by (simp only: forget_def)
  have ag: "agrees G ?h (type_reads (root t))" if "t \<in> set (assignTree (h n)) \<union> set_option (resetTree (h n))" for t
    using rd [rule_format, OF that] ty by (auto simp: agrees_def type_in_def clear_node_def)
  from wt have tr: "list_all2 (\<lambda>t e. typed_as G (root t) e \<and> fir_ok (ty_sign (G n)) e) (assignTree (h n)) es"
    by (simp add: node_well_typed_def)
  then have "list_all2 (\<lambda>t e. infers ?h (root t) e) (assignTree (h n)) es"
    by (rule list.rel_mono_strong) (use ag in \<open>auto intro: typed_infers\<close>)
  from infer_roots [OF this] obtain us where
    us: "those (map (infer_root ?h) (map clear_tree (assignTree (h n)))) = Some us" "map root us = es"
      "map lvalue us = map (clearWidth \<circ> lvalue) (assignTree (h n))" by blast
  have "\<forall>t \<in> set_option (resetTree (h n)). \<exists>r s. typed_as G (root t) r \<and> fir_ok s r \<and> infers ?h (root t) r"
    using wt ag by (fastforce simp: node_well_typed_def intro: typed_infers)
  from clear_reset [OF this] obtain q where
    q: "infer_reset ?h (map_option (\<lambda>t. t\<lparr>root := clearWidth (root t)\<rparr>) (resetTree (h n))) = Some q"
      "reset_typed G (resetTree (h n)) q" by blast
  let ?nd = "(clear_node (h n))\<lparr>resetTree := q, assignTree := us\<rparr>"
  define nd1 where "nd1 = (if nwidth ?nd = -1 then set_type (inferred_type ?nd q us) ?nd else ?nd)"
  have "list_all2 (\<lambda>t e. e_sign e = ty_sign (G n)) (assignTree (h n)) es"
    using tr by (rule list_all2_mono) (auto simp: fir_ok_def match_ok_sign)
  then have sg: "\<forall>e \<in> set es. e_sign e = ty_sign (G n)" by (auto dest: list_all2_right)
  have it: "inferred_type ?nd q us = G n" if "nwidth (h n) = -1"
    by (rule inferred_type_widest [OF us(2) _ sg, of "h n"])
       (use wt ni that in \<open>simp_all add: node_well_typed_def clear_node_def\<close>)
  have t1: "(nwidth nd1, nsign nd1, nisClock nd1) = G n"
  proof (cases "nwidth (h n) = -1")
    case True
    then have "nd1 = set_type (G n) ?nd" using it by (simp add: nd1_def clear_node_def)
    then show ?thesis by (simp add: set_type_def split: prod.splits)
  next
    case False
    then have "nd1 = ?nd" by (simp add: nd1_def clear_node_def)
    then show ?thesis using False ty by (simp add: clear_node_def type_in_def)
  qed
  have r1: "resetTree nd1 = q" by (simp add: nd1_def set_type_def split: prod.splits)
  let ?h1 = "?h(n := nd1)"
  have "\<exists>l. inferWidth ?h1 (lvalue u) = Some l" if "u \<in> set us" for u
  proof -
    have "lvalue u \<in> set (map (clearWidth \<circ> lvalue) (assignTree (h n)))" using that us(3) by (metis list.set_map rev_image_eqI)
    then obtain t where t: "t \<in> set (assignTree (h n))" "lvalue u = clearWidth (lvalue t)" by auto
    obtain l where l: "typed_as G (lvalue t) l" using wt t(1) by (auto simp: node_well_typed_def)
    have "agrees G ?h1 (type_reads (lvalue t))"
      using rl [rule_format, OF t(1)] t1 by (auto simp: agrees_def type_in_def)
    from typed_infers [OF l this] t(2) show ?thesis by (auto simp: infers_def)
  qed
  then obtain vs where vs: "those (map (infer_lval ?h1) us) = Some vs" using infer_lvals by blast
  have nt: "ntype (clear_node (h n)) \<noteq> NODE_INVALID" using wt by (simp add: node_well_typed_def clear_node_def)
  have cl: "assignTree (clear_node (h n)) = map clear_tree (assignTree (h n))"
    "resetTree (clear_node (h n)) = map_option (\<lambda>t. t\<lparr>root := clearWidth (root t)\<rparr>) (resetTree (h n))"
    by (simp_all add: clear_node_def)
  let ?h' = "h(n := nd1\<lparr>assignTree := vs\<rparr>)"
  have "visit F n h = Some ?h'"
    unfolding visit_def fg infer_node_def fun_upd_same cl q(1) us(1) bind.bind_lunit Let_def nd1_def [symmetric] vs
    using nt by simp
  moreover have "roots (?h' n) = es" using lval_roots [OF vs] us(2) by simp
  moreover have "type_in ?h' n = G n" using t1 by (simp add: type_in_def)
  moreover have "reset_typed G (resetTree (h n)) (resetTree (?h' n))" using q(2) r1 by simp
  ultimately show ?thesis by blast
qed

section \<open>The pass over all nodes\<close>

text \<open>While the pass runs: the nodes still to come are untouched, all others have their types.\<close>

definition pass_state :: "(nodeid \<Rightarrow> wtype) \<Rightarrow> (nodeid \<Rightarrow> enode list) \<Rightarrow> graph \<Rightarrow> nodeid list \<Rightarrow> heap \<Rightarrow> bool" where
  "pass_state G T g xs h \<longleftrightarrow>
     (\<forall>n. n \<in> set xs \<or> n \<notin> set (all_members g) \<longrightarrow> h n = nodes g n)
     \<and> (\<forall>n. n \<in> set (all_members g) - set xs \<longrightarrow>
          type_in h n = G n \<and> roots (h n) = T n \<and> reset_typed G (resetTree (nodes g n)) (resetTree (h n)))"

lemma pass_state_types:
  assumes "circuit_typed G T g" "pass_state G T g xs h" "n \<in> set xs \<longrightarrow> nwidth (nodes g n) \<noteq> -1"
  shows "type_in h n = G n"
proof (cases "n \<in> set (all_members g) \<and> n \<notin> set xs")
  case False
  then have "h n = nodes g n" using assms(2) by (auto simp: pass_state_def)
  then show ?thesis using False assms(1,3) by (auto simp: circuit_typed_def type_in_def)
qed (use assms(2) in \<open>auto simp: pass_state_def\<close>)

lemma known_agrees:
  assumes ct: "circuit_typed G T g" and ps: "pass_state G T g (x # xs) h" and so: "suffix_of_order g (x # xs)"
    and k: "known_before g x m"
  shows "type_in h m = G m \<and> (nwidth (nodes g x) = -1 \<longrightarrow> m \<noteq> x)"
proof -
  have "m \<notin> set (x # xs)" if "nwidth (nodes g m) = -1"
    using k that so by (auto simp: known_before_def suffix_of_order_def)
  moreover have "m \<noteq> x" if "nwidth (nodes g x) = -1" using k that by (auto simp: known_before_def)
  ultimately show ?thesis using pass_state_types [OF ct ps, of m] by blast
qed

lemma pass_step:
  assumes ct: "circuit_typed G T g" and rk: "reads_known g" and rg: "infer_ready g"
    and so: "suffix_of_order g (x # xs)" and ps: "pass_state G T g (x # xs) h"
  shows "\<exists>h1. visit (declared g) x h = Some h1 \<and> pass_state G T g xs h1"
proof -
  have x: "x \<in> set (all_members g)" "x \<notin> set xs" using so by (auto simp: suffix_of_order_def)
  have hx: "h x = nodes g x" using ps by (simp add: pass_state_def)
  have wt: "node_well_typed G (T x) (G x) (h x)" using ct x hx by (simp add: circuit_typed_def)
  have reg: "nwidth (h x) = -1 \<longrightarrow> ntype (h x) \<noteq> NODE_REG_SRC"
    using rg x(1) hx by (auto simp: infer_ready_def reg_declared_def)
  have F: "x \<in> declared g \<longleftrightarrow> nwidth (h x) \<noteq> -1" using x(1) hx by (simp add: declared_def)
  have ty: "nwidth (h x) \<noteq> -1 \<longrightarrow> G x = type_in h x" using ct hx by (auto simp: circuit_typed_def type_in_def)
  note kn = known_agrees [OF ct ps so]
  have rd: "\<forall>t \<in> set (assignTree (h x)) \<union> set_option (resetTree (h x)). agrees G h (type_reads (root t) - {x})
       \<and> (nwidth (h x) = -1 \<longrightarrow> x \<notin> type_reads (root t))"
    using rk x(1) kn unfolding reads_known_def hx agrees_def by blast
  have rl: "\<forall>t \<in> set (assignTree (h x)). agrees G h (type_reads (lvalue t) - {x})"
    using rk x(1) kn unfolding reads_known_def hx agrees_def by blast
  from visit_typed [OF wt reg F ty rd rl] obtain h1 where
    h1: "visit (declared g) x h = Some h1" "type_in h1 x = G x" "roots (h1 x) = T x"
      "reset_typed G (resetTree (h x)) (resetTree (h1 x))" by blast
  have other: "h1 m = h m" if "m \<noteq> x" for m using visit_effect(1) [OF h1(1)] that by (metis fun_upd_other)
  have "pass_state G T g xs h1"
    unfolding pass_state_def
  proof (intro conjI allI impI)
    fix n assume "n \<in> set xs \<or> n \<notin> set (all_members g)"
    then have "n \<noteq> x" "n \<in> set (x # xs) \<or> n \<notin> set (all_members g)" using x by auto
    then show "h1 n = nodes g n" using ps other unfolding pass_state_def by metis
  next
    fix n assume n: "n \<in> set (all_members g) - set xs"
    show "type_in h1 n = G n" "roots (h1 n) = T n" "reset_typed G (resetTree (nodes g n)) (resetTree (h1 n))"
      using n ps other h1(2-4) hx by (cases "n = x"; auto simp: pass_state_def type_in_def)+
  qed
  with h1(1) show ?thesis by blast
qed

lemma pass_total:
  assumes "circuit_typed G T g" "reads_known g" "infer_ready g"
  shows "suffix_of_order g xs \<Longrightarrow> pass_state G T g xs h \<Longrightarrow>
    \<exists>h'. fold_abort (visit (declared g)) xs h = Some h' \<and> pass_state G T g [] h'"
proof (induction xs arbitrary: h)
  case (Cons x xs)
  obtain h1 where h1: "visit (declared g) x h = Some h1" "pass_state G T g xs h1"
    using pass_step [OF assms Cons.prems] by blast
  have "suffix_of_order g xs" using Cons.prems(1) by (auto simp: suffix_of_order_def dest: order_less_trans)
  from Cons.IH [OF this h1(2)] h1(1) show ?case by simp
qed simp

lemma pass_succeeds:
  assumes "circuit_typed G T g" "reads_known g" "infer_ready g"
  shows "\<exists>h. fold_abort (visit (declared g)) (in_order g) (nodes g) = Some h \<and> pass_state G T g [] h"
proof -
  have "suffix_of_order g (in_order g)"
    using assms(3) in_order_sorted by (auto simp: infer_ready_def in_order_def suffix_of_order_def)
  moreover have "pass_state G T g (in_order g) (nodes g)" by (simp add: pass_state_def in_order_def)
  ultimately show ?thesis by (rule pass_total [OF assms])
qed

section \<open>Properties\<close>

text \<open>States whose values fit the types.\<close>

definition env_typed :: "(nodeid \<Rightarrow> wtype) \<Rightarrow> env \<Rightarrow> bool" where
  "env_typed G E \<longleftrightarrow>
     (\<forall>n. 0 \<le> ty_width (G n)) \<and>
     (\<forall>n is. fits (nat (ty_width (G n))) (ty_sign (G n)) (val E n is)) \<and>
     (\<forall>m i. fits (nat (ty_width (G m))) (ty_sign (G m)) (mem E m i))"

lemma pass_done:
  assumes "circuit_typed G T g" "pass_state G T g [] h"
  shows "type_in h n = G n" "nwidth (h n) = ty_width (G n)" "nsign (h n) = ty_sign (G n)"
    and "env_typed G E \<Longrightarrow> env_ok h E"
    and "n \<in> set (all_members g) \<Longrightarrow> roots (h n) = T n \<and> finish_ok h n"
proof -
  show t: "type_in h n = G n" for n using pass_state_types [OF assms, of n] by simp
  show w: "nwidth (h n) = ty_width (G n)" "nsign (h n) = ty_sign (G n)" for n
    using arg_cong [OF t [of n], of fst] arg_cong [OF t [of n], of "fst \<circ> snd"] by (simp_all add: type_in_def)
  show "env_typed G E \<Longrightarrow> env_ok h E" by (simp add: env_typed_def env_ok_def w)
  assume n: "n \<in> set (all_members g)"
  then have wt: "node_well_typed G (T n) (G n) (nodes g n)" using assms(1) by (simp add: circuit_typed_def)
  have r: "roots (h n) = T n" "reset_typed G (resetTree (nodes g n)) (resetTree (h n))"
    using assms(2) n by (auto simp: pass_state_def)
  have ag: "agrees G h A" for A by (simp add: agrees_def t)
  have l: "list_all2 (\<lambda>t e. typed_as G (root t) e \<and> fir_ok (ty_sign (G n)) e) (assignTree (nodes g n)) (T n)"
    using wt by (simp add: node_well_typed_def)
  have "annotated h e \<and> fir_ok (nsign (h n)) e" if "e \<in> set (T n)" for e
    using list_all2_right [OF l that] typed_annotated [OF _ ag] w(2) by auto
  moreover have "\<exists>r s. inferWidth h (root t) = Some r \<and> fir_ok s r" if "t \<in> set_option (resetTree (h n))" for t
    using r(2) that typed_infers [OF _ ag]
    by (cases "resetTree (nodes g n)") (auto simp: reset_typed_def option_rel_Some1 infers_def)
  ultimately show "roots (h n) = T n \<and> finish_ok h n" using r(1) by (auto simp: finish_ok_def fir_node_def)
qed

text \<open>
  C1: \<^verbatim>\<open>graph::inferAllWidth\<close> as a whole.  Let a circuit be well typed before the pass: with types \<open>G\<close>
  that agree with the declared ones and give every other node the width of its widest tree,
  its trees follow the typing rules (\<open>typed_as\<close>) and the ranges and shapes of FIRRTL (\<open>fir_ok\<close>); \<open>T\<close> are
  the typed trees.  Registers and memories have declared widths, and trees read declared nodes
  or such that come before in the order.  Then the pass succeeds, every node gets the width
  of its type, a declared one the declared width, and its assignments give it exactly the
  FIRRTL value of its trees, cut to its width; a node without a declared width loses no bit.
\<close>

theorem inferAllWidth_exact:
  assumes "infer_ready g" "reads_known g" "circuit_typed G T g" "env_typed G E" "firHeadTail E"
  shows "\<exists>g'. inferAllWidth g = Some g' \<and>
    (\<forall>n \<in> set (all_members g).
       nwidth (nodes g' n) = ty_width (G n)
     \<and> (nwidth (nodes g n) \<noteq> -1 \<longrightarrow> nwidth (nodes g' n) = nwidth (nodes g n))
     \<and> refines (map_outcome_val (wrap (nat (ty_width (G n))) (ty_sign (G n))) (fir_sequence E (T n)))
         (in_sequence (E\<lparr>firHeadTail := False\<rparr>) (roots (nodes g' n)))
     \<and> (nwidth (nodes g n) = -1 \<longrightarrow>
          map_outcome_val (wrap (nat (ty_width (G n))) (ty_sign (G n))) (fir_sequence E (T n)) = fir_sequence E (T n)))"
proof -
  let ?ms = "all_members g"
  obtain h where h: "fold_abort (visit (declared g)) (in_order g) (nodes g) = Some h" "pass_state G T g [] h"
    using pass_succeeds [OF assms(3,2,1)] by blast
  note d = pass_done [OF assms(3) h(2)]
  have dist: "distinct ?ms" using assms(1) by (simp add: infer_ready_def)
  have fin: "\<forall>n \<in> set ?ms. finish_ok h n" using d(5) by blast
  from finish_all [OF dist fin d(4) [OF assms(4)] assms(5)] obtain h' where
    h': "fold_abort finish_node ?ms h = Some h'"
      "\<forall>n \<in> set ?ms. nwidth (h' n) = nwidth (h n)
         \<and> list_all2 (exact_tree E (nwidth (h n)) (nsign (h n))) (roots (h n)) (roots (h' n))" by blast
  from infer_loop_one_pass [OF assms(1)] h(1) have "inferAllWidth g = Some (g\<lparr>nodes := h'\<rparr>)"
    using h'(1) by (auto simp: inferAllWidth_def)
  moreover have "map_outcome_val (wrap (nat (ty_width (G n))) (ty_sign (G n))) (fir_sequence E (T n)) = fir_sequence E (T n)"
    if n: "n \<in> set ?ms" "nwidth (nodes g n) = -1" for n
  proof -
    have "widest (nodes g n) (T n) (G n)" using assms(3) n by (simp add: circuit_typed_def node_well_typed_def)
    then have "e_width e \<le> ty_width (G n)" if "e \<in> set (T n)" for e using that by (simp add: widest_def)
    moreover have "\<forall>e \<in> set (roots (h n)). annotated h e \<and> fir_ok (ty_sign (G n)) e"
      using conjunct2 [OF d(5) [OF n(1)]] by (simp add: finish_ok_def fir_node_def d(3))
    then have "annotated h e" "fir_ok (ty_sign (G n)) e" if "e \<in> set (T n)" for e
      using d(5) [OF n(1)] that by metis+
    ultimately show ?thesis unfolding fir_sequence_def
      by (intro wrap_foldl) (auto intro!: undeclared_value [OF _ _ d(4) [OF assms(4)] assms(5)])
  qed
  moreover have "refines (map_outcome_val (wrap (nat (ty_width (G n))) (ty_sign (G n))) (fir_sequence E (T n)))
         (in_sequence (E\<lparr>firHeadTail := False\<rparr>) (roots (h' n)))" if "n \<in> set ?ms" for n
    unfolding fir_sequence_def in_sequence_def using h'(2) that d(2,3,5) by (intro exact_foldl) auto
  moreover have "nwidth (nodes g n) = ty_width (G n)" if "nwidth (nodes g n) \<noteq> -1" for n
    using assms(3) that by (simp add: circuit_typed_def type_in_def)
  ultimately show ?thesis using h'(2) d(2) by auto
qed

lemma demo_inferred_nodes:
  "nwidth (demo_inferred 0) = 4" "nwidth (demo_inferred 1) = 5" "nwidth (demo_inferred 2) = 3"
  "assignTree (demo_inferred 0) = []" "assignTree (demo_inferred 1) = [\<lparr>root = demo_plus5, lvalue = ref_of 1 5\<rparr>]"
  "assignTree (demo_inferred 2) = [\<lparr>root = ref_of 1 5, lvalue = ref_of 2 3\<rparr>]"
  "\<not> nsign (demo_inferred n)" "resetTree (demo_inferred n) = None"
  by (simp_all add: demo_inferred_def demo_infer_def demo_node_def new_node_def)

lemma demo_inferred_widths: "3 \<le> nwidth (demo_inferred n)"
  by (simp add: demo_inferred_def demo_infer_def demo_node_def new_node_def)

lemma demo_fir_nodes: "\<forall>n \<in> set (all_members demo_infer). fir_node demo_inferred n"
  unfolding demo_infer_members
  by (simp add: fir_node_def demo_inferred_nodes fir_ok_def demo_plus5_def ref_of_def new_eattr_def node_typed_def
      is_index_def shape_ok_def unary_ops_def binary_ops_def operand_ok_def leaf_ok_def literals_ok_def
      del: One_nat_def)

abbreviation demo_sevens :: "bool \<Rightarrow> env" where
  "demo_sevens b \<equiv> \<lparr>val = \<lambda>_ _. 7, mem = \<lambda>_ _. 7, firHeadTail = b\<rparr>"

lemma demo_infer_ready: "infer_ready demo_infer" "reads_known demo_infer"
proof -
  show "infer_ready demo_infer" by (rule demo_infer_is_ready)
  show "reads_known demo_infer" unfolding reads_known_def demo_infer_members
    by (simp add: known_before_def demo_infer_members demo_infer_nodes demo_reset demo_plus_def new_leaf_def new_eattr_def
        del: One_nat_def)
qed

text \<open>The types of the example: node 1, the sum of two nodes of width 4, has width 5.\<close>

abbreviation demo_types :: "nodeid \<Rightarrow> wtype" where
  "demo_types \<equiv> type_in demo_inferred"

abbreviation demo_typed :: "nodeid \<Rightarrow> enode list" where
  "demo_typed n \<equiv> roots (demo_inferred n)"

lemma demo_types_simps:
  "demo_types 0 = (4, False, False)" "demo_types 1 = (5, False, False)" "demo_types 2 = (3, False, False)"
  by (simp_all add: type_in_def demo_inferred_def demo_infer_def demo_node_def new_node_def)

lemma typed_leaf: "G n = (w, False, False) \<Longrightarrow> typed_as G (new_leaf n) (ref_of n w)"
  using reference [of "(new_eattr OP_EMPTY)\<lparr>nodePtr := Some n\<rparr>" n G w False False "[]" "[]"]
  by (simp add: new_leaf_def ref_of_def new_eattr_def)

lemma typed_plus: "typed_as demo_types demo_plus demo_plus5"
proof -
  let ?ds = "[Some (ref_of 0 4), Some (ref_of 0 4)]"
  have k: "list_all2 (rel_option (typed_as demo_types)) [Some (new_leaf 0), Some (new_leaf 0)] ?ds"
    using typed_leaf [of demo_types 0 4] demo_types_simps(1) by simp
  have "op_type demo_types (new_eattr OP_ADD) [Some (4, False), Some (4, False)] (max 4 4 + 1, False)"
    by (rule sum) (simp add: new_eattr_def)
  then have "op_type demo_types (new_eattr OP_ADD) (annots ?ds) (max 4 4 + 1, False)"
    by (simp only: ref_of_def) (simp add: new_eattr_def)
  from operation [OF _ k this] show ?thesis by (simp add: demo_plus_def demo_plus5_def new_eattr_def)
qed

lemma demo_circuit_typed: "circuit_typed demo_types demo_typed demo_infer"
proof -
  note lf = typed_leaf [of demo_types 0 4] typed_leaf [of demo_types 1 5] typed_leaf [of demo_types 2 3]
  have fir: "fir_ok False (ref_of 1 5)" "fir_ok False demo_plus5"
    using demo_fir_nodes demo_inferred_nodes by (auto simp: fir_node_def demo_infer_members)
  have n0: "node_well_typed demo_types (demo_typed 0) (demo_types 0) (nodes demo_infer 0)"
    by (simp add: node_well_typed_def demo_infer_nodes demo_inferred_nodes demo_reset)
  have n1: "node_well_typed demo_types (demo_typed 1) (demo_types 1) (nodes demo_infer 1)"
    unfolding node_well_typed_def
    using lf(2) typed_plus fir(2)
    by (auto simp: demo_infer_nodes demo_inferred_nodes demo_types_simps demo_reset widest_def demo_clock
        demo_plus5_def new_eattr_def simp del: One_nat_def)
  have n2: "node_well_typed demo_types (demo_typed 2) (demo_types 2) (nodes demo_infer 2)"
    unfolding node_well_typed_def
    using lf(2,3) fir(1)
    by (auto simp: demo_infer_nodes demo_inferred_nodes demo_types_simps demo_reset simp del: One_nat_def)
  have "demo_types n = type_in (nodes demo_infer) n" if "nwidth (nodes demo_infer n) \<noteq> -1 \<or> n \<notin> {0, 1, 2}" for n
    using that by (auto simp: type_in_def demo_inferred_def demo_infer_nodes simp del: One_nat_def)
  with n0 n1 n2 show ?thesis unfolding circuit_typed_def demo_infer_members by (simp del: One_nat_def)
qed

theorem inferAllWidth_exact_witness:
  "\<exists>g'. inferAllWidth demo_infer = Some g' \<and> nwidth (nodes g' 1) = 5
    \<and> in_sequence (demo_sevens False) (roots (nodes g' 1)) = Val 14
    \<and> in_sequence (demo_sevens False) (roots (nodes g' 2)) = Val 7"
proof -
  have "fits (nat (nwidth (demo_inferred n))) False 7" for n
  proof -
    have "fits 3 False 7" by (simp add: fits_def)
    moreover have "3 \<le> nat (nwidth (demo_inferred n))" using demo_inferred_widths [of n] by simp
    ultimately show ?thesis by (rule fits_mono)
  qed
  then have env: "env_typed demo_types (demo_sevens True)"
    using demo_inferred_widths by (simp add: env_typed_def type_in_def demo_inferred_nodes(7) order_trans [of 0 3])
  have v: "fir_sequence (demo_sevens True) (demo_typed 1) = Val 14" "fir_sequence (demo_sevens True) (demo_typed 2) = Val 7"
    by (simp_all add: demo_inferred_nodes fir_sequence_def then_assign_def demo_plus5_def ref_of_def new_eattr_def
        fireval_ENode apply_op_def apply_prim_def prim2_def of_opt_def del: One_nat_def)
  from inferAllWidth_exact [OF demo_infer_ready demo_circuit_typed env] obtain g' where
    g': "inferAllWidth demo_infer = Some g'" and
    n: "\<forall>n \<in> {0, 1, 2}. nwidth (nodes g' n) = ty_width (demo_types n)
      \<and> refines (map_outcome_val (wrap (nat (ty_width (demo_types n))) (ty_sign (demo_types n)))
            (fir_sequence (demo_sevens True) (demo_typed n)))
          (in_sequence (demo_sevens False) (roots (nodes g' n)))"
    by (auto simp: demo_infer_members simp del: One_nat_def)
  have t: "ty_width (demo_types 1) = 5" "ty_width (demo_types 2) = 3" "\<not> ty_sign (demo_types 1)" "\<not> ty_sign (demo_types 2)"
    by (simp_all only: demo_types_simps fst_conv snd_conv simp_thms)
  from n have "refines (map_outcome_val (wrap 5 False) (Val 14)) (in_sequence (demo_sevens False) (roots (nodes g' 1)))"
    "refines (map_outcome_val (wrap 3 False) (Val 7)) (in_sequence (demo_sevens False) (roots (nodes g' 2)))"
    using v t by fastforce+
  moreover from n t(1) have "nwidth (nodes g' 1) = 5" by auto
  ultimately show ?thesis using g'
    by (auto simp: refines_Val wrap_def take_bit_eq_mod simp del: One_nat_def)
qed

end
