(* ===== verification/InferDiverge.thy ===== *)
theory InferDiverge
  imports InferAll
begin

section \<open>Registers without a declared width\<close>

text \<open>
  A register without a declared width starts every visit from width 0 again, while the check at
  the end of the queue raises it to the width of its other half.  When the feedback needs two
  rounds to settle, the two fight for ever: the circuit below is
  \<^verbatim>\<open>r <= cat(rem(r, UInt<1>(1)), UInt<1>(1))\<close>, whose least width is 2.
\<close>

definition lit1 :: enode where
  "lit1 = allocIntEnode 1 ''1'' False"

definition feedback :: "int \<Rightarrow> enode" where
  "feedback w =
     ENode ((new_eattr OP_CAT)\<lparr>width := min w 1 + 1\<rparr>)
       [Some (ENode ((new_eattr OP_REM)\<lparr>width := min w 1\<rparr>)
                [Some (ENode ((new_eattr OP_EMPTY)\<lparr>nodePtr := Some 0, width := w\<rparr>) []), Some lit1]),
        Some lit1]"

definition reg_heap :: "int \<Rightarrow> int \<Rightarrow> enode \<Rightarrow> enode \<Rightarrow> heap" where
  "reg_heap ws wd e l = (\<lambda>_. new_node NODE_OTHERS)
     (0 := (new_node NODE_REG_SRC)\<lparr>nwidth := ws, order := 1, next := {1}, regNext := Some 1\<rparr>,
      1 := (new_node NODE_REG_DST)\<lparr>nwidth := wd, order := 2, regNext := Some 0,
             assignTree := [\<lparr>root = e, lvalue = l\<rparr>]\<rparr>)"

definition reg_graph :: graph where
  "reg_graph = demo_graph\<lparr>nodes := reg_heap (-1) (-1) (clearWidth (feedback 0)) (new_leaf 1),
     supers := (\<lambda>_. new_super\<lparr>smember := [0, 1]\<rparr>), sortedSuper := [0]\<rparr>"

definition reg_state :: "int \<Rightarrow> int \<Rightarrow> enode \<Rightarrow> enode \<Rightarrow> nodeid list \<Rightarrow> istate" where
  "reg_state ws wd e l q = \<lparr>iheap = reg_heap ws wd e l, reinferNodes = q, uniqueNodes = set q\<rparr>"

definition dst_ref :: "int \<Rightarrow> enode" where
  "dst_ref w = ENode ((new_eattr OP_EMPTY)\<lparr>nodePtr := Some 1, width := w\<rparr>) []"

lemma reg_members: "all_members reg_graph = [0, 1]" "declared reg_graph = {}"
  by (auto simp: all_members_def declared_def reg_graph_def new_super_def reg_heap_def new_node_def)

lemma reg_nodes [simp]:
  "nwidth (reg_heap ws wd e l 0) = ws" "nwidth (reg_heap ws wd e l 1) = wd"
  "order (reg_heap ws wd e l 0) = 1" "order (reg_heap ws wd e l 1) = 2"
  "next (reg_heap ws wd e l 0) = {1}" "next (reg_heap ws wd e l 1) = {}"
  "ntype (reg_heap ws wd e l 0) = NODE_REG_SRC" "ntype (reg_heap ws wd e l 1) = NODE_REG_DST"
  "regNext (reg_heap ws wd e l 0) = Some 1" "regNext (reg_heap ws wd e l 1) = Some 0"
  by (simp_all add: reg_heap_def new_node_def)

lemma reg_nodes_Suc [simp]:
  "nwidth (reg_heap ws wd e l (Suc 0)) = wd" "order (reg_heap ws wd e l (Suc 0)) = 2"
  "next (reg_heap ws wd e l (Suc 0)) = {}" "ntype (reg_heap ws wd e l (Suc 0)) = NODE_REG_DST"
  "regNext (reg_heap ws wd e l (Suc 0)) = Some 0"
  using reg_nodes by (simp_all del: reg_nodes)

lemma visit_src: "visit {} 0 (reg_heap ws wd e l) = Some (reg_heap 0 wd e l)"
  by (simp add: visit_def infer_node_def infer_reset_def forget_def clear_node_def inferred_type_def reset_type_def
      set_type_def reg_heap_def new_node_def fun_eq_iff)

lemma visit_dst:
  assumes "clearWidth e = clearWidth (feedback 0)" "clearWidth l = new_leaf 1" "0 \<le> ws"
  shows "visit {} 1 (reg_heap ws wd e l) = Some (reg_heap ws (min ws 1 + 1) (feedback ws) (dst_ref (min ws 1 + 1)))"
  using assms
  by (simp add: visit_def infer_node_def infer_reset_def forget_def clear_node_def clear_tree_def inferred_type_def
      reset_type_def set_type_def reg_heap_def new_node_def infer_root_def infer_lval_def feedback_def lit1_def
      allocIntEnode_def new_eattr_def infer_width_op_def infer_prim_def infer_width2_def new_leaf_def dst_ref_def fun_eq_iff)

lemma reg_put: "put_width 0 w (reg_state ws wd e l q) = reg_state w wd e l q"
  by (simp add: put_width_def reg_state_def reg_heap_def fun_eq_iff)

lemmas reg_step_defs = infer_step_def Let_def queue_top_def queue_pop_def width_changed_def widen_memory_def
  addRecomputeNext_def addRecompute_def sync_reg_def getDst_def getSrc_def reg_members

lemma clear_feedback: "clearWidth (feedback w) = clearWidth (feedback 0)" "clearWidth (dst_ref w) = new_leaf 1"
  "clearWidth (clearWidth (feedback 0)) = clearWidth (feedback 0)" "clearWidth (new_leaf 1) = new_leaf 1"
  by (simp_all add: feedback_def dst_ref_def new_leaf_def new_eattr_def lit1_def allocIntEnode_def)

abbreviation turn :: "istate \<Rightarrow> istate abortable" where
  "turn \<equiv> infer_step (all_members reg_graph) (declared reg_graph)"

lemma turn_both: "turn (reg_state (-1) (-1) e l [1, 0]) = Some (reg_state 0 (-1) e l [1])"
  by (auto simp: reg_state_def reg_step_defs visit_src)

lemma turn_dst:
  assumes "clearWidth e = clearWidth (feedback 0)" "clearWidth l = new_leaf 1" "0 \<le> ws" "wd \<noteq> min ws 1 + 1"
  shows "turn (reg_state ws wd e l [1]) =
    Some (reg_state ws (min ws 1 + 1) (feedback ws) (dst_ref (min ws 1 + 1)) [0])"
  using assms(4) visit_dst [OF assms(1-3), of wd] by (simp add: reg_state_def reg_step_defs)

lemma turn_src_same:
  "1 \<le> wd \<Longrightarrow> turn (reg_state 0 wd e l [0]) = Some (reg_state wd wd e l [1])"
  using reg_put [of wd 0 wd e l "[]"] by (simp add: reg_state_def reg_step_defs visit_src)

lemma turn_src_back:
  "ws \<noteq> 0 \<Longrightarrow> turn (reg_state ws wd e l [0]) = Some (reg_state 0 wd e l [1])"
  by (simp add: reg_state_def reg_step_defs visit_src)

definition reg_states :: "istate set" where
  "reg_states =
     {infer_start reg_graph,
      reg_state 0 (-1) (clearWidth (feedback 0)) (new_leaf 1) [1],
      reg_state 0 1 (feedback 0) (dst_ref 1) [0],
      reg_state 1 1 (feedback 0) (dst_ref 1) [1],
      reg_state 1 2 (feedback 1) (dst_ref 2) [0],
      reg_state 0 2 (feedback 1) (dst_ref 2) [1]}"

lemma reg_start: "infer_start reg_graph = reg_state (-1) (-1) (clearWidth (feedback 0)) (new_leaf 1) [1, 0]"
proof -
  have "nodes reg_graph = reg_heap (-1) (-1) (clearWidth (feedback 0)) (new_leaf 1)" by (simp add: reg_graph_def)
  then show ?thesis unfolding infer_start_def reg_members reg_state_def by auto
qed

lemma reg_states_closed:
  assumes "st \<in> reg_states"
  shows "reinferNodes st \<noteq> []" "\<exists>st' \<in> reg_states. turn st = Some st'"
proof -
  show "reinferNodes st \<noteq> []" using assms by (auto simp: reg_states_def reg_start reg_state_def)
  let ?c = "clearWidth (feedback 0)"
  have "turn (infer_start reg_graph) = Some (reg_state 0 (-1) ?c (new_leaf 1) [1])"
    unfolding reg_start by (rule turn_both)
  moreover have "turn (reg_state 0 (-1) ?c (new_leaf 1) [1]) = Some (reg_state 0 1 (feedback 0) (dst_ref 1) [0])"
    using turn_dst [OF clear_feedback(3,4), of 0 "-1"] by (simp del: One_nat_def)
  moreover have "turn (reg_state 0 1 (feedback 0) (dst_ref 1) [0]) = Some (reg_state 1 1 (feedback 0) (dst_ref 1) [1])"
    by (rule turn_src_same) simp
  moreover have "turn (reg_state 1 1 (feedback 0) (dst_ref 1) [1]) = Some (reg_state 1 2 (feedback 1) (dst_ref 2) [0])"
    using turn_dst [OF clear_feedback(1,2), of 1 1 0 1] by (simp del: One_nat_def)
  moreover have "turn (reg_state 1 2 (feedback 1) (dst_ref 2) [0]) = Some (reg_state 0 2 (feedback 1) (dst_ref 2) [1])"
    by (rule turn_src_back) simp
  moreover have "turn (reg_state 0 2 (feedback 1) (dst_ref 2) [1]) = Some (reg_state 0 1 (feedback 0) (dst_ref 1) [0])"
    using turn_dst [OF clear_feedback(1,2), of 0 2 1 2] by (simp del: One_nat_def)
  ultimately show "\<exists>st' \<in> reg_states. turn st = Some st'"
    using assms unfolding reg_states_def by (elim insertE emptyE) (simp_all del: One_nat_def)
qed

lemma infer_loop_diverges:
  assumes "infer_loop ms F st = Some st'"
  shows "ms = all_members reg_graph \<and> F = declared reg_graph \<longrightarrow> st \<notin> reg_states"
proof (rule infer_loop.raw_induct [OF _ assms, where P = "\<lambda>ms F st st'. ms = all_members reg_graph \<and> F = declared reg_graph \<longrightarrow> st \<notin> reg_states"],
    intro impI notI)
  fix loop ms F st st'
  assume IH: "\<And>ms F st st'. loop ms F st = Some st'
      \<Longrightarrow> ms = all_members reg_graph \<and> F = declared reg_graph \<longrightarrow> st \<notin> reg_states"
    and run: "(if reinferNodes st = [] then Some st else Option.bind (infer_step ms F st) (loop ms F)) = Some st'"
    and eq: "ms = all_members reg_graph \<and> F = declared reg_graph" and st: "st \<in> reg_states"
  from reg_states_closed [OF st] obtain s1 where "s1 \<in> reg_states" "turn st = Some s1" "reinferNodes st \<noteq> []" by blast
  with run eq have "loop ms F s1 = Some st'" "s1 \<in> reg_states" by simp_all
  from IH [OF this(1)] this(2) eq show False by simp
qed

section \<open>Properties\<close>

text \<open>
  C38: \<^verbatim>\<open>graph::inferAllWidth\<close> does not end on a register whose width is not declared and settles in
  two rounds: no turn of its loop fails, the queue never runs empty, and the loop has no result.
\<close>

theorem inferAllWidth_diverges:
  "(\<forall>k. \<exists>st. ((\<lambda>s. Option.bind s turn) ^^ k) (Some (infer_start reg_graph)) = Some st \<and> reinferNodes st \<noteq> [])
   \<and> inferAllWidth reg_graph = None"
proof
  have "\<exists>st \<in> reg_states. ((\<lambda>s. Option.bind s turn) ^^ k) (Some (infer_start reg_graph)) = Some st" for k
  proof (induction k)
    case 0
    show ?case by (simp add: reg_states_def)
  next
    case (Suc k)
    then show ?case using reg_states_closed(2) by fastforce
  qed
  then show "\<forall>k. \<exists>st. ((\<lambda>s. Option.bind s turn) ^^ k) (Some (infer_start reg_graph)) = Some st \<and> reinferNodes st \<noteq> []"
    using reg_states_closed(1) by blast
  have "infer_loop (all_members reg_graph) (declared reg_graph) (infer_start reg_graph) \<noteq> Some st" for st
    using infer_loop_diverges by (auto simp: reg_states_def)
  then show "inferAllWidth reg_graph = None"
    by (cases "infer_loop (all_members reg_graph) (declared reg_graph) (infer_start reg_graph)")
       (auto simp: inferAllWidth_def)
qed

end
