(* ===== verification/PatternDetect.thy ===== *)
theory PatternDetect
  imports WidthOps Refine Graph
begin

section \<open>Pattern detection\<close>

text \<open>
  \<^verbatim>\<open>src/patternDetect.cpp\<close>: two rewritings of comparisons.  The bits of a one-hot signal
  \<^verbatim>\<open>dshl(1, shift)\<close> become comparisons of the shift amount, and a comparison of a concatenation
  with a constant becomes two comparisons.
\<close>

subsection \<open>Pattern 1: bits of a one-hot signal\<close>

text \<open>A child that has to be there: \<^verbatim>\<open>getChild\<close> asserts the index, and the source dereferences it.\<close>

definition the_child :: "enode \<Rightarrow> nat \<Rightarrow> enode abortable" where
  "the_child e i = (case getChild e i of Some (Some c) \<Rightarrow> Some c | _ \<Rightarrow> None)"

definition isDshlOne :: "enode \<Rightarrow> enode option abortable" where
  "isDshlOne e =
     (if e_op e \<noteq> OP_DSHL then Some None
      else do { c \<leftarrow> the_child e 0;
                if e_op c \<noteq> OP_INT \<or> snd (firStrBase (strVal (attr c))) \<noteq> ''1'' then Some None
                else do { s \<leftarrow> the_child e 1;
                          Some (if e_node s \<noteq> None then Some s else None) } })"

definition isBitsOne :: "enode \<Rightarrow> bool abortable" where
  "isBitsOne e =
     (if e_op e \<noteq> OP_BITS then Some False
      else do { h \<leftarrow> val_at (e_values e) 0; l \<leftarrow> val_at (e_values e) 1; Some (h = l) })"

definition shift_equals :: "enode \<Rightarrow> int \<Rightarrow> enode" where
  "shift_equals s i =
     ENode ((new_eattr OP_EQ)\<lparr>width := 1\<rparr>) [Some (dup s), Some (allocIntEnode (e_width s) (str_of_int 10 i) False)]"

definition bits_of_onehot :: "node \<Rightarrow> int option abortable" where
  "bits_of_onehot nd =
     (if isArray nd then Some None
      else case assignTree nd of
             [t] \<Rightarrow> do { b \<leftarrow> isBitsOne (root t);
                        if b then do { i \<leftarrow> val_at (e_values (root t)) 0; Some (Some i) } else Some None }
           | _ \<Rightarrow> Some None)"

definition rewrite_bits :: "enode \<Rightarrow> nodeid \<Rightarrow> bool \<times> heap \<Rightarrow> (bool \<times> heap) abortable" where
  "rewrite_bits s m st =
     (case st of (ret, h) \<Rightarrow>
      do { b \<leftarrow> bits_of_onehot (h m);
           case b of
             None \<Rightarrow> Some (False, h)
           | Some i \<Rightarrow>
               Some (ret, h(m := (h m)\<lparr>assignTree := [\<lparr>root = shift_equals s i, lvalue = new_leaf m\<rparr>]\<rparr>)) })"

text \<open>Scalar inner nodes with one tree, to which both patterns are restricted.\<close>

definition single_root :: "node \<Rightarrow> enode option" where
  "single_root nd =
     (if isArray nd \<or> ntype nd \<noteq> NODE_OTHERS then None
      else case assignTree nd of [t] \<Rightarrow> Some (root t) | _ \<Rightarrow> None)"

definition checkPattern1 :: "nodeid \<Rightarrow> heap \<Rightarrow> (bool \<times> heap) abortable" where
  "checkPattern1 n h =
     (case single_root (h n) of
        None \<Rightarrow> Some (False, h)
      | Some r \<Rightarrow>
          do { s \<leftarrow> isDshlOne r;
               case s of
                 None \<Rightarrow> Some (False, h)
               | Some sh \<Rightarrow>
                   do { (ret, h1) \<leftarrow> fold_abort (rewrite_bits sh) (sorted_list_of_set (next (h n))) (True, h);
                        Some (ret, if ret then h1(n := (h1 n)\<lparr>status := DEAD_NODE\<rparr>) else h1) } })"

subsection \<open>Pattern 2: a concatenation against a constant\<close>

text \<open>\<^verbatim>\<open>BITS_mpz\<close>; its bit positions are \<^verbatim>\<open>size_t\<close>.\<close>

definition size_t :: "int \<Rightarrow> nat" where
  "size_t i = nat (i mod 2 ^ 64)"

definition BITS_mpz :: "gmp \<Rightarrow> int \<Rightarrow> int \<Rightarrow> int \<Rightarrow> int" where
  "BITS_mpz G op high low =
     mpz_and G (mpz_tdiv_q_2exp G op (size_t low))
       (mpz_sub G (mpz_mul_2exp G 1 (size_t (high - low + 1))) 1)"

definition peel :: "OPType \<Rightarrow> enode \<Rightarrow> enode abortable" where
  "peel op e = (if e_op e = op then the_child e 0 else Some e)"

text \<open>The constants both halves are compared with, or \<open>None\<close> when the pattern does not apply.\<close>

definition split_constant :: "gmp \<Rightarrow> enode \<Rightarrow> int \<Rightarrow> int \<Rightarrow> int \<Rightarrow> (int \<times> int) option abortable" where
  "split_constant G cat c lw rw =
     (if e_op cat = OP_CAT
      then Some (Some (BITS_mpz G c (lw + rw) (rw + 1), BITS_mpz G c (rw - 1) 0))
      else do { l \<leftarrow> the_child cat 0;
                if e_op l = OP_SHL
                then do { v \<leftarrow> val_at (e_values l) 0;
                          Some (Some (BITS_mpz G c (e_width l - 1) (v mod 2 ^ 16), BITS_mpz G c (rw - 1) 0)) }
                else Some None })"

definition equals_const :: "gmp \<Rightarrow> enode \<Rightarrow> int \<Rightarrow> enode" where
  "equals_const G e c =
     ENode ((new_eattr OP_EQ)\<lparr>width := 1\<rparr>) [Some (dup e), Some (allocIntEnode (e_width e) (mpz_get_str G 10 c) False)]"

definition split_equal :: "gmp \<Rightarrow> enode \<Rightarrow> enode option abortable" where
  "split_equal G r =
     (if e_op r \<noteq> OP_EQ then Some None
      else
        do { k \<leftarrow> the_child r 1;
             if e_op k \<noteq> OP_INT then Some None
             else
               do { cat \<leftarrow> the_child r 0;
                    if e_op cat \<noteq> OP_CAT \<and> e_op cat \<noteq> OP_OR then Some None
                    else
                      do { l0 \<leftarrow> the_child cat 0; r0 \<leftarrow> the_child cat 1;
                           lsignal \<leftarrow> peel OP_SHL l0; rsignal \<leftarrow> peel OP_PAD r0;
                           let c = mpz_set_str G (strVal (attr k)) 10;
                           cs \<leftarrow> split_constant G cat c (e_width lsignal) (e_width rsignal);
                           Some (map_option (\<lambda>(c1, c2).
                             ENode ((attr r)\<lparr>opType := OP_AND\<rparr>)
                               [Some (equals_const G lsignal c1), Some (equals_const G rsignal c2)]) cs) } } })"

definition checkPattern2 :: "gmp \<Rightarrow> nodeid \<Rightarrow> heap \<Rightarrow> (bool \<times> heap) abortable" where
  "checkPattern2 G n h =
     (case single_root (h n) of
        None \<Rightarrow> Some (False, h)
      | Some r \<Rightarrow>
          do { q \<leftarrow> split_equal G r;
               Some (case q of
                       None \<Rightarrow> (False, h)
                     | Some r1 \<Rightarrow> (True, h(n := (h n)\<lparr>assignTree := map (\<lambda>t. t\<lparr>root := r1\<rparr>) (assignTree (h n))\<rparr>))) })"

subsection \<open>The pass\<close>

definition check_member :: "gmp \<Rightarrow> nodeid \<Rightarrow> heap \<Rightarrow> heap abortable" where
  "check_member G n h = do { (_, h1) \<leftarrow> checkPattern2 G n h; (_, h2) \<leftarrow> checkPattern1 n h1; Some h2 }"

definition patternDetect :: "gmp \<Rightarrow> graph \<Rightarrow> graph abortable" where
  "patternDetect G g =
     do { h \<leftarrow> fold_abort (check_member G) (all_members g) (nodes g);
          reconnectAll (removeNodesNoConnect DEAD_NODE (g\<lparr>nodes := h\<rparr>)) }"

section \<open>When the rewritings keep the values\<close>

subsection \<open>Pattern 1\<close>

lemma bit_wrap_low: "i < w \<Longrightarrow> bit (wrap w s v) i = bit v i"
  by (metis bit_take_bit_iff take_bit_wrap_same)

lemma bit_onehot: "i < w \<Longrightarrow> bit (wrap w s (push_bit n 1)) i \<longleftrightarrow> i = n"
  by (auto simp: bit_wrap_low bit_exp_iff)

lemma one_bit: "drop_bit i (v :: int) mod 2 = of_bool (bit v i)"
  by (simp add: bit_iff_odd_drop_bit mod_2_eq_odd)

text \<open>The literal, the shift amount and the width of a one-hot signal as the pattern needs them.\<close>

definition onehot_ok :: "enode \<Rightarrow> bool" where
  "onehot_ok r \<longleftrightarrow>
     e_node r = None \<and>
     (\<exists>c s. child r = [Some c, Some s] \<and> e_node c = None \<and> int_literal (strVal (attr c)) = Some 1
        \<and> fits (nat (e_width c)) (e_sign c) 1 \<and> e_op s = OP_EMPTY \<and> \<not> e_sign s)"

definition bits_ok :: "nodeid \<Rightarrow> enode \<Rightarrow> enode \<Rightarrow> bool" where
  "bits_ok n r e \<longleftrightarrow>
     e_node e = None \<and> e_width e = 1 \<and> \<not> e_sign e \<and>
     (\<exists>q i. child e = [Some q] \<and> e_node q = Some n \<and> child q = [] \<and> e_values e = [i, i]
        \<and> 0 \<le> i \<and> i < e_width q \<and> i < e_width r
        \<and> (\<forall>s. isDshlOne r = Some (Some s) \<longrightarrow> fits (nat (e_width s)) False i))"

lemma hd_decimal: "0 \<le> i \<Longrightarrow> hd (str_of_int 10 i) \<noteq> CHR ''-''"
  by (simp add: str_of_int_def hd_str_of_nat)

lemma eval_literal:
  assumes "0 \<le> i" "fits (nat w) False i"
  shows "eval E (allocIntEnode w (str_of_int 10 i) False) = Val i"
proof -
  have "int_literal (str_of_int 10 i) = Some i" by (rule firStrBase_decimal) (simp add: int_of_str_of_int)
  with assms hd_decimal [OF assms(1)] show ?thesis
    by (simp add: allocIntEnode_def new_eattr_def eval_ENode apply_op_def of_opt_def keep_bits_def wrap_fits)
qed

lemma onehot_value:
  assumes "onehot_ok r" "isDshlOne r = Some (Some s)" "eval E r = Val v"
  shows "\<exists>x. eval E s = Val x \<and> 0 \<le> x \<and> v = wrap (nat (e_width r)) (e_sign r) (push_bit (nat x) 1)"
proof -
  from assms(1,2) obtain c where c: "child r = [Some c, Some s]" "e_node r = None" "e_node c = None"
    "int_literal (strVal (attr c)) = Some 1" "fits (nat (e_width c)) (e_sign c) 1" "\<not> e_sign s" "e_op r = OP_DSHL"
    "e_op c = OP_INT" "e_op s = OP_EMPTY"
    by (auto simp: onehot_ok_def isDshlOne_def the_child_def getChild_def getChildNum_def split: if_splits bind_splits)
  have one: "eval E c = Val 1" using c by (cases c) (simp add: eval_ENode apply_op_def of_opt_def keep_bits_def wrap_fits)
  from assms(3) c one obtain x where x: "eval E s = Val x" "v = wrap (nat (e_width r)) (e_sign r) (push_bit (nat x) 1)"
    by (cases r; cases "eval E s") (auto simp: eval_ENode apply_op_def apply_prim_def prim2_def of_opt_def keep_bits_def)
  from eval_fits [OF x(1)] c(6,9) have "0 \<le> x" by (auto simp: is_index_def fits_def split: if_splits)
  with x show ?thesis by blast
qed

lemma shift_equals_eval:
  assumes "onehot_ok r" "isDshlOne r = Some (Some s)" "eval E r = Val (val E n [])"
    and "bits_ok n r e" "e_op e = OP_BITS" "e_values e = [i, i]"
  shows "eval E (shift_equals s i) = eval E e"
proof -
  from onehot_value [OF assms(1-3)] obtain x where x: "eval E s = Val x" "0 \<le> x"
    "val E n [] = wrap (nat (e_width r)) (e_sign r) (push_bit (nat x) 1)" by blast
  from assms(4,6,2) obtain q where q: "child e = [Some q]" "e_node q = Some n" "child q = []" "0 \<le> i" "i < e_width q"
    "i < e_width r" "fits (nat (e_width s)) False i" "e_node e = None" "e_width e = 1" "\<not> e_sign e"
    by (auto simp: bits_ok_def)
  have qv: "eval E q = Val (wrap (nat (e_width q)) (e_sign q) (val E n []))"
    using q(2,3) by (cases q) (simp add: eval_ref)
  have "bit (take_bit (nat (e_width q)) (val E n [])) (nat i) \<longleftrightarrow> x = i"
    using q(4-6) x(2) bit_onehot [of "nat i" "nat (e_width r)" "e_sign r" "nat x"]
    by (auto simp: x(3) bit_take_bit_iff)
  then have b: "drop_bit (nat i) (take_bit (nat (e_width q)) (val E n [])) mod 2 = of_bool (x = i)"
    by (simp add: one_bit)
  have "eval E e = Val (of_bool (x = i))"
    using q qv assms(5,6) b
    by (cases e) (simp add: eval_ENode apply_op_def apply_prim_def prim1_def of_opt_def keep_bits_def wrap_fits fits_def)
  moreover have "eval E (shift_equals s i) = Val (of_bool (x = i))"
    using eval_literal [OF q(4,7)] x(1)
    by (simp add: shift_equals_def new_eattr_def eval_ENode apply_op_def apply_prim_def prim2_def of_opt_def keep_bits_def
        wrap_fits fits_def)
  ultimately show ?thesis by simp
qed

subsection \<open>Pattern 2\<close>

lemma BITS_mpz_bits:
  assumes "gmp_lib G" "0 \<le> c" "0 \<le> low" "low \<le> high + 1" "high < 2 ^ 62"
  shows "BITS_mpz G c high low = take_bit (nat (high - low + 1)) (drop_bit (nat low) c)"
proof -
  have s: "size_t low = nat low" "size_t (high - low + 1) = nat (high - low + 1)"
    using assms(3-5) by (simp_all add: size_t_def)
  have "c sdiv 2 ^ nat low = drop_bit (nat low) c"
    using assms(2) by (simp add: sdiv_pow2_nonneg drop_bit_eq_div)
  then show ?thesis
    using s by (simp add: BITS_mpz_def gmp_lib.logand [OF assms(1)] gmp_lib.tdiv_q_2exp [OF assms(1)]
        gmp_lib.sub [OF assms(1)] gmp_lib.mul_2exp [OF assms(1)] take_bit_eq_mask mask_eq_exp_minus_1)
qed

text \<open>
  The form on which the pattern is right: a disjunction of \<open>x\<close> shifted by exactly the width of
  \<open>y\<close> and of \<open>y\<close>, all unsigned, compared with a decimal constant that fits.
\<close>

definition value_ok :: "enode \<Rightarrow> bool" where
  "value_ok e \<longleftrightarrow> when_free e \<and> \<not> is_index e \<and> \<not> e_sign e \<and> 0 \<le> e_width e"

definition wide_copy :: "enode \<Rightarrow> enode \<Rightarrow> bool" where
  "wide_copy y r0 \<longleftrightarrow>
     (if e_op r0 = OP_PAD
      then e_node r0 = None \<and> child r0 = [Some y] \<and> e_width y \<le> e_width r0 \<and> \<not> e_sign r0
      else r0 = y)"

definition split_form :: "enode \<Rightarrow> enode \<Rightarrow> enode \<Rightarrow> enode \<Rightarrow> enode \<Rightarrow> enode \<Rightarrow> enode \<Rightarrow> int \<Rightarrow> bool" where
  "split_form r cat k l0 r0 x y c \<longleftrightarrow>
     child r = [Some cat, Some k] \<and> e_node r = None \<and> e_width r = 1 \<and> \<not> e_sign r
   \<and> e_op cat = OP_OR \<and> e_node cat = None \<and> child cat = [Some l0, Some r0] \<and> \<not> e_sign cat
   \<and> e_width l0 \<le> e_width cat \<and> e_width r0 \<le> e_width cat
   \<and> e_op l0 = OP_SHL \<and> e_node l0 = None \<and> child l0 = [Some x] \<and> \<not> e_sign l0
   \<and> e_values l0 = [e_width y] \<and> e_width l0 = e_width x + e_width y
   \<and> value_ok x \<and> value_ok y \<and> wide_copy y r0
   \<and> e_node k = None \<and> int_of_str 10 (strVal (attr k)) = Some c
   \<and> 0 \<le> c \<and> c < 2 ^ nat (e_width l0) \<and> fits (nat (e_width k)) (e_sign k) c
   \<and> e_width y < 2 ^ 16 \<and> e_width l0 < 2 ^ 62"

definition split_ok :: "enode \<Rightarrow> bool" where
  "split_ok r \<longleftrightarrow> (\<exists>cat k l0 r0 x y c. split_form r cat k l0 r0 x y c)"

lemma join_equal:
  fixes a b c :: int
  assumes "0 \<le> b" "b < 2 ^ n"
  shows "push_bit n a OR b = c \<longleftrightarrow> a = drop_bit n c \<and> b = take_bit n c"
proof
  have b: "take_bit n b = b" "drop_bit n b = 0" using assms by (simp_all add: take_bit_int_eq_self drop_bit_eq_div)
  show "a = drop_bit n c \<and> b = take_bit n c" if "push_bit n a OR b = c"
    using b that by (auto simp: drop_bit_push_bit take_bit_push_bit)
  show "push_bit n a OR b = c" if "a = drop_bit n c \<and> b = take_bit n c"
  proof (rule bit_eqI)
    fix i
    show "bit (push_bit n a OR b) i \<longleftrightarrow> bit c i" using that
      by (auto simp: bit_or_iff bit_push_bit_iff bit_drop_bit_eq bit_take_bit_iff)
  qed
qed

lemma eval_EQ:
  assumes "nodePtr a = None" "opType a = OP_EQ" "width a = 1" "\<not> sign a" "eval E c \<noteq> Keep" "eval E d \<noteq> Keep"
  shows "eval E (ENode a [Some c, Some d]) =
    (case (eval E c, eval E d) of (Val u, Val v) \<Rightarrow> Val (of_bool (u = v)) | _ \<Rightarrow> Undef)"
  using assms
  by (cases "eval E c"; cases "eval E d")
     (simp_all add: eval_ENode apply_op_def apply_prim_def prim2_def of_opt_def keep_bits_def wrap_fits fits_def)

lemma eval_equals_const:
  assumes "gmp_lib G" "value_ok e" "0 \<le> c" "fits (nat (e_width e)) False c"
  shows "eval E (equals_const G e c) = (case eval E e of Val u \<Rightarrow> Val (of_bool (u = c)) | _ \<Rightarrow> Undef)"
proof -
  have "int_literal (mpz_get_str G 10 c) = Some c"
    by (rule firStrBase_decimal) (simp add: gmp_lib.get_str [OF assms(1)])
  then have k: "eval E (allocIntEnode (e_width e) (mpz_get_str G 10 c) False) = Val c"
    using assms(4) gmp_lib.get_str_nonneg [OF assms(1) _ assms(3), of 10]
    by (simp add: allocIntEnode_def new_eattr_def eval_ENode apply_op_def of_opt_def keep_bits_def wrap_fits)
  have "eval E e \<noteq> Keep" using assms(2) by (simp add: value_ok_def when_free_not_Keep)
  with k show ?thesis unfolding equals_const_def
    by (subst eval_EQ) (auto simp: new_eattr_def split: outcome.splits)
qed

lemma eval_wide_copy:
  assumes "value_ok y" "wide_copy y r0"
  shows "eval E r0 = eval E y" "\<not> e_sign r0"
proof -
  have y: "when_free y" "\<not> is_index y" "\<not> e_sign y" using assms(1) by (simp_all add: value_ok_def)
  show "eval E r0 = eval E y"
  proof (cases "e_op r0 = OP_PAD")
    case True
    with assms(2) have r: "e_node r0 = None" "child r0 = [Some y]" "e_width y \<le> e_width r0" "\<not> e_sign r0"
      by (auto simp: wide_copy_def)
    show ?thesis
    proof (cases "eval E y")
      case (Val v)
      from eval_fits [OF Val y(2)] y(3) r(3) have "fits (nat (e_width r0)) False v" by (auto intro: fits_mono)
      then show ?thesis using Val True r
        by (cases r0) (simp add: eval_ENode apply_op_def apply_prim_def prim1_def of_opt_def keep_bits_def wrap_fits)
    next
      case Undef
      then show ?thesis using True r by (cases r0) (simp add: eval_ENode apply_op_def apply_prim_def)
    qed (use when_free_not_Keep [OF y(1)] in blast)
  qed (use assms(2) in \<open>simp add: wide_copy_def\<close>)
  show "\<not> e_sign r0" using assms(2) y(3) by (auto simp: wide_copy_def split: if_splits)
qed

lemma eval_shifted:
  assumes "value_ok x" "e_op l0 = OP_SHL" "e_node l0 = None" "child l0 = [Some x]" "\<not> e_sign l0"
    "e_values l0 = [s]" "e_width l0 = e_width x + s" "0 \<le> s"
  shows "eval E l0 = (case eval E x of Val u \<Rightarrow> Val (push_bit (nat s) u) | _ \<Rightarrow> Undef)"
proof (cases "eval E x")
  case (Val u)
  have "fits (nat (e_width x)) False u" using eval_fits [OF Val] assms(1) by (simp add: value_ok_def)
  then have "fits (nat (e_width l0)) False (push_bit (nat s) u)"
    using assms(1,7,8) fits_push_bit [of "nat (e_width x)" False u "nat s"]
    by (simp add: value_ok_def nat_add_distrib)
  with Val assms(2-6) show ?thesis
    by (cases l0) (simp add: eval_ENode apply_op_def apply_prim_def prim1_def of_opt_def keep_bits_def wrap_fits)
qed (use assms in \<open>cases l0; simp add: eval_ENode apply_op_def apply_prim_def\<close>)+

lemma take_bit_fits: "fits w False v \<Longrightarrow> w \<le> n \<Longrightarrow> take_bit n v = v"
  by (metis fits_mono wrap_fits wrap_unsigned)

lemma eval_or:
  assumes "e_op cat = OP_OR" "e_node cat = None" "child cat = [Some l0, Some r0]" "\<not> e_sign cat"
    "e_width l0 \<le> e_width cat" "e_width r0 \<le> e_width cat"
    "eval E l0 = Val A" "eval E r0 = Val B" "fits (nat (e_width l0)) False A" "fits (nat (e_width r0)) False B"
  shows "eval E cat = Val (A OR B)"
proof -
  have "take_bit n (A OR B) = A OR B" if "nat (e_width l0) \<le> n" "nat (e_width r0) \<le> n" for n
    using take_bit_fits [OF assms(9) that(1)] take_bit_fits [OF assms(10) that(2)] by (simp add: take_bit_or)
  with assms show ?thesis
    by (cases cat) (simp add: eval_ENode apply_op_def apply_prim_def prim2_def of_opt_def keep_bits_def wrap_unsigned)
qed

text \<open>The old value and the new value of the comparison, by the values of the two halves.\<close>

lemma split_old_value:
  assumes f: "split_form r cat k l0 r0 x y c" and op: "e_op r = OP_EQ" "e_op k = OP_INT"
  shows "eval E r = (case (eval E x, eval E y) of
      (Val u, Val u') \<Rightarrow> Val (of_bool (push_bit (nat (e_width y)) u OR u' = c)) | _ \<Rightarrow> Undef)"
proof -
  have xy: "value_ok x" "value_ok y" "wide_copy y r0" using f by (auto simp: split_form_def)
  then have w: "0 \<le> e_width y" "eval E x \<noteq> Keep" "eval E y \<noteq> Keep" by (simp_all add: value_ok_def when_free_not_Keep)
  have lv: "eval E l0 = (case eval E x of Val u \<Rightarrow> Val (push_bit (nat (e_width y)) u) | _ \<Rightarrow> Undef)"
    by (rule eval_shifted [OF xy(1)]) (use f w in \<open>auto simp: split_form_def\<close>)
  have rv: "eval E r0 = eval E y" by (rule eval_wide_copy(1) [OF xy(2,3)])
  have kv: "eval E k = Val c"
    using f op(2) firStrBase_decimal [of "strVal (attr k)" c]
    by (cases k) (simp add: split_form_def eval_ENode apply_op_def of_opt_def keep_bits_def wrap_fits)
  have r: "child r = [Some cat, Some k]" "e_node r = None" "e_width r = 1" "\<not> e_sign r"
    and c: "child cat = [Some l0, Some r0]" "e_node cat = None" "e_op cat = OP_OR" using f by (simp_all add: split_form_def)
  have und: "eval E r = Undef" if "eval E x = Undef \<or> eval E y = Undef"
  proof -
    have "eval E cat = Undef" using that c lv rv w
      by (cases cat; cases "eval E x"; cases "eval E y") (simp_all add: eval_ENode apply_op_def apply_prim_def)
    then show ?thesis using r op by (cases r) (simp add: eval_ENode apply_op_def apply_prim_def)
  qed
  have both: "eval E r = Val (of_bool (push_bit (nat (e_width y)) u OR u' = c))"
    if v: "eval E x = Val u" "eval E y = Val u'" for u u'
  proof -
    have "fits (nat (e_width l0)) False (push_bit (nat (e_width y)) u)"
      using eval_fits [of E l0] lv v(1) f by (simp add: split_form_def is_index_def)
    moreover have "fits (nat (e_width r0)) False u'"
      using eval_fits [OF v(2)] xy by (auto simp: value_ok_def wide_copy_def split: if_splits intro: fits_mono)
    ultimately have "eval E cat = Val (push_bit (nat (e_width y)) u OR u')"
      using eval_or [of cat l0 r0 E] f lv rv v by (simp add: split_form_def)
    then show ?thesis using kv r op
      by (cases r) (simp add: eval_ENode apply_op_def apply_prim_def prim2_def of_opt_def keep_bits_def wrap_fits fits_def)
  qed
  show ?thesis using und both w by (cases "eval E x"; cases "eval E y") simp_all
qed

lemma split_equal_result:
  assumes G: "gmp_lib G" and f: "split_form r cat k l0 r0 x y c" and s: "split_equal G r = Some (Some r1)"
  shows "e_op r = OP_EQ" "e_op k = OP_INT"
    "r1 = ENode ((attr r)\<lparr>opType := OP_AND\<rparr>)
       [Some (equals_const G x (drop_bit (nat (e_width y)) c)), Some (equals_const G y (take_bit (nat (e_width y)) c))]"
    "fits (nat (e_width x)) False (drop_bit (nat (e_width y)) c)"
    "fits (nat (e_width y)) False (take_bit (nat (e_width y)) c)" "0 \<le> c"
proof -
  have w: "0 \<le> e_width x" "0 \<le> e_width y" "e_width l0 = e_width x + e_width y" "e_width l0 < 2 ^ 62"
    and c: "0 \<le> c" "c < 2 ^ nat (e_width l0)" using f unfolding split_form_def value_ok_def by blast+
  show op: "e_op r = OP_EQ" "e_op k = OP_INT" using s f
    by (auto simp: split_form_def split_equal_def the_child_def getChild_def getChildNum_def split: if_splits)
  have "fits (nat (e_width l0)) False c" using c by (auto simp: fits_def)
  from fits_drop_bit_less [OF this, of "nat (e_width y)"] w
  show f1: "fits (nat (e_width x)) False (drop_bit (nat (e_width y)) c)" by (simp add: nat_add_distrib)
  show "fits (nat (e_width y)) False (take_bit (nat (e_width y)) c)" by (simp add: fits_take_bit)
  have "BITS_mpz G c (e_width l0 - 1) (e_width y) = drop_bit (nat (e_width y)) c"
    using BITS_mpz_bits [OF G c(1), of "e_width y" "e_width l0 - 1"] w take_bit_fits [OF f1] by simp
  moreover have "BITS_mpz G c (e_width y - 1) 0 = take_bit (nat (e_width y)) c"
    using BITS_mpz_bits [OF G c(1), of 0 "e_width y - 1"] w by simp
  moreover have "peel OP_SHL l0 = Some x" "peel OP_PAD r0 = Some y"
    using f by (auto simp: split_form_def peel_def the_child_def getChild_def getChildNum_def wide_copy_def split: if_splits)
  moreover have "mpz_set_str G (strVal (attr k)) 10 = c" using f gmp_lib.set_str [OF G] by (simp add: split_form_def)
  ultimately show "r1 = ENode ((attr r)\<lparr>opType := OP_AND\<rparr>)
       [Some (equals_const G x (drop_bit (nat (e_width y)) c)), Some (equals_const G y (take_bit (nat (e_width y)) c))]"
    using s f op w
    by (simp add: split_form_def split_equal_def the_child_def getChild_def getChildNum_def split_constant_def val_at_def)
  show "0 \<le> c" by (rule c(1))
qed

lemma split_equal_eval:
  assumes G: "gmp_lib G" and f: "split_ok r" and s: "split_equal G r = Some (Some r1)"
  shows "eval E r1 = eval E r" "e_op r1 = OP_AND"
proof -
  from f obtain cat k l0 r0 x y c where f: "split_form r cat k l0 r0 x y c" by (auto simp: split_ok_def)
  note res = split_equal_result [OF G f s]
  from res(3) show "e_op r1 = OP_AND" by simp
  let ?c1 = "drop_bit (nat (e_width y)) c" and ?c2 = "take_bit (nat (e_width y)) c"
  have v: "value_ok x" "value_ok y" using f by (auto simp: split_form_def)
  have nk: "eval E x \<noteq> Keep" "eval E y \<noteq> Keep" using v by (simp_all add: value_ok_def when_free_not_Keep)
  have new: "eval E r1 = (case (eval E x, eval E y) of
      (Val u, Val u') \<Rightarrow> Val (of_bool (u = ?c1 \<and> u' = ?c2)) | _ \<Rightarrow> Undef)"
    unfolding res(3) using eval_equals_const [OF G v(1) _ res(4), of E] eval_equals_const [OF G v(2) _ res(5), of E] res(6) f
    by (cases "eval E x"; cases "eval E y")
       (simp_all add: split_form_def eval_ENode apply_op_def apply_prim_def prim2_def of_opt_def keep_bits_def
          equals_const_def new_eattr_def wrap_fits fits_def)
  note old = split_old_value [OF f res(1,2), of E]
  show "eval E r1 = eval E r"
  proof (cases "eval E x"; cases "eval E y")
    fix u u' assume xy: "eval E x = Val u" "eval E y = Val u'"
    from eval_fits [OF xy(2)] v(2) have "0 \<le> u'" "u' < 2 ^ nat (e_width y)"
      by (auto simp: value_ok_def fits_def split: if_splits)
    from join_equal [OF this, of u c] show ?thesis using xy new old by simp
  qed (use nk new old in simp_all)
qed

section \<open>The pass on a graph\<close>

text \<open>Trees that neither pattern looks at again: the ones the pass writes.\<close>

definition inert :: "gmp \<Rightarrow> enode \<Rightarrow> bool" where
  "inert G r \<longleftrightarrow> split_equal G r = Some None \<and> isDshlOne r = Some None \<and> isBitsOne r = Some False"

lemma inert_shift_equals: "e_op s = OP_EMPTY \<Longrightarrow> inert G (shift_equals s i)"
  by (cases s) (simp add: inert_def shift_equals_def split_equal_def isDshlOne_def isBitsOne_def the_child_def
      getChild_def getChildNum_def new_eattr_def allocIntEnode_def dup_attr_def)

lemma inert_and: "e_op r = OP_AND \<Longrightarrow> inert G r"
  by (simp add: inert_def split_equal_def isDshlOne_def isBitsOne_def)

text \<open>
  What the pass relies on, for a state \<open>E\<close> in which the one-hot signals have their values: no
  null pointers, both patterns only where they are right, and a signal is not read by itself.
\<close>

definition onehot_use_ok :: "env \<Rightarrow> heap \<Rightarrow> nodeid \<Rightarrow> enode \<Rightarrow> bool" where
  "onehot_use_ok E N n r \<longleftrightarrow>
     onehot_ok r \<and> eval E r = Val (val E n []) \<and> finite (next (N n)) \<and> n \<notin> set (rely_list r) \<and>
     (\<forall>m \<in> next (N n). \<forall>i. bits_of_onehot (N m) = Some (Some i) \<longrightarrow>
        (\<exists>t. assignTree (N m) = [t] \<and> bits_ok n r (root t)))"

definition pattern_ok :: "gmp \<Rightarrow> env \<Rightarrow> heap \<Rightarrow> nodeid \<Rightarrow> bool" where
  "pattern_ok G E N n \<longleftrightarrow>
     bits_of_onehot (N n) \<noteq> None \<and>
     (\<forall>r. single_root (N n) = Some r \<longrightarrow>
        split_equal G r \<noteq> None \<and> isDshlOne r \<noteq> None
      \<and> (\<forall>r1. split_equal G r = Some (Some r1) \<longrightarrow> split_ok r)
      \<and> (\<forall>s. isDshlOne r = Some (Some s) \<longrightarrow> onehot_use_ok E N n r))"

definition same_shape :: "node \<Rightarrow> node \<Rightarrow> bool" where
  "same_shape a b \<longleftrightarrow> (\<exists>ts st. b = a\<lparr>assignTree := ts, status := st\<rparr>)"

lemma same_shape_upd:
  assumes "same_shape a b"
  shows "same_shape a (b\<lparr>assignTree := ts\<rparr>)" "same_shape a (b\<lparr>status := st\<rparr>)"
proof -
  obtain ts0 st0 where b: "b = a\<lparr>assignTree := ts0, status := st0\<rparr>" 
    using assms unfolding same_shape_def by (elim exE) (rule that)
  then have "b\<lparr>assignTree := ts\<rparr> = a\<lparr>assignTree := ts, status := st0\<rparr>" by simp
  then show "same_shape a (b\<lparr>assignTree := ts\<rparr>)" unfolding same_shape_def by blast
  from b have "b\<lparr>status := st\<rparr> = a\<lparr>assignTree := ts0, status := st\<rparr>" by simp
  then show "same_shape a (b\<lparr>status := st\<rparr>)" unfolding same_shape_def by blast
qed

definition rewritten :: "gmp \<Rightarrow> env \<Rightarrow> node \<Rightarrow> node \<Rightarrow> bool" where
  "rewritten G E a b \<longleftrightarrow>
     same_shape a b \<and>
     (assignTree b = assignTree a \<or>
      (\<exists>t t0. assignTree b = [t] \<and> assignTree a = [t0] \<and> inert G (root t) \<and> eval E (root t) = eval E (root t0)))"

definition unread :: "gmp \<Rightarrow> heap \<Rightarrow> nodeid \<Rightarrow> heap \<Rightarrow> bool" where
  "unread G N n h \<longleftrightarrow>
     (\<forall>m \<in> next (N n). \<exists>t. assignTree (h m) = [t] \<and> inert G (root t) \<and> n \<notin> getRelyNodes t)"

definition pattern_inv :: "gmp \<Rightarrow> env \<Rightarrow> heap \<Rightarrow> heap \<Rightarrow> bool" where
  "pattern_inv G E N h \<longleftrightarrow>
     (\<forall>n. rewritten G E (N n) (h n))
     \<and> (\<forall>n. status (h n) = DEAD_NODE \<longrightarrow> status (N n) = DEAD_NODE \<or> unread G N n h)"

lemma rewritten_fields:
  assumes "rewritten G E a b"
  shows "ntype b = ntype a" "dimension b = dimension a" "next b = next a" "super b = super a" "parent b = parent a"
    "resetTree b = resetTree a" "nreset b = nreset a"
  using assms unfolding rewritten_def same_shape_def by auto

lemma rewritten_refl [simp, intro]: "rewritten G E a a"
  unfolding rewritten_def same_shape_def by (rule conjI, rule exI [of _ "assignTree a"], rule exI [of _ "status a"]) simp_all

text \<open>A rewriting keeps the invariant when it only touches trees that are still original.\<close>

lemma unread_upd:
  assumes "unread G N n h" "\<And>t. assignTree (h m) = [t] \<Longrightarrow> inert G (root t) \<Longrightarrow> assignTree nd = [t]"
  shows "unread G N n (h(m := nd))"
  using assms unfolding unread_def by (auto simp: fun_upd_def)

lemma pattern_inv_upd:
  assumes inv: "pattern_inv G E N h" and orig: "assignTree (h m) = [t0]" "assignTree (N m) = [t0]" "\<not> inert G (root t0)"
    and new: "inert G (root t)" "eval E (root t) = eval E (root t0)"
  shows "pattern_inv G E N (h(m := (h m)\<lparr>assignTree := [t]\<rparr>))"
proof -
  let ?nd = "(h m)\<lparr>assignTree := [t]\<rparr>"
  have "rewritten G E (N m) ?nd" using inv orig new by (auto simp: pattern_inv_def rewritten_def same_shape_upd)
  moreover have "unread G N n (h(m := ?nd))" if "unread G N n h" for n
    using that orig by (intro unread_upd) auto
  ultimately show ?thesis using inv unfolding pattern_inv_def by auto
qed

lemma pattern_inv_tree:
  assumes "pattern_inv G E N h" "assignTree (h n) = [t]" "\<not> inert G (root t)"
  shows "assignTree (N n) = [t]"
proof -
  from assms(1) have "rewritten G E (N n) (h n)" by (simp add: pattern_inv_def)
  with assms(2,3) show ?thesis by (auto simp: rewritten_def)
qed

lemma inv_fields:
  assumes "pattern_inv G E N h"
  shows "isArray (h n) = isArray (N n)" "ntype (h n) = ntype (N n)" "next (h n) = next (N n)"
  using assms rewritten_fields [of G E "N n" "h n"] by (simp_all add: pattern_inv_def isArray_def)

lemma inv_single_root:
  assumes "pattern_inv G E N h" "single_root (h n) = Some r" "\<not> inert G r"
  shows "single_root (N n) = Some r"
  using assms pattern_inv_tree [OF assms(1), of n] inv_fields [OF assms(1)]
  by (auto simp: single_root_def split: if_splits list.splits)

lemma checkPattern2_inv:
  assumes "gmp_lib G" "pattern_inv G E N h" "pattern_ok G E N n"
  shows "\<exists>b h'. checkPattern2 G n h = Some (b, h') \<and> pattern_inv G E N h'"
proof (cases "single_root (h n)")
  case None
  then show ?thesis using assms(2) by (auto simp: checkPattern2_def)
next
  case (Some r)
  show ?thesis
  proof (cases "split_equal G r")
    case None
    then have "\<not> inert G r" by (simp add: inert_def)
    from inv_single_root [OF assms(2) Some this] None assms(3) show ?thesis by (simp add: pattern_ok_def)
  next
    case s: (Some q)
    show ?thesis
    proof (cases q)
      case None
      then show ?thesis using Some s assms(2) by (auto simp: checkPattern2_def)
    next
      case q: (Some r1)
      then have ni: "\<not> inert G r" using s by (simp add: inert_def)
      from Some obtain t where t: "assignTree (h n) = [t]" "root t = r"
        by (auto simp: single_root_def split: if_splits list.splits)
      have "split_ok r" using inv_single_root [OF assms(2) Some ni] s q assms(3) by (simp add: pattern_ok_def)
      note e = split_equal_eval [OF assms(1) this s [unfolded q]]
      have "pattern_inv G E N (h(n := (h n)\<lparr>assignTree := [t\<lparr>root := r1\<rparr>]\<rparr>))"
        by (rule pattern_inv_upd [OF assms(2) t(1) pattern_inv_tree [OF assms(2) t(1)]])
           (use ni t(2) e inert_and in auto)
      then show ?thesis using Some s q t(1) by (auto simp: checkPattern2_def)
    qed
  qed
qed

lemma onehot_shift_reads:
  assumes "isDshlOne r = Some (Some s)" "onehot_ok r" "n \<notin> set (rely_list r)"
  shows "n \<notin> getRelyNodes \<lparr>root = shift_equals s i, lvalue = new_leaf m\<rparr>"
proof -
  from assms(1,2) obtain c where "child r = [Some c, Some s]"
    by (auto simp: onehot_ok_def isDshlOne_def the_child_def getChild_def getChildNum_def split: if_splits bind_splits)
  with assms(3) have "n \<notin> set (rely_list s)" by (cases r) auto
  then show ?thesis
    by (simp add: getRelyNodes_def tree_rely_list_def shift_equals_def new_leaf_def rely_dup allocIntEnode_def new_eattr_def)
qed

text \<open>A successor after the rewriting: its tree is final and does not read the signal.\<close>

definition let_go :: "gmp \<Rightarrow> nodeid \<Rightarrow> heap \<Rightarrow> nodeid \<Rightarrow> bool" where
  "let_go G n h m \<longleftrightarrow> (\<exists>t. assignTree (h m) = [t] \<and> inert G (root t) \<and> n \<notin> getRelyNodes t)"

lemma bits_of_onehot_tree:
  assumes "bits_of_onehot nd = Some (Some i)"
  shows "\<exists>t. assignTree nd = [t] \<and> e_op (root t) = OP_BITS \<and> isBitsOne (root t) = Some True
    \<and> val_at (e_values (root t)) 0 = Some i"
  using assms
  by (auto simp: bits_of_onehot_def isBitsOne_def split: if_splits list.splits bind_splits)

lemma rewrite_bits_inv:
  assumes inv: "pattern_inv G E N h" and n: "isDshlOne r = Some (Some s)" "onehot_use_ok E N n r"
    and m: "m \<in> next (N n)" "bits_of_onehot (N m) \<noteq> None"
  shows "\<exists>b h'. rewrite_bits s m (ret, h) = Some (b, h') \<and> pattern_inv G E N h' \<and> (b \<longrightarrow> ret \<and> let_go G n h' m)
    \<and> (\<forall>k. let_go G n h k \<longrightarrow> let_go G n h' k)"
proof -
  have same: "bits_of_onehot (h m) = bits_of_onehot (N m)" if "assignTree (h m) = assignTree (N m)"
    using that inv_fields(1) [OF inv] by (simp add: bits_of_onehot_def)
  have inert: "bits_of_onehot (h m) = Some None" if "assignTree (h m) = [t]" "inert G (root t)" for t
    using that by (simp add: bits_of_onehot_def inert_def)
  have re: "rewritten G E (N m) (h m)" using inv by (simp add: pattern_inv_def)
  consider (none) "bits_of_onehot (h m) = Some None" | (some) i where "bits_of_onehot (h m) = Some (Some i)"
    using re same inert m(2) by (auto simp: rewritten_def) (metis option.exhaust)
  then show ?thesis
  proof cases
    case none
    then show ?thesis using inv by (auto simp: rewrite_bits_def)
  next
    case (some i)
    let ?t = "\<lparr>root = shift_equals s i, lvalue = new_leaf m\<rparr>"
    from bits_of_onehot_tree [OF some] obtain t where t: "assignTree (h m) = [t]" "e_op (root t) = OP_BITS"
      "isBitsOne (root t) = Some True" "val_at (e_values (root t)) 0 = Some i" by blast
    then have ni: "\<not> inert G (root t)" by (simp add: inert_def)
    note tN = pattern_inv_tree [OF inv t(1) ni]
    with same some t(1) have "bits_of_onehot (N m) = Some (Some i)" by simp
    with n(2) m(1) tN have b: "bits_ok n r (root t)" "onehot_ok r" "eval E r = Val (val E n [])" "n \<notin> set (rely_list r)"
      by (auto simp: onehot_use_ok_def)
    from b(1) t(4) have "e_values (root t) = [i, i]" by (auto simp: bits_ok_def val_at_def)
    note ev = shift_equals_eval [OF b(2) n(1) b(3,1) t(2) this]
    have "e_op s = OP_EMPTY" using b(2) n(1)
      by (auto simp: onehot_ok_def isDshlOne_def the_child_def getChild_def getChildNum_def split: if_splits bind_splits)
    then have it: "inert G (root ?t)" by (simp add: inert_shift_equals)
    let ?h = "h(m := (h m)\<lparr>assignTree := [?t]\<rparr>)"
    have "pattern_inv G E N ?h" by (rule pattern_inv_upd [OF inv t(1) tN ni it]) (simp add: ev)
    moreover have "let_go G n ?h m" using it onehot_shift_reads [OF n(1) b(2,4)] by (simp add: let_go_def)
    moreover have "let_go G n ?h k" if "let_go G n h k" for k
      using that \<open>let_go G n ?h m\<close> by (cases "k = m") (simp_all add: let_go_def)
    ultimately show ?thesis using some by (auto simp: rewrite_bits_def)
  qed
qed

lemma rewrite_all_inv:
  assumes "pattern_inv G E N h" "isDshlOne r = Some (Some s)" "onehot_use_ok E N n r"
    and "set ms \<subseteq> next (N n)" "\<forall>m. bits_of_onehot (N m) \<noteq> None"
  shows "\<exists>b h'. fold_abort (rewrite_bits s) ms (ret, h) = Some (b, h') \<and> pattern_inv G E N h'
    \<and> (b \<longrightarrow> (\<forall>m \<in> set ms. let_go G n h' m)) \<and> (b \<longrightarrow> ret) \<and> (\<forall>k. let_go G n h k \<longrightarrow> let_go G n h' k)"
  using assms(1,4)
proof (induction ms arbitrary: ret h)
  case (Cons m ms)
  from rewrite_bits_inv [OF Cons.prems(1) assms(2,3), of m ret] Cons.prems(2) assms(5) obtain b h1 where
    h1: "rewrite_bits s m (ret, h) = Some (b, h1)" "pattern_inv G E N h1" "b \<longrightarrow> ret \<and> let_go G n h1 m"
      "\<forall>k. let_go G n h k \<longrightarrow> let_go G n h1 k" by auto
  from Cons.IH [OF h1(2), of b] Cons.prems(2) obtain b' h' where
    "fold_abort (rewrite_bits s) ms (b, h1) = Some (b', h')" "pattern_inv G E N h'"
    "b' \<longrightarrow> (\<forall>m \<in> set ms. let_go G n h' m)" "b' \<longrightarrow> b" "\<forall>k. let_go G n h1 k \<longrightarrow> let_go G n h' k" by auto
  with h1 show ?case by auto
qed simp

lemma mark_dead_inv:
  assumes "pattern_inv G E N h" "\<forall>m \<in> next (N n). let_go G n h m"
  shows "pattern_inv G E N (h(n := (h n)\<lparr>status := DEAD_NODE\<rparr>))"
proof -
  let ?h = "h(n := (h n)\<lparr>status := DEAD_NODE\<rparr>)"
  have tr: "assignTree (?h m) = assignTree (h m)" for m by simp
  have "rewritten G E (N n) ((h n)\<lparr>status := DEAD_NODE\<rparr>)"
    using assms(1) by (simp add: pattern_inv_def rewritten_def same_shape_upd)
  moreover have "unread G N m ?h" if "unread G N m h" for m using that unfolding unread_def tr .
  moreover have "unread G N n ?h" using assms(2) unfolding unread_def let_go_def tr .
  ultimately show ?thesis using assms(1) unfolding pattern_inv_def by auto
qed

lemma checkPattern1_inv:
  assumes inv: "pattern_inv G E N h" and ok: "\<forall>m. pattern_ok G E N m"
  shows "\<exists>b h'. checkPattern1 n h = Some (b, h') \<and> pattern_inv G E N h'"
proof (cases "\<exists>r. single_root (h n) = Some r \<and> isDshlOne r \<noteq> Some None")
  case False
  then have "checkPattern1 n h = Some (False, h)" by (auto simp: checkPattern1_def split: option.splits)
  with inv show ?thesis by blast
next
  case True
  then obtain r where r: "single_root (h n) = Some r" "isDshlOne r \<noteq> Some None" by blast
  then have "\<not> inert G r" by (simp add: inert_def)
  from inv_single_root [OF inv r(1) this] ok r(2) obtain s where s: "isDshlOne r = Some (Some s)" "onehot_use_ok E N n r"
    unfolding pattern_ok_def by (metis option.exhaust)
  let ?ms = "sorted_list_of_set (next (h n))"
  have ms: "set ?ms = next (N n)" using s(2) inv_fields(3) [OF inv] by (simp add: onehot_use_ok_def)
  have "\<forall>m. bits_of_onehot (N m) \<noteq> None" using ok by (simp add: pattern_ok_def)
  from rewrite_all_inv [OF inv s _ this, of ?ms True] ms obtain b h1 where
    h1: "fold_abort (rewrite_bits s) ?ms (True, h) = Some (b, h1)" "pattern_inv G E N h1"
      "b \<longrightarrow> (\<forall>m \<in> next (N n). let_go G n h1 m)" by auto
  have "pattern_inv G E N (if b then h1(n := (h1 n)\<lparr>status := DEAD_NODE\<rparr>) else h1)"
    using h1 mark_dead_inv by auto
  with r(1) s(1) h1(1) show ?thesis by (simp add: checkPattern1_def)
qed

lemma check_members_inv:
  assumes "gmp_lib G" "\<forall>m. pattern_ok G E N m"
  shows "\<exists>h'. fold_abort (check_member G) ms N = Some h' \<and> pattern_inv G E N h'"
proof (rule fold_abort_total)
  fix n h assume inv: "pattern_inv G E N h"
  from checkPattern2_inv [OF assms(1) inv] assms(2) obtain b1 h1 where
    "checkPattern2 G n h = Some (b1, h1)" "pattern_inv G E N h1" by blast
  with checkPattern1_inv [OF this(2) assms(2), of n] show "\<exists>h'. check_member G n h = Some h' \<and> pattern_inv G E N h'"
    by (auto simp: check_member_def)
qed (simp add: pattern_inv_def)

lemma rewritten_sequence: "rewritten G E a b \<Longrightarrow> in_sequence E (map root (assignTree b)) = in_sequence E (map root (assignTree a))"
  by (auto simp: rewritten_def in_sequence_def)

section \<open>Properties\<close>

text \<open>
  C15: \<^verbatim>\<open>graph::patternDetect\<close> where its patterns are right: it succeeds, every node gets the same value
  from its trees in every state in which the one-hot signals have theirs, and a node it removes
  is no longer read by any of its successors.
\<close>

theorem patternDetect_sound:
  assumes "gmp_lib G" "connectable (nodes g)" "\<forall>n. pattern_ok G E (nodes g) n"
  shows "\<exists>g'. patternDetect G g = Some g'
    \<and> (\<forall>n. in_sequence E (map root (assignTree (nodes g' n))) = in_sequence E (map root (assignTree (nodes g n))))
    \<and> (\<forall>n \<in> set (all_members g) - set (all_members g'). status (nodes g n) = DEAD_NODE
         \<or> (\<forall>m \<in> next (nodes g n). \<forall>t \<in> set (assignTree (nodes g' m)). n \<notin> getRelyNodes t))"
proof -
  from check_members_inv [OF assms(1,3), of "all_members g"] obtain h where
    h: "fold_abort (check_member G) (all_members g) (nodes g) = Some h" "pattern_inv G E (nodes g) h" by blast
  let ?g = "removeNodesNoConnect DEAD_NODE (g\<lparr>nodes := h\<rparr>)"
  have re: "rewritten G E (nodes g n) (h n)" for n using h(2) by (simp add: pattern_inv_def)
  have nodes: "nodes ?g = h" by (simp add: removeNodesNoConnect_def removeEmptySuper_def)
  have "reset_cond_nodes (h n) = reset_cond_nodes (nodes g n)" "reset_val_nodes (h n) = reset_val_nodes (nodes g n)" for n
    by (simp_all add: reset_cond_nodes_def reset_val_nodes_def rewritten_fields [OF re])
  with assms(2) rewritten_fields [OF re] have "connectable h" by (simp add: connectable_def)
  with reconnectAll_total [of ?g] nodes obtain g' where g': "reconnectAll ?g = Some g'" by auto
  have tr: "assignTree (nodes g' n) = assignTree (h n)" for n
    using same_static_fields(2) [OF reconnectAll_static [OF g']] nodes by simp
  have "status (h n) = DEAD_NODE" if "n \<in> set (all_members g) - set (all_members g')" for n
  proof -
    have "all_members (g\<lparr>nodes := h\<rparr>) = all_members g" by (simp add: all_members_def)
    with reconnectAll_members [OF g'] all_members_remove [of DEAD_NODE "g\<lparr>nodes := h\<rparr>"]
    have "all_members g' = filter (\<lambda>n. status (h n) \<noteq> DEAD_NODE) (all_members g)" by simp
    with that show ?thesis by auto
  qed
  with h(2) have "status (nodes g n) = DEAD_NODE
      \<or> (\<forall>m \<in> next (nodes g n). \<forall>t \<in> set (assignTree (nodes g' m)). n \<notin> getRelyNodes t)"
    if "n \<in> set (all_members g) - set (all_members g')" for n
    using that unfolding pattern_inv_def unread_def tr by fastforce
  with h(1) g' rewritten_sequence [OF re] show ?thesis by (auto simp: patternDetect_def tr)
qed

text \<open>A one-hot signal of a two-bit shift, one of its bits, and a comparison of a concatenation.\<close>

definition pref :: "nodeid \<Rightarrow> int \<Rightarrow> enode" where
  "pref n w = ENode ((new_eattr OP_EMPTY)\<lparr>nodePtr := Some n, width := w\<rparr>) []"

definition pop :: "OPType \<Rightarrow> int \<Rightarrow> int list \<Rightarrow> enode list \<Rightarrow> enode" where
  "pop op w vs es = ENode ((new_eattr op)\<lparr>width := w, evalues := vs\<rparr>) (map Some es)"

definition plit :: "int \<Rightarrow> string \<Rightarrow> enode" where
  "plit w v = allocIntEnode w v False"

definition ptree :: "nodeid \<Rightarrow> enode \<Rightarrow> exptree" where
  "ptree n e = \<lparr>root = e, lvalue = new_leaf n\<rparr>"

definition demo_pattern :: graph where
  "demo_pattern = demo_graph\<lparr>
     nodes := (\<lambda>n. (new_node NODE_OTHERS)\<lparr>super := Some 0, nwidth := 2,
        next := (if n = 1 then {2} else {}),
        assignTree :=
          (if n = 1 then [ptree 1 (pop OP_DSHL 4 [] [plit 1 ''1'', pref 0 2])]
           else if n = 2 then [ptree 2 (pop OP_BITS 1 [3, 3] [pref 1 4])]
           else if n = 3 then [ptree 3 (pop OP_EQ 1 []
             [pop OP_OR 4 [] [pop OP_SHL 4 [2] [pref 0 2], pop OP_PAD 4 [4] [pref 4 2]], plit 4 ''13''])]
           else [])\<rparr>),
     supers := (\<lambda>_. new_super\<lparr>smember := [0, 1, 2, 3, 4]\<rparr>), sortedSuper := [0]\<rparr>"

definition demo_pattern_env :: env where
  "demo_pattern_env = \<lparr>val = \<lambda>n _. if n = 0 then 3 else if n = 1 then 8 else 1, mem = \<lambda>_ _. 0, firHeadTail = False\<rparr>"

lemmas pattern_demo_defs = pref_def pop_def plit_def new_eattr_def allocIntEnode_def

lemma plit_read:
  "int_literal ''1'' = Some 1" "int_of_str 10 ''13'' = Some 13" "snd (firStrBase ''1'') = ''1''"
  by code_simp+

lemma demo_pattern_trees:
  "assignTree (nodes demo_pattern 1) = [ptree 1 (pop OP_DSHL 4 [] [plit 1 ''1'', pref 0 2])]"
  "assignTree (nodes demo_pattern 2) = [ptree 2 (pop OP_BITS 1 [3, 3] [pref 1 4])]"
  "assignTree (nodes demo_pattern 3) = [ptree 3 (pop OP_EQ 1 []
             [pop OP_OR 4 [] [pop OP_SHL 4 [2] [pref 0 2], pop OP_PAD 4 [4] [pref 4 2]], plit 4 ''13''])]"
  "n \<noteq> 1 \<Longrightarrow> n \<noteq> 2 \<Longrightarrow> n \<noteq> 3 \<Longrightarrow> assignTree (nodes demo_pattern n) = []"
  "\<not> isArray (nodes demo_pattern n)" "ntype (nodes demo_pattern n) = NODE_OTHERS"
  "next (nodes demo_pattern 1) = {2}"
  by (simp_all add: demo_pattern_def new_node_def isArray_def)

lemma demo_onehot: "onehot_use_ok demo_pattern_env (nodes demo_pattern) 1 (pop OP_DSHL 4 [] [plit 1 ''1'', pref 0 2])"
proof -
  let ?r = "pop OP_DSHL 4 [] [plit 1 ''1'', pref 0 2]"
  have d: "isDshlOne ?r = Some (Some (pref 0 2))"
    by (simp add: pattern_demo_defs isDshlOne_def the_child_def getChild_def getChildNum_def plit_read)
  have "onehot_ok ?r" by (simp add: pattern_demo_defs onehot_ok_def plit_read fits_def)
  moreover have "eval demo_pattern_env ?r = Val 8"
    by (simp add: pattern_demo_defs eval_ENode apply_op_def apply_prim_def prim2_def of_opt_def keep_bits_def plit_read
        demo_pattern_env_def wrap_def take_bit_eq_mod)
  moreover have "bits_ok 1 ?r (pop OP_BITS 1 [3, 3] [pref 1 4])"
    unfolding bits_ok_def d by (simp add: pattern_demo_defs fits_def)
  ultimately show ?thesis
    by (simp add: onehot_use_ok_def demo_pattern_trees ptree_def demo_pattern_env_def del: One_nat_def)
       (simp add: pattern_demo_defs)
qed

lemma demo_split: "split_ok (pop OP_EQ 1 []
   [pop OP_OR 4 [] [pop OP_SHL 4 [2] [pref 0 2], pop OP_PAD 4 [4] [pref 4 2]], plit 4 ''13''])"
  unfolding split_ok_def
  by (rule exI [of _ "pop OP_OR 4 [] [pop OP_SHL 4 [2] [pref 0 2], pop OP_PAD 4 [4] [pref 4 2]]"],
      rule exI [of _ "plit 4 ''13''"], rule exI [of _ "pop OP_SHL 4 [2] [pref 0 2]"],
      rule exI [of _ "pop OP_PAD 4 [4] [pref 4 2]"], rule exI [of _ "pref 0 2"], rule exI [of _ "pref 4 2"],
      rule exI [of _ 13])
     (simp add: split_form_def pattern_demo_defs plit_read value_ok_def is_index_def wide_copy_def fits_def)

lemma demo_pattern_ok: "pattern_ok gmp_int demo_pattern_env (nodes demo_pattern) n"
proof -
  let ?P = "pattern_ok gmp_int demo_pattern_env (nodes demo_pattern)"
  have "?P 1" using demo_onehot
    by (simp add: pattern_ok_def bits_of_onehot_def single_root_def demo_pattern_trees ptree_def split_equal_def
        isBitsOne_def isDshlOne_def the_child_def getChild_def getChildNum_def pattern_demo_defs del: One_nat_def)
  moreover have "?P 2"
    by (simp add: pattern_ok_def bits_of_onehot_def single_root_def demo_pattern_trees ptree_def split_equal_def
        isBitsOne_def isDshlOne_def val_at_def pattern_demo_defs)
  moreover have "?P 3"
  proof -
    let ?r = "pop OP_EQ 1 [] [pop OP_OR 4 [] [pop OP_SHL 4 [2] [pref 0 2], pop OP_PAD 4 [4] [pref 4 2]], plit 4 ''13'']"
    have "split_equal gmp_int ?r \<noteq> None" "isDshlOne ?r = Some None" "isBitsOne ?r = Some False"
      by (simp_all add: pattern_demo_defs split_equal_def isDshlOne_def isBitsOne_def the_child_def getChild_def
          getChildNum_def peel_def split_constant_def val_at_def Let_def)
    with demo_split show ?thesis
      by (simp add: pattern_ok_def bits_of_onehot_def single_root_def demo_pattern_trees ptree_def)
  qed
  moreover have "?P n" if "n \<noteq> 1" "n \<noteq> 2" "n \<noteq> 3"
    using that by (simp add: pattern_ok_def bits_of_onehot_def single_root_def demo_pattern_trees)
  ultimately show ?thesis by blast
qed

theorem patternDetect_sound_witness:
  "\<exists>g'. patternDetect gmp_int demo_pattern = Some g'
     \<and> in_sequence demo_pattern_env (map root (assignTree (nodes g' 2))) = Val 1
     \<and> in_sequence demo_pattern_env (map root (assignTree (nodes g' 3))) = Val 1"
proof -
  have c: "connectable (nodes demo_pattern)" by (simp add: connectable_def demo_pattern_def new_node_def)
  have "in_sequence demo_pattern_env (map root (assignTree (nodes demo_pattern 2))) = Val 1"
    "in_sequence demo_pattern_env (map root (assignTree (nodes demo_pattern 3))) = Val 1"
    using firStrBase_decimal [OF plit_read(2)]
    by (simp_all add: demo_pattern_trees ptree_def in_sequence_def then_assign_def pattern_demo_defs eval_ENode
        apply_op_def apply_prim_def prim1_def prim2_def of_opt_def keep_bits_def demo_pattern_env_def wrap_def
        take_bit_eq_mod drop_bit_eq_div push_bit_eq_mult)
  with patternDetect_sound [OF gmp_lib_int c, of demo_pattern_env] demo_pattern_ok show ?thesis by auto
qed

text \<open>
  C39: pattern 2 on a concatenation takes the wrong bits of the constant for the left half: with
  \<^verbatim>\<open>l\<close> and \<^verbatim>\<open>r\<close> both 1 the comparison \<^verbatim>\<open>eq(cat(l, r), 3)\<close> is true before the pass and false after it.
\<close>

theorem pattern2_cat_wrong:
  "let r = pop OP_EQ 1 [] [pop OP_CAT 2 [] [pref 0 1, pref 1 1], plit 2 ''3''];
       E = \<lparr>val = \<lambda>_ _. 1, mem = \<lambda>_ _. 0, firHeadTail = False\<rparr>
   in eval E r = Val 1 \<and>
      (case split_equal gmp_int r of Some (Some r1) \<Rightarrow> eval E r1 = Val 0 | _ \<Rightarrow> False)"
proof -
  let ?r = "pop OP_EQ 1 [] [pop OP_CAT 2 [] [pref 0 1, pref 1 1], plit 2 ''3'']"
  let ?E = "\<lparr>val = \<lambda>_ _. 1, mem = \<lambda>_ _. 0, firHeadTail = False\<rparr>"
  have three: "int_of_str 10 ''3'' = Some 3" by code_simp
  have "split_equal gmp_int ?r = Some (Some (ENode ((attr ?r)\<lparr>opType := OP_AND\<rparr>)
      [Some (equals_const gmp_int (pref 0 1) 0), Some (equals_const gmp_int (pref 1 1) 1)]))"
    using gmp_lib.set_str [OF gmp_lib_int three]
    by (simp add: pattern_demo_defs split_equal_def the_child_def getChild_def getChildNum_def peel_def
        split_constant_def BITS_mpz_bits [OF gmp_lib_int] drop_bit_eq_div take_bit_eq_mod)
  moreover have "eval ?E (equals_const gmp_int (pref k 1) c) = Val (of_bool (1 = c))" if "c = 0 \<or> c = 1" for k c
    using that by (subst eval_equals_const [OF gmp_lib_int])
      (auto simp: pattern_demo_defs value_ok_def is_index_def fits_def eval_ENode apply_op_def keep_bits_def wrap_def)
  moreover have "eval ?E ?r = Val 1"
    using firStrBase_decimal [OF three]
    by (simp add: pattern_demo_defs eval_ENode apply_op_def apply_prim_def prim2_def of_opt_def keep_bits_def wrap_def
        take_bit_eq_mod push_bit_eq_mult)
  ultimately show ?thesis
    by (simp add: Let_def eval_ENode apply_op_def apply_prim_def prim2_def of_opt_def keep_bits_def wrap_def
        equals_const_def pattern_demo_defs)
qed

text \<open>
  Pattern 1 looks at the root of a successor only, not at what is selected from: with
  \<^verbatim>\<open>oneHot = dshl(1, s)\<close>, \<^verbatim>\<open>s\<close> equal to 0 and \<^verbatim>\<open>x\<close> equal to 2, the node \<^verbatim>\<open>bits(or(oneHot, x), 1, 1)\<close> is 1, and
  the tree that replaces it gives 0.
\<close>

theorem pattern1_ignores_operand:
  "let r = pop OP_DSHL 4 [] [plit 1 ''1'', pref 0 2];
       e = pop OP_BITS 1 [1, 1] [pop OP_OR 4 [] [pref 1 4, pref 2 4]];
       h = (\<lambda>n. (new_node NODE_OTHERS)\<lparr>next := (if n = 1 then {3} else {}),
               assignTree := (if n = 1 then [ptree 1 r] else if n = 3 then [ptree 3 e] else [])\<rparr>);
       E = \<lparr>val = \<lambda>n _. if n = 0 then 0 else if n = 1 then 1 else 2, mem = \<lambda>_ _. 0, firHeadTail = False\<rparr>
   in eval E r = Val (val E 1 []) \<and> eval E e = Val 1 \<and>
      (case checkPattern1 1 h of
         Some (True, h') \<Rightarrow> map (eval E \<circ> root) (assignTree (h' 3)) = [Val 0] | _ \<Rightarrow> False)"
proof -
  have one: "int_literal (str_of_int 10 1) = Some 1" by (rule firStrBase_decimal) (simp add: int_of_str_of_int)
  show ?thesis
    using one hd_decimal [of 1]
    by (simp add: Let_def pattern_demo_defs ptree_def new_node_def checkPattern1_def single_root_def isArray_def
        isDshlOne_def the_child_def getChild_def getChildNum_def plit_read rewrite_bits_def bits_of_onehot_def
        isBitsOne_def val_at_def shift_equals_def dup_attr_def eval_ENode apply_op_def apply_prim_def prim1_def
        prim2_def of_opt_def keep_bits_def wrap_def take_bit_eq_mod drop_bit_eq_div del: One_nat_def)
qed

end
