(* ===== verification/Schedule.thy ===== *)
theory Schedule
  imports TopoSort "HOL-Library.Multiset"
begin

section \<open>Schedules of nodes that survive the merging of super nodes\<close>

text \<open>
  What the passes of \<^verbatim>\<open>src/mergeNodes.cpp\<close> and \<^verbatim>\<open>src/graphPartition.cpp\<close> have to keep: every node
  stays in exactly one super node and knows it, the edges between super nodes cover the
  dependences between their members, and they respect a rank (the position in \<^verbatim>\<open>sortedSuper\<close>),
  so that running the members of the super nodes one after another meets every node after
  its dependences.  The central lemma says when the members of one super node may be moved
  to another: \<open>merge_consistent\<close>; and \<open>reconnectSuper_consistent\<close> recovers the edges between
  the super nodes from those between the nodes.
\<close>

definition emptied :: "supernode \<Rightarrow> bool" where
  "emptied s \<longleftrightarrow> (superType s = SUPER_VALID \<or> superType s = SUPER_UPDATE_REG) \<and> smember s = []"

definition live :: "graph \<Rightarrow> superid set" where
  "live g = {s \<in> set (sortedSuper g). \<not> emptied (supers g s)}"

text \<open>A list of nodes in which no node precedes one it depends on.\<close>

definition in_dep_order :: "heap \<Rightarrow> nodeid list \<Rightarrow> bool" where
  "in_dep_order h ns \<longleftrightarrow> sorted_wrt (\<lambda>a b. b \<notin> depPrev (h a)) ns"

text \<open>The edges between the super nodes \<open>U\<close>: symmetric, within \<open>U\<close>, and growing in the rank \<open>r\<close>.\<close>

definition edges_ok :: "(superid \<Rightarrow> int) \<Rightarrow> (superid \<Rightarrow> supernode) \<Rightarrow> superid set \<Rightarrow> bool" where
  "edges_ok r S U \<longleftrightarrow>
     (\<forall>s \<in> U. sdepPrev (S s) \<subseteq> U \<and> sdepNext (S s) \<subseteq> U
        \<and> sprev (S s) \<subseteq> sdepPrev (S s) \<and> snext (S s) \<subseteq> sdepNext (S s))
     \<and> (\<forall>p \<in> U. \<forall>s \<in> U. (p \<in> sdepPrev (S s) \<longleftrightarrow> s \<in> sdepNext (S p))
          \<and> (p \<in> sprev (S s) \<longleftrightarrow> s \<in> snext (S p)))
     \<and> (\<forall>s \<in> U. \<forall>p \<in> sdepPrev (S s). r p < r s)"

text \<open>Every dependence between members is inside one super node or along an edge.\<close>

definition covered :: "heap \<Rightarrow> (superid \<Rightarrow> supernode) \<Rightarrow> superid set \<Rightarrow> bool" where
  "covered h S U \<longleftrightarrow>
     (\<forall>s \<in> U. \<forall>t \<in> U. s \<noteq> t \<longrightarrow>
        (\<exists>n \<in> set (smember (S s)). \<exists>m \<in> set (smember (S t)). m \<in> depPrev (h n)) \<longrightarrow>
        t \<in> sdepPrev (S s))"

definition placed :: "heap \<Rightarrow> (superid \<Rightarrow> supernode) \<Rightarrow> superid set \<Rightarrow> bool" where
  "placed h S U \<longleftrightarrow>
     (\<forall>s \<in> U. distinct (smember (S s)) \<and> in_dep_order h (smember (S s))
        \<and> (\<forall>n \<in> set (smember (S s)). super (h n) = Some s))"

definition consistent :: "(superid \<Rightarrow> int) \<Rightarrow> graph \<Rightarrow> bool" where
  "consistent r g \<longleftrightarrow>
     distinct (sortedSuper g) \<and> placed (nodes g) (supers g) (live g)
     \<and> covered (nodes g) (supers g) (live g) \<and> edges_ok r (supers g) (live g)"

abbreviation order_of :: "graph \<Rightarrow> superid \<Rightarrow> int" where
  "order_of g \<equiv> \<lambda>s. sorder (supers g s)"

definition sorted_supers :: "graph \<Rightarrow> bool" where
  "sorted_supers g \<longleftrightarrow> sorted_wrt (\<lambda>s t. order_of g s < order_of g t) (sortedSuper g)"

text \<open>What the passes after \<^verbatim>\<open>resort\<close> rely on.\<close>

definition scheduled :: "graph \<Rightarrow> bool" where
  "scheduled g \<longleftrightarrow> consistent (order_of g) g \<and> sorted_supers g"

lemma placedD: "placed h S U \<Longrightarrow> s \<in> U \<Longrightarrow> n \<in> set (smember (S s)) \<Longrightarrow> super (h n) = Some s"
  by (simp add: placed_def)

lemma coveredD:
  "covered h S U \<Longrightarrow> s \<in> U \<Longrightarrow> t \<in> U \<Longrightarrow> s \<noteq> t \<Longrightarrow> n \<in> set (smember (S s)) \<Longrightarrow> m \<in> set (smember (S t))
   \<Longrightarrow> m \<in> depPrev (h n) \<Longrightarrow> t \<in> sdepPrev (S s)"
  unfolding covered_def by blast

lemma edges_okD:
  assumes "edges_ok r S U" "s \<in> U"
  shows "p \<in> sdepPrev (S s) \<Longrightarrow> p \<in> U" "q \<in> sdepNext (S s) \<Longrightarrow> q \<in> U"
    "p \<in> sprev (S s) \<Longrightarrow> p \<in> sdepPrev (S s)" "q \<in> snext (S s) \<Longrightarrow> q \<in> sdepNext (S s)"
    "p \<in> sdepPrev (S s) \<Longrightarrow> r p < r s" "q \<in> sdepNext (S s) \<Longrightarrow> r s < r q"
    "p \<in> sdepPrev (S s) \<Longrightarrow> s \<in> sdepNext (S p)" "q \<in> sdepNext (S s) \<Longrightarrow> s \<in> sdepPrev (S q)"
    "p \<in> sprev (S s) \<Longrightarrow> s \<in> snext (S p)" "q \<in> snext (S s) \<Longrightarrow> s \<in> sprev (S q)"
  using assms unfolding edges_ok_def by (meson subsetD)+

section \<open>The members of a scheduled graph\<close>

lemma emptied_members: "emptied s \<Longrightarrow> smember s = []"
  by (simp add: emptied_def)

lemma live_sorted: "live g \<subseteq> set (sortedSuper g)"
  by (auto simp: live_def)

lemma finite_live [simp]: "finite (live g)"
  using finite_subset [OF live_sorted] by simp

lemma member_super:
  assumes "consistent r g" "n \<in> set (all_members g)"
  shows "\<exists>s \<in> live g. n \<in> set (smember (supers g s)) \<and> super (nodes g n) = Some s"
proof -
  obtain s where s: "s \<in> set (sortedSuper g)" "n \<in> set (smember (supers g s))"
    using assms(2) by (auto simp: all_members_def)
  then have "s \<in> live g" by (auto simp: live_def emptied_def)
  with s assms(1) show ?thesis by (auto simp: consistent_def placed_def)
qed

lemma all_members_live:
  "all_members g = concat (map (\<lambda>s. smember (supers g s)) (filter (\<lambda>s. \<not> emptied (supers g s)) (sortedSuper g)))"
  unfolding all_members_def emptied_def by (simp add: concat_filter_empty del: de_Morgan_conj de_Morgan_disj)

lemma set_all_members: "set (all_members g) = (\<Union>s \<in> live g. set (smember (supers g s)))"
  by (auto simp: all_members_live live_def)

lemma distinct_concat_map:
  "distinct xs \<Longrightarrow> (\<And>x. x \<in> set xs \<Longrightarrow> distinct (f x))
   \<Longrightarrow> (\<And>x y. x \<in> set xs \<Longrightarrow> y \<in> set xs \<Longrightarrow> x \<noteq> y \<Longrightarrow> set (f x) \<inter> set (f y) = {})
   \<Longrightarrow> distinct (concat (map f xs))"
  by (induction xs) auto

lemma consistent_distinct:
  assumes "consistent r g"
  shows "distinct (all_members g)"
  unfolding all_members_live
proof (rule distinct_concat_map)
  have p: "placed (nodes g) (supers g) (live g)" and d: "distinct (sortedSuper g)"
    using assms by (auto simp: consistent_def)
  let ?L = "filter (\<lambda>s. \<not> emptied (supers g s)) (sortedSuper g)"
  have L: "set ?L = live g" by (auto simp: live_def)
  show "distinct ?L" using d by simp
  show "distinct (smember (supers g s))" if "s \<in> set ?L" for s
    using that p unfolding L by (simp add: placed_def)
  show "set (smember (supers g s)) \<inter> set (smember (supers g t)) = {}"
    if "s \<in> set ?L" "t \<in> set ?L" "s \<noteq> t" for s t
    using that placedD [OF p, of s] placedD [OF p, of t] unfolding L by fastforce
qed

lemma sorted_wrt_concat_map:
  "(\<And>x. x \<in> set xs \<Longrightarrow> sorted_wrt R (f x))
   \<Longrightarrow> sorted_wrt (\<lambda>x y. \<forall>a \<in> set (f x). \<forall>b \<in> set (f y). R a b) xs
   \<Longrightarrow> sorted_wrt R (concat (map f xs))"
  by (induction xs) (auto simp: sorted_wrt_append)

lemma scheduled_in_order:
  assumes "scheduled g"
  shows "in_dep_order (nodes g) (all_members g)"
  unfolding in_dep_order_def all_members_live
proof (rule sorted_wrt_concat_map)
  let ?L = "filter (\<lambda>s. \<not> emptied (supers g s)) (sortedSuper g)"
  have L: "set ?L = live g" by (auto simp: live_def)
  have c: "consistent (order_of g) g" using assms by (simp add: scheduled_def)
  show "sorted_wrt (\<lambda>a b. b \<notin> depPrev (nodes g a)) (smember (supers g s))" if "s \<in> set ?L" for s
    using that c unfolding L by (simp add: consistent_def placed_def in_dep_order_def)
  have s: "sorted_wrt (\<lambda>s t. order_of g s < order_of g t) ?L"
    using assms by (simp add: scheduled_def sorted_supers_def sorted_wrt_filter)
  have "\<forall>a \<in> set (smember (supers g s)). \<forall>b \<in> set (smember (supers g t)). b \<notin> depPrev (nodes g a)"
    if st: "s \<in> set ?L" "t \<in> set ?L" "order_of g s < order_of g t" for s t
  proof -
    have cov: "covered (nodes g) (supers g) (live g)" and e: "edges_ok (order_of g) (supers g) (live g)"
      using c by (auto simp: consistent_def)
    have "t \<notin> sdepPrev (supers g s)" using edges_okD(5) [OF e, of s t] st unfolding L by auto
    then show ?thesis using coveredD [OF cov, of s t] st unfolding L by blast
  qed
  then show "sorted_wrt (\<lambda>s t. \<forall>a \<in> set (smember (supers g s)). \<forall>b \<in> set (smember (supers g t)).
      b \<notin> depPrev (nodes g a)) ?L"
    by (rule sorted_wrt_mono_rel [OF _ s])
qed

lemma all_members_mset:
  assumes "distinct (sortedSuper g)"
  shows "mset (all_members g) = (\<Sum>s \<in> live g. mset (smember (supers g s)))"
proof -
  have c: "mset (concat (map f xs)) = (\<Sum>x \<in> set xs. mset (f x))" if "distinct xs" for f :: "superid \<Rightarrow> nodeid list" and xs
    using that by (induction xs) simp_all
  let ?L = "filter (\<lambda>s. \<not> emptied (supers g s)) (sortedSuper g)"
  have "mset (all_members g) = (\<Sum>s \<in> set ?L. mset (smember (supers g s)))"
    unfolding all_members_live by (rule c) (simp add: assms)
  moreover have "set ?L = live g" by (auto simp: live_def)
  ultimately show ?thesis by simp
qed

section \<open>Moving the members of one super node to another\<close>

text \<open>The neighbours after \<open>s\<close> has been merged into \<open>t\<close>: \<open>t\<close> takes the place of \<open>s\<close>.\<close>

definition qset :: "superid \<Rightarrow> superid \<Rightarrow> (superid \<Rightarrow> superid set) \<Rightarrow> superid \<Rightarrow> superid set" where
  "qset s t F x =
     (if x = t then (F s \<union> F t) - {s, t} else if s \<in> F x then insert t (F x - {s}) else F x)"

definition quotient_edges ::
    "superid \<Rightarrow> superid \<Rightarrow> (superid \<Rightarrow> supernode) \<Rightarrow> (superid \<Rightarrow> supernode) \<Rightarrow> superid set \<Rightarrow> bool" where
  "quotient_edges s t S S' U \<longleftrightarrow>
     (\<forall>x \<in> U. sprev (S' x) = qset s t (\<lambda>y. sprev (S y)) x \<and> snext (S' x) = qset s t (\<lambda>y. snext (S y)) x
        \<and> sdepPrev (S' x) = qset s t (\<lambda>y. sdepPrev (S y)) x
        \<and> sdepNext (S' x) = qset s t (\<lambda>y. sdepNext (S y)) x)"

text \<open>
  \<open>s\<close> may go to the rank of \<open>t\<close> when what depends on it comes after \<open>t\<close> and what it depends
  on comes before.
\<close>

definition mergeable :: "(superid \<Rightarrow> int) \<Rightarrow> (superid \<Rightarrow> supernode) \<Rightarrow> superid \<Rightarrow> superid \<Rightarrow> bool" where
  "mergeable r S s t \<longleftrightarrow>
     s \<noteq> t \<and> r s \<noteq> r t \<and> (\<forall>x \<in> sdepNext (S s). x = t \<or> r t < r x) \<and> (\<forall>p \<in> sdepPrev (S s). p = t \<or> r p < r t)"

lemma qset_mem: "p \<in> qset s t F x \<Longrightarrow> p \<noteq> x \<or> x \<in> F x \<or> (s \<in> F t \<and> x = t)"
  by (auto simp: qset_def split: if_splits)

lemma edges_quotient:
  assumes e: "edges_ok r S U" and st: "s \<in> U" "t \<in> U" and m: "mergeable r S s t"
    and q: "quotient_edges s t S S' (U - {s})"
  shows "edges_ok r S' (U - {s})"
proof -
  note D = edges_okD [OF e]
  have q': "sprev (S' x) = qset s t (\<lambda>y. sprev (S y)) x" "snext (S' x) = qset s t (\<lambda>y. snext (S y)) x"
    "sdepPrev (S' x) = qset s t (\<lambda>y. sdepPrev (S y)) x" "sdepNext (S' x) = qset s t (\<lambda>y. sdepNext (S y)) x"
    if "x \<in> U - {s}" for x
    using q that by (simp_all add: quotient_edges_def)
  have dep: "p \<in> sdepPrev (S x) \<longleftrightarrow> x \<in> sdepNext (S p)" "p \<in> sprev (S x) \<longleftrightarrow> x \<in> snext (S p)"
    if "p \<in> U" "x \<in> U" for p x
    using e that by (simp_all add: edges_ok_def)
  have ne: "s \<noteq> t" using m by (simp add: mergeable_def)
  show ?thesis
    unfolding edges_ok_def
  proof (intro conjI ballI)
    fix x assume x: "x \<in> U - {s}"
    have xU: "x \<in> U" using x by simp
    show "sdepPrev (S' x) \<subseteq> U - {s}" "sdepNext (S' x) \<subseteq> U - {s}"
      using D(1,2) [OF xU] D(1,2) [OF st(1)] D(1,2) [OF st(2)] st ne
      unfolding q' [OF x] qset_def by (auto split: if_splits)
    show "sprev (S' x) \<subseteq> sdepPrev (S' x)" "snext (S' x) \<subseteq> sdepNext (S' x)"
      using D(3,4) [OF xU] D(3,4) [OF st(1)] D(3,4) [OF st(2)]
      unfolding q' [OF x] qset_def by auto
    fix p
    show "(p \<in> sdepPrev (S' x)) = (x \<in> sdepNext (S' p))" "(p \<in> sprev (S' x)) = (x \<in> snext (S' p))"
      if p: "p \<in> U - {s}"
    proof -
      have pU: "p \<in> U" using p by simp
      show "(p \<in> sdepPrev (S' x)) = (x \<in> sdepNext (S' p))" "(p \<in> sprev (S' x)) = (x \<in> snext (S' p))"
        unfolding q' [OF x] q' [OF p] qset_def
        using x p ne dep [OF pU xU] dep [OF st(1) xU] dep [OF st(2) xU] dep [OF pU st(1)] dep [OF pU st(2)]
          dep [OF st] dep [OF st(2,1)] by auto
    qed
    show "r p < r x" if p: "p \<in> sdepPrev (S' x)"
    proof -
      consider "x = t" "p \<in> sdepPrev (S s)" "p \<noteq> t" | "x = t" "p \<in> sdepPrev (S t)"
        | "x \<noteq> t" "s \<in> sdepPrev (S x)" "p = t" | "x \<noteq> t" "p \<in> sdepPrev (S x)"
        using p unfolding q'(3) [OF x] qset_def by (auto split: if_splits)
      then show ?thesis
      proof cases
        case 3
        then have "x \<in> sdepNext (S s)" using x D(7) by auto
        then show ?thesis using m 3 by (auto simp: mergeable_def)
      qed (use m x st D(5) in \<open>auto simp: mergeable_def\<close>)
    qed
  qed
qed

definition moved :: "(superid \<Rightarrow> int) \<Rightarrow> superid \<Rightarrow> superid \<Rightarrow> graph \<Rightarrow> graph \<Rightarrow> bool" where
  "moved r s t g g' \<longleftrightarrow>
     sortedSuper g' = sortedSuper g
     \<and> (\<forall>x. superType (supers g' x) = superType (supers g x) \<and> sorder (supers g' x) = sorder (supers g x))
     \<and> (\<forall>x. smember (supers g' x) =
            (if x = s then []
             else if x = t
             then (if r s < r t then smember (supers g s) @ smember (supers g t)
                   else smember (supers g t) @ smember (supers g s))
             else smember (supers g x)))
     \<and> nodes g' = (\<lambda>n. if n \<in> set (smember (supers g s)) then (nodes g n)\<lparr>super := Some t\<rparr> else nodes g n)"

lemma movedD:
  assumes "moved r s t g g'"
  shows "sortedSuper g' = sortedSuper g" "superType (supers g' x) = superType (supers g x)"
    "sorder (supers g' x) = sorder (supers g x)" "depPrev (nodes g' n) = depPrev (nodes g n)"
    "x \<noteq> s \<Longrightarrow> x \<noteq> t \<Longrightarrow> smember (supers g' x) = smember (supers g x)" "smember (supers g' s) = []"
    "s \<noteq> t \<Longrightarrow> set (smember (supers g' t)) = set (smember (supers g s)) \<union> set (smember (supers g t))"
    "super (nodes g' n) = (if n \<in> set (smember (supers g s)) then Some t else super (nodes g n))"
  using assms by (auto simp: moved_def)

lemma no_back_edge:
  assumes "edges_ok r S U" "covered h S U" "a \<in> U" "b \<in> U" "r a < r b"
    "n \<in> set (smember (S a))" "m \<in> set (smember (S b))"
  shows "m \<notin> depPrev (h n)"
proof
  assume "m \<in> depPrev (h n)"
  then have "b \<in> sdepPrev (S a)" using coveredD [OF assms(2-4)] assms(5-7) by auto
  then show False using edges_okD(5) [OF assms(1,3)] assms(5) by fastforce
qed

lemma placed_moved:
  assumes p: "placed (nodes g) (supers g) U" and c: "covered (nodes g) (supers g) U" "edges_ok r (supers g) U"
    and st: "s \<in> U" "t \<in> U" "s \<noteq> t" "r s \<noteq> r t" and m: "moved r s t g g'"
  shows "placed (nodes g') (supers g') (U - {s})"
  unfolding placed_def
proof (intro ballI)
  fix x assume x: "x \<in> U - {s}"
  let ?o = "\<lambda>ns. in_dep_order (nodes g') ns"
  have dj: "set (smember (supers g x)) \<inter> set (smember (supers g s)) = {}"
    using x placedD [OF p, of x] placedD [OF p st(1)] by fastforce
  have ord: "?o ns = in_dep_order (nodes g) ns" for ns by (simp add: in_dep_order_def movedD(4) [OF m])
  have P: "distinct (smember (supers g y))" "in_dep_order (nodes g) (smember (supers g y))"
    "\<forall>n \<in> set (smember (supers g y)). super (nodes g n) = Some y" if "y \<in> U" for y
    using p that by (auto simp: placed_def)
  note nb = no_back_edge [OF c(2,1)]
  show "distinct (smember (supers g' x)) \<and> ?o (smember (supers g' x))
    \<and> (\<forall>n \<in> set (smember (supers g' x)). super (nodes g' n) = Some x)"
  proof (cases "x = t")
    case False
    then have "smember (supers g' x) = smember (supers g x)" using x movedD(5) [OF m] by simp
    then show ?thesis using x dj P ord by (auto simp: movedD(8) [OF m])
  next
    case True
    have "distinct (smember (supers g' t))"
      using P(1) [OF st(1)] P(1) [OF st(2)] dj st(3) True m by (auto simp: moved_def)
    moreover have "in_dep_order (nodes g) (smember (supers g' t))"
    proof (cases "r s < r t")
      case True
      then show ?thesis
        using m st P(2) [OF st(1)] P(2) [OF st(2)] nb [OF st(1,2) True]
        by (simp add: moved_def in_dep_order_def sorted_wrt_append)
    next
      case False
      then have "r t < r s" using st(4) by simp
      then show ?thesis
        using m st P(2) [OF st(1)] P(2) [OF st(2)] nb [OF st(2,1)] False
        by (simp add: moved_def in_dep_order_def sorted_wrt_append)
    qed
    moreover have "super (nodes g' n) = Some t" if "n \<in> set (smember (supers g' t))" for n
      using that P(3) [OF st(2)] unfolding movedD(7) [OF m st(3)] movedD(8) [OF m] by auto
    ultimately show ?thesis using True ord by simp
  qed
qed

lemma covered_moved:
  assumes c: "covered (nodes g) (supers g) U" and st: "s \<in> U" "t \<in> U" "s \<noteq> t" and m: "moved r s t g g'"
    and q: "quotient_edges s t (supers g) (supers g') (U - {s})"
  shows "covered (nodes g') (supers g') (U - {s})"
  unfolding covered_def
proof (intro ballI impI)
  fix x y assume xy: "x \<in> U - {s}" "y \<in> U - {s}" "x \<noteq> y"
    and "\<exists>n \<in> set (smember (supers g' x)). \<exists>k \<in> set (smember (supers g' y)). k \<in> depPrev (nodes g' n)"
  then obtain n k where nk: "n \<in> set (smember (supers g' x))" "k \<in> set (smember (supers g' y))" "k \<in> depPrev (nodes g n)"
    by (auto simp: movedD(4) [OF m])
  have mem: "\<exists>b \<in> U. a \<in> set (smember (supers g b)) \<and> (b = z \<or> b = s \<and> z = t)"
    if "a \<in> set (smember (supers g' z))" "z \<in> U - {s}" for a z
    using that movedD(5) [OF m] movedD(7) [OF m st(3)] st by (cases "z = t") auto
  obtain b where b: "b \<in> U" "n \<in> set (smember (supers g b))" "b = x \<or> b = s \<and> x = t" using mem [OF nk(1) xy(1)] by blast
  obtain d where d: "d \<in> U" "k \<in> set (smember (supers g d))" "d = y \<or> d = s \<and> y = t" using mem [OF nk(2) xy(2)] by blast
  have "b \<noteq> d" using b d xy by auto
  then have "d \<in> sdepPrev (supers g b)" using coveredD [OF c b(1) d(1)] b d nk by auto
  then show "y \<in> sdepPrev (supers g' x)"
    using q xy b d st(3) by (auto simp: quotient_edges_def qset_def)
qed

lemma live_moved:
  assumes "moved r s t g g'" "s \<in> live g" "t \<in> live g" "s \<noteq> t" "superType (supers g s) = SUPER_VALID"
  shows "live g' = live g - {s}"
proof -
  have e: "emptied (supers g' x) \<longleftrightarrow> x = s \<or> emptied (supers g x)" if "x \<in> set (sortedSuper g)" for x
    using assms that by (auto simp: emptied_def moved_def live_def)
  show ?thesis
    using assms(2,4) e by (auto simp: live_def movedD(1) [OF assms(1)])
qed

lemma merge_consistent:
  assumes c: "consistent r g" and st: "s \<in> live g" "t \<in> live g" "superType (supers g s) = SUPER_VALID"
    and mg: "mergeable r (supers g) s t" and m: "moved r s t g g'"
    and q: "quotient_edges s t (supers g) (supers g') (live g - {s})"
  shows "consistent r g'" "live g' = live g - {s}" "mset (all_members g') = mset (all_members g)"
proof -
  have ne: "s \<noteq> t" "r s \<noteq> r t" using mg by (auto simp: mergeable_def)
  have C: "distinct (sortedSuper g)" "placed (nodes g) (supers g) (live g)"
    "covered (nodes g) (supers g) (live g)" "edges_ok r (supers g) (live g)"
    using c by (auto simp: consistent_def)
  show l: "live g' = live g - {s}" by (rule live_moved [OF m st(1,2) ne(1) st(3)])
  show "consistent r g'"
    unfolding consistent_def l movedD(1) [OF m]
    using C(1) placed_moved [OF C(2-4) st(1,2) ne m] covered_moved [OF C(3) st(1,2) ne(1) m q]
      edges_quotient [OF C(4) st(1,2) mg q] by simp
  let ?M = "\<lambda>g s. mset (smember (supers g s))"
  have "mset (all_members g') = (\<Sum>x \<in> live g - {s}. ?M g' x)"
    using all_members_mset [of g'] C(1) l by (simp add: movedD(1) [OF m])
  also have "\<dots> = ?M g' t + (\<Sum>x \<in> live g - {s} - {t}. ?M g' x)"
    using st ne by (intro sum.remove) auto
  also have "\<dots> = ?M g s + ?M g t + (\<Sum>x \<in> live g - {s} - {t}. ?M g x)"
  proof -
    have "?M g' t = ?M g s + ?M g t" using m ne by (simp add: moved_def)
    then show ?thesis using movedD(5) [OF m] by simp
  qed
  also have "\<dots> = (\<Sum>x \<in> live g. ?M g x)"
    using st ne by (simp add: sum.remove [of "live g" s] sum.remove [of "live g - {s}" t])
  finally show "mset (all_members g') = mset (all_members g)" using all_members_mset [OF C(1)] by simp
qed

section \<open>Empty super nodes and recomputed edges\<close>

lemma removeEmptySuper_sorted: "sortedSuper (removeEmptySuper g) = filter (\<lambda>s. \<not> emptied (supers g s)) (sortedSuper g)"
  by (simp add: removeEmptySuper_def emptied_def)

lemma removeEmptySuper_fields [simp]:
  "supers (removeEmptySuper g) = supers g" "nodes (removeEmptySuper g) = nodes g"
  by (simp_all add: removeEmptySuper_def)

lemma removeEmptySuper_live [simp]: "live (removeEmptySuper g) = live g"
  "set (sortedSuper (removeEmptySuper g)) = live g"
  by (auto simp: live_def removeEmptySuper_sorted)

lemma removeEmptySuper_consistent: "consistent r g \<Longrightarrow> consistent r (removeEmptySuper g)"
  by (simp add: consistent_def removeEmptySuper_sorted)

lemma removeEmptySuper_scheduled: "scheduled g \<Longrightarrow> scheduled (removeEmptySuper g)"
  using removeEmptySuper_consistent [of "order_of g" g]
  by (simp add: scheduled_def sorted_supers_def removeEmptySuper_sorted sorted_wrt_filter)

text \<open>A step that only adds edges between super nodes.\<close>

definition super_adds ::
    "(superid \<Rightarrow> supernode) \<Rightarrow> (superid \<times> superid) set \<Rightarrow> (superid \<times> superid) set \<Rightarrow> (superid \<Rightarrow> supernode) \<Rightarrow> bool" where
  "super_adds S E D S' \<longleftrightarrow>
     (\<forall>x. sprev (S' x) = sprev (S x) \<union> {p. (p, x) \<in> E} \<and> snext (S' x) = snext (S x) \<union> {q. (x, q) \<in> E}
        \<and> sdepPrev (S' x) = sdepPrev (S x) \<union> {p. (p, x) \<in> D} \<and> sdepNext (S' x) = sdepNext (S x) \<union> {q. (x, q) \<in> D}
        \<and> super_clear_relation (S' x) = super_clear_relation (S x))"

lemma super_adds_refl: "super_adds S {} {} S"
  by (simp add: super_adds_def)

lemma super_adds_trans:
  "super_adds S E D S1 \<Longrightarrow> super_adds S1 E' D' S2 \<Longrightarrow> super_adds S (E \<union> E') (D \<union> D') S2"
  by (auto simp: super_adds_def)

lemma super_adds_links:
  "super_adds S {(p, s)} {(p, s)} (connectPrev s p S)" "super_adds S {(s, p)} {(s, p)} (connectNext s p S)"
  "super_adds S {} {(p, s)} (super_deplink p s S)"
  by (auto simp: super_adds_def super_link_defs super_clear_relation_def)

lemma super_adds_fold:
  assumes "\<And>p S. super_adds S (E p) (D p) (f p S)"
  shows "super_adds S (\<Union>p \<in> set ps. E p) (\<Union>p \<in> set ps. D p) (fold f ps S)"
proof (induction ps arbitrary: S)
  case (Cons p ps)
  from super_adds_trans [OF assms Cons.IH] show ?case by simp
qed (simp add: super_adds_refl)

lemma super_adds_static:
  assumes "super_adds S E D S'"
  shows "smember (S' x) = smember (S x)" "sorder (S' x) = sorder (S x)" "superType (S' x) = superType (S x)"
proof -
  have e: "super_clear_relation (S' x) = super_clear_relation (S x)" using assms by (simp add: super_adds_def)
  show "smember (S' x) = smember (S x)" "sorder (S' x) = sorder (S x)" "superType (S' x) = superType (S x)"
    using arg_cong [OF e, of smember] arg_cong [OF e, of sorder] arg_cong [OF e, of superType]
    by (simp_all add: super_clear_relation_def)
qed

text \<open>The edges between super nodes that the edges \<open>P\<close>, \<open>N\<close> of a node \<open>n\<close> give.\<close>

definition lifted :: "heap \<Rightarrow> nodeid \<Rightarrow> nodeid set \<Rightarrow> nodeid set \<Rightarrow> (superid \<times> superid) set" where
  "lifted h n P N =
     {(p, s). super (h n) = Some s \<and> p \<noteq> s \<and> (\<exists>m \<in> P. super (h m) = Some p)}
     \<union> {(s, q). super (h n) = Some s \<and> q \<noteq> s \<and> (\<exists>m \<in> N. super (h m) = Some q)}"

lemma supers_of_mem: "q \<in> supers_of h A \<longleftrightarrow> (\<exists>m \<in> A. super (h m) = Some q)"
  by (auto simp: supers_of_def in_these_eq image_iff intro: sym dest: sym)

lemma finite_supers_of: "finite A \<Longrightarrow> finite (supers_of h A)"
proof -
  assume "finite A"
  moreover have "supers_of h A \<subseteq> (\<lambda>m. the (super (h m))) ` A" by (force simp: supers_of_mem)
  ultimately show ?thesis by (meson finite_imageI finite_subset)
qed

lemma constructSuperConnect_adds:
  assumes "constructSuperConnect h n S = Some S'"
    and "finite (prev (h n))" "finite (next (h n))" "finite (depPrev (h n))" "finite (depNext (h n))"
    and "prev (h n) \<subseteq> depPrev (h n)" "next (h n) \<subseteq> depNext (h n)"
  shows "super_adds S (lifted h n (prev (h n)) (next (h n))) (lifted h n (depPrev (h n)) (depNext (h n))) S'"
proof -
  obtain s where s: "super (h n) = Some s" using assms(1) by (auto simp: constructSuperConnect_def split: option.splits)
  let ?o = "\<lambda>A. sorted_list_of_set (supers_of h A - {s})"
  let ?S1 = "fold (\<lambda>p. connectPrev s p) (?o (prev (h n))) S"
  let ?S2 = "fold (\<lambda>p. connectNext s p) (?o (next (h n))) ?S1"
  let ?S3 = "fold (\<lambda>p. super_deplink p s) (?o (depPrev (h n))) ?S2"
  have S': "S' = fold (\<lambda>p. super_deplink s p) (?o (depNext (h n))) ?S3"
    using assms(1) s by (simp add: constructSuperConnect_def Let_def)
  have a: "super_adds S (((\<Union>p \<in> set (?o (prev (h n))). {(p, s)}) \<union> (\<Union>q \<in> set (?o (next (h n))). {(s, q)})) \<union> {} \<union> {})
      (((\<Union>p \<in> set (?o (prev (h n))). {(p, s)}) \<union> (\<Union>q \<in> set (?o (next (h n))). {(s, q)})
        \<union> (\<Union>p \<in> set (?o (depPrev (h n))). {(p, s)})) \<union> (\<Union>q \<in> set (?o (depNext (h n))). {(s, q)})) S'"
    unfolding S'
    using super_adds_fold [of "\<lambda>p. {(p, s)}" "\<lambda>p. {(p, s)}" "\<lambda>p. connectPrev s p"]
      super_adds_fold [of "\<lambda>p. {(s, p)}" "\<lambda>p. {(s, p)}" "\<lambda>p. connectNext s p"]
      super_adds_fold [of "\<lambda>p. {}" "\<lambda>p. {(p, s)}" "\<lambda>p. super_deplink p s"]
      super_adds_fold [of "\<lambda>p. {}" "\<lambda>p. {(s, p)}" "\<lambda>p. super_deplink s p"]
    by (intro super_adds_trans) (simp_all add: super_adds_links)
  have set_o: "set (?o A) = supers_of h A - {s}" if "finite A" for A
    using that by (simp add: finite_supers_of)
  have E: "(\<Union>p \<in> set (?o A). {(p, s)}) \<union> (\<Union>q \<in> set (?o B). {(s, q)}) = lifted h n A B"
    if "finite A" "finite B" for A B
    unfolding set_o [OF that(1)] set_o [OF that(2)] by (auto simp: lifted_def s supers_of_mem)
  have sub: "lifted h n (prev (h n)) (next (h n)) \<subseteq> lifted h n (depPrev (h n)) (depNext (h n))"
    using assms(6,7) unfolding lifted_def by blast
  have D: "(X \<union> Y \<union> Z) \<union> W = B" if "X \<union> Y = A" "Z \<union> W = B" "A \<subseteq> B" for X Y Z W A B :: "(superid \<times> superid) set"
    using that by blast
  show ?thesis
    using a unfolding S' [symmetric] D [OF E [OF assms(2,3)] E [OF assms(4,5)] sub]
    by (simp add: E [OF assms(2,3)])
qed

text \<open>The edges of the members stay among the members and are recorded at both ends.\<close>

definition node_edges_ok :: "heap \<Rightarrow> nodeid set \<Rightarrow> bool" where
  "node_edges_ok h M \<longleftrightarrow>
     (\<forall>n \<in> M. depPrev (h n) \<subseteq> M \<and> depNext (h n) \<subseteq> M \<and> prev (h n) \<subseteq> depPrev (h n) \<and> next (h n) \<subseteq> depNext (h n))
     \<and> (\<forall>p \<in> M. \<forall>n \<in> M. (p \<in> prev (h n) \<longleftrightarrow> n \<in> next (h p)) \<and> (p \<in> depPrev (h n) \<longleftrightarrow> n \<in> depNext (h p)))"

lemma node_edges_okD:
  assumes "node_edges_ok h M" "finite M" "n \<in> M"
  shows "finite (prev (h n))" "finite (next (h n))" "finite (depPrev (h n))" "finite (depNext (h n))"
    "prev (h n) \<subseteq> depPrev (h n)" "next (h n) \<subseteq> depNext (h n)"
    "m \<in> prev (h n) \<union> next (h n) \<union> depPrev (h n) \<union> depNext (h n) \<Longrightarrow> m \<in> M"
proof -
  have M: "depPrev (h n) \<subseteq> M" "depNext (h n) \<subseteq> M" "prev (h n) \<subseteq> depPrev (h n)" "next (h n) \<subseteq> depNext (h n)"
    using assms(1,3) by (auto simp: node_edges_ok_def)
  then show "prev (h n) \<subseteq> depPrev (h n)" "next (h n) \<subseteq> depNext (h n)" by simp_all
  show "finite (depPrev (h n))" "finite (depNext (h n))" using M assms(2) finite_subset by blast+
  then show "finite (prev (h n))" "finite (next (h n))" using M finite_subset by blast+
  show "m \<in> prev (h n) \<union> next (h n) \<union> depPrev (h n) \<union> depNext (h n) \<Longrightarrow> m \<in> M" using M by blast
qed

lemma fold_abort_adds_all:
  assumes "\<And>x S. x \<in> set xs \<Longrightarrow> \<exists>S'. f x S = Some S' \<and> super_adds S (E x) (D x) S'"
  shows "\<exists>S'. fold_abort f xs S = Some S' \<and> super_adds S (\<Union>x \<in> set xs. E x) (\<Union>x \<in> set xs. D x) S'"
  using assms
proof (induction xs arbitrary: S)
  case (Cons x xs)
  obtain S1 where S1: "f x S = Some S1" "super_adds S (E x) (D x) S1" using Cons.prems [of x S] by auto
  obtain S2 where S2: "fold_abort f xs S1 = Some S2" "super_adds S1 (\<Union>x \<in> set xs. E x) (\<Union>x \<in> set xs. D x) S2"
    using Cons.IH Cons.prems by (metis list.set_intros(2))
  from super_adds_trans [OF S1(2) S2(2)] show ?case by (simp add: S1(1) S2(1))
qed (simp add: super_adds_refl)

lemma reconnectSuper_adds:
  assumes ne: "node_edges_ok (nodes g) (set (all_members g))"
    and sup: "\<forall>n \<in> set (all_members g). super (nodes g n) \<noteq> None"
  shows "\<exists>S'. reconnectSuper g = Some (g\<lparr>supers := S'\<rparr>)
    \<and> super_adds (\<lambda>s. if s \<in> set (sortedSuper g) then super_clear_relation (supers g s) else supers g s)
        (\<Union>n \<in> set (all_members g). lifted (nodes g) n (prev (nodes g n)) (next (nodes g n)))
        (\<Union>n \<in> set (all_members g). lifted (nodes g) n (depPrev (nodes g n)) (depNext (nodes g n))) S'"
proof -
  let ?S = "\<lambda>s. if s \<in> set (sortedSuper g) then super_clear_relation (supers g s) else supers g s"
  note D = node_edges_okD [OF ne finite_set]
  have "\<exists>S'. constructSuperConnect (nodes g) n S = Some S'" if n: "n \<in> set (all_members g)" for n S
  proof -
    have "\<forall>m \<in> prev (nodes g n) \<union> next (nodes g n) \<union> depPrev (nodes g n) \<union> depNext (nodes g n). super (nodes g m) \<noteq> None"
      using D(7) [OF n] sup by blast
    moreover obtain s where "super (nodes g n) = Some s" using sup n by blast
    ultimately show ?thesis by (simp add: constructSuperConnect_def Let_def)
  qed
  then have "\<exists>S'. constructSuperConnect (nodes g) n S = Some S' \<and>
      super_adds S (lifted (nodes g) n (prev (nodes g n)) (next (nodes g n)))
        (lifted (nodes g) n (depPrev (nodes g n)) (depNext (nodes g n))) S'" if "n \<in> set (all_members g)" for n S
    using constructSuperConnect_adds [where h = "nodes g" and n = n, OF _ D(1-6) [OF that]] that by blast
  from fold_abort_adds_all [of "all_members g" "constructSuperConnect (nodes g)", OF this]
  obtain S' where S': "fold_abort (constructSuperConnect (nodes g)) (all_members g) ?S = Some S'"
    "super_adds ?S (\<Union>n \<in> set (all_members g). lifted (nodes g) n (prev (nodes g n)) (next (nodes g n)))
        (\<Union>n \<in> set (all_members g). lifted (nodes g) n (depPrev (nodes g n)) (depNext (nodes g n))) S'"
    by blast
  then show ?thesis by (auto simp: reconnectSuper_def Let_def)
qed

lemma reconnectSuper_smember:
  assumes "reconnectSuper g = Some g'"
  shows "smember (supers g' x) = smember (supers g x)"
proof -
  from assms have "fold_abort (constructSuperConnect (nodes g)) (all_members g)
       (\<lambda>s. if s \<in> set (sortedSuper g) then super_clear_relation (supers g s) else supers g s) = Some (supers g')"
    by (auto simp: reconnectSuper_def Let_def split: Option.bind_splits)
  then have "\<forall>x. smember (supers g' x) = smember (supers g x)"
    by (rule fold_abort_invariant [where P = "\<lambda>S. \<forall>x. smember (S x) = smember (supers g x)", rotated])
       (simp_all add: constructSuperConnect_members super_clear_relation_def)
  then show ?thesis by blast
qed

text \<open>Every dependence between two super nodes grows in the rank.\<close>

definition ranked :: "(superid \<Rightarrow> int) \<Rightarrow> graph \<Rightarrow> bool" where
  "ranked r g \<longleftrightarrow>
     (\<forall>n \<in> set (all_members g). \<forall>m \<in> depPrev (nodes g n). \<forall>s p.
        super (nodes g n) = Some s \<longrightarrow> super (nodes g m) = Some p \<longrightarrow> p \<noteq> s \<longrightarrow> r p < r s)"

lemma lifted_sym:
  assumes "\<And>n. n \<in> M \<Longrightarrow> P n \<subseteq> M \<and> N n \<subseteq> M" "\<And>p n. p \<in> M \<Longrightarrow> n \<in> M \<Longrightarrow> p \<in> P n \<longleftrightarrow> n \<in> N p"
  shows "(\<Union>n \<in> M. lifted h n (P n) (N n))
      = {(p, s). p \<noteq> s \<and> (\<exists>n \<in> M. \<exists>m \<in> P n. super (h n) = Some s \<and> super (h m) = Some p)}"
  using assms unfolding lifted_def by fast

lemma lifted_all:
  assumes "node_edges_ok h M"
  shows "(\<Union>n \<in> M. lifted h n (depPrev (h n)) (depNext (h n)))
      = {(p, s). p \<noteq> s \<and> (\<exists>n \<in> M. \<exists>m \<in> depPrev (h n). super (h n) = Some s \<and> super (h m) = Some p)}"
    "(\<Union>n \<in> M. lifted h n (prev (h n)) (next (h n)))
      = {(p, s). p \<noteq> s \<and> (\<exists>n \<in> M. \<exists>m \<in> prev (h n). super (h n) = Some s \<and> super (h m) = Some p)}"
  by (rule lifted_sym; use assms in \<open>auto simp: node_edges_ok_def\<close>; blast)+

definition same_groups :: "graph \<Rightarrow> graph \<Rightarrow> bool" where
  "same_groups g g' \<longleftrightarrow>
     nodes g' = nodes g \<and> sortedSuper g' = sortedSuper g
     \<and> (\<forall>x. smember (supers g' x) = smember (supers g x) \<and> sorder (supers g' x) = sorder (supers g x)
          \<and> superType (supers g' x) = superType (supers g x))"

lemma same_groups_members: "same_groups g g' \<Longrightarrow> all_members g' = all_members g"
  and same_groups_live: "same_groups g g' \<Longrightarrow> live g' = live g"
  by (simp_all add: same_groups_def all_members_def live_def emptied_def)

text \<open>Every edge between super nodes comes from an edge between two of their members.\<close>

definition lifted_edges :: "graph \<Rightarrow> bool" where
  "lifted_edges g \<longleftrightarrow>
     (\<forall>x \<in> live g. \<forall>q \<in> snext (supers g x). \<exists>n \<in> set (smember (supers g x)). \<exists>m \<in> next (nodes g n). super (nodes g m) = Some q)"

lemma reconnectSuper_consistent:
  assumes ne: "node_edges_ok (nodes g) (set (all_members g))" and d: "distinct (sortedSuper g)"
    and full: "live g = set (sortedSuper g)" and p: "placed (nodes g) (supers g) (live g)" and rk: "ranked r g"
  shows "\<exists>g'. reconnectSuper g = Some g' \<and> consistent r g' \<and> same_groups g g' \<and> lifted_edges g'"
proof -
  let ?M = "set (all_members g)" and ?h = "nodes g"
  have at: "super (?h n) = Some s \<longleftrightarrow> s \<in> live g \<and> n \<in> set (smember (supers g s))" if nM: "n \<in> ?M" for n s
  proof -
    obtain t where "t \<in> live g" "n \<in> set (smember (supers g t))" "super (?h n) = Some t"
      using placedD [OF p] nM unfolding set_all_members by blast
    then show ?thesis using placedD [OF p, of s n] by auto
  qed
  have sup: "\<forall>n \<in> ?M. super (?h n) \<noteq> None" using placedD [OF p] unfolding set_all_members by blast
  obtain S' where S': "reconnectSuper g = Some (g\<lparr>supers := S'\<rparr>)"
    and a: "super_adds (\<lambda>s. if s \<in> set (sortedSuper g) then super_clear_relation (supers g s) else supers g s)
        (\<Union>n \<in> ?M. lifted ?h n (prev (?h n)) (next (?h n))) (\<Union>n \<in> ?M. lifted ?h n (depPrev (?h n)) (depNext (?h n))) S'"
    using reconnectSuper_adds [OF ne sup] by blast
  let ?g' = "g\<lparr>supers := S'\<rparr>"
  let ?E = "\<lambda>P. {(p, s). p \<noteq> s \<and> (\<exists>n \<in> ?M. \<exists>m \<in> P (?h n). super (?h n) = Some s \<and> super (?h m) = Some p)}"
  have static: "smember (S' x) = smember (supers g x)" "sorder (S' x) = sorder (supers g x)"
    "superType (S' x) = superType (supers g x)" for x
    using super_adds_static [OF a, of x] by (auto simp: super_clear_relation_def split: if_splits)
  have sg: "same_groups g ?g'" by (simp add: same_groups_def static)
  have e: "sprev (S' x) = {p. (p, x) \<in> ?E prev}" "snext (S' x) = {q. (x, q) \<in> ?E prev}"
    "sdepPrev (S' x) = {p. (p, x) \<in> ?E depPrev}" "sdepNext (S' x) = {q. (x, q) \<in> ?E depPrev}"
    if "x \<in> live g" for x
    using a [unfolded lifted_all [OF ne]] that unfolding full
    by (simp_all add: super_adds_def super_clear_relation_def)
  have cl: "m \<in> ?M" "n \<in> ?M \<Longrightarrow> m \<in> depPrev (?h n)" if "n \<in> ?M" "m \<in> prev (?h n) \<or> m \<in> depPrev (?h n)" for n m
    using ne that unfolding node_edges_ok_def by blast+
  have "edges_ok r S' (live g)"
    unfolding edges_ok_def
  proof (intro conjI ballI)
    fix x assume x: "x \<in> live g"
    show "sdepPrev (S' x) \<subseteq> live g" "sdepNext (S' x) \<subseteq> live g"
      unfolding e [OF x] using at cl(1) by (clarsimp, blast)+
    show "sprev (S' x) \<subseteq> sdepPrev (S' x)" "snext (S' x) \<subseteq> sdepNext (S' x)"
      unfolding e [OF x] using cl(2) by auto
    show "(y \<in> sdepPrev (S' x)) = (x \<in> sdepNext (S' y))" "(y \<in> sprev (S' x)) = (x \<in> snext (S' y))"
      if "y \<in> live g" for y
      unfolding e [OF x] e [OF that] by simp_all
    show "r y < r x" if "y \<in> sdepPrev (S' x)" for y
      using that rk unfolding e [OF x] ranked_def by blast
  qed
  moreover have "covered ?h S' (live g)"
    unfolding covered_def static
  proof (intro ballI impI)
    fix s t assume st: "s \<in> live g" "t \<in> live g" "s \<noteq> t"
      and "\<exists>n \<in> set (smember (supers g s)). \<exists>m \<in> set (smember (supers g t)). m \<in> depPrev (?h n)"
    then obtain n m where nm: "n \<in> set (smember (supers g s))" "m \<in> set (smember (supers g t))" "m \<in> depPrev (?h n)" by blast
    then have "super (?h n) = Some s" "super (?h m) = Some t" "n \<in> ?M"
      using placedD [OF p] st set_all_members by auto
    then show "t \<in> sdepPrev (S' s)" unfolding e [OF st(1)] using st(3) nm(3) by auto
  qed
  moreover have "placed ?h S' (live g)" using p by (simp add: placed_def static)
  ultimately have "consistent r ?g'" using d same_groups_live [OF sg] by (simp add: consistent_def)
  moreover have "lifted_edges ?g'"
    unfolding lifted_edges_def same_groups_live [OF sg]
  proof (intro ballI)
    fix x q assume x: "x \<in> live g" and "q \<in> snext (supers ?g' x)"
    then obtain n m where nm: "n \<in> ?M" "m \<in> prev (?h n)" "super (?h n) = Some q" "super (?h m) = Some x"
      using e(2) [OF x] by auto
    then have "m \<in> ?M" "n \<in> next (?h m)" using ne cl(1) unfolding node_edges_ok_def by blast+
    then show "\<exists>n \<in> set (smember (supers ?g' x)). \<exists>m \<in> next (nodes ?g' n). super (nodes ?g' m) = Some q"
      using nm at static(1) by auto
  qed
  ultimately show ?thesis using S' sg by blast
qed

text \<open>The same edges between the nodes.\<close>

definition same_edges :: "heap \<Rightarrow> heap \<Rightarrow> bool" where
  "same_edges h h' \<longleftrightarrow>
     (\<forall>n. prev (h' n) = prev (h n) \<and> next (h' n) = next (h n)
        \<and> depPrev (h' n) = depPrev (h n) \<and> depNext (h' n) = depNext (h n))"

lemma same_edges_refl [simp]: "same_edges h h"
  and same_edges_trans: "same_edges h h1 \<Longrightarrow> same_edges h1 h2 \<Longrightarrow> same_edges h h2"
  and same_edges_ok: "same_edges h h' \<Longrightarrow> node_edges_ok h' M = node_edges_ok h M"
  by (simp_all add: same_edges_def node_edges_ok_def)

text \<open>
  What every pass promises: the same nodes with the same edges, each of them in one super
  node and still after its dependences.
\<close>

definition keeps_schedule :: "graph \<Rightarrow> graph \<Rightarrow> bool" where
  "keeps_schedule g g' \<longleftrightarrow>
     scheduled g' \<and> mset (all_members g') = mset (all_members g) \<and> same_edges (nodes g) (nodes g')"

lemma keeps_schedule_refl: "scheduled g \<Longrightarrow> keeps_schedule g g"
  by (simp add: keeps_schedule_def)

lemma keeps_schedule_trans: "keeps_schedule g g1 \<Longrightarrow> keeps_schedule g1 g2 \<Longrightarrow> keeps_schedule g g2"
  by (auto simp: keeps_schedule_def intro: same_edges_trans)

lemma keeps_removeEmptySuper: "keeps_schedule g g' \<Longrightarrow> keeps_schedule g (removeEmptySuper g')"
  by (simp add: keeps_schedule_def removeEmptySuper_scheduled removeEmptySuper_members)

lemma keeps_edges_ok:
  assumes "keeps_schedule g g'" "node_edges_ok (nodes g) (set (all_members g))"
  shows "node_edges_ok (nodes g') (set (all_members g'))"
proof -
  have "set (all_members g') = set (all_members g)" using assms(1) by (auto simp: keeps_schedule_def dest: mset_eq_setD)
  then show ?thesis using assms same_edges_ok [of "nodes g" "nodes g'"] by (simp add: keeps_schedule_def)
qed

lemma merge_keeps:
  assumes "scheduled g" "s \<in> live g" "t \<in> live g" "superType (supers g s) = SUPER_VALID"
    "mergeable (order_of g) (supers g) s t" "moved (order_of g) s t g g'"
    "quotient_edges s t (supers g) (supers g') (live g - {s})"
  shows "keeps_schedule g g'" "live g' = live g - {s}"
proof -
  have c: "consistent (order_of g) g" using assms(1) by (simp add: scheduled_def)
  note mc = merge_consistent [OF c assms(2-7)]
  have o: "order_of g' = order_of g" using movedD(3) [OF assms(6)] by auto
  have "sorted_supers g'" using assms(1) by (simp add: scheduled_def sorted_supers_def movedD(1,3) [OF assms(6)])
  moreover have "same_edges (nodes g) (nodes g')" using assms(6) by (auto simp: same_edges_def moved_def)
  ultimately show "keeps_schedule g g'" using mc o by (simp add: keeps_schedule_def scheduled_def)
  show "live g' = live g - {s}" by (rule mc(2))
qed

lemma sorted_wrt_less_inj:
  "sorted_wrt (\<lambda>s t. f s < (f t :: int)) xs \<Longrightarrow> x \<in> set xs \<Longrightarrow> y \<in> set xs \<Longrightarrow> f x = f y \<Longrightarrow> x = y"
  by (induction xs) fastforce+

lemma order_inj:
  assumes "scheduled g" "x \<in> live g" "y \<in> live g" "order_of g x = order_of g y"
  shows "x = y"
  using sorted_wrt_less_inj [of "order_of g" "sortedSuper g" x y] assms live_sorted
  by (auto simp: scheduled_def sorted_supers_def)

lemma scheduled_edges: "scheduled g \<Longrightarrow> edges_ok (order_of g) (supers g) (live g)"
  by (simp add: scheduled_def consistent_def)

lemma scheduled_distinct: "scheduled g \<Longrightarrow> distinct (sortedSuper g)"
  by (simp add: scheduled_def consistent_def)

text \<open>No super node that could be merged is empty: what \<^verbatim>\<open>removeEmptySuper\<close> establishes.\<close>

abbreviation compact :: "graph \<Rightarrow> bool" where
  "compact g \<equiv> live g = set (sortedSuper g)"

section \<open>Merging first and recomputing the edges afterwards\<close>

text \<open>
  Some passes only move members and call \<^verbatim>\<open>reconnectSuper\<close> at the end.  A companion graph with
  the same groups whose edges are updated at every move shows that each move was allowed.
\<close>

definition ghost_merge :: "superid \<Rightarrow> superid \<Rightarrow> graph \<Rightarrow> graph" where
  "ghost_merge s t k =
     k\<lparr>nodes := (\<lambda>n. if n \<in> set (smember (supers k s)) then (nodes k n)\<lparr>super := Some t\<rparr> else nodes k n),
       supers := (\<lambda>x. (supers k x)\<lparr>
           smember := (if x = s then [] else if x = t then smember (supers k t) @ smember (supers k s) else smember (supers k x)),
           sprev := qset s t (\<lambda>y. sprev (supers k y)) x, snext := qset s t (\<lambda>y. snext (supers k y)) x,
           sdepPrev := qset s t (\<lambda>y. sdepPrev (supers k y)) x, sdepNext := qset s t (\<lambda>y. sdepNext (supers k y)) x\<rparr>)\<rparr>"

lemma ghost_merge_consistent:
  assumes c: "consistent r k" and st: "s \<in> live k" "t \<in> live k" "superType (supers k s) = SUPER_VALID"
    and lt: "r t < r s" and before: "\<And>p. p \<in> sdepPrev (supers k s) \<Longrightarrow> p = t \<or> r p < r t"
  shows "consistent r (ghost_merge s t k)" "live (ghost_merge s t k) = live k - {s}"
    "mset (all_members (ghost_merge s t k)) = mset (all_members k)" "same_edges (nodes k) (nodes (ghost_merge s t k))"
proof -
  have e: "edges_ok r (supers k) (live k)" using c by (simp add: consistent_def)
  have mg: "mergeable r (supers k) s t"
    using lt before edges_okD(6) [OF e st(1)] by (force simp: mergeable_def)
  have mv: "moved r s t k (ghost_merge s t k)" using lt by (auto simp: moved_def ghost_merge_def)
  have q: "quotient_edges s t (supers k) (supers (ghost_merge s t k)) (live k - {s})"
    by (simp add: quotient_edges_def ghost_merge_def)
  show "consistent r (ghost_merge s t k)" "live (ghost_merge s t k) = live k - {s}"
    "mset (all_members (ghost_merge s t k)) = mset (all_members k)"
    using merge_consistent [OF c st mg mv q] by simp_all
  show "same_edges (nodes k) (nodes (ghost_merge s t k))" by (simp add: same_edges_def ghost_merge_def)
qed

lemma ghost_merge_keeps:
  assumes "scheduled k" "s \<in> live k" "t \<in> live k" "superType (supers k s) = SUPER_VALID"
    "order_of k t < order_of k s" "\<And>p. p \<in> sdepPrev (supers k s) \<Longrightarrow> p = t \<or> order_of k p < order_of k t"
  shows "keeps_schedule k (ghost_merge s t k)" "live (ghost_merge s t k) = live k - {s}"
proof -
  have "mergeable (order_of k) (supers k) s t"
    using assms(5,6) edges_okD(6) [OF scheduled_edges [OF assms(1)] assms(2)] by (force simp: mergeable_def)
  moreover have "moved (order_of k) s t k (ghost_merge s t k)"
    using assms(5) by (auto simp: moved_def ghost_merge_def)
  moreover have "quotient_edges s t (supers k) (supers (ghost_merge s t k)) (live k - {s})"
    by (simp add: quotient_edges_def ghost_merge_def)
  ultimately show "keeps_schedule k (ghost_merge s t k)" "live (ghost_merge s t k) = live k - {s}"
    using merge_keeps [OF assms(1-4)] by blast+
qed

lemma consistent_ranked:
  assumes c: "consistent r k" and ne: "node_edges_ok (nodes k) (set (all_members k))"
  shows "ranked r k"
  unfolding ranked_def
proof (intro ballI allI impI)
  fix n m s p assume n: "n \<in> set (all_members k)" and m: "m \<in> depPrev (nodes k n)"
    and sp: "super (nodes k n) = Some s" "super (nodes k m) = Some p" "p \<noteq> s"
  have "m \<in> set (all_members k)" using ne n m by (auto simp: node_edges_ok_def)
  then have p: "p \<in> live k" "m \<in> set (smember (supers k p))" using member_super [OF c] sp(2) by fastforce+
  have s: "s \<in> live k" "n \<in> set (smember (supers k s))" using member_super [OF c n] sp(1) by auto
  have "p \<in> sdepPrev (supers k s)"
    using coveredD [of "nodes k" "supers k" "live k" s p n m] c s p m sp(3) by (auto simp: consistent_def)
  then show "r p < r s" using c edges_okD(5) [of r "supers k" "live k" s p] s(1) by (simp add: consistent_def)
qed

lemma reconnect_consistent:
  assumes k: "consistent r k" and sg: "same_groups k g" and ne: "node_edges_ok (nodes k) (set (all_members k))"
  shows "\<exists>g'. reconnectSuper (removeEmptySuper g) = Some g' \<and> consistent r g' \<and> compact g'
    \<and> same_groups (removeEmptySuper g) g' \<and> all_members g' = all_members k \<and> lifted_edges g'"
proof -
  let ?g = "removeEmptySuper g"
  have n: "nodes g = nodes k" and so: "sortedSuper g = sortedSuper k"
    and l: "live g = live k" and mb: "all_members g = all_members k"
    using sg same_groups_live [OF sg] same_groups_members [OF sg] by (auto simp: same_groups_def)
  have am: "all_members ?g = all_members k" by (simp add: removeEmptySuper_members mb)
  have "placed (nodes k) (supers g) (live k)"
    using k sg by (simp add: consistent_def placed_def same_groups_def)
  moreover have "ranked r ?g" using consistent_ranked [OF k ne] by (simp add: ranked_def am n)
  moreover have "distinct (sortedSuper ?g)" using k by (simp add: consistent_def removeEmptySuper_sorted so)
  ultimately obtain g' where g': "reconnectSuper ?g = Some g'" "consistent r g'" "same_groups ?g g'" "lifted_edges g'"
    using reconnectSuper_consistent [of ?g r] ne am by (auto simp: n l)
  have "compact g'" using g'(3) same_groups_live [OF g'(3)] by (auto simp: same_groups_def)
  then show ?thesis using g' same_groups_members [OF g'(3)] am by auto
qed

lemma reconnect_keeps:
  assumes k: "scheduled k" and sg: "same_groups k g" and ne: "node_edges_ok (nodes k) (set (all_members k))"
  shows "\<exists>g'. reconnectSuper (removeEmptySuper g) = Some g' \<and> keeps_schedule k g' \<and> compact g' \<and> lifted_edges g'"
proof -
  have c: "consistent (order_of k) k" using k by (simp add: scheduled_def)
  obtain g' where g': "reconnectSuper (removeEmptySuper g) = Some g'" "consistent (order_of k) g'" "compact g'"
    "same_groups (removeEmptySuper g) g'" "all_members g' = all_members k" "lifted_edges g'"
    using reconnect_consistent [OF c sg ne] by blast
  have so: "sortedSuper g = sortedSuper k" and o: "\<And>x. order_of g x = order_of k x" and n: "nodes g = nodes k"
    using sg by (auto simp: same_groups_def)
  have o': "\<And>x. order_of g' x = order_of k x" using g'(4) o by (simp add: same_groups_def)
  have "sorted_supers g'"
    using k g'(4) by (simp add: scheduled_def sorted_supers_def same_groups_def removeEmptySuper_sorted so o sorted_wrt_filter)
  moreover have "consistent (order_of g') g'" using g'(2) o' by simp
  moreover have "nodes g' = nodes k" using g'(4) n by (simp add: same_groups_def)
  ultimately show ?thesis using g'(1,3,5,6) by (auto simp: keeps_schedule_def scheduled_def)
qed

section \<open>Nodes in the order of a schedule\<close>

text \<open>
  What a scheduled graph promises those that run its super nodes one after another: every
  node once, after all it depends on, in the super node it points to.
\<close>

definition node_schedule :: "graph \<Rightarrow> bool" where
  "node_schedule g \<longleftrightarrow>
     distinct (all_members g) \<and> in_dep_order (nodes g) (all_members g)
     \<and> (\<forall>n \<in> set (all_members g). \<exists>s \<in> set (sortedSuper g). super (nodes g n) = Some s \<and> n \<in> set (smember (supers g s)))"

lemma scheduled_nodes: "scheduled g \<Longrightarrow> node_schedule g"
  using scheduled_in_order [of g] consistent_distinct [of "order_of g" g] member_super [of "order_of g" g] live_sorted [of g]
  by (fastforce simp: node_schedule_def scheduled_def)

text \<open>The contract of a pass that regroups the nodes, and of two passes in sequence.\<close>

locale schedule_pass =
  fixes run :: "graph \<Rightarrow> graph abortable"
  assumes run_keeps: "scheduled g \<Longrightarrow> compact g \<Longrightarrow> node_edges_ok (nodes g) (set (all_members g))
    \<Longrightarrow> \<exists>g'. run g = Some g' \<and> keeps_schedule g g' \<and> compact g'"
begin

lemma run_schedules:
  assumes "scheduled g" "compact g" "node_edges_ok (nodes g) (set (all_members g))"
  shows "\<exists>g'. run g = Some g' \<and> node_schedule g' \<and> mset (all_members g') = mset (all_members g)
    \<and> same_edges (nodes g) (nodes g')"
  using run_keeps [OF assms] scheduled_nodes by (auto simp: keeps_schedule_def)

end

locale schedule_passes = first: schedule_pass run1 + second: schedule_pass run2
  for run1 :: "graph \<Rightarrow> graph abortable" and run2 :: "graph \<Rightarrow> graph abortable"
begin

lemma both_keep:
  assumes "scheduled g" "compact g" and ne: "node_edges_ok (nodes g) (set (all_members g))"
  shows "\<exists>g'. run1 g \<bind> run2 = Some g' \<and> keeps_schedule g g' \<and> compact g'"
proof -
  obtain g1 where 1: "run1 g = Some g1" "keeps_schedule g g1" "compact g1" using first.run_keeps [OF assms] by blast
  have "scheduled g1" using 1(2) by (simp add: keeps_schedule_def)
  from second.run_keeps [OF this 1(3) keeps_edges_ok [OF 1(2) ne]] show ?thesis
    using 1(1) keeps_schedule_trans [OF 1(2)] by auto
qed

end

sublocale schedule_passes \<subseteq> both: schedule_pass "\<lambda>g. run1 g \<bind> run2"
  by unfold_locales (rule both_keep)

subsection \<open>A small schedule\<close>

text \<open>Four nodes, each in its super node: 1 reads 0, and 2 is a register with the next value 3 that 0 resets.\<close>

definition demo_reset :: exptree where
  "demo_reset = \<lparr>root = ENode (new_eattr OP_RESET) [Some (new_leaf 0), Some (new_leaf 1)], lvalue = new_leaf 2\<rparr>"

definition demo_sched :: graph where
  "demo_sched =
     demo_graph\<lparr>nodes := (\<lambda>n. (new_node (if n = 2 then NODE_REG_SRC else if n = 3 then NODE_REG_DST else NODE_OTHERS))
         \<lparr>super := Some n,
          assignTree := (if n = 1 then [\<lparr>root = new_leaf 0, lvalue = new_leaf 1\<rparr>] else []),
          prev := (if n = 1 then {0} else {}), depPrev := (if n = 1 then {0} else {}),
          node.next := (if n = 0 then {1} else {}), depNext := (if n = 0 then {1} else {}),
          regNext := (if n = 2 then Some 3 else if n = 3 then Some 2 else None),
          nreset := (if n = 2 then UINTRESET else UNCERTAIN), resetTree := (if n = 2 then Some demo_reset else None)\<rparr>),
       supers := (\<lambda>s. new_super\<lparr>smember := [s], sorder := int s,
          sprev := (if s = 1 then {0} else {}), sdepPrev := (if s = 1 then {0} else {}),
          snext := (if s = 0 then {1} else {}), sdepNext := (if s = 0 then {1} else {})\<rparr>),
       regsrc := [2], sortedSuper := [0, 1, 2, 3]\<rparr>"

lemma demo_live: "live demo_sched = {0, 1, 2, 3}"
  by (auto simp: live_def emptied_def demo_sched_def)

lemma demo_compact: "compact demo_sched"
  unfolding demo_live by (simp add: demo_sched_def)

lemma demo_members: "all_members demo_sched = [0, 1, 2, 3]"
  by (simp add: all_members_def demo_sched_def)

lemma demo_edges_ok: "node_edges_ok (nodes demo_sched) (set (all_members demo_sched))"
  unfolding demo_members by (simp add: node_edges_ok_def demo_sched_def new_node_def)

lemma demo_scheduled: "scheduled demo_sched"
proof -
  have "placed (nodes demo_sched) (supers demo_sched) {0, 1, 2, 3}"
    by (simp add: placed_def in_dep_order_def demo_sched_def)
  moreover have "covered (nodes demo_sched) (supers demo_sched) {0, 1, 2, 3}" by (simp add: covered_def demo_sched_def)
  moreover have "edges_ok (order_of demo_sched) (supers demo_sched) {0, 1, 2, 3}"
    by (simp add: edges_ok_def demo_sched_def new_super_def)
  ultimately show ?thesis
    unfolding scheduled_def consistent_def demo_live by (simp add: sorted_supers_def demo_sched_def)
qed

end
