(* ===== verification/MergeNodes.thy ===== *)
theory MergeNodes
  imports Schedule
begin

section \<open>Merging super nodes\<close>

text \<open>
  \<^verbatim>\<open>src/mergeNodes.cpp\<close>: super nodes with one successor go to it (\<^verbatim>\<open>mergeOut1\<close>), those with one
  predecessor to that (\<^verbatim>\<open>mergeIn1\<close>), and those with the same predecessors together
  (\<^verbatim>\<open>mergeSublings\<close>).  The first two update the edges between the super nodes in place.  Each
  loop body is shown to be a move of members that \<open>merge_consistent\<close> allows, so that every
  pass keeps the members and their schedule.
\<close>

definition MAX_NODES_PER_SUPER :: nat where
  "MAX_NODES_PER_SUPER = 7000"

definition MAX_SUBLINGS :: nat where
  "MAX_SUBLINGS = 30"

subsection \<open>\<^verbatim>\<open>mergeOut1\<close>\<close>

definition retarget :: "superid \<Rightarrow> superid \<Rightarrow> graph \<Rightarrow> heap" where
  "retarget s t g = (\<lambda>n. if n \<in> set (smember (supers g s)) then (nodes g n)\<lparr>super := Some t\<rparr> else nodes g n)"

definition out_prev :: "superid \<Rightarrow> superid \<Rightarrow> superid \<Rightarrow> (superid \<Rightarrow> supernode) \<Rightarrow> superid \<Rightarrow> supernode" where
  "out_prev s t p S =
     (if p \<in> sprev (S s)
      then (let S1 = S(p := super_addNext t (super_eraseNext s (S p))) in S1(t := super_addPrev p (S1 t)))
      else (let S1 = S(p := super_addDepNext t (super_eraseDepNext s (S p))) in S1(t := super_addDepPrev p (S1 t))))"

definition out_next :: "superid \<Rightarrow> superid \<Rightarrow> superid \<Rightarrow> (superid \<Rightarrow> supernode) \<Rightarrow> superid \<Rightarrow> supernode" where
  "out_next s t q S =
     (if q \<notin> snext (S s)
      then (let S1 = S(q := super_addDepPrev t (super_eraseDepPrev s (S q))) in S1(t := super_addDepNext q (S1 t)))
      else S)"

definition out1_merge :: "superid \<Rightarrow> superid \<Rightarrow> graph \<Rightarrow> graph" where
  "out1_merge s t g =
     (let S0 = supers g;
          S1 = S0(t := (S0 t)\<lparr>smember := smember (S0 s) @ smember (S0 t)\<rparr>);
          S2 = S1(t := super_addPrev_all (sprev (S1 s)) (super_erasePrev s (S1 t)));
          S3 = fold (out_prev s t) (sorted_list_of_set (sdepPrev (S2 s))) S2;
          S4 = fold (out_next s t) (sorted_list_of_set (sdepNext (S3 s))) S3
      in g\<lparr>nodes := retarget s t g,
           supers := S4(s := super_clear_relation ((S4 s)\<lparr>smember := []\<rparr>))\<rparr>)"

definition out1_step :: "superid \<Rightarrow> graph \<Rightarrow> graph" where
  "out1_step s g =
     (let S = supers g in
      if superType (S s) \<noteq> SUPER_VALID then g
      else (case sorted_list_of_set (snext (S s)) of
              [t] \<Rightarrow>
                if superType (S t) \<noteq> SUPER_VALID then g
                else if length (smember (S t)) > MAX_NODES_PER_SUPER then g
                else if \<exists>d \<in> sdepNext (S s). sorder (S d) < sorder (S t) then g
                else out1_merge s t g
            | _ \<Rightarrow> g))"

definition mergeOut1 :: "graph \<Rightarrow> graph" where
  "mergeOut1 g = removeEmptySuper (fold out1_step (rev (sortedSuper g)) g)"

subsection \<open>\<^verbatim>\<open>mergeIn1\<close>\<close>

definition in_next :: "superid \<Rightarrow> superid \<Rightarrow> superid \<Rightarrow> (superid \<Rightarrow> supernode) \<Rightarrow> superid \<Rightarrow> supernode" where
  "in_next s t q S =
     (if q \<in> snext (S s)
      then (let S1 = S(q := super_addPrev t (super_erasePrev s (S q))) in S1(t := super_addNext q (S1 t)))
      else (let S1 = S(q := super_addDepPrev t (super_eraseDepPrev s (S q))) in S1(t := super_addDepNext q (S1 t))))"

definition in_prev :: "superid \<Rightarrow> superid \<Rightarrow> superid \<Rightarrow> (superid \<Rightarrow> supernode) \<Rightarrow> superid \<Rightarrow> supernode" where
  "in_prev s t p S =
     (if p \<notin> sprev (S s)
      then (let S1 = S(p := super_addDepNext t (super_eraseDepNext s (S p))) in S1(t := super_addDepPrev p (S1 t)))
      else S)"

definition in1_merge :: "superid \<Rightarrow> superid \<Rightarrow> graph \<Rightarrow> graph abortable" where
  "in1_merge s t g =
     do { assert_that (smember (supers g t) \<noteq> []);
          let S0 = supers g;
              S1 = S0(t := (S0 t)\<lparr>smember := smember (S0 t) @ smember (S0 s)\<rparr>);
              S2 = S1(t := super_addNext_all (snext (S1 s)) (super_eraseNext s (S1 t)));
              S3 = fold (in_next s t) (sorted_list_of_set (sdepNext (S2 s))) S2;
              S4 = fold (in_prev s t) (sorted_list_of_set (sdepPrev (S3 s))) S3
          in Some (g\<lparr>nodes := retarget s t g, supers := S4(s := (S4 s)\<lparr>smember := []\<rparr>)\<rparr>) }"

definition in1_step :: "superid \<Rightarrow> graph \<Rightarrow> graph abortable" where
  "in1_step s g =
     (let S = supers g in
      if superType (S s) \<noteq> SUPER_VALID then Some g
      else (case sorted_list_of_set (sprev (S s)) of
              [t] \<Rightarrow>
                if superType (S t) \<noteq> SUPER_VALID then Some g
                else if length (smember (S t)) > MAX_NODES_PER_SUPER then Some g
                else if \<exists>d \<in> sdepPrev (S s). sorder (S d) > sorder (S t) then Some g
                else in1_merge s t g
            | _ \<Rightarrow> Some g))"

definition mergeIn1 :: "graph \<Rightarrow> graph abortable" where
  "mergeIn1 g = do { g' \<leftarrow> fold_abort in1_step (sortedSuper g) g; Some (removeEmptySuper g') }"

subsection \<open>\<^verbatim>\<open>mergeSublings\<close>\<close>

text \<open>
  The hash adds the addresses of the predecessors, which \<open>addr\<close> gives; \<^verbatim>\<open>prevSuper\<close> maps a
  hash to the super nodes that have it, in the order of \<^verbatim>\<open>sortedSuper\<close>.
\<close>

definition prevHash :: "(superid \<Rightarrow> 64 word) \<Rightarrow> supernode \<Rightarrow> 64 word" where
  "prevHash addr s = of_nat (card (sprev s)) * 7 + (\<Sum>p \<in> sprev s. addr p)"

definition prevEq :: "supernode \<Rightarrow> supernode \<Rightarrow> bool" where
  "prevEq s1 s2 \<longleftrightarrow> sprev s1 = sprev s2 \<and> sdepPrev s1 = sdepPrev s2"

definition sublings_key :: "(superid \<Rightarrow> 64 word) \<Rightarrow> graph \<Rightarrow> superid \<Rightarrow> 64 word option" where
  "sublings_key addr g s =
     (if sprev (supers g s) = {} \<or> superType (supers g s) \<noteq> SUPER_VALID then None
      else Some (prevHash addr (supers g s)))"

text \<open>The buckets of the map, in the order of their hashes.\<close>

definition sublings_buckets :: "(superid \<Rightarrow> 64 word) \<Rightarrow> graph \<Rightarrow> superid list list" where
  "sublings_buckets addr g =
     map (\<lambda>k. filter (\<lambda>s. sublings_key addr g s = Some k) (sortedSuper g))
       (sorted_list_of_set (Option.these (sublings_key addr g ` set (sortedSuper g))))"

definition absorb :: "superid \<Rightarrow> superid \<Rightarrow> graph \<Rightarrow> graph" where
  "absorb s t g =
     g\<lparr>nodes := retarget s t g,
       supers := (supers g)(t := (supers g t)\<lparr>smember := smember (supers g t) @ smember (supers g s)\<rparr>,
                            s := (supers g s)\<lparr>smember := []\<rparr>)\<rparr>"

text \<open>
  One super node of a bucket; the set \<^verbatim>\<open>uniquePrev\<close> is walked in the order of the addresses,
  here of the numbers: at most one of its elements has the predecessors of \<open>s\<close>.
\<close>

definition subling_step :: "superid \<Rightarrow> superid set \<times> graph \<Rightarrow> superid set \<times> graph" where
  "subling_step s st =
     (case st of (uniquePrev, g) \<Rightarrow>
        (case find (\<lambda>t. prevEq (supers g t) (supers g s)) (sorted_list_of_set uniquePrev) of
           None \<Rightarrow> (insert s uniquePrev, g)
         | Some t \<Rightarrow>
             if length (smember (supers g t)) < MAX_SUBLINGS then (uniquePrev, absorb s t g)
             else (insert s (uniquePrev - {t}), g)))"

definition merge_bucket :: "superid list \<Rightarrow> graph \<Rightarrow> graph" where
  "merge_bucket ss g = snd (fold subling_step ss ({}, g))"

definition mergeSublings :: "(superid \<Rightarrow> 64 word) \<Rightarrow> graph \<Rightarrow> graph abortable" where
  "mergeSublings addr g = reconnectSuper (removeEmptySuper (fold merge_bucket (sublings_buckets addr g) g))"

section \<open>Moving along an edge\<close>

lemmas super_ops = super_addPrev_def super_addPrev_all_def super_erasePrev_def super_addDepPrev_def
  super_eraseDepPrev_def super_addNext_def super_addNext_all_def super_eraseDepNext_def super_addDepNext_def
  super_eraseNext_def super_clear_relation_def

text \<open>What the loops over the neighbours of \<open>s\<close> leave, field by field.\<close>

lemma fold_out_prev:
  assumes "distinct ps" "s \<notin> set ps" "t \<notin> set ps" "s \<noteq> t"
  shows "fold (out_prev s t) ps S x = (
     if x \<in> set ps \<and> x \<in> sprev (S s) then super_addNext t (super_eraseNext s (S x))
     else if x \<in> set ps then super_addDepNext t (super_eraseDepNext s (S x))
     else if x = t then (S t)\<lparr>sprev := sprev (S t) \<union> (set ps \<inter> sprev (S s)), sdepPrev := sdepPrev (S t) \<union> set ps\<rparr>
     else S x)"
  using assms
proof (induction ps arbitrary: S)
  case (Cons p ps)
  let ?S1 = "out_prev s t p S"
  have sp: "sprev (?S1 s) = sprev (S s)" using Cons.prems by (simp add: out_prev_def Let_def)
  have "fold (out_prev s t) (p # ps) S x = (
     if x \<in> set ps \<and> x \<in> sprev (S s) then super_addNext t (super_eraseNext s (?S1 x))
     else if x \<in> set ps then super_addDepNext t (super_eraseDepNext s (?S1 x))
     else if x = t then (?S1 t)\<lparr>sprev := sprev (?S1 t) \<union> (set ps \<inter> sprev (S s)), sdepPrev := sdepPrev (?S1 t) \<union> set ps\<rparr>
     else ?S1 x)"
    using Cons.prems by (simp add: Cons.IH sp cong: if_cong)
  then show ?case
    by (rule trans) (use Cons.prems in \<open>auto simp: out_prev_def Let_def super_addPrev_def super_addDepPrev_def\<close>)
qed simp

lemma fold_out_next:
  assumes "distinct qs" "s \<notin> set qs" "t \<in> set qs \<Longrightarrow> t \<in> snext (S s)" "s \<noteq> t"
  shows "fold (out_next s t) qs S x = (
     if x \<in> set qs \<and> x \<notin> snext (S s) then super_addDepPrev t (super_eraseDepPrev s (S x))
     else if x = t then (S t)\<lparr>sdepNext := sdepNext (S t) \<union> (set qs - snext (S s))\<rparr>
     else S x)"
  using assms
proof (induction qs arbitrary: S)
  case (Cons q qs)
  let ?S1 = "out_next s t q S"
  have sp: "snext (?S1 s) = snext (S s)" using Cons.prems by (simp add: out_next_def Let_def)
  have "fold (out_next s t) (q # qs) S x = (
     if x \<in> set qs \<and> x \<notin> snext (S s) then super_addDepPrev t (super_eraseDepPrev s (?S1 x))
     else if x = t then (?S1 t)\<lparr>sdepNext := sdepNext (?S1 t) \<union> (set qs - snext (S s))\<rparr>
     else ?S1 x)"
    using Cons.prems by (simp add: Cons.IH sp cong: if_cong)
  then show ?case
    by (rule trans) (use Cons.prems in \<open>auto simp: out_next_def Let_def super_addDepNext_def insert_Diff_if\<close>)
qed simp

lemma fold_in_next:
  assumes "distinct qs" "s \<notin> set qs" "t \<notin> set qs" "s \<noteq> t"
  shows "fold (in_next s t) qs S x = (
     if x \<in> set qs \<and> x \<in> snext (S s) then super_addPrev t (super_erasePrev s (S x))
     else if x \<in> set qs then super_addDepPrev t (super_eraseDepPrev s (S x))
     else if x = t then (S t)\<lparr>snext := snext (S t) \<union> (set qs \<inter> snext (S s)), sdepNext := sdepNext (S t) \<union> set qs\<rparr>
     else S x)"
  using assms
proof (induction qs arbitrary: S)
  case (Cons q qs)
  let ?S1 = "in_next s t q S"
  have sp: "snext (?S1 s) = snext (S s)" using Cons.prems by (simp add: in_next_def Let_def)
  have "fold (in_next s t) (q # qs) S x = (
     if x \<in> set qs \<and> x \<in> snext (S s) then super_addPrev t (super_erasePrev s (?S1 x))
     else if x \<in> set qs then super_addDepPrev t (super_eraseDepPrev s (?S1 x))
     else if x = t then (?S1 t)\<lparr>snext := snext (?S1 t) \<union> (set qs \<inter> snext (S s)), sdepNext := sdepNext (?S1 t) \<union> set qs\<rparr>
     else ?S1 x)"
    using Cons.prems by (simp add: Cons.IH sp cong: if_cong)
  then show ?case
    by (rule trans) (use Cons.prems in \<open>auto simp: in_next_def Let_def super_addNext_def super_addDepNext_def\<close>)
qed simp

lemma fold_in_prev:
  assumes "distinct ps" "s \<notin> set ps" "t \<in> set ps \<Longrightarrow> t \<in> sprev (S s)" "s \<noteq> t"
  shows "fold (in_prev s t) ps S x = (
     if x \<in> set ps \<and> x \<notin> sprev (S s) then super_addDepNext t (super_eraseDepNext s (S x))
     else if x = t then (S t)\<lparr>sdepPrev := sdepPrev (S t) \<union> (set ps - sprev (S s))\<rparr>
     else S x)"
  using assms
proof (induction ps arbitrary: S)
  case (Cons p ps)
  let ?S1 = "in_prev s t p S"
  have sp: "sprev (?S1 s) = sprev (S s)" using Cons.prems by (simp add: in_prev_def Let_def)
  have "fold (in_prev s t) (p # ps) S x = (
     if x \<in> set ps \<and> x \<notin> sprev (S s) then super_addDepNext t (super_eraseDepNext s (?S1 x))
     else if x = t then (?S1 t)\<lparr>sdepPrev := sdepPrev (?S1 t) \<union> (set ps - sprev (S s))\<rparr>
     else ?S1 x)"
    using Cons.prems by (simp add: Cons.IH sp cong: if_cong)
  then show ?case
    by (rule trans) (use Cons.prems in \<open>auto simp: in_prev_def Let_def super_addDepPrev_def insert_Diff_if\<close>)
qed simp

lemma edges_facts:
  assumes e: "edges_ok r S U" and s: "s \<in> U"
  shows "s \<notin> sdepPrev (S s)" "s \<notin> sdepNext (S s)" "s \<notin> sprev (S s)" "s \<notin> snext (S s)"
    "x \<in> U \<Longrightarrow> s \<in> sdepPrev (S x) \<longleftrightarrow> x \<in> sdepNext (S s)" "x \<in> U \<Longrightarrow> s \<in> sdepNext (S x) \<longleftrightarrow> x \<in> sdepPrev (S s)"
    "x \<in> U \<Longrightarrow> s \<in> sprev (S x) \<longleftrightarrow> x \<in> snext (S s)" "x \<in> U \<Longrightarrow> s \<in> snext (S x) \<longleftrightarrow> x \<in> sprev (S s)"
    "x \<in> sdepPrev (S s) \<Longrightarrow> x \<notin> sdepNext (S s)" "x \<in> sprev (S s) \<Longrightarrow> x \<in> sdepPrev (S s)"
    "x \<in> snext (S s) \<Longrightarrow> x \<in> sdepNext (S s)"
proof -
  note D = edges_okD [OF assms]
  show "s \<notin> sdepPrev (S s)" "s \<notin> sdepNext (S s)" using D(5,6) by blast+
  then show "s \<notin> sprev (S s)" "s \<notin> snext (S s)" using D(3,4) by blast+
  show "x \<in> sprev (S s) \<Longrightarrow> x \<in> sdepPrev (S s)" "x \<in> snext (S s) \<Longrightarrow> x \<in> sdepNext (S s)" using D(3,4) by blast+
  show "x \<notin> sdepNext (S s)" if "x \<in> sdepPrev (S s)" using D(5) [OF that] D(6) [of x] by linarith
qed (use assms in \<open>simp_all add: edges_ok_def\<close>)

lemma singleton_list: "sorted_list_of_set A = [t] \<Longrightarrow> A = {t}"
  by (metis list.set(1) list.simps(15) set_sorted_list_of_set sorted_list_of_set.fold_insort_key.infinite list.distinct(1))

lemma out1_merge_moves:
  assumes e: "edges_ok r (supers g) U" "finite U" and s: "s \<in> U" and t: "snext (supers g s) = {t}"
  shows "moved r s t g (out1_merge s t g)" "quotient_edges s t (supers g) (supers (out1_merge s t g)) (U - {s})"
proof -
  let ?S = "supers g"
  note D = edges_okD [OF e(1) s] and F = edges_facts [OF e(1) s]
  have tU: "t \<in> U" and ts: "t \<in> sdepNext (?S s)" and lt: "r s < r t" and ne: "s \<noteq> t"
    using D(2,4,6) F(4) t by auto
  note G = edges_facts [OF e(1) tU]
  have fin: "finite (sdepPrev (?S s))" "finite (sdepNext (?S s))"
    using D(1,2) e(2) by (meson finite_subset subsetI)+
  have tp: "t \<notin> sdepPrev (?S s)" using F(9) ts by blast
  define S2 where "S2 = ?S(t := super_addPrev_all (sprev (?S s)) (super_erasePrev s ((?S t)\<lparr>smember := smember (?S s) @ smember (?S t)\<rparr>)))"
  define S3 where "S3 = fold (out_prev s t) (sorted_list_of_set (sdepPrev (?S s))) S2"
  define S4 where "S4 = fold (out_next s t) (sorted_list_of_set (sdepNext (?S s))) S3"
  have S2: "S2 s = ?S s" "x \<noteq> t \<Longrightarrow> S2 x = ?S x" for x using ne by (simp_all add: S2_def)
  have sp: "x \<in> sprev (?S s) \<Longrightarrow> x \<noteq> t" "x \<in> sdepPrev (?S s) \<Longrightarrow> x \<noteq> t" for x using tp F(10) by auto
  have S3: "S3 x = (
     if x \<in> sprev (?S s) then super_addNext t (super_eraseNext s (?S x))
     else if x \<in> sdepPrev (?S s) then super_addDepNext t (super_eraseDepNext s (?S x))
     else if x = t then (S2 t)\<lparr>sprev := sprev (S2 t) \<union> sprev (?S s), sdepPrev := sdepPrev (S2 t) \<union> sdepPrev (?S s)\<rparr>
     else ?S x)" for x
    unfolding S3_def using F(1,3,10) tp ne fin sp by (subst fold_out_prev) (auto simp: S2 Int_absorb1 subsetI)
  have S3s: "S3 s = ?S s" unfolding S3 using F(1,3) ne by simp
  have S4: "S4 x = (
     if x \<in> sdepNext (?S s) \<and> x \<noteq> t then super_addDepPrev t (super_eraseDepPrev s (S3 x))
     else if x = t then (S3 t)\<lparr>sdepNext := sdepNext (S3 t) \<union> (sdepNext (?S s) - {t})\<rparr>
     else S3 x)" for x
    unfolding S4_def using F(2) t ne fin S3s by (subst fold_out_next) auto
  have o: "out1_merge s t g = g\<lparr>nodes := retarget s t g, supers := S4(s := super_clear_relation ((S4 s)\<lparr>smember := []\<rparr>))\<rparr>"
    using ne S3s unfolding S4_def S3_def S2_def by (simp add: out1_merge_def Let_def)
  show "moved r s t g (out1_merge s t g)"
    unfolding moved_def o using lt ne sp
    by (auto simp: S4 S3 S2_def super_ops retarget_def)
  show "quotient_edges s t ?S (supers (out1_merge s t g)) (U - {s})"
    unfolding quotient_edges_def
  proof (intro ballI)
    fix x assume x: "x \<in> U - {s}"
    then have xU: "x \<in> U" "x \<noteq> s" by auto
    have m: "supers (out1_merge s t g) x = S4 x" using xU by (simp add: o)
    show "sprev (supers (out1_merge s t g) x) = qset s t (\<lambda>y. sprev (?S y)) x
       \<and> snext (supers (out1_merge s t g) x) = qset s t (\<lambda>y. snext (?S y)) x
       \<and> sdepPrev (supers (out1_merge s t g) x) = qset s t (\<lambda>y. sdepPrev (?S y)) x
       \<and> sdepNext (supers (out1_merge s t g) x) = qset s t (\<lambda>y. sdepNext (?S y)) x"
    proof (cases "x = t")
      case True
      have nsp: "t \<notin> sprev (?S s)" using sp by blast
      have f: "sprev (S4 t) = sprev (?S t) - {s} \<union> sprev (?S s)" "snext (S4 t) = snext (?S t)"
        "sdepPrev (S4 t) = sdepPrev (?S t) - {s} \<union> sprev (?S s) \<union> sdepPrev (?S s)"
        "sdepNext (S4 t) = sdepNext (?S t) \<union> (sdepNext (?S s) - {t})"
        unfolding S4 S3 using nsp tp by (simp_all add: S2_def super_ops)
      have ns: "s \<notin> snext (?S t)" "s \<notin> sdepNext (?S t)" using F(6,8) [OF tU] nsp tp by blast+
      have sub: "sprev (?S s) \<subseteq> sdepPrev (?S s)" using F(10) by blast
      have "sprev (S4 t) = qset s t (\<lambda>y. sprev (?S y)) t" "sdepPrev (S4 t) = qset s t (\<lambda>y. sdepPrev (?S y)) t"
        unfolding f qset_def using F(1,3) G(1,3) nsp tp sub by auto
      moreover have "snext (S4 t) = qset s t (\<lambda>y. snext (?S y)) t" "sdepNext (S4 t) = qset s t (\<lambda>y. sdepNext (?S y)) t"
        unfolding f qset_def t using F(2) G(2,4) ns by auto
      ultimately show ?thesis using m unfolding True by simp
    next
      case False
      have nx: "x \<notin> snext (?S s)" using False t by simp
      have keys: "s \<in> sdepPrev (?S x) \<longleftrightarrow> x \<in> sdepNext (?S s)" "s \<in> sdepNext (?S x) \<longleftrightarrow> x \<in> sdepPrev (?S s)"
        "s \<notin> sprev (?S x)" "s \<in> snext (?S x) \<longleftrightarrow> x \<in> sprev (?S s)"
        using F(5-8) [OF xU(1)] nx by blast+
      consider "x \<in> sprev (?S s)" "x \<in> sdepPrev (?S s)" "x \<notin> sdepNext (?S s)"
        | "x \<notin> sprev (?S s)" "x \<in> sdepPrev (?S s)" "x \<notin> sdepNext (?S s)"
        | "x \<notin> sprev (?S s)" "x \<notin> sdepPrev (?S s)" "x \<in> sdepNext (?S s)"
        | "x \<notin> sprev (?S s)" "x \<notin> sdepPrev (?S s)" "x \<notin> sdepNext (?S s)"
        using F(9,10) by blast
      then show ?thesis
        unfolding m using False xU keys
        by cases (simp_all add: S4 S3 super_ops qset_def)
    qed
  qed
qed

lemma in1_merge_moves:
  assumes e: "edges_ok r (supers g) U" "finite U" and s: "s \<in> U" and t: "sprev (supers g s) = {t}"
    and ns: "smember (supers g t) \<noteq> []"
  shows "\<exists>g'. in1_merge s t g = Some g' \<and> moved r s t g g' \<and> quotient_edges s t (supers g) (supers g') (U - {s})"
proof -
  let ?S = "supers g"
  note D = edges_okD [OF e(1) s] and F = edges_facts [OF e(1) s]
  have tU: "t \<in> U" and ts: "t \<in> sdepPrev (?S s)" and lt: "r t < r s" and ne: "s \<noteq> t"
    using D(1,3,5) F(3) t by auto
  note G = edges_facts [OF e(1) tU]
  have fin: "finite (sdepPrev (?S s))" "finite (sdepNext (?S s))"
    using D(1,2) e(2) by (meson finite_subset subsetI)+
  have tp: "t \<notin> sdepNext (?S s)" using F(9) ts by blast
  define S2 where "S2 = ?S(t := super_addNext_all (snext (?S s)) (super_eraseNext s ((?S t)\<lparr>smember := smember (?S t) @ smember (?S s)\<rparr>)))"
  define S3 where "S3 = fold (in_next s t) (sorted_list_of_set (sdepNext (?S s))) S2"
  define S4 where "S4 = fold (in_prev s t) (sorted_list_of_set (sdepPrev (?S s))) S3"
  have S2: "S2 s = ?S s" "x \<noteq> t \<Longrightarrow> S2 x = ?S x" for x using ne by (simp_all add: S2_def)
  have sp: "x \<in> snext (?S s) \<Longrightarrow> x \<noteq> t" "x \<in> sdepNext (?S s) \<Longrightarrow> x \<noteq> t" for x using tp F(11) by auto
  have S3: "S3 x = (
     if x \<in> snext (?S s) then super_addPrev t (super_erasePrev s (?S x))
     else if x \<in> sdepNext (?S s) then super_addDepPrev t (super_eraseDepPrev s (?S x))
     else if x = t then (S2 t)\<lparr>snext := snext (S2 t) \<union> snext (?S s), sdepNext := sdepNext (S2 t) \<union> sdepNext (?S s)\<rparr>
     else ?S x)" for x
    unfolding S3_def using F(2,4,11) tp ne fin sp by (subst fold_in_next) (auto simp: S2 Int_absorb1 subsetI)
  have S3s: "S3 s = ?S s" unfolding S3 using F(2,4) ne by simp
  have S4: "S4 x = (
     if x \<in> sdepPrev (?S s) \<and> x \<noteq> t then super_addDepNext t (super_eraseDepNext s (S3 x))
     else if x = t then (S3 t)\<lparr>sdepPrev := sdepPrev (S3 t) \<union> (sdepPrev (?S s) - {t})\<rparr>
     else S3 x)" for x
    unfolding S4_def using F(1) t ne fin S3s by (subst fold_in_prev) auto
  let ?g' = "g\<lparr>nodes := retarget s t g, supers := S4(s := (S4 s)\<lparr>smember := []\<rparr>)\<rparr>"
  have o: "in1_merge s t g = Some ?g'"
    using ne S3s ns unfolding S4_def S3_def S2_def by (simp add: in1_merge_def Let_def)
  have "moved r s t g ?g'"
    unfolding moved_def using lt ne sp by (auto simp: S4 S3 S2_def super_ops retarget_def)
  moreover have "quotient_edges s t ?S (supers ?g') (U - {s})"
    unfolding quotient_edges_def
  proof (intro ballI)
    fix x assume x: "x \<in> U - {s}"
    then have xU: "x \<in> U" "x \<noteq> s" by auto
    have m: "supers ?g' x = S4 x" using xU by simp
    show "sprev (supers ?g' x) = qset s t (\<lambda>y. sprev (?S y)) x \<and> snext (supers ?g' x) = qset s t (\<lambda>y. snext (?S y)) x
       \<and> sdepPrev (supers ?g' x) = qset s t (\<lambda>y. sdepPrev (?S y)) x
       \<and> sdepNext (supers ?g' x) = qset s t (\<lambda>y. sdepNext (?S y)) x"
    proof (cases "x = t")
      case True
      have nsp: "t \<notin> snext (?S s)" using sp by blast
      have f: "snext (S4 t) = snext (?S t) - {s} \<union> snext (?S s)" "sprev (S4 t) = sprev (?S t)"
        "sdepNext (S4 t) = sdepNext (?S t) - {s} \<union> snext (?S s) \<union> sdepNext (?S s)"
        "sdepPrev (S4 t) = sdepPrev (?S t) \<union> (sdepPrev (?S s) - {t})"
        unfolding S4 S3 using nsp tp by (simp_all add: S2_def super_ops)
      have n: "s \<notin> sprev (?S t)" "s \<notin> sdepPrev (?S t)" using F(5,7) [OF tU] nsp tp by blast+
      have sub: "snext (?S s) \<subseteq> sdepNext (?S s)" using F(11) by blast
      have "snext (S4 t) = qset s t (\<lambda>y. snext (?S y)) t" "sdepNext (S4 t) = qset s t (\<lambda>y. sdepNext (?S y)) t"
        unfolding f qset_def using F(2,4) G(2,4) nsp tp sub by auto
      moreover have "sprev (S4 t) = qset s t (\<lambda>y. sprev (?S y)) t" "sdepPrev (S4 t) = qset s t (\<lambda>y. sdepPrev (?S y)) t"
        unfolding f qset_def t using F(1) G(1,3) n by auto
      ultimately show ?thesis using m unfolding True by simp
    next
      case False
      have nx: "x \<notin> sprev (?S s)" using False t by simp
      have keys: "s \<in> sdepPrev (?S x) \<longleftrightarrow> x \<in> sdepNext (?S s)" "s \<in> sdepNext (?S x) \<longleftrightarrow> x \<in> sdepPrev (?S s)"
        "s \<notin> snext (?S x)" "s \<in> sprev (?S x) \<longleftrightarrow> x \<in> snext (?S s)"
        using F(5-8) [OF xU(1)] nx by blast+
      consider "x \<in> snext (?S s)" "x \<in> sdepNext (?S s)" "x \<notin> sdepPrev (?S s)"
        | "x \<notin> snext (?S s)" "x \<in> sdepNext (?S s)" "x \<notin> sdepPrev (?S s)"
        | "x \<notin> snext (?S s)" "x \<notin> sdepNext (?S s)" "x \<in> sdepPrev (?S s)"
        | "x \<notin> snext (?S s)" "x \<notin> sdepPrev (?S s)" "x \<notin> sdepNext (?S s)"
        using F(9,11) by blast
      then show ?thesis
        unfolding m using False xU keys by cases (simp_all add: S4 S3 super_ops qset_def)
    qed
  qed
  ultimately show ?thesis using o by blast
qed

section \<open>The passes keep the schedule\<close>

lemma out1_step_keeps:
  assumes "scheduled g" "s \<in> live g"
  shows "keeps_schedule g (out1_step s g) \<and> live g - {s} \<subseteq> live (out1_step s g)"
proof (cases "out1_step s g = g")
  case True
  then show ?thesis using keeps_schedule_refl [OF assms(1)] by auto
next
  case False
  let ?S = "supers g"
  obtain t where t: "sorted_list_of_set (snext (?S s)) = [t]" and o: "out1_step s g = out1_merge s t g"
    and v: "superType (?S s) = SUPER_VALID" and g: "\<forall>d \<in> sdepNext (?S s). \<not> sorder (?S d) < sorder (?S t)"
    using False by (auto simp: out1_step_def Let_def split: list.splits if_splits)
  note e = scheduled_edges [OF assms(1)]
  note D = edges_okD [OF e assms(2)]
  have n: "snext (?S s) = {t}" by (rule singleton_list [OF t])
  then have tn: "t \<in> sdepNext (?S s)" using D(4) by simp
  then have tl: "t \<in> live g" and lt: "order_of g s < order_of g t" using D(2,6) by auto
  have "x = t \<or> order_of g t < order_of g x" if "x \<in> sdepNext (?S s)" for x
    using g that order_inj [OF assms(1) _ tl] D(2) [OF that] by fastforce
  moreover have "order_of g p < order_of g t" if "p \<in> sdepPrev (?S s)" for p using D(5) [OF that] lt by simp
  ultimately have "mergeable (order_of g) ?S s t" using lt by (auto simp: mergeable_def)
  from merge_keeps [OF assms tl v this out1_merge_moves [OF e finite_live assms(2) n]]
  show ?thesis by (simp add: o)
qed

lemma in1_step_keeps:
  assumes "scheduled g" "s \<in> live g"
  shows "\<exists>g'. in1_step s g = Some g' \<and> keeps_schedule g g' \<and> live g - {s} \<subseteq> live g'"
proof (cases "in1_step s g = Some g")
  case True
  then show ?thesis using keeps_schedule_refl [OF assms(1)] by auto
next
  case False
  let ?S = "supers g"
  obtain t where t: "sorted_list_of_set (sprev (?S s)) = [t]" and o: "in1_step s g = in1_merge s t g"
    and v: "superType (?S s) = SUPER_VALID" "superType (?S t) = SUPER_VALID"
    and g: "\<forall>d \<in> sdepPrev (?S s). \<not> sorder (?S t) < sorder (?S d)"
    using False by (auto simp: in1_step_def Let_def split: list.splits if_splits)
  note e = scheduled_edges [OF assms(1)]
  note D = edges_okD [OF e assms(2)]
  have n: "sprev (?S s) = {t}" by (rule singleton_list [OF t])
  then have tn: "t \<in> sdepPrev (?S s)" using D(3) by simp
  then have tl: "t \<in> live g" and lt: "order_of g t < order_of g s" using D(1,5) by auto
  have "x = t \<or> order_of g x < order_of g t" if "x \<in> sdepPrev (?S s)" for x
    using g that order_inj [OF assms(1) _ tl] D(1) [OF that] by fastforce
  moreover have "order_of g t < order_of g q" if "q \<in> sdepNext (?S s)" for q using D(6) [OF that] lt by simp
  ultimately have mg: "mergeable (order_of g) ?S s t" using lt by (auto simp: mergeable_def)
  have "smember (?S t) \<noteq> []" using tl v(2) by (auto simp: live_def emptied_def)
  from in1_merge_moves [OF e finite_live assms(2) n this]
  obtain g' where g': "in1_merge s t g = Some g'" "moved (order_of g) s t g g'"
    "quotient_edges s t ?S (supers g') (live g - {s})" by blast
  from merge_keeps [OF assms tl v(1) mg g'(2,3)] show ?thesis using o g'(1) by auto
qed

lemma fold_out1_keeps:
  assumes "scheduled g" "distinct ss" "set ss \<subseteq> live g"
  shows "keeps_schedule g (fold out1_step ss g)"
  using assms
proof (induction ss arbitrary: g)
  case (Cons s ss)
  let ?g1 = "out1_step s g"
  have k: "keeps_schedule g ?g1" "live g - {s} \<subseteq> live ?g1" using out1_step_keeps [of g s] Cons.prems by auto
  then have "keeps_schedule ?g1 (fold out1_step ss ?g1)"
    using Cons.prems by (intro Cons.IH) (auto simp: keeps_schedule_def)
  then show ?case using keeps_schedule_trans [OF k(1)] by simp
qed (simp add: keeps_schedule_refl)

lemma fold_in1_keeps:
  assumes "scheduled g" "distinct ss" "set ss \<subseteq> live g"
  shows "\<exists>g'. fold_abort in1_step ss g = Some g' \<and> keeps_schedule g g'"
  using assms
proof (induction ss arbitrary: g)
  case (Cons s ss)
  obtain g1 where k: "in1_step s g = Some g1" "keeps_schedule g g1" "live g - {s} \<subseteq> live g1"
    using in1_step_keeps [of g s] Cons.prems by auto
  then obtain g' where "fold_abort in1_step ss g1 = Some g'" "keeps_schedule g1 g'"
    using Cons.IH [of g1] Cons.prems by (auto simp: keeps_schedule_def)
  then show ?case using k(1) keeps_schedule_trans [OF k(2)] by auto
qed (simp add: keeps_schedule_refl)

lemma mergeOut1_keeps:
  assumes "scheduled g" "compact g"
  shows "keeps_schedule g (mergeOut1 g) \<and> compact (mergeOut1 g)"
  using fold_out1_keeps [OF assms(1), of "rev (sortedSuper g)"] assms(2) scheduled_distinct [OF assms(1)]
  by (simp add: mergeOut1_def keeps_removeEmptySuper)

lemma mergeIn1_keeps:
  assumes "scheduled g" "compact g"
  shows "\<exists>g'. mergeIn1 g = Some g' \<and> keeps_schedule g g' \<and> compact g'"
proof -
  obtain g' where "fold_abort in1_step (sortedSuper g) g = Some g'" "keeps_schedule g g'"
    using fold_in1_keeps [OF assms(1) scheduled_distinct [OF assms(1)]] assms(2) by auto
  then show ?thesis by (simp add: mergeIn1_def keeps_removeEmptySuper)
qed

subsection \<open>Sublings\<close>

text \<open>
  \<open>g\<close> is what the loop has reached from \<open>g0\<close>, \<open>k\<close> its companion with the edges of the merged
  super nodes; \<open>rep\<close> tells which super node now holds the members of another.
\<close>

definition sub_inv :: "graph \<Rightarrow> graph \<Rightarrow> graph \<Rightarrow> bool" where
  "sub_inv g0 g k \<longleftrightarrow>
     same_groups k g \<and> keeps_schedule g0 k \<and> live k \<subseteq> live g0
     \<and> (\<forall>x. prevEq (supers g x) (supers g0 x) \<and> sorder (supers g x) = sorder (supers g0 x)
          \<and> superType (supers g x) = superType (supers g0 x))
     \<and> (\<exists>rep. (\<forall>p. order_of g0 (rep p) \<le> order_of g0 p)
          \<and> (\<forall>x \<in> live k. sdepPrev (supers k x) = rep ` sdepPrev (supers g0 x)))"

lemma sub_inv_init: "scheduled g \<Longrightarrow> sub_inv g g g"
  unfolding sub_inv_def by (auto simp: same_groups_def keeps_schedule_refl prevEq_def intro: exI [of _ id])

lemma sub_inv_order:
  assumes "sub_inv g0 g k"
  shows "order_of k x = order_of g0 x" "superType (supers k x) = superType (supers g0 x)"
    "prevEq (supers g a) (supers g b) = prevEq (supers g0 a) (supers g0 b)"
  using assms by (auto simp: sub_inv_def same_groups_def prevEq_def)

lemma sub_inv_merge:
  assumes g0: "scheduled g0" and i: "sub_inv g0 g k" and st: "s \<in> live k" "t \<in> live k"
    and v: "superType (supers g0 s) = SUPER_VALID" and lt: "order_of g0 t < order_of g0 s"
    and eq: "prevEq (supers g0 t) (supers g0 s)"
  shows "sub_inv g0 (absorb s t g) (ghost_merge s t k)" "live (ghost_merge s t k) = live k - {s}"
proof -
  obtain rep where rep': "\<forall>p. order_of g0 (rep p) \<le> order_of g0 p"
    "\<forall>x \<in> live k. sdepPrev (supers k x) = rep ` sdepPrev (supers g0 x)"
    using i unfolding sub_inv_def by (elim conjE exE)
  have rep: "order_of g0 (rep p) \<le> order_of g0 p" "x \<in> live k \<Longrightarrow> sdepPrev (supers k x) = rep ` sdepPrev (supers g0 x)"
    for p x using rep' by blast+
  have K: "same_groups k g" "keeps_schedule g0 k" "live k \<subseteq> live g0" using i by (auto simp: sub_inv_def)
  have k: "scheduled k" using K(2) by (simp add: keeps_schedule_def)
  note o = sub_inv_order [OF i]
  have same: "sdepPrev (supers k s) = sdepPrev (supers k t)" using rep(2) st eq by (simp add: prevEq_def)
  have before: "order_of g0 p < order_of g0 t" if p: "p \<in> sdepPrev (supers k s)" for p
    using p edges_okD(5) [OF scheduled_edges [OF k] st(2), of p] by (simp add: same o(1))
  have ne: "s \<noteq> t" using lt by auto
  have v': "superType (supers k s) = SUPER_VALID" using v o(2) by simp
  have lt': "order_of k t < order_of k s" using lt by (simp add: o(1))
  have bef': "p = t \<or> order_of k p < order_of k t" if "p \<in> sdepPrev (supers k s)" for p
    using before [OF that] by (simp add: o(1))
  note gm = ghost_merge_keeps [OF k st v' lt' bef']
  show l: "live (ghost_merge s t k) = live k - {s}" by (rule gm(2))
  let ?rep = "\<lambda>p. if rep p = s then t else rep p"
  have r1: "order_of g0 (?rep p) \<le> order_of g0 p" for p using rep(1) [of p] lt by auto
  have r2: "sdepPrev (supers (ghost_merge s t k) x) = ?rep ` sdepPrev (supers g0 x)" if x: "x \<in> live k - {s}" for x
  proof -
    have im: "?rep ` A = (if s \<in> rep ` A then insert t (rep ` A - {s}) else rep ` A)" for A by force
    have "sdepPrev (supers (ghost_merge s t k) x) = qset s t (\<lambda>y. sdepPrev (supers k y)) x"
      by (simp add: ghost_merge_def)
    moreover have "s \<notin> sdepPrev (supers k t)" "t \<notin> sdepPrev (supers k t)"
      using before [of s] before [of t] lt same by auto
    ultimately show ?thesis
      using rep(2) [of x] rep(2) [OF st(2)] x same unfolding im by (cases "x = t") (simp_all add: qset_def)
  qed
  have sg: "same_groups (ghost_merge s t k) (absorb s t g)"
    using K(1) ne by (auto simp: same_groups_def ghost_merge_def absorb_def retarget_def)
  have st': "sorder (supers (absorb s t g) x) = sorder (supers g x)"
    "superType (supers (absorb s t g) x) = superType (supers g x)"
    "prevEq (supers (absorb s t g) x) (supers g0 x) = prevEq (supers g x) (supers g0 x)" for x
    by (auto simp: absorb_def prevEq_def)
  have g: "prevEq (supers g x) (supers g0 x)" "sorder (supers g x) = sorder (supers g0 x)"
    "superType (supers g x) = superType (supers g0 x)" for x
    using i by (simp_all add: sub_inv_def)
  show "sub_inv g0 (absorb s t g) (ghost_merge s t k)"
    unfolding sub_inv_def l
  proof (intro conjI exI [of _ ?rep] allI ballI)
    show "live k - {s} \<subseteq> live g0" using K(3) by blast
    show "keeps_schedule g0 (ghost_merge s t k)" by (rule keeps_schedule_trans [OF K(2) gm(1)])
  qed (use sg r1 r2 g st' in simp_all)
qed

lemma find_SomeD: "find P xs = Some x \<Longrightarrow> x \<in> set xs \<and> P x"
  by (induction xs) (auto split: if_splits)

lemma subling_step_inv:
  assumes g0: "scheduled g0" and i: "sub_inv g0 g k" and u: "finite U" "U \<subseteq> live k" "\<forall>u \<in> U. order_of g0 u < order_of g0 s"
    and s: "s \<in> live k" "superType (supers g0 s) = SUPER_VALID"
  shows "\<exists>U' g' k'. subling_step s (U, g) = (U', g') \<and> sub_inv g0 g' k' \<and> live k - {s} \<subseteq> live k'
    \<and> U' \<subseteq> insert s U \<and> U' \<subseteq> live k'"
proof (cases "find (\<lambda>t. prevEq (supers g t) (supers g s)) (sorted_list_of_set U)")
  case None
  then have "subling_step s (U, g) = (insert s U, g)" by (simp add: subling_step_def)
  then show ?thesis using i u s by blast
next
  case (Some t)
  have t: "t \<in> U" "prevEq (supers g t) (supers g s)"
    using find_SomeD [OF Some] u(1) by auto
  show ?thesis
  proof (cases "length (smember (supers g t)) < MAX_SUBLINGS")
    case False
    then have "subling_step s (U, g) = (insert s (U - {t}), g)" using Some by (simp add: subling_step_def)
    then show ?thesis using i u s by blast
  next
    case True
    have tl: "t \<in> live k" "order_of g0 t < order_of g0 s" "prevEq (supers g0 t) (supers g0 s)"
      using t u sub_inv_order(3) [OF i] by auto
    note m = sub_inv_merge [OF g0 i s(1) tl(1) s(2) tl(2,3)]
    have "subling_step s (U, g) = (U, absorb s t g)" using Some True by (simp add: subling_step_def)
    moreover have "s \<notin> U" using u(3) by blast
    ultimately show ?thesis using m u(2) by blast
  qed
qed

lemma fold_subling_inv:
  assumes "scheduled g0" "sub_inv g0 g k" "finite U" "U \<subseteq> live k"
    "sorted_wrt (\<lambda>s t. order_of g0 s < order_of g0 t) ss" "\<forall>u \<in> U. \<forall>s \<in> set ss. order_of g0 u < order_of g0 s"
    "set ss \<subseteq> live k" "\<forall>s \<in> set ss. superType (supers g0 s) = SUPER_VALID"
  shows "\<exists>k'. sub_inv g0 (snd (fold subling_step ss (U, g))) k' \<and> live k - set ss \<subseteq> live k'"
  using assms(2-)
proof (induction ss arbitrary: U g k)
  case Nil
  then show ?case by auto
next
  case (Cons s ss)
  have s: "\<forall>u \<in> U. order_of g0 u < order_of g0 s" "s \<in> live k" "superType (supers g0 s) = SUPER_VALID"
    using Cons.prems by auto
  obtain U' g' k' where st: "subling_step s (U, g) = (U', g')" "sub_inv g0 g' k'" "live k - {s} \<subseteq> live k'"
    "U' \<subseteq> insert s U" "U' \<subseteq> live k'"
    using subling_step_inv [OF assms(1) Cons.prems(1-3) s] by blast
  have "finite U'" using st(4) Cons.prems(2) by (meson finite_insert finite_subset)
  moreover have "\<forall>u \<in> U'. \<forall>x \<in> set ss. order_of g0 u < order_of g0 x" using st(4) Cons.prems(4,5) by auto
  moreover have "s \<notin> set ss" using Cons.prems(4) by auto
  then have "set ss \<subseteq> live k'" using st(3) Cons.prems(6) by auto
  ultimately obtain k'' where "sub_inv g0 (snd (fold subling_step ss (U', g'))) k''" "live k' - set ss \<subseteq> live k''"
    using Cons.IH [OF st(2) _ st(5)] Cons.prems(4,7) by auto
  then show ?case using st(1,3) by (intro exI [of _ k'']) auto
qed

lemma fold_buckets_inv:
  assumes g0: "scheduled g0" and i: "sub_inv g0 g k"
    and b: "\<forall>ss \<in> set bs. sorted_wrt (\<lambda>s t. order_of g0 s < order_of g0 t) ss \<and> set ss \<subseteq> live k
       \<and> (\<forall>s \<in> set ss. superType (supers g0 s) = SUPER_VALID)"
    and d: "sorted_wrt (\<lambda>a b. set a \<inter> set b = {}) bs"
  shows "\<exists>k'. sub_inv g0 (fold merge_bucket bs g) k'"
  using i b d
proof (induction bs arbitrary: g k)
  case (Cons ss bs)
  obtain k' where k': "sub_inv g0 (merge_bucket ss g) k'" "live k - set ss \<subseteq> live k'"
    using fold_subling_inv [OF g0 Cons.prems(1), of "{}" ss] Cons.prems(2) by (auto simp: merge_bucket_def)
  have "\<forall>a \<in> set bs. set a \<subseteq> live k'" using Cons.prems(2,3) k'(2) by fastforce
  then show ?case using Cons.IH [OF k'(1)] Cons.prems(2,3) by simp
qed auto

lemma buckets_ok:
  assumes "scheduled g" "compact g" "ss \<in> set (sublings_buckets addr g)"
  shows "sorted_wrt (\<lambda>s t. order_of g s < order_of g t) ss \<and> set ss \<subseteq> live g
    \<and> (\<forall>s \<in> set ss. superType (supers g s) = SUPER_VALID)"
proof -
  obtain k where ss: "ss = filter (\<lambda>s. sublings_key addr g s = Some k) (sortedSuper g)"
    using assms(3) unfolding sublings_buckets_def by auto
  have "sorted_wrt (\<lambda>s t. order_of g s < order_of g t) (sortedSuper g)"
    using assms(1) by (simp add: scheduled_def sorted_supers_def)
  moreover have "superType (supers g s) = SUPER_VALID" if "sublings_key addr g s = Some k" for s
    using that by (auto simp: sublings_key_def split: if_splits)
  ultimately show ?thesis unfolding ss using assms(2) by (auto simp: sorted_wrt_filter)
qed

lemma sorted_wrt_distinct:
  assumes "\<And>a b. a \<noteq> b \<Longrightarrow> P a b"
  shows "distinct ks \<Longrightarrow> sorted_wrt P ks"
  by (induction ks) (auto intro: assms)

lemma buckets_disjoint: "sorted_wrt (\<lambda>a b. set a \<inter> set b = {}) (sublings_buckets addr g)"
  unfolding sublings_buckets_def sorted_wrt_map by (rule sorted_wrt_distinct) auto

lemma mergeSublings_keeps:
  assumes "scheduled g" "compact g" "node_edges_ok (nodes g) (set (all_members g))"
  shows "\<exists>g'. mergeSublings addr g = Some g' \<and> keeps_schedule g g' \<and> compact g' \<and> lifted_edges g'"
proof -
  obtain k where k: "sub_inv g (fold merge_bucket (sublings_buckets addr g) g) k"
    using fold_buckets_inv [OF assms(1) sub_inv_init [OF assms(1)] _ buckets_disjoint]
      buckets_ok [OF assms(1,2)] by blast
  then have K: "same_groups k (fold merge_bucket (sublings_buckets addr g) g)" "keeps_schedule g k"
    by (auto simp: sub_inv_def)
  have "scheduled k" using K(2) by (simp add: keeps_schedule_def)
  from reconnect_keeps [OF this K(1) keeps_edges_ok [OF K(2) assms(3)]]
  show ?thesis using keeps_schedule_trans [OF K(2)] by (auto simp: mergeSublings_def)
qed

text \<open>Super nodes with the same predecessors have the same hash, so no pair is missed by the buckets.\<close>

lemma prevEq_hash: "prevEq s1 s2 \<Longrightarrow> prevHash addr s1 = prevHash addr s2"
  by (simp add: prevEq_def prevHash_def)

subsection \<open>The three passes\<close>

interpretation out1: schedule_pass "\<lambda>g. Some (mergeOut1 g)"
  by unfold_locales (use mergeOut1_keeps in simp)

interpretation in1: schedule_pass mergeIn1
  by unfold_locales (rule mergeIn1_keeps)

interpretation sublings: schedule_pass "mergeSublings addr" for addr
  by unfold_locales (use mergeSublings_keeps in blast)

interpretation out_in: schedule_passes "\<lambda>g. Some (mergeOut1 g)" mergeIn1
  by unfold_locales

interpretation merges: schedule_passes "\<lambda>g. Some (mergeOut1 g) \<bind> mergeIn1" "mergeSublings addr" for addr
  by unfold_locales

text \<open>
  C20: the merging passes keep the schedule.  On a sorted graph whose edges are those of its
  nodes, \<^verbatim>\<open>mergeOut1\<close>, \<^verbatim>\<open>mergeIn1\<close> (whose assertion holds) and \<^verbatim>\<open>mergeSublings\<close> in this order give
  a graph with the same nodes and the same edges between them, in which every node is in
  the super node it points to and comes after the nodes it depends on.
\<close>

theorem merge_passes_schedule:
  assumes "scheduled g" "compact g" "node_edges_ok (nodes g) (set (all_members g))"
  shows "\<exists>g'. mergeIn1 (mergeOut1 g) \<bind> mergeSublings addr = Some g' \<and> node_schedule g'
    \<and> mset (all_members g') = mset (all_members g) \<and> same_edges (nodes g) (nodes g')"
  using merges.both.run_schedules [OF assms, of addr] by simp

theorem merge_passes_schedule_witness:
  "\<exists>g'. mergeIn1 (mergeOut1 demo_sched) \<bind> mergeSublings (\<lambda>_. 0) = Some g' \<and> node_schedule g'
    \<and> mset (all_members g') = {#0, 1, 2, 3#} \<and> same_edges (nodes demo_sched) (nodes g')"
  using merge_passes_schedule [OF demo_scheduled demo_compact demo_edges_ok, of "\<lambda>_. 0"] by (simp add: demo_members)

end
