(* ===== verification/Resort.thy ===== *)
theory Resort
  imports MergeNodes
begin

section \<open>Sorting the super nodes again\<close>

text \<open>
  \<^verbatim>\<open>graph::resort\<close> of \<^verbatim>\<open>src/graphPartition.cpp\<close>: the default traversal with a stack and the one of
  \<^verbatim>\<open>GSIM_STABLE_ORDER\<close> with an ordered frontier are the same loop with another frontier and
  another order of the successors.  Whatever super nodes have been merged before, as long as
  some rank exists, \<^verbatim>\<open>resort\<close> ends, passes its two assertions and leaves a schedule.
\<close>

partial_function (option) resort_loop ::
    "(superid \<Rightarrow> supernode) \<Rightarrow> (superid \<Rightarrow> superid list \<Rightarrow> superid list) \<Rightarrow> (superid set \<Rightarrow> superid list)
     \<Rightarrow> superid list \<Rightarrow> marks \<Rightarrow> superid set \<Rightarrow> superid list \<Rightarrow> superid list option" where
  "resort_loop S push nexts s cnts visited out =
     (case s of
        [] \<Rightarrow> Some out
      | hd_s # rest \<Rightarrow>
          if hd_s \<in> visited then None
          else (case fold (touch S push) (nexts (sdepNext (S hd_s))) (cnts, rest) of
                  (cnts', s') \<Rightarrow> resort_loop S push nexts s' cnts' (insert hd_s visited) (out @ [hd_s])))"

definition resort_sources :: "graph \<Rightarrow> superid list" where
  "resort_sources g = filter (\<lambda>s. sdepPrev (supers g s) = {}) (sortedSuper g)"

definition resort_with ::
    "(superid \<Rightarrow> superid list \<Rightarrow> superid list) \<Rightarrow> (superid set \<Rightarrow> superid list) \<Rightarrow> graph \<Rightarrow> graph abortable" where
  "resort_with push nexts g =
     do { out \<leftarrow> resort_loop (supers g) push nexts (fold push (resort_sources g) []) Map.empty {} [];
          assert_that (length out = length (sortedSuper g));
          Some (orderAllNodes (g\<lparr>sortedSuper := out\<rparr>)) }"

text \<open>\<open>stableOrder\<close> is the value of the environment variable.\<close>

definition resort :: "bool \<Rightarrow> graph \<Rightarrow> graph abortable" where
  "resort stableOrder g =
     (if stableOrder
      then resort_with (set_insert (stableLess (nodes g) (supers g))) (stableOrdered (nodes g) (supers g)) g
      else resort_with (#) sorted_list_of_set g)"

section \<open>The loop\<close>

lemma resort_loop_total:
  assumes wf: "wf_supers S U" and push: "good_push push"
    and nx: "\<And>t. t \<in> U \<Longrightarrow> distinct (nexts (sdepNext (S t))) \<and> set (nexts (sdepNext (S t))) = sdepNext (S t)"
  shows "kahn_inv S U src (set s, out) \<Longrightarrow> distinct s \<Longrightarrow> marks_ok S U m out
    \<Longrightarrow> \<exists>out'. resort_loop S push nexts s m (set out) out = Some out' \<and> kahn_inv S U src ({}, out')"
proof (induction "card (U - set out)" arbitrary: s m out rule: less_induct)
  case less
  show ?case
  proof (cases s)
    case Nil
    with less.prems(1) show ?thesis by (simp add: resort_loop.simps)
  next
    case (Cons t rest)
    let ?ns = "nexts (sdepNext (S t))"
    have tU: "t \<in> U" and tout: "t \<notin> set out" using less.prems(1) Cons by (auto simp: kahn_inv_def)
    obtain m' s' where f: "fold (touch S push) ?ns (m, rest) = (m', s')" by fastforce
    have st: "distinct s' \<and> kahn S (set (t # rest), out) (set s', out @ [t]) \<and> marks_ok S U m' (out @ [t])"
      by (rule step_simulates [OF wf less.prems(1,2,3) [unfolded Cons] _ _ _ push f]) (use nx [OF tU] in auto)
    then have "kahn_inv S U src (set s', out @ [t])"
      using kahn_step_inv [OF wf less.prems(1)] Cons by blast
    moreover have "card (U - set (out @ [t])) < card (U - set out)"
      using kahn_inv_card [OF less.prems(1)] wf Cons by (simp add: wf_supers_def)
    ultimately obtain out' where o: "resort_loop S push nexts s' m' (set (out @ [t])) (out @ [t]) = Some out'"
        "kahn_inv S U src ({}, out')"
      using less.hyps st by blast
    have "resort_loop S push nexts s m (set out) out = resort_loop S push nexts s' m' (set (out @ [t])) (out @ [t])"
      using f tout by (simp add: resort_loop.simps [of S push nexts "t # rest"] Cons)
    with o show ?thesis by simp
  qed
qed

lemma ranked_dag:
  assumes "edges_ok r S U" "finite U"
  shows "wf_supers S U" "acyclic {(p, n). n \<in> U \<and> p \<in> sdepPrev (S n)}"
proof -
  show "wf_supers S U" using assms by (simp add: edges_ok_def wf_supers_def)
  have "(a, b) \<in> {(p, n). n \<in> U \<and> p \<in> sdepPrev (S n)}\<^sup>+ \<Longrightarrow> r a < r b" for a b
    by (induction rule: trancl_induct) (use edges_okD(5) [OF assms(1)] in force)+
  then show "acyclic {(p, n). n \<in> U \<and> p \<in> sdepPrev (S n)}" unfolding acyclic_def by fastforce
qed

lemma resort_order_ok:
  assumes e: "edges_ok r (supers g) (set (sortedSuper g))" and d: "distinct (sortedSuper g)" and push: "good_push push"
    and nx: "\<And>t. t \<in> set (sortedSuper g) \<Longrightarrow>
      distinct (nexts (sdepNext (supers g t))) \<and> set (nexts (sdepNext (supers g t))) = sdepNext (supers g t)"
  shows "\<exists>out. resort_loop (supers g) push nexts (fold push (resort_sources g) []) Map.empty {} [] = Some out
    \<and> distinct out \<and> set out = set (sortedSuper g) \<and> deps_first (supers g) out"
proof -
  let ?U = "set (sortedSuper g)" and ?src = "set (resort_sources g)"
  note dag = ranked_dag [OF e finite_set]
  have ds: "distinct (resort_sources g)" using d by (simp add: resort_sources_def)
  then have s: "distinct (fold push (resort_sources g) [])" "set (fold push (resort_sources g) []) = ?src"
    using push_fold [OF push, of "resort_sources g" "[]"] by simp_all
  have "kahn_inv (supers g) ?U ?src (?src, [])" "marks_ok (supers g) ?U Map.empty []"
    by (auto simp: kahn_inv_def resort_sources_def deps_first_def marks_ok_def count_of_def)
  then obtain out where out: "resort_loop (supers g) push nexts (fold push (resort_sources g) []) Map.empty {} [] = Some out"
    "kahn_inv (supers g) ?U ?src ({}, out)"
    using resort_loop_total [OF dag(1) push nx, of ?src "fold push (resort_sources g) []" "[]" Map.empty] s by auto
  have "set out = ?U" by (rule kahn_done [OF dag(1) out(2) _ dag(2)]) (auto simp: resort_sources_def)
  with out show ?thesis by (auto simp: kahn_inv_def)
qed

section \<open>Numbering\<close>

lemma order_members_static:
  "order_members j k ns h = (h', k') \<Longrightarrow> (h' n)\<lparr>orderInSuper := 0, order := 0\<rparr> = (h n)\<lparr>orderInSuper := 0, order := 0\<rparr>"
  by (induction ns arbitrary: j k h) (auto split: if_splits)

lemma order_supers_static:
  "(nodes (order_supers i k ss g) n)\<lparr>orderInSuper := 0, order := 0\<rparr> = (nodes g n)\<lparr>orderInSuper := 0, order := 0\<rparr>
   \<and> (supers (order_supers i k ss g) x)\<lparr>sorder := 0\<rparr> = (supers g x)\<lparr>sorder := 0\<rparr>"
proof (induction ss arbitrary: i k g)
  case (Cons s ss)
  obtain h k' where h: "order_members 0 k (smember (supers g s)) (nodes g) = (h, k')" by fastforce
  let ?g1 = "g\<lparr>nodes := h, supers := (supers g)(s := (supers g s)\<lparr>sorder := i\<rparr>)\<rparr>"
  have "order_supers i k (s # ss) g = order_supers (i + 1) k' ss ?g1" by (simp add: h)
  then show ?case using Cons.IH [of "i + 1" k' ?g1] order_members_static [OF h, of n] by simp
qed simp

lemma orderAllNodes_fields:
  shows "super (nodes (orderAllNodes g) n) = super (nodes g n)"
    "same_edges (nodes g) (nodes (orderAllNodes g))"
    "smember (supers (orderAllNodes g) x) = smember (supers g x)"
    "superType (supers (orderAllNodes g) x) = superType (supers g x)"
    "sprev (supers (orderAllNodes g) x) = sprev (supers g x)" "snext (supers (orderAllNodes g) x) = snext (supers g x)"
    "sdepPrev (supers (orderAllNodes g) x) = sdepPrev (supers g x)"
    "sdepNext (supers (orderAllNodes g) x) = sdepNext (supers g x)"
    "sortedSuper (orderAllNodes g) = sortedSuper g"
proof -
  let ?c = "\<lambda>nd :: node. nd\<lparr>orderInSuper := 0, order := 0\<rparr>" and ?d = "\<lambda>s :: supernode. s\<lparr>sorder := 0\<rparr>"
  have n: "?c (nodes (orderAllNodes g) n) = ?c (nodes g n)" for n
    using order_supers_static by (simp add: orderAllNodes_def)
  have s: "?d (supers (orderAllNodes g) x) = ?d (supers g x)" for x
    using order_supers_static by (simp add: orderAllNodes_def)
  show "super (nodes (orderAllNodes g) n) = super (nodes g n)" using arg_cong [OF n, of super] by simp
  show "same_edges (nodes g) (nodes (orderAllNodes g))"
    using arg_cong [OF n, of prev] arg_cong [OF n, of "node.next"] arg_cong [OF n, of depPrev] arg_cong [OF n, of depNext]
    by (simp add: same_edges_def)
  show "smember (supers (orderAllNodes g) x) = smember (supers g x)"
    "superType (supers (orderAllNodes g) x) = superType (supers g x)"
    "sprev (supers (orderAllNodes g) x) = sprev (supers g x)" "snext (supers (orderAllNodes g) x) = snext (supers g x)"
    "sdepPrev (supers (orderAllNodes g) x) = sdepPrev (supers g x)"
    "sdepNext (supers (orderAllNodes g) x) = sdepNext (supers g x)"
    using arg_cong [OF s, of smember] arg_cong [OF s, of superType] arg_cong [OF s, of sprev]
      arg_cong [OF s, of snext] arg_cong [OF s, of sdepPrev] arg_cong [OF s, of sdepNext] by simp_all
  show "sortedSuper (orderAllNodes g) = sortedSuper g" by (simp add: orderAllNodes_def order_supers_sorted)
qed

lemma orderAllNodes_same:
  "all_members (orderAllNodes g) = all_members g" "live (orderAllNodes g) = live g"
  by (simp_all add: all_members_def live_def emptied_def orderAllNodes_fields)

lemma orderAllNodes_position:
  assumes "distinct (all_members g)" "distinct (sortedSuper g)" "i < length (sortedSuper g)"
  shows "order_of (orderAllNodes g) (sortedSuper g ! i) = int i"
  using order_supers_spec [of g "sortedSuper g" 0 1 "orderAllNodes g"] assms
  by (simp add: all_members_def orderAllNodes_def)

lemma orderAllNodes_scheduled:
  assumes c: "consistent r g" and l: "compact g" and df: "deps_first (supers g) (sortedSuper g)"
  shows "keeps_schedule g (orderAllNodes g) \<and> compact (orderAllNodes g)"
proof -
  let ?g = "orderAllNodes g" and ?L = "sortedSuper g"
  have d: "distinct ?L" using c by (simp add: consistent_def)
  note pos = orderAllNodes_position [OF consistent_distinct [OF c] d]
  have e: "edges_ok r (supers g) (live g)" using c by (simp add: consistent_def)
  have "order_of ?g p < order_of ?g s" if s: "s \<in> live g" and p: "p \<in> sdepPrev (supers g s)" for s p
  proof -
    obtain i where i: "i < length ?L" "?L ! i = s" using s l by (metis in_set_conv_nth)
    then have "p \<in> set (take i ?L)" using df p by (auto simp: deps_first_def)
    then obtain j where "j < i" "?L ! j = p" by (auto simp: in_set_conv_nth)
    then show ?thesis using pos [of i] pos [of j] i by simp
  qed
  then have "edges_ok (order_of ?g) (supers ?g) (live ?g)"
    using e unfolding edges_ok_def by (simp add: orderAllNodes_fields orderAllNodes_same)
  moreover have "depPrev (nodes ?g n) = depPrev (nodes g n)" for n
    using orderAllNodes_fields(2) [of g] by (simp add: same_edges_def)
  then have "placed (nodes ?g) (supers ?g) (live ?g)" "covered (nodes ?g) (supers ?g) (live ?g)"
    using c by (simp_all add: consistent_def placed_def covered_def in_dep_order_def orderAllNodes_fields orderAllNodes_same)
  ultimately have "consistent (order_of ?g) ?g" using d by (simp add: consistent_def orderAllNodes_fields)
  moreover have "sorted_supers ?g"
    unfolding sorted_supers_def orderAllNodes_fields sorted_wrt_iff_nth_less using pos by simp
  ultimately show ?thesis
    using l by (simp add: keeps_schedule_def scheduled_def orderAllNodes_fields orderAllNodes_same)
qed

lemma resort_with_keeps:
  assumes c: "consistent r g" and l: "compact g" and push: "good_push push"
    and nx: "\<And>t. t \<in> set (sortedSuper g) \<Longrightarrow>
      distinct (nexts (sdepNext (supers g t))) \<and> set (nexts (sdepNext (supers g t))) = sdepNext (supers g t)"
  shows "\<exists>g'. resort_with push nexts g = Some g' \<and> keeps_schedule g g' \<and> compact g' \<and> set (sortedSuper g') = set (sortedSuper g)"
proof -
  have d: "distinct (sortedSuper g)" and e: "edges_ok r (supers g) (set (sortedSuper g))"
    using c l by (simp_all add: consistent_def)
  obtain out where out: "resort_loop (supers g) push nexts (fold push (resort_sources g) []) Map.empty {} [] = Some out"
    "distinct out" "set out = set (sortedSuper g)" "deps_first (supers g) out"
    using resort_order_ok [OF e d push nx] by blast
  let ?g1 = "g\<lparr>sortedSuper := out\<rparr>"
  have "length out = length (sortedSuper g)" using out(2,3) d by (metis distinct_card)
  then have r: "resort_with push nexts g = Some (orderAllNodes ?g1)" using out(1) by (simp add: resort_with_def)
  have lv: "live ?g1 = live g" using out(3) by (simp add: live_def)
  then have c1: "consistent r ?g1" using c out(2) by (simp add: consistent_def)
  then have k: "keeps_schedule ?g1 (orderAllNodes ?g1)" "compact (orderAllNodes ?g1)"
    using orderAllNodes_scheduled [of r ?g1] l lv out by auto
  have "mset (all_members ?g1) = mset (all_members g)"
    using all_members_mset [of g] all_members_mset [of ?g1] d out(2) lv by simp
  then show ?thesis using r k out(3) by (auto simp: keeps_schedule_def orderAllNodes_fields)
qed

lemma resort_keeps:
  assumes "consistent r g" "compact g"
  shows "\<exists>g'. resort st g = Some g' \<and> keeps_schedule g g' \<and> compact g' \<and> set (sortedSuper g') = set (sortedSuper g)"
proof -
  have fin: "finite (sdepNext (supers g t))" if "t \<in> set (sortedSuper g)" for t
    using assms that edges_okD(2) [of r "supers g" "live g" t] finite_subset [OF subsetI, of "sdepNext (supers g t)" "live g"]
    by (auto simp: consistent_def)
  show ?thesis
  proof (cases st)
    case True
    then show ?thesis
      using resort_with_keeps [OF assms stable_push [of "nodes g" "supers g"], of "stableOrdered (nodes g) (supers g)"]
        stableOrdered_set [OF stable_push] fin by (simp add: resort_def)
  next
    case False
    have "good_push (#)" by (simp add: good_push_def)
    from resort_with_keeps [OF assms this, of sorted_list_of_set] show ?thesis using fin False by (simp add: resort_def)
  qed
qed

text \<open>\<^verbatim>\<open>resort\<close> is a pass in the sense of the merging passes, and does not need the edges of the nodes.\<close>

interpretation resorted: schedule_pass "resort stableOrder" for stableOrder
  by unfold_locales (use resort_keeps in \<open>fastforce simp: scheduled_def\<close>)

text \<open>
  C18: every super node gets its turn.  Whatever the passes before have merged, if the edges
  of the super nodes grow in some rank then \<^verbatim>\<open>resort\<close> ends in either order, passes both its
  assertions and outputs every super node exactly once; the positions are numbered, all
  dependences come before, and so the nodes are in a schedule again.
\<close>

theorem resort_schedules:
  assumes "consistent r g" "compact g"
  shows "\<exists>g'. resort stableOrder g = Some g' \<and> mset (sortedSuper g') = mset (sortedSuper g)
    \<and> sorted_supers g' \<and> node_schedule g' \<and> mset (all_members g') = mset (all_members g)"
proof -
  obtain g' where g': "resort stableOrder g = Some g'" "keeps_schedule g g'" "set (sortedSuper g') = set (sortedSuper g)"
    using resort_keeps [OF assms] by blast
  have s: "scheduled g'" using g'(2) by (simp add: keeps_schedule_def)
  have "distinct (sortedSuper g)" using assms(1) by (simp add: consistent_def)
  then have "mset (sortedSuper g') = mset (sortedSuper g)"
    using g'(3) scheduled_distinct [OF s] by (simp add: set_eq_iff_mset_eq_distinct [symmetric])
  then show ?thesis using g' s scheduled_nodes [OF s] by (auto simp: keeps_schedule_def scheduled_def)
qed

theorem resort_schedules_witness:
  "\<exists>g'. resort True demo_sched = Some g' \<and> mset (sortedSuper g') = {#0, 1, 2, 3#}
    \<and> sorted_supers g' \<and> node_schedule g' \<and> mset (all_members g') = {#0, 1, 2, 3#}"
proof -
  have "consistent (order_of demo_sched) demo_sched" using demo_scheduled by (simp add: scheduled_def)
  from resort_schedules [OF this demo_compact, of True] show ?thesis by (simp add: demo_members) (simp add: demo_sched_def)
qed

end
