(* ===== verification/InitPartition.thy ===== *)
theory InitPartition
  imports Resort
begin

section \<open>The initial partition\<close>

text \<open>
  \<^verbatim>\<open>graph::graphInitPartition\<close> of \<^verbatim>\<open>src/graphPartition.cpp\<close>: the sorted super nodes are cut into
  segments of at most \<^verbatim>\<open>SuperNodeMaxSize\<close> nodes by dynamic programming, \<open>T ! j\<close> being the number
  of edges that leave their segment when the first \<open>j\<close> super nodes are cut best and \<open>b ! j\<close>
  where the last of these segments begins; each segment is then merged into its first super
  node.  The costs are mathematical integers here, and the theorems about them assume that
  there are fewer than \<^verbatim>\<open>INT_MAX\<close> edges.
\<close>

definition INT_MAX :: int where
  "INT_MAX = 2 ^ 31 - 1"

definition sizes :: "graph \<Rightarrow> nat list" where
  "sizes g = map (\<lambda>s. length (smember (supers g s))) (sortedSuper g)"

text \<open>The loop that moves \<^verbatim>\<open>nextBound\<close>.\<close>

fun next_bound :: "nat \<Rightarrow> nat \<Rightarrow> nat list \<Rightarrow> nat \<Rightarrow> nat" where
  "next_bound maxSize accuCost [] nextBound = nextBound"
| "next_bound maxSize accuCost (m # ms) nextBound =
     (if accuCost + m \<le> maxSize then next_bound maxSize (accuCost + m) ms (nextBound + 1) else nextBound)"

definition bound_of :: "nat \<Rightarrow> graph \<Rightarrow> nat \<Rightarrow> nat" where
  "bound_of maxSize g i = next_bound maxSize (sizes g ! i) (drop (i + 1) (sizes g)) (i + 1)"

text \<open>The change of \<^verbatim>\<open>Cij\<close> when the segment that begins at \<open>i\<close> grows by the super node \<open>j - 1\<close>.\<close>

definition step_cost :: "graph \<Rightarrow> nat \<Rightarrow> nat \<Rightarrow> int" where
  "step_cost g i j =
     (let s = supers g (sortedSuper g ! (j - 1))
      in int (card (snext s)) - int (card {p \<in> sprev s. order_of g p \<ge> int i}))"

definition dp_step :: "graph \<Rightarrow> nat \<Rightarrow> nat \<Rightarrow> int \<times> int list \<times> int list \<Rightarrow> int \<times> int list \<times> int list" where
  "dp_step g i j st =
     (case st of (Cij, T, b) \<Rightarrow>
        let Cij' = Cij + step_cost g i j; newT = T ! i + Cij'
        in (if T ! j > newT then (Cij', T[j := newT], b[j := int i]) else (Cij', T, b)))"

definition dp_row :: "nat \<Rightarrow> graph \<Rightarrow> nat \<Rightarrow> int list \<times> int list \<Rightarrow> int list \<times> int list" where
  "dp_row maxSize g i st =
     (case st of (T, b) \<Rightarrow>
        snd (fold (dp_step g i) [i + 1..<bound_of maxSize g i + 1] (0, T, b)))"

definition dp_table :: "nat \<Rightarrow> graph \<Rightarrow> int list \<times> int list" where
  "dp_table maxSize g =
     (let n = length (sortedSuper g)
      in fold (dp_row maxSize g) [0..<n] ((replicate (n + 1) INT_MAX)[0 := 0], replicate (n + 1) (-1)))"

text \<open>Following \<open>b\<close> back from the end.\<close>

partial_function (option) cut_back :: "int list \<Rightarrow> nat \<Rightarrow> nat list option" where
  "cut_back b idx =
     (if b ! idx > 0
      then do { rest \<leftarrow> cut_back b (nat (b ! idx)); Some (nat (b ! idx) # rest) }
      else Some [])"

definition special_cuts :: "graph \<Rightarrow> nat set" where
  "special_cuts g =
     (let n = length (sortedSuper g);
          special = {i. i < n \<and> superType (supers g (sortedSuper g ! i)) \<noteq> SUPER_VALID}
      in special \<union> {i + 1 | i. i \<in> special \<and> i + 1 < n})"

text \<open>
  One segment; \<^verbatim>\<open>sortedSuper[cutBeg]\<close> must exist, which fails only on an empty graph.
\<close>

definition apply_cut :: "superid list \<Rightarrow> nat \<Rightarrow> nat \<times> graph \<Rightarrow> (nat \<times> graph) abortable" where
  "apply_cut L cutEnd st =
     (case st of (cutBeg, g) \<Rightarrow>
        do { assert_that (cutBeg < length L);
             Some (cutEnd, fold (\<lambda>i. absorb (L ! i) (L ! cutBeg)) [cutBeg + 1..<cutEnd] g) })"

definition graphInitPartition :: "nat \<Rightarrow> graph \<Rightarrow> graph abortable" where
  "graphInitPartition maxSize g =
     (let n = length (sortedSuper g); b = snd (dp_table maxSize g)
      in do { cuts \<leftarrow> cut_back b n;
              let cut = set cuts \<union> {n} \<union> special_cuts g;
              (_, g') \<leftarrow> fold_abort (apply_cut (sortedSuper g)) (sorted_list_of_set cut) (0, g);
              reconnectSuper (removeEmptySuper g') })"

section \<open>The dynamic programming\<close>

text \<open>The segments the code considers, and what they cost.\<close>

definition seg_size :: "graph \<Rightarrow> nat \<Rightarrow> nat \<Rightarrow> nat" where
  "seg_size g i j = (\<Sum>k \<in> {i..<j}. sizes g ! k)"

definition segment :: "nat \<Rightarrow> graph \<Rightarrow> nat \<Rightarrow> nat \<Rightarrow> bool" where
  "segment maxSize g i j \<longleftrightarrow> i < j \<and> j \<le> length (sortedSuper g) \<and> (j = i + 1 \<or> seg_size g i j \<le> maxSize)"

definition seg_cost :: "graph \<Rightarrow> nat \<Rightarrow> nat \<Rightarrow> int" where
  "seg_cost g i j = (\<Sum>k \<in> {i + 1..<j + 1}. step_cost g i k)"

lemma next_bound_ge: "nb \<le> next_bound maxSize acc ms nb" "next_bound maxSize acc ms nb \<le> nb + length ms"
  by (induction maxSize acc ms nb rule: next_bound.induct) auto

lemma next_bound_iff:
  "nb < j \<Longrightarrow> j \<le> nb + length ms \<Longrightarrow>
     j \<le> next_bound maxSize acc ms nb \<longleftrightarrow> acc + sum_list (take (j - nb) ms) \<le> maxSize"
proof (induction maxSize acc ms nb rule: next_bound.induct)
  case (2 maxSize acc m ms nb)
  have tk: "take (j - nb) (m # ms) = m # take (j - (nb + 1)) ms"
    using 2(2) by (simp add: take_Cons')
  show ?case
  proof (cases "acc + m \<le> maxSize")
    case True
    show ?thesis
    proof (cases "nb + 1 < j")
      case True': True
      then show ?thesis using 2(1) [OF True True'] 2(3) True unfolding tk by (simp add: add.assoc)
    next
      case False
      then have "j = nb + 1" using 2(2) by simp
      then show ?thesis using True next_bound_ge(1) [where nb = "nb + 1" and maxSize = maxSize and acc = "acc + m" and ms = ms] unfolding tk by simp
    qed
  next
    case False
    then show ?thesis using 2(2) unfolding tk by auto
  qed
qed simp

lemma seg_size_take:
  assumes "i < j" "j \<le> length (sortedSuper g)"
  shows "seg_size g i j = sizes g ! i + sum_list (take (j - (i + 1)) (drop (i + 1) (sizes g)))"
proof -
  have sub: "sum_list (take m (drop k xs)) = (\<Sum>x \<in> {k..<k + m}. xs ! x)" if "k + m \<le> length xs" for k m and xs :: "nat list"
    using that
  proof (induction m)
    case (Suc m)
    then have "take (Suc m) (drop k xs) = take m (drop k xs) @ [xs ! (k + m)]"
      by (simp add: take_Suc_conv_app_nth)
    then show ?case using Suc by simp
  qed simp
  have "sum_list (take (j - (i + 1)) (drop (i + 1) (sizes g))) = (\<Sum>k \<in> {i + 1..<j}. sizes g ! k)"
    using sub [of "i + 1" "j - (i + 1)" "sizes g"] assms by (simp add: sizes_def)
  then show ?thesis using assms(1) by (simp add: seg_size_def sum.atLeast_Suc_lessThan)
qed

lemma bound_of_range:
  assumes "i < length (sortedSuper g)"
  shows "i < bound_of maxSize g i \<and> bound_of maxSize g i \<le> length (sortedSuper g)"
  using next_bound_ge [where nb = "i + 1" and maxSize = maxSize and acc = "sizes g ! i" and ms = "drop (i + 1) (sizes g)"] assms
  by (simp add: bound_of_def sizes_def)

lemma bound_of_segment:
  assumes "i < length (sortedSuper g)"
  shows "i < j \<and> j \<le> bound_of maxSize g i \<longleftrightarrow> segment maxSize g i j"
proof -
  let ?ms = "drop (i + 1) (sizes g)"
  have len: "i + 1 + length ?ms = length (sortedSuper g)" using assms by (simp add: sizes_def)
  note le = bound_of_range [OF assms, of maxSize]
  show ?thesis
  proof (cases "i + 1 < j \<and> j \<le> length (sortedSuper g)")
    case True
    then show ?thesis
      using next_bound_iff [where nb = "i + 1" and j = j and ms = ?ms and maxSize = maxSize and acc = "sizes g ! i"] seg_size_take [of i j g] len
      by (auto simp: bound_of_def segment_def)
  next
    case False
    then show ?thesis using le by (auto simp: segment_def)
  qed
qed

definition improves :: "graph \<Rightarrow> int list \<Rightarrow> nat \<Rightarrow> nat \<Rightarrow> bool" where
  "improves g T i j \<longleftrightarrow> T ! i + seg_cost g i j < T ! j"

lemma dp_inner:
  assumes "length b = length T" "i < length T"
  shows "i + d < length T \<Longrightarrow> \<exists>T' b'. fold (dp_step g i) [i + 1..<i + d + 1] (0, T, b) = (seg_cost g i (i + d), T', b')
    \<and> length T' = length T \<and> length b' = length T
    \<and> (\<forall>j < length T. T' ! j = (if i < j \<and> j \<le> i + d \<and> improves g T i j then T ! i + seg_cost g i j else T ! j)
         \<and> b' ! j = (if i < j \<and> j \<le> i + d \<and> improves g T i j then int i else b ! j))"
proof (induction d)
  case 0
  then show ?case using assms by (auto simp: seg_cost_def)
next
  case (Suc d)
  let ?j = "i + d + 1"
  obtain T' b' where IH: "fold (dp_step g i) [i + 1..<i + d + 1] (0, T, b) = (seg_cost g i (i + d), T', b')"
    "length T' = length T" "length b' = length T"
    "\<And>j. j < length T \<Longrightarrow> T' ! j = (if i < j \<and> j \<le> i + d \<and> improves g T i j then T ! i + seg_cost g i j else T ! j)"
    "\<And>j. j < length T \<Longrightarrow> b' ! j = (if i < j \<and> j \<le> i + d \<and> improves g T i j then int i else b ! j)"
    using Suc by auto
  have c: "seg_cost g i (i + d) + step_cost g i ?j = seg_cost g i ?j" by (simp add: seg_cost_def)
  have at: "T' ! i = T ! i" "T' ! ?j = T ! ?j" using IH(4) [of i] IH(4) [of ?j] Suc.prems by auto
  have "fold (dp_step g i) [i + 1..<i + Suc d + 1] (0, T, b) = dp_step g i ?j (seg_cost g i (i + d), T', b')"
    using IH(1) by simp
  also have "\<dots> = (seg_cost g i ?j,
      if improves g T i ?j then T'[?j := T ! i + seg_cost g i ?j] else T', if improves g T i ?j then b'[?j := int i] else b')"
    using at c by (simp add: dp_step_def Let_def improves_def)
  finally have f: "fold (dp_step g i) [i + 1..<i + Suc d + 1] (0, T, b) = (seg_cost g i ?j,
      if improves g T i ?j then T'[?j := T ! i + seg_cost g i ?j] else T', if improves g T i ?j then b'[?j := int i] else b')" .
  show ?case
    unfolding f
  proof (intro exI conjI allI impI)
    fix j assume j: "j < length T"
    consider "j = ?j" | "j \<noteq> ?j" "j \<le> i + Suc d \<longleftrightarrow> j \<le> i + d" by linarith
    then show "(if improves g T i ?j then T'[?j := T ! i + seg_cost g i ?j] else T') ! j
        = (if i < j \<and> j \<le> i + Suc d \<and> improves g T i j then T ! i + seg_cost g i j else T ! j)"
      "(if improves g T i ?j then b'[?j := int i] else b') ! j
        = (if i < j \<and> j \<le> i + Suc d \<and> improves g T i j then int i else b ! j)"
      by (cases; use j IH(2-5) Suc.prems in \<open>simp add: nth_list_update\<close>)+
  qed (use IH(2,3) in simp_all)
qed

lemma dp_row_spec:
  assumes "length b = length T" "length T = length (sortedSuper g) + 1" "i < length (sortedSuper g)"
    "dp_row maxSize g i (T, b) = (T', b')"
  shows "length T' = length T" "length b' = length T"
    "j < length T \<Longrightarrow> T' ! j = (if segment maxSize g i j \<and> improves g T i j then T ! i + seg_cost g i j else T ! j)"
    "j < length T \<Longrightarrow> b' ! j = (if segment maxSize g i j \<and> improves g T i j then int i else b ! j)"
proof -
  let ?nb = "bound_of maxSize g i"
  have nb: "i < ?nb \<and> ?nb \<le> length (sortedSuper g)"
    using bound_of_range [OF assms(3)] by simp
  define d where "d = ?nb - i"
  have d: "?nb = i + d" using nb by (simp add: d_def)
  have il: "i < length T" "i + d < length T" using assms(2,3) nb d by simp_all
  obtain T1 b1 where r: "fold (dp_step g i) [i + 1..<?nb + 1] (0, T, b) = (seg_cost g i ?nb, T1, b1)"
    "length T1 = length T" "length b1 = length T"
    "\<forall>j < length T. T1 ! j = (if i < j \<and> j \<le> ?nb \<and> improves g T i j then T ! i + seg_cost g i j else T ! j)
         \<and> b1 ! j = (if i < j \<and> j \<le> ?nb \<and> improves g T i j then int i else b ! j)"
    using dp_inner [OF assms(1) il, of g] unfolding d by (elim exE conjE)
  have e: "T' = T1" "b' = b1" using assms(4) r(1) by (simp_all add: dp_row_def)
  show "length T' = length T" "length b' = length T" using r e by simp_all
  show "j < length T \<Longrightarrow> T' ! j = (if segment maxSize g i j \<and> improves g T i j then T ! i + seg_cost g i j else T ! j)"
    "j < length T \<Longrightarrow> b' ! j = (if segment maxSize g i j \<and> improves g T i j then int i else b ! j)"
    unfolding e bound_of_segment [OF assms(3), symmetric] using r(4) by (simp_all only: conj_assoc)
qed

text \<open>
  After the rows before \<open>i\<close>: every entry is the cost of its last segment plus the best cost of
  where that begins, and no segment that begins before \<open>i\<close> gives less.
\<close>

definition out_edges :: "graph \<Rightarrow> nat \<Rightarrow> nat \<Rightarrow> int" where
  "out_edges g i j = (\<Sum>k \<in> {i..<j}. int (card (snext (supers g (sortedSuper g ! k)))))"

definition dp_inv :: "nat \<Rightarrow> graph \<Rightarrow> nat \<Rightarrow> int list \<times> int list \<Rightarrow> bool" where
  "dp_inv maxSize g i st \<longleftrightarrow>
     (case st of (T, b) \<Rightarrow>
        length T = length (sortedSuper g) + 1 \<and> length b = length T \<and> T ! 0 = 0 \<and> b ! 0 = -1
        \<and> (\<forall>k < i. \<forall>j. segment maxSize g k j \<longrightarrow> T ! j \<le> T ! k + seg_cost g k j)
        \<and> (\<forall>j < length T. 0 < j \<longrightarrow>
             (T ! j = INT_MAX \<and> i < j)
             \<or> (\<exists>k < i. b ! j = int k \<and> segment maxSize g k j \<and> T ! j = T ! k + seg_cost g k j)))"

lemma seg_cost_le: "seg_cost g i j \<le> out_edges g i j"
proof -
  have s: "step_cost g i (k + 1) \<le> int (card (snext (supers g (sortedSuper g ! k))))" for k
    by (simp add: step_cost_def Let_def)
  have "seg_cost g i j = (\<Sum>k \<in> {i..<j}. step_cost g i (k + 1))"
    unfolding seg_cost_def using sum.shift_bounds_nat_ivl [of "step_cost g i" i 1 j] by simp
  also have "\<dots> \<le> out_edges g i j" unfolding out_edges_def by (rule sum_mono) (rule s)
  finally show ?thesis .
qed

lemma out_edges_add: "i \<le> j \<Longrightarrow> j \<le> k \<Longrightarrow> out_edges g i j + out_edges g j k = out_edges g i k"
  by (simp add: out_edges_def sum.atLeastLessThan_concat)

lemma out_edges_mono: "i \<le> i' \<Longrightarrow> j \<le> j' \<Longrightarrow> out_edges g i' j \<le> out_edges g i j'"
  unfolding out_edges_def by (rule sum_mono2) auto

lemma dp_invD:
  assumes "dp_inv maxSize g i (T, b)"
  shows "length T = length (sortedSuper g) + 1" "length b = length T" "T ! 0 = 0" "b ! 0 = -1"
    "k < i \<Longrightarrow> segment maxSize g k j \<Longrightarrow> T ! j \<le> T ! k + seg_cost g k j"
    "j < length T \<Longrightarrow> 0 < j \<Longrightarrow> (T ! j = INT_MAX \<and> i < j)
             \<or> (\<exists>k < i. b ! j = int k \<and> segment maxSize g k j \<and> T ! j = T ! k + seg_cost g k j)"
  using assms unfolding dp_inv_def by simp_all

lemma dp_entry:
  assumes "dp_inv maxSize g i (T, b)" "0 < j" "j \<le> i" "i \<le> length (sortedSuper g)"
  obtains k where "k < j" "b ! j = int k" "segment maxSize g k j" "T ! j = T ! k + seg_cost g k j"
proof -
  have "j < length T" using dp_invD(1) [OF assms(1)] assms(3,4) by simp
  then obtain k where "b ! j = int k" "segment maxSize g k j" "T ! j = T ! k + seg_cost g k j"
    using dp_invD(6) [OF assms(1), of j] assms(2,3) by auto
  then show ?thesis using that by (auto simp: segment_def)
qed

lemma dp_bounded:
  assumes "dp_inv maxSize g i (T, b)" "j \<le> i" "i \<le> length (sortedSuper g)"
  shows "T ! j \<le> out_edges g 0 j"
  using assms(2)
proof (induction j rule: less_induct)
  case (less j)
  show ?case
  proof (cases "j = 0")
    case True
    then show ?thesis using dp_invD(3) [OF assms(1)] by (simp add: out_edges_def)
  next
    case False
    then obtain k where k: "k < j" "T ! j = T ! k + seg_cost g k j"
      using dp_entry [OF assms(1) _ less.prems assms(3)] by blast
    have "T ! k \<le> out_edges g 0 k" using less.IH [OF k(1)] less.prems k(1) by simp
    then show ?thesis using k seg_cost_le [of g k j] out_edges_add [of 0 k j g] by simp
  qed
qed

lemma dp_row_inv:
  assumes inv: "dp_inv maxSize g i (T, b)" and i: "i < length (sortedSuper g)"
    and few: "out_edges g 0 (length (sortedSuper g)) < INT_MAX"
  shows "dp_inv maxSize g (i + 1) (dp_row maxSize g i (T, b))"
proof -
  obtain T' b' where r: "dp_row maxSize g i (T, b) = (T', b')" by fastforce
  note D = dp_invD [OF inv]
  note R = dp_row_spec [OF D(2,1) i r]
  have old: "T' ! k = T ! k" if "k \<le> i" for k
    using R(3) [of k] that i D(1) by (simp add: segment_def)
  have len: "j < length T" if "segment maxSize g k j" for k j using that D(1) by (simp add: segment_def)
  have best: "T' ! j \<le> T' ! k + seg_cost g k j" if k: "k < i + 1" and s: "segment maxSize g k j" for k j
  proof (cases "k = i")
    case True
    then show ?thesis using R(3) [OF len [OF s]] s old [of i] by (auto simp: improves_def)
  next
    case False
    then have "T ! j \<le> T ! k + seg_cost g k j" using D(5) [OF _ s] k by simp
    then show ?thesis using R(3) [OF len [OF s]] old [of k] k by (auto simp: improves_def split: if_splits)
  qed
  have entry: "(T' ! j = INT_MAX \<and> i + 1 < j)
      \<or> (\<exists>k < i + 1. b' ! j = int k \<and> segment maxSize g k j \<and> T' ! j = T' ! k + seg_cost g k j)"
    if j: "j < length T" "0 < j" for j
  proof (cases "segment maxSize g i j \<and> improves g T i j")
    case True
    then show ?thesis using R(3,4) [OF j(1)] old [of i] by auto
  next
    case False
    have same: "T' ! j = T ! j" "b' ! j = b ! j" using R(3,4) [OF j(1)] False by auto
    from D(6) [OF j] consider "T ! j = INT_MAX" "i < j"
      | k where "k < i" "b ! j = int k" "segment maxSize g k j" "T ! j = T ! k + seg_cost g k j" by blast
    then show ?thesis
    proof cases
      case 1
      have "i + 1 \<noteq> j"
      proof
        assume j': "i + 1 = j"
        then have s: "segment maxSize g i j" using i by (simp add: segment_def)
        have "T ! i \<le> out_edges g 0 i" using dp_bounded [OF inv _] i by simp
        then have "T ! i + seg_cost g i j \<le> out_edges g 0 j"
          using seg_cost_le [of g i j] out_edges_add [of 0 i j g] j' by simp
        also have "\<dots> \<le> out_edges g 0 (length (sortedSuper g))" using i j' by (intro out_edges_mono) auto
        finally have "improves g T i j" using few 1(1) by (simp add: improves_def)
        with s False show False by simp
      qed
      then show ?thesis using 1 same by simp
    next
      case 2
      then show ?thesis using same old [of k] by (intro disjI2 exI [of _ k]) simp
    qed
  qed
  have "T' ! 0 = 0" "b' ! 0 = -1"
    using R(3,4) [of 0] D(1,3,4) by (simp_all add: segment_def)
  then show ?thesis unfolding r dp_inv_def using R(1,2) D(1) best entry by simp
qed

lemma dp_table_inv:
  assumes "out_edges g 0 (length (sortedSuper g)) < INT_MAX"
  shows "dp_inv maxSize g (length (sortedSuper g)) (dp_table maxSize g)"
proof -
  let ?n = "length (sortedSuper g)" and ?st = "((replicate (length (sortedSuper g) + 1) INT_MAX)[0 := 0], replicate (length (sortedSuper g) + 1) (-1))"
  have "i \<le> ?n \<Longrightarrow> dp_inv maxSize g i (fold (dp_row maxSize g) [0..<i] ?st)" for i
  proof (induction i)
    case 0
    then show ?case by (auto simp: dp_inv_def nth_list_update)
  next
    case (Suc i)
    then show ?case using dp_row_inv [OF _ _ assms, of maxSize i] by (cases "fold (dp_row maxSize g) [0..<i] ?st") simp
  qed
  from this [of ?n] show ?thesis by (simp add: dp_table_def Let_def)
qed

subsection \<open>The chosen cuts\<close>

text \<open>A list of segment ends that leads from \<open>c\<close> to \<open>e\<close>, and the sum of the costs.\<close>

fun cutting :: "nat \<Rightarrow> graph \<Rightarrow> nat \<Rightarrow> nat list \<Rightarrow> nat \<Rightarrow> bool" where
  "cutting maxSize g c [] e \<longleftrightarrow> c = e"
| "cutting maxSize g c (d # ds) e \<longleftrightarrow> segment maxSize g c d \<and> cutting maxSize g d ds e"

fun cutting_cost :: "graph \<Rightarrow> nat \<Rightarrow> nat list \<Rightarrow> int" where
  "cutting_cost g c [] = 0"
| "cutting_cost g c (d # ds) = seg_cost g c d + cutting_cost g d ds"

lemma cutting_snoc:
  "cutting maxSize g c ds m \<Longrightarrow> segment maxSize g m e \<Longrightarrow>
     cutting maxSize g c (ds @ [e]) e \<and> cutting_cost g c (ds @ [e]) = cutting_cost g c ds + seg_cost g m e"
  by (induction maxSize g c ds m rule: cutting.induct) auto

lemma table_lower_bound:
  assumes "dp_inv maxSize g (length (sortedSuper g)) (T, b)"
  shows "cutting maxSize g c ds e \<Longrightarrow> T ! e \<le> T ! c + cutting_cost g c ds"
proof (induction ds arbitrary: c)
  case (Cons d ds)
  then have "segment maxSize g c d" "T ! e \<le> T ! d + cutting_cost g d ds" by auto
  moreover have "T ! d \<le> T ! c + seg_cost g c d"
    using dp_invD(5) [OF assms _ calculation(1)] calculation(1) by (simp add: segment_def)
  ultimately show ?case by simp
qed simp

lemma cut_back_path:
  assumes inv: "dp_inv maxSize g (length (sortedSuper g)) (T, b)"
  shows "0 < j \<Longrightarrow> j \<le> length (sortedSuper g) \<Longrightarrow> \<exists>cuts. cut_back b j = Some cuts
    \<and> cutting maxSize g 0 (rev cuts @ [j]) j \<and> cutting_cost g 0 (rev cuts @ [j]) = T ! j \<and> (\<forall>c \<in> set cuts. 0 < c \<and> c < j)"
proof (induction j rule: less_induct)
  case (less j)
  obtain k where k: "k < j" "b ! j = int k" "segment maxSize g k j" "T ! j = T ! k + seg_cost g k j"
    using dp_entry [OF inv less.prems] by blast
  show ?case
  proof (cases "k = 0")
    case True
    then have "cut_back b j = Some []" using k(2) by (simp add: cut_back.simps)
    then show ?thesis using k True dp_invD(3) [OF inv] by simp
  next
    case False
    then obtain cuts where cuts: "cut_back b k = Some cuts" "cutting maxSize g 0 (rev cuts @ [k]) k"
      "cutting_cost g 0 (rev cuts @ [k]) = T ! k" "\<forall>c \<in> set cuts. 0 < c \<and> c < k"
      using less.IH [OF k(1)] k(1) less.prems by auto
    have "cut_back b j = Some (k # cuts)" using k(2) False cuts(1) by (simp add: cut_back.simps [of b j])
    moreover have "cutting maxSize g 0 (rev (k # cuts) @ [j]) j" "cutting_cost g 0 (rev (k # cuts) @ [j]) = T ! j"
      using cutting_snoc [OF cuts(2) k(3)] cuts(3) k(4) by simp_all
    ultimately show ?thesis using cuts(4) k(1) False by (intro exI [of _ "k # cuts"]) auto
  qed
qed

text \<open>What a segment costs: the edges that leave it.\<close>

definition leaving :: "graph \<Rightarrow> nat \<Rightarrow> nat \<Rightarrow> nat" where
  "leaving g i j =
     (\<Sum>k \<in> {i..<j}. card (snext (supers g (sortedSuper g ! k)) - (!) (sortedSuper g) ` {i..<j}))"

definition numbered :: "graph \<Rightarrow> bool" where
  "numbered g \<longleftrightarrow> (\<forall>i < length (sortedSuper g). order_of g (sortedSuper g ! i) = int i)"

lemma pairs_swap:
  fixes R :: "nat \<Rightarrow> nat \<Rightarrow> bool"
  assumes "finite A"
  shows "(\<Sum>a \<in> A. card {c \<in> A. R a c}) = (\<Sum>c \<in> A. card {a \<in> A. R a c})"
proof -
  have "(\<Sum>a \<in> A. card {c \<in> A. R a c}) = (\<Sum>a \<in> A. \<Sum>c \<in> A. of_bool (R a c))"
    using assms by (simp add: sum.If_cases of_bool_def Int_def)
  also have "\<dots> = (\<Sum>c \<in> A. \<Sum>a \<in> A. of_bool (R a c))" by (rule sum.swap)
  also have "\<dots> = (\<Sum>c \<in> A. card {a \<in> A. R a c})"
    using assms by (simp add: sum.If_cases of_bool_def Int_def)
  finally show ?thesis .
qed

lemma seg_cost_leaving:
  assumes sc: "scheduled g" and cm: "compact g" and nu: "numbered g" and j: "i \<le> j" "j \<le> length (sortedSuper g)"
  shows "seg_cost g i j = int (leaving g i j)"
proof -
  let ?L = "sortedSuper g" and ?S = "supers g" and ?A = "{i..<j}"
  note e = scheduled_edges [OF sc]
  have inj: "inj_on ((!) ?L) {..<length ?L}" using scheduled_distinct [OF sc] by (auto simp: inj_on_def nth_eq_iff_index_eq)
  then have injA: "inj_on ((!) ?L) ?A" using j by (auto intro: inj_on_subset)
  have live: "?L ! k \<in> live g" if "k \<in> ?A" for k using that j cm by simp
  have fin: "finite (snext (?S (?L ! k)))" if "k \<in> ?A" for k
    using edges_okD(2,4) [OF e live [OF that]] by (meson finite_live finite_subset subsetI)
  have into: "card (snext (?S (?L ! k)) \<inter> (!) ?L ` ?A) = card {c \<in> ?A. ?L ! c \<in> snext (?S (?L ! k))}" for k
  proof -
    have "snext (?S (?L ! k)) \<inter> (!) ?L ` ?A = (!) ?L ` {c \<in> ?A. ?L ! c \<in> snext (?S (?L ! k))}" by auto
    then show ?thesis using card_image [OF inj_on_subset [OF injA]] by (metis (no_types, lifting) mem_Collect_eq subsetI)
  qed
  have cuts: "card {p \<in> sprev (?S (?L ! c)). order_of g p \<ge> int i} = card {a \<in> ?A. ?L ! c \<in> snext (?S (?L ! a))}"
    if c: "c \<in> ?A" for c
  proof -
    have "{p \<in> sprev (?S (?L ! c)). order_of g p \<ge> int i} = (!) ?L ` {a \<in> ?A. ?L ! c \<in> snext (?S (?L ! a))}"
    proof (intro equalityI subsetI)
      fix p assume p: "p \<in> {p \<in> sprev (?S (?L ! c)). order_of g p \<ge> int i}"
      then have pd: "p \<in> sdepPrev (?S (?L ! c))" using edges_okD(3) [OF e live [OF c]] by simp
      then obtain a where a: "a < length ?L" "?L ! a = p"
        using edges_okD(1) [OF e live [OF c]] cm by (metis in_set_conv_nth)
      have "order_of g p < order_of g (?L ! c)" using edges_okD(5) [OF e live [OF c] pd] .
      then have "a \<in> ?A" using nu a p c j by (auto simp: numbered_def)
      moreover have "?L ! c \<in> snext (?S (?L ! a))" using edges_okD(9) [OF e live [OF c]] p a by simp
      ultimately show "p \<in> (!) ?L ` {a \<in> ?A. ?L ! c \<in> snext (?S (?L ! a))}" using a by auto
    next
      fix p assume "p \<in> (!) ?L ` {a \<in> ?A. ?L ! c \<in> snext (?S (?L ! a))}"
      then obtain a where a: "a \<in> ?A" "?L ! c \<in> snext (?S (?L ! a))" "p = ?L ! a" by auto
      then have "p \<in> sprev (?S (?L ! c))" using edges_okD(10) [OF e live [OF a(1)]] by simp
      moreover have "order_of g p \<ge> int i" using nu a j by (auto simp: numbered_def)
      ultimately show "p \<in> {p \<in> sprev (?S (?L ! c)). order_of g p \<ge> int i}" by simp
    qed
    then show ?thesis using card_image [OF inj_on_subset [OF injA]] by (metis (no_types, lifting) mem_Collect_eq subsetI)
  qed
  have "leaving g i j + (\<Sum>k \<in> ?A. card {c \<in> ?A. ?L ! c \<in> snext (?S (?L ! k))}) = (\<Sum>k \<in> ?A. card (snext (?S (?L ! k))))"
    unfolding leaving_def sum.distrib [symmetric]
  proof (rule sum.cong [OF refl])
    fix k assume k: "k \<in> ?A"
    have "card (snext (?S (?L ! k)) - (!) ?L ` ?A) + card (snext (?S (?L ! k)) \<inter> (!) ?L ` ?A) = card (snext (?S (?L ! k)))"
      using card_Int_Diff [OF fin [OF k], of "(!) ?L ` ?A"] by simp
    then show "card (snext (?S (?L ! k)) - (!) ?L ` ?A) + card {c \<in> ?A. ?L ! c \<in> snext (?S (?L ! k))} = card (snext (?S (?L ! k)))"
      by (simp only: into)
  qed
  moreover have "(\<Sum>k \<in> ?A. card {c \<in> ?A. ?L ! c \<in> snext (?S (?L ! k))})
      = (\<Sum>k \<in> ?A. card {p \<in> sprev (?S (?L ! k)). order_of g p \<ge> int i})"
    using cuts by (subst pairs_swap) simp_all
  moreover have "seg_cost g i j = (\<Sum>k \<in> ?A. step_cost g i (k + 1))"
    unfolding seg_cost_def using sum.shift_bounds_nat_ivl [of "step_cost g i" i 1 j] by simp
  ultimately show ?thesis
    by (simp add: step_cost_def Let_def sum_subtractf flip: of_nat_sum)
qed

section \<open>Merging the segments\<close>

lemma cutting_cover:
  "cutting maxSize g c0 ds e \<Longrightarrow> c0 \<le> c \<Longrightarrow> c < e \<Longrightarrow> \<exists>k j. segment maxSize g k j \<and> k \<le> c \<and> c < j \<and> j \<in> set ds"
proof (induction ds arbitrary: c0)
  case (Cons d ds)
  show ?case
  proof (cases "c < d")
    case True
    then show ?thesis using Cons.prems by (intro exI [of _ c0] exI [of _ d]) simp
  next
    case False
    then show ?thesis using Cons.IH [of d] Cons.prems by auto
  qed
qed simp

lemma seg_size_mono: "k \<le> c \<Longrightarrow> e \<le> j \<Longrightarrow> seg_size g c e \<le> seg_size g k j"
  unfolding seg_size_def by (rule sum_mono2) auto

text \<open>The super nodes before position \<open>i\<close> have been treated; \<open>k\<close> is the companion graph.\<close>

definition groups_ok :: "nat \<Rightarrow> graph \<Rightarrow> nat \<Rightarrow> graph \<Rightarrow> graph \<Rightarrow> bool" where
  "groups_ok maxSize g0 i g k \<longleftrightarrow>
     same_groups k g \<and> keeps_schedule g0 k \<and> sortedSuper k = sortedSuper g0
     \<and> (\<forall>x. order_of k x = order_of g0 x \<and> superType (supers k x) = superType (supers g0 x))
     \<and> (\<forall>j. i \<le> j \<longrightarrow> j < length (sortedSuper g0) \<longrightarrow> sortedSuper g0 ! j \<in> live k
          \<and> smember (supers k (sortedSuper g0 ! j)) = smember (supers g0 (sortedSuper g0 ! j)))"

definition size_bounded :: "nat \<Rightarrow> graph \<Rightarrow> graph \<Rightarrow> superid \<Rightarrow> bool" where
  "size_bounded maxSize g0 k x \<longleftrightarrow>
     smember (supers k x) = smember (supers g0 x) \<or> length (smember (supers k x)) \<le> maxSize"

definition in_segment :: "nat \<Rightarrow> graph \<Rightarrow> nat \<Rightarrow> nat \<Rightarrow> graph \<Rightarrow> graph \<Rightarrow> bool" where
  "in_segment maxSize g0 c i g k \<longleftrightarrow>
     groups_ok maxSize g0 i g k \<and> c < i \<and> i \<le> length (sortedSuper g0) \<and> sortedSuper g0 ! c \<in> live k
     \<and> (\<forall>j. c < j \<longrightarrow> j < i \<longrightarrow> sortedSuper g0 ! j \<notin> live k)
     \<and> length (smember (supers k (sortedSuper g0 ! c))) = seg_size g0 c i
     \<and> (i = c + 1 \<longrightarrow> smember (supers k (sortedSuper g0 ! c)) = smember (supers g0 (sortedSuper g0 ! c)))
     \<and> (\<forall>x \<in> live k. x \<noteq> sortedSuper g0 ! c \<longrightarrow> size_bounded maxSize g0 k x)"

lemma ghost_merge_fields [simp]:
  "sortedSuper (ghost_merge s t k) = sortedSuper k" "sorder (supers (ghost_merge s t k) x) = sorder (supers k x)"
  "superType (supers (ghost_merge s t k) x) = superType (supers k x)"
  "smember (supers (ghost_merge s t k) x) =
     (if x = s then [] else if x = t then smember (supers k t) @ smember (supers k s) else smember (supers k x))"
  by (simp_all add: ghost_merge_def)

lemma absorb_groups: "same_groups k g \<Longrightarrow> s \<noteq> t \<Longrightarrow> same_groups (ghost_merge s t k) (absorb s t g)"
  by (auto simp: same_groups_def ghost_merge_def absorb_def retarget_def)

lemma in_segment_step:
  assumes g0: "scheduled g0" and nu: "numbered g0" and q: "in_segment maxSize g0 c i g k" and i: "i < length (sortedSuper g0)"
    and v: "superType (supers g0 (sortedSuper g0 ! i)) = SUPER_VALID"
  shows "in_segment maxSize g0 c (i + 1) (absorb (sortedSuper g0 ! i) (sortedSuper g0 ! c) g)
    (ghost_merge (sortedSuper g0 ! i) (sortedSuper g0 ! c) k)"
proof -
  let ?L = "sortedSuper g0"
  let ?s = "?L ! i" and ?t = "?L ! c"
  have G: "same_groups k g" "keeps_schedule g0 k" "sortedSuper k = ?L" "\<And>x. order_of k x = order_of g0 x"
    "\<And>x. superType (supers k x) = superType (supers g0 x)"
    "\<And>j. i \<le> j \<Longrightarrow> j < length ?L \<Longrightarrow> ?L ! j \<in> live k \<and> smember (supers k (?L ! j)) = smember (supers g0 (?L ! j))"
    using q by (auto simp: in_segment_def groups_ok_def)
  have ci: "c < i" "?t \<in> live k" and gap: "\<And>j. c < j \<Longrightarrow> j < i \<Longrightarrow> ?L ! j \<notin> live k"
    using q by (auto simp: in_segment_def)
  have at: "?L ! a = ?L ! b \<longleftrightarrow> a = b" if "a < length ?L" "b < length ?L" for a b
    using that scheduled_distinct [OF g0] by (simp add: nth_eq_iff_index_eq)
  have ord: "order_of k (?L ! a) = int a" if "a < length ?L" for a using nu that G(4) by (simp add: numbered_def)
  have k: "scheduled k" using G(2) by (simp add: keeps_schedule_def)
  have sl: "?s \<in> live k" and sm: "smember (supers k ?s) = smember (supers g0 ?s)" using G(6) [of i] i by auto
  have before: "p = ?t \<or> order_of k p < order_of k ?t" if p: "p \<in> sdepPrev (supers k ?s)" for p
  proof -
    have pl: "p \<in> live k" and lt: "order_of k p < order_of k ?s"
      using edges_okD(1,5) [OF scheduled_edges [OF k] sl p] by auto
    then obtain a where a: "a < length ?L" "?L ! a = p" using G(3) live_sorted by (metis in_set_conv_nth subsetD)
    then have "a < i" using lt ord i by auto
    then have "a \<le> c" using gap [of a] a pl by force
    then show ?thesis using ord [of a] ord [of c] a ci i by (cases "a = c") auto
  qed
  have v': "superType (supers k ?s) = SUPER_VALID" using v G(5) by simp
  have lt: "order_of k ?t < order_of k ?s" using ord ci i by simp
  note gm = ghost_merge_keeps [OF k sl ci(2) v' lt before]
  have l: "live (ghost_merge ?s ?t k) = live k - {?s}" by (rule gm(2))
  have ne: "?s \<noteq> ?t" using at [of i c] ci i by simp
  have go: "groups_ok maxSize g0 (i + 1) (absorb ?s ?t g) (ghost_merge ?s ?t k)"
    unfolding groups_ok_def
  proof (intro conjI allI impI)
    show "same_groups (ghost_merge ?s ?t k) (absorb ?s ?t g)" by (rule absorb_groups [OF G(1) ne])
    show "keeps_schedule g0 (ghost_merge ?s ?t k)" by (rule keeps_schedule_trans [OF G(2) gm(1)])
    fix j assume j: "i + 1 \<le> j" "j < length ?L"
    then have "?L ! j \<noteq> ?s" "?L ! j \<noteq> ?t" using at i ci by auto
    then show "?L ! j \<in> live (ghost_merge ?s ?t k)"
      "smember (supers (ghost_merge ?s ?t k) (?L ! j)) = smember (supers g0 (?L ! j))"
      using G(6) [of j] j unfolding l by auto
  qed (simp_all add: G(3-5))
  have sz: "seg_size g0 c (i + 1) = seg_size g0 c i + length (smember (supers g0 ?s))"
    using ci i by (simp add: seg_size_def sizes_def)
  show ?thesis
    unfolding in_segment_def l
  proof (intro conjI allI impI ballI)
    show "length (smember (supers (ghost_merge ?s ?t k) ?t)) = seg_size g0 c (i + 1)"
      using q ne sz sm by (simp add: in_segment_def)
    show "?L ! j \<notin> live k - {?s}" if "c < j" "j < i + 1" for j using gap [of j] that by (cases "j = i") auto
    show "size_bounded maxSize g0 (ghost_merge ?s ?t k) x" if "x \<in> live k - {?s}" "x \<noteq> ?t" for x
      using that q by (auto simp: in_segment_def size_bounded_def)
  qed (use go ci i ne in auto)
qed

definition cut_inv :: "nat \<Rightarrow> graph \<Rightarrow> nat \<Rightarrow> graph \<Rightarrow> bool" where
  "cut_inv maxSize g0 c g \<longleftrightarrow>
     (\<exists>k. groups_ok maxSize g0 c g k \<and> (\<forall>x \<in> live k. size_bounded maxSize g0 k x))"

lemma segment_fold:
  assumes g0: "scheduled g0" and nu: "numbered g0" and inv: "cut_inv maxSize g0 c g" and c: "c < e" "e \<le> length (sortedSuper g0)"
    and v: "\<forall>i. c < i \<longrightarrow> i < e \<longrightarrow> superType (supers g0 (sortedSuper g0 ! i)) = SUPER_VALID"
  shows "\<exists>k. in_segment maxSize g0 c e (fold (\<lambda>i. absorb (sortedSuper g0 ! i) (sortedSuper g0 ! c)) [c + 1..<e] g) k"
  using c v
proof (induction e)
  case (Suc e)
  let ?f = "\<lambda>i. absorb (sortedSuper g0 ! i) (sortedSuper g0 ! c)"
  show ?case
  proof (cases "e = c")
    case True
    obtain k where k: "groups_ok maxSize g0 c g k" "\<forall>x \<in> live k. size_bounded maxSize g0 k x"
      using inv by (auto simp: cut_inv_def)
    have m: "sortedSuper g0 ! c \<in> live k" "smember (supers k (sortedSuper g0 ! c)) = smember (supers g0 (sortedSuper g0 ! c))"
      using k(1) Suc.prems True by (auto simp: groups_ok_def)
    moreover have "groups_ok maxSize g0 (c + 1) g k" using k(1) by (simp add: groups_ok_def)
    ultimately have "in_segment maxSize g0 c (c + 1) g k"
      using k(2) Suc.prems True by (simp add: in_segment_def seg_size_def sizes_def)
    then show ?thesis using True by auto
  next
    case False
    then have "c < e" using Suc.prems by simp
    then obtain k where k: "in_segment maxSize g0 c e (fold ?f [c + 1..<e] g) k" using Suc by auto
    show ?thesis
      using in_segment_step [OF g0 nu k] Suc.prems \<open>c < e\<close> by (intro exI) simp
  qed
qed simp

lemma cut_inv_next:
  assumes g0: "scheduled g0" and nu: "numbered g0" and inv: "cut_inv maxSize g0 c g" and c: "c < e" "e \<le> length (sortedSuper g0)"
    and v: "\<forall>i. c < i \<longrightarrow> i < e \<longrightarrow> superType (supers g0 (sortedSuper g0 ! i)) = SUPER_VALID"
    and sz: "e = c + 1 \<or> seg_size g0 c e \<le> maxSize"
  shows "cut_inv maxSize g0 e (fold (\<lambda>i. absorb (sortedSuper g0 ! i) (sortedSuper g0 ! c)) [c + 1..<e] g)"
proof -
  obtain k where k: "in_segment maxSize g0 c e (fold (\<lambda>i. absorb (sortedSuper g0 ! i) (sortedSuper g0 ! c)) [c + 1..<e] g) k"
    using segment_fold [OF assms(1-6)] by blast
  then have "size_bounded maxSize g0 k (sortedSuper g0 ! c)" using sz by (auto simp: in_segment_def size_bounded_def)
  then show ?thesis using k by (auto simp: cut_inv_def in_segment_def)
qed

text \<open>What the set of cuts guarantees between two neighbouring cuts.\<close>

definition cuts_ok :: "nat \<Rightarrow> graph \<Rightarrow> nat set \<Rightarrow> bool" where
  "cuts_ok maxSize g C \<longleftrightarrow>
     (\<forall>c e. c < e \<longrightarrow> e \<le> length (sortedSuper g) \<longrightarrow> (\<forall>x \<in> C. x \<le> c \<or> e \<le> x) \<longrightarrow> c = 0 \<or> c \<in> C \<longrightarrow>
        (e = c + 1 \<or> seg_size g c e \<le> maxSize)
        \<and> (\<forall>i. c < i \<longrightarrow> i < e \<longrightarrow> superType (supers g (sortedSuper g ! i)) = SUPER_VALID))"

lemma apply_cuts:
  assumes g0: "scheduled g0" and nu: "numbered g0" and ok: "cuts_ok maxSize g0 C" and C: "C \<subseteq> {..length (sortedSuper g0)}"
  shows "sorted_wrt (<) cs \<Longrightarrow> set cs \<subseteq> C \<Longrightarrow> (\<forall>x \<in> C. c < x \<longrightarrow> x \<in> set cs) \<Longrightarrow> (\<forall>x \<in> set cs. c \<le> x)
    \<Longrightarrow> (cs \<noteq> [] \<longrightarrow> c < length (sortedSuper g0)) \<Longrightarrow> c = 0 \<or> c \<in> C \<Longrightarrow> cut_inv maxSize g0 c g
    \<Longrightarrow> \<exists>g'. fold_abort (apply_cut (sortedSuper g0)) cs (c, g) = Some (last (c # cs), g') \<and> cut_inv maxSize g0 (last (c # cs)) g'"
proof (induction cs arbitrary: c g)
  case (Cons e cs)
  let ?g1 = "fold (\<lambda>i. absorb (sortedSuper g0 ! i) (sortedSuper g0 ! c)) [c + 1..<e] g"
  have c: "c < length (sortedSuper g0)" "c \<le> e" "e \<in> C" "e \<le> length (sortedSuper g0)" using Cons.prems C by auto
  have step: "apply_cut (sortedSuper g0) e (c, g) = Some (e, ?g1)" using c(1) by (simp add: apply_cut_def)
  have "cut_inv maxSize g0 e ?g1"
  proof (cases "e = c")
    case True
    then show ?thesis using Cons.prems(7) by simp
  next
    case False
    then have ce: "c < e" using c(2) by simp
    have "\<forall>x \<in> C. x \<le> c \<or> e \<le> x" using Cons.prems(1,3) by fastforce
    then show ?thesis
      using ok ce c(4) Cons.prems(6) cut_inv_next [OF g0 nu Cons.prems(7) ce c(4)] unfolding cuts_ok_def by blast
  qed
  moreover have "cs \<noteq> [] \<longrightarrow> e < length (sortedSuper g0)"
  proof
    assume "cs \<noteq> []"
    then have "hd cs \<in> set cs" by simp
    then have "e < hd cs" "hd cs \<in> C" using Cons.prems(1,2) by auto
    then show "e < length (sortedSuper g0)" using C by fastforce
  qed
  moreover have "\<forall>x \<in> C. e < x \<longrightarrow> x \<in> set cs" using Cons.prems(3) c(2) by auto
  moreover have "\<forall>x \<in> set cs. e \<le> x" using Cons.prems(1) by auto
  ultimately show ?case using Cons.IH [of e ?g1] Cons.prems(1,2) c(3) step by simp
qed simp

lemma cuts_chosen:
  assumes path: "cutting maxSize g 0 (rev cuts @ [n]) n" and n: "n = length (sortedSuper g)" "\<forall>c \<in> set cuts. c < n"
  shows "cuts_ok maxSize g (set cuts \<union> {n} \<union> special_cuts g)"
  unfolding cuts_ok_def
proof (intro allI impI conjI)
  let ?C = "set cuts \<union> {n} \<union> special_cuts g"
  fix c e assume ce: "c < e" "e \<le> length (sortedSuper g)" and gap: "\<forall>x \<in> ?C. x \<le> c \<or> e \<le> x"
  obtain k j where kj: "segment maxSize g k j" "k \<le> c" "c < j" "j \<in> set (rev cuts @ [n])"
    using cutting_cover [OF path, of c] ce n(1) by auto
  have "j \<in> ?C" using kj(4) by auto
  then have "j \<le> c \<or> e \<le> j" using gap by blast
  then have "e \<le> j" using kj(3) by simp
  then show "e = c + 1 \<or> seg_size g c e \<le> maxSize"
    using kj(1,2) seg_size_mono [OF kj(2), of e j g] ce(1) by (auto simp: segment_def)
  fix i assume i: "c < i" "i < e"
  then have "i \<notin> special_cuts g" using gap by (metis UnI2 leD)
  then show "superType (supers g (sortedSuper g ! i)) = SUPER_VALID"
    using i ce(2) by (auto simp: special_cuts_def Let_def)
qed

lemma graphInitPartition_keeps:
  assumes g: "scheduled g" "compact g" "numbered g" and ne: "node_edges_ok (nodes g) (set (all_members g))"
    and n: "sortedSuper g \<noteq> []" and few: "out_edges g 0 (length (sortedSuper g)) < INT_MAX"
  shows "\<exists>g'. graphInitPartition maxSize g = Some g' \<and> keeps_schedule g g' \<and> compact g'
    \<and> (\<forall>s \<in> set (sortedSuper g'). size_bounded maxSize g g' s)"
proof -
  let ?n = "length (sortedSuper g)"
  obtain T b where tb: "dp_table maxSize g = (T, b)" by fastforce
  have inv: "dp_inv maxSize g ?n (T, b)" using dp_table_inv [OF few, of maxSize] tb by simp
  obtain cuts where cuts: "cut_back b ?n = Some cuts" "cutting maxSize g 0 (rev cuts @ [?n]) ?n" "\<forall>c \<in> set cuts. 0 < c \<and> c < ?n"
    using cut_back_path [OF inv, of ?n] n by auto
  define C where "C = set cuts \<union> {?n} \<union> special_cuts g"
  define cs where "cs = sorted_list_of_set C"
  have C: "C \<subseteq> {..?n}" using cuts(3) by (auto simp: C_def special_cuts_def Let_def)
  then have "finite C" by (rule finite_subset) simp
  then have cs: "set cs = C" "sorted_wrt (<) cs" by (simp_all add: cs_def)
  have "groups_ok maxSize g 0 g g" using g keeps_schedule_refl [OF g(1)] by (simp add: groups_ok_def same_groups_def)
  then have i0: "cut_inv maxSize g 0 g" by (auto simp: cut_inv_def size_bounded_def)
  have ok: "cuts_ok maxSize g C" using cuts_chosen [OF cuts(2)] cuts(3) by (simp add: C_def)
  obtain g1 where g1: "fold_abort (apply_cut (sortedSuper g)) cs (0, g) = Some (last (0 # cs), g1)"
    "cut_inv maxSize g (last (0 # cs)) g1"
    using apply_cuts [OF g(1,3) ok C, of cs 0 g] cs i0 n by auto
  then obtain k where k: "groups_ok maxSize g (last (0 # cs)) g1 k" "\<forall>x \<in> live k. size_bounded maxSize g k x"
    by (auto simp: cut_inv_def)
  have K: "same_groups k g1" "keeps_schedule g k" using k(1) by (auto simp: groups_ok_def)
  have sk: "scheduled k" using K(2) by (simp add: keeps_schedule_def)
  obtain g' where g': "reconnectSuper (removeEmptySuper g1) = Some g'" "keeps_schedule k g'" "compact g'"
    using reconnect_keeps [OF sk K(1) keeps_edges_ok [OF K(2) ne]] by blast
  have "graphInitPartition maxSize g = Some g'"
    using g1(1) g'(1) cuts(1) unfolding cs_def C_def by (simp add: graphInitPartition_def Let_def tb)
  moreover have "set (sortedSuper g') = live k \<and> (\<forall>x. smember (supers g' x) = smember (supers k x))"
  proof -
    obtain S' where S': "g' = (removeEmptySuper g1)\<lparr>supers := S'\<rparr>"
      using g'(1) by (auto simp: reconnectSuper_def Let_def split: Option.bind_splits)
    have "smember (supers g' x) = smember (supers g1 x)" for x
      using g'(1) by (rule reconnectSuper_smember [THEN trans]) simp
    then show ?thesis using S' K(1) same_groups_live [OF K(1)] by (simp add: same_groups_def)
  qed
  ultimately show ?thesis
    using keeps_schedule_trans [OF K(2) g'(2)] g'(3) k(2) by (auto simp: size_bounded_def)
qed

section \<open>The cuts are optimal\<close>

fun cutting_leaving :: "graph \<Rightarrow> nat \<Rightarrow> nat list \<Rightarrow> nat" where
  "cutting_leaving g i [] = 0"
| "cutting_leaving g i (j # cs) = leaving g i j + cutting_leaving g j cs"

lemma cutting_cost_leaving:
  assumes "scheduled g" "compact g" "numbered g"
  shows "cutting maxSize g i cs n \<Longrightarrow> cutting_cost g i cs = int (cutting_leaving g i cs)"
proof (induction cs arbitrary: i)
  case (Cons j cs)
  then have "segment maxSize g i j" "cutting maxSize g j cs n" by auto
  then show ?case using seg_cost_leaving [OF assms, of i j] Cons.IH by (simp add: segment_def)
qed simp

text \<open>
  C10: the dynamic programming finds a best partition.  On a sorted and numbered graph with
  fewer than \<^verbatim>\<open>INT_MAX\<close> edges the walk back through the table ends; the cuts it finds divide
  the super nodes into segments that the size bound allows, and no such division has fewer
  edges that leave their segment.
\<close>

theorem graphInitPartition_optimal:
  assumes "scheduled g" "compact g" "numbered g" "sortedSuper g \<noteq> []"
    and few: "out_edges g 0 (length (sortedSuper g)) < INT_MAX"
  shows "\<exists>cuts. cut_back (snd (dp_table maxSize g)) (length (sortedSuper g)) = Some cuts
    \<and> cutting maxSize g 0 (rev cuts @ [length (sortedSuper g)]) (length (sortedSuper g))
    \<and> (\<forall>cs. cutting maxSize g 0 cs (length (sortedSuper g)) \<longrightarrow>
         cutting_leaving g 0 (rev cuts @ [length (sortedSuper g)]) \<le> cutting_leaving g 0 cs)"
proof -
  let ?n = "length (sortedSuper g)"
  obtain T b where tb: "dp_table maxSize g = (T, b)" by fastforce
  have inv: "dp_inv maxSize g ?n (T, b)" using dp_table_inv [OF few, of maxSize] tb by simp
  obtain cuts where cuts: "cut_back b ?n = Some cuts" "cutting maxSize g 0 (rev cuts @ [?n]) ?n" "cutting_cost g 0 (rev cuts @ [?n]) = T ! ?n"
    using cut_back_path [OF inv, of ?n] assms(4) by auto
  note cost = cutting_cost_leaving [OF assms(1-3)]
  have "cutting_leaving g 0 (rev cuts @ [?n]) \<le> cutting_leaving g 0 cs" if "cutting maxSize g 0 cs ?n" for cs
  proof -
    have "T ! ?n \<le> cutting_cost g 0 cs" using table_lower_bound [OF inv that] dp_invD(3) [OF inv] by simp
    then show ?thesis using cost [OF that] cost [OF cuts(2)] cuts(3) by simp
  qed
  then show ?thesis using cuts tb by auto
qed

lemma demo_numbered: "numbered demo_sched"
  by (auto simp: numbered_def demo_sched_def nth_Cons less_Suc_eq_0_disj numeral_eq_Suc)

lemma demo_few: "out_edges demo_sched 0 (length (sortedSuper demo_sched)) < INT_MAX"
  by (simp add: out_edges_def demo_sched_def INT_MAX_def new_super_def numeral_eq_Suc)

theorem graphInitPartition_optimal_witness:
  "\<exists>cuts. cut_back (snd (dp_table 2 demo_sched)) 4 = Some cuts \<and> cutting 2 demo_sched 0 (rev cuts @ [4]) 4
    \<and> cutting_leaving demo_sched 0 (rev cuts @ [4]) \<le> cutting_leaving demo_sched 0 [2, 4]"
proof -
  have n: "length (sortedSuper demo_sched) = 4" "sortedSuper demo_sched \<noteq> []" by (simp_all add: demo_sched_def)
  have "cutting 2 demo_sched 0 [2, 4] 4"
    by (simp add: segment_def seg_size_def sizes_def n demo_sched_def numeral_eq_Suc)
  then show ?thesis
    using graphInitPartition_optimal [OF demo_scheduled demo_compact demo_numbered n(2) demo_few, of 2] unfolding n by blast
qed

text \<open>
  C23: the partition itself.  Under the same conditions \<^verbatim>\<open>graphInitPartition\<close> ends; its result has
  the same nodes in a schedule, and every super node of it is one of the old ones with its
  members unchanged or has at most \<^verbatim>\<open>SuperNodeMaxSize\<close> members.
\<close>

theorem graphInitPartition_bounded:
  assumes "scheduled g" "compact g" "numbered g" "node_edges_ok (nodes g) (set (all_members g))" "sortedSuper g \<noteq> []"
    and "out_edges g 0 (length (sortedSuper g)) < INT_MAX"
  shows "\<exists>g'. graphInitPartition maxSize g = Some g' \<and> node_schedule g' \<and> mset (all_members g') = mset (all_members g)
    \<and> (\<forall>s \<in> set (sortedSuper g'). smember (supers g' s) = smember (supers g s) \<or> length (smember (supers g' s)) \<le> maxSize)"
  using graphInitPartition_keeps [OF assms, of maxSize] scheduled_nodes by (auto simp: keeps_schedule_def size_bounded_def)

theorem graphInitPartition_bounded_witness:
  "\<exists>g'. graphInitPartition 2 demo_sched = Some g' \<and> node_schedule g' \<and> mset (all_members g') = {#0, 1, 2, 3#}
    \<and> (\<forall>s \<in> set (sortedSuper g'). smember (supers g' s) = [s] \<or> length (smember (supers g' s)) \<le> 2)"
proof -
  have n: "sortedSuper demo_sched \<noteq> []" and m: "\<And>s. smember (supers demo_sched s) = [s]" by (simp_all add: demo_sched_def)
  from graphInitPartition_bounded [OF demo_scheduled demo_compact demo_numbered demo_edges_ok n demo_few, of 2]
  show ?thesis by (simp add: demo_members m)
qed

end
