(* ===== verification/WhenMerge.thy ===== *)
theory WhenMerge
  imports Resort LoopDetector "HOL-Library.Sublist"
begin

section \<open>Merging nodes with the same condition\<close>

text \<open>
  \<^verbatim>\<open>graph::mergeWhenNodes\<close> and \<^verbatim>\<open>graph::when2mux\<close> of \<^verbatim>\<open>src/mergeNodes.cpp\<close>.  A traversal of the super
  nodes holds back those that compute the condition of some \<^verbatim>\<open>when\<close>; when nothing else is
  ready, one of them is released, and the super nodes that become ready by this and begin
  with a \<^verbatim>\<open>when\<close> on it form a group.  The groups become super nodes of their own.  The rank
  that justifies the merging is the order in which the super nodes became ready.
  The replay of recorded groups and the dump for debugging are left out.
\<close>

subsection \<open>The conditions\<close>

definition member_cond :: "graph \<Rightarrow> nodeid \<Rightarrow> superid option abortable" where
  "member_cond g m =
     (let nd = nodes g m in
      if isArray nd \<or> length (assignTree nd) \<noteq> 1 then Some None
      else let r = root (assignTree nd ! 0) in
      if e_op r \<noteq> OP_WHEN then Some None
      else (case child r of
              Some c # _ \<Rightarrow> Some (case e_node c of None \<Rightarrow> None | Some whenNode \<Rightarrow> super (nodes g whenNode))
            | _ \<Rightarrow> None))"

definition super_cond :: "graph \<Rightarrow> superid \<Rightarrow> superid option abortable" where
  "super_cond g s =
     (if superType (supers g s) \<noteq> SUPER_VALID then Some None
      else do { assert_that (length (smember (supers g s)) \<le> 1);
                (case smember (supers g s) of [] \<Rightarrow> Some None | m # _ \<Rightarrow> member_cond g m) })"

text \<open>\<^verbatim>\<open>node2Cond\<close>, from which \<^verbatim>\<open>allCond\<close> is read backwards.\<close>

definition node2Cond :: "graph \<Rightarrow> (superid \<rightharpoonup> superid) abortable" where
  "node2Cond g =
     fold_abort (\<lambda>s m. do { c \<leftarrow> super_cond g s; Some (m(s := c)) }) (sortedSuper g) Map.empty"

definition allCond :: "(superid \<rightharpoonup> superid) \<Rightarrow> superid \<Rightarrow> superid set" where
  "allCond n2c c = {s. n2c s = Some c}"

subsection \<open>The traversal\<close>

record wstate =
  w_s :: "superid list"
  w_cond :: "superid list"
  w_wait :: "superid set"
  w_times :: marks
  w_map :: "(superid \<times> superid list) list"

definition addCond :: "(superid \<Rightarrow> supernode) \<Rightarrow> (superid \<rightharpoonup> superid) \<Rightarrow> superid \<Rightarrow> wstate \<Rightarrow> wstate" where
  "addCond S n2c n st =
     (let num = card {s2 \<in> allCond n2c n. count_of (w_times st) s2 + 1 = card (sdepPrev (S s2))}
      in if 2 \<le> num then st\<lparr>w_cond := w_cond st @ [n]\<rparr> else st\<lparr>w_wait := insert n (w_wait st)\<rparr>)"

definition cond2Queue :: "superid \<Rightarrow> wstate \<Rightarrow> wstate" where
  "cond2Queue c st =
     (if c \<in> w_wait st then st\<lparr>w_wait := w_wait st - {c}, w_cond := w_cond st @ [c]\<rparr> else st)"

text \<open>One successor of a super node taken from the queue.\<close>

definition visit_next :: "(superid \<Rightarrow> supernode) \<Rightarrow> (superid \<rightharpoonup> superid) \<Rightarrow> superid \<Rightarrow> wstate \<Rightarrow> wstate" where
  "visit_next S n2c n st =
     (let k = count_of (w_times st) n + 1;
          st1 = st\<lparr>w_times := (w_times st)(n \<mapsto> k)\<rparr>;
          st2 = (if k + 1 = card (sdepPrev (S n))
                 then (case n2c n of None \<Rightarrow> st1 | Some c \<Rightarrow> cond2Queue c st1) else st1)
      in if k = card (sdepPrev (S n))
         then (if allCond n2c n \<noteq> {} then addCond S n2c n st2 else st2\<lparr>w_s := w_s st2 @ [n]\<rparr>)
         else st2)"

text \<open>One successor of a released condition.\<close>

definition merge_next ::
    "(superid \<Rightarrow> supernode) \<Rightarrow> (superid \<rightharpoonup> superid) \<Rightarrow> superid \<Rightarrow> superid \<Rightarrow> wstate \<times> superid list \<Rightarrow> wstate \<times> superid list" where
  "merge_next S n2c mergeCond n stm =
     (case stm of (st, mergeSuper) \<Rightarrow>
        let k = count_of (w_times st) n + 1; st1 = st\<lparr>w_times := (w_times st)(n \<mapsto> k)\<rparr>
        in if k = card (sdepPrev (S n))
           then (st1\<lparr>w_s := w_s st1 @ [n]\<rparr>, if n \<in> allCond n2c mergeCond then mergeSuper @ [n] else mergeSuper)
           else (st1, mergeSuper))"

definition release ::
    "(superid \<Rightarrow> supernode) \<Rightarrow> (superid \<rightharpoonup> superid) \<Rightarrow> (superid set \<Rightarrow> superid list) \<Rightarrow> nat \<Rightarrow> wstate \<Rightarrow> wstate" where
  "release S n2c ord mergeWhenSize st =
     (let st1 = (if w_cond st = [] then cond2Queue (hd (ord (w_wait st))) st else st);
          mergeCond = hd (w_cond st1);
          (st2, mergeSuper) = fold (merge_next S n2c mergeCond) (ord (sdepNext (S mergeCond)))
                                (st1\<lparr>w_cond := tl (w_cond st1)\<rparr>, [])
      in if length mergeSuper > mergeWhenSize
         then st2\<lparr>w_map := w_map st2 @ [(mergeCond, mergeSuper)]\<rparr> else st2)"

partial_function (option) release_loop ::
    "(superid \<Rightarrow> supernode) \<Rightarrow> (superid \<rightharpoonup> superid) \<Rightarrow> (superid set \<Rightarrow> superid list) \<Rightarrow> nat \<Rightarrow> wstate \<Rightarrow> wstate option" where
  "release_loop S n2c ord mergeWhenSize st =
     (if w_s st = [] \<and> (w_cond st \<noteq> [] \<or> w_wait st \<noteq> {})
      then release_loop S n2c ord mergeWhenSize (release S n2c ord mergeWhenSize st) else Some st)"

partial_function (option) when_loop ::
    "(superid \<Rightarrow> supernode) \<Rightarrow> (superid \<rightharpoonup> superid) \<Rightarrow> (superid set \<Rightarrow> superid list) \<Rightarrow> nat \<Rightarrow> wstate \<Rightarrow> wstate option" where
  "when_loop S n2c ord mergeWhenSize st =
     (case w_s st of
        [] \<Rightarrow> Some st
      | t # rest \<Rightarrow>
          release_loop S n2c ord mergeWhenSize
              (fold (visit_next S n2c) (ord (sdepNext (S t))) (st\<lparr>w_s := rest\<rparr>))
          \<bind> when_loop S n2c ord mergeWhenSize)"

definition when_start :: "graph \<Rightarrow> (superid \<rightharpoonup> superid) \<Rightarrow> (superid list \<Rightarrow> superid list) \<Rightarrow> wstate" where
  "when_start g n2c order_roots =
     (let roots = filter (\<lambda>s. sdepPrev (supers g s) = {}) (sortedSuper g);
          st = fold (addCond (supers g) n2c) (filter (\<lambda>s. allCond n2c s \<noteq> {}) roots)
                 \<lparr>w_s = [], w_cond = [], w_wait = {}, w_times = Map.empty, w_map = []\<rparr>
      in st\<lparr>w_s := order_roots (filter (\<lambda>s. allCond n2c s = {}) roots)\<rparr>)"

subsection \<open>Applying the groups\<close>

definition when_absorb :: "superid \<Rightarrow> superid \<Rightarrow> graph \<Rightarrow> graph abortable" where
  "when_absorb s t g =
     do { g' \<leftarrow> fold_abort (add_member t) (smember (supers g s)) g;
          Some (g'\<lparr>supers := (supers g')(s := (supers g' s)\<lparr>smember := []\<rparr>)\<rparr>) }"

definition apply_group :: "superid list \<Rightarrow> graph \<Rightarrow> graph abortable" where
  "apply_group allSuper g =
     (case allSuper of [] \<Rightarrow> None | t # ss \<Rightarrow> fold_abort (\<lambda>s. when_absorb s t) ss g)"

definition apply_when_map :: "(superid set \<Rightarrow> superid list) \<Rightarrow> (superid \<times> superid list) list \<Rightarrow> graph \<Rightarrow> graph abortable" where
  "apply_when_map ord whenMap =
     fold_abort (\<lambda>c. apply_group (the (map_of whenMap c))) (ord (fst ` set whenMap))"

subsection \<open>From \<^verbatim>\<open>when\<close> to \<^verbatim>\<open>mux\<close>\<close>

text \<open>
  The \<^verbatim>\<open>when\<close> nodes reached from a root through \<^verbatim>\<open>when\<close> nodes: their conditions, and that they have
  their three operands.  The code reads the condition of each of them and the two branches
  of those it may change; the model asks for all three of every one, and fails otherwise.
\<close>

fun when_conds :: "enode \<Rightarrow> nodeid option list" where
  "when_conds (ENode a cs) =
     (if opType a \<noteq> OP_WHEN then []
      else (case cs of Some c # _ \<Rightarrow> [e_node c] | _ \<Rightarrow> [])
           @ concat (map (\<lambda>c. case c of None \<Rightarrow> [] | Some e \<Rightarrow> when_conds e) cs))"

fun whens_complete :: "enode \<Rightarrow> bool" where
  "whens_complete (ENode a cs) \<longleftrightarrow>
     (opType a = OP_WHEN \<longrightarrow>
        (case cs of [Some _, _, _] \<Rightarrow> True | _ \<Rightarrow> False)
        \<and> (\<forall>c \<in> set cs. case c of None \<Rightarrow> True | Some e \<Rightarrow> whens_complete e))"

definition plain_branch :: "enode option \<Rightarrow> bool" where
  "plain_branch c \<longleftrightarrow> (case c of None \<Rightarrow> False | Some e \<Rightarrow> e_op e \<noteq> OP_WHEN \<and> e_op e \<noteq> OP_INVALID)"

fun mux_when :: "nodeid option list \<Rightarrow> nat \<Rightarrow> enode \<Rightarrow> enode" where
  "mux_when conds bound (ENode a cs) =
     (if opType a \<noteq> OP_WHEN then ENode a cs
      else let cs' = map (map_option (mux_when conds bound)) cs
           in (case cs' of
                 [Some c, t, f] \<Rightarrow>
                   if count_list conds (e_node c) \<le> bound \<and> plain_branch t \<and> plain_branch f
                   then ENode (a\<lparr>opType := OP_MUX\<rparr>) cs' else ENode a cs'
               | _ \<Rightarrow> ENode a cs'))"

definition mux_super :: "nat \<Rightarrow> superid \<Rightarrow> graph \<Rightarrow> graph abortable" where
  "mux_super bound s g =
     (if superType (supers g s) \<noteq> SUPER_VALID then Some g
      else let ms = smember (supers g s);
               roots = concat (map (\<lambda>n. map root (assignTree (nodes g n))) ms);
               conds = concat (map when_conds roots)
           in do { assert_that (\<forall>e \<in> set roots. whens_complete e);
                   Some (g\<lparr>nodes := (\<lambda>n. if n \<in> set ms
                       then (nodes g n)\<lparr>assignTree := map (\<lambda>t. t\<lparr>root := mux_when conds bound (root t)\<rparr>) (assignTree (nodes g n))\<rparr>
                       else nodes g n)\<rparr>) })"

definition when2mux :: "nat \<Rightarrow> graph \<Rightarrow> graph abortable" where
  "when2mux bound g = fold_abort (mux_super bound) (sortedSuper g) g"

subsection \<open>The pass\<close>

definition mergeWhenNodes :: "bool \<Rightarrow> nat \<Rightarrow> nat \<Rightarrow> graph \<Rightarrow> graph abortable" where
  "mergeWhenNodes stableOrder mergeWhenSize when2muxBound g =
     (let ord = (if stableOrder then stableOrdered (nodes g) (supers g) else sorted_list_of_set);
          order_roots = (if stableOrder then \<lambda>rs. stableOrdered (nodes g) (supers g) (set rs) else (\<lambda>rs. rs))
      in do { n2c \<leftarrow> node2Cond g;
              st \<leftarrow> when_loop (supers g) n2c ord mergeWhenSize (when_start g n2c order_roots);
              g1 \<leftarrow> apply_when_map ord (w_map st) g;
              g2 \<leftarrow> reconnectSuper (removeEmptySuper g1);
              r \<leftarrow> detectSortedSuperLoop g2 sorted_list_of_set;
              assert_that (r = NoLoop);
              when2mux when2muxBound g2 })"

section \<open>The traversal keeps what is ready\<close>

definition frontier :: "wstate \<Rightarrow> superid set" where
  "frontier st = set (w_s st) \<union> set (w_cond st) \<union> w_wait st"

definition tidy :: "wstate \<Rightarrow> bool" where
  "tidy st \<longleftrightarrow> distinct (w_s st @ w_cond st) \<and> w_wait st \<inter> (set (w_s st) \<union> set (w_cond st)) = {}"

text \<open>Counting the successors \<open>ns\<close> once.\<close>

definition counted :: "marks \<Rightarrow> superid list \<Rightarrow> marks" where
  "counted m ns = (\<lambda>n. if n \<in> set ns then Some (count_of m n + 1) else m n)"

definition ready_of :: "(superid \<Rightarrow> supernode) \<Rightarrow> marks \<Rightarrow> superid list \<Rightarrow> superid list" where
  "ready_of S m ns = filter (\<lambda>n. count_of m n + 1 = card (sdepPrev (S n))) ns"

lemma kahn_ready:
  assumes wf: "wf_supers S U" and inv: "kahn_inv S U src (insert t F, out)" and t: "t \<notin> F" and fin: "finite F"
    and ok: "marks_ok S U m out" and ns: "distinct ns" "set ns = sdepNext (S t)"
  shows "kahn_inv S U src (F \<union> set (ready_of S m ns), out @ [t])" "marks_ok S U (counted m ns) (out @ [t])"
    "set (ready_of S m ns) \<inter> (insert t F \<union> set out) = {}"
    "\<And>n. n \<in> set (ready_of S m ns) \<Longrightarrow> sdepPrev (S n) \<subseteq> set (out @ [t])"
proof -
  obtain rest where rest: "set rest = F" "distinct rest" using finite_distinct_list [OF fin] by blast
  obtain m' s' where f: "fold (touch S (#)) ns (m, rest) = (m', s')" by fastforce
  have inv': "kahn_inv S U src (set (t # rest), out)" using inv rest by simp
  have dt: "distinct (t # rest)" using rest t by simp
  have st: "distinct s' \<and> kahn S (set (t # rest), out) (set s', out @ [t]) \<and> marks_ok S U m' (out @ [t])"
    by (rule step_simulates [OF wf inv' dt ok _ ns _ f]) (auto simp: good_push_def)
  have inv2: "kahn_inv S U src (set s', out @ [t])" using kahn_step_inv [OF wf inv'] st by blast
  have tU: "t \<in> U" and dj0: "insert t F \<inter> set out = {}" and df: "deps_first S out"
    and ready: "\<forall>n \<in> insert t F. sdepPrev (S n) \<subseteq> set out"
    using inv by (auto simp: kahn_inv_def)
  have nexts: "n \<notin> insert t F \<union> set out" if n: "n \<in> sdepNext (S t)" for n
  proof -
    have tn: "t \<in> sdepPrev (S n)" using wf_supersD(4) [OF wf tU n] .
    have "n \<notin> set out"
    proof
      assume "n \<in> set out"
      then obtain i where "i < length out" "out ! i = n" by (auto simp: in_set_conv_nth)
      with df tn have "t \<in> set (take i out)" by (auto simp: deps_first_def)
      then show False using dj0 in_set_takeD by fastforce
    qed
    moreover have "n \<notin> insert t F" using ready tn dj0 by auto
    ultimately show ?thesis by simp
  qed
  have dj: "set ns \<inter> set rest = {}" using ns(2) nexts rest by auto
  have tf: "distinct s' \<and> set s' = set rest \<union> {n \<in> set ns. count_of m n + 1 = card (sdepPrev (S n))}
    \<and> m' = (\<lambda>n. if n \<in> set ns then Some (count_of m n + 1) else m n)"
    by (rule touch_fold [where push = "(#)" and ns = ns and s = rest, OF ns(1) _ _ rest(2) dj f]) auto
  have s': "set s' = F \<union> set (ready_of S m ns)" using tf rest by (auto simp: ready_of_def)
  show "kahn_inv S U src (F \<union> set (ready_of S m ns), out @ [t])" using inv2 s' by simp
  have "m' = counted m ns" using tf unfolding counted_def by blast
  then show "marks_ok S U (counted m ns) (out @ [t])" using st by simp
  show "set (ready_of S m ns) \<inter> (insert t F \<union> set out) = {}" using nexts ns(2) by (auto simp: ready_of_def)
  show "\<And>n. n \<in> set (ready_of S m ns) \<Longrightarrow> sdepPrev (S n) \<subseteq> set (out @ [t])"
    using inv2 s' by (auto simp: kahn_inv_def)
qed

lemma cond2Queue_effect [simp]:
  "w_times (cond2Queue c st) = w_times st" "w_map (cond2Queue c st) = w_map st" "w_s (cond2Queue c st) = w_s st"
  "frontier (cond2Queue c st) = frontier st" "tidy st \<Longrightarrow> tidy (cond2Queue c st)"
  by (auto simp: cond2Queue_def frontier_def tidy_def)

lemma addCond_effect:
  assumes "tidy st" "n \<notin> frontier st"
  shows "w_times (addCond S n2c n st) = w_times st" "w_map (addCond S n2c n st) = w_map st"
    "frontier (addCond S n2c n st) = insert n (frontier st)" "tidy (addCond S n2c n st)" "w_s (addCond S n2c n st) = w_s st"
  using assms by (auto simp: addCond_def Let_def frontier_def tidy_def)

lemma counted_Cons: "n \<notin> set ns \<Longrightarrow> counted m (n # ns) = counted (m(n \<mapsto> count_of m n + 1)) ns"
  by (auto simp: counted_def count_of_def fun_eq_iff)

lemma ready_of_Cons:
  "n \<notin> set ns \<Longrightarrow> ready_of S m (n # ns) =
     (if count_of m n + 1 = card (sdepPrev (S n)) then [n] else []) @ ready_of S (m(n \<mapsto> count_of m n + 1)) ns"
  by (auto simp: ready_of_def count_of_def intro!: filter_cong)

lemma visit_next_effect:
  assumes "tidy st" "n \<notin> frontier st"
  shows "w_times (visit_next S n2c n st) = (w_times st)(n \<mapsto> count_of (w_times st) n + 1)"
    "w_map (visit_next S n2c n st) = w_map st" "tidy (visit_next S n2c n st)"
    "frontier (visit_next S n2c n st) =
       frontier st \<union> (if count_of (w_times st) n + 1 = card (sdepPrev (S n)) then {n} else {})"
proof -
  let ?k = "count_of (w_times st) n + 1"
  define st1 where "st1 = st\<lparr>w_times := (w_times st)(n \<mapsto> ?k)\<rparr>"
  define st2 where "st2 = (if ?k + 1 = card (sdepPrev (S n)) then (case n2c n of None \<Rightarrow> st1 | Some c \<Rightarrow> cond2Queue c st1) else st1)"
  have st1: "tidy st1" "frontier st1 = frontier st" "w_map st1 = w_map st"
    using assms(1) by (simp_all add: st1_def tidy_def frontier_def)
  have st2: "tidy st2" "frontier st2 = frontier st" "w_map st2 = w_map st" "w_times st2 = (w_times st)(n \<mapsto> ?k)"
    unfolding st2_def using st1 by (simp_all add: st1_def split: option.split)
  have v: "visit_next S n2c n st = (if ?k = card (sdepPrev (S n))
      then (if allCond n2c n \<noteq> {} then addCond S n2c n st2 else st2\<lparr>w_s := w_s st2 @ [n]\<rparr>) else st2)"
    unfolding visit_next_def st2_def st1_def Let_def ..
  have nf: "n \<notin> frontier st2" using assms(2) st2(2) by simp
  note a = addCond_effect [OF st2(1) nf, of S n2c]
  have p: "tidy (st2\<lparr>w_s := w_s st2 @ [n]\<rparr>)" "frontier (st2\<lparr>w_s := w_s st2 @ [n]\<rparr>) = insert n (frontier st2)"
    using st2(1) nf by (auto simp: tidy_def frontier_def)
  show "w_times (visit_next S n2c n st) = (w_times st)(n \<mapsto> ?k)" "w_map (visit_next S n2c n st) = w_map st"
    "tidy (visit_next S n2c n st)"
    "frontier (visit_next S n2c n st) = frontier st \<union> (if ?k = card (sdepPrev (S n)) then {n} else {})"
    unfolding v using st2 a p by simp_all
qed

lemma fold_visit_next:
  assumes "distinct ns" "set ns \<inter> frontier st = {}" "tidy st"
  shows "w_times (fold (visit_next S n2c) ns st) = counted (w_times st) ns"
    "w_map (fold (visit_next S n2c) ns st) = w_map st" "tidy (fold (visit_next S n2c) ns st)"
    "frontier (fold (visit_next S n2c) ns st) = frontier st \<union> set (ready_of S (w_times st) ns)"
proof -
  have "w_times (fold (visit_next S n2c) ns st) = counted (w_times st) ns
    \<and> w_map (fold (visit_next S n2c) ns st) = w_map st \<and> tidy (fold (visit_next S n2c) ns st)
    \<and> frontier (fold (visit_next S n2c) ns st) = frontier st \<union> set (ready_of S (w_times st) ns)"
    using assms
  proof (induction ns arbitrary: st)
    case Nil
    then show ?case by (simp add: counted_def ready_of_def)
  next
    case (Cons n ns)
    let ?st = "visit_next S n2c n st"
    have n: "n \<notin> frontier st" "n \<notin> set ns" using Cons.prems by auto
    note v = visit_next_effect [OF Cons.prems(3) n(1), of S n2c]
    have "set ns \<inter> frontier ?st = {}" using Cons.prems(1,2) n(2) unfolding v(4) by auto
    from Cons.IH [OF _ this v(3)] have IH: "w_times (fold (visit_next S n2c) ns ?st) = counted (w_times ?st) ns"
      "w_map (fold (visit_next S n2c) ns ?st) = w_map ?st" "tidy (fold (visit_next S n2c) ns ?st)"
      "frontier (fold (visit_next S n2c) ns ?st) = frontier ?st \<union> set (ready_of S (w_times ?st) ns)"
      using Cons.prems(1) by auto
    show ?case
      unfolding counted_Cons [OF n(2)] ready_of_Cons [OF n(2)] fold_simps using IH unfolding v by auto
  qed
  then show "w_times (fold (visit_next S n2c) ns st) = counted (w_times st) ns"
    "w_map (fold (visit_next S n2c) ns st) = w_map st" "tidy (fold (visit_next S n2c) ns st)"
    "frontier (fold (visit_next S n2c) ns st) = frontier st \<union> set (ready_of S (w_times st) ns)" by blast+
qed

lemma fold_merge_next:
  "distinct ns \<Longrightarrow> fold (merge_next S n2c c) ns (st, ms) =
     (st\<lparr>w_times := counted (w_times st) ns, w_s := w_s st @ ready_of S (w_times st) ns\<rparr>,
      ms @ filter (\<lambda>n. n \<in> allCond n2c c) (ready_of S (w_times st) ns))"
proof (induction ns arbitrary: st ms)
  case Nil
  then show ?case by (simp add: counted_def ready_of_def)
next
  case (Cons n ns)
  then have n: "n \<notin> set ns" "distinct ns" by simp_all
  let ?m = "(w_times st)(n \<mapsto> count_of (w_times st) n + 1)"
  show ?case
  proof (cases "count_of (w_times st) n + 1 = card (sdepPrev (S n))")
    case True
    then have "merge_next S n2c c n (st, ms) = (st\<lparr>w_times := ?m, w_s := w_s st @ [n]\<rparr>, if n \<in> allCond n2c c then ms @ [n] else ms)"
      by (simp add: merge_next_def Let_def)
    then show ?thesis
      unfolding counted_Cons [OF n(1)] ready_of_Cons [OF n(1)] fold_simps using Cons.IH [OF n(2)] by (simp add: fun_upd_def True [symmetric])
  next
    case False
    then have "merge_next S n2c c n (st, ms) = (st\<lparr>w_times := ?m\<rparr>, ms)" by (simp add: merge_next_def Let_def)
    then show ?thesis
      unfolding counted_Cons [OF n(1)] ready_of_Cons [OF n(1)] fold_simps using Cons.IH [OF n(2)] False by (simp add: fun_upd_def)
  qed
qed

text \<open>
  \<open>out\<close> lists the super nodes that have been taken, \<open>R\<close> all that have become ready, in this order.
\<close>

definition earlier :: "superid list \<Rightarrow> superid \<Rightarrow> superid \<Rightarrow> bool" where
  "earlier R p n \<longleftrightarrow> (\<exists>R1 R2. R = R1 @ R2 \<and> p \<in> set R1 \<and> n \<in> set R2)"

definition groups_inv :: "(superid \<Rightarrow> supernode) \<Rightarrow> (superid \<rightharpoonup> superid) \<Rightarrow> superid list \<Rightarrow> (superid \<times> superid list) list \<Rightarrow> bool" where
  "groups_inv S n2c R mp \<longleftrightarrow>
     subseq (concat (map snd mp)) R
     \<and> (\<forall>(c, ms) \<in> set mp. ms \<noteq> [] \<and> set ms \<subseteq> allCond n2c c
          \<and> (\<forall>n \<in> set ms. \<forall>p \<in> sdepPrev (S n). earlier R p (hd ms)))"

definition when_inv ::
    "(superid \<Rightarrow> supernode) \<Rightarrow> (superid \<rightharpoonup> superid) \<Rightarrow> superid set \<Rightarrow> superid set \<Rightarrow> superid list \<Rightarrow> superid list \<Rightarrow> wstate \<Rightarrow> bool" where
  "when_inv S n2c U src out R st \<longleftrightarrow>
     tidy st \<and> kahn_inv S U src (frontier st, out) \<and> marks_ok S U (w_times st) out
     \<and> distinct R \<and> set R = frontier st \<union> set out \<and> deps_first S R
     \<and> groups_inv S n2c R (w_map st) \<and> distinct (map fst (w_map st)) \<and> fst ` set (w_map st) \<subseteq> set out"

lemma earlier_append: "earlier R p n \<Longrightarrow> earlier (R @ R') p n"
  unfolding earlier_def by (metis Un_iff append.assoc set_append)

lemma groups_inv_append:
  assumes "groups_inv S n2c R mp"
  shows "groups_inv S n2c (R @ R') mp"
  using assms earlier_append unfolding groups_inv_def by (fastforce intro: subseq_rev_drop_many)

lemma groups_inv_snoc:
  assumes g: "groups_inv S n2c R mp" and ms: "subseq ms N" "ms \<noteq> []" "set ms \<subseteq> allCond n2c c"
    and d: "\<And>n p. n \<in> set N \<Longrightarrow> p \<in> sdepPrev (S n) \<Longrightarrow> p \<in> set R"
  shows "groups_inv S n2c (R @ N) (mp @ [(c, ms)])"
proof -
  have sub: "set ms \<subseteq> set N" using list_emb_set [OF ms(1)] by auto
  have "earlier (R @ N) p (hd ms)" if "n \<in> set ms" "p \<in> sdepPrev (S n)" for n p
  proof -
    have "hd ms \<in> set N" "p \<in> set R" using sub ms(2) d that by auto
    then show ?thesis unfolding earlier_def by blast
  qed
  moreover have "subseq (concat (map snd (mp @ [(c, ms)]))) (R @ N)"
    using g ms(1) by (simp add: groups_inv_def list_emb_append_mono)
  ultimately show ?thesis using groups_inv_append [OF g, of N] ms(2,3) unfolding groups_inv_def by auto
qed

lemma when_invD:
  assumes "when_inv S n2c U src out R st"
  shows "tidy st" "kahn_inv S U src (frontier st, out)" "marks_ok S U (w_times st) out" "distinct R"
    "set R = frontier st \<union> set out" "deps_first S R" "groups_inv S n2c R (w_map st)"
    "distinct (map fst (w_map st))" "fst ` set (w_map st) \<subseteq> set out" "frontier st \<subseteq> U" "frontier st \<inter> set out = {}"
  using assms by (auto simp: when_inv_def kahn_inv_def)

lemma deps_first_append:
  assumes "deps_first S R" "\<And>n. n \<in> set N \<Longrightarrow> sdepPrev (S n) \<subseteq> set R"
  shows "deps_first S (R @ N)"
  unfolding deps_first_def
proof (intro allI impI)
  fix i assume i: "i < length (R @ N)"
  show "sdepPrev (S ((R @ N) ! i)) \<subseteq> set (take i (R @ N))"
  proof (cases "i < length R")
    case True
    then show ?thesis using assms(1) by (auto simp: deps_first_def nth_append)
  next
    case False
    then have "sdepPrev (S ((R @ N) ! i)) \<subseteq> set R" using assms(2) i by (simp add: nth_append)
    then show ?thesis using False by auto
  qed
qed

text \<open>Taking \<open>t\<close> from the frontier: what every step of the traversal does.\<close>

lemma take_one:
  assumes wf: "wf_supers S U" and inv: "when_inv S n2c U src out R st" and fr: "frontier st = insert t F" "t \<notin> F"
    and ns: "distinct ns" "set ns = sdepNext (S t)"
    and st': "w_times st' = counted (w_times st) ns" "tidy st'" "frontier st' = F \<union> set (ready_of S (w_times st) ns)"
    and mp: "w_map st' = w_map st \<or> (\<exists>ms. ms \<noteq> [] \<and> subseq ms (ready_of S (w_times st) ns) \<and> set ms \<subseteq> allCond n2c t
        \<and> w_map st' = w_map st @ [(t, ms)])"
  shows "when_inv S n2c U src (out @ [t]) (R @ ready_of S (w_times st) ns) st'"
proof -
  let ?N = "ready_of S (w_times st) ns"
  note D = when_invD [OF inv]
  have fU: "finite U" using wf by (simp add: wf_supers_def)
  then have "finite (frontier st)" using D(10) finite_subset by blast
  then have fin: "finite F" unfolding fr(1) by simp
  note K = kahn_ready [OF wf D(2) [unfolded fr(1)] fr(2) fin D(3) ns]
  have dep: "sdepPrev (S n) \<subseteq> set R" if "n \<in> set ?N" for n using K(4) [OF that] D(5) fr(1) by auto
  have "distinct ?N" using ns(1) by (simp add: ready_of_def)
  then have "distinct (R @ ?N)" using D(4,5) K(3) fr(1) by auto
  moreover have "set (R @ ?N) = frontier st' \<union> set (out @ [t])" using D(5) st'(3) fr by auto
  moreover have "deps_first S (R @ ?N)" by (rule deps_first_append [OF D(6) dep])
  moreover have "groups_inv S n2c (R @ ?N) (w_map st')" "distinct (map fst (w_map st'))" "fst ` set (w_map st') \<subseteq> set (out @ [t])"
  proof -
    have t: "t \<notin> fst ` set (w_map st)" using D(9,11) fr by auto
    have g: "groups_inv S n2c (R @ ?N) (w_map st @ [(t, ms)])"
      if "ms \<noteq> []" "subseq ms ?N" "set ms \<subseteq> allCond n2c t" for ms
      using dep by (intro groups_inv_snoc [OF D(7) that(2,1,3)]) auto
    show "groups_inv S n2c (R @ ?N) (w_map st')" using mp groups_inv_append [OF D(7), of ?N] g by auto
    show "distinct (map fst (w_map st'))" using mp D(8) t by auto
    have "fst ` set (w_map st') \<subseteq> insert t (fst ` set (w_map st))" using mp by auto
    then show "fst ` set (w_map st') \<subseteq> set (out @ [t])" using D(9) by auto
  qed
  ultimately show ?thesis using K(1,2) st' by (simp add: when_inv_def)
qed

definition lists_next :: "(superid \<Rightarrow> supernode) \<Rightarrow> superid set \<Rightarrow> (superid set \<Rightarrow> superid list) \<Rightarrow> bool" where
  "lists_next S U ord \<longleftrightarrow> (\<forall>A. A \<subseteq> U \<longrightarrow> distinct (ord A) \<and> set (ord A) = A)"

lemma visit_step:
  assumes wf: "wf_supers S U" and ord: "lists_next S U ord" and inv: "when_inv S n2c U src out R st" and s: "w_s st = t # rest"
  shows "\<exists>R'. when_inv S n2c U src (out @ [t]) R' (fold (visit_next S n2c) (ord (sdepNext (S t))) (st\<lparr>w_s := rest\<rparr>))"
    "t \<in> U - set out"
proof -
  note D = when_invD [OF inv]
  let ?st = "st\<lparr>w_s := rest\<rparr>" and ?ns = "ord (sdepNext (S t))"
  have fr: "frontier st = insert t (frontier ?st)" "t \<notin> frontier ?st" and td: "tidy ?st"
    using D(1) s by (auto simp: frontier_def tidy_def)
  show tU: "t \<in> U - set out" using fr(1) D(10,11) by auto
  have ns: "distinct ?ns" "set ?ns = sdepNext (S t)"
    using ord wf tU by (auto simp: lists_next_def wf_supers_def)
  have fin: "finite (frontier ?st)" using D(10) fr(1) wf by (metis finite_insert finite_subset wf_supers_def)
  have dj: "set ?ns \<inter> frontier ?st = {}"
  proof -
    have "\<forall>n \<in> frontier st. sdepPrev (S n) \<subseteq> set out" using D(2) by (simp add: kahn_inv_def)
    then show ?thesis using ns(2) wf_supersD(4) [OF wf, of t] tU fr(1) by blast
  qed
  note v = fold_visit_next [OF ns(1) dj td, of S n2c]
  have "w_times ?st = w_times st" by simp
  then show "\<exists>R'. when_inv S n2c U src (out @ [t]) R' (fold (visit_next S n2c) ?ns ?st)"
    using take_one [OF wf inv fr ns, of "fold (visit_next S n2c) ?ns ?st"] v by auto
qed

lemma release_step:
  assumes wf: "wf_supers S U" and ord: "lists_next S U ord" and inv: "when_inv S n2c U src out R st"
    and s: "w_s st = []" "w_cond st \<noteq> [] \<or> w_wait st \<noteq> {}"
  shows "\<exists>t R'. t \<in> U - set out \<and> when_inv S n2c U src (out @ [t]) R' (release S n2c ord mws st)"
proof -
  note D = when_invD [OF inv]
  define st1 where "st1 = (if w_cond st = [] then cond2Queue (hd (ord (w_wait st))) st else st)"
  have w: "w_wait st \<subseteq> U" using D(10) by (auto simp: frontier_def)
  have "w_cond st1 \<noteq> []"
  proof (cases "w_cond st = []")
    case True
    then have "set (ord (w_wait st)) = w_wait st" "w_wait st \<noteq> {}" using ord w s(2) by (auto simp: lists_next_def)
    then have "hd (ord (w_wait st)) \<in> w_wait st" by (metis hd_in_set set_empty)
    then show ?thesis by (simp add: st1_def cond2Queue_def)
  qed (simp add: st1_def)
  then obtain t cs where c: "w_cond st1 = t # cs" by (cases "w_cond st1") auto
  have st1: "tidy st1" "frontier st1 = frontier st" "w_times st1 = w_times st" "w_map st1 = w_map st" "w_s st1 = []"
    using D(1) s(1) by (simp_all add: st1_def)
  let ?st = "st1\<lparr>w_cond := cs\<rparr>" and ?ns = "ord (sdepNext (S t))"
  have fr: "frontier st = insert t (frontier ?st)" "t \<notin> frontier ?st" and td: "tidy ?st"
    using st1(1,2) c by (auto simp: frontier_def tidy_def)
  have tU: "t \<in> U - set out" using fr(1) D(10,11) by auto
  have ns: "distinct ?ns" "set ?ns = sdepNext (S t)"
    using ord wf tU by (auto simp: lists_next_def wf_supers_def)
  have fin: "finite (frontier ?st)" using D(10) fr(1) wf by (metis finite_insert finite_subset wf_supers_def)
  let ?N = "ready_of S (w_times st) ?ns"
  define st2 where "st2 = ?st\<lparr>w_times := counted (w_times st) ?ns, w_s := ?N\<rparr>"
  let ?ms = "filter (\<lambda>n. n \<in> allCond n2c t) ?N"
  have f: "fold (merge_next S n2c t) ?ns (?st, []) = (st2, ?ms)"
    unfolding fold_merge_next [OF ns(1)] st2_def using st1 by simp
  have r: "release S n2c ord mws st = (if length ?ms > mws then st2\<lparr>w_map := w_map st2 @ [(t, ?ms)]\<rparr> else st2)"
    unfolding release_def st1_def [symmetric] Let_def using c f by simp
  have dj: "set ?N \<inter> frontier st = {}"
    using kahn_ready(3) [OF wf D(2) [unfolded fr(1)] fr(2) fin D(3) ns] fr(1) by auto
  have st2: "tidy st2" "frontier st2 = frontier ?st \<union> set ?N" "w_times st2 = counted (w_times st) ?ns" "w_map st2 = w_map st"
    using td dj ns(1) fr(1) st1 by (auto simp: st2_def tidy_def frontier_def ready_of_def)
  have rel: "tidy (release S n2c ord mws st)" "frontier (release S n2c ord mws st) = frontier ?st \<union> set ?N"
    "w_times (release S n2c ord mws st) = counted (w_times st) ?ns"
    unfolding r using st2 by (auto simp: tidy_def frontier_def)
  have "w_map (release S n2c ord mws st) = w_map st \<or> (\<exists>ms. ms \<noteq> [] \<and> subseq ms ?N \<and> set ms \<subseteq> allCond n2c t
        \<and> w_map (release S n2c ord mws st) = w_map st @ [(t, ms)])"
    unfolding r using st2(4) by (auto intro!: exI [of _ ?ms])
  from take_one [OF wf inv fr ns rel(3,1,2) this] show ?thesis using tU by blast
qed

lemma out_card: "wf_supers S U \<Longrightarrow> t \<in> U - set out \<Longrightarrow> card (U - set (out @ [t])) < card (U - set out)"
  by (rule psubset_card_mono) (auto simp: wf_supers_def)

lemma release_loop_total:
  assumes wf: "wf_supers S U" and ord: "lists_next S U ord"
  shows "when_inv S n2c U src out R st \<Longrightarrow> \<exists>st' out' R'. release_loop S n2c ord mws st = Some st'
    \<and> when_inv S n2c U src out' R' st' \<and> (w_s st' = [] \<longrightarrow> frontier st' = {}) \<and> card (U - set out') \<le> card (U - set out)"
proof (induction "card (U - set out)" arbitrary: out R st rule: less_induct)
  case less
  show ?case
  proof (cases "w_s st = [] \<and> (w_cond st \<noteq> [] \<or> w_wait st \<noteq> {})")
    case False
    then have "release_loop S n2c ord mws st = Some st"
      unfolding release_loop.simps [of S n2c ord mws st] by (rule if_not_P)
    moreover have "w_s st = [] \<longrightarrow> frontier st = {}" using False by (auto simp: frontier_def)
    ultimately show ?thesis using less.prems by (intro exI [of _ st] exI [of _ out] exI [of _ R]) simp
  next
    case True
    then have s: "w_s st = []" "w_cond st \<noteq> [] \<or> w_wait st \<noteq> {}" by simp_all
    obtain t R' where t: "t \<in> U - set out" "when_inv S n2c U src (out @ [t]) R' (release S n2c ord mws st)"
      using release_step [OF wf ord less.prems s, of mws] by blast
    have lt: "card (U - set (out @ [t])) < card (U - set out)" by (rule out_card [OF wf t(1)])
    have "release_loop S n2c ord mws st = release_loop S n2c ord mws (release S n2c ord mws st)"
      unfolding release_loop.simps [of S n2c ord mws st] using True by (rule if_P)
    moreover obtain st' out' R'' where "release_loop S n2c ord mws (release S n2c ord mws st) = Some st'"
      "when_inv S n2c U src out' R'' st'" "w_s st' = [] \<longrightarrow> frontier st' = {}" "card (U - set out') \<le> card (U - set (out @ [t]))"
      using less.hyps [OF lt t(2)] by (elim exE conjE)
    ultimately show ?thesis using lt by (intro exI [of _ st'] exI [of _ out'] exI [of _ R'']) simp
  qed
qed

lemma when_loop_total:
  assumes wf: "wf_supers S U" and ord: "lists_next S U ord"
  shows "when_inv S n2c U src out R st \<Longrightarrow> w_s st = [] \<longrightarrow> frontier st = {} \<Longrightarrow> \<exists>st' out' R'. when_loop S n2c ord mws st = Some st'
    \<and> when_inv S n2c U src out' R' st' \<and> frontier st' = {}"
proof (induction "card (U - set out)" arbitrary: out R st rule: less_induct)
  case less
  show ?case
  proof (cases "w_s st")
    case Nil
    then show ?thesis using less.prems by (auto simp: when_loop.simps)
  next
    case (Cons t rest)
    let ?st = "fold (visit_next S n2c) (ord (sdepNext (S t))) (st\<lparr>w_s := rest\<rparr>)"
    obtain R' where v: "when_inv S n2c U src (out @ [t]) R' ?st" "t \<in> U - set out"
      using visit_step [OF wf ord less.prems(1) Cons] by blast
    obtain st' out' R'' where r: "release_loop S n2c ord mws ?st = Some st'" "when_inv S n2c U src out' R'' st'"
      "w_s st' = [] \<longrightarrow> frontier st' = {}" "card (U - set out') \<le> card (U - set (out @ [t]))"
      using release_loop_total [OF wf ord v(1)] by blast
    have "card (U - set (out @ [t])) < card (U - set out)" by (rule out_card [OF wf v(2)])
    then have lt: "card (U - set out') < card (U - set out)" using r(4) by simp
    have "when_loop S n2c ord mws st = when_loop S n2c ord mws st'"
      using Cons r(1) by (simp add: when_loop.simps [of S n2c ord mws st])
    then show ?thesis using less.hyps [OF lt r(2,3)] by simp
  qed
qed

section \<open>The start of the traversal\<close>

lemma fold_addCond:
  assumes "distinct ns" "set ns \<inter> frontier st = {}" "tidy st"
  shows "tidy (fold (addCond S n2c) ns st) \<and> frontier (fold (addCond S n2c) ns st) = frontier st \<union> set ns
    \<and> w_times (fold (addCond S n2c) ns st) = w_times st \<and> w_map (fold (addCond S n2c) ns st) = w_map st
    \<and> w_s (fold (addCond S n2c) ns st) = w_s st"
  using assms
proof (induction ns arbitrary: st)
  case (Cons n ns)
  have n: "n \<notin> frontier st" using Cons.prems(2) by auto
  note a = addCond_effect [OF Cons.prems(3) n, of S n2c]
  have "set ns \<inter> frontier (addCond S n2c n st) = {}" using Cons.prems(1,2) unfolding a(3) by auto
  then show ?case using Cons.IH [OF _ _ a(4)] Cons.prems(1) a by auto
qed simp

lemma when_start_inv:
  assumes d: "distinct (sortedSuper g)" and o: "\<And>rs. distinct rs \<Longrightarrow> set rs \<subseteq> set (sortedSuper g) \<Longrightarrow>
      distinct (order_roots rs) \<and> set (order_roots rs) = set rs"
  shows "when_inv (supers g) n2c (set (sortedSuper g)) (set (resort_sources g)) [] (resort_sources g) (when_start g n2c order_roots)"
    "w_map (when_start g n2c order_roots) = []"
proof -
  let ?roots = "resort_sources g" and ?S = "supers g"
  let ?cs = "filter (\<lambda>s. allCond n2c s \<noteq> {}) ?roots" and ?rs = "filter (\<lambda>s. allCond n2c s = {}) ?roots"
  let ?e = "\<lparr>w_s = [], w_cond = [], w_wait = {}, w_times = Map.empty, w_map = []\<rparr>"
  let ?st = "fold (addCond ?S n2c) ?cs ?e"
  have dr: "distinct ?roots" "set ?roots \<subseteq> set (sortedSuper g)" using d by (auto simp: resort_sources_def)
  have w: "when_start g n2c order_roots = ?st\<lparr>w_s := order_roots ?rs\<rparr>"
    by (simp add: when_start_def Let_def resort_sources_def)
  have st: "tidy ?st" "frontier ?st = set ?cs" "w_times ?st = Map.empty" "w_map ?st = []" "w_s ?st = []"
    using fold_addCond [of ?cs ?e ?S n2c] dr by (auto simp: frontier_def tidy_def)
  have rs: "distinct (order_roots ?rs)" "set (order_roots ?rs) = set ?rs" using o [of ?rs] dr by auto
  have fr: "frontier (?st\<lparr>w_s := order_roots ?rs\<rparr>) = set ?roots"
    using st(2,5) rs(2) by (auto simp: frontier_def)
  have "tidy (?st\<lparr>w_s := order_roots ?rs\<rparr>)"
    using st(1,2,5) rs by (auto simp: tidy_def frontier_def)
  moreover have "kahn_inv ?S (set (sortedSuper g)) (set ?roots) (set ?roots, [])" "marks_ok ?S (set (sortedSuper g)) Map.empty []"
    by (auto simp: kahn_inv_def resort_sources_def deps_first_def marks_ok_def count_of_def)
  moreover have "deps_first ?S ?roots" by (auto simp: deps_first_def resort_sources_def dest: nth_mem)
  ultimately show "when_inv (supers g) n2c (set (sortedSuper g)) (set ?roots) [] ?roots (when_start g n2c order_roots)"
    unfolding w when_inv_def fr using dr st by (simp add: groups_inv_def)
  show "w_map (when_start g n2c order_roots) = []" by (simp add: w st)
qed

text \<open>What the traversal hands to the merging: either no group, or groups in the order of becoming ready.\<close>

lemma when_groups:
  assumes e: "edges_ok r (supers g) (set (sortedSuper g))" and d: "distinct (sortedSuper g)"
    and ord: "lists_next (supers g) (set (sortedSuper g)) ord"
    and o: "\<And>rs. distinct rs \<Longrightarrow> set rs \<subseteq> set (sortedSuper g) \<Longrightarrow> distinct (order_roots rs) \<and> set (order_roots rs) = set rs"
  shows "\<exists>st. when_loop (supers g) n2c ord mws (when_start g n2c order_roots) = Some st
    \<and> (w_map st = [] \<or> (\<exists>R. distinct R \<and> set R = set (sortedSuper g) \<and> deps_first (supers g) R
          \<and> groups_inv (supers g) n2c R (w_map st) \<and> distinct (map fst (w_map st)) \<and> fst ` set (w_map st) \<subseteq> set (sortedSuper g)))"
proof (cases "w_s (when_start g n2c order_roots) = []")
  case True
  then have "when_loop (supers g) n2c ord mws (when_start g n2c order_roots) = Some (when_start g n2c order_roots)"
    by (simp add: when_loop.simps)
  then show ?thesis using when_start_inv(2) [OF d o] by simp
next
  case False
  let ?U = "set (sortedSuper g)"
  note dag = ranked_dag [OF e finite_set]
  have ne: "w_s (when_start g n2c order_roots) = [] \<longrightarrow> frontier (when_start g n2c order_roots) = {}" using False by simp
  obtain st out R where st: "when_loop (supers g) n2c ord mws (when_start g n2c order_roots) = Some st"
    "when_inv (supers g) n2c ?U (set (resort_sources g)) out R st" "frontier st = {}"
    using when_loop_total [OF dag(1) ord when_start_inv(1) [OF d o] ne, of mws] by blast
  note D = when_invD [OF st(2)]
  have "set out = ?U"
    by (rule kahn_done [OF dag(1) _ _ dag(2), of "set (resort_sources g)"]) (use D(2) st(3) in \<open>auto simp: resort_sources_def\<close>)
  then show ?thesis using st D(4-9) by (intro exI [of _ st]) auto
qed

section \<open>Merging the groups\<close>

definition rank_of :: "superid list \<Rightarrow> superid \<Rightarrow> int" where
  "rank_of R x = int (length (takeWhile (\<lambda>y. y \<noteq> x) R))"

lemma earlier_rank:
  assumes "distinct R" "earlier R p n"
  shows "rank_of R p < rank_of R n"
proof -
  obtain R1 R2 where R: "R = R1 @ R2" "p \<in> set R1" "n \<in> set R2" using assms(2) by (auto simp: earlier_def)
  have "takeWhile (\<lambda>y. y \<noteq> p) R1 \<noteq> R1" using R(2) by (simp add: takeWhile_eq_all_conv)
  then have "length (takeWhile (\<lambda>y. y \<noteq> p) R1) < length R1"
    by (metis length_takeWhile_le le_neq_implies_less takeWhile_eq_take take_all order_refl)
  moreover have "takeWhile (\<lambda>y. y \<noteq> p) R = takeWhile (\<lambda>y. y \<noteq> p) R1"
    unfolding R(1) by (rule takeWhile_append1 [OF R(2)]) simp
  moreover have "takeWhile (\<lambda>y. y \<noteq> n) R = R1 @ takeWhile (\<lambda>y. y \<noteq> n) R2"
    unfolding R(1) by (rule takeWhile_append2) (use assms(1) R in auto)
  ultimately show ?thesis by (simp add: rank_of_def)
qed

lemma deps_first_earlier:
  assumes "deps_first S R" "n \<in> set R" "p \<in> sdepPrev (S n)"
  shows "earlier R p n"
proof -
  obtain i where i: "i < length R" "R ! i = n" using assms(2) by (auto simp: in_set_conv_nth)
  then have "p \<in> set (take i R)" using assms(1,3) by (auto simp: deps_first_def)
  moreover have "n \<in> set (drop i R)" using i by (metis Cons_nth_drop_Suc list.set_intros(1))
  ultimately show ?thesis unfolding earlier_def by (metis append_take_drop_id)
qed

lemma subseq_earlier:
  assumes "subseq (t # ss) R" "s \<in> set ss"
  shows "earlier R t s"
proof -
  obtain us v vs where "R = us @ v # vs" "t = v" "subseq ss vs" using list_emb_ConsD [OF assms(1)] by blast
  then have R: "R = us @ t # vs" "subseq ss vs" by simp_all
  have "s \<in> set vs" using list_emb_set [OF R(2) assms(2)] by blast
  then show ?thesis unfolding earlier_def using R(1) by (intro exI [of _ "us @ [t]"] exI [of _ vs]) simp
qed

lemma subseq_concat: "(c, ms) \<in> set mp \<Longrightarrow> subseq ms (concat (map snd mp))"
  by (induction mp) (auto intro: subseq_drop_many subseq_rev_drop_many)

text \<open>The state of the merging: \<open>k\<close> is the companion, \<open>W\<close> the super nodes no group has touched.\<close>

definition group_inv :: "(superid \<Rightarrow> int) \<Rightarrow> graph \<Rightarrow> superid set \<Rightarrow> graph \<Rightarrow> graph \<Rightarrow> bool" where
  "group_inv r g0 W g k \<longleftrightarrow>
     same_groups k g \<and> consistent r k \<and> mset (all_members k) = mset (all_members g0) \<and> same_edges (nodes g0) (nodes k)
     \<and> (\<forall>x. superType (supers k x) = superType (supers g0 x)) \<and> (\<forall>n. assignTree (nodes k n) = assignTree (nodes g0 n))
     \<and> W \<subseteq> live k
     \<and> (\<exists>rep. (\<forall>p. r (rep p) \<le> r p) \<and> (\<forall>x \<in> W. sdepPrev (supers k x) = rep ` sdepPrev (supers g0 x)))"

lemma add_members:
  "distinct (smember (supers g t) @ ns) \<Longrightarrow> fold_abort (add_member t) ns g =
     Some (g\<lparr>supers := (supers g)(t := (supers g t)\<lparr>smember := smember (supers g t) @ ns\<rparr>),
             nodes := (\<lambda>n. if n \<in> set ns then (nodes g n)\<lparr>super := Some t\<rparr> else nodes g n)\<rparr>)"
proof (induction ns arbitrary: g)
  case (Cons n ns)
  let ?g1 = "g\<lparr>supers := (supers g)(t := (supers g t)\<lparr>smember := smember (supers g t) @ [n]\<rparr>),
               nodes := (nodes g)(n := (nodes g n)\<lparr>super := Some t\<rparr>)\<rparr>"
  have a: "add_member t n g = Some ?g1" using Cons.prems by (simp add: add_member_def)
  have "distinct (smember (supers ?g1 t) @ ns)" using Cons.prems by auto
  from Cons.IH [OF this] a have e: "fold_abort (add_member t) (n # ns) g =
     Some (?g1\<lparr>supers := (supers ?g1)(t := (supers ?g1 t)\<lparr>smember := smember (supers ?g1 t) @ ns\<rparr>),
             nodes := (\<lambda>m. if m \<in> set ns then (nodes ?g1 m)\<lparr>super := Some t\<rparr> else nodes ?g1 m)\<rparr>)"
    by (simp only: fold_abort.simps bind.bind_lunit)
  show ?case unfolding e using Cons.prems by (auto intro!: graph.equality simp: fun_eq_iff)
qed simp

lemma when_absorb_absorb:
  assumes "distinct (smember (supers g t) @ smember (supers g s))" "s \<noteq> t"
  shows "when_absorb s t g = Some (absorb s t g)"
  using add_members [OF assms(1)] assms(2) by (simp add: when_absorb_def absorb_def retarget_def)

lemma group_inv_merge:
  assumes i: "group_inv r g0 W g k" and s: "s \<in> W" and t: "t \<in> live k" "s \<noteq> t"
    and v: "superType (supers g0 s) = SUPER_VALID" and lt: "r t < r s"
    and before: "\<And>p. p \<in> sdepPrev (supers g0 s) \<Longrightarrow> r p < r t"
  shows "\<exists>g' k'. when_absorb s t g = Some g' \<and> group_inv r g0 (W - {s, t}) g' k' \<and> live k' = live k - {s}"
proof -
  have K: "same_groups k g" "consistent r k" "mset (all_members k) = mset (all_members g0)" "same_edges (nodes g0) (nodes k)"
    "\<And>x. superType (supers k x) = superType (supers g0 x)" "W \<subseteq> live k" "\<And>n. assignTree (nodes k n) = assignTree (nodes g0 n)"
    using i by (auto simp: group_inv_def)
  obtain rep where rep: "\<forall>p. r (rep p) \<le> r p" "\<forall>x \<in> W. sdepPrev (supers k x) = rep ` sdepPrev (supers g0 x)"
    using i unfolding group_inv_def by (elim conjE exE)
  have sl: "s \<in> live k" using K(6) s by blast
  have v': "superType (supers k s) = SUPER_VALID" using v K(5) by simp
  have bf: "p = t \<or> r p < r t" if p: "p \<in> sdepPrev (supers k s)" for p
  proof -
    obtain q where "q \<in> sdepPrev (supers g0 s)" "p = rep q" using p rep(2) s by auto
    then show ?thesis using before [of q] rep(1) by (meson le_less_trans)
  qed
  note gm = ghost_merge_consistent [OF K(2) sl t(1) v' lt bf]
  have l: "live (ghost_merge s t k) = live k - {s}" by (rule gm(2))
  let ?rep = "\<lambda>p. if rep p = s then t else rep p"
  have r1: "r (?rep p) \<le> r p" for p using rep(1) lt by (auto intro: order_trans less_imp_le)
  have r2: "sdepPrev (supers (ghost_merge s t k) x) = ?rep ` sdepPrev (supers g0 x)" if x: "x \<in> W - {s, t}" for x
  proof -
    have im: "?rep ` A = (if s \<in> rep ` A then insert t (rep ` A - {s}) else rep ` A)" for A by force
    have "sdepPrev (supers (ghost_merge s t k) x) = qset s t (\<lambda>y. sdepPrev (supers k y)) x"
      by (simp add: ghost_merge_def)
    then show ?thesis using x rep(2) unfolding im by (simp add: qset_def)
  qed
  have sg: "same_groups (ghost_merge s t k) (absorb s t g)"
    using K(1) t(2) by (auto simp: same_groups_def ghost_merge_def absorb_def retarget_def)
  have "distinct (smember (supers k t) @ smember (supers k s))"
  proof -
    have p: "placed (nodes k) (supers k) (live k)" using K(2) by (simp add: consistent_def)
    then have "distinct (smember (supers k t))" "distinct (smember (supers k s))" using t(1) sl by (auto simp: placed_def)
    moreover have "set (smember (supers k t)) \<inter> set (smember (supers k s)) = {}"
      using placedD [OF p t(1)] placedD [OF p sl] t(2) by fastforce
    ultimately show ?thesis by simp
  qed
  then have "distinct (smember (supers g t) @ smember (supers g s))" using K(1) by (simp add: same_groups_def)
  then have a: "when_absorb s t g = Some (absorb s t g)" using t(2) by (rule when_absorb_absorb)
  have "group_inv r g0 (W - {s, t}) (absorb s t g) (ghost_merge s t k)"
    unfolding group_inv_def l
  proof (intro conjI exI [of _ ?rep] allI ballI)
    show "superType (supers (ghost_merge s t k) x) = superType (supers g0 x)" for x using K(5) by (simp add: ghost_merge_def)
    show "assignTree (nodes (ghost_merge s t k) n) = assignTree (nodes g0 n)" for n using K(7) by (simp add: ghost_merge_def)
    show "same_edges (nodes g0) (nodes (ghost_merge s t k))" by (rule same_edges_trans [OF K(4) gm(4)])
    show "mset (all_members (ghost_merge s t k)) = mset (all_members g0)" using gm(3) K(3) by simp
    show "consistent r (ghost_merge s t k)" by (rule gm(1))
    show "W - {s, t} \<subseteq> live k - {s}" using K(6) by blast
  qed (use sg r1 r2 in simp_all)
  then show ?thesis using a l by blast
qed

lemma group_inv_mono: "group_inv r g0 W g k \<Longrightarrow> W' \<subseteq> W \<Longrightarrow> group_inv r g0 W' g k"
  unfolding group_inv_def by (elim conjE exE, intro conjI exI) auto

text \<open>A group that may be merged: its first element is ready before the others, after all they depend on.\<close>

definition good_group :: "(superid \<Rightarrow> int) \<Rightarrow> graph \<Rightarrow> superid list \<Rightarrow> bool" where
  "good_group r g0 ms \<longleftrightarrow>
     ms \<noteq> [] \<and> distinct ms \<and> (\<forall>s \<in> set (tl ms). superType (supers g0 s) = SUPER_VALID \<and> r (hd ms) < r s
        \<and> (\<forall>p \<in> sdepPrev (supers g0 s). r p < r (hd ms)))"

lemma group_fold:
  assumes "group_inv r g0 W g k" "t \<in> live k" "set ss \<subseteq> W" "good_group r g0 (t # ss)"
  shows "\<exists>g' k'. fold_abort (\<lambda>s. when_absorb s t) ss g = Some g' \<and> group_inv r g0 (W - set (t # ss)) g' k'"
  using assms
proof (induction ss arbitrary: W g k)
  case Nil
  then show ?case using group_inv_mono [OF Nil.prems(1), of "W - {t}"] by auto
next
  case (Cons s ss)
  have s: "s \<in> W" "s \<noteq> t" "superType (supers g0 s) = SUPER_VALID" "r t < r s"
    "\<And>p. p \<in> sdepPrev (supers g0 s) \<Longrightarrow> r p < r t"
    using Cons.prems(3,4) by (auto simp: good_group_def)
  obtain g1 k1 where k1: "when_absorb s t g = Some g1" "group_inv r g0 (W - {s, t}) g1 k1" "live k1 = live k - {s}"
    using group_inv_merge [OF Cons.prems(1) s(1) Cons.prems(2) s(2-5)] by blast
  have "t \<in> live k1" using k1(3) Cons.prems(2) s(2) by simp
  moreover have "set ss \<subseteq> W - {s, t}" "good_group r g0 (t # ss)" using Cons.prems(3,4) by (auto simp: good_group_def)
  ultimately obtain g' k' where "fold_abort (\<lambda>s. when_absorb s t) ss g1 = Some g'" "group_inv r g0 (W - {s, t} - set (t # ss)) g' k'"
    using Cons.IH [OF k1(2)] by blast
  moreover have "W - {s, t} - set (t # ss) = W - set (t # s # ss)" by auto
  ultimately show ?case using k1(1) by auto
qed

lemma apply_groups:
  assumes "group_inv r g0 W g k" "distinct ks" "\<forall>c \<in> set ks. \<exists>ms. map_of mp c = Some ms \<and> good_group r g0 ms \<and> set ms \<subseteq> W"
    "\<forall>c \<in> set ks. \<forall>d \<in> set ks. c \<noteq> d \<longrightarrow> set (the (map_of mp c)) \<inter> set (the (map_of mp d)) = {}"
  shows "\<exists>g' k'. fold_abort (\<lambda>c. apply_group (the (map_of mp c))) ks g = Some g' \<and> group_inv r g0 {} g' k'"
  using assms
proof (induction ks arbitrary: W g k)
  case Nil
  then show ?case using group_inv_mono [OF Nil.prems(1), of "{}"] by auto
next
  case (Cons c ks)
  obtain ms where ms: "map_of mp c = Some ms" "good_group r g0 ms" "set ms \<subseteq> W" using Cons.prems(3) by auto
  then obtain t ss where m: "ms = t # ss" by (cases ms) (auto simp: good_group_def)
  have t: "t \<in> live k" "set ss \<subseteq> W" using ms(3) m Cons.prems(1) by (auto simp: group_inv_def)
  obtain g1 k1 where g1: "fold_abort (\<lambda>s. when_absorb s t) ss g = Some g1" "group_inv r g0 (W - set ms) g1 k1"
    using group_fold [OF Cons.prems(1) t] ms(2) unfolding m by blast
  have "\<exists>ms'. map_of mp d = Some ms' \<and> good_group r g0 ms' \<and> set ms' \<subseteq> W - set ms" if d: "d \<in> set ks" for d
  proof -
    obtain ms' where "map_of mp d = Some ms'" "good_group r g0 ms'" "set ms' \<subseteq> W" using Cons.prems(3) d by auto
    moreover have "c \<noteq> d" using Cons.prems(2) d by auto
    then have "set (the (map_of mp c)) \<inter> set (the (map_of mp d)) = {}" using Cons.prems(4) d by simp
    ultimately show ?thesis using ms(1) by auto
  qed
  then obtain g' k' where "fold_abort (\<lambda>c. apply_group (the (map_of mp c))) ks g1 = Some g'" "group_inv r g0 {} g' k'"
    using Cons.IH [OF g1(2)] Cons.prems(2,4) by auto
  moreover have "apply_group (the (map_of mp c)) g = Some g1" using g1(1) ms(1) m by (simp add: apply_group_def)
  ultimately show ?case by auto
qed

lemma concat_disjoint:
  "distinct (concat (map snd mp)) \<Longrightarrow> (c, ms) \<in> set mp \<Longrightarrow> (d, ms') \<in> set mp \<Longrightarrow> c \<noteq> d \<Longrightarrow> set ms \<inter> set ms' = {}"
proof (induction mp)
  case (Cons x mp)
  have "set m \<subseteq> set (concat (map snd mp))" if "(e, m) \<in> set mp" for e m using that by force
  then show ?case using Cons by fastforce
qed simp

lemma groups_good:
  assumes d: "distinct R" and gi: "groups_inv (supers g) n2c R mp" and m: "(c, ms) \<in> set mp"
    and v: "\<And>s c. n2c s = Some c \<Longrightarrow> superType (supers g s) = SUPER_VALID"
  shows "good_group (rank_of R) g ms"
proof -
  have sub: "subseq ms R" using gi subseq_concat [OF m] by (auto simp: groups_inv_def intro: subseq_order.trans)
  have G: "ms \<noteq> []" "set ms \<subseteq> allCond n2c c" "\<forall>n \<in> set ms. \<forall>p \<in> sdepPrev (supers g n). earlier R p (hd ms)"
    using gi m by (auto simp: groups_inv_def)
  have dm: "distinct ms" using sub d by (auto simp: subseq_conv_nths distinct_nthsI)
  have "superType (supers g s) = SUPER_VALID \<and> rank_of R (hd ms) < rank_of R s
      \<and> (\<forall>p \<in> sdepPrev (supers g s). rank_of R p < rank_of R (hd ms))" if s: "s \<in> set (tl ms)" for s
  proof -
    have ms: "hd ms # tl ms = ms" using G(1) by simp
    have sm: "s \<in> set ms" using s by (metis list.set_sel(2) tl_Nil)
    have "earlier R (hd ms) s" using subseq_earlier [of "hd ms" "tl ms" R s] sub s ms by simp
    then show ?thesis using G(2,3) sm v earlier_rank [OF d] by (auto simp: allCond_def)
  qed
  then show ?thesis using G(1) dm by (simp add: good_group_def)
qed

section \<open>The values of the trees\<close>

lemma when_mux_same:
  "opType a = OP_WHEN \<Longrightarrow> eval E (ENode (a\<lparr>opType := OP_MUX\<rparr>) cs) = eval E (ENode a cs)"
proof -
  assume a: "opType a = OP_WHEN"
  then have "keep_bits (a\<lparr>opType := OP_MUX\<rparr>) = keep_bits a" by (simp add: keep_bits_def fun_eq_iff)
  moreover have "apply_op E (a\<lparr>opType := OP_MUX\<rparr>) os = apply_op E a os" for os using a by (simp add: apply_op_def cong: option.case_cong)
  ultimately show ?thesis by (simp add: eval_ENode)
qed

lemma mux_when_attr: "e_width (mux_when conds b e) = e_width e" "e_sign (mux_when conds b e) = e_sign e"
  by (cases e; auto simp: Let_def split: list.split option.split)+

lemma mux_when_eval: "eval E (mux_when conds b e) = eval E e"
proof (induction conds b e rule: mux_when.induct)
  case (1 conds bound a cs)
  show ?case
  proof (cases "opType a = OP_WHEN")
    case True
    let ?cs = "map (map_option (mux_when conds bound)) cs"
    have "map_option (operand_of E) (map_option (mux_when conds bound) c) = map_option (operand_of E) c" if c: "c \<in> set cs" for c
    proof (cases c)
      case (Some e)
      then have "eval E (mux_when conds bound e) = eval E e" using 1 [OF _ c] True by auto
      then show ?thesis using Some by (simp add: mux_when_attr)
    qed simp
    then have k: "eval E (ENode a ?cs) = eval E (ENode a cs)" by (intro eval_cong_children) simp
    have "mux_when conds bound (ENode a cs) = ENode a ?cs \<or> mux_when conds bound (ENode a cs) = ENode (a\<lparr>opType := OP_MUX\<rparr>) ?cs"
      using True by (auto simp: Let_def split: list.split option.split)
    then show ?thesis using k when_mux_same [OF True] by auto
  qed simp
qed

text \<open>A selection with a missing branch must not become a \<^verbatim>\<open>mux\<close>, which always assigns.\<close>

fun muxes_whole :: "enode \<Rightarrow> bool" where
  "muxes_whole (ENode a cs) \<longleftrightarrow>
     (opType a = OP_MUX \<longrightarrow> None \<notin> set cs) \<and> (\<forall>c \<in> set cs. \<forall>e \<in> set_option c. muxes_whole e)"

lemma mux_when_whole: "muxes_whole e \<Longrightarrow> muxes_whole (mux_when conds b e)"
proof (induction conds b e rule: mux_when.induct)
  case (1 conds bound a cs)
  show ?case
  proof (cases "opType a = OP_WHEN")
    case True
    let ?cs = "map (map_option (mux_when conds bound)) cs"
    have k: "muxes_whole (mux_when conds bound e)" if "Some e \<in> set cs" for e
      using 1(1) [OF _ that, of e] True 1(2) that by auto
    then have "\<forall>c \<in> set ?cs. \<forall>e \<in> set_option c. muxes_whole e" by auto
    moreover have "mux_when conds bound (ENode a cs) = ENode a ?cs
        \<or> mux_when conds bound (ENode a cs) = ENode (a\<lparr>opType := OP_MUX\<rparr>) ?cs \<and> None \<notin> set ?cs"
      using True by (auto simp: Let_def plain_branch_def split: list.split option.split)
    ultimately show ?thesis using True by auto
  qed (use 1(2) in simp)
qed

definition same_tree :: "exptree \<Rightarrow> exptree \<Rightarrow> bool" where
  "same_tree t t' \<longleftrightarrow> lvalue t' = lvalue t \<and> (\<forall>E. eval E (root t') = eval E (root t))
     \<and> (muxes_whole (root t) \<longrightarrow> muxes_whole (root t'))"

lemma same_tree_refl [simp]: "same_tree t t"
  by (simp add: same_tree_def)

text \<open>Every node keeps all but its trees, and these keep their values and what they assign.\<close>

definition same_values :: "heap \<Rightarrow> heap \<Rightarrow> bool" where
  "same_values h h' \<longleftrightarrow>
     (\<forall>n. (\<exists>ts. h' n = (h n)\<lparr>assignTree := ts\<rparr>) \<and> list_all2 same_tree
            (assignTree (h n)) (assignTree (h' n)))"

lemma same_values_refl: "same_values h h"
proof -
  have "\<exists>ts. h n = (h n)\<lparr>assignTree := ts\<rparr>" for n by (rule exI [of _ "assignTree (h n)"]) simp
  then show ?thesis by (simp add: same_values_def list_all2_refl)
qed

lemma same_values_trans:
  assumes "same_values h h1" "same_values h1 h2"
  shows "same_values h h2"
  unfolding same_values_def
proof (intro allI conjI)
  fix n
  show "\<exists>ts. h2 n = (h n)\<lparr>assignTree := ts\<rparr>"
  proof -
    obtain ts ts' where "h1 n = (h n)\<lparr>assignTree := ts\<rparr>" "h2 n = (h1 n)\<lparr>assignTree := ts'\<rparr>"
      using assms unfolding same_values_def by blast
    then show ?thesis by (intro exI [of _ ts']) simp
  qed
  have "list_all2 same_tree (assignTree (h n)) (assignTree (h1 n))" "list_all2 same_tree (assignTree (h1 n)) (assignTree (h2 n))"
    using assms by (simp_all add: same_values_def)
  then show "list_all2 same_tree (assignTree (h n)) (assignTree (h2 n))"
    by (rule list_all2_trans [rotated]) (auto simp: same_tree_def)
qed

lemma same_values_fields:
  assumes "same_values h h'"
  shows "super (h' n) = super (h n)" "same_edges h h'"
proof -
  have e: "\<exists>ts. h' n = (h n)\<lparr>assignTree := ts\<rparr>" for n using assms by (simp add: same_values_def)
  show "super (h' n) = super (h n)" using e [of n] by auto
  have "prev (h' n) = prev (h n) \<and> next (h' n) = next (h n) \<and> depPrev (h' n) = depPrev (h n) \<and> depNext (h' n) = depNext (h n)" for n
    using e [of n] by auto
  then show "same_edges h h'" unfolding same_edges_def by blast
qed

definition mux_ready :: "graph \<Rightarrow> bool" where
  "mux_ready g \<longleftrightarrow> (\<forall>n \<in> set (all_members g). \<forall>t \<in> set (assignTree (nodes g n)). whens_complete (root t))"

lemma mux_when_complete: "whens_complete e \<Longrightarrow> whens_complete (mux_when conds b e)"
proof (induction conds b e rule: mux_when.induct)
  case (1 conds bound a cs)
  show ?case
  proof (cases "opType a = OP_WHEN")
    case True
    then obtain c t f where cs: "cs = [Some c, t, f]" using 1(2) by (auto split: list.splits option.splits)
    have "whens_complete (mux_when conds bound e)" if "Some e \<in> set cs" for e
      using 1(1) [OF _ that, of e] True 1(2) that by auto
    then show ?thesis using True cs by (auto simp: Let_def split: option.split)
  qed (use 1(2) in simp)
qed

lemma mux_super_ok:
  assumes m: "mux_ready g" and s: "s \<in> set (sortedSuper g)"
  shows "\<exists>h. mux_super b s g = Some (g\<lparr>nodes := h\<rparr>) \<and> same_values (nodes g) h \<and> mux_ready (g\<lparr>nodes := h\<rparr>)"
proof (cases "superType (supers g s) = SUPER_VALID")
  case False
  then have "mux_super b s g = Some (g\<lparr>nodes := nodes g\<rparr>)" by (simp add: mux_super_def)
  then show ?thesis using m same_values_refl by (intro exI [of _ "nodes g"]) simp
next
  case True
  let ?ms = "smember (supers g s)"
  let ?roots = "concat (map (\<lambda>n. map root (assignTree (nodes g n))) ?ms)"
  define conds where "conds = concat (map when_conds ?roots)"
  define h where "h = (\<lambda>n. if n \<in> set ?ms
      then (nodes g n)\<lparr>assignTree := map (\<lambda>t. t\<lparr>root := mux_when conds b (root t)\<rparr>) (assignTree (nodes g n))\<rparr> else nodes g n)"
  have "\<forall>e \<in> set ?roots. whens_complete e" using m s by (fastforce simp: mux_ready_def all_members_def)
  then have "mux_super b s g = Some (g\<lparr>nodes := h\<rparr>)"
    using True unfolding mux_super_def Let_def h_def conds_def by simp
  moreover have "same_values (nodes g) h"
    unfolding same_values_def
  proof (intro allI conjI)
    fix n
    show "\<exists>ts. h n = (nodes g n)\<lparr>assignTree := ts\<rparr>" using same_values_refl [of "nodes g"] by (auto simp: h_def same_values_def)
    show "list_all2 same_tree (assignTree (nodes g n)) (assignTree (h n))"
      by (simp add: h_def list_all2_map2 list_all2_refl same_tree_def mux_when_eval mux_when_whole)
  qed
  moreover have "mux_ready (g\<lparr>nodes := h\<rparr>)"
    using m mux_when_complete by (auto simp: mux_ready_def h_def all_members_def)
  ultimately show ?thesis by blast
qed

lemma when2mux_ok:
  assumes "mux_ready g"
  shows "\<exists>h. when2mux b g = Some (g\<lparr>nodes := h\<rparr>) \<and> same_values (nodes g) h"
proof -
  have "set ss \<subseteq> set (sortedSuper g) \<Longrightarrow> mux_ready g \<Longrightarrow>
      \<exists>h. fold_abort (mux_super b) ss g = Some (g\<lparr>nodes := h\<rparr>) \<and> same_values (nodes g) h" for ss
  proof (induction ss arbitrary: g)
    case Nil
    then show ?case using same_values_refl by (intro exI [of _ "nodes g"]) simp
  next
    case (Cons s ss)
    obtain h where h: "mux_super b s g = Some (g\<lparr>nodes := h\<rparr>)" "same_values (nodes g) h" "mux_ready (g\<lparr>nodes := h\<rparr>)"
      using mux_super_ok [OF Cons.prems(2), of s b] Cons.prems(1) by auto
    obtain h' where "fold_abort (mux_super b) ss (g\<lparr>nodes := h\<rparr>) = Some (g\<lparr>nodes := h'\<rparr>)" "same_values h h'"
      using Cons.IH [OF _ h(3)] Cons.prems(1) by auto
    then show ?case using h same_values_trans by auto
  qed
  from this [of "sortedSuper g"] show ?thesis using assms by (simp add: when2mux_def)
qed

section \<open>The whole pass\<close>

definition conds_ready :: "graph \<Rightarrow> bool" where
  "conds_ready g \<longleftrightarrow> (\<forall>s \<in> set (sortedSuper g). super_cond g s \<noteq> None)"

lemma node2Cond_ok:
  assumes "conds_ready g"
  shows "\<exists>n2c. node2Cond g = Some n2c \<and> (\<forall>s c. n2c s = Some c \<longrightarrow> superType (supers g s) = SUPER_VALID)"
proof -
  let ?P = "\<lambda>m. \<forall>s c. m s = Some c \<longrightarrow> superType (supers g s) = SUPER_VALID"
  have v: "superType (supers g s) = SUPER_VALID" if "super_cond g s = Some (Some c)" for s c
    using that by (auto simp: super_cond_def split: if_splits)
  have "set ss \<subseteq> set (sortedSuper g) \<Longrightarrow> ?P m \<Longrightarrow>
     \<exists>m'. fold_abort (\<lambda>s m. do { c \<leftarrow> super_cond g s; Some (m(s := c)) }) ss m = Some m' \<and> ?P m'" for ss m
  proof (induction ss arbitrary: m)
    case (Cons s ss)
    obtain c where c: "super_cond g s = Some c" using assms Cons.prems(1) by (auto simp: conds_ready_def)
    have "?P (m(s := c))" using Cons.prems(2) v [of s] c by auto
    then show ?case using Cons.IH [of "m(s := c)"] Cons.prems(1) c by auto
  qed simp
  from this [of "sortedSuper g" Map.empty] show ?thesis by (simp add: node2Cond_def)
qed

lemma lists_next_default: "lists_next S (set L) sorted_list_of_set"
  by (auto simp: lists_next_def dest: finite_subset)

lemma lists_next_stable: "lists_next S (set L) (stableOrdered h S)"
  using stableOrdered_set [OF stable_push] by (auto simp: lists_next_def dest: finite_subset)

lemma merged_groups:
  assumes g: "scheduled g" "compact g" and c: "conds_ready g"
    and ord: "lists_next (supers g) (set (sortedSuper g)) ord"
    and o: "\<And>rs. distinct rs \<Longrightarrow> set rs \<subseteq> set (sortedSuper g) \<Longrightarrow> distinct (order_roots rs) \<and> set (order_roots rs) = set rs"
  shows "\<exists>n2c st g1 k r. node2Cond g = Some n2c \<and> when_loop (supers g) n2c ord mws (when_start g n2c order_roots) = Some st
    \<and> apply_when_map ord (w_map st) g = Some g1 \<and> group_inv r g {} g1 k"
proof -
  have e: "edges_ok (order_of g) (supers g) (set (sortedSuper g))" using scheduled_edges [OF g(1)] g(2) by simp
  have d: "distinct (sortedSuper g)" by (rule scheduled_distinct [OF g(1)])
  have C: "consistent (order_of g) g" using g(1) by (simp add: scheduled_def)
  obtain n2c where n2c: "node2Cond g = Some n2c" "\<And>s c. n2c s = Some c \<Longrightarrow> superType (supers g s) = SUPER_VALID"
    using node2Cond_ok [OF c] by blast
  obtain st where st: "when_loop (supers g) n2c ord mws (when_start g n2c order_roots) = Some st"
    "w_map st = [] \<or> (\<exists>R. distinct R \<and> set R = set (sortedSuper g) \<and> deps_first (supers g) R
          \<and> groups_inv (supers g) n2c R (w_map st) \<and> distinct (map fst (w_map st)) \<and> fst ` set (w_map st) \<subseteq> set (sortedSuper g))"
    using when_groups [OF e d ord o, of n2c mws] by blast
  have init: "group_inv r g (live g) g g" if "consistent r g" for r
    unfolding group_inv_def using that by (auto simp: same_groups_def intro: exI [of _ id])
  have "\<exists>g1 k r. apply_when_map ord (w_map st) g = Some g1 \<and> group_inv r g {} g1 k"
  proof (cases "w_map st = []")
    case True
    have "set (ord {}) = {}" using ord by (simp add: lists_next_def)
    then have "apply_when_map ord (w_map st) g = Some g" by (simp add: apply_when_map_def True)
    then show ?thesis using group_inv_mono [OF init [OF C], of "{}"] by blast
  next
    case False
    let ?mp = "w_map st"
    obtain R where R: "distinct R" "set R = set (sortedSuper g)" "deps_first (supers g) R" "groups_inv (supers g) n2c R ?mp"
      "distinct (map fst ?mp)" "fst ` set ?mp \<subseteq> set (sortedSuper g)"
      using st(2) False by blast
    have "edges_ok (rank_of R) (supers g) (live g)"
    proof -
      have "rank_of R p < rank_of R s" if "s \<in> live g" "p \<in> sdepPrev (supers g s)" for s p
        using deps_first_earlier [OF R(3) _ that(2)] that(1) R(2) g(2) earlier_rank [OF R(1)] by auto
      then show ?thesis using e g(2) by (simp add: edges_ok_def)
    qed
    then have cr: "consistent (rank_of R) g" using C by (simp add: consistent_def)
    let ?ks = "ord (fst ` set ?mp)"
    have ks: "distinct ?ks" "set ?ks = fst ` set ?mp" using ord R(6) by (auto simp: lists_next_def)
    have get: "\<exists>ms. map_of ?mp c = Some ms \<and> (c, ms) \<in> set ?mp" if "c \<in> set ?ks" for c
      using that ks(2) R(5) by (metis (no_types, lifting) imageE map_of_is_SomeI prod.collapse)
    have sq: "subseq (concat (map snd ?mp)) R" using R(4) by (simp add: groups_inv_def)
    have cat: "set (concat (map snd ?mp)) \<subseteq> set R" using list_emb_set [OF sq] by blast
    have dcat: "distinct (concat (map snd ?mp))" using sq R(1) by (auto simp: subseq_conv_nths simp del: map_map intro: distinct_nthsI)
    have good: "\<forall>c \<in> set ?ks. \<exists>ms. map_of ?mp c = Some ms \<and> good_group (rank_of R) g ms \<and> set ms \<subseteq> live g"
    proof
      fix c assume "c \<in> set ?ks"
      then obtain ms where ms: "map_of ?mp c = Some ms" "(c, ms) \<in> set ?mp" using get by blast
      have "set ms \<subseteq> set (concat (map snd ?mp))" using ms(2) by force
      then show "\<exists>ms. map_of ?mp c = Some ms \<and> good_group (rank_of R) g ms \<and> set ms \<subseteq> live g"
        using ms groups_good [OF R(1,4) ms(2) n2c(2)] cat R(2) g(2) by auto
    qed
    have "\<forall>c \<in> set ?ks. \<forall>d \<in> set ?ks. c \<noteq> d \<longrightarrow> set (the (map_of ?mp c)) \<inter> set (the (map_of ?mp d)) = {}"
    proof (intro ballI impI)
      fix c d assume cd: "c \<in> set ?ks" "d \<in> set ?ks" "c \<noteq> d"
      obtain ms ms' where "map_of ?mp c = Some ms" "(c, ms) \<in> set ?mp" "map_of ?mp d = Some ms'" "(d, ms') \<in> set ?mp"
        using get cd(1,2) by blast
      then show "set (the (map_of ?mp c)) \<inter> set (the (map_of ?mp d)) = {}"
        using concat_disjoint [OF dcat _ _ cd(3)] by simp
    qed
    from apply_groups [OF init [OF cr] ks(1) good this] show ?thesis unfolding apply_when_map_def by blast
  qed
  then show ?thesis using n2c(1) st(1) by blast
qed

lemma reconnected_no_loop:
  assumes "consistent r g" "compact g"
  shows "detectSortedSuperLoop g sorted_list_of_set = Some NoLoop"
proof -
  have "\<forall>s \<in> set (sortedSuper g). sdepNext (supers g s) \<subseteq> set (sortedSuper g)"
    using assms edges_okD(2) [of r "supers g" "live g"] by (fastforce simp: consistent_def)
  then show ?thesis unfolding detectSortedSuperLoop_def
    by (intro sorted_loop_none [OF lists_sorted, of "set (sortedSuper g)"]) (auto simp: init_states)
qed

text \<open>
  The result of the pass: a graph with the same nodes and edges, consistent with some rank
  (the next sort turns it into a schedule), in which every tree has the values it had.
\<close>

definition merged_well :: "graph \<Rightarrow> graph \<Rightarrow> bool" where
  "merged_well g g' \<longleftrightarrow>
     (\<exists>r. consistent r g') \<and> compact g' \<and> mset (all_members g') = mset (all_members g)
     \<and> same_edges (nodes g) (nodes g')
     \<and> (\<forall>n. list_all2 same_tree
            (assignTree (nodes g n)) (assignTree (nodes g' n)))"

lemma same_values_consistent:
  assumes "same_values (nodes g) h" "consistent r g"
  shows "consistent r (g\<lparr>nodes := h\<rparr>)" "live (g\<lparr>nodes := h\<rparr>) = live g" "all_members (g\<lparr>nodes := h\<rparr>) = all_members g"
proof -
  note f = same_values_fields [OF assms(1)]
  have d: "depPrev (h n) = depPrev (nodes g n)" for n using f(2) by (simp add: same_edges_def)
  show l: "live (g\<lparr>nodes := h\<rparr>) = live g" by (simp add: live_def)
  show "all_members (g\<lparr>nodes := h\<rparr>) = all_members g" by (simp add: all_members_def)
  show "consistent r (g\<lparr>nodes := h\<rparr>)"
    using assms(2) by (simp add: consistent_def l placed_def covered_def in_dep_order_def f(1) d)
qed

lemma mergeWhenNodes_merges:
  assumes g: "scheduled g" "compact g" and ne: "node_edges_ok (nodes g) (set (all_members g))"
    and c: "conds_ready g" and m: "mux_ready g"
  shows "\<exists>g'. mergeWhenNodes stableOrder mergeWhenSize when2muxBound g = Some g' \<and> merged_well g g'"
proof -
  define ord where "ord = (if stableOrder then stableOrdered (nodes g) (supers g) else sorted_list_of_set)"
  define order_roots where "order_roots =
    (if stableOrder then \<lambda>rs. stableOrdered (nodes g) (supers g) (set rs) else (\<lambda>rs. rs))"
  have lo: "lists_next (supers g) (set (sortedSuper g)) ord"
    by (simp add: ord_def lists_next_default lists_next_stable)
  have oo: "distinct (order_roots rs) \<and> set (order_roots rs) = set rs" if "distinct rs" for rs
    using that stableOrdered_set [OF stable_push, of "set rs" "nodes g" "supers g"] by (simp add: order_roots_def)
  obtain n2c st g1 k r where st: "node2Cond g = Some n2c"
    "when_loop (supers g) n2c ord mergeWhenSize (when_start g n2c order_roots) = Some st"
    "apply_when_map ord (w_map st) g = Some g1" "group_inv r g {} g1 k"
    using merged_groups [OF g c lo, of order_roots mergeWhenSize] oo by blast
  have K: "same_groups k g1" "consistent r k" "mset (all_members k) = mset (all_members g)"
    "same_edges (nodes g) (nodes k)" "\<And>n. assignTree (nodes k n) = assignTree (nodes g n)"
    using st(4) by (simp_all add: group_inv_def)
  have am: "set (all_members k) = set (all_members g)" using K(3) by (rule mset_eq_setD)
  have nk: "node_edges_ok (nodes k) (set (all_members k))" using ne same_edges_ok [OF K(4)] am by simp
  obtain g2 where g2: "reconnectSuper (removeEmptySuper g1) = Some g2" "consistent r g2" "compact g2"
    "same_groups (removeEmptySuper g1) g2" "all_members g2 = all_members k"
    using reconnect_consistent [OF K(2,1) nk] by blast
  have n2: "nodes g2 = nodes k" using g2(4) K(1) by (simp add: same_groups_def)
  have "mux_ready g2" using m by (simp add: mux_ready_def g2(5) am n2 K(5))
  then obtain h where h: "when2mux when2muxBound g2 = Some (g2\<lparr>nodes := h\<rparr>)" "same_values (nodes g2) h"
    using when2mux_ok by blast
  have "mergeWhenNodes stableOrder mergeWhenSize when2muxBound g = Some (g2\<lparr>nodes := h\<rparr>)"
    using st(1,2,3) g2(1) reconnected_no_loop [OF g2(2,3)] h(1)
    unfolding mergeWhenNodes_def Let_def ord_def [symmetric] order_roots_def [symmetric] by simp
  moreover have "same_edges (nodes g) h" using same_edges_trans [OF K(4)] same_values_fields(2) [OF h(2)] n2 by simp
  moreover have "list_all2 same_tree
            (assignTree (nodes g n)) (assignTree (h n))" for n
    using h(2) by (simp add: same_values_def n2 K(5))
  ultimately show ?thesis
    using same_values_consistent [OF h(2) g2(2)] g2(3,5) K(3)
    by (intro exI [of _ "g2\<lparr>nodes := h\<rparr>"]) (auto simp: merged_well_def)
qed

text \<open>
  C16: merging the nodes with the same condition.  On a scheduled graph whose super nodes hold
  one node each and whose \<^verbatim>\<open>when\<close> nodes have their three operands, \<^verbatim>\<open>mergeWhenNodes\<close> ends without
  a failed check, in either order and for every bound.  The result has the same nodes and
  edges, there is a rank in which its super nodes can be run (so the next sort succeeds),
  and turning \<^verbatim>\<open>when\<close> into \<^verbatim>\<open>mux\<close> has left every tree with its value and made no \<^verbatim>\<open>mux\<close> with a missing
  branch, which would assign where the \<^verbatim>\<open>when\<close> does not.
\<close>

theorem mergeWhenNodes_correct:
  assumes "scheduled g" "compact g" "node_edges_ok (nodes g) (set (all_members g))" "conds_ready g" "mux_ready g"
  shows "\<exists>g' r. mergeWhenNodes stableOrder mergeWhenSize when2muxBound g = Some g' \<and> consistent r g'
    \<and> mset (all_members g') = mset (all_members g) \<and> same_edges (nodes g) (nodes g')
    \<and> (\<forall>n. list_all2 same_tree
            (assignTree (nodes g n)) (assignTree (nodes g' n)))"
  using mergeWhenNodes_merges [OF assms, of stableOrder mergeWhenSize when2muxBound] by (auto simp: merged_well_def)

lemma demo_conds: "conds_ready demo_sched"
  by (simp add: conds_ready_def demo_sched_def super_cond_def member_cond_def new_super_def new_node_def isArray_def new_leaf_def new_eattr_def)

lemma demo_mux: "mux_ready demo_sched"
  unfolding mux_ready_def demo_members by (simp add: demo_sched_def new_node_def new_leaf_def new_eattr_def)

theorem mergeWhenNodes_correct_witness:
  "\<exists>g' r. mergeWhenNodes True 1 1 demo_sched = Some g' \<and> consistent r g' \<and> mset (all_members g') = {#0, 1, 2, 3#}
    \<and> same_edges (nodes demo_sched) (nodes g')
    \<and> (\<forall>n. list_all2 same_tree
            (assignTree (nodes demo_sched n)) (assignTree (nodes g' n)))"
  using mergeWhenNodes_correct [OF demo_scheduled demo_compact demo_edges_ok demo_conds demo_mux, of True 1 1]
  by (simp add: demo_members)

end
