(* ===== verification/ResetMerge.thy ===== *)
theory ResetMerge
  imports Schedule
begin

section \<open>Collecting the resets\<close>

text \<open>
  \<^verbatim>\<open>graph::mergeResetAll\<close> of \<^verbatim>\<open>src/mergeNodes.cpp\<close>: for every register with a reset a copy of type
  \<^verbatim>\<open>NODE_REG_RESET\<close> that assigns the reset value is put into a super node of its own kind of
  reset and its reset condition (and a second copy for the new value when that is a node of
  its own); these super nodes are kept in \<^verbatim>\<open>allReset\<close>, outside the sorted ones.  The nodes that
  are reset conditions are marked.  New objects take the next free numbers, \<open>freeNode\<close> and
  \<open>freeSuper\<close>, and \<^verbatim>\<open>SuperNode::resetNode\<close> is a map of its own.
\<close>

record resets =
  r_graph :: graph
  freeNode :: nodeid
  freeSuper :: superid
  allReset :: "superid list"
  resetNode :: "superid \<rightharpoonup> nodeid"

text \<open>\<^verbatim>\<open>resetSuper\<close>: the super nodes of a reset condition as synchronous and as asynchronous reset.\<close>

type_synonym reset_supers = "(nodeid \<times> superid \<times> superid) list"

text \<open>The single node that the condition of a reset tree reads.\<close>

definition reset_cond :: "exptree \<Rightarrow> nodeid abortable" where
  "reset_cond t =
     do { assert_that (e_op (root t) = OP_RESET);
          (case child (root t) of
             Some c # _ \<Rightarrow> (case sorted_list_of_set (getENodeRelyNodes c) of [p] \<Rightarrow> Some p | _ \<Rightarrow> None)
           | _ \<Rightarrow> None) }"

definition reset_super :: "nodeid \<Rightarrow> reset_supers \<times> resets \<Rightarrow> (superid \<times> superid) \<times> reset_supers \<times> resets" where
  "reset_super p rst =
     (case rst of (rs, st) \<Rightarrow>
        case map_of rs p of
          Some ua \<Rightarrow> (ua, rs, st)
        | None \<Rightarrow>
            let u = freeSuper st; a = freeSuper st + 1; g = r_graph st
            in ((u, a), (p, u, a) # rs,
                st\<lparr>r_graph := g\<lparr>supers := (supers g)(u := new_super\<lparr>superType := SUPER_UINT_RESET\<rparr>,
                                                     a := new_super\<lparr>superType := SUPER_ASYNC_RESET\<rparr>)\<rparr>,
                   freeSuper := freeSuper st + 2, resetNode := (resetNode st)(u \<mapsto> p, a \<mapsto> p)\<rparr>))"

definition add_reset :: "superid \<Rightarrow> nodeid \<Rightarrow> string \<Rightarrow> enode \<Rightarrow> resets \<Rightarrow> resets abortable" where
  "add_reset s reg nm e st =
     (let k = freeNode st; g = r_graph st;
          nd = (dup_node (nodes g reg) NODE_REG_RESET nm)
                 \<lparr>regNext := Some reg, assignTree := [\<lparr>root = e, lvalue = new_leaf k\<rparr>]\<rparr>
      in do { g' \<leftarrow> add_member s k (g\<lparr>nodes := (nodes g)(k := nd)\<rparr>);
              Some (st\<lparr>r_graph := g', freeNode := k + 1\<rparr>) })"

definition merge_reset :: "nodeid \<Rightarrow> reset_supers \<times> resets \<Rightarrow> (reset_supers \<times> resets) abortable" where
  "merge_reset reg rst =
     (let h = nodes (r_graph (snd rst)); nd = h reg in
      if nreset nd \<noteq> UINTRESET \<and> nreset nd \<noteq> ASYRESET then Some rst
      else do { t \<leftarrow> resetTree nd;
                p \<leftarrow> reset_cond t;
                (case reset_super p rst of ((u, a), rs1, st1) \<Rightarrow>
                   let s = (if nreset nd = ASYRESET then a else u) in
                   do { st2 \<leftarrow> add_reset s reg (name nd) (root t) st1;
                        d \<leftarrow> getDst (nodes (r_graph st2)) reg;
                        let dst = nodes (r_graph st2) d;
                        st3 \<leftarrow> (if status dst = VALID_NODE then add_reset s reg (name dst) (root t) st2 else Some st2);
                        Some (rs1, st3) }) })"

text \<open>The second loop, over the reset conditions in the order of their names.\<close>

definition publish_uint :: "nodeid \<Rightarrow> superid \<Rightarrow> resets \<Rightarrow> resets" where
  "publish_uint p u st =
     (let g = r_graph st in
      if smember (supers g u) = [] then st
      else st\<lparr>allReset := allReset st @ [u], r_graph := g\<lparr>nodes := (nodes g)(p := setUIntReset (nodes g p))\<rparr>\<rparr>)"

definition publish_async :: "nodeid \<Rightarrow> superid \<Rightarrow> resets \<Rightarrow> resets abortable" where
  "publish_async p a st =
     (let g = r_graph st in
      if smember (supers g a) = [] then Some st
      else let g1 = g\<lparr>nodes := (nodes g)(p := setAsyncReset (nodes g p))\<rparr>;
               st1 = st\<lparr>allReset := allReset st @ [a], r_graph := g1\<rparr>
           in do { s \<leftarrow> super (nodes g1 p);
                   if superType (supers g1 s) = SUPER_VALID
                   then Some (st1\<lparr>r_graph := g1\<lparr>supers := (supers g1)(s := (supers g1 s)\<lparr>superType := SUPER_ASYNC_RESET\<rparr>)\<rparr>,
                                  resetNode := (resetNode st1)(s := resetNode st1 a)\<rparr>)
                   else Some st1 })"

definition publish_reset :: "nodeid \<times> superid \<times> superid \<Rightarrow> resets \<Rightarrow> resets abortable" where
  "publish_reset e st = (case e of (p, u, a) \<Rightarrow> publish_async p a (publish_uint p u st))"

definition mergeResetAll :: "resets \<Rightarrow> resets abortable" where
  "mergeResetAll st =
     do { (rs, st1) \<leftarrow> fold_abort merge_reset (regsrc (r_graph st)) ([], st);
          fold_abort publish_reset (sort_key (\<lambda>e. name (nodes (r_graph st1) (fst e))) rs) st1 }"

section \<open>The first loop\<close>

text \<open>What the loop reads of a register: its kind of reset, the condition and the tree.\<close>

definition reset_of :: "heap \<Rightarrow> nodeid \<Rightarrow> nodeid \<Rightarrow> exptree \<Rightarrow> bool" where
  "reset_of h reg p t \<longleftrightarrow>
     (nreset (h reg) = UINTRESET \<or> nreset (h reg) = ASYRESET) \<and> resetTree (h reg) = Some t \<and> reset_cond t = Some p"

text \<open>
  The registers are well formed: every reset reads one node that has a super node, and the
  numbers in use are below the free ones, the rest of the heap having no edges.
\<close>

definition resets_ready :: "resets \<Rightarrow> bool" where
  "resets_ready st \<longleftrightarrow>
     (let g = r_graph st; h = nodes g in
      (\<forall>reg \<in> set (regsrc g). reg < freeNode st)
      \<and> (\<forall>reg \<in> set (regsrc g). nreset (h reg) = UINTRESET \<or> nreset (h reg) = ASYRESET \<longrightarrow>
         (\<exists>d < freeNode st. getDst h reg = Some d)
         \<and> (\<exists>t p s. reset_of h reg p t \<and> p < freeNode st \<and> super (h p) = Some s \<and> s < freeSuper st))
      \<and> (\<forall>s \<in> set (sortedSuper g). s < freeSuper st) \<and> (\<forall>n \<in> set (all_members g). n < freeNode st)
      \<and> (\<forall>n \<ge> freeNode st. prev (h n) = {} \<and> node.next (h n) = {} \<and> depPrev (h n) = {} \<and> depNext (h n) = {}))"

text \<open>The node \<open>n\<close> is a copy of the register \<open>reg\<close> that assigns the value of its reset.\<close>

definition reset_copy :: "heap \<Rightarrow> nodeid \<Rightarrow> nodeid \<Rightarrow> nodeid \<Rightarrow> exptree \<Rightarrow> bool" where
  "reset_copy h n reg p t \<longleftrightarrow>
     reset_of h reg p t \<and> ntype (h n) = NODE_REG_RESET \<and> regNext (h n) = Some reg
     \<and> assignTree (h n) = [\<lparr>root = root t, lvalue = new_leaf n\<rparr>] \<and> nwidth (h n) = nwidth (h reg) \<and> nsign (h n) = nsign (h reg)"

definition kind_super :: "ResetType \<Rightarrow> superid \<times> superid \<Rightarrow> superid" where
  "kind_super k ua = (if k = ASYRESET then snd ua else fst ua)"

text \<open>The state of the first loop: \<open>st0\<close> is where it began, \<open>done\<close> the registers it has treated.\<close>

definition frame :: "resets \<Rightarrow> resets \<Rightarrow> bool" where
  "frame st0 st \<longleftrightarrow>
     (let g0 = r_graph st0; g = r_graph st in
      freeNode st0 \<le> freeNode st \<and> freeSuper st0 \<le> freeSuper st \<and> allReset st = allReset st0
      \<and> (\<forall>n < freeNode st0. nodes g n = nodes g0 n)
      \<and> (\<forall>n. freeNode st0 \<le> n \<longrightarrow> prev (nodes g n) = {} \<and> node.next (nodes g n) = {}
            \<and> depPrev (nodes g n) = {} \<and> depNext (nodes g n) = {})
      \<and> (\<forall>s < freeSuper st0. supers g s = supers g0 s)
      \<and> g\<lparr>nodes := nodes g0, supers := supers g0\<rparr> = g0)"

definition slot_ok :: "resets \<Rightarrow> resets \<Rightarrow> nodeid \<times> superid \<times> superid \<Rightarrow> bool" where
  "slot_ok st0 st e \<longleftrightarrow>
     (case e of (p, u, a) \<Rightarrow>
        p < freeNode st0 \<and> (\<exists>s < freeSuper st0. super (nodes (r_graph st0) p) = Some s)
        \<and> freeSuper st0 \<le> u \<and> u < a \<and> a < freeSuper st
        \<and> superType (supers (r_graph st) u) = SUPER_UINT_RESET \<and> superType (supers (r_graph st) a) = SUPER_ASYNC_RESET
        \<and> resetNode st u = Some p \<and> resetNode st a = Some p)"

definition filed :: "resets \<Rightarrow> resets \<Rightarrow> reset_supers \<Rightarrow> nodeid set \<Rightarrow> bool" where
  "filed st0 st rs regs \<longleftrightarrow>
     frame st0 st \<and> (\<forall>e \<in> set rs. slot_ok st0 st e) \<and> distinct (map fst rs)
     \<and> distinct (concat (map (\<lambda>(p, u, a). [u, a]) rs))
     \<and> (\<forall>p ua k n. (p, ua) \<in> set rs \<longrightarrow> k = UINTRESET \<or> k = ASYRESET \<longrightarrow>
          n \<in> set (smember (supers (r_graph st) (kind_super k ua))) \<longrightarrow>
          freeNode st0 \<le> n \<and> n < freeNode st
          \<and> (\<exists>reg \<in> regs. \<exists>t. reset_copy (nodes (r_graph st)) n reg p t \<and> nreset (nodes (r_graph st) reg) = k))
     \<and> (\<forall>reg \<in> regs. \<exists>p ua t n. (p, ua) \<in> set rs
          \<and> n \<in> set (smember (supers (r_graph st) (kind_super (nreset (nodes (r_graph st) reg)) ua)))
          \<and> reset_copy (nodes (r_graph st)) n reg p t)
     \<and> (\<forall>reg \<in> regs. reg < freeNode st0)"

lemma filedD:
  assumes "filed st0 st rs regs"
  shows "frame st0 st" "e \<in> set rs \<Longrightarrow> slot_ok st0 st e" "distinct (map fst rs)" "distinct (concat (map (\<lambda>(p, u, a). [u, a]) rs))"
    "(p, ua) \<in> set rs \<Longrightarrow> k = UINTRESET \<or> k = ASYRESET \<Longrightarrow> n \<in> set (smember (supers (r_graph st) (kind_super k ua)))
       \<Longrightarrow> freeNode st0 \<le> n \<and> n < freeNode st \<and> (\<exists>reg \<in> regs. \<exists>t. reset_copy (nodes (r_graph st)) n reg p t \<and> nreset (nodes (r_graph st) reg) = k)"
    "reg \<in> regs \<Longrightarrow> \<exists>p ua t n. (p, ua) \<in> set rs
          \<and> n \<in> set (smember (supers (r_graph st) (kind_super (nreset (nodes (r_graph st) reg)) ua)))
          \<and> reset_copy (nodes (r_graph st)) n reg p t"
    "reg \<in> regs \<Longrightarrow> reg < freeNode st0"
  using assms unfolding filed_def by blast+

lemma frameD:
  assumes "frame st0 st"
  shows "freeNode st0 \<le> freeNode st" "freeSuper st0 \<le> freeSuper st" "allReset st = allReset st0"
    "n < freeNode st0 \<Longrightarrow> nodes (r_graph st) n = nodes (r_graph st0) n"
    "s < freeSuper st0 \<Longrightarrow> supers (r_graph st) s = supers (r_graph st0) s"
    "sortedSuper (r_graph st) = sortedSuper (r_graph st0)" "regsrc (r_graph st) = regsrc (r_graph st0)"
proof -
  have "(r_graph st)\<lparr>nodes := nodes (r_graph st0), supers := supers (r_graph st0)\<rparr> = r_graph st0"
    using assms by (simp add: frame_def Let_def)
  from arg_cong [OF this, of sortedSuper] arg_cong [OF this, of regsrc]
  show "sortedSuper (r_graph st) = sortedSuper (r_graph st0)" "regsrc (r_graph st) = regsrc (r_graph st0)" by simp_all
qed (use assms in \<open>auto simp: frame_def Let_def\<close>)

lemma reset_slots:
  fixes rs :: reset_supers
  assumes "distinct (concat (map (\<lambda>(p, u, a). [u, a]) rs))" "(p, ua) \<in> set rs" "(q, ub) \<in> set rs"
    "k = UINTRESET \<or> k = ASYRESET" "l = UINTRESET \<or> l = ASYRESET" "kind_super k ua = kind_super l ub"
  shows "k = l \<and> p = q \<and> ua = ub"
  using assms(1,2,3)
proof (induction rs)
  case (Cons e rs)
  define f :: "nodeid \<times> superid \<times> superid \<Rightarrow> superid list" where "f = (\<lambda>(p, u, a). [u, a])"
  have mem: "kind_super m uc \<in> set (f (r, uc))" for m r uc by (cases uc) (simp add: f_def kind_super_def)
  have d: "distinct (f e)" "distinct (concat (map f rs))" "set (f e) \<inter> set (concat (map f rs)) = {}"
    using Cons.prems(1) unfolding f_def [symmetric] by simp_all
  have out: "kind_super m uc \<notin> set (f e)" if "(r, uc) \<in> set rs" for m r uc
    using that mem [of m uc r] d(3) by auto
  consider "(p, ua) = e" "(q, ub) = e" | "(p, ua) \<in> set rs" "(q, ub) \<in> set rs"
    | "(p, ua) = e" "(q, ub) \<in> set rs" | "(p, ua) \<in> set rs" "(q, ub) = e"
    using Cons.prems(2,3) by auto
  then show ?case
  proof cases
    case 1
    obtain u a where ua: "ua = (u, a)" by fastforce
    then have e: "e = (p, u, a)" "q = p" "ub = (u, a)" using 1 by auto
    then have "u \<noteq> a" using d(1) by (simp add: f_def)
    then show ?thesis using assms(4-6) ua e by (auto simp: kind_super_def split: if_splits)
  next
    case 2
    then show ?thesis using Cons.IH d(2) by (simp add: f_def)
  next
    case 3
    then show ?thesis using out [OF 3(2), of l] mem [of k ua p] assms(6) by simp
  next
    case 4
    then show ?thesis using out [OF 4(1), of k] mem [of l ub q] assms(6) by simp
  qed
qed simp

lemma reset_of_frame:
  "n < freeNode st0 \<Longrightarrow> frame st0 st \<Longrightarrow> reset_of (nodes (r_graph st)) n p t \<longleftrightarrow> reset_of (nodes (r_graph st0)) n p t"
  by (simp add: reset_of_def frameD(4))

lemma reset_super_filed:
  assumes f: "filed st0 st rs regs" and p: "p < freeNode st0" "super (nodes (r_graph st0) p) = Some s" "s < freeSuper st0"
  shows "\<exists>ua rs' st'. reset_super p (rs, st) = (ua, rs', st') \<and> filed st0 st' rs' regs \<and> (p, ua) \<in> set rs'
    \<and> freeNode st' = freeNode st \<and> nodes (r_graph st') = nodes (r_graph st)"
proof (cases "map_of rs p")
  case (Some ua)
  then have "(p, ua) \<in> set rs" by (rule map_of_SomeD)
  then show ?thesis using Some f by (simp add: reset_super_def)
next
  case None
  define u where "u = freeSuper st"
  let ?g = "r_graph st"
  let ?st = "st\<lparr>r_graph := ?g\<lparr>supers := (supers ?g)(u := new_super\<lparr>superType := SUPER_UINT_RESET\<rparr>,
                                                     u + 1 := new_super\<lparr>superType := SUPER_ASYNC_RESET\<rparr>)\<rparr>,
                   freeSuper := u + 2, resetNode := (resetNode st)(u \<mapsto> p, u + 1 \<mapsto> p)\<rparr>"
  let ?rs = "(p, u, u + 1) # rs"
  note F = filedD [OF f]
  have r: "reset_super p (rs, st) = ((u, u + 1), ?rs, ?st)" using None by (simp add: reset_super_def Let_def u_def)
  have old: "v < u" "w < u" "v < w" if "(q, v, w) \<in> set rs" for q v w
    using F(2) [OF that] by (auto simp: slot_ok_def u_def)
  have k: "kind_super k ua < u" if "(q, ua) \<in> set rs" for q ua k
    using old that by (cases ua) (auto simp: kind_super_def)
  have same: "supers (r_graph ?st) (kind_super k ua) = supers ?g (kind_super k ua)" if "(q, ua) \<in> set rs" for q ua k
    using k [OF that, of k] by simp
  have "frame st0 ?st" using F(1) by (auto simp: frame_def Let_def u_def)
  moreover have "\<forall>e \<in> set ?rs. slot_ok st0 ?st e"
    using F(2) p frameD(2) [OF F(1)] by (fastforce simp: slot_ok_def u_def)
  moreover have "distinct (map fst ?rs)" using F(3) None by (simp add: map_of_eq_None_iff)
  moreover have "distinct (concat (map (\<lambda>(p, u, a). [u, a]) ?rs))" using F(4) old by fastforce
  moreover have "freeNode st0 \<le> n \<and> n < freeNode ?st
          \<and> (\<exists>reg \<in> regs. \<exists>t. reset_copy (nodes (r_graph ?st)) n reg q t \<and> nreset (nodes (r_graph ?st) reg) = k)"
    if "(q, ua) \<in> set ?rs" "k = UINTRESET \<or> k = ASYRESET" "n \<in> set (smember (supers (r_graph ?st) (kind_super k ua)))" for q ua k n
  proof (cases "(q, ua) \<in> set rs")
    case True
    then show ?thesis using F(5) [OF True that(2)] that(3) same [OF True] by simp
  next
    case False
    then have "ua = (u, u + 1)" using that(1) by simp
    then show ?thesis using that(3) by (simp add: kind_super_def new_super_def split: if_splits)
  qed
  moreover have "\<exists>q ua t n. (q, ua) \<in> set ?rs
          \<and> n \<in> set (smember (supers (r_graph ?st) (kind_super (nreset (nodes (r_graph ?st) reg)) ua)))
          \<and> reset_copy (nodes (r_graph ?st)) n reg q t" if "reg \<in> regs" for reg
  proof -
    obtain q ua t n where "(q, ua) \<in> set rs" "n \<in> set (smember (supers ?g (kind_super (nreset (nodes ?g reg)) ua)))"
      "reset_copy (nodes ?g) n reg q t" using F(6) [OF \<open>reg \<in> regs\<close>] by blast
    then show ?thesis using same by (intro exI [of _ q] exI [of _ ua] exI [of _ t] exI [of _ n]) simp
  qed
  ultimately have "filed st0 ?st ?rs regs" using F(7) unfolding filed_def by blast
  then show ?thesis using r by simp
qed

lemma add_reset_effect:
  assumes "freeNode st \<notin> set (smember (supers (r_graph st) s))"
  shows "add_reset s reg nm e st =
    Some (st\<lparr>r_graph := (r_graph st)\<lparr>
        nodes := (nodes (r_graph st))(freeNode st := (dup_node (nodes (r_graph st) reg) NODE_REG_RESET nm)
           \<lparr>regNext := Some reg, assignTree := [\<lparr>root = e, lvalue = new_leaf (freeNode st)\<rparr>], super := Some s\<rparr>),
        supers := (supers (r_graph st))(s := (supers (r_graph st) s)\<lparr>smember := smember (supers (r_graph st) s) @ [freeNode st]\<rparr>)\<rparr>,
      freeNode := freeNode st + 1\<rparr>)"
  using assms by (simp add: add_reset_def add_member_def Let_def)

lemma add_reset_filed:
  assumes f: "filed st0 st rs regs" and e: "(p, ua) \<in> set rs" and reg: "reg < freeNode st0" "reset_of (nodes (r_graph st)) reg p t"
  shows "\<exists>st'. add_reset (kind_super (nreset (nodes (r_graph st) reg)) ua) reg nm (root t) st = Some st' \<and> filed st0 st' rs (insert reg regs)"
proof -
  define k where "k = nreset (nodes (r_graph st) reg)"
  define s where "s = kind_super k ua"
  define g where "g = r_graph st"
  define n where "n = freeNode st"
  define nd where "nd = (dup_node (nodes g reg) NODE_REG_RESET nm)\<lparr>regNext := Some reg,
      assignTree := [\<lparr>root = root t, lvalue = new_leaf n\<rparr>], super := Some s\<rparr>"
  define st' where "st' = st\<lparr>r_graph := g\<lparr>nodes := (nodes g)(n := nd),
      supers := (supers g)(s := (supers g s)\<lparr>smember := smember (supers g s) @ [n]\<rparr>)\<rparr>, freeNode := n + 1\<rparr>"
  note F = filedD [OF f]
  note R = frameD [OF F(1)]
  have k: "k = UINTRESET \<or> k = ASYRESET" using reg(2) by (simp add: reset_of_def k_def)
  have s: "freeSuper st0 \<le> s" using F(2) [OF e] by (cases ua) (auto simp: slot_ok_def s_def kind_super_def)
  have "n \<notin> set (smember (supers g s))" using F(5) [OF e k] by (fastforce simp: n_def s_def g_def)
  then have r: "add_reset s reg nm (root t) st = Some st'"
    using add_reset_effect by (simp add: st'_def nd_def n_def g_def)
  have h: "nodes (r_graph st') = (nodes g)(n := nd)" "freeNode st' = n + 1" "freeSuper st' = freeSuper st"
    "resetNode st' = resetNode st" "allReset st' = allReset st"
    "supers (r_graph st') x = (if x = s then (supers g s)\<lparr>smember := smember (supers g s) @ [n]\<rparr> else supers g x)" for x
    by (simp_all add: st'_def)
  have nn: "freeNode st0 \<le> n" using R(1) by (simp add: n_def)
  have fr: "frame st0 st'"
    using F(1) nn s by (auto simp: frame_def Let_def h nd_def dup_node_def new_node_def n_def g_def st'_def)
  have small: "nodes (r_graph st') m = nodes g m" if "m < freeNode st0" for m
    using that nn by (simp add: h(1))
  have copy: "reset_copy (nodes (r_graph st')) m q v w" if c: "reset_copy (nodes g) m q v w" and m: "m < n" "q < freeNode st0" for m q v w
    using c m small [of q] by (simp add: reset_copy_def reset_of_def h(1))
  have new: "reset_copy (nodes (r_graph st')) n reg p t"
    using reg small [OF reg(1)] by (simp add: reset_copy_def reset_of_def h(1) nd_def dup_node_def new_node_def g_def)
  have old: "v < freeSuper st" if "(q, v, w) \<in> set rs" for q v w using F(2) [OF that] by (simp add: slot_ok_def)
  have "\<forall>e \<in> set rs. slot_ok st0 st' e"
    using F(2) by (auto simp: slot_ok_def h g_def split: prod.splits)
  moreover have "freeNode st0 \<le> m \<and> m < freeNode st'
     \<and> (\<exists>reg \<in> insert reg regs. \<exists>t. reset_copy (nodes (r_graph st')) m reg q t \<and> nreset (nodes (r_graph st') reg) = l)"
    if q: "(q, ub) \<in> set rs" "l = UINTRESET \<or> l = ASYRESET" "m \<in> set (smember (supers (r_graph st') (kind_super l ub)))" for q ub l m
  proof (cases "m \<in> set (smember (supers g (kind_super l ub)))")
    case True
    then obtain q' t' where q': "freeNode st0 \<le> m" "m < n" "q' \<in> regs" "reset_copy (nodes g) m q' q t'" "nreset (nodes g q') = l"
      using F(5) [OF q(1,2), of m] unfolding g_def n_def by blast
    then show ?thesis using copy [OF q'(4,2) F(7) [OF q'(3)]] small [OF F(7) [OF q'(3)]] by (auto simp: h(2))
  next
    case False
    then have "kind_super l ub = s" "m = n" using q(3) by (auto simp: h(6) split: if_splits)
    moreover have "l = k \<and> q = p \<and> ub = ua"
      using reset_slots [OF F(4) q(1) e q(2) k] calculation(1) by (simp add: s_def)
    ultimately show ?thesis using new nn small [OF reg(1)] by (auto simp: h(2) k_def g_def)
  qed
  moreover have "\<exists>q ub t m. (q, ub) \<in> set rs \<and> m \<in> set (smember (supers (r_graph st') (kind_super (nreset (nodes (r_graph st') reg')) ub)))
          \<and> reset_copy (nodes (r_graph st')) m reg' q t" if reg': "reg' \<in> insert reg regs" for reg'
  proof (cases "reg' = reg")
    case True
    then show ?thesis using e new small [OF reg(1)]
      by (intro exI [of _ p] exI [of _ ua] exI [of _ t] exI [of _ n]) (auto simp: h(6) s_def k_def g_def)
  next
    case False
    then have r': "reg' \<in> regs" using reg' by simp
    obtain q ub t m where m: "(q, ub) \<in> set rs" "m \<in> set (smember (supers g (kind_super (nreset (nodes g reg')) ub)))"
      "reset_copy (nodes g) m reg' q t" using F(6) [OF r'] unfolding g_def by blast
    have kr: "nreset (nodes g reg') = UINTRESET \<or> nreset (nodes g reg') = ASYRESET"
      using m(3) by (simp add: reset_copy_def reset_of_def)
    have "m < n" using F(5) [OF m(1) kr] m(2) by (simp add: g_def n_def)
    from copy [OF m(3) this F(7) [OF r']] show ?thesis using m(1,2) small [OF F(7) [OF r']]
      by (intro exI [of _ q] exI [of _ ub] exI [of _ t] exI [of _ m]) (auto simp: h(6))
  qed
  moreover have "\<forall>reg' \<in> insert reg regs. reg' < freeNode st0" using F(7) reg(1) by auto
  ultimately have "filed st0 st' rs (insert reg regs)" using fr F(3,4) unfolding filed_def by blast
  then show ?thesis using r by (simp add: s_def k_def)
qed

lemma merge_reset_filed:
  assumes f: "filed st0 st rs regs" and rdy: "resets_ready st0" and reg: "reg \<in> set (regsrc (r_graph st0))"
  shows "\<exists>rs' st' regs'. merge_reset reg (rs, st) = Some (rs', st') \<and> filed st0 st' rs' regs'
    \<and> regs' = (if nreset (nodes (r_graph st0) reg) = UINTRESET \<or> nreset (nodes (r_graph st0) reg) = ASYRESET then insert reg regs else regs)"
proof (cases "nreset (nodes (r_graph st0) reg) = UINTRESET \<or> nreset (nodes (r_graph st0) reg) = ASYRESET")
  case True
  let ?h0 = "nodes (r_graph st0)"
  note F = filedD(1) [OF f]
  obtain d t p s where r: "reg < freeNode st0" "d < freeNode st0" "getDst ?h0 reg = Some d" "reset_of ?h0 reg p t"
    "p < freeNode st0" "super (?h0 p) = Some s" "s < freeSuper st0"
    using rdy reg True unfolding resets_ready_def Let_def by blast
  have hr: "nodes (r_graph st) reg = ?h0 reg" using frameD(4) [OF F r(1)] .
  obtain ua rs1 st1 where st1: "reset_super p (rs, st) = (ua, rs1, st1)" "filed st0 st1 rs1 regs" "(p, ua) \<in> set rs1"
    "nodes (r_graph st1) = nodes (r_graph st)"
    using reset_super_filed [OF f r(5-7)] by blast
  have at: "nodes (r_graph st') reg = ?h0 reg" "nodes (r_graph st') d = ?h0 d" "getDst (nodes (r_graph st')) reg = Some d"
    "reset_of (nodes (r_graph st')) reg p t" if "frame st0 st'" for st'
    using frameD(4) [OF that] r(1-4) by (auto simp: getDst_def reset_of_def split: if_splits)
  note a1 = at [OF filedD(1) [OF st1(2)]]
  define sl where "sl = kind_super (nreset (?h0 reg)) ua"
  obtain st2 where st2: "add_reset sl reg (name (?h0 reg)) (root t) st1 = Some st2" "filed st0 st2 rs1 (insert reg regs)"
    using add_reset_filed [OF st1(2,3) r(1) a1(4)] by (auto simp: a1(1) sl_def)
  note a2 = at [OF filedD(1) [OF st2(2)]]
  have "\<exists>st3. (if status (?h0 d) = VALID_NODE then add_reset sl reg (name (?h0 d)) (root t) st2 else Some st2) = Some st3
      \<and> filed st0 st3 rs1 (insert reg regs)"
    using add_reset_filed [OF st2(2) st1(3) r(1) a2(4), of "name (?h0 d)"] st2(2) by (auto simp: a2(1) sl_def)
  then obtain st3 where st3: "(if status (?h0 d) = VALID_NODE then add_reset sl reg (name (?h0 d)) (root t) st2 else Some st2) = Some st3"
    "filed st0 st3 rs1 (insert reg regs)" by blast
  obtain u a where ua: "ua = (u, a)" by fastforce
  have sl: "(if nreset (?h0 reg) = ASYRESET then a else u) = sl" by (simp add: sl_def kind_super_def ua)
  have "merge_reset reg (rs, st) = Some (rs1, st3)"
    using True r(4) st1(1) st2(1) st3(1) a2 unfolding merge_reset_def Let_def ua
    by (cases "status (?h0 d) = VALID_NODE") (auto simp: hr reset_of_def sl simp del: if_split)
  then show ?thesis using st3(2) True by auto
next
  case False
  have "reg < freeNode st0" using rdy reg by (simp add: resets_ready_def Let_def)
  then have "merge_reset reg (rs, st) = Some (rs, st)"
    using False frameD(4) [OF filedD(1) [OF f]] by (simp add: merge_reset_def Let_def)
  then show ?thesis using f False by auto
qed

definition with_reset :: "resets \<Rightarrow> nodeid list \<Rightarrow> nodeid set" where
  "with_reset st regs = {reg \<in> set regs. nreset (nodes (r_graph st) reg) = UINTRESET \<or> nreset (nodes (r_graph st) reg) = ASYRESET}"

lemma fold_merge_reset_filed:
  assumes "resets_ready st0"
  shows "filed st0 st rs R \<Longrightarrow> set regs \<subseteq> set (regsrc (r_graph st0)) \<Longrightarrow>
    \<exists>rs' st'. fold_abort merge_reset regs (rs, st) = Some (rs', st') \<and> filed st0 st' rs' (R \<union> with_reset st0 regs)"
proof (induction regs arbitrary: rs st R)
  case Nil
  then show ?case by (simp add: with_reset_def)
next
  case (Cons reg regs)
  obtain rs1 st1 where 1: "merge_reset reg (rs, st) = Some (rs1, st1)" "filed st0 st1 rs1 (R \<union> with_reset st0 [reg])"
  proof -
    have "R \<union> with_reset st0 [reg] = (if nreset (nodes (r_graph st0) reg) = UINTRESET \<or> nreset (nodes (r_graph st0) reg) = ASYRESET
        then insert reg R else R)" by (auto simp: with_reset_def)
    then show ?thesis using that merge_reset_filed [OF Cons.prems(1) assms, of reg] Cons.prems(2) by auto
  qed
  obtain rs' st' where 2: "fold_abort merge_reset regs (rs1, st1) = Some (rs', st')"
    "filed st0 st' rs' (R \<union> with_reset st0 [reg] \<union> with_reset st0 regs)"
    using Cons.IH [OF 1(2)] Cons.prems(2) by auto
  moreover have "R \<union> with_reset st0 [reg] \<union> with_reset st0 regs = R \<union> with_reset st0 (reg # regs)" by (auto simp: with_reset_def)
  ultimately show ?case using 1(1) by auto
qed

section \<open>The second loop\<close>

definition slots :: "resets \<Rightarrow> nodeid \<times> superid \<times> superid \<Rightarrow> superid list" where
  "slots st e = (case e of (p, u, a) \<Rightarrow> filter (\<lambda>s. smember (supers (r_graph st) s) \<noteq> []) [u, a])"

definition made_async :: "supernode \<Rightarrow> supernode \<Rightarrow> bool" where
  "made_async s s' \<longleftrightarrow> s' = s \<or> superType s = SUPER_VALID \<and> s' = s\<lparr>superType := SUPER_ASYNC_RESET\<rparr>"

definition published :: "resets \<Rightarrow> resets \<Rightarrow> resets \<Rightarrow> reset_supers \<Rightarrow> bool" where
  "published st0 st1 st es \<longleftrightarrow>
     (\<forall>n. \<exists>v. nodes (r_graph st) n = (nodes (r_graph st1) n)\<lparr>asReset := v\<rparr>)
     \<and> (\<forall>x. made_async (supers (r_graph st1) x) (supers (r_graph st) x))
     \<and> (r_graph st)\<lparr>nodes := nodes (r_graph st1), supers := supers (r_graph st1)\<rparr> = r_graph st1
     \<and> freeNode st = freeNode st1 \<and> freeSuper st = freeSuper st1
     \<and> allReset st = allReset st1 @ concat (map (slots st1) es)
     \<and> (\<forall>x \<ge> freeSuper st0. resetNode st x = resetNode st1 x)
     \<and> (\<forall>p u a. (p, u, a) \<in> set es \<longrightarrow>
          (smember (supers (r_graph st1) u) \<noteq> [] \<longrightarrow> isUIntReset (nodes (r_graph st) p))
          \<and> (smember (supers (r_graph st1) a) \<noteq> [] \<longrightarrow> isAsyncReset (nodes (r_graph st) p)))"

lemma set_reset_marks:
  "isUIntReset (setUIntReset n)" "isAsyncReset (setAsyncReset n)"
  "isUIntReset n \<Longrightarrow> isUIntReset (setAsyncReset n)" "isAsyncReset n \<Longrightarrow> isAsyncReset (setUIntReset n)"
  "isUIntReset n \<Longrightarrow> isUIntReset (setUIntReset n)" "isAsyncReset n \<Longrightarrow> isAsyncReset (setAsyncReset n)"
  "\<exists>v. setUIntReset n = n\<lparr>asReset := v\<rparr>" "\<exists>v. setAsyncReset n = n\<lparr>asReset := v\<rparr>"
  by (auto simp: isUIntReset_def isAsyncReset_def setUIntReset_def setAsyncReset_def)

lemma made_async_fields:
  "made_async s s' \<Longrightarrow> smember s' = smember s \<and> sorder s' = sorder s \<and> sprev s' = sprev s \<and> snext s' = snext s
     \<and> sdepPrev s' = sdepPrev s \<and> sdepNext s' = sdepNext s"
  by (auto simp: made_async_def)

lemma publish_reset_published:
  assumes i: "published st0 st1 st es" and f: "frame st0 st1" and e: "slot_ok st0 st1 (p, u, a)"
  shows "\<exists>st'. publish_reset (p, u, a) st = Some st' \<and> published st0 st1 st' (es @ [(p, u, a)])"
proof -
  define g where "g = r_graph st"
  have I: "\<And>n. \<exists>v. nodes g n = (nodes (r_graph st1) n)\<lparr>asReset := v\<rparr>"
    "\<And>x. made_async (supers (r_graph st1) x) (supers g x)"
    "g\<lparr>nodes := nodes (r_graph st1), supers := supers (r_graph st1)\<rparr> = r_graph st1"
    "freeNode st = freeNode st1" "freeSuper st = freeSuper st1"
    "allReset st = allReset st1 @ concat (map (slots st1) es)"
    "\<And>x. x \<ge> freeSuper st0 \<Longrightarrow> resetNode st x = resetNode st1 x"
    "\<And>p u a. (p, u, a) \<in> set es \<Longrightarrow> (smember (supers (r_graph st1) u) \<noteq> [] \<longrightarrow> isUIntReset (nodes g p))
          \<and> (smember (supers (r_graph st1) a) \<noteq> [] \<longrightarrow> isAsyncReset (nodes g p))"
    using i unfolding published_def g_def by blast+
  have m: "smember (supers g x) = smember (supers (r_graph st1) x)" for x using made_async_fields [OF I(2)] by blast
  obtain s where s: "super (nodes (r_graph st0) p) = Some s" "s < freeSuper st0" and pn: "p < freeNode st0"
    using e by (auto simp: slot_ok_def)
  have sp: "super (nodes g p) = Some s" using I(1) [of p] s(1) frameD(4) [OF f pn] by auto
  let ?U = "smember (supers (r_graph st1) u) \<noteq> []" and ?A = "smember (supers (r_graph st1) a) \<noteq> []"
  define h1 where "h1 = (if ?U then (nodes g)(p := setUIntReset (nodes g p)) else nodes g)"
  define h2 where "h2 = (if ?A then h1(p := setAsyncReset (h1 p)) else h1)"
  define S2 where "S2 = (if ?A \<and> superType (supers g s) = SUPER_VALID
      then (supers g)(s := (supers g s)\<lparr>superType := SUPER_ASYNC_RESET\<rparr>) else supers g)"
  define rn where "rn = (if ?A \<and> superType (supers g s) = SUPER_VALID then (resetNode st)(s := resetNode st a) else resetNode st)"
  define st' where "st' = st\<lparr>r_graph := g\<lparr>nodes := h2, supers := S2\<rparr>, allReset := allReset st @ slots st1 (p, u, a), resetNode := rn\<rparr>"
  have s1: "super (h1 p) = Some s" using sp set_reset_marks(7) [of "nodes g p"] by (auto simp: h1_def)
  have s2: "super (setAsyncReset (h1 p)) = Some s" using s1 set_reset_marks(8) [of "h1 p"] by auto
  have pu: "publish_uint p u st = st\<lparr>r_graph := g\<lparr>nodes := h1\<rparr>, allReset := allReset st @ (if ?U then [u] else [])\<rparr>"
    by (simp add: publish_uint_def Let_def g_def [symmetric] m h1_def)
  have "publish_reset (p, u, a) st = Some st'"
    unfolding publish_reset_def prod.case pu publish_async_def Let_def
    by (simp add: m s2 st'_def h2_def S2_def rn_def slots_def)
  moreover have "\<exists>v. h2 n = (nodes (r_graph st1) n)\<lparr>asReset := v\<rparr>" for n
  proof -
    have "\<exists>v. h1 n = (nodes (r_graph st1) n)\<lparr>asReset := v\<rparr>"
      using I(1) [of n] set_reset_marks(7) [of "nodes g p"] by (auto simp: h1_def)
    then show ?thesis using set_reset_marks(8) [of "h1 p"] by (auto simp: h2_def)
  qed
  moreover have "made_async (supers (r_graph st1) x) (S2 x)" for x using I(2) [of x] by (auto simp: S2_def made_async_def)
  moreover have "rn x = resetNode st1 x" if "x \<ge> freeSuper st0" for x using I(7) [OF that] s(2) that by (auto simp: rn_def)
  moreover have "(smember (supers (r_graph st1) v) \<noteq> [] \<longrightarrow> isUIntReset (h2 q)) \<and> (smember (supers (r_graph st1) w) \<noteq> [] \<longrightarrow> isAsyncReset (h2 q))"
    if "(q, v, w) \<in> set (es @ [(p, u, a)])" for q v w
  proof (cases "(q, v, w) \<in> set es")
    case True
    then show ?thesis using I(8) [OF True] set_reset_marks by (auto simp: h2_def h1_def)
  next
    case False
    then have "q = p" "v = u" "w = a" using that by auto
    then show ?thesis using set_reset_marks by (auto simp: h2_def h1_def)
  qed
  ultimately show ?thesis using I(3-6) by (intro exI [of _ st']) (auto simp: published_def st'_def)
qed

lemma fold_publish:
  assumes "frame st0 st1"
  shows "published st0 st1 st es \<Longrightarrow> \<forall>e \<in> set es'. slot_ok st0 st1 e \<Longrightarrow>
    \<exists>st'. fold_abort publish_reset es' st = Some st' \<and> published st0 st1 st' (es @ es')"
proof (induction es' arbitrary: st es)
  case (Cons e es')
  obtain p u a where e: "e = (p, u, a)" by (cases e)
  obtain st2 where 2: "publish_reset e st = Some st2" "published st0 st1 st2 (es @ [e])"
    using publish_reset_published [OF Cons.prems(1) assms, of p u a] Cons.prems(2) e by auto
  from Cons.IH [OF 2(2)] show ?case using Cons.prems(2) 2(1) by auto
qed simp

section \<open>The pass\<close>

lemma filed_start:
  assumes "resets_ready st"
  shows "filed st st [] {}"
  using assms by (simp add: filed_def frame_def resets_ready_def Let_def new_node_def)

lemma mergeResetAll_split:
  assumes "resets_ready st"
  shows "\<exists>rs st1 es st'. mergeResetAll st = Some st' \<and> filed st st1 rs (with_reset st (regsrc (r_graph st)))
    \<and> set es = set rs \<and> published st st1 st' es"
proof -
  obtain rs st1 where 1: "fold_abort merge_reset (regsrc (r_graph st)) ([], st) = Some (rs, st1)"
    "filed st st1 rs (with_reset st (regsrc (r_graph st)))"
    using fold_merge_reset_filed [OF assms filed_start [OF assms], of "regsrc (r_graph st)"] by auto
  define es where "es = sort_key (\<lambda>e. name (nodes (r_graph st1) (fst e))) rs"
  have 0: "published st st1 st1 []"
  proof -
    have "\<exists>v. nd = nd\<lparr>asReset := v\<rparr>" for nd :: node by (rule exI [of _ "asReset nd"]) simp
    then show ?thesis by (simp add: published_def made_async_def)
  qed
  have es: "set es = set rs" by (simp add: es_def)
  have "\<forall>e \<in> set es. slot_ok st st1 e" using filedD(2) [OF 1(2)] es by simp
  then obtain st' where "fold_abort publish_reset es st1 = Some st'" "published st st1 st' es"
    using fold_publish [OF filedD(1) [OF 1(2)] 0] by auto
  then show ?thesis using 1 es by (intro exI [of _ rs] exI [of _ st1] exI [of _ es] exI [of _ st']) (simp add: mergeResetAll_def es_def)
qed

text \<open>What the rest of the partition sees: marks on the reset conditions and super nodes of another type.\<close>

definition resets_only :: "graph \<Rightarrow> graph \<Rightarrow> bool" where
  "resets_only g g' \<longleftrightarrow>
     sortedSuper g' = sortedSuper g \<and> (\<forall>s \<in> set (sortedSuper g). made_async (supers g s) (supers g' s))
     \<and> same_edges (nodes g) (nodes g')
     \<and> (\<forall>n \<in> set (all_members g). \<exists>v. nodes g' n = (nodes g n)\<lparr>asReset := v\<rparr>)"

lemma mergeResetAll_frame:
  assumes rdy: "resets_ready st" and 1: "filed st st1 rs R" and 2: "published st st1 st' es"
  shows "resets_only (r_graph st) (r_graph st')"
proof -
  let ?g = "r_graph st" and ?g' = "r_graph st'"
  note F = frameD [OF filedD(1) [OF 1]]
  have P: "\<And>n. \<exists>v. nodes ?g' n = (nodes (r_graph st1) n)\<lparr>asReset := v\<rparr>" "\<And>x. made_async (supers (r_graph st1) x) (supers ?g' x)"
    "?g'\<lparr>nodes := nodes (r_graph st1), supers := supers (r_graph st1)\<rparr> = r_graph st1"
    using 2 by (auto simp: published_def)
  have so: "sortedSuper ?g' = sortedSuper ?g" using arg_cong [OF P(3), of sortedSuper] F(6) by simp
  have small: "\<And>s. s \<in> set (sortedSuper ?g) \<Longrightarrow> s < freeSuper st" "\<And>n. n \<in> set (all_members ?g) \<Longrightarrow> n < freeNode st"
    using rdy by (auto simp: resets_ready_def Let_def)
  have blank: "prev (nodes ?g n) = {} \<and> node.next (nodes ?g n) = {} \<and> depPrev (nodes ?g n) = {} \<and> depNext (nodes ?g n) = {}"
    if "freeNode st \<le> n" for n
    using rdy that by (simp add: resets_ready_def Let_def)
  have new: "prev (nodes (r_graph st1) n) = {} \<and> node.next (nodes (r_graph st1) n) = {} \<and> depPrev (nodes (r_graph st1) n) = {}
      \<and> depNext (nodes (r_graph st1) n) = {}" if "freeNode st \<le> n" for n
    using filedD(1) [OF 1] that by (simp add: frame_def Let_def)
  have edge: "prev (nodes ?g' n) = prev (nodes ?g n) \<and> node.next (nodes ?g' n) = node.next (nodes ?g n)
      \<and> depPrev (nodes ?g' n) = depPrev (nodes ?g n) \<and> depNext (nodes ?g' n) = depNext (nodes ?g n)" for n
  proof -
    obtain v where "nodes ?g' n = (nodes (r_graph st1) n)\<lparr>asReset := v\<rparr>" using P(1) by blast
    then show ?thesis using F(4) [of n] new [of n] blank [of n] by (cases "n < freeNode st") simp_all
  qed
  have "same_edges (nodes ?g) (nodes ?g')" unfolding same_edges_def using edge by simp
  moreover have "made_async (supers ?g s) (supers ?g' s)" if "s \<in> set (sortedSuper ?g)" for s
    using P(2) [of s] F(5) [OF small(1) [OF that]] by simp
  moreover have "\<exists>v. nodes ?g' n = (nodes ?g n)\<lparr>asReset := v\<rparr>" if "n \<in> set (all_members ?g)" for n
    using P(1) [of n] F(4) [OF small(2) [OF that]] by simp
  ultimately show ?thesis using so by (simp add: resets_only_def)
qed

lemma resets_only_keeps:
  assumes r: "resets_only g g'" and sc: "scheduled g" and cm: "compact g"
  shows "keeps_schedule g g'" "compact g'" "all_members g' = all_members g"
proof -
  have so: "sortedSuper g' = sortedSuper g" and rt: "\<And>s. s \<in> set (sortedSuper g) \<Longrightarrow> made_async (supers g s) (supers g' s)"
    and ed: "same_edges (nodes g) (nodes g')" and nd: "\<And>n. n \<in> set (all_members g) \<Longrightarrow> \<exists>v. nodes g' n = (nodes g n)\<lparr>asReset := v\<rparr>"
    using r by (auto simp: resets_only_def)
  note f = made_async_fields [OF rt]
  show am: "all_members g' = all_members g" using f by (simp add: all_members_def so cong: map_cong)
  have ne: "\<not> emptied (supers g s)" if "s \<in> set (sortedSuper g)" for s using cm that by (auto simp: live_def)
  have "\<not> emptied (supers g' s)" if "s \<in> set (sortedSuper g)" for s
    using ne [OF that] rt [OF that] by (auto simp: made_async_def emptied_def)
  then show cm': "compact g'" by (auto simp: live_def so)
  have lv: "live g' = live g" using cm cm' so by simp
  have su: "super (nodes g' n) = super (nodes g n)" if "s \<in> live g" "n \<in> set (smember (supers g s))" for s n
    using nd [of n] that set_all_members by fastforce
  have dp: "depPrev (nodes g' n) = depPrev (nodes g n)" for n using ed by (simp add: same_edges_def)
  have fl: "\<And>s. s \<in> live g \<Longrightarrow> smember (supers g' s) = smember (supers g s) \<and> sorder (supers g' s) = sorder (supers g s)
      \<and> sprev (supers g' s) = sprev (supers g s) \<and> snext (supers g' s) = snext (supers g s)
      \<and> sdepPrev (supers g' s) = sdepPrev (supers g s) \<and> sdepNext (supers g' s) = sdepNext (supers g s)" using f cm by simp
  have C: "distinct (sortedSuper g)" "placed (nodes g) (supers g) (live g)" "covered (nodes g) (supers g) (live g)"
    "edges_ok (order_of g) (supers g) (live g)" using sc by (auto simp: scheduled_def consistent_def)
  have "placed (nodes g') (supers g') (live g)"
    using C(2) su fl by (simp add: placed_def in_dep_order_def dp)
  moreover have "covered (nodes g') (supers g') (live g)" using C(3) fl by (simp add: covered_def dp)
  moreover have "edges_ok (order_of g') (supers g') (live g)"
    unfolding edges_ok_def
  proof (intro conjI ballI)
    fix s assume s: "s \<in> live g"
    note D = edges_okD [OF C(4) s]
    show "sdepPrev (supers g' s) \<subseteq> live g" "sdepNext (supers g' s) \<subseteq> live g" "sprev (supers g' s) \<subseteq> sdepPrev (supers g' s)"
      "snext (supers g' s) \<subseteq> sdepNext (supers g' s)" using fl [OF s] D by auto
    show "(p \<in> sdepPrev (supers g' s)) = (s \<in> sdepNext (supers g' p))" "(p \<in> sprev (supers g' s)) = (s \<in> snext (supers g' p))"
      if "p \<in> live g" for p using fl [OF s] fl [OF that] C(4) s that by (simp_all add: edges_ok_def)
    show "order_of g' p < order_of g' s" if p: "p \<in> sdepPrev (supers g' s)" for p
    proof -
      have "p \<in> sdepPrev (supers g s)" using p fl [OF s] by simp
      then show ?thesis using D(1,5) fl [OF s] fl [of p] by simp
    qed
  qed
  moreover have "sorted_supers g'"
  proof -
    have "sorted_wrt (\<lambda>s t. order_of g s < order_of g t) (sortedSuper g)" using sc by (simp add: scheduled_def sorted_supers_def)
    then show ?thesis unfolding sorted_supers_def so by (rule sorted_wrt_mono_rel [rotated]) (use fl cm in simp)
  qed
  ultimately show "keeps_schedule g g'"
    using C(1) ed am by (simp add: keeps_schedule_def scheduled_def consistent_def lv so)
qed

text \<open>
  The groups at the end: \<open>s\<close> holds the resets of kind \<open>k\<close> with the condition \<open>p\<close>.
\<close>

definition reset_group :: "resets \<Rightarrow> superid \<Rightarrow> ResetType \<Rightarrow> nodeid \<Rightarrow> bool" where
  "reset_group st s k p \<longleftrightarrow>
     s \<in> set (allReset st) \<and> resetNode st s = Some p
     \<and> (if k = ASYRESET
        then superType (supers (r_graph st) s) = SUPER_ASYNC_RESET \<and> isAsyncReset (nodes (r_graph st) p)
        else superType (supers (r_graph st) s) = SUPER_UINT_RESET \<and> isUIntReset (nodes (r_graph st) p))"

lemma published_slot:
  assumes f: "filed st st1 rs R" and es: "set es = set rs" and pb: "published st st1 st' es"
    and e: "(p, ua) \<in> set rs" and k: "k = UINTRESET \<or> k = ASYRESET"
    and m: "smember (supers (r_graph st1) (kind_super k ua)) \<noteq> []"
  shows "reset_group st' (kind_super k ua) k p" "supers (r_graph st') (kind_super k ua) = supers (r_graph st1) (kind_super k ua)"
proof -
  obtain u a where ua: "ua = (u, a)" by fastforce
  have E: "freeSuper st \<le> u" "u < a" "superType (supers (r_graph st1) u) = SUPER_UINT_RESET"
    "superType (supers (r_graph st1) a) = SUPER_ASYNC_RESET" "resetNode st1 u = Some p" "resetNode st1 a = Some p"
    using filedD(2) [OF f e] by (auto simp: slot_ok_def ua)
  have P: "\<And>x. made_async (supers (r_graph st1) x) (supers (r_graph st') x)"
    "allReset st' = allReset st1 @ concat (map (slots st1) es)" "\<And>x. x \<ge> freeSuper st \<Longrightarrow> resetNode st' x = resetNode st1 x"
    "(smember (supers (r_graph st1) u) \<noteq> [] \<longrightarrow> isUIntReset (nodes (r_graph st') p))
      \<and> (smember (supers (r_graph st1) a) \<noteq> [] \<longrightarrow> isAsyncReset (nodes (r_graph st') p))"
    using pb e es by (auto simp: published_def ua)
  have kt: "superType (supers (r_graph st1) (kind_super k ua)) \<noteq> SUPER_VALID" using E k by (auto simp: kind_super_def ua)
  then show eq: "supers (r_graph st') (kind_super k ua) = supers (r_graph st1) (kind_super k ua)"
    using P(1) [of "kind_super k ua"] by (simp add: made_async_def)
  have "kind_super k ua \<in> set (slots st1 (p, ua))" using m k by (auto simp: slots_def ua kind_super_def)
  then have "kind_super k ua \<in> set (allReset st')" using e es P(2) by auto
  then show "reset_group st' (kind_super k ua) k p"
    using k E P(3,4) m eq by (auto simp: reset_group_def kind_super_def ua)
qed

lemma reset_copy_marked:
  assumes "\<And>n. \<exists>v. h' n = (h n)\<lparr>asReset := v\<rparr>"
  shows "reset_copy h' n reg p t = reset_copy h n reg p t" "nreset (h' n) = nreset (h n)"
proof -
  have f: "nreset (h' n) = nreset (h n) \<and> resetTree (h' n) = resetTree (h n) \<and> ntype (h' n) = ntype (h n) \<and> regNext (h' n) = regNext (h n)
    \<and> assignTree (h' n) = assignTree (h n) \<and> nwidth (h' n) = nwidth (h n) \<and> nsign (h' n) = nsign (h n)" for n
    using assms [of n] by auto
  show "reset_copy h' n reg p t = reset_copy h n reg p t" "nreset (h' n) = nreset (h n)"
    using f by (simp_all add: reset_copy_def reset_of_def)
qed

lemma mergeResetAll_complete:
  assumes f: "filed st st1 rs (with_reset st (regsrc (r_graph st)))" and es: "set es = set rs" and pb: "published st st1 st' es"
    and reg: "reg \<in> with_reset st (regsrc (r_graph st))"
  shows "\<exists>s p t n. reset_group st' s (nreset (nodes (r_graph st) reg)) p
    \<and> n \<in> set (smember (supers (r_graph st') s)) \<and> reset_copy (nodes (r_graph st')) n reg p t"
proof -
  let ?k = "nreset (nodes (r_graph st) reg)"
  have hr: "nodes (r_graph st1) reg = nodes (r_graph st) reg" using frameD(4) [OF filedD(1) [OF f] filedD(7) [OF f reg]] .
  obtain p ua t n where n: "(p, ua) \<in> set rs" "n \<in> set (smember (supers (r_graph st1) (kind_super ?k ua)))"
    "reset_copy (nodes (r_graph st1)) n reg p t" using filedD(6) [OF f reg] by (auto simp: hr)
  have k: "?k = UINTRESET \<or> ?k = ASYRESET" using reg by (auto simp: with_reset_def)
  have "smember (supers (r_graph st1) (kind_super ?k ua)) \<noteq> []" using n(2) by (metis list.set(1) empty_iff)
  note s = published_slot [OF f es pb n(1) k this]
  have "\<And>n. \<exists>v. nodes (r_graph st') n = (nodes (r_graph st1) n)\<lparr>asReset := v\<rparr>" using pb by (simp add: published_def)
  then have "reset_copy (nodes (r_graph st')) n reg p t" using reset_copy_marked(1) n(3) by blast
  then show ?thesis using s n(2)
    by (intro exI [of _ "kind_super ?k ua"] exI [of _ p] exI [of _ t] exI [of _ n]) simp
qed

lemma mergeResetAll_sound:
  assumes f: "filed st st1 rs (with_reset st (regsrc (r_graph st)))" and es: "set es = set rs" and pb: "published st st1 st' es"
    and s: "s \<in> set (allReset st')" "s \<notin> set (allReset st)"
  shows "\<exists>k p. reset_group st' s k p \<and> smember (supers (r_graph st') s) \<noteq> []
    \<and> (\<forall>n \<in> set (smember (supers (r_graph st') s)). \<exists>reg \<in> with_reset st (regsrc (r_graph st)). \<exists>t.
         reset_copy (nodes (r_graph st')) n reg p t \<and> nreset (nodes (r_graph st') reg) = k)"
proof -
  have P: "allReset st' = allReset st1 @ concat (map (slots st1) es)"
    "\<And>n. \<exists>v. nodes (r_graph st') n = (nodes (r_graph st1) n)\<lparr>asReset := v\<rparr>" using pb by (auto simp: published_def)
  have "s \<in> set (concat (map (slots st1) es))" using s P(1) frameD(3) [OF filedD(1) [OF f]] by simp
  then obtain p ua where e: "(p, ua) \<in> set rs" "s \<in> set (slots st1 (p, ua))" using es by auto
  obtain u a where ua: "ua = (u, a)" by fastforce
  have m: "smember (supers (r_graph st1) s) \<noteq> []" "s = kind_super UINTRESET ua \<or> s = kind_super ASYRESET ua"
    using e(2) by (auto simp: slots_def kind_super_def ua split: if_splits)
  obtain k where k: "k = UINTRESET \<or> k = ASYRESET" "s = kind_super k ua" "smember (supers (r_graph st1) s) \<noteq> []"
    using m by blast
  note sl = published_slot [OF f es pb e(1) k(1)]
  note mk = reset_copy_marked [of "nodes (r_graph st')" "nodes (r_graph st1)", OF P(2)]
  have "\<exists>reg \<in> with_reset st (regsrc (r_graph st)). \<exists>t. reset_copy (nodes (r_graph st')) n reg p t \<and> nreset (nodes (r_graph st') reg) = k"
    if "n \<in> set (smember (supers (r_graph st1) s))" for n
    using filedD(5) [OF f e(1) k(1), of n] that unfolding mk k(2) by blast
  then show ?thesis using sl k(2,3) by (intro exI [of _ k] exI [of _ p]) auto
qed
text \<open>
  C19: every reset is filed where it belongs.  \<^verbatim>\<open>mergeResetAll\<close> ends without a failed check when
  every reset condition reads one node.  For each register with a synchronous or an
  asynchronous reset there is then a super node of that kind in \<^verbatim>\<open>allReset\<close>, under the node of
  its condition (which is marked as such a reset), that holds a copy of the register
  assigning the reset tree; and every super node added to \<^verbatim>\<open>allReset\<close> holds some nodes, all of
  them copies of registers with its kind and its condition.
\<close>

theorem mergeResetAll_files:
  assumes "resets_ready st"
  shows "\<exists>st'. mergeResetAll st = Some st'
    \<and> (\<forall>reg \<in> with_reset st (regsrc (r_graph st)). \<exists>s p t n. reset_group st' s (nreset (nodes (r_graph st) reg)) p
         \<and> n \<in> set (smember (supers (r_graph st') s)) \<and> reset_copy (nodes (r_graph st')) n reg p t)
    \<and> (\<forall>s \<in> set (allReset st') - set (allReset st). \<exists>k p. reset_group st' s k p \<and> smember (supers (r_graph st') s) \<noteq> []
         \<and> (\<forall>n \<in> set (smember (supers (r_graph st') s)). \<exists>reg \<in> with_reset st (regsrc (r_graph st)). \<exists>t.
              reset_copy (nodes (r_graph st')) n reg p t \<and> nreset (nodes (r_graph st') reg) = k))"
proof -
  obtain rs st1 es st' where st: "mergeResetAll st = Some st'" "filed st st1 rs (with_reset st (regsrc (r_graph st)))"
    "set es = set rs" "published st st1 st' es" using mergeResetAll_split [OF assms] by blast
  then show ?thesis
    using mergeResetAll_complete [OF st(2-4)] mergeResetAll_sound [OF st(2-4)] by (intro exI [of _ st']) simp
qed

definition demo_resets :: resets where
  "demo_resets = \<lparr>r_graph = demo_sched, freeNode = 4, freeSuper = 4, allReset = [], resetNode = Map.empty\<rparr>"

lemma demo_reset_of: "reset_of (nodes demo_sched) 2 0 demo_reset"
  by (simp add: reset_of_def demo_sched_def demo_reset_def reset_cond_def getENodeRelyNodes_def new_leaf_def new_eattr_def)

lemma demo_resets_ready: "resets_ready demo_resets"
proof -
  have g: "regsrc demo_sched = [2]" "getDst (nodes demo_sched) 2 = Some 3" "super (nodes demo_sched 0) = Some 0"
    "set (sortedSuper demo_sched) = {0, 1, 2, 3}" "\<And>n. n \<ge> 4 \<Longrightarrow> prev (nodes demo_sched n) = {} \<and> node.next (nodes demo_sched n) = {}
       \<and> depPrev (nodes demo_sched n) = {} \<and> depNext (nodes demo_sched n) = {}"
    by (simp_all add: demo_sched_def getDst_def new_node_def)
  have "\<exists>t p s. reset_of (nodes demo_sched) 2 p t \<and> p < 4 \<and> super (nodes demo_sched p) = Some s \<and> s < 4"
    using demo_reset_of g(3) by (intro exI [of _ demo_reset] exI [of _ 0]) simp
  moreover have "\<exists>d < 4. getDst (nodes demo_sched) 2 = Some d" using g(2) by (intro exI [of _ 3]) simp
  ultimately show ?thesis unfolding resets_ready_def Let_def demo_resets_def using g(1,4,5) demo_members by simp
qed

theorem mergeResetAll_files_witness:
  "\<exists>st' s p t n. mergeResetAll demo_resets = Some st' \<and> reset_group st' s UINTRESET p
     \<and> n \<in> set (smember (supers (r_graph st') s)) \<and> reset_copy (nodes (r_graph st')) n 2 p t"
proof -
  have "2 \<in> with_reset demo_resets (regsrc (r_graph demo_resets))" "nreset (nodes (r_graph demo_resets) 2) = UINTRESET"
    by (simp_all add: with_reset_def demo_resets_def demo_sched_def)
  then show ?thesis using mergeResetAll_files [OF demo_resets_ready] by metis
qed

end
