(* ===== verification/Partition.thy ===== *)
theory Partition
  imports ResetMerge WhenMerge InitPartition
begin

section \<open>The partition of the graph\<close>

text \<open>
  \<^verbatim>\<open>graph::graphCoarsen\<close> and \<^verbatim>\<open>graph::graphPartition\<close> of \<^verbatim>\<open>src/graphPartition.cpp\<close> put the passes together.
  The recording and replaying of orders (\<^verbatim>\<open>seedOrder2.cpp\<close>), the dumps and the timers are left
  out.  Whatever the passes merge, the result is a schedule of the nodes it was given: every
  node once, after the nodes it depends on, in the super node it points to, with trees of
  the same values.
\<close>

definition graphCoarsen :: "bool \<Rightarrow> nat \<Rightarrow> nat \<Rightarrow> (superid \<Rightarrow> 64 word) \<Rightarrow> resets \<Rightarrow> resets abortable" where
  "graphCoarsen stableOrder mergeWhenSize when2muxBound addr st =
     do { st1 \<leftarrow> mergeResetAll st;
          g1 \<leftarrow> mergeWhenNodes stableOrder mergeWhenSize when2muxBound (r_graph st1);
          g2 \<leftarrow> resort stableOrder g1;
          g3 \<leftarrow> mergeIn1 (mergeOut1 g2);
          g4 \<leftarrow> mergeSublings addr g3;
          Some (st1\<lparr>r_graph := g4\<rparr>) }"

definition graphPartition :: "bool \<Rightarrow> nat \<Rightarrow> nat \<Rightarrow> nat \<Rightarrow> (superid \<Rightarrow> 64 word) \<Rightarrow> resets \<Rightarrow> resets abortable" where
  "graphPartition stableOrder mergeWhenSize when2muxBound maxSize addr st =
     do { st1 \<leftarrow> graphCoarsen stableOrder mergeWhenSize when2muxBound addr (st\<lparr>r_graph := orderAllNodes (r_graph st)\<rparr>);
          g2 \<leftarrow> resort stableOrder (r_graph st1);
          g3 \<leftarrow> graphInitPartition maxSize g2;
          Some (st1\<lparr>r_graph := orderAllNodes g3\<rparr>) }"

section \<open>The trees of the nodes\<close>

definition trees_kept :: "graph \<Rightarrow> graph \<Rightarrow> bool" where
  "trees_kept g g' \<longleftrightarrow> (\<forall>n. assignTree (nodes g' n) = assignTree (nodes g n))"

lemma trees_kept_refl [simp]: "trees_kept g g"
  and trees_kept_trans: "trees_kept g g1 \<Longrightarrow> trees_kept g1 g2 \<Longrightarrow> trees_kept g g2"
  by (simp_all add: trees_kept_def)

lemma trees_kept_fold: "(\<And>x g. trees_kept g (f x g)) \<Longrightarrow> trees_kept g (fold f xs g)"
  by (induction xs arbitrary: g) (auto intro: trees_kept_trans)

lemma trees_kept_fold_abort:
  "(\<And>x g g'. f x g = Some g' \<Longrightarrow> trees_kept g g') \<Longrightarrow> fold_abort f xs g = Some g' \<Longrightarrow> trees_kept g g'"
proof (induction xs arbitrary: g)
  case (Cons x xs)
  then obtain g1 where g1: "f x g = Some g1" "fold_abort f xs g1 = Some g'" by (auto split: Option.bind_splits)
  show ?case by (rule trees_kept_trans [OF Cons.prems(1) [OF g1(1)] Cons.IH [OF Cons.prems(1) g1(2)]])
qed simp

lemma trees_kept_retarget [simp]: "trees_kept g (g\<lparr>nodes := retarget s t g, supers := S\<rparr>)"
  by (simp add: trees_kept_def retarget_def)

lemma trees_kept_reconnect: "reconnectSuper g = Some g' \<Longrightarrow> trees_kept g g'"
  by (auto simp: reconnectSuper_def trees_kept_def Let_def split: Option.bind_splits)

lemma trees_kept_empty [simp]: "trees_kept g (removeEmptySuper g)"
  by (simp add: trees_kept_def)

lemma trees_kept_order [simp]: "trees_kept g (orderAllNodes g)"
proof -
  have "assignTree (nodes (orderAllNodes g) n) = assignTree (nodes g n)" for n
    using arg_cong [OF conjunct1 [OF order_supers_static], of assignTree 0 1 "sortedSuper g" g n] by (simp add: orderAllNodes_def)
  then show ?thesis by (simp add: trees_kept_def)
qed

lemma trees_kept_sorted [simp]: "trees_kept g (g\<lparr>sortedSuper := L\<rparr>)"
  by (simp add: trees_kept_def)

lemma resort_ordered: "resort st g = Some g' \<Longrightarrow> \<exists>L. g' = orderAllNodes (g\<lparr>sortedSuper := L\<rparr>)"
  by (auto simp: resort_def resort_with_def split: if_splits Option.bind_splits)

lemma resort_trees: "resort st g = Some g' \<Longrightarrow> trees_kept g g'"
  using resort_ordered trees_kept_trans [OF trees_kept_sorted trees_kept_order] by blast

lemma mergeOut1_trees: "trees_kept g (mergeOut1 g)"
proof -
  have "trees_kept g (out1_step s g)" for s g
    by (auto simp: out1_step_def out1_merge_def Let_def split: list.split)
  then show ?thesis unfolding mergeOut1_def
    by (intro trees_kept_trans [OF trees_kept_fold trees_kept_empty])
qed

lemma mergeIn1_trees:
  assumes "mergeIn1 g = Some g'"
  shows "trees_kept g g'"
proof -
  have "in1_step s g = Some g' \<Longrightarrow> trees_kept g g'" for s g g'
    by (auto simp: in1_step_def in1_merge_def Let_def split: list.splits if_splits Option.bind_splits)
  then show ?thesis using assms trees_kept_fold_abort [of in1_step] trees_kept_trans [OF _ trees_kept_empty]
    by (auto simp: mergeIn1_def split: Option.bind_splits)
qed

lemma absorb_trees [simp]: "trees_kept g (absorb s t g)"
  by (simp add: absorb_def)

lemma mergeSublings_trees:
  assumes "mergeSublings addr g = Some g'"
  shows "trees_kept g g'"
proof -
  have step: "trees_kept (snd st) (snd (subling_step s st))" for s st
    by (cases st) (auto simp: subling_step_def split: option.split)
  have "trees_kept (snd st) (snd (fold subling_step ss st))" for ss st
    using step by (induction ss arbitrary: st) (simp, metis fold_simps(2) trees_kept_trans)
  then have "trees_kept g (merge_bucket ss g)" for ss g
    unfolding merge_bucket_def by (metis snd_conv)
  then have "trees_kept g (fold merge_bucket (sublings_buckets addr g) g)" by (rule trees_kept_fold)
  then show ?thesis using assms trees_kept_reconnect trees_kept_trans [OF _ trees_kept_empty]
    unfolding mergeSublings_def by (meson trees_kept_trans)
qed

lemma graphInitPartition_trees:
  assumes "graphInitPartition maxSize g = Some g'"
  shows "trees_kept g g'"
proof -
  have cut: "trees_kept (snd st) (snd st')" if "fold_abort (apply_cut L) cs st = Some st'" for L cs st st'
    using that
  proof (induction cs arbitrary: st)
    case (Cons c cs)
    then obtain st1 where 1: "apply_cut L c st = Some st1" "fold_abort (apply_cut L) cs st1 = Some st'"
      by (auto split: Option.bind_splits)
    have "trees_kept (snd st) (snd st1)" using 1(1) trees_kept_fold [of "\<lambda>i. absorb (L ! i) (L ! fst st)"]
      by (cases st) (auto simp: apply_cut_def split: Option.bind_splits)
    then show ?case using trees_kept_trans Cons.IH [OF 1(2)] by blast
  qed simp
  obtain cs st' where "fold_abort (apply_cut (sortedSuper g)) cs (0, g) = Some st'" "reconnectSuper (removeEmptySuper (snd st')) = Some g'"
    using assms by (auto simp: graphInitPartition_def Let_def split: Option.bind_splits prod.splits)
  then show ?thesis using cut [of "sortedSuper g" cs "(0, g)" st'] trees_kept_reconnect trees_kept_trans [OF _ trees_kept_empty]
    by (metis snd_conv trees_kept_trans)
qed

section \<open>What the partition relies on\<close>

lemma order_node:
  "\<exists>i k. nodes (orderAllNodes g) n = (nodes g n)\<lparr>orderInSuper := i, order := k\<rparr>"
proof -
  have "(nodes (orderAllNodes g) n)\<lparr>orderInSuper := 0, order := 0\<rparr> = (nodes g n)\<lparr>orderInSuper := 0, order := 0\<rparr>"
    using order_supers_static by (simp add: orderAllNodes_def)
  then show ?thesis
    by (cases "nodes (orderAllNodes g) n"; cases "nodes g n") simp
qed

lemma order_regsrc: "regsrc (orderAllNodes g) = regsrc g"
proof -
  have "regsrc (order_supers i k ss g) = regsrc g" for i k ss
    by (induction ss arbitrary: i k g) (simp_all split: prod.split)
  then show ?thesis by (simp add: orderAllNodes_def)
qed

text \<open>
  The graph before the pass: edges recomputed, super nodes sorted, the conditions of the
  merged \<^verbatim>\<open>when\<close> nodes and the resets well formed.
\<close>

definition partition_ready :: "resets \<Rightarrow> bool" where
  "partition_ready st \<longleftrightarrow>
     (let g = r_graph st in
      (\<exists>r. consistent r g) \<and> compact g \<and> deps_first (supers g) (sortedSuper g)
      \<and> node_edges_ok (nodes g) (set (all_members g)) \<and> conds_ready g \<and> mux_ready g \<and> resets_ready st)"

lemma conds_ready_mono:
  assumes c: "conds_ready g" and s: "set (sortedSuper g') \<subseteq> set (sortedSuper g)"
    and t: "\<And>s. s \<in> set (sortedSuper g') \<Longrightarrow> smember (supers g' s) = smember (supers g s)
       \<and> (superType (supers g' s) = SUPER_VALID \<longrightarrow> superType (supers g s) = SUPER_VALID)"
    and n: "\<And>s n. s \<in> set (sortedSuper g') \<Longrightarrow> n \<in> set (smember (supers g s)) \<Longrightarrow> isArray (nodes g' n) = isArray (nodes g n) \<and> assignTree (nodes g' n) = assignTree (nodes g n)"
  shows "conds_ready g'"
  unfolding conds_ready_def
proof
  fix s assume s': "s \<in> set (sortedSuper g')"
  have r: "super_cond g s \<noteq> None" using c s s' by (auto simp: conds_ready_def)
  have mc: "member_cond g' n = None \<longleftrightarrow> member_cond g n = None" if "n \<in> set (smember (supers g s))" for n
    using n [OF s' that] by (auto simp: member_cond_def Let_def split: list.splits option.splits)
  show "super_cond g' s \<noteq> None"
    using r t [OF s'] mc by (auto simp: super_cond_def split: if_splits list.splits Option.bind_splits)
qed

lemma order_ready:
  assumes "partition_ready st"
  defines "st0 \<equiv> st\<lparr>r_graph := orderAllNodes (r_graph st)\<rparr>"
  shows "scheduled (r_graph st0)" "compact (r_graph st0)" "node_edges_ok (nodes (r_graph st0)) (set (all_members (r_graph st0)))"
    "conds_ready (r_graph st0)" "mux_ready (r_graph st0)" "resets_ready st0" "keeps_schedule (r_graph st) (r_graph st0)"
proof -
  let ?g = "r_graph st" and ?o = "orderAllNodes (r_graph st)"
  obtain r where g: "consistent r ?g" "compact ?g" "deps_first (supers ?g) (sortedSuper ?g)" "node_edges_ok (nodes ?g) (set (all_members ?g))"
    "conds_ready ?g" "mux_ready ?g" "resets_ready st" using assms(1) unfolding partition_ready_def Let_def by blast
  have k: "keeps_schedule ?g ?o" "compact ?o" using orderAllNodes_scheduled [OF g(1-3)] by auto
  then show "scheduled (r_graph st0)" "compact (r_graph st0)" "keeps_schedule (r_graph st) (r_graph st0)"
    by (simp_all add: st0_def keeps_schedule_def)
  show "node_edges_ok (nodes (r_graph st0)) (set (all_members (r_graph st0)))" using keeps_edges_ok [OF k(1) g(4)] by (simp add: st0_def)
  have f: "isArray (nodes ?o n) = isArray (nodes ?g n)" "assignTree (nodes ?o n) = assignTree (nodes ?g n)"
    "nreset (nodes ?o n) = nreset (nodes ?g n)" "resetTree (nodes ?o n) = resetTree (nodes ?g n)" "super (nodes ?o n) = super (nodes ?g n)"
    "ntype (nodes ?o n) = ntype (nodes ?g n)" "regNext (nodes ?o n) = regNext (nodes ?g n)"
    "prev (nodes ?o n) = prev (nodes ?g n)" "node.next (nodes ?o n) = node.next (nodes ?g n)"
    "depPrev (nodes ?o n) = depPrev (nodes ?g n)" "depNext (nodes ?o n) = depNext (nodes ?g n)" for n
    using order_node [of "r_graph st" n] by (auto simp: isArray_def)
  show "conds_ready (r_graph st0)" unfolding st0_def
    using conds_ready_mono [OF g(5), of ?o] f by (simp add: orderAllNodes_fields)
  show "mux_ready (r_graph st0)" using g(6) f by (simp add: st0_def mux_ready_def orderAllNodes_same)
  have e: "getDst (nodes ?o) = getDst (nodes ?g)" "reset_of (nodes ?o) = reset_of (nodes ?g)"
    by (simp_all add: fun_eq_iff getDst_def reset_of_def f)
  show "resets_ready st0"
    using g(7) by (simp add: st0_def resets_ready_def Let_def order_regsrc orderAllNodes_fields(9) orderAllNodes_same e f)
qed

lemma resets_only_ready:
  assumes r: "resets_only g g'"
  shows "conds_ready g \<Longrightarrow> conds_ready g'" "mux_ready g \<Longrightarrow> mux_ready g'"
proof -
  have so: "sortedSuper g' = sortedSuper g" and rt: "\<And>s. s \<in> set (sortedSuper g) \<Longrightarrow> made_async (supers g s) (supers g' s)"
    and nd: "\<And>n. n \<in> set (all_members g) \<Longrightarrow> \<exists>v. nodes g' n = (nodes g n)\<lparr>asReset := v\<rparr>"
    using r by (auto simp: resets_only_def)
  have am: "n \<in> set (all_members g)" if "s \<in> set (sortedSuper g)" "n \<in> set (smember (supers g s))" for s n
    using that by (auto simp: all_members_def)
  have f: "isArray (nodes g' n) = isArray (nodes g n) \<and> assignTree (nodes g' n) = assignTree (nodes g n)" if "n \<in> set (all_members g)" for n
    using nd [OF that] by (auto simp: isArray_def)
  show "conds_ready g'" if "conds_ready g"
  proof (rule conds_ready_mono [OF that])
    fix s assume "s \<in> set (sortedSuper g')"
    then have s: "s \<in> set (sortedSuper g)" by (simp add: so)
    show "smember (supers g' s) = smember (supers g s) \<and> (superType (supers g' s) = SUPER_VALID \<longrightarrow> superType (supers g s) = SUPER_VALID)"
      using rt [OF s] by (auto simp: made_async_def)
    show "isArray (nodes g' n) = isArray (nodes g n) \<and> assignTree (nodes g' n) = assignTree (nodes g n)"
      if "n \<in> set (smember (supers g s))" for n using f [OF am [OF s that]] .
  qed (simp add: so)
  have "all_members g' = all_members g" using made_async_fields [OF rt] by (simp add: all_members_def so cong: map_cong)
  then show "mux_ready g'" if "mux_ready g" using that f by (simp add: mux_ready_def)
qed

section \<open>The edges after the coarsening\<close>

definition node_edges :: "graph \<Rightarrow> nat" where
  "node_edges g = (\<Sum>n \<in> set (all_members g). card (next (nodes g n)))"

lemma lifted_few:
  assumes c: "consistent r g" "compact g" and l: "lifted_edges g" and ne: "node_edges_ok (nodes g) (set (all_members g))"
  shows "out_edges g 0 (length (sortedSuper g)) \<le> int (node_edges g)"
proof -
  let ?M = "\<lambda>x. set (smember (supers g x))" and ?N = "\<lambda>n. next (nodes g n)"
  have p: "placed (nodes g) (supers g) (live g)" and d: "distinct (sortedSuper g)" using c by (auto simp: consistent_def)
  have fin: "finite (?N n)" if "x \<in> live g" "n \<in> ?M x" for x n
  proof -
    have "n \<in> set (all_members g)" using that set_all_members by auto
    then have "?N n \<subseteq> set (all_members g)" using ne unfolding node_edges_ok_def by blast
    then show ?thesis by (rule finite_subset) simp
  qed
  have one: "card (snext (supers g x)) \<le> (\<Sum>n \<in> ?M x. card (?N n))" if x: "x \<in> live g" for x
  proof -
    have "Some ` snext (supers g x) \<subseteq> (\<Union>n \<in> ?M x. (\<lambda>m. super (nodes g m)) ` ?N n)"
      using l x by (force simp: lifted_edges_def)
    then have "card (Some ` snext (supers g x)) \<le> card (\<Union>n \<in> ?M x. (\<lambda>m. super (nodes g m)) ` ?N n)"
      using fin [OF x] by (intro card_mono) auto
    also have "\<dots> \<le> (\<Sum>n \<in> ?M x. card ((\<lambda>m. super (nodes g m)) ` ?N n))" by (rule card_UN_le) simp
    also have "\<dots> \<le> (\<Sum>n \<in> ?M x. card (?N n))" using fin [OF x] by (intro sum_mono card_image_le)
    finally show ?thesis by (simp add: card_image)
  qed
  have b: "bij_betw ((!) (sortedSuper g)) {0..<length (sortedSuper g)} (live g)"
    using bij_betw_nth [OF d refl refl] c(2) by (simp add: atLeast0LessThan)
  have "out_edges g 0 (length (sortedSuper g)) = (\<Sum>x \<in> live g. int (card (snext (supers g x))))"
    unfolding out_edges_def by (rule sum.reindex_bij_betw [OF b])
  also have "\<dots> \<le> (\<Sum>x \<in> live g. \<Sum>n \<in> ?M x. int (card (?N n)))"
    using one by (intro sum_mono) (simp flip: of_nat_sum)
  also have "\<dots> = int (node_edges g)"
    unfolding node_edges_def set_all_members of_nat_sum
  proof (rule sum.UNION_disjoint [symmetric])
    show "\<forall>i \<in> live g. \<forall>j \<in> live g. i \<noteq> j \<longrightarrow> ?M i \<inter> ?M j = {}"
      using placedD [OF p] by (metis disjoint_iff option.inject)
  qed simp_all
  finally show ?thesis .
qed

lemma same_edges_number:
  "same_edges (nodes g) (nodes g') \<Longrightarrow> mset (all_members g') = mset (all_members g) \<Longrightarrow> node_edges g' = node_edges g"
  using mset_eq_setD [of "all_members g'" "all_members g"] by (simp add: node_edges_def same_edges_def)

lemma ordered_lifted:
  assumes "lifted_edges g" "set L = set (sortedSuper g)"
  shows "lifted_edges (orderAllNodes (g\<lparr>sortedSuper := L\<rparr>))"
proof -
  have l: "live (g\<lparr>sortedSuper := L\<rparr>) = live g" using assms(2) by (simp add: live_def)
  have "next (nodes (orderAllNodes g) n) = next (nodes g n)" for n g
    using orderAllNodes_fields(2) [of g] by (simp add: same_edges_def)
  then show ?thesis using assms(1) by (simp add: lifted_edges_def orderAllNodes_same l orderAllNodes_fields)
qed

section \<open>The whole pass\<close>

text \<open>The trees of \<open>M\<close> assign the same and have the same values.\<close>

definition same_assigns :: "nodeid set \<Rightarrow> heap \<Rightarrow> heap \<Rightarrow> bool" where
  "same_assigns M h h' \<longleftrightarrow>
     (\<forall>n \<in> M. list_all2 (\<lambda>t t'. lvalue t' = lvalue t \<and> (\<forall>E. eval E (root t') = eval E (root t))) (assignTree (h n)) (assignTree (h' n)))"

lemma coarsen_keeps:
  assumes g: "scheduled (r_graph st)" "compact (r_graph st)" and ne: "node_edges_ok (nodes (r_graph st)) (set (all_members (r_graph st)))"
    and rd: "conds_ready (r_graph st)" "mux_ready (r_graph st)" "resets_ready st"
  shows "\<exists>st'. graphCoarsen so mws w2m addr st = Some st' \<and> keeps_schedule (r_graph st) (r_graph st') \<and> compact (r_graph st')
    \<and> lifted_edges (r_graph st') \<and> same_assigns (set (all_members (r_graph st))) (nodes (r_graph st)) (nodes (r_graph st'))
    \<and> (\<exists>st1. mergeResetAll st = Some st1 \<and> st' = st1\<lparr>r_graph := r_graph st'\<rparr>)"
proof -
  let ?M = "set (all_members (r_graph st))"
  obtain rs st0 es st1 where st1: "mergeResetAll st = Some st1" "filed st st0 rs (with_reset st (regsrc (r_graph st)))" "published st st0 st1 es"
    using mergeResetAll_split [OF rd(3)] by blast
  define g1 where "g1 = r_graph st1"
  have ro: "resets_only (r_graph st) g1" using mergeResetAll_frame [OF rd(3) st1(2,3)] by (simp add: g1_def)
  note k1 = resets_only_keeps [OF ro g]
  have s1: "scheduled g1" using k1(1) by (simp add: keeps_schedule_def)
  obtain g2 where g2: "mergeWhenNodes so mws w2m g1 = Some g2" "merged_well g1 g2"
    using mergeWhenNodes_merges [OF s1 k1(2) keeps_edges_ok [OF k1(1) ne] resets_only_ready(1) [OF ro rd(1)] resets_only_ready(2) [OF ro rd(2)]] by blast
  obtain r where m: "consistent r g2" "compact g2" "mset (all_members g2) = mset (all_members g1)" "same_edges (nodes g1) (nodes g2)"
    and same: "\<And>n. list_all2 same_tree (assignTree (nodes g1 n)) (assignTree (nodes g2 n))"
    using g2(2) by (auto simp: merged_well_def)
  have tv: "list_all2 (\<lambda>t t'. lvalue t' = lvalue t \<and> (\<forall>E. eval E (root t') = eval E (root t))) (assignTree (nodes g1 n)) (assignTree (nodes g2 n))" for n
    using same [of n] by (rule list_all2_mono) (simp add: same_tree_def)
  obtain g3 where g3: "resort so g2 = Some g3" "keeps_schedule g2 g3" "compact g3" using resort_keeps [OF m(1,2)] by blast
  have k3: "keeps_schedule g1 g3" using g3(2) m(3,4) by (auto simp: keeps_schedule_def intro: same_edges_trans)
  have s3: "scheduled g3" using g3(2) by (simp add: keeps_schedule_def)
  note k4 = mergeOut1_keeps [OF s3 g3(3)]
  have s4: "scheduled (mergeOut1 g3)" using k4 by (simp add: keeps_schedule_def)
  obtain g5 where g5: "mergeIn1 (mergeOut1 g3) = Some g5" "keeps_schedule (mergeOut1 g3) g5" "compact g5"
    using mergeIn1_keeps [OF s4] k4 by blast
  have k5: "keeps_schedule (r_graph st) g5" using k1(1) k3 k4 g5(2) keeps_schedule_trans by blast
  have s5: "scheduled g5" using g5(2) by (simp add: keeps_schedule_def)
  obtain g6 where g6: "mergeSublings addr g5 = Some g6" "keeps_schedule g5 g6" "compact g6" "lifted_edges g6"
    using mergeSublings_keeps [OF s5 g5(3) keeps_edges_ok [OF k5 ne]] by blast
  have "graphCoarsen so mws w2m addr st = Some (st1\<lparr>r_graph := g6\<rparr>)"
    using st1(1) g2(1) g3(1) g5(1) g6(1) by (simp add: graphCoarsen_def g1_def)
  moreover have "trees_kept g2 g6"
    using resort_trees [OF g3(1)] mergeOut1_trees [of g3] mergeIn1_trees [OF g5(1)] mergeSublings_trees [OF g6(1)] trees_kept_trans by blast
  then have "same_assigns ?M (nodes (r_graph st)) (nodes g6)"
    unfolding same_assigns_def
  proof (intro ballI)
    fix n assume "n \<in> ?M"
    then have "assignTree (nodes g1 n) = assignTree (nodes (r_graph st) n)" using ro by (force simp: resets_only_def)
    then show "list_all2 (\<lambda>t t'. lvalue t' = lvalue t \<and> (\<forall>E. eval E (root t') = eval E (root t)))
        (assignTree (nodes (r_graph st) n)) (assignTree (nodes g6 n))"
      using tv [of n] \<open>trees_kept g2 g6\<close> by (simp add: trees_kept_def)
  qed
  ultimately show ?thesis using keeps_schedule_trans [OF k5 g6(2)] g6(3,4) st1(1)
    by (intro exI [of _ "st1\<lparr>r_graph := g6\<rparr>"]) simp
qed

lemma scheduled_deps_first:
  assumes "scheduled g" "compact g"
  shows "deps_first (supers g) (sortedSuper g)"
  unfolding deps_first_def
proof (intro allI impI subsetI)
  let ?L = "sortedSuper g"
  fix i p assume i: "i < length ?L" and p: "p \<in> sdepPrev (supers g (?L ! i))"
  have s: "?L ! i \<in> live g" using i assms(2) by simp
  note D = edges_okD [OF scheduled_edges [OF assms(1)] s]
  obtain j where j: "j < length ?L" "?L ! j = p" using D(1) [OF p] assms(2) by (metis in_set_conv_nth)
  have "order_of g p < order_of g (?L ! i)" using D(5) [OF p] .
  moreover have "order_of g (?L ! i) \<le> order_of g (?L ! j)" if "i \<le> j"
    using assms(1) j(1) that by (cases "i = j") (auto simp: scheduled_def sorted_supers_def sorted_wrt_iff_nth_less order_less_imp_le)
  ultimately have "j < i" using j(2) by force
  then show "p \<in> set (take i ?L)" using i j(2) by (auto simp: in_set_conv_nth intro!: exI [of _ j])
qed

lemma graphPartition_keeps:
  assumes r: "partition_ready st" and ne: "all_members (r_graph st) \<noteq> []" and few: "int (node_edges (r_graph st)) < INT_MAX"
  shows "\<exists>st'. graphPartition so mws w2m maxSize addr st = Some st' \<and> keeps_schedule (r_graph st) (r_graph st')
    \<and> same_assigns (set (all_members (r_graph st))) (nodes (r_graph st)) (nodes (r_graph st'))"
proof -
  define st0 where "st0 = st\<lparr>r_graph := orderAllNodes (r_graph st)\<rparr>"
  note o = order_ready [OF r, folded st0_def]
  obtain st1 where st1: "graphCoarsen so mws w2m addr st0 = Some st1" "keeps_schedule (r_graph st0) (r_graph st1)" "compact (r_graph st1)"
    "lifted_edges (r_graph st1)" "same_assigns (set (all_members (r_graph st0))) (nodes (r_graph st0)) (nodes (r_graph st1))"
    using coarsen_keeps [OF o(1-6)] by blast
  let ?g1 = "r_graph st1"
  have k1: "keeps_schedule (r_graph st) ?g1" using keeps_schedule_trans [OF o(7) st1(2)] .
  have c1: "consistent (order_of ?g1) ?g1" using k1 by (simp add: keeps_schedule_def scheduled_def)
  obtain g2 where g2: "resort so ?g1 = Some g2" "keeps_schedule ?g1 g2" "compact g2" "set (sortedSuper g2) = set (sortedSuper ?g1)"
    using resort_keeps [OF c1 st1(3)] by blast
  obtain L where L: "g2 = orderAllNodes (?g1\<lparr>sortedSuper := L\<rparr>)" using resort_ordered [OF g2(1)] by blast
  have "set L = set (sortedSuper ?g1)" using g2(4) L by (simp add: orderAllNodes_fields)
  then have l2: "lifted_edges g2" using ordered_lifted [OF st1(4)] L by simp
  have k2: "keeps_schedule (r_graph st) g2" using keeps_schedule_trans [OF k1 g2(2)] .
  have s2: "scheduled g2" using g2(2) by (simp add: keeps_schedule_def)
  have ok: "node_edges_ok (nodes g2) (set (all_members g2))"
    using keeps_edges_ok [OF k2] r by (simp add: partition_ready_def Let_def)
  have cs: "consistent (order_of g2) g2" using s2 by (simp add: scheduled_def)
  have nu: "numbered g2"
    using orderAllNodes_position [of "?g1\<lparr>sortedSuper := L\<rparr>"] consistent_distinct [OF cs] scheduled_distinct [OF s2]
    by (simp add: numbered_def L orderAllNodes_fields orderAllNodes_same)
  have n2: "sortedSuper g2 \<noteq> []"
  proof
    assume "sortedSuper g2 = []"
    then have "all_members g2 = []" by (simp add: all_members_def)
    then show False using k2 ne by (simp add: keeps_schedule_def)
  qed
  have "node_edges g2 = node_edges (r_graph st)" using k2 same_edges_number by (auto simp: keeps_schedule_def)
  then have "out_edges g2 0 (length (sortedSuper g2)) < INT_MAX" using lifted_few [OF cs g2(3) l2 ok] few by simp
  then obtain g3 where g3: "graphInitPartition maxSize g2 = Some g3" "keeps_schedule g2 g3" "compact g3"
    using graphInitPartition_keeps [OF s2 g2(3) nu ok n2] by blast
  have s3: "scheduled g3" using g3(2) by (simp add: keeps_schedule_def)
  have k4: "keeps_schedule g3 (orderAllNodes g3)"
    using orderAllNodes_scheduled [of "order_of g3" g3] scheduled_deps_first [OF s3 g3(3)] s3 g3(3) by (simp add: scheduled_def)
  have "graphPartition so mws w2m maxSize addr st = Some (st1\<lparr>r_graph := orderAllNodes g3\<rparr>)"
    using st1(1) g2(1) g3(1) by (simp add: graphPartition_def st0_def)
  moreover have "trees_kept ?g1 (orderAllNodes g3)"
    using resort_trees [OF g2(1)] graphInitPartition_trees [OF g3(1)] trees_kept_order trees_kept_trans by blast
  then have "same_assigns (set (all_members (r_graph st))) (nodes (r_graph st)) (nodes (orderAllNodes g3))"
    using st1(5) trees_kept_order [of "r_graph st"] by (simp add: same_assigns_def trees_kept_def st0_def orderAllNodes_same)
  ultimately show ?thesis using keeps_schedule_trans [OF k2 keeps_schedule_trans [OF g3(2) k4]]
    by (intro exI [of _ "st1\<lparr>r_graph := orderAllNodes g3\<rparr>"]) simp
qed

text \<open>
  C4: the partition keeps the schedule.  On a sorted graph whose edges are those of its nodes,
  with well-formed conditions and resets and fewer than \<^verbatim>\<open>INT_MAX\<close> edges between its nodes,
  \<^verbatim>\<open>graphPartition\<close> ends without a failed check for every configuration.  The super nodes it
  leaves hold the same nodes, each exactly once, in the super node it points to and after
  all nodes it depends on; the edges between the nodes are the same, and every tree of a
  node assigns the same value as before.
\<close>

theorem graphPartition_schedules:
  assumes "partition_ready st" "all_members (r_graph st) \<noteq> []" "int (node_edges (r_graph st)) < INT_MAX"
  shows "\<exists>st'. graphPartition stableOrder mergeWhenSize when2muxBound maxSize addr st = Some st'
    \<and> node_schedule (r_graph st') \<and> mset (all_members (r_graph st')) = mset (all_members (r_graph st))
    \<and> same_edges (nodes (r_graph st)) (nodes (r_graph st'))
    \<and> same_assigns (set (all_members (r_graph st))) (nodes (r_graph st)) (nodes (r_graph st'))"
  using graphPartition_keeps [OF assms, of stableOrder mergeWhenSize when2muxBound maxSize addr] scheduled_nodes
  by (auto simp: keeps_schedule_def)

lemma demo_ready: "partition_ready demo_resets"
  using demo_scheduled demo_compact scheduled_deps_first [OF demo_scheduled demo_compact] demo_edges_ok demo_conds demo_mux demo_resets_ready
  by (auto simp: partition_ready_def scheduled_def demo_resets_def)

theorem graphPartition_schedules_witness:
  "\<exists>st'. graphPartition True 1 1 2 (\<lambda>_. 0) demo_resets = Some st'
    \<and> node_schedule (r_graph st') \<and> mset (all_members (r_graph st')) = {#0, 1, 2, 3#}
    \<and> same_edges (nodes demo_sched) (nodes (r_graph st')) \<and> same_assigns {0, 1, 2, 3} (nodes demo_sched) (nodes (r_graph st'))"
proof -
  have g: "r_graph demo_resets = demo_sched" by (simp add: demo_resets_def)
  have "int (node_edges (r_graph demo_resets)) < INT_MAX"
    unfolding node_edges_def g demo_members by (simp add: demo_sched_def new_node_def INT_MAX_def)
  from graphPartition_schedules [OF demo_ready _ this, of True 1 1 2 "\<lambda>_. 0"] show ?thesis
    by (simp add: g demo_members)
qed

end
