(* ===== verification/ResetAnalysis.thy ===== *)
theory ResetAnalysis
  imports Util Graph
begin

section \<open>The kinds of resets\<close>

text \<open>
  \<^verbatim>\<open>Node::inferReset\<close>, \<^verbatim>\<open>ENode::inferReset\<close> and \<^verbatim>\<open>Node::addReset\<close> of \<^verbatim>\<open>src/resetAnalysis.cpp\<close>.  The kind of
  reset a signal carries is found by following its assignments to a conversion, a literal or
  a node of known kind, and is stored in every node and every root on the way.  The two
  functions call each other; on a cycle of signals of unknown kind the code recurses without
  end, here the result is \<open>None\<close>.  The loop over the trees of a node continues at the tree \<open>i\<close>.
\<close>

definition op_reset :: "eattr \<Rightarrow> ResetType abortable" where
  "op_reset a =
     (case opType a of
        OP_ASUINT \<Rightarrow> Some UINTRESET
      | OP_ASSINT \<Rightarrow> Some UINTRESET
      | OP_INT \<Rightarrow> (let str = snd (firStrBase (strVal a)) in if str = ''h0'' \<or> str = ''0'' then Some ZERO_RESET else None)
      | OP_ASASYNCRESET \<Rightarrow> Some ASYRESET
      | OP_BITS \<Rightarrow> Some UINTRESET
      | OP_OR \<Rightarrow> Some UINTRESET
      | _ \<Rightarrow> None)"

definition set_root_reset :: "nodeid \<Rightarrow> nat \<Rightarrow> ResetType \<Rightarrow> heap \<Rightarrow> heap" where
  "set_root_reset n i k h =
     h(n := (h n)\<lparr>assignTree := (assignTree (h n))[i := (assignTree (h n) ! i)
          \<lparr>root := (case root (assignTree (h n) ! i) of ENode a cs \<Rightarrow> ENode (a\<lparr>reset := k\<rparr>) cs)\<rparr>]\<rparr>)"

abbreviation root_attr :: "heap \<Rightarrow> nodeid \<Rightarrow> nat \<Rightarrow> eattr" where
  "root_attr h n i \<equiv> attr (root (assignTree (h n) ! i))"

partial_function (option) trees_reset :: "nodeid \<Rightarrow> nat \<Rightarrow> heap \<Rightarrow> heap option" where
  "trees_reset n i h =
     (if length (assignTree (h n)) \<le> i then Some h
      else do { h1 \<leftarrow> (if reset (root_attr h n i) \<noteq> UNCERTAIN then Some h
                        else (case nodePtr (root_attr h n i) of
                                None \<Rightarrow> do { k \<leftarrow> op_reset (root_attr h n i); Some (set_root_reset n i k h) }
                              | Some m \<Rightarrow>
                                  do { h' \<leftarrow> (if nreset (h m) \<noteq> UNCERTAIN then Some h
                                               else if assignTree (h m) = [] then None else trees_reset m 0 h);
                                       Some (set_root_reset n i (nreset (h' m)) h') }));
                let k = reset (root_attr h1 n i);
                if nreset (h1 n) = UNCERTAIN then trees_reset n (i + 1) (h1(n := (h1 n)\<lparr>nreset := k\<rparr>))
                else if nreset (h1 n) = k then trees_reset n (i + 1) h1 else None })"

definition Node_inferReset :: "nodeid \<Rightarrow> heap \<Rightarrow> heap abortable" where
  "Node_inferReset n h =
     (if nreset (h n) \<noteq> UNCERTAIN then Some h
      else if assignTree (h n) = [] then None else trees_reset n 0 h)"

text \<open>
  \<^verbatim>\<open>addReset\<close>, with the root of the condition that the register was declared with (\<^verbatim>\<open>resetCond\<close>), whose kind
  is recorded too.
\<close>

definition with_reset :: "ResetType \<Rightarrow> enode \<Rightarrow> enode" where
  "with_reset k e = (case e of ENode a cs \<Rightarrow> ENode (a\<lparr>reset := k\<rparr>) cs)"

definition cond_reset :: "enode \<Rightarrow> heap \<Rightarrow> (enode \<times> heap) abortable" where
  "cond_reset e h =
     (if reset (attr e) \<noteq> UNCERTAIN then Some (e, h)
      else (case nodePtr (attr e) of
              None \<Rightarrow> do { k \<leftarrow> op_reset (attr e); Some (with_reset k e, h) }
            | Some m \<Rightarrow> do { h' \<leftarrow> Node_inferReset m h; Some (with_reset (nreset (h' m)) e, h') }))"

definition addReset :: "nodeid \<Rightarrow> enode \<Rightarrow> heap \<Rightarrow> (enode \<times> heap) abortable" where
  "addReset n resetCond h =
     do { assert_that (ntype (h n) = NODE_REG_SRC);
          (e, h') \<leftarrow> cond_reset resetCond h;
          let k = reset (attr e);
          assert_that (k \<noteq> UNCERTAIN);
          Some (e, h'(n := (h' n)\<lparr>nreset := k\<rparr>)) }"

section \<open>What kind a signal has\<close>

text \<open>
  The kinds of the operations, by what they yield: a conversion to an asynchronous reset, a
  number, or the literal zero, which never resets.
\<close>

inductive op_kind :: "eattr \<Rightarrow> ResetType \<Rightarrow> bool" for a where
  async_kind: "opType a = OP_ASASYNCRESET \<Longrightarrow> op_kind a ASYRESET"
| number_kind: "opType a \<in> {OP_ASUINT, OP_ASSINT, OP_BITS, OP_OR} \<Longrightarrow> op_kind a UINTRESET"
| zero_kind: "opType a = OP_INT \<Longrightarrow> snd (firStrBase (strVal a)) \<in> {''0'', ''h0''} \<Longrightarrow> op_kind a ZERO_RESET"

inductive resolves :: "heap \<Rightarrow> nodeid \<Rightarrow> ResetType \<Rightarrow> bool" and root_resolves :: "heap \<Rightarrow> eattr \<Rightarrow> ResetType \<Rightarrow> bool"
  for h :: heap where
  declared: "nreset (h n) = k \<Longrightarrow> k \<noteq> UNCERTAIN \<Longrightarrow> resolves h n k"
| assigned: "nreset (h n) = UNCERTAIN \<Longrightarrow> assignTree (h n) \<noteq> [] \<Longrightarrow> (\<And>t. t \<in> set (assignTree (h n)) \<Longrightarrow> root_resolves h (attr (root t)) k)
     \<Longrightarrow> resolves h n k"
| root_declared: "reset a = k \<Longrightarrow> k \<noteq> UNCERTAIN \<Longrightarrow> root_resolves h a k"
| root_op: "reset a = UNCERTAIN \<Longrightarrow> nodePtr a = None \<Longrightarrow> op_kind a k \<Longrightarrow> root_resolves h a k"
| root_node: "reset a = UNCERTAIN \<Longrightarrow> nodePtr a = Some m \<Longrightarrow> resolves h m k \<Longrightarrow> root_resolves h a k"

text \<open>The code finds exactly these kinds.\<close>

lemma op_reset_kind: "op_kind a k \<Longrightarrow> op_reset a = Some k"
  by (auto elim!: op_kind.cases simp: op_reset_def Let_def)

lemma op_kind_certain: "op_kind a k \<Longrightarrow> k \<noteq> UNCERTAIN"
  by (auto elim: op_kind.cases)

lemma op_kind_unique: "op_kind a k \<Longrightarrow> op_kind a l \<Longrightarrow> l = k"
  by (auto elim!: op_kind.cases)

lemma resolves_certain:
  "resolves h n k \<Longrightarrow> k \<noteq> UNCERTAIN" "root_resolves h a k \<Longrightarrow> k \<noteq> UNCERTAIN"
proof (induction rule: resolves_root_resolves.inducts)
  case (assigned n k)
  then show ?case by (metis list.set_intros(1) neq_Nil_conv)
qed (auto dest: op_kind_certain)

lemma resolves_unique:
  "resolves h n k \<Longrightarrow> resolves h n k' \<Longrightarrow> k' = k" "root_resolves h a k \<Longrightarrow> root_resolves h a k' \<Longrightarrow> k' = k"
proof (induction arbitrary: k' and k' rule: resolves_root_resolves.inducts)
  case (declared n k)
  from declared(3) show ?case by (cases rule: resolves.cases) (use declared(1,2) in simp_all)
next
  case (assigned n k)
  then obtain t where t: "t \<in> set (assignTree (h n))" by (metis list.set_intros(1) neq_Nil_conv)
  from assigned(5) have "root_resolves h (attr (root t)) k'" by (cases rule: resolves.cases) (use assigned(1) t in simp_all)
  then show ?case using assigned(4) t by blast
next
  case (root_declared a k)
  from root_declared(3) show ?case by (cases rule: root_resolves.cases) (use root_declared(1,2) in simp_all)
next
  case (root_op a k)
  from root_op(4) show ?case by (cases rule: root_resolves.cases) (use root_op(1-3) op_kind_unique in auto)
next
  case (root_node a m k)
  from root_node(5) show ?case by (cases rule: root_resolves.cases) (use root_node(1,2,4) in simp_all)
qed

section \<open>What is stored on the way\<close>

text \<open>Only kinds are added, and only those that the signals have.\<close>

definition set_reset :: "ResetType \<Rightarrow> exptree \<Rightarrow> exptree" where
  "set_reset k t = t\<lparr>root := (case root t of ENode a cs \<Rightarrow> ENode (a\<lparr>reset := k\<rparr>) cs)\<rparr>"

definition tree_memo :: "heap \<Rightarrow> exptree \<Rightarrow> exptree \<Rightarrow> bool" where
  "tree_memo h0 t t' \<longleftrightarrow>
     t' = t \<or> reset (attr (root t)) = UNCERTAIN \<and> (\<exists>k. root_resolves h0 (attr (root t)) k \<and> t' = set_reset k t)"

definition memo :: "heap \<Rightarrow> heap \<Rightarrow> bool" where
  "memo h0 h \<longleftrightarrow>
     (\<forall>n. (\<exists>ts. h n = (h0 n)\<lparr>nreset := nreset (h n), assignTree := ts\<rparr> \<and> list_all2 (tree_memo h0) (assignTree (h0 n)) ts)
        \<and> (nreset (h n) = nreset (h0 n) \<or> nreset (h0 n) = UNCERTAIN \<and> resolves h0 n (nreset (h n))))"

lemma set_reset_simps [simp]:
  "reset (attr (root (set_reset k t))) = k" "nodePtr (attr (root (set_reset k t))) = nodePtr (attr (root t))"
  "op_reset (attr (root (set_reset k t))) = op_reset (attr (root t))" "set_reset k (set_reset l t) = set_reset k t"
proof -
  obtain a cs where r: "root t = ENode a cs" by (cases "root t") blast
  show "reset (attr (root (set_reset k t))) = k" "nodePtr (attr (root (set_reset k t))) = nodePtr (attr (root t))"
    "set_reset k (set_reset l t) = set_reset k t" by (simp_all add: set_reset_def r)
  show "op_reset (attr (root (set_reset k t))) = op_reset (attr (root t))" 
    unfolding op_reset_def by (cases "opType a") (simp_all add: set_reset_def r Let_def)
qed

lemma set_root_reset_alt: "set_root_reset n i k h = h(n := (h n)\<lparr>assignTree := (assignTree (h n))[i := set_reset k (assignTree (h n) ! i)]\<rparr>)"
  by (simp add: set_root_reset_def set_reset_def)

lemma memo_refl: "memo h h"
  unfolding memo_def
proof (intro allI conjI)
  fix n
  show "\<exists>ts. h n = (h n)\<lparr>nreset := nreset (h n), assignTree := ts\<rparr> \<and> list_all2 (tree_memo h) (assignTree (h n)) ts"
    by (rule exI [of _ "assignTree (h n)"]) (simp add: tree_memo_def list_all2_refl)
qed simp

lemma memoD:
  assumes "memo h0 h"
  shows "length (assignTree (h n)) = length (assignTree (h0 n))"
    "i < length (assignTree (h0 n)) \<Longrightarrow> tree_memo h0 (assignTree (h0 n) ! i) (assignTree (h n) ! i)"
    "nreset (h n) = nreset (h0 n) \<or> nreset (h0 n) = UNCERTAIN \<and> resolves h0 n (nreset (h n))"
    "list_all2 (tree_memo h0) (assignTree (h0 n)) (assignTree (h n))"
    "h n = (h0 n)\<lparr>nreset := nreset (h n), assignTree := assignTree (h n)\<rparr>"
proof -
  obtain ts where ts: "h n = (h0 n)\<lparr>nreset := nreset (h n), assignTree := ts\<rparr>" "list_all2 (tree_memo h0) (assignTree (h0 n)) ts"
    using assms unfolding memo_def by blast
  have e: "assignTree (h n) = ts" using arg_cong [OF ts(1), of assignTree] by simp
  show l: "list_all2 (tree_memo h0) (assignTree (h0 n)) (assignTree (h n))" using ts(2) e by simp
  show "length (assignTree (h n)) = length (assignTree (h0 n))" using list_all2_lengthD [OF l] by simp
  show "i < length (assignTree (h0 n)) \<Longrightarrow> tree_memo h0 (assignTree (h0 n) ! i) (assignTree (h n) ! i)"
    using list_all2_nthD [OF l] by blast
  show "h n = (h0 n)\<lparr>nreset := nreset (h n), assignTree := assignTree (h n)\<rparr>" using ts(1) e by simp
  show "nreset (h n) = nreset (h0 n) \<or> nreset (h0 n) = UNCERTAIN \<and> resolves h0 n (nreset (h n))" using assms by (simp add: memo_def)
qed

lemma memo_known: "memo h0 h \<Longrightarrow> nreset (h n) \<noteq> UNCERTAIN \<Longrightarrow> resolves h0 n (nreset (h n))"
  using memoD(3) [of h0 h n] by (auto intro: declared)

lemma memo_root:
  assumes "memo h0 h" "i < length (assignTree (h0 n))"
  shows "nodePtr (root_attr h n i) = nodePtr (root_attr h0 n i)" "op_reset (root_attr h n i) = op_reset (root_attr h0 n i)"
    "reset (root_attr h n i) \<noteq> UNCERTAIN \<Longrightarrow> root_resolves h0 (root_attr h0 n i) (reset (root_attr h n i))"
    "reset (root_attr h n i) = UNCERTAIN \<Longrightarrow> assignTree (h n) ! i = assignTree (h0 n) ! i"
  using memoD(2) [OF assms] resolves_certain(2) by (auto simp: tree_memo_def intro: root_declared)

lemma memo_set_node:
  assumes m: "memo h0 h" and k: "resolves h0 n k" "nreset (h0 n) = UNCERTAIN"
  shows "memo h0 (h(n := (h n)\<lparr>nreset := k\<rparr>))"
  unfolding memo_def
proof (intro allI conjI)
  fix x
  let ?h = "h(n := (h n)\<lparr>nreset := k\<rparr>)"
  show "nreset (?h x) = nreset (h0 x) \<or> nreset (h0 x) = UNCERTAIN \<and> resolves h0 x (nreset (?h x))"
    using memoD(3) [OF m, of x] k by auto
  have "?h x = (h0 x)\<lparr>nreset := nreset (?h x), assignTree := assignTree (h x)\<rparr>"
    using arg_cong [OF memoD(5) [OF m, of x], of "\<lambda>nd. nd\<lparr>nreset := k\<rparr>"] memoD(5) [OF m, of x] by (cases "x = n") simp_all
  then show "\<exists>ts. ?h x = (h0 x)\<lparr>nreset := nreset (?h x), assignTree := ts\<rparr> \<and> list_all2 (tree_memo h0) (assignTree (h0 x)) ts"
    using memoD(4) [OF m, of x] by blast
qed

lemma memo_set_root:
  assumes m: "memo h0 h" and i: "i < length (assignTree (h0 n))" and k: "root_resolves h0 (root_attr h0 n i) k" "reset (root_attr h n i) = UNCERTAIN"
  shows "memo h0 (set_root_reset n i k h)" "reset (root_attr (set_root_reset n i k h) n i) = k"
proof -
  have l: "i < length (assignTree (h n))" using memoD(1) [OF m] i by simp
  show "reset (root_attr (set_root_reset n i k h) n i) = k" using l by (simp add: set_root_reset_alt)
  let ?h = "set_root_reset n i k h"
  show "memo h0 ?h" unfolding memo_def
  proof (intro allI conjI)
    fix x
    show "nreset (?h x) = nreset (h0 x) \<or> nreset (h0 x) = UNCERTAIN \<and> resolves h0 x (nreset (?h x))"
      using memoD(3) [OF m, of x] by (cases "x = n") (simp_all add: set_root_reset_alt)
    have t: "tree_memo h0 (assignTree (h0 n) ! i) (set_reset k (assignTree (h n) ! i))"
      using memo_root(4) [OF m i k(2)] k by (auto simp: tree_memo_def)
    have "list_all2 (tree_memo h0) (assignTree (h0 x)) (assignTree (?h x))"
      using list_all2_update_cong [OF memoD(4) [OF m, of n] t, of i] memoD(4) [OF m, of x] by (simp add: set_root_reset_alt)
    moreover have "?h x = (h0 x)\<lparr>nreset := nreset (?h x), assignTree := assignTree (?h x)\<rparr>"
      using arg_cong [OF memoD(5) [OF m, of x], of "\<lambda>nd. nd\<lparr>assignTree := assignTree (?h x)\<rparr>"] memoD(5) [OF m, of x]
      by (cases "x = n") (simp_all add: set_root_reset_alt)
    ultimately show "\<exists>ts. ?h x = (h0 x)\<lparr>nreset := nreset (?h x), assignTree := ts\<rparr> \<and> list_all2 (tree_memo h0) (assignTree (h0 x)) ts"
      by blast
  qed
qed

section \<open>Inference\<close>

definition root_reset :: "nodeid \<Rightarrow> nat \<Rightarrow> heap \<Rightarrow> heap abortable" where
  "root_reset n i h =
     (if reset (root_attr h n i) \<noteq> UNCERTAIN then Some h
      else (case nodePtr (root_attr h n i) of
              None \<Rightarrow> do { k \<leftarrow> op_reset (root_attr h n i); Some (set_root_reset n i k h) }
            | Some m \<Rightarrow> do { h' \<leftarrow> Node_inferReset m h; Some (set_root_reset n i (nreset (h' m)) h') }))"

lemma trees_reset_step:
  "i < length (assignTree (h n)) \<Longrightarrow> trees_reset n i h =
     do { h1 \<leftarrow> root_reset n i h;
          let k = reset (root_attr h1 n i);
          if nreset (h1 n) = UNCERTAIN then trees_reset n (i + 1) (h1(n := (h1 n)\<lparr>nreset := k\<rparr>))
          else if nreset (h1 n) = k then trees_reset n (i + 1) h1 else None }"
  unfolding root_reset_def Node_inferReset_def by (subst trees_reset.simps) (simp add: not_le)

lemma trees_loop:
  assumes n: "resolves h0 n k" "nreset (h0 n) = UNCERTAIN" "assignTree (h0 n) \<noteq> []"
    and step: "\<And>i h. i < length (assignTree (h0 n)) \<Longrightarrow> memo h0 h \<Longrightarrow> \<exists>h1. root_reset n i h = Some h1 \<and> memo h0 h1 \<and> reset (root_attr h1 n i) = k"
  shows "memo h0 h \<Longrightarrow> i = 0 \<or> nreset (h n) = k \<Longrightarrow> \<exists>h'. trees_reset n i h = Some h' \<and> memo h0 h' \<and> nreset (h' n) = k"
proof (induction "length (assignTree (h0 n)) - i" arbitrary: i h)
  case 0
  then have "length (assignTree (h n)) \<le> i" "nreset (h n) = k" using memoD(1) [OF 0(2)] n(3) by auto
  then show ?case using 0(2) by (simp add: trees_reset.simps)
next
  case (Suc d)
  have i: "i < length (assignTree (h0 n))" using Suc(2) by simp
  obtain h1 where h1: "root_reset n i h = Some h1" "memo h0 h1" "reset (root_attr h1 n i) = k" using step [OF i Suc.prems(1)] by blast
  define h2 where "h2 = (if nreset (h1 n) = UNCERTAIN then h1(n := (h1 n)\<lparr>nreset := k\<rparr>) else h1)"
  have known: "nreset (h1 n) = k" if "nreset (h1 n) \<noteq> UNCERTAIN"
    using resolves_unique(1) [OF n(1) memo_known [OF h1(2) that]] .
  have h2: "memo h0 h2" "nreset (h2 n) = k" using h1(2) memo_set_node [OF h1(2) n(1,2)] known by (auto simp: h2_def)
  have "trees_reset n i h = trees_reset n (i + 1) h2"
    using trees_reset_step [of i h n] i memoD(1) [OF Suc.prems(1), of n] h1(1,3) known by (auto simp: h2_def)
  then show ?case using Suc(1) [of "i + 1" h2] Suc(2) h2 by auto
qed

lemma inferReset_complete:
  "resolves h0 n k \<Longrightarrow> \<forall>h. memo h0 h \<longrightarrow> (\<exists>h'. Node_inferReset n h = Some h' \<and> memo h0 h' \<and> nreset (h' n) = k)"
  "root_resolves h0 a k \<Longrightarrow> \<forall>h n i. memo h0 h \<longrightarrow> i < length (assignTree (h0 n)) \<longrightarrow> root_attr h0 n i = a \<longrightarrow>
     (\<exists>h1. root_reset n i h = Some h1 \<and> memo h0 h1 \<and> reset (root_attr h1 n i) = k)"
proof (induction rule: resolves_root_resolves.inducts)
  case (declared n k)
  show ?case
  proof (intro allI impI)
    fix h assume "memo h0 h"
    moreover from memoD(3) [OF this, of n] have "nreset (h n) = k" using declared by auto
    ultimately show "\<exists>h'. Node_inferReset n h = Some h' \<and> memo h0 h' \<and> nreset (h' n) = k"
      using declared by (simp add: Node_inferReset_def)
  qed
next
  case (assigned n k)
  have r: "resolves h0 n k" using assigned(1-3) by (auto intro: resolves_root_resolves.assigned)
  show ?case
  proof (intro allI impI)
    fix h assume m: "memo h0 h"
    show "\<exists>h'. Node_inferReset n h = Some h' \<and> memo h0 h' \<and> nreset (h' n) = k"
    proof (cases "nreset (h n) = UNCERTAIN")
      case True
      have "assignTree (h n) \<noteq> []" using memoD(1) [OF m, of n] assigned(2) by auto
      moreover have "\<exists>h1. root_reset n i h = Some h1 \<and> memo h0 h1 \<and> reset (root_attr h1 n i) = k"
        if "i < length (assignTree (h0 n))" "memo h0 h" for i h
        using assigned(4) [of "assignTree (h0 n) ! i"] that by simp
      then have "\<exists>h'. trees_reset n 0 h = Some h' \<and> memo h0 h' \<and> nreset (h' n) = k"
        by (rule trees_loop [OF r assigned(1,2)]) (use m in simp_all)
      ultimately show ?thesis using True by (simp add: Node_inferReset_def)
    next
      case False
      then show ?thesis using m resolves_unique(1) [OF r memo_known [OF m False]] by (simp add: Node_inferReset_def)
    qed
  qed
next
  case (root_declared a k)
  show ?case
  proof (intro allI impI)
    fix h n i assume m: "memo h0 h" and i: "i < length (assignTree (h0 n))" "root_attr h0 n i = a"
    have "tree_memo h0 (assignTree (h0 n) ! i) (assignTree (h n) ! i)" using memoD(2) [OF m i(1)] .
    then have "reset (root_attr h n i) = k" using i(2) root_declared by (auto simp: tree_memo_def)
    then show "\<exists>h1. root_reset n i h = Some h1 \<and> memo h0 h1 \<and> reset (root_attr h1 n i) = k"
      using m root_declared by (simp add: root_reset_def)
  qed
next
  case (root_op a k)
  show ?case
  proof (intro allI impI)
    fix h n i assume m: "memo h0 h" and i: "i < length (assignTree (h0 n))" "root_attr h0 n i = a"
    have r: "root_resolves h0 (root_attr h0 n i) k" using root_op i(2) by (auto intro: resolves_root_resolves.root_op)
    show "\<exists>h1. root_reset n i h = Some h1 \<and> memo h0 h1 \<and> reset (root_attr h1 n i) = k"
    proof (cases "reset (root_attr h n i) = UNCERTAIN")
      case True
      then show ?thesis using memo_set_root [OF m i(1) r True] memo_root(1,2) [OF m i(1)] root_op op_reset_kind [OF root_op(3)] i(2) by (simp add: root_reset_def)
    next
      case False
      then show ?thesis using m resolves_unique(2) [OF r memo_root(3) [OF m i(1) False]] by (simp add: root_reset_def)
    qed
  qed
next
  case (root_node a m' k)
  show ?case
  proof (intro allI impI)
    fix h n i assume m: "memo h0 h" and i: "i < length (assignTree (h0 n))" "root_attr h0 n i = a"
    have r: "root_resolves h0 (root_attr h0 n i) k" using root_node i(2) by (auto intro: resolves_root_resolves.root_node)
    show "\<exists>h1. root_reset n i h = Some h1 \<and> memo h0 h1 \<and> reset (root_attr h1 n i) = k"
    proof (cases "reset (root_attr h n i) = UNCERTAIN")
      case True
      obtain h' where h': "Node_inferReset m' h = Some h'" "memo h0 h'" "nreset (h' m') = k" using root_node(4) m by blast
      have e: "root_reset n i h = Some (set_root_reset n i k h')"
        using True memo_root(1) [OF m i(1)] root_node i(2) h' by (simp add: root_reset_def)
      show ?thesis
      proof (cases "reset (root_attr h' n i) = UNCERTAIN")
        case True
        then show ?thesis using e memo_set_root [OF h'(2) i(1) r True] by simp
      next
        case False
        have k: "reset (root_attr h' n i) = k" using resolves_unique(2) [OF r memo_root(3) [OF h'(2) i(1) False]] .
        have "tree_memo h0 (assignTree (h0 n) ! i) (assignTree (h' n) ! i)" using memoD(2) [OF h'(2) i(1)] .
        then have "set_reset k (assignTree (h' n) ! i) = assignTree (h' n) ! i"
          using k root_node(1) i(2) False by (auto simp: tree_memo_def)
        then have "set_root_reset n i k h' = h'" by (simp add: set_root_reset_alt)
        then show ?thesis using e h'(2) k by simp
      qed
    next
      case False
      then show ?thesis using m resolves_unique(2) [OF r memo_root(3) [OF m i(1) False]] by (simp add: root_reset_def)
    qed
  qed
qed

text \<open>
  C21: a register gets the kind of its reset.  When the condition leads, through any chain of
  signals all of whose assignments agree, to a signal of declared kind, a conversion or the
  literal zero, \<^verbatim>\<open>addReset\<close> ends without a failed check and records exactly that kind in the
  register and in its condition: asynchronous after \<^verbatim>\<open>asAsyncReset\<close>, synchronous after an operation
  that yields a number, no reset at all for zero.  All else it changes are unknown kinds of signals and of the roots of their trees,
  which it replaces by the kinds these have.
\<close>

theorem addReset_exact:
  assumes "ntype (h n) = NODE_REG_SRC" and r: "root_resolves h (attr e) k"
  shows "\<exists>h1. addReset n e h = Some (with_reset k e, h1(n := (h1 n)\<lparr>nreset := k\<rparr>)) \<and> memo h h1"
proof -
  have k: "k \<noteq> UNCERTAIN" using resolves_certain(2) [OF r] .
  have w: "reset (attr (with_reset k e)) = k" "with_reset (reset (attr e)) e = e"
    by (cases e; simp add: with_reset_def)+
  have "\<exists>h1. cond_reset e h = Some (with_reset k e, h1) \<and> memo h h1"
    using r
  proof (cases rule: root_resolves.cases)
    case root_declared
    then show ?thesis using w(2) memo_refl by (auto simp: cond_reset_def)
  next
    case root_op
    then show ?thesis using op_reset_kind memo_refl by (auto simp: cond_reset_def)
  next
    case (root_node m)
    then obtain h1 where "Node_inferReset m h = Some h1" "memo h h1" "nreset (h1 m) = k"
      using inferReset_complete(1) memo_refl by blast
    then show ?thesis using root_node by (simp add: cond_reset_def)
  qed
  then show ?thesis using assms(1) k w(1) by (auto simp: addReset_def Let_def)
qed

text \<open>Input 0 is a synchronous reset, signal 1 converts it to an asynchronous one, and 2 is the register.\<close>

definition demo_kinds :: heap where
  "demo_kinds = (\<lambda>n. if n = 0 then (new_node NODE_INP)\<lparr>nreset := UINTRESET\<rparr>
     else if n = 1 then (new_node NODE_OTHERS)
       \<lparr>assignTree := [\<lparr>root = ENode (new_eattr OP_ASASYNCRESET) [Some (new_leaf 0)], lvalue = new_leaf 1\<rparr>]\<rparr>
     else new_node NODE_REG_SRC)"

theorem addReset_exact_witness:
  "\<exists>h1. addReset 2 (new_leaf 1) demo_kinds
      = Some (with_reset ASYRESET (new_leaf 1), h1(2 := (h1 2)\<lparr>nreset := ASYRESET\<rparr>)) \<and> memo demo_kinds h1"
proof -
  have "root_resolves demo_kinds (new_eattr OP_ASASYNCRESET) ASYRESET"
    by (intro root_op async_kind) (simp_all add: new_eattr_def)
  then have "resolves demo_kinds 1 ASYRESET" by (intro assigned) (simp_all add: demo_kinds_def new_node_def)
  then have "root_resolves demo_kinds (attr (new_leaf 1)) ASYRESET"
    by (intro root_node [of _ 1]) (simp_all add: new_leaf_def new_eattr_def)
  from addReset_exact [OF _ this, of 2] show ?thesis by (simp add: demo_kinds_def new_node_def)
qed

end
