(* ===== verification/ClockOpt.thy ===== *)
theory ClockOpt
  imports Graph
begin

section \<open>Clocks\<close>

text \<open>
  \<^verbatim>\<open>src/clockOptimize.cpp\<close>.  The value of a clock signal says which input or register drives it, and
  under which condition (\<^verbatim>\<open>gateENode\<close>) it ticks.  The values are objects on the heap: the map
  \<^verbatim>\<open>clockMap\<close> and the recursion hand on pointers, and the cases for \<^verbatim>\<open>and\<close> and \<^verbatim>\<open>mux\<close> write through
  them.  Hence the store of the model: addresses, the objects at them, and the next free
  address.  \<^verbatim>\<open>Node::clock\<close> is the map \<open>clk\<close>; \<^verbatim>\<open>allSignals\<close> is the list of its nodes in the order of
  their names.  Warnings are left out.  On cyclic clocks the recursion of the code does not
  end, and the result here is \<open>None\<close>.
\<close>

record clockVal =
  c_node :: "nodeid option"
  isConstant :: bool
  isInvalid :: bool
  gateENode :: "enode option"

definition node_clock :: "nodeid \<Rightarrow> clockVal" where
  "node_clock n = \<lparr>c_node = Some n, isConstant = False, isInvalid = False, gateENode = None\<rparr>"

definition const_clock :: clockVal where
  "const_clock = \<lparr>c_node = None, isConstant = True, isInvalid = False, gateENode = None\<rparr>"

definition invalid_clock :: clockVal where
  "invalid_clock = \<lparr>c_node = None, isConstant = False, isInvalid = True, gateENode = None\<rparr>"

definition gate_clock :: "enode \<Rightarrow> clockVal" where
  "gate_clock e = \<lparr>c_node = None, isConstant = False, isInvalid = False, gateENode = Some e\<rparr>"

record clocks =
  c_store :: "nat \<Rightarrow> clockVal"
  c_free :: nat
  clockMap :: "nodeid \<rightharpoonup> nat"

definition new_clock :: "clockVal \<Rightarrow> clocks \<Rightarrow> nat \<times> clocks" where
  "new_clock v st = (c_free st, st\<lparr>c_store := (c_store st)(c_free st := v), c_free := c_free st + 1\<rparr>)"

definition put_clock :: "nat \<Rightarrow> clockVal \<Rightarrow> clocks \<Rightarrow> clocks" where
  "put_clock a v st = st\<lparr>c_store := (c_store st)(a := v)\<rparr>"

definition remember :: "nodeid \<Rightarrow> nat \<times> clocks \<Rightarrow> nat \<times> clocks" where
  "remember n r = (fst r, (snd r)\<lparr>clockMap := (clockMap (snd r))(n \<mapsto> fst r)\<rparr>)"

subsection \<open>Conjunction and selection\<close>

definition clock_and :: "nat \<Rightarrow> nat \<Rightarrow> clocks \<Rightarrow> (nat \<times> clocks) abortable" where
  "clock_and childVal ret st =
     (let v = c_store st childVal; r = c_store st ret
      in if c_node v \<noteq> None \<and> gateENode r \<noteq> None then Some (ret, put_clock ret (r\<lparr>c_node := c_node v\<rparr>) st)
         else if gateENode v \<noteq> None \<and> c_node r \<noteq> None then Some (ret, put_clock ret (r\<lparr>gateENode := gateENode r\<rparr>) st)
         else None)"

definition mux_clock_ok :: "heap \<Rightarrow> clockVal \<Rightarrow> bool" where
  "mux_clock_ok h v \<longleftrightarrow>
     isConstant v \<or> isInvalid v \<or> (case c_node v of None \<Rightarrow> False | Some n \<Rightarrow> ntype (h n) = NODE_INP)"

definition gated :: "enode option \<Rightarrow> clockVal \<Rightarrow> enode option" where
  "gated cond v =
     (if isConstant v then None
      else (case gateENode v of None \<Rightarrow> cond | Some g \<Rightarrow> Some (ENode (new_eattr OP_AND) [cond, Some g])))"

definition clock_mux :: "enode option \<Rightarrow> nat \<Rightarrow> nat \<Rightarrow> clocks \<Rightarrow> nat \<times> clocks" where
  "clock_mux cond childVal ret st =
     (let v = c_store st childVal; r = c_store st ret; neg = ENode (new_eattr OP_NOT) [cond]
      in if isInvalid r then (childVal, st)
         else if isInvalid v then (ret, st)
         else (case (gated cond v, gated (Some neg) r) of
                 (None, None) \<Rightarrow> new_clock const_clock st
               | (None, Some second) \<Rightarrow> (ret, put_clock ret (r\<lparr>gateENode := Some second\<rparr>) st)
               | (Some first, None) \<Rightarrow> (ret, put_clock ret (r\<lparr>gateENode := Some first\<rparr>) st)
               | (Some first, Some second) \<Rightarrow>
                   (ret, put_clock ret (r\<lparr>gateENode := Some (ENode (new_eattr OP_OR) [Some first, Some second])\<rparr>) st)))"

subsection \<open>The value of a clock\<close>

definition operand_at :: "enode \<Rightarrow> nat \<Rightarrow> enode abortable" where
  "operand_at e i = (if i < length (child e) then child e ! i else None)"

text \<open>\<^verbatim>\<open>ENode::clockCompute\<close> is the case \<open>Inl\<close>, \<^verbatim>\<open>Node::clockCompute\<close> the case \<open>Inr\<close>.\<close>

partial_function (option) clockCompute :: "heap \<Rightarrow> enode + nodeid \<Rightarrow> clocks \<Rightarrow> (nat \<times> clocks) option" where
  "clockCompute h x st =
     (case x of
        Inr n \<Rightarrow>
          (case clockMap st n of
             Some a \<Rightarrow> Some (a, st)
           | None \<Rightarrow>
               if ntype (h n) = NODE_INP \<or> ntype (h n) = NODE_REG_SRC
               then Some (remember n (new_clock (node_clock n) st))
               else (case assignTree (h n) of
                       [] \<Rightarrow> Some (remember n (new_clock const_clock st))
                     | [t] \<Rightarrow> do { r \<leftarrow> clockCompute h (Inl (root t)) st; Some (remember n r) }
                     | _ \<Rightarrow> None))
      | Inl e \<Rightarrow>
          if e_width e = 0 then Some (new_clock const_clock st)
          else (case e_node e of
                  Some n \<Rightarrow> clockCompute h (Inr n) st
                | None \<Rightarrow>
                    if e_op e \<in> {OP_ASUINT, OP_ASSINT, OP_ASCLOCK, OP_ASASYNCRESET}
                    then do { c \<leftarrow> operand_at e 0; clockCompute h (Inl c) st }
                    else if e_op e = OP_BITS
                    then (if length (e_values e) \<ge> 2 \<and> e_values e ! 0 = 0 \<and> e_values e ! 1 = 0
                          then do { c \<leftarrow> operand_at e 0; clockCompute h (Inl c) st } else None)
                    else if e_op e = OP_INVALID then Some (new_clock invalid_clock st)
                    else if e_op e = OP_INT \<or> e_op e = OP_EQ then Some (new_clock const_clock st)
                    else if e_op e = OP_OR then Some (new_clock (gate_clock e) st)
                    else if e_op e = OP_AND
                    then do { c \<leftarrow> operand_at e 0; (v, st1) \<leftarrow> clockCompute h (Inl c) st;
                              d \<leftarrow> operand_at e 1; (r, st2) \<leftarrow> clockCompute h (Inl d) st1;
                              clock_and v r st2 }
                    else if e_op e = OP_MUX \<or> e_op e = OP_WHEN
                    then (if child e = [] then None
                          else do { c \<leftarrow> operand_at e 1; (v, st1) \<leftarrow> clockCompute h (Inl c) st;
                                    if mux_clock_ok h (c_store st1 v)
                                    then do { d \<leftarrow> operand_at e 2; (r, st2) \<leftarrow> clockCompute h (Inl d) st1;
                                              if mux_clock_ok h (c_store st2 r)
                                              then Some (clock_mux (child e ! 0) v r st2) else None }
                                    else None })
                    else None))"

section \<open>The pass\<close>

definition compute_clock :: "heap \<Rightarrow> nodeid \<Rightarrow> clocks \<Rightarrow> clocks abortable" where
  "compute_clock h n st =
     (if \<not> nisClock (h n) then Some st
      else do { assert_that (\<not> isArray (h n));
                if ntype (h n) = NODE_INP then Some (snd (remember n (new_clock (node_clock n) st)))
                else do { r \<leftarrow> clockCompute h (Inr n) st; Some (snd r) } })"

definition setConstantZero :: "int \<Rightarrow> nodeid \<Rightarrow> heap \<Rightarrow> heap" where
  "setConstantZero w n h =
     h(n := (h n)\<lparr>assignTree := [\<lparr>root = allocIntEnode w ''0'' False, lvalue = new_leaf n\<rparr>]\<rparr>)"

fun has_read :: "enode \<Rightarrow> bool" where
  "has_read (ENode a cs) \<longleftrightarrow>
     opType a = OP_READ_MEM \<or> (\<exists>c \<in> set cs. case c of None \<Rightarrow> False | Some e \<Rightarrow> has_read e)"

definition isReadTree :: "exptree \<Rightarrow> bool" where
  "isReadTree t = has_read (root t)"

text \<open>The trees of a node run only when the gate is open.\<close>

definition gate_tree :: "node \<Rightarrow> enode \<Rightarrow> exptree \<Rightarrow> exptree" where
  "gate_tree nd g t =
     t\<lparr>root := ENode ((new_eattr OP_WHEN)\<lparr>width := nwidth nd, sign := nsign nd\<rparr>) [Some (dup (dup g)), Some (root t), None]\<rparr>"

definition redirect_clock :: "nodeid \<Rightarrow> nodeid \<Rightarrow> heap \<Rightarrow> heap abortable" where
  "redirect_clock c src h =
     (case assignTree (h c) of
        [] \<Rightarrow> None
      | t # ts \<Rightarrow> Some (h(c := (h c)\<lparr>assignTree :=
          t\<lparr>root := ENode ((new_eattr OP_EMPTY)\<lparr>nodePtr := Some src, width := nwidth (h src)\<rparr>) []\<rparr> # ts\<rparr>)))"

definition clock_of :: "(nodeid \<rightharpoonup> nodeid) \<Rightarrow> clocks \<Rightarrow> nodeid \<Rightarrow> (nodeid \<times> clockVal) abortable" where
  "clock_of clk st n = do { c \<leftarrow> clk n; a \<leftarrow> clockMap st c; Some (c, c_store st a) }"

definition clock_register :: "(nodeid \<rightharpoonup> nodeid) \<Rightarrow> clocks \<Rightarrow> nodeid \<Rightarrow> heap \<Rightarrow> heap abortable" where
  "clock_register clk st n h =
     do { (c, val) \<leftarrow> clock_of clk st n;
          assert_that (gateENode val = None \<or> c_node val \<noteq> None);
          (case (gateENode val, c_node val) of
             (Some g, _) \<Rightarrow> Some (h(n := (h n)\<lparr>assignTree := map (gate_tree (h n) g) (assignTree (h n))\<rparr>))
           | (None, Some src) \<Rightarrow> if ntype (h c) \<noteq> NODE_INP then redirect_clock c src h else Some h
           | (None, None) \<Rightarrow>
               do { r \<leftarrow> regNext (h n);
                    let h1 = setConstantZero 0 r (setConstantZero 0 n h);
                    s \<leftarrow> getSrc h1 n;
                    Some (h1(s := (h1 s)\<lparr>resetTree := None, nreset := ZERO_RESET\<rparr>)) }) }"

definition clock_ext :: "(nodeid \<rightharpoonup> nodeid) \<Rightarrow> clocks \<Rightarrow> nodeid \<Rightarrow> heap \<Rightarrow> heap abortable" where
  "clock_ext clk st n h =
     (if clk n = None then Some h
      else do { (c, val) \<leftarrow> clock_of clk st n;
                (case c_node val of
                   Some src \<Rightarrow> redirect_clock c src h
                 | None \<Rightarrow> Some (fold (setConstantZero 0) (member (h n)) h)) })"

definition clock_port :: "(nodeid \<rightharpoonup> nodeid) \<Rightarrow> clocks \<Rightarrow> nodeid \<Rightarrow> heap \<Rightarrow> heap abortable" where
  "clock_port clk st n h =
     do { (c, val) \<leftarrow> clock_of clk st n;
          assert_that (gateENode val = None \<or> c_node val \<noteq> None);
          (case (gateENode val, c_node val) of
             (Some g, _) \<Rightarrow>
               if ntype (h n) = NODE_WRITER \<or> ntype (h n) = NODE_READWRITER
               then Some (h(n := (h n)\<lparr>assignTree :=
                      map (\<lambda>t. if isReadTree t then t else gate_tree (h n) g t) (assignTree (h n))\<rparr>))
               else Some h
           | (None, Some src) \<Rightarrow> if assignTree (h c) = [] then Some h else redirect_clock c src h
           | (None, None) \<Rightarrow> Some (fold (setConstantZero 0) (member (h n)) h)) }"

definition apply_clock :: "(nodeid \<rightharpoonup> nodeid) \<Rightarrow> clocks \<Rightarrow> nodeid \<Rightarrow> heap \<Rightarrow> heap abortable" where
  "apply_clock clk st n h =
     (if ntype (h n) = NODE_REG_DST then clock_register clk st n h
      else if ntype (h n) = NODE_EXT then clock_ext clk st n h
      else if ntype (h n) \<in> {NODE_READER, NODE_WRITER, NODE_READWRITER} then clock_port clk st n h
      else Some h)"

definition no_clocks :: clocks where
  "no_clocks = \<lparr>c_store = (\<lambda>_. const_clock), c_free = 0, clockMap = Map.empty\<rparr>"

definition clockOptimize :: "(nodeid \<rightharpoonup> nodeid) \<Rightarrow> nodeid list \<Rightarrow> heap \<Rightarrow> heap abortable" where
  "clockOptimize clk allSignals h =
     do { st \<leftarrow> fold_abort (compute_clock h) allSignals no_clocks;
          fold_abort (apply_clock clk st) allSignals h }"

section \<open>Clocks without gates\<close>

text \<open>
  The source of a clock: an input or a register that it reaches through references and
  conversions, or none when it is a literal or nothing is assigned to it.
\<close>

inductive drives :: "heap \<Rightarrow> enode + nodeid \<Rightarrow> nodeid option \<Rightarrow> bool" for h :: heap where
  source: "ntype (h n) = NODE_INP \<or> ntype (h n) = NODE_REG_SRC \<Longrightarrow> drives h (Inr n) (Some n)"
| undriven: "ntype (h n) \<noteq> NODE_INP \<Longrightarrow> ntype (h n) \<noteq> NODE_REG_SRC \<Longrightarrow> assignTree (h n) = [] \<Longrightarrow> drives h (Inr n) None"
| assigned: "ntype (h n) \<noteq> NODE_INP \<Longrightarrow> ntype (h n) \<noteq> NODE_REG_SRC \<Longrightarrow> assignTree (h n) = [t]
     \<Longrightarrow> drives h (Inl (root t)) s \<Longrightarrow> drives h (Inr n) s"
| empty: "e_width e = 0 \<Longrightarrow> drives h (Inl e) None"
| ref: "e_width e \<noteq> 0 \<Longrightarrow> e_node e = Some n \<Longrightarrow> drives h (Inr n) s \<Longrightarrow> drives h (Inl e) s"
| literal: "e_width e \<noteq> 0 \<Longrightarrow> e_node e = None \<Longrightarrow> e_op e = OP_INT \<Longrightarrow> drives h (Inl e) None"
| conv: "e_width e \<noteq> 0 \<Longrightarrow> e_node e = None \<Longrightarrow> e_op e \<in> {OP_ASUINT, OP_ASSINT, OP_ASCLOCK, OP_ASASYNCRESET}
     \<Longrightarrow> operand_at e 0 = Some c \<Longrightarrow> drives h (Inl c) s \<Longrightarrow> drives h (Inl e) s"

lemma drives_unique: "drives h x s \<Longrightarrow> drives h x s' \<Longrightarrow> s' = s"
proof (induction arbitrary: s' rule: drives.induct)
  case (source n)
  from source(2) show ?case by (cases rule: drives.cases) (use source(1) in simp_all)
next
  case (undriven n)
  from undriven(4) show ?case by (cases rule: drives.cases) (use undriven(1-3) in simp_all)
next
  case (assigned n t s)
  from assigned(6) show ?case by (cases rule: drives.cases) (use assigned(1-3,5) in simp_all)
next
  case (empty e)
  from empty(2) show ?case by (cases rule: drives.cases) (use empty(1) in simp_all)
next
  case (ref e n s)
  from ref(5) show ?case by (cases rule: drives.cases) (use ref(1,2,4) in simp_all)
next
  case (literal e)
  from literal(4) show ?case by (cases rule: drives.cases) (use literal(1-3) in simp_all)
next
  case (conv e c s)
  from conv(7) show ?case by (cases rule: drives.cases) (use conv(1-4,6) in auto)
qed

definition plain_clock :: "nodeid option \<Rightarrow> clockVal" where
  "plain_clock s = (case s of None \<Rightarrow> const_clock | Some n \<Rightarrow> node_clock n)"

text \<open>What is in the map is right, and no later step changes it.\<close>

definition clocks_ok :: "heap \<Rightarrow> clocks \<Rightarrow> bool" where
  "clocks_ok h st \<longleftrightarrow>
     (\<forall>n a. clockMap st n = Some a \<longrightarrow> a < c_free st \<and> (\<exists>s. drives h (Inr n) s \<and> c_store st a = plain_clock s))"

definition grown_from :: "clocks \<Rightarrow> clocks \<Rightarrow> bool" where
  "grown_from st st' \<longleftrightarrow>
     c_free st \<le> c_free st' \<and> (\<forall>a < c_free st. c_store st' a = c_store st a) \<and> dom (clockMap st) \<subseteq> dom (clockMap st')"

lemma grown_from_refl: "grown_from st st"
  by (simp add: grown_from_def)

lemma grown_from_trans:
  assumes "grown_from st st1" "grown_from st1 st2"
  shows "grown_from st st2"
proof -
  have "c_store st2 a = c_store st a" if "a < c_free st" for a
    using assms that unfolding grown_from_def by (metis less_le_trans)
  then show ?thesis using assms by (auto simp: grown_from_def subset_iff)
qed

lemma new_clock_ok:
  assumes "clocks_ok h st"
  shows "clocks_ok h (snd (new_clock v st))" "grown_from st (snd (new_clock v st))" "fst (new_clock v st) < c_free (snd (new_clock v st))"
    "c_store (snd (new_clock v st)) (fst (new_clock v st)) = v"
  using assms by (auto simp: clocks_ok_def grown_from_def new_clock_def less_Suc_eq split: if_splits)

lemma remember_ok:
  assumes "clocks_ok h (snd r)" "fst r < c_free (snd r)" "drives h (Inr n) s" "c_store (snd r) (fst r) = plain_clock s"
  shows "clocks_ok h (snd (remember n r))" "grown_from (snd r) (snd (remember n r))" "clockMap (snd (remember n r)) n = Some (fst r)"
    "c_free (snd (remember n r)) = c_free (snd r)" "c_store (snd (remember n r)) = c_store (snd r)" "fst (remember n r) = fst r"
  using assms by (auto simp: clocks_ok_def grown_from_def remember_def)

definition computed :: "heap \<Rightarrow> clocks \<Rightarrow> nodeid option \<Rightarrow> (nat \<times> clocks) option \<Rightarrow> bool" where
  "computed h st s r \<longleftrightarrow>
     (\<exists>a st'. r = Some (a, st') \<and> clocks_ok h st' \<and> grown_from st st' \<and> a < c_free st' \<and> c_store st' a = plain_clock s)"

lemma computed_new: "clocks_ok h st \<Longrightarrow> v = plain_clock s \<Longrightarrow> computed h st s (Some (new_clock v st))"
  using new_clock_ok [of h st v] unfolding computed_def by (metis prod.collapse)

lemma computed_remember:
  assumes "computed h st s (Some r)" "drives h (Inr n) s"
  shows "computed h st s (Some (remember n r))"
proof -
  obtain a st' where r: "r = (a, st')" "clocks_ok h st'" "grown_from st st'" "a < c_free st'" "c_store st' a = plain_clock s"
    using assms(1) by (auto simp: computed_def)
  have "computed h st s (Some (fst (remember n r), snd (remember n r)))"
    unfolding computed_def using remember_ok [of h r n s] r assms(2) grown_from_trans [of st st'] by auto
  then show ?thesis by simp
qed

lemma clockCompute_plain:
  "drives h x s \<Longrightarrow> clocks_ok h st \<Longrightarrow> computed h st s (clockCompute h x st)"
proof (induction arbitrary: st rule: drives.induct)
  case (source n)
  have d: "drives h (Inr n) (Some n)" using source(1) by (rule drives.source)
  show ?case
  proof (cases "clockMap st n")
    case None
    have "clockCompute h (Inr n) st = Some (remember n (new_clock (node_clock n) st))"
      using source(1) None by (simp add: clockCompute.simps [of h "Inr n"])
    then show ?thesis using computed_remember [OF computed_new [OF source(2)] d] by (simp add: plain_clock_def)
  next
    case (Some a)
    then show ?thesis using source(2) drives_unique [OF d] grown_from_refl
      by (auto simp: clockCompute.simps [of h "Inr n"] computed_def clocks_ok_def)
  qed
next
  case (undriven n)
  have d: "drives h (Inr n) None" using undriven(1-3) by (rule drives.undriven)
  show ?case
  proof (cases "clockMap st n")
    case None
    have "clockCompute h (Inr n) st = Some (remember n (new_clock const_clock st))"
      using undriven(1-3) None by (simp add: clockCompute.simps [of h "Inr n"])
    then show ?thesis using computed_remember [OF computed_new [OF undriven(4)] d] by (simp add: plain_clock_def)
  next
    case (Some a)
    then show ?thesis using undriven(4) drives_unique [OF d] grown_from_refl
      by (auto simp: clockCompute.simps [of h "Inr n"] computed_def clocks_ok_def)
  qed
next
  case (assigned n t s)
  have d: "drives h (Inr n) s" using assigned(1-4) by (rule drives.assigned)
  show ?case
  proof (cases "clockMap st n")
    case None
    obtain r where r: "clockCompute h (Inl (root t)) st = Some r" "computed h st s (Some r)"
      using assigned(5) [OF assigned(6)] by (auto simp: computed_def)
    have "clockCompute h (Inr n) st = Some (remember n r)"
      using assigned(1-3) None r(1) by (simp add: clockCompute.simps [of h "Inr n"])
    then show ?thesis using computed_remember [OF r(2) d] by simp
  next
    case (Some a)
    then show ?thesis using assigned(6) drives_unique [OF d] grown_from_refl
      by (auto simp: clockCompute.simps [of h "Inr n"] computed_def clocks_ok_def)
  qed
next
  case (empty e)
  then show ?case using computed_new [of h st const_clock None] by (simp add: clockCompute.simps [of h "Inl e"] plain_clock_def)
next
  case (ref e n s)
  then show ?case by (simp add: clockCompute.simps [of h "Inl e"])
next
  case (literal e)
  then show ?case using computed_new [of h st const_clock None] by (simp add: clockCompute.simps [of h "Inl e"] plain_clock_def)
next
  case (conv e c s)
  then show ?case by (simp add: clockCompute.simps [of h "Inl e"])
qed

lemma compute_clock_plain:
  assumes ok: "clocks_ok h st" and n: "nisClock (h n) \<longrightarrow> \<not> isArray (h n) \<and> (\<exists>s. drives h (Inr n) s)"
  shows "\<exists>st'. compute_clock h n st = Some st' \<and> clocks_ok h st' \<and> dom (clockMap st) \<subseteq> dom (clockMap st')
    \<and> (nisClock (h n) \<longrightarrow> clockMap st' n \<noteq> None)"
proof (cases "nisClock (h n)")
  case False
  then show ?thesis using ok by (simp add: compute_clock_def)
next
  case True
  then obtain s where s: "\<not> isArray (h n)" "drives h (Inr n) s" using n by blast
  show ?thesis
  proof (cases "ntype (h n) = NODE_INP")
    case inp: True
    have d: "drives h (Inr n) (Some n)" using inp by (intro drives.source) simp
    let ?r = "new_clock (node_clock n) st"
    note N = new_clock_ok [OF ok, of "node_clock n"]
    note R = remember_ok [OF N(1,3) d] 
    have e: "c_store (snd ?r) (fst ?r) = plain_clock (Some n)" using N(4) by (simp add: plain_clock_def)
    have "grown_from st (snd (remember n ?r))" using grown_from_trans [OF N(2) R(2) [OF e]] .
    then show ?thesis using True s(1) inp R(1,3) [OF e] by (simp add: compute_clock_def grown_from_def)
  next
    case False
    obtain a st' where r: "clockCompute h (Inr n) st = Some (a, st')" "clocks_ok h st'" "grown_from st st'"
      using clockCompute_plain [OF s(2) ok] by (auto simp: computed_def)
    have "clockMap st' n \<noteq> None"
      using r(1) False by (auto simp: clockCompute.simps [of h "Inr n"] remember_def split: option.splits if_splits list.splits Option.bind_splits)
    then show ?thesis using True s(1) False r by (simp add: compute_clock_def grown_from_def)
  qed
qed

text \<open>
  C22: clocks without gates are traced to their sources.  When every clock signal reaches an
  input, a register, a literal or nothing through references and conversions, the first loop
  of \<^verbatim>\<open>clockOptimize\<close> ends without a failed check, and the map then has for every clock signal a
  value that names exactly that source, or a constant, and no gate.
\<close>

theorem clocks_exact:
  assumes "\<forall>n \<in> set allSignals. nisClock (h n) \<longrightarrow> \<not> isArray (h n) \<and> (\<exists>s. drives h (Inr n) s)"
  shows "\<exists>st. fold_abort (compute_clock h) allSignals no_clocks = Some st
    \<and> (\<forall>n \<in> set allSignals. nisClock (h n) \<longrightarrow>
         (\<exists>a s. clockMap st n = Some a \<and> drives h (Inr n) s \<and> c_store st a = plain_clock s))"
proof -
  have "\<exists>st'. fold_abort (compute_clock h) ns st = Some st' \<and> clocks_ok h st' \<and> dom (clockMap st) \<subseteq> dom (clockMap st')
      \<and> (\<forall>n \<in> set ns. nisClock (h n) \<longrightarrow> clockMap st' n \<noteq> None)"
    if "set ns \<subseteq> set allSignals" "clocks_ok h st" for ns st
    using that
  proof (induction ns arbitrary: st)
    case (Cons n ns)
    obtain st1 where 1: "compute_clock h n st = Some st1" "clocks_ok h st1" "dom (clockMap st) \<subseteq> dom (clockMap st1)"
      "nisClock (h n) \<longrightarrow> clockMap st1 n \<noteq> None"
      using compute_clock_plain [OF Cons.prems(2), of n] assms Cons.prems(1) by auto
    obtain st' where 2: "fold_abort (compute_clock h) ns st1 = Some st'" "clocks_ok h st'" "dom (clockMap st1) \<subseteq> dom (clockMap st')"
      "\<forall>n \<in> set ns. nisClock (h n) \<longrightarrow> clockMap st' n \<noteq> None"
      using Cons.IH [OF _ 1(2)] Cons.prems(1) by auto
    have "nisClock (h n) \<longrightarrow> clockMap st' n \<noteq> None" using 1(4) 2(3) by blast
    then show ?case using 1 2 by auto
  qed simp
  moreover have "clocks_ok h no_clocks" by (simp add: clocks_ok_def no_clocks_def)
  ultimately obtain st where st: "fold_abort (compute_clock h) allSignals no_clocks = Some st" "clocks_ok h st"
    "\<forall>n \<in> set allSignals. nisClock (h n) \<longrightarrow> clockMap st n \<noteq> None" by blast
  have "\<exists>a s. clockMap st n = Some a \<and> drives h (Inr n) s \<and> c_store st a = plain_clock s"
    if "n \<in> set allSignals" "nisClock (h n)" for n
    using st(2,3) that by (fastforce simp: clocks_ok_def)
  then show ?thesis using st(1) by blast
qed

section \<open>Gated clocks\<close>

text \<open>
  A clock input 0, a clock 1 that is off when the signal 3 is high and equal to 0 otherwise,
  and a register 2 with the clock 0.
\<close>

definition demo_clocks :: heap where
  "demo_clocks = (\<lambda>n.
     if n = 0 then (new_node NODE_INP)\<lparr>nwidth := 1, nisClock := True\<rparr>
     else if n = 1 then (new_node NODE_OTHERS)\<lparr>nwidth := 1, nisClock := True,
       assignTree := [\<lparr>root = ENode (new_eattr OP_MUX) [Some (new_leaf 3), Some (allocIntEnode 1 ''0'' False), Some (new_leaf 0)],
                       lvalue = new_leaf 1\<rparr>]\<rparr>
     else if n = 2 then (new_node NODE_REG_DST)\<lparr>nwidth := 8, assignTree := [\<lparr>root = new_leaf 4, lvalue = new_leaf 2\<rparr>]\<rparr>
     else new_node NODE_INP)"

theorem clocks_exact_witness:
  "\<exists>st. fold_abort (compute_clock demo_clocks) [0, 2] no_clocks = Some st
    \<and> (\<exists>a s. clockMap st 0 = Some a \<and> drives demo_clocks (Inr 0) s \<and> c_store st a = plain_clock s)"
proof -
  have "drives demo_clocks (Inr 0) (Some 0)" by (rule drives.source) (simp add: demo_clocks_def new_node_def)
  then have "\<forall>n \<in> set [0, 2]. nisClock (demo_clocks n) \<longrightarrow> \<not> isArray (demo_clocks n) \<and> (\<exists>s. drives demo_clocks (Inr n) s)"
    by (auto simp: demo_clocks_def new_node_def isArray_def)
  note c = clocks_exact [OF this]
  have "nisClock (demo_clocks 0)" by (simp add: demo_clocks_def)
  with c show ?thesis by auto
qed

text \<open>
  C40: a gated clock gates its source.  In this circuit \<^verbatim>\<open>clockOptimize\<close> writes the gate of the clock 1
  into the value that the input 0 has in the map, because both are the same object; the
  register with the ungated clock 0 is then assigned only while the signal 3 is low.
\<close>

theorem clockOptimize_gates_source:
  "clockOptimize [2 \<mapsto> 0] [0, 1, 2] demo_clocks =
     Some (demo_clocks(2 := (demo_clocks 2)\<lparr>assignTree :=
       [gate_tree (demo_clocks 2) (ENode (new_eattr OP_NOT) [Some (new_leaf 3)]) \<lparr>root = new_leaf 4, lvalue = new_leaf 2\<rparr>]\<rparr>))"
proof -
  define e where "e = ENode (new_eattr OP_MUX) [Some (new_leaf 3), Some (allocIntEnode 1 ''0'' False), Some (new_leaf 0)]"
  define g where "g = ENode (new_eattr OP_NOT) [Some (new_leaf 3)]"
  let ?s0 = "\<lparr>c_store = (c_store no_clocks)(0 := node_clock 0), c_free = 1, clockMap = [0 \<mapsto> 0]\<rparr>"
  let ?s1 = "\<lparr>c_store = (c_store ?s0)(1 := const_clock), c_free = 2, clockMap = [0 \<mapsto> 0]\<rparr>"
  let ?s2 = "\<lparr>c_store = (c_store ?s1)(0 := (node_clock 0)\<lparr>gateENode := Some g\<rparr>), c_free = 2, clockMap = [0 \<mapsto> 0, 1 \<mapsto> 0]\<rparr>"
  have n: "demo_clocks 0 = (new_node NODE_INP)\<lparr>nwidth := 1, nisClock := True\<rparr>"
    "demo_clocks 1 = (new_node NODE_OTHERS)\<lparr>nwidth := 1, nisClock := True, assignTree := [\<lparr>root = e, lvalue = new_leaf 1\<rparr>]\<rparr>"
    "demo_clocks 2 = (new_node NODE_REG_DST)\<lparr>nwidth := 8, assignTree := [\<lparr>root = new_leaf 4, lvalue = new_leaf 2\<rparr>]\<rparr>"
    by (simp_all add: demo_clocks_def e_def)
  have c0: "compute_clock demo_clocks 0 no_clocks = Some ?s0"
    by (simp add: compute_clock_def n new_node_def isArray_def remember_def new_clock_def no_clocks_def)
  have z: "clockCompute demo_clocks (Inl (allocIntEnode 1 ''0'' False)) ?s0 = Some (1, ?s1)"
    by (simp add: clockCompute.simps allocIntEnode_def new_eattr_def new_clock_def)
  have r: "clockCompute demo_clocks (Inl (new_leaf 0)) ?s1 = Some (0, ?s1)"
    by (simp add: clockCompute.simps [of _ "Inl _"] clockCompute.simps [of _ "Inr _"] new_leaf_def new_eattr_def)
  have m: "clock_mux (Some (new_leaf 3)) 1 0 ?s1 = (0, put_clock 0 ((node_clock 0)\<lparr>gateENode := Some g\<rparr>) ?s1)"
    by (simp add: clock_mux_def Let_def gated_def node_clock_def const_clock_def g_def)
  have o: "mux_clock_ok demo_clocks (c_store ?s1 1)" "mux_clock_ok demo_clocks (c_store ?s1 0)"
    by (simp_all add: mux_clock_ok_def node_clock_def const_clock_def n new_node_def)
  have ee: "e_width e \<noteq> 0" "e_node e = None" "e_op e = OP_MUX" "child e \<noteq> []" "child e ! 0 = Some (new_leaf 3)"
    "operand_at e 1 = Some (allocIntEnode 1 ''0'' False)" "operand_at e 2 = Some (new_leaf 0)"
    by (simp_all add: e_def new_eattr_def operand_at_def)
  define s0 s1 where "s0 = ?s0" and "s1 = ?s1"
  have "clockCompute demo_clocks (Inl e) s0 = Some (0, put_clock 0 ((node_clock 0)\<lparr>gateENode := Some g\<rparr>) s1)"
    using z r m o unfolding s1_def [symmetric] unfolding s0_def [symmetric]
    by (subst clockCompute.simps) (simp add: ee del: One_nat_def)
  moreover have free: "clockMap s0 1 = None" by (simp add: s0_def)
  ultimately have "clockCompute demo_clocks (Inr 1) s0 = Some (remember 1 (0, put_clock 0 ((node_clock 0)\<lparr>gateENode := Some g\<rparr>) s1))"
    using n(2) free by (subst clockCompute.simps) (simp add: new_node_def del: One_nat_def)
  then have "clockCompute demo_clocks (Inr 1) ?s0 = Some (0, ?s2)"
    by (simp add: s0_def s1_def remember_def put_clock_def fun_upd_twist)
  then have c1: "compute_clock demo_clocks 1 ?s0 = Some ?s2"
    using n(2) by (simp add: compute_clock_def new_node_def isArray_def del: One_nat_def)
  have c2: "compute_clock demo_clocks 2 ?s2 = Some ?s2" by (simp add: compute_clock_def n new_node_def)
  have a: "apply_clock [2 \<mapsto> 0] ?s2 0 demo_clocks = Some demo_clocks" "apply_clock [2 \<mapsto> 0] ?s2 1 demo_clocks = Some demo_clocks"
    using n(1,2) by (simp_all add: apply_clock_def new_node_def del: One_nat_def)
  have b: "apply_clock [2 \<mapsto> 0] ?s2 2 demo_clocks = Some (demo_clocks(2 := (demo_clocks 2)\<lparr>assignTree :=
       [gate_tree (demo_clocks 2) g \<lparr>root = new_leaf 4, lvalue = new_leaf 2\<rparr>]\<rparr>))"
    by (simp add: apply_clock_def n new_node_def clock_register_def clock_of_def node_clock_def)
  show ?thesis
    using c0 c1 c2 a b unfolding clockOptimize_def g_def by (simp del: One_nat_def)
qed

end
