(* ===== verification/StmtTree.thy ===== *)
theory StmtTree
  imports TopoSort
begin

section \<open>Statement trees\<close>

text \<open>
  \<^verbatim>\<open>src/StmtTree.cpp\<close> and \<^verbatim>\<open>include/StmtTree.h\<close>: the assignment trees of the members of a super node
  become one tree of statements.  Conditions that occur in several assignments are tested
  once; for that an assignment may move in front of assignments it does not depend on.  How
  far it may move is a path: the position, as a child number for every nested sequence, that
  bounds everything it depends on.  This theory has the operations; \<open>StmtPaths\<close> shows that
  paths are bounds in the lexicographic order of positions and \<open>StmtSound\<close> that the tree does what
  the assignments do one after another.

  A \<^verbatim>\<open>StmtNode\<close> is a value of \<open>stmtnode\<close>: its type is the constructor.  The source makes a \<^verbatim>\<open>STMT_WHEN\<close>
  with exactly three children, the condition (a \<^verbatim>\<open>StmtNode\<close> that holds an \<^verbatim>\<open>ENode\<close>) and two sequences.
  Child numbers and depths are natural numbers.  The loops with explicit stacks visit the second
  branch of a condition before the first; so do the recursions here.
\<close>

datatype stmtnode =
    STMT_NODE exptree "nodeid option"
  | STMT_WHEN enode "nodeid option" stmtnode stmtnode
  | STMT_SEQ "stmtnode list"

type_synonym path = "nat list"

subsection \<open>Conditions\<close>

definition same_attr :: "eattr \<Rightarrow> eattr \<Rightarrow> bool" where
  "same_attr a b \<longleftrightarrow>
     opType a = opType b \<and> width a = width b \<and> sign a = sign b
     \<and> (opType a = OP_INT \<longrightarrow> strVal a = strVal b)
     \<and> nodePtr a = nodePtr b \<and> evalues a = evalues b"

lemma zipped_child_size [termination_simp]:
  "(c, d) \<in> set (zip cs ds) \<Longrightarrow> size_option size (c :: enode option) < Suc (Suc (size_list (size_option size) cs))"
  by (auto dest!: set_zip_leftD size_list_estimation' [where f = "size_option size", OF _ order_refl])

fun checkCondENodeSame :: "enode option \<Rightarrow> enode option \<Rightarrow> bool" where
  "checkCondENodeSame None None = True"
| "checkCondENodeSame (Some (ENode a cs)) (Some (ENode b ds)) =
     (same_attr a b \<and> length cs = length ds
      \<and> (\<forall>(c, d) \<in> set (zip cs ds). checkCondENodeSame c d))"
| "checkCondENodeSame _ _ = False"

definition conditional :: "enode \<Rightarrow> bool" where
  "conditional e \<longleftrightarrow> e_op e = OP_WHEN \<or> e_op e = OP_RESET"

text \<open>
  A conditional expression without children fails the assertion of \<^verbatim>\<open>getChild\<close> wherever it is
  used, so that its comparison may give any result.
\<close>

definition checkCondEq :: "stmtnode \<Rightarrow> enode \<Rightarrow> bool" where
  "checkCondEq st e \<longleftrightarrow>
     conditional e
     \<and> (case st of
          STMT_WHEN c _ _ _ \<Rightarrow> (case child e of [] \<Rightarrow> False | c' # _ \<Rightarrow> checkCondENodeSame c' (Some c))
        | _ \<Rightarrow> False)"

text \<open>The condition and the two branches; the condition is dereferenced, a branch may be null.\<close>

definition when_parts :: "enode \<Rightarrow> (enode \<times> enode option \<times> enode option) abortable" where
  "when_parts e =
     (case child e of
        Some c # t # rest \<Rightarrow> Some (c, t, case rest of [] \<Rightarrow> None | f # _ \<Rightarrow> f)
      | _ \<Rightarrow> None)"

lemma when_parts_size [termination_simp]:
  "when_parts e = Some (c, t, f) \<Longrightarrow> x \<in> set_option t \<union> set_option f \<Longrightarrow> size x < size e"
proof (cases e)
  case (ENode a cs)
  assume "when_parts e = Some (c, t, f)" "x \<in> set_option t \<union> set_option f"
  then have "Some x \<in> set cs"
    by (auto simp: when_parts_def ENode split: list.splits option.splits)
  from child_size [OF this] show ?thesis by (simp add: ENode)
qed

subsection \<open>Paths\<close>

definition addDepthPath :: "path \<Rightarrow> nat \<Rightarrow> nat \<Rightarrow> path" where
  "addDepthPath path depth nodeIdx =
     (if length path \<le> depth then path @ [nodeIdx]
      else if path ! depth < nodeIdx then take depth path @ [nodeIdx]
      else path)"

fun isFirst :: "path \<Rightarrow> path \<Rightarrow> bool" where
  "isFirst [] path2 = False"
| "isFirst (x # path1) [] = True"
| "isFirst (x # path1) (y # path2) = (if x > y then True else if x < y then False else isFirst path1 path2)"

definition maxPath :: "path \<Rightarrow> path \<Rightarrow> path" where
  "maxPath path1 path2 = (if isFirst path1 path2 then path1 else path2)"

subsection \<open>New conditions\<close>

text \<open>
  \<^verbatim>\<open>generateWhenTree\<close>: \<open>gen_node\<close> is the body of the loop for a popped expression, \<open>gen_branch\<close> adds
  its result to the sequence of the enclosing branch, where it is the only child.
\<close>

function gen_node :: "enode \<Rightarrow> nodeid option \<Rightarrow> enode \<Rightarrow> nat \<Rightarrow> path \<Rightarrow> (stmtnode \<times> path) abortable"
  and gen_branch :: "enode \<Rightarrow> nodeid option \<Rightarrow> enode option \<Rightarrow> nat \<Rightarrow> path \<Rightarrow> (stmtnode list \<times> path) abortable" where
  "gen_node lv b e depth subPath =
     (if conditional e
      then (case when_parts e of
              None \<Rightarrow> None
            | Some (c, t, f) \<Rightarrow>
                (case gen_branch lv b f (depth + 1) subPath of
                   None \<Rightarrow> None
                 | Some (fs, p1) \<Rightarrow>
                     (case gen_branch lv b t (depth + 1) p1 of
                        None \<Rightarrow> None
                      | Some (ts, p2) \<Rightarrow> Some (STMT_WHEN (dup c) b (STMT_SEQ ts) (STMT_SEQ fs), p2))))
      else Some (STMT_NODE \<lparr>root = dup e, lvalue = dup lv\<rparr> b, subPath))"
| "gen_branch lv b None depth subPath = Some ([], subPath)"
| "gen_branch lv b (Some e) depth subPath =
     map_option (\<lambda>(s, p). ([s], p)) (gen_node lv b e depth (addDepthPath subPath depth 0))"
  by pat_completeness auto
termination
  by (relation "measures [\<lambda>x. case x of Inl (lv, b, e, depth, p) \<Rightarrow> Suc (size e)
        | Inr (lv, b, eo, depth, p) \<Rightarrow> (case eo of None \<Rightarrow> 0 | Some e \<Rightarrow> Suc (size e)),
      \<lambda>x. case x of Inl _ \<Rightarrow> 0 | Inr _ \<Rightarrow> 1]")
     (auto simp: when_parts_size split: option.splits)

definition generateWhenTree ::
    "nat \<Rightarrow> enode \<Rightarrow> enode \<Rightarrow> nodeid option \<Rightarrow> (stmtnode \<times> path) abortable" where
  "generateWhenTree childNum lv e belong =
     do { assert_that (conditional e); gen_node lv belong e 1 (addDepthPath [] 0 childNum) }"

subsection \<open>Merging an assignment into a tree\<close>

definition is_when :: "stmtnode \<Rightarrow> bool" where
  "is_when st \<longleftrightarrow> (case st of STMT_WHEN _ _ _ _ \<Rightarrow> True | _ \<Rightarrow> False)"

text \<open>The loop that looks for an earlier assignment; it skips a child after each one it erases.\<close>

fun erase_node :: "nodeid \<Rightarrow> stmtnode list \<Rightarrow> stmtnode list abortable" where
  "erase_node n [] = Some []"
| "erase_node n (STMT_NODE t b # xs) =
     do { m \<leftarrow> e_node (lvalue t);
          if m = n
          then (case xs of [] \<Rightarrow> Some [] | y # ys \<Rightarrow> map_option ((#) y) (erase_node n ys))
          else map_option ((#) (STMT_NODE t b)) (erase_node n xs) }"
| "erase_node n (x # xs) = map_option ((#) x) (erase_node n xs)"

fun append_leaf :: "stmtnode \<Rightarrow> stmtnode \<Rightarrow> stmtnode" where
  "append_leaf (STMT_SEQ ys) leaf = STMT_SEQ (ys @ [leaf])"
| "append_leaf x leaf = STMT_SEQ [x, leaf]"

definition place_leaf ::
    "heap \<Rightarrow> path \<Rightarrow> enode \<Rightarrow> nodeid option \<Rightarrow> stmtnode list \<Rightarrow> enode \<Rightarrow> nat \<Rightarrow> bool \<Rightarrow> path
     \<Rightarrow> (stmtnode list \<times> path) abortable" where
  "place_leaf h path lv b xs e depth anyLimit nodePath =
     do { node \<leftarrow> e_node lv;
          xs1 \<leftarrow> (if \<not> isArray (h node) \<and> e_op e \<noteq> OP_INVALID then erase_node node xs else Some xs);
          let leaf = STMT_NODE \<lparr>root = dup e, lvalue = dup lv\<rparr> b;
              start = (if anyLimit then min (length xs1) (path ! depth) else 0)
          in Some (case find (\<lambda>i. \<not> is_when (xs1 ! i)) [start..<length xs1] of
                     Some i \<Rightarrow> (xs1[i := append_leaf (xs1 ! i) leaf], addDepthPath nodePath depth i)
                   | None \<Rightarrow> (xs1 @ [leaf], addDepthPath nodePath depth (length xs1))) }"

definition find_when :: "path \<Rightarrow> stmtnode list \<Rightarrow> enode \<Rightarrow> nat \<Rightarrow> bool \<Rightarrow> nat option" where
  "find_when path xs e depth anyLimit =
     find (\<lambda>i. checkCondEq (xs ! i) e \<and> (\<not> anyLimit \<or> path ! depth \<le> i)) [0..<length xs]"

definition add_subPath :: "path \<Rightarrow> nat \<Rightarrow> path \<Rightarrow> path" where
  "add_subPath nodePath depth subPath =
     fold (\<lambda>(i, x) p. addDepthPath p (depth + i) x) (List.enumerate 0 subPath) nodePath"

lemma find_when_matches:
  "find_when path xs e depth l = Some i \<Longrightarrow>
     i < length xs \<and> checkCondEq (xs ! i) e \<and> (l \<longrightarrow> path ! depth \<le> i)"
  by (auto simp: find_when_def find_Some_iff)

text \<open>
  \<^verbatim>\<open>mergeExpTree\<close>: \<open>merge_node\<close> is the body of the loop for a popped pair, \<open>merge_branch\<close> pushes a
  branch that is not null.
\<close>

function merge_node :: "heap \<Rightarrow> path \<Rightarrow> enode \<Rightarrow> nodeid option \<Rightarrow> stmtnode \<Rightarrow> enode \<Rightarrow> nat \<Rightarrow> bool \<Rightarrow> path
    \<Rightarrow> (stmtnode \<times> path) abortable"
  and merge_branch :: "heap \<Rightarrow> path \<Rightarrow> enode \<Rightarrow> nodeid option \<Rightarrow> stmtnode \<Rightarrow> enode option \<Rightarrow> nat \<Rightarrow> bool \<Rightarrow> path
    \<Rightarrow> (stmtnode \<times> path) abortable" where
  "merge_node h path lv b (STMT_WHEN c wb ts fs) e depth anyLimit nodePath =
     (let limit = (anyLimit \<and> depth < length path) in
      if checkCondEq (STMT_WHEN c wb ts fs) e
      then (case when_parts e of
              None \<Rightarrow> None
            | Some (_, t, f) \<Rightarrow>
                (case merge_branch h path lv b fs f depth limit nodePath of
                   None \<Rightarrow> None
                 | Some (fs', np1) \<Rightarrow>
                     (case merge_branch h path lv b ts t depth limit np1 of
                        None \<Rightarrow> None
                      | Some (ts', np2) \<Rightarrow> Some (STMT_WHEN c wb ts' fs', np2))))
      else None)"
| "merge_node h path lv b (STMT_SEQ xs) e depth anyLimit nodePath =
     (let limit = (anyLimit \<and> depth < length path) in
      if conditional e
      then (case find_when path xs e depth limit of
              Some i \<Rightarrow>
                (case merge_node h path lv b (xs ! i) e (depth + 1) (limit \<and> \<not> path ! depth < i)
                        (addDepthPath nodePath depth i) of
                   None \<Rightarrow> None
                 | Some (x', np) \<Rightarrow> Some (STMT_SEQ (xs[i := x']), np))
            | None \<Rightarrow>
                do { (w, subPath) \<leftarrow> generateWhenTree (length xs) lv e b;
                     Some (STMT_SEQ (xs @ [w]), add_subPath nodePath depth subPath) })
      else map_option (\<lambda>(xs', np). (STMT_SEQ xs', np)) (place_leaf h path lv b xs e depth limit nodePath))"
| "merge_node h path lv b (STMT_NODE t nb) e depth anyLimit nodePath = None"
| "merge_branch h path lv b st None depth anyLimit nodePath = Some (st, nodePath)"
| "merge_branch h path lv b st (Some e) depth anyLimit nodePath = merge_node h path lv b st e depth anyLimit nodePath"
  by pat_completeness auto

text \<open>Either the expression gets smaller, or a sequence is left for the condition found in it.\<close>

termination
  by (relation "measures [\<lambda>x. case x of Inl (h, path, lv, b, st, e, depth, l, np) \<Rightarrow> Suc (size e)
        | Inr (h, path, lv, b, st, eo, depth, l, np) \<Rightarrow> (case eo of None \<Rightarrow> 0 | Some e \<Rightarrow> Suc (size e)),
      \<lambda>x. case x of Inl (h, path, lv, b, st, e, depth, l, np) \<Rightarrow> if is_when st then 0 else 1 | Inr _ \<Rightarrow> 2]")
     (auto simp: is_when_def checkCondEq_def when_parts_size split: option.splits stmtnode.splits
       dest!: find_when_matches)

definition mergeExpTree ::
    "heap \<Rightarrow> stmtnode \<Rightarrow> exptree \<Rightarrow> path \<Rightarrow> path \<Rightarrow> nodeid option \<Rightarrow> (stmtnode \<times> path) abortable" where
  "mergeExpTree h st tree prevPath nodePath belong =
     merge_node h (maxPath prevPath nodePath) (lvalue tree) belong st (root tree) 1 True
       (addDepthPath nodePath 0 0)"

definition addSeq :: "stmtnode \<Rightarrow> exptree \<Rightarrow> nodeid option \<Rightarrow> stmtnode abortable" where
  "addSeq st tree belong =
     (case st of STMT_SEQ xs \<Rightarrow> Some (STMT_SEQ (xs @ [STMT_NODE (dup_tree tree) belong])) | _ \<Rightarrow> None)"

definition mergeStmtTree :: "stmtnode \<Rightarrow> stmtnode \<Rightarrow> stmtnode abortable" where
  "mergeStmtTree st st' =
     (case (st, st') of (STMT_SEQ xs, STMT_SEQ ys) \<Rightarrow> Some (STMT_SEQ (xs @ ys)) | _ \<Rightarrow> None)"

subsection \<open>What a member depends on\<close>

fun merge_prev_path :: "path \<Rightarrow> path \<Rightarrow> path" where
  "merge_prev_path [] q = q"
| "merge_prev_path (x # p) [] = x # p"
| "merge_prev_path (x # p) (y # q) = (if x \<le> y then y # merge_prev_path p q else x # p)"

text \<open>
  \<^verbatim>\<open>prevOrderPath\<close>: the predecessors in the same super node by their position in \<open>ns\<close>, the members;
  \<^verbatim>\<open>memberRank.at\<close> throws for a node that is none.
\<close>

definition prevOrderPath :: "heap \<Rightarrow> nodeid list \<Rightarrow> nodeid \<Rightarrow> (nodeid \<rightharpoonup> path) \<Rightarrow> path abortable" where
  "prevOrderPath h ns n allPath =
     do { assert_that (\<forall>m \<in> depPrev (h n). super (h m) = super (h n) \<longrightarrow> m \<in> set ns);
          fold_abort (\<lambda>m p. map_option (merge_prev_path p) (allPath m))
            (filter (\<lambda>m. m \<in> depPrev (h n) \<and> super (h m) = super (h n)) ns) [] }"

subsection \<open>The order of the members\<close>

text \<open>
  \<^verbatim>\<open>reorderMember\<close>: \<open>frontier\<close> is the vector from \<^verbatim>\<open>head\<close> on.  Successors in the super node are visited by
  rank, their position in the old order; one that is no member could not be counted down to
  zero.  The loop may not end on edges that are not symmetric.
\<close>

definition rank_of :: "nodeid list \<Rightarrow> nodeid \<Rightarrow> nat" where
  "rank_of ns n = length (takeWhile (\<lambda>m. m \<noteq> n) ns)"

definition count_down :: "nodeid list \<Rightarrow> nodeid \<Rightarrow> (nodeid \<Rightarrow> int) \<times> nodeid list \<Rightarrow> (nodeid \<Rightarrow> int) \<times> nodeid list" where
  "count_down ns n st =
     (case st of (nodePrev, frontier) \<Rightarrow>
        let c = nodePrev n - 1
        in (nodePrev(n := c), if c = 0 then insort_key (rank_of ns) n frontier else frontier))"

definition nexts_in :: "heap \<Rightarrow> superid \<Rightarrow> nodeid list \<Rightarrow> nodeid \<Rightarrow> nodeid list" where
  "nexts_in h s ns n = filter (\<lambda>m. m \<in> depNext (h n) \<and> super (h m) = Some s) ns"

partial_function (option) reorder_loop ::
    "heap \<Rightarrow> superid \<Rightarrow> nodeid list \<Rightarrow> nodeid list \<Rightarrow> (nodeid \<Rightarrow> int) \<Rightarrow> nodeid list \<Rightarrow> nodeid list option" where
  "reorder_loop h s ns frontier nodePrev newMember =
     (case frontier of
        [] \<Rightarrow> Some newMember
      | n # rest \<Rightarrow>
          (case fold (count_down ns) (nexts_in h s ns n) (nodePrev, rest) of
             (nodePrev', frontier') \<Rightarrow> reorder_loop h s ns frontier' nodePrev' (newMember @ [n])))"

definition nodePrev_of :: "heap \<Rightarrow> superid \<Rightarrow> nodeid \<Rightarrow> int" where
  "nodePrev_of h s n = int (card {p \<in> depPrev (h n). super (h p) = Some s})"

definition reorderMember :: "heap \<Rightarrow> superid \<Rightarrow> nodeid list \<Rightarrow> nodeid list abortable" where
  "reorderMember h s ns =
     do { newMember \<leftarrow> reorder_loop h s ns
            (sort_key (rank_of ns) (filter (\<lambda>n. nodePrev_of h s n = 0) ns)) (nodePrev_of h s) [];
          assert_that (length newMember = length ns);
          Some newMember }"

subsection \<open>All statement trees\<close>

text \<open>
  \<^verbatim>\<open>generateStmtTree\<close> in the order of its loops.  First the edges of a member with one reader in its own
  super node are added again.
\<close>

definition only_read_inside :: "heap \<Rightarrow> superid \<Rightarrow> nodeid \<Rightarrow> bool" where
  "only_read_inside h s n \<longleftrightarrow>
     card {m \<in> depNext (h n). super (h m) = Some s} = 1 \<and> card (next (h n)) = 1
     \<and> (\<forall>m \<in> next (h n). super (h m) = Some s)"

definition reconnect_super_members :: "graph \<Rightarrow> superid \<Rightarrow> heap \<Rightarrow> heap abortable" where
  "reconnect_super_members g s h =
     (if superType (supers g s) \<noteq> SUPER_VALID then Some h
      else fold_abort (\<lambda>n h. if only_read_inside h s n then updateConnect n h else Some h)
             (rev (smember (supers g s))) h)"

definition reorder_super :: "superid \<Rightarrow> graph \<Rightarrow> graph abortable" where
  "reorder_super s g =
     do { ns \<leftarrow> reorderMember (nodes g) s (smember (supers g s));
          Some (g\<lparr>supers := (supers g)(s := (supers g s)\<lparr>smember := ns\<rparr>)\<rparr>) }"

text \<open>The assignment of an asynchronous reset is repeated for the next value of the register.\<close>

definition async_dst :: "heap \<Rightarrow> nodeid \<Rightarrow> exptree \<Rightarrow> exptree list abortable" where
  "async_dst h n t =
     (if ntype (h n) = NODE_REG_SRC \<and> nreset (h n) = ASYRESET \<and> regSplit (h n)
      then do { d \<leftarrow> getDst h n;
                Some (if status (h d) = VALID_NODE \<and> \<not> (e_node (root t) = Some d \<and> getChildNum (root t) = 0)
                      then (case dup (lvalue t) of
                              ENode a cs \<Rightarrow> [\<lparr>root = root t, lvalue = ENode (a\<lparr>nodePtr := Some d\<rparr>) cs\<rparr>])
                      else []) }
      else Some [])"

definition member_trees :: "heap \<Rightarrow> nodeid \<Rightarrow> (exptree \<times> nodeid option) list abortable" where
  "member_trees h n =
     map_option concat (those (map (\<lambda>t. map_option (\<lambda>ds. (t, Some n) # map (\<lambda>d. (d, None)) ds) (async_dst h n t))
       (assignTree (h n))))"

definition merge_trees :: "heap \<Rightarrow> path \<Rightarrow> (exptree \<times> nodeid option) list \<Rightarrow> stmtnode \<times> path
    \<Rightarrow> (stmtnode \<times> path) abortable" where
  "merge_trees h prevPath = fold_abort (\<lambda>(t, b) (st, nodePath). mergeExpTree h st t prevPath nodePath b)"

definition merge_member :: "heap \<Rightarrow> nodeid list \<Rightarrow> nodeid \<Rightarrow> stmtnode \<times> (nodeid \<rightharpoonup> path)
    \<Rightarrow> (stmtnode \<times> (nodeid \<rightharpoonup> path)) abortable" where
  "merge_member h ns n st =
     (case st of (tree, allPath) \<Rightarrow>
        do { prevPath \<leftarrow> prevOrderPath h ns n allPath;
             ts \<leftarrow> member_trees h n;
             (tree', nodePath) \<leftarrow> merge_trees h prevPath ts (tree, []);
             Some (tree', allPath(n \<mapsto> nodePath)) })"

definition super_stmts :: "heap \<Rightarrow> nodeid list \<Rightarrow> (nodeid \<rightharpoonup> path) \<Rightarrow> (stmtnode \<times> (nodeid \<rightharpoonup> path)) abortable" where
  "super_stmts h ns allPath = fold_abort (merge_member h ns) ns (STMT_SEQ [], allPath)"

definition reset_stmts :: "heap \<Rightarrow> nodeid list \<Rightarrow> stmtnode abortable" where
  "reset_stmts h ns =
     fold_abort (\<lambda>(t, n) st. map_option fst (mergeExpTree h st t [] [] (Some n)))
       (concat (map (\<lambda>n. map (\<lambda>t. (t, n)) (assignTree (h n))) ns)) (STMT_SEQ [])"

definition sorted_stmts :: "graph \<Rightarrow> ((superid \<rightharpoonup> stmtnode) \<times> (nodeid \<rightharpoonup> path)) abortable" where
  "sorted_stmts g =
     fold_abort (\<lambda>s (T, allPath). map_option (\<lambda>(st, P). (T(s \<mapsto> st), P))
                                     (super_stmts (nodes g) (smember (supers g s)) allPath))
       (sortedSuper g) (Map.empty, Map.empty)"

definition order_and_merge :: "graph \<Rightarrow> (graph \<times> (superid \<rightharpoonup> stmtnode)) abortable" where
  "order_and_merge g =
     do { g' \<leftarrow> fold_abort reorder_super (sortedSuper g) g;
          (T, _) \<leftarrow> sorted_stmts g';
          Some (g', T) }"

text \<open>\<open>allReset\<close> are the super nodes of that list; the results are the trees of both lists.\<close>

definition generateStmtTree :: "superid list \<Rightarrow> graph \<Rightarrow> (graph \<times> (superid \<rightharpoonup> stmtnode) \<times> stmtnode list) abortable" where
  "generateStmtTree allReset g =
     (let g1 = orderAllNodes g
      in do { h \<leftarrow> fold_abort (reconnect_super_members g1) (rev (sortedSuper g1)) (nodes g1);
              g2 \<leftarrow> connectDep (g1\<lparr>nodes := h\<rparr>);
              (g3, T) \<leftarrow> order_and_merge g2;
              rs \<leftarrow> those (map (\<lambda>s. reset_stmts (nodes g3) (smember (supers g3 s))) allReset);
              Some (g3, T, rs) })"

end
