(* ===== verification/StmtPaths.thy ===== *)
theory StmtPaths
  imports StmtTree
begin

section \<open>Paths bound positions\<close>

text \<open>
  The position of a statement is the list of child numbers that leads to it, one for every
  sequence it is nested in.  Positions are ordered lexicographically, as \<^verbatim>\<open>std::vector\<close> is, which is
  the order of execution.  The operations on paths compute upper bounds in that order.
\<close>

lemma isFirst_iff: "isFirst p q \<longleftrightarrow> q < p"
  by (induction p q rule: isFirst.induct) auto

lemma maxPath_max: "maxPath p q = max p q"
  by (auto simp: maxPath_def isFirst_iff max_def)

lemma merge_prev_path_le: "p \<le> merge_prev_path p q" "q \<le> merge_prev_path p q"
  by (induction p q rule: merge_prev_path.induct) auto

lemma prefix_le: "(p :: path) \<le> p @ q"
  by (induction p) auto

lemma append_le_append [simp]: "(p :: path) @ q \<le> p @ r \<longleftrightarrow> q \<le> r"
  by (induction p) auto

text \<open>A path bounds a prefix of positions of the same length when it does so in its first numbers.\<close>

definition bounds :: "path \<Rightarrow> path \<Rightarrow> bool" where
  "bounds q np \<longleftrightarrow> length q \<le> length np \<and> q \<le> take (length q) np"

lemma bounds_le: "bounds q np \<Longrightarrow> q \<le> np"
  using prefix_le [of "take (length q) np" "drop (length q) np"]
  by (auto simp: bounds_def intro: order_trans)

lemma same_length_le:
  "length (p :: path) = length q \<Longrightarrow> p @ [x] \<le> q @ [y] \<longleftrightarrow> p < q \<or> p = q \<and> x \<le> y"
  by (induction p q rule: list_induct2) auto

lemma addDepthPath_bounds:
  assumes "bounds q np"
  shows "bounds (q @ [i]) (addDepthPath np (length q) i)"
proof -
  have l: "length q \<le> length np" and le: "q \<le> take (length q) np" using assms by (simp_all add: bounds_def)
  show ?thesis
  proof (cases "length np \<le> length q")
    case True
    with l le show ?thesis by (auto simp: bounds_def addDepthPath_def same_length_le less_le)
  next
    case False
    then have "take (Suc (length q)) np = take (length q) np @ [np ! length q]" by (simp add: take_Suc_conv_app_nth)
    with l le False show ?thesis by (auto simp: bounds_def addDepthPath_def same_length_le less_le)
  qed
qed

lemma addDepthPath_mono: "np \<le> addDepthPath np d i"
proof (cases "length np \<le> d")
  case False
  then have "np = take d np @ np ! d # drop (Suc d) np" by (simp add: id_take_nth_drop)
  then show ?thesis
    by (auto simp: addDepthPath_def) (metis Cons_le_Cons append_le_append less_imp_le not_less order_refl)
qed (simp add: addDepthPath_def prefix_le)

lemma addDepthPath_take: "d \<le> k \<Longrightarrow> d \<le> length np \<Longrightarrow> take d (addDepthPath np k i) = take d np \<and> d \<le> length (addDepthPath np k i)"
  by (auto simp: addDepthPath_def min_def)

text \<open>Changes at a depth leave the numbers before it.\<close>

definition path_step :: "nat \<Rightarrow> path \<Rightarrow> path \<Rightarrow> bool" where
  "path_step d np np' \<longleftrightarrow> np \<le> np' \<and> take d np' = take d np \<and> d \<le> length np'"

lemma path_step_refl: "d \<le> length np \<Longrightarrow> path_step d np np"
  by (simp add: path_step_def)

lemma path_step_trans: "path_step d np np' \<Longrightarrow> path_step d np' np'' \<Longrightarrow> path_step d np np''"
  by (auto simp: path_step_def)

lemma path_step_shallower: "path_step (Suc d) np np' \<Longrightarrow> path_step d np np'"
  unfolding path_step_def by (metis Suc_leD min.absorb1 order_refl take_take le_SucI)

lemma path_step_add: "d \<le> k \<Longrightarrow> d \<le> length np \<Longrightarrow> path_step d np (addDepthPath np k i)"
  by (simp add: path_step_def addDepthPath_mono addDepthPath_take)

lemma path_step_bounds: "path_step (length q) np np' \<Longrightarrow> bounds q np \<Longrightarrow> bounds q np'"
  by (simp add: path_step_def bounds_def)

lemma add_subPath_Cons:
  "add_subPath np d (i # sub) = add_subPath (addDepthPath np d i) (Suc d) sub"
proof -
  have "fold (\<lambda>(i, x) p. addDepthPath p (d + i) x) (List.enumerate (Suc k) xs) p
      = fold (\<lambda>(i, x) p. addDepthPath p (Suc d + i) x) (List.enumerate k xs) p" for k xs p
    by (induction xs arbitrary: k p) auto
  then show ?thesis by (simp add: add_subPath_def)
qed

lemma add_subPath_bounds:
  "bounds q np \<Longrightarrow> bounds (q @ sub) (add_subPath np (length q) sub) \<and> path_step (length q) np (add_subPath np (length q) sub)"
proof (induction sub arbitrary: q np)
  case Nil
  then show ?case by (simp add: add_subPath_def path_step_def bounds_def)
next
  case (Cons i sub)
  let ?np = "addDepthPath np (length q) i"
  have "bounds (q @ [i]) ?np" by (rule addDepthPath_bounds [OF Cons.prems])
  from Cons.IH [OF this]
  have IH: "bounds (q @ i # sub) (add_subPath np (length q) (i # sub))"
    "path_step (length q) ?np (add_subPath np (length q) (i # sub))"
    by (simp_all add: add_subPath_Cons path_step_shallower)
  have "path_step (length q) np ?np" using Cons.prems by (intro path_step_add) (auto simp: bounds_def)
  with IH show ?case using path_step_trans by blast
qed

text \<open>
  The path of a new condition: zeros after its first number, at least as many as the nesting
  of any statement in it.
\<close>

definition zeros_path :: "nat \<Rightarrow> path \<Rightarrow> bool" where
  "zeros_path n p \<longleftrightarrow> (\<exists>k. p = n # replicate k 0)"

lemma addDepthPath_zeros:
  assumes "zeros_path n p" "d \<le> Suc (length p)"
  shows "zeros_path n (addDepthPath p d 0)" "d \<le> length (addDepthPath p d 0)"
proof -
  obtain k where k: "p = n # replicate k 0" using assms(1) by (auto simp: zeros_path_def)
  then have "zeros_path n (p @ [0])" by (simp add: zeros_path_def replicate_append_same exI [of _ "Suc k"])
  with assms show "zeros_path n (addDepthPath p d 0)" by (simp add: addDepthPath_def)
  show "d \<le> length (addDepthPath p d 0)" using assms(2) by (simp add: addDepthPath_def)
qed

lemma zeros_path_le:
  assumes "zeros_path n p" "k < length p"
  shows "n # replicate k 0 \<le> p"
proof -
  obtain j where j: "p = n # replicate j 0" using assms(1) by (auto simp: zeros_path_def)
  with assms(2) have "p = n # replicate k 0 @ replicate (j - k) 0" by (simp flip: replicate_add)
  then show ?thesis by (simp add: prefix_le)
qed

end
