(* ===== verification/StmtSem.thy ===== *)
theory StmtSem
  imports StmtPaths
begin

section \<open>The meaning of statement trees\<close>

text \<open>
  What a statement tree does, by the tests and assignments it makes.  \<open>run\<close> is the order in
  which \<^verbatim>\<open>StmtNode::compute\<close> of \<^verbatim>\<open>src/instsGenerator.cpp\<close> writes the statements, \<open>exec\<close> the effect
  of one assignment tree on its own.  The locale \<open>statements\<close> says what reordering needs to know
  of tests and assignments: which nodes they read and write, and when an assignment hides an
  earlier one.  It is interpreted by the values of expressions.
\<close>

abbreviation refs :: "enode \<Rightarrow> nodeid set" where
  "refs e \<equiv> getENodeRelyNodes e"

fun run :: "(enode \<Rightarrow> 's \<Rightarrow> bool) \<Rightarrow> (exptree \<Rightarrow> 's \<Rightarrow> 's) \<Rightarrow> stmtnode \<Rightarrow> 's \<Rightarrow> 's" where
  "run test assign (STMT_NODE t b) s = assign t s"
| "run test assign (STMT_WHEN c b ts fs) s = (if test c s then run test assign ts s else run test assign fs s)"
| "run test assign (STMT_SEQ xs) s = fold (run test assign) xs s"

function exec :: "(enode \<Rightarrow> 's \<Rightarrow> bool) \<Rightarrow> (exptree \<Rightarrow> 's \<Rightarrow> 's) \<Rightarrow> enode \<Rightarrow> enode option \<Rightarrow> 's \<Rightarrow> 's" where
  "exec test assign lv None s = s"
| "exec test assign lv (Some e) s =
     (if conditional e
      then (case when_parts e of
              None \<Rightarrow> s
            | Some (c, t, f) \<Rightarrow> exec test assign lv (if test c s then t else f) s)
      else assign \<lparr>root = e, lvalue = lv\<rparr> s)"
  by pat_completeness auto
termination
  by (relation "measure (\<lambda>(test, assign, lv, eo, s). case eo of None \<Rightarrow> 0 | Some e \<Rightarrow> Suc (size e))")
     (auto simp: when_parts_size split: option.splits)

fun mem_free :: "enode \<Rightarrow> bool" where
  "mem_free (ENode a cs) \<longleftrightarrow> opType a \<noteq> OP_READ_MEM \<and> (\<forall>c \<in> set cs. \<forall>e \<in> set_option c. mem_free e)"

locale statements =
  fixes test :: "enode \<Rightarrow> 's \<Rightarrow> bool" and assign :: "exptree \<Rightarrow> 's \<Rightarrow> 's" and off :: "nodeid \<Rightarrow> 's \<Rightarrow> 's \<Rightarrow> bool"
  assumes off_refl: "off n s s"
    and off_trans: "off n s s' \<Longrightarrow> off n s' s'' \<Longrightarrow> off n s s''"
    and test_dup: "test (dup c) = test c"
    and assign_dup: "assign (dup_tree t) = assign t"
    and test_same: "checkCondENodeSame (Some c) (Some c') \<Longrightarrow> mem_free c \<Longrightarrow> test c = test c'"
    and test_assign: "e_node (lvalue t) = Some n \<Longrightarrow> n \<notin> refs c \<Longrightarrow> test c (assign t s) = test c s"
    and test_off: "off n s s' \<Longrightarrow> n \<notin> refs c \<Longrightarrow> test c s = test c s'"
    and assign_off: "off n s s' \<Longrightarrow> n \<notin> getRelyNodes t \<Longrightarrow> off n (assign t s) (assign t s')"
    and assign_only: "e_node (lvalue t) = Some n \<Longrightarrow> child (lvalue t) = [] \<Longrightarrow> off n s (assign t s)"
    and assign_over: "off n s s' \<Longrightarrow> e_node (lvalue t) = Some n \<Longrightarrow> child (lvalue t) = []
      \<Longrightarrow> e_op (root t) \<noteq> OP_INVALID \<Longrightarrow> n \<notin> getRelyNodes t \<Longrightarrow> assign t s = assign t s'"
    and assign_commute: "e_node (lvalue t) = Some n \<Longrightarrow> e_node (lvalue t') = Some m \<Longrightarrow> n \<noteq> m
      \<Longrightarrow> n \<notin> getRelyNodes t' \<Longrightarrow> m \<notin> getRelyNodes t \<Longrightarrow> assign t (assign t' s) = assign t' (assign t s)"

subsection \<open>Statements on the state of the circuit\<close>

text \<open>
  An undefined value is some number \<open>u\<close>.  An assignment of \<^verbatim>\<open>OP_INVALID\<close> leaves its node alone, as in
  the source, where \<^verbatim>\<open>VAL_INVALID\<close> writes nothing.  Assignments of whole arrays and of memories are not
  covered: a target is a scalar or one element.
\<close>

definition num_of :: "int \<Rightarrow> env \<Rightarrow> enode \<Rightarrow> int" where
  "num_of u E e = (case eval E e of Val v \<Rightarrow> v | _ \<Rightarrow> u)"

definition index_nums :: "int \<Rightarrow> env \<Rightarrow> enode \<Rightarrow> int list" where
  "index_nums u E lv = map (\<lambda>c. case c of None \<Rightarrow> u | Some e \<Rightarrow> num_of u E e) (child lv)"

definition test_num :: "int \<Rightarrow> enode \<Rightarrow> env \<Rightarrow> bool" where
  "test_num u c E \<longleftrightarrow> num_of u E c \<noteq> 0"

definition write_val :: "env \<Rightarrow> nodeid \<Rightarrow> int list \<Rightarrow> int \<Rightarrow> env" where
  "write_val E n is v = E\<lparr>val := (val E)(n := (val E n)(is := v))\<rparr>"

definition assign_num :: "int \<Rightarrow> exptree \<Rightarrow> env \<Rightarrow> env" where
  "assign_num u t E =
     (case e_node (lvalue t) of
        None \<Rightarrow> E
      | Some n \<Rightarrow> if e_op (root t) = OP_INVALID then E
                  else write_val E n (index_nums u E (lvalue t)) (num_of u E (root t)))"

text \<open>States that differ in a node, and in the value of a scalar node.\<close>

definition differ_at :: "nodeid \<Rightarrow> env \<Rightarrow> env \<Rightarrow> bool" where
  "differ_at n E E' \<longleftrightarrow> (\<exists>f. E' = E\<lparr>val := (val E)(n := f)\<rparr>)"

definition off_node :: "nodeid \<Rightarrow> env \<Rightarrow> env \<Rightarrow> bool" where
  "off_node n E E' \<longleftrightarrow> (\<exists>v. E' = write_val E n [] v)"

lemma off_node_differ: "off_node n E E' \<Longrightarrow> differ_at n E E'"
  by (auto simp: off_node_def differ_at_def write_val_def)

lemma apply_op_off:
  assumes "differ_at n E E'" "nodePtr a \<noteq> Some n"
  shows "apply_op E' a os = apply_op E a os"
proof -
  obtain f where E': "E' = E\<lparr>val := (val E)(n := f)\<rparr>" using assms(1) by (auto simp: differ_at_def)
  have me: "mem E' = mem E" and fir: "firHeadTail E' = firHeadTail E" by (simp_all add: E')
  show ?thesis
  proof (cases "nodePtr a")
    case None
    then show ?thesis unfolding apply_op_def me fir by simp
  next
    case (Some m)
    with assms(2) show ?thesis by (simp add: apply_op_def E' split: option.split)
  qed
qed

lemma eval_off:
  assumes "differ_at n E E'"
  shows "n \<notin> refs e \<Longrightarrow> eval E' e = eval E e"
proof (induction e)
  case (ENode a cs)
  have "map_option (operand_of E') c = map_option (operand_of E) c" if c: "c \<in> set cs" for c
  proof (cases c)
    case (Some e)
    then have "n \<notin> refs e" using ENode.prems c by (force simp: getENodeRelyNodes_def)
    with ENode.IH [OF c, of e] Some show ?thesis by simp
  qed simp
  then have "map (map_option (operand_of E')) cs = map (map_option (operand_of E)) cs" by simp
  moreover have "apply_op E' a os = apply_op E a os" for os
    using ENode.prems by (intro apply_op_off [OF assms]) (auto simp: getENodeRelyNodes_def)
  ultimately show ?case by (simp only: eval_ENode)
qed

lemma num_of_off: "differ_at n E E' \<Longrightarrow> n \<notin> refs e \<Longrightarrow> num_of u E' e = num_of u E e"
  by (simp add: num_of_def eval_off)

lemma getRelyNodes_root: "refs (root t) \<subseteq> getRelyNodes t"
  by (auto simp: getRelyNodes_def tree_rely_list_def getENodeRelyNodes_def)

lemma index_nums_off:
  assumes "differ_at n E E'" "n \<notin> getRelyNodes t"
  shows "index_nums u E' (lvalue t) = index_nums u E (lvalue t)"
  unfolding index_nums_def
proof (rule map_cong [OF refl])
  fix c assume c: "c \<in> set (child (lvalue t))"
  have "n \<notin> refs e" if "c = Some e" for e
    using assms(2) that c by (force simp: getRelyNodes_def tree_rely_list_def getENodeRelyNodes_def)
  then show "(case c of None \<Rightarrow> u | Some e \<Rightarrow> num_of u E' e) = (case c of None \<Rightarrow> u | Some e \<Rightarrow> num_of u E e)"
    using num_of_off [OF assms(1)] by (simp split: option.split)
qed

lemma assign_num_args_off:
  assumes "differ_at n E E'" "n \<notin> getRelyNodes t"
  shows "num_of u E' (root t) = num_of u E (root t)" "index_nums u E' (lvalue t) = index_nums u E (lvalue t)"
  using assms getRelyNodes_root [of t] by (auto intro: num_of_off index_nums_off)

lemma assign_num_differ: "e_node (lvalue t) = Some n \<Longrightarrow> differ_at n E (assign_num u t E)"
  by (auto simp: assign_num_def differ_at_def write_val_def intro: exI [of _ "val E n"])

lemma write_val_same: "write_val (write_val E n is v) n is w = write_val E n is w"
  by (simp add: write_val_def)

lemma write_val_twist: "n \<noteq> m \<Longrightarrow> write_val (write_val E n is v) m js w = write_val (write_val E m js w) n is v"
  by (simp add: write_val_def fun_upd_twist)

lemma write_val_id: "write_val E n is (val E n is) = E"
  by (simp add: write_val_def)

lemma assign_num_commute:
  assumes t: "e_node (lvalue t) = Some n" and t': "e_node (lvalue t') = Some m"
    and nm: "n \<noteq> m" "n \<notin> getRelyNodes t'" "m \<notin> getRelyNodes t"
  shows "assign_num u t (assign_num u t' E) = assign_num u t' (assign_num u t E)"
proof -
  let ?E = "assign_num u t E" and ?E' = "assign_num u t' E"
  note a = assign_num_args_off [OF assign_num_differ [OF t', of E u] nm(3), of u]
  note b = assign_num_args_off [OF assign_num_differ [OF t, of E u] nm(2), of u]
  show ?thesis
    unfolding assign_num_def [of u t ?E'] assign_num_def [of u t' ?E] t t' option.case a b
    using nm(1) t t' by (auto simp: assign_num_def write_val_twist)
qed

lemma eval_same:
  "checkCondENodeSame (Some c) (Some c') \<Longrightarrow> mem_free c \<Longrightarrow> operand_of E c' = operand_of E c"
proof (induction c arbitrary: c')
  case (ENode a cs)
  obtain b ds where c': "c' = ENode b ds" by (cases c')
  from ENode.prems have s: "same_attr a b" "length cs = length ds" "\<forall>(x, y) \<in> set (zip cs ds). checkCondENodeSame x y"
    by (simp_all add: c')
  have "map_option (operand_of E) (ds ! i) = map_option (operand_of E) (cs ! i)" if i: "i < length cs" for i
  proof -
    have ck: "checkCondENodeSame (cs ! i) (ds ! i)" using s(2,3) i by (auto simp: set_zip)
    show ?thesis
    proof (cases "cs ! i")
      case None
      with ck show ?thesis by (cases "ds ! i") auto
    next
      case (Some x)
      with ck obtain y where y: "ds ! i = Some y" by (cases "ds ! i"; cases x) auto
      have "mem_free x" using ENode.prems(2) Some i by (metis mem_free.simps nth_mem option.set_intros)
      with ENode.IH [of "cs ! i" x y] ck Some y i show ?thesis using nth_mem [OF i] by simp
    qed
  qed
  then have "map (map_option (operand_of E)) ds = map (map_option (operand_of E)) cs"
    using s(2) by (intro nth_equalityI) auto
  moreover have "apply_op E b os = apply_op E a os" for os
    using s(1) ENode.prems(2)
    by (cases "opType a") (auto simp: same_attr_def apply_op_def cong: option.case_cong)
  moreover have "keep_bits b = keep_bits a" using s(1) by (intro keep_bits_cong) (auto simp: same_attr_def)
  ultimately show ?case using s(1) by (simp add: c' eval_ENode same_attr_def)
qed

interpretation circuit: statements "test_num u" "assign_num u" off_node for u
proof
  show "off_node n E E" for n E unfolding off_node_def by (rule exI [of _ "val E n []"]) (simp add: write_val_id)
  show "off_node n E E' \<Longrightarrow> off_node n E' E'' \<Longrightarrow> off_node n E E''" for n E E' E''
    by (auto simp: off_node_def write_val_same)
  show "test_num u (dup c) = test_num u c" for c by (simp add: fun_eq_iff test_num_def num_of_def)
  have "index_nums u E (dup lv) = index_nums u E lv" for E lv
    by (cases lv) (auto simp: index_nums_def num_of_def split: option.splits)
  moreover have "e_node (dup lv) = e_node lv" for lv by (cases lv) simp
  ultimately show "assign_num u (dup_tree t) = assign_num u t" for t
    by (simp add: fun_eq_iff assign_num_def dup_tree_def num_of_def split: option.split)
  show "test_num u c = test_num u c'" if "checkCondENodeSame (Some c) (Some c')" "mem_free c" for c c'
    using eval_same [OF that] by (simp add: fun_eq_iff test_num_def num_of_def)
  show "test_num u c (assign_num u t E) = test_num u c E" if "e_node (lvalue t) = Some n" "n \<notin> refs c" for n E c t
    using num_of_off [OF assign_num_differ [OF that(1)] that(2)] by (simp add: test_num_def)
  show "test_num u c E = test_num u c E'" if "off_node n E E'" "n \<notin> refs c" for n E E' c
    using num_of_off [OF off_node_differ [OF that(1)] that(2)] by (simp add: test_num_def)
  show "off_node n (assign_num u t E) (assign_num u t E')" if off: "off_node n E E'" and n: "n \<notin> getRelyNodes t" for n E E' t
  proof (cases "e_node (lvalue t)")
    case None
    with off show ?thesis by (simp add: assign_num_def)
  next
    case (Some m)
    obtain v where E': "E' = write_val E n [] v" using off by (auto simp: off_node_def)
    note a = assign_num_args_off [OF off_node_differ [OF off] n, of u]
    have "write_val E' m is w = write_val (write_val E m is w) n [] (val (write_val E' m is w) n [])" for "is" w
      by (auto simp: E' write_val_def fun_eq_iff)
    then show ?thesis using off Some a unfolding off_node_def by (auto simp: assign_num_def)
  qed
  show "off_node n E (assign_num u t E)" if "e_node (lvalue t) = Some n" "child (lvalue t) = []" for n E t
  proof (cases "e_op (root t) = OP_INVALID")
    case True
    then have "assign_num u t E = write_val E n [] (val E n [])" using that by (simp add: assign_num_def write_val_id)
    then show ?thesis unfolding off_node_def by blast
  qed (use that in \<open>auto simp: assign_num_def index_nums_def off_node_def\<close>)
  show "assign_num u t E = assign_num u t E'" if "off_node n E E'" "e_node (lvalue t) = Some n" "child (lvalue t) = []"
      "e_op (root t) \<noteq> OP_INVALID" "n \<notin> getRelyNodes t" for n E E' t
    using that assign_num_args_off [OF off_node_differ [OF that(1)] that(5), of u]
    by (auto simp: assign_num_def off_node_def index_nums_def write_val_same)
  show "assign_num u t (assign_num u t' E) = assign_num u t' (assign_num u t E)"
    if "e_node (lvalue t) = Some n" "e_node (lvalue t') = Some m" "n \<noteq> m" "n \<notin> getRelyNodes t'" "m \<notin> getRelyNodes t"
    for n m t t' E
    using that by (rule assign_num_commute)
qed

end
