(* ===== verification/StmtSites.thy ===== *)
theory StmtSites
  imports StmtSem
begin

section \<open>Footprints and positions\<close>

text \<open>
  What a statement tree writes and reads, as a set of footprints, one for every assignment
  and every test, and where: \<open>sites\<close> pairs each footprint with its position.  Statements whose
  footprints do not clash with an assignment can be exchanged with it.
\<close>

type_synonym foot = "nodeid set \<times> nodeid set"

fun foots :: "stmtnode \<Rightarrow> foot set" where
  "foots (STMT_NODE t b) = {(set_option (e_node (lvalue t)), getRelyNodes t)}"
| "foots (STMT_WHEN c b ts fs) = insert ({}, refs c) (foots ts \<union> foots fs)"
| "foots (STMT_SEQ xs) = (\<Union>x \<in> set xs. foots x)"

definition clash :: "nodeid \<Rightarrow> nodeid set \<Rightarrow> foot \<Rightarrow> bool" where
  "clash n R F \<longleftrightarrow> n \<in> fst F \<or> fst F \<inter> R \<noteq> {} \<or> n \<in> snd F"

text \<open>The footprints of statements that an assignment to \<open>n\<close> that reads \<open>R\<close> is made of.\<close>

definition own :: "nodeid \<Rightarrow> nodeid set \<Rightarrow> foot \<Rightarrow> bool" where
  "own n R F \<longleftrightarrow> fst F \<subseteq> {n} \<and> snd F \<subseteq> R"

fun heads :: "stmtnode \<Rightarrow> foot set" where
  "heads (STMT_WHEN c b ts fs) = {({}, refs c)}"
| "heads st = foots st"

lemma nth_stmt_size [termination_simp]: "i < length xs \<Longrightarrow> size (xs ! i) < Suc (size_list size (xs :: stmtnode list))"
  by (simp add: size_list_estimation' [OF nth_mem] less_Suc_eq_le)

text \<open>A nested sequence that is no branch has no position of its own: it is only appended to.\<close>

fun sites :: "stmtnode \<Rightarrow> (path \<times> foot) set" where
  "sites (STMT_NODE t b) = {}"
| "sites (STMT_WHEN c b ts fs) = sites ts \<union> sites fs"
| "sites (STMT_SEQ xs) =
     (\<Union>i \<in> {..<length xs}. (\<lambda>(a, F). (i # a, F)) `
        (Pair [] ` heads (xs ! i) \<union> (if is_when (xs ! i) then sites (xs ! i) else {})))"

definition item_sites :: "stmtnode \<Rightarrow> (path \<times> foot) set" where
  "item_sites x = Pair [] ` heads x \<union> (if is_when x then sites x else {})"

lemma sites_SEQ:
  "(p, F) \<in> sites (STMT_SEQ xs) \<longleftrightarrow> (\<exists>i a. p = i # a \<and> i < length xs \<and> (a, F) \<in> item_sites (xs ! i))"
  unfolding sites.simps(3) item_sites_def [symmetric] by force

lemmas sites_simps = sites.simps(1,2) sites_SEQ
declare sites.simps(3) [simp del]

definition is_seq :: "stmtnode \<Rightarrow> bool" where
  "is_seq st \<longleftrightarrow> (case st of STMT_SEQ _ \<Rightarrow> True | _ \<Rightarrow> False)"

text \<open>
  The trees that are built: branches are sequences, conditions read no memory, no branch
  writes what its condition reads, targets are nodes and scalar ones have no index.
\<close>

fun wf_stmt :: "heap \<Rightarrow> stmtnode \<Rightarrow> bool" where
  "wf_stmt h (STMT_NODE t b) \<longleftrightarrow>
     (case e_node (lvalue t) of None \<Rightarrow> False | Some n \<Rightarrow> isArray (h n) \<or> child (lvalue t) = [])"
| "wf_stmt h (STMT_WHEN c b ts fs) \<longleftrightarrow>
     is_seq ts \<and> is_seq fs \<and> wf_stmt h ts \<and> wf_stmt h fs \<and> mem_free c
     \<and> (\<forall>F \<in> foots ts \<union> foots fs. fst F \<inter> refs c = {})"
| "wf_stmt h (STMT_SEQ xs) \<longleftrightarrow> (\<forall>x \<in> set xs. wf_stmt h x)"

lemma foots_sites:
  "wf_stmt h st \<Longrightarrow> (is_seq st \<longrightarrow> foots st = snd ` sites st) \<and> foots st = snd ` item_sites st"
proof (induction st)
  case (STMT_SEQ xs)
  then have x: "foots (xs ! i) = snd ` item_sites (xs ! i)" if "i < length xs" for i using that by simp
  have "snd ` sites (STMT_SEQ xs) = (\<Union>i \<in> {..<length xs}. foots (xs ! i))"
  proof (intro set_eqI iffI)
    fix F assume "F \<in> snd ` sites (STMT_SEQ xs)"
    then show "F \<in> (\<Union>i \<in> {..<length xs}. foots (xs ! i))" using x by (force simp: sites_SEQ)
  next
    fix F assume "F \<in> (\<Union>i \<in> {..<length xs}. foots (xs ! i))"
    then obtain i a where "i < length xs" "(a, F) \<in> item_sites (xs ! i)" using x by force
    then have "(i # a, F) \<in> sites (STMT_SEQ xs)" by (simp add: sites_SEQ)
    then show "F \<in> snd ` sites (STMT_SEQ xs)" by force
  qed
  also have "\<dots> = foots (STMT_SEQ xs)" by (auto simp: set_conv_nth)
  finally show ?case by (auto simp: item_sites_def is_when_def image_image)
qed (auto simp: item_sites_def is_when_def is_seq_def image_Un split: stmtnode.splits)

lemma foot_site:
  assumes "wf_stmt h (STMT_SEQ xs)" "i < length xs" "F \<in> foots (xs ! i)"
  obtains a where "(i # a, F) \<in> sites (STMT_SEQ xs)"
  using assms foots_sites [of h "xs ! i"] that by (force simp: sites_SEQ)

section \<open>Assignments\<close>

definition lrefs :: "enode \<Rightarrow> nodeid set" where
  "lrefs lv = (\<Union>c \<in> set (child lv). \<Union>e \<in> set_option c. refs e)"

lemma getRelyNodes_parts: "getRelyNodes t = refs (root t) \<union> lrefs (lvalue t)"
  by (auto simp: getRelyNodes_def tree_rely_list_def getENodeRelyNodes_def lrefs_def split: option.splits)

lemma refs_dup [simp]: "refs (dup e) = refs e"
  by (simp add: getENodeRelyNodes_def rely_dup)

lemma e_node_dup [simp]: "e_node (dup e) = e_node e"
  by (cases e) simp

lemma lrefs_dup [simp]: "lrefs (dup lv) = lrefs lv"
  by (cases lv) (auto simp: lrefs_def)

lemma mem_free_dup [simp]: "mem_free (dup e) = mem_free e"
  by (induction e) (auto simp: dup_attr_def new_eattr_def option.set_map)

lemma child_dup_Nil [simp]: "child (dup e) = [] \<longleftrightarrow> child e = []"
  by (cases e) simp

lemma refs_child: "Some x \<in> set (child e) \<Longrightarrow> refs x \<subseteq> refs e"
  by (cases e) (force simp: getENodeRelyNodes_def)

lemma when_parts_refs:
  assumes "when_parts e = Some (c, t, f)"
  shows "refs c \<subseteq> refs e" "x \<in> set_option t \<Longrightarrow> refs x \<subseteq> refs e" "x \<in> set_option f \<Longrightarrow> refs x \<subseteq> refs e"
proof -
  have "Some c \<in> set (child e)" "x \<in> set_option t \<Longrightarrow> Some x \<in> set (child e)" "x \<in> set_option f \<Longrightarrow> Some x \<in> set (child e)"
    using assms by (auto simp: when_parts_def split: list.splits option.splits)
  then show "refs c \<subseteq> refs e" "x \<in> set_option t \<Longrightarrow> refs x \<subseteq> refs e" "x \<in> set_option f \<Longrightarrow> refs x \<subseteq> refs e"
    using refs_child by blast+
qed

text \<open>An assignment tree that the generator accepts.\<close>

function conds_ok :: "enode \<Rightarrow> bool" where
  "conds_ok e \<longleftrightarrow>
     (conditional e \<longrightarrow>
        (case when_parts e of
           None \<Rightarrow> False
         | Some (c, t, f) \<Rightarrow> mem_free c \<and> (\<forall>x \<in> set_option t \<union> set_option f. conds_ok x)))"
  by pat_completeness auto
termination
  by (relation "measure size") (auto simp: when_parts_size)
declare conds_ok.simps [simp del]

lemma conds_ok_parts:
  assumes "conds_ok e" "conditional e"
  obtains c t f where "when_parts e = Some (c, t, f)" "mem_free c"
    "\<And>x. x \<in> set_option t \<Longrightarrow> conds_ok x" "\<And>x. x \<in> set_option f \<Longrightarrow> conds_ok x"
  using assms by (auto simp: conds_ok.simps [of e] split: option.splits)

lemma refs_ENode: "refs (ENode a cs) = set_option (nodePtr a) \<union> (\<Union>c \<in> set cs. \<Union>e \<in> set_option c. refs e)"
  by (auto simp: getENodeRelyNodes_def split: option.splits)

lemma UN_nth: "(\<Union>x \<in> set xs. f x) = (\<Union>i<length xs. f (xs ! i))"
  by (auto simp: set_conv_nth)

lemma refs_same:
  "checkCondENodeSame c c' \<Longrightarrow> (\<Union>e \<in> set_option c. refs e) = (\<Union>e \<in> set_option c'. refs e)"
proof (induction c c' rule: checkCondENodeSame.induct)
  case (2 a cs b ds)
  then have l: "length cs = length ds" and p: "nodePtr a = nodePtr b"
    and ck: "\<And>x y. (x, y) \<in> set (zip cs ds) \<Longrightarrow> checkCondENodeSame x y"
    by (auto simp: same_attr_def)
  have "(\<Union>e \<in> set_option (cs ! i). refs e) = (\<Union>e \<in> set_option (ds ! i). refs e)" if i: "i < length ds" for i
  proof -
    have z: "(cs ! i, ds ! i) \<in> set (zip cs ds)" using l i by (auto simp: set_zip)
    from 2(1) [OF z refl ck [OF z]] show ?thesis .
  qed
  then have "(\<Union>c \<in> set cs. \<Union>e \<in> set_option c. refs e) = (\<Union>c \<in> set ds. \<Union>e \<in> set_option c. refs e)"
    unfolding UN_nth [of _ cs] UN_nth [of _ ds] l by (metis (no_types, lifting) SUP_cong lessThan_iff)
  with p show ?case by (simp add: refs_ENode)
qed auto

section \<open>Exchanging statements\<close>

context statements
begin

lemma run_assign:
  assumes "e_node (lvalue t) = Some n" "getRelyNodes t \<subseteq> R"
  shows "wf_stmt h st \<Longrightarrow> \<forall>F \<in> foots st. \<not> clash n R F \<Longrightarrow> run test assign st (assign t s) = assign t (run test assign st s)"
proof (induction st arbitrary: s)
  case (STMT_NODE t' b)
  then obtain m where "e_node (lvalue t') = Some m" by (auto split: option.splits)
  with STMT_NODE.prems assms show ?case
    by (auto simp: clash_def intro!: assign_commute)
next
  case (STMT_WHEN c b ts fs)
  then have "n \<notin> refs c" by (auto simp: clash_def)
  with STMT_WHEN assms(1) show ?case by (simp add: test_assign)
next
  case (STMT_SEQ xs)
  then show ?case by (induction xs arbitrary: s) auto
qed

lemma run_test:
  "wf_stmt h st \<Longrightarrow> \<forall>F \<in> foots st. fst F \<inter> refs c = {} \<Longrightarrow> test c (run test assign st s) = test c s"
proof (induction st arbitrary: s)
  case (STMT_NODE t' b)
  then show ?case by (auto simp: test_assign split: option.splits)
next
  case (STMT_SEQ xs)
  then show ?case by (induction xs arbitrary: s) auto
qed auto

lemma run_exec:
  assumes "e_node lv = Some n" "lrefs lv \<subseteq> R" "wf_stmt h st" "\<forall>F \<in> foots st. \<not> clash n R F"
  shows "(\<And>e. e \<in> set_option eo \<Longrightarrow> refs e \<subseteq> R) \<Longrightarrow>
    run test assign st (exec test assign lv eo s) = exec test assign lv eo (run test assign st s)"
proof (induction "case eo of None \<Rightarrow> 0 | Some e \<Rightarrow> Suc (size e)" arbitrary: eo rule: less_induct)
  case less
  show ?case
  proof (cases eo)
    case (Some e)
    show ?thesis
    proof (cases "conditional e")
      case False
      have "getRelyNodes \<lparr>root = e, lvalue = lv\<rparr> \<subseteq> R" using less.prems Some assms(2) by (simp add: getRelyNodes_parts)
      then show ?thesis using run_assign [of "\<lparr>root = e, lvalue = lv\<rparr>", OF _ _ assms(3,4)] assms(1) Some False by simp
    next
      case True
      show ?thesis
      proof (cases "when_parts e")
        case (Some p)
        obtain c t f where p: "when_parts e = Some (c, t, f)" using Some by (cases p) auto
        note r = when_parts_refs [OF p]
        have "\<forall>F \<in> foots st. fst F \<inter> refs c = {}"
          using assms(4) r(1) less.prems \<open>eo = Some e\<close> by (fastforce simp: clash_def)
        then have c: "test c (run test assign st s) = test c s" using run_test [OF assms(3)] by blast
        let ?b = "if test c s then t else f"
        have "run test assign st (exec test assign lv ?b s) = exec test assign lv ?b (run test assign st s)"
        proof (rule less.hyps)
          show "(case ?b of None \<Rightarrow> 0 | Some e \<Rightarrow> Suc (size e)) < (case eo of None \<Rightarrow> 0 | Some e \<Rightarrow> Suc (size e))"
            using when_parts_size [OF p] \<open>eo = Some e\<close> by (auto split: option.splits if_splits)
          show "\<And>x. x \<in> set_option ?b \<Longrightarrow> refs x \<subseteq> R"
            using r less.prems \<open>eo = Some e\<close> by (fastforce split: if_splits)
        qed
        then show ?thesis using True p c \<open>eo = Some e\<close> by simp
      qed (use True Some in simp)
    qed
  qed simp
qed

text \<open>A statement inside a sequence that takes in an assignment, in front of what does not clash.\<close>

lemma run_update:
  assumes lv: "e_node lv = Some n" "lrefs lv \<union> refs e \<subseteq> R"
    and wf: "wf_stmt h (STMT_SEQ xs)" and i: "i < length xs"
    and x: "\<And>s. run test assign x' s = exec test assign lv (Some e) (run test assign (xs ! i) s)"
    and late: "\<And>j F. i < j \<Longrightarrow> j < length xs \<Longrightarrow> F \<in> foots (xs ! j) \<Longrightarrow> \<not> clash n R F"
  shows "run test assign (STMT_SEQ (xs[i := x'])) s = exec test assign lv (Some e) (run test assign (STMT_SEQ xs) s)"
proof -
  let ?B = "STMT_SEQ (drop (Suc i) xs)"
  have "wf_stmt h ?B" using wf by (auto dest: in_set_dropD)
  moreover have "\<not> clash n R F" if "F \<in> foots ?B" for F
  proof -
    from that obtain k where k: "k < length (drop (Suc i) xs)" "F \<in> foots (drop (Suc i) xs ! k)"
      by (auto simp only: foots.simps(3) UN_nth)
    then show ?thesis using late [of "Suc i + k"] by simp
  qed
  ultimately have B: "run test assign ?B (exec test assign lv (Some e) s) = exec test assign lv (Some e) (run test assign ?B s)" for s
    using lv by (intro run_exec [where R = R and h = h]) auto
  have "run test assign (STMT_SEQ (take i xs @ xs ! i # drop (Suc i) xs)) s
      = run test assign ?B (run test assign (xs ! i) (run test assign (STMT_SEQ (take i xs)) s))"
    by simp
  then have "run test assign (STMT_SEQ xs) s
      = run test assign ?B (run test assign (xs ! i) (run test assign (STMT_SEQ (take i xs)) s))"
    by (simp only: id_take_nth_drop [OF i, symmetric])
  moreover have "run test assign (STMT_SEQ (xs[i := x'])) s
      = run test assign ?B (run test assign x' (run test assign (STMT_SEQ (take i xs)) s))"
    using i by (simp add: upd_conv_take_nth_drop)
  ultimately show ?thesis by (simp only: B x)
qed

end

end
