(* ===== verification/StmtGen.thy ===== *)
theory StmtGen
  imports StmtSites
begin

section \<open>New conditions\<close>

text \<open>
  What \<^verbatim>\<open>generateWhenTree\<close> builds does what the assignment tree does, and its path bounds the
  positions of the new statements.
\<close>

text \<open>An assignment to \<open>n\<close> that reads at most \<open>R\<close>, and not \<open>n\<close> itself.\<close>

definition target_ok :: "heap \<Rightarrow> enode \<Rightarrow> nodeid \<Rightarrow> nodeid set \<Rightarrow> bool" where
  "target_ok h lv n R \<longleftrightarrow>
     e_node lv = Some n \<and> (isArray (h n) \<or> child lv = []) \<and> lrefs lv \<subseteq> R \<and> n \<notin> R"

definition tree_fits :: "nodeid set \<Rightarrow> enode option \<Rightarrow> bool" where
  "tree_fits R eo \<longleftrightarrow> (\<forall>e \<in> set_option eo. conds_ok e \<and> refs e \<subseteq> R)"

lemma tree_fits_simps [simp]: "tree_fits R None" "tree_fits R (Some e) \<longleftrightarrow> conds_ok e \<and> refs e \<subseteq> R"
  by (simp_all add: tree_fits_def)

lemma tree_fits_parts:
  assumes "tree_fits R (Some e)" "conditional e"
  obtains c t f where "when_parts e = Some (c, t, f)" "mem_free c" "refs c \<subseteq> R" "tree_fits R t" "tree_fits R f"
proof -
  from assms obtain c t f where p: "when_parts e = Some (c, t, f)" "mem_free c"
    "\<And>x. x \<in> set_option t \<Longrightarrow> conds_ok x" "\<And>x. x \<in> set_option f \<Longrightarrow> conds_ok x"
    by (auto elim: conds_ok_parts)
  with when_parts_refs [OF p(1)] assms(1) show thesis by (intro that [OF p(1,2)]) (fastforce simp: tree_fits_def)+
qed

lemma gen_total:
  "tree_fits R (Some e) \<Longrightarrow> \<exists>r. gen_node lv b e d p = Some r"
  "tree_fits R eo \<Longrightarrow> \<exists>r. gen_branch lv b eo d p = Some r"
proof (induction lv b e d p and lv b eo d p rule: gen_node_gen_branch.induct)
  case (1 lv b e d p)
  show ?case
  proof (cases "conditional e")
    case True
    with 1(3) obtain c t f where w: "when_parts e = Some (c, t, f)" "tree_fits R t" "tree_fits R f"
      by (blast elim: tree_fits_parts)
    with True 1(1) obtain fs p1 where f: "gen_branch lv b f (d + 1) p = Some (fs, p1)" by fastforce
    with True w 1(2) obtain ts p2 where "gen_branch lv b t (d + 1) p1 = Some (ts, p2)" by fastforce
    with True w f show ?thesis by simp
  qed simp
qed auto

lemma gen_foots:
  "gen_node lv b e d p = Some (w, p') \<Longrightarrow> tree_fits R (Some e) \<Longrightarrow> target_ok h lv n R
    \<Longrightarrow> wf_stmt h w \<and> (\<forall>F \<in> foots w. own n R F)"
  "gen_branch lv b eo d p = Some (ws, p') \<Longrightarrow> tree_fits R eo \<Longrightarrow> target_ok h lv n R
    \<Longrightarrow> wf_stmt h (STMT_SEQ ws) \<and> (\<forall>F \<in> foots (STMT_SEQ ws). own n R F)"
proof (induction lv b e d p and lv b eo d p arbitrary: w p' and ws p' rule: gen_node_gen_branch.induct)
  case (1 lv b e d p)
  show ?case
  proof (cases "conditional e")
    case True
    obtain c t f where w: "when_parts e = Some (c, t, f)" "mem_free c" "refs c \<subseteq> R" "tree_fits R t" "tree_fits R f"
      by (rule tree_fits_parts [OF 1(4) True])
    with True 1(3) obtain fs p1 ts where
      g: "gen_branch lv b f (d + 1) p = Some (fs, p1)" "gen_branch lv b t (d + 1) p1 = Some (ts, p')"
        "w = STMT_WHEN (dup c) b (STMT_SEQ ts) (STMT_SEQ fs)"
      by (auto split: option.splits)
    have n: "n \<notin> refs c" using w(3) 1(5) by (auto simp: target_ok_def)
    have F: "wf_stmt h (STMT_SEQ fs)" "\<forall>F \<in> foots (STMT_SEQ fs). own n R F"
      using 1(1) [OF True w(1) refl refl g(1) w(5) 1(5)] by auto
    have T: "wf_stmt h (STMT_SEQ ts)" "\<forall>F \<in> foots (STMT_SEQ ts). own n R F"
      using 1(2) [OF True w(1) refl refl g(1) refl g(2) w(4) 1(5)] by auto
    have "fst F \<inter> refs c = {}" if "own n R F" for F using that n by (auto simp: own_def)
    then have "\<forall>F \<in> foots (STMT_SEQ ts) \<union> foots (STMT_SEQ fs). fst F \<inter> refs c = {}" using F(2) T(2) by blast
    then have "wf_stmt h w"
      using F(1) T(1) w(2) by (simp add: g(3) is_seq_def del: foots.simps(3) wf_stmt.simps(3))
    moreover have "own n R ({}, refs c)" using w(3) by (simp add: own_def)
    ultimately show ?thesis using F(2) T(2) by (simp add: g(3) ball_Un del: foots.simps(3))
  next
    case False
    with 1(3,4,5) show ?thesis
      by (auto simp: target_ok_def own_def getRelyNodes_parts)
  qed
qed (auto split: prod.splits)

lemma gen_sites:
  "gen_node lv b e d p = Some (w, p') \<Longrightarrow> zeros_path m p \<Longrightarrow> d \<le> length p
    \<Longrightarrow> zeros_path m p' \<and> length p \<le> length p'
      \<and> (\<forall>(a, F) \<in> item_sites w. \<exists>k. a = replicate k 0 \<and> d + k \<le> length p')"
  "gen_branch lv b eo d p = Some (ws, p') \<Longrightarrow> zeros_path m p \<Longrightarrow> d \<le> Suc (length p)
    \<Longrightarrow> zeros_path m p' \<and> length p \<le> length p'
      \<and> (\<forall>(a, F) \<in> sites (STMT_SEQ ws). \<exists>k. a = 0 # replicate k 0 \<and> d + k \<le> length p')"
proof (induction lv b e d p and lv b eo d p arbitrary: w p' and ws p' rule: gen_node_gen_branch.induct)
  case (1 lv b e d p)
  show ?case
  proof (cases "conditional e")
    case True
    with 1(3) obtain c t f fs p1 ts where
      g: "when_parts e = Some (c, t, f)" "gen_branch lv b f (d + 1) p = Some (fs, p1)" "gen_branch lv b t (d + 1) p1 = Some (ts, p')"
        "w = STMT_WHEN (dup c) b (STMT_SEQ ts) (STMT_SEQ fs)"
      by (auto split: option.splits)
    have F: "zeros_path m p1" "length p \<le> length p1"
      "\<forall>(a, F) \<in> sites (STMT_SEQ fs). \<exists>k. a = 0 # replicate k 0 \<and> d + 1 + k \<le> length p1"
      using 1(1) [OF True g(1) refl refl g(2) 1(4)] 1(5) by auto
    have T: "zeros_path m p'" "length p1 \<le> length p'"
      "\<forall>(a, F) \<in> sites (STMT_SEQ ts). \<exists>k. a = 0 # replicate k 0 \<and> d + 1 + k \<le> length p'"
      using 1(2) [OF True g(1) refl refl g(2) refl g(3) F(1)] 1(5) F(2) by auto
    have "\<exists>k. a = replicate k 0 \<and> d + k \<le> length p'" if "(a, F) \<in> item_sites w" for a F
    proof -
      have "a = [] \<or> (a, F) \<in> sites (STMT_SEQ fs) \<or> (a, F) \<in> sites (STMT_SEQ ts)"
        using that by (auto simp: item_sites_def g(4) split: if_splits)
      moreover have "\<exists>k. a = replicate (Suc k) 0 \<and> d + Suc k \<le> length p'"
        if "(a, F) \<in> sites (STMT_SEQ fs) \<union> sites (STMT_SEQ ts)"
        using that F(3) T(2,3) by fastforce
      ultimately show ?thesis using 1(5) F(2) T(2) by (metis Un_iff add_0_right le_trans replicate_0)
    qed
    with F T show ?thesis by auto
  next
    case False
    with 1(3,4,5) show ?thesis by (auto simp: item_sites_def is_when_def)
  qed
next
  case (2 lv b d p)
  then show ?case by (auto simp: sites_SEQ)
next
  case (3 lv b e d p)
  then obtain x where x: "gen_node lv b e d (addDepthPath p d 0) = Some (x, p')" "ws = [x]" by auto
  note z = addDepthPath_zeros [OF 3(3,4)]
  have "length p \<le> length (addDepthPath p d 0)" by (simp add: addDepthPath_def)
  with 3(1) [OF x(1) z] x(2) show ?case by (fastforce simp: sites_SEQ)
qed

context statements
begin

lemma gen_run:
  "gen_node lv b e d p = Some (w, p') \<Longrightarrow> run test assign w s = exec test assign lv (Some e) s"
  "gen_branch lv b eo d p = Some (ws, p') \<Longrightarrow> run test assign (STMT_SEQ ws) s = exec test assign lv eo s"
proof (induction lv b e d p and lv b eo d p arbitrary: w p' s and ws p' s rule: gen_node_gen_branch.induct)
  case (1 lv b e d p)
  show ?case
  proof (cases "conditional e")
    case True
    with 1(3) obtain c t f fs p1 ts where
      g: "when_parts e = Some (c, t, f)" "gen_branch lv b f (d + 1) p = Some (fs, p1)" "gen_branch lv b t (d + 1) p1 = Some (ts, p')"
        "w = STMT_WHEN (dup c) b (STMT_SEQ ts) (STMT_SEQ fs)"
      by (auto split: option.splits)
    with True show ?thesis
      using 1(1) [OF True g(1) refl refl g(2)] 1(2) [OF True g(1) refl refl g(2) refl g(3)] by (simp add: test_dup)
  next
    case False
    have "assign \<lparr>root = dup e, lvalue = dup lv\<rparr> = assign \<lparr>root = e, lvalue = lv\<rparr>"
      using assign_dup [of "\<lparr>root = e, lvalue = lv\<rparr>"] by (simp add: dup_tree_def)
    with 1(3) False show ?thesis by auto
  qed
qed auto

end

end
