(* ===== verification/StmtMerge.thy ===== *)
theory StmtMerge
  imports StmtGen
begin

section \<open>Merging an assignment into a statement tree\<close>

text \<open>
  \<open>merged\<close> is \<^verbatim>\<open>mergeExpTree\<close> as a relation, one rule for every case of the source; the facts about
  a merge are proved by induction on its rules: what it adds (\<open>merged_foots\<close>), where
  (\<open>merged_sites\<close>), and what the result does (\<open>merged_run\<close>).
\<close>

inductive merged :: "heap \<Rightarrow> path \<Rightarrow> enode \<Rightarrow> nodeid option \<Rightarrow> stmtnode \<Rightarrow> enode option \<Rightarrow> nat \<Rightarrow> bool \<Rightarrow> path
    \<Rightarrow> stmtnode \<Rightarrow> path \<Rightarrow> bool" for h path lv b where
  null: "merged h path lv b st None d l np st np"
| cond: "conditional e \<Longrightarrow> when_parts e = Some (c', t, f) \<Longrightarrow> checkCondENodeSame (Some c') (Some c)
    \<Longrightarrow> merged h path lv b fs f d (l \<and> d < length path) np fs' np1
    \<Longrightarrow> merged h path lv b ts t d (l \<and> d < length path) np1 ts' np2
    \<Longrightarrow> merged h path lv b (STMT_WHEN c wb ts fs) (Some e) d l np (STMT_WHEN c wb ts' fs') np2"
| found: "conditional e \<Longrightarrow> find_when path xs e d (l \<and> d < length path) = Some i
    \<Longrightarrow> merged h path lv b (xs ! i) (Some e) (d + 1) ((l \<and> d < length path) \<and> \<not> path ! d < i) (addDepthPath np d i) x' np'
    \<Longrightarrow> merged h path lv b (STMT_SEQ xs) (Some e) d l np (STMT_SEQ (xs[i := x'])) np'"
| fresh: "conditional e \<Longrightarrow> generateWhenTree (length xs) lv e b = Some (w, sub)
    \<Longrightarrow> merged h path lv b (STMT_SEQ xs) (Some e) d l np (STMT_SEQ (xs @ [w])) (add_subPath np d sub)"
| leaf: "\<not> conditional e \<Longrightarrow> place_leaf h path lv b xs e d (l \<and> d < length path) np = Some (xs', np')
    \<Longrightarrow> merged h path lv b (STMT_SEQ xs) (Some e) d l np (STMT_SEQ xs') np'"

lemma checkCondEq_parts:
  "checkCondEq (STMT_WHEN c wb ts fs) e \<Longrightarrow> when_parts e = Some (c', t, f) \<Longrightarrow> checkCondENodeSame (Some c') (Some c)"
  by (auto simp: checkCondEq_def when_parts_def split: list.splits option.splits)

lemma merge_merged:
  "merge_node h path lv b st e d l np = Some (st', np') \<Longrightarrow> merged h path lv b st (Some e) d l np st' np'"
  "merge_branch h path lv b st eo d l np = Some (st', np') \<Longrightarrow> merged h path lv b st eo d l np st' np'"
proof (induction h path lv b st e d l np and h path lv b st eo d l np arbitrary: st' np' and st' np'
    rule: merge_node_merge_branch.induct)
  case (1 h path lv b c wb ts fs e d l np)
  let ?l = "l \<and> d < length path"
  have q: "checkCondEq (STMT_WHEN c wb ts fs) e" using 1(3) by (simp add: Let_def split: if_splits)
  with 1(3) obtain c' t f fs' np1 ts' where
    m: "when_parts e = Some (c', t, f)" "merge_branch h path lv b fs f d ?l np = Some (fs', np1)"
      "merge_branch h path lv b ts t d ?l np1 = Some (ts', np')" "st' = STMT_WHEN c wb ts' fs'"
    by (auto simp: Let_def split: option.splits)
  have "conditional e" using q by (simp add: checkCondEq_def)
  then show ?case unfolding m(4)
    by (rule merged.cond [OF _ m(1) checkCondEq_parts [OF q m(1)]])
      (use 1(1) [OF refl q m(1) refl refl m(2)] 1(2) [OF refl q m(1) refl refl m(2) refl m(3)] in simp_all)
next
  case (2 h path lv b xs e d l np)
  let ?l = "l \<and> d < length path"
  show ?case
  proof (cases "conditional e")
    case True
    show ?thesis
    proof (cases "find_when path xs e d ?l")
      case None
      with True 2(2) obtain w sub where "generateWhenTree (length xs) lv e b = Some (w, sub)"
        "st' = STMT_SEQ (xs @ [w])" "np' = add_subPath np d sub"
        by (auto simp: Let_def Option.bind_eq_Some_conv)
      with True show ?thesis by (auto intro: merged.fresh)
    next
      case (Some i)
      with True 2(2) obtain x' where m: "merge_node h path lv b (xs ! i) e (d + 1) (?l \<and> \<not> path ! d < i) (addDepthPath np d i) = Some (x', np')"
        "st' = STMT_SEQ (xs[i := x'])"
        by (auto simp: Let_def split: option.splits)
      from 2(1) [OF refl True Some m(1)] show ?thesis unfolding m(2) by (rule merged.found [OF True Some])
    qed
  next
    case False
    with 2(2) show ?thesis by (auto simp: Let_def intro: merged.leaf)
  qed
qed (auto intro: merged.null)

subsection \<open>Erasing earlier assignments\<close>

inductive erased :: "nodeid \<Rightarrow> stmtnode list \<Rightarrow> stmtnode list \<Rightarrow> bool" for n where
  nil: "erased n [] []"
| keep: "erased n xs ys \<Longrightarrow> erased n (x # xs) (x # ys)"
| drop: "erased n xs ys \<Longrightarrow> e_node (lvalue t) = Some n \<Longrightarrow> erased n (STMT_NODE t b # xs) ys"

lemma erase_node_erased: "erase_node n xs = Some ys \<Longrightarrow> erased n xs ys"
proof (induction n xs arbitrary: ys rule: erase_node.induct)
  case (2 n t b xs)
  then show ?case by (fastforce simp: Option.bind_eq_Some_conv intro: erased.intros split: list.splits if_splits)
qed (auto intro: erased.intros)

lemma erase_node_total: "\<forall>x \<in> set xs. wf_stmt h x \<Longrightarrow> \<exists>ys. erase_node n xs = Some ys"
proof (induction n xs rule: erase_node.induct)
  case (2 n t b xs)
  then show ?case by (cases xs) (auto split: option.splits)
qed auto

lemma erased_set: "erased n xs ys \<Longrightarrow> set ys \<subseteq> set xs"
  by (induction rule: erased.induct) auto

lemma erased_nth: "erased n xs ys \<Longrightarrow> j < length ys \<Longrightarrow> \<exists>k \<ge> j. k < length xs \<and> xs ! k = ys ! j"
proof (induction arbitrary: j rule: erased.induct)
  case (keep xs ys x)
  show ?case
  proof (cases j)
    case (Suc i)
    with keep obtain k where "k \<ge> i" "k < length xs" "xs ! k = ys ! i" by fastforce
    with Suc show ?thesis by (intro exI [of _ "Suc k"]) simp
  qed auto
next
  case (drop xs ys t b)
  then obtain k where "k \<ge> j" "k < length xs" "xs ! k = ys ! j" by blast
  then show ?case by (intro exI [of _ "Suc k"]) simp
qed simp

lemma erased_sites:
  "erased n xs ys \<Longrightarrow> (a, F) \<in> sites (STMT_SEQ ys) \<Longrightarrow> \<exists>a' \<ge> a. (a', F) \<in> sites (STMT_SEQ xs)"
proof -
  assume e: "erased n xs ys" and "(a, F) \<in> sites (STMT_SEQ ys)"
  then obtain j r where j: "a = j # r" "j < length ys" "(r, F) \<in> item_sites (ys ! j)" by (auto simp: sites_SEQ)
  from erased_nth [OF e j(2)] obtain k where k: "k \<ge> j" "k < length xs" "xs ! k = ys ! j" by blast
  with j have "(k # r, F) \<in> sites (STMT_SEQ xs)" by (simp add: sites_SEQ)
  with j(1) k(1) show ?thesis by (intro exI [of _ "k # r"]) auto
qed

lemma erased_sorted: "erased n xs ys \<Longrightarrow> sorted_wrt P xs \<Longrightarrow> sorted_wrt P ys"
  by (induction rule: erased.induct) (use erased_set in fastforce)+

text \<open>The two results of placing an assignment, after erasing earlier ones.\<close>

definition leaf_of :: "enode \<Rightarrow> enode \<Rightarrow> nodeid option \<Rightarrow> stmtnode" where
  "leaf_of lv e b = STMT_NODE \<lparr>root = dup e, lvalue = dup lv\<rparr> b"

lemma place_cases:
  assumes "place_leaf h path lv b xs e d l np = Some (xs', np')" "e_node lv = Some n"
  obtains xs1 i where "xs1 = xs \<or> \<not> isArray (h n) \<and> e_op e \<noteq> OP_INVALID \<and> erased n xs xs1"
    "np' = addDepthPath np d i"
    "i < length xs1 \<and> \<not> is_when (xs1 ! i) \<and> (l \<longrightarrow> path ! d \<le> i) \<and> xs' = xs1[i := append_leaf (xs1 ! i) (leaf_of lv e b)]
     \<or> i = length xs1 \<and> xs' = xs1 @ [leaf_of lv e b]"
proof -
  obtain xs1 where xs1: "(if \<not> isArray (h n) \<and> e_op e \<noteq> OP_INVALID then erase_node n xs else Some xs) = Some xs1"
    and r: "(case find (\<lambda>i. \<not> is_when (xs1 ! i)) [if l then min (length xs1) (path ! d) else 0..<length xs1] of
        Some i \<Rightarrow> (xs1[i := append_leaf (xs1 ! i) (leaf_of lv e b)], addDepthPath np d i)
      | None \<Rightarrow> (xs1 @ [leaf_of lv e b], addDepthPath np d (length xs1))) = (xs', np')"
    using assms by (auto simp: place_leaf_def leaf_of_def [symmetric] Let_def Option.bind_eq_Some_conv)
  have e: "xs1 = xs \<or> \<not> isArray (h n) \<and> e_op e \<noteq> OP_INVALID \<and> erased n xs xs1"
    using xs1 erase_node_erased by (auto split: if_splits)
  show thesis
  proof (cases "find (\<lambda>i. \<not> is_when (xs1 ! i)) [if l then min (length xs1) (path ! d) else 0..<length xs1]")
    case None
    with r show thesis by (intro that [OF e, of "length xs1"]) auto
  next
    case (Some i)
    then obtain k where "k < length [if l then min (length xs1) (path ! d) else 0..<length xs1]"
      "i = [if l then min (length xs1) (path ! d) else 0..<length xs1] ! k" "\<not> is_when (xs1 ! i)"
      by (auto simp: find_Some_iff)
    with r Some show thesis by (intro that [OF e, of i]) (auto split: if_splits)
  qed
qed

subsection \<open>What a merge adds\<close>

lemma leaf_foots: "target_ok h lv n R \<Longrightarrow> refs e \<subseteq> R \<Longrightarrow> foots (leaf_of lv e b) = {({n}, refs e \<union> lrefs lv)}"
  "target_ok h lv n R \<Longrightarrow> wf_stmt h (leaf_of lv e b)"
  by (simp_all add: leaf_of_def target_ok_def getRelyNodes_parts)

lemma append_leaf_foots [simp]: "\<not> is_when x \<Longrightarrow> foots (append_leaf x y) = foots x \<union> foots y"
  "\<not> is_when x \<Longrightarrow> wf_stmt h (append_leaf x y) \<longleftrightarrow> wf_stmt h x \<and> wf_stmt h y"
  "\<not> is_when (append_leaf x y)"
  by (cases x; auto simp: is_when_def)+

lemma wf_SEQ_update: "wf_stmt h (STMT_SEQ xs) \<Longrightarrow> wf_stmt h x \<Longrightarrow> wf_stmt h (STMT_SEQ (xs[i := x]))"
  by (auto dest!: set_update_subset_insert [THEN subsetD])

lemma foots_SEQ_update:
  "F \<in> foots (STMT_SEQ (xs[i := x])) \<Longrightarrow> F \<in> foots (STMT_SEQ xs) \<or> F \<in> foots x"
  by (auto dest!: set_update_subset_insert [THEN subsetD])

lemma place_foots:
  assumes "place_leaf h path lv b xs e d l np = Some (xs', np')" "refs e \<subseteq> R" "target_ok h lv n R" "wf_stmt h (STMT_SEQ xs)"
  shows "wf_stmt h (STMT_SEQ xs') \<and> (\<forall>F \<in> foots (STMT_SEQ xs'). F \<in> foots (STMT_SEQ xs) \<or> own n R F)"
proof -
  have "e_node lv = Some n" using assms(3) by (simp add: target_ok_def)
  with assms(1) obtain xs1 i where p: "xs1 = xs \<or> \<not> isArray (h n) \<and> e_op e \<noteq> OP_INVALID \<and> erased n xs xs1"
    "i < length xs1 \<and> \<not> is_when (xs1 ! i) \<and> (l \<longrightarrow> path ! d \<le> i) \<and> xs' = xs1[i := append_leaf (xs1 ! i) (leaf_of lv e b)]
     \<or> i = length xs1 \<and> xs' = xs1 @ [leaf_of lv e b]"
    by (rule place_cases)
  have sub: "set xs1 \<subseteq> set xs" using p(1) erased_set by auto
  then have w: "wf_stmt h (STMT_SEQ xs1)" and f: "foots (STMT_SEQ xs1) \<subseteq> foots (STMT_SEQ xs)" using assms(4) by auto
  note lf = leaf_foots [OF assms(3)]
  have o: "own n R ({n}, refs e \<union> lrefs lv)" using assms(2,3) by (simp add: own_def target_ok_def)
  from p(2) show ?thesis
  proof
    assume i: "i < length xs1 \<and> \<not> is_when (xs1 ! i) \<and> (l \<longrightarrow> path ! d \<le> i) \<and> xs' = xs1[i := append_leaf (xs1 ! i) (leaf_of lv e b)]"
    then have x: "wf_stmt h (xs1 ! i)" "foots (xs1 ! i) \<subseteq> foots (STMT_SEQ xs1)" using w nth_mem by auto
    have "wf_stmt h (STMT_SEQ xs')" using i x(1) lf(2) wf_SEQ_update [OF w] by (simp del: wf_stmt.simps(3))
    moreover have "F \<in> foots (STMT_SEQ xs) \<or> own n R F" if F: "F \<in> foots (STMT_SEQ xs')" for F
    proof -
      have "F \<in> foots (STMT_SEQ xs1) \<or> F \<in> foots (append_leaf (xs1 ! i) (leaf_of lv e b))"
        using F i foots_SEQ_update by blast
      moreover have "foots (append_leaf (xs1 ! i) (leaf_of lv e b)) = foots (xs1 ! i) \<union> {({n}, refs e \<union> lrefs lv)}"
        using i lf(1) [OF assms(2)] by simp
      ultimately show ?thesis using x(2) f o by blast
    qed
    ultimately show ?thesis by blast
  next
    assume "i = length xs1 \<and> xs' = xs1 @ [leaf_of lv e b]"
    moreover have "foots (STMT_SEQ (xs1 @ [leaf_of lv e b])) = foots (STMT_SEQ xs1) \<union> {({n}, refs e \<union> lrefs lv)}"
      using lf(1) [OF assms(2)] by auto
    moreover have "wf_stmt h (STMT_SEQ (xs1 @ [leaf_of lv e b]))" using w lf(2) by auto
    ultimately show ?thesis using f o by blast
  qed
qed

lemma merged_foots:
  "merged h path lv b st eo d l np st' np' \<Longrightarrow> tree_fits R eo \<Longrightarrow> target_ok h lv n R \<Longrightarrow> wf_stmt h st
   \<Longrightarrow> wf_stmt h st' \<and> (\<forall>F \<in> foots st'. F \<in> foots st \<or> own n R F) \<and> is_seq st' = is_seq st \<and> is_when st' = is_when st"
proof (induction rule: merged.induct)
  case (cond e c' t f c fs d l np fs' np1 ts ts' np2 wb)
  have fits: "tree_fits R t" "tree_fits R f" "refs c' \<subseteq> R"
    using tree_fits_parts [OF cond.prems(1) cond.hyps(1)] cond.hyps(2) by auto
  have w: "wf_stmt h ts" "wf_stmt h fs" using cond.prems(3) by simp_all
  note T = cond.IH(2) [OF fits(1) cond.prems(2) w(1)] and F = cond.IH(1) [OF fits(2) cond.prems(2) w(2)]
  have "refs c = refs c'" using refs_same [OF cond.hyps(3)] by simp
  then have "n \<notin> refs c" "\<forall>F. own n R F \<longrightarrow> fst F \<inter> refs c = {}"
    using fits(3) cond.prems(2) by (auto simp: target_ok_def own_def)
  then have "fst F \<inter> refs c = {}" if "F \<in> foots ts' \<union> foots fs'" for F
    using that T F cond.prems(3) by (metis Un_iff wf_stmt.simps(2))
  then have "wf_stmt h (STMT_WHEN c wb ts' fs')" using T F cond.prems(3) by simp
  moreover have "F \<in> foots (STMT_WHEN c wb ts fs) \<or> own n R F" if "F \<in> foots (STMT_WHEN c wb ts' fs')" for F
    using that T F by (metis Un_iff foots.simps(2) insert_iff)
  ultimately show ?case by (simp add: is_when_def is_seq_def)
next
  case (found e xs d l i np x' np')
  have i: "i < length xs" "is_when (xs ! i)"
    using find_when_matches [OF found.hyps(2)] by (auto simp: checkCondEq_def is_when_def split: stmtnode.splits)
  then have "wf_stmt h (xs ! i)" "foots (xs ! i) \<subseteq> foots (STMT_SEQ xs)" using found.prems(3) nth_mem by auto
  note IH = found.IH [OF found.prems(1,2) this(1)]
  have "F \<in> foots (STMT_SEQ xs) \<or> own n R F" if "F \<in> foots (STMT_SEQ (xs[i := x']))" for F
    using foots_SEQ_update [OF that] IH \<open>foots (xs ! i) \<subseteq> foots (STMT_SEQ xs)\<close> by blast
  with IH wf_SEQ_update [OF found.prems(3)] show ?case
    by (simp add: is_seq_def is_when_def del: foots.simps wf_stmt.simps)
next
  case (fresh e xs w sub d l np)
  then have "gen_node lv b e 1 (addDepthPath [] 0 (length xs)) = Some (w, sub)" by (simp add: generateWhenTree_def)
  from gen_foots(1) [OF this fresh.prems(1,2)] fresh.prems(3) show ?case by (auto simp: is_seq_def is_when_def)
next
  case (leaf e d l np xs xs' np')
  then show ?case using place_foots [OF leaf.hyps(2) _ leaf.prems(2,3)] by (simp add: is_seq_def is_when_def del: foots.simps)
qed auto

subsection \<open>Where a merge adds it\<close>

text \<open>Every position of the result is bounded by one of before, or by the path of the assignment.\<close>

definition placed_below :: "nodeid \<Rightarrow> nodeid set \<Rightarrow> path \<Rightarrow> path \<Rightarrow> stmtnode \<Rightarrow> stmtnode \<Rightarrow> bool" where
  "placed_below n R q np st st' \<longleftrightarrow>
     (\<forall>a F. (a, F) \<in> sites st' \<longrightarrow> (\<exists>a' \<ge> a. (a', F) \<in> sites st) \<or> own n R F \<and> q @ a \<le> np)"

lemma placed_below_mono: "placed_below n R q np st st' \<Longrightarrow> np \<le> np' \<Longrightarrow> placed_below n R q np' st st'"
  unfolding placed_below_def by (meson order_trans)

lemma item_sites_update:
  assumes "(a, F) \<in> sites (STMT_SEQ (xs[i := x]))" "i < length xs"
  obtains "(a, F) \<in> sites (STMT_SEQ xs)" | r where "a = i # r" "(r, F) \<in> item_sites x"
  using assms by (auto simp: sites_SEQ nth_list_update split: if_splits)

lemma item_sites_append:
  assumes "(a, F) \<in> sites (STMT_SEQ (xs @ [x]))"
  obtains "(a, F) \<in> sites (STMT_SEQ xs)" | r where "a = length xs # r" "(r, F) \<in> item_sites x"
  using assms by (auto simp: sites_SEQ nth_append less_Suc_eq split: if_splits)

lemma item_sites_leaf: "\<not> is_when x \<Longrightarrow> item_sites x = Pair [] ` foots x"
  by (cases x) (auto simp: item_sites_def is_when_def)

lemma place_sites:
  assumes p: "place_leaf h path lv b xs e d l np = Some (xs', np')" and e: "refs e \<subseteq> R" and t: "target_ok h lv n R"
    and q: "bounds q np" "length q = d"
  shows "path_step d np np' \<and> placed_below n R q np' (STMT_SEQ xs) (STMT_SEQ xs')"
proof -
  have "e_node lv = Some n" using t by (simp add: target_ok_def)
  with p obtain xs1 i where p: "xs1 = xs \<or> \<not> isArray (h n) \<and> e_op e \<noteq> OP_INVALID \<and> erased n xs xs1"
    and np': "np' = addDepthPath np d i"
    and i: "i < length xs1 \<and> \<not> is_when (xs1 ! i) \<and> (l \<longrightarrow> path ! d \<le> i) \<and> xs' = xs1[i := append_leaf (xs1 ! i) (leaf_of lv e b)]
     \<or> i = length xs1 \<and> xs' = xs1 @ [leaf_of lv e b]"
    by (rule place_cases)
  have old: "\<exists>a' \<ge> a. (a', F) \<in> sites (STMT_SEQ xs)" if "(a, F) \<in> sites (STMT_SEQ xs1)" for a F
    using p that erased_sites by blast
  have new: "q @ [i] \<le> np'" using bounds_le [OF addDepthPath_bounds [OF q(1), of i]] q(2) np' by simp
  have o: "own n R ({n}, refs e \<union> lrefs lv)" using e t by (simp add: own_def target_ok_def)
  have lf: "item_sites (leaf_of lv e b) = {([], {n}, refs e \<union> lrefs lv)}"
    using item_sites_leaf [of "leaf_of lv e b"] leaf_foots(1) [OF t e, of b] by (simp add: leaf_of_def is_when_def)
  have "(\<exists>a' \<ge> a. (a', F) \<in> sites (STMT_SEQ xs)) \<or> own n R F \<and> q @ a \<le> np'" if a: "(a, F) \<in> sites (STMT_SEQ xs')" for a F
    using i
  proof
    assume i: "i < length xs1 \<and> \<not> is_when (xs1 ! i) \<and> (l \<longrightarrow> path ! d \<le> i) \<and> xs' = xs1[i := append_leaf (xs1 ! i) (leaf_of lv e b)]"
    then have x: "item_sites (append_leaf (xs1 ! i) (leaf_of lv e b)) = Pair [] ` (foots (xs1 ! i) \<union> {({n}, refs e \<union> lrefs lv)})"
      "item_sites (xs1 ! i) = Pair [] ` foots (xs1 ! i)"
      using leaf_foots(1) [OF t e, of b] by (simp_all add: item_sites_leaf)
    from a i consider "(a, F) \<in> sites (STMT_SEQ xs1)" | "a = [i]" "F \<in> foots (xs1 ! i) \<union> {({n}, refs e \<union> lrefs lv)}"
      by (elim conjE) (simp, erule item_sites_update, simp, simp, force simp: x(1))
    then show ?thesis
    proof cases
      case 1
      then show ?thesis using old by blast
    next
      case 2
      then have "(a, F) \<in> sites (STMT_SEQ xs1) \<or> F = ({n}, refs e \<union> lrefs lv)"
        using i x(2) by (auto simp: sites_SEQ)
      then show ?thesis using old o new 2(1) by blast
    qed
  next
    assume "i = length xs1 \<and> xs' = xs1 @ [leaf_of lv e b]"
    then have "(a, F) \<in> sites (STMT_SEQ xs1) \<or> a = [i] \<and> F = ({n}, refs e \<union> lrefs lv)"
      using a item_sites_append [of a F xs1 "leaf_of lv e b"] lf by auto
    then show ?thesis using old o new by blast
  qed
  moreover have "path_step d np np'" using q np' by (auto simp: bounds_def intro: path_step_add)
  ultimately show ?thesis by (simp add: placed_below_def)
qed

lemma fresh_sites:
  assumes g: "generateWhenTree (length xs) lv e b = Some (w, sub)" and e: "tree_fits R (Some e)" and t: "target_ok h lv n R"
    and q: "bounds q np"
  shows "path_step (length q) np (add_subPath np (length q) sub)
    \<and> placed_below n R q (add_subPath np (length q) sub) (STMT_SEQ xs) (STMT_SEQ (xs @ [w]))"
proof -
  have gn: "gen_node lv b e 1 [length xs] = Some (w, sub)" using g by (simp add: generateWhenTree_def addDepthPath_def del: gen_node.simps)
  have "zeros_path (length xs) [length xs]" by (simp add: zeros_path_def)
  with gen_sites(1) [OF gn] have z: "zeros_path (length xs) sub"
    "\<forall>(a, F) \<in> item_sites w. \<exists>k. a = replicate k 0 \<and> 1 + k \<le> length sub" by auto
  note f = gen_foots(1) [OF gn e t]
  note b = add_subPath_bounds [OF q, of sub]
  have "(a, F) \<in> sites (STMT_SEQ xs) \<or> own n R F \<and> q @ a \<le> add_subPath np (length q) sub"
    if "(a, F) \<in> sites (STMT_SEQ (xs @ [w]))" for a F
    using that
  proof (cases rule: item_sites_append)
    case (2 r)
    with z(2) obtain k where "r = replicate k 0" "k < length sub" by fastforce
    then have "q @ a \<le> q @ sub" using 2(1) zeros_path_le [OF z(1)] by simp
    moreover have "F \<in> foots w" using foots_sites [of h w] f 2(2) by force
    ultimately show ?thesis using f bounds_le [OF conjunct1 [OF b]] by (meson order_trans)
  qed blast
  with b show ?thesis unfolding placed_below_def by blast
qed

lemma merged_heads: "merged h path lv b st eo d l np st' np' \<Longrightarrow> is_when st \<Longrightarrow> heads st' = heads st"
  by (cases rule: merged.cases) (auto simp: is_when_def)

lemma merged_sites:
  "merged h path lv b st eo d l np st' np' \<Longrightarrow> tree_fits R eo \<Longrightarrow> target_ok h lv n R \<Longrightarrow> bounds q np \<Longrightarrow> length q = d
   \<Longrightarrow> path_step d np np' \<and> placed_below n R q np' st st'"
proof (induction arbitrary: q rule: merged.induct)
  case (null st d l np)
  then show ?case by (auto simp: placed_below_def bounds_def intro: path_step_refl)
next
  case (cond e c' t f c fs d l np fs' np1 ts ts' np2 wb)
  have fits: "tree_fits R t" "tree_fits R f" using tree_fits_parts [OF cond.prems(1) cond.hyps(1)] cond.hyps(2) by auto
  note F = cond.IH(1) [OF fits(2) cond.prems(2,3,4)]
  have "bounds q np1" using F path_step_bounds cond.prems(3,4) by blast
  note T = cond.IH(2) [OF fits(1) cond.prems(2) this cond.prems(4)]
  have "placed_below n R q np2 fs fs'" using F T placed_below_mono by (auto simp: path_step_def)
  then have "placed_below n R q np2 (STMT_WHEN c wb ts fs) (STMT_WHEN c wb ts' fs')"
    using T unfolding placed_below_def by (metis Un_iff sites.simps(2))
  then show ?case using F T path_step_trans by blast
next
  case (found e xs d l i np x' np')
  have i: "i < length xs" "is_when (xs ! i)"
    using find_when_matches [OF found.hyps(2)] by (auto simp: checkCondEq_def is_when_def split: stmtnode.splits)
  let ?np = "addDepthPath np d i"
  have b: "bounds (q @ [i]) ?np" using addDepthPath_bounds [OF found.prems(3)] found.prems(4) by simp
  have "path_step (d + 1) ?np np'" and pb: "placed_below n R (q @ [i]) np' (xs ! i) x'"
    using found.IH [OF found.prems(1,2) b] found.prems(4) by auto
  then have "path_step d np np'"
    using path_step_trans [OF path_step_add [of d d np i]] path_step_shallower found.prems(3,4) by (simp add: bounds_def)
  moreover have "(\<exists>a' \<ge> a. (a', F) \<in> sites (STMT_SEQ xs)) \<or> own n R F \<and> q @ a \<le> np'"
    if "(a, F) \<in> sites (STMT_SEQ (xs[i := x']))" for a F
    using that i(1)
  proof (cases rule: item_sites_update)
    case (2 r)
    then consider "r = []" "F \<in> heads (xs ! i)" | "(r, F) \<in> sites x'"
      using merged_heads [OF found.hyps(3) i(2)] by (auto simp: item_sites_def split: if_splits)
    then show ?thesis
    proof cases
      case 1
      then have "(i # r, F) \<in> sites (STMT_SEQ xs)" using i by (auto simp: sites_SEQ item_sites_def)
      then show ?thesis using 2(1) by blast
    next
      case 2
      then consider r' where "r \<le> r'" "(r', F) \<in> sites (xs ! i)" | "own n R F" "(q @ [i]) @ r \<le> np'"
        using pb unfolding placed_below_def by blast
      then show ?thesis
      proof cases
        case 1
        then have "(i # r', F) \<in> sites (STMT_SEQ xs)" using i by (auto simp: sites_SEQ item_sites_def)
        then show ?thesis using \<open>a = i # r\<close> 1(1) by (metis Cons_le_Cons)
      qed (use \<open>a = i # r\<close> in simp)
    qed
  qed blast
  ultimately show ?case by (simp add: placed_below_def)
next
  case (fresh e xs w sub d l np)
  then show ?case using fresh_sites by blast
next
  case (leaf e d l np xs xs' np')
  then show ?case using place_sites [OF leaf.hyps(2) _ leaf.prems(2,3,4)] by simp
qed

end
