(* ===== verification/StmtSound.thy ===== *)
theory StmtSound
  imports StmtMerge
begin

section \<open>Merging does what assigning does\<close>

text \<open>
  A path is far enough for an assignment when no statement behind it clashes with the
  assignment (\<open>free_after\<close>).  Erasing an earlier assignment needs that no statement after it
  reads the node (\<open>readers_first\<close>).
\<close>

definition lim_path :: "path \<Rightarrow> nat \<Rightarrow> bool \<Rightarrow> path" where
  "lim_path path d l = (if l then drop d path else [])"

definition free_after :: "path \<Rightarrow> nodeid \<Rightarrow> nodeid set \<Rightarrow> stmtnode \<Rightarrow> bool" where
  "free_after p n R st \<longleftrightarrow> (\<forall>a F. (a, F) \<in> sites st \<longrightarrow> \<not> a \<le> p \<longrightarrow> \<not> clash n R F)"

definition writes_node :: "nodeid \<Rightarrow> stmtnode \<Rightarrow> bool" where
  "writes_node n st \<longleftrightarrow> (\<exists>F \<in> foots st. n \<in> fst F)"

definition reads_node :: "nodeid \<Rightarrow> stmtnode \<Rightarrow> bool" where
  "reads_node n st \<longleftrightarrow> (\<exists>F \<in> foots st. n \<in> snd F)"

fun readers_first :: "nodeid \<Rightarrow> stmtnode \<Rightarrow> bool" where
  "readers_first n (STMT_NODE t b) = True"
| "readers_first n (STMT_WHEN c b ts fs) = (readers_first n ts \<and> readers_first n fs)"
| "readers_first n (STMT_SEQ xs) =
     ((\<forall>x \<in> set xs. readers_first n x) \<and> sorted_wrt (\<lambda>x y. writes_node n x \<longrightarrow> \<not> reads_node n y) xs)"

lemma lim_path_limit [simp]: "lim_path path d (l \<and> d < length path) = lim_path path d l"
  by (simp add: lim_path_def)

text \<open>Behind a position the path allows nothing clashes.\<close>

lemma free_behind:
  assumes "free_after (lim_path path d l) n R (STMT_SEQ xs)" "wf_stmt h (STMT_SEQ xs)"
    and "l \<and> d < length path \<longrightarrow> path ! d \<le> i" "i < j" "j < length xs" "F \<in> foots (xs ! j)"
  shows "\<not> clash n R F"
proof -
  obtain a where a: "(j # a, F) \<in> sites (STMT_SEQ xs)" by (rule foot_site [OF assms(2,5,6)])
  have "\<not> j # a \<le> lim_path path d l"
    using assms(3,4) by (cases "l \<and> d < length path") (auto simp: lim_path_def Cons_nth_drop_Suc [symmetric])
  with a assms(1) show ?thesis unfolding free_after_def by blast
qed

lemma free_found:
  assumes free: "free_after (lim_path path d l) n R (STMT_SEQ xs)"
    and f: "find_when path xs e d (l \<and> d < length path) = Some i"
  shows "free_after (lim_path path (d + 1) ((l \<and> d < length path) \<and> \<not> path ! d < i)) n R (xs ! i)"
proof -
  have i: "i < length xs" "is_when (xs ! i)" "l \<and> d < length path \<longrightarrow> path ! d \<le> i"
    using find_when_matches [OF f] by (auto simp: checkCondEq_def is_when_def split: stmtnode.splits)
  let ?p = "lim_path path (d + 1) ((l \<and> d < length path) \<and> \<not> path ! d < i)"
  have "\<not> clash n R F" if a: "(a, F) \<in> sites (xs ! i)" "\<not> a \<le> ?p" for a F
  proof -
    have "(i # a, F) \<in> sites (STMT_SEQ xs)" using a(1) i by (auto simp: sites_SEQ item_sites_def)
    moreover have "\<not> i # a \<le> lim_path path d l"
      using i(3) a(2) by (cases "l \<and> d < length path") (auto simp: lim_path_def Cons_nth_drop_Suc [symmetric] split: if_splits)
    ultimately show ?thesis using free unfolding free_after_def by blast
  qed
  then show ?thesis unfolding free_after_def by blast
qed

lemma free_erased: "free_after p n R (STMT_SEQ xs) \<Longrightarrow> erased n xs ys \<Longrightarrow> free_after p n R (STMT_SEQ ys)"
  unfolding free_after_def by (meson erased_sites order_trans)

subsection \<open>Readers stay in front\<close>

lemma sorted_wrt_update:
  assumes "sorted_wrt P xs" "i < length xs" "\<And>j. i < j \<Longrightarrow> j < length xs \<Longrightarrow> P x (xs ! j)" "\<And>j. j < i \<Longrightarrow> P (xs ! j) x"
  shows "sorted_wrt P (xs[i := x])"
  using assms by (auto simp: sorted_wrt_iff_nth_less nth_list_update)

lemma no_reads_readers_first: "\<not> reads_node n st \<Longrightarrow> readers_first n st"
proof (induction st)
  case (STMT_SEQ xs)
  then show ?case by (auto simp: reads_node_def sorted_wrt_iff_nth_less dest: nth_mem)
qed (auto simp: reads_node_def)

lemma own_no_read: "own n R F \<Longrightarrow> n \<notin> R \<Longrightarrow> n \<notin> snd F"
  by (auto simp: own_def)

text \<open>A child of a sequence that takes in an assignment.\<close>

lemma readers_first_update:
  assumes rf: "readers_first n (STMT_SEQ xs)" and i: "i < length xs" and x: "readers_first n x"
    and F: "\<forall>F \<in> foots x. F \<in> foots (xs ! i) \<or> own n R F" and n: "n \<notin> R"
    and late: "\<And>j F. i < j \<Longrightarrow> j < length xs \<Longrightarrow> F \<in> foots (xs ! j) \<Longrightarrow> \<not> clash n R F"
  shows "readers_first n (STMT_SEQ (xs[i := x]))"
proof -
  have "\<not> reads_node n (xs ! j)" if "i < j" "j < length xs" for j
    using late [OF that] by (auto simp: reads_node_def clash_def)
  moreover have "reads_node n x \<Longrightarrow> reads_node n (xs ! i)" using F own_no_read [OF _ n] by (auto simp: reads_node_def)
  then have "writes_node n (xs ! j) \<longrightarrow> \<not> reads_node n x" if "j < i" for j
    using rf i that by (auto simp: sorted_wrt_iff_nth_less)
  ultimately have "sorted_wrt (\<lambda>x y. writes_node n x \<longrightarrow> \<not> reads_node n y) (xs[i := x])"
    using rf i by (intro sorted_wrt_update) auto
  then show ?thesis using rf x by (auto dest!: set_update_subset_insert [THEN subsetD])
qed

lemma readers_first_append:
  assumes "readers_first n (STMT_SEQ xs)" "\<forall>F \<in> foots x. own n R F" "n \<notin> R"
  shows "readers_first n (STMT_SEQ (xs @ [x]))"
proof -
  have "\<not> reads_node n x" using assms(2,3) own_no_read by (auto simp: reads_node_def)
  with no_reads_readers_first [OF this] assms(1) show ?thesis by (auto simp: sorted_wrt_append)
qed

lemma readers_first_append_leaf:
  assumes "\<not> is_when x" "readers_first n x" "\<forall>F \<in> foots y. own n R F" "n \<notin> R"
  shows "readers_first n (append_leaf x y)"
proof (cases x)
  case (STMT_NODE t b)
  with readers_first_append [of n "[x]" y R] assms show ?thesis by simp
next
  case (STMT_SEQ ys)
  with readers_first_append [of n ys y R] assms show ?thesis by simp
qed (use assms in \<open>simp add: is_when_def\<close>)

lemma place_readers_first:
  assumes p: "place_leaf h path lv b xs e d (l \<and> d < length path) np = Some (xs', np')" and e: "refs e \<subseteq> R" and t: "target_ok h lv n R"
    and w: "wf_stmt h (STMT_SEQ xs)" and free: "free_after (lim_path path d l) n R (STMT_SEQ xs)" and rf: "readers_first n (STMT_SEQ xs)"
  shows "readers_first n (STMT_SEQ xs')"
proof -
  have lv: "e_node lv = Some n" and n: "n \<notin> R" using t by (simp_all add: target_ok_def)
  from p lv obtain xs1 i where p: "xs1 = xs \<or> \<not> isArray (h n) \<and> e_op e \<noteq> OP_INVALID \<and> erased n xs xs1"
    and i: "i < length xs1 \<and> \<not> is_when (xs1 ! i) \<and> (l \<and> d < length path \<longrightarrow> path ! d \<le> i) \<and> xs' = xs1[i := append_leaf (xs1 ! i) (leaf_of lv e b)]
     \<or> i = length xs1 \<and> xs' = xs1 @ [leaf_of lv e b]"
    by (rule place_cases)
  have w1: "wf_stmt h (STMT_SEQ xs1)" using p w erased_set by fastforce
  have rf1: "readers_first n (STMT_SEQ xs1)" using p rf erased_set erased_sorted by fastforce
  have free1: "free_after (lim_path path d l) n R (STMT_SEQ xs1)" using p free free_erased by blast
  have lf: "\<forall>F \<in> foots (leaf_of lv e b). own n R F"
    using leaf_foots(1) [OF t e, of b] e t by (simp add: own_def target_ok_def)
  from i show ?thesis
  proof
    assume i: "i < length xs1 \<and> \<not> is_when (xs1 ! i) \<and> (l \<and> d < length path \<longrightarrow> path ! d \<le> i) \<and> xs' = xs1[i := append_leaf (xs1 ! i) (leaf_of lv e b)]"
    show ?thesis unfolding conjunct2 [OF conjunct2 [OF conjunct2 [OF i]]]
    proof (rule readers_first_update [OF rf1 _ _ _ n])
      show "readers_first n (append_leaf (xs1 ! i) (leaf_of lv e b))"
        using i rf1 by (intro readers_first_append_leaf [OF _ _ lf n]) auto
      show "\<forall>F \<in> foots (append_leaf (xs1 ! i) (leaf_of lv e b)). F \<in> foots (xs1 ! i) \<or> own n R F" using i lf by auto
      show "\<not> clash n R F" if "i < j" "j < length xs1" "F \<in> foots (xs1 ! j)" for j F
        using free_behind [OF free1 w1] i that by blast
    qed (use i in simp)
  qed (use readers_first_append [OF rf1 lf n] in simp)
qed

lemma merged_readers_first:
  "merged h path lv b st eo d l np st' np' \<Longrightarrow> tree_fits R eo \<Longrightarrow> target_ok h lv n R \<Longrightarrow> wf_stmt h st
   \<Longrightarrow> free_after (lim_path path d l) n R st \<Longrightarrow> readers_first n st \<Longrightarrow> readers_first n st'"
proof (induction rule: merged.induct)
  case (cond e c' t f c fs d l np fs' np1 ts ts' np2 wb)
  have "tree_fits R t" "tree_fits R f" using tree_fits_parts [OF cond.prems(1) cond.hyps(1)] cond.hyps(2) by auto
  then show ?case using cond by (auto simp: free_after_def)
next
  case (found e xs d l i np x' np')
  have i: "i < length xs" "l \<and> d < length path \<longrightarrow> path ! d \<le> i" using find_when_matches [OF found.hyps(2)] by auto
  then have x: "wf_stmt h (xs ! i)" "readers_first n (xs ! i)" using found.prems(3,5) by auto
  note IH = found.IH [OF found.prems(1,2) x(1) free_found [OF found.prems(4) found.hyps(2)] x(2)]
  have n: "n \<notin> R" using found.prems(2) by (simp add: target_ok_def)
  show ?case
    by (rule readers_first_update [OF found.prems(5) i(1) IH _ n])
      (use merged_foots [OF found.hyps(3) found.prems(1,2) x(1)] free_behind [OF found.prems(4,3) i(2)] in blast)+
next
  case (fresh e xs w sub d l np)
  then have "gen_node lv b e 1 (addDepthPath [] 0 (length xs)) = Some (w, sub)" by (simp add: generateWhenTree_def)
  from gen_foots(1) [OF this fresh.prems(1,2)] fresh.prems(2,5) show ?case
    by (intro readers_first_append [where R = R]) (auto simp: target_ok_def)
next
  case (leaf e d l np xs xs' np')
  then show ?case using place_readers_first [OF leaf.hyps(2) _ leaf.prems(2,3,4,5)] by simp
qed

subsection \<open>The effect of a merge\<close>

context statements
begin

lemma run_off:
  "off n s s' \<Longrightarrow> \<not> reads_node n st \<Longrightarrow> off n (run test assign st s) (run test assign st s')"
proof (induction st arbitrary: s s')
  case (STMT_WHEN c b ts fs)
  then have "test c s = test c s'" by (intro test_off) (auto simp: reads_node_def)
  with STMT_WHEN show ?case by (auto simp: reads_node_def)
next
  case (STMT_SEQ xs)
  then show ?case by (induction xs arbitrary: s s') (auto simp: reads_node_def ball_Un)
qed (auto simp: reads_node_def intro: assign_off)

text \<open>Without the erased assignments only the node itself may have another value.\<close>

lemma erased_off:
  "erased n xs ys \<Longrightarrow> \<forall>x \<in> set xs. wf_stmt h x \<Longrightarrow> \<not> isArray (h n)
   \<Longrightarrow> sorted_wrt (\<lambda>x y. writes_node n x \<longrightarrow> \<not> reads_node n y) xs
   \<Longrightarrow> off n s' s \<Longrightarrow> s' = s \<or> (\<forall>x \<in> set xs. \<not> reads_node n x)
   \<Longrightarrow> off n (run test assign (STMT_SEQ ys) s') (run test assign (STMT_SEQ xs) s)"
proof (induction arbitrary: s s' rule: erased.induct)
  case (keep xs ys x)
  have "off n (run test assign x s') (run test assign x s)"
    using keep.prems(4,5) by (auto intro: run_off off_refl)
  then show ?case using keep by auto
next
  case (drop xs ys t b)
  have w: "writes_node n (STMT_NODE t b)" using drop.hyps by (simp add: writes_node_def)
  have "child (lvalue t) = []" using drop by auto
  then have "off n s (assign t s)" using drop.hyps by (intro assign_only)
  then have "off n s' (assign t s)" using drop.prems(4) off_trans by blast
  with drop.IH [of s' "assign t s"] w drop.prems show ?case by auto
qed auto

lemma run_append_leaf: "\<not> is_when x \<Longrightarrow> run test assign (append_leaf x y) s = run test assign y (run test assign x s)"
  by (cases x) (auto simp: is_when_def)

lemma run_leaf_of: "run test assign (leaf_of lv e b) s = assign \<lparr>root = e, lvalue = lv\<rparr> s"
  using assign_dup [of "\<lparr>root = e, lvalue = lv\<rparr>"] by (simp add: leaf_of_def dup_tree_def)

lemma place_run:
  assumes p: "place_leaf h path lv b xs e d (l \<and> d < length path) np = Some (xs', np')" and e: "refs e \<subseteq> R" "\<not> conditional e"
    and t: "target_ok h lv n R" and w: "wf_stmt h (STMT_SEQ xs)"
    and free: "free_after (lim_path path d l) n R (STMT_SEQ xs)" and rf: "readers_first n (STMT_SEQ xs)"
  shows "run test assign (STMT_SEQ xs') s = exec test assign lv (Some e) (run test assign (STMT_SEQ xs) s)"
proof -
  let ?t = "\<lparr>root = e, lvalue = lv\<rparr>"
  have lv: "e_node lv = Some n" "lrefs lv \<union> refs e \<subseteq> R" and n: "n \<notin> getRelyNodes ?t"
    using t e(1) by (auto simp: target_ok_def getRelyNodes_parts)
  from p lv(1) obtain xs1 i where p: "xs1 = xs \<or> \<not> isArray (h n) \<and> e_op e \<noteq> OP_INVALID \<and> erased n xs xs1"
    and i: "i < length xs1 \<and> \<not> is_when (xs1 ! i) \<and> (l \<and> d < length path \<longrightarrow> path ! d \<le> i) \<and> xs' = xs1[i := append_leaf (xs1 ! i) (leaf_of lv e b)]
     \<or> i = length xs1 \<and> xs' = xs1 @ [leaf_of lv e b]"
    by (rule place_cases)
  have w1: "wf_stmt h (STMT_SEQ xs1)" using p w erased_set by fastforce
  have free1: "free_after (lim_path path d l) n R (STMT_SEQ xs1)" using p free free_erased by blast
  have "assign ?t (run test assign (STMT_SEQ xs1) s) = assign ?t (run test assign (STMT_SEQ xs) s)"
    using p
  proof
    assume er: "\<not> isArray (h n) \<and> e_op e \<noteq> OP_INVALID \<and> erased n xs xs1"
    then have "child lv = []" using t by (auto simp: target_ok_def)
    moreover have "off n (run test assign (STMT_SEQ xs1) s) (run test assign (STMT_SEQ xs) s)"
      using er w rf off_refl by (intro erased_off) auto
    ultimately show ?thesis using er lv(1) n by (intro assign_over) auto
  qed simp
  moreover have "run test assign (STMT_SEQ xs') s = assign ?t (run test assign (STMT_SEQ xs1) s)"
    using i
  proof
    assume i: "i < length xs1 \<and> \<not> is_when (xs1 ! i) \<and> (l \<and> d < length path \<longrightarrow> path ! d \<le> i) \<and> xs' = xs1[i := append_leaf (xs1 ! i) (leaf_of lv e b)]"
    have "run test assign (STMT_SEQ (xs1[i := append_leaf (xs1 ! i) (leaf_of lv e b)])) s
        = exec test assign lv (Some e) (run test assign (STMT_SEQ xs1) s)"
    proof (rule run_update [OF lv w1])
      show "run test assign (append_leaf (xs1 ! i) (leaf_of lv e b)) s = exec test assign lv (Some e) (run test assign (xs1 ! i) s)" for s
        using i e(2) by (simp add: run_append_leaf run_leaf_of)
      show "\<not> clash n R F" if "i < j" "j < length xs1" "F \<in> foots (xs1 ! j)" for j F
        using free_behind [OF free1 w1] i that by blast
    qed (use i in simp)
    with i e(2) show ?thesis by simp
  qed (simp add: run_leaf_of)
  ultimately show ?thesis using e(2) by simp
qed

lemma merged_run:
  "merged h path lv b st eo d l np st' np' \<Longrightarrow> tree_fits R eo \<Longrightarrow> target_ok h lv n R \<Longrightarrow> wf_stmt h st
   \<Longrightarrow> free_after (lim_path path d l) n R st \<Longrightarrow> readers_first n st
   \<Longrightarrow> run test assign st' s = exec test assign lv eo (run test assign st s)"
proof (induction arbitrary: s rule: merged.induct)
  case (cond e c' t f c fs d l np fs' np1 ts ts' np2 wb)
  obtain fits: "tree_fits R t" "tree_fits R f" and mf: "mem_free c'"
    using tree_fits_parts [OF cond.prems(1) cond.hyps(1)] cond.hyps(2) by auto
  have free: "free_after (lim_path path d (l \<and> d < length path)) n R x" if "x \<in> {ts, fs}" for x
    using cond.prems(4) that by (auto simp: free_after_def)
  have T: "run test assign ts' s = exec test assign lv t (run test assign ts s)" for s
    using cond.IH(2) [OF fits(1) cond.prems(2)] cond.prems(3,5) free by simp
  have F: "run test assign fs' s = exec test assign lv f (run test assign fs s)" for s
    using cond.IH(1) [OF fits(2) cond.prems(2)] cond.prems(3,5) free by simp
  have same: "test c' = test c" "refs c' = refs c"
    using test_same [OF cond.hyps(3) mf] refs_same [OF cond.hyps(3)] by simp_all
  have stable: "test c (run test assign x s) = test c s" if "x \<in> {ts, fs}" for x
    by (rule run_test [of h]) (use that cond.prems(3) in auto)
  show ?case using cond.hyps(1,2) T F same stable by simp
next
  case (found e xs d l i np x' np')
  have i: "i < length xs" "l \<and> d < length path \<longrightarrow> path ! d \<le> i" using find_when_matches [OF found.hyps(2)] by auto
  then have x: "wf_stmt h (xs ! i)" "readers_first n (xs ! i)" using found.prems(3,5) by auto
  have lv: "e_node lv = Some n" "lrefs lv \<union> refs e \<subseteq> R" using found.prems(1,2) by (auto simp: target_ok_def)
  show ?case
    by (rule run_update [OF lv found.prems(3) i(1)])
      (use found.IH [OF found.prems(1,2) x(1) free_found [OF found.prems(4) found.hyps(2)] x(2)]
        free_behind [OF found.prems(4,3) i(2)] in blast)+
next
  case (fresh e xs w sub d l np)
  then have "gen_node lv b e 1 (addDepthPath [] 0 (length xs)) = Some (w, sub)" by (simp add: generateWhenTree_def)
  from gen_run(1) [OF this] show ?case by simp
next
  case (leaf e d l np xs xs' np')
  then show ?case using place_run [OF leaf.hyps(2) _ leaf.hyps(1) leaf.prems(2,3,4,5)] by simp
qed simp

end

end
