(* ===== verification/StmtSuper.thy ===== *)
theory StmtSuper
  imports StmtSound Refine
begin

section \<open>The statements of a super node\<close>

text \<open>
  The members of a super node are merged one after another.  The invariant is that every
  statement of the tree so far belongs to an assignment of a member and lies within the path
  recorded for that member, so that the path of a later member covers everything it depends
  on.
\<close>

subsection \<open>Merging never fails\<close>

lemma place_total:
  assumes "e_node lv = Some n" "wf_stmt h (STMT_SEQ xs)"
  shows "\<exists>r. place_leaf h path lv b xs e d l np = Some r"
  using assms erase_node_total [of xs h n] by (auto simp: place_leaf_def Let_def)

lemma merge_total:
  "tree_fits R (Some e) \<Longrightarrow> e_node lv = Some n \<Longrightarrow> wf_stmt h st \<Longrightarrow> is_seq st \<or> checkCondEq st e
    \<Longrightarrow> \<exists>r. merge_node h path lv b st e d l np = Some r"
  "tree_fits R eo \<Longrightarrow> e_node lv = Some n \<Longrightarrow> wf_stmt h st \<Longrightarrow> is_seq st
    \<Longrightarrow> \<exists>r. merge_branch h path lv b st eo d l np = Some r"
proof (induction h path lv b st e d l np and h path lv b st eo d l np rule: merge_node_merge_branch.induct)
  case (1 h path lv b c wb ts fs e d l np)
  let ?l = "l \<and> d < length path"
  have q: "checkCondEq (STMT_WHEN c wb ts fs) e" using 1(6) by (simp add: is_seq_def)
  then have e: "conditional e" by (simp add: checkCondEq_def)
  obtain c' t f where p: "when_parts e = Some (c', t, f)" "tree_fits R t" "tree_fits R f"
    by (rule tree_fits_parts [OF 1(3) e]) blast
  have w: "wf_stmt h ts" "wf_stmt h fs" "is_seq ts" "is_seq fs" using 1(5) by simp_all
  obtain fs' np1 where f: "merge_branch h path lv b fs f d ?l np = Some (fs', np1)"
    using 1(1) [OF refl q p(1) refl refl p(3) 1(4) w(2,4)] by auto
  obtain ts' np2 where "merge_branch h path lv b ts t d ?l np1 = Some (ts', np2)"
    using 1(2) [OF refl q p(1) refl refl f refl p(2) 1(4) w(1,3)] by auto
  with f p(1) q show ?case by simp
next
  case (2 h path lv b xs e d l np)
  let ?l = "l \<and> d < length path"
  show ?case
  proof (cases "conditional e")
    case True
    show ?thesis
    proof (cases "find_when path xs e d ?l")
      case None
      obtain w sub where "gen_node lv b e 1 (addDepthPath [] 0 (length xs)) = Some (w, sub)"
        using gen_total(1) [OF 2(2), of lv b 1 "addDepthPath [] 0 (length xs)"] by (auto simp del: gen_node.simps)
      then have "generateWhenTree (length xs) lv e b = Some (w, sub)"
        using True by (simp add: generateWhenTree_def del: gen_node.simps)
      then show ?thesis using None True by simp
    next
      case (Some i)
      then have "i < length xs" "checkCondEq (xs ! i) e" using find_when_matches by blast+
      then obtain r where "merge_node h path lv b (xs ! i) e (d + 1) (?l \<and> \<not> path ! d < i) (addDepthPath np d i) = Some r"
        using 2(1) [OF refl True Some 2(2,3)] 2(4) by auto
      then show ?thesis using True Some by (cases r) simp
    qed
  next
    case False
    then show ?thesis using place_total [OF 2(3,4), of path b e d ?l np] by auto
  qed
next
  case (3 h path lv b t nb e d l np)
  then show ?case by (simp add: is_seq_def checkCondEq_def)
qed auto

subsection \<open>One assignment\<close>

definition tree_ok :: "heap \<Rightarrow> exptree \<Rightarrow> bool" where
  "tree_ok h t \<longleftrightarrow>
     conds_ok (root t)
     \<and> (case e_node (lvalue t) of
          None \<Rightarrow> False
        | Some n \<Rightarrow> (isArray (h n) \<or> child (lvalue t) = []) \<and> n \<notin> getRelyNodes t)"

lemma tree_okD:
  assumes "tree_ok h t"
  obtains n where "e_node (lvalue t) = Some n" "target_ok h (lvalue t) n (getRelyNodes t)" "tree_fits (getRelyNodes t) (Some (root t))"
  using assms by (auto simp: tree_ok_def target_ok_def getRelyNodes_parts split: option.splits)

definition belongs :: "foot \<Rightarrow> exptree \<Rightarrow> bool" where
  "belongs F t \<longleftrightarrow> fst F \<subseteq> set_option (e_node (lvalue t)) \<and> snd F \<subseteq> getRelyNodes t"

definition settled_for :: "nodeid \<Rightarrow> exptree list \<Rightarrow> bool" where
  "settled_for x us \<longleftrightarrow> sorted_wrt (\<lambda>t t'. e_node (lvalue t) = Some x \<longrightarrow> x \<notin> getRelyNodes t') us"

text \<open>The tree \<open>st\<close> holds exactly the assignments \<open>us\<close>.\<close>

definition holds_trees :: "heap \<Rightarrow> exptree list \<Rightarrow> stmtnode \<Rightarrow> bool" where
  "holds_trees h us st \<longleftrightarrow>
     is_seq st \<and> wf_stmt h st \<and> (\<forall>F \<in> foots st. \<exists>t \<in> set us. belongs F t)
     \<and> (\<forall>x. settled_for x us \<longrightarrow> readers_first x st)"

lemma no_writes_readers_first: "\<not> writes_node n st \<Longrightarrow> readers_first n st"
proof (induction st)
  case (STMT_SEQ xs)
  then show ?case by (auto simp: writes_node_def sorted_wrt_iff_nth_less dest: nth_mem)
qed (auto simp: writes_node_def)

lemma sorted_wrt_update_mono:
  assumes "sorted_wrt P xs" "i < length xs" "\<And>y. P (xs ! i) y \<Longrightarrow> P x y" "\<And>y. P y (xs ! i) \<Longrightarrow> P y x"
  shows "sorted_wrt P (xs[i := x])"
  using assms by (auto simp: sorted_wrt_iff_nth_less nth_list_update)

text \<open>An assignment that neither writes nor reads \<open>x\<close> keeps the readers of \<open>x\<close> in front.\<close>

lemma unrelated_update:
  assumes rf: "readers_first x (STMT_SEQ xs)" and i: "i < length xs" and y: "readers_first x y"
    and F: "\<forall>F \<in> foots y. F \<in> foots (xs ! i) \<or> own n R F" and n: "x \<noteq> n" "x \<notin> R"
  shows "readers_first x (STMT_SEQ (xs[i := y]))"
proof -
  have "writes_node x y \<Longrightarrow> writes_node x (xs ! i)" "reads_node x y \<Longrightarrow> reads_node x (xs ! i)"
    using F n by (auto simp: writes_node_def reads_node_def own_def)
  then have "sorted_wrt (\<lambda>x' y. writes_node x x' \<longrightarrow> \<not> reads_node x y) (xs[i := y])"
    using rf i by (intro sorted_wrt_update_mono) auto
  then show ?thesis using rf y by (auto dest!: set_update_subset_insert [THEN subsetD])
qed

lemma unrelated_append:
  assumes "readers_first x (STMT_SEQ xs)" "\<forall>F \<in> foots y. own n R F" "x \<noteq> n" "x \<notin> R"
  shows "readers_first x (STMT_SEQ (xs @ [y]))"
proof -
  have "\<not> reads_node x y" using assms by (auto simp: reads_node_def own_def)
  with no_reads_readers_first [OF this] assms(1) show ?thesis by (auto simp: sorted_wrt_append)
qed

lemma place_unrelated:
  assumes p: "place_leaf h path lv b xs e d l np = Some (xs', np')" and e: "refs e \<subseteq> R" and t: "target_ok h lv n R"
    and rf: "readers_first x (STMT_SEQ xs)" and x: "x \<noteq> n" "x \<notin> R"
  shows "readers_first x (STMT_SEQ xs')"
proof -
  have "e_node lv = Some n" using t by (simp add: target_ok_def)
  with p obtain xs1 i where p: "xs1 = xs \<or> \<not> isArray (h n) \<and> e_op e \<noteq> OP_INVALID \<and> erased n xs xs1"
    and i: "i < length xs1 \<and> \<not> is_when (xs1 ! i) \<and> (l \<longrightarrow> path ! d \<le> i) \<and> xs' = xs1[i := append_leaf (xs1 ! i) (leaf_of lv e b)]
     \<or> i = length xs1 \<and> xs' = xs1 @ [leaf_of lv e b]"
    by (rule place_cases)
  have rf1: "readers_first x (STMT_SEQ xs1)" using p rf erased_set erased_sorted by fastforce
  have lf: "\<forall>F \<in> foots (leaf_of lv e b). own n R F"
    using leaf_foots(1) [OF t e, of b] e t by (simp add: own_def target_ok_def)
  from i show ?thesis
  proof
    assume i: "i < length xs1 \<and> \<not> is_when (xs1 ! i) \<and> (l \<longrightarrow> path ! d \<le> i) \<and> xs' = xs1[i := append_leaf (xs1 ! i) (leaf_of lv e b)]"
    have "readers_first x (append_leaf (xs1 ! i) (leaf_of lv e b))"
    proof (cases "xs1 ! i")
      case (STMT_NODE t' b')
      then show ?thesis using unrelated_append [OF _ lf x, of "[xs1 ! i]"] by simp
    next
      case (STMT_SEQ ys)
      then show ?thesis using unrelated_append [OF _ lf x, of ys] rf1 i by (metis append_leaf.simps(1) nth_mem readers_first.simps(3))
    qed (use i in \<open>simp add: is_when_def\<close>)
    then show ?thesis using i lf by (intro unrelated_update [OF rf1 _ _ _ x, THEN back_subst [of "\<lambda>z. readers_first x (STMT_SEQ z)"]]) auto
  qed (use unrelated_append [OF rf1 lf x] in simp)
qed

lemma merged_unrelated:
  "merged h path lv b st eo d l np st' np' \<Longrightarrow> tree_fits R eo \<Longrightarrow> target_ok h lv n R \<Longrightarrow> wf_stmt h st
   \<Longrightarrow> x \<noteq> n \<Longrightarrow> x \<notin> R \<Longrightarrow> readers_first x st \<Longrightarrow> readers_first x st'"
proof (induction rule: merged.induct)
  case (cond e c' t f c fs d l np fs' np1 ts ts' np2 wb)
  have "tree_fits R t" "tree_fits R f" using tree_fits_parts [OF cond.prems(1) cond.hyps(1)] cond.hyps(2) by auto
  then show ?case using cond by auto
next
  case (found e xs d l i np x' np')
  have i: "i < length xs" using find_when_matches [OF found.hyps(2)] by auto
  then have w: "wf_stmt h (xs ! i)" "readers_first x (xs ! i)" using found.prems(3,6) by auto
  show ?case
    by (rule unrelated_update [OF found.prems(6) i found.IH [OF found.prems(1,2) w(1) found.prems(4,5) w(2)] _ found.prems(4,5)])
      (use merged_foots [OF found.hyps(3) found.prems(1,2) w(1)] in blast)
next
  case (fresh e xs w sub d l np)
  then have "gen_node lv b e 1 (addDepthPath [] 0 (length xs)) = Some (w, sub)" by (simp add: generateWhenTree_def)
  from gen_foots(1) [OF this fresh.prems(1,2)] show ?case
    by (intro unrelated_append [OF fresh.prems(6) _ fresh.prems(4,5)]) blast
next
  case (leaf e d l np xs xs' np')
  then show ?case using place_unrelated [OF leaf.hyps(2) _ leaf.prems(2,6,4,5)] by simp
qed

lemma merged_holds:
  assumes m: "merged h path (lvalue t) b st (Some (root t)) d l np st' np'" and h: "holds_trees h us st"
    and t: "e_node (lvalue t) = Some n" "target_ok h (lvalue t) n (getRelyNodes t)" "tree_fits (getRelyNodes t) (Some (root t))"
    and free: "free_after (lim_path path d l) n (getRelyNodes t) st" and s: "settled_for n us"
  shows "holds_trees h (us @ [t]) st'"
proof -
  let ?R = "getRelyNodes t"
  have w: "wf_stmt h st" and i: "is_seq st" and F: "\<forall>F \<in> foots st. \<exists>t \<in> set us. belongs F t"
    and rf: "\<And>x. settled_for x us \<Longrightarrow> readers_first x st" using h by (auto simp: holds_trees_def)
  note mf = merged_foots [OF m t(3,2) w]
  have "\<exists>u \<in> set (us @ [t]). belongs F u" if "F \<in> foots st'" for F
    using mf F that t(1) by (auto simp: belongs_def own_def)
  moreover have "readers_first x st'" if x: "settled_for x (us @ [t])" for x
  proof -
    have sx: "settled_for x us" and later: "\<forall>u \<in> set us. e_node (lvalue u) = Some x \<longrightarrow> x \<notin> ?R"
      using x by (auto simp: settled_for_def sorted_wrt_append)
    consider "x = n" | "x \<noteq> n" "x \<notin> ?R" | "x \<noteq> n" "x \<in> ?R" by blast
    then show ?thesis
    proof cases
      case 1
      then show ?thesis using merged_readers_first [OF m t(3,2) w free] rf [OF s] by simp
    next
      case 2
      then show ?thesis using merged_unrelated [OF m t(3,2) w] rf [OF sx] by simp
    next
      case 3
      then have "\<not> writes_node x st'" using later mf F by (fastforce simp: writes_node_def belongs_def own_def)
      then show ?thesis by (rule no_writes_readers_first)
    qed
  qed
  ultimately show ?thesis using mf i by (simp add: holds_trees_def)
qed

text \<open>Paths that have been recorded start at the root.\<close>

definition rooted :: "path \<Rightarrow> bool" where
  "rooted p \<longleftrightarrow> p = [] \<or> hd p = 0"

lemma rooted_bounds: "rooted np \<Longrightarrow> bounds [0] (addDepthPath np 0 0) \<and> np \<le> addDepthPath np 0 0"
  using addDepthPath_bounds [of "[]" np 0] by (simp add: bounds_def addDepthPath_mono)

lemma rooted_max: "rooted p \<Longrightarrow> rooted q \<Longrightarrow> rooted (maxPath p q)"
  by (simp add: maxPath_def)

lemma rooted_step: "rooted np \<Longrightarrow> path_step 1 (addDepthPath np 0 0) np' \<Longrightarrow> rooted np'"
  by (cases np; cases np') (auto simp: rooted_def path_step_def addDepthPath_def split: if_splits)

lemma merge_prev_path_rooted: "rooted p \<Longrightarrow> rooted q \<Longrightarrow> rooted (merge_prev_path p q)"
  by (cases p; cases q) (auto simp: rooted_def)

lemma rooted_free:
  assumes "is_seq st" "rooted path" "\<And>a F. (a, F) \<in> sites st \<Longrightarrow> clash n R F \<Longrightarrow> 0 # a \<le> path"
  shows "free_after (lim_path path 1 True) n R st"
proof -
  have "a \<le> drop 1 path" if "(a, F) \<in> sites st" "clash n R F" for a F
    using assms(2) assms(3) [OF that] by (cases path) (auto simp: rooted_def)
  then show ?thesis unfolding free_after_def lim_path_def by auto
qed

lemma mergeExpTree_total:
  assumes "tree_ok h t" "holds_trees h us st"
  shows "\<exists>r. mergeExpTree h st t prevPath nodePath b = Some r"
proof -
  obtain n where "e_node (lvalue t) = Some n" "tree_fits (getRelyNodes t) (Some (root t))" by (rule tree_okD [OF assms(1)])
  moreover have "wf_stmt h st" "is_seq st" using assms(2) by (simp_all add: holds_trees_def)
  ultimately show ?thesis unfolding mergeExpTree_def by (intro merge_total(1)) auto
qed

lemma mergeExpTree_step:
  assumes m: "mergeExpTree h st t prevPath nodePath b = Some (st', np')" and us: "holds_trees h us st"
    and t: "tree_ok h t" "e_node (lvalue t) = Some n" and r: "rooted prevPath" "rooted nodePath" and s: "settled_for n us"
    and dep: "\<And>a F. (a, F) \<in> sites st \<Longrightarrow> clash n (getRelyNodes t) F \<Longrightarrow> 0 # a \<le> max prevPath nodePath"
  obtains path np where "merged h path (lvalue t) b st (Some (root t)) 1 True np st' np'"
    "free_after (lim_path path 1 True) n (getRelyNodes t) st"
    "holds_trees h (us @ [t]) st'" "rooted np'" "nodePath \<le> np'"
    "\<forall>a F. (a, F) \<in> sites st' \<longrightarrow> (\<exists>a' \<ge> a. (a', F) \<in> sites st) \<or> belongs F t \<and> 0 # a \<le> np'"
proof -
  let ?path = "maxPath prevPath nodePath" and ?np = "addDepthPath nodePath 0 0" and ?R = "getRelyNodes t"
  have ok: "target_ok h (lvalue t) n ?R" "tree_fits ?R (Some (root t))" using t by (auto elim!: tree_okD)
  have mg: "merged h ?path (lvalue t) b st (Some (root t)) 1 True ?np st' np'"
    using m by (auto simp: mergeExpTree_def intro: merge_merged)
  have free: "free_after (lim_path ?path 1 True) n ?R st"
    using us dep rooted_max [OF r] by (intro rooted_free) (auto simp: holds_trees_def maxPath_max)
  have b: "bounds [0] ?np" "nodePath \<le> ?np" using rooted_bounds [OF r(2)] by auto
  have p: "path_step 1 ?np np'" "placed_below n ?R [0] np' st st'" using merged_sites [OF mg ok(2,1) b(1)] by auto
  show thesis
  proof (rule that [OF mg free merged_holds [OF mg us t(2) ok free s] rooted_step [OF r(2) p(1)]])
    show "nodePath \<le> np'" using b(2) p(1) by (auto simp: path_step_def)
    show "\<forall>a F. (a, F) \<in> sites st' \<longrightarrow> (\<exists>a' \<ge> a. (a', F) \<in> sites st) \<or> belongs F t \<and> 0 # a \<le> np'"
      using p(2) t(2) unfolding placed_below_def belongs_def own_def by fastforce
  qed
qed

subsection \<open>The assignments of a member\<close>

text \<open>When a node is assigned, nobody has read it since an earlier assignment.\<close>

definition settled :: "exptree list \<Rightarrow> bool" where
  "settled us \<longleftrightarrow> (\<forall>j < length us. \<forall>n. e_node (lvalue (us ! j)) = Some n \<longrightarrow> settled_for n (take j us))"

lemma settled_step: "settled (us @ t # vs) \<Longrightarrow> e_node (lvalue t) = Some n \<Longrightarrow> settled_for n us"
  unfolding settled_def by (elim allE [of _ "length us"]) simp

lemma settled_prefix: "settled (us @ vs) \<Longrightarrow> settled us"
  unfolding settled_def
proof (intro allI impI)
  fix j n assume a: "\<forall>j < length (us @ vs). \<forall>n. e_node (lvalue ((us @ vs) ! j)) = Some n \<longrightarrow> settled_for n (take j (us @ vs))"
    "j < length us" "e_node (lvalue (us ! j)) = Some n"
  from a(1) [rule_format, of j n] a(2,3) show "settled_for n (take j us)" by (simp add: nth_append)
qed

definition exec_trees :: "(enode \<Rightarrow> 's \<Rightarrow> bool) \<Rightarrow> (exptree \<Rightarrow> 's \<Rightarrow> 's) \<Rightarrow> exptree list \<Rightarrow> 's \<Rightarrow> 's" where
  "exec_trees test assign us = fold (\<lambda>t. exec test assign (lvalue t) (Some (root t))) us"

text \<open>
  \<open>Q F p\<close>: a statement with footprint \<open>F\<close> of an earlier member lies within \<open>p\<close>.
\<close>

definition within :: "(foot \<Rightarrow> path \<Rightarrow> bool) \<Rightarrow> exptree list \<Rightarrow> path \<Rightarrow> stmtnode \<Rightarrow> bool" where
  "within Q ts np st \<longleftrightarrow>
     (\<forall>a F. (a, F) \<in> sites st \<longrightarrow> (\<exists>p. Q F p \<and> 0 # a \<le> p) \<or> (\<exists>t \<in> set ts. belongs F t) \<and> 0 # a \<le> np)"

lemma within_step:
  assumes "within Q ts np st" "np \<le> np'"
    and "\<forall>a F. (a, F) \<in> sites st' \<longrightarrow> (\<exists>a' \<ge> a. (a', F) \<in> sites st) \<or> belongs F t \<and> 0 # a \<le> np'"
  shows "within Q (ts @ [t]) np' st'"
  unfolding within_def
proof (intro allI impI)
  fix a F assume "(a, F) \<in> sites st'"
  then consider a' where "a \<le> a'" "(a', F) \<in> sites st" | "belongs F t" "0 # a \<le> np'" using assms(3) by blast
  then show "(\<exists>p. Q F p \<and> 0 # a \<le> p) \<or> (\<exists>t \<in> set (ts @ [t]). belongs F t) \<and> 0 # a \<le> np'"
  proof cases
    case 1
    then have "0 # a \<le> 0 # a'" by simp
    with assms(1,2) 1(2) show ?thesis unfolding within_def by (metis Un_iff order_trans set_append)
  qed auto
qed

lemma within_dep:
  assumes "within Q ts np st" "(a, F) \<in> sites st" "clash n R F" "\<And>F p. Q F p \<Longrightarrow> clash n R F \<Longrightarrow> p \<le> pp"
  shows "0 # a \<le> max pp np"
  using assms unfolding within_def by (metis le_max_iff_disj order_trans)

context statements
begin

lemma merge_trees_correct:
  assumes pp: "rooted pp" and Q: "\<And>t b n F p. (t, b) \<in> set ts \<Longrightarrow> e_node (lvalue t) = Some n \<Longrightarrow> Q F p
      \<Longrightarrow> clash n (getRelyNodes t) F \<Longrightarrow> p \<le> pp"
  shows "\<forall>(t, b) \<in> set ts. tree_ok h t \<Longrightarrow> holds_trees h us st \<Longrightarrow> settled (us @ map fst ts) \<Longrightarrow> rooted np
    \<Longrightarrow> within Q vs np st
    \<Longrightarrow> \<exists>st' np'. merge_trees h pp ts (st, np) = Some (st', np') \<and> holds_trees h (us @ map fst ts) st' \<and> rooted np'
      \<and> within Q (vs @ map fst ts) np' st'
      \<and> (\<forall>s. run test assign st' s = exec_trees test assign (map fst ts) (run test assign st s))"
  using Q
proof (induction ts arbitrary: us vs st np)
  case Nil
  then show ?case by (auto simp: merge_trees_def exec_trees_def)
next
  case (Cons tb ts)
  obtain t b where tb: "tb = (t, b)" by (cases tb)
  have ok: "tree_ok h t" using Cons.prems(1) tb by simp
  then obtain n where n: "e_node (lvalue t) = Some n" "target_ok h (lvalue t) n (getRelyNodes t)"
    "tree_fits (getRelyNodes t) (Some (root t))" by (rule tree_okD)
  obtain st1 np1 where m: "mergeExpTree h st t pp np b = Some (st1, np1)"
    using mergeExpTree_total [OF ok Cons.prems(2)] by force
  have s: "settled_for n us" using Cons.prems(3) tb n(1) by (auto intro: settled_step)
  have dep: "0 # a \<le> max pp np" if "(a, F) \<in> sites st" "clash n (getRelyNodes t) F" for a F
    using within_dep [OF Cons.prems(5) that] Cons.prems(6) [of t b n] tb n(1) by auto
  obtain path np0 where st: "merged h path (lvalue t) b st (Some (root t)) 1 True np0 st1 np1"
    "free_after (lim_path path 1 True) n (getRelyNodes t) st"
    "holds_trees h (us @ [t]) st1" "rooted np1" "np \<le> np1"
    "\<forall>a F. (a, F) \<in> sites st1 \<longrightarrow> (\<exists>a' \<ge> a. (a', F) \<in> sites st) \<or> belongs F t \<and> 0 # a \<le> np1"
    by (rule mergeExpTree_step [OF m Cons.prems(2) ok n(1) pp Cons.prems(4) s dep])
  have "wf_stmt h st" "readers_first n st" using Cons.prems(2) s by (auto simp: holds_trees_def)
  then have r: "run test assign st1 s = exec test assign (lvalue t) (Some (root t)) (run test assign st s)" for s
    using merged_run [OF st(1) n(3,2) _ st(2)] by blast
  have w: "within Q (vs @ [t]) np1 st1" using within_step [OF Cons.prems(5) st(5,6)] .
  have "\<exists>st' np'. merge_trees h pp ts (st1, np1) = Some (st', np') \<and> holds_trees h ((us @ [t]) @ map fst ts) st' \<and> rooted np'
      \<and> within Q ((vs @ [t]) @ map fst ts) np' st'
      \<and> (\<forall>s. run test assign st' s = exec_trees test assign (map fst ts) (run test assign st1 s))"
  proof (rule Cons.IH [OF _ st(3) _ st(4) w])
    show "\<forall>(t, b) \<in> set ts. tree_ok h t" "settled ((us @ [t]) @ map fst ts)" using Cons.prems(1,3) tb by simp_all
    show "p \<le> pp" if "(t, b) \<in> set ts" "e_node (lvalue t) = Some n" "Q F p" "clash n (getRelyNodes t) F" for t b n F p
      using Cons.prems(6) [of t b n F p] that by simp
  qed
  then obtain st' np' where "merge_trees h pp ts (st1, np1) = Some (st', np')" "holds_trees h (us @ map fst (tb # ts)) st'" "rooted np'"
    "within Q (vs @ map fst (tb # ts)) np' st'"
    "\<forall>s. run test assign st' s = exec_trees test assign (map fst ts) (run test assign st1 s)"
    using tb by auto
  moreover from this have "merge_trees h pp (tb # ts) (st, np) = Some (st', np')" using m tb by (simp add: merge_trees_def)
  ultimately show ?case using r tb by (auto simp: exec_trees_def simp del: exec.simps)
qed

end

subsection \<open>The members\<close>

lemma prev_paths:
  "\<forall>m \<in> set ms. \<exists>p. P m = Some p \<and> rooted p \<Longrightarrow> rooted p0 \<Longrightarrow>
   \<exists>pp. fold_abort (\<lambda>m p. map_option (merge_prev_path p) (P m)) ms p0 = Some pp \<and> rooted pp \<and> p0 \<le> pp
     \<and> (\<forall>m \<in> set ms. \<forall>p. P m = Some p \<longrightarrow> p \<le> pp)"
proof (induction ms arbitrary: p0)
  case (Cons m ms)
  obtain p where p: "P m = Some p" "rooted p" using Cons.prems(1) by auto
  let ?q = "merge_prev_path p0 p"
  obtain pp where "fold_abort (\<lambda>m p. map_option (merge_prev_path p) (P m)) ms ?q = Some pp" "rooted pp" "?q \<le> pp"
    "\<forall>m \<in> set ms. \<forall>p. P m = Some p \<longrightarrow> p \<le> pp"
    using Cons.IH [of ?q] Cons.prems p(2) merge_prev_path_rooted by auto
  moreover have "p0 \<le> pp" "p \<le> pp" using merge_prev_path_le [of p0 p] merge_prev_path_le(2) [of p p0] \<open>?q \<le> pp\<close> by auto
  ultimately show ?case using p by auto
qed simp

lemma prevOrderPath_bounds:
  assumes "\<And>m. m \<in> depPrev (h n) \<Longrightarrow> super (h m) = super (h n) \<Longrightarrow> m \<in> set ns \<and> (\<exists>p. P m = Some p \<and> rooted p)"
  obtains pp where "prevOrderPath h ns n P = Some pp" "rooted pp"
    "\<And>m p. m \<in> depPrev (h n) \<Longrightarrow> super (h m) = super (h n) \<Longrightarrow> P m = Some p \<Longrightarrow> p \<le> pp"
proof -
  let ?ms = "filter (\<lambda>m. m \<in> depPrev (h n) \<and> super (h m) = super (h n)) ns"
  obtain pp where pp: "fold_abort (\<lambda>m p. map_option (merge_prev_path p) (P m)) ?ms [] = Some pp" "rooted pp"
    "\<forall>m \<in> set ?ms. \<forall>p. P m = Some p \<longrightarrow> p \<le> pp"
    using prev_paths [of ?ms P "[]"] assms by (auto simp: rooted_def)
  show thesis
  proof (rule that)
    show "prevOrderPath h ns n P = Some pp" using assms pp(1) by (simp add: prevOrderPath_def)
    show "p \<le> pp" if "m \<in> depPrev (h n)" "super (h m) = super (h n)" "P m = Some p" for m p
      using assms [OF that(1,2)] pp(3) that by auto
  qed (rule pp(2))
qed

definition trees_of :: "heap \<Rightarrow> nodeid \<Rightarrow> exptree list" where
  "trees_of h n = (case member_trees h n of None \<Rightarrow> [] | Some ts \<Rightarrow> map fst ts)"

text \<open>Two members conflict when one assigns what the other reads or assigns.\<close>

definition conflict :: "heap \<Rightarrow> nodeid \<Rightarrow> nodeid \<Rightarrow> bool" where
  "conflict h m n \<longleftrightarrow>
     (\<exists>t \<in> set (trees_of h m). \<exists>t' \<in> set (trees_of h n).
        e_node (lvalue t) = e_node (lvalue t') \<or> set_option (e_node (lvalue t)) \<inter> getRelyNodes t' \<noteq> {}
        \<or> set_option (e_node (lvalue t')) \<inter> getRelyNodes t \<noteq> {})"

definition member_ok :: "heap \<Rightarrow> superid \<Rightarrow> nodeid \<Rightarrow> bool" where
  "member_ok h s n \<longleftrightarrow> super (h n) = Some s \<and> member_trees h n \<noteq> None \<and> (\<forall>t \<in> set (trees_of h n). tree_ok h t)"

definition members_in_order :: "heap \<Rightarrow> superid \<Rightarrow> nodeid list \<Rightarrow> bool" where
  "members_in_order h s ns \<longleftrightarrow>
     (\<forall>j < length ns. \<forall>m \<in> depPrev (h (ns ! j)). super (h m) = Some s \<longrightarrow> m \<in> set (take j ns))"

definition deps_cover :: "heap \<Rightarrow> nodeid list \<Rightarrow> bool" where
  "deps_cover h ns \<longleftrightarrow> (\<forall>j < length ns. \<forall>i < j. conflict h (ns ! i) (ns ! j) \<longrightarrow> ns ! i \<in> depPrev (h (ns ! j)))"

lemma clash_conflict:
  assumes "belongs F t" "t \<in> set (trees_of h m)" "t' \<in> set (trees_of h n)" "e_node (lvalue t') = Some x" "clash x (getRelyNodes t') F"
  shows "conflict h m n"
proof -
  have "e_node (lvalue t) = e_node (lvalue t') \<or> set_option (e_node (lvalue t)) \<inter> getRelyNodes t' \<noteq> {}
      \<or> set_option (e_node (lvalue t')) \<inter> getRelyNodes t \<noteq> {}"
    using assms(1,4,5) by (cases "e_node (lvalue t)") (auto simp: belongs_def clash_def)
  with assms(2,3) show ?thesis unfolding conflict_def by blast
qed

definition member_foot :: "heap \<Rightarrow> nodeid set \<Rightarrow> (nodeid \<rightharpoonup> path) \<Rightarrow> foot \<Rightarrow> path \<Rightarrow> bool" where
  "member_foot h ds P F p \<longleftrightarrow> (\<exists>m \<in> ds. P m = Some p \<and> (\<exists>t \<in> set (trees_of h m). belongs F t))"

lemma within_member:
  assumes "within (member_foot h (set ds) P) (trees_of h n) np st" "n \<notin> set ds"
  shows "within (member_foot h (set (ds @ [n])) (P(n \<mapsto> np))) [] [] st"
  unfolding within_def
proof (intro allI impI disjI1)
  fix a F assume "(a, F) \<in> sites st"
  then consider p where "member_foot h (set ds) P F p" "0 # a \<le> p" | "\<exists>t \<in> set (trees_of h n). belongs F t" "0 # a \<le> np"
    using assms(1) unfolding within_def by blast
  then show "\<exists>p. member_foot h (set (ds @ [n])) (P(n \<mapsto> np)) F p \<and> 0 # a \<le> p"
  proof cases
    case 1
    then have "member_foot h (set (ds @ [n])) (P(n \<mapsto> np)) F p" using assms(2) unfolding member_foot_def by auto
    with 1(2) show ?thesis by blast
  next
    case 2
    then have "member_foot h (set (ds @ [n])) (P(n \<mapsto> np)) F np" unfolding member_foot_def by auto
    with 2(2) show ?thesis by blast
  qed
qed

definition stmts_inv :: "heap \<Rightarrow> nodeid list \<Rightarrow> stmtnode \<Rightarrow> (nodeid \<rightharpoonup> path) \<Rightarrow> bool" where
  "stmts_inv h ds st P \<longleftrightarrow>
     holds_trees h (concat (map (trees_of h) ds)) st \<and> (\<forall>m \<in> set ds. \<exists>p. P m = Some p \<and> rooted p)
     \<and> within (member_foot h (set ds) P) [] [] st"

context statements
begin

lemma merge_member_correct:
  assumes inv: "stmts_inv h ds st P" and n: "n \<notin> set ds" "member_ok h s n" "\<forall>m \<in> set ds. super (h m) = Some s" "set ds \<subseteq> set ns"
    and ord: "\<And>m. m \<in> depPrev (h n) \<Longrightarrow> super (h m) = Some s \<Longrightarrow> m \<in> set ds"
    and dep: "\<And>m. m \<in> set ds \<Longrightarrow> conflict h m n \<Longrightarrow> m \<in> depPrev (h n)"
    and set: "settled (concat (map (trees_of h) (ds @ [n])))"
  shows "\<exists>st' P'. merge_member h ns n (st, P) = Some (st', P') \<and> stmts_inv h (ds @ [n]) st' P'
    \<and> (\<forall>x. run test assign st' x = exec_trees test assign (trees_of h n) (run test assign st x))"
proof -
  let ?us = "concat (map (trees_of h) ds)" and ?Q = "member_foot h (set ds) P"
  have h: "holds_trees h ?us st" and P: "\<forall>m \<in> set ds. \<exists>p. P m = Some p \<and> rooted p" and w: "within ?Q [] [] st"
    using inv by (auto simp: stmts_inv_def)
  have sn: "super (h n) = Some s" and ok: "\<forall>t \<in> set (trees_of h n). tree_ok h t" using n(2) by (auto simp: member_ok_def)
  obtain ts where ts: "member_trees h n = Some ts" "trees_of h n = map fst ts" using n(2) by (auto simp: member_ok_def trees_of_def)
  obtain pp where pp: "prevOrderPath h ns n P = Some pp" "rooted pp"
    "\<And>m p. m \<in> depPrev (h n) \<Longrightarrow> super (h m) = super (h n) \<Longrightarrow> P m = Some p \<Longrightarrow> p \<le> pp"
    by (rule prevOrderPath_bounds [of h n ns P]) (use sn ord P n(4) in auto)
  have Q: "p \<le> pp" if "(t, b) \<in> set ts" "e_node (lvalue t) = Some x" "?Q F p" "clash x (getRelyNodes t) F" for t b x F p
  proof -
    from that(3) obtain m t' where m: "m \<in> set ds" "P m = Some p" "t' \<in> set (trees_of h m)" "belongs F t'" by (auto simp: member_foot_def)
    have "t \<in> set (trees_of h n)" using that(1) ts(2) by force
    then have "conflict h m n" using clash_conflict [OF m(4,3) _ that(2,4)] by blast
    with dep m(1) n(3) sn m(2) pp(3) show ?thesis by auto
  qed
  have "\<exists>st' np'. merge_trees h pp ts (st, []) = Some (st', np') \<and> holds_trees h (?us @ map fst ts) st' \<and> rooted np'
      \<and> within ?Q ([] @ map fst ts) np' st'
      \<and> (\<forall>x. run test assign st' x = exec_trees test assign (map fst ts) (run test assign st x))"
  proof (rule merge_trees_correct [OF pp(2) _ _ h _ _ w])
    show "\<forall>(t, b) \<in> set ts. tree_ok h t" using ok ts(2) by force
    show "settled (?us @ map fst ts)" using set ts(2) by simp
  qed (use Q in \<open>auto simp: rooted_def\<close>)
  then obtain st' np' where m: "merge_trees h pp ts (st, []) = Some (st', np')" "holds_trees h (?us @ map fst ts) st'" "rooted np'"
    "within ?Q (trees_of h n) np' st'"
    "\<forall>x. run test assign st' x = exec_trees test assign (map fst ts) (run test assign st x)"
    using ts(2) by auto
  let ?P = "P(n \<mapsto> np')"
  have "within (member_foot h (set (ds @ [n])) ?P) [] [] st'" by (rule within_member [OF m(4) n(1)])
  moreover have "holds_trees h (concat (map (trees_of h) (ds @ [n]))) st'" using m(2) ts(2) by simp
  ultimately have "stmts_inv h (ds @ [n]) st' ?P" using P m(3) n(1) by (auto simp: stmts_inv_def)
  moreover have "merge_member h ns n (st, P) = Some (st', ?P)" using pp(1) ts(1) m(1) by (simp add: merge_member_def)
  ultimately show ?thesis using m(5) ts(2) by auto
qed

lemma members_correct:
  assumes d: "distinct ns" and ok: "\<forall>n \<in> set ns. member_ok h s n" and ord: "members_in_order h s ns"
    and dep: "deps_cover h ns" and set: "settled (concat (map (trees_of h) ns))"
  shows "ns = ds @ rest \<Longrightarrow> stmts_inv h ds st P \<Longrightarrow>
    \<exists>st' P'. fold_abort (merge_member h ns) rest (st, P) = Some (st', P')
      \<and> (\<forall>x. run test assign st' x = exec_trees test assign (concat (map (trees_of h) rest)) (run test assign st x))"
proof (induction rest arbitrary: ds st P)
  case Nil
  then show ?case by (simp add: exec_trees_def)
next
  case (Cons n rest)
  have j: "ns ! length ds = n" "take (length ds) ns = ds" "length ds < length ns" using Cons.prems(1) by auto
  have "\<exists>st1 P1. merge_member h ns n (st, P) = Some (st1, P1) \<and> stmts_inv h (ds @ [n]) st1 P1
      \<and> (\<forall>x. run test assign st1 x = exec_trees test assign (trees_of h n) (run test assign st x))"
  proof (rule merge_member_correct [OF Cons.prems(2), of n s])
    show "n \<notin> set ds" "set ds \<subseteq> set ns" using Cons.prems(1) d by auto
    show "member_ok h s n" "\<forall>m \<in> set ds. super (h m) = Some s" using ok Cons.prems(1) by (auto simp: member_ok_def)
    show "m \<in> set ds" if "m \<in> depPrev (h n)" "super (h m) = Some s" for m
      using ord [unfolded members_in_order_def, rule_format, OF j(3)] that by (simp only: j)
    show "m \<in> depPrev (h n)" if m: "m \<in> set ds" "conflict h m n" for m
    proof -
      obtain i where i: "i < length ds" "ds ! i = m" using m(1) by (auto simp: in_set_conv_nth)
      then have "ns ! i = m" using Cons.prems(1) by (simp add: nth_append)
      then show ?thesis using dep [unfolded deps_cover_def, rule_format, OF j(3) i(1)] m(2) by (simp only: j)
    qed
    show "settled (concat (map (trees_of h) (ds @ [n])))"
      by (rule settled_prefix [of _ "concat (map (trees_of h) rest)"]) (use set Cons.prems(1) in simp)
  qed
  then obtain st1 P1 where st1: "merge_member h ns n (st, P) = Some (st1, P1)" "stmts_inv h (ds @ [n]) st1 P1"
    "\<forall>x. run test assign st1 x = exec_trees test assign (trees_of h n) (run test assign st x)" by blast
  have "ns = (ds @ [n]) @ rest" using Cons.prems(1) by simp
  from Cons.IH [OF this st1(2)] obtain st' P' where
    "fold_abort (merge_member h ns) rest (st1, P1) = Some (st', P')"
    "\<forall>x. run test assign st' x = exec_trees test assign (concat (map (trees_of h) rest)) (run test assign st1 x)" by blast
  with st1(1,3) show ?case by (simp add: exec_trees_def del: exec.simps)
qed

lemma super_stmts_run:
  assumes "distinct ns" "\<forall>n \<in> set ns. member_ok h s n" "members_in_order h s ns" "deps_cover h ns"
    "settled (concat (map (trees_of h) ns))"
  shows "\<exists>st P'. super_stmts h ns P = Some (st, P')
    \<and> (\<forall>x. run test assign st x = exec_trees test assign (concat (map (trees_of h) ns)) x)"
proof -
  have "stmts_inv h [] (STMT_SEQ []) P"
    by (simp add: stmts_inv_def holds_trees_def is_seq_def within_def sites_SEQ)
  from members_correct [OF assms _ this, of ns] show ?thesis by (simp add: super_stmts_def)
qed

end

section \<open>Assignment trees and their values\<close>

text \<open>
  Splitting an assignment tree at its conditions keeps its value where the branches have the
  type of the condition, as width inference leaves them.
\<close>

function branches_typed :: "enode \<Rightarrow> bool" where
  "branches_typed e \<longleftrightarrow>
     (e_op e = OP_INVALID \<longrightarrow> e_node e = None) \<and>
     (conditional e \<longrightarrow>
        e_node e = None \<and> length (child e) = (if e_op e = OP_WHEN then 3 else 2)
        \<and> (case when_parts e of
             None \<Rightarrow> False
           | Some (c, t, f) \<Rightarrow>
               (\<forall>x \<in> set_option t \<union> set_option f. e_width x = e_width e \<and> e_sign x = e_sign e \<and> \<not> is_index x \<and> branches_typed x)))"
  by pat_completeness auto
termination
  by (relation "measure size") (auto simp: when_parts_size)
declare branches_typed.simps [simp del]

lemma when_eval:
  assumes "conditional e" "e_node e = None" "length (child e) = (if e_op e = OP_WHEN then 3 else 2)" "when_parts e = Some (c, t, f)"
  shows "eval E e = map_outcome_val (keep_bits (attr e))
    (case eval E c of Val v \<Rightarrow> obranch (map_option (operand_of E) (if v \<noteq> 0 then t else f)) | _ \<Rightarrow> Undef)"
proof -
  obtain a cs where e: "e = ENode a cs" by (cases e)
  have op: "opType a = OP_WHEN \<and> cs = [Some c, t, f] \<or> opType a = OP_RESET \<and> cs = [Some c, t] \<and> f = None"
    using assms by (auto simp: e conditional_def when_parts_def length_Suc_conv numeral_eq_Suc split: list.splits option.splits)
  have s: "select3 [Some (operand_of E c), x, y] = (case eval E c of Val v \<Rightarrow> obranch (if v \<noteq> 0 then x else y) | _ \<Rightarrow> Undef)" for x y
    by (cases "eval E c") (auto simp: select3_def obranch_def)
  have "apply_op E a (map (map_option (operand_of E)) cs)
      = (case eval E c of Val v \<Rightarrow> obranch (map_option (operand_of E) (if v \<noteq> 0 then t else f)) | _ \<Rightarrow> Undef)"
    using op assms(2) s by (auto simp: apply_op_def e split: outcome.split)
  then show ?thesis by (simp add: e eval_ENode)
qed

lemma exec_value:
  assumes "e_node lv = Some n"
  shows "branches_typed e \<Longrightarrow> eval E e = Val v \<Longrightarrow>
    exec (test_num u) (assign_num u) lv (Some e) E = write_val E n (index_nums u E lv) v"
proof (induction e rule: branches_typed.induct)
  case (1 e)
  show ?case
  proof (cases "conditional e")
    case True
    then obtain c t f where w: "e_node e = None" "length (child e) = (if e_op e = OP_WHEN then 3 else 2)"
      "when_parts e = Some (c, t, f)"
      "\<forall>x \<in> set_option t \<union> set_option f. e_width x = e_width e \<and> e_sign x = e_sign e \<and> \<not> is_index x \<and> branches_typed x"
      using 1(2) by (auto simp: branches_typed.simps [of e] split: option.splits)
    obtain z where z: "eval E c = Val z" using 1(3) when_eval [OF True w(1-3)] by (cases "eval E c") auto
    let ?b = "if z \<noteq> 0 then t else f"
    have "map_outcome_val (keep_bits (attr e)) (obranch (map_option (operand_of E) ?b)) = Val v"
      using 1(3) when_eval [OF True w(1-3), of E] z by simp
    then obtain x where x: "?b = Some x" "map_outcome_val (keep_bits (attr e)) (eval E x) = Val v"
      by (cases ?b) (auto simp: obranch_def)
    have xt: "x \<in> set_option t \<union> set_option f" using x(1) by (auto split: if_splits)
    then have "map_outcome_val (keep_bits (attr e)) (eval E x) = eval E x"
      using w True by (intro eval_keep_bits) (auto simp: conditional_def)
    then have "exec (test_num u) (assign_num u) lv (Some x) E = write_val E n (index_nums u E lv) v"
      using 1(1) [OF True w(3) refl refl xt] w(4) xt x(2) by auto
    moreover have "test_num u c E \<longleftrightarrow> z \<noteq> 0" by (simp add: test_num_def num_of_def z)
    ultimately show ?thesis using True w(3) x(1) by (simp add: exec.simps(2) [of _ _ _ e] del: exec.simps)
  next
    case False
    have "e_op e \<noteq> OP_INVALID"
    proof
      assume op: "e_op e = OP_INVALID"
      then have "e_node e = None" using 1(2) by (simp add: branches_typed.simps [of e])
      with op have "eval E e = Undef" by (cases e) (simp add: eval_ENode apply_op_def)
      with 1(3) show False by simp
    qed
    with False 1(3) assms show ?thesis by (simp add: assign_num_def num_of_def)
  qed
qed

end
