(* ===== verification/StmtOrder.thy ===== *)
theory StmtOrder
  imports StmtSuper "HOL-Library.Multiset"
begin

section \<open>The order of the members\<close>

text \<open>
  \<^verbatim>\<open>reorderMember\<close> counts down where the sorting of super nodes counts up; it takes the same steps
  (\<open>TopoSort.kahn\<close>) on the members and their dependences inside the super node.  With the trees
  built in that order, all statements of the graph do what the assignments do.
\<close>

definition inside :: "heap \<Rightarrow> superid \<Rightarrow> nodeid \<Rightarrow> supernode" where
  "inside h s n = new_super\<lparr>sdepPrev := {p \<in> depPrev (h n). super (h p) = Some s},
     sdepNext := {m \<in> depNext (h n). super (h m) = Some s}\<rparr>"

lemma inside_simps [simp]:
  "sdepPrev (inside h s n) = {p \<in> depPrev (h n). super (h p) = Some s}"
  "sdepNext (inside h s n) = {m \<in> depNext (h n). super (h m) = Some s}"
  by (simp_all add: inside_def)

text \<open>Members with symmetric, acyclic dependences inside the super node.\<close>

definition sortable :: "heap \<Rightarrow> superid \<Rightarrow> nodeid list \<Rightarrow> bool" where
  "sortable h s ns \<longleftrightarrow>
     distinct ns \<and> (\<forall>n \<in> set ns. super (h n) = Some s)
     \<and> (\<forall>n \<in> set ns. \<forall>m \<in> depPrev (h n) \<union> depNext (h n). super (h m) = Some s \<longrightarrow> m \<in> set ns)
     \<and> (\<forall>p \<in> set ns. \<forall>n \<in> set ns. p \<in> depPrev (h n) \<longleftrightarrow> n \<in> depNext (h p))
     \<and> acyclic {(p, n). n \<in> set ns \<and> p \<in> depPrev (h n) \<and> super (h p) = Some s}"

lemma sortable_wf:
  assumes "sortable h s ns"
  shows "wf_supers (inside h s) (set ns)" "acyclic {(p, n). n \<in> set ns \<and> p \<in> sdepPrev (inside h s n)}"
    "\<And>n. n \<in> set ns \<Longrightarrow> distinct (nexts_in h s ns n) \<and> set (nexts_in h s ns n) = sdepNext (inside h s n)"
proof -
  have a: "distinct ns" "\<And>n. n \<in> set ns \<Longrightarrow> super (h n) = Some s"
    "\<And>n m. n \<in> set ns \<Longrightarrow> m \<in> depPrev (h n) \<union> depNext (h n) \<Longrightarrow> super (h m) = Some s \<Longrightarrow> m \<in> set ns"
    "\<And>p n. p \<in> set ns \<Longrightarrow> n \<in> set ns \<Longrightarrow> p \<in> depPrev (h n) \<longleftrightarrow> n \<in> depNext (h p)"
    "acyclic {(p, n). n \<in> set ns \<and> p \<in> depPrev (h n) \<and> super (h p) = Some s}"
    using assms unfolding sortable_def by blast+
  have "sdepNext (inside h s n) \<subseteq> set ns \<and> sdepPrev (inside h s n) \<subseteq> set ns" if "n \<in> set ns" for n
    using a(3) [OF that] by auto
  moreover have "p \<in> sdepPrev (inside h s n) \<longleftrightarrow> n \<in> sdepNext (inside h s p)" if "p \<in> set ns" "n \<in> set ns" for p n
    using a(4) [OF that] a(2) that by simp
  ultimately show "wf_supers (inside h s) (set ns)" unfolding wf_supers_def by blast
  show "acyclic {(p, n). n \<in> set ns \<and> p \<in> sdepPrev (inside h s n)}" using a(5) by simp
  show "distinct (nexts_in h s ns n) \<and> set (nexts_in h s ns n) = sdepNext (inside h s n)" if "n \<in> set ns" for n
    using a(1) a(3) [OF that] by (auto simp: nexts_in_def)
qed

text \<open>What is left to count is what has not been counted.\<close>

definition counts :: "(nodeid \<Rightarrow> supernode) \<Rightarrow> marks \<Rightarrow> (nodeid \<Rightarrow> int) \<Rightarrow> bool" where
  "counts S m c \<longleftrightarrow> (\<forall>n. c n = int (card (sdepPrev (S n))) - int (count_of m n))"

lemma count_down_touch:
  "counts S m c \<Longrightarrow>
   \<exists>m' c' fr'. fold (touch S (insort_key (rank_of ns))) ms (m, fr) = (m', fr')
     \<and> fold (count_down ns) ms (c, fr) = (c', fr') \<and> counts S m' c'"
proof (induction ms arbitrary: m c fr)
  case (Cons n ms)
  let ?m = "m(n \<mapsto> count_of m n + 1)" and ?c = "c(n := c n - 1)"
  have e: "c n - 1 = 0 \<longleftrightarrow> count_of m n + 1 = card (sdepPrev (S n))" using Cons.prems by (auto simp: counts_def)
  let ?fr = "if c n - 1 = 0 then insort_key (rank_of ns) n fr else fr"
  have "counts S ?m ?c" using Cons.prems by (auto simp: counts_def count_of_def split: option.splits)
  from Cons.IH [OF this, of ?fr] show ?case unfolding fold_simps touch_def count_down_def Let_def prod.case e .
qed simp

lemma rank_push: "good_push (insort_key (rank_of ns))"
  by (auto simp: good_push_def set_insort_key distinct_insort)

lemma reorder_loop_total:
  assumes so: "sortable h s ns"
  shows "kahn_inv (inside h s) (set ns) src (set fr, out) \<Longrightarrow> distinct fr \<Longrightarrow> marks_ok (inside h s) (set ns) m out
    \<Longrightarrow> counts (inside h s) m c
    \<Longrightarrow> \<exists>out'. reorder_loop h s ns fr c out = Some out' \<and> kahn_inv (inside h s) (set ns) src ({}, out')"
proof (induction "card (set ns - set out)" arbitrary: fr m c out rule: less_induct)
  case less
  let ?S = "inside h s"
  note wf = sortable_wf [OF so]
  show ?case
  proof (cases fr)
    case Nil
    with less.prems(1) show ?thesis by (simp add: reorder_loop.simps)
  next
    case (Cons t rest)
    have tU: "t \<in> set ns" using less.prems(1) Cons by (auto simp: kahn_inv_def)
    obtain m' c' fr' where f: "fold (touch ?S (insort_key (rank_of ns))) (nexts_in h s ns t) (m, rest) = (m', fr')"
      "fold (count_down ns) (nexts_in h s ns t) (c, rest) = (c', fr')" "counts ?S m' c'"
      using count_down_touch [OF less.prems(4), of ns "nexts_in h s ns t" rest] by blast
    have st: "distinct fr' \<and> kahn ?S (set (t # rest), out) (set fr', out @ [t]) \<and> marks_ok ?S (set ns) m' (out @ [t])"
      by (rule step_simulates [OF wf(1) less.prems(1,2,3) [unfolded Cons] _ _ _ rank_push f(1)]) (use wf(3) [OF tU] in auto)
    then have "kahn_inv ?S (set ns) src (set fr', out @ [t])" using kahn_step_inv [OF wf(1) less.prems(1)] Cons by blast
    moreover have "card (set ns - set (out @ [t])) < card (set ns - set out)"
      using kahn_inv_card [OF less.prems(1)] Cons by simp
    ultimately obtain out' where "reorder_loop h s ns fr' c' (out @ [t]) = Some out'" "kahn_inv ?S (set ns) src ({}, out')"
      using less.hyps st f(3) by blast
    then show ?thesis using f(2) Cons by (auto simp: reorder_loop.simps [of h s ns "t # rest"])
  qed
qed

lemma reorderMember_sorts:
  assumes so: "sortable h s ns"
  shows "\<exists>ns'. reorderMember h s ns = Some ns' \<and> mset ns' = mset ns \<and> members_in_order h s ns'"
proof -
  let ?S = "inside h s" and ?fr = "sort_key (rank_of ns) (filter (\<lambda>n. nodePrev_of h s n = 0) ns)"
  note wf = sortable_wf [OF so]
  have d: "distinct ns" using so by (simp add: sortable_def)
  have np: "nodePrev_of h s n = 0 \<longleftrightarrow> sdepPrev (?S n) = {}" if "n \<in> set ns" for n
    using wf_supersD(2) [OF wf(1) that] by (simp add: nodePrev_of_def)
  have fr: "distinct ?fr" "set ?fr = {n \<in> set ns. sdepPrev (?S n) = {}}" using d np by auto
  have "kahn_inv ?S (set ns) (set ?fr) (set ?fr, [])" "marks_ok ?S (set ns) Map.empty []" "counts ?S Map.empty (nodePrev_of h s)"
    unfolding fr(2) by (auto simp: kahn_inv_def deps_first_def marks_ok_def count_of_def counts_def nodePrev_of_def)
  then obtain out where out: "reorder_loop h s ns ?fr (nodePrev_of h s) [] = Some out" "kahn_inv ?S (set ns) (set ?fr) ({}, out)"
    using reorder_loop_total [OF so _ fr(1)] by blast
  have so': "set out = set ns" by (rule kahn_done [OF wf(1) out(2) _ wf(2)]) (use fr(2) in auto)
  have "distinct out" and df: "deps_first ?S out" using out(2) by (auto simp: kahn_inv_def)
  then have m: "mset out = mset ns" using so' d by (simp add: set_eq_iff_mset_eq_distinct [symmetric])
  moreover have "members_in_order h s out" using df by (auto simp: deps_first_def members_in_order_def)
  moreover have "length out = length ns" using m by (metis size_mset)
  ultimately show ?thesis using out(1) by (simp add: reorderMember_def)
qed

section \<open>All statements\<close>

text \<open>Every node has one member that assigns it, which does not read it.\<close>

definition one_writer :: "heap \<Rightarrow> nodeid list \<Rightarrow> bool" where
  "one_writer h ns \<longleftrightarrow>
     (\<forall>m \<in> set ns. \<forall>n \<in> set ns. \<forall>t \<in> set (trees_of h m). \<forall>t' \<in> set (trees_of h n).
        (m \<noteq> n \<longrightarrow> e_node (lvalue t) \<noteq> e_node (lvalue t'))
        \<and> (m = n \<longrightarrow> set_option (e_node (lvalue t)) \<inter> getRelyNodes t' = {}))"

lemma settled_for_unwritten: "\<forall>t \<in> set us. e_node (lvalue t) \<noteq> Some x \<Longrightarrow> settled_for x us"
  unfolding settled_for_def by (auto simp: sorted_wrt_iff_nth_less)

lemma settled_append:
  assumes "settled us" "\<forall>t \<in> set vs. \<forall>u \<in> set us. e_node (lvalue u) \<noteq> e_node (lvalue t)"
    "\<forall>t \<in> set vs. \<forall>t' \<in> set vs. set_option (e_node (lvalue t)) \<inter> getRelyNodes t' = {}"
  shows "settled (us @ vs)"
  unfolding settled_def
proof (intro allI impI)
  fix j n assume j: "j < length (us @ vs)" "e_node (lvalue ((us @ vs) ! j)) = Some n"
  show "settled_for n (take j (us @ vs))"
  proof (cases "j < length us")
    case True
    then show ?thesis using assms(1) j unfolding settled_def by (simp add: nth_append)
  next
    case False
    then have t: "vs ! (j - length us) \<in> set vs" "e_node (lvalue (vs ! (j - length us))) = Some n"
      using j by (auto simp: nth_append)
    have us: "\<forall>u \<in> set us. e_node (lvalue u) \<noteq> Some n" using assms(2) t by metis
    have "\<forall>t' \<in> set vs. n \<notin> getRelyNodes t'" using assms(3) t by fastforce
    then have "settled_for n (take (j - length us) vs)"
      unfolding settled_for_def by (auto simp: sorted_wrt_iff_nth_less)
    then show ?thesis using False us settled_for_unwritten [OF us] unfolding settled_for_def
      by (simp add: sorted_wrt_append)
  qed
qed

lemma one_writer_settled:
  "distinct ns \<Longrightarrow> one_writer h ns \<Longrightarrow> settled (concat (map (trees_of h) ns))"
proof (induction ns rule: rev_induct)
  case Nil
  then show ?case by (simp add: settled_def)
next
  case (snoc n ns)
  have "one_writer h ns" using snoc.prems(2) unfolding one_writer_def by simp
  then have "settled (concat (map (trees_of h) ns))" using snoc by simp
  moreover have "e_node (lvalue u) \<noteq> e_node (lvalue t)"
    if "t \<in> set (trees_of h n)" "u \<in> set (concat (map (trees_of h) ns))" for t u
  proof -
    from that(2) obtain m where m: "m \<in> set ns" "u \<in> set (trees_of h m)" by auto
    with snoc.prems(1) have "m \<noteq> n" by auto
    with snoc.prems(2) m that(1) show ?thesis unfolding one_writer_def by simp
  qed
  moreover have "\<forall>t \<in> set (trees_of h n). \<forall>t' \<in> set (trees_of h n). set_option (e_node (lvalue t)) \<inter> getRelyNodes t' = {}"
    using snoc.prems(2) unfolding one_writer_def by auto
  ultimately have "settled (concat (map (trees_of h) ns) @ trees_of h n)" by (intro settled_append) blast+
  then show ?case by simp
qed

text \<open>The members of a super node as the generator expects them; the dependences cover all conflicts.\<close>

definition statements_ok :: "heap \<Rightarrow> superid \<Rightarrow> nodeid list \<Rightarrow> bool" where
  "statements_ok h s ns \<longleftrightarrow>
     sortable h s ns \<and> (\<forall>n \<in> set ns. member_ok h s n) \<and> one_writer h ns
     \<and> (\<forall>m \<in> set ns. \<forall>n \<in> set ns. m \<noteq> n \<longrightarrow> conflict h m n \<longrightarrow> m \<in> depPrev (h n) \<or> n \<in> depPrev (h m))"

lemma ordered_deps_cover:
  assumes ok: "statements_ok h s ns" and m: "mset ns' = mset ns" and ord: "members_in_order h s ns'"
  shows "deps_cover h ns'"
  unfolding deps_cover_def
proof (intro allI impI)
  fix j i assume j: "j < length ns'" "i < j" "conflict h (ns' ! i) (ns' ! j)"
  have st: "set ns' = set ns" using mset_eq_setD [OF m] .
  have "distinct ns'" using ok mset_eq_imp_distinct_iff [OF m] by (simp add: statements_ok_def sortable_def)
  then have ne: "ns' ! i \<noteq> ns' ! j" using j by (simp add: nth_eq_iff_index_eq)
  have mem: "ns' ! i \<in> set ns" "ns' ! j \<in> set ns" using j st nth_mem [of i ns'] nth_mem [of j ns'] by auto
  have sup: "super (h (ns' ! j)) = Some s" using ok mem(2) by (simp add: statements_ok_def sortable_def)
  have "ns' ! j \<notin> depPrev (h (ns' ! i))"
  proof
    assume "ns' ! j \<in> depPrev (h (ns' ! i))"
    then have "ns' ! j \<in> set (take i ns')"
      using ord [unfolded members_in_order_def, rule_format, of i "ns' ! j"] sup j by simp
    then obtain k where "k < i" "ns' ! k = ns' ! j" using j by (auto simp: in_set_conv_nth)
    with j \<open>distinct ns'\<close> show False by (simp add: nth_eq_iff_index_eq)
  qed
  then show "ns' ! i \<in> depPrev (h (ns' ! j))" using ok mem ne j(3) unfolding statements_ok_def by blast
qed

text \<open>A statement tree of the circuit does what the assignments \<open>us\<close> do in their order.\<close>

definition does :: "stmtnode \<Rightarrow> exptree list \<Rightarrow> bool" where
  "does st us \<longleftrightarrow>
     (\<forall>u E. run (test_num u) (assign_num u) st E = exec_trees (test_num u) (assign_num u) us E)"

lemma super_stmts_does:
  assumes "distinct ns" "\<forall>n \<in> set ns. member_ok h s n" "members_in_order h s ns" "deps_cover h ns"
    "settled (concat (map (trees_of h) ns))"
  shows "\<exists>st P'. super_stmts h ns P = Some (st, P') \<and> does st (concat (map (trees_of h) ns))"
proof -
  obtain st P' where st: "super_stmts h ns P = Some (st, P')"
    using circuit.super_stmts_run [OF assms, of P] by blast
  then have "does st (concat (map (trees_of h) ns))"
    using circuit.super_stmts_run [OF assms, of P] by (fastforce simp: does_def)
  with st show ?thesis by blast
qed

lemma ordered_stmts:
  assumes ok: "statements_ok h s ns" and m: "mset ns' = mset ns" and ord: "members_in_order h s ns'"
  shows "\<exists>st P'. super_stmts h ns' P = Some (st, P') \<and> does st (concat (map (trees_of h) ns'))"
proof -
  have st: "set ns' = set ns" using mset_eq_setD [OF m] .
  have d: "distinct ns'" using ok mset_eq_imp_distinct_iff [OF m] by (simp add: statements_ok_def sortable_def)
  have "one_writer h ns'" using ok st by (simp add: statements_ok_def one_writer_def)
  then have "settled (concat (map (trees_of h) ns'))" using d one_writer_settled by blast
  moreover have "\<forall>n \<in> set ns'. member_ok h s n" using ok st by (simp add: statements_ok_def)
  ultimately show ?thesis using super_stmts_does [OF d _ ord ordered_deps_cover [OF ok m ord]] by blast
qed

text \<open>The loop over the super nodes that orders their members.\<close>

definition reordered :: "graph \<Rightarrow> superid set \<Rightarrow> graph \<Rightarrow> bool" where
  "reordered g A g' \<longleftrightarrow>
     nodes g' = nodes g \<and> sortedSuper g' = sortedSuper g
     \<and> (\<forall>s. mset (smember (supers g' s)) = mset (smember (supers g s)))
     \<and> (\<forall>s \<in> A. members_in_order (nodes g) s (smember (supers g' s)))
     \<and> (\<forall>s. s \<notin> A \<longrightarrow> supers g' s = supers g s)"

lemma reorder_all:
  assumes "\<forall>s \<in> set ss. sortable (nodes g) s (smember (supers g s))"
  shows "distinct ss \<Longrightarrow> set ss \<inter> A = {} \<Longrightarrow> reordered g A g1
    \<Longrightarrow> \<exists>g'. fold_abort reorder_super ss g1 = Some g' \<and> reordered g (A \<union> set ss) g'"
  using assms
proof (induction ss arbitrary: A g1)
  case (Cons s ss)
  have s: "supers g1 s = supers g s" "nodes g1 = nodes g" using Cons.prems(2,3) by (auto simp: reordered_def)
  obtain ns where ns: "reorderMember (nodes g) s (smember (supers g s)) = Some ns" "mset ns = mset (smember (supers g s))"
    "members_in_order (nodes g) s ns"
    using reorderMember_sorts [of "nodes g" s] Cons.prems(4) by auto
  let ?g = "g1\<lparr>supers := (supers g1)(s := (supers g1 s)\<lparr>smember := ns\<rparr>)\<rparr>"
  have r: "reorder_super s g1 = Some ?g" using ns(1) s by (simp add: reorder_super_def)
  have "reordered g (insert s A) ?g" using Cons.prems(3) ns s by (auto simp: reordered_def)
  from Cons.IH [OF _ _ this] Cons.prems r show ?case by auto
qed simp

lemma sorted_stmts_all:
  assumes "\<And>s P. s \<in> set ss \<Longrightarrow> \<exists>st P'. super_stmts h (f s) P = Some (st, P') \<and> good s st"
  shows "distinct ss \<Longrightarrow> \<exists>T' P'. fold_abort (\<lambda>s (T, allPath). map_option (\<lambda>(st, P). (T(s \<mapsto> st), P)) (super_stmts h (f s) allPath)) ss (T, P) = Some (T', P')
    \<and> (\<forall>s \<in> set ss. \<exists>st. T' s = Some st \<and> good s st) \<and> (\<forall>s. s \<notin> set ss \<longrightarrow> T' s = T s)"
  using assms
proof (induction ss arbitrary: T P)
  case (Cons s ss)
  obtain st P1 where st: "super_stmts h (f s) P = Some (st, P1)" "good s st" using Cons.prems(2) [of s P] by auto
  have d: "distinct ss" and good: "\<And>s P. s \<in> set ss \<Longrightarrow> \<exists>st P'. super_stmts h (f s) P = Some (st, P') \<and> good s st"
    using Cons.prems by simp_all
  obtain T' P' where T: "fold_abort (\<lambda>s (T, allPath). map_option (\<lambda>(st, P). (T(s \<mapsto> st), P)) (super_stmts h (f s) allPath)) ss (T(s \<mapsto> st), P1) = Some (T', P')"
    "\<forall>s \<in> set ss. \<exists>st. T' s = Some st \<and> good s st" "\<forall>x. x \<notin> set ss \<longrightarrow> T' x = (T(s \<mapsto> st)) x"
    using Cons.IH [OF d good, of "T(s \<mapsto> st)" P1] by blast
  have "fold_abort (\<lambda>s (T, allPath). map_option (\<lambda>(st, P). (T(s \<mapsto> st), P)) (super_stmts h (f s) allPath)) (s # ss) (T, P) = Some (T', P')"
    using T(1) st(1) by (simp del: fun_upd_apply)
  moreover have "T' s = Some st" using T(3) Cons.prems(1) by simp
  then have "\<forall>x \<in> set (s # ss). \<exists>st. T' x = Some st \<and> good x st" "\<forall>x. x \<notin> set (s # ss) \<longrightarrow> T' x = T x"
    using T(2,3) st(2) by auto
  ultimately show ?case by blast
qed simp

text \<open>
  C6: the statement trees of the whole graph are right.  If in every super node the dependences
  are symmetric, without a cycle and cover the conflicts between members, and every node is
  assigned by one member, then the ordering of the members and the generation of the trees
  succeed: every super node keeps its members, in an order that respects the dependences,
  and running its statement tree does to every state what the assignments of its members do
  one after another in that order.
\<close>

theorem statement_trees_correct:
  assumes "distinct (sortedSuper g)" "\<forall>s \<in> set (sortedSuper g). statements_ok (nodes g) s (smember (supers g s))"
  shows "\<exists>g' T. order_and_merge g = Some (g', T)
    \<and> (\<forall>s \<in> set (sortedSuper g). mset (smember (supers g' s)) = mset (smember (supers g s))
        \<and> members_in_order (nodes g) s (smember (supers g' s))
        \<and> (\<exists>st. T s = Some st \<and> does st (concat (map (trees_of (nodes g)) (smember (supers g' s))))))"
proof -
  have "reordered g {} g" by (simp add: reordered_def)
  then obtain g' where g': "fold_abort reorder_super (sortedSuper g) g = Some g'" "reordered g (set (sortedSuper g)) g'"
    using reorder_all [of "sortedSuper g" g "{}" g] assms by (auto simp: statements_ok_def)
  then have r: "nodes g' = nodes g" "sortedSuper g' = sortedSuper g"
    "\<And>s. mset (smember (supers g' s)) = mset (smember (supers g s))"
    "\<And>s. s \<in> set (sortedSuper g) \<Longrightarrow> members_in_order (nodes g) s (smember (supers g' s))"
    by (simp_all add: reordered_def)
  have "\<exists>st P'. super_stmts (nodes g) (smember (supers g' s)) P = Some (st, P')
      \<and> does st (concat (map (trees_of (nodes g)) (smember (supers g' s))))" if "s \<in> set (sortedSuper g)" for s P
    using ordered_stmts [OF _ r(3) r(4) [OF that]] assms(2) that by blast
  from sorted_stmts_all [of "sortedSuper g" "nodes g" "\<lambda>s. smember (supers g' s)"
      "\<lambda>s st. does st (concat (map (trees_of (nodes g)) (smember (supers g' s))))", OF this assms(1), of Map.empty Map.empty]
  obtain T P where "sorted_stmts g' = Some (T, P)"
    "\<forall>s \<in> set (sortedSuper g). \<exists>st. T s = Some st \<and> does st (concat (map (trees_of (nodes g)) (smember (supers g' s))))"
    using r(1,2) by (auto simp: sorted_stmts_def)
  with g'(1) r(3,4) show ?thesis by (auto simp: order_and_merge_def)
qed

subsection \<open>An example\<close>

text \<open>Node 1 copies the input 0, and node 2 takes it under the condition of the input.\<close>

definition demo_assign :: "nodeid \<Rightarrow> enode \<Rightarrow> exptree" where
  "demo_assign n e = \<lparr>root = e, lvalue = new_leaf n\<rparr>"

definition demo_when :: enode where
  "demo_when = ENode ((new_eattr OP_WHEN)\<lparr>width := 1\<rparr>) [Some (new_leaf 0), Some (new_leaf 1), None]"

definition demo_stmts :: graph where
  "demo_stmts =
     \<lparr>nodes = (\<lambda>n. new_node NODE_OTHERS)
        (1 := (new_node NODE_OTHERS)\<lparr>super := Some 0, depPrev := {0}, depNext := {2}, assignTree := [demo_assign 1 (new_leaf 0)]\<rparr>,
         2 := (new_node NODE_OTHERS)\<lparr>super := Some 0, depPrev := {0, 1}, assignTree := [demo_assign 2 demo_when]\<rparr>),
      supers = (\<lambda>s. new_super\<lparr>smember := [2, 1]\<rparr>), input = [], output = [], regsrc = [], memory = [],
      specialNodes = [], supersrc = [], sortedSuper = [0]\<rparr>"

lemma demo_trees:
  "trees_of (nodes demo_stmts) 1 = [demo_assign 1 (new_leaf 0)]" "trees_of (nodes demo_stmts) 2 = [demo_assign 2 demo_when]"
  "member_trees (nodes demo_stmts) 1 \<noteq> None" "member_trees (nodes demo_stmts) 2 \<noteq> None"
  by (simp_all add: trees_of_def member_trees_def async_dst_def demo_stmts_def new_node_def)

lemma demo_rely: "getRelyNodes (demo_assign 1 (new_leaf 0)) = {0}" "getRelyNodes (demo_assign 2 demo_when) = {0, 1}"
  by (auto simp: getRelyNodes_def tree_rely_list_def demo_assign_def demo_when_def new_leaf_def new_eattr_def)

lemma demo_target: "e_node (lvalue (demo_assign n e)) = Some n" "child (lvalue (demo_assign n e)) = []"
  by (simp_all add: demo_assign_def new_leaf_def new_eattr_def)

lemma demo_tree_conds: "conds_ok (new_leaf n)" "conds_ok demo_when"
proof -
  show l: "conds_ok (new_leaf n)" for n
    by (subst conds_ok.simps) (simp add: conditional_def new_leaf_def new_eattr_def)
  have "when_parts demo_when = Some (new_leaf 0, Some (new_leaf 1), None)" by (simp add: when_parts_def demo_when_def)
  moreover have "mem_free (new_leaf 0)" by (simp add: new_leaf_def new_eattr_def)
  ultimately show "conds_ok demo_when" using l by (subst conds_ok.simps) simp
qed

lemma demo_tree_ok: "tree_ok h (demo_assign 1 (new_leaf 0))" "tree_ok h (demo_assign 2 demo_when)"
proof -
  have r: "root (demo_assign n e) = e" for n e by (simp add: demo_assign_def)
  show "tree_ok h (demo_assign 1 (new_leaf 0))" "tree_ok h (demo_assign 2 demo_when)"
    unfolding tree_ok_def demo_target r demo_rely by (simp_all add: demo_tree_conds(1) demo_tree_conds(2))
qed

lemma demo_nodes:
  "super (nodes demo_stmts 1) = Some 0" "super (nodes demo_stmts 2) = Some 0" "super (nodes demo_stmts 0) = None"
  "depPrev (nodes demo_stmts 1) = {0}" "depPrev (nodes demo_stmts 2) = {0, 1}"
  "depNext (nodes demo_stmts 1) = {2}" "depNext (nodes demo_stmts 2) = {}"
  by (simp_all add: demo_stmts_def new_node_def)

lemma demo_sortable: "sortable (nodes demo_stmts) 0 [2, 1]"
proof -
  have "acyclic {(p, n). n \<in> set [2, 1] \<and> p \<in> depPrev (nodes demo_stmts n) \<and> super (nodes demo_stmts p) = Some 0}"
    by (rule acyclic_subset [OF wf_acyclic [OF wf_less_than]])
      (use demo_nodes in \<open>auto simp del: One_nat_def\<close>)
  then show ?thesis unfolding sortable_def
    by (simp add: demo_nodes del: One_nat_def)
qed

lemma demo_one_writer: "one_writer (nodes demo_stmts) [2, 1]"
  unfolding one_writer_def by (simp add: demo_trees demo_target demo_rely del: One_nat_def)

lemma demo_statements_ok: "statements_ok (nodes demo_stmts) 0 [2, 1]"
proof -
  have "\<forall>n \<in> set [2, 1]. member_ok (nodes demo_stmts) 0 n"
    unfolding member_ok_def by (simp add: demo_trees demo_nodes demo_tree_ok del: One_nat_def not_None_eq)
  moreover have "\<forall>m \<in> set [2, 1]. \<forall>n \<in> set [2, 1]. m \<noteq> n
      \<longrightarrow> m \<in> depPrev (nodes demo_stmts n) \<or> n \<in> depPrev (nodes demo_stmts m)"
    by (simp add: demo_nodes del: One_nat_def)
  ultimately show ?thesis using demo_sortable demo_one_writer unfolding statements_ok_def by blast
qed

theorem statement_trees_correct_witness:
  "\<exists>g' T st. order_and_merge demo_stmts = Some (g', T) \<and> mset (smember (supers g' 0)) = {#1, 2#} \<and> T 0 = Some st
    \<and> does st (concat (map (trees_of (nodes demo_stmts)) (smember (supers g' 0))))"
proof -
  have g: "sortedSuper demo_stmts = [0]" "smember (supers demo_stmts 0) = [2, 1]" by (simp_all add: demo_stmts_def)
  from statement_trees_correct [of demo_stmts] show ?thesis using demo_statements_ok by (auto simp: g)
qed

text \<open>
  One assignment.  If every statement that clashes with the assignment lies within the two
  paths, \<^verbatim>\<open>mergeExpTree\<close> succeeds, and afterwards the statement tree does what it did before and
  then writes the value of the expression to the target.
\<close>

lemma mergeExpTree_assigns:
  assumes "holds_trees h us st" "tree_ok h t" "rooted prevPath" "rooted nodePath" "e_node (lvalue t) = Some n"
    and "settled_for n us" "\<forall>(a, F) \<in> sites st. clash n (getRelyNodes t) F \<longrightarrow> 0 # a \<le> max prevPath nodePath"
    and "branches_typed (root t)" "eval (run (test_num u) (assign_num u) st E) (root t) = Val v"
  shows "\<exists>st' np. mergeExpTree h st t prevPath nodePath belong = Some (st', np)
    \<and> run (test_num u) (assign_num u) st' E
        = (let E' = run (test_num u) (assign_num u) st E in write_val E' n (index_nums u E' (lvalue t)) v)"
proof -
  obtain st' np where m: "mergeExpTree h st t prevPath nodePath belong = Some (st', np)"
    using mergeExpTree_total [OF assms(2,1)] by force
  have dep: "0 # a \<le> max prevPath nodePath" if "(a, F) \<in> sites st" "clash n (getRelyNodes t) F" for a F
    using assms(7) that by blast
  obtain path np0 where "merged h path (lvalue t) belong st (Some (root t)) 1 True np0 st' np"
    "free_after (lim_path path 1 True) n (getRelyNodes t) st"
    by (rule mergeExpTree_step [OF m assms(1,2,5,3,4,6) dep])
  moreover have "target_ok h (lvalue t) n (getRelyNodes t)" "tree_fits (getRelyNodes t) (Some (root t))"
    using tree_okD [OF assms(2)] assms(5) by (metis option.inject)+
  ultimately have "run (test_num u) (assign_num u) st' E
      = exec (test_num u) (assign_num u) (lvalue t) (Some (root t)) (run (test_num u) (assign_num u) st E)"
    using assms(1,6) by (intro circuit.merged_run) (auto simp: holds_trees_def)
  with m exec_value [OF assms(5,8,9)] show ?thesis by (simp add: Let_def)
qed

end
