(* ===== verification/Spec2Isabelle.thy ===== *)
theory Spec2Isabelle
  imports Prelude Types OpFuncs Util Expr Refine Node InferWidth Graph TopoSort LoopDetector DeadNodes
    AliasAnalysis CommonExpr ConstTree ConstOps ConstReady ConstSound ConstRemove TreeOpt
    WidthOps WidthSound WidthFit UsedOps UsedBits UsedSound WidthNode InferFit InferTyped InferAll InferCircuit InferDiverge PatternDetect
    Schedule MergeNodes Resort InitPartition WhenMerge ResetMerge Partition ResetAnalysis ClockOpt
    StmtTree StmtPaths StmtSem StmtSites StmtGen StmtMerge StmtSound StmtSuper StmtOrder
begin

text \<open>
  A verification development of gsim, a compiler from FIRRTL circuits to C++ simulators.

  \<^bold>\<open>The program.\<close>  The parser (\<^verbatim>\<open>parser/\<close>, \<^verbatim>\<open>src/firParser.cpp\<close>) and \<^verbatim>\<open>src/AST2Graph.cpp\<close> turn a
  FIRRTL file into a graph of nodes, each with assignment trees of expressions.  The passes
  called from \<^verbatim>\<open>src/main.cpp\<close> then transform the graph: array splitting, loop detection,
  topological sort, width inference, dead node removal, simplification of expressions, used
  bits, node splitting, constant analysis, alias analysis, pattern detection, common
  expressions, partitioning into super nodes, replication.  Finally statement trees and
  instructions are generated (\<^verbatim>\<open>src/StmtTree.cpp\<close>, \<^verbatim>\<open>src/instsGenerator.cpp\<close>) and written as C++ (the
  \<^verbatim>\<open>cppEmitter\<close> files).  The passes share the nodes: each reads and rewrites the trees, widths,
  status and edges that the others left.

  \<^bold>\<open>Data.\<close>  \<open>Types\<close> has the enumerations.  \<open>Expr\<close> has \<^verbatim>\<open>ENode\<close> (record \<open>eattr\<close> and its
  children) and \<^verbatim>\<open>ExpTree\<close>, with the meaning of expressions: \<open>eval\<close> gives the outcome of a tree
  in a state (a value, nothing assigned, or undefined) with every node cut to its width,
  \<open>fireval\<close> the exact value.  The source has no such definition; it follows the FIRRTL
  operations and is the yardstick of the passes.  \<open>Refine\<close> says when a tree may stand in for
  another, and states the contract of a tree rewriting pass as the locale \<open>tree_pass\<close>.  \<open>Node\<close>
  and \<open>Graph\<close> have \<^verbatim>\<open>Node\<close>, \<^verbatim>\<open>SuperNode\<close> and \<^verbatim>\<open>graph\<close>: pointers are numbers, the heap maps numbers to
  records, sets of pointers are sets.  A failed \<^verbatim>\<open>Assert\<close>, \<^verbatim>\<open>Panic\<close>, \<^verbatim>\<open>TODO\<close> or null dereference
  is \<open>None\<close> (type \<open>abortable\<close>); trees are values, so no two trees share a node.

  \<^bold>\<open>Components.\<close>
  \<^item> \<open>Prelude\<close>: \<open>fits\<close> and \<open>wrap\<close>, two's complement numbers of a width, with the lemmas all
    components use.
  \<^item> \<open>OpFuncs\<close> (\<^verbatim>\<open>opFuncs.cpp\<close>): the operations on constants, over an interface to GMP (locale
    \<open>gmp_lib\<close>, interpreted by integers).  Conversions are inverse, subtraction and bit
    selection are right.
  \<^item> \<open>Util\<close> (\<^verbatim>\<open>util.cpp\<close>): number and name conversions; hexadecimal printing is invertible,
    \<^verbatim>\<open>upperPower2\<close> is the least power.
  \<^item> \<open>InferWidth\<close> (\<^verbatim>\<open>inferWidth.cpp\<close>): on one tree, inferred widths lose no bit and \<^verbatim>\<open>updateHeadTail\<close>
    keeps values.  \<open>InferAll\<close> has the nodes and the work list of \<^verbatim>\<open>inferAllWidth\<close>: with declared
    registers and memories it is one visit per node in topological order.  \<open>InferTyped\<close> states the
    typing rules of FIRRTL independently of the code, and \<open>InferCircuit\<close> shows that on a circuit that
    is well typed before the pass no check fails and (with \<open>InferFit\<close>, from inferred trees to
    fitted ones) every node is left with the FIRRTL value of its trees.  \<open>InferDiverge\<close> shows a register without declared width on which it does not end.
  \<^item> \<open>Graph\<close> (\<^verbatim>\<open>graph.cpp\<close>, \<^verbatim>\<open>superNode.cpp\<close>, \<^verbatim>\<open>Node.cpp\<close>): the edges after \<^verbatim>\<open>reconnectAll\<close> are
    exactly the references of the trees.
  \<^item> \<open>TopoSort\<close> (\<^verbatim>\<open>topoSort.cpp\<close>): both orders meet one contract (locale \<open>scheduler\<close>), and one pass in
    that order computes the solution of all equations.
  \<^item> \<open>LoopDetector\<close> (\<^verbatim>\<open>loopDetector.cpp\<close>): it ends, reported loops are cycles, and not all cycles
    are reported.
  \<^item> \<open>DeadNodes\<close> (\<^verbatim>\<open>deadNodes.cpp\<close>): exactly what the roots depend on is kept.
  \<^item> \<open>AliasAnalysis\<close> (\<^verbatim>\<open>aliasAnalysis.cpp\<close>) and \<open>CommonExpr\<close> (\<^verbatim>\<open>commonExpr.cpp\<close>): replacing keeps the
    value of every expression.
  \<^item> \<open>ConstTree\<close> (\<^verbatim>\<open>valInfo.h\<close> and the tree half of \<^verbatim>\<open>constantNode.cpp\<close>): folding, every operation;
    \<open>ConstReady\<close> shows on which trees it does not abort, \<open>ConstOps\<close> and \<open>ConstSound\<close> that folded
    constants are the values of the trees, \<open>ConstRemove\<close>
    models \<^verbatim>\<open>removeConstant\<close> and shows that it refines the tree.  Where the code folds wrongly
    the theorems have a hypothesis that excludes the case, and a theorem exhibits it.
  \<^item> \<open>TreeOpt\<close> (\<^verbatim>\<open>exprOpt.cpp\<close>, filling of \<^verbatim>\<open>when\<close> branches): the simplified trees refine the old ones.
  \<^item> \<open>WidthOps\<close> (\<^verbatim>\<open>ENode.cpp\<close>, \<^verbatim>\<open>ExpTree.cpp\<close>): the functions that make widths match.  \<open>WidthSound\<close>
    treats \<^verbatim>\<open>matchWidth\<close>, \<open>WidthFit\<close> treats \<^verbatim>\<open>updateWithNewWidth\<close>: values stay, references get the
    width of their nodes; \<open>WidthNode\<close> puts both together for a node (\<^verbatim>\<open>updateTreeWithNewWIdth\<close>).
  \<^item> \<open>PatternDetect\<close> (\<^verbatim>\<open>patternDetect.cpp\<close>): both patterns keep the values where they apply rightly, and
    removed nodes are unread; two theorems show where they apply wrongly.
  \<^item> \<open>UsedBits\<close> (\<^verbatim>\<open>usedBits.cpp\<close>): the pass; \<open>UsedOps\<close> and \<open>UsedSound\<close> show that the bits it asks of
    operands suffice, so that a tree in the cut circuit computes the used bits of its value.
  \<^item> \<open>ResetAnalysis\<close> (\<^verbatim>\<open>resetAnalysis.cpp\<close>): a register gets the kind its reset condition resolves to.
    \<open>ClockOpt\<close> (\<^verbatim>\<open>clockOptimize.cpp\<close>): clocks are traced to their sources; their values are objects in
    an explicit store, since the code writes through shared pointers, and a theorem shows what
    this does to gated clocks.
  \<^item> \<open>Schedule\<close> says what a grouping of nodes into super nodes has to keep (every node in one super
    node, edges between super nodes that cover those between nodes and respect a rank) and
    when members may be moved; the contract of a pass is the locale \<open>schedule_pass\<close>.
    \<open>MergeNodes\<close>, \<open>WhenMerge\<close> and \<open>ResetMerge\<close> (\<^verbatim>\<open>mergeNodes.cpp\<close>), \<open>Resort\<close> and \<open>InitPartition\<close>
    (\<^verbatim>\<open>graphPartition.cpp\<close>) model the passes: each ends and keeps the schedule, turning \<^verbatim>\<open>when\<close> into
    \<^verbatim>\<open>mux\<close> keeps values, resets are filed under their conditions, and the initial partition
    is bounded in size and cuts as few edges as possible.  \<open>Partition\<close> composes them as
    \<^verbatim>\<open>graphPartition\<close> does.

  \<^item> \<open>StmtTree\<close> (\<^verbatim>\<open>StmtTree.cpp\<close>): the members of a super node are ordered and their assignments merged
    into one tree of statements that tests shared conditions once.  \<open>StmtSem\<close> gives statements
    their meaning (locale \<open>statements\<close>, over any test and assignment, interpreted by those of a
    circuit); \<open>StmtPaths\<close> and \<open>StmtSites\<close> treat positions and what statements read and write, \<open>StmtGen\<close>,
    \<open>StmtMerge\<close> and \<open>StmtSound\<close> one assignment, \<open>StmtSuper\<close> and \<open>StmtOrder\<close> a super node and the graph:
    the statements do what the assignments do one after another.

  \<^bold>\<open>Termination.\<close>  Loops over work lists are partial functions in the option monad, and the
  theorems state that they return.  \<^verbatim>\<open>updateWithNewWidth\<close>, whose loop looks at rewritten nodes
  again, has a weight that falls (\<open>WidthOps.weight\<close>).  No definition uses fuel.

  \<^bold>\<open>Parameters.\<close>  GMP is the record \<open>gmp\<close> with its documented behaviour as \<open>gmp_lib\<close>.  The
  addresses that \<^verbatim>\<open>prevHash\<close> adds up are a function \<open>addr\<close>, and the options of the command line
  and the environment are arguments.

  \<^bold>\<open>Not modelled.\<close>  Log output and counters; parsing and construction of the graph;
  replication and the merging of registers; instruction generation and
  the emitters, whose result is C++ text without a semantics to measure it by; recorded
  schedules (\<^verbatim>\<open>seedOrder\<close> files), which come from outside.  The node half of \<^verbatim>\<open>constantNode.cpp\<close>,
  where the values of nodes are shared objects that are changed through pointers, and the
  splitting passes are open.
\<close>

end
